(* ===== verification/Ocfs2_Prelude.thy ===== *)
theory Ocfs2_Prelude
  imports Main "HOL-Library.Word" "HOL-Library.Monad_Syntax"
begin

text \<open>
  Shared vocabulary of the development: the machine integer types, byte buffers, the error
  codes of the library (\<open>libocfs2/ocfs2_err.et\<close>), and the generic facts on lists, words and
  the option monad that the component theories use.

  Conventions.  A C function that can touch memory outside its buffer, dereference a null pointer
  or call \<open>abort\<close> is a function into \<open>option\<close>: \<open>None\<close> stands for such an undefined or
  aborted execution, so a theorem that the result is \<open>Some\<close> is a memory-safety statement.  An
  \<open>errcode_t\<close> result is a value: the sum \<open>errcode + 'a\<close>, with \<open>Inl\<close> for a non-zero code.
\<close>

unbundle bit_operations_syntax

type_synonym byte = "8 word"
type_synonym u16 = "16 word"
type_synonym u32 = "32 word"
type_synonym u64 = "64 word"

named_theorems buf_simps \<open>reading and writing byte buffers\<close>

subsection \<open>Error codes\<close>

text \<open>The error codes of \<open>libocfs2/ocfs2_err.et\<close> that the modelled functions return.\<close>

datatype errcode =
    OCFS2_ET_IO
  | OCFS2_ET_NO_MEMORY
  | OCFS2_ET_INVALID_ARGUMENT
  | OCFS2_ET_INVALID_BIT
  | OCFS2_ET_BIT_NOT_FOUND
  | OCFS2_ET_ITERATION_COMPLETE
  | OCFS2_ET_INTERNAL_FAILURE
  | OCFS2_ET_INVALID_LOCKRES
  | OCFS2_ET_RO_FILESYS
  | OCFS2_ET_DIR_CORRUPTED
  | OCFS2_ET_DIR_NO_SPACE
  | OCFS2_ET_FILE_NOT_FOUND
  | OCFS2_ET_BAD_DIR_BLOCK_MAGIC
  | OCFS2_ET_SHORT_READ
  | OCFS2_ET_SHORT_WRITE
  | OCFS2_ET_UNEXPECTED_BLOCK_SIZE
  | OCFS2_ET_BAD_BLKNO
  | OCFS2_ET_BAD_GROUP_DESC_MAGIC
  | OCFS2_ET_CORRUPT_GROUP_DESC
  | OCFS2_ET_INODE_NOT_VALID
  | OCFS2_ET_INODE_CANNOT_BE_ITERATED
  | OCFS2_ET_FREEING_UNALLOCATED_REGION
  | OCFS2_ET_BAD_EXTENT_BLOCK_MAGIC
  | OCFS2_ET_CORRUPT_EXTENT_BLOCK
  | OCFS2_ET_NO_SPACE
  | OCFS2_ET_CORRUPT_SUPERBLOCK
  | OCFS2_ET_CONFLICTING_FEATURES
  | OCFS2_ET_UNSUPP_FEATURE
  | OCFS2_ET_RO_UNSUPP_FEATURE
  | OCFS2_ET_TOO_MANY_SLOTS
  | OCFS2_ET_SYMLINK_LOOP
  | OCFS2_ET_NO_DIRECTORY
  | BLOCK_ABORT_RC  \<comment> \<open>the flag \<open>OCFS2_BLOCK_ABORT\<close> (2), where it is returned in place of an error code\<close>

type_synonym 'a result = "errcode + 'a"

subsection \<open>Unsigned and signed C integers as numbers\<close>

text \<open>
  Where a component counts with \<open>uint64_t\<close> or \<open>int\<close> and the arithmetic could leave the type's
  range, the model uses natural numbers with the wrap-around written out; signed overflow is
  undefined and gives \<open>None\<close>.
\<close>

definition INT_MAX :: nat where "INT_MAX = 2147483647"
definition UINT64_MAX :: nat where "UINT64_MAX = 18446744073709551615"

definition add64 :: "nat \<Rightarrow> nat \<Rightarrow> nat" where
  "add64 a b = (a + b) mod 2 ^ 64"

definition sub64 :: "nat \<Rightarrow> nat \<Rightarrow> nat" where
  "sub64 a b = (a + (2 ^ 64 - b mod 2 ^ 64)) mod 2 ^ 64"

definition int64 :: "int \<Rightarrow> nat" where
  "int64 i = nat (i mod 2 ^ 64)"  \<comment> \<open>conversion of an \<open>int\<close> to \<open>uint64_t\<close>\<close>

lemma add64_eq: "a + b < 2 ^ 64 \<Longrightarrow> add64 a b = a + b"
  by (simp add: add64_def)

lemma sub64_eq: "b \<le> a \<Longrightarrow> a < 2 ^ 64 \<Longrightarrow> sub64 a b = a - b"
  by (simp add: sub64_def mod_if)

lemma int64_eq: "0 \<le> i \<Longrightarrow> i < 2 ^ 64 \<Longrightarrow> int64 i = nat i"
  by (simp add: int64_def)

subsection \<open>Lists\<close>

definition next_such :: "(nat \<Rightarrow> bool) \<Rightarrow> nat \<Rightarrow> nat \<Rightarrow> nat" where
  "next_such P sz offset =
     (case find P [offset..<sz] of Some i \<Rightarrow> i | None \<Rightarrow> sz)"

lemma find_upt_None: "find P [a..<b] = None \<longleftrightarrow> (\<forall>i. a \<le> i \<and> i < b \<longrightarrow> \<not> P i)"
  by (auto simp: find_None_iff)

lemma find_upt_Some:
  "find P [a..<b] = Some i \<longleftrightarrow> a \<le> i \<and> i < b \<and> P i \<and> (\<forall>j. a \<le> j \<and> j < i \<longrightarrow> \<not> P j)"
proof -
  have "find P [a..<b] = Some i \<longleftrightarrow>
      (\<exists>k<length [a..<b]. P ([a..<b] ! k) \<and> i = [a..<b] ! k \<and> (\<forall>j<k. \<not> P ([a..<b] ! j)))"
    by (simp add: find_Some_iff)
  also have "\<dots> \<longleftrightarrow> (\<exists>k<b - a. P (a + k) \<and> i = a + k \<and> (\<forall>j<k. \<not> P (a + j)))"
    by (auto simp: nth_upt)
  also have "\<dots> \<longleftrightarrow> a \<le> i \<and> i < b \<and> P i \<and> (\<forall>j. a \<le> j \<and> j < i \<longrightarrow> \<not> P j)"
  proof
    assume "\<exists>k<b - a. P (a + k) \<and> i = a + k \<and> (\<forall>j<k. \<not> P (a + j))"
    then obtain k where k: "k < b - a" "P (a + k)" "i = a + k" "\<forall>j<k. \<not> P (a + j)"
      by blast
    have "\<not> P j" if "a \<le> j" "j < i" for j
      using that k(3,4) by (metis add_less_cancel_left le_Suc_ex)
    with k show "a \<le> i \<and> i < b \<and> P i \<and> (\<forall>j. a \<le> j \<and> j < i \<longrightarrow> \<not> P j)"
      by simp
  next
    assume "a \<le> i \<and> i < b \<and> P i \<and> (\<forall>j. a \<le> j \<and> j < i \<longrightarrow> \<not> P j)"
    then show "\<exists>k<b - a. P (a + k) \<and> i = a + k \<and> (\<forall>j<k. \<not> P (a + j))"
      by (intro exI [of _ "i - a"]) auto
  qed
  finally show ?thesis .
qed

lemma next_such_eqI:
  assumes "offset \<le> i" and "i < sz" and "P i"
    and "\<And>j. offset \<le> j \<Longrightarrow> j < i \<Longrightarrow> \<not> P j"
  shows "next_such P sz offset = i"
proof -
  have "find P [offset..<sz] = Some i"
    using assms by (simp add: find_upt_Some)
  then show ?thesis by (simp add: next_such_def)
qed

lemma next_such_none:
  assumes "\<And>j. offset \<le> j \<Longrightarrow> j < sz \<Longrightarrow> \<not> P j"
  shows "next_such P sz offset = sz"
proof -
  have "find P [offset..<sz] = None"
    using assms by (simp add: find_upt_None)
  then show ?thesis by (simp add: next_such_def)
qed

lemma next_such_le: "next_such P sz offset \<le> sz"
  by (auto simp: next_such_def find_upt_Some split: option.splits)

lemma next_such_less_iff:
  "next_such P sz offset < sz \<longleftrightarrow> (\<exists>i. find P [offset..<sz] = Some i)"
proof (cases "find P [offset..<sz]")
  case None
  then show ?thesis by (simp add: next_such_def)
next
  case (Some i)
  then have "i < sz" by (simp add: find_upt_Some)
  with Some show ?thesis by (simp add: next_such_def)
qed

lemma next_such_lessD:
  assumes "next_such P sz offset < sz"
  shows next_such_sat: "P (next_such P sz offset)" and "offset \<le> next_such P sz offset"
proof -
  from assms obtain i where i: "find P [offset..<sz] = Some i"
    by (auto simp: next_such_less_iff)
  then have "next_such P sz offset = i" by (simp add: next_such_def)
  with i show "P (next_such P sz offset)" and "offset \<le> next_such P sz offset"
    by (simp_all add: find_upt_Some)
qed

lemma next_such_ge: "offset \<le> sz \<Longrightarrow> offset \<le> next_such P sz offset"
  by (auto simp: next_such_def find_upt_Some split: option.splits)

lemma next_such_before:
  "offset \<le> j \<Longrightarrow> j < next_such P sz offset \<Longrightarrow> \<not> P j"
  by (auto simp: next_such_def find_upt_Some find_upt_None split: option.splits)

lemma next_such_skip:
  assumes "offset \<le> m" and "m \<le> sz" and "\<And>j. offset \<le> j \<Longrightarrow> j < m \<Longrightarrow> \<not> P j"
  shows "next_such P sz offset = next_such P sz m"
proof (cases "find P [m..<sz]")
  case None
  then have "find P [offset..<sz] = None"
    using assms(3) by (auto simp: find_upt_None) (metis not_le)
  with None show ?thesis by (simp add: next_such_def)
next
  case (Some i)
  then have "find P [offset..<sz] = Some i"
    using assms by (auto simp: find_upt_Some) (metis not_le)
  with Some show ?thesis by (simp add: next_such_def)
qed

subsection \<open>Words\<close>

lemma unat_suc: "b + 1 \<noteq> 0 \<Longrightarrow> unat (b + 1 :: u32) = Suc (unat b)"
  by (metis add.commute unatSuc)

lemma unat_u32_less: "unat (b :: u32) < 2 ^ 32"
proof -
  have "unat b < 2 ^ LENGTH(32)" by (rule unsigned_less)
  then show ?thesis by simp
qed

lemma room_decreases: "b + 1 \<noteq> 0 \<Longrightarrow> 2 ^ 32 - unat (b + 1 :: u32) < 2 ^ 32 - unat b"
  using unat_u32_less [of b] by (simp add: unat_suc)

lemma unat_of_nat_u32: "n < 2 ^ 32 \<Longrightarrow> unat (of_nat n :: u32) = n"
  by (simp add: unat_of_nat)

lemma u32_eqI: "unat a = unat b \<Longrightarrow> a = (b :: u32)"
  by (rule unsigned_word_eqI)

lemma unat_exp: "k < 32 \<Longrightarrow> unat (2 ^ k :: u32) = 2 ^ k"
proof -
  assume "k < 32"
  then have "(2 :: nat) ^ k < 2 ^ 32" by (rule power_strict_increasing) simp
  moreover have "(2 ^ k :: u32) = of_nat (2 ^ k)" by simp
  ultimately show ?thesis by (metis unat_of_nat_u32)
qed

lemma xor_eq_0_iff: "a XOR b = 0 \<longleftrightarrow> a = (b :: u32)"
proof
  assume "a XOR b = 0"
  then have "(a XOR b) XOR b = b" by simp
  then show "a = b" by (simp add: xor.assoc)
qed simp

lemma xor_cancel_left: "c XOR a = c XOR b \<longleftrightarrow> a = (b :: u32)"
proof
  assume "c XOR a = c XOR b"
  then have "c XOR (c XOR a) = c XOR (c XOR b)" by simp
  then show "a = b" by (simp flip: xor.assoc)
qed simp

subsection \<open>Reading and writing parts of a buffer\<close>

definition patch :: "'a list \<Rightarrow> nat \<Rightarrow> 'a list \<Rightarrow> 'a list" where
  "patch buf off bs = take off buf @ bs @ drop (off + length bs) buf"

definition write_bytes :: "byte list \<Rightarrow> nat \<Rightarrow> byte list \<Rightarrow> byte list option" where
  "write_bytes buf off bs = (if off + length bs \<le> length buf then Some (patch buf off bs) else None)"

definition read_bytes :: "byte list \<Rightarrow> nat \<Rightarrow> nat \<Rightarrow> byte list option" where
  "read_bytes buf off n = (if off + n \<le> length buf then Some (take n (drop off buf)) else None)"

lemma length_patch [simp]: "off + length bs \<le> length buf \<Longrightarrow> length (patch buf off bs) = length buf"
  by (simp add: patch_def)

lemma nth_patch:
  assumes "off + length bs \<le> length buf" and "i < length buf"
  shows "patch buf off bs ! i = (if off \<le> i \<and> i < off + length bs then bs ! (i - off) else buf ! i)"
  using assms by (auto simp: patch_def nth_append min_def)

lemma write_bytes_eq [buf_simps]:
  "off + length bs \<le> length buf \<Longrightarrow> write_bytes buf off bs = Some (patch buf off bs)"
  by (simp add: write_bytes_def)

lemma read_bytes_eq [buf_simps]:
  "off + n \<le> length buf \<Longrightarrow> read_bytes buf off n = Some (map (\<lambda>i. buf ! (off + i)) [0..<n])"
  by (auto simp: read_bytes_def intro!: nth_equalityI)

text \<open>
  Outputs of a run, where the output of a step depends on the steps before it.
\<close>

definition outputs :: "('a list \<Rightarrow> 'a \<Rightarrow> 'b list) \<Rightarrow> 'a list \<Rightarrow> 'b list" where
  "outputs f xs = concat (map (\<lambda>i. f (take i xs) (xs ! i)) [0..<length xs])"

lemma outputs_Nil [simp]: "outputs f [] = []"
  by (simp add: outputs_def)

lemma outputs_snoc [simp]: "outputs f (xs @ [x]) = outputs f xs @ f xs x"
proof -
  have "map (\<lambda>i. f (take i (xs @ [x])) ((xs @ [x]) ! i)) [0..<length xs] = map (\<lambda>i. f (take i xs) (xs ! i)) [0..<length xs]"
    by (rule map_cong) (auto simp: nth_append)
  moreover have "take (length xs) (xs @ [x]) = xs" "(xs @ [x]) ! length xs = x" "[0..<length (xs @ [x])] = [0..<length xs] @ [length xs]" by simp_all
  ultimately show ?thesis by (simp only: outputs_def map_append concat_append) simp
qed

lemma outputs_Cons: "outputs f (x # xs) = f [] x @ outputs (\<lambda>ys. f (x # ys)) xs"
  by (induction xs rule: rev_induct) (simp_all add: outputs_def [of f "[x]"] append_Cons [symmetric] del: append_Cons)

end
