(* ===== verification/Bitops.thy ===== *)
theory Bitops
  imports Ocfs2_Prelude
begin

text \<open>
  The bit operations on byte buffers of \<open>libocfs2/bitops.c\<close>.  A buffer \<open>addr\<close> is a list of
  bytes; bit numbers are the C \<open>int\<close> arguments, which are never negative here, so \<open>nr >> 3\<close> and
  \<open>nr & 7\<close> are division and remainder by 8.  A read or write past the buffer is \<open>None\<close>.
\<close>

subsection \<open>Setting, clearing and testing one bit\<close>

definition ocfs2_set_bit :: "nat \<Rightarrow> byte list \<Rightarrow> (bool \<times> byte list) option" where
  "ocfs2_set_bit nr addr =
     (if nr div 8 < length addr then
        let mask = push_bit (nr mod 8) (1 :: byte); old = addr ! (nr div 8)
        in Some (mask AND old \<noteq> 0, addr[nr div 8 := old OR mask])
      else None)"

definition ocfs2_clear_bit :: "nat \<Rightarrow> byte list \<Rightarrow> (bool \<times> byte list) option" where
  "ocfs2_clear_bit nr addr =
     (if nr div 8 < length addr then
        let mask = push_bit (nr mod 8) (1 :: byte); old = addr ! (nr div 8)
        in Some (mask AND old \<noteq> 0, addr[nr div 8 := old AND NOT mask])
      else None)"

definition ocfs2_test_bit :: "nat \<Rightarrow> byte list \<Rightarrow> bool option" where
  "ocfs2_test_bit nr addr =
     (if nr div 8 < length addr then
        let mask = push_bit (nr mod 8) (1 :: byte)
        in Some (mask AND (addr ! (nr div 8)) \<noteq> 0)
      else None)"

subsection \<open>Searching for the next set or clear bit\<close>

text \<open>The C library's \<open>ffs\<close>: one plus the index of the least significant set bit, 0 if none.\<close>

definition ffs :: "u32 \<Rightarrow> nat" where
  "ffs w = (case find (bit w) [0..<32] of None \<Rightarrow> 0 | Some i \<Rightarrow> Suc i)"

definition read_byte :: "byte list \<Rightarrow> nat \<Rightarrow> byte option" where
  "read_byte addr i = (if i < length addr then Some (addr ! i) else None)"

text \<open>
  The \<open>while\<close> loop of both searches: skip bytes equal to \<open>v\<close>.  The C code keeps the pointer
  \<open>p\<close> and the bit number \<open>res\<close> in step, \<open>res = 8 * (p - addr)\<close>; the model keeps the byte index.
\<close>

function skip_bytes :: "byte \<Rightarrow> byte list \<Rightarrow> nat \<Rightarrow> nat \<Rightarrow> nat option" where
  "skip_bytes v addr sz p =
     (if 8 * p < sz then
        do { b \<leftarrow> read_byte addr p;
             if b = v then skip_bytes v addr sz (Suc p) else Some p }
      else Some p)"
  by pat_completeness auto
termination
  by (relation "measure (\<lambda>(v, addr, sz, p). sz - 8 * p)") auto

declare skip_bytes.simps [simp del]

definition tail_mask :: "nat \<Rightarrow> nat \<Rightarrow> u32" where
  "tail_mask sz res = (if res + 8 > sz then drop_bit (8 - (sz - res)) 255 else 255)"

text \<open>
  Each search first looks at the rest of the byte that holds \<open>offset\<close>, when \<open>offset\<close> is not on a
  byte boundary, and then at whole bytes; the second part is a function of the byte it starts at.
\<close>

definition find_set_from :: "byte list \<Rightarrow> nat \<Rightarrow> nat \<Rightarrow> nat option" where
  "find_set_from addr sz p0 =
     do { p \<leftarrow> skip_bytes 0 addr sz p0;
          if 8 * p \<ge> sz then Some sz
          else do { b \<leftarrow> read_byte addr p;
                    let d0 = ffs (ucast b AND tail_mask sz (8 * p));
                    Some (if d0 = 0 then sz else 8 * p + d0 - 1) } }"

definition ocfs2_find_next_bit_set :: "byte list \<Rightarrow> nat \<Rightarrow> nat \<Rightarrow> nat option" where
  "ocfs2_find_next_bit_set addr sz offset =
     (if sz = 0 then Some 0
      else if offset mod 8 \<noteq> 0 then
        do { b \<leftarrow> read_byte addr (offset div 8);
             let set = ffs (ucast b AND NOT (push_bit (offset mod 8) 1 - 1));
             if set \<noteq> 0 then Some (8 * (offset div 8) + set - 1)
             else find_set_from addr sz (Suc (offset div 8)) }
      else find_set_from addr sz (offset div 8))"

definition find_clear_from :: "byte list \<Rightarrow> nat \<Rightarrow> nat \<Rightarrow> nat option" where
  "find_clear_from addr sz p0 =
     do { p \<leftarrow> skip_bytes 255 addr sz p0;
          if 8 * p \<ge> sz then Some sz
          else do { b \<leftarrow> read_byte addr p;
                    let d0 = ffs (NOT (ucast b AND tail_mask sz (8 * p)));
                    Some (if d0 = 0 then sz else 8 * p + d0 - 1) } }"

definition ocfs2_find_next_bit_clear :: "byte list \<Rightarrow> nat \<Rightarrow> nat \<Rightarrow> nat option" where
  "ocfs2_find_next_bit_clear addr sz offset =
     (if sz = 0 then Some 0
      else if offset mod 8 \<noteq> 0 then
        do { b \<leftarrow> read_byte addr (offset div 8);
             let set = ffs (NOT (ucast b) AND NOT (push_bit (offset mod 8) 1 - 1) AND 255);
             if set \<noteq> 0 then Some (8 * (offset div 8) + set - 1)
             else find_clear_from addr sz (Suc (offset div 8)) }
      else find_clear_from addr sz (offset div 8))"

definition ocfs2_find_first_bit_set :: "byte list \<Rightarrow> nat \<Rightarrow> nat option" where
  "ocfs2_find_first_bit_set addr sz = ocfs2_find_next_bit_set addr sz 0"

definition ocfs2_find_first_bit_clear :: "byte list \<Rightarrow> nat \<Rightarrow> nat option" where
  "ocfs2_find_first_bit_clear addr sz = ocfs2_find_next_bit_clear addr sz 0"

subsection \<open>Bits of a buffer\<close>

definition buf_bit :: "byte list \<Rightarrow> nat \<Rightarrow> bool" where
  "buf_bit addr i = bit (addr ! (i div 8)) (i mod 8)"

definition put_bit :: "byte list \<Rightarrow> nat \<Rightarrow> bool \<Rightarrow> byte list" where
  "put_bit addr i v =
     addr[i div 8 := (if v then Bit_Operations.set_bit (i mod 8) (addr ! (i div 8))
                      else unset_bit (i mod 8) (addr ! (i div 8)))]"

lemma length_put_bit [simp]: "length (put_bit addr i v) = length addr"
  by (simp add: put_bit_def)

lemma buf_bit_put_bit:
  assumes "i < 8 * length addr"
  shows "buf_bit (put_bit addr i v) j = (if j = i then v else buf_bit addr j)"
proof (cases "j div 8 = i div 8")
  case True
  have "j = i \<longleftrightarrow> j mod 8 = i mod 8" using True by (metis div_mult_mod_eq)
  moreover have "i div 8 < length addr" using assms by simp
  ultimately show ?thesis using True
    by (auto simp: buf_bit_def put_bit_def bit_set_bit_iff bit_unset_bit_iff)
next
  case False
  then have "j \<noteq> i" by auto
  with False show ?thesis by (simp add: buf_bit_def put_bit_def)
qed

lemma buf_eqI:
  assumes len: "length xs = length ys"
    and bits: "\<And>i. i < 8 * length xs \<Longrightarrow> buf_bit xs i = buf_bit ys i"
  shows "xs = ys"
proof (rule nth_equalityI [OF len])
  fix k assume k: "k < length xs"
  show "xs ! k = ys ! k"
  proof (rule bit_word_eqI)
    fix n assume "n < LENGTH(8)"
    then have n: "n < 8" by simp
    have "buf_bit xs (8 * k + n) = buf_bit ys (8 * k + n)"
      using k n by (intro bits) simp
    with n show "bit (xs ! k) n = bit (ys ! k) n" by (simp add: buf_bit_def)
  qed
qed

lemma mask_and_eq: "(2 ^ n AND (w :: byte) = 0) = (\<not> (n < 8 \<and> bit w n))"
proof -
  have "(2 ^ n AND w = 0) = (\<forall>k<8. \<not> bit (2 ^ n AND w) k)"
    by (auto simp: bit_eq_iff)
  then show ?thesis by (auto simp: bit_simps)
qed

lemma ocfs2_set_bit_eq:
  assumes "nr < 8 * length addr"
  shows "ocfs2_set_bit nr addr = Some (buf_bit addr nr, put_bit addr nr True)"
proof -
  have "addr ! (nr div 8) OR push_bit (nr mod 8) 1 = Bit_Operations.set_bit (nr mod 8) (addr ! (nr div 8))"
    by (rule bit_word_eqI) (auto simp: bit_simps)
  with assms show ?thesis
    by (auto simp: ocfs2_set_bit_def put_bit_def buf_bit_def mask_and_eq Let_def)
qed

lemma ocfs2_clear_bit_eq:
  assumes "nr < 8 * length addr"
  shows "ocfs2_clear_bit nr addr = Some (buf_bit addr nr, put_bit addr nr False)"
proof -
  have "addr ! (nr div 8) AND NOT (push_bit (nr mod 8) 1) = unset_bit (nr mod 8) (addr ! (nr div 8))"
    by (rule bit_word_eqI) (auto simp: bit_simps)
  with assms show ?thesis
    by (auto simp: ocfs2_clear_bit_def put_bit_def buf_bit_def mask_and_eq Let_def)
qed

lemma ocfs2_test_bit_eq:
  "nr < 8 * length addr \<Longrightarrow> ocfs2_test_bit nr addr = Some (buf_bit addr nr)"
  by (auto simp: ocfs2_test_bit_def buf_bit_def mask_and_eq Let_def)

lemmas bit_ops_eq = ocfs2_set_bit_eq ocfs2_clear_bit_eq ocfs2_test_bit_eq

subsection \<open>The searches\<close>

lemma ffs_0: "ffs w = 0 \<longleftrightarrow> w = 0"
proof -
  have "ffs w = 0 \<longleftrightarrow> (\<forall>i<32. \<not> bit w i)"
    by (auto simp: ffs_def find_upt_None find_upt_Some split: option.splits)
  then show ?thesis by (auto simp: bit_eq_iff)
qed

lemma ffs_Suc:
  assumes "ffs w = Suc i"
  shows "bit w i" and "j < i \<Longrightarrow> \<not> bit w j"
  using assms by (auto simp: ffs_def find_upt_None find_upt_Some split: option.splits)

lemma ffs_next_such:
  assumes bits: "\<And>k. bit w k \<longleftrightarrow> k < 8 \<and> a \<le> res + k \<and> res + k < sz \<and> P (res + k)"
    and res: "res \<le> a"
    and rest: "\<And>j. a \<le> j \<Longrightarrow> res + 8 \<le> j \<Longrightarrow> j < sz \<Longrightarrow> ffs w = 0 \<Longrightarrow> \<not> P j"
  shows "(if ffs w = 0 then sz else res + ffs w - 1) = next_such P sz a"
proof (cases "ffs w")
  case 0
  have "\<not> P j" if "a \<le> j" "j < sz" for j
  proof (cases "res + 8 \<le> j")
    case True
    with that rest 0 show ?thesis by blast
  next
    case False
    have "\<not> bit w (j - res)" using 0 by (simp add: ffs_0)
    with False that res show ?thesis by (auto simp: bits)
  qed
  then have "next_such P sz a = sz" by (rule next_such_none)
  with 0 show ?thesis by simp
next
  case (Suc i)
  note i = ffs_Suc [OF Suc]
  have "next_such P sz a = res + i"
  proof (rule next_such_eqI)
    fix j assume j: "a \<le> j" "j < res + i"
    then have "\<not> bit w (j - res)" using res by (intro i(2)) simp
    with j res i(1) show "\<not> P j" by (auto simp: bits)
  qed (use i(1) in \<open>auto simp: bits\<close>)
  with Suc show ?thesis by simp
qed

lemma skip_bytes_spec:
  assumes "sz \<le> 8 * length addr"
  shows "\<exists>q. skip_bytes v addr sz p = Some q \<and> p \<le> q \<and> (\<forall>j. p \<le> j \<and> j < q \<longrightarrow> addr ! j = v)
           \<and> (8 * q < sz \<longrightarrow> q < length addr \<and> addr ! q \<noteq> v)"
  using assms
proof (induction v addr sz p rule: skip_bytes.induct)
  case (1 v addr sz p)
  show ?case
  proof (cases "8 * p < sz \<and> addr ! p = v")
    case True
    then have p: "read_byte addr p = Some v" using "1.prems" by (simp add: read_byte_def)
    with True "1.IH" [of v] "1.prems" obtain q where
      "skip_bytes v addr sz (Suc p) = Some q" "Suc p \<le> q"
      "\<forall>j. Suc p \<le> j \<and> j < q \<longrightarrow> addr ! j = v" "8 * q < sz \<longrightarrow> q < length addr \<and> addr ! q \<noteq> v"
      by auto
    moreover have "\<forall>j. p \<le> j \<and> j < q \<longrightarrow> addr ! j = v"
      using True calculation(3) by (auto simp: Suc_le_eq) (metis le_neq_implies_less)
    ultimately show ?thesis using True p
      by (simp add: skip_bytes.simps [of v addr sz p])
  next
    case False
    with "1.prems" show ?thesis
      by (auto simp: skip_bytes.simps [of v addr sz p] read_byte_def)
  qed
qed

lemma bit_255: "bit (255 :: int) k \<longleftrightarrow> k < 8"
proof -
  have eq: "(255 :: int) = mask 8" by (simp add: mask_eq_exp_minus_1)
  show ?thesis unfolding eq bit_mask_iff by auto
qed

lemma bit_tail_mask: "res < sz \<Longrightarrow> bit (tail_mask sz res) k \<longleftrightarrow> k < 8 \<and> res + k < sz"
  by (auto simp: tail_mask_def bit_drop_bit_eq bit_255)

lemma byte_all_bits: "(\<And>k. k < 8 \<Longrightarrow> bit b k) \<Longrightarrow> b = (255 :: byte)"
  by (rule bit_word_eqI) (simp add: bit_255)

lemma buf_bit_byte: "k < 8 \<Longrightarrow> buf_bit addr (8 * q + k) = bit (addr ! q) k"
  by (simp add: buf_bit_def)

lemma skipped_bits:
  assumes "\<forall>j. p \<le> j \<and> j < q \<longrightarrow> addr ! j = v" and "8 * p \<le> i" and "i < 8 * q"
  shows "buf_bit addr i = bit v (i mod 8)"
proof -
  have "p \<le> i div 8" "i div 8 < q" using assms(2,3) by auto
  with assms(1) show ?thesis by (simp add: buf_bit_def)
qed

lemma bit_ucast_byte: "bit (ucast (b :: byte) :: u32) k \<longleftrightarrow> bit b k"
  by (auto simp: bit_ucast_iff dest: bit_imp_le_length)

lemma find_set_from_eq:
  assumes len: "sz \<le> 8 * length addr"
  shows "find_set_from addr sz p0 = Some (next_such (buf_bit addr) sz (8 * p0))"
proof -
  obtain q where q: "skip_bytes 0 addr sz p0 = Some q" "p0 \<le> q"
    "\<forall>j. p0 \<le> j \<and> j < q \<longrightarrow> addr ! j = 0" "8 * q < sz \<longrightarrow> q < length addr \<and> addr ! q \<noteq> 0"
    using skip_bytes_spec [OF len] by blast
  have clear: "\<not> buf_bit addr j" if "8 * p0 \<le> j" "j < 8 * q" for j
    using skipped_bits [OF q(3) that] by simp
  show ?thesis
  proof (cases "8 * q < sz")
    case False
    with q(1) clear show ?thesis by (simp add: find_set_from_def next_such_none)
  next
    case True
    let ?w = "ucast (addr ! q) AND tail_mask sz (8 * q)"
    have "next_such (buf_bit addr) sz (8 * p0) = next_such (buf_bit addr) sz (8 * q)"
      using True q(2) clear by (intro next_such_skip) auto
    also have "\<dots> = (if ffs ?w = 0 then sz else 8 * q + ffs ?w - 1)"
    proof (rule ffs_next_such [symmetric])
      show "bit ?w k \<longleftrightarrow> k < 8 \<and> 8 * q \<le> 8 * q + k \<and> 8 * q + k < sz \<and> buf_bit addr (8 * q + k)" for k
        using True by (auto simp: bit_and_iff bit_ucast_byte bit_tail_mask buf_bit_byte)
      show "\<not> buf_bit addr j" if "8 * q + 8 \<le> j" "j < sz" "ffs ?w = 0" for j
      proof -
        have "\<And>k. \<not> bit ?w k" using that(3) by (simp add: ffs_0)
        then have "addr ! q = 0"
          using that(1,2) True by (intro bit_word_eqI) (auto simp: bit_and_iff bit_ucast_byte bit_tail_mask)
        with q(4) True show ?thesis by simp
      qed
    qed simp
    finally show ?thesis using q True
      by (simp add: find_set_from_def read_byte_def Let_def)
  qed
qed

lemma find_clear_from_eq:
  assumes len: "sz \<le> 8 * length addr"
  shows "find_clear_from addr sz p0 = Some (next_such (\<lambda>i. \<not> buf_bit addr i) sz (8 * p0))"
proof -
  obtain q where q: "skip_bytes 255 addr sz p0 = Some q" "p0 \<le> q"
    "\<forall>j. p0 \<le> j \<and> j < q \<longrightarrow> addr ! j = 255" "8 * q < sz \<longrightarrow> q < length addr \<and> addr ! q \<noteq> 255"
    using skip_bytes_spec [OF len] by blast
  have full: "buf_bit addr j" if "8 * p0 \<le> j" "j < 8 * q" for j
    using skipped_bits [OF q(3) that] by (simp add: bit_255)
  show ?thesis
  proof (cases "8 * q < sz")
    case False
    with q(1) full show ?thesis by (simp add: find_clear_from_def next_such_none)
  next
    case True
    let ?w = "NOT (ucast (addr ! q) AND tail_mask sz (8 * q))"
    have w: "bit ?w k \<longleftrightarrow> k < 32 \<and> \<not> (k < 8 \<and> 8 * q + k < sz \<and> buf_bit addr (8 * q + k))" for k
      using True by (auto simp: bit_simps bit_ucast_byte bit_tail_mask buf_bit_byte)
    have "bit ?w 8" by (subst w) simp
    then have "?w \<noteq> 0" by (metis bit_0_eq bot_apply bot_bool_def)
    then have "ffs ?w \<noteq> 0" by (simp only: ffs_0 not_False_eq_True)
    then obtain i where i: "ffs ?w = Suc i" using not0_implies_Suc by blast
    note fi = ffs_Suc [OF i]
    have below: "j < 8 \<and> 8 * q + j < sz \<and> buf_bit addr (8 * q + j)" if "j < i" for j
      using fi(2) [OF that] that fi(1) unfolding w by auto
    have "i = 0 \<or> i - 1 < 8 \<and> 8 * q + (i - 1) < sz"
      using below [of "i - 1"] by fastforce
    then have le: "8 * q + i \<le> sz" "i \<le> 8" using True by auto
    have ones: "buf_bit addr j" if "8 * p0 \<le> j" "j < 8 * q + i" for j
      using full [OF that(1)] below [of "j - 8 * q"] that(2) by (cases "j < 8 * q") auto
    have "next_such (\<lambda>i. \<not> buf_bit addr i) sz (8 * p0) = 8 * q + i"
    proof (cases "8 * q + i = sz")
      case True
      with ones show ?thesis by (simp add: next_such_none)
    next
      case False
      have "i \<noteq> 8"
      proof
        assume "i = 8"
        then have "addr ! q = 255"
          using below by (intro byte_all_bits) (simp add: buf_bit_byte)
        with q(4) True show False by simp
      qed
      with fi(1) le False have "\<not> buf_bit addr (8 * q + i)" unfolding w by auto
      with q(2) ones le False show ?thesis by (intro next_such_eqI) auto
    qed
    with q True i show ?thesis
      by (simp add: find_clear_from_def read_byte_def Let_def)
  qed
qed

lemma bit_below: "bit (2 ^ n - 1 :: u32) k \<longleftrightarrow> k < 32 \<and> k < n"
proof -
  have "(2 ^ n - 1 :: u32) = mask n" by (simp add: mask_eq_exp_minus_1)
  then show ?thesis by (auto simp: bit_mask_iff)
qed

text \<open>
  The search inside the first byte, for either polarity: \<open>w\<close> holds the candidate bits at or
  after \<open>offset\<close>; \<open>r\<close> is what the function returns.
\<close>

lemma first_byte_search:
  assumes w: "\<And>k. bit w k \<longleftrightarrow> k < 8 \<and> offset mod 8 \<le> k \<and> P (8 * (offset div 8) + k)"
    and r: "r = (if ffs w \<noteq> 0 then 8 * (offset div 8) + ffs w - 1
                 else next_such P sz (8 * Suc (offset div 8)))"
    and off: "offset \<le> sz"
  shows "min r sz = next_such P sz offset" and "r < sz \<or> r = sz \<or> P r"
    and "sz < r \<Longrightarrow> offset \<le> j \<Longrightarrow> j < r \<Longrightarrow> \<not> P j" and "sz < r \<Longrightarrow> r < 8 * Suc (offset div 8)"
proof -
  let ?q = "offset div 8"
  have le: "offset \<le> 8 * ?q + k \<longleftrightarrow> offset mod 8 \<le> k" for k
    by (metis add_le_cancel_left mult_div_mod_eq)
  have "min r sz = next_such P sz offset \<and> (r < sz \<or> r = sz \<or> P r)
    \<and> (sz < r \<longrightarrow> (\<forall>j. offset \<le> j \<and> j < r \<longrightarrow> \<not> P j) \<and> r < 8 * Suc ?q)"
  proof (cases "ffs w")
    case 0
    have clear: "\<not> P j" if "offset \<le> j" "j < 8 * Suc ?q" for j
    proof -
      have "\<not> bit w (j - 8 * ?q)" using 0 by (simp add: ffs_0)
      moreover have "8 * ?q \<le> j" using that(1) by simp
      ultimately show ?thesis using that le [of "j - 8 * ?q"] by (auto simp: w)
    qed
    have "next_such P sz offset = next_such P sz (8 * Suc ?q)"
    proof (cases "8 * Suc ?q \<le> sz")
      case True
      then show ?thesis using clear by (intro next_such_skip) auto
    next
      case False
      then have "next_such P sz offset = sz" and "next_such P sz (8 * Suc ?q) = sz"
        using clear by (auto intro!: next_such_none)
      then show ?thesis by simp
    qed
    moreover have "next_such P sz (8 * Suc ?q) \<le> sz" by (rule next_such_le)
    ultimately show ?thesis using 0 r by (auto simp: min_def)
  next
    case (Suc i)
    note i = ffs_Suc [OF Suc]
    have ri: "r = 8 * ?q + i" "P r" "offset \<le> r" "r < 8 * Suc ?q"
      using Suc r i(1) le [of i] by (auto simp: w)
    have before: "\<not> P j" if "offset \<le> j" "j < r" for j
    proof -
      have "8 * ?q \<le> j" using that(1) by simp
      with that ri i(2) [of "j - 8 * ?q"] le [of "j - 8 * ?q"] show ?thesis by (auto simp: w)
    qed
    have "min r sz = next_such P sz offset"
    proof (cases "r < sz")
      case True
      with ri before show ?thesis by (auto intro!: next_such_eqI [symmetric])
    next
      case False
      with before show ?thesis by (auto intro!: next_such_none [symmetric])
    qed
    with ri before show ?thesis by auto
  qed
  then show "min r sz = next_such P sz offset" and "r < sz \<or> r = sz \<or> P r"
    and "sz < r \<Longrightarrow> offset \<le> j \<Longrightarrow> j < r \<Longrightarrow> \<not> P j" and "sz < r \<Longrightarrow> r < 8 * Suc (offset div 8)"
    by blast+
qed

lemma find_next_bit_set_cases:
  assumes len: "sz \<le> 8 * length addr" and off: "offset \<le> sz"
  obtains r where "ocfs2_find_next_bit_set addr sz offset = Some r"
    and "min r sz = next_such (buf_bit addr) sz offset"
    and "sz < r \<Longrightarrow> buf_bit addr r \<and> r < 8 * length addr"
proof (cases "sz = 0 \<or> offset mod 8 = 0")
  case True
  have "ocfs2_find_next_bit_set addr sz offset = Some (next_such (buf_bit addr) sz offset)"
  proof (cases "sz = 0")
    case True
    with off show ?thesis by (simp add: ocfs2_find_next_bit_set_def next_such_def)
  next
    case False
    with True have "8 * (offset div 8) = offset" by auto
    with False True find_set_from_eq [OF len, of "offset div 8"] show ?thesis
      by (simp add: ocfs2_find_next_bit_set_def)
  qed
  then show ?thesis
    by (rule that) (use next_such_le [of "buf_bit addr" sz offset] in auto)
next
  case False
  let ?q = "offset div 8"
  let ?w = "ucast (addr ! ?q) AND NOT (2 ^ (offset mod 8) - 1) :: u32"
  let ?r = "if ffs ?w \<noteq> 0 then 8 * ?q + ffs ?w - 1 else next_such (buf_bit addr) sz (8 * Suc ?q)"
  have "offset \<noteq> 8 * length addr" using False by auto
  with len off have q: "?q < length addr" by (simp add: less_mult_imp_div_less)
  have w: "bit ?w k \<longleftrightarrow> k < 8 \<and> offset mod 8 \<le> k \<and> buf_bit addr (8 * ?q + k)" for k
    using bit_imp_le_length [of "addr ! ?q" k]
    by (auto simp: bit_and_iff bit_not_iff bit_ucast_byte bit_below buf_bit_byte)
  note s = first_byte_search [OF w refl off]
  have "ocfs2_find_next_bit_set addr sz offset = Some ?r"
    using False q find_set_from_eq [OF len, of "Suc ?q"]
    by (simp add: ocfs2_find_next_bit_set_def read_byte_def Let_def)
  then show ?thesis
  proof (rule that [OF _ s(1)])
    assume "sz < ?r"
    with s(2,4) q show "buf_bit addr ?r \<and> ?r < 8 * length addr" by force
  qed
qed

text \<open>
  When the padding bits past \<open>sz\<close> in the last byte are zero, both searches return exactly the
  next index below \<open>sz\<close>, or \<open>sz\<close>.
\<close>

definition padded :: "byte list \<Rightarrow> nat \<Rightarrow> bool" where
  "padded addr sz \<longleftrightarrow> sz \<le> 8 * length addr \<and> (\<forall>i. sz \<le> i \<and> i < 8 * length addr \<longrightarrow> \<not> buf_bit addr i)"

lemma ocfs2_find_next_bit_set_eq:
  assumes "padded addr sz" and "offset \<le> sz"
  shows "ocfs2_find_next_bit_set addr sz offset = Some (next_such (buf_bit addr) sz offset)"
proof -
  have len: "sz \<le> 8 * length addr" using assms(1) by (simp add: padded_def)
  obtain r where r: "ocfs2_find_next_bit_set addr sz offset = Some r"
    "min r sz = next_such (buf_bit addr) sz offset" "sz < r \<Longrightarrow> buf_bit addr r \<and> r < 8 * length addr"
    using find_next_bit_set_cases [OF len assms(2)] by blast
  have "\<not> sz < r" using r(3) assms(1) by (auto simp: padded_def)
  with r show ?thesis by simp
qed

lemma ocfs2_find_next_bit_clear_eq:
  assumes pad: "padded addr sz" and off: "offset \<le> sz"
  shows "ocfs2_find_next_bit_clear addr sz offset = Some (next_such (\<lambda>i. \<not> buf_bit addr i) sz offset)"
proof (cases "sz = 0 \<or> offset mod 8 = 0")
  case True
  have len: "sz \<le> 8 * length addr" using pad by (simp add: padded_def)
  show ?thesis
  proof (cases "sz = 0")
    case True
    with off show ?thesis by (simp add: ocfs2_find_next_bit_clear_def next_such_def)
  next
    case False
    with True have "8 * (offset div 8) = offset" by auto
    with False True find_clear_from_eq [OF len, of "offset div 8"] show ?thesis
      by (simp add: ocfs2_find_next_bit_clear_def)
  qed
next
  case False
  let ?P = "\<lambda>i. \<not> buf_bit addr i"
  let ?q = "offset div 8"
  let ?w = "NOT (ucast (addr ! ?q)) AND NOT (2 ^ (offset mod 8) - 1) AND 255 :: u32"
  let ?r = "if ffs ?w \<noteq> 0 then 8 * ?q + ffs ?w - 1 else next_such ?P sz (8 * Suc ?q)"
  have len: "sz \<le> 8 * length addr" using pad by (simp add: padded_def)
  have "offset \<noteq> 8 * length addr" using False by auto
  with len off have q: "?q < length addr" by (simp add: less_mult_imp_div_less)
  have w: "bit ?w k \<longleftrightarrow> k < 8 \<and> offset mod 8 \<le> k \<and> ?P (8 * ?q + k)" for k
    by (auto simp: bit_and_iff bit_not_iff bit_ucast_byte bit_below bit_255 buf_bit_byte)
  note s = first_byte_search [OF w refl off]
  have "\<not> sz < ?r"
  proof
    assume "sz < ?r"
    with s(3) [of sz] off s(4) q have "buf_bit addr sz" and "sz < 8 * length addr" by force+
    with pad show False by (simp add: padded_def)
  qed
  moreover have "ocfs2_find_next_bit_clear addr sz offset = Some ?r"
    using False q find_clear_from_eq [OF len, of "Suc ?q"]
    by (simp add: ocfs2_find_next_bit_clear_def read_byte_def Let_def)
  ultimately show ?thesis using s(1) by simp
qed

text \<open>The search never moves backwards, whatever the buffer holds.\<close>

lemma skip_bytes_ge: "skip_bytes v addr sz p = Some q \<Longrightarrow> p \<le> q"
proof (induction v addr sz p rule: skip_bytes.induct)
  case (1 v addr sz p)
  then show ?case
    by (fastforce simp: skip_bytes.simps [of v addr sz p] bind_eq_Some_conv split: if_splits)
qed

lemma find_set_from_ge: "find_set_from addr sz p0 = Some r \<Longrightarrow> r < sz \<Longrightarrow> 8 * p0 \<le> r"
  by (fastforce simp: find_set_from_def bind_eq_Some_conv Let_def
      split: if_splits dest!: skip_bytes_ge)

lemma find_next_bit_set_ge:
  assumes "ocfs2_find_next_bit_set addr sz offset = Some r" and "r < sz"
  shows "offset \<le> r"
proof (cases "offset mod 8 = 0")
  case True
  then have "8 * (offset div 8) = offset" by auto
  with True assms find_set_from_ge show ?thesis
    by (fastforce simp: ocfs2_find_next_bit_set_def split: if_splits)
next
  case False
  let ?w = "ucast (addr ! (offset div 8)) AND NOT (2 ^ (offset mod 8) - 1) :: u32"
  show ?thesis
  proof (cases "ffs ?w")
    case 0
    with False assms have "find_set_from addr sz (Suc (offset div 8)) = Some r"
      by (auto simp: ocfs2_find_next_bit_set_def read_byte_def bind_eq_Some_conv split: if_splits)
    from find_set_from_ge [OF this assms(2)] show ?thesis
      by presburger
  next
    case (Suc i)
    with False assms have r: "r = 8 * (offset div 8) + i"
      by (auto simp: ocfs2_find_next_bit_set_def read_byte_def bind_eq_Some_conv split: if_splits)
    have "offset mod 8 \<le> i"
      using ffs_Suc(1) [OF Suc] by (auto simp: bit_and_iff bit_not_iff bit_below)
    with r show ?thesis using div_mult_mod_eq [of offset 8] by linarith
  qed
qed

lemma find_clear_from_ge: "find_clear_from addr sz p0 = Some r \<Longrightarrow> r < sz \<Longrightarrow> 8 * p0 \<le> r"
  by (fastforce simp: find_clear_from_def bind_eq_Some_conv Let_def
      split: if_splits dest!: skip_bytes_ge)

lemma find_next_bit_clear_ge:
  assumes "ocfs2_find_next_bit_clear addr sz offset = Some r" and "r < sz"
  shows "offset \<le> r"
proof (cases "offset mod 8 = 0")
  case True
  then have "8 * (offset div 8) = offset" by auto
  with True assms find_clear_from_ge show ?thesis
    by (fastforce simp: ocfs2_find_next_bit_clear_def split: if_splits)
next
  case False
  let ?w = "NOT (ucast (addr ! (offset div 8))) AND NOT (2 ^ (offset mod 8) - 1) AND 255 :: u32"
  show ?thesis
  proof (cases "ffs ?w")
    case 0
    with False assms have "find_clear_from addr sz (Suc (offset div 8)) = Some r"
      by (auto simp: ocfs2_find_next_bit_clear_def read_byte_def bind_eq_Some_conv split: if_splits)
    from find_clear_from_ge [OF this assms(2)] show ?thesis
      by presburger
  next
    case (Suc i)
    with False assms have r: "r = 8 * (offset div 8) + i"
      by (auto simp: ocfs2_find_next_bit_clear_def read_byte_def bind_eq_Some_conv split: if_splits)
    have "offset mod 8 \<le> i"
      using ffs_Suc(1) [OF Suc] by (auto simp: bit_and_iff bit_not_iff bit_below)
    with r show ?thesis using div_mult_mod_eq [of offset 8] by linarith
  qed
qed

end
