(* ===== verification/Hamming.thy ===== *)
theory Hamming
  imports Bitops
begin

text \<open>
  The single-error-correcting Hamming code of \<open>libocfs2/blockcheck.c\<close>.  Data bit numbers and hunk
  offsets are natural numbers; code bits and parity vectors are the C \<open>unsigned int\<close>, 32-bit words.
\<close>

section \<open>The model\<close>

definition hc_hweight32 :: "u32 \<Rightarrow> u32" where
  "hc_hweight32 w =
     (let res = (w AND 0x55555555) + (drop_bit 1 w AND 0x55555555);
          res = (res AND 0x33333333) + (drop_bit 2 res AND 0x33333333);
          res = (res AND 0x0F0F0F0F) + (drop_bit 4 res AND 0x0F0F0F0F);
          res = (res AND 0x00FF00FF) + (drop_bit 8 res AND 0x00FF00FF)
      in (res AND 0x0000FFFF) + (drop_bit 16 res AND 0x0000FFFF))"

text \<open>
  The loop of \<open>calc_code_bit\<close>.  \<open>b + 1\<close> is 32-bit arithmetic; the loop stops at the latest when
  it wraps to 0.
\<close>

function code_bit_loop :: "nat \<Rightarrow> u32 \<Rightarrow> u32 \<times> nat" where
  "code_bit_loop p b =
     (if push_bit p 1 < b + 1 then code_bit_loop (Suc p) (b + 1) else (b, p))"
  by pat_completeness auto
termination
proof (relation "measure (\<lambda>(p, b). 2 ^ 32 - unat b)")
  fix p and b :: u32
  assume "push_bit p 1 < b + 1"
  then have "b + 1 \<noteq> 0" by auto
  then show "((Suc p, b + 1), p, b) \<in> measure (\<lambda>(p, b). 2 ^ 32 - unat b)"
    using room_decreases by simp
qed simp

declare code_bit_loop.simps [simp del]

text \<open>
  \<open>calc_code_bit i p\<close>: \<open>p\<close> is the cached number of parity bits, 0 when the caller passes a null
  \<open>p_cache\<close>; the second component is the value the cache receives.
\<close>

definition calc_code_bit :: "u32 \<Rightarrow> nat \<Rightarrow> u32 \<times> nat" where
  "calc_code_bit i p = code_bit_loop p (i + 1 + of_nat p)"

text \<open>
  \<open>ocfs2_hamming_encode\<close>: the loop over the set bits of the hunk, with the cached parity count
  carried along.  \<open>d\<close> is the number of bits in the hunk, \<open>nr\<close> the bit offset of the hunk.
\<close>

function hamming_encode_loop ::
    "byte list \<Rightarrow> nat \<Rightarrow> nat \<Rightarrow> nat \<Rightarrow> nat \<Rightarrow> u32 \<Rightarrow> u32 option" where
  "hamming_encode_loop data d nr i p parity =
     do { i' \<leftarrow> ocfs2_find_next_bit_set data d i;
          if i' < d then
            (case calc_code_bit (of_nat (nr + i')) p of
               (b, p') \<Rightarrow> hamming_encode_loop data d nr (Suc i') p' (parity XOR b))
          else Some parity }"
  by pat_completeness auto
termination
  by (relation "measure (\<lambda>(data, d, nr, i, p, parity). d - i)")
     (auto dest!: find_next_bit_set_ge)

declare hamming_encode_loop.simps [simp del]

definition ocfs2_hamming_encode :: "u32 \<Rightarrow> byte list \<Rightarrow> nat \<Rightarrow> nat \<Rightarrow> u32 option" where
  "ocfs2_hamming_encode parity data d nr =
     (if d = 0 then None else hamming_encode_loop data d nr 0 0 parity)"

definition ocfs2_hamming_encode_block :: "byte list \<Rightarrow> nat \<Rightarrow> u32 option" where
  "ocfs2_hamming_encode_block data blocksize = ocfs2_hamming_encode 0 data (blocksize * 8) 0"

text \<open>The inner loop of \<open>ocfs2_hamming_fix\<close>: skip past parity bits.\<close>

function skip_parity :: "u32 \<Rightarrow> u32" where
  "skip_parity b = (if hc_hweight32 b = 1 then skip_parity (b + 1) else b)"
  by pat_completeness auto
termination
proof (relation "measure (\<lambda>b. 2 ^ 32 - unat b)")
  fix b :: u32
  assume b: "hc_hweight32 b = 1"
  have "hc_hweight32 0xFFFFFFFF \<noteq> 1" by (simp add: hc_hweight32_def Let_def)
  with b have "b \<noteq> 0xFFFFFFFF" by auto
  moreover have "- 1 = (0xFFFFFFFF :: u32)" by simp
  ultimately have "b \<noteq> - 1" by metis
  then have "b + 1 \<noteq> 0" by (metis add_eq_0_iff add.commute)
  then show "(b + 1, b) \<in> measure (\<lambda>b. 2 ^ 32 - unat b)"
    using room_decreases by simp
qed simp

declare skip_parity.simps [simp del]

function hamming_fix_loop :: "byte list \<Rightarrow> nat \<Rightarrow> u32 \<Rightarrow> nat \<Rightarrow> u32 \<Rightarrow> byte list option" where
  "hamming_fix_loop data d fix_bit i b =
     (if i < d then
        let b' = skip_parity b in
        if b' = fix_bit then
          do { set \<leftarrow> ocfs2_test_bit i data;
               (_, data') \<leftarrow> (if set then ocfs2_clear_bit i data else ocfs2_set_bit i data);
               Some data' }
        else hamming_fix_loop data d fix_bit (Suc i) (b' + 1)
      else Some data)"
  by pat_completeness auto
termination
  by (relation "measure (\<lambda>(data, d, fix_bit, i, b). d - i)") auto

declare hamming_fix_loop.simps [simp del]

definition ocfs2_hamming_fix :: "byte list \<Rightarrow> nat \<Rightarrow> nat \<Rightarrow> u32 \<Rightarrow> byte list option" where
  "ocfs2_hamming_fix data d nr fix_bit =
     (if d = 0 then None
      else if hc_hweight32 fix_bit = 1 then Some data
      else if fix_bit \<ge> fst (calc_code_bit (of_nat (nr + d)) 0) then Some data
      else
        let b = fst (calc_code_bit (of_nat nr) 0) in
        if fix_bit < b then Some data
        else hamming_fix_loop data d fix_bit 0 b)"

definition ocfs2_hamming_fix_block :: "byte list \<Rightarrow> nat \<Rightarrow> u32 \<Rightarrow> byte list option" where
  "ocfs2_hamming_fix_block data blocksize fix_bit =
     ocfs2_hamming_fix data (blocksize * 8) 0 fix_bit"

section \<open>The population count\<close>

text \<open>
  \<open>hc_hweight32\<close> adds neighbouring fields of width 1, 2, 4, 8 and 16 in parallel.  A word is
  read as a list of fields of width \<open>k\<close>, least significant first.
\<close>

fun lanes :: "nat \<Rightarrow> nat list \<Rightarrow> nat" where
  "lanes k [] = 0"
| "lanes k (x # xs) = x + 2 ^ k * lanes k xs"

fun evens :: "'a list \<Rightarrow> 'a list" and odds :: "'a list \<Rightarrow> 'a list" where
  "evens [] = []" | "evens (x # xs) = x # odds xs"
| "odds [] = []" | "odds (x # xs) = evens xs"

fun pair_sums :: "nat list \<Rightarrow> nat list" where
  "pair_sums (x # y # xs) = (x + y) # pair_sums xs"
| "pair_sums xs = xs"

lemma lanes_bound: "\<forall>x\<in>set xs. x < 2 ^ k \<Longrightarrow> lanes k xs < 2 ^ (k * length xs)"
proof (induction xs)
  case (Cons x xs)
  then have "lanes k xs + 1 \<le> 2 ^ (k * length xs)" by simp
  then have "2 ^ k * (lanes k xs + 1) \<le> 2 ^ k * 2 ^ (k * length xs)" by (rule mult_le_mono2)
  moreover have "x < 2 ^ k" using Cons.prems by simp
  ultimately have "x + 2 ^ k * lanes k xs < 2 ^ k * 2 ^ (k * length xs)" by (simp add: algebra_simps)
  then show ?case by (simp add: power_add)
qed simp

lemma bit_split:
  fixes x y :: nat
  assumes "x < 2 ^ n"
  shows "bit (x + 2 ^ n * y) m \<longleftrightarrow> (if m < n then bit x m else bit y (m - n))"
proof -
  have t: "take_bit n (x + 2 ^ n * y) = x" using assms by (simp add: take_bit_eq_mod)
  have d: "drop_bit n (x + 2 ^ n * y) = y" using assms by (simp add: drop_bit_eq_div)
  have "bit x m \<longleftrightarrow> m < n \<and> bit (x + 2 ^ n * y) m" by (subst t [symmetric]) (rule bit_take_bit_iff)
  moreover have "bit y (m - n) \<longleftrightarrow> bit (x + 2 ^ n * y) (n + (m - n))"
    by (subst d [symmetric]) (simp only: bit_drop_bit_eq comp_def)
  ultimately show ?thesis by simp
qed

lemma and_split:
  fixes a b c d :: nat
  assumes a: "a < 2 ^ n" and c: "c < 2 ^ n"
  shows "(a + 2 ^ n * b) AND (c + 2 ^ n * d) = (a AND c) + 2 ^ n * (b AND d)"
proof -
  have "take_bit n (a AND c) = a AND c"
    using a c by (simp add: take_bit_and take_bit_nat_eq_self_iff [THEN iffD2])
  then have "a AND c < 2 ^ n" by (metis take_bit_nat_less_exp)
  then show ?thesis using a c by (intro bit_eqI) (simp add: bit_split bit_and_iff)
qed

abbreviation lane_mask :: "nat \<Rightarrow> nat \<Rightarrow> nat" where
  "lane_mask k n \<equiv> lanes (2 * k) (replicate n (2 ^ k - 1))"

lemma and_low: "(a :: nat) < 2 ^ k \<Longrightarrow> (a + 2 ^ k * b) AND (2 ^ k - 1) = a"
proof -
  assume a: "a < 2 ^ k"
  have "(a + 2 ^ k * b) AND (2 ^ k - 1) = take_bit k (a + 2 ^ k * b)"
    by (simp add: take_bit_eq_mask mask_eq_exp_minus_1)
  with a show ?thesis by (simp add: take_bit_eq_mod)
qed

lemma exp_double: "(2 :: nat) ^ (2 * k) = 2 ^ k * 2 ^ k"
  by (simp add: mult_2 power_add)

lemma lane_bounds: "(x :: nat) < 2 ^ k \<Longrightarrow> y < 2 ^ k \<Longrightarrow> x + 2 ^ k * y < 2 ^ (2 * k)"
  using lanes_bound [of "[x, y]" k] by (simp add: exp_double power_add)

lemma low_lane_mask: "(2 ^ k - 1 :: nat) < 2 ^ (2 * k)"
proof -
  have "(2 ^ k - 1 :: nat) < 2 ^ k * 1" by simp
  also have "\<dots> \<le> 2 ^ k * 2 ^ k" by (rule mult_le_mono2) simp
  finally show ?thesis by (simp only: exp_double)
qed

lemma lanes_and_even:
  "length xs = 2 * n \<Longrightarrow> \<forall>x\<in>set xs. x < 2 ^ k \<Longrightarrow>
   lanes k xs AND lane_mask k n = lanes (2 * k) (evens xs)"
proof (induction n arbitrary: xs)
  case (Suc n)
  then obtain x y zs where xs: "xs = x # y # zs" by (metis Suc_length_conv mult_Suc_right add_2_eq_Suc)
  with Suc.prems have b: "x < 2 ^ k" "y < 2 ^ k" and zs: "length zs = 2 * n" "\<forall>x\<in>set zs. x < 2 ^ k"
    by auto
  have "lanes k xs = (x + 2 ^ k * y) + 2 ^ (2 * k) * lanes k zs"
    by (simp add: xs exp_double distrib_left)
  then have "lanes k xs AND lane_mask k (Suc n) =
      ((x + 2 ^ k * y) AND (2 ^ k - 1)) + 2 ^ (2 * k) * (lanes k zs AND lane_mask k n)"
    by (simp only: replicate_Suc lanes.simps and_split [OF lane_bounds [OF b] low_lane_mask])
  with Suc.IH [OF zs] b show ?case by (simp only: xs and_low odds.simps evens.simps lanes.simps)
qed simp

lemma lanes_and_odd:
  "length xs = 2 * n \<Longrightarrow> \<forall>x\<in>set xs. x < 2 ^ k \<Longrightarrow>
   drop_bit k (lanes k xs) AND lane_mask k n = lanes (2 * k) (odds xs)"
proof (induction n arbitrary: xs)
  case (Suc n)
  then obtain x y zs where xs: "xs = x # y # zs" by (metis Suc_length_conv mult_Suc_right add_2_eq_Suc)
  with Suc.prems have b: "x < 2 ^ k" "y < 2 ^ k" and zs: "length zs = 2 * n" "\<forall>x\<in>set zs. x < 2 ^ k"
    by auto
  let ?L = "lanes k zs"
  have m: "?L mod 2 ^ k < 2 ^ k" by simp
  have "?L = ?L mod 2 ^ k + 2 ^ k * (?L div 2 ^ k)" by simp
  then have "y + 2 ^ k * ?L = y + 2 ^ k * (?L mod 2 ^ k + 2 ^ k * (?L div 2 ^ k))" by simp
  also have "\<dots> = (y + 2 ^ k * (?L mod 2 ^ k)) + 2 ^ (2 * k) * drop_bit k ?L"
    by (simp only: exp_double drop_bit_eq_div distrib_left add.assoc mult.assoc)
  finally have "y + 2 ^ k * ?L = (y + 2 ^ k * (?L mod 2 ^ k)) + 2 ^ (2 * k) * drop_bit k ?L" .
  moreover have "drop_bit k (lanes k xs) = y + 2 ^ k * ?L"
    using b by (simp add: xs drop_bit_eq_div)
  ultimately have "drop_bit k (lanes k xs) AND lane_mask k (Suc n) =
      ((y + 2 ^ k * (?L mod 2 ^ k)) AND (2 ^ k - 1)) + 2 ^ (2 * k) * (drop_bit k ?L AND lane_mask k n)"
    by (simp only: replicate_Suc lanes.simps and_split [OF lane_bounds [OF b(2) m] low_lane_mask])
  with Suc.IH [OF zs] b show ?case by (simp only: xs and_low odds.simps evens.simps lanes.simps)
qed simp

lemma lanes_pair_sums:
  "even (length xs) \<Longrightarrow> lanes k (evens xs) + lanes k (odds xs) = lanes k (pair_sums xs)"
  by (induction xs rule: pair_sums.induct) (auto simp flip: distrib_left)

lemma length_pair_sums: "even (length xs) \<Longrightarrow> 2 * length (pair_sums xs) = length xs"
  by (induction xs rule: pair_sums.induct) auto

lemma sum_list_pair_sums: "sum_list (pair_sums xs) = sum_list xs"
  by (induction xs rule: pair_sums.induct) auto

lemma pair_sums_le: "even (length xs) \<Longrightarrow> \<forall>x\<in>set xs. x \<le> m \<Longrightarrow> \<forall>x\<in>set (pair_sums xs). x \<le> 2 * m"
  by (induction xs rule: pair_sums.induct) auto

text \<open>One step of the count, on words: fields of width \<open>k\<close> are replaced by the sums of pairs.\<close>

definition fields :: "nat \<Rightarrow> nat \<Rightarrow> nat \<Rightarrow> nat list \<Rightarrow> u32 \<Rightarrow> bool" where
  "fields k n m xs w \<longleftrightarrow> unat w = lanes k xs \<and> length xs = n \<and> (\<forall>x\<in>set xs. x \<le> m)"

lemma hweight_step:
  fixes w M :: u32
  assumes w: "fields k (2 * n) m xs w" and n: "k * (2 * n) = 32"
    and M: "unat M = lane_mask k n" and m: "2 * m < 2 ^ (2 * k)" "m < 2 ^ k"
  shows "fields (2 * k) n (2 * m) (pair_sums xs) ((w AND M) + (drop_bit k w AND M))"
proof -
  have len: "length xs = 2 * n" and wl: "unat w = lanes k xs" and le: "\<forall>x\<in>set xs. x \<le> m"
    using w by (auto simp: fields_def)
  have ev: "even (length xs)" using len by simp
  have lt: "\<forall>x\<in>set xs. x < 2 ^ k" using le m(2) by fastforce
  have ps: "length (pair_sums xs) = n" using length_pair_sums [OF ev] len by simp
  have ple: "\<forall>x\<in>set (pair_sums xs). x \<le> 2 * m" by (rule pair_sums_le [OF ev le])
  have "\<forall>x\<in>set (pair_sums xs). x < 2 ^ (2 * k)" using ple m(1) by fastforce
  moreover have "2 * k * n = 32" using n by simp
  ultimately have bound: "lanes (2 * k) (pair_sums xs) < 2 ^ 32"
    using lanes_bound [of "pair_sums xs" "2 * k"] ps by metis
  have "take_bit 32 (lanes k xs) = lanes k xs"
    using unat_u32_less [of w] by (simp add: wl take_bit_nat_eq_self_iff)
  then have "unat (w AND M) + unat (drop_bit k w AND M) = lanes (2 * k) (pair_sums xs)"
    using lanes_and_even [OF len lt] lanes_and_odd [OF len lt] lanes_pair_sums [OF ev, of "2 * k"]
    by (simp add: unsigned_and_eq unsigned_drop_bit_eq wl M)
  with bound ps ple show ?thesis
    by (simp add: fields_def unat_word_ariths)
qed

definition bits_of :: "u32 \<Rightarrow> nat list" where
  "bits_of w = map (\<lambda>i. of_bool (bit w i)) [0..<32]"

lemma lanes_bits_of: "unat w = lanes 1 (bits_of w)"
proof -
  have "lanes 1 (map of_bool bs) = horner_sum of_bool 2 bs" for bs
    by (induction bs) auto
  from this [of "map (bit w) [0..<32]"] have "lanes 1 (bits_of w) = horner_sum of_bool 2 (map (bit (unat w)) [0..<32])"
    by (simp add: bits_of_def comp_def bit_unsigned_iff cong: map_cong)
  also have "\<dots> = take_bit 32 (unat w)" by (rule horner_sum_bit_eq_take_bit)
  also have "\<dots> = unat w" using unat_u32_less [of w] by (simp add: take_bit_nat_eq_self_iff)
  finally show ?thesis by simp
qed

lemma lanes_replicate_numeral:
  "lanes k (replicate (numeral v) c) = c + 2 ^ k * lanes k (replicate (pred_numeral v) c)"
  by (simp add: numeral_eq_Suc)

lemma lane_masks:
  "lane_mask 1 16 = 0x55555555" "lane_mask 2 8 = 0x33333333" "lane_mask 4 4 = 0x0F0F0F0F"
  "lane_mask 8 2 = 0x00FF00FF" "lane_mask 16 1 = 0x0000FFFF"
  by (simp_all add: lanes_replicate_numeral)

lemma hc_hweight32_sum: "unat (hc_hweight32 w) = sum_list (bits_of w)"
proof -
  let ?p = pair_sums
  define r1 where "r1 = (w AND 0x55555555) + (drop_bit 1 w AND 0x55555555)"
  define r2 where "r2 = (r1 AND 0x33333333) + (drop_bit 2 r1 AND 0x33333333)"
  define r3 where "r3 = (r2 AND 0x0F0F0F0F) + (drop_bit 4 r2 AND 0x0F0F0F0F)"
  define r4 where "r4 = (r3 AND 0x00FF00FF) + (drop_bit 8 r3 AND 0x00FF00FF)"
  define r5 where "r5 = (r4 AND 0x0000FFFF) + (drop_bit 16 r4 AND 0x0000FFFF)"
  have f0: "fields 1 (2 * 16) 1 (bits_of w) w"
    unfolding fields_def lanes_bits_of [symmetric] by (auto simp: bits_of_def)
  have "fields (2 * 1) 16 (2 * 1) (?p (bits_of w)) r1"
    unfolding r1_def by (rule hweight_step [OF f0]) (simp_all only: lane_masks, simp_all)
  then have f1: "fields 2 (2 * 8) 2 (?p (bits_of w)) r1" by simp
  have "fields (2 * 2) 8 (2 * 2) (?p (?p (bits_of w))) r2"
    unfolding r2_def by (rule hweight_step [OF f1]) (simp_all only: lane_masks, simp_all)
  then have f2: "fields 4 (2 * 4) 4 (?p (?p (bits_of w))) r2" by simp
  have "fields (2 * 4) 4 (2 * 4) (?p (?p (?p (bits_of w)))) r3"
    unfolding r3_def by (rule hweight_step [OF f2]) (simp_all only: lane_masks, simp_all)
  then have f3: "fields 8 (2 * 2) 8 (?p (?p (?p (bits_of w)))) r3" by simp
  have "fields (2 * 8) 2 (2 * 8) (?p (?p (?p (?p (bits_of w))))) r4"
    unfolding r4_def by (rule hweight_step [OF f3]) (simp_all only: lane_masks, simp_all)
  then have f4: "fields 16 (2 * 1) 16 (?p (?p (?p (?p (bits_of w))))) r4" by simp
  have f5: "fields (2 * 16) 1 (2 * 16) (?p (?p (?p (?p (?p (bits_of w)))))) r5"
    unfolding r5_def by (rule hweight_step [OF f4]) (simp_all only: lane_masks, simp_all)
  then obtain s where "?p (?p (?p (?p (?p (bits_of w))))) = [s]" and "unat r5 = s"
    by (auto simp: fields_def length_Suc_conv)
  moreover have "sum_list (?p (?p (?p (?p (?p (bits_of w)))))) = sum_list (bits_of w)"
    by (simp add: sum_list_pair_sums)
  ultimately have "unat r5 = sum_list (bits_of w)" by simp
  moreover have "hc_hweight32 w = r5"
    by (simp only: hc_hweight32_def Let_def r1_def r2_def r3_def r4_def r5_def)
  ultimately show ?thesis by simp
qed

lemma hc_hweight32_card: "unat (hc_hweight32 w) = card {i. bit w i}"
proof -
  have "sum_list (map (\<lambda>i. of_bool (P i)) xs) = card (set (filter P xs))" if "distinct xs"
    for P and xs :: "nat list"
    using that by (induction xs) auto
  from this [of "[0..<32]" "bit w"] have "sum_list (bits_of w) = card {i. i < 32 \<and> bit w i}"
    by (simp add: bits_of_def)
  moreover have "{i. i < 32 \<and> bit w i} = {i. bit w i}" by (auto dest: bit_imp_le_length)
  ultimately show ?thesis by (simp add: hc_hweight32_sum)
qed

lemma hc_hweight32_1: "hc_hweight32 w = 1 \<longleftrightarrow> (\<exists>k<32. unat w = 2 ^ k)"
proof
  assume "hc_hweight32 w = 1"
  then have "card {i. bit w i} = 1" by (simp flip: hc_hweight32_card)
  then obtain k where k: "{i. bit w i} = {k}" by (auto simp: card_1_singleton_iff)
  then have b: "bit w i \<longleftrightarrow> i = k" for i by auto
  then have "k < 32" using bit_imp_le_length [of w k] by simp
  moreover have "w = 2 ^ k"
    by (rule bit_word_eqI) (auto simp: b bit_simps)
  ultimately show "\<exists>k<32. unat w = 2 ^ k"
    by (intro exI [of _ k]) (simp add: unat_exp)
next
  assume "\<exists>k<32. unat w = 2 ^ k"
  then obtain k where k: "k < 32" "unat w = 2 ^ k" by blast
  then have "w = 2 ^ k" by (metis unat_exp u32_eqI)
  then have "{i. bit w i} = {k}" using k(1) by (auto simp: bit_simps)
  then have "unat (hc_hweight32 w) = 1" by (simp add: hc_hweight32_card)
  then show "hc_hweight32 w = 1" by (intro u32_eqI) simp
qed

section \<open>Code bit numbers\<close>

text \<open>
  The abstract numbering: data bit \<open>i\<close> becomes code bit \<open>code_pos i\<close>, the \<open>i\<close>-th number that is
  not a power of two; \<open>parity_below i\<close> is the number of powers of two below it.
\<close>

definition parity_below :: "nat \<Rightarrow> nat" where
  "parity_below i = (LEAST p. i + 1 + p < 2 ^ p)"

definition code_pos :: "nat \<Rightarrow> nat" where
  "code_pos i = i + 1 + parity_below i"

lemma exp_large: "i + 1 + (i + 2) < 2 ^ (i + 2)"
  by (induction i) auto

lemma parity_below_less: "i + 1 + parity_below i < 2 ^ parity_below i"
  unfolding parity_below_def by (rule LeastI [of "\<lambda>p. i + 1 + p < 2 ^ p", OF exp_large])

lemma parity_below_min: "p < parity_below i \<Longrightarrow> 2 ^ p \<le> i + 1 + p"
  unfolding parity_below_def using not_less_Least not_le by blast

lemma parity_below_le: "i + 1 + p < 2 ^ p \<Longrightarrow> parity_below i \<le> p"
  unfolding parity_below_def by (rule Least_le)

lemma parity_below_pos: "2 \<le> parity_below i"
proof (rule ccontr)
  assume "\<not> 2 \<le> parity_below i"
  then have "parity_below i = 0 \<or> parity_below i = 1" by auto
  with parity_below_less [of i] show False by auto
qed

lemma parity_below_mono: "i \<le> j \<Longrightarrow> parity_below i \<le> parity_below j"
  using parity_below_less [of j] by (intro parity_below_le) simp

lemma code_pos_between: "2 ^ (parity_below i - 1) < code_pos i" "code_pos i < 2 ^ parity_below i"
  using parity_below_min [of "parity_below i - 1" i] parity_below_pos [of i] parity_below_less [of i]
  by (auto simp: code_pos_def)

lemma exp_between: "(2 :: nat) ^ (p - 1) < 2 ^ k \<Longrightarrow> 2 ^ k < (2 :: nat) ^ p \<Longrightarrow> False"
  by simp

lemma code_pos_not_power: "code_pos i \<noteq> 2 ^ k"
  using exp_between [of "parity_below i" k] code_pos_between [of i] by auto

lemma code_pos_mono: "i < j \<Longrightarrow> code_pos i < code_pos j"
  using parity_below_mono [of i j] by (simp add: code_pos_def)

lemma code_pos_inj: "code_pos i = code_pos j \<Longrightarrow> i = j"
  by (metis code_pos_mono nat_neq_iff)

text \<open>The next code bit is the next number, or the one after it if that is a power of two.\<close>

lemma code_pos_Suc:
  "code_pos (Suc i) = (if \<exists>k. code_pos i + 1 = 2 ^ k then code_pos i + 2 else code_pos i + 1)"
proof (cases "code_pos i + 1 < 2 ^ parity_below i")
  case True
  then have "parity_below (Suc i) = parity_below i"
    using parity_below_le [of "Suc i" "parity_below i"] parity_below_mono [of i "Suc i"]
    by (simp add: code_pos_def)
  then have eq: "code_pos (Suc i) = code_pos i + 1" by (simp add: code_pos_def)
  moreover have "\<not> (\<exists>k. code_pos i + 1 = 2 ^ k)" using eq code_pos_not_power [of "Suc i"] by metis
  ultimately show ?thesis by simp
next
  case False
  let ?q = "parity_below i"
  have q: "code_pos i + 1 = 2 ^ ?q" using False code_pos_between(2) [of i] by simp
  then have "parity_below (Suc i) \<noteq> ?q"
    using parity_below_less [of "Suc i"] by (auto simp: code_pos_def)
  moreover have "parity_below (Suc i) \<le> Suc ?q"
    using q parity_below_pos [of i] by (intro parity_below_le) (auto simp: code_pos_def)
  ultimately have "parity_below (Suc i) = Suc ?q"
    using parity_below_mono [of i "Suc i"] by simp
  then show ?thesis using q by (auto simp: code_pos_def)
qed

lemma code_pos_0: "code_pos 0 = 3"
proof -
  have "parity_below 0 \<le> 2" by (rule parity_below_le) simp
  with parity_below_pos [of 0] show ?thesis by (simp add: code_pos_def)
qed

subsection \<open>The loop computes the numbering\<close>

text \<open>Data bit numbers are bounded so that no 32-bit addition wraps.\<close>

abbreviation "data_bits_max \<equiv> (2 :: nat) ^ 30"

lemma parity_below_31: "i \<le> data_bits_max \<Longrightarrow> parity_below i \<le> 31"
  by (rule parity_below_le) simp

lemma code_pos_31: "i \<le> data_bits_max \<Longrightarrow> code_pos i < 2 ^ 31"
  using parity_below_31 [of i] by (simp add: code_pos_def)

lemma code_bit_loop_eq:
  assumes "i \<le> data_bits_max" and "p \<le> parity_below i"
  shows "code_bit_loop p (of_nat (i + 1 + p)) = (of_nat (code_pos i), parity_below i)"
  using assms(2)
proof (induction "parity_below i - p" arbitrary: p)
  case (0 p)
  have p: "p = parity_below i" using "0.prems" "0.hyps" by simp
  have "unat (of_nat (i + 1 + p + 1) :: u32) = i + 1 + p + 1"
    using parity_below_31 [OF assms(1)] p assms(1) by (intro unat_of_nat_u32) simp
  moreover have "unat (push_bit p 1 :: u32) = 2 ^ p"
    using parity_below_31 [OF assms(1)] p by (simp add: unat_exp)
  ultimately have "\<not> push_bit p 1 < (of_nat (i + 1 + p + 1) :: u32)"
    using parity_below_less [of i] p unfolding word_less_nat_alt by simp
  then have "\<not> push_bit p 1 < (of_nat (i + 1 + p) + 1 :: u32)" by (simp add: ac_simps)
  then show ?case using p by (subst code_bit_loop.simps) (simp add: code_pos_def)
next
  case (Suc n p)
  have p: "p < parity_below i" using Suc.hyps(2) by simp
  have "unat (of_nat (i + 1 + p + 1) :: u32) = i + 1 + p + 1"
    using parity_below_31 [OF assms(1)] p assms(1) by (intro unat_of_nat_u32) simp
  moreover have "unat (push_bit p 1 :: u32) = 2 ^ p"
    using parity_below_31 [OF assms(1)] p by (simp add: unat_exp)
  ultimately have "push_bit p 1 < (of_nat (i + 1 + p + 1) :: u32)"
    using parity_below_min [OF p] unfolding word_less_nat_alt by simp
  then have "push_bit p 1 < (of_nat (i + 1 + p) + 1 :: u32)" by (simp add: ac_simps)
  moreover have "code_bit_loop (Suc p) (of_nat (i + 1 + Suc p)) = (of_nat (code_pos i), parity_below i)"
    using Suc.hyps p by (intro Suc.hyps(1)) auto
  ultimately show ?case by (subst code_bit_loop.simps) (simp add: ac_simps)
qed

lemma calc_code_bit_eq:
  assumes "i \<le> data_bits_max" and "p \<le> parity_below i"
  shows "calc_code_bit (of_nat i) p = (of_nat (code_pos i), parity_below i)"
  using code_bit_loop_eq [OF assms] by (simp add: calc_code_bit_def ac_simps)

section \<open>The encoder\<close>

text \<open>The parity vector of a set of data bits: the exclusive or of their code bit numbers.\<close>

fun xsum :: "(nat \<Rightarrow> bool) \<Rightarrow> nat \<Rightarrow> nat list \<Rightarrow> u32" where
  "xsum P nr [] = 0"
| "xsum P nr (i # is) = (if P i then of_nat (code_pos (nr + i)) else 0) XOR xsum P nr is"

lemma xsum_append: "xsum P nr (xs @ ys) = xsum P nr xs XOR xsum P nr ys"
  by (induction xs) (auto simp: xor.assoc)

lemma xsum_none: "\<forall>i\<in>set xs. \<not> P i \<Longrightarrow> xsum P nr xs = 0"
  by (induction xs) auto

lemma xsum_cong: "\<forall>i\<in>set xs. P i = Q i \<Longrightarrow> xsum P nr xs = xsum Q nr xs"
  by (induction xs) auto

lemma xsum_differ:
  assumes "distinct xs" and "k \<in> set xs" and "P k \<noteq> Q k" and "\<And>i. i \<noteq> k \<Longrightarrow> P i = Q i"
  shows "xsum P nr xs XOR xsum Q nr xs = of_nat (code_pos (nr + k))"
proof -
  obtain ys zs where xs: "xs = ys @ k # zs" using assms(2) by (meson split_list)
  have "k \<notin> set ys" and "k \<notin> set zs" using assms(1) xs by auto
  then have "xsum P nr ys = xsum Q nr ys" and "xsum P nr zs = xsum Q nr zs"
    using assms(4) by (metis xsum_cong)+
  then show ?thesis using assms(3) by (cases "P k") (auto simp: xs xsum_append xor.assoc xor.commute xor.left_commute)
qed

lemma hamming_encode_loop_eq:
  assumes len: "d \<le> 8 * length data" and nr: "nr + d \<le> data_bits_max"
  shows "i \<le> d \<Longrightarrow> p \<le> parity_below (nr + i) \<Longrightarrow>
    hamming_encode_loop data d nr i p parity = Some (parity XOR xsum (buf_bit data) nr [i..<d])"
proof (induction "d - i" arbitrary: i p parity rule: less_induct)
  case less
  obtain r where r: "ocfs2_find_next_bit_set data d i = Some r"
    "min r d = next_such (buf_bit data) d i"
    using find_next_bit_set_cases [OF len less.prems(1)] by blast
  show ?case
  proof (cases "next_such (buf_bit data) d i < d")
    case True
    then have rn: "r = next_such (buf_bit data) d i" and rd: "r < d" using r(2) by auto
    have ir: "i \<le> r" and set: "buf_bit data r"
      using next_such_lessD [OF True] rn by auto
    have split: "[i..<d] = [i..<r] @ r # [Suc r..<d]"
      using ir rd by (metis upt_conv_Cons upt_add_eq_append le_Suc_ex less_imp_le)
    have "xsum (buf_bit data) nr [i..<r] = 0"
      using next_such_before [of i _ "buf_bit data" d] rn by (intro xsum_none) auto
    then have x: "xsum (buf_bit data) nr [i..<d] =
        of_nat (code_pos (nr + r)) XOR xsum (buf_bit data) nr [Suc r..<d]"
      using set by (simp add: split xsum_append)
    have "p \<le> parity_below (nr + r)"
      using less.prems(2) parity_below_mono [of "nr + i" "nr + r"] ir by simp
    then have c: "calc_code_bit (of_nat (nr + r)) p = (of_nat (code_pos (nr + r)), parity_below (nr + r))"
      using nr rd by (intro calc_code_bit_eq) simp_all
    have "hamming_encode_loop data d nr (Suc r) (parity_below (nr + r)) (parity XOR of_nat (code_pos (nr + r)))
        = Some ((parity XOR of_nat (code_pos (nr + r))) XOR xsum (buf_bit data) nr [Suc r..<d])"
      using ir rd by (intro less.hyps) (auto intro: parity_below_mono)
    with r(1) rd c x show ?thesis
      by (subst hamming_encode_loop.simps) (simp add: xor.assoc del: of_nat_add)
  next
    case False
    then have none: "next_such (buf_bit data) d i = d" using next_such_le [of "buf_bit data" d i] by simp
    have "xsum (buf_bit data) nr [i..<d] = 0"
      using next_such_before [of i _ "buf_bit data" d] none by (intro xsum_none) auto
    moreover have "\<not> r < d" using r(2) none by auto
    ultimately show ?thesis using r(1) by (subst hamming_encode_loop.simps) simp
  qed
qed

lemma ocfs2_hamming_encode_eq:
  assumes "0 < d" and "d \<le> 8 * length data" and "nr + d \<le> data_bits_max"
  shows "ocfs2_hamming_encode parity data d nr = Some (parity XOR xsum (buf_bit data) nr [0..<d])"
  using hamming_encode_loop_eq [OF assms(2,3), of 0 0 parity] assms(1)
  by (simp add: ocfs2_hamming_encode_def)

section \<open>The corrector\<close>

abbreviation flip_bit_at :: "byte list \<Rightarrow> nat \<Rightarrow> byte list" where
  "flip_bit_at data i \<equiv> put_bit data i (\<not> buf_bit data i)"

lemma skip_parity_Suc:
  assumes "j < data_bits_max"
  shows "skip_parity (of_nat (code_pos j) + 1) = of_nat (code_pos (Suc j))"
proof -
  have small: "code_pos (Suc j) < 2 ^ 31" using assms by (intro code_pos_31) simp
  then have small': "code_pos j + 1 < 2 ^ 32" using code_pos_mono [of j "Suc j"] by simp
  have u: "unat (of_nat (code_pos j) + 1 :: u32) = code_pos j + 1"
    using unat_of_nat_u32 [OF small'] by (simp add: add.commute)
  have stop: "skip_parity (of_nat (code_pos (Suc j))) = of_nat (code_pos (Suc j))"
    using small code_pos_not_power [of "Suc j"] unat_of_nat_u32 [of "code_pos (Suc j)"]
    by (subst skip_parity.simps) (simp add: hc_hweight32_1)
  show ?thesis
  proof (cases "\<exists>k. code_pos j + 1 = 2 ^ k")
    case True
    then obtain k where k: "code_pos j + 1 = 2 ^ k" by blast
    have "k < 32" using small' k by (metis power_less_imp_less_exp one_less_numeral_iff semiring_norm(76))
    with k u have "hc_hweight32 (of_nat (code_pos j) + 1) = 1" unfolding hc_hweight32_1 by metis
    moreover have "of_nat (code_pos j) + 1 + 1 = (of_nat (code_pos (Suc j)) :: u32)"
      using True by (simp add: code_pos_Suc)
    ultimately show ?thesis using stop by (subst skip_parity.simps) simp
  next
    case False
    then have "of_nat (code_pos j) + 1 = (of_nat (code_pos (Suc j)) :: u32)"
      by (simp add: code_pos_Suc)
    with stop show ?thesis by simp
  qed
qed

lemma hamming_fix_loop_eq:
  assumes len: "d \<le> 8 * length data" and nr: "nr + d \<le> data_bits_max"
  shows "i \<le> d \<Longrightarrow> i < d \<longrightarrow> skip_parity b = of_nat (code_pos (nr + i)) \<Longrightarrow>
    hamming_fix_loop data d fix_bit i b =
      Some (case find (\<lambda>k. fix_bit = of_nat (code_pos (nr + k))) [i..<d] of
              None \<Rightarrow> data | Some k \<Rightarrow> flip_bit_at data k)"
proof (induction "d - i" arbitrary: i b)
  case 0
  then show ?case by (subst hamming_fix_loop.simps) simp
next
  case (Suc n)
  have i: "i < d" using Suc.hyps(2) by simp
  then have s: "skip_parity b = of_nat (code_pos (nr + i))" using Suc.prems by simp
  have i8: "i < 8 * length data" using i len by simp
  have upt: "[i..<d] = i # [Suc i..<d]" using i by (rule upt_conv_Cons)
  show ?case
  proof (cases "fix_bit = of_nat (code_pos (nr + i))")
    case True
    then show ?thesis using i s i8 upt
      by (subst hamming_fix_loop.simps) (simp add: Let_def bit_ops_eq)
  next
    case False
    have "hamming_fix_loop data d fix_bit (Suc i) (of_nat (code_pos (nr + i)) + 1) =
      Some (case find (\<lambda>k. fix_bit = of_nat (code_pos (nr + k))) [Suc i..<d] of
              None \<Rightarrow> data | Some k \<Rightarrow> flip_bit_at data k)"
      using Suc.hyps i skip_parity_Suc [of "nr + i"] nr by (intro Suc.hyps(1)) auto
    with False i s upt show ?thesis
      by (subst hamming_fix_loop.simps) (simp add: Let_def)
  qed
qed

text \<open>
  What the corrector does with any syndrome: it flips data bit \<open>k\<close> if the syndrome is the code bit
  number of a bit \<open>nr + k\<close> of this hunk, and leaves the hunk alone otherwise.
\<close>

lemma ocfs2_hamming_fix_eq:
  assumes d: "0 < d" and len: "d \<le> 8 * length data" and nr: "nr + d \<le> data_bits_max"
  shows "ocfs2_hamming_fix data d nr fix_bit =
    Some (case find (\<lambda>k. fix_bit = of_nat (code_pos (nr + k))) [0..<d] of
            None \<Rightarrow> data | Some k \<Rightarrow> flip_bit_at data k)"
proof -
  have u: "unat (of_nat (code_pos j) :: u32) = code_pos j" if "j \<le> nr + d" for j
    using code_pos_31 [of j] that nr by (intro unat_of_nat_u32) simp
  have hit: "unat fix_bit = code_pos (nr + k)" if "fix_bit = of_nat (code_pos (nr + k))" "k < d" for k
    using that u by simp
  let ?find = "find (\<lambda>k. fix_bit = of_nat (code_pos (nr + k))) [0..<d]"
  have b: "fst (calc_code_bit (of_nat nr) 0) = of_nat (code_pos nr)"
    and e: "fst (calc_code_bit (of_nat (nr + d)) 0) = of_nat (code_pos (nr + d))"
    using nr by (simp_all only: calc_code_bit_eq [of nr] calc_code_bit_eq [of "nr + d"] fst_conv)
  consider (parity) "hc_hweight32 fix_bit = 1"
    | (after) "hc_hweight32 fix_bit \<noteq> 1" "fix_bit \<ge> of_nat (code_pos (nr + d))"
    | (before) "hc_hweight32 fix_bit \<noteq> 1" "\<not> fix_bit \<ge> of_nat (code_pos (nr + d))"
        "fix_bit < of_nat (code_pos nr)"
    | (hunk) "hc_hweight32 fix_bit \<noteq> 1" "\<not> fix_bit \<ge> of_nat (code_pos (nr + d))"
        "\<not> fix_bit < of_nat (code_pos nr)" by blast
  then show ?thesis
  proof cases
    case parity
    then obtain k where "unat fix_bit = 2 ^ k" by (auto simp: hc_hweight32_1)
    then have "?find = None"
      using hit code_pos_not_power by (auto simp: find_upt_None)
    with parity d show ?thesis by (simp add: ocfs2_hamming_fix_def)
  next
    case after
    then have "code_pos (nr + d) \<le> unat fix_bit" using u [of "nr + d"] by (simp add: word_le_nat_alt)
    then have "?find = None"
      using hit code_pos_mono [of "nr + _" "nr + d"] by (fastforce simp: find_upt_None)
    with after d e show ?thesis by (simp add: ocfs2_hamming_fix_def)
  next
    case before
    then have lt: "unat fix_bit < code_pos nr" using u [of nr] by (simp add: word_less_nat_alt)
    have "fix_bit \<noteq> of_nat (code_pos (nr + k))" if "k < d" for k
      using hit [of k] that lt code_pos_mono [of nr "nr + k"] by (cases k) auto
    then have "?find = None" by (simp add: find_upt_None)
    with before d e b show ?thesis by (simp add: ocfs2_hamming_fix_def)
  next
    case hunk
    have "skip_parity (of_nat (code_pos nr)) = of_nat (code_pos nr)"
      using u [of nr] code_pos_not_power [of nr] by (subst skip_parity.simps) (simp add: hc_hweight32_1)
    then have "hamming_fix_loop data d fix_bit 0 (of_nat (code_pos nr)) =
        Some (case ?find of None \<Rightarrow> data | Some k \<Rightarrow> flip_bit_at data k)"
      by (intro hamming_fix_loop_eq [OF len nr]) auto
    with hunk d e b show ?thesis by (simp add: ocfs2_hamming_fix_def Let_def)
  qed
qed

lemma ocfs2_hamming_fix_hit:
  assumes "k < d" and len: "d \<le> 8 * length data" and nr: "nr + d \<le> data_bits_max"
  shows "ocfs2_hamming_fix data d nr (of_nat (code_pos (nr + k))) = Some (flip_bit_at data k)"
proof -
  have u: "unat (of_nat (code_pos j) :: u32) = code_pos j" if "j \<le> nr + d" for j
    using code_pos_31 [of j] that nr by (intro unat_of_nat_u32) simp
  have "find (\<lambda>j. (of_nat (code_pos (nr + k)) :: u32) = of_nat (code_pos (nr + j))) [0..<d] = Some k"
    using assms(1) by (auto simp: find_upt_Some dest!: arg_cong [where f = unat] simp: u dest!: code_pos_inj)
  with assms show ?thesis by (subst ocfs2_hamming_fix_eq) auto
qed

lemma ocfs2_hamming_fix_miss:
  assumes "0 < d" and "d \<le> 8 * length data" and "nr + d \<le> data_bits_max"
    and "\<And>k. k < d \<Longrightarrow> unat fix_bit \<noteq> code_pos (nr + k)"
  shows "ocfs2_hamming_fix data d nr fix_bit = Some data"
proof -
  have "unat (of_nat (code_pos (nr + k)) :: u32) = code_pos (nr + k)" if "k < d" for k
    using code_pos_31 [of "nr + k"] that assms(3) by (intro unat_of_nat_u32) simp
  with assms(4) have "find (\<lambda>k. fix_bit = of_nat (code_pos (nr + k))) [0..<d] = None"
    by (auto simp: find_upt_None)
  with ocfs2_hamming_fix_eq [OF assms(1-3)] show ?thesis by simp
qed

end
