(* ===== verification/Hamming_Variants.thy ===== *)
theory Hamming_Variants
  imports Hamming
begin

text \<open>
  The encoders that \<open>libocfs2/blockcheck.c\<close> keeps beside the one in use (its \<open>DEBUG_EXE\<close> part):
  the original one, which tests every parity bit in turn, and the steps that led from it to
  \<open>ocfs2_hamming_encode\<close>.  The program built from them checks their results against each other on
  sample buffers; here they are shown equal for all buffers.
\<close>

section \<open>The model\<close>

text \<open>\<open>calc_parity_bits_orig\<close>: the loop over \<open>p\<close> from 1 to 31, with 32-bit arithmetic.\<close>

definition calc_parity_bits_orig :: "nat \<Rightarrow> nat" where
  "calc_parity_bits_orig d =
     (case find (\<lambda>p. (of_nat d + of_nat p + 1 :: u32) \<le> push_bit p 1) [1..<32] of
        Some p \<Rightarrow> p | None \<Rightarrow> 0)"

definition calc_code_bit_orig :: "u32 \<Rightarrow> u32" where
  "calc_code_bit_orig i = fst (code_bit_loop 0 (i + 1))"

definition MultiplyDeBruijnBitPosition :: "nat list" where
  "MultiplyDeBruijnBitPosition =
     [0, 1, 28, 2, 29, 14, 24, 3, 30, 22, 20, 15, 25, 17, 4, 8,
      31, 27, 13, 23, 21, 19, 16, 7, 26, 12, 18, 6, 11, 5, 10, 9]"

definition find_highest_bit_set :: "u32 \<Rightarrow> nat" where
  "find_highest_bit_set v =
     (let v = v OR drop_bit 1 v;
          v = v OR drop_bit 2 v;
          v = v OR drop_bit 4 v;
          v = v OR drop_bit 8 v;
          v = v OR drop_bit 16 v;
          v = drop_bit 1 v + 1
      in MultiplyDeBruijnBitPosition ! unat (drop_bit 27 (v * 0x077CB531)))"

text \<open>The loop of \<open>calc_code_bit_cheat\<close>, in which \<open>p\<close> is itself the power of two.\<close>

function cheat_loop :: "u32 \<Rightarrow> u32 \<Rightarrow> u32" where
  "cheat_loop p b = (if p < b + 1 then cheat_loop (push_bit 1 p) (b + 1) else b)"
  by pat_completeness auto
termination
proof (relation "measure (\<lambda>(p, b). 2 ^ 32 - unat b)")
  fix p b :: u32
  assume "p < b + 1"
  then have "b + 1 \<noteq> 0" by auto
  then show "((push_bit 1 p, b + 1), p, b) \<in> measure (\<lambda>(p, b). 2 ^ 32 - unat b)"
    using room_decreases by simp
qed simp

declare cheat_loop.simps [simp del]

definition calc_code_bit_cheat :: "u32 \<Rightarrow> u32" where
  "calc_code_bit_cheat i =
     (let b = i + 1; p = find_highest_bit_set b in cheat_loop (push_bit p 1) (b + of_nat p))"

text \<open>The loop over the set bits of a hunk that the four encoders have in common; \<open>body\<close> is its body.\<close>

function for_set_bits ::
    "(u32 \<Rightarrow> u32 \<Rightarrow> u32) \<Rightarrow> byte list \<Rightarrow> nat \<Rightarrow> nat \<Rightarrow> nat \<Rightarrow> u32 \<Rightarrow> u32 option" where
  "for_set_bits body data d nr i parity =
     do { i' \<leftarrow> ocfs2_find_next_bit_set data d i;
          if i' < d then for_set_bits body data d nr (Suc i') (body (of_nat (nr + i')) parity)
          else Some parity }"
  by pat_completeness auto
termination
  by (relation "measure (\<lambda>(body, data, d, nr, i, parity). d - i)")
     (auto dest!: find_next_bit_set_ge)

declare for_set_bits.simps [simp del]

text \<open>The inner loop of \<open>hamming_encode_orig\<close>: each parity bit below \<open>p\<close> that occurs in \<open>b\<close> is flipped.\<close>

definition toggle_parity :: "nat \<Rightarrow> u32 \<Rightarrow> u32 \<Rightarrow> u32" where
  "toggle_parity p b parity =
     foldl (\<lambda>parity j. if b AND push_bit j 1 \<noteq> 0 then parity XOR push_bit j 1 else parity)
       parity [0..<p]"

definition hamming_encode_orig :: "u32 \<Rightarrow> byte list \<Rightarrow> nat \<Rightarrow> nat \<Rightarrow> u32 option" where
  "hamming_encode_orig parity data d nr =
     (let p = calc_parity_bits_orig d in
      if p = 0 then None
      else for_set_bits (\<lambda>i. toggle_parity p (calc_code_bit_orig i)) data d nr 0 parity)"

definition ocfs2_hamming_encode_orig_bits :: "u32 \<Rightarrow> byte list \<Rightarrow> nat \<Rightarrow> nat \<Rightarrow> u32 option" where
  "ocfs2_hamming_encode_orig_bits parity data d nr =
     (let p = calc_parity_bits_orig d in
      if p = 0 then None
      else for_set_bits (\<lambda>i parity. parity XOR calc_code_bit_orig i) data d nr 0 parity)"

definition ocfs2_hamming_encode_orig_code_bit :: "u32 \<Rightarrow> byte list \<Rightarrow> nat \<Rightarrow> nat \<Rightarrow> u32 option" where
  "ocfs2_hamming_encode_orig_code_bit parity data d nr =
     (if d = 0 then None
      else for_set_bits (\<lambda>i parity. parity XOR calc_code_bit_orig i) data d nr 0 parity)"

definition ocfs2_hamming_encode_cheat_code_bit :: "u32 \<Rightarrow> byte list \<Rightarrow> nat \<Rightarrow> nat \<Rightarrow> u32 option" where
  "ocfs2_hamming_encode_cheat_code_bit parity data d nr =
     (if d = 0 then None
      else for_set_bits (\<lambda>i parity. parity XOR calc_code_bit_cheat i) data d nr 0 parity)"

section \<open>The highest set bit\<close>

lemma smear_step:
  fixes v w :: u32
  assumes "\<And>j. bit w j \<longleftrightarrow> (\<exists>i<n. bit v (j + i))"
  shows "bit (w OR drop_bit n w) j \<longleftrightarrow> (\<exists>i<2 * n. bit v (j + i))"
proof
  assume "bit (w OR drop_bit n w) j"
  then have "(\<exists>i<n. bit v (j + i)) \<or> (\<exists>i<n. bit v (j + (n + i)))"
    by (auto simp: bit_simps assms add.assoc add.left_commute)
  then show "\<exists>i<2 * n. bit v (j + i)"
    by (elim disjE exE conjE) (metis mult_2 trans_less_add1, metis mult_2 nat_add_left_cancel_less)
next
  assume "\<exists>i<2 * n. bit v (j + i)"
  then obtain i where i: "i < 2 * n" "bit v (j + i)" by blast
  show "bit (w OR drop_bit n w) j"
  proof (cases "i < n")
    case True
    then show ?thesis using i assms by (auto simp: bit_simps)
  next
    case False
    then have "bit v (n + j + (i - n))" using i by (simp add: ac_simps)
    moreover have "i - n < n" using False i by simp
    ultimately have "bit w (n + j)" using assms by blast
    then show ?thesis by (simp add: bit_simps)
  qed
qed

lemma smeared:
  fixes v :: u32
  assumes k: "unat v < 2 ^ Suc k" "2 ^ k \<le> unat v"
  defines "a \<equiv> v OR drop_bit 1 v"
  defines "b \<equiv> a OR drop_bit 2 a"
  defines "c \<equiv> b OR drop_bit 4 b"
  defines "d \<equiv> c OR drop_bit 8 c"
  shows "drop_bit 1 (d OR drop_bit 16 d) + 1 = 2 ^ k"
proof -
  have a: "bit a j \<longleftrightarrow> (\<exists>i<2. bit v (j + i))" for j
    unfolding a_def using smear_step [of v 1 v j] by simp
  have b: "bit b j \<longleftrightarrow> (\<exists>i<4. bit v (j + i))" for j
    unfolding b_def using smear_step [OF a, of j] by simp
  have c: "bit c j \<longleftrightarrow> (\<exists>i<8. bit v (j + i))" for j
    unfolding c_def using smear_step [OF b, of j] by simp
  have d: "bit d j \<longleftrightarrow> (\<exists>i<16. bit v (j + i))" for j
    unfolding d_def using smear_step [OF c, of j] by simp
  have e: "bit (d OR drop_bit 16 d) j \<longleftrightarrow> (\<exists>i<32. bit v (j + i))" for j
    using smear_step [OF d, of j] by simp
  have "2 ^ k < (2 :: nat) ^ 32" using k(2) unat_u32_less [of v] by (rule le_less_trans)
  then have k32: "k < 32" by (metis power_less_imp_less_exp one_less_numeral_iff semiring_norm(76))
  have top: "bit v k" and above: "bit v i \<Longrightarrow> i \<le> k" for i
  proof -
    have "unat v div 2 ^ k = 1" using k by (simp add: div_nat_eqI)
    then have "bit (unat v) k" by (simp add: bit_iff_odd)
    then show "bit v k" by (simp add: bit_unsigned_iff)
    assume "bit v i"
    then have "bit (unat v) i" by (simp add: bit_unsigned_iff)
    then show "i \<le> k" using k(1) by (metis bit_nat_iff bit_take_bit_iff less_Suc_eq_le take_bit_nat_eq_self_iff)
  qed
  have "bit (drop_bit 1 (d OR drop_bit 16 d)) j \<longleftrightarrow> j < k" for j
  proof -
    have "(\<exists>i<32. bit v (1 + j + i)) \<longleftrightarrow> j < k"
    proof
      assume "j < k"
      then show "\<exists>i<32. bit v (1 + j + i)" using top k32 by (intro exI [of _ "k - Suc j"]) auto
    qed (use above in fastforce)
    then show ?thesis by (simp only: bit_drop_bit_eq comp_def e)
  qed
  then have "drop_bit 1 (d OR drop_bit 16 d) = (mask k :: u32)"
    using k32 by (intro bit_word_eqI) (auto simp: bit_mask_iff)
  then show ?thesis by (simp add: mask_eq_exp_minus_1)
qed

lemma debruijn:
  assumes "k < 32"
  shows "MultiplyDeBruijnBitPosition ! unat (drop_bit 27 (2 ^ k * 0x077CB531 :: u32)) = k"
proof -
  have "\<forall>k\<in>set [0..<32]. MultiplyDeBruijnBitPosition ! unat (drop_bit 27 (2 ^ k * 0x077CB531 :: u32)) = k"
    by code_simp
  with assms show ?thesis by simp
qed

lemma find_highest_bit_set_log:
  assumes "2 ^ k \<le> unat v" and "unat v < 2 ^ Suc k"
  shows "find_highest_bit_set v = k"
proof -
  have "2 ^ k < (2 :: nat) ^ 32" using assms(1) unat_u32_less [of v] by (rule le_less_trans)
  then have "k < 32" by (metis power_less_imp_less_exp one_less_numeral_iff semiring_norm(76))
  with smeared [OF assms(2,1)] show ?thesis by (simp only: find_highest_bit_set_def Let_def debruijn)
qed

section \<open>The variants agree\<close>

lemma cheat_loop_eq: "cheat_loop (push_bit k 1) b = fst (code_bit_loop k b)"
proof (induction k b rule: code_bit_loop.induct)
  case (1 k b)
  then show ?case
    by (subst cheat_loop.simps, subst code_bit_loop.simps) (simp add: push_bit_push_bit mult.commute)
qed

lemma calc_code_bit_orig_eq:
  "i \<le> data_bits_max \<Longrightarrow> calc_code_bit_orig (of_nat i) = of_nat (code_pos i)"
  using code_bit_loop_eq [of i 0] by (simp add: calc_code_bit_orig_def add.commute)

lemma calc_code_bit_cheat_eq:
  assumes "i \<le> data_bits_max"
  shows "calc_code_bit_cheat (of_nat i) = of_nat (code_pos i)"
proof -
  have u: "unat (of_nat i + 1 :: u32) = i + 1"
    using assms unat_of_nat_u32 [of "i + 1"] by (simp add: add.commute)
  obtain k where k: "2 ^ k \<le> i + 1" "i + 1 < 2 ^ Suc k"
    using ex_power_ivl1 [of 2 "i + 1"] by auto
  then have high: "find_highest_bit_set (of_nat i + 1) = k"
    using find_highest_bit_set_log [of k "of_nat i + 1"] by (simp only: u)
  have "2 ^ k < (2 :: nat) ^ parity_below i" using k(1) parity_below_less [of i] by linarith
  then have "k \<le> parity_below i"
    by (metis less_imp_le power_less_imp_less_exp one_less_numeral_iff semiring_norm(76))
  from code_bit_loop_eq [OF assms this]
  have "code_bit_loop k (of_nat i + 1 + of_nat k) = (of_nat (code_pos i), parity_below i)"
    by (simp add: ac_simps)
  then show ?thesis by (simp only: calc_code_bit_cheat_def Let_def high cheat_loop_eq fst_conv)
qed

text \<open>A loop whose body adds the code bit number to the parity computes what the encoder in use computes.\<close>

lemma for_set_bits_eq:
  assumes nr: "nr + d \<le> data_bits_max"
    and body: "\<And>i parity. i < d \<Longrightarrow> body (of_nat (nr + i)) parity = parity XOR of_nat (code_pos (nr + i))"
  shows "p \<le> parity_below (nr + i) \<Longrightarrow>
    for_set_bits body data d nr i parity = hamming_encode_loop data d nr i p parity"
proof (induction "d - i" arbitrary: i p parity rule: less_induct)
  case less
  show ?case
  proof (cases "ocfs2_find_next_bit_set data d i")
    case None
    then show ?thesis by (subst for_set_bits.simps, subst hamming_encode_loop.simps) simp
  next
    case (Some r)
    show ?thesis
    proof (cases "r < d")
      case True
      have ir: "i \<le> r" using find_next_bit_set_ge [OF Some True] .
      have c: "calc_code_bit (of_nat (nr + r)) p = (of_nat (code_pos (nr + r)), parity_below (nr + r))"
        using less.prems parity_below_mono [of "nr + i" "nr + r"] ir True nr by (intro calc_code_bit_eq) simp_all
      have "for_set_bits body data d nr (Suc r) par = hamming_encode_loop data d nr (Suc r) (parity_below (nr + r)) par" for par
        using ir True by (intro less.hyps) (auto intro: parity_below_mono)
      with Some True c body [OF True] show ?thesis
        by (subst for_set_bits.simps, subst hamming_encode_loop.simps) (simp del: of_nat_add)
    next
      case False
      with Some show ?thesis by (subst for_set_bits.simps, subst hamming_encode_loop.simps) simp
    qed
  qed
qed

lemma toggle_parity_eq: "toggle_parity p b parity = parity XOR take_bit p b"
proof (induction p)
  case 0
  then show ?case by (simp add: toggle_parity_def)
next
  case (Suc p)
  have "b AND push_bit p 1 \<noteq> 0 \<longleftrightarrow> bit b p"
    by (simp add: bit_iff_and_push_bit_not_eq_0)
  moreover have "take_bit (Suc p) b = take_bit p b XOR (if bit b p then push_bit p 1 else 0)"
    by (rule bit_word_eqI) (auto simp: bit_simps less_Suc_eq)
  moreover have "toggle_parity (Suc p) b parity =
      (if b AND push_bit p 1 \<noteq> 0 then toggle_parity p b parity XOR push_bit p 1 else toggle_parity p b parity)"
    by (simp add: toggle_parity_def)
  ultimately show ?case by (simp add: Suc.IH xor.assoc)
qed

lemma calc_parity_bits_orig_least:
  assumes "d \<le> data_bits_max"
  shows "calc_parity_bits_orig d \<noteq> 0 \<and> d + calc_parity_bits_orig d + 1 \<le> 2 ^ calc_parity_bits_orig d"
proof -
  have w: "(of_nat d + of_nat p + 1 :: u32) \<le> push_bit p 1 \<longleftrightarrow> d + p + 1 \<le> 2 ^ p" if "p < 32" for p
  proof -
    have "unat (of_nat d + of_nat p + 1 :: u32) = d + p + 1"
      using that assms unat_of_nat_u32 [of "d + p + 1"] by (simp add: ac_simps)
    moreover have "unat (push_bit p 1 :: u32) = 2 ^ p" using that by (simp add: unat_exp)
    ultimately show ?thesis by (simp add: word_le_nat_alt)
  qed
  show ?thesis
  proof (cases "find (\<lambda>p. (of_nat d + of_nat p + 1 :: u32) \<le> push_bit p 1) [1..<32]")
    case None
    have "\<not> (of_nat d + of_nat 31 + 1 :: u32) \<le> push_bit 31 1"
      using None unfolding find_upt_None by (elim allE [of _ 31]) linarith
    then have "\<not> d + 31 + 1 \<le> 2 ^ 31" using w [of 31] by simp
    then show ?thesis using assms by simp
  next
    case (Some p)
    then have p: "1 \<le> p" "p < 32" "(of_nat d + of_nat p + 1 :: u32) \<le> push_bit p 1"
      unfolding find_upt_Some by auto
    then show ?thesis using Some w [OF p(2)] by (simp add: calc_parity_bits_orig_def)
  qed
qed

lemma orig_parity_bits_enough:
  assumes "d \<le> data_bits_max" and "i < d"
  shows "code_pos i < 2 ^ calc_parity_bits_orig d"
proof -
  let ?p = "calc_parity_bits_orig d"
  have p: "d + ?p + 1 \<le> 2 ^ ?p" using calc_parity_bits_orig_least [OF assms(1)] by simp
  then have "i + 1 + ?p < 2 ^ ?p" using assms(2) by simp
  then have "parity_below i \<le> ?p" by (rule parity_below_le)
  with p assms(2) show ?thesis by (simp add: code_pos_def)
qed

lemma orig_body_eq:
  assumes "d \<le> data_bits_max" and "i < d"
  shows "toggle_parity (calc_parity_bits_orig d) (calc_code_bit_orig (of_nat (0 + i))) parity =
    parity XOR of_nat (code_pos (0 + i))"
proof -
  let ?p = "calc_parity_bits_orig d"
  have u: "unat (of_nat (code_pos i) :: u32) = code_pos i"
    using assms code_pos_31 [of i] by (intro unat_of_nat_u32) simp
  have "take_bit ?p (of_nat (code_pos i) :: u32) = of_nat (code_pos i)"
    using orig_parity_bits_enough [OF assms]
    by (intro u32_eqI) (simp only: unsigned_take_bit_eq u take_bit_nat_eq_self_iff)
  then show ?thesis using assms by (simp add: toggle_parity_eq calc_code_bit_orig_eq)
qed

text \<open>
  C18.  All the encoders compute the same parity vector.  The three that add the code bit number as
  a whole agree with \<open>ocfs2_hamming_encode\<close> on every hunk at every offset, whatever way they find the
  code bit number; the original one, which sizes the parity vector by the hunk alone, agrees on a hunk
  at offset 0.
\<close>

theorem encoders_agree:
  assumes "0 < d" and "nr + d \<le> data_bits_max"
  shows "ocfs2_hamming_encode_orig_bits parity data d nr = ocfs2_hamming_encode parity data d nr \<and>
    ocfs2_hamming_encode_orig_code_bit parity data d nr = ocfs2_hamming_encode parity data d nr \<and>
    ocfs2_hamming_encode_cheat_code_bit parity data d nr = ocfs2_hamming_encode parity data d nr \<and>
    hamming_encode_orig parity data d 0 = ocfs2_hamming_encode parity data d 0"
proof -
  have d: "d \<le> data_bits_max" using assms(2) by simp
  have p: "calc_parity_bits_orig d \<noteq> 0" using calc_parity_bits_orig_least [OF d] by simp
  have orig: "for_set_bits (\<lambda>i parity. parity XOR calc_code_bit_orig i) data d nr 0 parity =
      hamming_encode_loop data d nr 0 0 parity"
    using assms(2) calc_code_bit_orig_eq
    by (intro for_set_bits_eq) (simp_all del: of_nat_add)
  have cheat: "for_set_bits (\<lambda>i parity. parity XOR calc_code_bit_cheat i) data d nr 0 parity =
      hamming_encode_loop data d nr 0 0 parity"
    using assms(2) calc_code_bit_cheat_eq
    by (intro for_set_bits_eq) (simp_all del: of_nat_add)
  have toggle: "for_set_bits (\<lambda>i. toggle_parity (calc_parity_bits_orig d) (calc_code_bit_orig i)) data d 0 0 parity =
      hamming_encode_loop data d 0 0 0 parity"
    using d orig_body_eq [OF d] by (intro for_set_bits_eq) simp_all
  show ?thesis using assms(1) p orig cheat toggle
    by (simp add: ocfs2_hamming_encode_orig_bits_def ocfs2_hamming_encode_orig_code_bit_def
        ocfs2_hamming_encode_cheat_code_bit_def hamming_encode_orig_def ocfs2_hamming_encode_def)
qed

theorem encoders_agree_witness:
  "ocfs2_hamming_encode_orig_bits 0 [5, 0x80] 16 8 = ocfs2_hamming_encode 0 [5, 0x80] 16 8 \<and>
    ocfs2_hamming_encode_orig_code_bit 0 [5, 0x80] 16 8 = ocfs2_hamming_encode 0 [5, 0x80] 16 8 \<and>
    ocfs2_hamming_encode_cheat_code_bit 0 [5, 0x80] 16 8 = ocfs2_hamming_encode 0 [5, 0x80] 16 8 \<and>
    hamming_encode_orig 0 [5, 0x80] 16 0 = ocfs2_hamming_encode 0 [5, 0x80] 16 0"
  by (rule encoders_agree) simp_all

text \<open>
  The comment above \<open>hamming_encode_orig\<close> says that it can be called across several hunks.  For a hunk
  at another offset the parity bits above the size of the hunk are lost: bit 16 of the data has code
  bit number 22, and the original encoder only records its four lowest bits.
\<close>

lemma orig_encoder_second_hunk:
  "hamming_encode_orig 0 [1] 8 16 = Some 6 \<and> ocfs2_hamming_encode 0 [1] 8 16 = Some 22"
  by code_simp

end
