(* ===== verification/Rbtree.thy ===== *)
theory Rbtree
  imports Ocfs2_Prelude
begin

text \<open>
  The red-black trees of \<open>libocfs2/kernel-rbtree.c\<close>, which the bitmaps, the link counts, the
  directory tables and the string sets of the tools are kept in.

  A tree of linked nodes is a datatype; a pointer to a node inside a tree is a zipper: the subtree
  that the node is the root of, and the path of parents above it, innermost first.  A frame of the
  path records which child the path came from, the parent's colour and element, and the parent's
  other child.  Following \<open>rb_parent\<close> is popping a frame.  Dereferencing a null pointer is \<open>None\<close>.
\<close>

section \<open>The model\<close>

datatype color = RB_RED | RB_BLACK

datatype 'a rb = Leaf | Node color 'a "'a rb" "'a rb"

datatype 'a frame =
    InLeft color 'a "'a rb"   \<comment> \<open>below the left child; the right child is kept\<close>
  | InRight color 'a "'a rb"  \<comment> \<open>below the right child; the left child is kept\<close>

type_synonym 'a path = "'a frame list"
type_synonym 'a pos = "'a rb \<times> 'a path"

fun plug :: "'a rb \<Rightarrow> 'a path \<Rightarrow> 'a rb" where
  "plug t [] = t"
| "plug t (InLeft c x r # path) = plug (Node c x t r) path"
| "plug t (InRight c x l # path) = plug (Node c x l t) path"

fun black :: "'a rb \<Rightarrow> bool" where
  "black Leaf = True"
| "black (Node c _ _ _) = (c = RB_BLACK)"

fun paint_black :: "'a rb \<Rightarrow> 'a rb" where
  "paint_black Leaf = Leaf"
| "paint_black (Node _ x l r) = Node RB_BLACK x l r"

fun paint :: "color \<Rightarrow> 'a rb \<Rightarrow> 'a rb" where
  "paint c Leaf = Leaf"
| "paint c (Node _ x l r) = Node c x l r"

subsection \<open>Rotations\<close>

fun rb_rotate_left :: "'a rb \<Rightarrow> 'a rb option" where
  "rb_rotate_left (Node c x l (Node c' y m r)) = Some (Node c' y (Node c x l m) r)"
| "rb_rotate_left _ = None"

fun rb_rotate_right :: "'a rb \<Rightarrow> 'a rb option" where
  "rb_rotate_right (Node c y (Node c' x l m) r) = Some (Node c' x l (Node c y m r))"
| "rb_rotate_right _ = None"

subsection \<open>Insertion\<close>

text \<open>
  \<open>rb_insert_color\<close> on the inserted node \<open>t\<close> with its parents.  After the final rotation the
  node that took the grandparent's place is black, so the loop ends there.  The root is painted
  black at the end; a red root with a red child has no grandparent and would be dereferenced
  through a null pointer.
\<close>

fun rb_insert_color :: "'a rb \<Rightarrow> 'a path \<Rightarrow> 'a rb option" where
  "rb_insert_color t [] = Some (paint_black t)"
| "rb_insert_color t [InLeft c p s] =
     (if c = RB_RED then None else Some (paint_black (plug t [InLeft c p s])))"
| "rb_insert_color t [InRight c p s] =
     (if c = RB_RED then None else Some (paint_black (plug t [InRight c p s])))"
| "rb_insert_color t (f # InLeft gc g uncle # path) =
     (case f of
        InLeft c p s \<Rightarrow>
          if c \<noteq> RB_RED then Some (paint_black (plug t (f # InLeft gc g uncle # path)))
          else if \<not> black uncle then
            rb_insert_color (Node RB_RED g (Node RB_BLACK p t s) (paint_black uncle)) path
          else do { t' \<leftarrow> rb_rotate_right (Node RB_RED g (Node RB_BLACK p t s) uncle);
                    Some (paint_black (plug t' path)) }
      | InRight c p s \<Rightarrow>
          if c \<noteq> RB_RED then Some (paint_black (plug t (f # InLeft gc g uncle # path)))
          else if \<not> black uncle then
            rb_insert_color (Node RB_RED g (Node RB_BLACK p s t) (paint_black uncle)) path
          else do { n \<leftarrow> rb_rotate_left (Node c p s t);
                    t' \<leftarrow> rb_rotate_right (Node RB_RED g (paint RB_BLACK n) uncle);
                    Some (paint_black (plug t' path)) })"
| "rb_insert_color t (f # InRight gc g uncle # path) =
     (case f of
        InRight c p s \<Rightarrow>
          if c \<noteq> RB_RED then Some (paint_black (plug t (f # InRight gc g uncle # path)))
          else if \<not> black uncle then
            rb_insert_color (Node RB_RED g (paint_black uncle) (Node RB_BLACK p s t)) path
          else do { t' \<leftarrow> rb_rotate_left (Node RB_RED g uncle (Node RB_BLACK p s t));
                    Some (paint_black (plug t' path)) }
      | InLeft c p s \<Rightarrow>
          if c \<noteq> RB_RED then Some (paint_black (plug t (f # InRight gc g uncle # path)))
          else if \<not> black uncle then
            rb_insert_color (Node RB_RED g (paint_black uncle) (Node RB_BLACK p t s)) path
          else do { n \<leftarrow> rb_rotate_right (Node c p t s);
                    t' \<leftarrow> rb_rotate_left (Node RB_RED g uncle (paint RB_BLACK n));
                    Some (paint_black (plug t' path)) })"

text \<open>
  The callers' insertion: \<open>rb_link_node\<close> makes the new node a red leaf at the place a search ended,
  and \<open>rb_insert_color\<close> rebalances.
\<close>

definition rb_link_node :: "'a \<Rightarrow> 'a rb" where
  "rb_link_node x = Node RB_RED x Leaf Leaf"

definition rb_insert_at :: "'a \<Rightarrow> 'a path \<Rightarrow> 'a rb option" where
  "rb_insert_at x path = rb_insert_color (rb_link_node x) path"

subsection \<open>Deletion\<close>

text \<open>
  One round of \<open>__rb_erase_color\<close> at a black (or null) node \<open>t\<close> that is the left child of \<open>p\<close> first
  makes sure that the sibling is black.  The result is the parent's colour, the path above the
  parent and the sibling.
\<close>

fun black_sibling_right :: "color \<Rightarrow> 'a rb \<Rightarrow> 'a path \<Rightarrow> (color \<times> 'a path \<times> 'a rb) option" where
  "black_sibling_right c Leaf path = None"
| "black_sibling_right c (Node oc o' ol orr) path =
     (if oc = RB_RED then Some (RB_RED, InLeft RB_BLACK o' orr # path, ol)
      else Some (c, path, Node oc o' ol orr))"

fun black_sibling_left :: "color \<Rightarrow> 'a rb \<Rightarrow> 'a path \<Rightarrow> (color \<times> 'a path \<times> 'a rb) option" where
  "black_sibling_left c Leaf path = None"
| "black_sibling_left c (Node oc o' ol orr) path =
     (if oc = RB_RED then Some (RB_RED, InRight RB_BLACK o' ol # path, orr)
      else Some (c, path, Node oc o' ol orr))"

lemma black_sibling_length:
  "black_sibling_right c other path = Some (c', up, n) \<Longrightarrow>
   c' = c \<and> up = path \<or> c' = RB_RED \<and> length up = Suc (length path)"
  "black_sibling_left c other path = Some (c', up, n) \<Longrightarrow>
   c' = c \<and> up = path \<or> c' = RB_RED \<and> length up = Suc (length path)"
  by (cases other; auto split: if_splits)+

text \<open>The terminating branch: the sibling has a red child, and one or two rotations finish.\<close>

definition erase_rotate_left :: "color \<Rightarrow> 'a \<Rightarrow> 'a rb \<Rightarrow> 'a rb \<Rightarrow> 'a rb option" where
  "erase_rotate_left c p t other =
     (case other of Leaf \<Rightarrow> None | Node oc o' ol orr \<Rightarrow>
        do { other \<leftarrow> (if black orr then rb_rotate_right (Node RB_RED o' (paint_black ol) orr)
                      else Some other);
             (case other of Leaf \<Rightarrow> None | Node _ o' ol orr \<Rightarrow>
                rb_rotate_left (Node RB_BLACK p t (Node c o' ol (paint_black orr)))) })"

definition erase_rotate_right :: "color \<Rightarrow> 'a \<Rightarrow> 'a rb \<Rightarrow> 'a rb \<Rightarrow> 'a rb option" where
  "erase_rotate_right c p t other =
     (case other of Leaf \<Rightarrow> None | Node oc o' ol orr \<Rightarrow>
        do { other \<leftarrow> (if black ol then rb_rotate_left (Node RB_RED o' ol (paint_black orr))
                      else Some other);
             (case other of Leaf \<Rightarrow> None | Node _ o' ol orr \<Rightarrow>
                rb_rotate_right (Node RB_BLACK p (Node c o' (paint_black ol) orr) t)) })"

function rb_erase_color :: "'a rb \<Rightarrow> 'a path \<Rightarrow> 'a rb option" where
  "rb_erase_color t path =
     (if black t then
        (case path of
           [] \<Rightarrow> Some (paint_black t)
         | InLeft c p other # path' \<Rightarrow>
             (case black_sibling_right c other path' of
                Some (c', up, Node oc o' ol orr) \<Rightarrow>
                  if black ol \<and> black orr then
                    rb_erase_color (Node c' p t (Node RB_RED o' ol orr)) up
                  else do { t' \<leftarrow> erase_rotate_left c' p t (Node oc o' ol orr);
                            Some (paint_black (plug t' up)) }
              | _ \<Rightarrow> None)
         | InRight c p other # path' \<Rightarrow>
             (case black_sibling_left c other path' of
                Some (c', up, Node oc o' ol orr) \<Rightarrow>
                  if black ol \<and> black orr then
                    rb_erase_color (Node c' p (Node RB_RED o' ol orr) t) up
                  else do { t' \<leftarrow> erase_rotate_right c' p t (Node oc o' ol orr);
                            Some (paint_black (plug t' up)) }
              | _ \<Rightarrow> None))
      else Some (plug (paint_black t) path))"
  by pat_completeness auto
termination
  by (relation "measure (\<lambda>(t, path). 2 * length path + (if black t then 1 else 0))")
     (auto dest!: black_sibling_length)

declare rb_erase_color.simps [simp del]

fun rb_leftmost :: "'a rb \<Rightarrow> 'a path \<Rightarrow> 'a pos" where
  "rb_leftmost (Node c x (Node c' y l' r') r) path = rb_leftmost (Node c' y l' r') (InLeft c x r # path)"
| "rb_leftmost t path = (t, path)"

fun rb_rightmost :: "'a rb \<Rightarrow> 'a path \<Rightarrow> 'a pos" where
  "rb_rightmost (Node c x l (Node c' y l' r')) path = rb_rightmost (Node c' y l' r') (InRight c x l # path)"
| "rb_rightmost t path = (t, path)"

text \<open>
  \<open>rb_erase\<close>: a node with at most one child is replaced by that child; otherwise its successor, the
  leftmost node of the right subtree, is unlinked and takes the node's place and colour.
\<close>

definition rb_unlink :: "color \<Rightarrow> 'a rb \<Rightarrow> 'a path \<Rightarrow> 'a rb option" where
  "rb_unlink color child path =
     (if color = RB_BLACK then rb_erase_color child path else Some (plug child path))"

fun rb_erase :: "'a pos \<Rightarrow> 'a rb option" where
  "rb_erase (Leaf, path) = None"
| "rb_erase (Node c x l r, path) =
     (if l = Leaf then rb_unlink c r path
      else if r = Leaf then rb_unlink c l path
      else
        (case rb_leftmost r [] of
           (Node sc y _ child, spath) \<Rightarrow> rb_unlink sc child (spath @ InRight c y l # path)
         | _ \<Rightarrow> None))"

subsection \<open>Traversal\<close>

fun rb_first :: "'a rb \<Rightarrow> 'a pos option" where
  "rb_first Leaf = None"
| "rb_first t = Some (rb_leftmost t [])"

fun rb_last :: "'a rb \<Rightarrow> 'a pos option" where
  "rb_last Leaf = None"
| "rb_last t = Some (rb_rightmost t [])"

fun up_from_right :: "'a rb \<Rightarrow> 'a path \<Rightarrow> 'a pos option" where
  "up_from_right t [] = None"
| "up_from_right t (InRight c x l # path) = up_from_right (Node c x l t) path"
| "up_from_right t (InLeft c x r # path) = Some (Node c x t r, path)"

fun up_from_left :: "'a rb \<Rightarrow> 'a path \<Rightarrow> 'a pos option" where
  "up_from_left t [] = None"
| "up_from_left t (InLeft c x r # path) = up_from_left (Node c x t r) path"
| "up_from_left t (InRight c x l # path) = Some (Node c x l t, path)"

fun rb_next :: "'a pos \<Rightarrow> 'a pos option" where
  "rb_next (Leaf, path) = None"
| "rb_next (Node c x l r, path) =
     (if r \<noteq> Leaf then Some (rb_leftmost r (InRight c x l # path))
      else up_from_right (Node c x l r) path)"

fun rb_prev :: "'a pos \<Rightarrow> 'a pos option" where
  "rb_prev (Leaf, path) = None"
| "rb_prev (Node c x l r, path) =
     (if l \<noteq> Leaf then Some (rb_rightmost l (InLeft c x r # path))
      else up_from_left (Node c x l r) path)"

text \<open>\<open>rb_replace_node\<close> puts another element into a node's place; the shape and colour stay.\<close>

fun rb_replace_node :: "'a pos \<Rightarrow> 'a \<Rightarrow> 'a pos" where
  "rb_replace_node (Leaf, path) y = (Leaf, path)"
| "rb_replace_node (Node c x l r, path) y = (Node c y l r, path)"

fun rb_elem :: "'a pos \<Rightarrow> 'a option" where
  "rb_elem (Leaf, path) = None"
| "rb_elem (Node c x l r, path) = Some x"

text \<open>
  The search loop every user of the trees writes: at each node go left, go right or stop.  A
  search that finds nothing ends at a leaf, whose path is the place to insert.
\<close>

datatype dir = Go_Left | Go_Right | Here

fun rb_descend :: "('a \<Rightarrow> dir) \<Rightarrow> 'a rb \<Rightarrow> 'a path \<Rightarrow> 'a pos" where
  "rb_descend cmp Leaf path = (Leaf, path)"
| "rb_descend cmp (Node c x l r) path =
     (case cmp x of
        Go_Left \<Rightarrow> rb_descend cmp l (InLeft c x r # path)
      | Go_Right \<Rightarrow> rb_descend cmp r (InRight c x l # path)
      | Here \<Rightarrow> (Node c x l r, path))"

section \<open>The sequence of elements\<close>

fun inorder :: "'a rb \<Rightarrow> 'a list" where
  "inorder Leaf = []"
| "inorder (Node c x l r) = inorder l @ x # inorder r"

fun lefts :: "'a path \<Rightarrow> 'a list" where
  "lefts [] = []"
| "lefts (InLeft c x r # path) = lefts path"
| "lefts (InRight c x l # path) = lefts path @ inorder l @ [x]"

fun rights :: "'a path \<Rightarrow> 'a list" where
  "rights [] = []"
| "rights (InLeft c x r # path) = x # inorder r @ rights path"
| "rights (InRight c x l # path) = rights path"

named_theorems rb_simps \<open>the sequence of elements under the tree operations\<close>

lemma inorder_plug [rb_simps]: "inorder (plug t path) = lefts path @ inorder t @ rights path"
  by (induction t path rule: plug.induct) auto

lemma inorder_paint_black [rb_simps]: "inorder (paint_black t) = inorder t"
  by (cases t) auto

lemma inorder_paint [rb_simps]: "inorder (paint c t) = inorder t"
  by (cases t) auto

lemma inorder_rotate_left: "rb_rotate_left t = Some t' \<Longrightarrow> inorder t' = inorder t"
  by (cases t rule: rb_rotate_left.cases) auto

lemma inorder_rotate_right: "rb_rotate_right t = Some t' \<Longrightarrow> inorder t' = inorder t"
  by (cases t rule: rb_rotate_right.cases) auto

lemmas inorder_rotate = inorder_rotate_left inorder_rotate_right

lemma inorder_insert_color:
  "rb_insert_color t path = Some t' \<Longrightarrow> inorder t' = lefts path @ inorder t @ rights path"
  by (induction t path arbitrary: t' rule: rb_insert_color.induct)
     (auto simp: rb_simps bind_eq_Some_conv split: if_splits frame.splits dest!: inorder_rotate)

lemma inorder_insert_at:
  "rb_insert_at x path = Some t' \<Longrightarrow> inorder t' = lefts path @ x # rights path"
  by (auto simp: rb_insert_at_def rb_link_node_def dest!: inorder_insert_color)

lemma black_sibling_inorder:
  "black_sibling_right c other path = Some (c', up, n) \<Longrightarrow>
   lefts up = lefts path \<and> inorder n @ rights up = inorder other @ rights path"
  "black_sibling_left c other path = Some (c', up, n) \<Longrightarrow>
   rights up = rights path \<and> lefts up @ inorder n = lefts path @ inorder other"
  by (cases other; auto split: if_splits)+

lemma erase_rotate_inorder:
  "erase_rotate_left c p t other = Some t' \<Longrightarrow> inorder t' = inorder t @ p # inorder other"
  "erase_rotate_right c p t other = Some t' \<Longrightarrow> inorder t' = inorder other @ p # inorder t"
proof -
  assume a: "erase_rotate_left c p t other = Some t'"
  then obtain oc y ol orr where o: "other = Node oc y ol orr"
    by (cases other) (auto simp: erase_rotate_left_def)
  with a obtain n where n: "(if black orr then rb_rotate_right (Node RB_RED y (paint_black ol) orr)
        else Some other) = Some n"
    and r': "(case n of Leaf \<Rightarrow> None | Node _ y' ol' orr' \<Rightarrow>
        rb_rotate_left (Node RB_BLACK p t (Node c y' ol' (paint_black orr')))) = Some t'"
    by (auto simp: erase_rotate_left_def bind_eq_Some_conv simp del: rb_rotate_left.simps)
  then obtain oc' y' ol' orr' where
    s: "(if black orr then rb_rotate_right (Node RB_RED y (paint_black ol) orr) else Some other)
              = Some (Node oc' y' ol' orr')"
    and r: "rb_rotate_left (Node RB_BLACK p t (Node c y' ol' (paint_black orr'))) = Some t'"
    by (cases n) auto
  have "inorder (Node oc' y' ol' orr') = inorder other"
    using s o inorder_rotate_right [of "Node RB_RED y (paint_black ol) orr" "Node oc' y' ol' orr'"]
    by (simp add: rb_simps split: if_splits)
  with inorder_rotate_left [OF r] show "inorder t' = inorder t @ p # inorder other"
    by (simp add: rb_simps)
next
  assume a: "erase_rotate_right c p t other = Some t'"
  then obtain oc y ol orr where o: "other = Node oc y ol orr"
    by (cases other) (auto simp: erase_rotate_right_def)
  with a obtain n where n: "(if black ol then rb_rotate_left (Node RB_RED y ol (paint_black orr))
        else Some other) = Some n"
    and r': "(case n of Leaf \<Rightarrow> None | Node _ y' ol' orr' \<Rightarrow>
        rb_rotate_right (Node RB_BLACK p (Node c y' (paint_black ol') orr') t)) = Some t'"
    by (auto simp: erase_rotate_right_def bind_eq_Some_conv simp del: rb_rotate_right.simps)
  then obtain oc' y' ol' orr' where
    s: "(if black ol then rb_rotate_left (Node RB_RED y ol (paint_black orr)) else Some other)
              = Some (Node oc' y' ol' orr')"
    and r: "rb_rotate_right (Node RB_BLACK p (Node c y' (paint_black ol') orr') t) = Some t'"
    by (cases n) auto
  have "inorder (Node oc' y' ol' orr') = inorder other"
    using s o inorder_rotate_left [of "Node RB_RED y ol (paint_black orr)" "Node oc' y' ol' orr'"]
    by (simp add: rb_simps split: if_splits)
  with inorder_rotate_right [OF r] show "inorder t' = inorder other @ p # inorder t"
    by (simp add: rb_simps)
qed

text \<open>The branches of \<open>__rb_erase_color\<close>, one equation each.\<close>

lemma erase_color_stop:
  "\<not> black t \<Longrightarrow> rb_erase_color t path = Some (plug (paint_black t) path)"
  "rb_erase_color t [] = Some (paint_black t)"
  by (simp_all add: rb_erase_color.simps)

lemma erase_color_left:
  "black t \<Longrightarrow> rb_erase_color t (InLeft c p other # path) =
     (case black_sibling_right c other path of
        Some (c', up, Node oc o' ol orr) \<Rightarrow>
          if black ol \<and> black orr then rb_erase_color (Node c' p t (Node RB_RED o' ol orr)) up
          else do { t' \<leftarrow> erase_rotate_left c' p t (Node oc o' ol orr);
                    Some (paint_black (plug t' up)) }
      | _ \<Rightarrow> None)"
  by (simp add: rb_erase_color.simps [of t "InLeft c p other # path"])

lemma erase_color_right:
  "black t \<Longrightarrow> rb_erase_color t (InRight c p other # path) =
     (case black_sibling_left c other path of
        Some (c', up, Node oc o' ol orr) \<Rightarrow>
          if black ol \<and> black orr then rb_erase_color (Node c' p (Node RB_RED o' ol orr) t) up
          else do { t' \<leftarrow> erase_rotate_right c' p t (Node oc o' ol orr);
                    Some (paint_black (plug t' up)) }
      | _ \<Rightarrow> None)"
  by (simp add: rb_erase_color.simps [of t "InRight c p other # path"])

text \<open>Induction over the rounds: the parent has a shorter path, or is red and the last to be looked at.\<close>

lemma erase_rounds [case_names Stop Left Right]:
  assumes stop: "\<And>t path. \<not> black t \<or> path = [] \<Longrightarrow> P t path"
    and left: "\<And>t c p other path.
      black t \<Longrightarrow>
      (\<And>c' up oc o' ol orr. black_sibling_right c other path = Some (c', up, Node oc o' ol orr) \<Longrightarrow>
         P (Node c' p t (Node RB_RED o' ol orr)) up) \<Longrightarrow> P t (InLeft c p other # path)"
    and right: "\<And>t c p other path.
      black t \<Longrightarrow>
      (\<And>c' up oc o' ol orr. black_sibling_left c other path = Some (c', up, Node oc o' ol orr) \<Longrightarrow>
         P (Node c' p (Node RB_RED o' ol orr) t) up) \<Longrightarrow> P t (InRight c p other # path)"
  shows "P t path"
proof (induction "2 * length path + (if black t then 1 else 0)" arbitrary: t path rule: less_induct)
  case less
  consider "\<not> black t \<or> path = []"
    | c p other path' where "black t" "path = InLeft c p other # path'"
    | c p other path' where "black t" "path = InRight c p other # path'"
    by (metis frame.exhaust neq_Nil_conv)
  then show ?case
  proof cases
    case 1
    then show ?thesis by (rule stop)
  next
    case 2
    show ?thesis unfolding 2(2)
      using 2 by (intro left [OF 2(1)] less) (auto dest!: black_sibling_length(1))
  next
    case 3
    show ?thesis unfolding 3(2)
      using 3 by (intro right [OF 3(1)] less) (auto dest!: black_sibling_length(2))
  qed
qed

lemma inorder_erase_color:
  "rb_erase_color t path = Some t' \<Longrightarrow> inorder t' = lefts path @ inorder t @ rights path"
proof (induction t path arbitrary: t' rule: erase_rounds)
  case (Stop t path)
  then show ?case by (auto simp: erase_color_stop rb_simps)
next
  case (Left t c p other path)
  then obtain c' up oc o' ol orr where
    sib: "black_sibling_right c other path = Some (c', up, Node oc o' ol orr)"
    by (auto simp: erase_color_left split: option.split_asm rb.split_asm)
  show ?case
    using Left.prems Left.IH [OF sib] black_sibling_inorder(1) [OF sib] Left.hyps sib
    by (auto simp: erase_color_left bind_eq_Some_conv rb_simps split: if_splits
        dest!: erase_rotate_inorder)
next
  case (Right t c p other path)
  then obtain c' up oc o' ol orr where
    sib: "black_sibling_left c other path = Some (c', up, Node oc o' ol orr)"
    by (auto simp: erase_color_right split: option.split_asm rb.split_asm)
  have eq: "lefts up @ inorder ol @ o' # inorder orr = lefts path @ inorder other"
    using black_sibling_inorder(2) [OF sib] by simp
  show ?case
    using Right.prems Right.IH [OF sib] black_sibling_inorder(2) [OF sib] Right.hyps sib eq
    by (auto simp: erase_color_right bind_eq_Some_conv rb_simps split: if_splits
        dest!: erase_rotate_inorder simp flip: append_assoc)
qed

lemma lefts_append: "lefts (p @ q) = lefts q @ lefts p"
  by (induction p rule: lefts.induct) auto

lemma rights_append: "rights (p @ q) = rights p @ rights q"
  by (induction p rule: rights.induct) auto

lemma plug_append: "plug t (p @ q) = plug (plug t p) q"
  by (induction t p rule: plug.induct) auto

lemma rb_leftmost_pos:
  assumes "rb_leftmost t path = (t', path')"
  shows "plug t' path' = plug t path" and "lefts path' = lefts path"
    and "inorder t' @ rights path' = inorder t @ rights path"
    and "t \<noteq> Leaf \<Longrightarrow> \<exists>c x r. t' = Node c x Leaf r"
  using assms by (induction t path rule: rb_leftmost.induct) auto

lemma rb_rightmost_pos:
  assumes "rb_rightmost t path = (t', path')"
  shows "plug t' path' = plug t path" and "rights path' = rights path"
    and "lefts path' @ inorder t' = lefts path @ inorder t"
    and "t \<noteq> Leaf \<Longrightarrow> \<exists>c x l. t' = Node c x l Leaf"
  using assms by (induction t path rule: rb_rightmost.induct) auto

lemma inorder_unlink:
  "rb_unlink c t path = Some t' \<Longrightarrow> inorder t' = lefts path @ inorder t @ rights path"
  by (auto simp: rb_unlink_def rb_simps split: if_splits dest!: inorder_erase_color)

lemma inorder_erase:
  assumes "rb_erase (Node c x l r, path) = Some t'"
  shows "inorder t' = lefts path @ inorder l @ inorder r @ rights path"
proof (cases "l = Leaf \<or> r = Leaf")
  case True
  with assms show ?thesis by (auto split: if_splits dest!: inorder_unlink)
next
  case False
  obtain s spath where s: "rb_leftmost r [] = (s, spath)" by (cases "rb_leftmost r []")
  note lm = rb_leftmost_pos [OF s]
  obtain sc y child where sn: "s = Node sc y Leaf child" using lm(4) False by blast
  with assms False s have "rb_unlink sc child (spath @ InRight c y l # path) = Some t'" by simp
  from inorder_unlink [OF this] lm(2,3) sn show ?thesis
    by (simp add: lefts_append rights_append)
qed

section \<open>The red-black invariant\<close>

fun bh :: "'a rb \<Rightarrow> nat" where
  "bh Leaf = 0"
| "bh (Node c x l r) = bh l + (if c = RB_BLACK then 1 else 0)"

text \<open>Equal black heights, and no red node with a red child.\<close>

fun rb_ok :: "'a rb \<Rightarrow> bool" where
  "rb_ok Leaf = True"
| "rb_ok (Node c x l r) \<longleftrightarrow>
     rb_ok l \<and> rb_ok r \<and> bh l = bh r \<and> (c = RB_RED \<longrightarrow> black l \<and> black r)"

definition rb_tree :: "'a rb \<Rightarrow> bool" where
  "rb_tree t \<longleftrightarrow> rb_ok t \<and> black t"

text \<open>
  The same for what surrounds a node: \<open>path_ok path n\<close> holds if putting a tree of black height
  \<open>n\<close> at the end of \<open>path\<close> respects the invariant.  A red node needs a parent, and a black one.
\<close>

fun red_fits :: "'a path \<Rightarrow> bool" where
  "red_fits [] = False"
| "red_fits (InLeft c x s # path) = (c = RB_BLACK)"
| "red_fits (InRight c x s # path) = (c = RB_BLACK)"

fun path_ok :: "'a path \<Rightarrow> nat \<Rightarrow> bool" where
  "path_ok [] n = True"
| "path_ok (InLeft c x s # path) n \<longleftrightarrow>
     rb_ok s \<and> bh s = n \<and> (c = RB_RED \<longrightarrow> black s \<and> red_fits path) \<and>
     path_ok path (n + (if c = RB_BLACK then 1 else 0))"
| "path_ok (InRight c x s # path) n \<longleftrightarrow>
     rb_ok s \<and> bh s = n \<and> (c = RB_RED \<longrightarrow> black s \<and> red_fits path) \<and>
     path_ok path (n + (if c = RB_BLACK then 1 else 0))"

lemma not_red: "c \<noteq> RB_RED \<longleftrightarrow> c = RB_BLACK" "c \<noteq> RB_BLACK \<longleftrightarrow> c = RB_RED"
  by (cases c; simp)+

lemma plug_rb_tree:
  "rb_ok t \<Longrightarrow> path_ok path (bh t) \<Longrightarrow> black t \<or> red_fits path \<Longrightarrow> rb_tree (plug t path)"
proof (induction t path rule: plug.induct)
  case (1 t)
  then show ?case by (auto simp: rb_tree_def)
next
  case (2 t c x r path)
  then have "rb_tree (plug (Node c x t r) path)"
    by (intro "2.IH") (auto simp: not_red)
  then show ?case by simp
next
  case (3 t c x l path)
  then have "rb_tree (plug (Node c x l t) path)"
    by (intro "3.IH") (auto simp: not_red)
  then show ?case by simp
qed

lemma rb_tree_plug:
  "rb_tree (plug t path) \<Longrightarrow> rb_ok t \<and> path_ok path (bh t) \<and> (black t \<or> red_fits path)"
proof (induction t path rule: plug.induct)
  case (1 t)
  then show ?case by (auto simp: rb_tree_def)
next
  case (2 t c x r path)
  then show ?case by (auto simp: not_red)
next
  case (3 t c x l path)
  then show ?case by (auto simp: not_red)
qed

lemma paint_black_rb_tree [simp]: "rb_tree t \<Longrightarrow> paint_black t = t"
  by (cases t) (auto simp: rb_tree_def)

lemma rb_ok_paint_black: "rb_ok t \<Longrightarrow> rb_ok (paint_black t)" "black (paint_black t)"
  "\<not> black t \<Longrightarrow> bh (paint_black t) = Suc (bh t)" "black t \<Longrightarrow> paint_black t = t"
  by (cases t; auto simp: not_red)+

subsection \<open>Insertion keeps it\<close>

lemma insert_color_black_parent:
  assumes "rb_ok t" and "path_ok path (bh t)" and "red_fits path"
  shows "rb_insert_color t path = Some (plug t path)"
proof -
  have "rb_tree (plug t path)" using assms by (intro plug_rb_tree) auto
  then show ?thesis using assms(3)
    by (cases "(t, path)" rule: rb_insert_color.cases) (auto split: frame.splits)
qed

lemma insert_color_rb_tree:
  assumes "rb_ok t" and "\<not> black t" and "path_ok path (bh t)"
  shows "\<exists>t'. rb_insert_color t path = Some t' \<and> rb_tree t'"
  using assms
proof (induction "length path" arbitrary: t path rule: less_induct)
  case less
  obtain x l r where t: "t = Node RB_RED x l r" using less.prems(2) by (cases t) (auto simp: not_red)
  show ?case
  proof (cases "red_fits path")
    case True
    with less.prems insert_color_black_parent [of t path] plug_rb_tree [of t path] show ?thesis by auto
  next
    case red: False
    show ?thesis
    proof (cases path)
      case Nil
      with less.prems t show ?thesis by (auto simp: rb_tree_def)
    next
      case (Cons f path1)
      then obtain gf up where path: "path = f # gf # up" and g: "red_fits path1"
        using red less.prems(3) by (cases f; cases path1) (auto simp: not_red)
      have rec: "\<exists>t'. rb_insert_color t'' up = Some t' \<and> rb_tree t'"
        if "rb_ok t''" "\<not> black t''" "path_ok up (bh t'')" for t''
        using that path by (intro less.hyps) auto
      have fin: "rb_tree (plug t'' up)" if "rb_ok t''" "black t''" "path_ok up (bh t'')" for t''
        using that by (intro plug_rb_tree) auto
      note defs = less.prems red g Cons path t not_red
      show ?thesis
      proof (cases f; cases gf)
        fix c p s gc gp uncle assume f: "f = InLeft c p s" "gf = InLeft gc gp uncle"
        show ?thesis
        proof (cases "black uncle")
          case True
          then show ?thesis using defs f fin [of "Node RB_BLACK p t (Node RB_RED gp s uncle)"] by auto
        next
          case False
          then show ?thesis using defs f rec [of "Node RB_RED gp (Node RB_BLACK p t s) (paint_black uncle)"]
            by (auto simp: rb_ok_paint_black)
        qed
      next
        fix c p s gc gp uncle assume f: "f = InLeft c p s" "gf = InRight gc gp uncle"
        show ?thesis
        proof (cases "black uncle")
          case True
          then show ?thesis using defs f fin [of "Node RB_BLACK x (Node RB_RED gp uncle l) (Node RB_RED p r s)"] by auto
        next
          case False
          then show ?thesis using defs f rec [of "Node RB_RED gp (paint_black uncle) (Node RB_BLACK p t s)"]
            by (auto simp: rb_ok_paint_black)
        qed
      next
        fix c p s gc gp uncle assume f: "f = InRight c p s" "gf = InLeft gc gp uncle"
        show ?thesis
        proof (cases "black uncle")
          case True
          then show ?thesis using defs f fin [of "Node RB_BLACK x (Node RB_RED p s l) (Node RB_RED gp r uncle)"] by auto
        next
          case False
          then show ?thesis using defs f rec [of "Node RB_RED gp (Node RB_BLACK p s t) (paint_black uncle)"]
            by (auto simp: rb_ok_paint_black)
        qed
      next
        fix c p s gc gp uncle assume f: "f = InRight c p s" "gf = InRight gc gp uncle"
        show ?thesis
        proof (cases "black uncle")
          case True
          then show ?thesis using defs f fin [of "Node RB_BLACK p (Node RB_RED gp uncle s) t"] by auto
        next
          case False
          then show ?thesis using defs f rec [of "Node RB_RED gp (paint_black uncle) (Node RB_BLACK p s t)"]
            by (auto simp: rb_ok_paint_black)
        qed
      qed
    qed
  qed
qed

subsection \<open>Deletion keeps it\<close>

lemma black_sibling_ok:
  assumes "path_ok (InLeft c p other # path) (Suc n)"
  obtains c' up o' ol orr where
    "black_sibling_right c other path = Some (c', up, Node RB_BLACK o' ol orr)"
    "path_ok (InLeft c' p (Node RB_BLACK o' ol orr) # up) (Suc n)"
proof -
  from assms obtain oc o' ol orr where o: "other = Node oc o' ol orr" by (cases other) auto
  show ?thesis
  proof (cases oc)
    case RB_BLACK
    with o assms show ?thesis by (intro that [of c path o' ol orr]) auto
  next
    case RB_RED
    with o assms obtain o'' ol' orr' where "ol = Node RB_BLACK o'' ol' orr'" by (cases ol) auto
    with RB_RED o assms show ?thesis
      by (intro that [of RB_RED "InLeft RB_BLACK o' orr # path" o'' ol' orr']) (auto simp: not_red)
  qed
qed

lemma black_sibling_ok':
  assumes "path_ok (InRight c p other # path) (Suc n)"
  obtains c' up o' ol orr where
    "black_sibling_left c other path = Some (c', up, Node RB_BLACK o' ol orr)"
    "path_ok (InRight c' p (Node RB_BLACK o' ol orr) # up) (Suc n)"
proof -
  from assms obtain oc o' ol orr where o: "other = Node oc o' ol orr" by (cases other) auto
  show ?thesis
  proof (cases oc)
    case RB_BLACK
    with o assms show ?thesis by (intro that [of c path o' ol orr]) auto
  next
    case RB_RED
    with o assms obtain o'' ol' orr' where "orr = Node RB_BLACK o'' ol' orr'" by (cases orr) auto
    with RB_RED o assms show ?thesis
      by (intro that [of RB_RED "InRight RB_BLACK o' ol # path" o'' ol' orr']) (auto simp: not_red)
  qed
qed

lemma erase_rotate_left_ok:
  assumes "rb_ok t" and "black t" and "rb_ok (Node RB_BLACK o' ol orr)" and "bh ol = bh t"
    and "\<not> (black ol \<and> black orr)"
  shows "\<exists>t'. erase_rotate_left c p t (Node RB_BLACK o' ol orr) = Some t' \<and> rb_ok t'
    \<and> bh t' = Suc (bh t) + (if c = RB_BLACK then 1 else 0) \<and> (black t' \<longleftrightarrow> c = RB_BLACK)"
proof (cases "black orr")
  case True
  with assms obtain y a b where "ol = Node RB_RED y a b" by (cases ol) (auto simp: not_red)
  with True assms show ?thesis by (auto simp: erase_rotate_left_def rb_ok_paint_black)
next
  case False
  with assms show ?thesis by (auto simp: erase_rotate_left_def rb_ok_paint_black)
qed

lemma erase_rotate_right_ok:
  assumes "rb_ok t" and "black t" and "rb_ok (Node RB_BLACK o' ol orr)" and "bh ol = bh t"
    and "\<not> (black ol \<and> black orr)"
  shows "\<exists>t'. erase_rotate_right c p t (Node RB_BLACK o' ol orr) = Some t' \<and> rb_ok t'
    \<and> bh t' = Suc (bh t) + (if c = RB_BLACK then 1 else 0) \<and> (black t' \<longleftrightarrow> c = RB_BLACK)"
proof (cases "black ol")
  case True
  with assms obtain y a b where "orr = Node RB_RED y a b" by (cases orr) (auto simp: not_red)
  with True assms show ?thesis by (auto simp: erase_rotate_right_def rb_ok_paint_black)
next
  case False
  with assms show ?thesis by (auto simp: erase_rotate_right_def rb_ok_paint_black)
qed

text \<open>
  The node at which the loop stands lacks one black node; it may be red with red children, since
  it is then painted black.
\<close>

lemma erase_color_rb_tree:
  "rb_ok (paint_black t) \<Longrightarrow> path_ok path (Suc (bh t)) \<Longrightarrow>
   \<exists>t'. rb_erase_color t path = Some t' \<and> rb_tree t'"
proof (induction t path rule: erase_rounds)
  case (Stop t path)
  show ?case
  proof (cases "black t")
    case True
    with Stop show ?thesis by (auto simp: erase_color_stop rb_tree_def rb_ok_paint_black)
  next
    case False
    with Stop have "rb_tree (plug (paint_black t) path)"
      by (intro plug_rb_tree) (auto simp: rb_ok_paint_black)
    with False show ?thesis by (simp add: erase_color_stop)
  qed
next
  case (Left t c p other path)
  obtain c' up o' ol orr where sib: "black_sibling_right c other path = Some (c', up, Node RB_BLACK o' ol orr)"
    and ok: "path_ok (InLeft c' p (Node RB_BLACK o' ol orr) # up) (Suc (bh t))"
    using black_sibling_ok [OF Left.prems(2)] by blast
  have t: "rb_ok t" using Left by (simp add: rb_ok_paint_black)
  show ?case
  proof (cases "black ol \<and> black orr")
    case True
    with ok t have "\<exists>t'. rb_erase_color (Node c' p t (Node RB_RED o' ol orr)) up = Some t' \<and> rb_tree t'"
      by (intro Left.IH [OF sib]) auto
    with True sib Left.hyps show ?thesis by (simp add: erase_color_left)
  next
    case False
    with ok t Left.hyps obtain t' where t': "erase_rotate_left c' p t (Node RB_BLACK o' ol orr) = Some t'"
      "rb_ok t'" "bh t' = Suc (bh t) + (if c' = RB_BLACK then 1 else 0)" "black t' \<longleftrightarrow> c' = RB_BLACK"
      using erase_rotate_left_ok [of t o' ol orr c' p] by auto
    with ok have "rb_tree (plug t' up)" by (intro plug_rb_tree) (auto simp: not_red)
    with t' False sib Left.hyps show ?thesis by (auto simp: erase_color_left)
  qed
next
  case (Right t c p other path)
  obtain c' up o' ol orr where sib: "black_sibling_left c other path = Some (c', up, Node RB_BLACK o' ol orr)"
    and ok: "path_ok (InRight c' p (Node RB_BLACK o' ol orr) # up) (Suc (bh t))"
    using black_sibling_ok' [OF Right.prems(2)] by blast
  have t: "rb_ok t" using Right by (simp add: rb_ok_paint_black)
  show ?case
  proof (cases "black ol \<and> black orr")
    case True
    with ok t have "\<exists>t'. rb_erase_color (Node c' p (Node RB_RED o' ol orr) t) up = Some t' \<and> rb_tree t'"
      by (intro Right.IH [OF sib]) auto
    with True sib Right.hyps show ?thesis by (simp add: erase_color_right)
  next
    case False
    with ok t Right.hyps obtain t' where t': "erase_rotate_right c' p t (Node RB_BLACK o' ol orr) = Some t'"
      "rb_ok t'" "bh t' = Suc (bh t) + (if c' = RB_BLACK then 1 else 0)" "black t' \<longleftrightarrow> c' = RB_BLACK"
      using erase_rotate_right_ok [of t o' ol orr c' p] by auto
    with ok have "rb_tree (plug t' up)" by (intro plug_rb_tree) (auto simp: not_red)
    with t' False sib Right.hyps show ?thesis by (auto simp: erase_color_right)
  qed
qed

lemma rb_unlink_rb_tree:
  assumes "rb_ok child" and "path_ok path (bh child + (if c = RB_BLACK then 1 else 0))"
    and "c = RB_RED \<Longrightarrow> black child \<or> red_fits path"
  shows "\<exists>t'. rb_unlink c child path = Some t' \<and> rb_tree t'"
proof (cases c)
  case RB_BLACK
  with assms show ?thesis
    using erase_color_rb_tree [of child path] by (simp add: rb_unlink_def rb_ok_paint_black)
next
  case RB_RED
  with assms show ?thesis using plug_rb_tree [of child path] by (simp add: rb_unlink_def)
qed

text \<open>Putting another element into a node changes neither colours nor heights.\<close>

lemma path_ok_spath:
  "path_ok (spath @ InRight c x l # path) n \<longleftrightarrow> path_ok (spath @ InRight c y l # path) n"
proof (induction spath n rule: path_ok.induct)
  case (1 n)
  then show ?case by simp
next
  case (2 c' x' s path' n)
  have "red_fits (path' @ InRight c x l # path) = red_fits (path' @ InRight c y l # path)"
    by (cases path' rule: red_fits.cases) auto
  with 2 show ?case by simp
next
  case (3 c' x' s path' n)
  have "red_fits (path' @ InRight c x l # path) = red_fits (path' @ InRight c y l # path)"
    by (cases path' rule: red_fits.cases) auto
  with 3 show ?case by simp
qed

lemma rb_erase_rb_tree:
  assumes "rb_tree (plug (Node c x l r) path)"
  shows "\<exists>t'. rb_erase (Node c x l r, path) = Some t' \<and> rb_tree t'"
proof -
  have ok: "rb_ok (Node c x l r)" "path_ok path (bh (Node c x l r))" "c = RB_RED \<Longrightarrow> red_fits path"
    using rb_tree_plug [OF assms] by auto
  show ?thesis
  proof (cases "l = Leaf \<or> r = Leaf")
    case True
    then show ?thesis using ok
      by (auto simp: rb_ok_paint_black intro!: rb_unlink_rb_tree)
  next
    case False
    obtain s spath where s: "rb_leftmost r [] = (s, spath)" by (cases "rb_leftmost r []")
    note lm = rb_leftmost_pos [OF s]
    obtain sc y child where sn: "s = Node sc y Leaf child" using lm(4) False by blast
    have "plug s (spath @ InRight c x l # path) = plug (Node c x l r) path"
      using lm(1) by (simp add: plug_append)
    then have sok: "rb_ok s" "path_ok (spath @ InRight c x l # path) (bh s)"
      "black s \<or> red_fits (spath @ InRight c x l # path)"
      using rb_tree_plug [of s "spath @ InRight c x l # path"] assms by auto
    then have "\<exists>t'. rb_unlink sc child (spath @ InRight c y l # path) = Some t' \<and> rb_tree t'"
      using path_ok_spath [of spath c x l path _ y] sn by (intro rb_unlink_rb_tree) auto
    with False s sn show ?thesis by simp
  qed
qed

section \<open>Positions\<close>

text \<open>The whole tree of a position, and the elements before and after its node.\<close>

definition whole :: "'a pos \<Rightarrow> 'a rb" where
  "whole z = plug (fst z) (snd z)"

fun before :: "'a pos \<Rightarrow> 'a list" where
  "before (Leaf, path) = lefts path"
| "before (Node c x l r, path) = lefts path @ inorder l"

fun after :: "'a pos \<Rightarrow> 'a list" where
  "after (Leaf, path) = rights path"
| "after (Node c x l r, path) = inorder r @ rights path"

lemma inorder_whole: "rb_elem z = Some x \<Longrightarrow> inorder (whole z) = before z @ x # after z"
  by (cases z rule: rb_elem.cases) (auto simp: whole_def rb_simps)

lemma up_from_right_pos:
  "up_from_right t path = None \<Longrightarrow> rights path = []"
  "up_from_right t path = Some z' \<Longrightarrow>
     whole z' = plug t path \<and> before z' = lefts path @ inorder t \<and>
     (\<exists>x. rb_elem z' = Some x \<and> rights path = x # after z')"
  by (induction t path rule: up_from_right.induct) (auto simp: whole_def)

lemma up_from_left_pos:
  "up_from_left t path = None \<Longrightarrow> lefts path = []"
  "up_from_left t path = Some z' \<Longrightarrow>
     whole z' = plug t path \<and> after z' = inorder t @ rights path \<and>
     (\<exists>x. rb_elem z' = Some x \<and> lefts path = before z' @ [x])"
  by (induction t path rule: up_from_left.induct) (auto simp: whole_def)

lemma leftmost_at:
  assumes "t \<noteq> Leaf" and "rb_leftmost t path = z"
  shows "whole z = plug t path \<and> before z = lefts path \<and>
    (\<exists>x. rb_elem z = Some x \<and> inorder t @ rights path = x # after z)"
proof -
  obtain t' path' where z: "z = (t', path')" by (cases z)
  note lm = rb_leftmost_pos [OF assms(2) [unfolded z]]
  obtain c x r where "t' = Node c x Leaf r" using lm(4) [OF assms(1)] by blast
  with z lm(1-3) show ?thesis by (auto simp: whole_def)
qed

lemma rightmost_at:
  assumes "t \<noteq> Leaf" and "rb_rightmost t path = z"
  shows "whole z = plug t path \<and> after z = rights path \<and>
    (\<exists>x. rb_elem z = Some x \<and> lefts path @ inorder t = before z @ [x])"
proof -
  obtain t' path' where z: "z = (t', path')" by (cases z)
  note rm = rb_rightmost_pos [OF assms(2) [unfolded z]]
  obtain c x l where "t' = Node c x l Leaf" using rm(4) [OF assms(1)] by blast
  with z rm(1-3) show ?thesis by (auto simp: whole_def)
qed

lemma rb_first_pos:
  "rb_first t = None \<longleftrightarrow> t = Leaf"
  "rb_first t = Some z \<Longrightarrow>
     whole z = t \<and> before z = [] \<and> (\<exists>x. rb_elem z = Some x \<and> inorder t = x # after z)"
proof -
  show "rb_first t = None \<longleftrightarrow> t = Leaf" by (cases t) auto
  assume "rb_first t = Some z"
  then have "t \<noteq> Leaf" and "rb_leftmost t [] = z" by (cases t; auto)+
  from leftmost_at [OF this] show "whole z = t \<and> before z = [] \<and> (\<exists>x. rb_elem z = Some x \<and> inorder t = x # after z)"
    by simp
qed

lemma rb_next_pos:
  assumes "rb_elem z = Some x"
  shows "rb_next z = None \<longleftrightarrow> after z = []"
    and "rb_next z = Some z' \<Longrightarrow>
      whole z' = whole z \<and> before z' = before z @ [x] \<and> (\<exists>y. rb_elem z' = Some y \<and> after z = y # after z')"
proof -
  obtain c l r path where z: "z = (Node c x l r, path)"
    using assms by (cases z rule: rb_elem.cases) auto
  have some: "whole z' = whole z \<and> before z' = before z @ [x] \<and> (\<exists>y. rb_elem z' = Some y \<and> after z = y # after z')"
    if "rb_next z = Some z'" for z'
  proof (cases "r = Leaf")
    case True
    with that z have "up_from_right (Node c x l r) path = Some z'" by simp
    from up_from_right_pos(2) [OF this] z True show ?thesis by (auto simp: whole_def)
  next
    case False
    with that z have "rb_leftmost r (InRight c x l # path) = z'" by simp
    from leftmost_at [OF False this] z show ?thesis by (auto simp: whole_def)
  qed
  then show "rb_next z = Some z' \<Longrightarrow> whole z' = whole z \<and> before z' = before z @ [x] \<and>
      (\<exists>y. rb_elem z' = Some y \<and> after z = y # after z')" .
  show "rb_next z = None \<longleftrightarrow> after z = []"
  proof
    assume "rb_next z = None"
    then show "after z = []" using z up_from_right_pos(1) by (auto split: if_splits)
  next
    assume "after z = []"
    with some show "rb_next z = None" by (cases "rb_next z") auto
  qed
qed

lemma rb_prev_pos:
  assumes "rb_elem z = Some x"
  shows "rb_prev z = None \<longleftrightarrow> before z = []"
    and "rb_prev z = Some z' \<Longrightarrow>
      whole z' = whole z \<and> after z' = x # after z \<and> (\<exists>y. rb_elem z' = Some y \<and> before z = before z' @ [y])"
proof -
  obtain c l r path where z: "z = (Node c x l r, path)"
    using assms by (cases z rule: rb_elem.cases) auto
  have some: "whole z' = whole z \<and> after z' = x # after z \<and> (\<exists>y. rb_elem z' = Some y \<and> before z = before z' @ [y])"
    if "rb_prev z = Some z'" for z'
  proof (cases "l = Leaf")
    case True
    with that z have "up_from_left (Node c x l r) path = Some z'" by simp
    from up_from_left_pos(2) [OF this] z True show ?thesis by (auto simp: whole_def)
  next
    case False
    with that z have "rb_rightmost l (InLeft c x r # path) = z'" by simp
    from rightmost_at [OF False this] z show ?thesis by (auto simp: whole_def)
  qed
  then show "rb_prev z = Some z' \<Longrightarrow> whole z' = whole z \<and> after z' = x # after z \<and>
      (\<exists>y. rb_elem z' = Some y \<and> before z = before z' @ [y])" .
  show "rb_prev z = None \<longleftrightarrow> before z = []"
  proof
    assume "rb_prev z = None"
    then show "before z = []" using z up_from_left_pos(1) by (auto split: if_splits)
  next
    assume "before z = []"
    with some show "rb_prev z = None" by (cases "rb_prev z") auto
  qed
qed

lemma inorder_erase_pos:
  "rb_elem z = Some x \<Longrightarrow> rb_erase z = Some t' \<Longrightarrow> inorder t' = before z @ after z"
  by (cases z rule: rb_elem.cases) (auto dest: inorder_erase simp del: rb_erase.simps)

lemma rb_erase_pos:
  assumes "rb_elem z = Some x" and "rb_tree (whole z)"
  shows "\<exists>t'. rb_erase z = Some t' \<and> rb_tree t' \<and> inorder t' = before z @ after z"
proof -
  obtain c l r path where z: "z = (Node c x l r, path)"
    using assms(1) by (cases z rule: rb_elem.cases) auto
  with assms(2) rb_erase_rb_tree [of c x l r path] inorder_erase [of c x l r path]
  show ?thesis by (auto simp: whole_def)
qed

lemma rb_insert_at_pos:
  assumes "rb_tree (plug Leaf path)"
  shows "\<exists>t'. rb_insert_at x path = Some t' \<and> rb_tree t' \<and> inorder t' = lefts path @ x # rights path"
proof -
  have "path_ok path 0" using rb_tree_plug [OF assms] by simp
  then have "\<exists>t'. rb_insert_at x path = Some t' \<and> rb_tree t'"
    unfolding rb_insert_at_def rb_link_node_def by (intro insert_color_rb_tree) simp_all
  then obtain t' where "rb_insert_at x path = Some t'" "rb_tree t'" by (elim exE conjE)
  with inorder_insert_at [of x path t'] show ?thesis by simp
qed

subsection \<open>Replacing elements in place\<close>

definition shape :: "'a rb \<Rightarrow> unit rb" where
  "shape = map_rb (\<lambda>_. ())"

lemma shape_plug_cong: "shape t = shape t' \<Longrightarrow> shape (plug t path) = shape (plug t' path)"
  by (induction path arbitrary: t t' rule: lefts.induct) (auto simp: shape_def)

lemma shape_black: "black (map_rb (\<lambda>_. ()) t) = black t"
  by (cases t) auto

lemma shape_bh: "bh (map_rb (\<lambda>_. ()) t) = bh t"
  by (induction t) auto

lemma shape_rb_ok: "rb_ok (map_rb (\<lambda>_. ()) t) = rb_ok t"
  by (induction t) (simp_all add: shape_black shape_bh)

lemma shape_rb_tree: "shape t = shape t' \<Longrightarrow> rb_tree t = rb_tree t'"
  unfolding shape_def rb_tree_def by (metis shape_black shape_rb_ok)

lemma rb_replace_node_pos:
  assumes "rb_elem z = Some x"
  shows "rb_elem (rb_replace_node z y) = Some y" and "before (rb_replace_node z y) = before z"
    and "after (rb_replace_node z y) = after z" and "rb_tree (whole (rb_replace_node z y)) = rb_tree (whole z)"
proof -
  obtain c l r path where z: "z = (Node c x l r, path)"
    using assms by (cases z rule: rb_elem.cases) auto
  have "shape (Node c y l r) = shape (Node c x l r)" by (simp add: shape_def)
  from shape_plug_cong [OF this, of path] z
  show "rb_tree (whole (rb_replace_node z y)) = rb_tree (whole z)"
    using shape_rb_tree by (auto simp: whole_def)
qed (use assms in \<open>cases z rule: rb_elem.cases; auto\<close>)+

subsection \<open>Searching\<close>

text \<open>
  \<open>steers cmp xs\<close>: along \<open>xs\<close> the search directions are first \<open>Go_Right\<close>, then \<open>Here\<close>, then
  \<open>Go_Left\<close>, which is what a comparison against a sorted sequence gives.
\<close>

definition steers :: "('a \<Rightarrow> dir) \<Rightarrow> 'a list \<Rightarrow> bool" where
  "steers cmp = sorted_wrt (\<lambda>x y. (cmp x = Go_Left \<longrightarrow> cmp y = Go_Left) \<and> (cmp y = Go_Right \<longrightarrow> cmp x = Go_Right))"

lemma steers_append:
  "steers cmp (xs @ ys) \<longleftrightarrow> steers cmp xs \<and> steers cmp ys \<and>
     (\<forall>x\<in>set xs. \<forall>y\<in>set ys. (cmp x = Go_Left \<longrightarrow> cmp y = Go_Left) \<and> (cmp y = Go_Right \<longrightarrow> cmp x = Go_Right))"
  by (simp add: steers_def sorted_wrt_append)

lemma steers_Cons:
  "steers cmp (x # ys) \<longleftrightarrow> steers cmp ys \<and>
     (\<forall>y\<in>set ys. (cmp x = Go_Left \<longrightarrow> cmp y = Go_Left) \<and> (cmp y = Go_Right \<longrightarrow> cmp x = Go_Right))"
  by (auto simp: steers_def)

lemma rb_descend_whole: "whole (rb_descend cmp t path) = plug t path"
  by (induction cmp t path rule: rb_descend.induct) (auto simp: whole_def split: dir.split)

lemma rb_descend_Here: "rb_elem (rb_descend cmp t path) = Some x \<Longrightarrow> cmp x = Here"
  by (induction cmp t path rule: rb_descend.induct) (auto split: dir.splits)

lemma rb_descend_leaf:
  assumes "rb_descend cmp t path = (Leaf, path')" and "steers cmp (inorder t)"
    and "\<forall>x\<in>set (lefts path). cmp x = Go_Right" and "\<forall>x\<in>set (rights path). cmp x = Go_Left"
  shows "(\<forall>x\<in>set (lefts path'). cmp x = Go_Right) \<and> (\<forall>x\<in>set (rights path'). cmp x = Go_Left)"
  using assms
proof (induction cmp t path rule: rb_descend.induct)
  case (1 cmp path)
  then show ?case by simp
next
  case (2 cmp c x l r path)
  show ?case
  proof (cases "cmp x")
    case Go_Left
    with "2.prems" have "\<forall>y\<in>set (inorder r). cmp y = Go_Left" by (simp add: steers_append steers_Cons)
    with Go_Left "2.prems" show ?thesis by (intro "2.IH"(1)) (auto simp: steers_append)
  next
    case Go_Right
    with "2.prems" have "\<forall>y\<in>set (inorder l). cmp y = Go_Right" by (simp add: steers_append steers_Cons)
    with Go_Right "2.prems" show ?thesis by (intro "2.IH"(2)) (auto simp: steers_append steers_Cons)
  next
    case Here
    with "2.prems"(1) show ?thesis by simp
  qed
qed

subsection \<open>Walking the tree\<close>

text \<open>
  The loop \<open>for (node = ...; node; node = rb_next(node))\<close> of the tree's users, from a given node on.
  A step sees the loop's state and the element, and returns the new state, the element as the
  step leaves it in the tree, and whether the loop goes on.  The step is \<open>None\<close> when it faults.
\<close>

type_synonym ('s, 'a) walk_step = "'s \<Rightarrow> 'a \<Rightarrow> ('s \<times> 'a \<times> bool) option"

lemma rb_next_replace_decreases:
  "rb_elem z = Some x \<Longrightarrow> rb_next (rb_replace_node z y) = Some z' \<Longrightarrow> length (after z') < length (after z)"
  using rb_next_pos(2) [of "rb_replace_node z y" y z'] rb_replace_node_pos [of z x y] by auto

function rb_walk :: "('s, 'a) walk_step \<Rightarrow> 's \<Rightarrow> 'a pos \<Rightarrow> ('s \<times> 'a rb) option" where
  "rb_walk step s z =
     (case rb_elem z of
        None \<Rightarrow> None
      | Some x \<Rightarrow>
          (case step s x of
             None \<Rightarrow> None
           | Some (s', y, go) \<Rightarrow>
               (let z' = rb_replace_node z y in
                if go then (case rb_next z' of None \<Rightarrow> Some (s', whole z') | Some n \<Rightarrow> rb_walk step s' n)
                else Some (s', whole z'))))"
  by pat_completeness auto
termination
  by (relation "measure (\<lambda>(step, s, z). length (after z))") (auto intro: rb_next_replace_decreases)

declare rb_walk.simps [simp del]

fun list_walk :: "('s, 'a) walk_step \<Rightarrow> 's \<Rightarrow> 'a list \<Rightarrow> ('s \<times> 'a list) option" where
  "list_walk step s [] = Some (s, [])"
| "list_walk step s (x # xs) =
     (case step s x of
        None \<Rightarrow> None
      | Some (s', y, go) \<Rightarrow>
          if go then map_option (\<lambda>(r, ys). (r, y # ys)) (list_walk step s' xs) else Some (s', y # xs))"

lemma rb_walk_list:
  assumes "rb_elem z = Some x" and "list_walk step s (x # after z) = Some (r, ys)"
  shows "\<exists>t'. rb_walk step s z = Some (r, t') \<and> inorder t' = before z @ ys \<and> rb_tree t' = rb_tree (whole z)"
  using assms
proof (induction step s z arbitrary: x ys rule: rb_walk.induct)
  case (1 step s z)
  obtain s' y go where st: "step s x = Some (s', y, go)"
    using "1.prems"(2) by (auto split: option.splits)
  define z' where "z' = rb_replace_node z y"
  note rep = rb_replace_node_pos [OF "1.prems"(1), of y, folded z'_def]
  have ino: "inorder (whole z') = before z @ y # after z"
    using inorder_whole [OF rep(1)] rep by simp
  have unf: "rb_walk step s z = (if go then (case rb_next z' of None \<Rightarrow> Some (s', whole z') | Some n \<Rightarrow> rb_walk step s' n)
                else Some (s', whole z'))"
    using "1.prems"(1) st unfolding z'_def by (simp add: rb_walk.simps [of step s z] Let_def)
  show ?case
  proof (cases "go \<and> rb_next z' \<noteq> None")
    case True
    then obtain n where n: "rb_next z' = Some n" by auto
    from rb_next_pos(2) [OF rep(1) n] rep obtain x' where
      "rb_elem n = Some x'" "after z = x' # after n" "whole n = whole z'" "before n = before z @ [y]" by auto
    with "1.IH" [OF "1.prems"(1) st refl refl z'_def _ n, of x'] "1.prems"(2) st True unf n rep(4)
    show ?thesis by (auto split: option.splits)
  next
    case False
    then have "ys = y # after z \<and> r = s'"
      using "1.prems"(2) st rb_next_pos(1) [OF rep(1)] rep(3) by (auto split: option.splits if_splits)
    with False unf ino rep(4) show ?thesis by (cases "rb_next z'") auto
  qed
qed

subsection \<open>Nodes by rank\<close>

text \<open>
  A pointer to a node stays valid when the tree around it is rebalanced.  After an operation that
  rebuilds the tree, the node a pointer refers to is the node with its in-order rank.
\<close>

fun rb_locate :: "nat \<Rightarrow> 'a rb \<Rightarrow> 'a path \<Rightarrow> 'a pos" where
  "rb_locate n Leaf path = (Leaf, path)"
| "rb_locate n (Node c x l r) path =
     (let k = length (inorder l) in
      if n < k then rb_locate n l (InLeft c x r # path)
      else if n = k then (Node c x l r, path)
      else rb_locate (n - k - 1) r (InRight c x l # path))"

lemma rb_locate_pos:
  assumes "n < length (inorder t)" and "rb_locate n t path = z"
  shows "whole z = plug t path \<and> rb_elem z = Some (inorder t ! n) \<and>
     before z = lefts path @ take n (inorder t) \<and> after z = drop (Suc n) (inorder t) @ rights path"
  using assms
proof (induction n t path rule: rb_locate.induct)
  case (1 n path)
  then show ?case by simp
next
  case (2 n c x l r path)
  define k where "k = length (inorder l)"
  consider "n < k" | "n = k" | "k < n" by linarith
  then show ?case
  proof cases
    case 1
    with 2 show ?thesis by (simp add: k_def nth_append)
  next
    case 2
    with "2.prems" show ?thesis by (auto simp: k_def whole_def nth_append)
  next
    case 3
    moreover have "Suc n - k = Suc (n - k)" "n - k = Suc (n - k - 1)" using 3 by auto
    ultimately show ?thesis using 2 by (simp add: k_def nth_append Suc_diff_le)
  qed
qed

lemma rb_locate_root:
  assumes "inorder t = xs @ x # ys" and "rb_locate (length xs) t [] = z"
  shows "whole z = t \<and> rb_elem z = Some x \<and> before z = xs \<and> after z = ys"
  using rb_locate_pos [of "length xs" t "[]" z] assms by simp

subsection \<open>Emptying a tree\<close>

text \<open>
  The loop with which an owner of a tree frees it: while there is a first node, erase and free it.
  The result is the list of the elements freed.
\<close>

lemma rb_erase_first_decreases:
  "rb_first t = Some z \<Longrightarrow> rb_erase z = Some t' \<Longrightarrow> length (inorder t') < length (inorder t)"
  using rb_first_pos(2) [of t z] inorder_erase_pos [of z] by (auto dest: inorder_whole)

function rb_free_all :: "'a rb \<Rightarrow> 'a list option" where
  "rb_free_all t =
     (case rb_first t of
        None \<Rightarrow> Some []
      | Some z \<Rightarrow>
          (case (rb_elem z, rb_erase z) of
             (Some x, Some t') \<Rightarrow> map_option (Cons x) (rb_free_all t')
           | _ \<Rightarrow> None))"
  by pat_completeness auto
termination
  by (relation "measure (\<lambda>t. length (inorder t))") (auto intro: rb_erase_first_decreases)

declare rb_free_all.simps [simp del]

text \<open>On a red-black tree every element is freed once, in order.\<close>

lemma rb_free_all_ok: "rb_tree t \<Longrightarrow> rb_free_all t = Some (inorder t)"
proof (induction t rule: rb_free_all.induct)
  case (1 t)
  show ?case
  proof (cases "rb_first t")
    case None
    then show ?thesis by (cases t) (auto simp: rb_free_all.simps)
  next
    case (Some z)
    from rb_first_pos(2) [OF Some] obtain x where z: "whole z = t" "before z = []" "rb_elem z = Some x"
      "inorder t = x # after z" by blast
    from rb_erase_pos [OF z(3)] z "1.prems" obtain t' where t': "rb_erase z = Some t'" "rb_tree t'" "inorder t' = after z"
      by auto
    from "1.IH" [OF Some refl z(3) t'(1) t'(2)] z t' Some show ?thesis
      by (simp add: rb_free_all.simps [of t])
  qed
qed

end
