(* ===== verification/Rbtree_Props.thy ===== *)
theory Rbtree_Props
  imports Rbtree
begin

text \<open>
  The trees that \<open>kernel-rbtree.c\<close> can build: every sequence of insertions, removals and replacements keeps the
  red-black invariant, so that no operation meets a missing node and the depth stays logarithmic.
\<close>

inductive rb_reachable :: "'a rb \<Rightarrow> bool" where
  reach_empty: "rb_reachable Leaf"
| reach_insert: "rb_reachable (plug Leaf path) \<Longrightarrow> rb_insert_at x path = Some t \<Longrightarrow> rb_reachable t"
| reach_erase: "rb_reachable (whole z) \<Longrightarrow> rb_elem z = Some x \<Longrightarrow> rb_erase z = Some t \<Longrightarrow> rb_reachable t"
| reach_replace: "rb_reachable (whole z) \<Longrightarrow> rb_elem z = Some x \<Longrightarrow> rb_reachable (whole (rb_replace_node z y))"

lemma reachable_rb_tree: "rb_reachable t \<Longrightarrow> rb_tree t"
proof (induction rule: rb_reachable.induct)
  case reach_empty
  then show ?case by (simp add: rb_tree_def)
next
  case (reach_insert path x t)
  then show ?case using rb_insert_at_pos [of path x] by auto
next
  case (reach_erase z x t)
  then show ?case using rb_erase_pos [of z x] by auto
next
  case (reach_replace z x y)
  then show ?case using rb_replace_node_pos(4) [of z x y] by simp
qed

fun depth :: "'a rb \<Rightarrow> nat" where
  "depth Leaf = 0"
| "depth (Node c x l r) = Suc (max (depth l) (depth r))"

lemma depth_le_bh: "rb_ok t \<Longrightarrow> depth t \<le> 2 * bh t + (if black t then 0 else 1)"
proof (induction t)
  case (Node c x l r)
  then have "depth l \<le> 2 * bh l + (if black l then 0 else 1)" "depth r \<le> 2 * bh l + (if black r then 0 else 1)" by auto
  then show ?case using Node.prems by (cases c) (auto split: if_splits)
qed simp

lemma size_ge_bh: "rb_ok t \<Longrightarrow> 2 ^ bh t \<le> Suc (length (inorder t))"
proof (induction t)
  case (Node c x l r)
  then have "2 ^ bh l \<le> Suc (length (inorder l))" "(2 :: nat) ^ bh l \<le> Suc (length (inorder r))" by auto
  then have "2 * 2 ^ bh l \<le> Suc (length (inorder (Node c x l r)))" by simp
  moreover have "(2 :: nat) ^ bh (Node c x l r) \<le> 2 * 2 ^ bh l" by simp
  ultimately show ?case by (rule order_trans [rotated])
qed simp

lemma depth_le_log:
  assumes "rb_tree t"
  shows "2 ^ depth t \<le> (Suc (length (inorder t)))\<^sup>2"
proof -
  have "depth t \<le> 2 * bh t" using depth_le_bh [of t] assms by (simp add: rb_tree_def)
  then have "(2 :: nat) ^ depth t \<le> (2 ^ bh t)\<^sup>2" by (simp add: power_mult [symmetric] power_increasing mult.commute)
  also have "\<dots> \<le> (Suc (length (inorder t)))\<^sup>2" using size_ge_bh [of t] assms by (simp add: rb_tree_def power_mono)
  finally show ?thesis .
qed

text \<open>
  C40: every tree built from the empty one by inserting nodes at free places and erasing and replacing nodes is a red-black
  tree; its depth is at most twice the logarithm of the number of its nodes plus one; the next insertion anywhere
  and the removal of any of its nodes meet no missing node and change the sequence of the nodes by that node only.
\<close>

theorem reachable_trees_are_red_black:
  assumes "rb_reachable t"
  shows "rb_tree t \<and> 2 ^ depth t \<le> (Suc (length (inorder t)))\<^sup>2 \<and>
    (\<forall>path x. plug Leaf path = t \<longrightarrow> (\<exists>t'. rb_insert_at x path = Some t' \<and> rb_reachable t' \<and> inorder t' = lefts path @ x # rights path)) \<and>
    (\<forall>z x. whole z = t \<and> rb_elem z = Some x \<longrightarrow> (\<exists>t'. rb_erase z = Some t' \<and> rb_reachable t' \<and> inorder t' = before z @ after z))"
proof (intro conjI allI impI)
  show t: "rb_tree t" by (rule reachable_rb_tree [OF assms])
  show "2 ^ depth t \<le> (Suc (length (inorder t)))\<^sup>2" by (rule depth_le_log [OF t])
  show "\<exists>t'. rb_insert_at x path = Some t' \<and> rb_reachable t' \<and> inorder t' = lefts path @ x # rights path" if "plug Leaf path = t" for path x
    using rb_insert_at_pos [of path x] reach_insert [of path x] that t assms by blast
  show "\<exists>t'. rb_erase z = Some t' \<and> rb_reachable t' \<and> inorder t' = before z @ after z" if "whole z = t \<and> rb_elem z = Some x" for z x
    using rb_erase_pos [of z x] reach_erase [of z x] that t assms by blast
qed

definition sample_rb :: "nat rb" where
  "sample_rb = Node RB_BLACK 5 Leaf (Node RB_RED 7 Leaf Leaf)"

lemma sample_reachable: "rb_reachable sample_rb"
proof -
  have "rb_reachable (Node RB_BLACK (5 :: nat) Leaf Leaf)"
    by (rule reach_insert [of "[]" 5]) (simp_all add: reach_empty rb_insert_at_def rb_link_node_def)
  then have "rb_reachable (plug Leaf [InRight RB_BLACK (5 :: nat) Leaf])" by simp
  from reach_insert [OF this, of 7] show ?thesis by (simp add: sample_rb_def rb_insert_at_def rb_link_node_def)
qed

theorem reachable_trees_are_red_black_witness:
  "depth sample_rb = 2 \<and> 2 ^ depth sample_rb \<le> (Suc (length (inorder sample_rb)))\<^sup>2 \<and>
   (\<exists>t'. rb_insert_at 9 [InRight RB_RED 7 Leaf, InRight RB_BLACK 5 Leaf] = Some t' \<and> inorder t' = [5, 7, 9 :: nat])"
proof -
  note r = reachable_trees_are_red_black [OF sample_reachable]
  have p: "plug Leaf [InRight RB_RED 7 Leaf, InRight RB_BLACK 5 Leaf] = sample_rb" by (simp add: sample_rb_def)
  have "\<exists>t'. rb_insert_at (9 :: nat) [InRight RB_RED 7 Leaf, InRight RB_BLACK 5 Leaf] = Some t' \<and> rb_reachable t' \<and>
      inorder t' = lefts [InRight RB_RED 7 Leaf, InRight RB_BLACK 5 Leaf] @ 9 # rights [InRight RB_RED 7 Leaf, InRight RB_BLACK 5 Leaf]"
    using r p by blast
  moreover have "depth sample_rb = 2" by (simp add: sample_rb_def)
  ultimately show ?thesis using r by force
qed

end
