(* ===== verification/Bitmap.thy ===== *)
theory Bitmap
  imports Bitops Rbtree
begin

text \<open>
  The in-memory bitmaps of \<open>libocfs2/bitmap.c\<close>: a bitmap is a red-black tree of regions, each a
  byte buffer for a range of bits.  The public operations dispatch through a table of operations;
  the library has two tables of its own, the cluster bitmap (all bits backed by memory) and the
  block bitmap (with holes, where a region is made and merged with its neighbours on demand).

  Bit numbers and counters are natural numbers with the wrap-around of \<open>uint64_t\<close> written out.
  The operations table is passed as an argument instead of being read from \<open>b_ops\<close>, whose type
  would be recursive; its two callbacks that the generic operations use are in
  \<open>bitmap_hooks\<close>.  Memory allocation succeeds.  A result of type \<open>'a result option\<close> is \<open>None\<close>
  for an undefined execution (also \<open>abort\<close>), \<open>Inl\<close> for a returned error, after which the bitmap is
  as it was.
\<close>

lemma alloc_range_decreases:
  assumes "start + min_len \<le> tot" and "ocfs2_find_next_bit_clear buf tot start = Some s"
    and "s \<noteq> tot" and "ocfs2_find_next_bit_set buf tot s = Some e"
  shows "tot - e < Suc tot - start"
proof (cases "e < tot")
  case True
  with assms(4) find_next_bit_set_ge have "s \<le> e" by blast
  moreover from this True assms(2) find_next_bit_clear_ge have "start \<le> s" by (meson le_less_trans)
  ultimately show ?thesis using True by linarith
qed (use assms(1) in linarith)

section \<open>The model\<close>

record region =
  br_start_bit :: nat
  br_total_bits :: nat
  br_bytes :: nat
  br_set_bits :: int
  br_bitmap :: "byte list"

record 'p ocfs2_bitmap =
  b_set_bits :: nat
  b_total_bits :: nat
  b_description :: string
  b_regions :: "region rb"
  b_private :: 'p

text \<open>
  \<open>bit_change_notify\<close> of the table sees the bitmap's private data, the region after the change,
  the bit number and its new value, and may change the private data.
\<close>

record 'p bitmap_hooks =
  merge_region :: "('p ocfs2_bitmap \<Rightarrow> region \<Rightarrow> region \<Rightarrow> bool) option"
  bit_change_notify :: "('p \<Rightarrow> region \<Rightarrow> nat \<Rightarrow> bool \<Rightarrow> 'p) option"

record 'p bitmap_ops =
  op_set_bit :: "('p ocfs2_bitmap \<Rightarrow> nat \<Rightarrow> (bool \<times> 'p ocfs2_bitmap) result option) option"
  op_clear_bit :: "('p ocfs2_bitmap \<Rightarrow> nat \<Rightarrow> (bool \<times> 'p ocfs2_bitmap) result option) option"
  op_test_bit :: "('p ocfs2_bitmap \<Rightarrow> nat \<Rightarrow> bool result option) option"
  op_find_next_set :: "('p ocfs2_bitmap \<Rightarrow> nat \<Rightarrow> nat result option) option"
  op_find_next_clear :: "('p ocfs2_bitmap \<Rightarrow> nat \<Rightarrow> nat result option) option"
  op_alloc_range :: "('p ocfs2_bitmap \<Rightarrow> nat \<Rightarrow> nat \<Rightarrow> (nat \<times> nat \<times> 'p ocfs2_bitmap) result option) option"
  op_clear_range :: "('p ocfs2_bitmap \<Rightarrow> nat \<Rightarrow> nat \<Rightarrow> 'p ocfs2_bitmap result option) option"
  op_read_bitmap :: "('p ocfs2_bitmap \<Rightarrow> 'p ocfs2_bitmap result option) option"
  op_write_bitmap :: "('p ocfs2_bitmap \<Rightarrow> 'p ocfs2_bitmap result option) option"
  op_destroy_notify :: "('p ocfs2_bitmap \<Rightarrow> 'p ocfs2_bitmap) option"

subsection \<open>The public operations\<close>

definition ocfs2_bitmap_set ::
    "'p bitmap_ops \<Rightarrow> 'p ocfs2_bitmap \<Rightarrow> nat \<Rightarrow> (bool \<times> 'p ocfs2_bitmap) result option" where
  "ocfs2_bitmap_set ops bm bitno =
     (if bitno \<ge> b_total_bits bm then Some (Inl OCFS2_ET_INVALID_BIT)
      else do { f \<leftarrow> op_set_bit ops;
                r \<leftarrow> f bm bitno;
                Some (case r of
                   Inl e \<Rightarrow> Inl e
                 | Inr (old, bm') \<Rightarrow>
                     Inr (old, if \<not> old then bm'\<lparr>b_set_bits := add64 (b_set_bits bm') 1\<rparr> else bm')) })"

definition ocfs2_bitmap_clear ::
    "'p bitmap_ops \<Rightarrow> 'p ocfs2_bitmap \<Rightarrow> nat \<Rightarrow> (bool \<times> 'p ocfs2_bitmap) result option" where
  "ocfs2_bitmap_clear ops bm bitno =
     (if bitno \<ge> b_total_bits bm then Some (Inl OCFS2_ET_INVALID_BIT)
      else do { f \<leftarrow> op_clear_bit ops;
                r \<leftarrow> f bm bitno;
                Some (case r of
                   Inl e \<Rightarrow> Inl e
                 | Inr (old, bm') \<Rightarrow>
                     Inr (old, if old then bm'\<lparr>b_set_bits := sub64 (b_set_bits bm') 1\<rparr> else bm')) })"

definition ocfs2_bitmap_test :: "'p bitmap_ops \<Rightarrow> 'p ocfs2_bitmap \<Rightarrow> nat \<Rightarrow> bool result option" where
  "ocfs2_bitmap_test ops bm bitno =
     (if bitno \<ge> b_total_bits bm then Some (Inl OCFS2_ET_INVALID_BIT)
      else do { f \<leftarrow> op_test_bit ops; f bm bitno })"

definition ocfs2_bitmap_find_next_set :: "'p bitmap_ops \<Rightarrow> 'p ocfs2_bitmap \<Rightarrow> nat \<Rightarrow> nat result option" where
  "ocfs2_bitmap_find_next_set ops bm start =
     (if start \<ge> b_total_bits bm then Some (Inl OCFS2_ET_INVALID_BIT)
      else do { f \<leftarrow> op_find_next_set ops; f bm start })"

definition ocfs2_bitmap_find_next_clear :: "'p bitmap_ops \<Rightarrow> 'p ocfs2_bitmap \<Rightarrow> nat \<Rightarrow> nat result option" where
  "ocfs2_bitmap_find_next_clear ops bm start =
     (if start \<ge> b_total_bits bm then Some (Inl OCFS2_ET_INVALID_BIT)
      else do { f \<leftarrow> op_find_next_clear ops; f bm start })"

definition ocfs2_bitmap_alloc_range ::
    "'p bitmap_ops \<Rightarrow> 'p ocfs2_bitmap \<Rightarrow> nat \<Rightarrow> nat \<Rightarrow> (nat \<times> nat \<times> 'p ocfs2_bitmap) result option" where
  "ocfs2_bitmap_alloc_range ops bm min_len len =
     (if min_len = 0 \<or> len = 0 \<or> len \<ge> b_total_bits bm \<or> min_len > len
      then Some (Inl OCFS2_ET_INVALID_ARGUMENT)
      else do { f \<leftarrow> op_alloc_range ops;
                r \<leftarrow> f bm min_len len;
                case r of
                  Inl e \<Rightarrow> Some (Inl e)
                | Inr (first_bit, bits_found, bm') \<Rightarrow>
                    if bits_found < min_len then None else Some (Inr (first_bit, bits_found, bm')) })"

definition ocfs2_bitmap_clear_range ::
    "'p bitmap_ops \<Rightarrow> 'p ocfs2_bitmap \<Rightarrow> nat \<Rightarrow> nat \<Rightarrow> 'p ocfs2_bitmap result option" where
  "ocfs2_bitmap_clear_range ops bm len first_bit =
     (if len = 0 \<or> add64 len first_bit > b_total_bits bm then Some (Inl OCFS2_ET_INVALID_ARGUMENT)
      else do { f \<leftarrow> op_clear_range ops; f bm len first_bit })"

definition ocfs2_bitmap_read :: "'p bitmap_ops \<Rightarrow> 'p ocfs2_bitmap \<Rightarrow> 'p ocfs2_bitmap result option" where
  "ocfs2_bitmap_read ops bm =
     (case op_read_bitmap ops of
        None \<Rightarrow> Some (Inl OCFS2_ET_INVALID_ARGUMENT)
      | Some f \<Rightarrow> if rb_first (b_regions bm) \<noteq> None then Some (Inl OCFS2_ET_INVALID_BIT) else f bm)"

definition ocfs2_bitmap_write :: "'p bitmap_ops \<Rightarrow> 'p ocfs2_bitmap \<Rightarrow> 'p ocfs2_bitmap result option" where
  "ocfs2_bitmap_write ops bm =
     (case op_write_bitmap ops of None \<Rightarrow> Some (Inl OCFS2_ET_INVALID_ARGUMENT) | Some f \<Rightarrow> f bm)"

definition ocfs2_bitmap_get_set_bits :: "'p ocfs2_bitmap \<Rightarrow> nat" where
  "ocfs2_bitmap_get_set_bits bm = b_set_bits bm"

text \<open>
  \<open>ocfs2_bitmap_free\<close>; its result is the list of regions given to \<open>ocfs2_bitmap_free_region\<close>.
\<close>

definition ocfs2_bitmap_free :: "'p bitmap_ops \<Rightarrow> 'p ocfs2_bitmap \<Rightarrow> region list option" where
  "ocfs2_bitmap_free ops bm =
     (let bm' = (case op_destroy_notify ops of None \<Rightarrow> bm | Some f \<Rightarrow> f bm) in rb_free_all (b_regions bm'))"

definition ocfs2_bitmap_new ::
    "nat \<Rightarrow> string option \<Rightarrow> 'p bitmap_ops \<Rightarrow> 'p \<Rightarrow> 'p ocfs2_bitmap result" where
  "ocfs2_bitmap_new total_bits description ops private_data =
     (if op_set_bit ops = None \<or> op_clear_bit ops = None \<or> op_test_bit ops = None
      then Inl OCFS2_ET_INVALID_ARGUMENT
      else Inr \<lparr>b_set_bits = 0, b_total_bits = total_bits,
                b_description = (case description of None \<Rightarrow> [] | Some d \<Rightarrow> d),
                b_regions = Leaf, b_private = private_data\<rparr>)"

subsection \<open>Regions\<close>

text \<open>The argument of \<open>ocfs2_align_total\<close> is an \<open>int\<close>; adding 7 can overflow.\<close>

definition ocfs2_align_total :: "nat \<Rightarrow> nat option" where
  "ocfs2_align_total total_bits = (if total_bits + 7 > INT_MAX then None else Some ((total_bits + 7) div 8))"

definition ocfs2_bitmap_alloc_region :: "nat \<Rightarrow> int \<Rightarrow> region result option" where
  "ocfs2_bitmap_alloc_region start_bit total_bits =
     (if total_bits < 0 then Some (Inl OCFS2_ET_INVALID_BIT)
      else do { bytes \<leftarrow> ocfs2_align_total (nat total_bits);
                Some (Inr \<lparr>br_start_bit = start_bit, br_total_bits = nat total_bits, br_bytes = bytes,
                           br_set_bits = 0, br_bitmap = replicate bytes 0\<rparr>) })"

definition ocfs2_bitmap_realloc_region :: "'p ocfs2_bitmap \<Rightarrow> region \<Rightarrow> nat \<Rightarrow> region result option" where
  "ocfs2_bitmap_realloc_region bm br total_bits =
     (if add64 (br_start_bit br) total_bits > b_total_bits bm then Some (Inl OCFS2_ET_INVALID_BIT)
      else do { new_bytes \<leftarrow> ocfs2_align_total total_bits;
                Some (Inr ((if new_bytes > br_bytes br
                            then br\<lparr>br_bytes := new_bytes,
                                    br_bitmap := br_bitmap br @ replicate (new_bytes - br_bytes br) 0\<rparr>
                            else br)\<lparr>br_total_bits := total_bits\<rparr>)) })"

text \<open>
  \<open>ocfs2_bitmap_foreach_region\<close>: the callback's state is \<open>'s\<close>; it may change the region and
  returns an error code, \<open>None\<close> for 0.
\<close>

type_synonym 's foreach_func = "'s \<Rightarrow> region \<Rightarrow> ('s \<times> region \<times> errcode option) option"

definition foreach_step :: "'s foreach_func \<Rightarrow> ('s \<times> errcode option, region) walk_step" where
  "foreach_step func = (\<lambda>(s, ret) br.
     do { (s', br', e) \<leftarrow> func s br;
          Some (case e of
             None \<Rightarrow> ((s', None), br', True)
           | Some OCFS2_ET_ITERATION_COMPLETE \<Rightarrow> ((s', None), br', False)
           | Some e' \<Rightarrow> ((s', Some e'), br', False)) })"

definition ocfs2_bitmap_foreach_region ::
    "region rb \<Rightarrow> 's foreach_func \<Rightarrow> 's \<Rightarrow> ('s \<times> errcode option \<times> region rb) option" where
  "ocfs2_bitmap_foreach_region regions func s =
     (case rb_first regions of
        None \<Rightarrow> Some (s, None, regions)
      | Some z \<Rightarrow> do { ((s', ret), t') \<leftarrow> rb_walk (foreach_step func) (s, None) z; Some (s', ret, t') })"

subsection \<open>Merging two neighbours\<close>

definition write_byte :: "byte list \<Rightarrow> nat \<Rightarrow> byte \<Rightarrow> byte list option" where
  "write_byte buf i v = (if i < length buf then Some (buf[i := v]) else None)"

text \<open>
  The shift loop: \<open>pbm\<close> and \<open>nbm\<close> are indices into the two buffers, \<open>nbytes\<close> and \<open>nbits\<close> are the
  fields \<open>br_bytes\<close> and \<open>br_total_bits\<close> of the next region, which the loop consumes.
\<close>

fun merge_shift :: "nat \<Rightarrow> byte list \<Rightarrow> nat \<Rightarrow> byte list \<Rightarrow> nat \<Rightarrow> nat \<Rightarrow> int \<Rightarrow> byte list option" where
  "merge_shift offset prev pbm next nbm 0 nbits = Some prev"
| "merge_shift offset prev pbm next nbm (Suc nbytes) nbits =
     (if nbits > 0 then
        do { let diff = 8 - offset;
             p \<leftarrow> read_byte prev pbm;
             n \<leftarrow> read_byte next nbm;
             prev1 \<leftarrow> write_byte prev pbm
                        ((p AND (push_bit offset 1 - 1)) OR push_bit offset (n AND (push_bit diff 1 - 1)));
             if nbits - int diff > 0 then
               do { prev2 \<leftarrow> write_byte prev1 (Suc pbm) (drop_bit diff n);
                    merge_shift offset prev2 (Suc pbm) next (Suc nbm) nbytes (nbits - int diff - int offset) }
             else merge_shift offset prev1 (Suc pbm) next nbm nbytes (nbits - int diff) }
      else Some prev)"

text \<open>The contents of the merged region.\<close>

definition merge_contents ::
    "'p ocfs2_bitmap \<Rightarrow> region \<Rightarrow> region \<Rightarrow> region result option" where
  "merge_contents bm prev next =
     (let new_bits = br_total_bits prev + br_total_bits next;
          prev_bytes = br_bytes prev;
          offset = br_total_bits prev mod 8
      in if new_bits > INT_MAX then Some (Inl OCFS2_ET_INVALID_BIT)
         else do { r \<leftarrow> ocfs2_bitmap_realloc_region bm prev new_bits;
                   case r of
                     Inl e \<Rightarrow> Some (Inl e)
                   | Inr prev' \<Rightarrow>
                       do { buf \<leftarrow> (if offset = 0
                                    then do { bs \<leftarrow> read_bytes (br_bitmap next) 0 (br_bytes next);
                                              write_bytes (br_bitmap prev') prev_bytes bs }
                                    else merge_shift offset (br_bitmap prev') (prev_bytes - 1)
                                           (br_bitmap next) 0 (br_bytes next) (int (br_total_bits next)));
                            Some (Inr (prev'\<lparr>br_bitmap := buf,
                                             br_set_bits := br_set_bits prev + br_set_bits next\<rparr>)) } })"

text \<open>
  \<open>ocfs2_bitmap_merge_region\<close> on the node at \<open>zprev\<close> and its successor in the tree, \<open>next\<close>.  Both
  callers pass two neighbours.
\<close>

definition ocfs2_bitmap_merge_region ::
    "'p bitmap_hooks \<Rightarrow> 'p ocfs2_bitmap \<Rightarrow> region pos \<Rightarrow> 'p ocfs2_bitmap result option" where
  "ocfs2_bitmap_merge_region hooks bm zprev =
     do { prev \<leftarrow> rb_elem zprev;
          znext \<leftarrow> rb_next zprev;
          next \<leftarrow> rb_elem znext;
          if add64 (br_start_bit prev) (br_total_bits prev) \<noteq> br_start_bit next
          then Some (Inl OCFS2_ET_INVALID_BIT)
          else if (case merge_region hooks of None \<Rightarrow> False | Some f \<Rightarrow> \<not> f bm prev next)
          then Some (Inl OCFS2_ET_INVALID_BIT)
          else do { r \<leftarrow> merge_contents bm prev next;
                    case r of
                      Inl e \<Rightarrow> Some (Inl e)
                    | Inr merged \<Rightarrow>
                        do { zn \<leftarrow> rb_next (rb_replace_node zprev merged);
                             t' \<leftarrow> rb_erase zn;
                             Some (Inr (bm\<lparr>b_regions := t'\<rparr>)) } } }"

subsection \<open>Lookup and insertion\<close>

text \<open>
  \<open>ocfs2_bitmap_lookup\<close> returns the place where the search ended, a node that intersects the range
  or the empty place to insert at, and the node it last went left from.
\<close>

fun lookup_loop ::
    "nat \<Rightarrow> nat \<Rightarrow> region rb \<Rightarrow> region path \<Rightarrow> region pos option \<Rightarrow> region pos \<times> region pos option" where
  "lookup_loop bitno total_bits Leaf path last_left = ((Leaf, path), last_left)"
| "lookup_loop bitno total_bits (Node c br l r) path last_left =
     (if add64 bitno total_bits \<le> br_start_bit br
      then lookup_loop bitno total_bits l (InLeft c br r # path) (Some (Node c br l r, path))
      else if bitno \<ge> add64 (br_start_bit br) (br_total_bits br)
      then lookup_loop bitno total_bits r (InRight c br l # path) last_left
      else ((Node c br l r, path), last_left))"

definition ocfs2_bitmap_lookup :: "'p ocfs2_bitmap \<Rightarrow> nat \<Rightarrow> nat \<Rightarrow> region pos \<times> region pos option" where
  "ocfs2_bitmap_lookup bm bitno total_bits = lookup_loop bitno total_bits (b_regions bm) [] None"

text \<open>
  A failed merge is ignored.  After the attempt with the previous region, \<open>br\<close> is that region, so
  the second attempt is between it and its successor.
\<close>

definition ignore_error :: "'a \<Rightarrow> 'a result option \<Rightarrow> 'a option" where
  "ignore_error x r = map_option (\<lambda>s. case s of Inl _ \<Rightarrow> x | Inr y \<Rightarrow> y) r"

definition merge_with_next ::
    "'p bitmap_hooks \<Rightarrow> 'p ocfs2_bitmap \<Rightarrow> nat \<Rightarrow> 'p ocfs2_bitmap option" where
  "merge_with_next hooks bm n =
     (let z = rb_locate n (b_regions bm) [] in
      if rb_next z = None then Some bm else ignore_error bm (ocfs2_bitmap_merge_region hooks bm z))"

definition ocfs2_bitmap_insert_region ::
    "'p bitmap_hooks \<Rightarrow> 'p ocfs2_bitmap \<Rightarrow> region \<Rightarrow> 'p ocfs2_bitmap result option" where
  "ocfs2_bitmap_insert_region hooks bm br =
     (if br_start_bit br > b_total_bits bm then Some (Inl OCFS2_ET_INVALID_BIT)
      else case fst (ocfs2_bitmap_lookup bm (br_start_bit br) (br_total_bits br)) of
        (Node _ _ _ _, _) \<Rightarrow> Some (Inl OCFS2_ET_INVALID_BIT)
      | (Leaf, path) \<Rightarrow>
          do { t \<leftarrow> rb_insert_at br path;
               let n = length (lefts path);
               let bm1 = bm\<lparr>b_regions := t\<rparr>;
               case rb_prev (rb_locate n t []) of
                 None \<Rightarrow> map_option Inr (merge_with_next hooks bm1 n)
               | Some zprev \<Rightarrow>
                   do { bm2 \<leftarrow> ignore_error bm1 (ocfs2_bitmap_merge_region hooks bm1 zprev);
                        map_option Inr (merge_with_next hooks bm2 (n - 1)) } })"

subsection \<open>The generic operations\<close>

definition notify :: "'p bitmap_hooks \<Rightarrow> 'p \<Rightarrow> region \<Rightarrow> nat \<Rightarrow> bool \<Rightarrow> 'p" where
  "notify hooks p br bitno v = (case bit_change_notify hooks of None \<Rightarrow> p | Some f \<Rightarrow> f p br bitno v)"

definition set_generic_shared ::
    "'p bitmap_hooks \<Rightarrow> 'p \<Rightarrow> region \<Rightarrow> nat \<Rightarrow> (bool \<times> 'p \<times> region) option" where
  "set_generic_shared hooks p br bitno =
     do { (old, buf) \<leftarrow> ocfs2_set_bit (sub64 bitno (br_start_bit br)) (br_bitmap br);
          let br1 = br\<lparr>br_bitmap := buf\<rparr>;
          if \<not> old then
            (let br2 = br1\<lparr>br_set_bits := br_set_bits br1 + 1\<rparr>
             in Some (old, notify hooks p br2 bitno True, br2))
          else Some (old, p, br1) }"

definition clear_generic_shared ::
    "'p bitmap_hooks \<Rightarrow> 'p \<Rightarrow> region \<Rightarrow> nat \<Rightarrow> (bool \<times> 'p \<times> region) option" where
  "clear_generic_shared hooks p br bitno =
     do { (old, buf) \<leftarrow> ocfs2_clear_bit (sub64 bitno (br_start_bit br)) (br_bitmap br);
          let br1 = br\<lparr>br_bitmap := buf\<rparr>;
          if old then
            (let br2 = br1\<lparr>br_set_bits := br_set_bits br1 - 1\<rparr>
             in Some (old, notify hooks p br2 bitno False, br2))
          else Some (old, p, br1) }"

definition ocfs2_bitmap_set_generic ::
    "'p bitmap_hooks \<Rightarrow> 'p ocfs2_bitmap \<Rightarrow> nat \<Rightarrow> (bool \<times> 'p ocfs2_bitmap) result option" where
  "ocfs2_bitmap_set_generic hooks bm bitno =
     (let z = fst (ocfs2_bitmap_lookup bm bitno 1) in
      case rb_elem z of
        None \<Rightarrow> Some (Inl OCFS2_ET_INVALID_BIT)
      | Some br \<Rightarrow>
          do { (old, p, br') \<leftarrow> set_generic_shared hooks (b_private bm) br bitno;
               Some (Inr (old, bm\<lparr>b_regions := whole (rb_replace_node z br'), b_private := p\<rparr>)) })"

definition ocfs2_bitmap_clear_generic ::
    "'p bitmap_hooks \<Rightarrow> 'p ocfs2_bitmap \<Rightarrow> nat \<Rightarrow> (bool \<times> 'p ocfs2_bitmap) result option" where
  "ocfs2_bitmap_clear_generic hooks bm bitno =
     (let z = fst (ocfs2_bitmap_lookup bm bitno 1) in
      case rb_elem z of
        None \<Rightarrow> Some (Inl OCFS2_ET_INVALID_BIT)
      | Some br \<Rightarrow>
          do { (old, p, br') \<leftarrow> clear_generic_shared hooks (b_private bm) br bitno;
               Some (Inr (old, bm\<lparr>b_regions := whole (rb_replace_node z br'), b_private := p\<rparr>)) })"

definition ocfs2_bitmap_test_generic :: "'p ocfs2_bitmap \<Rightarrow> nat \<Rightarrow> bool result option" where
  "ocfs2_bitmap_test_generic bm bitno =
     (case rb_elem (fst (ocfs2_bitmap_lookup bm bitno 1)) of
        None \<Rightarrow> Some (Inl OCFS2_ET_INVALID_BIT)
      | Some br \<Rightarrow> map_option Inr (ocfs2_test_bit (sub64 bitno (br_start_bit br)) (br_bitmap br)))"

text \<open>
  The node the search loops start from: the region that holds the bit, or else the next one.  The
  step of both loops looks for a bit in one region, from \<open>start\<close> if that is inside it.
\<close>

definition start_node :: "'p ocfs2_bitmap \<Rightarrow> nat \<Rightarrow> region pos option" where
  "start_node bm start =
     (let (z, last_left) = ocfs2_bitmap_lookup bm start 1
      in if rb_elem z \<noteq> None then Some z else last_left)"

definition search_step ::
    "(byte list \<Rightarrow> nat \<Rightarrow> nat \<Rightarrow> nat option) \<Rightarrow> nat \<Rightarrow> (nat option, region) walk_step" where
  "search_step find_next start _ br =
     do { let offset = (if start > br_start_bit br then start - br_start_bit br else 0);
          ret \<leftarrow> find_next (br_bitmap br) (br_total_bits br) offset;
          if ret \<noteq> br_total_bits br then Some (Some (add64 (br_start_bit br) ret), br, False)
          else Some (None, br, True) }"

definition search_from ::
    "(byte list \<Rightarrow> nat \<Rightarrow> nat \<Rightarrow> nat option) \<Rightarrow> nat \<Rightarrow> region pos option \<Rightarrow> nat result option" where
  "search_from find_next start node =
     (case node of
        None \<Rightarrow> Some (Inl OCFS2_ET_BIT_NOT_FOUND)
      | Some z \<Rightarrow>
          do { (found, _) \<leftarrow> rb_walk (search_step find_next start) None z;
               Some (case found of None \<Rightarrow> Inl OCFS2_ET_BIT_NOT_FOUND | Some n \<Rightarrow> Inr n) })"

definition ocfs2_bitmap_find_next_set_generic :: "'p ocfs2_bitmap \<Rightarrow> nat \<Rightarrow> nat result option" where
  "ocfs2_bitmap_find_next_set_generic bm start =
     search_from ocfs2_find_next_bit_set start (start_node bm start)"

definition ocfs2_bitmap_find_next_clear_generic :: "'p ocfs2_bitmap \<Rightarrow> nat \<Rightarrow> nat result option" where
  "ocfs2_bitmap_find_next_clear_generic bm start =
     search_from ocfs2_find_next_bit_clear start (start_node bm start)"

record 'p alloc_range_args =
  ar_private :: 'p  \<comment> \<open>what \<open>bit_change_notify\<close> changes of \<open>ar_bitmap\<close>\<close>
  ar_min_len :: nat
  ar_len :: nat
  ar_first_bit :: nat
  ar_bits_found :: nat
  ar_ret :: "errcode option"

text \<open>
  The search loop of \<open>alloc_range_func\<close>: the run that is long enough for the maximum, if there is
  one (\<open>found\<close>), and otherwise the longest run seen.  At the start \<open>ar_min_len\<close> is at most
  \<open>br_total_bits\<close>, so no addition wraps.
\<close>

datatype alloc_search = Found nat nat | Best nat nat

function alloc_range_loop :: "region \<Rightarrow> nat \<Rightarrow> nat \<Rightarrow> nat \<Rightarrow> nat \<Rightarrow> nat \<Rightarrow> alloc_search option" where
  "alloc_range_loop br min_len len start best_start best_len =
     (if start + min_len \<le> br_total_bits br then
        (case ocfs2_find_next_bit_clear (br_bitmap br) (br_total_bits br) start of
           None \<Rightarrow> None
         | Some s \<Rightarrow>
             if s = br_total_bits br then Some (Best best_start best_len)
             else
               (case ocfs2_find_next_bit_set (br_bitmap br) (br_total_bits br) s of
                  None \<Rightarrow> None
                | Some e \<Rightarrow>
                    if int64 (int e - int s) \<ge> len then Some (Found s (s + len))
                    else if int64 (int e - int s) > best_len
                    then alloc_range_loop br min_len len (e + 1) s (int64 (int e - int s))
                    else alloc_range_loop br min_len len (e + 1) best_start best_len))
      else Some (Best best_start best_len))"
  by pat_completeness auto
termination
  by (relation "measure (\<lambda>(br, min_len, len, start, bs, bl). Suc (br_total_bits br) - start)")
     (auto intro: alloc_range_decreases)

declare alloc_range_loop.simps [simp del]

function set_run :: "'p bitmap_hooks \<Rightarrow> 'p \<Rightarrow> region \<Rightarrow> nat \<Rightarrow> nat \<Rightarrow> ('p \<times> region) option" where
  "set_run hooks p br start end =
     (if start < end then
        (case set_generic_shared hooks p br (start + br_start_bit br) of
           None \<Rightarrow> None
         | Some (_, p', br') \<Rightarrow> set_run hooks p' br' (start + 1) end)
      else Some (p, br))"
  by pat_completeness auto
termination
  by (relation "measure (\<lambda>(h, p, br, start, end). end - start)") auto

declare set_run.simps [simp del]

definition alloc_range_func :: "'p bitmap_hooks \<Rightarrow> 'p alloc_range_args foreach_func" where
  "alloc_range_func hooks ar br =
     (if int64 (int (br_total_bits br) - br_set_bits br) < ar_min_len ar then Some (ar, br, None)
      else do { res \<leftarrow> alloc_range_loop br (ar_min_len ar) (ar_len ar) 0 UINT64_MAX 0;
                case (case res of
                        Found s e \<Rightarrow> Some (s, e)
                      | Best s l \<Rightarrow> if s = UINT64_MAX \<or> l < ar_min_len ar then None else Some (s, s + l)) of
                  None \<Rightarrow> Some (ar, br, None)
                | Some (s, e) \<Rightarrow>
                    do { (p, br') \<leftarrow> set_run hooks (ar_private ar) br s e;
                         Some (ar\<lparr>ar_private := p, ar_first_bit := br_start_bit br + s,
                                  ar_bits_found := e - s, ar_ret := None\<rparr>,
                               br', Some OCFS2_ET_ITERATION_COMPLETE) } })"

definition ocfs2_bitmap_alloc_range_generic ::
    "'p bitmap_hooks \<Rightarrow> 'p ocfs2_bitmap \<Rightarrow> nat \<Rightarrow> nat \<Rightarrow> (nat \<times> nat \<times> 'p ocfs2_bitmap) result option" where
  "ocfs2_bitmap_alloc_range_generic hooks bm min_len len =
     do { (ar, ret, t) \<leftarrow> ocfs2_bitmap_foreach_region (b_regions bm) (alloc_range_func hooks)
                              \<lparr>ar_private = b_private bm, ar_min_len = min_len, ar_len = len,
                               ar_first_bit = 0, ar_bits_found = 0, ar_ret = Some OCFS2_ET_BIT_NOT_FOUND\<rparr>;
          Some (case ret of
             Some e \<Rightarrow> Inl e
           | None \<Rightarrow>
               (case ar_ret ar of
                  Some e \<Rightarrow> Inl e
                | None \<Rightarrow> Inr (ar_first_bit ar, ar_bits_found ar, bm\<lparr>b_regions := t, b_private := ar_private ar\<rparr>))) }"

function clear_run :: "'p bitmap_hooks \<Rightarrow> 'p \<Rightarrow> region \<Rightarrow> nat \<Rightarrow> nat \<Rightarrow> ('p \<times> region) option" where
  "clear_run hooks p br first_bit end =
     (if first_bit < end then
        (case clear_generic_shared hooks p br first_bit of
           None \<Rightarrow> None
         | Some (_, p', br') \<Rightarrow> clear_run hooks p' br' (first_bit + 1) end)
      else Some (p, br))"
  by pat_completeness auto
termination
  by (relation "measure (\<lambda>(h, p, br, first_bit, end). end - first_bit)") auto

declare clear_run.simps [simp del]

definition ocfs2_bitmap_clear_range_generic ::
    "'p bitmap_hooks \<Rightarrow> 'p ocfs2_bitmap \<Rightarrow> nat \<Rightarrow> nat \<Rightarrow> 'p ocfs2_bitmap result option" where
  "ocfs2_bitmap_clear_range_generic hooks bm len first_bit =
     (let z = fst (ocfs2_bitmap_lookup bm first_bit len) in
      case rb_elem z of
        None \<Rightarrow> Some (Inl OCFS2_ET_INVALID_BIT)
      | Some br \<Rightarrow>
          do { (p, br') \<leftarrow> clear_run hooks (b_private bm) br first_bit (add64 first_bit len);
               Some (Inr (bm\<lparr>b_regions := whole (rb_replace_node z br'), b_private := p\<rparr>)) })"

subsection \<open>Bitmaps with holes\<close>

definition ocfs2_bitmap_set_holes ::
    "'p bitmap_hooks \<Rightarrow> 'p ocfs2_bitmap \<Rightarrow> nat \<Rightarrow> (bool \<times> 'p ocfs2_bitmap) result option" where
  "ocfs2_bitmap_set_holes hooks bm bitno =
     do { r \<leftarrow> ocfs2_bitmap_set_generic hooks bm bitno;
          case r of
            Inr v \<Rightarrow> Some (Inr v)
          | Inl _ \<Rightarrow>
              do { a \<leftarrow> ocfs2_bitmap_alloc_region bitno 1;
                   case a of
                     Inl e \<Rightarrow> Some (Inl e)
                   | Inr br \<Rightarrow>
                       do { i \<leftarrow> ocfs2_bitmap_insert_region hooks bm br;
                            case i of
                              Inl e \<Rightarrow> Some (Inl e)
                            | Inr bm' \<Rightarrow> ocfs2_bitmap_set_generic hooks bm' bitno } } }"

text \<open>
  \<open>ocfs2_bitmap_clear_holes\<close> does not store to \<open>oldval\<close> after it has made a region; the callers'
  variable is then not initialised.  The model's result for it is the argument \<open>junk\<close>.
\<close>

definition ocfs2_bitmap_clear_holes ::
    "bool \<Rightarrow> 'p bitmap_hooks \<Rightarrow> 'p ocfs2_bitmap \<Rightarrow> nat \<Rightarrow> (bool \<times> 'p ocfs2_bitmap) result option" where
  "ocfs2_bitmap_clear_holes junk hooks bm bitno =
     do { r \<leftarrow> ocfs2_bitmap_clear_generic hooks bm bitno;
          case r of
            Inr v \<Rightarrow> Some (Inr v)
          | Inl _ \<Rightarrow>
              do { a \<leftarrow> ocfs2_bitmap_alloc_region bitno 1;
                   case a of
                     Inl e \<Rightarrow> Some (Inl e)
                   | Inr br \<Rightarrow>
                       do { i \<leftarrow> ocfs2_bitmap_insert_region hooks bm br;
                            case i of
                              Inl e \<Rightarrow> Some (Inl e)
                            | Inr bm' \<Rightarrow> Some (Inr (junk, bm')) } } }"

definition ocfs2_bitmap_test_holes :: "'p ocfs2_bitmap \<Rightarrow> nat \<Rightarrow> bool result option" where
  "ocfs2_bitmap_test_holes bm bitno =
     do { r \<leftarrow> ocfs2_bitmap_test_generic bm bitno;
          Some (Inr (case r of Inl _ \<Rightarrow> False | Inr v \<Rightarrow> v)) }"

definition ocfs2_bitmap_find_next_set_holes :: "'p ocfs2_bitmap \<Rightarrow> nat \<Rightarrow> nat result option" where
  "ocfs2_bitmap_find_next_set_holes bm start = ocfs2_bitmap_find_next_set_generic bm start"

definition clear_holes_step :: "nat \<Rightarrow> (nat \<times> nat option, region) walk_step" where
  "clear_holes_step start = (\<lambda>(seen, _) br.
     if seen < br_start_bit br then Some ((seen, Some seen), br, False)
     else do { let offset = (if start > br_start_bit br then start - br_start_bit br else 0);
               ret \<leftarrow> ocfs2_find_next_bit_clear (br_bitmap br) (br_total_bits br) offset;
               if ret \<noteq> br_total_bits br
               then Some ((seen, Some (add64 (br_start_bit br) ret)), br, False)
               else Some ((add64 (br_start_bit br) (br_total_bits br), None), br, True) })"

definition ocfs2_bitmap_find_next_clear_holes :: "'p ocfs2_bitmap \<Rightarrow> nat \<Rightarrow> nat result option" where
  "ocfs2_bitmap_find_next_clear_holes bm start =
     (case start_node bm start of
        None \<Rightarrow> Some (Inr start)
      | Some z \<Rightarrow>
          do { ((_, found), _) \<leftarrow> rb_walk (clear_holes_step start) (start, None) z;
               Some (case found of None \<Rightarrow> Inl OCFS2_ET_BIT_NOT_FOUND | Some n \<Rightarrow> Inr n) })"

subsection \<open>The two kinds of bitmap\<close>

definition no_hooks :: "'p bitmap_hooks" where
  "no_hooks = \<lparr>merge_region = None, bit_change_notify = None\<rparr>"

definition global_cluster_ops :: "'p bitmap_ops" where
  "global_cluster_ops =
     \<lparr>op_set_bit = Some (ocfs2_bitmap_set_generic no_hooks),
      op_clear_bit = Some (ocfs2_bitmap_clear_generic no_hooks),
      op_test_bit = Some ocfs2_bitmap_test_generic,
      op_find_next_set = Some ocfs2_bitmap_find_next_set_generic,
      op_find_next_clear = Some ocfs2_bitmap_find_next_clear_generic,
      op_alloc_range = Some (ocfs2_bitmap_alloc_range_generic no_hooks),
      op_clear_range = Some (ocfs2_bitmap_clear_range_generic no_hooks),
      op_read_bitmap = None, op_write_bitmap = None, op_destroy_notify = None\<rparr>"

definition global_block_ops :: "bool \<Rightarrow> 'p bitmap_ops" where
  "global_block_ops junk =
     \<lparr>op_set_bit = Some (ocfs2_bitmap_set_holes no_hooks),
      op_clear_bit = Some (ocfs2_bitmap_clear_holes junk no_hooks),
      op_test_bit = Some ocfs2_bitmap_test_holes,
      op_find_next_set = Some ocfs2_bitmap_find_next_set_holes,
      op_find_next_clear = Some ocfs2_bitmap_find_next_clear_holes,
      op_alloc_range = None, op_clear_range = None,
      op_read_bitmap = None, op_write_bitmap = None, op_destroy_notify = None\<rparr>"

text \<open>
  The loop of \<open>ocfs2_cluster_bitmap_new\<close>.  Every region has \<open>alloc_bits\<close> bits, also the last one.
  A loop that does not advance (\<open>max_bits = 0\<close>) cannot occur for a cluster size below \<open>INT_MAX\<close>;
  the model returns \<open>None\<close> there.
\<close>

function cluster_regions :: "nat \<Rightarrow> nat \<Rightarrow> nat \<Rightarrow> 'p ocfs2_bitmap \<Rightarrow> 'p ocfs2_bitmap result option" where
  "cluster_regions max_bits num_bits bitoff bm =
     (let alloc_bits = (if num_bits > max_bits then max_bits else num_bits) in
      if bitoff < num_bits then
        (if alloc_bits = 0 then None
         else case ocfs2_bitmap_alloc_region bitoff (int alloc_bits) of
           None \<Rightarrow> None
         | Some (Inl e) \<Rightarrow> Some (Inl e)
         | Some (Inr br) \<Rightarrow>
             (case ocfs2_bitmap_insert_region no_hooks bm br of
                None \<Rightarrow> None
              | Some (Inl e) \<Rightarrow> Some (Inl e)
              | Some (Inr bm') \<Rightarrow> cluster_regions max_bits num_bits (bitoff + alloc_bits) bm'))
      else Some (Inr bm))"
  by pat_completeness auto
termination
  by (relation "measure (\<lambda>(m, n, b, bm). n - b)") auto

declare cluster_regions.simps [simp del]

definition ocfs2_cluster_bitmap_new ::
    "nat \<Rightarrow> nat \<Rightarrow> string option \<Rightarrow> unit ocfs2_bitmap result option" where
  "ocfs2_cluster_bitmap_new fs_clusters fs_clustersize description =
     (case ocfs2_bitmap_new fs_clusters
             (Some (case description of None \<Rightarrow> ''Generic cluster bitmap'' | Some d \<Rightarrow> d)) global_cluster_ops () of
        Inl e \<Rightarrow> Some (Inl e)
      | Inr bm \<Rightarrow> cluster_regions (INT_MAX - (fs_clustersize - 1)) fs_clusters 0 bm)"

definition ocfs2_block_bitmap_new :: "nat \<Rightarrow> string option \<Rightarrow> unit ocfs2_bitmap result" where
  "ocfs2_block_bitmap_new fs_blocks description =
     ocfs2_bitmap_new fs_blocks
       (Some (case description of None \<Rightarrow> ''Generic block bitmap'' | Some d \<Rightarrow> d)) (global_block_ops False) ()"

end
