(* ===== verification/Bitmap_Correct.thy ===== *)
theory Bitmap_Correct
  imports Bitmap
begin

text \<open>
  Correctness of the bitmaps: the invariant of the region tree, the set of bits a bitmap stands
  for, and for each operation that it implements the operation on sets of numbers.
\<close>

section \<open>Regions and the sets they stand for\<close>

definition region_end :: "region \<Rightarrow> nat" where
  "region_end br = br_start_bit br + br_total_bits br"

definition region_ok :: "region \<Rightarrow> bool" where
  "region_ok br \<longleftrightarrow> br_bytes br = length (br_bitmap br) \<and> br_bytes br = (br_total_bits br + 7) div 8 \<and>
     0 < br_total_bits br \<and> br_total_bits br + 7 \<le> INT_MAX \<and> padded (br_bitmap br) (br_total_bits br) \<and>
     br_set_bits br = int (card {i. i < br_total_bits br \<and> buf_bit (br_bitmap br) i})"

definition regions_ok :: "nat \<Rightarrow> region list \<Rightarrow> bool" where
  "regions_ok N rs \<longleftrightarrow> (\<forall>br\<in>set rs. region_ok br \<and> region_end br \<le> N) \<and>
     sorted_wrt (\<lambda>a b. region_end a \<le> br_start_bit b) rs"

definition bitmap_ok :: "'p ocfs2_bitmap \<Rightarrow> bool" where
  "bitmap_ok bm \<longleftrightarrow> rb_tree (b_regions bm) \<and> regions_ok (b_total_bits bm) (inorder (b_regions bm)) \<and>
     b_total_bits bm < 2 ^ 64"

definition region_bits :: "region \<Rightarrow> nat set" where
  "region_bits br = {n. br_start_bit br \<le> n \<and> n < region_end br \<and> buf_bit (br_bitmap br) (n - br_start_bit br)}"

definition region_range :: "region \<Rightarrow> nat set" where
  "region_range br = {br_start_bit br..<region_end br}"

definition bits :: "region list \<Rightarrow> nat set" where
  "bits rs = (\<Union>br\<in>set rs. region_bits br)"

definition covered :: "region list \<Rightarrow> nat set" where
  "covered rs = (\<Union>br\<in>set rs. region_range br)"

definition bm_bits :: "'p ocfs2_bitmap \<Rightarrow> nat set" where
  "bm_bits bm = bits (inorder (b_regions bm))"

definition bm_covered :: "'p ocfs2_bitmap \<Rightarrow> nat set" where
  "bm_covered bm = covered (inorder (b_regions bm))"

lemma bits_simps [simp]:
  "bits [] = {}" "bits (br # rs) = region_bits br \<union> bits rs" "bits (rs @ rs') = bits rs \<union> bits rs'"
  "covered [] = {}" "covered (br # rs) = region_range br \<union> covered rs"
  "covered (rs @ rs') = covered rs \<union> covered rs'"
  by (auto simp: bits_def covered_def)

lemma regions_ok_append:
  "regions_ok N (rs @ rs') \<longleftrightarrow> regions_ok N rs \<and> regions_ok N rs' \<and>
     (\<forall>a\<in>set rs. \<forall>b\<in>set rs'. region_end a \<le> br_start_bit b)"
  by (auto simp: regions_ok_def sorted_wrt_append)

lemma regions_ok_Cons:
  "regions_ok N (br # rs) \<longleftrightarrow> region_ok br \<and> region_end br \<le> N \<and> regions_ok N rs \<and>
     (\<forall>b\<in>set rs. region_end br \<le> br_start_bit b)"
  by (auto simp: regions_ok_def)

lemma regions_ok_Nil [simp]: "regions_ok N []"
  by (simp add: regions_ok_def)

lemmas regions_ok_simps = regions_ok_append regions_ok_Cons

lemma region_bits_range: "region_bits br \<subseteq> region_range br"
  by (auto simp: region_bits_def region_range_def)

lemma bits_covered: "bits rs \<subseteq> covered rs"
  using region_bits_range by (fastforce simp: bits_def covered_def)

lemma region_bits_image:
  "region_bits br = (\<lambda>i. br_start_bit br + i) ` {i. i < br_total_bits br \<and> buf_bit (br_bitmap br) i}"
proof -
  have "n \<in> (\<lambda>i. br_start_bit br + i) ` {i. i < br_total_bits br \<and> buf_bit (br_bitmap br) i}"
    if "n \<in> region_bits br" for n
    using that by (intro image_eqI [of _ _ "n - br_start_bit br"]) (auto simp: region_bits_def region_end_def)
  then show ?thesis by (auto simp: region_bits_def region_end_def)
qed

lemma card_region_bits: "card (region_bits br) = card {i. i < br_total_bits br \<and> buf_bit (br_bitmap br) i}"
  by (simp add: region_bits_image card_image)

lemma finite_region_bits: "finite (region_bits br)"
  by (rule finite_subset [OF region_bits_range]) (simp add: region_range_def)

lemma region_ok_iff:
  "region_ok br \<longleftrightarrow> br_bytes br = length (br_bitmap br) \<and> br_bytes br = (br_total_bits br + 7) div 8 \<and>
     0 < br_total_bits br \<and> br_total_bits br + 7 \<le> INT_MAX \<and> padded (br_bitmap br) (br_total_bits br) \<and>
     br_set_bits br = int (card (region_bits br))"
  by (simp add: region_ok_def card_region_bits)

section \<open>Merging\<close>

lemma buf_bit_update:
  assumes "p < length buf"
  shows "buf_bit (buf[p := v]) i = (if i div 8 = p then bit v (i mod 8) else buf_bit buf i)"
  using assms by (auto simp: buf_bit_def nth_list_update)

lemma bit_below_byte: "bit (2 ^ n - 1 :: byte) k \<longleftrightarrow> k < 8 \<and> k < n"
proof -
  have "(2 ^ n - 1 :: byte) = mask n" by (simp add: mask_eq_exp_minus_1)
  then show ?thesis by (simp add: bit_mask_iff)
qed

lemma merge_shift_stop: "nbits \<le> 0 \<Longrightarrow> merge_shift offset prv pbm nxt nbm nbytes nbits = Some prv"
  by (cases nbytes) simp_all

lemma bits_in_byte: "p * 8 + k = i \<Longrightarrow> k < 8 \<Longrightarrow> i div 8 = p \<and> i mod 8 = k" for i p k :: nat
  by auto

text \<open>One round of the shift: the rest of the byte at \<open>pbm\<close>, and the first bits of the byte after it.\<close>

definition shift_low :: "nat \<Rightarrow> byte \<Rightarrow> byte \<Rightarrow> byte" where
  "shift_low offset p n = (p AND (push_bit offset 1 - 1)) OR push_bit offset (n AND (push_bit (8 - offset) 1 - 1))"

lemma bit_shift_low:
  "offset < 8 \<Longrightarrow> k < 8 \<Longrightarrow> bit (shift_low offset p n) k \<longleftrightarrow> (if k < offset then bit p k else bit n (k - offset))"
  by (auto simp: shift_low_def bit_or_iff bit_and_iff bit_push_bit_iff bit_below_byte)

lemma shift_low_bits:
  assumes "offset < 8" and "pbm < length prv"
    and zero: "\<forall>i. 8 * pbm + offset \<le> i \<and> i < 8 * length prv \<longrightarrow> \<not> buf_bit prv i"
    and i: "i < 8 * length prv"
  shows "buf_bit (prv[pbm := shift_low offset (prv ! pbm) (nxt ! nbm)]) i =
    (if i < 8 * pbm + offset then buf_bit prv i
     else i < 8 * Suc pbm \<and> buf_bit nxt (8 * nbm + (i - (8 * pbm + offset))))"
proof (cases "i div 8 = pbm")
  case True
  then have i8: "i = 8 * pbm + i mod 8" by auto
  have "i - (8 * pbm + offset) = i mod 8 - offset" using i8 by linarith
  then have "buf_bit nxt (8 * nbm + (i - (8 * pbm + offset))) = bit (nxt ! nbm) (i mod 8 - offset)"
    using buf_bit_byte [of "i mod 8 - offset" nxt nbm] by (simp add: less_imp_diff_less)
  moreover have "buf_bit prv i = bit (prv ! pbm) (i mod 8)" using True by (simp add: buf_bit_def)
  moreover have "i < 8 * pbm + offset \<longleftrightarrow> i mod 8 < offset" "i < 8 * Suc pbm" using i8 by auto
  ultimately show ?thesis using assms(1,2) True by (simp add: buf_bit_update bit_shift_low)
next
  case False
  then have "buf_bit (prv[pbm := shift_low offset (prv ! pbm) (nxt ! nbm)]) i = buf_bit prv i"
    using assms(2) by (simp add: buf_bit_update)
  moreover have "8 * Suc pbm \<le> i" if "8 * pbm + offset \<le> i" using False that by auto
  ultimately show ?thesis using zero i by auto
qed

lemma shift_high_bits:
  assumes "offset < 8" and "Suc pbm < length buf"
    and "\<forall>i < 8 * length buf. buf_bit buf i = (if i < 8 * pbm + offset then buf_bit prv i
             else i < 8 * Suc pbm \<and> buf_bit nxt (8 * nbm + (i - (8 * pbm + offset))))"
    and i: "i < 8 * length buf"
  shows "buf_bit (buf[Suc pbm := drop_bit (8 - offset) (nxt ! nbm)]) i =
    (if i < 8 * pbm + offset then buf_bit prv i
     else i < 8 * Suc pbm + offset \<and> buf_bit nxt (8 * nbm + (i - (8 * pbm + offset))))"
proof (cases "i div 8 = Suc pbm")
  case True
  have i8: "i = 8 * Suc pbm + i mod 8" using div_mult_mod_eq [of i 8] unfolding True by simp
  define k where "k = i mod 8"
  have "i = 8 * pbm + 8 + k" using i8 by (simp add: k_def)
  then have "i - (8 * pbm + offset) = 8 - offset + k" using assms(1) by simp
  then obtain m where m: "i - (8 * pbm + offset) = m" "m = 8 - offset + i mod 8" by (simp add: k_def)
  have "buf_bit nxt (8 * nbm + m) = bit (nxt ! nbm) m" if "i mod 8 < offset"
    using buf_bit_byte [of m nxt nbm] that assms(1) m(2) by simp
  moreover have "\<not> bit (nxt ! nbm) m" if "\<not> i mod 8 < offset"
    using that bit_imp_le_length [of "nxt ! nbm" m] m(2) by auto
  moreover have "i < 8 * Suc pbm + offset \<longleftrightarrow> i mod 8 < offset"
    using i8 by (metis add_less_cancel_left)
  moreover have "\<not> i < 8 * pbm + offset" using \<open>i = 8 * pbm + 8 + k\<close> assms(1) by simp
  moreover have "buf_bit (buf[Suc pbm := drop_bit (8 - offset) (nxt ! nbm)]) i = bit (nxt ! nbm) m"
    using True assms(2) m(2) by (simp add: buf_bit_update bit_drop_bit_eq)
  ultimately show ?thesis using m(1) by (cases "i mod 8 < offset") simp_all
next
  case False
  then have "i < 8 * Suc pbm \<or> 8 * Suc (Suc pbm) \<le> i" by auto
  then have "i < 8 * Suc pbm \<longleftrightarrow> i < 8 * Suc pbm + offset" using assms(1) by auto
  moreover have "buf_bit (buf[Suc pbm := drop_bit (8 - offset) (nxt ! nbm)]) i = buf_bit buf i"
    using False assms(2) by (simp add: buf_bit_update)
  ultimately show ?thesis using assms(3) i by simp
qed

lemma merge_shift_bits:
  assumes "0 < offset" and "offset < 8" and "nbm + nbytes = length nxt"
    and "int (8 * pbm + offset) + nbits \<le> int (8 * length prv)" and "pbm < length prv"
    and "nbits \<le> 8 * int nbytes"
    and "\<forall>i. 8 * pbm + offset \<le> i \<and> i < 8 * length prv \<longrightarrow> \<not> buf_bit prv i"
    and "\<forall>i. int (8 * nbm) + nbits \<le> int i \<and> i < 8 * length nxt \<longrightarrow> \<not> buf_bit nxt i"
  shows "\<exists>buf. merge_shift offset prv pbm nxt nbm nbytes nbits = Some buf \<and> length buf = length prv \<and>
     (\<forall>i < 8 * length prv. buf_bit buf i =
        (if i < 8 * pbm + offset then buf_bit prv i
         else int i < int (8 * pbm + offset) + nbits \<and> buf_bit nxt (8 * nbm + (i - (8 * pbm + offset)))))"
  using assms(3-)
proof (induction nbytes arbitrary: prv pbm nbm nbits)
  case 0
  then show ?case by auto
next
  case (Suc nbytes)
  show ?case
  proof (cases "nbits > 0")
    case False
    with Suc.prems show ?thesis by (auto simp: merge_shift_stop)
  next
    case True
    let ?base = "8 * pbm + offset"
    define prv1 where "prv1 = prv[pbm := shift_low offset (prv ! pbm) (nxt ! nbm)]"
    have nbm: "nbm < length nxt" using Suc.prems(1) by simp
    have pad: "\<not> buf_bit nxt (8 * nbm + (i - ?base))"
      if "?base \<le> i" "i < ?base + 8" "\<not> int i < int ?base + nbits" for i
    proof -
      have "8 * nbm + (i - ?base) < 8 * length nxt" using nbm that by linarith
      with Suc.prems(6) that show ?thesis by auto
    qed
    have low: "\<forall>i < 8 * length prv1. buf_bit prv1 i = (if i < ?base then buf_bit prv i
         else i < 8 * Suc pbm \<and> buf_bit nxt (8 * nbm + (i - ?base)))"
      using shift_low_bits [OF assms(2) Suc.prems(3,5), of _ nxt nbm] by (simp add: prv1_def)
    have unf: "merge_shift offset prv pbm nxt nbm (Suc nbytes) nbits =
        (if nbits - int (8 - offset) > 0
         then do { prv2 \<leftarrow> write_byte prv1 (Suc pbm) (drop_bit (8 - offset) (nxt ! nbm));
                   merge_shift offset prv2 (Suc pbm) nxt (Suc nbm) nbytes (nbits - int (8 - offset) - int offset) }
         else merge_shift offset prv1 (Suc pbm) nxt nbm nbytes (nbits - int (8 - offset)))"
      using True nbm Suc.prems(3) assms(2)
      by (simp add: read_byte_def write_byte_def prv1_def shift_low_def Let_def of_nat_diff)
    show ?thesis
    proof (cases "nbits - int (8 - offset) > 0")
      case rest: True
      define prv2 where "prv2 = prv1[Suc pbm := drop_bit (8 - offset) (nxt ! nbm)]"
      have len: "Suc pbm < length prv1" using rest assms(2) Suc.prems(2) by (simp add: prv1_def)
      have high: "\<forall>i < 8 * length prv. buf_bit prv2 i = (if i < ?base then buf_bit prv i
           else i < 8 * Suc pbm + offset \<and> buf_bit nxt (8 * nbm + (i - ?base)))"
        using shift_high_bits [OF assms(2) len low] by (simp add: prv2_def prv1_def)
      have "\<exists>buf. merge_shift offset prv2 (Suc pbm) nxt (Suc nbm) nbytes (nbits - int (8 - offset) - int offset) = Some buf \<and>
          length buf = length prv2 \<and> (\<forall>i < 8 * length prv2. buf_bit buf i =
            (if i < 8 * Suc pbm + offset then buf_bit prv2 i
             else int i < int (8 * Suc pbm + offset) + (nbits - int (8 - offset) - int offset) \<and>
                  buf_bit nxt (8 * Suc nbm + (i - (8 * Suc pbm + offset)))))"
      proof (rule Suc.IH)
        show "\<forall>i. 8 * Suc pbm + offset \<le> i \<and> i < 8 * length prv2 \<longrightarrow> \<not> buf_bit prv2 i"
          using high by (simp add: prv2_def prv1_def)
        show "\<forall>i. int (8 * Suc nbm) + (nbits - int (8 - offset) - int offset) \<le> int i \<and> i < 8 * length nxt
            \<longrightarrow> \<not> buf_bit nxt i"
          using Suc.prems(6) assms(2) by (simp add: of_nat_diff)
      qed (use Suc.prems assms(2) len in \<open>simp_all add: prv2_def prv1_def of_nat_diff\<close>)
      then obtain buf where buf: "merge_shift offset prv2 (Suc pbm) nxt (Suc nbm) nbytes (nbits - int (8 - offset) - int offset) = Some buf"
        "length buf = length prv2" "\<forall>i < 8 * length prv2. buf_bit buf i =
            (if i < 8 * Suc pbm + offset then buf_bit prv2 i
             else int i < int (8 * Suc pbm + offset) + (nbits - int (8 - offset) - int offset) \<and>
                  buf_bit nxt (8 * Suc nbm + (i - (8 * Suc pbm + offset))))" by blast
      have "buf_bit buf i = (if i < ?base then buf_bit prv i
          else int i < int ?base + nbits \<and> buf_bit nxt (8 * nbm + (i - ?base)))" if "i < 8 * length prv" for i
      proof (cases "i < 8 * Suc pbm + offset")
        case True
        with that buf(2,3) have "buf_bit buf i = buf_bit prv2 i" by (simp add: prv2_def prv1_def)
        moreover have "buf_bit prv2 i = (if i < ?base then buf_bit prv i else buf_bit nxt (8 * nbm + (i - ?base)))"
          using high that True by simp
        moreover have "i < ?base + 8" using True by simp
        ultimately show ?thesis using pad [of i] by (cases "int i < int ?base + nbits"; cases "i < ?base") simp_all
      next
        case False
        then have "8 * Suc nbm + (i - (8 * Suc pbm + offset)) = 8 * nbm + (i - ?base)" by simp
        with False that buf(3) show ?thesis using assms(2) by (simp add: prv2_def prv1_def of_nat_diff add.assoc)
      qed
      then show ?thesis using unf rest len buf(1,2) by (simp add: write_byte_def prv2_def prv1_def)
    next
      case False
      then have "merge_shift offset prv pbm nxt nbm (Suc nbytes) nbits = Some prv1"
        unfolding unf by (simp add: merge_shift_stop)
      moreover have "buf_bit prv1 i = (if i < ?base then buf_bit prv i
          else int i < int ?base + nbits \<and> buf_bit nxt (8 * nbm + (i - ?base)))" if "i < 8 * length prv" for i
      proof -
        have "i < 8 * Suc pbm" if "int i < int ?base + nbits"
          using that False assms(2) by (simp add: of_nat_diff)
        moreover have "i < ?base + 8" if "i < 8 * Suc pbm" using that by simp
        ultimately show ?thesis using low that pad [of i]
          by (cases "int i < int ?base + nbits"; cases "i < ?base") (auto simp: prv1_def)
      qed
      ultimately show ?thesis by (simp add: prv1_def)
    qed
  qed
qed

lemma buf_bit_append:
  "buf_bit (xs @ ys) i = (if i < 8 * length xs then buf_bit xs i else buf_bit ys (i - 8 * length xs))"
proof (cases "i div 8 < length xs")
  case False
  then have "8 * length xs \<le> i" by (simp add: not_less)
  then obtain k where "i = 8 * length xs + k" using le_Suc_ex by blast
  then show ?thesis by (simp add: buf_bit_def nth_append)
qed (auto simp: buf_bit_def nth_append)

lemma buf_bit_zeros: "i < 8 * n \<Longrightarrow> \<not> buf_bit (replicate n 0) i"
  by (simp add: buf_bit_def less_mult_imp_div_less)

lemma buf_bit_patch:
  assumes "off + length bs \<le> length buf" and "i < 8 * length buf"
  shows "buf_bit (patch buf off bs) i =
    (if 8 * off \<le> i \<and> i < 8 * (off + length bs) then buf_bit bs (i - 8 * off) else buf_bit buf i)"
proof (cases "off \<le> i div 8 \<and> i div 8 < off + length bs")
  case True
  then have i: "8 * off \<le> i" "i < 8 * (off + length bs)" by auto
  then obtain k where k: "i = 8 * off + k" using le_Suc_ex by blast
  then have "i div 8 - off = k div 8" "i mod 8 = k mod 8" by auto
  with True i k assms show ?thesis by (simp add: buf_bit_def nth_patch)
next
  case False
  then have "\<not> (8 * off \<le> i \<and> i < 8 * (off + length bs))" by auto
  moreover have "i div 8 < length buf" using assms(2) by (simp add: less_mult_imp_div_less)
  ultimately show ?thesis using False assms(1) by (auto simp: buf_bit_def nth_patch)
qed

lemma merge_buffer:
  assumes "length ext = (tp + tn + 7) div 8" and "padded ext tp" and "padded nbuf tn"
    and "length nbuf = (tn + 7) div 8" and "0 < tp" and "0 < tn"
  shows "\<exists>buf. (if tp mod 8 = 0
        then do { bs \<leftarrow> read_bytes nbuf 0 ((tn + 7) div 8); write_bytes ext ((tp + 7) div 8) bs }
        else merge_shift (tp mod 8) ext ((tp + 7) div 8 - 1) nbuf 0 ((tn + 7) div 8) (int tn)) = Some buf \<and>
     length buf = length ext \<and>
     (\<forall>i < 8 * length ext. buf_bit buf i = (if i < tp then buf_bit ext i else i < tp + tn \<and> buf_bit nbuf (i - tp)))"
proof (cases "tp mod 8 = 0")
  case True
  then obtain k where k: "tp = 8 * k" by auto
  have kb: "(tp + 7) div 8 = k" using k by simp
  have le: "k + length nbuf = length ext" using assms(1,4) k by simp
  have "buf_bit (patch ext k nbuf) i = (if i < tp then buf_bit ext i else i < tp + tn \<and> buf_bit nbuf (i - tp))"
    if "i < 8 * length ext" for i
  proof -
    have "\<not> buf_bit nbuf (i - tp)" if "tp + tn \<le> i"
    proof -
      have "tn \<le> i - tp" "i - tp < 8 * length nbuf" using that \<open>i < 8 * length ext\<close> le k by auto
      with assms(3) show ?thesis by (simp add: padded_def)
    qed
    with buf_bit_patch [of k nbuf ext i] le that k show ?thesis by (cases "tp + tn \<le> i") auto
  qed
  then show ?thesis using True kb le assms(4) by (simp add: read_bytes_def write_bytes_def)
next
  case False
  define off where "off = tp mod 8"
  define p where "p = (tp + 7) div 8 - 1"
  have off: "0 < off" "off < 8" using False by (auto simp: off_def)
  have tp: "tp = 8 * (tp div 8) + off" by (simp add: off_def)
  have "(off + 7) div 8 = 1" using off by auto
  then have "(tp + 7) div 8 = Suc (tp div 8)" by (subst tp) (simp add: add.assoc)
  with tp have base: "8 * p + off = tp" by (simp add: p_def)
  have "\<exists>buf. merge_shift off ext p nbuf 0 ((tn + 7) div 8) (int tn) = Some buf \<and> length buf = length ext \<and>
     (\<forall>i < 8 * length ext. buf_bit buf i =
        (if i < 8 * p + off then buf_bit ext i
         else int i < int (8 * p + off) + int tn \<and> buf_bit nbuf (8 * 0 + (i - (8 * p + off)))))"
  proof (rule merge_shift_bits [OF off])
    show "int (8 * p + off) + int tn \<le> int (8 * length ext)" unfolding base assms(1) by presburger
    have "8 * Suc p \<le> tp + tn + 7" using base off(1) assms(6) by simp
    then have "Suc p \<le> length ext" unfolding assms(1) by (metis div_le_mono nonzero_mult_div_cancel_left zero_neq_numeral)
    then show "p < length ext" by simp
    show "int tn \<le> 8 * int ((tn + 7) div 8)" by presburger
  qed (use assms(2-4) base in \<open>auto simp: padded_def\<close>)
  then show ?thesis using False unfolding base by (auto simp: off_def p_def)
qed

text \<open>
  The merged buffer holds the bits of the first region and then those of the second; the padding
  is zero again.
\<close>

lemma merge_contents_ok:
  assumes p: "region_ok prv" and n: "region_ok nxt" and adj: "region_end prv = br_start_bit nxt"
    and small: "br_total_bits prv + br_total_bits nxt + 7 \<le> INT_MAX"
    and le: "region_end nxt \<le> b_total_bits bm" "b_total_bits bm < 2 ^ 64"
  shows "\<exists>m. merge_contents bm prv nxt = Some (Inr m) \<and> region_ok m \<and> br_start_bit m = br_start_bit prv \<and>
    region_end m = region_end nxt \<and> region_bits m = region_bits prv \<union> region_bits nxt"
proof -
  define tp tn where "tp = br_total_bits prv" and "tn = br_total_bits nxt"
  define bytes where "bytes = (tp + tn + 7) div 8"
  define ext where "ext = br_bitmap prv @ replicate (bytes - br_bytes prv) 0"
  have lp: "length (br_bitmap prv) = (tp + 7) div 8" "br_bytes prv = (tp + 7) div 8" "0 < tp" "padded (br_bitmap prv) tp"
    and ln: "length (br_bitmap nxt) = (tn + 7) div 8" "br_bytes nxt = (tn + 7) div 8" "0 < tn" "padded (br_bitmap nxt) tn"
    using p n by (auto simp: region_ok_def tp_def tn_def)
  have le_b: "br_bytes prv \<le> bytes" using lp by (simp add: bytes_def div_le_mono)
  have len: "length ext = (tp + tn + 7) div 8" using lp le_b by (simp add: ext_def bytes_def)
  have tp_le: "tp \<le> 8 * length (br_bitmap prv)" using lp(4) by (simp add: padded_def)
  have ext: "padded ext tp" "\<And>i. i < tp \<Longrightarrow> buf_bit ext i = buf_bit (br_bitmap prv) i"
    using lp(4) tp_le buf_bit_zeros by (auto simp: ext_def buf_bit_append padded_def)
  have re: "ocfs2_bitmap_realloc_region bm prv (tp + tn) =
      Some (Inr (prv\<lparr>br_bytes := bytes, br_bitmap := ext, br_total_bits := tp + tn\<rparr>))"
    using small le adj le_b lp
    by (auto simp: ocfs2_bitmap_realloc_region_def ocfs2_align_total_def add64_eq tp_def tn_def region_end_def
        bytes_def ext_def)
  from merge_buffer [OF len ext(1) ln(4,1) lp(3) ln(3)] obtain buf where buf:
    "(if tp mod 8 = 0
        then do { bs \<leftarrow> read_bytes (br_bitmap nxt) 0 (br_bytes nxt); write_bytes ext (br_bytes prv) bs }
        else merge_shift (tp mod 8) ext (br_bytes prv - 1) (br_bitmap nxt) 0 (br_bytes nxt) (int tn)) = Some buf"
    "length buf = bytes" "\<And>i. i < 8 * bytes \<Longrightarrow> buf_bit buf i = (if i < tp then buf_bit (br_bitmap prv) i
          else i < tp + tn \<and> buf_bit (br_bitmap nxt) (i - tp))"
    unfolding lp(2) ln(2) using ext(2) by (auto simp: bytes_def len)
  define m where "m = prv\<lparr>br_bytes := bytes, br_bitmap := buf, br_total_bits := tp + tn,
      br_set_bits := br_set_bits prv + br_set_bits nxt\<rparr>"
  have mc: "merge_contents bm prv nxt = Some (Inr m)"
    using small buf(1) re
    by (cases "tp mod 8 = 0")
       (auto simp: merge_contents_def Let_def tp_def [symmetric] tn_def [symmetric] m_def bind_eq_Some_conv)
  have bytes8: "tp + tn \<le> 8 * bytes" unfolding bytes_def by presburger
  have rb: "region_bits m = region_bits prv \<union> region_bits nxt"
  proof (rule set_eqI)
    fix j
    show "j \<in> region_bits m \<longleftrightarrow> j \<in> region_bits prv \<union> region_bits nxt"
    proof (cases "br_start_bit prv \<le> j")
      case True
      then obtain i where "j = br_start_bit prv + i" using le_Suc_ex by blast
      moreover have "br_start_bit nxt = br_start_bit prv + tp" using adj by (simp add: region_end_def tp_def)
      ultimately show ?thesis using bytes8 buf(3) [of i]
        by (auto simp: region_bits_def m_def region_end_def tp_def [symmetric] tn_def [symmetric] split: if_splits)
    qed (use adj in \<open>auto simp: region_bits_def m_def region_end_def\<close>)
  qed
  have "region_bits prv \<inter> region_bits nxt = {}" using adj by (auto simp: region_bits_def)
  then have "card (region_bits m) = card (region_bits prv) + card (region_bits nxt)"
    unfolding rb by (intro card_Un_disjoint finite_region_bits)
  moreover have "padded buf (tp + tn)" using bytes8 buf(2,3) by (simp add: padded_def)
  ultimately have "region_ok m"
    using p n small lp(3) buf(2) by (simp add: region_ok_iff m_def bytes_def tp_def tn_def)
  with mc rb adj show ?thesis by (auto simp: m_def region_end_def tp_def tn_def)
qed

text \<open>Merging neighbours changes the regions, but not what the bitmap stands for.\<close>

definition same_view :: "'p ocfs2_bitmap \<Rightarrow> 'p ocfs2_bitmap \<Rightarrow> bool" where
  "same_view bm bm' \<longleftrightarrow> bitmap_ok bm' \<and> bm_bits bm' = bm_bits bm \<and> bm_covered bm' = bm_covered bm \<and>
     b_total_bits bm' = b_total_bits bm \<and> b_set_bits bm' = b_set_bits bm \<and> b_private bm' = b_private bm"

lemma same_view_refl: "bitmap_ok bm \<Longrightarrow> same_view bm bm"
  by (simp add: same_view_def)

lemma same_view_trans: "same_view a b \<Longrightarrow> same_view b c \<Longrightarrow> same_view a c"
  by (simp add: same_view_def)

lemma region_start_end: "region_ok br \<Longrightarrow> br_start_bit br < region_end br"
  by (simp add: region_ok_def region_end_def)

lemma merge_region_view:
  assumes ok: "bitmap_ok bm" and small: "b_total_bits bm + 7 \<le> INT_MAX"
    and z: "whole z = b_regions bm" "rb_next z \<noteq> None"
  shows "\<exists>r. ocfs2_bitmap_merge_region hooks bm z = Some r \<and> (\<forall>bm'. r = Inr bm' \<longrightarrow> same_view bm bm')"
proof -
  obtain zn where zn: "rb_next z = Some zn" using z(2) by auto
  then obtain prv where prv: "rb_elem z = Some prv" by (cases z rule: rb_elem.cases) auto
  from rb_next_pos(2) [OF prv zn] obtain nxt where nxt: "rb_elem zn = Some nxt" "after z = nxt # after zn" by blast
  have ino: "inorder (b_regions bm) = before z @ prv # nxt # after zn"
    using inorder_whole [OF prv] z(1) nxt(2) by simp
  have regs: "regions_ok (b_total_bits bm) (before z @ prv # nxt # after zn)" and N: "b_total_bits bm < 2 ^ 64"
    and tree: "rb_tree (b_regions bm)"
    using ok ino by (simp_all add: bitmap_ok_def)
  then have ok2: "region_ok prv" "region_ok nxt" "region_end nxt \<le> b_total_bits bm" "region_end prv \<le> br_start_bit nxt"
    by (auto simp: regions_ok_simps)
  show ?thesis
  proof (cases "region_end prv = br_start_bit nxt \<and> \<not> (case merge_region hooks of None \<Rightarrow> False | Some f \<Rightarrow> \<not> f bm prv nxt)")
    case False
    moreover have "add64 (br_start_bit prv) (br_total_bits prv) = region_end prv"
      using ok2 N region_start_end [OF ok2(2)] by (simp add: add64_eq region_end_def)
    ultimately show ?thesis using prv zn nxt(1) by (auto simp: ocfs2_bitmap_merge_region_def)
  next
    case True
    have "br_total_bits prv + br_total_bits nxt + 7 \<le> INT_MAX"
      using True ok2(3) small by (simp add: region_end_def)
    from merge_contents_ok [OF ok2(1,2) _ this ok2(3) N] True obtain m where m:
      "merge_contents bm prv nxt = Some (Inr m)" "region_ok m" "br_start_bit m = br_start_bit prv"
      "region_end m = region_end nxt" "region_bits m = region_bits prv \<union> region_bits nxt" by blast
    note rep = rb_replace_node_pos [OF prv, of m]
    obtain zn' where zn': "rb_next (rb_replace_node z m) = Some zn'"
      using rb_next_pos(1) [OF rep(1)] rep(3) nxt(2) by fastforce
    from rb_next_pos(2) [OF rep(1) zn'] rep nxt(2) have zn2: "rb_elem zn' = Some nxt" "after zn' = after zn"
      "before zn' = before z @ [m]" "rb_tree (whole zn')" using tree z(1) by auto
    from rb_erase_pos [OF zn2(1,4)] zn2 obtain t' where t': "rb_erase zn' = Some t'" "rb_tree t'"
      "inorder t' = before z @ m # after zn" by auto
    have "add64 (br_start_bit prv) (br_total_bits prv) = br_start_bit nxt"
      using True ok2(3) N by (simp add: add64_eq region_end_def)
    with True prv zn nxt(1) m(1) zn' t'(1)
    have "ocfs2_bitmap_merge_region hooks bm z = Some (Inr (bm\<lparr>b_regions := t'\<rparr>))"
      by (auto simp: ocfs2_bitmap_merge_region_def)
    moreover have "region_range m = region_range prv \<union> region_range nxt"
      using m(3,4) True region_start_end [OF ok2(1)] region_start_end [OF ok2(2)]
      by (auto simp: region_range_def)
    then have "same_view bm (bm\<lparr>b_regions := t'\<rparr>)"
      using t' m regs N ino True unfolding same_view_def bitmap_ok_def bm_bits_def bm_covered_def
      by (auto simp: regions_ok_simps)
    ultimately show ?thesis by blast
  qed
qed

lemma rb_locate_whole: "whole (rb_locate n t path) = plug t path"
  by (induction n t path rule: rb_locate.induct) (auto simp: whole_def Let_def)

lemma ignore_error_view:
  assumes "bitmap_ok bm" and "r = Some s" and "\<And>bm'. s = Inr bm' \<Longrightarrow> same_view bm bm'"
  shows "\<exists>bm'. ignore_error bm r = Some bm' \<and> same_view bm bm'"
  using assms by (cases s) (auto simp: ignore_error_def same_view_refl)

lemma merge_with_next_view:
  assumes "bitmap_ok bm" and "b_total_bits bm + 7 \<le> INT_MAX"
  shows "\<exists>bm'. merge_with_next hooks bm n = Some bm' \<and> same_view bm bm'"
proof (cases "rb_next (rb_locate n (b_regions bm) []) = None")
  case True
  then show ?thesis using assms(1) by (simp add: merge_with_next_def same_view_refl)
next
  case False
  obtain r where "ocfs2_bitmap_merge_region hooks bm (rb_locate n (b_regions bm) []) = Some r"
    "\<forall>bm'. r = Inr bm' \<longrightarrow> same_view bm bm'"
    using merge_region_view [OF assms _ False] by (auto simp: rb_locate_whole)
  from ignore_error_view [OF assms(1) this(1)] this(2) False show ?thesis
    by (auto simp: merge_with_next_def)
qed

section \<open>Lookup and insertion\<close>

text \<open>The lookup is a search in the tree that also remembers the node to the right of its path.\<close>

definition lookup_dir :: "nat \<Rightarrow> nat \<Rightarrow> region \<Rightarrow> dir" where
  "lookup_dir bitno n br =
     (if add64 bitno n \<le> br_start_bit br then Go_Left
      else if bitno \<ge> add64 (br_start_bit br) (br_total_bits br) then Go_Right else Here)"

lemma lookup_loop_descend: "fst (lookup_loop bitno n t path ll) = rb_descend (lookup_dir bitno n) t path"
  by (induction bitno n t path ll rule: lookup_loop.induct) (auto simp: lookup_dir_def)

lemma lookup_loop_last_left:
  "snd (lookup_loop bitno n t path (up_from_right t path)) =
   up_from_right (fst (fst (lookup_loop bitno n t path (up_from_right t path))))
                 (snd (fst (lookup_loop bitno n t path (up_from_right t path))))"
proof (induction t arbitrary: path)
  case (Node c br l r)
  have "Some (Node c br l r, path) = up_from_right l (InLeft c br r # path)"
    "up_from_right (Node c br l r) path = up_from_right r (InRight c br l # path)" by simp_all
  with Node.IH(1) [of "InLeft c br r # path"] Node.IH(2) [of "InRight c br l # path"] show ?case
    by (simp del: up_from_right.simps)
qed simp

lemma lookup_dir_ok:
  assumes "regions_ok N rs" and "N < 2 ^ 64" and "br \<in> set rs" and "bitno + n < 2 ^ 64"
  shows "lookup_dir bitno n br =
    (if bitno + n \<le> br_start_bit br then Go_Left else if region_end br \<le> bitno then Go_Right else Here)"
proof -
  have "region_end br < 2 ^ 64" using assms(1-3) by (auto simp: regions_ok_def)
  then show ?thesis using assms(4) by (simp add: lookup_dir_def add64_eq region_end_def)
qed

lemma lookup_steers:
  assumes "regions_ok N rs" and "N < 2 ^ 64" and "bitno + n < 2 ^ 64"
  shows "steers (lookup_dir bitno n) rs"
proof -
  have "sorted_wrt (\<lambda>a b. region_end a \<le> br_start_bit b) rs" using assms(1) by (simp add: regions_ok_def)
  then show ?thesis unfolding steers_def
  proof (rule sorted_wrt_mono_rel [rotated])
    fix x y assume xy: "x \<in> set rs" "y \<in> set rs" "region_end x \<le> br_start_bit y"
    then have "br_start_bit x < region_end x" "br_start_bit y < region_end y"
      using assms(1) region_start_end by (auto simp: regions_ok_def)
    then show "(lookup_dir bitno n x = Go_Left \<longrightarrow> lookup_dir bitno n y = Go_Left) \<and>
        (lookup_dir bitno n y = Go_Right \<longrightarrow> lookup_dir bitno n x = Go_Right)"
      using lookup_dir_ok [OF assms(1,2) _ assms(3)] xy by simp
  qed
qed

lemma lookup_found:
  assumes "bitmap_ok bm" and "bitno + n < 2 ^ 64" and "rb_elem (fst (ocfs2_bitmap_lookup bm bitno n)) = Some br"
  defines "z \<equiv> fst (ocfs2_bitmap_lookup bm bitno n)"
  shows "whole z = b_regions bm" and "inorder (b_regions bm) = before z @ br # after z"
    and "br_start_bit br < bitno + n" and "bitno < region_end br"
proof -
  have zd: "z = rb_descend (lookup_dir bitno n) (b_regions bm) []"
    by (simp add: z_def ocfs2_bitmap_lookup_def lookup_loop_descend)
  have e: "rb_elem z = Some br" using assms(3) by (simp add: z_def)
  show w: "whole z = b_regions bm" using rb_descend_whole [of _ _ "[]"] by (simp add: zd)
  show ino: "inorder (b_regions bm) = before z @ br # after z" using inorder_whole [OF e] w by simp
  have "lookup_dir bitno n br = Here" using e zd rb_descend_Here by metis
  with lookup_dir_ok [of "b_total_bits bm" "inorder (b_regions bm)" br bitno n] assms(1,2) ino
  show "br_start_bit br < bitno + n" and "bitno < region_end br"
    by (auto simp: bitmap_ok_def split: if_splits)
qed

lemma lookup_missing:
  assumes "bitmap_ok bm" and "bitno + n < 2 ^ 64" and "fst (ocfs2_bitmap_lookup bm bitno n) = (Leaf, path)"
  shows "plug Leaf path = b_regions bm" and "inorder (b_regions bm) = lefts path @ rights path"
    and "br \<in> set (lefts path) \<Longrightarrow> region_end br \<le> bitno" and "br \<in> set (rights path) \<Longrightarrow> bitno + n \<le> br_start_bit br"
    and "snd (ocfs2_bitmap_lookup bm bitno n) = up_from_right Leaf path"
proof -
  have zd: "rb_descend (lookup_dir bitno n) (b_regions bm) [] = (Leaf, path)"
    using assms(3) by (simp add: ocfs2_bitmap_lookup_def lookup_loop_descend)
  show pl: "plug Leaf path = b_regions bm"
    using rb_descend_whole [of "lookup_dir bitno n" "b_regions bm" "[]"] zd by (simp add: whole_def)
  then show ino: "inorder (b_regions bm) = lefts path @ rights path"
    by (metis append_Nil inorder.simps(1) inorder_plug)
  have dirs: "(\<forall>x\<in>set (lefts path). lookup_dir bitno n x = Go_Right) \<and> (\<forall>x\<in>set (rights path). lookup_dir bitno n x = Go_Left)"
    using rb_descend_leaf [OF zd] lookup_steers assms(1,2) by (auto simp: bitmap_ok_def)
  have d: "lookup_dir bitno n br =
    (if bitno + n \<le> br_start_bit br then Go_Left else if region_end br \<le> bitno then Go_Right else Here)"
    if "br \<in> set (inorder (b_regions bm))" for br
    using lookup_dir_ok assms(1,2) that by (auto simp: bitmap_ok_def)
  show "br \<in> set (lefts path) \<Longrightarrow> region_end br \<le> bitno"
    using d [of br] dirs ino by (auto split: if_splits)
  show "br \<in> set (rights path) \<Longrightarrow> bitno + n \<le> br_start_bit br"
    using d [of br] dirs ino by (auto split: if_splits)
  show "snd (ocfs2_bitmap_lookup bm bitno n) = up_from_right Leaf path"
    using lookup_loop_last_left [of bitno n "b_regions bm" "[]"] assms(3) by (simp add: ocfs2_bitmap_lookup_def)
qed

text \<open>A new region that meets no region of the bitmap is inserted, and then merged if possible.\<close>

lemma insert_region_view:
  assumes ok: "bitmap_ok bm" and small: "b_total_bits bm + 7 \<le> INT_MAX"
    and br: "region_ok br" "region_end br \<le> b_total_bits bm" and free: "bm_covered bm \<inter> region_range br = {}"
  shows "\<exists>bm'. ocfs2_bitmap_insert_region hooks bm br = Some (Inr bm') \<and> bitmap_ok bm' \<and>
    bm_bits bm' = bm_bits bm \<union> region_bits br \<and> bm_covered bm' = bm_covered bm \<union> region_range br \<and>
    b_total_bits bm' = b_total_bits bm \<and> b_set_bits bm' = b_set_bits bm \<and> b_private bm' = b_private bm"
proof -
  let ?z = "fst (ocfs2_bitmap_lookup bm (br_start_bit br) (br_total_bits br))"
  have lt: "br_start_bit br + br_total_bits br < 2 ^ 64"
    using br(2) ok by (simp add: bitmap_ok_def region_end_def)
  have "rb_elem ?z = None"
  proof (rule ccontr)
    assume "rb_elem ?z \<noteq> None"
    then obtain x where x: "rb_elem ?z = Some x" by auto
    note f = lookup_found [OF ok lt x]
    have "region_range x \<subseteq> bm_covered bm" using f(2) by (auto simp: bm_covered_def)
    moreover have "max (br_start_bit x) (br_start_bit br) \<in> region_range x \<inter> region_range br"
      using f(2-4) ok br(1) region_start_end by (auto simp: region_range_def region_end_def bitmap_ok_def regions_ok_simps max_def)
    ultimately show False using free by blast
  qed
  then obtain path where path: "?z = (Leaf, path)" by (cases ?z rule: rb_elem.cases) auto
  note lm = lookup_missing [OF ok lt path]
  obtain t where t: "rb_insert_at br path = Some t" "rb_tree t" "inorder t = lefts path @ br # rights path"
    using rb_insert_at_pos [of path br] lm(1) ok by (auto simp: bitmap_ok_def)
  define bm1 where "bm1 = bm\<lparr>b_regions := t\<rparr>"
  have ok1: "bitmap_ok bm1"
    using ok lm t br by (auto simp: bitmap_ok_def bm1_def regions_ok_simps region_end_def)
  have bits1: "bm_bits bm1 = bm_bits bm \<union> region_bits br" "bm_covered bm1 = bm_covered bm \<union> region_range br"
    using t(3) lm(2) by (auto simp: bm_bits_def bm_covered_def bm1_def)
  have small1: "b_total_bits bm1 + 7 \<le> INT_MAX" using small by (simp add: bm1_def)
  have unf: "ocfs2_bitmap_insert_region hooks bm br =
      (case rb_prev (rb_locate (length (lefts path)) t []) of
         None \<Rightarrow> map_option Inr (merge_with_next hooks bm1 (length (lefts path)))
       | Some zprev \<Rightarrow> do { bm2 \<leftarrow> ignore_error bm1 (ocfs2_bitmap_merge_region hooks bm1 zprev);
                            map_option Inr (merge_with_next hooks bm2 (length (lefts path) - 1)) })"
    using path t(1) br(2) unfolding bm1_def by (simp add: ocfs2_bitmap_insert_region_def region_end_def Let_def)
  have "\<exists>bm'. ocfs2_bitmap_insert_region hooks bm br = Some (Inr bm') \<and> same_view bm1 bm'"
  proof (cases "rb_prev (rb_locate (length (lefts path)) t [])")
    case None
    with unf merge_with_next_view [OF ok1 small1] show ?thesis by fastforce
  next
    case (Some zp)
    from rb_locate_root [OF t(3) refl] have loc: "whole (rb_locate (length (lefts path)) t []) = t"
      "rb_elem (rb_locate (length (lefts path)) t []) = Some br" by simp_all
    from rb_prev_pos(2) [OF loc(2) Some] loc(1) obtain y where zp: "whole zp = t" "rb_elem zp = Some y" "after zp \<noteq> []"
      by auto
    then have "rb_next zp \<noteq> None" using rb_next_pos(1) by metis
    with merge_region_view [OF ok1 small1] zp(1) obtain r where
      r: "ocfs2_bitmap_merge_region hooks bm1 zp = Some r" "\<forall>bm'. r = Inr bm' \<longrightarrow> same_view bm1 bm'"
      by (fastforce simp: bm1_def)
    from ignore_error_view [OF ok1 r(1)] r(2) obtain bm2 where
      bm2: "ignore_error bm1 (ocfs2_bitmap_merge_region hooks bm1 zp) = Some bm2" "same_view bm1 bm2" by blast
    then have "bitmap_ok bm2" "b_total_bits bm2 + 7 \<le> INT_MAX" using small1 by (simp_all add: same_view_def)
    from merge_with_next_view [OF this] bm2 unf Some show ?thesis by (fastforce intro: same_view_trans)
  qed
  with bits1 show ?thesis by (auto simp: same_view_def bm1_def)
qed

section \<open>Setting, clearing and testing a bit\<close>

lemma region_bits_split:
  assumes "regions_ok N (xs @ br # ys)"
  shows "bits (xs @ br # ys) \<inter> region_range br = region_bits br"
    and "covered xs \<inter> region_range br = {}" and "covered ys \<inter> region_range br = {}"
proof -
  show cx: "covered xs \<inter> region_range br = {}"
    using assms by (fastforce simp: regions_ok_simps covered_def region_range_def)
  show cy: "covered ys \<inter> region_range br = {}"
    using assms by (fastforce simp: regions_ok_simps covered_def region_range_def)
  show "bits (xs @ br # ys) \<inter> region_range br = region_bits br"
    using cx cy bits_covered [of xs] bits_covered [of ys] region_bits_range [of br] by auto
qed

text \<open>Putting a changed region into the place of the old one.\<close>

lemma replace_region_view:
  fixes bm :: "'p ocfs2_bitmap" and p :: 'p
  assumes ok: "bitmap_ok bm" and z: "whole z = b_regions bm" "rb_elem z = Some br"
    and br': "region_ok br'" "br_start_bit br' = br_start_bit br" "br_total_bits br' = br_total_bits br"
  defines "bm' \<equiv> bm\<lparr>b_regions := whole (rb_replace_node z br'), b_private := p\<rparr>"
  shows "bitmap_ok bm'" and "bm_bits bm' = (bm_bits bm - region_range br) \<union> region_bits br'"
    and "bm_covered bm' = bm_covered bm"
proof -
  note rep = rb_replace_node_pos [OF z(2), of br']
  have ino: "inorder (b_regions bm) = before z @ br # after z" using inorder_whole [OF z(2)] z(1) by simp
  have ino': "inorder (b_regions bm') = before z @ br' # after z"
    using inorder_whole [OF rep(1)] rep(2,3) by (simp add: bm'_def)
  have regs: "regions_ok (b_total_bits bm) (before z @ br # after z)" using ok ino by (simp add: bitmap_ok_def)
  have e: "region_end br' = region_end br" "region_range br' = region_range br"
    using br' by (simp_all add: region_end_def region_range_def)
  show "bitmap_ok bm'"
    using ok rep(4) z(1) ino' regs br' e by (simp add: bitmap_ok_def regions_ok_simps) (simp add: bm'_def)
  show "bm_covered bm' = bm_covered bm" using ino ino' e by (simp add: bm_covered_def)
  have "bits (before z) \<inter> region_range br = {}" "bits (after z) \<inter> region_range br = {}"
    using region_bits_split(2,3) [OF regs] bits_covered [of "before z"] bits_covered [of "after z"] by blast+
  then show "bm_bits bm' = (bm_bits bm - region_range br) \<union> region_bits br'"
    using ino ino' region_bits_range [of br] by (auto simp: bm_bits_def)
qed

lemma region_put_bit:
  fixes v :: bool
  assumes ok: "region_ok br" and i: "i < br_total_bits br"
  defines "br' \<equiv> br\<lparr>br_bitmap := put_bit (br_bitmap br) i v,
      br_set_bits := br_set_bits br + (if v then (if buf_bit (br_bitmap br) i then 0 else 1)
                                       else (if buf_bit (br_bitmap br) i then - 1 else 0))\<rparr>"
  shows "region_ok br'" and "region_bits br' = (if v then insert (br_start_bit br + i) (region_bits br)
      else region_bits br - {br_start_bit br + i})"
proof -
  have i8: "i < 8 * length (br_bitmap br)" using ok i by (auto simp: region_ok_def padded_def)
  note bb = buf_bit_put_bit [OF i8]
  show rb: "region_bits br' = (if v then insert (br_start_bit br + i) (region_bits br)
      else region_bits br - {br_start_bit br + i})"
    using i by (auto simp: region_bits_def br'_def region_end_def bb)
  have old: "br_start_bit br + i \<in> region_bits br \<longleftrightarrow> buf_bit (br_bitmap br) i"
    using i by (simp add: region_bits_def region_end_def)
  have "Suc 0 \<le> card (region_bits br)" if "buf_bit (br_bitmap br) i"
    using that old finite_region_bits by (metis card_gt_0_iff empty_iff Suc_leI)
  then have "int (card (region_bits br')) = br_set_bits br'"
    unfolding rb using ok old finite_region_bits [of br]
    by (auto simp: region_ok_iff br'_def card_insert_if card_Diff_singleton_if of_nat_diff)
  moreover have "padded (br_bitmap br') (br_total_bits br')"
    using ok i8 i by (auto simp: region_ok_def padded_def br'_def bb)
  ultimately show "region_ok br'" using ok by (simp add: region_ok_iff br'_def)
qed

definition put_region :: "region \<Rightarrow> nat \<Rightarrow> bool \<Rightarrow> region" where
  "put_region br i v = br\<lparr>br_bitmap := put_bit (br_bitmap br) i v,
      br_set_bits := br_set_bits br + (if v then (if buf_bit (br_bitmap br) i then 0 else 1)
                                       else (if buf_bit (br_bitmap br) i then - 1 else 0))\<rparr>"

lemma put_region_simps [simp]:
  "br_start_bit (put_region br i v) = br_start_bit br" "br_total_bits (put_region br i v) = br_total_bits br"
  by (simp_all add: put_region_def)

lemma set_generic_shared_ok:
  assumes "region_ok br" and "bitno \<in> region_range br" and "region_end br < 2 ^ 64"
  shows "\<exists>p' br'. set_generic_shared hooks p br bitno = Some (bitno \<in> region_bits br, p', br') \<and> region_ok br' \<and>
    br_start_bit br' = br_start_bit br \<and> br_total_bits br' = br_total_bits br \<and>
    region_bits br' = insert bitno (region_bits br)"
proof -
  define i where "i = bitno - br_start_bit br"
  have i: "sub64 bitno (br_start_bit br) = i" "i < br_total_bits br" "bitno = br_start_bit br + i"
    using assms by (auto simp: sub64_eq region_range_def region_end_def i_def)
  have i8: "i < 8 * length (br_bitmap br)" using assms(1) i(2) by (auto simp: region_ok_def padded_def)
  have old: "bitno \<in> region_bits br \<longleftrightarrow> buf_bit (br_bitmap br) i" using i by (simp add: region_bits_def region_end_def)
  have "\<exists>p'. set_generic_shared hooks p br bitno = Some (bitno \<in> region_bits br, p', put_region br i True)"
    using i(1) old ocfs2_set_bit_eq [OF i8]
    by (cases br) (simp add: set_generic_shared_def Let_def put_region_def)
  moreover note region_put_bit [OF assms(1) i(2), of True, folded put_region_def]
  ultimately show ?thesis using i(3) by fastforce
qed

lemma clear_generic_shared_ok:
  assumes "region_ok br" and "bitno \<in> region_range br" and "region_end br < 2 ^ 64"
  shows "\<exists>p' br'. clear_generic_shared hooks p br bitno = Some (bitno \<in> region_bits br, p', br') \<and> region_ok br' \<and>
    br_start_bit br' = br_start_bit br \<and> br_total_bits br' = br_total_bits br \<and>
    region_bits br' = region_bits br - {bitno}"
proof -
  define i where "i = bitno - br_start_bit br"
  have i: "sub64 bitno (br_start_bit br) = i" "i < br_total_bits br" "bitno = br_start_bit br + i"
    using assms by (auto simp: sub64_eq region_range_def region_end_def i_def)
  have i8: "i < 8 * length (br_bitmap br)" using assms(1) i(2) by (auto simp: region_ok_def padded_def)
  have old: "bitno \<in> region_bits br \<longleftrightarrow> buf_bit (br_bitmap br) i" using i by (simp add: region_bits_def region_end_def)
  have "\<exists>p'. clear_generic_shared hooks p br bitno = Some (bitno \<in> region_bits br, p', put_region br i False)"
    using i(1) old ocfs2_clear_bit_eq [OF i8]
    by (cases br) (simp add: clear_generic_shared_def Let_def put_region_def)
  moreover note region_put_bit [OF assms(1) i(2), of False, folded put_region_def]
  ultimately show ?thesis using i(3) by fastforce
qed

lemma lookup_bit:
  assumes ok: "bitmap_ok bm" and n: "bitno < b_total_bits bm"
  defines "z \<equiv> fst (ocfs2_bitmap_lookup bm bitno 1)"
  shows "bitno \<notin> bm_covered bm \<Longrightarrow> rb_elem z = None"
    and "bitno \<in> bm_covered bm \<Longrightarrow> \<exists>br. rb_elem z = Some br \<and> bitno \<in> region_range br \<and> whole z = b_regions bm \<and>
      region_ok br \<and> region_end br < 2 ^ 64 \<and> bm_bits bm \<inter> region_range br = region_bits br \<and> region_range br \<subseteq> bm_covered bm"
proof -
  have lt: "bitno + 1 < 2 ^ 64" using n ok by (simp add: bitmap_ok_def)
  have found: "bitno \<in> region_range br \<and> whole z = b_regions bm \<and> region_ok br \<and> region_end br < 2 ^ 64 \<and>
      bm_bits bm \<inter> region_range br = region_bits br \<and> region_range br \<subseteq> bm_covered bm" if "rb_elem z = Some br" for br
  proof -
    note f = lookup_found [OF ok lt that [unfolded z_def], folded z_def]
    have regs: "regions_ok (b_total_bits bm) (before z @ br # after z)" using ok f(2) by (simp add: bitmap_ok_def)
    with region_bits_split(1) [OF this] f ok show ?thesis
      by (auto simp: regions_ok_simps bm_bits_def bm_covered_def bitmap_ok_def region_range_def)
  qed
  show "bitno \<notin> bm_covered bm \<Longrightarrow> rb_elem z = None"
    using found by (cases "rb_elem z") auto
  assume cov: "bitno \<in> bm_covered bm"
  have "rb_elem z \<noteq> None"
  proof
    assume "rb_elem z = None"
    then obtain path where "z = (Leaf, path)" by (cases z rule: rb_elem.cases) auto
    note lm = lookup_missing [OF ok lt this [unfolded z_def]]
    from cov lm(2) obtain br where "br \<in> set (lefts path @ rights path)" "bitno \<in> region_range br"
      by (auto simp: bm_covered_def covered_def)
    with lm(3,4) [of br] show False by (auto simp: region_range_def)
  qed
  with found show "\<exists>br. rb_elem z = Some br \<and> bitno \<in> region_range br \<and> whole z = b_regions bm \<and>
      region_ok br \<and> region_end br < 2 ^ 64 \<and> bm_bits bm \<inter> region_range br = region_bits br \<and>
      region_range br \<subseteq> bm_covered bm" by auto
qed

text \<open>What an operation on one bit does: \<open>bit_result bm B cov r\<close>.\<close>

definition bit_result ::
    "'p ocfs2_bitmap \<Rightarrow> nat set \<Rightarrow> nat set \<Rightarrow> bool \<Rightarrow> (bool \<times> 'p ocfs2_bitmap) result option \<Rightarrow> bool" where
  "bit_result bm B cov old r \<longleftrightarrow> (\<exists>bm'. r = Some (Inr (old, bm')) \<and> bitmap_ok bm' \<and> bm_bits bm' = B \<and>
     bm_covered bm' = cov \<and> b_total_bits bm' = b_total_bits bm \<and> b_set_bits bm' = b_set_bits bm)"

lemma set_generic_ok:
  assumes ok: "bitmap_ok bm" and n: "bitno < b_total_bits bm"
  shows "bitno \<notin> bm_covered bm \<Longrightarrow> ocfs2_bitmap_set_generic hooks bm bitno = Some (Inl OCFS2_ET_INVALID_BIT)"
    and "bitno \<in> bm_covered bm \<Longrightarrow>
      bit_result bm (insert bitno (bm_bits bm)) (bm_covered bm) (bitno \<in> bm_bits bm) (ocfs2_bitmap_set_generic hooks bm bitno)"
proof -
  show "bitno \<notin> bm_covered bm \<Longrightarrow> ocfs2_bitmap_set_generic hooks bm bitno = Some (Inl OCFS2_ET_INVALID_BIT)"
    using lookup_bit(1) [OF ok n] by (simp add: ocfs2_bitmap_set_generic_def Let_def)
  assume "bitno \<in> bm_covered bm"
  from lookup_bit(2) [OF ok n this] obtain br where br: "rb_elem (fst (ocfs2_bitmap_lookup bm bitno 1)) = Some br"
    "bitno \<in> region_range br" "whole (fst (ocfs2_bitmap_lookup bm bitno 1)) = b_regions bm"
    "region_ok br" "region_end br < 2 ^ 64" "bm_bits bm \<inter> region_range br = region_bits br" by blast
  from set_generic_shared_ok [OF br(4,2,5), of hooks "b_private bm"] obtain p br' where br':
    "set_generic_shared hooks (b_private bm) br bitno = Some (bitno \<in> region_bits br, p, br')"
    "region_ok br'" "br_start_bit br' = br_start_bit br" "br_total_bits br' = br_total_bits br"
    "region_bits br' = insert bitno (region_bits br)" by blast
  note v = replace_region_view [OF ok br(3,1) br'(2,3,4), of p]
  have "(bm_bits bm - region_range br) \<union> region_bits br' = insert bitno (bm_bits bm)"
    using br(6) br'(5) by blast
  moreover have "bitno \<in> region_bits br \<longleftrightarrow> bitno \<in> bm_bits bm" using br(2,6) by blast
  ultimately show "bit_result bm (insert bitno (bm_bits bm)) (bm_covered bm) (bitno \<in> bm_bits bm)
      (ocfs2_bitmap_set_generic hooks bm bitno)"
    using v br(1) br'(1) by (simp add: bit_result_def ocfs2_bitmap_set_generic_def Let_def)
qed

lemma clear_generic_ok:
  assumes ok: "bitmap_ok bm" and n: "bitno < b_total_bits bm"
  shows "bitno \<notin> bm_covered bm \<Longrightarrow> ocfs2_bitmap_clear_generic hooks bm bitno = Some (Inl OCFS2_ET_INVALID_BIT)"
    and "bitno \<in> bm_covered bm \<Longrightarrow>
      bit_result bm (bm_bits bm - {bitno}) (bm_covered bm) (bitno \<in> bm_bits bm) (ocfs2_bitmap_clear_generic hooks bm bitno)"
proof -
  show "bitno \<notin> bm_covered bm \<Longrightarrow> ocfs2_bitmap_clear_generic hooks bm bitno = Some (Inl OCFS2_ET_INVALID_BIT)"
    using lookup_bit(1) [OF ok n] by (simp add: ocfs2_bitmap_clear_generic_def Let_def)
  assume "bitno \<in> bm_covered bm"
  from lookup_bit(2) [OF ok n this] obtain br where br: "rb_elem (fst (ocfs2_bitmap_lookup bm bitno 1)) = Some br"
    "bitno \<in> region_range br" "whole (fst (ocfs2_bitmap_lookup bm bitno 1)) = b_regions bm"
    "region_ok br" "region_end br < 2 ^ 64" "bm_bits bm \<inter> region_range br = region_bits br" by blast
  from clear_generic_shared_ok [OF br(4,2,5), of hooks "b_private bm"] obtain p br' where br':
    "clear_generic_shared hooks (b_private bm) br bitno = Some (bitno \<in> region_bits br, p, br')"
    "region_ok br'" "br_start_bit br' = br_start_bit br" "br_total_bits br' = br_total_bits br"
    "region_bits br' = region_bits br - {bitno}" by blast
  note v = replace_region_view [OF ok br(3,1) br'(2,3,4), of p]
  have "(bm_bits bm - region_range br) \<union> region_bits br' = bm_bits bm - {bitno}"
    using br(2,6) br'(5) by blast
  moreover have "bitno \<in> region_bits br \<longleftrightarrow> bitno \<in> bm_bits bm" using br(2,6) by blast
  ultimately show "bit_result bm (bm_bits bm - {bitno}) (bm_covered bm) (bitno \<in> bm_bits bm)
      (ocfs2_bitmap_clear_generic hooks bm bitno)"
    using v br(1) br'(1) by (simp add: bit_result_def ocfs2_bitmap_clear_generic_def Let_def)
qed

lemma test_generic_ok:
  assumes ok: "bitmap_ok bm" and n: "bitno < b_total_bits bm"
  shows "ocfs2_bitmap_test_generic bm bitno =
    Some (if bitno \<in> bm_covered bm then Inr (bitno \<in> bm_bits bm) else Inl OCFS2_ET_INVALID_BIT)"
proof (cases "bitno \<in> bm_covered bm")
  case True
  from lookup_bit(2) [OF ok n this] obtain br where br: "rb_elem (fst (ocfs2_bitmap_lookup bm bitno 1)) = Some br"
    "bitno \<in> region_range br" "region_ok br" "region_end br < 2 ^ 64" "bm_bits bm \<inter> region_range br = region_bits br" by blast
  then have "sub64 bitno (br_start_bit br) < 8 * length (br_bitmap br)"
    "buf_bit (br_bitmap br) (sub64 bitno (br_start_bit br)) \<longleftrightarrow> bitno \<in> region_bits br"
    by (auto simp: sub64_eq region_range_def region_end_def region_ok_def padded_def region_bits_def)
  moreover have "bitno \<in> region_bits br \<longleftrightarrow> bitno \<in> bm_bits bm" using br(2,5) by blast
  ultimately show ?thesis using True br(1) by (simp add: ocfs2_bitmap_test_generic_def ocfs2_test_bit_eq)
qed (use lookup_bit(1) [OF ok n] in \<open>simp add: ocfs2_bitmap_test_generic_def\<close>)

text \<open>With holes, a bit that is not covered gets a region of its own first.\<close>

lemma fresh_region:
  "ocfs2_bitmap_alloc_region bitno 1 =
     Some (Inr \<lparr>br_start_bit = bitno, br_total_bits = 1, br_bytes = 1, br_set_bits = 0, br_bitmap = [0]\<rparr>)"
  by (simp add: ocfs2_bitmap_alloc_region_def ocfs2_align_total_def INT_MAX_def)

lemma insert_fresh:
  assumes ok: "bitmap_ok bm" and n: "bitno < b_total_bits bm" and small: "b_total_bits bm + 7 \<le> INT_MAX"
    and free: "bitno \<notin> bm_covered bm"
  defines "br \<equiv> \<lparr>br_start_bit = bitno, br_total_bits = 1, br_bytes = 1, br_set_bits = 0, br_bitmap = [0]\<rparr>"
  shows "\<exists>bm'. ocfs2_bitmap_insert_region hooks bm br = Some (Inr bm') \<and> bitmap_ok bm' \<and>
    bm_bits bm' = bm_bits bm \<and> bm_covered bm' = insert bitno (bm_covered bm) \<and>
    b_total_bits bm' = b_total_bits bm \<and> b_set_bits bm' = b_set_bits bm"
proof -
  have empty: "region_bits br = {}" and range: "region_range br = {bitno}"
    by (auto simp: region_bits_def region_range_def region_end_def br_def buf_bit_def)
  have "region_ok br" unfolding region_ok_iff empty by (simp add: br_def INT_MAX_def padded_def buf_bit_def)
  moreover have "region_end br \<le> b_total_bits bm" using n by (simp add: br_def region_end_def)
  moreover have "bm_covered bm \<inter> region_range br = {}" using free range by simp
  ultimately show ?thesis using insert_region_view [OF ok small] empty range by fastforce
qed

lemma set_holes_ok:
  assumes ok: "bitmap_ok bm" and n: "bitno < b_total_bits bm" and small: "b_total_bits bm + 7 \<le> INT_MAX"
  shows "bit_result bm (insert bitno (bm_bits bm)) (insert bitno (bm_covered bm)) (bitno \<in> bm_bits bm)
    (ocfs2_bitmap_set_holes hooks bm bitno)"
proof (cases "bitno \<in> bm_covered bm")
  case True
  with set_generic_ok(2) [OF ok n True, of hooks] show ?thesis
    by (auto simp: ocfs2_bitmap_set_holes_def bit_result_def insert_absorb)
next
  case False
  from insert_fresh [OF ok n small False, of hooks] obtain bm' where bm':
    "ocfs2_bitmap_insert_region hooks bm
       \<lparr>br_start_bit = bitno, br_total_bits = 1, br_bytes = 1, br_set_bits = 0, br_bitmap = [0]\<rparr> = Some (Inr bm')"
    "bitmap_ok bm'" "bm_bits bm' = bm_bits bm" "bm_covered bm' = insert bitno (bm_covered bm)"
    "b_total_bits bm' = b_total_bits bm" "b_set_bits bm' = b_set_bits bm" by blast
  have "bitno < b_total_bits bm'" "bitno \<in> bm_covered bm'" using n bm' by simp_all
  from set_generic_ok(2) [OF bm'(2) this, of hooks] False set_generic_ok(1) [OF ok n False, of hooks] bm'
  show ?thesis by (simp add: ocfs2_bitmap_set_holes_def fresh_region bit_result_def)
qed

lemma clear_holes_ok:
  assumes ok: "bitmap_ok bm" and n: "bitno < b_total_bits bm" and small: "b_total_bits bm + 7 \<le> INT_MAX"
  shows "bit_result bm (bm_bits bm - {bitno}) (insert bitno (bm_covered bm))
    (if bitno \<in> bm_covered bm then bitno \<in> bm_bits bm else junk) (ocfs2_bitmap_clear_holes junk hooks bm bitno)"
proof (cases "bitno \<in> bm_covered bm")
  case True
  with clear_generic_ok(2) [OF ok n True, of hooks] show ?thesis
    by (auto simp: ocfs2_bitmap_clear_holes_def bit_result_def insert_absorb)
next
  case False
  then have "bm_bits bm - {bitno} = bm_bits bm" using bits_covered by (auto simp: bm_bits_def bm_covered_def)
  with insert_fresh [OF ok n small False, of hooks] clear_generic_ok(1) [OF ok n False, of hooks] False
  show ?thesis by (auto simp: ocfs2_bitmap_clear_holes_def fresh_region bit_result_def)
qed

lemma test_holes_ok:
  assumes "bitmap_ok bm" and "bitno < b_total_bits bm"
  shows "ocfs2_bitmap_test_holes bm bitno = Some (Inr (bitno \<in> bm_bits bm))"
  using test_generic_ok [OF assms] bits_covered [of "inorder (b_regions bm)"]
  by (auto simp: ocfs2_bitmap_test_holes_def bm_bits_def bm_covered_def)

section \<open>Searching\<close>

definition selected :: "(byte list \<Rightarrow> nat \<Rightarrow> bool) \<Rightarrow> region list \<Rightarrow> nat set" where
  "selected P rs = {n. \<exists>br\<in>set rs. n \<in> region_range br \<and> P (br_bitmap br) (n - br_start_bit br)}"

lemma selected_Cons: "selected P (br # rs) = selected P [br] \<union> selected P rs"
  by (auto simp: selected_def)

lemma selected_append: "selected P (xs @ ys) = selected P xs \<union> selected P ys"
  by (auto simp: selected_def)

lemma selected_set: "selected buf_bit rs = bits rs"
  by (auto simp: selected_def bits_def region_bits_def region_range_def)

lemma selected_clear:
  assumes "regions_ok N rs" shows "selected (\<lambda>buf i. \<not> buf_bit buf i) rs = covered rs - bits rs"
proof -
  have "n \<notin> bits rs \<longleftrightarrow> \<not> buf_bit (br_bitmap br) (n - br_start_bit br)" if "br \<in> set rs" "n \<in> region_range br" for n br
  proof -
    from that(1) obtain xs ys where rs: "rs = xs @ br # ys" by (meson split_list)
    with region_bits_split(1) [of N xs br ys] assms have "bits rs \<inter> region_range br = region_bits br" by simp
    with that(2) have "n \<in> bits rs \<longleftrightarrow> n \<in> region_bits br" by blast
    with that(2) show ?thesis by (simp add: region_bits_def region_range_def)
  qed
  then show ?thesis unfolding selected_def covered_def by blast
qed

text \<open>\<open>first_from S start r\<close>: \<open>r\<close> is the least number of \<open>S\<close> that is not below \<open>start\<close>, if there is one.\<close>

definition first_from :: "nat set \<Rightarrow> nat \<Rightarrow> nat option \<Rightarrow> bool" where
  "first_from S start r \<longleftrightarrow>
     (case r of None \<Rightarrow> \<forall>n\<in>S. n < start
      | Some n \<Rightarrow> n \<in> S \<and> start \<le> n \<and> (\<forall>m\<in>S. start \<le> m \<longrightarrow> n \<le> m))"

lemma first_from_Un:
  "first_from S start None \<Longrightarrow> first_from T start r \<Longrightarrow> first_from (S \<union> T) start r"
  "first_from S start (Some n) \<Longrightarrow> (\<And>m. m \<in> T \<Longrightarrow> n \<le> m) \<Longrightarrow> first_from (S \<union> T) start (Some n)"
  by (fastforce simp: first_from_def split: option.splits)+

lemma search_region:
  assumes ok: "region_ok br" "start < region_end br"
    and law: "\<And>buf tot off. padded buf tot \<Longrightarrow> off \<le> tot \<Longrightarrow> find_next buf tot off = Some (next_such (P buf) tot off)"
  defines "offset \<equiv> if start > br_start_bit br then start - br_start_bit br else 0"
  shows "\<exists>ret. find_next (br_bitmap br) (br_total_bits br) offset = Some ret \<and> ret \<le> br_total_bits br \<and>
    first_from (selected P [br]) start (if ret = br_total_bits br then None else Some (br_start_bit br + ret))"
proof -
  let ?tot = "br_total_bits br" and ?P = "P (br_bitmap br)"
  define ret where "ret = next_such ?P ?tot offset"
  have off: "offset \<le> ?tot" using ok(2) by (auto simp: offset_def region_end_def)
  have "find_next (br_bitmap br) ?tot offset = Some ret"
    using law [OF _ off] ok(1) by (simp add: region_ok_def ret_def)
  moreover have le: "ret \<le> ?tot" by (simp add: ret_def next_such_le)
  have none: "\<not> ?P i" if "offset \<le> i" "i < ret" for i
    using next_such_before [of offset i ?P ?tot] that by (simp add: ret_def)
  have off_le: "offset \<le> n - br_start_bit br" if "start \<le> n" for n using that by (simp add: offset_def diff_le_mono)
  have "first_from (selected P [br]) start (if ret = ?tot then None else Some (br_start_bit br + ret))"
  proof (cases "ret = ?tot")
    case True
    have "n < start" if "n \<in> selected P [br]" for n
    proof (rule ccontr)
      assume "\<not> n < start"
      with that none [of "n - br_start_bit br"] off_le [of n] True show False
        by (simp add: selected_def region_range_def region_end_def less_diff_conv2)
    qed
    with True show ?thesis by (simp add: first_from_def)
  next
    case False
    then have lt: "ret < ?tot" using le by simp
    then have P: "?P ret" "offset \<le> ret" unfolding ret_def using next_such_lessD [of ?P ?tot offset] by auto
    have "br_start_bit br + ret \<le> m" if "m \<in> selected P [br]" "start \<le> m" for m
    proof (rule ccontr)
      assume "\<not> br_start_bit br + ret \<le> m"
      with that none [of "m - br_start_bit br"] off_le [of m] show False
        by (simp add: selected_def region_range_def less_diff_conv2)
    qed
    with False lt P show ?thesis
      by (auto simp: first_from_def selected_def region_range_def region_end_def offset_def split: if_splits)
  qed
  with calculation le show ?thesis by blast
qed

lemma search_list:
  assumes law: "\<And>buf tot off. padded buf tot \<Longrightarrow> off \<le> tot \<Longrightarrow> find_next buf tot off = Some (next_such (P buf) tot off)"
    and N: "N < 2 ^ 64"
  shows "regions_ok N rs \<Longrightarrow> (\<And>br. br \<in> set rs \<Longrightarrow> start < region_end br) \<Longrightarrow>
    \<exists>r. list_walk (search_step find_next start) None rs = Some (r, rs) \<and> first_from (selected P rs) start r"
proof (induction rs)
  case Nil
  then show ?case by (simp add: first_from_def selected_def)
next
  case (Cons br rs)
  have ok: "region_ok br" "start < region_end br" "region_end br < 2 ^ 64" "regions_ok N rs"
    and later: "\<forall>b\<in>set rs. region_end br \<le> br_start_bit b"
    using Cons.prems N by (auto simp: regions_ok_simps)
  from search_region [where P = P, OF ok(1,2) law] obtain ret where ret:
    "find_next (br_bitmap br) (br_total_bits br) (if start > br_start_bit br then start - br_start_bit br else 0) = Some ret"
    "ret \<le> br_total_bits br"
    "first_from (selected P [br]) start (if ret = br_total_bits br then None else Some (br_start_bit br + ret))"
    by blast
  show ?case
  proof (cases "ret = br_total_bits br")
    case True
    with Cons.IH ok(4) Cons.prems(2) obtain r where
      "list_walk (search_step find_next start) None rs = Some (r, rs)" "first_from (selected P rs) start r" by auto
    with ret True first_from_Un(1) show ?thesis
      by (subst selected_Cons) (auto simp: search_step_def Let_def)
  next
    case False
    have "br_start_bit br + ret \<le> m" if "m \<in> selected P rs" for m
      using that later ret(2) by (fastforce simp: selected_def region_range_def region_end_def)
    with ret(3) False have "first_from (selected P (br # rs)) start (Some (br_start_bit br + ret))"
      by (subst selected_Cons) (auto intro: first_from_Un(2))
    with ret(1,2) False ok(3) show ?thesis
      by (auto simp: search_step_def Let_def add64_eq region_end_def)
  qed
qed

lemma start_node_ok:
  assumes ok: "bitmap_ok bm" and n: "start < b_total_bits bm"
  shows "start_node bm start = None \<Longrightarrow> br \<in> set (inorder (b_regions bm)) \<Longrightarrow> region_end br \<le> start"
    and "start_node bm start = Some z \<Longrightarrow> \<exists>br. rb_elem z = Some br \<and>
      inorder (b_regions bm) = before z @ br # after z \<and> start < region_end br \<and> (\<forall>b\<in>set (before z). region_end b \<le> start)"
proof -
  let ?z = "fst (ocfs2_bitmap_lookup bm start 1)"
  have lt: "start + 1 < 2 ^ 64" using n ok by (simp add: bitmap_ok_def)
  have sn: "start_node bm start = (if rb_elem ?z \<noteq> None then Some ?z else snd (ocfs2_bitmap_lookup bm start 1))"
    by (simp add: start_node_def Let_def split: prod.split)
  show "start_node bm start = None \<Longrightarrow> br \<in> set (inorder (b_regions bm)) \<Longrightarrow> region_end br \<le> start"
  proof -
    assume none: "start_node bm start = None" and br: "br \<in> set (inorder (b_regions bm))"
    then have "rb_elem ?z = None" using sn by (auto split: if_splits)
    then obtain path where path: "?z = (Leaf, path)" by (cases ?z rule: rb_elem.cases) auto
    note lm = lookup_missing [OF ok lt path]
    have "up_from_right Leaf path = None" using none sn lm(5) path by simp
    then have "rights path = []" by (rule up_from_right_pos(1))
    with lm(2,3) br show ?thesis by auto
  qed
  assume some: "start_node bm start = Some z"
  show "\<exists>br. rb_elem z = Some br \<and> inorder (b_regions bm) = before z @ br # after z \<and> start < region_end br \<and>
      (\<forall>b\<in>set (before z). region_end b \<le> start)"
  proof (cases "rb_elem ?z")
    case None
    then obtain path where path: "?z = (Leaf, path)" by (cases ?z rule: rb_elem.cases) auto
    note lm = lookup_missing [OF ok lt path]
    have "up_from_right Leaf path = Some z" using some sn lm(5) path by simp
    from up_from_right_pos(2) [OF this] obtain x where x: "rb_elem z = Some x" "rights path = x # after z"
      "before z = lefts path" by auto
    have "region_ok x" using ok lm(2) x(2) by (auto simp: bitmap_ok_def regions_ok_simps)
    with lm(4) [of x] x(2) region_start_end have "start < region_end x" by fastforce
    with x lm(2,3) show ?thesis by auto
  next
    case (Some br)
    with sn some have "z = ?z" by simp
    moreover note f = lookup_found [OF ok lt Some]
    moreover have "region_end b \<le> start" if "b \<in> set (before ?z)" for b
    proof -
      have "region_end b \<le> br_start_bit br" using ok f(2) that by (auto simp: bitmap_ok_def regions_ok_simps)
      with f(3) show ?thesis by simp
    qed
    ultimately show ?thesis using Some by auto
  qed
qed

lemma search_from_ok:
  assumes ok: "bitmap_ok bm" and n: "start < b_total_bits bm"
    and law: "\<And>buf tot off. padded buf tot \<Longrightarrow> off \<le> tot \<Longrightarrow> find_next buf tot off = Some (next_such (P buf) tot off)"
  shows "\<exists>r. search_from find_next start (start_node bm start) =
      Some (case r of None \<Rightarrow> Inl OCFS2_ET_BIT_NOT_FOUND | Some n \<Rightarrow> Inr n) \<and>
    first_from (selected P (inorder (b_regions bm))) start r"
proof (cases "start_node bm start")
  case None
  have "first_from (selected P (inorder (b_regions bm))) start None"
    using start_node_ok(1) [OF ok n None] by (fastforce simp: first_from_def selected_def region_range_def)
  with None show ?thesis by (intro exI [of _ None]) (simp add: search_from_def)
next
  case (Some z)
  from start_node_ok(2) [OF ok n Some] obtain br where br: "rb_elem z = Some br"
    "inorder (b_regions bm) = before z @ br # after z" "start < region_end br" "\<forall>b\<in>set (before z). region_end b \<le> start" by blast
  have regs: "regions_ok (b_total_bits bm) (before z @ br # after z)" and N: "b_total_bits bm < 2 ^ 64"
    using ok br(2) by (simp_all add: bitmap_ok_def)
  have "start < region_end b" if "b \<in> set (br # after z)" for b
  proof (cases "b = br")
    case False
    with that have "region_end br \<le> br_start_bit b" "region_ok b"
      using regs by (auto simp: regions_ok_simps) (auto simp: regions_ok_def)
    with region_start_end [of b] br(3) show ?thesis by simp
  qed (use br(3) in simp)
  with search_list [where P = P and find_next = find_next and start = start, OF law N] regs obtain r where
    r: "list_walk (search_step find_next start) None (br # after z) = Some (r, br # after z)"
    "first_from (selected P (br # after z)) start r" by (metis regions_ok_append)
  from rb_walk_list [OF br(1) r(1)] obtain t' where "rb_walk (search_step find_next start) None z = Some (r, t')" by blast
  moreover have "first_from (selected P (before z)) start None"
    using br(4) by (fastforce simp: first_from_def selected_def region_range_def)
  with r(2) have "first_from (selected P (inorder (b_regions bm))) start r"
    unfolding br(2) selected_append by (intro first_from_Un(1))
  ultimately show ?thesis using Some by (auto simp: search_from_def)
qed

lemmas find_next_set_law = ocfs2_find_next_bit_set_eq
lemmas find_next_clear_law = ocfs2_find_next_bit_clear_eq

text \<open>
  The search for a clear bit in a bitmap with holes.  It finds the first bit that is not set, in a
  hole or in a region, except when every bit up to the end of the last region is set.
\<close>

definition first_unset :: "nat set \<Rightarrow> nat \<Rightarrow> nat \<Rightarrow> nat option \<Rightarrow> bool" where
  "first_unset B start limit r \<longleftrightarrow>
     (case r of None \<Rightarrow> {start..<limit} \<subseteq> B | Some n \<Rightarrow> start \<le> n \<and> n \<notin> B \<and> {start..<n} \<subseteq> B)"

lemma clear_holes_list:
  assumes N: "N < 2 ^ 64"
  shows "regions_ok N rs \<Longrightarrow> (\<And>br. br \<in> set rs \<Longrightarrow> start < region_end br) \<Longrightarrow>
    start \<le> seen \<Longrightarrow> {start..<seen} \<subseteq> B \<Longrightarrow> (\<And>n. seen \<le> n \<Longrightarrow> n \<in> B \<longleftrightarrow> n \<in> bits rs) \<Longrightarrow>
    seen = start \<or> (\<forall>br\<in>set rs. seen \<le> br_start_bit br) \<Longrightarrow>
    \<exists>s r. list_walk (clear_holes_step start) (seen, None) rs = Some ((s, r), rs) \<and>
      first_unset B start (if rs = [] then seen else region_end (last rs)) r"
proof (induction rs arbitrary: seen)
  case Nil
  then show ?case by (auto simp: first_unset_def)
next
  case (Cons br rs)
  have ok: "region_ok br" "start < region_end br" "region_end br < 2 ^ 64" "regions_ok N rs"
    and later: "\<And>b. b \<in> set rs \<Longrightarrow> region_end br \<le> br_start_bit b"
    using Cons.prems N by (auto simp: regions_ok_simps)
  have rest: "region_end br \<le> n" if "n \<in> bits rs" for n
    using that later by (fastforce simp: bits_def region_bits_def)
  have lo: "br_start_bit br \<le> n" if "n \<in> bits (br # rs)" for n
    using that rest region_start_end [OF ok(1)] by (auto simp: region_bits_def) fastforce
  show ?case
  proof (cases "seen < br_start_bit br")
    case True
    then have "seen \<notin> B" using Cons.prems(5) [of seen] lo [of seen] by auto
    with True Cons.prems(3,4) show ?thesis by (auto simp: clear_holes_step_def first_unset_def)
  next
    case False
    have sb: "seen = start \<or> seen = br_start_bit br" using False Cons.prems(6) by auto
    from search_region [where P = "\<lambda>buf i. \<not> buf_bit buf i", OF ok(1,2) find_next_clear_law] obtain ret where ret:
      "ocfs2_find_next_bit_clear (br_bitmap br) (br_total_bits br)
         (if start > br_start_bit br then start - br_start_bit br else 0) = Some ret"
      "ret \<le> br_total_bits br"
      "first_from (selected (\<lambda>buf i. \<not> buf_bit buf i) [br]) start
         (if ret = br_total_bits br then None else Some (br_start_bit br + ret))"
      by blast
    have sel: "m \<in> selected (\<lambda>buf i. \<not> buf_bit buf i) [br] \<longleftrightarrow> m \<in> region_range br \<and> m \<notin> region_bits br" for m
      by (auto simp: selected_def region_bits_def region_range_def)
    have inB: "m \<in> B" if "start \<le> m" "m < region_end br" "seen \<le> m \<Longrightarrow> m \<in> region_bits br" for m
      using that Cons.prems(4) Cons.prems(5) [of m] False by (cases "m < seen") auto
    show ?thesis
    proof (cases "ret = br_total_bits br")
      case True
      have all: "m \<in> region_bits br" if "start \<le> m" "m \<in> region_range br" for m
        using that ret(3) True sel [of m] by (auto simp: first_from_def)
      have "\<exists>s r. list_walk (clear_holes_step start) (region_end br, None) rs = Some ((s, r), rs) \<and>
          first_unset B start (if rs = [] then region_end br else region_end (last rs)) r"
      proof (rule Cons.IH)
        show "{start..<region_end br} \<subseteq> B"
          using inB all False by (auto simp: region_range_def)
        show "n \<in> B \<longleftrightarrow> n \<in> bits rs" if "region_end br \<le> n" for n
          using that Cons.prems(5) [of n] sb ok(2) region_start_end [OF ok(1)] by (auto simp: region_bits_def)
        show "start \<le> region_end br" using ok(2) by simp
      qed (use ok Cons.prems(2) later in auto)
      with ret(1) True False ok(3) show ?thesis
        by (auto simp: clear_holes_step_def Let_def add64_eq region_end_def)
    next
      case ne: False
      define n where "n = br_start_bit br + ret"
      have n: "n \<in> region_range br" "n \<notin> region_bits br" "start \<le> n" "n < region_end br"
        and min: "\<And>m. m \<in> region_range br \<Longrightarrow> m \<notin> region_bits br \<Longrightarrow> start \<le> m \<Longrightarrow> n \<le> m"
        using ret(3) ne sel by (auto simp: first_from_def n_def region_range_def)
      have "seen \<le> n" using sb n(1,3) by (auto simp: region_range_def)
      then have "n \<notin> B" using Cons.prems(5) [of n] n(2,4) rest [of n] by auto
      moreover have "{start..<n} \<subseteq> B"
      proof
        fix m assume m: "m \<in> {start..<n}"
        have "m \<in> region_bits br" if "seen \<le> m"
          using min [of m] m n(4) that False by (force simp: region_range_def)
        with inB [of m] m n(4) show "m \<in> B" by auto
      qed
      ultimately have "first_unset B start limit (Some n)" for limit using n(3) by (simp add: first_unset_def)
      with ret(1) ne False ok(3) n(4) show ?thesis
        by (auto simp: clear_holes_step_def Let_def add64_eq n_def)
    qed
  qed
qed

lemma find_next_clear_holes_ok:
  assumes ok: "bitmap_ok bm" and n: "start < b_total_bits bm"
  defines "limit \<equiv> (if start_node bm start = None then start else region_end (last (inorder (b_regions bm))))"
  shows "\<exists>r. ocfs2_bitmap_find_next_clear_holes bm start =
      Some (case r of None \<Rightarrow> Inl OCFS2_ET_BIT_NOT_FOUND | Some n \<Rightarrow> Inr n) \<and> first_unset (bm_bits bm) start limit r \<and>
      (start_node bm start = None \<longrightarrow> r \<noteq> None)"
proof (cases "start_node bm start")
  case None
  have "start \<notin> bm_bits bm" using start_node_ok(1) [OF ok n None]
    by (fastforce simp: bm_bits_def bits_def region_bits_def)
  with None show ?thesis
    by (intro exI [of _ "Some start"]) (simp add: ocfs2_bitmap_find_next_clear_holes_def first_unset_def)
next
  case (Some z)
  from start_node_ok(2) [OF ok n Some] obtain br where br: "rb_elem z = Some br"
    "inorder (b_regions bm) = before z @ br # after z" "start < region_end br" "\<forall>b\<in>set (before z). region_end b \<le> start" by blast
  have regs: "regions_ok (b_total_bits bm) (before z @ br # after z)" and N: "b_total_bits bm < 2 ^ 64"
    using ok br(2) by (simp_all add: bitmap_ok_def)
  have later: "start < region_end b" if "b \<in> set (br # after z)" for b
  proof (cases "b = br")
    case False
    with that have "region_end br \<le> br_start_bit b" "region_ok b"
      using regs by (auto simp: regions_ok_simps) (auto simp: regions_ok_def)
    with region_start_end [of b] br(3) show ?thesis by simp
  qed (use br(3) in simp)
  have "\<exists>s r. list_walk (clear_holes_step start) (start, None) (br # after z) = Some ((s, r), br # after z) \<and>
      first_unset (bm_bits bm) start (if br # after z = [] then start else region_end (last (br # after z))) r"
  proof (rule clear_holes_list [OF N])
    show "regions_ok (b_total_bits bm) (br # after z)" using regs by (simp add: regions_ok_append)
    show "m \<in> bm_bits bm \<longleftrightarrow> m \<in> bits (br # after z)" if "start \<le> m" for m
      using br(2,4) that by (fastforce simp: bm_bits_def bits_def region_bits_def)
  qed (use later in auto)
  then obtain s r where r: "list_walk (clear_holes_step start) (start, None) (br # after z) = Some ((s, r), br # after z)"
    "first_unset (bm_bits bm) start limit r"
    using br(2) Some by (auto simp: limit_def)
  from rb_walk_list [OF br(1) r(1)] obtain t' where "rb_walk (clear_holes_step start) (start, None) z = Some ((s, r), t')" by blast
  with r(2) Some show ?thesis by (auto simp: ocfs2_bitmap_find_next_clear_holes_def)
qed

section \<open>Allocating a range\<close>

definition clear_run_at :: "region \<Rightarrow> nat \<Rightarrow> nat \<Rightarrow> bool" where
  "clear_run_at br a k \<longleftrightarrow> 0 < k \<and> a + k \<le> br_total_bits br \<and> (\<forall>i. a \<le> i \<and> i < a + k \<longrightarrow> \<not> buf_bit (br_bitmap br) i)"

definition alloc_inv :: "region \<Rightarrow> nat \<Rightarrow> nat \<Rightarrow> nat \<Rightarrow> nat \<Rightarrow> bool" where
  "alloc_inv br len start bs bl \<longleftrightarrow>
     (bl = 0 \<and> bs = UINT64_MAX \<or> clear_run_at br bs bl) \<and> bl < len \<and>
     (\<forall>a k. clear_run_at br a k \<and> a < start \<longrightarrow> k \<le> bl)"

definition alloc_found :: "region \<Rightarrow> nat \<Rightarrow> nat \<Rightarrow> alloc_search \<Rightarrow> bool" where
  "alloc_found br min_len len r \<longleftrightarrow>
     (case r of
        Found s e \<Rightarrow> e = s + len \<and> clear_run_at br s len
      | Best s l \<Rightarrow> (l = 0 \<and> s = UINT64_MAX \<or> clear_run_at br s l) \<and> l < len \<and>
                    (\<forall>a k. clear_run_at br a k \<longrightarrow> k \<le> l \<or> k < min_len))"

lemma alloc_round:
  assumes ok: "region_ok br" and inv: "alloc_inv br len start bs bl" and le: "start \<le> br_total_bits br"
    and "s = next_such (\<lambda>i. \<not> buf_bit (br_bitmap br) i) (br_total_bits br) start" and "s < br_total_bits br"
    and "e = next_such (buf_bit (br_bitmap br)) (br_total_bits br) s"
  shows "clear_run_at br s (e - s)" and "start \<le> s" and "s < e" and "e \<le> br_total_bits br"
    and "clear_run_at br a k \<Longrightarrow> a < Suc e \<Longrightarrow> k \<le> max bl (e - s)"
proof -
  let ?tot = "br_total_bits br" and ?buf = "br_bitmap br"
  have s: "\<not> buf_bit ?buf s" "start \<le> s"
    using assms(4,5) next_such_lessD [of "\<lambda>i. \<not> buf_bit ?buf i" ?tot start] by auto
  have e_le: "e \<le> ?tot" using assms(6) by (simp add: next_such_le)
  have "s \<le> e" using assms(5,6) next_such_ge [of s ?tot "buf_bit ?buf"] by simp
  moreover have eb: "buf_bit ?buf e" if "e < ?tot" using that assms(6) next_such_lessD(1) [of "buf_bit ?buf" ?tot s] by simp
  then have "e \<noteq> s" using s(1) assms(5) by auto
  ultimately show se: "s < e" by simp
  have run: "\<not> buf_bit ?buf i" if "s \<le> i" "i < e" for i
    using next_such_before [of s i "buf_bit ?buf" ?tot] that assms(6) by simp
  then show "clear_run_at br s (e - s)" using se e_le by (simp add: clear_run_at_def)
  show "start \<le> s" "e \<le> ?tot" by fact+
  have set: "buf_bit ?buf i" if "start \<le> i" "i < s" for i
    using next_such_before [of start i "\<lambda>i. \<not> buf_bit ?buf i" ?tot] that assms(4) by simp
  assume a: "clear_run_at br a k" "a < Suc e"
  then have clr: "\<not> buf_bit ?buf a" "a + k \<le> ?tot" "0 < k" by (auto simp: clear_run_at_def)
  consider "a < start" | "start \<le> a" "a < s" | "s \<le> a" "a < e" | "a = e" using a(2) by linarith
  then show "k \<le> max bl (e - s)"
  proof cases
    case 1
    with inv a(1) have "k \<le> bl" by (auto simp: alloc_inv_def)
    then show ?thesis by simp
  next
    case 2
    with set clr show ?thesis by blast
  next
    case 3
    have "a + k \<le> e"
    proof (rule ccontr)
      assume "\<not> a + k \<le> e"
      then have "e < ?tot" "a \<le> e" "e < a + k" using clr(2) 3 by auto
      with eb a(1) show False by (auto simp: clear_run_at_def)
    qed
    with 3 show ?thesis by linarith
  next
    case 4
    with clr eb show ?thesis by (cases "e < ?tot") auto
  qed
qed

lemma alloc_range_loop_ok:
  assumes "region_ok br" and "0 < len" and "alloc_inv br len start bs bl" and "0 < min_len"
  shows "\<exists>r. alloc_range_loop br min_len len start bs bl = Some r \<and> alloc_found br min_len len r"
  using assms
proof (induction br min_len len start bs bl rule: alloc_range_loop.induct)
  case (1 br min_len len start bs bl)
  note inv = "1.prems"(3)
  let ?tot = "br_total_bits br" and ?buf = "br_bitmap br"
  have pad: "padded ?buf ?tot" and tot: "?tot < 2 ^ 64" using "1.prems"(1) by (auto simp: region_ok_def INT_MAX_def)
  show ?case
  proof (cases "start + min_len \<le> ?tot")
    case False
    have "k \<le> bl \<or> k < min_len" if "clear_run_at br a k" for a k
    proof (cases "a < start")
      case True
      with inv that show ?thesis by (auto simp: alloc_inv_def)
    next
      case ge: False
      with False that show ?thesis by (simp add: clear_run_at_def)
    qed
    then have "alloc_found br min_len len (Best bs bl)" using inv by (simp add: alloc_found_def alloc_inv_def)
    with False show ?thesis by (simp add: alloc_range_loop.simps)
  next
    case True
    define s where "s = next_such (\<lambda>i. \<not> buf_bit ?buf i) ?tot start"
    define e where "e = next_such (buf_bit ?buf) ?tot s"
    have c: "ocfs2_find_next_bit_clear ?buf ?tot start = Some s"
      using ocfs2_find_next_bit_clear_eq [OF pad] True by (simp add: s_def)
    have s_le: "s \<le> ?tot" by (simp add: s_def next_such_le)
    have f: "ocfs2_find_next_bit_set ?buf ?tot s = Some e"
      using ocfs2_find_next_bit_set_eq [OF pad s_le] by (simp add: e_def)
    show ?thesis
    proof (cases "s = ?tot")
      case st: True
      have "a < start" if "clear_run_at br a k" for a k
        using next_such_before [of start a "\<lambda>i. \<not> buf_bit ?buf i" ?tot] that st
        by (force simp: s_def clear_run_at_def)
      then have "alloc_found br min_len len (Best bs bl)"
        using inv by (auto simp: alloc_found_def alloc_inv_def)
      with True st c show ?thesis by (simp add: alloc_range_loop.simps)
    next
      case st: False
      then have lt: "s < ?tot" and start: "start \<le> ?tot" using s_le True by auto
      note rnd = alloc_round [OF "1.prems"(1) inv start s_def lt e_def]
      have i64: "int64 (int e - int s) = e - s" using rnd(3,4) tot by (simp add: int64_eq)
      have unf: "alloc_range_loop br min_len len start bs bl =
          (if len \<le> e - s then Some (Found s (s + len))
           else if bl < e - s then alloc_range_loop br min_len len (e + 1) s (e - s)
           else alloc_range_loop br min_len len (e + 1) bs bl)"
        using True st c f i64 by (simp add: alloc_range_loop.simps [of br min_len len start bs bl])
      consider "len \<le> e - s" | "e - s < len" "bl < e - s" | "e - s < len" "e - s \<le> bl" by linarith
      then show ?thesis
      proof cases
        case 1
        then have "clear_run_at br s len" using rnd(1,3) "1.prems"(2) by (auto simp: clear_run_at_def)
        with 1 unf show ?thesis by (simp add: alloc_found_def)
      next
        case 2
        then have "alloc_inv br len (e + 1) s (e - s)"
          using rnd(1,5) inv by (auto simp: alloc_inv_def max_def)
        with 2 unf "1.IH"(1) [OF True c st f] "1.prems" i64 show ?thesis by simp
      next
        case 3
        then have "alloc_inv br len (e + 1) bs bl"
          using rnd(5) inv by (auto simp: alloc_inv_def max_def)
        with 3 unf "1.IH"(2) [OF True c st f] "1.prems" i64 show ?thesis by simp
      qed
    qed
  qed
qed

lemma set_run_ok:
  assumes "region_ok br" and "br_start_bit br + start \<le> br_start_bit br + end" and "end \<le> br_total_bits br"
    and "region_end br < 2 ^ 64"
  shows "\<exists>p' br'. set_run hooks p br start end = Some (p', br') \<and> region_ok br' \<and> br_start_bit br' = br_start_bit br \<and>
    br_total_bits br' = br_total_bits br \<and>
    region_bits br' = region_bits br \<union> {br_start_bit br + start..<br_start_bit br + end}"
  using assms
proof (induction hooks p br start "end" rule: set_run.induct)
  case (1 hooks p br start "end")
  show ?case
  proof (cases "start < end")
    case False
    with 1 show ?thesis by (simp add: set_run.simps)
  next
    case True
    have "start + br_start_bit br \<in> region_range br" using True "1.prems" by (simp add: region_range_def region_end_def)
    from set_generic_shared_ok [OF "1.prems"(1) this "1.prems"(4), of hooks p] obtain p1 br1 where
      s: "set_generic_shared hooks p br (start + br_start_bit br) = Some (start + br_start_bit br \<in> region_bits br, p1, br1)"
      and br1: "region_ok br1" "br_start_bit br1 = br_start_bit br" "br_total_bits br1 = br_total_bits br"
        "region_bits br1 = insert (start + br_start_bit br) (region_bits br)" by blast
    have "{br_start_bit br + start..<br_start_bit br + end} =
        insert (start + br_start_bit br) {br_start_bit br + (start + 1)..<br_start_bit br + end}" using True by auto
    with "1.IH" [OF True s refl refl br1(1)] br1 "1.prems" True s show ?thesis
      by (auto simp: set_run.simps [of hooks p br start] region_end_def)
  qed
qed

text \<open>What the allocation does in one region.\<close>

lemma few_clear:
  assumes ok: "region_ok br" and few: "int64 (int (br_total_bits br) - br_set_bits br) < min_len" and "clear_run_at br a k"
  shows "k < min_len"
proof -
  let ?S = "{i. i < br_total_bits br \<and> buf_bit (br_bitmap br) i}"
  have sub: "{a..<a + k} \<union> ?S \<subseteq> {..<br_total_bits br}" "{a..<a + k} \<inter> ?S = {}"
    using assms(3) by (auto simp: clear_run_at_def)
  then have "card {a..<a + k} + card ?S \<le> br_total_bits br"
    by (metis (no_types, lifting) card_Un_disjoint card_lessThan card_mono finite_Un finite_lessThan finite_subset)
  then have kS: "k + card ?S \<le> br_total_bits br" by simp
  have "br_set_bits br = int (card ?S)" "br_total_bits br < 2 ^ 64" using ok by (auto simp: region_ok_def INT_MAX_def)
  with kS have "int64 (int (br_total_bits br) - br_set_bits br) = br_total_bits br - card ?S"
    by (simp add: int64_eq nat_diff_distrib)
  with few kS show ?thesis by linarith
qed

lemma alloc_range_func_ok:
  assumes ok: "region_ok br" "region_end br < 2 ^ 64" and args: "0 < ar_min_len ar" "ar_min_len ar \<le> ar_len ar"
  shows "(\<exists>ar'. alloc_range_func hooks ar br = Some (ar', br, None) \<and> ar' = ar \<and>
            (\<forall>a k. clear_run_at br a k \<longrightarrow> k < ar_min_len ar)) \<or>
         (\<exists>ar' br' s n. alloc_range_func hooks ar br = Some (ar', br', Some OCFS2_ET_ITERATION_COMPLETE) \<and>
            clear_run_at br s n \<and> ar_min_len ar \<le> n \<and> n \<le> ar_len ar \<and> ar_ret ar' = None \<and>
            ar_first_bit ar' = br_start_bit br + s \<and> ar_bits_found ar' = n \<and>
            region_ok br' \<and> br_start_bit br' = br_start_bit br \<and> br_total_bits br' = br_total_bits br \<and>
            region_bits br' = region_bits br \<union> {br_start_bit br + s..<br_start_bit br + s + n})"
proof (cases "int64 (int (br_total_bits br) - br_set_bits br) < ar_min_len ar")
  case True
  with few_clear [OF ok(1)] show ?thesis by (auto simp: alloc_range_func_def)
next
  case False
  have "alloc_inv br (ar_len ar) 0 UINT64_MAX 0" using args by (simp add: alloc_inv_def)
  with alloc_range_loop_ok [OF ok(1)] args obtain r where
    r: "alloc_range_loop br (ar_min_len ar) (ar_len ar) 0 UINT64_MAX 0 = Some r" "alloc_found br (ar_min_len ar) (ar_len ar) r"
    by (meson less_le_trans)
  define chosen where "chosen = (case r of Found s e \<Rightarrow> Some (s, e)
      | Best s l \<Rightarrow> if s = UINT64_MAX \<or> l < ar_min_len ar then None else Some (s, s + l))"
  show ?thesis
  proof (cases chosen)
    case None
    have "k < ar_min_len ar" if "clear_run_at br a k" for a k
    proof -
      from None obtain s l where r2: "r = Best s l" "s = UINT64_MAX \<or> l < ar_min_len ar"
        by (auto simp: chosen_def split: alloc_search.splits if_splits)
      have "l < ar_min_len ar"
        using r(2) r2 ok(1) args by (auto simp: alloc_found_def clear_run_at_def region_ok_def INT_MAX_def UINT64_MAX_def)
      moreover have "k \<le> l \<or> k < ar_min_len ar" using r(2) r2(1) that by (auto simp: alloc_found_def)
      ultimately show ?thesis by linarith
    qed
    with None r(1) False show ?thesis by (auto simp: alloc_range_func_def chosen_def)
  next
    case (Some se)
    then obtain s n where se: "se = (s, s + n)" "clear_run_at br s n" "ar_min_len ar \<le> n" "n \<le> ar_len ar"
      using r(2) args by (auto simp: chosen_def alloc_found_def split: alloc_search.splits if_splits)
    from set_run_ok [OF ok(1), of s "s + n" hooks "ar_private ar"] se(2) ok(2) obtain p br' where
      "set_run hooks (ar_private ar) br s (s + n) = Some (p, br')" "region_ok br'" "br_start_bit br' = br_start_bit br"
      "br_total_bits br' = br_total_bits br" "region_bits br' = region_bits br \<union> {br_start_bit br + s..<br_start_bit br + s + n}"
      by (auto simp: clear_run_at_def add.assoc)
    with se Some r(1) False show ?thesis
      by (intro disjI2) (auto simp: alloc_range_func_def chosen_def)
  qed
qed

lemma alloc_range_list:
  assumes N: "N < 2 ^ 64" and args: "0 < ar_min_len ar" "ar_min_len ar \<le> ar_len ar"
  shows "regions_ok N rs \<Longrightarrow>
    list_walk (foreach_step (alloc_range_func hooks)) (ar, None) rs = Some ((ar, None), rs) \<and>
      (\<forall>br\<in>set rs. \<forall>a k. clear_run_at br a k \<longrightarrow> k < ar_min_len ar) \<or>
    (\<exists>xs br ys ar' br' s n. rs = xs @ br # ys \<and>
      list_walk (foreach_step (alloc_range_func hooks)) (ar, None) rs = Some ((ar', None), xs @ br' # ys) \<and>
      clear_run_at br s n \<and> ar_min_len ar \<le> n \<and> n \<le> ar_len ar \<and> ar_ret ar' = None \<and>
      ar_first_bit ar' = br_start_bit br + s \<and> ar_bits_found ar' = n \<and>
      region_ok br' \<and> br_start_bit br' = br_start_bit br \<and> br_total_bits br' = br_total_bits br \<and>
      region_bits br' = region_bits br \<union> {br_start_bit br + s..<br_start_bit br + s + n})"
proof (induction rs)
  case Nil
  then show ?case by simp
next
  case (Cons br rs)
  have ok: "region_ok br" "region_end br < 2 ^ 64" "regions_ok N rs"
    using Cons.prems N by (auto simp: regions_ok_simps)
  from alloc_range_func_ok [OF ok(1,2) args, of hooks] show ?case
  proof (elim disjE exE conjE)
    fix ar' assume a: "alloc_range_func hooks ar br = Some (ar', br, None)" "ar' = ar"
      and none: "\<forall>a k. clear_run_at br a k \<longrightarrow> k < ar_min_len ar"
    from Cons.IH [OF ok(3)] show ?thesis
    proof (elim disjE exE conjE)
      assume "list_walk (foreach_step (alloc_range_func hooks)) (ar, None) rs = Some ((ar, None), rs)"
        "\<forall>br\<in>set rs. \<forall>a k. clear_run_at br a k \<longrightarrow> k < ar_min_len ar"
      with a none show ?thesis by (simp add: foreach_step_def)
    next
      fix xs b ys ar'' b' s n
      assume *: "rs = xs @ b # ys"
        "list_walk (foreach_step (alloc_range_func hooks)) (ar, None) rs = Some ((ar'', None), xs @ b' # ys)"
        "clear_run_at b s n" "ar_min_len ar \<le> n" "n \<le> ar_len ar" "ar_ret ar'' = None"
        "ar_first_bit ar'' = br_start_bit b + s" "ar_bits_found ar'' = n" "region_ok b'" "br_start_bit b' = br_start_bit b"
        "br_total_bits b' = br_total_bits b" "region_bits b' = region_bits b \<union> {br_start_bit b + s..<br_start_bit b + s + n}"
      have "list_walk (foreach_step (alloc_range_func hooks)) (ar, None) (br # rs) = Some ((ar'', None), (br # xs) @ b' # ys)"
        using a *(2) by (simp add: foreach_step_def)
      moreover have "br # rs = (br # xs) @ b # ys" using *(1) by simp
      ultimately show ?thesis using *(3-) by blast
    qed
  next
    fix ar' br' s n
    assume *: "alloc_range_func hooks ar br = Some (ar', br', Some OCFS2_ET_ITERATION_COMPLETE)"
      "clear_run_at br s n" "ar_min_len ar \<le> n" "n \<le> ar_len ar" "ar_ret ar' = None"
      "ar_first_bit ar' = br_start_bit br + s" "ar_bits_found ar' = n" "region_ok br'" "br_start_bit br' = br_start_bit br"
      "br_total_bits br' = br_total_bits br" "region_bits br' = region_bits br \<union> {br_start_bit br + s..<br_start_bit br + s + n}"
    have "list_walk (foreach_step (alloc_range_func hooks)) (ar, None) (br # rs) = Some ((ar', None), [] @ br' # rs)"
      using *(1) by (simp add: foreach_step_def)
    moreover have "br # rs = [] @ br # rs" by simp
    ultimately show ?thesis using *(2-) by blast
  qed
qed

lemma alloc_range_generic_ok:
  assumes ok: "bitmap_ok bm" and args: "0 < min_len" "min_len \<le> len"
  shows "ocfs2_bitmap_alloc_range_generic hooks bm min_len len = Some (Inl OCFS2_ET_BIT_NOT_FOUND) \<and>
      (\<forall>br\<in>set (inorder (b_regions bm)). \<forall>a k. clear_run_at br a k \<longrightarrow> k < min_len) \<or>
    (\<exists>first n bm'. ocfs2_bitmap_alloc_range_generic hooks bm min_len len = Some (Inr (first, n, bm')) \<and>
      min_len \<le> n \<and> n \<le> len \<and> {first..<first + n} \<subseteq> bm_covered bm - bm_bits bm \<and>
      bm_bits bm' = bm_bits bm \<union> {first..<first + n} \<and> bm_covered bm' = bm_covered bm \<and> bitmap_ok bm' \<and>
      b_total_bits bm' = b_total_bits bm)"
proof -
  define ar where "ar = \<lparr>ar_private = b_private bm, ar_min_len = min_len, ar_len = len,
      ar_first_bit = 0, ar_bits_found = 0, ar_ret = Some OCFS2_ET_BIT_NOT_FOUND\<rparr>"
  have regs: "regions_ok (b_total_bits bm) (inorder (b_regions bm))" and N: "b_total_bits bm < 2 ^ 64"
    and tree: "rb_tree (b_regions bm)"
    using ok by (simp_all add: bitmap_ok_def)
  show ?thesis
  proof (cases "rb_first (b_regions bm)")
    case None
    then have "inorder (b_regions bm) = []" by (cases "b_regions bm") auto
    with None show ?thesis
      by (simp add: ocfs2_bitmap_alloc_range_generic_def ocfs2_bitmap_foreach_region_def)
  next
    case (Some z)
    from rb_first_pos(2) [OF Some] obtain x where z: "whole z = b_regions bm" "before z = []" "rb_elem z = Some x"
      "inorder (b_regions bm) = x # after z" by blast
    have walk: "\<exists>t'. rb_walk (foreach_step (alloc_range_func hooks)) (ar, None) z = Some (r, t') \<and> inorder t' = ys \<and> rb_tree t'"
      if "list_walk (foreach_step (alloc_range_func hooks)) (ar, None) (inorder (b_regions bm)) = Some (r, ys)" for r ys
      using rb_walk_list [OF z(3)] that z tree by force
    have unf: "ocfs2_bitmap_alloc_range_generic hooks bm min_len len =
        Some (case ar_ret ar' of
                Some e \<Rightarrow> Inl e
              | None \<Rightarrow> Inr (ar_first_bit ar', ar_bits_found ar', bm\<lparr>b_regions := t, b_private := ar_private ar'\<rparr>))"
      if "rb_walk (foreach_step (alloc_range_func hooks)) (ar, None) z = Some ((ar', None), t)" for ar' t
      using Some that unfolding ocfs2_bitmap_alloc_range_generic_def ocfs2_bitmap_foreach_region_def ar_def by simp
    have min: "ar_min_len ar = min_len" "ar_len ar = len" by (simp_all add: ar_def)
    from alloc_range_list [OF N, of ar, OF _ _ regs, of hooks, unfolded min, OF args] show ?thesis
    proof (elim disjE exE conjE)
      assume l: "list_walk (foreach_step (alloc_range_func hooks)) (ar, None) (inorder (b_regions bm)) =
          Some ((ar, None), inorder (b_regions bm))"
        "\<forall>br\<in>set (inorder (b_regions bm)). \<forall>a k. clear_run_at br a k \<longrightarrow> k < min_len"
      from walk [OF l(1)] l(2) unf show ?thesis by (fastforce simp: ar_def)
    next
      fix xs br ys ar' br' s n
      assume l: "inorder (b_regions bm) = xs @ br # ys"
        "list_walk (foreach_step (alloc_range_func hooks)) (ar, None) (inorder (b_regions bm)) = Some ((ar', None), xs @ br' # ys)"
        "clear_run_at br s n" "min_len \<le> n" "n \<le> len" "ar_ret ar' = None" "ar_first_bit ar' = br_start_bit br + s"
        "ar_bits_found ar' = n" "region_ok br'" "br_start_bit br' = br_start_bit br" "br_total_bits br' = br_total_bits br"
        "region_bits br' = region_bits br \<union> {br_start_bit br + s..<br_start_bit br + s + n}"
      from walk [OF l(2)] obtain t' where t': "inorder t' = xs @ br' # ys" "rb_tree t'"
        "rb_walk (foreach_step (alloc_range_func hooks)) (ar, None) z = Some ((ar', None), t')" by blast
      let ?F = "{br_start_bit br + s..<br_start_bit br + s + n}"
      have in_range: "?F \<subseteq> region_range br"
        using l(3) by (auto simp: clear_run_at_def region_range_def region_end_def)
      moreover have "x \<notin> region_bits br" if "x \<in> ?F" for x
      proof -
        have "s \<le> x - br_start_bit br" "x - br_start_bit br < s + n" using that by auto
        with l(3) show ?thesis by (simp add: clear_run_at_def region_bits_def)
      qed
      ultimately have "?F \<subseteq> bm_covered bm - bm_bits bm"
        using region_bits_split(1) [of _ xs br ys] regs l(1) by (fastforce simp: bm_covered_def bm_bits_def)
      moreover have "region_end br' = region_end br" "region_range br' = region_range br"
        using l(10,11) by (simp_all add: region_end_def region_range_def)
      then have "bitmap_ok (bm\<lparr>b_regions := t', b_private := ar_private ar'\<rparr>)"
        "bm_covered (bm\<lparr>b_regions := t', b_private := ar_private ar'\<rparr>) = bm_covered bm"
        "bm_bits (bm\<lparr>b_regions := t', b_private := ar_private ar'\<rparr>) = bm_bits bm \<union> ?F"
        using t' regs N l by (auto simp: bitmap_ok_def regions_ok_simps bm_covered_def bm_bits_def)
      ultimately show ?thesis using unf [OF t'(3)] l(4-8) by simp
    qed
  qed
qed

section \<open>Clearing a range, freeing and making a bitmap\<close>

lemma clear_run_ok:
  assumes "region_ok br" and "{first..<end} \<subseteq> region_range br" and "region_end br < 2 ^ 64"
  shows "\<exists>p' br'. clear_run hooks p br first end = Some (p', br') \<and> region_ok br' \<and> br_start_bit br' = br_start_bit br \<and>
    br_total_bits br' = br_total_bits br \<and> region_bits br' = region_bits br - {first..<end}"
  using assms
proof (induction hooks p br first "end" rule: clear_run.induct)
  case (1 hooks p br first "end")
  show ?case
  proof (cases "first < end")
    case False
    with 1 show ?thesis by (simp add: clear_run.simps)
  next
    case True
    have "first \<in> region_range br" using True "1.prems"(2) by auto
    from clear_generic_shared_ok [OF "1.prems"(1) this "1.prems"(3), of hooks p] obtain p1 br1 where
      s: "clear_generic_shared hooks p br first = Some (first \<in> region_bits br, p1, br1)"
      and br1: "region_ok br1" "br_start_bit br1 = br_start_bit br" "br_total_bits br1 = br_total_bits br"
        "region_bits br1 = region_bits br - {first}" by blast
    have e: "region_end br1 = region_end br" "region_range br1 = region_range br"
      using br1 by (simp_all add: region_end_def region_range_def)
    have "{first..<end} = insert first {first + 1..<end}" using True by auto
    with "1.IH" [OF True s refl refl br1(1)] br1 "1.prems"(2,3) True s e show ?thesis
      by (auto simp: clear_run.simps [of hooks p br first])
  qed
qed

lemma clear_range_generic_ok:
  assumes ok: "bitmap_ok bm" and br: "br \<in> set (inorder (b_regions bm))"
    and range: "{first..<first + len} \<subseteq> region_range br" "0 < len" "first + len \<le> b_total_bits bm"
  shows "\<exists>bm'. ocfs2_bitmap_clear_range_generic hooks bm len first = Some (Inr bm') \<and> bitmap_ok bm' \<and>
    bm_bits bm' = bm_bits bm - {first..<first + len} \<and> bm_covered bm' = bm_covered bm \<and>
    b_total_bits bm' = b_total_bits bm"
proof -
  let ?z = "fst (ocfs2_bitmap_lookup bm first len)"
  have regs: "regions_ok (b_total_bits bm) (inorder (b_regions bm))" and N: "b_total_bits bm < 2 ^ 64"
    using ok by (simp_all add: bitmap_ok_def)
  have lt: "first + len < 2 ^ 64" using range(3) N by simp
  have fr: "br_start_bit br \<le> first" "first < region_end br" using range(1,2) by (auto simp: region_range_def)
  have "rb_elem ?z \<noteq> None"
  proof
    assume "rb_elem ?z = None"
    then obtain path where "?z = (Leaf, path)" by (cases ?z rule: rb_elem.cases) auto
    note lm = lookup_missing [OF ok lt this]
    from lm(2) lm(3,4) [of br] br fr range(2) show False by auto
  qed
  then obtain x where x: "rb_elem ?z = Some x" by auto
  note f = lookup_found [OF ok lt x]
  have "x = br"
  proof (rule ccontr)
    assume "x \<noteq> br"
    with br f(2) have "br \<in> set (before ?z) \<or> br \<in> set (after ?z)" by auto
    moreover have "regions_ok (b_total_bits bm) (before ?z @ x # after ?z)" using regs f(2) by simp
    moreover have "first + len \<le> region_end br" using range(1,2) by (auto simp: region_range_def dest: subsetD [of _ _ "first + len - 1"])
    ultimately show False using fr f(3,4) by (auto simp: regions_ok_simps dest!: bspec [of _ _ br])
  qed
  with x have xb: "rb_elem ?z = Some br" by simp
  have rok: "region_ok br" "region_end br < 2 ^ 64" using regs br N by (auto simp: regions_ok_def)
  from clear_run_ok [OF rok(1) range(1) rok(2), of hooks "b_private bm"] obtain p br' where br':
    "clear_run hooks (b_private bm) br first (first + len) = Some (p, br')" "region_ok br'"
    "br_start_bit br' = br_start_bit br" "br_total_bits br' = br_total_bits br"
    "region_bits br' = region_bits br - {first..<first + len}" by blast
  note v = replace_region_view [OF ok f(1) xb br'(2-4), of p]
  have "bm_bits bm \<inter> region_range br = region_bits br"
    using region_bits_split(1) [of _ "before ?z" br "after ?z"] regs f(2) \<open>x = br\<close> by (auto simp: bm_bits_def)
  then have "(bm_bits bm - region_range br) \<union> region_bits br' = bm_bits bm - {first..<first + len}"
    using br'(5) range(1) by blast
  with v xb br'(1) lt show ?thesis
    by (simp add: ocfs2_bitmap_clear_range_generic_def Let_def add64_eq)
qed

text \<open>A cluster bitmap of at most \<open>max_bits\<close> bits is one region of clear bits.\<close>

lemma cluster_bitmap_new_ok:
  assumes "0 < clusters" and "clusters \<le> INT_MAX - (clustersize - 1)" and "8 \<le> clustersize"
  shows "\<exists>bm. ocfs2_cluster_bitmap_new clusters clustersize desc = Some (Inr bm) \<and> bitmap_ok bm \<and>
    bm_bits bm = {} \<and> bm_covered bm = {..<clusters} \<and> b_total_bits bm = clusters \<and> b_set_bits bm = 0"
proof -
  define br where "br = \<lparr>br_start_bit = 0, br_total_bits = clusters, br_bytes = (clusters + 7) div 8,
      br_set_bits = 0, br_bitmap = replicate ((clusters + 7) div 8) 0\<rparr>"
  define bm where "bm = \<lparr>b_set_bits = 0, b_total_bits = clusters,
      b_description = (case desc of None \<Rightarrow> ''Generic cluster bitmap'' | Some d \<Rightarrow> d), b_regions = Leaf, b_private = ()\<rparr>"
  have c7: "clusters + 7 \<le> INT_MAX" using assms by simp
  have clear: "\<not> buf_bit (replicate ((clusters + 7) div 8) 0) i" if "i < 8 * ((clusters + 7) div 8)" for i
    using buf_bit_zeros that by simp
  have le: "clusters \<le> 8 * ((clusters + 7) div 8)" by presburger
  have empty: "region_bits br = {}" using clear le by (auto simp: region_bits_def br_def region_end_def)
  have rok: "region_ok br" unfolding region_ok_iff empty using assms(1) c7 le clear by (simp add: br_def padded_def)
  have range: "region_range br = {..<clusters}" by (auto simp: region_range_def region_end_def br_def)
  have ok: "bitmap_ok bm" using c7 by (simp add: bitmap_ok_def bm_def rb_tree_def INT_MAX_def)
  have "\<exists>bm'. ocfs2_bitmap_insert_region no_hooks bm br = Some (Inr bm') \<and> bitmap_ok bm' \<and>
    bm_bits bm' = bm_bits bm \<union> region_bits br \<and> bm_covered bm' = bm_covered bm \<union> region_range br \<and>
    b_total_bits bm' = b_total_bits bm \<and> b_set_bits bm' = b_set_bits bm \<and> b_private bm' = b_private bm"
    using ok rok c7 by (intro insert_region_view) (simp_all add: bm_def br_def region_end_def bm_covered_def)
  then obtain bm' where bm': "ocfs2_bitmap_insert_region no_hooks bm br = Some (Inr bm')" "bitmap_ok bm'"
    "bm_bits bm' = {}" "bm_covered bm' = {..<clusters}" "b_total_bits bm' = clusters" "b_set_bits bm' = 0"
    using empty range by (auto simp: bm_def bm_bits_def bm_covered_def)
  have alloc: "ocfs2_bitmap_alloc_region 0 (int clusters) = Some (Inr br)"
    using c7 by (simp add: ocfs2_bitmap_alloc_region_def ocfs2_align_total_def br_def)
  have new: "ocfs2_bitmap_new clusters (Some (case desc of None \<Rightarrow> ''Generic cluster bitmap'' | Some d \<Rightarrow> d))
      global_cluster_ops () = Inr bm"
    by (simp add: ocfs2_bitmap_new_def global_cluster_ops_def bm_def)
  have "cluster_regions (INT_MAX - (clustersize - 1)) clusters 0 bm = Some (Inr bm')"
    using assms(1,2) alloc bm'(1) by (simp add: cluster_regions.simps Let_def)
  with new bm' show ?thesis by (simp add: ocfs2_cluster_bitmap_new_def)
qed

end
