(* ===== verification/Bitmap_Interface.thy ===== *)
theory Bitmap_Interface
  imports Bitmap_Correct
begin

text \<open>
  The contract between the public bitmap functions and an operations table, as a locale, with
  what the public functions guarantee for every table that meets it; the two tables of
  \<open>bitmap.c\<close> as interpretations; and the properties of the bitmaps.
\<close>

section \<open>The contract of an operations table\<close>

locale bitmap_bits =
  fixes ops :: "'p bitmap_ops" and inv :: "'p ocfs2_bitmap \<Rightarrow> bool" and view :: "'p ocfs2_bitmap \<Rightarrow> nat set"
  assumes set_law: "inv bm \<Longrightarrow> n < b_total_bits bm \<Longrightarrow>
      \<exists>f bm'. op_set_bit ops = Some f \<and> f bm n = Some (Inr (n \<in> view bm, bm')) \<and> inv bm' \<and>
        view bm' = insert n (view bm) \<and> b_total_bits bm' = b_total_bits bm \<and> b_set_bits bm' = b_set_bits bm"
    and clear_view_law: "inv bm \<Longrightarrow> n < b_total_bits bm \<Longrightarrow>
      \<exists>f old bm'. op_clear_bit ops = Some f \<and> f bm n = Some (Inr (old, bm')) \<and> inv bm' \<and>
        view bm' = view bm - {n} \<and> b_total_bits bm' = b_total_bits bm \<and> b_set_bits bm' = b_set_bits bm"
    and test_law: "inv bm \<Longrightarrow> n < b_total_bits bm \<Longrightarrow>
      \<exists>f. op_test_bit ops = Some f \<and> f bm n = Some (Inr (n \<in> view bm))"
    and view_bounded: "inv bm \<Longrightarrow> view bm \<subseteq> {..<b_total_bits bm} \<and> b_total_bits bm < 2 ^ 64"
    and count_irrelevant: "inv bm \<Longrightarrow> inv (bm\<lparr>b_set_bits := k\<rparr>) \<and> view (bm\<lparr>b_set_bits := k\<rparr>) = view bm"
begin

lemma set_view:
  assumes "inv bm" and "n < b_total_bits bm"
  shows "\<exists>bm'. ocfs2_bitmap_set ops bm n = Some (Inr (n \<in> view bm, bm')) \<and> inv bm' \<and> view bm' = insert n (view bm) \<and>
    b_total_bits bm' = b_total_bits bm"
  using set_law [OF assms] assms(2) count_irrelevant by (fastforce simp: ocfs2_bitmap_set_def)

lemma clear_view:
  assumes "inv bm" and "n < b_total_bits bm"
  shows "\<exists>old bm'. ocfs2_bitmap_clear ops bm n = Some (Inr (old, bm')) \<and> inv bm' \<and> view bm' = view bm - {n} \<and>
    b_total_bits bm' = b_total_bits bm"
  using clear_view_law [OF assms] assms(2) count_irrelevant by (fastforce simp: ocfs2_bitmap_clear_def)

lemma test_view:
  "inv bm \<Longrightarrow> n < b_total_bits bm \<Longrightarrow> ocfs2_bitmap_test ops bm n = Some (Inr (n \<in> view bm))"
  using test_law [of bm n] by (auto simp: ocfs2_bitmap_test_def)

end

text \<open>A table whose clear operation also reports the old value, which the count of set bits needs.\<close>

locale bitmap_table = bitmap_bits +
  assumes clear_law: "inv bm \<Longrightarrow> n < b_total_bits bm \<Longrightarrow>
      \<exists>f bm'. op_clear_bit ops = Some f \<and> f bm n = Some (Inr (n \<in> view bm, bm')) \<and> inv bm' \<and>
        view bm' = view bm - {n} \<and> b_total_bits bm' = b_total_bits bm \<and> b_set_bits bm' = b_set_bits bm"

text \<open>A client's sequence of calls, and what it does to a set of numbers below \<open>total_bits\<close>.\<close>

datatype bit_call = Set_bit nat | Clear_bit nat

fun call :: "'p bitmap_ops \<Rightarrow> bit_call \<Rightarrow> 'p ocfs2_bitmap \<Rightarrow> 'p ocfs2_bitmap option" where
  "call ops (Set_bit n) bm =
     map_option (\<lambda>r. case r of Inl _ \<Rightarrow> bm | Inr (_, bm') \<Rightarrow> bm') (ocfs2_bitmap_set ops bm n)"
| "call ops (Clear_bit n) bm =
     map_option (\<lambda>r. case r of Inl _ \<Rightarrow> bm | Inr (_, bm') \<Rightarrow> bm') (ocfs2_bitmap_clear ops bm n)"

fun run_calls :: "'p bitmap_ops \<Rightarrow> bit_call list \<Rightarrow> 'p ocfs2_bitmap \<Rightarrow> 'p ocfs2_bitmap option" where
  "run_calls ops [] bm = Some bm"
| "run_calls ops (c # cs) bm = do { bm' \<leftarrow> call ops c bm; run_calls ops cs bm' }"

fun call_spec :: "nat \<Rightarrow> bit_call \<Rightarrow> nat set \<Rightarrow> nat set" where
  "call_spec total_bits (Set_bit n) S = (if n < total_bits then insert n S else S)"
| "call_spec total_bits (Clear_bit n) S = S - {n}"

context bitmap_table
begin

lemma api_set:
  assumes "inv bm" and "b_set_bits bm = card (view bm)"
  shows "\<exists>r. ocfs2_bitmap_set ops bm n = Some r \<and>
    (if n < b_total_bits bm
     then \<exists>bm'. r = Inr (n \<in> view bm, bm') \<and> inv bm' \<and> view bm' = insert n (view bm) \<and>
       b_total_bits bm' = b_total_bits bm \<and> b_set_bits bm' = card (view bm')
     else r = Inl OCFS2_ET_INVALID_BIT)"
proof (cases "n < b_total_bits bm")
  case False
  then show ?thesis by (simp add: ocfs2_bitmap_set_def)
next
  case True
  from set_law [OF assms(1) True] obtain f bm' where f: "op_set_bit ops = Some f" "f bm n = Some (Inr (n \<in> view bm, bm'))"
    "inv bm'" "view bm' = insert n (view bm)" "b_total_bits bm' = b_total_bits bm" "b_set_bits bm' = b_set_bits bm" by blast
  have fin: "finite (view bm)" using view_bounded [OF assms(1)] finite_subset by blast
  have "card (view bm') \<le> b_total_bits bm"
    using view_bounded [OF f(3)] f(5) by (metis card_lessThan card_mono finite_lessThan)
  with view_bounded [OF assms(1)] have lt: "card (view bm') < 2 ^ 64" by linarith
  show ?thesis
  proof (cases "n \<in> view bm")
    case in_view: True
    with True f assms(2) show ?thesis by (auto simp: ocfs2_bitmap_set_def insert_absorb)
  next
    case new: False
    then have "add64 (b_set_bits bm') 1 = card (view bm')"
      using f(4,6) assms(2) fin lt by (simp add: add64_eq)
    with new True f count_irrelevant [OF f(3), of "card (view bm')"] show ?thesis
      by (auto simp: ocfs2_bitmap_set_def)
  qed
qed

lemma api_clear:
  assumes "inv bm" and "b_set_bits bm = card (view bm)"
  shows "\<exists>r. ocfs2_bitmap_clear ops bm n = Some r \<and>
    (if n < b_total_bits bm
     then \<exists>bm'. r = Inr (n \<in> view bm, bm') \<and> inv bm' \<and> view bm' = view bm - {n} \<and>
       b_total_bits bm' = b_total_bits bm \<and> b_set_bits bm' = card (view bm')
     else r = Inl OCFS2_ET_INVALID_BIT)"
proof (cases "n < b_total_bits bm")
  case False
  then show ?thesis by (simp add: ocfs2_bitmap_clear_def)
next
  case True
  from clear_law [OF assms(1) True] obtain f bm' where f: "op_clear_bit ops = Some f" "f bm n = Some (Inr (n \<in> view bm, bm'))"
    "inv bm'" "view bm' = view bm - {n}" "b_total_bits bm' = b_total_bits bm" "b_set_bits bm' = b_set_bits bm" by blast
  have fin: "finite (view bm)" using view_bounded [OF assms(1)] finite_subset by blast
  have "card (view bm) \<le> b_total_bits bm"
    using view_bounded [OF assms(1)] by (metis card_lessThan card_mono finite_lessThan)
  with view_bounded [OF assms(1)] have lt: "card (view bm) < 2 ^ 64" by linarith
  show ?thesis
  proof (cases "n \<in> view bm")
    case out: False
    with True f assms(2) show ?thesis by (auto simp: ocfs2_bitmap_clear_def)
  next
    case old: True
    then have "Suc 0 \<le> card (view bm)" using fin by (metis card_gt_0_iff empty_iff Suc_leI)
    then have "sub64 (b_set_bits bm') 1 = card (view bm')"
      using f(4,6) assms(2) fin lt old by (simp add: sub64_eq)
    with old True f count_irrelevant [OF f(3), of "card (view bm')"] show ?thesis
      by (auto simp: ocfs2_bitmap_clear_def)
  qed
qed

lemma call_refines:
  assumes "inv bm" and "b_set_bits bm = card (view bm)"
  shows "\<exists>bm'. call ops c bm = Some bm' \<and> inv bm' \<and> view bm' = call_spec (b_total_bits bm) c (view bm) \<and>
    b_total_bits bm' = b_total_bits bm \<and> b_set_bits bm' = card (view bm')"
proof (cases c)
  case (Set_bit n)
  with api_set [OF assms, of n] assms show ?thesis by (cases "n < b_total_bits bm") auto
next
  case (Clear_bit n)
  show ?thesis
  proof (cases "n < b_total_bits bm")
    case True
    with api_clear [OF assms, of n] Clear_bit show ?thesis by auto
  next
    case False
    then have "view bm - {n} = view bm" using view_bounded [OF assms(1)] by auto
    with False api_clear [OF assms, of n] Clear_bit assms show ?thesis by auto
  qed
qed

lemma run_calls_refines:
  assumes "inv bm" and "b_set_bits bm = card (view bm)"
  shows "\<exists>bm'. run_calls ops cs bm = Some bm' \<and> inv bm' \<and>
    view bm' = fold (call_spec (b_total_bits bm)) cs (view bm) \<and>
    b_total_bits bm' = b_total_bits bm \<and> b_set_bits bm' = card (view bm')"
  using assms
proof (induction cs arbitrary: bm)
  case (Cons c cs)
  from call_refines [OF Cons.prems, of c] obtain bm1 where bm1: "call ops c bm = Some bm1" "inv bm1"
    "view bm1 = call_spec (b_total_bits bm) c (view bm)" "b_total_bits bm1 = b_total_bits bm"
    "b_set_bits bm1 = card (view bm1)" by blast
  from Cons.IH [OF bm1(2,5)] bm1 show ?case by auto
qed auto

end

section \<open>The two tables\<close>

definition cluster_inv :: "'p ocfs2_bitmap \<Rightarrow> bool" where
  "cluster_inv bm \<longleftrightarrow> bitmap_ok bm \<and> bm_covered bm = {..<b_total_bits bm}"

definition block_inv :: "'p ocfs2_bitmap \<Rightarrow> bool" where
  "block_inv bm \<longleftrightarrow> bitmap_ok bm \<and> b_total_bits bm + 7 \<le> INT_MAX"

lemma bm_bits_bounded: "bitmap_ok bm \<Longrightarrow> bm_bits bm \<subseteq> {..<b_total_bits bm}"
  by (fastforce simp: bitmap_ok_def bm_bits_def bits_def regions_ok_def region_bits_def)

lemma count_update:
  "bitmap_ok (bm\<lparr>b_set_bits := k\<rparr>) = bitmap_ok bm" "bm_bits (bm\<lparr>b_set_bits := k\<rparr>) = bm_bits bm"
  "bm_covered (bm\<lparr>b_set_bits := k\<rparr>) = bm_covered bm"
  by (simp_all add: bitmap_ok_def bm_bits_def bm_covered_def)

lemma cluster_laws:
  assumes inv: "cluster_inv bm" and n: "n < b_total_bits bm"
  shows "\<exists>f bm'. op_set_bit global_cluster_ops = Some f \<and> f bm n = Some (Inr (n \<in> bm_bits bm, bm')) \<and> cluster_inv bm' \<and>
      bm_bits bm' = insert n (bm_bits bm) \<and> b_total_bits bm' = b_total_bits bm \<and> b_set_bits bm' = b_set_bits bm"
    and "\<exists>f bm'. op_clear_bit global_cluster_ops = Some f \<and> f bm n = Some (Inr (n \<in> bm_bits bm, bm')) \<and> cluster_inv bm' \<and>
      bm_bits bm' = bm_bits bm - {n} \<and> b_total_bits bm' = b_total_bits bm \<and> b_set_bits bm' = b_set_bits bm"
    and "\<exists>f. op_test_bit global_cluster_ops = Some f \<and> f bm n = Some (Inr (n \<in> bm_bits bm))"
proof -
  have ok: "bitmap_ok bm" and cov: "n \<in> bm_covered bm" using assms by (auto simp: cluster_inv_def)
  show "\<exists>f bm'. op_set_bit global_cluster_ops = Some f \<and> f bm n = Some (Inr (n \<in> bm_bits bm, bm')) \<and> cluster_inv bm' \<and>
      bm_bits bm' = insert n (bm_bits bm) \<and> b_total_bits bm' = b_total_bits bm \<and> b_set_bits bm' = b_set_bits bm"
    using set_generic_ok(2) [OF ok n cov, of no_hooks] inv
    by (auto simp: global_cluster_ops_def bit_result_def cluster_inv_def)
  show "\<exists>f bm'. op_clear_bit global_cluster_ops = Some f \<and> f bm n = Some (Inr (n \<in> bm_bits bm, bm')) \<and> cluster_inv bm' \<and>
      bm_bits bm' = bm_bits bm - {n} \<and> b_total_bits bm' = b_total_bits bm \<and> b_set_bits bm' = b_set_bits bm"
    using clear_generic_ok(2) [OF ok n cov, of no_hooks] inv
    by (auto simp: global_cluster_ops_def bit_result_def cluster_inv_def)
  show "\<exists>f. op_test_bit global_cluster_ops = Some f \<and> f bm n = Some (Inr (n \<in> bm_bits bm))"
    using test_generic_ok [OF ok n] cov by (simp add: global_cluster_ops_def)
qed

interpretation cluster: bitmap_table global_cluster_ops cluster_inv bm_bits
proof (unfold_locales, goal_cases)
  case (1 bm n)
  then show ?case by (rule cluster_laws(1))
next
  case (2 bm n)
  then show ?case using cluster_laws(2) [of bm n] by blast
next
  case (3 bm n)
  then show ?case by (rule cluster_laws(3))
next
  case (4 bm)
  then show ?case using bm_bits_bounded [of bm] by (simp add: cluster_inv_def bitmap_ok_def)
next
  case (5 bm k)
  then show ?case by (simp add: cluster_inv_def count_update)
next
  case (6 bm n)
  then show ?case by (rule cluster_laws(2))
qed

lemma block_laws:
  assumes inv: "block_inv bm" and n: "n < b_total_bits bm"
  shows "\<exists>f bm'. op_set_bit (global_block_ops junk) = Some f \<and> f bm n = Some (Inr (n \<in> bm_bits bm, bm')) \<and> block_inv bm' \<and>
      bm_bits bm' = insert n (bm_bits bm) \<and> b_total_bits bm' = b_total_bits bm \<and> b_set_bits bm' = b_set_bits bm"
    and "\<exists>f bm'. op_clear_bit (global_block_ops junk) = Some f \<and>
      f bm n = Some (Inr (if n \<in> bm_covered bm then n \<in> bm_bits bm else junk, bm')) \<and> block_inv bm' \<and>
      bm_bits bm' = bm_bits bm - {n} \<and> b_total_bits bm' = b_total_bits bm \<and> b_set_bits bm' = b_set_bits bm"
    and "\<exists>f. op_test_bit (global_block_ops junk) = Some f \<and> f bm n = Some (Inr (n \<in> bm_bits bm))"
proof -
  have ok: "bitmap_ok bm" and small: "b_total_bits bm + 7 \<le> INT_MAX" using inv by (auto simp: block_inv_def)
  show "\<exists>f bm'. op_set_bit (global_block_ops junk) = Some f \<and> f bm n = Some (Inr (n \<in> bm_bits bm, bm')) \<and> block_inv bm' \<and>
      bm_bits bm' = insert n (bm_bits bm) \<and> b_total_bits bm' = b_total_bits bm \<and> b_set_bits bm' = b_set_bits bm"
    using set_holes_ok [OF ok n small, of no_hooks] inv
    by (auto simp: global_block_ops_def bit_result_def block_inv_def)
  show "\<exists>f bm'. op_clear_bit (global_block_ops junk) = Some f \<and>
      f bm n = Some (Inr (if n \<in> bm_covered bm then n \<in> bm_bits bm else junk, bm')) \<and> block_inv bm' \<and>
      bm_bits bm' = bm_bits bm - {n} \<and> b_total_bits bm' = b_total_bits bm \<and> b_set_bits bm' = b_set_bits bm"
    using clear_holes_ok [OF ok n small, of junk no_hooks] inv unfolding bit_result_def
    by (elim exE conjE) (simp add: global_block_ops_def block_inv_def)
  show "\<exists>f. op_test_bit (global_block_ops junk) = Some f \<and> f bm n = Some (Inr (n \<in> bm_bits bm))"
    using test_holes_ok [OF ok n] by (simp add: global_block_ops_def)
qed

text \<open>
  The table with holes: the bits, whatever the variable holds that \<open>ocfs2_bitmap_clear_holes\<close> leaves
  unset; and, when that is 0, also the old values.
\<close>

interpretation block_bits: bitmap_bits "global_block_ops junk" block_inv bm_bits for junk
proof (unfold_locales, goal_cases)
  case (1 bm n)
  then show ?case by (rule block_laws(1))
next
  case (2 bm n)
  then show ?case using block_laws(2) [of bm n junk] by blast
next
  case (3 bm n)
  then show ?case by (rule block_laws(3))
next
  case (4 bm)
  then show ?case using bm_bits_bounded [of bm] by (simp add: block_inv_def bitmap_ok_def)
next
  case (5 bm k)
  then show ?case by (simp add: block_inv_def count_update)
qed

interpretation block: bitmap_table "global_block_ops False" block_inv bm_bits
proof
  fix bm :: "'p ocfs2_bitmap" and n
  assume inv: "block_inv bm" and n: "n < b_total_bits bm"
  have "(if n \<in> bm_covered bm then n \<in> bm_bits bm else False) \<longleftrightarrow> n \<in> bm_bits bm"
    using bits_covered by (auto simp: bm_covered_def bm_bits_def)
  with block_laws(2) [OF inv n, of False] show "\<exists>f bm'. op_clear_bit (global_block_ops False) = Some f \<and>
      f bm n = Some (Inr (n \<in> bm_bits bm, bm')) \<and> block_inv bm' \<and>
      bm_bits bm' = bm_bits bm - {n} \<and> b_total_bits bm' = b_total_bits bm \<and> b_set_bits bm' = b_set_bits bm"
    by simp
qed

text \<open>A small bitmap for the examples: four bits, of which 0 and 2 are set.\<close>

definition sample_bitmap :: "unit ocfs2_bitmap" where
  "sample_bitmap = \<lparr>b_set_bits = 2, b_total_bits = 4, b_description = ''sample'',
     b_regions = Node RB_BLACK \<lparr>br_start_bit = 0, br_total_bits = 4, br_bytes = 1, br_set_bits = 2, br_bitmap = [5]\<rparr>
                   Leaf Leaf, b_private = ()\<rparr>"

lemma sample_bits: "i < 4 \<Longrightarrow> buf_bit [5] i \<longleftrightarrow> i = 0 \<or> i = 2"
proof -
  assume "i < 4"
  then consider "i = 0" | "i = 1" | "i = 2" | "i = 3" by linarith
  then show ?thesis by cases (simp_all add: buf_bit_def bit_iff_odd_drop_bit drop_bit_eq_div)
qed

lemma sample_padding: "4 \<le> i \<Longrightarrow> i < 8 \<Longrightarrow> \<not> buf_bit [5] i"
proof -
  assume "4 \<le> i" "i < 8"
  then consider "i = 4" | "i = 5" | "i = 6" | "i = 7" by linarith
  then show ?thesis by cases (simp_all add: buf_bit_def bit_iff_odd_drop_bit drop_bit_eq_div)
qed

lemma sample_bitmap_ok: "bitmap_ok sample_bitmap"
proof -
  have "{i. i < 4 \<and> buf_bit [5] i} = {0, 2}" using sample_bits by auto
  then show ?thesis
    by (simp add: bitmap_ok_def sample_bitmap_def rb_tree_def regions_ok_simps region_ok_def padded_def sample_padding
        region_end_def INT_MAX_def)
qed

lemma sample_bitmap_bits: "bm_bits sample_bitmap = {0, 2}" "bm_covered sample_bitmap = {..<4}"
  using sample_bits
  by (auto simp: bm_bits_def bm_covered_def sample_bitmap_def region_bits_def region_range_def region_end_def)

section \<open>Properties\<close>

text \<open>
  C5.  A new cluster bitmap and any sequence of \<open>ocfs2_bitmap_set\<close> and \<open>ocfs2_bitmap_clear\<close> calls:
  no call faults, afterwards \<open>ocfs2_bitmap_test\<close> answers membership in the set of numbers that the
  sequence describes, for every bit below \<open>b_total_bits\<close>, and \<open>ocfs2_bitmap_get_set_bits\<close> is its
  size.  The sequence may name bits that are out of range; those calls change nothing.  The number of clusters, rounded up to
  the size of a cluster, fits an \<open>int\<close>, so that the bitmap is one region.
\<close>

theorem cluster_bitmap_is_a_set:
  assumes "0 < clusters" and "clusters \<le> INT_MAX - (clustersize - 1)" and "8 \<le> clustersize"
  shows "\<exists>bm0 bm. ocfs2_cluster_bitmap_new clusters clustersize desc = Some (Inr bm0) \<and>
    run_calls global_cluster_ops cs bm0 = Some bm \<and>
    (\<forall>n. ocfs2_bitmap_test global_cluster_ops bm n =
       Some (if n < clusters then Inr (n \<in> fold (call_spec clusters) cs {}) else Inl OCFS2_ET_INVALID_BIT)) \<and>
    ocfs2_bitmap_get_set_bits bm = card (fold (call_spec clusters) cs {})"
proof -
  from cluster_bitmap_new_ok [OF assms, of desc] obtain bm0 where bm0:
    "ocfs2_cluster_bitmap_new clusters clustersize desc = Some (Inr bm0)" "bitmap_ok bm0" "bm_bits bm0 = {}"
    "bm_covered bm0 = {..<clusters}" "b_total_bits bm0 = clusters" "b_set_bits bm0 = 0" by blast
  then have "cluster_inv bm0" "b_set_bits bm0 = card (bm_bits bm0)" by (simp_all add: cluster_inv_def)
  from cluster.run_calls_refines [OF this, of cs] bm0 obtain bm where bm: "run_calls global_cluster_ops cs bm0 = Some bm"
    "cluster_inv bm" "bm_bits bm = fold (call_spec clusters) cs {}" "b_total_bits bm = clusters"
    "b_set_bits bm = card (bm_bits bm)" by auto
  have "ocfs2_bitmap_test global_cluster_ops bm n =
       Some (if n < clusters then Inr (n \<in> fold (call_spec clusters) cs {}) else Inl OCFS2_ET_INVALID_BIT)" for n
    using cluster.test_view [OF bm(2), of n] bm(3,4) by (simp add: ocfs2_bitmap_test_def)
  with bm0(1) bm show ?thesis by (auto simp: ocfs2_bitmap_get_set_bits_def)
qed

theorem cluster_bitmap_is_a_set_witness:
  "\<exists>bm0 bm. ocfs2_cluster_bitmap_new 20 4096 None = Some (Inr bm0) \<and>
    run_calls global_cluster_ops [Set_bit 3, Set_bit 17, Clear_bit 3] bm0 = Some bm \<and>
    (\<forall>n. ocfs2_bitmap_test global_cluster_ops bm n =
       Some (if n < 20 then Inr (n \<in> fold (call_spec 20) [Set_bit 3, Set_bit 17, Clear_bit 3] {})
             else Inl OCFS2_ET_INVALID_BIT)) \<and>
    ocfs2_bitmap_get_set_bits bm = card (fold (call_spec 20) [Set_bit 3, Set_bit 17, Clear_bit 3] {})"
  by (rule cluster_bitmap_is_a_set) (simp_all add: INT_MAX_def)

text \<open>
  A sequence of calls on a block bitmap, each with what the variable holds that \<open>ocfs2_bitmap_clear_holes\<close>
  leaves unset.
\<close>

fun run_block_calls :: "(bool \<times> bit_call) list \<Rightarrow> 'p ocfs2_bitmap \<Rightarrow> 'p ocfs2_bitmap option" where
  "run_block_calls [] bm = Some bm"
| "run_block_calls ((junk, c) # cs) bm = do { bm' \<leftarrow> call (global_block_ops junk) c bm; run_block_calls cs bm' }"

fun bit_of :: "bit_call \<Rightarrow> nat" where
  "bit_of (Set_bit n) = n"
| "bit_of (Clear_bit n) = n"

text \<open>
  The clear calls that decrement the count by mistake: those of a bit that no call named before (the bits \<open>T\<close>), when
  the variable is not 0.
\<close>

fun miscount :: "nat \<Rightarrow> nat set \<Rightarrow> bool \<times> bit_call \<Rightarrow> bool" where
  "miscount blocks T (junk, Set_bit n) = False"
| "miscount blocks T (junk, Clear_bit n) = (junk \<and> n < blocks \<and> n \<notin> T)"

fun miscounts :: "nat \<Rightarrow> nat set \<Rightarrow> (bool \<times> bit_call) list \<Rightarrow> nat" where
  "miscounts blocks T [] = 0"
| "miscounts blocks T (c # cs) = of_bool (miscount blocks T c) + miscounts blocks (insert (bit_of (snd c)) T) cs"

lemma add64_int: "int (add64 a b) = (int a + int b) mod 2 ^ 64"
  by (simp add: add64_def zmod_int)

lemma sub64_int: "b < 2 ^ 64 \<Longrightarrow> int (sub64 a b) = (int a - int b) mod 2 ^ 64"
proof -
  assume "b < 2 ^ 64"
  then have "int (sub64 a b) = (int a + 2 ^ 64 - int b) mod 2 ^ 64" by (simp add: sub64_def zmod_int of_nat_diff)
  also have "int a + 2 ^ 64 - int b = int a - int b + 2 ^ 64" by simp
  finally show ?thesis by (simp only: mod_add_self2)
qed

definition drift :: "'p ocfs2_bitmap \<Rightarrow> int" where
  "drift bm = int (card (bm_bits bm)) - int (b_set_bits bm)"

lemma block_call_ok:
  assumes inv: "block_inv bm"
  shows "\<exists>bm'. call (global_block_ops junk) c bm = Some bm' \<and> block_inv bm' \<and> b_total_bits bm' = b_total_bits bm \<and>
    bm_bits bm' = call_spec (b_total_bits bm) c (bm_bits bm) \<and>
    bm_covered bm' = bm_covered bm \<union> ({bit_of c} \<inter> {..<b_total_bits bm}) \<and>
    drift bm' mod 2 ^ 64 = (drift bm + of_bool (miscount (b_total_bits bm) (bm_covered bm) (junk, c))) mod 2 ^ 64 \<and>
    (b_set_bits bm < 2 ^ 64 \<longrightarrow> b_set_bits bm' < 2 ^ 64)"
proof -
  have ok: "bitmap_ok bm" and small: "b_total_bits bm + 7 \<le> INT_MAX" using inv by (auto simp: block_inv_def)
  have fin: "finite (bm_bits bm)" using bm_bits_bounded [OF ok] finite_subset by blast
  have lt: "add64 a 1 < 2 ^ 64" "sub64 a 1 < 2 ^ 64" for a by (simp_all add: add64_def sub64_def)
  have cov: "bm_bits bm \<subseteq> bm_covered bm" using bits_covered by (auto simp: bm_bits_def bm_covered_def)
  show ?thesis
  proof (cases c)
    case (Set_bit n)
    show ?thesis
    proof (cases "n < b_total_bits bm")
      case True
      then obtain bm' where bm': "ocfs2_bitmap_set_holes no_hooks bm n = Some (Inr (n \<in> bm_bits bm, bm'))" "bitmap_ok bm'"
        "bm_bits bm' = insert n (bm_bits bm)" "bm_covered bm' = insert n (bm_covered bm)" "b_total_bits bm' = b_total_bits bm" "b_set_bits bm' = b_set_bits bm"
        using set_holes_ok [OF ok True small, of no_hooks] unfolding bit_result_def by blast
      have "drift (bm'\<lparr>b_set_bits := add64 (b_set_bits bm) 1\<rparr>) mod 2 ^ 64 = drift bm mod 2 ^ 64" if "n \<notin> bm_bits bm"
        using that fin bm'(3) by (simp add: drift_def count_update add64_int mod_diff_right_eq)
      moreover have "drift bm' = drift bm" if "n \<in> bm_bits bm" using that bm'(3,6) by (simp add: drift_def insert_absorb)
      ultimately show ?thesis using bm' True Set_bit small lt
        by (auto simp: ocfs2_bitmap_set_def global_block_ops_def block_inv_def count_update)
    qed (use Set_bit inv in \<open>auto simp: ocfs2_bitmap_set_def\<close>)
  next
    case (Clear_bit n)
    show ?thesis
    proof (cases "n < b_total_bits bm")
      case True
      define old where "old = (if n \<in> bm_covered bm then n \<in> bm_bits bm else junk)"
      obtain bm' where bm': "ocfs2_bitmap_clear_holes junk no_hooks bm n = Some (Inr (old, bm'))" "bitmap_ok bm'"
        "bm_bits bm' = bm_bits bm - {n}" "bm_covered bm' = insert n (bm_covered bm)" "b_total_bits bm' = b_total_bits bm" "b_set_bits bm' = b_set_bits bm"
        using clear_holes_ok [OF ok True small, of junk no_hooks] unfolding bit_result_def old_def by blast
      have card: "int (card (bm_bits bm - {n})) = int (card (bm_bits bm)) - of_bool (n \<in> bm_bits bm)"
        using fin card_Suc_Diff1 [OF fin, of n] by auto
      have "drift (bm'\<lparr>b_set_bits := sub64 (b_set_bits bm) 1\<rparr>) mod 2 ^ 64 = (drift bm + 1 - of_bool (n \<in> bm_bits bm)) mod 2 ^ 64"
      proof -
        have "drift (bm'\<lparr>b_set_bits := sub64 (b_set_bits bm) 1\<rparr>) = int (card (bm_bits bm)) - of_bool (n \<in> bm_bits bm) - int (sub64 (b_set_bits bm) 1)"
          using card bm'(3) by (simp add: drift_def count_update)
        also have "\<dots> mod 2 ^ 64 = (int (card (bm_bits bm)) - of_bool (n \<in> bm_bits bm) - (int (b_set_bits bm) - 1)) mod 2 ^ 64"
          using sub64_int [of 1 "b_set_bits bm"] by (simp add: mod_diff_right_eq)
        also have "int (card (bm_bits bm)) - of_bool (n \<in> bm_bits bm) - (int (b_set_bits bm) - 1) = drift bm + 1 - of_bool (n \<in> bm_bits bm)"
          by (simp add: drift_def)
        finally show ?thesis .
      qed
      moreover have "drift bm' = drift bm - of_bool (n \<in> bm_bits bm)" using card bm'(3,6) by (simp add: drift_def)
      moreover have "n \<in> bm_bits bm \<Longrightarrow> n \<in> bm_covered bm" using cov by blast
      ultimately show ?thesis using bm' True Clear_bit small lt
        by (auto simp: ocfs2_bitmap_clear_def global_block_ops_def block_inv_def count_update old_def)
    next
      case False
      then have "bm_bits bm - {n} = bm_bits bm" using bm_bits_bounded [OF ok] by auto
      then show ?thesis using False Clear_bit inv by (auto simp: ocfs2_bitmap_clear_def)
    qed
  qed
qed

lemma run_block_calls_ok:
  assumes "block_inv bm" and "bm_covered bm = T \<inter> {..<b_total_bits bm}"
  shows "\<exists>bm'. run_block_calls cs bm = Some bm' \<and> block_inv bm' \<and> b_total_bits bm' = b_total_bits bm \<and>
    bm_bits bm' = fold (call_spec (b_total_bits bm)) (map snd cs) (bm_bits bm) \<and>
    drift bm' mod 2 ^ 64 = (drift bm + int (miscounts (b_total_bits bm) T cs)) mod 2 ^ 64 \<and> (b_set_bits bm < 2 ^ 64 \<longrightarrow> b_set_bits bm' < 2 ^ 64)"
  using assms
proof (induction cs arbitrary: bm T)
  case (Cons jc cs)
  obtain junk c where jc: "jc = (junk, c)" by fastforce
  obtain bm1 where bm1: "call (global_block_ops junk) c bm = Some bm1" "block_inv bm1" "b_total_bits bm1 = b_total_bits bm"
    "bm_bits bm1 = call_spec (b_total_bits bm) c (bm_bits bm)" "bm_covered bm1 = bm_covered bm \<union> ({bit_of c} \<inter> {..<b_total_bits bm})"
    "drift bm1 mod 2 ^ 64 = (drift bm + of_bool (miscount (b_total_bits bm) (bm_covered bm) (junk, c))) mod 2 ^ 64"
    "b_set_bits bm < 2 ^ 64 \<Longrightarrow> b_set_bits bm1 < 2 ^ 64"
    using block_call_ok [OF Cons.prems(1), of junk c] by blast
  have "miscount (b_total_bits bm) (bm_covered bm) (junk, c) = miscount (b_total_bits bm) T (junk, c)"
    using Cons.prems(2) by (cases c) auto
  moreover have "bm_covered bm1 = insert (bit_of c) T \<inter> {..<b_total_bits bm1}" using bm1(3,5) Cons.prems(2) by auto
  from Cons.IH [OF bm1(2) this] obtain bm2 where "run_block_calls cs bm1 = Some bm2" "block_inv bm2" "b_total_bits bm2 = b_total_bits bm1"
    "bm_bits bm2 = fold (call_spec (b_total_bits bm1)) (map snd cs) (bm_bits bm1)"
    "drift bm2 mod 2 ^ 64 = (drift bm1 + int (miscounts (b_total_bits bm1) (insert (bit_of c) T) cs)) mod 2 ^ 64"
    "b_set_bits bm1 < 2 ^ 64 \<Longrightarrow> b_set_bits bm2 < 2 ^ 64" by blast
  ultimately show ?case using bm1 jc mod_add_cong [OF bm1(6) refl, of "int (miscounts (b_total_bits bm) (insert (bit_of c) T) cs)"]
    by (auto simp: add.assoc)
qed auto

text \<open>If the variable is always 0, nothing is miscounted.\<close>

lemma miscounts_zero: "\<forall>(junk, c)\<in>set cs. \<not> junk \<Longrightarrow> miscounts blocks T cs = 0"
proof (induction cs arbitrary: T)
  case (Cons jc cs)
  moreover have "\<not> miscount blocks T jc" using Cons.prems by (cases "(blocks, T, jc)" rule: miscount.cases) auto
  ultimately show ?case by simp
qed simp

text \<open>
  C6.  The same for a block bitmap of at most \<open>INT_MAX - 7\<close> bits, where a set or clear of a bit without memory makes a
  region and merges it with its neighbours.  Whatever the calls are and whatever the variable holds that
  \<open>ocfs2_bitmap_clear_holes\<close> leaves unset: no call faults, the bitmap stands for the set of the set bits, and its
  tree is a red-black tree of disjoint regions in order whose counts are right.  The number of set bits of the whole
  bitmap is right but for the clear calls of bits that no call named before: each of these decrements it (modulo
  \<open>2 ^ 64\<close>) if the variable happens not to be 0.
\<close>

theorem block_bitmap_is_a_set:
  assumes "blocks + 7 \<le> INT_MAX"
  shows "\<exists>bm0 bm. ocfs2_block_bitmap_new blocks desc = Inr bm0 \<and> run_block_calls cs bm0 = Some bm \<and> bitmap_ok bm \<and>
    (\<forall>n junk. ocfs2_bitmap_test (global_block_ops junk) bm n =
       Some (if n < blocks then Inr (n \<in> fold (call_spec blocks) (map snd cs) {}) else Inl OCFS2_ET_INVALID_BIT)) \<and>
    int (ocfs2_bitmap_get_set_bits bm) = (int (card (fold (call_spec blocks) (map snd cs) {})) - int (miscounts blocks {} cs)) mod 2 ^ 64"
proof -
  obtain bm0 where bm0: "ocfs2_block_bitmap_new blocks desc = Inr bm0" "b_total_bits bm0 = blocks"
    "b_set_bits bm0 = 0" "b_regions bm0 = Leaf"
    by (simp add: ocfs2_block_bitmap_new_def ocfs2_bitmap_new_def global_block_ops_def)
  then have inv: "block_inv bm0" "bm_covered bm0 = {} \<inter> {..<b_total_bits bm0}" "bm_bits bm0 = {}" "drift bm0 = 0"
    using assms by (simp_all add: block_inv_def bitmap_ok_def bm_bits_def bm_covered_def drift_def rb_tree_def INT_MAX_def)
  from run_block_calls_ok [OF inv(1,2), of cs] bm0 inv(3,4) obtain bm where
    bm: "run_block_calls cs bm0 = Some bm" "block_inv bm" "b_total_bits bm = blocks" "bm_bits bm = fold (call_spec blocks) (map snd cs) {}"
    "drift bm mod 2 ^ 64 = int (miscounts blocks {} cs) mod 2 ^ 64" "b_set_bits bm < 2 ^ 64" by auto
  have "ocfs2_bitmap_test (global_block_ops junk) bm n =
       Some (if n < blocks then Inr (n \<in> fold (call_spec blocks) (map snd cs) {}) else Inl OCFS2_ET_INVALID_BIT)" for n junk
    using block_bits.test_view [OF bm(2), of n junk] bm(3,4) by (simp add: ocfs2_bitmap_test_def)
  moreover have "int (b_set_bits bm) = int (card (bm_bits bm)) - drift bm" by (simp add: drift_def)
  then have "int (b_set_bits bm) mod 2 ^ 64 = (int (card (bm_bits bm)) - int (miscounts blocks {} cs)) mod 2 ^ 64"
    using mod_diff_cong [OF refl bm(5)] by metis
  then have "int (b_set_bits bm) = (int (card (bm_bits bm)) - int (miscounts blocks {} cs)) mod 2 ^ 64" using bm(6) by simp
  ultimately show ?thesis using bm0(1) bm by (auto simp: ocfs2_bitmap_get_set_bits_def block_inv_def)
qed

theorem block_bitmap_is_a_set_witness:
  "\<exists>bm0 bm. ocfs2_block_bitmap_new 64 None = Inr bm0 \<and>
    run_block_calls [(True, Set_bit 5), (False, Set_bit 6), (True, Clear_bit 6), (True, Clear_bit 9)] bm0 = Some bm \<and>
    ocfs2_bitmap_test (global_block_ops True) bm 5 = Some (Inr True) \<and> ocfs2_bitmap_test (global_block_ops True) bm 9 = Some (Inr False) \<and>
    ocfs2_bitmap_get_set_bits bm = 0"
proof -
  have "64 + 7 \<le> INT_MAX" by (simp add: INT_MAX_def)
  from block_bitmap_is_a_set [OF this, of None "[(True, Set_bit 5), (False, Set_bit 6), (True, Clear_bit 6), (True, Clear_bit 9)]"]
  show ?thesis by (elim exE conjE, intro exI conjI) (assumption | simp)+
qed

lemma find_next_set_from:
  assumes "bitmap_ok bm" and "start < b_total_bits bm" and "ops = global_cluster_ops \<or> ops = global_block_ops junk"
  shows "\<exists>r. ocfs2_bitmap_find_next_set ops bm start =
      Some (case r of None \<Rightarrow> Inl OCFS2_ET_BIT_NOT_FOUND | Some n \<Rightarrow> Inr n) \<and> first_from (bm_bits bm) start r"
proof -
  have "ocfs2_bitmap_find_next_set ops bm start = search_from ocfs2_find_next_bit_set start (start_node bm start)"
    using assms(2,3) by (auto simp: ocfs2_bitmap_find_next_set_def global_cluster_ops_def global_block_ops_def
        ocfs2_bitmap_find_next_set_holes_def ocfs2_bitmap_find_next_set_generic_def)
  then show ?thesis
    using search_from_ok [where P = buf_bit, OF assms(1,2) find_next_set_law] by (simp add: selected_set bm_bits_def)
qed

text \<open>
  \<open>ocfs2_bitmap_find_next_set\<close> returns the least set bit that is not below \<open>start\<close>, and
  \<open>OCFS2_ET_BIT_NOT_FOUND\<close> exactly when there is none, for both kinds of bitmap.
\<close>

lemma find_next_set_least:
  assumes "bitmap_ok bm" and "start < b_total_bits bm" and "ops = global_cluster_ops \<or> ops = global_block_ops junk"
  shows "ocfs2_bitmap_find_next_set ops bm start =
    Some (if \<exists>n\<in>bm_bits bm. start \<le> n then Inr (LEAST n. n \<in> bm_bits bm \<and> start \<le> n)
          else Inl OCFS2_ET_BIT_NOT_FOUND)"
proof -
  obtain r where r: "ocfs2_bitmap_find_next_set ops bm start =
      Some (case r of None \<Rightarrow> Inl OCFS2_ET_BIT_NOT_FOUND | Some n \<Rightarrow> Inr n)" "first_from (bm_bits bm) start r"
    using find_next_set_from [OF assms] by blast
  moreover have "(LEAST n. n \<in> bm_bits bm \<and> start \<le> n) = n" if "r = Some n" for n
    using r(2) that by (intro Least_equality) (auto simp: first_from_def)
  ultimately show ?thesis by (cases r) (auto simp: first_from_def)
qed

text \<open>
  \<open>ocfs2_bitmap_find_next_clear\<close> on a cluster bitmap returns the least clear bit not below \<open>start\<close>.
\<close>

lemma find_next_clear_cluster_least:
  assumes "bitmap_ok bm" and "bm_covered bm = {..<b_total_bits bm}" and "start < b_total_bits bm"
  shows "ocfs2_bitmap_find_next_clear global_cluster_ops bm start =
    Some (if \<exists>n<b_total_bits bm. start \<le> n \<and> n \<notin> bm_bits bm
          then Inr (LEAST n. start \<le> n \<and> n \<notin> bm_bits bm) else Inl OCFS2_ET_BIT_NOT_FOUND)"
proof -
  have sel: "selected (\<lambda>buf i. \<not> buf_bit buf i) (inorder (b_regions bm)) = {..<b_total_bits bm} - bm_bits bm"
    using selected_clear assms(1,2) by (auto simp: bitmap_ok_def bm_covered_def bm_bits_def)
  obtain r where r: "search_from ocfs2_find_next_bit_clear start (start_node bm start) =
      Some (case r of None \<Rightarrow> Inl OCFS2_ET_BIT_NOT_FOUND | Some n \<Rightarrow> Inr n)"
      "first_from ({..<b_total_bits bm} - bm_bits bm) start r"
    using search_from_ok [where P = "\<lambda>buf i. \<not> buf_bit buf i", OF assms(1,3) find_next_clear_law]
    unfolding sel by blast
  have "ocfs2_bitmap_find_next_clear global_cluster_ops bm start =
      search_from ocfs2_find_next_bit_clear start (start_node bm start)"
    using assms(3) by (simp add: ocfs2_bitmap_find_next_clear_def global_cluster_ops_def
        ocfs2_bitmap_find_next_clear_generic_def)
  moreover have "(LEAST n. start \<le> n \<and> n \<notin> bm_bits bm) = n" if "r = Some n" for n
  proof (rule Least_equality)
    show "start \<le> n \<and> n \<notin> bm_bits bm" using r(2) that by (auto simp: first_from_def)
    show "n \<le> m" if "start \<le> m \<and> m \<notin> bm_bits bm" for m
      using r(2) \<open>r = Some n\<close> that by (cases "m < b_total_bits bm") (auto simp: first_from_def)
  qed
  moreover have "(\<exists>n<b_total_bits bm. start \<le> n \<and> n \<notin> bm_bits bm) \<longleftrightarrow> r \<noteq> None"
  proof (cases r)
    case None
    with r(2) have "\<forall>n\<in>{..<b_total_bits bm} - bm_bits bm. n < start" by (simp add: first_from_def)
    with None show ?thesis by (auto simp: not_le [symmetric])
  next
    case (Some n)
    with r(2) show ?thesis by (auto simp: first_from_def)
  qed
  ultimately show ?thesis using r(1) by (cases r) auto
qed

text \<open>
  C9.  \<open>ocfs2_bitmap_alloc_range\<close> on a cluster bitmap: it never aborts; an allocation returns a run
  of at least \<open>min\<close> and at most \<open>len\<close> bits that were all clear and are set afterwards, no other
  bit changes and the bitmap stays well-formed; it fails with \<open>OCFS2_ET_BIT_NOT_FOUND\<close> only if no
  region has a clear run of \<open>min\<close> bits.
\<close>

theorem alloc_range_allocates_clear_run:
  assumes "bitmap_ok bm" and "0 < min_len" and "min_len \<le> len" and "len < b_total_bits bm"
  shows "(\<exists>first n bm'. ocfs2_bitmap_alloc_range global_cluster_ops bm min_len len = Some (Inr (first, n, bm')) \<and>
        min_len \<le> n \<and> n \<le> len \<and> {first..<first + n} \<subseteq> bm_covered bm - bm_bits bm \<and>
        bm_bits bm' = bm_bits bm \<union> {first..<first + n} \<and> bm_covered bm' = bm_covered bm \<and> bitmap_ok bm') \<or>
    ocfs2_bitmap_alloc_range global_cluster_ops bm min_len len = Some (Inl OCFS2_ET_BIT_NOT_FOUND) \<and>
      (\<forall>br\<in>set (inorder (b_regions bm)). \<forall>a. br_start_bit br \<le> a \<and> a + min_len \<le> region_end br \<longrightarrow>
         {a..<a + min_len} \<inter> bm_bits bm \<noteq> {})"
  using alloc_range_generic_ok [OF assms(1-3), of no_hooks]
proof (elim disjE exE conjE)
  assume none: "ocfs2_bitmap_alloc_range_generic no_hooks bm min_len len = Some (Inl OCFS2_ET_BIT_NOT_FOUND)"
    "\<forall>br\<in>set (inorder (b_regions bm)). \<forall>a k. clear_run_at br a k \<longrightarrow> k < min_len"
  have "{a..<a + min_len} \<inter> bm_bits bm \<noteq> {}"
    if br: "br \<in> set (inorder (b_regions bm))" and a: "br_start_bit br \<le> a" "a + min_len \<le> region_end br" for br a
  proof
    assume e: "{a..<a + min_len} \<inter> bm_bits bm = {}"
    have "\<not> buf_bit (br_bitmap br) i" if "a - br_start_bit br \<le> i" "i < a - br_start_bit br + min_len" for i
    proof
      assume "buf_bit (br_bitmap br) i"
      with that a have "br_start_bit br + i \<in> region_bits br" "br_start_bit br + i \<in> {a..<a + min_len}"
        by (auto simp: region_bits_def region_end_def)
      with br e show False by (auto simp: bm_bits_def bits_def)
    qed
    with assms(2) a have "clear_run_at br (a - br_start_bit br) min_len" by (simp add: clear_run_at_def region_end_def)
    with none(2) br show False by blast
  qed
  with none(1) assms show ?thesis by (simp add: ocfs2_bitmap_alloc_range_def global_cluster_ops_def)
next
  fix first n bm'
  assume *: "ocfs2_bitmap_alloc_range_generic no_hooks bm min_len len = Some (Inr (first, n, bm'))" "min_len \<le> n" "n \<le> len"
    "{first..<first + n} \<subseteq> bm_covered bm - bm_bits bm" "bm_bits bm' = bm_bits bm \<union> {first..<first + n}"
    "bm_covered bm' = bm_covered bm" "bitmap_ok bm'"
  then have "ocfs2_bitmap_alloc_range global_cluster_ops bm min_len len = Some (Inr (first, n, bm'))"
    using assms by (simp add: ocfs2_bitmap_alloc_range_def global_cluster_ops_def)
  with *(2-) show ?thesis by blast
qed

theorem alloc_range_allocates_clear_run_witness:
  "(\<exists>first n bm'. ocfs2_bitmap_alloc_range global_cluster_ops sample_bitmap 1 2 = Some (Inr (first, n, bm')) \<and>
        1 \<le> n \<and> n \<le> 2 \<and> {first..<first + n} \<subseteq> bm_covered sample_bitmap - bm_bits sample_bitmap \<and>
        bm_bits bm' = bm_bits sample_bitmap \<union> {first..<first + n} \<and> bm_covered bm' = bm_covered sample_bitmap \<and> bitmap_ok bm') \<or>
    ocfs2_bitmap_alloc_range global_cluster_ops sample_bitmap 1 2 = Some (Inl OCFS2_ET_BIT_NOT_FOUND) \<and>
      (\<forall>br\<in>set (inorder (b_regions sample_bitmap)). \<forall>a. br_start_bit br \<le> a \<and> a + 1 \<le> region_end br \<longrightarrow>
         {a..<a + 1} \<inter> bm_bits sample_bitmap \<noteq> {})"
  by (rule alloc_range_allocates_clear_run) (simp_all add: sample_bitmap_ok, simp add: sample_bitmap_def)

text \<open>
  A search for a clear bit in a block bitmap: a bit it returns is the first one not below
  \<open>start\<close> that is not set, whether it has memory or lies in a hole.  It reports
  \<open>OCFS2_ET_BIT_NOT_FOUND\<close> only when every bit from \<open>start\<close> to the end of the last region is set
  (bits beyond the last region may still be clear then).
\<close>

lemma find_next_clear_block_first:
  assumes "bitmap_ok bm" and "start < b_total_bits bm"
  shows "(\<exists>n. ocfs2_bitmap_find_next_clear (global_block_ops junk) bm start = Some (Inr n) \<and>
      start \<le> n \<and> n \<notin> bm_bits bm \<and> {start..<n} \<subseteq> bm_bits bm) \<or>
    ocfs2_bitmap_find_next_clear (global_block_ops junk) bm start = Some (Inl OCFS2_ET_BIT_NOT_FOUND) \<and>
      inorder (b_regions bm) \<noteq> [] \<and> {start..<region_end (last (inorder (b_regions bm)))} \<subseteq> bm_bits bm"
proof -
  obtain r where r: "ocfs2_bitmap_find_next_clear_holes bm start =
      Some (case r of None \<Rightarrow> Inl OCFS2_ET_BIT_NOT_FOUND | Some n \<Rightarrow> Inr n)"
    "first_unset (bm_bits bm) start
       (if start_node bm start = None then start else region_end (last (inorder (b_regions bm)))) r"
    "start_node bm start = None \<longrightarrow> r \<noteq> None"
    using find_next_clear_holes_ok [OF assms] by metis
  have "ocfs2_bitmap_find_next_clear (global_block_ops junk) bm start = ocfs2_bitmap_find_next_clear_holes bm start"
    using assms(2) by (simp add: ocfs2_bitmap_find_next_clear_def global_block_ops_def)
  moreover have "inorder (b_regions bm) \<noteq> []" if "r = None"
    using r(3) that start_node_ok(2) [OF assms] by fastforce
  ultimately show ?thesis using r by (cases r) (auto simp: first_unset_def)
qed

text \<open>
  \<open>ocfs2_bitmap_clear_range\<close> on a range inside one region clears exactly that range.
\<close>

lemma clear_range_clears:
  assumes "bitmap_ok bm" and "br \<in> set (inorder (b_regions bm))" and "0 < len"
    and "br_start_bit br \<le> first" and "first + len \<le> region_end br"
  shows "\<exists>bm'. ocfs2_bitmap_clear_range global_cluster_ops bm len first = Some (Inr bm') \<and> bitmap_ok bm' \<and>
    bm_bits bm' = bm_bits bm - {first..<first + len} \<and> bm_covered bm' = bm_covered bm"
proof -
  have le: "region_end br \<le> b_total_bits bm" and N: "b_total_bits bm < 2 ^ 64"
    using assms(1,2) by (auto simp: bitmap_ok_def regions_ok_def)
  have "{first..<first + len} \<subseteq> region_range br" using assms(4,5) by (auto simp: region_range_def)
  moreover have "first + len \<le> b_total_bits bm" using le assms(5) by simp
  ultimately have "\<exists>bm'. ocfs2_bitmap_clear_range_generic no_hooks bm len first = Some (Inr bm') \<and> bitmap_ok bm' \<and>
      bm_bits bm' = bm_bits bm - {first..<first + len} \<and> bm_covered bm' = bm_covered bm \<and> b_total_bits bm' = b_total_bits bm"
    using clear_range_generic_ok [OF assms(1,2) _ assms(3)] by blast
  moreover have "\<not> add64 len first > b_total_bits bm" using le N assms(5) by (simp add: add64_eq add.commute)
  ultimately show ?thesis using assms(3) by (auto simp: ocfs2_bitmap_clear_range_def global_cluster_ops_def)
qed

text \<open>
  C12.  \<open>ocfs2_bitmap_free\<close> takes the regions out of the tree one by one; it frees each region of the
  bitmap exactly once, in order, and ends with an empty tree.
\<close>

theorem bitmap_free_frees_all:
  assumes "bitmap_ok bm"
  shows "ocfs2_bitmap_free global_cluster_ops bm = Some (inorder (b_regions bm)) \<and> distinct (inorder (b_regions bm))"
proof
  show "ocfs2_bitmap_free global_cluster_ops bm = Some (inorder (b_regions bm))"
    using assms by (simp add: rb_free_all_ok ocfs2_bitmap_free_def global_cluster_ops_def bitmap_ok_def)
  let ?rs = "inorder (b_regions bm)"
  have "sorted_wrt (\<lambda>a b. region_end a \<le> br_start_bit b) ?rs" and "\<forall>br\<in>set ?rs. region_ok br"
    using assms by (auto simp: bitmap_ok_def regions_ok_def)
  then have "sorted_wrt (<) (map br_start_bit ?rs)"
    unfolding sorted_wrt_map using region_start_end by (auto elim!: sorted_wrt_mono_rel [rotated] intro: less_le_trans)
  then show "distinct ?rs" by (simp add: strict_sorted_iff distinct_map)
qed

theorem bitmap_free_frees_all_witness:
  "ocfs2_bitmap_free global_cluster_ops sample_bitmap = Some (inorder (b_regions sample_bitmap)) \<and>
   distinct (inorder (b_regions sample_bitmap))"
  by (rule bitmap_free_frees_all [OF sample_bitmap_ok])

section \<open>What the code does not do\<close>

text \<open>\<open>ocfs2_bitmap_alloc_range\<close> and \<open>ocfs2_bitmap_clear_range\<close> leave \<open>b_set_bits\<close> as it was.\<close>

lemma alloc_range_count_unchanged:
  "ocfs2_bitmap_alloc_range global_cluster_ops bm min_len len = Some (Inr (first, n, bm')) \<Longrightarrow>
   ocfs2_bitmap_get_set_bits bm' = ocfs2_bitmap_get_set_bits bm"
  by (auto simp: ocfs2_bitmap_alloc_range_def global_cluster_ops_def ocfs2_bitmap_get_set_bits_def
      ocfs2_bitmap_alloc_range_generic_def bind_eq_Some_conv split: if_splits option.splits sum.splits)

text \<open>
  When the variable that \<open>ocfs2_bitmap_clear_holes\<close> leaves unset holds something else than 0,
  clearing a bit in a hole, which was not set, decrements the count of set bits.
\<close>

lemma clear_hole_uninitialised:
  assumes "block_inv bm" and "n < b_total_bits bm" and "n \<notin> bm_covered bm"
  shows "\<exists>bm'. ocfs2_bitmap_clear (global_block_ops True) bm n = Some (Inr (True, bm')) \<and> bm_bits bm' = bm_bits bm \<and>
    b_set_bits bm' = sub64 (b_set_bits bm) 1"
proof -
  have "bm_bits bm - {n} = bm_bits bm" using assms(3) bits_covered by (auto simp: bm_bits_def bm_covered_def)
  with clear_holes_ok [of bm n True no_hooks] assms show ?thesis
    by (auto simp: block_inv_def bit_result_def ocfs2_bitmap_clear_def global_block_ops_def count_update)
qed

end
