(* ===== verification/Fsck_Util.thy ===== *)
theory Fsck_Util
  imports Bitmap_Interface
begin

text \<open>
  Parts of \<open>fsck.ocfs2/util.c\<close>: the bitmap wrappers that end the program on an error, the record of
  allocated and of multiply allocated clusters, the byte-wise population count, and the sizing of
  the I/O cache.
\<close>

section \<open>The model\<close>

text \<open>\<open>o2fsck_abort\<close> sends the process a \<open>SIGTERM\<close>; the model returns \<open>None\<close>.\<close>

definition o2fsck_bitmap_set ::
    "'p bitmap_ops \<Rightarrow> 'p ocfs2_bitmap \<Rightarrow> nat \<Rightarrow> (bool \<times> 'p ocfs2_bitmap) option" where
  "o2fsck_bitmap_set ops bm bitno =
     do { r \<leftarrow> ocfs2_bitmap_set ops bm bitno;
          case r of Inl _ \<Rightarrow> None | Inr v \<Rightarrow> Some v }"

definition o2fsck_bitmap_clear ::
    "'p bitmap_ops \<Rightarrow> 'p ocfs2_bitmap \<Rightarrow> nat \<Rightarrow> (bool \<times> 'p ocfs2_bitmap) option" where
  "o2fsck_bitmap_clear ops bm bitno =
     do { r \<leftarrow> ocfs2_bitmap_clear ops bm bitno;
          case r of Inl _ \<Rightarrow> None | Inr v \<Rightarrow> Some v }"

record cluster_state =
  fs_clusters :: nat
  fs_clustersize :: nat
  ost_allocated_clusters :: "unit ocfs2_bitmap"
  ost_duplicate_clusters :: "unit ocfs2_bitmap option"

text \<open>The result of the last \<open>ocfs2_bitmap_set\<close>, on the duplicates, is not looked at.\<close>

definition set_duplicate :: "unit ocfs2_bitmap \<Rightarrow> nat \<Rightarrow> unit ocfs2_bitmap option" where
  "set_duplicate bm cluster =
     map_option (\<lambda>r. case r of Inl _ \<Rightarrow> bm | Inr (_, bm') \<Rightarrow> bm') (ocfs2_bitmap_set global_cluster_ops bm cluster)"

definition o2fsck_mark_cluster_allocated :: "cluster_state \<Rightarrow> nat \<Rightarrow> cluster_state option" where
  "o2fsck_mark_cluster_allocated ost cluster =
     do { (was_set, bm) \<leftarrow> o2fsck_bitmap_set global_cluster_ops (ost_allocated_clusters ost) cluster;
          let ost1 = ost\<lparr>ost_allocated_clusters := bm\<rparr>;
          if \<not> was_set then Some ost1
          else do { dup \<leftarrow> (case ost_duplicate_clusters ost1 of
                              Some d \<Rightarrow> Some d
                            | None \<Rightarrow>
                                do { r \<leftarrow> ocfs2_cluster_bitmap_new (fs_clusters ost1) (fs_clustersize ost1)
                                            (Some ''duplicate clusters'');
                                     case r of Inl _ \<Rightarrow> None | Inr d \<Rightarrow> Some d });
                    dup' \<leftarrow> set_duplicate dup cluster;
                    Some (ost1\<lparr>ost_duplicate_clusters := Some dup'\<rparr>) } }"

text \<open>The cluster number is a \<open>uint32_t\<close> and wraps.\<close>

fun o2fsck_mark_clusters_allocated :: "cluster_state \<Rightarrow> nat \<Rightarrow> nat \<Rightarrow> cluster_state option" where
  "o2fsck_mark_clusters_allocated ost cluster 0 = Some ost"
| "o2fsck_mark_clusters_allocated ost cluster (Suc num) =
     do { ost' \<leftarrow> o2fsck_mark_cluster_allocated ost cluster;
          o2fsck_mark_clusters_allocated ost' ((cluster + 1) mod 2 ^ 32) num }"

definition o2fsck_mark_cluster_unallocated :: "cluster_state \<Rightarrow> nat \<Rightarrow> cluster_state option" where
  "o2fsck_mark_cluster_unallocated ost cluster =
     do { (_, bm) \<leftarrow> o2fsck_bitmap_clear global_cluster_ops (ost_allocated_clusters ost) cluster;
          Some (ost\<lparr>ost_allocated_clusters := bm\<rparr>) }"

definition nibble_count :: "nat list" where
  "nibble_count = [0, 1, 1, 2, 1, 2, 2, 3, 1, 2, 2, 3, 2, 3, 3, 4]"

fun o2fsck_bitcount :: "byte list \<Rightarrow> nat" where
  "o2fsck_bitcount [] = 0"
| "o2fsck_bitcount (b # bytes) =
     nibble_count ! unat (drop_bit 4 b) + nibble_count ! unat (b AND 0xf) + o2fsck_bitcount bytes"

subsection \<open>The I/O cache\<close>

text \<open>
  \<open>o2fsck_init_cache\<close> asks for a cache of \<open>blocks_wanted\<close> blocks and halves the wish until both
  \<open>io_init_cache\<close> and \<open>io_mlock_cache\<close> succeed.  The two calls are parameters: \<open>init n\<close> and \<open>mlock n\<close>
  say whether they succeed for \<open>n\<close> blocks.  The result is \<open>cache_blocks\<close>, unchanged if no wish is met.
\<close>

datatype o2fsck_cache_hint = O2FSCK_CACHE_MODE_FULL | O2FSCK_CACHE_MODE_JOURNAL | O2FSCK_CACHE_MODE_NONE

function cache_loop :: "(nat \<Rightarrow> bool) \<Rightarrow> (nat \<Rightarrow> bool) \<Rightarrow> nat \<Rightarrow> bool \<Rightarrow> nat option" where
  "cache_loop init mlock blocks_wanted leave_room =
     (if blocks_wanted > 0 then
        (if init blocks_wanted \<and> (mlock blocks_wanted \<or> blocks_wanted \<le> 512)
         then (if \<not> leave_room then Some blocks_wanted
               else cache_loop init mlock (blocks_wanted div 2) False)
         else cache_loop init mlock (blocks_wanted div 2) leave_room)
      else None)"
  by pat_completeness auto
termination
  by (relation "measure (\<lambda>(init, mlock, n, leave). n)") auto

declare cache_loop.simps [simp del]

text \<open>
  The journals are taken to have 256 megabytes each.  The number of bytes is computed as an \<open>int\<close>: with eight slots or
  more it overflows, which is undefined.
\<close>

definition journal_blocks :: "nat \<Rightarrow> nat \<Rightarrow> nat option" where
  "journal_blocks max_slots blocksize_bits =
     (let bytes = max_slots * 1024 * 1024 * 256 in
      if bytes > INT_MAX then None else Some ((bytes + 2 ^ blocksize_bits - 1) div 2 ^ blocksize_bits))"

definition o2fsck_init_cache ::
    "(nat \<Rightarrow> bool) \<Rightarrow> (nat \<Rightarrow> bool) \<Rightarrow> o2fsck_cache_hint \<Rightarrow> nat \<Rightarrow> nat \<Rightarrow> nat \<Rightarrow> nat \<Rightarrow> nat option" where
  "o2fsck_init_cache init mlock hint fs_blocks max_slots blocksize_bits cache_blocks =
     (case hint of
        O2FSCK_CACHE_MODE_FULL \<Rightarrow> Some (case_option cache_blocks id (cache_loop init mlock (min (fs_blocks * 2 mod 2 ^ 64) INT_MAX) True))
      | O2FSCK_CACHE_MODE_JOURNAL \<Rightarrow>
          do { blocks_wanted \<leftarrow> journal_blocks max_slots blocksize_bits;
               Some (case_option cache_blocks id (cache_loop init mlock (min blocks_wanted INT_MAX) False)) }
      | O2FSCK_CACHE_MODE_NONE \<Rightarrow> Some cache_blocks)"

record cache_guess =
  cache_blocks :: int
  blocks_cached :: int

definition o2fsck_worth_caching :: "cache_guess \<Rightarrow> int \<Rightarrow> bool \<times> cache_guess" where
  "o2fsck_worth_caching c blocks_to_read =
     (if blocks_to_read + blocks_cached c > cache_blocks c then (False, c)
      else (True, c\<lparr>blocks_cached := blocks_cached c + blocks_to_read\<rparr>))"

definition o2fsck_reset_blocks_cached :: "cache_guess \<Rightarrow> cache_guess" where
  "o2fsck_reset_blocks_cached c = c\<lparr>blocks_cached := 0\<rparr>"

section \<open>Lemmas\<close>

definition clusters_ok :: "cluster_state \<Rightarrow> bool" where
  "clusters_ok ost \<longleftrightarrow> cluster_inv (ost_allocated_clusters ost) \<and>
     b_total_bits (ost_allocated_clusters ost) = fs_clusters ost \<and>
     0 < fs_clusters ost \<and> fs_clusters ost + fs_clustersize ost \<le> INT_MAX + 1 \<and> 8 \<le> fs_clustersize ost \<and>
     (\<forall>d. ost_duplicate_clusters ost = Some d \<longrightarrow> cluster_inv d \<and> b_total_bits d = fs_clusters ost)"

definition allocated :: "cluster_state \<Rightarrow> nat set" where
  "allocated ost = bm_bits (ost_allocated_clusters ost)"

definition duplicates :: "cluster_state \<Rightarrow> nat set" where
  "duplicates ost = (case ost_duplicate_clusters ost of None \<Rightarrow> {} | Some d \<Rightarrow> bm_bits d)"

lemma fsck_bitmap_set_ok:
  assumes "cluster_inv bm" and "n < b_total_bits bm"
  shows "\<exists>bm'. o2fsck_bitmap_set global_cluster_ops bm n = Some (n \<in> bm_bits bm, bm') \<and> cluster_inv bm' \<and>
    bm_bits bm' = insert n (bm_bits bm) \<and> b_total_bits bm' = b_total_bits bm"
  using cluster.set_view [OF assms] by (auto simp: o2fsck_bitmap_set_def)

lemma set_duplicate_ok:
  assumes "cluster_inv bm" and "n < b_total_bits bm"
  shows "\<exists>bm'. set_duplicate bm n = Some bm' \<and> cluster_inv bm' \<and>
    bm_bits bm' = insert n (bm_bits bm) \<and> b_total_bits bm' = b_total_bits bm"
  using cluster.set_view [OF assms] by (auto simp: set_duplicate_def)

lemma mark_cluster_ok:
  assumes ok: "clusters_ok ost" and n: "n < fs_clusters ost"
  shows "\<exists>ost'. o2fsck_mark_cluster_allocated ost n = Some ost' \<and> clusters_ok ost' \<and> fs_clusters ost' = fs_clusters ost \<and>
    allocated ost' = insert n (allocated ost) \<and>
    duplicates ost' = (if n \<in> allocated ost then insert n (duplicates ost) else duplicates ost)"
proof -
  from fsck_bitmap_set_ok [of "ost_allocated_clusters ost" n] ok n obtain bm where
    bm: "o2fsck_bitmap_set global_cluster_ops (ost_allocated_clusters ost) n = Some (n \<in> allocated ost, bm)"
    "cluster_inv bm" "bm_bits bm = insert n (allocated ost)" "b_total_bits bm = fs_clusters ost"
    by (auto simp: clusters_ok_def allocated_def)
  show ?thesis
  proof (cases "n \<in> allocated ost")
    case False
    with bm ok show ?thesis
      by (auto simp: o2fsck_mark_cluster_allocated_def clusters_ok_def allocated_def duplicates_def)
  next
    case True
    let ?new = "ocfs2_cluster_bitmap_new (fs_clusters ost) (fs_clustersize ost) (Some ''duplicate clusters'')"
    obtain d where d: "(case ost_duplicate_clusters ost of Some d \<Rightarrow> Some d
        | None \<Rightarrow> do { r \<leftarrow> ?new; case r of Inl _ \<Rightarrow> None | Inr d \<Rightarrow> Some d }) = Some d"
      "cluster_inv d" "b_total_bits d = fs_clusters ost" "bm_bits d = duplicates ost"
    proof (cases "ost_duplicate_clusters ost")
      case None
      have "fs_clusters ost \<le> INT_MAX - (fs_clustersize ost - 1)" using ok unfolding clusters_ok_def by linarith
      with None cluster_bitmap_new_ok [of "fs_clusters ost" "fs_clustersize ost" "Some ''duplicate clusters''"] ok that
      show ?thesis by (fastforce simp: clusters_ok_def cluster_inv_def duplicates_def)
    next
      case (Some d)
      with ok that [of d] show ?thesis by (simp add: clusters_ok_def duplicates_def)
    qed
    from set_duplicate_ok [OF d(2), of n] n d(3) obtain d' where
      d': "set_duplicate d n = Some d'" "cluster_inv d'" "bm_bits d' = insert n (bm_bits d)" "b_total_bits d' = fs_clusters ost"
      by auto
    have "o2fsck_mark_cluster_allocated ost n =
        Some (ost\<lparr>ost_allocated_clusters := bm, ost_duplicate_clusters := Some d'\<rparr>)"
      using bm(1) True d(1) d'(1)
      by (cases "ost_duplicate_clusters ost") (auto simp: o2fsck_mark_cluster_allocated_def bind_eq_Some_conv)
    with d d' bm True ok show ?thesis by (simp add: clusters_ok_def allocated_def duplicates_def)
  qed
qed

lemma count_upt: "card {i. i < n \<and> P i} = length (filter P [0..<n])"
proof -
  have "{i. i < n \<and> P i} = {i. i < length [0..<n] \<and> P ([0..<n] ! i)}" by auto
  then show ?thesis using length_filter_conv_card [of P "[0..<n]"] by simp
qed

lemma count_split: "length (filter P [0..<m + n]) = length (filter P [0..<m]) + length (filter (\<lambda>i. P (m + i)) [0..<n])"
proof -
  have "[m..<m + n] = map (\<lambda>i. m + i) [0..<n]" using map_add_upt [of m n] by (simp add: add.commute)
  moreover have "[0..<m + n] = [0..<m] @ [m..<m + n]" by (rule upt_add_eq_append) simp
  ultimately have "[0..<m + n] = [0..<m] @ map (\<lambda>i. m + i) [0..<n]" by simp
  then show ?thesis by (simp only: filter_append filter_map length_append length_map comp_def)
qed

lemma nibble_counts: "\<forall>n\<in>set [0..<16]. nibble_count ! n = length (filter (\<lambda>k. odd (n div 2 ^ k)) [0..<4])"
  by code_simp

lemma nibble_count_word: "unat w < 16 \<Longrightarrow> nibble_count ! unat w = length (filter (bit w) [0..<4])" for w :: byte
proof -
  assume "unat w < 16"
  moreover have "bit w k \<longleftrightarrow> odd (unat w div 2 ^ k)" for k
  proof -
    have "bit (unat w) k \<longleftrightarrow> bit w k" by (simp add: bit_unsigned_iff)
    then show ?thesis by (simp add: bit_iff_odd)
  qed
  then have "bit w = (\<lambda>k. odd (unat w div 2 ^ k))" by blast
  ultimately show ?thesis using nibble_counts by simp
qed

lemma bitcount_byte:
  "nibble_count ! unat (drop_bit 4 b) + nibble_count ! unat (b AND 0xf) = length (filter (bit b) [0..<8])" for b :: byte
proof -
  have "unat (drop_bit 4 b) < 16" "unat (b AND 0xf) < 16"
  proof -
    have "unat b < 2 ^ LENGTH(8)" by (rule unsigned_less)
    then show "unat (drop_bit 4 b) < 16" unfolding unat_drop_bit_eq by (simp add: drop_bit_eq_div)
    have "b AND 0xf \<le> 0xf" by (rule word_and_le1)
    then have "unat (b AND 0xf) \<le> unat (0xf :: byte)" by (simp add: word_le_nat_alt)
    then show "unat (b AND 0xf) < 16" by simp
  qed
  moreover have "filter (bit (drop_bit 4 b)) [0..<4] = filter (\<lambda>k. bit b (4 + k)) [0..<4]"
    by (simp add: bit_drop_bit_eq comp_def)
  moreover have "filter (bit (b AND 0xf)) [0..<4] = filter (bit b) [0..<4]"
  proof (rule filter_cong)
    fix k assume "k \<in> set [0..<4]"
    then have "k = 0 \<or> k = 1 \<or> k = 2 \<or> k = 3" by auto
    then have "bit (0xf :: byte) k" by (elim disjE) simp_all
    then show "bit (b AND 0xf) k \<longleftrightarrow> bit b k" by (simp add: bit_and_iff)
  qed simp
  ultimately show ?thesis
    using count_split [of "bit b" 4 4] by (simp add: nibble_count_word)
qed

lemma bitcount_list: "o2fsck_bitcount bytes = length (filter (buf_bit bytes) [0..<8 * length bytes])"
proof (induction bytes)
  case (Cons b bytes)
  have "filter (buf_bit (b # bytes)) [0..<8] = filter (bit b) [0..<8]"
    by (rule filter_cong) (auto simp: buf_bit_def)
  moreover have "buf_bit (b # bytes) (8 + i) = buf_bit bytes i" for i
  proof -
    have "(8 + i) div 8 = Suc (i div 8)" by simp
    then show ?thesis by (simp add: buf_bit_def)
  qed
  ultimately show ?case
    using Cons.IH bitcount_byte [of b] count_split [of "buf_bit (b # bytes)" 8 "8 * length bytes"] by simp
qed simp

lemma cache_loop_bounds:
  "cache_loop init mlock n leave = Some m \<Longrightarrow>
     0 < m \<and> m \<le> n \<and> init m \<and> (mlock m \<or> m \<le> 512) \<and> (leave \<longrightarrow> 2 * m \<le> n)"
proof (induction init mlock n leave rule: cache_loop.induct)
  case (1 init mlock n leave)
  then show ?case
    by (subst (asm) (3) cache_loop.simps) (fastforce split: if_splits)
qed

section \<open>Properties\<close>

fun mark_all :: "cluster_state \<Rightarrow> nat list \<Rightarrow> cluster_state option" where
  "mark_all ost [] = Some ost"
| "mark_all ost (c # cs) = do { ost' \<leftarrow> o2fsck_mark_cluster_allocated ost c; mark_all ost' cs }"

lemma mark_all_ok:
  assumes "clusters_ok ost" and "\<forall>c\<in>set cs. c < fs_clusters ost" and "allocated ost = set ds"
    and "duplicates ost = {c. 1 < count_list ds c}"
  shows "\<exists>ost'. mark_all ost cs = Some ost' \<and> clusters_ok ost' \<and> allocated ost' = set (ds @ cs) \<and>
    duplicates ost' = {c. 1 < count_list (ds @ cs) c}"
  using assms
proof (induction cs arbitrary: ost ds)
  case (Cons c cs)
  from mark_cluster_ok [OF Cons.prems(1), of c] Cons.prems(2) obtain ost1 where
    ost1: "o2fsck_mark_cluster_allocated ost c = Some ost1" "clusters_ok ost1" "fs_clusters ost1 = fs_clusters ost"
    "allocated ost1 = insert c (allocated ost)"
    "duplicates ost1 = (if c \<in> allocated ost then insert c (duplicates ost) else duplicates ost)" by auto
  have "duplicates ost1 = {x. 1 < count_list (ds @ [c]) x}"
  proof (cases "c \<in> set ds")
    case True
    then have "count_list ds c \<noteq> 0" by (simp add: count_list_0_iff)
    with True ost1(5) Cons.prems(3,4) show ?thesis by auto
  next
    case False
    then have "count_list ds c = 0" by (simp add: count_list_0_iff)
    with False ost1(5) Cons.prems(3,4) show ?thesis by auto
  qed
  with Cons.IH [of ost1 "ds @ [c]"] ost1 Cons.prems show ?case by simp
qed simp

text \<open>
  C13.  Marking a list of clusters one after another, starting with nothing allocated: the
  allocated clusters are those marked, and the duplicate clusters are exactly those marked more
  than once; no call aborts as long as the clusters exist.
\<close>

theorem duplicates_are_marked_twice:
  assumes "clusters_ok ost" and "allocated ost = {}" and "duplicates ost = {}" and "\<forall>c\<in>set cs. c < fs_clusters ost"
  shows "\<exists>ost'. mark_all ost cs = Some ost' \<and> clusters_ok ost' \<and> allocated ost' = set cs \<and>
    duplicates ost' = {c. 1 < count_list cs c}"
  using mark_all_ok [of ost cs "[]"] assms by simp

definition sample_clusters :: cluster_state where
  "sample_clusters = \<lparr>fs_clusters = 4, fs_clustersize = 4096,
     ost_allocated_clusters = \<lparr>b_set_bits = 0, b_total_bits = 4, b_description = [],
       b_regions = Node RB_BLACK \<lparr>br_start_bit = 0, br_total_bits = 4, br_bytes = 1, br_set_bits = 0, br_bitmap = [0]\<rparr>
                     Leaf Leaf, b_private = ()\<rparr>,
     ost_duplicate_clusters = None\<rparr>"

lemma sample_clusters_ok:
  "clusters_ok sample_clusters" "allocated sample_clusters = {}" "duplicates sample_clusters = {}"
  "fs_clusters sample_clusters = 4"
  by (auto simp: clusters_ok_def cluster_inv_def sample_clusters_def bitmap_ok_def rb_tree_def regions_ok_simps
      region_ok_def padded_def buf_bit_def region_end_def INT_MAX_def bm_covered_def region_range_def
      allocated_def duplicates_def bm_bits_def region_bits_def)

theorem duplicates_are_marked_twice_witness:
  "\<exists>ost'. mark_all sample_clusters [1, 3, 1] = Some ost' \<and> clusters_ok ost' \<and> allocated ost' = set [1, 3, 1] \<and>
    duplicates ost' = {c. 1 < count_list [1, 3, 1] c}"
  by (rule duplicates_are_marked_twice) (simp_all add: sample_clusters_ok)

text \<open>
  \<open>o2fsck_bitcount\<close>, with its table of sixteen nibble counts, is the number of set bits of the
  buffer.
\<close>

lemma bitcount_counts_bits: "o2fsck_bitcount bytes = card {i. i < 8 * length bytes \<and> buf_bit bytes i}"
  by (simp add: bitcount_list count_upt)

text \<open>
  The size that \<open>o2fsck_init_cache\<close> settles on was obtained and pinned (or is at most 512
  blocks), never exceeds \<open>INT_MAX\<close>, and in full mode at most half of twice the blocks wanted,
  so that as much memory again was available.
\<close>

lemma init_cache_bounds:
  assumes "o2fsck_init_cache init mlock hint blocks slots bbits 0 = Some n" and "0 < n"
  shows "n \<le> INT_MAX \<and> init n \<and> (mlock n \<or> n \<le> 512) \<and>
    (hint = O2FSCK_CACHE_MODE_FULL \<longrightarrow> 2 * n \<le> blocks * 2 mod 2 ^ 64) \<and> hint \<noteq> O2FSCK_CACHE_MODE_NONE"
proof (cases hint)
  case O2FSCK_CACHE_MODE_FULL
  then have "cache_loop init mlock (min (blocks * 2 mod 2 ^ 64) INT_MAX) True = Some n"
    using assms by (auto simp: o2fsck_init_cache_def split: option.splits)
  from cache_loop_bounds [OF this] O2FSCK_CACHE_MODE_FULL show ?thesis by auto
next
  case O2FSCK_CACHE_MODE_JOURNAL
  then obtain w where "cache_loop init mlock (min w INT_MAX) False = Some n"
    using assms by (cases "journal_blocks slots bbits") (auto simp: o2fsck_init_cache_def split: option.splits)
  from cache_loop_bounds [OF this] O2FSCK_CACHE_MODE_JOURNAL show ?thesis by auto
next
  case O2FSCK_CACHE_MODE_NONE
  then show ?thesis using assms by (simp add: o2fsck_init_cache_def)
qed

text \<open>A volume with eight slots: the size of the journals is not a number of the type \<open>int\<close>.\<close>

lemma journal_size_overflows: "o2fsck_init_cache init mlock O2FSCK_CACHE_MODE_JOURNAL blocks 8 bbits n = None"
  by (simp add: o2fsck_init_cache_def journal_blocks_def INT_MAX_def)

end
