(* ===== verification/Search_Tree.thy ===== *)
theory Search_Tree
  imports Rbtree
begin

text \<open>
  What the users of the red-black trees share: each keeps elements in the order of a key and
  descends by comparing a key with the node's element.  The locale \<open>search_order\<close> is the contract
  of such a comparison; inside it, searching, linking a new node, erasing and replacing a node are
  shown to be the operations of a finite map from keys to elements.
\<close>

definition sorted_tree :: "('k \<Rightarrow> 'k \<Rightarrow> bool) \<Rightarrow> ('a \<Rightarrow> 'k) \<Rightarrow> 'a rb \<Rightarrow> bool" where
  "sorted_tree lt key t \<longleftrightarrow> rb_tree t \<and> sorted_wrt (\<lambda>x y. lt (key x) (key y)) (inorder t)"

definition tmap :: "('a \<Rightarrow> 'k) \<Rightarrow> 'a rb \<Rightarrow> 'k \<rightharpoonup> 'a" where
  "tmap key t = map_of (map (\<lambda>x. (key x, x)) (inorder t))"

lemma tmap_Leaf [simp]: "tmap key Leaf = Map.empty"
  by (simp add: tmap_def)

lemma sorted_tree_Leaf [simp]: "sorted_tree lt key Leaf"
  by (simp add: sorted_tree_def rb_tree_def)

text \<open>A search that also remembers the node it last went left from.\<close>

fun search_loop :: "('a \<Rightarrow> dir) \<Rightarrow> 'a rb \<Rightarrow> 'a path \<Rightarrow> 'a pos option \<Rightarrow> 'a pos \<times> 'a pos option" where
  "search_loop cmp Leaf path last_left = ((Leaf, path), last_left)"
| "search_loop cmp (Node c x l r) path last_left =
     (case cmp x of
        Go_Left \<Rightarrow> search_loop cmp l (InLeft c x r # path) (Some (Node c x l r, path))
      | Go_Right \<Rightarrow> search_loop cmp r (InRight c x l # path) last_left
      | Here \<Rightarrow> ((Node c x l r, path), last_left))"

lemma search_loop_fst: "fst (search_loop cmp t path ll) = rb_descend cmp t path"
  by (induction cmp t path ll rule: search_loop.induct) (auto split: dir.splits)

lemma search_loop_snd:
  "snd (search_loop cmp t path (up_from_right t path)) =
   up_from_right (fst (rb_descend cmp t path)) (snd (rb_descend cmp t path))"
proof (induction t arbitrary: path)
  case (Node c x l r)
  have "Some (Node c x l r, path) = up_from_right l (InLeft c x r # path)"
    "up_from_right (Node c x l r) path = up_from_right r (InRight c x l # path)" by simp_all
  with Node.IH(1) [of "InLeft c x r # path"] Node.IH(2) [of "InRight c x l # path"] show ?case
    by (simp del: up_from_right.simps split: dir.split)
qed simp

lemma search_loop_root:
  "search_loop cmp t [] None =
   (rb_descend cmp t [], up_from_right (fst (rb_descend cmp t [])) (snd (rb_descend cmp t [])))"
  using search_loop_fst [of cmp t "[]" None] search_loop_snd [of cmp t "[]"]
  by (simp add: prod_eq_iff)

locale search_order =
  fixes lt :: "'k \<Rightarrow> 'k \<Rightarrow> bool" and key :: "'a \<Rightarrow> 'k" and cmp :: "'k \<Rightarrow> 'a \<Rightarrow> dir"
  assumes irrefl: "\<not> lt k k"
    and trans: "lt a b \<Longrightarrow> lt b c \<Longrightarrow> lt a c"
    and linear: "lt a b \<or> a = b \<or> lt b a"
    and cmp_law: "cmp k x = (if lt k (key x) then Go_Left else if lt (key x) k then Go_Right else Here)"
begin

lemma cmp_Here: "cmp k x = Here \<longleftrightarrow> key x = k"
  using irrefl linear [of k "key x"] by (auto simp: cmp_law)

lemma cmp_steers:
  assumes "sorted_wrt (\<lambda>x y. lt (key x) (key y)) xs"
  shows "steers (cmp k) xs"
  unfolding steers_def
proof (rule sorted_wrt_mono_rel [OF _ assms])
  fix x y assume "lt (key x) (key y)"
  then show "(cmp k x = Go_Left \<longrightarrow> cmp k y = Go_Left) \<and> (cmp k y = Go_Right \<longrightarrow> cmp k x = Go_Right)"
    using trans irrefl linear by (auto simp: cmp_law split: if_splits)
qed

lemma sorted_distinct_keys:
  "sorted_wrt (\<lambda>x y. lt (key x) (key y)) xs \<Longrightarrow> distinct (map key xs)"
proof (induction xs)
  case (Cons x xs)
  then show ?case using irrefl by (auto simp: image_iff)
qed simp

lemma map_split:
  assumes "sorted_wrt (\<lambda>x y. lt (key x) (key y)) (xs @ x # ys)"
  shows "map_of (map (\<lambda>x. (key x, x)) (xs @ x # ys)) = (map_of (map (\<lambda>x. (key x, x)) (xs @ ys)))(key x \<mapsto> x)"
    and "map_of (map (\<lambda>x. (key x, x)) (xs @ ys)) (key x) = None"
proof -
  have d: "distinct (map key (xs @ x # ys))" using assms by (rule sorted_distinct_keys)
  then show none: "map_of (map (\<lambda>x. (key x, x)) (xs @ ys)) (key x) = None"
    by (auto simp: map_of_eq_None_iff image_iff)
  then have "map_of (map (\<lambda>x. (key x, x)) xs) (key x) = None"
    by (auto simp: map_of_eq_None_iff image_iff)
  then show "map_of (map (\<lambda>x. (key x, x)) (xs @ x # ys)) = (map_of (map (\<lambda>x. (key x, x)) (xs @ ys)))(key x \<mapsto> x)"
    by (auto simp: map_add_def fun_eq_iff split: option.splits)
qed

lemma find_whole: "whole (rb_descend (cmp k) t []) = t"
  using rb_descend_whole [of "cmp k" t "[]"] by simp

lemma find_elem:
  assumes "sorted_tree lt key t"
  shows "rb_elem (rb_descend (cmp k) t []) = tmap key t k"
proof (cases "rb_elem (rb_descend (cmp k) t [])")
  case None
  then obtain path where path: "rb_descend (cmp k) t [] = (Leaf, path)"
    by (cases "rb_descend (cmp k) t []" rule: rb_elem.cases) auto
  have ino: "inorder t = lefts path @ rights path"
    using find_whole [of k t] path inorder_plug [of Leaf path] by (simp add: whole_def)
  have "steers (cmp k) (inorder t)" using assms by (auto simp: sorted_tree_def intro: cmp_steers)
  from rb_descend_leaf [OF path this] have "\<forall>x\<in>set (inorder t). cmp k x \<noteq> Here"
    unfolding ino by auto
  then have "tmap key t k = None" by (auto simp: tmap_def map_of_eq_None_iff image_iff cmp_Here)
  with None show ?thesis by simp
next
  case (Some x)
  then have "key x = k" using rb_descend_Here cmp_Here by metis
  moreover obtain xs ys where ino: "inorder t = xs @ x # ys"
    using inorder_whole [OF Some] find_whole [of k t] by metis
  moreover have "sorted_wrt (\<lambda>x y. lt (key x) (key y)) (xs @ x # ys)"
    using assms ino by (simp add: sorted_tree_def)
  note map_split(1) [OF this]
  ultimately have "tmap key t k = Some x" by (simp add: tmap_def)
  with Some show ?thesis by simp
qed

lemma insert_new:
  assumes t: "sorted_tree lt key t" and new: "tmap key t (key x) = None"
  shows "\<exists>path t'. rb_descend (cmp (key x)) t [] = (Leaf, path) \<and> rb_insert_at x path = Some t' \<and>
    sorted_tree lt key t' \<and> tmap key t' = (tmap key t)(key x \<mapsto> x)"
proof -
  have "rb_elem (rb_descend (cmp (key x)) t []) = None" using find_elem [OF t] new by simp
  then obtain path where path: "rb_descend (cmp (key x)) t [] = (Leaf, path)"
    by (cases "rb_descend (cmp (key x)) t []" rule: rb_elem.cases) auto
  have plug: "plug Leaf path = t" using find_whole [of "key x" t] path by (simp add: whole_def)
  then have ino: "inorder t = lefts path @ rights path" using inorder_plug [of Leaf path] by simp
  have tree: "rb_tree t" and sorted: "sorted_wrt (\<lambda>x y. lt (key x) (key y)) (inorder t)"
    using t by (auto simp: sorted_tree_def)
  obtain t' where t': "rb_insert_at x path = Some t'" "rb_tree t'" "inorder t' = lefts path @ x # rights path"
    using rb_insert_at_pos [of path x] tree plug by auto
  from rb_descend_leaf [OF path cmp_steers [OF sorted]]
  have "\<forall>y\<in>set (lefts path). lt (key y) (key x)" "\<forall>y\<in>set (rights path). lt (key x) (key y)"
    by (auto simp: cmp_law split: if_splits)
  with sorted have s': "sorted_wrt (\<lambda>x y. lt (key x) (key y)) (lefts path @ x # rights path)"
    unfolding ino by (auto simp: sorted_wrt_append)
  with t' have "sorted_tree lt key t'" by (simp add: sorted_tree_def)
  moreover have "tmap key t' = (tmap key t)(key x \<mapsto> x)"
    using map_split(1) [OF s'] t'(3) ino by (simp add: tmap_def)
  ultimately show ?thesis using path t'(1) by blast
qed

lemma erase_found:
  assumes t: "sorted_tree lt key t" and z: "rb_elem z = Some x" "whole z = t"
  shows "\<exists>t'. rb_erase z = Some t' \<and> sorted_tree lt key t' \<and> tmap key t' = (tmap key t)(key x := None)"
proof -
  have tree: "rb_tree (whole z)" and sorted: "sorted_wrt (\<lambda>x y. lt (key x) (key y)) (before z @ x # after z)"
    using t z inorder_whole [OF z(1)] by (auto simp: sorted_tree_def)
  from rb_erase_pos [OF z(1) tree] obtain t' where t': "rb_erase z = Some t'" "rb_tree t'" "inorder t' = before z @ after z" by blast
  have "sorted_tree lt key t'" using sorted t' by (auto simp: sorted_tree_def sorted_wrt_append)
  moreover have "tmap key t' = (tmap key t)(key x := None)"
    using map_split [OF sorted] t'(3) inorder_whole [OF z(1)] z(2) by (auto simp: tmap_def fun_eq_iff)
  ultimately show ?thesis using t'(1) by blast
qed

lemma replace_found:
  assumes t: "sorted_tree lt key t" and z: "rb_elem z = Some x" "whole z = t" and y: "key y = key x"
  shows "sorted_tree lt key (whole (rb_replace_node z y)) \<and>
    tmap key (whole (rb_replace_node z y)) = (tmap key t)(key x \<mapsto> y)"
proof -
  note rep = rb_replace_node_pos [OF z(1), of y]
  have ino: "inorder t = before z @ x # after z" using inorder_whole [OF z(1)] z(2) by simp
  have ino': "inorder (whole (rb_replace_node z y)) = before z @ y # after z"
    using inorder_whole [OF rep(1)] rep(2,3) by simp
  have sorted: "sorted_wrt (\<lambda>x y. lt (key x) (key y)) (before z @ x # after z)"
    using t ino by (simp add: sorted_tree_def)
  then have sorted': "sorted_wrt (\<lambda>x y. lt (key x) (key y)) (before z @ y # after z)"
    using y by (simp add: sorted_wrt_append)
  have "rb_tree (whole (rb_replace_node z y))" using rep(4) t z(2) by (simp add: sorted_tree_def)
  moreover have "tmap key (whole (rb_replace_node z y)) = (tmap key t)(key x \<mapsto> y)"
    using map_split(1) [OF sorted] map_split(1) [OF sorted'] ino ino' y by (simp add: tmap_def)
  ultimately show ?thesis using sorted' ino' by (simp add: sorted_tree_def)
qed

text \<open>The node to the right of the place where a search failed has the least greater key.\<close>

lemma next_greater:
  assumes t: "sorted_tree lt key t" and path: "rb_descend (cmp k) t [] = (Leaf, path)"
  shows "up_from_right Leaf path = None \<Longrightarrow> tmap key t k' \<noteq> None \<Longrightarrow> lt k' k"
    and "up_from_right Leaf path = Some z \<Longrightarrow> \<exists>x. rb_elem z = Some x \<and> tmap key t (key x) = Some x \<and> lt k (key x) \<and>
      (\<forall>k'. tmap key t k' \<noteq> None \<longrightarrow> lt k' k \<or> k' = key x \<or> lt (key x) k')"
proof -
  have plug: "plug Leaf path = t" using find_whole [of k t] path by (simp add: whole_def)
  then have ino: "inorder t = lefts path @ rights path" using inorder_plug [of Leaf path] by simp
  have sorted: "sorted_wrt (\<lambda>x y. lt (key x) (key y)) (inorder t)" using t by (simp add: sorted_tree_def)
  from rb_descend_leaf [OF path cmp_steers [OF sorted]]
  have lo: "\<forall>y\<in>set (lefts path). lt (key y) k" and hi: "\<forall>y\<in>set (rights path). lt k (key y)"
    by (auto simp: cmp_law split: if_splits)
  have mem: "\<exists>x\<in>set (inorder t). key x = k'" if "tmap key t k' \<noteq> None" for k'
    using that by (auto simp: tmap_def map_of_eq_None_iff image_iff)
  show "up_from_right Leaf path = None \<Longrightarrow> tmap key t k' \<noteq> None \<Longrightarrow> lt k' k"
    using up_from_right_pos(1) [of Leaf path] mem [of k'] lo ino by auto
  assume "up_from_right Leaf path = Some z"
  from up_from_right_pos(2) [OF this] obtain x where x: "rb_elem z = Some x" "rights path = x # after z" by blast
  have "tmap key t (key x) = Some x"
    using map_split(1) [of "lefts path" x "after z"] sorted ino x(2) by (simp add: tmap_def)
  moreover have "lt (key x) (key y)" if "y \<in> set (after z)" for y
    using sorted ino x(2) that by (simp add: sorted_wrt_append)
  then have "lt k' k \<or> k' = key x \<or> lt (key x) k'" if "tmap key t k' \<noteq> None" for k'
    using mem [OF that] lo ino x(2) by auto
  ultimately show "\<exists>x. rb_elem z = Some x \<and> tmap key t (key x) = Some x \<and> lt k (key x) \<and>
      (\<forall>k'. tmap key t k' \<noteq> None \<longrightarrow> lt k' k \<or> k' = key x \<or> lt (key x) k')"
    using x hi by auto
qed

end

text \<open>Trees keyed by a block or inode number.\<close>

definition nat_cmp :: "('a \<Rightarrow> nat) \<Rightarrow> nat \<Rightarrow> 'a \<Rightarrow> dir" where
  "nat_cmp key k x = (if k < key x then Go_Left else if k > key x then Go_Right else Here)"

interpretation by_number: search_order "(<)" key "nat_cmp key" for key :: "'a \<Rightarrow> nat"
  by unfold_locales (auto simp: nat_cmp_def)

end
