(* ===== verification/Icount.thy ===== *)
theory Icount
  imports Fsck_Util Search_Tree
begin

text \<open>
  \<open>fsck.ocfs2/icount.c\<close>: the table of link counts that fsck keeps for every inode.  A count of 1 is
  a bit of a block bitmap, a larger count a node of a tree, and a block in neither has count 0.
  The table is shown to be a function from block numbers to counts.

  Counts are \<open>uint16_t\<close> values, written as numbers with the wrap-around written out.  The argument
  \<open>junk\<close> is what an uninitialised variable of the bitmap code holds; nothing here depends on it.
\<close>

section \<open>The model\<close>

record icount_node =
  in_blkno :: nat
  in_icount :: nat

record o2fsck_icount =
  ic_single_bm :: "unit ocfs2_bitmap"
  ic_multiple_tree :: "icount_node rb"

text \<open>The loop of \<open>icount_insert\<close> does not advance on a node with the same number, and then never ends.\<close>

definition icount_insert :: "icount_node \<Rightarrow> icount_node rb \<Rightarrow> icount_node rb option" where
  "icount_insert node t =
     (case rb_descend (nat_cmp in_blkno (in_blkno node)) t [] of
        (Leaf, path) \<Rightarrow> rb_insert_at node path
      | (Node _ _ _ _, _) \<Rightarrow> None)"

definition icount_search :: "icount_node rb \<Rightarrow> nat \<Rightarrow> icount_node pos \<times> icount_node pos option" where
  "icount_search t blkno = search_loop (nat_cmp in_blkno blkno) t [] None"

definition o2fsck_icount_set :: "bool \<Rightarrow> o2fsck_icount \<Rightarrow> nat \<Rightarrow> nat \<Rightarrow> o2fsck_icount option" where
  "o2fsck_icount_set junk icount blkno count =
     do { (_, bm) \<leftarrow> (if count = 1 then o2fsck_bitmap_set (global_block_ops junk) (ic_single_bm icount) blkno
                      else o2fsck_bitmap_clear (global_block_ops junk) (ic_single_bm icount) blkno);
          let z = fst (icount_search (ic_multiple_tree icount) blkno);
          t \<leftarrow> (case rb_elem z of
                  Some node \<Rightarrow>
                    if count < 2 then rb_erase z
                    else Some (whole (rb_replace_node z (node\<lparr>in_icount := count\<rparr>)))
                | None \<Rightarrow>
                    if count > 1 then icount_insert \<lparr>in_blkno = blkno, in_icount = count\<rparr> (ic_multiple_tree icount)
                    else Some (ic_multiple_tree icount));
          Some (icount\<lparr>ic_single_bm := bm, ic_multiple_tree := t\<rparr>) }"

text \<open>A failed \<open>ocfs2_bitmap_test\<close> leaves \<open>was_set\<close> uninitialised, and it is read.\<close>

definition single_bit :: "bool \<Rightarrow> o2fsck_icount \<Rightarrow> nat \<Rightarrow> bool option" where
  "single_bit junk icount blkno =
     (case ocfs2_bitmap_test (global_block_ops junk) (ic_single_bm icount) blkno of
        Some (Inr was_set) \<Rightarrow> Some was_set
      | _ \<Rightarrow> None)"

definition o2fsck_icount_get :: "bool \<Rightarrow> o2fsck_icount \<Rightarrow> nat \<Rightarrow> nat option" where
  "o2fsck_icount_get junk icount blkno =
     do { was_set \<leftarrow> single_bit junk icount blkno;
          Some (if was_set then 1
                else case rb_elem (fst (icount_search (ic_multiple_tree icount) blkno)) of
                  None \<Rightarrow> 0 | Some node \<Rightarrow> in_icount node) }"

text \<open>A negative sum is reported and stored all the same, reduced to 16 bits.\<close>

definition o2fsck_icount_delta :: "bool \<Rightarrow> o2fsck_icount \<Rightarrow> nat \<Rightarrow> int \<Rightarrow> o2fsck_icount option" where
  "o2fsck_icount_delta junk icount blkno delta =
     (if delta = 0 then Some icount
      else do { was_set \<leftarrow> single_bit junk icount blkno;
                let prev_count = (if was_set then 1
                                  else case rb_elem (fst (icount_search (ic_multiple_tree icount) blkno)) of
                                    None \<Rightarrow> 0 | Some node \<Rightarrow> in_icount node);
                o2fsck_icount_set junk icount blkno (nat ((int prev_count + delta) mod 2 ^ 16)) })"

definition o2fsck_icount_new :: "nat \<Rightarrow> o2fsck_icount result" where
  "o2fsck_icount_new fs_blocks =
     (case ocfs2_block_bitmap_new fs_blocks (Some ''inodes with single link_count'') of
        Inl e \<Rightarrow> Inl e
      | Inr bm \<Rightarrow> Inr \<lparr>ic_single_bm = bm, ic_multiple_tree = Leaf\<rparr>)"

text \<open>When the bitmap search fails for another reason, \<open>next_bit\<close> is uninitialised.\<close>

definition o2fsck_icount_next_blkno :: "bool \<Rightarrow> o2fsck_icount \<Rightarrow> nat \<Rightarrow> nat result option" where
  "o2fsck_icount_next_blkno junk icount start =
     do { ret \<leftarrow> ocfs2_bitmap_find_next_set (global_block_ops junk) (ic_single_bm icount) start;
          let (z, next) = icount_search (ic_multiple_tree icount) start;
          case (case rb_elem z of Some node \<Rightarrow> Some node | None \<Rightarrow> (case next of None \<Rightarrow> None | Some n \<Rightarrow> rb_elem n)) of
            Some node \<Rightarrow>
              (case ret of
                 Inl OCFS2_ET_BIT_NOT_FOUND \<Rightarrow> Some (Inr (in_blkno node))
               | Inl _ \<Rightarrow> None
               | Inr next_bit \<Rightarrow> Some (Inr (if next_bit < in_blkno node then next_bit else in_blkno node)))
          | None \<Rightarrow> Some ret }"

definition o2fsck_icount_free :: "bool \<Rightarrow> o2fsck_icount \<Rightarrow> (region list \<times> icount_node list) option" where
  "o2fsck_icount_free junk icount =
     do { rs \<leftarrow> ocfs2_bitmap_free (global_block_ops junk) (ic_single_bm icount);
          ns \<leftarrow> rb_free_all (ic_multiple_tree icount);
          Some (rs, ns) }"

section \<open>The table as a function\<close>

definition icount_ok :: "o2fsck_icount \<Rightarrow> bool" where
  "icount_ok ic \<longleftrightarrow> block_inv (ic_single_bm ic) \<and> sorted_tree (<) in_blkno (ic_multiple_tree ic) \<and>
     (\<forall>b n. tmap in_blkno (ic_multiple_tree ic) b = Some n \<longrightarrow>
        1 < in_icount n \<and> in_icount n < 2 ^ 16 \<and> b \<notin> bm_bits (ic_single_bm ic) \<and> b < b_total_bits (ic_single_bm ic))"

definition icount_of :: "o2fsck_icount \<Rightarrow> nat \<Rightarrow> nat" where
  "icount_of ic b =
     (if b \<in> bm_bits (ic_single_bm ic) then 1
      else case tmap in_blkno (ic_multiple_tree ic) b of None \<Rightarrow> 0 | Some n \<Rightarrow> in_icount n)"

lemma search_elem:
  "sorted_tree (<) in_blkno t \<Longrightarrow> rb_elem (fst (icount_search t b)) = tmap in_blkno t b"
  using by_number.find_elem [of in_blkno t b] by (simp add: icount_search_def search_loop_root)

lemma search_whole: "whole (fst (icount_search t b)) = t"
  using by_number.find_whole [of in_blkno b t] by (simp add: icount_search_def search_loop_root)

lemma tmap_key: "tmap key t k = Some x \<Longrightarrow> key x = k"
  by (auto simp: tmap_def dest!: map_of_SomeD)

lemma icount_insert_ok:
  assumes "sorted_tree (<) in_blkno t" and "tmap in_blkno t b = None"
  shows "\<exists>t'. icount_insert \<lparr>in_blkno = b, in_icount = c\<rparr> t = Some t' \<and> sorted_tree (<) in_blkno t' \<and>
    tmap in_blkno t' = (tmap in_blkno t)(b \<mapsto> \<lparr>in_blkno = b, in_icount = c\<rparr>)"
  using by_number.insert_new [of in_blkno t "\<lparr>in_blkno = b, in_icount = c\<rparr>"] assms
  by (auto simp: icount_insert_def)

text \<open>The tree after the count of \<open>b\<close> was set to \<open>c\<close>.\<close>

lemma icount_tree_update:
  assumes t: "sorted_tree (<) in_blkno t"
  shows "\<exists>t'. (case rb_elem (fst (icount_search t b)) of
        Some node \<Rightarrow> if c < 2 then rb_erase (fst (icount_search t b))
                   else Some (whole (rb_replace_node (fst (icount_search t b)) (node\<lparr>in_icount := c\<rparr>)))
      | None \<Rightarrow> if c > 1 then icount_insert \<lparr>in_blkno = b, in_icount = c\<rparr> t else Some t) = Some t' \<and>
    sorted_tree (<) in_blkno t' \<and>
    tmap in_blkno t' = (tmap in_blkno t)(b := if c > 1 then Some \<lparr>in_blkno = b, in_icount = c\<rparr> else None)"
proof (cases "tmap in_blkno t b")
  case None
  then have "(tmap in_blkno t)(b := None) = tmap in_blkno t" by auto
  with None icount_insert_ok [OF t None, of c] t show ?thesis by (auto simp: search_elem)
next
  case (Some n)
  let ?z = "fst (icount_search t b)"
  have z: "rb_elem ?z = Some n" "whole ?z = t" and n: "in_blkno n = b"
    using Some search_elem [OF t] search_whole tmap_key by auto
  show ?thesis
  proof (cases "c < 2")
    case True
    with by_number.erase_found [OF t z] n z show ?thesis by auto
  next
    case False
    have e: "n\<lparr>in_icount := c\<rparr> = \<lparr>in_blkno = b, in_icount = c\<rparr>" using n by (cases n) simp
    from by_number.replace_found [OF t z, of "n\<lparr>in_icount := c\<rparr>"] n z False show ?thesis by (simp add: e)
  qed
qed

lemma icount_bitmap_update:
  assumes "block_inv bm" and "b < b_total_bits bm"
  shows "\<exists>old bm'. (if c = (1::nat) then o2fsck_bitmap_set (global_block_ops junk) bm b
      else o2fsck_bitmap_clear (global_block_ops junk) bm b) = Some (old, bm') \<and> block_inv bm' \<and>
    b_total_bits bm' = b_total_bits bm \<and> bm_bits bm' = (if c = 1 then insert b (bm_bits bm) else bm_bits bm - {b})"
  using block_bits.set_view [OF assms, of junk] block_bits.clear_view [OF assms, of junk]
  by (auto simp: o2fsck_bitmap_set_def o2fsck_bitmap_clear_def)

lemma icount_set_ok:
  assumes ok: "icount_ok ic" and b: "b < b_total_bits (ic_single_bm ic)" and c: "c < 2 ^ 16"
  shows "\<exists>ic'. o2fsck_icount_set junk ic b c = Some ic' \<and> icount_ok ic' \<and> icount_of ic' = (icount_of ic)(b := c) \<and>
    b_total_bits (ic_single_bm ic') = b_total_bits (ic_single_bm ic)"
proof -
  let ?bm = "ic_single_bm ic" and ?t = "ic_multiple_tree ic"
  have inv: "block_inv ?bm" and t: "sorted_tree (<) in_blkno ?t" using ok by (auto simp: icount_ok_def)
  from icount_bitmap_update [OF inv b, where c = c and junk = junk] obtain old bm where bm:
    "(if c = 1 then o2fsck_bitmap_set (global_block_ops junk) ?bm b
      else o2fsck_bitmap_clear (global_block_ops junk) ?bm b) = Some (old, bm)" "block_inv bm"
    "b_total_bits bm = b_total_bits ?bm" "bm_bits bm = (if c = 1 then insert b (bm_bits ?bm) else bm_bits ?bm - {b})" by blast
  from icount_tree_update [OF t, where b = b and c = c] obtain t' where t':
    "(case rb_elem (fst (icount_search ?t b)) of
        Some node \<Rightarrow> if c < 2 then rb_erase (fst (icount_search ?t b))
                   else Some (whole (rb_replace_node (fst (icount_search ?t b)) (node\<lparr>in_icount := c\<rparr>)))
      | None \<Rightarrow> if c > 1 then icount_insert \<lparr>in_blkno = b, in_icount = c\<rparr> ?t else Some ?t) = Some t'"
    "sorted_tree (<) in_blkno t'"
    "tmap in_blkno t' = (tmap in_blkno ?t)(b := if c > 1 then Some \<lparr>in_blkno = b, in_icount = c\<rparr> else None)" by blast
  define ic' where "ic' = ic\<lparr>ic_single_bm := bm, ic_multiple_tree := t'\<rparr>"
  have "o2fsck_icount_set junk ic b c = Some ic'"
    using bm(1) t'(1) by (simp add: o2fsck_icount_set_def Let_def ic'_def)
  moreover have "icount_ok ic'"
    using ok bm t'(2,3) b c by (auto simp: icount_ok_def ic'_def split: if_splits)
  moreover have "icount_of ic' = (icount_of ic)(b := c)"
    using bm(4) t'(3) by (auto simp: icount_of_def ic'_def fun_eq_iff)
  ultimately show ?thesis using bm(3) by (auto simp: ic'_def)
qed

lemma icount_get_ok:
  assumes ok: "icount_ok ic" and b: "b < b_total_bits (ic_single_bm ic)"
  shows "o2fsck_icount_get junk ic b = Some (icount_of ic b)"
  using block_bits.test_view [of "ic_single_bm ic" b junk] ok b
  by (auto simp: o2fsck_icount_get_def single_bit_def icount_ok_def icount_of_def search_elem)

lemma icount_bound: "icount_ok ic \<Longrightarrow> icount_of ic b < 2 ^ 16"
  by (auto simp: icount_of_def icount_ok_def split: option.split)

section \<open>Properties\<close>

text \<open>The table of \<open>o2fsck_icount_new\<close> is well-formed and has only zero counts.\<close>

lemma icount_new_ok:
  assumes "blocks + 7 \<le> INT_MAX"
  shows "\<exists>ic. o2fsck_icount_new blocks = Inr ic \<and> icount_ok ic \<and> icount_of ic = (\<lambda>_. 0) \<and>
    b_total_bits (ic_single_bm ic) = blocks"
  using assms
  by (auto simp: o2fsck_icount_new_def ocfs2_block_bitmap_new_def ocfs2_bitmap_new_def global_block_ops_def
      icount_ok_def block_inv_def bitmap_ok_def rb_tree_def icount_of_def bm_bits_def INT_MAX_def fun_eq_iff)

text \<open>A sequence of updates of a table, and what it does to a function of counts.\<close>

datatype icount_op = Set_count nat nat | Add_count nat int

fun icount_call :: "bool \<Rightarrow> icount_op \<Rightarrow> o2fsck_icount \<Rightarrow> o2fsck_icount option" where
  "icount_call junk (Set_count b c) ic = o2fsck_icount_set junk ic b c"
| "icount_call junk (Add_count b d) ic = o2fsck_icount_delta junk ic b d"

fun icount_calls :: "bool \<Rightarrow> icount_op list \<Rightarrow> o2fsck_icount \<Rightarrow> o2fsck_icount option" where
  "icount_calls junk [] ic = Some ic"
| "icount_calls junk (c # cs) ic = do { ic' \<leftarrow> icount_call junk c ic; icount_calls junk cs ic' }"

fun icount_spec :: "icount_op \<Rightarrow> (nat \<Rightarrow> nat) \<Rightarrow> nat \<Rightarrow> nat" where
  "icount_spec (Set_count b c) f = f(b := c)"
| "icount_spec (Add_count b d) f = f(b := nat ((int (f b) + d) mod 2 ^ 16))"

fun icount_call_ok :: "nat \<Rightarrow> icount_op \<Rightarrow> bool" where
  "icount_call_ok blocks (Set_count b c) = (b < blocks \<and> c < 2 ^ 16)"
| "icount_call_ok blocks (Add_count b d) = (b < blocks)"

lemma icount_delta_ok:
  assumes ok: "icount_ok ic" and b: "b < b_total_bits (ic_single_bm ic)"
  shows "\<exists>ic'. o2fsck_icount_delta junk ic b d = Some ic' \<and> icount_ok ic' \<and>
    icount_of ic' = (icount_of ic)(b := nat ((int (icount_of ic b) + d) mod 2 ^ 16)) \<and>
    b_total_bits (ic_single_bm ic') = b_total_bits (ic_single_bm ic)"
proof (cases "d = 0")
  case True
  have "nat (int (icount_of ic b) mod 2 ^ 16) = icount_of ic b"
    using icount_bound [OF ok, of b] by (simp flip: nat_mod_as_int)
  with True ok show ?thesis by (simp add: o2fsck_icount_delta_def)
next
  case False
  have "nat ((int (icount_of ic b) + d) mod 2 ^ 16) < 2 ^ 16"
    using pos_mod_bound [of "2 ^ 16" "int (icount_of ic b) + d"] by (simp add: nat_less_iff)
  note set = icount_set_ok [OF ok b this, of junk]
  have "block_inv (ic_single_bm ic)" "sorted_tree (<) in_blkno (ic_multiple_tree ic)" using ok by (auto simp: icount_ok_def)
  with False block_bits.test_view [of "ic_single_bm ic" b junk] b
  have "o2fsck_icount_delta junk ic b d = o2fsck_icount_set junk ic b (nat ((int (icount_of ic b) + d) mod 2 ^ 16))"
    by (simp add: o2fsck_icount_delta_def single_bit_def search_elem icount_of_def)
  with set show ?thesis by simp
qed

lemma icount_call_refines:
  assumes "icount_ok ic" and "icount_call_ok (b_total_bits (ic_single_bm ic)) c"
  shows "\<exists>ic'. icount_call junk c ic = Some ic' \<and> icount_ok ic' \<and> icount_of ic' = icount_spec c (icount_of ic) \<and>
    b_total_bits (ic_single_bm ic') = b_total_bits (ic_single_bm ic)"
  using assms icount_set_ok icount_delta_ok by (cases c) auto

text \<open>
  C16.  Refinement: for a new table and any sequence of \<open>o2fsck_icount_set\<close> and \<open>o2fsck_icount_delta\<close>
  calls on existing blocks, every call succeeds (no abort, no endless loop in \<open>icount_insert\<close>), and
  afterwards \<open>o2fsck_icount_get\<close> returns for each block the count that the sequence computes with
  16-bit counts, although the table keeps it either as a bit or as a tree node.
\<close>

theorem icount_is_a_count_table:
  assumes "blocks + 7 \<le> INT_MAX" and "list_all (icount_call_ok blocks) cs"
  shows "\<exists>ic0 ic. o2fsck_icount_new blocks = Inr ic0 \<and> icount_calls junk cs ic0 = Some ic \<and> icount_ok ic \<and>
    (\<forall>b<blocks. o2fsck_icount_get junk ic b = Some (fold icount_spec cs (\<lambda>_. 0) b))"
proof -
  have run: "\<exists>ic'. icount_calls junk cs ic = Some ic' \<and> icount_ok ic' \<and> icount_of ic' = fold icount_spec cs (icount_of ic) \<and>
      b_total_bits (ic_single_bm ic') = blocks"
    if "icount_ok ic" "b_total_bits (ic_single_bm ic) = blocks" "list_all (icount_call_ok blocks) cs" for ic cs
    using that
  proof (induction cs arbitrary: ic)
    case (Cons c cs)
    with icount_call_refines [of ic c junk] obtain ic1 where "icount_call junk c ic = Some ic1" "icount_ok ic1"
      "icount_of ic1 = icount_spec c (icount_of ic)" "b_total_bits (ic_single_bm ic1) = blocks" by auto
    with Cons.IH [of ic1] Cons.prems show ?case by auto
  qed simp
  from icount_new_ok [OF assms(1)] obtain ic0 where ic0: "o2fsck_icount_new blocks = Inr ic0" "icount_ok ic0"
    "icount_of ic0 = (\<lambda>_. 0)" "b_total_bits (ic_single_bm ic0) = blocks" by blast
  from run [OF ic0(2,4) assms(2)] ic0(3) obtain ic where ic: "icount_calls junk cs ic0 = Some ic" "icount_ok ic"
    "icount_of ic = fold icount_spec cs (\<lambda>_. 0)" "b_total_bits (ic_single_bm ic) = blocks" by auto
  then have "\<forall>b<blocks. o2fsck_icount_get junk ic b = Some (fold icount_spec cs (\<lambda>_. 0) b)"
    by (simp add: icount_get_ok)
  with ic ic0(1) show ?thesis by blast
qed

theorem icount_is_a_count_table_witness:
  "\<exists>ic0 ic. o2fsck_icount_new 100 = Inr ic0 \<and>
    icount_calls False [Set_count 7 3, Add_count 7 (- 2), Add_count 9 1, Set_count 9 0] ic0 = Some ic \<and> icount_ok ic \<and>
    (\<forall>b<100. o2fsck_icount_get False ic b =
       Some (fold icount_spec [Set_count 7 3, Add_count 7 (- 2), Add_count 9 1, Set_count 9 0] (\<lambda>_. 0) b))"
  by (rule icount_is_a_count_table) (simp_all add: INT_MAX_def)

lemma icount_nonzero:
  "icount_ok ic \<Longrightarrow> icount_of ic b \<noteq> 0 \<longleftrightarrow> b \<in> bm_bits (ic_single_bm ic) \<or> tmap in_blkno (ic_multiple_tree ic) b \<noteq> None"
proof (cases "tmap in_blkno (ic_multiple_tree ic) b")
  case (Some n)
  moreover assume "icount_ok ic"
  ultimately have "1 < in_icount n" by (simp add: icount_ok_def)
  with Some show ?thesis by (simp add: icount_of_def)
qed (simp add: icount_of_def)

lemma tree_next:
  fixes start :: nat
  assumes t: "sorted_tree (<) in_blkno t"
  defines "r \<equiv> (case rb_elem (fst (icount_search t start)) of Some n \<Rightarrow> Some n
      | None \<Rightarrow> (case snd (icount_search t start) of None \<Rightarrow> None | Some n \<Rightarrow> rb_elem n))"
  shows "first_from (dom (tmap in_blkno t)) start (map_option in_blkno r)"
proof (cases "tmap in_blkno t start")
  case (Some n)
  then show ?thesis using search_elem [OF t, of start] tmap_key [OF Some]
    by (auto simp: r_def first_from_def)
next
  case None
  then have none: "rb_elem (fst (icount_search t start)) = None" using search_elem [OF t] by simp
  then obtain path where path: "rb_descend (nat_cmp in_blkno start) t [] = (Leaf, path)"
    by (cases "rb_descend (nat_cmp in_blkno start) t []" rule: rb_elem.cases)
       (auto simp: icount_search_def search_loop_root)
  have snd: "snd (icount_search t start) = up_from_right Leaf path"
    using path by (simp add: icount_search_def search_loop_root)
  show ?thesis
  proof (cases "up_from_right Leaf path")
    case None
    with by_number.next_greater(1) [OF t path] none snd show ?thesis by (auto simp: r_def first_from_def)
  next
    case (Some z)
    from by_number.next_greater(2) [OF t path Some] obtain x where x: "rb_elem z = Some x"
      "tmap in_blkno t (in_blkno x) = Some x" "start < in_blkno x"
      "\<forall>k'. tmap in_blkno t k' \<noteq> None \<longrightarrow> k' < start \<or> k' = in_blkno x \<or> in_blkno x < k'" by blast
    then have "first_from (dom (tmap in_blkno t)) start (Some (in_blkno x))"
      by (fastforce simp: first_from_def)
    with x(1) none snd Some show ?thesis by (simp add: r_def)
  qed
qed

lemma first_from_Min:
  assumes "first_from S start a" and "first_from T start b"
  shows "first_from (S \<union> T) start (case a of None \<Rightarrow> b | Some m \<Rightarrow> (case b of None \<Rightarrow> a | Some n \<Rightarrow> Some (min m n)))"
  using assms by (auto simp: first_from_def min_def split: option.splits)

text \<open>
  \<open>o2fsck_icount_next_blkno\<close> merges the search in the bitmap with the search in the tree: it
  returns the least block number from \<open>start\<close> on whose count is not zero, and
  \<open>OCFS2_ET_BIT_NOT_FOUND\<close> exactly if there is none.
\<close>

lemma icount_next_nonzero:
  assumes "icount_ok ic" and "start < b_total_bits (ic_single_bm ic)"
  shows "o2fsck_icount_next_blkno junk ic start =
    Some (if \<exists>b\<ge>start. icount_of ic b \<noteq> 0 then Inr (LEAST b. start \<le> b \<and> icount_of ic b \<noteq> 0)
          else Inl OCFS2_ET_BIT_NOT_FOUND)"
proof -
  let ?bm = "ic_single_bm ic" and ?t = "ic_multiple_tree ic"
  have bm: "bitmap_ok ?bm" and t: "sorted_tree (<) in_blkno ?t" using assms(1) by (auto simp: icount_ok_def block_inv_def)
  obtain a where a: "ocfs2_bitmap_find_next_set (global_block_ops junk) ?bm start =
      Some (case a of None \<Rightarrow> Inl OCFS2_ET_BIT_NOT_FOUND | Some n \<Rightarrow> Inr n)" "first_from (bm_bits ?bm) start a"
    using find_next_set_from [OF bm assms(2), of "global_block_ops junk" junk] by blast
  define r where "r = (case rb_elem (fst (icount_search ?t start)) of Some n \<Rightarrow> Some n
      | None \<Rightarrow> (case snd (icount_search ?t start) of None \<Rightarrow> None | Some n \<Rightarrow> rb_elem n))"
  define m where "m = (case a of None \<Rightarrow> map_option in_blkno r
      | Some m \<Rightarrow> (case map_option in_blkno r of None \<Rightarrow> a | Some n \<Rightarrow> Some (min m n)))"
  have next_eq: "o2fsck_icount_next_blkno junk ic start = Some (case m of None \<Rightarrow> Inl OCFS2_ET_BIT_NOT_FOUND | Some n \<Rightarrow> Inr n)"
    using a(1) by (cases r; cases a)
      (simp_all add: o2fsck_icount_next_blkno_def case_prod_beta r_def [symmetric] m_def min_def)
  have ff: "first_from {b. icount_of ic b \<noteq> 0} start m"
  proof -
    have "{b. icount_of ic b \<noteq> 0} = bm_bits ?bm \<union> dom (tmap in_blkno ?t)"
      using icount_nonzero [OF assms(1)] by auto
    then show ?thesis using first_from_Min [OF a(2) tree_next [OF t, of start, folded r_def]] by (simp add: m_def)
  qed
  have "(LEAST b. start \<le> b \<and> icount_of ic b \<noteq> 0) = n" if "m = Some n" for n
    using ff that by (intro Least_equality) (auto simp: first_from_def)
  moreover have "(\<exists>b\<ge>start. icount_of ic b \<noteq> 0) \<longleftrightarrow> m \<noteq> None"
  proof (cases m)
    case None
    with ff have "\<forall>b. icount_of ic b \<noteq> 0 \<longrightarrow> b < start" by (simp add: first_from_def)
    with None show ?thesis by (meson not_le)
  next
    case (Some n)
    with ff have "start \<le> n" "icount_of ic n \<noteq> 0" by (simp_all add: first_from_def)
    with Some show ?thesis by blast
  qed
  ultimately show ?thesis using next_eq by (cases m) auto
qed

definition sample_icount :: o2fsck_icount where
  "sample_icount = \<lparr>ic_single_bm = sample_bitmap, ic_multiple_tree = Node RB_BLACK \<lparr>in_blkno = 3, in_icount = 5\<rparr> Leaf Leaf\<rparr>"

lemma sample_icount_ok: "icount_ok sample_icount" "b_total_bits (ic_single_bm sample_icount) = 4"
proof -
  have "block_inv sample_bitmap" using sample_bitmap_ok by (simp add: block_inv_def sample_bitmap_def INT_MAX_def)
  then show "icount_ok sample_icount"
    by (auto simp: icount_ok_def sample_icount_def sample_bitmap_bits sorted_tree_def rb_tree_def tmap_def split: if_splits)
       (simp add: sample_bitmap_def)
  show "b_total_bits (ic_single_bm sample_icount) = 4" by (simp add: sample_icount_def sample_bitmap_def)
qed

text \<open>
  A drop below zero is not refused: the count wraps around to a large number.
\<close>

lemma icount_drop_below_zero:
  assumes "icount_ok ic" and "b < b_total_bits (ic_single_bm ic)" and "icount_of ic b = 0"
  shows "\<exists>ic'. o2fsck_icount_delta junk ic b (- 1) = Some ic' \<and> icount_of ic' b = 65535"
  using icount_delta_ok [OF assms(1,2), of junk "- 1"] assms(3) by auto

end
