(* ===== verification/Dirparents.thy ===== *)
theory Dirparents
  imports Icount
begin

text \<open>
  \<open>fsck.ocfs2/dirparents.c\<close>: the record that fsck keeps of every directory, with the parent its own
  \<open>..\<close> entry names and the directory whose entry points to it.  The records are nodes of a red-black
  tree in the order of the inode number.  A pointer to a record is the position of its node.
\<close>

section \<open>The model\<close>

record o2fsck_dir_parent =
  dp_ino :: nat
  dp_dot_dot :: nat
  dp_dirent :: nat
  dp_loop_no :: nat
  dp_connected :: bool
  dp_in_orphan_dir :: bool

type_synonym dir_parents = "o2fsck_dir_parent rb"

abbreviation new_dir_parent :: "nat \<Rightarrow> nat \<Rightarrow> nat \<Rightarrow> nat \<Rightarrow> o2fsck_dir_parent" where
  "new_dir_parent ino dot_dot dirent in_orphan_dir \<equiv>
     \<lparr>dp_ino = ino, dp_dot_dot = dot_dot, dp_dirent = dirent, dp_loop_no = 0, dp_connected = False,
      dp_in_orphan_dir = (in_orphan_dir \<noteq> 0)\<rparr>"

definition o2fsck_add_dir_parent ::
    "dir_parents \<Rightarrow> nat \<Rightarrow> nat \<Rightarrow> nat \<Rightarrow> nat \<Rightarrow> dir_parents result option" where
  "o2fsck_add_dir_parent root ino dot_dot dirent in_orphan_dir =
     (case rb_descend (nat_cmp dp_ino ino) root [] of
        (Leaf, path) \<Rightarrow> map_option Inr (rb_insert_at (new_dir_parent ino dot_dot dirent in_orphan_dir) path)
      | (Node _ _ _ _, _) \<Rightarrow> Some (Inl OCFS2_ET_INTERNAL_FAILURE))"

definition o2fsck_dir_parent_lookup :: "dir_parents \<Rightarrow> nat \<Rightarrow> o2fsck_dir_parent pos option" where
  "o2fsck_dir_parent_lookup root ino =
     (case rb_descend (nat_cmp dp_ino ino) root [] of
        (Leaf, _) \<Rightarrow> None
      | (Node c x l r, path) \<Rightarrow> Some (Node c x l r, path))"

definition o2fsck_dir_parent_first :: "dir_parents \<Rightarrow> o2fsck_dir_parent pos option" where
  "o2fsck_dir_parent_first root = rb_first root"

definition o2fsck_dir_parent_next :: "o2fsck_dir_parent pos \<Rightarrow> o2fsck_dir_parent pos option" where
  "o2fsck_dir_parent_next from = rb_next from"

text \<open>The removal tests the node's number against the wanted one, the other way round.\<close>

definition ocfsck_remove_dir_parent :: "dir_parents \<Rightarrow> nat \<Rightarrow> dir_parents option" where
  "ocfsck_remove_dir_parent root ino =
     (let z = rb_descend (\<lambda>dp. if dp_ino dp > ino then Go_Left else if dp_ino dp < ino then Go_Right else Here) root []
      in case rb_elem z of None \<Rightarrow> Some root | Some _ \<Rightarrow> rb_erase z)"

text \<open>An assignment through a pointer to a record.\<close>

definition dp_store :: "o2fsck_dir_parent pos \<Rightarrow> (o2fsck_dir_parent \<Rightarrow> o2fsck_dir_parent) \<Rightarrow> o2fsck_dir_parent pos" where
  "dp_store z f = (case rb_elem z of None \<Rightarrow> z | Some dp \<Rightarrow> rb_replace_node z (f dp))"

section \<open>The tree as a map\<close>

abbreviation dp_tree :: "dir_parents \<Rightarrow> bool" where
  "dp_tree \<equiv> sorted_tree (<) dp_ino"

abbreviation dp_map :: "dir_parents \<Rightarrow> nat \<rightharpoonup> o2fsck_dir_parent" where
  "dp_map \<equiv> tmap dp_ino"

lemma add_dir_parent_ok:
  assumes t: "dp_tree t"
  shows "if dp_map t ino = None
    then \<exists>t'. o2fsck_add_dir_parent t ino dot_dot dirent orph = Some (Inr t') \<and> dp_tree t' \<and>
           dp_map t' = (dp_map t)(ino \<mapsto> new_dir_parent ino dot_dot dirent orph)
    else o2fsck_add_dir_parent t ino dot_dot dirent orph = Some (Inl OCFS2_ET_INTERNAL_FAILURE)"
proof (cases "dp_map t ino")
  case None
  with by_number.insert_new [OF t, of "new_dir_parent ino dot_dot dirent orph"] show ?thesis
    by (auto simp: o2fsck_add_dir_parent_def)
next
  case (Some dp)
  then have "rb_elem (rb_descend (nat_cmp dp_ino ino) t []) = Some dp" using by_number.find_elem [OF t] by simp
  then obtain c l r path where "rb_descend (nat_cmp dp_ino ino) t [] = (Node c dp l r, path)"
    by (cases "rb_descend (nat_cmp dp_ino ino) t []" rule: rb_elem.cases) auto
  with Some show ?thesis by (simp add: o2fsck_add_dir_parent_def)
qed

lemma dir_parent_lookup_ok:
  assumes t: "dp_tree t"
  shows "dp_map t ino = None \<Longrightarrow> o2fsck_dir_parent_lookup t ino = None"
    and "dp_map t ino = Some dp \<Longrightarrow>
      \<exists>z. o2fsck_dir_parent_lookup t ino = Some z \<and> rb_elem z = Some dp \<and> whole z = t"
  using by_number.find_elem [OF t, of ino] by_number.find_whole [of dp_ino ino t]
  by (cases "rb_descend (nat_cmp dp_ino ino) t []" rule: rb_elem.cases; simp add: o2fsck_dir_parent_lookup_def)+

lemma dir_parent_lookup_pos: "o2fsck_dir_parent_lookup t ino = Some z \<Longrightarrow> rb_elem z \<noteq> None \<and> whole z = t"
  using by_number.find_whole [of dp_ino ino t]
  by (auto simp: o2fsck_dir_parent_lookup_def split: prod.splits rb.splits)

lemma remove_dir_parent_ok:
  assumes t: "dp_tree t"
  shows "\<exists>t'. ocfsck_remove_dir_parent t ino = Some t' \<and> dp_tree t' \<and> dp_map t' = (dp_map t)(ino := None)"
proof -
  have cmp: "(\<lambda>dp. if dp_ino dp > ino then Go_Left else if dp_ino dp < ino then Go_Right else Here) = nat_cmp dp_ino ino"
    by (simp add: nat_cmp_def fun_eq_iff)
  show ?thesis
  proof (cases "dp_map t ino")
    case None
    then have "(dp_map t)(ino := None) = dp_map t" by auto
    with None t by_number.find_elem [OF t, of ino] show ?thesis
      by (simp add: ocfsck_remove_dir_parent_def cmp)
  next
    case (Some dp)
    then have "rb_elem (rb_descend (nat_cmp dp_ino ino) t []) = Some dp" "dp_ino dp = ino"
      using by_number.find_elem [OF t, of ino] by (auto dest: tmap_key)
    with by_number.erase_found [OF t this(1) by_number.find_whole] show ?thesis
      by (simp add: ocfsck_remove_dir_parent_def cmp)
  qed
qed

lemma dp_store_ok:
  assumes t: "dp_tree (whole z)" and z: "rb_elem z = Some dp" and f: "dp_ino (f dp) = dp_ino dp"
  shows "dp_tree (whole (dp_store z f)) \<and> dp_map (whole (dp_store z f)) = (dp_map (whole z))(dp_ino dp \<mapsto> f dp)"
  using by_number.replace_found [OF t z refl f] z by (simp add: dp_store_def)

text \<open>Reading and writing a record through a pointer, given by the record's inode number.\<close>

definition dp_get :: "dir_parents \<Rightarrow> nat \<Rightarrow> o2fsck_dir_parent option" where
  "dp_get t ino = (case o2fsck_dir_parent_lookup t ino of None \<Rightarrow> None | Some z \<Rightarrow> rb_elem z)"

definition dp_put :: "dir_parents \<Rightarrow> nat \<Rightarrow> (o2fsck_dir_parent \<Rightarrow> o2fsck_dir_parent) \<Rightarrow> dir_parents" where
  "dp_put t ino f = (case o2fsck_dir_parent_lookup t ino of None \<Rightarrow> t | Some z \<Rightarrow> whole (dp_store z f))"

lemma dp_get_map: "dp_tree t \<Longrightarrow> dp_get t ino = dp_map t ino"
  using dir_parent_lookup_ok [of t ino] by (cases "dp_map t ino") (auto simp: dp_get_def)

lemma dp_map_ino: "dp_map t ino = Some dp \<Longrightarrow> dp_ino dp = ino"
  by (rule tmap_key)

lemma dp_put_map:
  assumes t: "dp_tree t" and dp: "dp_map t ino = Some dp" and f: "dp_ino (f dp) = dp_ino dp"
  shows "dp_tree (dp_put t ino f)" and "dp_map (dp_put t ino f) = (dp_map t)(ino \<mapsto> f dp)"
proof -
  obtain z where z: "o2fsck_dir_parent_lookup t ino = Some z" "rb_elem z = Some dp" "whole z = t"
    using dir_parent_lookup_ok(2) [OF t dp] by blast
  show "dp_tree (dp_put t ino f)" and "dp_map (dp_put t ino f) = (dp_map t)(ino \<mapsto> f dp)"
    using dp_store_ok [of z dp f] z t f dp_map_ino [OF dp] by (simp_all add: dp_put_def)
qed

section \<open>Properties\<close>

datatype dir_parent_call = Add_dir nat nat nat nat | Remove_dir nat

fun run_dir_parent_call :: "dir_parent_call \<Rightarrow> dir_parents \<Rightarrow> dir_parents option" where
  "run_dir_parent_call (Add_dir ino dot_dot dirent orph) t =
     map_option (case_sum (\<lambda>_. t) id) (o2fsck_add_dir_parent t ino dot_dot dirent orph)"
| "run_dir_parent_call (Remove_dir ino) t = ocfsck_remove_dir_parent t ino"

fun dir_parent_calls :: "dir_parent_call list \<Rightarrow> dir_parents \<Rightarrow> dir_parents option" where
  "dir_parent_calls [] t = Some t"
| "dir_parent_calls (c # cs) t = Option.bind (run_dir_parent_call c t) (dir_parent_calls cs)"

text \<open>What the calls do to a finite map: a second addition of a directory changes nothing.\<close>

fun dir_parent_spec :: "dir_parent_call \<Rightarrow> (nat \<rightharpoonup> o2fsck_dir_parent) \<Rightarrow> nat \<rightharpoonup> o2fsck_dir_parent" where
  "dir_parent_spec (Add_dir ino dot_dot dirent orph) m =
     (if m ino = None then m(ino \<mapsto> new_dir_parent ino dot_dot dirent orph) else m)"
| "dir_parent_spec (Remove_dir ino) m = m(ino := None)"

lemma dir_parent_call_refines:
  assumes "dp_tree t"
  shows "\<exists>t'. run_dir_parent_call c t = Some t' \<and> dp_tree t' \<and> dp_map t' = dir_parent_spec c (dp_map t)"
proof (cases c)
  case (Add_dir ino dot_dot dirent orph)
  then show ?thesis using add_dir_parent_ok [OF assms, of ino dot_dot dirent orph] assms
    by (auto split: if_splits)
next
  case (Remove_dir ino)
  then show ?thesis using remove_dir_parent_ok [OF assms, of ino] by auto
qed

text \<open>The records in the order of a loop \<open>for (dp = first(); dp; dp = next(dp))\<close>.\<close>

function dir_parents_from :: "o2fsck_dir_parent pos option \<Rightarrow> o2fsck_dir_parent list" where
  "dir_parents_from None = []"
| "dir_parents_from (Some z) =
     (case rb_elem z of None \<Rightarrow> [] | Some dp \<Rightarrow> dp # dir_parents_from (o2fsck_dir_parent_next z))"
  by pat_completeness auto
termination
proof (relation "measure (\<lambda>p. case p of None \<Rightarrow> 0 | Some z \<Rightarrow> Suc (length (after z)))")
  fix z :: "o2fsck_dir_parent pos" and dp assume z: "rb_elem z = Some dp"
  show "(o2fsck_dir_parent_next z, Some z) \<in> measure (\<lambda>p. case p of None \<Rightarrow> 0 | Some z \<Rightarrow> Suc (length (after z)))"
    using rb_next_pos(2) [OF z] by (cases "rb_next z") (auto simp: o2fsck_dir_parent_next_def)
qed simp

lemma dir_parents_from_after: "rb_elem z = Some dp \<Longrightarrow> dir_parents_from (Some z) = dp # after z"
proof (induction "length (after z)" arbitrary: z dp)
  case 0
  then show ?case using rb_next_pos(1) [OF "0.prems"] by (simp add: o2fsck_dir_parent_next_def)
next
  case (Suc n)
  then obtain z' where z': "rb_next z = Some z'" using rb_next_pos(1) [OF Suc.prems] by fastforce
  with rb_next_pos(2) [OF Suc.prems z'] obtain y where "rb_elem z' = Some y" "after z = y # after z'" by auto
  with Suc.hyps Suc.prems z' show ?case by (simp add: o2fsck_dir_parent_next_def)
qed

lemma dir_parents_in_order: "dir_parents_from (o2fsck_dir_parent_first t) = inorder t"
proof (cases "rb_first t")
  case None
  then show ?thesis using rb_first_pos(1) [of t] by (simp add: o2fsck_dir_parent_first_def)
next
  case (Some z)
  then show ?thesis using rb_first_pos(2) [OF Some] dir_parents_from_after [of z]
    by (auto simp: o2fsck_dir_parent_first_def)
qed

text \<open>
  C19.  Refinement: any sequence of additions and removals, from an empty tree, leaves the tree of
  the finite map that the sequence computes: every call returns, \<open>o2fsck_dir_parent_lookup\<close> finds
  exactly the recorded directories, and the loop from \<open>o2fsck_dir_parent_first\<close> by
  \<open>o2fsck_dir_parent_next\<close> visits each of them once, in increasing order of inode number.
\<close>

theorem dir_parents_are_a_map:
  fixes cs :: "dir_parent_call list"
  defines "m \<equiv> fold dir_parent_spec cs Map.empty"
  shows "\<exists>t. dir_parent_calls cs Leaf = Some t \<and>
    (\<forall>ino. map_option rb_elem (o2fsck_dir_parent_lookup t ino) = map_option Some (m ino)) \<and>
    sorted_wrt (<) (map dp_ino (dir_parents_from (o2fsck_dir_parent_first t))) \<and>
    set (dir_parents_from (o2fsck_dir_parent_first t)) = ran m"
proof -
  have run: "\<exists>t'. dir_parent_calls cs t = Some t' \<and> dp_tree t' \<and> dp_map t' = fold dir_parent_spec cs (dp_map t)"
    if "dp_tree t" for t cs
    using that
  proof (induction cs arbitrary: t)
    case (Cons c cs)
    then show ?case using dir_parent_call_refines [of t c] by fastforce
  qed simp
  from run [of Leaf cs] obtain t where t: "dir_parent_calls cs Leaf = Some t" "dp_tree t" "dp_map t = m"
    by (auto simp: m_def)
  have "map_option rb_elem (o2fsck_dir_parent_lookup t ino) = map_option Some (m ino)" for ino
    using dir_parent_lookup_ok [OF t(2), of ino] t(3) by (cases "m ino") auto
  moreover have "sorted_wrt (<) (map dp_ino (inorder t))"
    using t(2) by (simp add: sorted_tree_def sorted_wrt_map)
  moreover from this have "set (inorder t) = ran m"
    unfolding t(3) [symmetric] tmap_def
    by (subst ran_distinct) (auto simp: comp_def strict_sorted_iff image_iff)
  ultimately show ?thesis using t(1) by (auto simp: dir_parents_in_order)
qed

end
