(* ===== verification/Pass3.thy ===== *)
theory Pass3
  imports Dirparents
begin

text \<open>
  \<open>fsck.ocfs2/pass3.c\<close>: the pass that checks that every directory hangs off the root.  It walks from
  each directory along the entries that point to it, marks what it passes, and moves a subtree that
  has no parent to \<open>/lost+found\<close>.

  The pass keeps its records in the tree of \<^verbatim>\<open>Dirparents\<close> and the link counts in the tables of
  \<^verbatim>\<open>Icount\<close>.  What it asks of the disk (through libocfs2) and of the user (\<open>prompt\<close>) are the
  functions of the record \<open>pass3_lib\<close>, on a state \<open>'d\<close> of the disk that they may change.
\<close>

section \<open>The model\<close>

datatype prompt_code = PR_ROOT_DIR_MISSING | PR_LOSTFOUND_MISSING | PR_DIR_NOT_CONNECTED | PR_DIR_DOTDOT |
  PR_INODE_NOT_CONNECTED | PR_INODE_COUNT | PR_INODE_ORPHANED | PR_ORPHAN_DIR_MISSING

record ocfs2_dir_entry =
  de_inode :: nat
  de_name_len :: nat
  de_name :: string

record 'd pass3_lib =
  lib_prompt :: "'d \<Rightarrow> prompt_code \<Rightarrow> nat \<Rightarrow> bool \<times> 'd"
  lib_inode_allocated :: "'d \<Rightarrow> nat \<Rightarrow> bool"
  lib_lookup :: "'d \<Rightarrow> nat \<Rightarrow> string \<Rightarrow> nat result"
  lib_new_inode :: "'d \<Rightarrow> nat result \<times> 'd"
  lib_delete_inode :: "'d \<Rightarrow> nat \<Rightarrow> 'd"
  lib_init_dir :: "'d \<Rightarrow> nat \<Rightarrow> nat \<Rightarrow> unit result \<times> 'd"
  lib_link :: "'d \<Rightarrow> nat \<Rightarrow> string \<Rightarrow> nat \<Rightarrow> nat \<Rightarrow> unit result \<times> 'd"
  lib_write_super :: "'d \<Rightarrow> nat \<Rightarrow> unit result \<times> 'd"
  lib_type_from_dinode :: "'d \<Rightarrow> nat \<Rightarrow> nat result"
  lib_read_dir :: "'d \<Rightarrow> nat \<Rightarrow> ocfs2_dir_entry list result"
  lib_write_dir :: "'d \<Rightarrow> nat \<Rightarrow> ocfs2_dir_entry list \<Rightarrow> unit result \<times> 'd"
  lib_inode_name :: "nat \<Rightarrow> string"  \<comment> \<open>\<open>snprintf\<close> of \<open>#\<close> and the number in decimal\<close>
  lib_junk :: bool  \<comment> \<open>what an uninitialised variable of the bitmap code holds\<close>

record 'd o2fsck_state =
  ost_dir_parents :: dir_parents
  ost_icount_in_inodes :: o2fsck_icount
  ost_icount_refs :: o2fsck_icount
  ost_lostfound_ino :: nat
  fs_root_blkno :: nat
  fs_sysdir_blkno :: nat
  loop_no :: nat
  disk :: 'd

definition OCFS2_FT_DIR :: nat where "OCFS2_FT_DIR = 2"

text \<open>Both link counts of a directory that the pass made are set to what its entries add up to.\<close>

definition record_new_dir :: "'d pass3_lib \<Rightarrow> 'd o2fsck_state \<Rightarrow> nat \<Rightarrow> nat \<Rightarrow> (errcode option \<times> 'd o2fsck_state) option" where
  "record_new_dir lib ost blkno links =
     do { ins \<leftarrow> o2fsck_icount_set (lib_junk lib) (ost_icount_in_inodes ost) blkno links;
          refs \<leftarrow> o2fsck_icount_set (lib_junk lib) (ost_icount_refs ost) blkno links;
          let ost = ost\<lparr>ost_icount_in_inodes := ins, ost_icount_refs := refs\<rparr>;
          r \<leftarrow> o2fsck_add_dir_parent (ost_dir_parents ost) blkno (fs_root_blkno ost) (fs_root_blkno ost) 0;
          Some (case r of Inl e \<Rightarrow> (Some e, ost) | Inr t \<Rightarrow> (None, ost\<lparr>ost_dir_parents := t\<rparr>)) }"

abbreviation drop_inode :: "'d pass3_lib \<Rightarrow> 'd o2fsck_state \<Rightarrow> nat \<Rightarrow> 'd o2fsck_state" where
  "drop_inode lib ost blkno \<equiv> ost\<lparr>disk := lib_delete_inode lib (disk ost) blkno\<rparr>"

definition check_root :: "'d pass3_lib \<Rightarrow> 'd o2fsck_state \<Rightarrow> 'd o2fsck_state option" where
  "check_root lib ost =
     (if lib_inode_allocated lib (disk ost) (fs_root_blkno ost) then Some ost
      else case lib_prompt lib (disk ost) PR_ROOT_DIR_MISSING (fs_root_blkno ost) of
        (False, d) \<Rightarrow> Some (ost\<lparr>disk := d\<rparr>)
      | (True, d) \<Rightarrow>
          (case lib_new_inode lib d of
             (Inl _, d) \<Rightarrow> Some (ost\<lparr>disk := d\<rparr>)
           | (Inr blkno, d) \<Rightarrow>
               (case lib_init_dir lib d blkno blkno of
                  (Inl _, d) \<Rightarrow> Some (drop_inode lib (ost\<lparr>disk := d\<rparr>) blkno)
                | (Inr _, d) \<Rightarrow>
                    do { (err, ost) \<leftarrow> record_new_dir lib (ost\<lparr>disk := d\<rparr>) blkno 1;
                         if err \<noteq> None then Some (drop_inode lib ost blkno)
                         else case lib_write_super lib (disk ost) blkno of
                           (Inl _, d) \<Rightarrow> Some (drop_inode lib (ost\<lparr>disk := d\<rparr>) blkno)
                         | (Inr _, d) \<Rightarrow> Some (ost\<lparr>fs_root_blkno := blkno, disk := d\<rparr>) })))"

text \<open>In \<open>check_lostfound\<close> both failures after the allocation delete the new inode again.\<close>

definition check_lostfound :: "'d pass3_lib \<Rightarrow> 'd o2fsck_state \<Rightarrow> 'd o2fsck_state option" where
  "check_lostfound lib ost =
     (case lib_lookup lib (disk ost) (fs_root_blkno ost) ''lost+found'' of
        Inr ino \<Rightarrow> Some (ost\<lparr>ost_lostfound_ino := ino\<rparr>)
      | Inl _ \<Rightarrow>
          (case lib_prompt lib (disk ost) PR_LOSTFOUND_MISSING 0 of
             (False, d) \<Rightarrow> Some (ost\<lparr>disk := d\<rparr>)
           | (True, d) \<Rightarrow>
               (case lib_new_inode lib d of
                  (Inl _, d) \<Rightarrow> Some (ost\<lparr>disk := d\<rparr>)
                | (Inr blkno, d) \<Rightarrow>
                    (case lib_init_dir lib d blkno (fs_root_blkno ost) of
                       (Inl _, d) \<Rightarrow> Some (drop_inode lib (ost\<lparr>disk := d\<rparr>) blkno)
                     | (Inr _, d) \<Rightarrow>
                         (case lib_link lib d (fs_root_blkno ost) ''lost+found'' blkno OCFS2_FT_DIR of
                            (Inl _, d) \<Rightarrow> Some (drop_inode lib (ost\<lparr>disk := d\<rparr>) blkno)
                          | (Inr _, d) \<Rightarrow>
                              do { (err, ost) \<leftarrow> record_new_dir lib (ost\<lparr>disk := d\<rparr>) blkno 2;
                                   if err \<noteq> None then Some (drop_inode lib ost blkno)
                                   else Some (ost\<lparr>ost_lostfound_ino := blkno\<rparr>) })))))"

text \<open>
  \<open>fix_dot_dot_dirent\<close>, the function called for each entry of the directory: the result is the
  reference counts, the entry, and whether it asked to stop (with the block changed).
\<close>

definition fix_dot_dot_dirent ::
    "bool \<Rightarrow> nat \<Rightarrow> o2fsck_icount \<Rightarrow> ocfs2_dir_entry \<Rightarrow> (o2fsck_icount \<times> ocfs2_dir_entry \<times> bool) option" where
  "fix_dot_dot_dirent junk parent refs dirent =
     (if de_name_len dirent \<noteq> 2 \<or> take 2 (de_name dirent) \<noteq> ''..'' then Some (refs, dirent, False)
      else do { refs \<leftarrow> (if de_inode dirent \<noteq> 0 then o2fsck_icount_delta junk refs (de_inode dirent) (- 1) else Some refs);
                refs \<leftarrow> o2fsck_icount_delta junk refs parent 1;
                Some (refs, dirent\<lparr>de_inode := parent\<rparr>, True) })"

fun fix_dot_dot_iterate ::
    "bool \<Rightarrow> nat \<Rightarrow> o2fsck_icount \<Rightarrow> ocfs2_dir_entry list \<Rightarrow> (o2fsck_icount \<times> ocfs2_dir_entry list \<times> bool) option" where
  "fix_dot_dot_iterate junk parent refs [] = Some (refs, [], False)"
| "fix_dot_dot_iterate junk parent refs (de # des) =
     do { (refs, de, fixed) \<leftarrow> fix_dot_dot_dirent junk parent refs de;
          if fixed then Some (refs, de # des, True)
          else do { (refs, des, fixed) \<leftarrow> fix_dot_dot_iterate junk parent refs des;
                    Some (refs, de # des, fixed) } }"

definition fix_dot_dot :: "'d pass3_lib \<Rightarrow> 'd o2fsck_state \<Rightarrow> nat \<Rightarrow> 'd o2fsck_state option" where
  "fix_dot_dot lib ost dir =
     do { dp \<leftarrow> dp_get (ost_dir_parents ost) dir;
          case lib_read_dir lib (disk ost) dir of
            Inl _ \<Rightarrow> Some ost
          | Inr des \<Rightarrow>
              do { (refs, des, fixed) \<leftarrow> fix_dot_dot_iterate (lib_junk lib) (dp_dirent dp) (ost_icount_refs ost) des;
                   if \<not> fixed then Some (ost\<lparr>ost_icount_refs := refs\<rparr>)
                   else case lib_write_dir lib (disk ost) dir des of
                     (Inl _, d) \<Rightarrow> Some (ost\<lparr>ost_icount_refs := refs, disk := d\<rparr>)
                   | (Inr _, d) \<Rightarrow>
                       Some (ost\<lparr>ost_icount_refs := refs, disk := d,
                                 ost_dir_parents := dp_put (ost_dir_parents ost) dir (\<lambda>dp. dp\<lparr>dp_dot_dot := dp_dirent dp\<rparr>)\<rparr>) } }"

text \<open>Linking an inode into \<open>/lost+found\<close>; every failure is reported and the pass goes on.\<close>

definition o2fsck_reconnect_file :: "'d pass3_lib \<Rightarrow> 'd o2fsck_state \<Rightarrow> nat \<Rightarrow> 'd o2fsck_state option" where
  "o2fsck_reconnect_file lib ost inode =
     (case (if ost_lostfound_ino ost = 0 then lib_lookup lib (disk ost) (fs_root_blkno ost) ''lost+found''
            else Inr (ost_lostfound_ino ost)) of
        Inl _ \<Rightarrow> Some ost
      | Inr lf \<Rightarrow>
          (case lib_type_from_dinode lib (disk ost) inode of
             Inl _ \<Rightarrow> Some (ost\<lparr>ost_lostfound_ino := lf\<rparr>)
           | Inr type \<Rightarrow>
               (case lib_link lib (disk ost) lf (lib_inode_name lib inode) inode type of
                  (Inl _, d) \<Rightarrow> Some (ost\<lparr>ost_lostfound_ino := lf, disk := d\<rparr>)
                | (Inr _, d) \<Rightarrow>
                    do { refs \<leftarrow> o2fsck_icount_delta (lib_junk lib) (ost_icount_refs ost) inode 1;
                         let ost = ost\<lparr>ost_lostfound_ino := lf, disk := d, ost_icount_refs := refs\<rparr>;
                         if type = OCFS2_FT_DIR \<and> dp_get (ost_dir_parents ost) inode \<noteq> None
                         then Some (ost\<lparr>ost_dir_parents := dp_put (ost_dir_parents ost) inode (\<lambda>dp. dp\<lparr>dp_dirent := lf\<rparr>)\<rparr>)
                         else Some ost })))"

text \<open>
  The loop of \<open>connect_directory\<close>.  The pointers \<open>dp\<close> and \<open>par\<close> are the inode numbers of their records.
  The loop ends because each round marks one more directory as connected.
\<close>

abbreviation mark_connected :: "'d o2fsck_state \<Rightarrow> nat \<Rightarrow> 'd o2fsck_state" where
  "mark_connected ost dp \<equiv> ost\<lparr>ost_dir_parents := dp_put (ost_dir_parents ost) dp (\<lambda>x. x\<lparr>dp_connected := True\<rparr>)\<rparr>"

abbreviation mark_loop :: "'d o2fsck_state \<Rightarrow> nat \<Rightarrow> 'd o2fsck_state" where
  "mark_loop ost dp \<equiv> ost\<lparr>ost_dir_parents := dp_put (ost_dir_parents ost) dp (\<lambda>x. x\<lparr>dp_loop_no := loop_no ost\<rparr>)\<rparr>"

definition reconnect_prompt :: "'d pass3_lib \<Rightarrow> 'd o2fsck_state \<Rightarrow> nat \<Rightarrow> 'd o2fsck_state option" where
  "reconnect_prompt lib ost dp =
     (case lib_prompt lib (disk ost) PR_DIR_NOT_CONNECTED dp of
        (fix, d) \<Rightarrow> if fix then o2fsck_reconnect_file lib (ost\<lparr>disk := d\<rparr>) dp else Some (ost\<lparr>disk := d\<rparr>))"

definition unconnected :: "dir_parents \<Rightarrow> nat" where
  "unconnected t = length (filter (\<lambda>x. \<not> dp_connected x) (inorder t))"

lemma unconnected_put:
  assumes "dp_get t dp = Some x"
  shows "unconnected (dp_put t dp f) + of_bool (\<not> dp_connected x) = unconnected t + of_bool (\<not> dp_connected (f x))"
proof -
  obtain z where z: "o2fsck_dir_parent_lookup t dp = Some z" "rb_elem z = Some x"
    using assms by (auto simp: dp_get_def split: option.splits)
  have w: "whole z = t" using dir_parent_lookup_pos [OF z(1)] by simp
  note rep = rb_replace_node_pos [OF z(2), of "f x"]
  have "inorder t = before z @ x # after z" using inorder_whole [OF z(2)] w by simp
  moreover have "inorder (dp_put t dp f) = before z @ f x # after z"
    using inorder_whole [OF rep(1)] rep z by (simp add: dp_put_def dp_store_def)
  ultimately show ?thesis by (simp add: unconnected_def)
qed

function connect_walk ::
    "'d pass3_lib \<Rightarrow> 'd o2fsck_state \<Rightarrow> nat \<Rightarrow> (errcode option \<times> 'd o2fsck_state) option" where
  "connect_walk lib ost dp =
     (case dp_get (ost_dir_parents ost) dp of
        None \<Rightarrow> None
      | Some x \<Rightarrow>
          if dp_connected x then Some (None, ost)
          else let ost1 = mark_connected ost dp in
            if dp_dirent x \<noteq> 0 then
              (case dp_get (ost_dir_parents ost1) (dp_dirent x) of
                 None \<Rightarrow> Some (Some OCFS2_ET_INTERNAL_FAILURE, ost1)
               | Some par \<Rightarrow>
                   if dp_loop_no par \<noteq> loop_no ost1
                   then connect_walk lib (mark_loop ost1 (dp_dirent x)) (dp_dirent x)
                   else map_option (Pair None) (reconnect_prompt lib ost1 dp))
            else map_option (Pair None) (reconnect_prompt lib ost1 dp))"
  by pat_completeness auto
termination
proof (relation "measure (\<lambda>(lib, ost, dp). unconnected (ost_dir_parents ost))")
  fix ost :: "'d o2fsck_state" and dp x ost1 and par
  assume dp: "dp_get (ost_dir_parents ost) dp = Some x" "\<not> dp_connected x" and ost1: "ost1 = mark_connected ost dp"
    and par: "dp_get (ost_dir_parents ost1) (dp_dirent x) = Some par"
  have "unconnected (ost_dir_parents ost1) < unconnected (ost_dir_parents ost)"
    using unconnected_put [OF dp(1), of "\<lambda>x. x\<lparr>dp_connected := True\<rparr>"] dp(2) ost1 by simp
  moreover have "unconnected (ost_dir_parents (mark_loop ost1 (dp_dirent x))) = unconnected (ost_dir_parents ost1)"
    using unconnected_put [OF par, of "\<lambda>x. x\<lparr>dp_loop_no := loop_no ost1\<rparr>"] by simp
  ultimately show "((lib, mark_loop ost1 (dp_dirent x), dp_dirent x), lib, ost, dp)
      \<in> measure (\<lambda>(lib, ost, dp). unconnected (ost_dir_parents ost))" for lib
    by simp
qed simp

declare connect_walk.simps [simp del]

text \<open>The book-keeping for a directory that lies in an orphan directory.\<close>

definition adopt_orphan :: "'d pass3_lib \<Rightarrow> 'd o2fsck_state \<Rightarrow> nat \<Rightarrow> o2fsck_dir_parent \<Rightarrow> 'd o2fsck_state option" where
  "adopt_orphan lib ost dir x =
     (if dp_in_orphan_dir x then
        do { refs \<leftarrow> (if dp_dot_dot x \<noteq> 0 then o2fsck_icount_delta (lib_junk lib) (ost_icount_refs ost) (dp_dot_dot x) (- 1)
                      else Some (ost_icount_refs ost));
             refs \<leftarrow> o2fsck_icount_delta (lib_junk lib) refs (dp_dirent x) 1;
             Some (ost\<lparr>ost_icount_refs := refs,
                       ost_dir_parents := dp_put (ost_dir_parents ost) dir (\<lambda>x. x\<lparr>dp_dot_dot := dp_dirent x\<rparr>)\<rparr>) }
      else Some ost)"

definition check_dot_dot :: "'d pass3_lib \<Rightarrow> 'd o2fsck_state \<Rightarrow> nat \<Rightarrow> o2fsck_dir_parent \<Rightarrow> 'd o2fsck_state option" where
  "check_dot_dot lib ost dir x =
     (if dp_dirent x \<noteq> dp_dot_dot x then
        (case lib_prompt lib (disk ost) PR_DIR_DOTDOT dir of
           (fix, d) \<Rightarrow> if fix then fix_dot_dot lib (ost\<lparr>disk := d\<rparr>) dir else Some (ost\<lparr>disk := d\<rparr>))
      else Some ost)"

definition connect_directory ::
    "'d pass3_lib \<Rightarrow> 'd o2fsck_state \<Rightarrow> nat \<Rightarrow> (errcode option \<times> 'd o2fsck_state) option" where
  "connect_directory lib ost dir =
     do { (err, ost) \<leftarrow> connect_walk lib (ost\<lparr>loop_no := add64 (loop_no ost) 1\<rparr>) dir;
          if err \<noteq> None then Some (err, ost)
          else do { x \<leftarrow> dp_get (ost_dir_parents ost) dir;
                    ost \<leftarrow> adopt_orphan lib ost dir x;
                    x \<leftarrow> dp_get (ost_dir_parents ost) dir;
                    ost \<leftarrow> check_dot_dot lib ost dir x;
                    Some (None, ost) } }"

text \<open>
  The loop of \<open>o2fsck_pass3\<close>.  The position of the current directory is found again in the tree as
  \<open>connect_directory\<close> has left it.  \<open>None\<close> would also be a loop that never ends.
\<close>

definition next_dir :: "dir_parents \<Rightarrow> nat \<Rightarrow> nat option" where
  "next_dir t dir =
     (case o2fsck_dir_parent_lookup t dir of
        None \<Rightarrow> None
      | Some z \<Rightarrow> (case o2fsck_dir_parent_next z of None \<Rightarrow> None | Some z' \<Rightarrow> map_option dp_ino (rb_elem z')))"

partial_function (option) connect_all ::
    "'d pass3_lib \<Rightarrow> 'd o2fsck_state \<Rightarrow> nat option \<Rightarrow> (errcode option \<times> 'd o2fsck_state) option" where
  "connect_all lib ost dp =
     (case dp of
        None \<Rightarrow> Some (None, ost)
      | Some dir \<Rightarrow>
          do { r \<leftarrow> connect_directory lib ost dir;
               if fst r \<noteq> None then Some r
               else connect_all lib (snd r) (next_dir (ost_dir_parents (snd r)) dir) })"

definition o2fsck_pass3 :: "'d pass3_lib \<Rightarrow> 'd o2fsck_state \<Rightarrow> (errcode option \<times> 'd o2fsck_state) option" where
  "o2fsck_pass3 lib ost =
     do { ost \<leftarrow> check_root lib ost;
          ost \<leftarrow> check_lostfound lib ost;
          if dp_get (ost_dir_parents ost) (fs_root_blkno ost) = None then Some (Some OCFS2_ET_INTERNAL_FAILURE, ost)
          else let ost = mark_connected ost (fs_root_blkno ost) in
            if dp_get (ost_dir_parents ost) (fs_sysdir_blkno ost) = None then Some (Some OCFS2_ET_INTERNAL_FAILURE, ost)
            else let ost = mark_connected ost (fs_sysdir_blkno ost) in
              connect_all lib ost
                (case o2fsck_dir_parent_first (ost_dir_parents ost) of
                   None \<Rightarrow> None | Some z \<Rightarrow> map_option dp_ino (rb_elem z)) }"

section \<open>The pass keeps its tables in order\<close>

abbreviation dirs :: "('d, 'x) o2fsck_state_scheme \<Rightarrow> nat \<rightharpoonup> o2fsck_dir_parent" where
  "dirs ost \<equiv> dp_map (ost_dir_parents ost)"

definition pass3_inv :: "nat \<Rightarrow> 'd o2fsck_state \<Rightarrow> bool" where
  "pass3_inv N ost \<longleftrightarrow> dp_tree (ost_dir_parents ost) \<and>
     icount_ok (ost_icount_refs ost) \<and> b_total_bits (ic_single_bm (ost_icount_refs ost)) = N \<and>
     icount_ok (ost_icount_in_inodes ost) \<and> b_total_bits (ic_single_bm (ost_icount_in_inodes ost)) = N \<and>
     fs_root_blkno ost < N \<and> ost_lostfound_ino ost < N \<and>
     (\<forall>k x. dirs ost k = Some x \<longrightarrow> k < N \<and> dp_dirent x < N \<and> dp_dot_dot x < N)"

text \<open>What the pass relies on: the inode numbers that it is given are block numbers of the volume.\<close>

definition lib_in_range :: "nat \<Rightarrow> 'd pass3_lib \<Rightarrow> bool" where
  "lib_in_range N lib \<longleftrightarrow>
     (\<forall>d p n i. lib_lookup lib d p n = Inr i \<longrightarrow> i < N) \<and>
     (\<forall>d i. fst (lib_new_inode lib d) = Inr i \<longrightarrow> i < N) \<and>
     (\<forall>d k des. lib_read_dir lib d k = Inr des \<longrightarrow> (\<forall>de\<in>set des. de_inode de < N))"

text \<open>The part of a record that decides about connections.\<close>

definition core :: "o2fsck_dir_parent \<Rightarrow> nat \<times> bool \<times> nat" where
  "core x = (dp_dirent x, dp_connected x, dp_loop_no x)"

definition cores :: "('d, 'x) o2fsck_state_scheme \<Rightarrow> nat \<rightharpoonup> nat \<times> bool \<times> nat" where
  "cores ost k = map_option core (dirs ost k)"

text \<open>Steps that keep the invariant and the fixed parts of the state.\<close>

definition keeps :: "nat \<Rightarrow> 'd o2fsck_state \<Rightarrow> 'd o2fsck_state \<Rightarrow> bool" where
  "keeps N ost ost' \<longleftrightarrow> pass3_inv N ost' \<and> fs_root_blkno ost' = fs_root_blkno ost \<and>
     fs_sysdir_blkno ost' = fs_sysdir_blkno ost \<and> loop_no ost' = loop_no ost"

lemma keeps_refl: "pass3_inv N ost \<Longrightarrow> keeps N ost ost"
  by (simp add: keeps_def)

lemma keeps_trans: "keeps N a b \<Longrightarrow> keeps N b c \<Longrightarrow> keeps N a c"
  by (simp add: keeps_def)

lemma cores_same: "dirs ost' = dirs ost \<Longrightarrow> cores ost' = cores ost"
  by (simp add: cores_def fun_eq_iff)

lemma put_dir:
  assumes inv: "pass3_inv N ost" and x: "dirs ost k = Some x"
    and f: "dp_ino (f x) = dp_ino x" "dp_dirent (f x) < N" "dp_dot_dot (f x) < N"
  shows "keeps N ost (ost\<lparr>ost_dir_parents := dp_put (ost_dir_parents ost) k f\<rparr>)"
    and "cores (ost\<lparr>ost_dir_parents := dp_put (ost_dir_parents ost) k f\<rparr>) = (cores ost)(k \<mapsto> core (f x))"
    and "dp_get (dp_put (ost_dir_parents ost) k f) k = Some (f x)"
proof -
  have t: "dp_tree (ost_dir_parents ost)" using inv by (simp add: pass3_inv_def)
  note put = dp_put_map [where f = f, OF t x f(1)]
  have "\<forall>j y. ((dirs ost)(k \<mapsto> f x)) j = Some y \<longrightarrow> j < N \<and> dp_dirent y < N \<and> dp_dot_dot y < N"
    using inv x f by (auto simp: pass3_inv_def)
  then show "keeps N ost (ost\<lparr>ost_dir_parents := dp_put (ost_dir_parents ost) k f\<rparr>)"
    using inv put by (simp add: keeps_def pass3_inv_def)
  show "cores (ost\<lparr>ost_dir_parents := dp_put (ost_dir_parents ost) k f\<rparr>) = (cores ost)(k \<mapsto> core (f x))"
    using put by (auto simp: cores_def fun_eq_iff)
  show "dp_get (dp_put (ost_dir_parents ost) k f) k = Some (f x)"
    using put by (simp add: dp_get_map)
qed

lemma dirs_get: "pass3_inv N ost \<Longrightarrow> dp_get (ost_dir_parents ost) k = dirs ost k"
  by (simp add: pass3_inv_def dp_get_map)

lemma refs_delta:
  assumes "icount_ok refs" and "b_total_bits (ic_single_bm refs) = N" and "b < N"
  shows "\<exists>refs'. o2fsck_icount_delta junk refs b d = Some refs' \<and> icount_ok refs' \<and> b_total_bits (ic_single_bm refs') = N"
  using icount_delta_ok [of refs b junk d] assms by auto

lemma refs_keeps:
  assumes "pass3_inv N ost" and "icount_ok refs" and "b_total_bits (ic_single_bm refs) = N"
  shows "keeps N ost (ost\<lparr>ost_icount_refs := refs\<rparr>)"
  using assms by (simp add: keeps_def pass3_inv_def)

text \<open>Reconnecting a directory changes at most the entry that points to it.\<close>

lemma reconnect_file_ok:
  assumes inv: "pass3_inv N ost" and lib: "lib_in_range N lib" and x: "dirs ost k = Some x"
  shows "\<exists>ost'. o2fsck_reconnect_file lib ost k = Some ost' \<and> keeps N ost ost' \<and>
    (cores ost' = cores ost \<or> (\<exists>lf. cores ost' = (cores ost)(k \<mapsto> core (x\<lparr>dp_dirent := lf\<rparr>))))"
proof -
  have kN: "k < N" and dN: "dp_dot_dot x < N" and refs: "icount_ok (ost_icount_refs ost)" "b_total_bits (ic_single_bm (ost_icount_refs ost)) = N"
    using inv x by (auto simp: pass3_inv_def)
  let ?lf = "if ost_lostfound_ino ost = 0 then lib_lookup lib (disk ost) (fs_root_blkno ost) ''lost+found'' else Inr (ost_lostfound_ino ost)"
  have stay: "keeps N ost (ost\<lparr>ost_lostfound_ino := lf, disk := d\<rparr>)" if "lf < N" for lf d
    using inv that by (simp add: keeps_def pass3_inv_def)
  show ?thesis
  proof (cases ?lf)
    case (Inl e)
    then show ?thesis using inv by (simp add: o2fsck_reconnect_file_def keeps_refl)
  next
    case lf: (Inr lf)
    then have lfN: "lf < N" using lib inv by (auto simp: lib_in_range_def pass3_inv_def split: if_splits)
    show ?thesis
    proof (cases "lib_type_from_dinode lib (disk ost) k")
      case (Inl e)
      then show ?thesis using lf stay [OF lfN, of "disk ost"] by (simp add: o2fsck_reconnect_file_def cores_def fun_eq_iff)
    next
      case type: (Inr type)
      obtain r d where link: "lib_link lib (disk ost) lf (lib_inode_name lib k) k type = (r, d)" by fastforce
      show ?thesis
      proof (cases r)
        case (Inl e)
        then show ?thesis using lf type link stay [OF lfN, of d] by (simp add: o2fsck_reconnect_file_def cores_def fun_eq_iff)
      next
        case (Inr u)
        obtain refs' where delta: "o2fsck_icount_delta (lib_junk lib) (ost_icount_refs ost) k 1 = Some refs'"
          and refs': "icount_ok refs'" "b_total_bits (ic_single_bm refs') = N"
          using refs_delta [OF refs kN] by blast
        define ost1 where "ost1 = ost\<lparr>ost_lostfound_ino := lf, disk := d, ost_icount_refs := refs'\<rparr>"
        have k1: "keeps N ost ost1"
          using stay [OF lfN, of d] refs' by (auto simp: ost1_def keeps_def pass3_inv_def)
        have same: "cores ost1 = cores ost" "dirs ost1 k = Some x" using x by (simp_all add: ost1_def cores_def fun_eq_iff)
        have inv1: "pass3_inv N ost1" using k1 by (simp add: keeps_def)
        have run: "o2fsck_reconnect_file lib ost k =
            (if type = OCFS2_FT_DIR then Some (ost1\<lparr>ost_dir_parents := dp_put (ost_dir_parents ost1) k (\<lambda>dp. dp\<lparr>dp_dirent := lf\<rparr>)\<rparr>)
             else Some ost1)"
          using lf type link Inr delta x dirs_get [OF inv]
          by (simp add: o2fsck_reconnect_file_def ost1_def)
        show ?thesis
        proof (cases "type = OCFS2_FT_DIR")
          case True
          note put = put_dir [OF inv1 same(2), of "\<lambda>dp. dp\<lparr>dp_dirent := lf\<rparr>"]
          show ?thesis using run True put keeps_trans [OF k1] lfN dN same(1) by auto
        next
          case False
          then show ?thesis using run k1 same by auto
        qed
      qed
    qed
  qed
qed

lemma reconnect_prompt_ok:
  assumes inv: "pass3_inv N ost" and lib: "lib_in_range N lib" and x: "dirs ost k = Some x"
  shows "\<exists>ost'. reconnect_prompt lib ost k = Some ost' \<and> keeps N ost ost' \<and>
    (cores ost' = cores ost \<or> (\<exists>lf. cores ost' = (cores ost)(k \<mapsto> core (x\<lparr>dp_dirent := lf\<rparr>))))"
proof -
  obtain ans d where p: "lib_prompt lib (disk ost) PR_DIR_NOT_CONNECTED k = (ans, d)" by fastforce
  have k: "keeps N ost (ost\<lparr>disk := d\<rparr>)" using inv by (simp add: keeps_def pass3_inv_def)
  then have inv': "pass3_inv N (ost\<lparr>disk := d\<rparr>)" by (simp add: keeps_def)
  have c: "cores (ost\<lparr>disk := d\<rparr>) = cores ost" by (simp add: cores_def fun_eq_iff)
  show ?thesis
  proof (cases ans)
    case True
    then show ?thesis using reconnect_file_ok [OF inv' lib, of k x] x p keeps_trans [OF k] c
      by (auto simp: reconnect_prompt_def)
  next
    case False
    then show ?thesis using p k c by (simp add: reconnect_prompt_def)
  qed
qed

text \<open>Directories stay recorded, and what is connected stays connected.\<close>

definition advances :: "'d o2fsck_state \<Rightarrow> 'd o2fsck_state \<Rightarrow> bool" where
  "advances ost ost' \<longleftrightarrow>
     (\<forall>k. (cores ost' k = None) = (cores ost k = None)) \<and>
     (\<forall>k p l. cores ost k = Some (p, True, l) \<longrightarrow> (\<exists>p' l'. cores ost' k = Some (p', True, l')))"

lemma advances_refl: "cores ost' = cores ost \<Longrightarrow> advances ost ost'"
  by (simp add: advances_def)

lemma advances_trans: "advances a b \<Longrightarrow> advances b c \<Longrightarrow> advances a c"
  unfolding advances_def by metis

lemma advances_upd:
  "cores ost k = Some (p, c, l) \<Longrightarrow> cores ost' = (cores ost)(k \<mapsto> (p', c', l')) \<Longrightarrow> (c \<Longrightarrow> c') \<Longrightarrow> advances ost ost'"
  by (auto simp: advances_def)

lemma mark_connected_ok:
  assumes inv: "pass3_inv N ost" and x: "dirs ost k = Some x"
  shows "keeps N ost (mark_connected ost k)" and "cores (mark_connected ost k) = (cores ost)(k \<mapsto> (dp_dirent x, True, dp_loop_no x))"
    and "dirs (mark_connected ost k) = (dirs ost)(k \<mapsto> x\<lparr>dp_connected := True\<rparr>)"
proof -
  have "dp_dirent x < N" "dp_dot_dot x < N" using inv x by (auto simp: pass3_inv_def)
  note put = put_dir [OF inv x, of "\<lambda>x. x\<lparr>dp_connected := True\<rparr>"]
  show "keeps N ost (mark_connected ost k)" using put(1) \<open>dp_dirent x < N\<close> \<open>dp_dot_dot x < N\<close> by simp
  show "cores (mark_connected ost k) = (cores ost)(k \<mapsto> (dp_dirent x, True, dp_loop_no x))"
    using put(2) \<open>dp_dirent x < N\<close> \<open>dp_dot_dot x < N\<close> by (simp add: core_def)
  have "dp_tree (ost_dir_parents ost)" using inv by (simp add: pass3_inv_def)
  from dp_put_map(2) [OF this x, of "\<lambda>x. x\<lparr>dp_connected := True\<rparr>"]
  show "dirs (mark_connected ost k) = (dirs ost)(k \<mapsto> x\<lparr>dp_connected := True\<rparr>)" by simp
qed

lemma mark_loop_ok:
  assumes inv: "pass3_inv N ost" and x: "dirs ost k = Some x"
  shows "keeps N ost (mark_loop ost k)" and "cores (mark_loop ost k) = (cores ost)(k \<mapsto> (dp_dirent x, dp_connected x, loop_no ost))"
    and "dirs (mark_loop ost k) = (dirs ost)(k \<mapsto> x\<lparr>dp_loop_no := loop_no ost\<rparr>)"
proof -
  have "dp_dirent x < N" "dp_dot_dot x < N" using inv x by (auto simp: pass3_inv_def)
  note put = put_dir [OF inv x, of "\<lambda>x. x\<lparr>dp_loop_no := loop_no ost\<rparr>"]
  show "keeps N ost (mark_loop ost k)" using put(1) \<open>dp_dirent x < N\<close> \<open>dp_dot_dot x < N\<close> by simp
  show "cores (mark_loop ost k) = (cores ost)(k \<mapsto> (dp_dirent x, dp_connected x, loop_no ost))"
    using put(2) \<open>dp_dirent x < N\<close> \<open>dp_dot_dot x < N\<close> by (simp add: core_def)
  have "dp_tree (ost_dir_parents ost)" using inv by (simp add: pass3_inv_def)
  from dp_put_map(2) [OF this x, of "\<lambda>x. x\<lparr>dp_loop_no := loop_no ost\<rparr>"]
  show "dirs (mark_loop ost k) = (dirs ost)(k \<mapsto> x\<lparr>dp_loop_no := loop_no ost\<rparr>)" by simp
qed

lemma cores_dirs: "dirs ost k = Some x \<Longrightarrow> cores ost k = Some (dp_dirent x, dp_connected x, dp_loop_no x)"
  by (simp add: cores_def core_def)

lemma cores_dirsE:
  assumes "cores ost k = Some (p, c, l)"
  obtains x where "dirs ost k = Some x" "dp_dirent x = p" "dp_connected x = c" "dp_loop_no x = l"
  using assms by (auto simp: cores_def core_def)

text \<open>One round of the walk, on a directory that is not yet connected.\<close>

lemma connect_walk_round:
  assumes inv: "pass3_inv N ost" and x: "dirs ost dp = Some x" and c: "\<not> dp_connected x"
  shows "connect_walk lib ost dp =
    (if dp_dirent x = 0 then map_option (Pair None) (reconnect_prompt lib (mark_connected ost dp) dp)
     else case dirs (mark_connected ost dp) (dp_dirent x) of
       None \<Rightarrow> Some (Some OCFS2_ET_INTERNAL_FAILURE, mark_connected ost dp)
     | Some par \<Rightarrow>
         if dp_loop_no par \<noteq> loop_no ost then connect_walk lib (mark_loop (mark_connected ost dp) (dp_dirent x)) (dp_dirent x)
         else map_option (Pair None) (reconnect_prompt lib (mark_connected ost dp) dp))"
proof -
  have "pass3_inv N (mark_connected ost dp)" using mark_connected_ok(1) [OF inv x] by (simp add: keeps_def)
  with dirs_get [OF this] dirs_get [OF inv] x c show ?thesis
    by (subst connect_walk.simps) (simp add: Let_def cong: option.case_cong)
qed

lemma connect_walk_stop:
  "pass3_inv N ost \<Longrightarrow> dirs ost dp = Some x \<Longrightarrow> dp_connected x \<Longrightarrow> connect_walk lib ost dp = Some (None, ost)"
  by (subst connect_walk.simps) (simp add: dirs_get)

lemma connect_walk_ok:
  assumes lib: "lib_in_range N lib"
  shows "pass3_inv N ost \<Longrightarrow> dirs ost dp \<noteq> None \<Longrightarrow>
    \<exists>err ost'. connect_walk lib ost dp = Some (err, ost') \<and> keeps N ost ost' \<and> advances ost ost' \<and>
      (\<exists>p l. cores ost' dp = Some (p, True, l))"
proof (induction "unconnected (ost_dir_parents ost)" arbitrary: ost dp rule: less_induct)
  case less
  note inv = less.prems(1)
  obtain x where x: "dirs ost dp = Some x" using less.prems(2) by blast
  show ?case
  proof (cases "dp_connected x")
    case True
    then show ?thesis using connect_walk_stop [OF inv x] inv cores_dirs [OF x]
      by (auto simp: keeps_refl advances_refl)
  next
    case False
    define ost1 where "ost1 = mark_connected ost dp"
    note m = mark_connected_ok [OF inv x, folded ost1_def]
    have inv1: "pass3_inv N ost1" and ln: "loop_no ost1 = loop_no ost" using m(1) by (auto simp: keeps_def)
    have adv1: "advances ost ost1" by (rule advances_upd [OF cores_dirs [OF x] m(2)]) simp
    have x1: "dirs ost1 dp = Some (x\<lparr>dp_connected := True\<rparr>)" using m(3) by simp
    note round = connect_walk_round [OF inv x False, of lib, folded ost1_def]
    have stop: "\<exists>err ost'. map_option (Pair None) (reconnect_prompt lib ost1 dp) = Some (err, ost') \<and> keeps N ost ost' \<and>
        advances ost ost' \<and> (\<exists>p l. cores ost' dp = Some (p, True, l))"
    proof -
      obtain ost' where r: "reconnect_prompt lib ost1 dp = Some ost'" "keeps N ost1 ost'"
        "cores ost' = cores ost1 \<or> (\<exists>lf. cores ost' = (cores ost1)(dp \<mapsto> core (x\<lparr>dp_connected := True, dp_dirent := lf\<rparr>)))"
        using reconnect_prompt_ok [OF inv1 lib x1] by auto
      have "\<exists>p l. cores ost' = (cores ost1)(dp \<mapsto> (p, True, l))"
        using r(3) m(2) by (auto simp: core_def)
      then have "\<exists>p l. cores ost' = (cores ost)(dp \<mapsto> (p, True, l))" using m(2) by auto
      then show ?thesis using r(1,2) keeps_trans [OF m(1) r(2)] advances_upd [OF cores_dirs [OF x]] by fastforce
    qed
    show ?thesis
    proof (cases "dp_dirent x = 0")
      case True
      with round stop show ?thesis by auto
    next
      case dirent: False
      show ?thesis
      proof (cases "dirs ost1 (dp_dirent x)")
        case None
        with round dirent m(1,2) adv1 show ?thesis by simp
      next
        case (Some par)
        show ?thesis
        proof (cases "dp_loop_no par = loop_no ost")
          case True
          with round dirent Some stop show ?thesis by auto
        next
          case False
          define ost2 where "ost2 = mark_loop ost1 (dp_dirent x)"
          note m2 = mark_loop_ok [OF inv1 Some, folded ost2_def]
          have inv2: "pass3_inv N ost2" using m2(1) by (simp add: keeps_def)
          have adv2: "advances ost1 ost2" by (rule advances_upd [OF cores_dirs [OF Some] m2(2)]) simp
          have "unconnected (ost_dir_parents ost1) < unconnected (ost_dir_parents ost)"
            using unconnected_put [of "ost_dir_parents ost" dp x "\<lambda>x. x\<lparr>dp_connected := True\<rparr>"]
              \<open>\<not> dp_connected x\<close> x dirs_get [OF inv] by (simp add: ost1_def)
          moreover have "unconnected (ost_dir_parents ost2) = unconnected (ost_dir_parents ost1)"
            using unconnected_put [of "ost_dir_parents ost1" "dp_dirent x" par "\<lambda>x. x\<lparr>dp_loop_no := loop_no ost1\<rparr>"]
              Some dirs_get [OF inv1] by (simp add: ost2_def)
          ultimately obtain err ost' where r: "connect_walk lib ost2 (dp_dirent x) = Some (err, ost')" "keeps N ost2 ost'" "advances ost2 ost'"
            using less.hyps [of ost2 "dp_dirent x"] inv2 m2(3) by auto
          have adv: "advances ost1 ost'" using advances_trans [OF adv2 r(3)] .
          then have "\<exists>p l. cores ost' dp = Some (p, True, l)" using m(2) by (auto simp: advances_def)
          moreover have "connect_walk lib ost dp = Some (err, ost')"
            using round dirent Some False r(1) by (simp add: ost2_def)
          ultimately show ?thesis
            using keeps_trans [OF m(1) keeps_trans [OF m2(1) r(2)]] advances_trans [OF adv1 adv] by blast
        qed
      qed
    qed
  qed
qed

lemma fix_dot_dot_iterate_ok:
  assumes "parent < N" and "\<forall>de\<in>set des. de_inode de < N"
  shows "icount_ok refs \<Longrightarrow> b_total_bits (ic_single_bm refs) = N \<Longrightarrow>
    \<exists>refs' des' fixed. fix_dot_dot_iterate junk parent refs des = Some (refs', des', fixed) \<and> icount_ok refs' \<and>
      b_total_bits (ic_single_bm refs') = N"
  using assms(2)
proof (induction des arbitrary: refs)
  case (Cons de des)
  have "\<exists>refs' de' fixed. fix_dot_dot_dirent junk parent refs de = Some (refs', de', fixed) \<and> icount_ok refs' \<and>
      b_total_bits (ic_single_bm refs') = N"
  proof (cases "de_name_len de \<noteq> 2 \<or> take 2 (de_name de) \<noteq> ''..''")
    case False
    have "\<exists>r. (if de_inode de \<noteq> 0 then o2fsck_icount_delta junk refs (de_inode de) (- 1) else Some refs) = Some r \<and>
        icount_ok r \<and> b_total_bits (ic_single_bm r) = N"
      using refs_delta [of refs N "de_inode de" junk "- 1"] Cons.prems by auto
    then obtain r where r: "(if de_inode de \<noteq> 0 then o2fsck_icount_delta junk refs (de_inode de) (- 1) else Some refs) = Some r"
      "icount_ok r" "b_total_bits (ic_single_bm r) = N" by blast
    from refs_delta [OF r(2,3) assms(1), of junk 1] False r(1) show ?thesis
      by (auto simp: fix_dot_dot_dirent_def)
  qed (use Cons.prems in \<open>auto simp: fix_dot_dot_dirent_def\<close>)
  then obtain refs' de' fixed where step: "fix_dot_dot_dirent junk parent refs de = Some (refs', de', fixed)"
    "icount_ok refs'" "b_total_bits (ic_single_bm refs') = N" by blast
  show ?case
  proof (cases fixed)
    case True
    with step show ?thesis by auto
  next
    case False
    with step Cons.IH [OF step(2,3)] Cons.prems(3) show ?thesis by auto
  qed
qed auto

lemma fix_dot_dot_ok:
  assumes inv: "pass3_inv N ost" and lib: "lib_in_range N lib" and x: "dirs ost k = Some x"
  shows "\<exists>ost'. fix_dot_dot lib ost k = Some ost' \<and> keeps N ost ost' \<and> cores ost' = cores ost \<and> ost_lostfound_ino ost' = ost_lostfound_ino ost"
proof (cases "lib_read_dir lib (disk ost) k")
  case (Inl e)
  then show ?thesis using inv x dirs_get [OF inv] by (simp add: fix_dot_dot_def keeps_refl)
next
  case (Inr des)
  have N: "dp_dirent x < N" "\<forall>de\<in>set des. de_inode de < N" "icount_ok (ost_icount_refs ost)" "b_total_bits (ic_single_bm (ost_icount_refs ost)) = N"
    using inv x lib Inr by (auto simp: pass3_inv_def lib_in_range_def)
  obtain refs des' fixed where it: "fix_dot_dot_iterate (lib_junk lib) (dp_dirent x) (ost_icount_refs ost) des = Some (refs, des', fixed)"
    "icount_ok refs" "b_total_bits (ic_single_bm refs) = N"
    using fix_dot_dot_iterate_ok [OF N] by blast
  obtain r d where w: "lib_write_dir lib (disk ost) k des' = (r, d)" by fastforce
  have k1: "keeps N ost (ost\<lparr>ost_icount_refs := refs, disk := d\<rparr>)" for d
    using inv it(2,3) by (simp add: keeps_def pass3_inv_def)
  then have inv1: "pass3_inv N (ost\<lparr>ost_icount_refs := refs, disk := d\<rparr>)" by (simp add: keeps_def)
  have x1: "dirs (ost\<lparr>ost_icount_refs := refs, disk := d\<rparr>) k = Some x" using x by simp
  note put = put_dir [OF inv1 x1, of "\<lambda>dp. dp\<lparr>dp_dot_dot := dp_dirent dp\<rparr>"]
  have same: "cores (ost\<lparr>ost_icount_refs := refs, disk := d\<rparr>) = cores ost" for d by (simp add: cores_def fun_eq_iff)
  have "(cores ost)(k \<mapsto> core (x\<lparr>dp_dot_dot := dp_dirent x\<rparr>)) = cores ost"
    using cores_dirs [OF x] by (auto simp: core_def)
  then show ?thesis
    using Inr it x dirs_get [OF inv] w k1 [of "disk ost"] k1 [of d] same [of "disk ost"] same [of d] put(1,2) N(1) keeps_trans [OF k1 [of d]]
    by (cases r) (auto simp: fix_dot_dot_def)
qed

lemma adopt_orphan_ok:
  assumes inv: "pass3_inv N ost" and x: "dirs ost k = Some x"
  shows "\<exists>ost'. adopt_orphan lib ost k x = Some ost' \<and> keeps N ost ost' \<and> cores ost' = cores ost \<and> ost_lostfound_ino ost' = ost_lostfound_ino ost"
proof (cases "dp_in_orphan_dir x")
  case True
  have N: "dp_dirent x < N" "dp_dot_dot x < N" "icount_ok (ost_icount_refs ost)" "b_total_bits (ic_single_bm (ost_icount_refs ost)) = N"
    using inv x by (auto simp: pass3_inv_def)
  have "\<exists>r. (if dp_dot_dot x \<noteq> 0 then o2fsck_icount_delta (lib_junk lib) (ost_icount_refs ost) (dp_dot_dot x) (- 1)
      else Some (ost_icount_refs ost)) = Some r \<and> icount_ok r \<and> b_total_bits (ic_single_bm r) = N"
    using refs_delta [OF N(3,4,2), of "lib_junk lib" "- 1"] N by auto
  then obtain r where r: "(if dp_dot_dot x \<noteq> 0 then o2fsck_icount_delta (lib_junk lib) (ost_icount_refs ost) (dp_dot_dot x) (- 1)
      else Some (ost_icount_refs ost)) = Some r" "icount_ok r" "b_total_bits (ic_single_bm r) = N" by blast
  from refs_delta [OF r(2,3) N(1), of "lib_junk lib" 1] obtain refs where
    refs: "o2fsck_icount_delta (lib_junk lib) r (dp_dirent x) 1 = Some refs" "icount_ok refs" "b_total_bits (ic_single_bm refs) = N" by blast
  have k1: "keeps N ost (ost\<lparr>ost_icount_refs := refs\<rparr>)" by (rule refs_keeps [OF inv refs(2,3)])
  then have inv1: "pass3_inv N (ost\<lparr>ost_icount_refs := refs\<rparr>)" by (simp add: keeps_def)
  have x1: "dirs (ost\<lparr>ost_icount_refs := refs\<rparr>) k = Some x" using x by simp
  note put = put_dir [OF inv1 x1, of "\<lambda>dp. dp\<lparr>dp_dot_dot := dp_dirent dp\<rparr>"]
  have "cores (ost\<lparr>ost_icount_refs := refs\<rparr>) = cores ost" by (simp add: cores_def fun_eq_iff)
  moreover have "(cores ost)(k \<mapsto> core (x\<lparr>dp_dot_dot := dp_dirent x\<rparr>)) = cores ost"
    using cores_dirs [OF x] by (auto simp: core_def)
  ultimately show ?thesis using True r(1) refs(1) put(1,2) N(1) keeps_trans [OF k1]
    by (auto simp: adopt_orphan_def)
next
  case False
  then show ?thesis using inv by (simp add: adopt_orphan_def keeps_refl)
qed

lemma check_dot_dot_ok:
  assumes inv: "pass3_inv N ost" and lib: "lib_in_range N lib" and x: "dirs ost k = Some x"
  shows "\<exists>ost'. check_dot_dot lib ost k x = Some ost' \<and> keeps N ost ost' \<and> cores ost' = cores ost \<and> ost_lostfound_ino ost' = ost_lostfound_ino ost"
proof -
  obtain ans d where p: "lib_prompt lib (disk ost) PR_DIR_DOTDOT k = (ans, d)" by fastforce
  have k1: "keeps N ost (ost\<lparr>disk := d\<rparr>)" using inv by (simp add: keeps_def pass3_inv_def)
  then have inv1: "pass3_inv N (ost\<lparr>disk := d\<rparr>)" by (simp add: keeps_def)
  have c: "cores (ost\<lparr>disk := d\<rparr>) = cores ost" by (simp add: cores_def fun_eq_iff)
  show ?thesis
    using fix_dot_dot_ok [OF inv1 lib, of k x] x p k1 c keeps_trans [OF k1] keeps_refl [OF inv]
    by (auto simp: check_dot_dot_def)
qed

text \<open>The steps after the walk do not touch the connections.\<close>

lemma connect_directory_after_walk:
  assumes inv: "pass3_inv N ost" and lib: "lib_in_range N lib"
    and walk: "connect_walk lib (ost\<lparr>loop_no := add64 (loop_no ost) 1\<rparr>) k = Some (err, ost1)"
    and k1: "keeps N (ost\<lparr>loop_no := add64 (loop_no ost) 1\<rparr>) ost1" and x: "dirs ost1 k \<noteq> None"
  shows "\<exists>ost'. connect_directory lib ost k = Some (err, ost') \<and> keeps N ost1 ost' \<and> cores ost' = cores ost1 \<and> ost_lostfound_ino ost' = ost_lostfound_ino ost1"
proof (cases err)
  case None
  have inv1: "pass3_inv N ost1" using k1 by (simp add: keeps_def)
  obtain x where x: "dirs ost1 k = Some x" using x by blast
  obtain ost2 where a: "adopt_orphan lib ost1 k x = Some ost2" "keeps N ost1 ost2" "cores ost2 = cores ost1" "ost_lostfound_ino ost2 = ost_lostfound_ino ost1"
    using adopt_orphan_ok [OF inv1 x] by blast
  have inv2: "pass3_inv N ost2" using a(2) by (simp add: keeps_def)
  obtain x2 where x2: "dirs ost2 k = Some x2"
    using a(3) cores_dirs [OF x] by (metis cores_dirsE)
  obtain ost3 where b: "check_dot_dot lib ost2 k x2 = Some ost3" "keeps N ost2 ost3" "cores ost3 = cores ost2" "ost_lostfound_ino ost3 = ost_lostfound_ino ost2"
    using check_dot_dot_ok [OF inv2 lib x2] by blast
  show ?thesis using None walk x a b x2 dirs_get [OF inv1] dirs_get [OF inv2] keeps_trans [OF a(2) b(2)]
    by (simp add: connect_directory_def)
next
  case (Some e)
  then show ?thesis using walk k1 by (auto simp: connect_directory_def keeps_def)
qed

lemma connect_directory_ok:
  assumes inv: "pass3_inv N ost" and lib: "lib_in_range N lib" and k: "dirs ost k \<noteq> None"
  shows "\<exists>err ost'. connect_directory lib ost k = Some (err, ost') \<and> pass3_inv N ost' \<and>
    fs_root_blkno ost' = fs_root_blkno ost \<and> fs_sysdir_blkno ost' = fs_sysdir_blkno ost \<and> advances ost ost' \<and>
    (\<exists>p l. cores ost' k = Some (p, True, l))"
proof -
  let ?ost = "ost\<lparr>loop_no := add64 (loop_no ost) 1\<rparr>"
  have inv0: "pass3_inv N ?ost" and c0: "cores ?ost = cores ost" using inv by (simp_all add: pass3_inv_def cores_def fun_eq_iff)
  obtain err ost1 where w: "connect_walk lib ?ost k = Some (err, ost1)" "keeps N ?ost ost1" "advances ?ost ost1"
    "\<exists>p l. cores ost1 k = Some (p, True, l)"
    using connect_walk_ok [OF lib inv0, of k] k by auto
  then have "dirs ost1 k \<noteq> None" by (auto simp: cores_def)
  from connect_directory_after_walk [OF inv lib w(1,2) this] obtain ost' where
    r: "connect_directory lib ost k = Some (err, ost')" "keeps N ost1 ost'" "cores ost' = cores ost1" by blast
  have "advances ost ost'" using w(3) r(3) c0 by (simp add: advances_def)
  with r w show ?thesis by (auto simp: keeps_def)
qed

text \<open>The loop takes the directories in increasing order of inode number.\<close>

lemma next_dir_ok:
  assumes t: "dp_tree t" and k: "dp_map t k \<noteq> None"
  shows "next_dir t k = None \<Longrightarrow> dp_map t j \<noteq> None \<Longrightarrow> j \<le> k"
    and "next_dir t k = Some n \<Longrightarrow> k < n \<and> dp_map t n \<noteq> None \<and> (\<forall>j. dp_map t j \<noteq> None \<longrightarrow> j \<le> k \<or> n \<le> j)"
proof -
  obtain x z where z: "o2fsck_dir_parent_lookup t k = Some z" "rb_elem z = Some x" "whole z = t" "dp_ino x = k"
    using k dir_parent_lookup_ok(2) [OF t, of k] dp_map_ino by blast
  have ino: "inorder t = before z @ x # after z" using inorder_whole [OF z(2)] z(3) by simp
  have sorted: "sorted_wrt (\<lambda>x y. dp_ino x < dp_ino y) (before z @ x # after z)"
    using t ino by (simp add: sorted_tree_def)
  have mem: "dp_map t j \<noteq> None \<longleftrightarrow> j \<in> dp_ino ` set (inorder t)" for j
    by (auto simp: tmap_def map_of_eq_None_iff image_iff)
  show "next_dir t k = None \<Longrightarrow> dp_map t j \<noteq> None \<Longrightarrow> j \<le> k"
  proof -
    assume none: "next_dir t k = None" and j: "dp_map t j \<noteq> None"
    have "rb_next z = None"
      using none z rb_next_pos(2) [OF z(2)]
      by (auto simp: next_dir_def o2fsck_dir_parent_next_def split: option.splits)
    then have "after z = []" using rb_next_pos(1) [OF z(2)] by simp
    then show "j \<le> k" using j sorted z(4) unfolding mem ino by (auto simp: sorted_wrt_append)
  qed
  assume "next_dir t k = Some n"
  then obtain z' where z': "rb_next z = Some z'" "map_option dp_ino (rb_elem z') = Some n"
    using z(1) by (auto simp: next_dir_def o2fsck_dir_parent_next_def split: option.splits)
  then obtain y where y: "after z = y # after z'" "n = dp_ino y"
    using rb_next_pos(2) [OF z(2) z'(1)] by auto
  show "k < n \<and> dp_map t n \<noteq> None \<and> (\<forall>j. dp_map t j \<noteq> None \<longrightarrow> j \<le> k \<or> n \<le> j)"
    using sorted y z(4) unfolding mem ino by (auto simp: sorted_wrt_append)
qed

lemma dirs_cores: "dirs ost k = None \<longleftrightarrow> cores ost k = None"
  by (simp add: cores_def)

lemma finite_dirs: "finite {j. dp_map t j \<noteq> None \<and> k < j}"
proof -
  have "{j. dp_map t j \<noteq> None \<and> k < j} \<subseteq> dp_ino ` set (inorder t)"
    by (auto simp: tmap_def image_iff dest!: map_of_SomeD)
  then show ?thesis by (rule finite_subset) simp
qed

lemma next_dir_fewer:
  assumes "k < n" and "\<And>j. dp_map t' j = None \<longleftrightarrow> dp_map t j = None" and "dp_map t n \<noteq> None"
  shows "card {j. dp_map t' j \<noteq> None \<and> n < j} < card {j. dp_map t j \<noteq> None \<and> k < j}"
  using assms by (intro psubset_card_mono finite_dirs) auto

lemma connect_all_ok:
  assumes lib: "lib_in_range N lib"
  shows "pass3_inv N ost \<Longrightarrow> dirs ost k \<noteq> None \<Longrightarrow>
    (\<And>j. dirs ost j \<noteq> None \<Longrightarrow> j < k \<Longrightarrow> \<exists>p l. cores ost j = Some (p, True, l)) \<Longrightarrow>
    \<exists>err ost'. connect_all lib ost (Some k) = Some (err, ost') \<and> pass3_inv N ost' \<and> advances ost ost' \<and>
      (err = None \<longrightarrow> (\<forall>j x. dirs ost' j = Some x \<longrightarrow> dp_connected x))"
proof (induction "card {j. dirs ost j \<noteq> None \<and> k < j}" arbitrary: ost k rule: less_induct)
  case less
  obtain err ost1 where d: "connect_directory lib ost k = Some (err, ost1)" "pass3_inv N ost1" "advances ost ost1"
    "\<exists>p l. cores ost1 k = Some (p, True, l)"
    using connect_directory_ok [OF less.prems(1) lib less.prems(2)] by blast
  have t1: "dp_tree (ost_dir_parents ost1)" using d(2) by (simp add: pass3_inv_def)
  have same: "dirs ost1 j = None \<longleftrightarrow> dirs ost j = None" for j
    using d(3) by (simp add: dirs_cores advances_def)
  have seen: "\<exists>p l. cores ost1 j = Some (p, True, l)" if "dirs ost1 j \<noteq> None" "j \<le> k" for j
    using less.prems(3) [of j] that same d(3,4) by (cases "j = k") (auto simp: advances_def)
  have k1: "dirs ost1 k \<noteq> None" using same less.prems(2) by simp
  show ?case
  proof (cases err)
    case (Some e)
    then show ?thesis using d by (auto simp: connect_all.simps [of lib ost])
  next
    case None
    show ?thesis
    proof (cases "next_dir (ost_dir_parents ost1) k")
      case nx: None
      then have "\<forall>j x. dirs ost1 j = Some x \<longrightarrow> dp_connected x"
        using next_dir_ok(1) [OF t1 k1 nx] seen by (fastforce simp: cores_def core_def)
      with None nx d show ?thesis by (simp add: connect_all.simps [of lib ost] connect_all.simps [of lib ost1])
    next
      case nx: (Some n)
      note n = next_dir_ok(2) [OF t1 k1 nx]
      have "card {j. dirs ost1 j \<noteq> None \<and> n < j} < card {j. dirs ost j \<noteq> None \<and> k < j}"
        using n same by (intro next_dir_fewer) auto
      from less.hyps [OF this d(2)] n seen obtain err' ost' where
        "connect_all lib ost1 (Some n) = Some (err', ost')" "pass3_inv N ost'" "advances ost1 ost'"
        "err' = None \<longrightarrow> (\<forall>j x. dirs ost' j = Some x \<longrightarrow> dp_connected x)"
        by (metis leD linorder_not_less)
      with None nx d(1) advances_trans [OF d(3)] show ?thesis by (simp add: connect_all.simps [of lib ost])
    qed
  qed
qed

lemma record_new_dir_ok:
  assumes inv: "pass3_inv N ost" and b: "blkno < N" and l: "links < 2 ^ 16"
  shows "\<exists>err ost'. record_new_dir lib ost blkno links = Some (err, ost') \<and> pass3_inv N ost'"
proof -
  let ?root = "fs_root_blkno ost"
  have t: "dp_tree (ost_dir_parents ost)" and root: "?root < N" using inv by (simp_all add: pass3_inv_def)
  obtain ins where ins: "o2fsck_icount_set (lib_junk lib) (ost_icount_in_inodes ost) blkno links = Some ins"
    "icount_ok ins" "b_total_bits (ic_single_bm ins) = N"
    using icount_set_ok [of "ost_icount_in_inodes ost" blkno links] inv b l by (force simp: pass3_inv_def)
  obtain refs where refs: "o2fsck_icount_set (lib_junk lib) (ost_icount_refs ost) blkno links = Some refs"
    "icount_ok refs" "b_total_bits (ic_single_bm refs) = N"
    using icount_set_ok [of "ost_icount_refs ost" blkno links] inv b l by (force simp: pass3_inv_def)
  let ?ost = "ost\<lparr>ost_icount_in_inodes := ins, ost_icount_refs := refs\<rparr>"
  have inv1: "pass3_inv N ?ost" using inv ins refs by (simp add: pass3_inv_def)
  show ?thesis
  proof (cases "dirs ost blkno")
    case None
    then obtain t' where t': "o2fsck_add_dir_parent (ost_dir_parents ost) blkno ?root ?root 0 = Some (Inr t')" "dp_tree t'"
      "dp_map t' = (dirs ost)(blkno \<mapsto> new_dir_parent blkno ?root ?root 0)"
      using add_dir_parent_ok [OF t, of blkno ?root ?root 0] by auto
    have "pass3_inv N (?ost\<lparr>ost_dir_parents := t'\<rparr>)"
      using inv1 t' b root by (auto simp: pass3_inv_def)
    with ins refs t' show ?thesis by (simp add: record_new_dir_def)
  next
    case (Some x)
    with add_dir_parent_ok [OF t, of blkno ?root ?root 0] ins refs inv1 show ?thesis
      by (simp add: record_new_dir_def)
  qed
qed

lemma disk_inv: "pass3_inv N ost \<Longrightarrow> pass3_inv N (ost\<lparr>disk := d\<rparr>)"
  by (simp add: pass3_inv_def)

lemma check_root_ok:
  assumes inv: "pass3_inv N ost" and lib: "lib_in_range N lib"
  shows "\<exists>ost'. check_root lib ost = Some ost' \<and> pass3_inv N ost'"
proof -
  obtain ans d1 where p: "lib_prompt lib (disk ost) PR_ROOT_DIR_MISSING (fs_root_blkno ost) = (ans, d1)" by fastforce
  obtain r d2 where n: "lib_new_inode lib d1 = (r, d2)" by fastforce
  show ?thesis
  proof (cases r)
    case (Inl e)
    then show ?thesis using inv p n disk_inv by (cases ans) (auto simp: check_root_def)
  next
    case (Inr blkno)
    then have b: "blkno < N" using lib n by (auto simp: lib_in_range_def dest: spec [of _ d1])
    obtain i d3 where i: "lib_init_dir lib d2 blkno blkno = (i, d3)" by fastforce
    obtain err ost1 where rec: "record_new_dir lib (ost\<lparr>disk := d3\<rparr>) blkno 1 = Some (err, ost1)" "pass3_inv N ost1"
      using record_new_dir_ok [OF disk_inv [OF inv, of d3] b, where links = 1 and lib = lib] by auto
    obtain w d4 where w: "lib_write_super lib (disk ost1) blkno = (w, d4)" by fastforce
    have inv2: "pass3_inv N (ost1\<lparr>fs_root_blkno := blkno, disk := d4\<rparr>)" using rec(2) b by (simp add: pass3_inv_def)
    show ?thesis
      using inv p n Inr i rec w inv2 disk_inv
      by (cases ans; cases i; cases err; cases w) (auto simp: check_root_def)
  qed
qed

lemma check_lostfound_ok:
  assumes inv: "pass3_inv N ost" and lib: "lib_in_range N lib"
  shows "\<exists>ost'. check_lostfound lib ost = Some ost' \<and> pass3_inv N ost'"
proof (cases "lib_lookup lib (disk ost) (fs_root_blkno ost) ''lost+found''")
  case (Inr ino)
  then have "ino < N" using lib by (auto simp: lib_in_range_def)
  with Inr inv show ?thesis by (simp add: check_lostfound_def pass3_inv_def)
next
  case lk: (Inl e)
  obtain ans d1 where p: "lib_prompt lib (disk ost) PR_LOSTFOUND_MISSING 0 = (ans, d1)" by fastforce
  obtain r d2 where n: "lib_new_inode lib d1 = (r, d2)" by fastforce
  show ?thesis
  proof (cases r)
    case (Inl e)
    then show ?thesis using lk inv p n disk_inv by (cases ans) (auto simp: check_lostfound_def)
  next
    case (Inr blkno)
    then have b: "blkno < N" using lib n by (auto simp: lib_in_range_def dest: spec [of _ d1])
    obtain i d3 where i: "lib_init_dir lib d2 blkno (fs_root_blkno ost) = (i, d3)" by fastforce
    obtain l d4 where l: "lib_link lib d3 (fs_root_blkno ost) ''lost+found'' blkno OCFS2_FT_DIR = (l, d4)" by fastforce
    obtain err ost1 where rec: "record_new_dir lib (ost\<lparr>disk := d4\<rparr>) blkno 2 = Some (err, ost1)" "pass3_inv N ost1"
      using record_new_dir_ok [OF disk_inv [OF inv, of d4] b, where links = 2 and lib = lib] by auto
    have inv2: "pass3_inv N (ost1\<lparr>ost_lostfound_ino := blkno\<rparr>)" using rec(2) b by (simp add: pass3_inv_def)
    show ?thesis
      using lk inv p n Inr i l rec inv2 disk_inv
      by (cases ans; cases i; cases l; cases err) (auto simp: check_lostfound_def)
  qed
qed

lemma first_dir_ok:
  assumes t: "dp_tree t"
  shows "case o2fsck_dir_parent_first t of None \<Rightarrow> dp_map t = Map.empty
    | Some z \<Rightarrow> \<exists>k. map_option dp_ino (rb_elem z) = Some k \<and> dp_map t k \<noteq> None \<and> (\<forall>j. dp_map t j \<noteq> None \<longrightarrow> k \<le> j)"
proof (cases "rb_first t")
  case None
  then show ?thesis using rb_first_pos(1) [of t] by (simp add: o2fsck_dir_parent_first_def)
next
  case (Some z)
  then obtain x where x: "rb_elem z = Some x" "inorder t = x # after z" using rb_first_pos(2) [OF Some] by auto
  have mem: "dp_map t j \<noteq> None \<longleftrightarrow> j \<in> dp_ino ` set (inorder t)" for j
    by (auto simp: tmap_def map_of_eq_None_iff image_iff)
  have "sorted_wrt (\<lambda>x y. dp_ino x < dp_ino y) (x # after z)" using t x(2) by (simp add: sorted_tree_def)
  then have "dp_map t (dp_ino x) \<noteq> None \<and> (\<forall>j. dp_map t j \<noteq> None \<longrightarrow> dp_ino x \<le> j)"
    unfolding mem x(2) by auto
  then show ?thesis using Some x(1) by (simp add: o2fsck_dir_parent_first_def)
qed

text \<open>The last part of the pass, after both required directories were found.\<close>

definition first_dir :: "dir_parents \<Rightarrow> nat option" where
  "first_dir t = (case o2fsck_dir_parent_first t of None \<Rightarrow> None | Some z \<Rightarrow> map_option dp_ino (rb_elem z))"

lemma first_dir_least:
  assumes "dp_tree t" and "dp_map t j \<noteq> None"
  obtains k where "first_dir t = Some k" "dp_map t k \<noteq> None" "\<And>j. dp_map t j \<noteq> None \<Longrightarrow> k \<le> j"
  using first_dir_ok [OF assms(1)] assms(2) by (auto simp: first_dir_def split: option.splits)

lemma pass3_cases:
  assumes inv: "pass3_inv N ost2" and r: "check_root lib ost = Some ost1" "check_lostfound lib ost1 = Some ost2"
    and root: "dirs ost2 (fs_root_blkno ost2) \<noteq> None" and sys: "dirs ost2 (fs_sysdir_blkno ost2) \<noteq> None"
  defines "ost4 \<equiv> mark_connected (mark_connected ost2 (fs_root_blkno ost2)) (fs_sysdir_blkno ost2)"
  shows "o2fsck_pass3 lib ost = connect_all lib ost4 (first_dir (ost_dir_parents ost4))"
    and "keeps N ost2 ost4" and "\<exists>px lx py ly. cores ost4 = (cores ost2)(fs_root_blkno ost2 \<mapsto> (px, True, lx), fs_sysdir_blkno ost2 \<mapsto> (py, True, ly)) \<and>
      (\<exists>c. cores ost2 (fs_root_blkno ost2) = Some (px, c, lx)) \<and> (\<exists>c. cores ost2 (fs_sysdir_blkno ost2) = Some (py, c, ly))"
proof -
  let ?ost3 = "mark_connected ost2 (fs_root_blkno ost2)"
  obtain x where x: "dirs ost2 (fs_root_blkno ost2) = Some x" using root by blast
  note m = mark_connected_ok [OF inv x]
  have inv3: "pass3_inv N ?ost3" and sb: "fs_sysdir_blkno ?ost3 = fs_sysdir_blkno ost2" using m(1) by (auto simp: keeps_def)
  obtain y where y: "dirs ?ost3 (fs_sysdir_blkno ost2) = Some y" using sys m(3) by (cases "fs_sysdir_blkno ost2 = fs_root_blkno ost2") auto
  note n = mark_connected_ok [OF inv3 y, folded ost4_def]
  show "o2fsck_pass3 lib ost = connect_all lib ost4 (first_dir (ost_dir_parents ost4))"
    using r x y dirs_get [OF inv] dirs_get [OF inv3] sb
    by (simp add: o2fsck_pass3_def Let_def ost4_def first_dir_def)
  show "keeps N ost2 ost4" using keeps_trans [OF m(1) n(1)] .
  have "\<exists>c. cores ost2 (fs_sysdir_blkno ost2) = Some (dp_dirent y, c, dp_loop_no y)"
    using y m(3) x by (auto simp: cores_def core_def split: if_splits)
  moreover have "cores ost4 = (cores ost2)(fs_root_blkno ost2 \<mapsto> (dp_dirent x, True, dp_loop_no x),
      fs_sysdir_blkno ost2 \<mapsto> (dp_dirent y, True, dp_loop_no y))" by (simp only: n(2) m(2))
  ultimately show "\<exists>px lx py ly. cores ost4 = (cores ost2)(fs_root_blkno ost2 \<mapsto> (px, True, lx), fs_sysdir_blkno ost2 \<mapsto> (py, True, ly)) \<and>
      (\<exists>c. cores ost2 (fs_root_blkno ost2) = Some (px, c, lx)) \<and> (\<exists>c. cores ost2 (fs_sysdir_blkno ost2) = Some (py, c, ly))"
    using cores_dirs [OF x] by blast
qed

section \<open>The pass connects every directory\<close>

definition parents :: "('d, 'x) o2fsck_state_scheme \<Rightarrow> nat \<rightharpoonup> nat" where
  "parents ost k = map_option dp_dirent (dirs ost k)"

text \<open>A directory hangs off a set of directories if the entries that point upwards lead there.\<close>

inductive hangs_off :: "(nat \<rightharpoonup> nat) \<Rightarrow> nat set \<Rightarrow> nat \<Rightarrow> bool" for P R where
  hangs_base: "k \<in> R \<Longrightarrow> hangs_off P R k"
| hangs_step: "P k = Some p \<Longrightarrow> p \<noteq> 0 \<Longrightarrow> hangs_off P R p \<Longrightarrow> hangs_off P R k"

lemma hangs_mono:
  assumes "hangs_off P R k" and "\<And>k p. P k = Some p \<Longrightarrow> p \<noteq> 0 \<Longrightarrow> P' k = Some p"
  shows "hangs_off P' R k"
  using assms by (induction) (auto intro: hangs_off.intros)

lemma parents_cores: "parents ost k = map_option fst (cores ost k)"
  by (simp add: parents_def cores_def core_def option.map_comp comp_def)

text \<open>The answers for which the pass is expected to repair: the user agrees, and linking works.\<close>

definition lib_repairs :: "'d pass3_lib \<Rightarrow> bool" where
  "lib_repairs lib \<longleftrightarrow>
     (\<forall>d k. fst (lib_prompt lib d PR_DIR_NOT_CONNECTED k)) \<and>
     (\<forall>d k. lib_type_from_dinode lib d k = Inr OCFS2_FT_DIR) \<and>
     (\<forall>d p n k t. \<not> isl (fst (lib_link lib d p n k t)))"

lemma reconnect_repairs:
  assumes inv: "pass3_inv N ost" and rep: "lib_repairs lib" and x: "dirs ost k = Some x" and lf: "ost_lostfound_ino ost \<noteq> 0"
  shows "\<exists>ost'. reconnect_prompt lib ost k = Some ost' \<and> keeps N ost ost' \<and> ost_lostfound_ino ost' = ost_lostfound_ino ost \<and>
    cores ost' = (cores ost)(k \<mapsto> (ost_lostfound_ino ost, dp_connected x, dp_loop_no x))"
proof -
  let ?lf = "ost_lostfound_ino ost"
  obtain d where p: "lib_prompt lib (disk ost) PR_DIR_NOT_CONNECTED k = (True, d)"
    using rep by (metis lib_repairs_def prod.collapse)
  obtain u d' where l: "lib_link lib d ?lf (lib_inode_name lib k) k OCFS2_FT_DIR = (Inr u, d')"
    using rep by (metis lib_repairs_def prod.collapse sum.collapse(2))
  have N: "?lf < N" "k < N" "dp_dot_dot x < N" "icount_ok (ost_icount_refs ost)" "b_total_bits (ic_single_bm (ost_icount_refs ost)) = N"
    using inv x by (auto simp: pass3_inv_def)
  obtain refs where refs: "o2fsck_icount_delta (lib_junk lib) (ost_icount_refs ost) k 1 = Some refs"
    "icount_ok refs" "b_total_bits (ic_single_bm refs) = N"
    using refs_delta [OF N(4,5,2)] by blast
  define ost1 where "ost1 = ost\<lparr>disk := d', ost_icount_refs := refs\<rparr>"
  have k1: "keeps N ost ost1" using inv refs by (simp add: ost1_def keeps_def pass3_inv_def)
  then have inv1: "pass3_inv N ost1" by (simp add: keeps_def)
  have x1: "dirs ost1 k = Some x" and c1: "cores ost1 = cores ost" using x by (simp_all add: ost1_def cores_def fun_eq_iff)
  note put = put_dir [OF inv1 x1, of "\<lambda>dp. dp\<lparr>dp_dirent := ?lf\<rparr>"]
  have "reconnect_prompt lib ost k = Some (ost1\<lparr>ost_dir_parents := dp_put (ost_dir_parents ost1) k (\<lambda>dp. dp\<lparr>dp_dirent := ?lf\<rparr>)\<rparr>)"
    using p l lf rep refs(1) dirs_get [OF inv] x
    by (simp add: reconnect_prompt_def o2fsck_reconnect_file_def lib_repairs_def ost1_def)
  with put(1,2) N keeps_trans [OF k1] c1 show ?thesis by (simp add: core_def) (simp add: ost1_def)
qed

text \<open>What a walk does to the records: it marks, and gives a parent only to those that had none.\<close>

definition walked :: "'d o2fsck_state \<Rightarrow> 'd o2fsck_state \<Rightarrow> bool" where
  "walked ost ost' \<longleftrightarrow> loop_no ost' = loop_no ost \<and> ost_lostfound_ino ost' = ost_lostfound_ino ost \<and>
     (\<forall>k. cores ost k = None \<longrightarrow> cores ost' k = None) \<and>
     (\<forall>k p c l. cores ost k = Some (p, c, l) \<longrightarrow>
        (\<exists>p' c' l'. cores ost' k = Some (p', c', l') \<and> (p \<noteq> 0 \<or> \<not> c' \<longrightarrow> p' = p) \<and> (c \<longrightarrow> c') \<and>
           (l' = l \<or> l' = loop_no ost)))"

lemma walked_refl: "walked ost ost"
  by (auto simp: walked_def)

lemma walked_trans:
  assumes "walked a b" and "walked b c"
  shows "walked a c"
  unfolding walked_def
proof (intro conjI allI impI)
  fix k p u l assume "cores a k = Some (p, u, l)"
  then obtain p' u' l' where b: "cores b k = Some (p', u', l')" "p \<noteq> 0 \<or> \<not> u' \<longrightarrow> p' = p" "u \<longrightarrow> u'" "l' = l \<or> l' = loop_no a"
    using assms(1) unfolding walked_def by blast
  then obtain p'' u'' l'' where c: "cores c k = Some (p'', u'', l'')" "p' \<noteq> 0 \<or> \<not> u'' \<longrightarrow> p'' = p'" "u' \<longrightarrow> u''" "l'' = l' \<or> l'' = loop_no b"
    using assms(2) unfolding walked_def by blast
  have "loop_no b = loop_no a" using assms(1) by (simp add: walked_def)
  then have "l'' = l \<or> l'' = loop_no a" using b(4) c(4) by metis
  moreover have "p \<noteq> 0 \<or> \<not> u'' \<longrightarrow> p'' = p" "u \<longrightarrow> u''" using b(2,3) c(2,3) by blast+
  ultimately show "\<exists>p' c' l'. cores c k = Some (p', c', l') \<and> (p \<noteq> 0 \<or> \<not> c' \<longrightarrow> p' = p) \<and> (u \<longrightarrow> c') \<and> (l' = l \<or> l' = loop_no a)"
    using c(1) by blast
qed (use assms in \<open>auto simp: walked_def\<close>)

lemma walked_upd:
  assumes "cores ost k = Some (p, c, l)" and "cores ost' = (cores ost)(k \<mapsto> (p', c', l'))"
    and "p \<noteq> 0 \<or> \<not> c' \<Longrightarrow> p' = p" and "c \<Longrightarrow> c'" and "l' = l \<or> l' = loop_no ost"
    and "loop_no ost' = loop_no ost" and "ost_lostfound_ino ost' = ost_lostfound_ino ost"
  shows "walked ost ost'"
  using assms by (auto simp: walked_def)

lemma walked_hangs:
  assumes "walked ost ost'" and "hangs_off (parents ost) R k"
  shows "hangs_off (parents ost') R k"
proof (rule hangs_mono [OF assms(2)])
  fix j p assume "parents ost j = Some p" "p \<noteq> 0"
  then obtain c l where "cores ost j = Some (p, c, l)" by (auto simp: parents_cores)
  then obtain c' l' where "cores ost' j = Some (p, c', l')"
    using assms(1) \<open>p \<noteq> 0\<close> unfolding walked_def by blast
  then show "parents ost' j = Some p" by (simp add: parents_cores)
qed

text \<open>
  \<open>rank r ost\<close>: the parent of a directory that is not yet connected is recorded and has a smaller rank,
  so that there is no cycle among these directories.
\<close>

definition ranked :: "(nat \<Rightarrow> nat) \<Rightarrow> 'd o2fsck_state \<Rightarrow> bool" where
  "ranked r ost \<longleftrightarrow> (\<forall>k p l. cores ost k = Some (p, False, l) \<longrightarrow> p \<noteq> 0 \<longrightarrow> cores ost p \<noteq> None \<and> r p < r k)"

lemma ranked_walked:
  assumes "walked ost ost'" and "ranked r ost"
  shows "ranked r ost'"
  unfolding ranked_def
proof (intro allI impI)
  fix k p l assume k: "cores ost' k = Some (p, False, l)" "p \<noteq> 0"
  obtain q c m where q: "cores ost k = Some (q, c, m)"
    using assms(1) k(1) unfolding walked_def by (metis option.distinct(1) prod_cases3 not_Some_eq)
  then have "\<not> c \<and> p = q"
    using assms(1) k(1) unfolding walked_def by (metis option.inject prod.inject)
  then have "cores ost k = Some (p, False, m)" using q by simp
  then have "cores ost p \<noteq> None \<and> r p < r k" using assms(2) k(2) unfolding ranked_def by blast
  then show "cores ost' p \<noteq> None \<and> r p < r k"
    using assms(1) unfolding walked_def by (metis option.distinct(1) prod_cases3 not_Some_eq)
qed

definition connected_hang :: "nat set \<Rightarrow> nat set \<Rightarrow> 'd o2fsck_state \<Rightarrow> bool" where
  "connected_hang R W ost \<longleftrightarrow> (\<forall>k p l. cores ost k = Some (p, True, l) \<longrightarrow> k \<in> W \<or> hangs_off (parents ost) R k)"

lemma walk_connects:
  assumes lib: "lib_repairs lib"
  shows "pass3_inv N ost \<Longrightarrow> dirs ost dp \<noteq> None \<Longrightarrow> ost_lostfound_ino ost \<noteq> 0 \<Longrightarrow>
    hangs_off (parents ost) R (ost_lostfound_ino ost) \<Longrightarrow> ranked r ost \<Longrightarrow> connected_hang R W ost \<Longrightarrow>
    (\<And>w. w \<in> W \<Longrightarrow> r dp < r w) \<Longrightarrow>
    (\<And>k p c. cores ost k = Some (p, c, loop_no ost) \<Longrightarrow> r dp \<le> r k) \<Longrightarrow>
    \<exists>ost'. connect_walk lib ost dp = Some (None, ost') \<and> keeps N ost ost' \<and> walked ost ost' \<and>
      hangs_off (parents ost') R dp \<and> connected_hang R W ost'"
proof (induction "r dp" arbitrary: ost dp W rule: less_induct)
  case less
  note inv = less.prems(1) and lf = less.prems(3) and lfh = less.prems(4)
  obtain x where x: "dirs ost dp = Some x" using less.prems(2) by blast
  note cx = cores_dirs [OF x]
  show ?case
  proof (cases "dp_connected x")
    case True
    then have "hangs_off (parents ost) R dp"
      using less.prems(6) cx less.prems(7) [of dp] unfolding connected_hang_def by auto
    then show ?thesis using connect_walk_stop [OF inv x True] inv less.prems(6)
      by (auto simp: keeps_refl walked_refl)
  next
    case False
    define ost1 where "ost1 = mark_connected ost dp"
    note m = mark_connected_ok [OF inv x, folded ost1_def]
    have inv1: "pass3_inv N ost1" and ln: "loop_no ost1 = loop_no ost" using m(1) by (auto simp: keeps_def)
    have lf1: "ost_lostfound_ino ost1 = ost_lostfound_ino ost" by (simp add: ost1_def)
    have w1: "walked ost ost1" using cx m(2) ln lf1 by (intro walked_upd) auto
    have x1: "dirs ost1 dp = Some (x\<lparr>dp_connected := True\<rparr>)" using m(3) by simp
    have par1: "parents ost1 = parents ost" using m(3) x by (auto simp: parents_def fun_eq_iff)
    have ch1: "connected_hang R (insert dp W) ost1"
      using less.prems(6) m(2) par1 by (auto simp: connected_hang_def)
    note round = connect_walk_round [OF inv x False, of lib, folded ost1_def]
    show ?thesis
    proof (cases "dp_dirent x = 0")
      case True
      obtain ost' where r: "reconnect_prompt lib ost1 dp = Some ost'" "keeps N ost1 ost'"
        "ost_lostfound_ino ost' = ost_lostfound_ino ost1"
        "cores ost' = (cores ost1)(dp \<mapsto> (ost_lostfound_ino ost1, True, dp_loop_no x))"
        using reconnect_repairs [OF inv1 lib x1] lf lf1 by auto
      have "walked ost1 ost'"
        using r m(2) True by (intro walked_upd [of ost1 dp 0 True "dp_loop_no x"]) (auto simp: keeps_def)
      with w1 have w: "walked ost ost'" by (rule walked_trans)
      have "hangs_off (parents ost') R (ost_lostfound_ino ost)" using walked_hangs [OF w lfh] .
      then have dp: "hangs_off (parents ost') R dp"
        using r(4) lf lf1 by (intro hangs_step [of _ dp "ost_lostfound_ino ost"]) (simp_all add: parents_cores)
      have "connected_hang R W ost'"
        unfolding connected_hang_def
      proof (intro allI impI)
        fix k p l assume k: "cores ost' k = Some (p, True, l)"
        show "k \<in> W \<or> hangs_off (parents ost') R k"
        proof (cases "k = dp")
          case False
          then have "cores ost k = Some (p, True, l)" using k r(4) m(2) by simp
          then show ?thesis using less.prems(6) walked_hangs [OF w] unfolding connected_hang_def by blast
        qed (use dp in simp)
      qed
      with round True r(1) keeps_trans [OF m(1) r(2)] w dp show ?thesis by auto
    next
      case dirent: False
      have "cores ost dp = Some (dp_dirent x, False, dp_loop_no x)" using cx False by simp
      then have rank: "cores ost (dp_dirent x) \<noteq> None" "r (dp_dirent x) < r dp"
        using less.prems(5) dirent unfolding ranked_def by blast+
      then have ne: "dp_dirent x \<noteq> dp" by auto
      obtain par where par: "dirs ost1 (dp_dirent x) = Some par" "dirs ost (dp_dirent x) = Some par"
        using rank(1) m(3) ne by (auto simp: cores_def)
      have loop: "dp_loop_no par \<noteq> loop_no ost"
        using less.prems(8) [of "dp_dirent x"] cores_dirs [OF par(2)] rank(2) by auto
      define ost2 where "ost2 = mark_loop ost1 (dp_dirent x)"
      note m2 = mark_loop_ok [OF inv1 par(1), folded ost2_def]
      have inv2: "pass3_inv N ost2" and ln2: "loop_no ost2 = loop_no ost" using m2(1) ln by (auto simp: keeps_def)
      have lf2: "ost_lostfound_ino ost2 = ost_lostfound_ino ost" by (simp add: ost2_def ost1_def)
      have w12: "walked ost1 ost2"
        by (rule walked_upd [OF cores_dirs [OF par(1)] m2(2)]) (simp_all add: ln ln2 lf1 lf2)
      with w1 have w2: "walked ost ost2" by (rule walked_trans)
      have par2: "parents ost2 = parents ost1" using m2(3) par(1) by (auto simp: parents_def fun_eq_iff)
      have "cores ost2 k = Some (p, True, l) \<Longrightarrow> \<exists>l'. cores ost1 k = Some (p, True, l')" for k p l
        using m2(2) cores_dirs [OF par(1)] by (auto split: if_splits)
      then have ch2: "connected_hang R (insert dp W) ost2"
        using ch1 unfolding connected_hang_def par2 by blast
      have visited: "r (dp_dirent x) \<le> r k" if k: "cores ost2 k = Some (p, c, loop_no ost2)" for k p c
      proof (cases "k = dp_dirent x \<or> k = dp")
        case False
        then have "cores ost k = Some (p, c, loop_no ost)" using k m(2) m2(2) ln2 by simp
        then show ?thesis using less.prems(8) [of k] rank(2) by fastforce
      qed (use rank(2) in auto)
      have wl: "\<And>w. w \<in> insert dp W \<Longrightarrow> r (dp_dirent x) < r w"
        using less.prems(7) rank(2) by (metis insertE less_trans)
      have lfh2: "hangs_off (parents ost2) R (ost_lostfound_ino ost2)" using walked_hangs [OF w2 lfh] lf2 by simp
      have d2: "dirs ost2 (dp_dirent x) \<noteq> None" using m2(3) by simp
      have "\<exists>ost'. connect_walk lib ost2 (dp_dirent x) = Some (None, ost') \<and> keeps N ost2 ost' \<and> walked ost2 ost' \<and>
          hangs_off (parents ost') R (dp_dirent x) \<and> connected_hang R (insert dp W) ost'"
        using lf lf2 wl visited
        by (intro less.hyps [OF rank(2) inv2 d2 _ lfh2 ranked_walked [OF w2 less.prems(5)] ch2]) auto
      then obtain ost' where r: "connect_walk lib ost2 (dp_dirent x) = Some (None, ost')" "keeps N ost2 ost'"
        "walked ost2 ost'" "hangs_off (parents ost') R (dp_dirent x)" "connected_hang R (insert dp W) ost'" by blast
      have w: "walked ost ost'" using walked_trans [OF w2 r(3)] .
      then obtain c l where "cores ost' dp = Some (dp_dirent x, c, l)"
        using cx dirent unfolding walked_def by blast
      then have dp: "hangs_off (parents ost') R dp"
        using r(4) dirent by (intro hangs_step [of _ dp "dp_dirent x"]) (simp_all add: parents_cores)
      then have "connected_hang R W ost'" using r(5) unfolding connected_hang_def by blast
      moreover have "connect_walk lib ost dp = Some (None, ost')"
        using round dirent par(1) loop r(1) by (simp add: ost2_def)
      ultimately show ?thesis using keeps_trans [OF m(1) keeps_trans [OF m2(1) r(2)]] w dp by blast
    qed
  qed
qed

text \<open>The state between two directories of the loop.\<close>

definition pass3_good :: "nat \<Rightarrow> nat set \<Rightarrow> (nat \<Rightarrow> nat) \<Rightarrow> 'd o2fsck_state \<Rightarrow> bool" where
  "pass3_good N R r ost \<longleftrightarrow> pass3_inv N ost \<and> ost_lostfound_ino ost \<noteq> 0 \<and>
     hangs_off (parents ost) R (ost_lostfound_ino ost) \<and> ranked r ost \<and> connected_hang R {} ost \<and>
     (\<forall>k p c l. cores ost k = Some (p, c, l) \<longrightarrow> l \<le> loop_no ost)"

lemma connect_directory_connects:
  assumes lib: "lib_in_range N lib" "lib_repairs lib" and good: "pass3_good N R r ost" and k: "dirs ost k \<noteq> None"
    and ln: "loop_no ost + 1 < 2 ^ 64"
  shows "\<exists>ost'. connect_directory lib ost k = Some (None, ost') \<and> pass3_good N R r ost' \<and> loop_no ost' = loop_no ost + 1"
proof -
  define ost0 where "ost0 = ost\<lparr>loop_no := loop_no ost + 1\<rparr>"
  have add: "add64 (loop_no ost) 1 = loop_no ost + 1" using ln by (simp add: add64_eq)
  have inv: "pass3_inv N ost" using good by (simp add: pass3_good_def)
  have c0: "cores ost0 = cores ost" "parents ost0 = parents ost" by (simp_all add: ost0_def cores_def parents_def fun_eq_iff)
  have inv0: "pass3_inv N ost0" using inv by (simp add: ost0_def pass3_inv_def)
  have fresh: "r k \<le> r j" if "cores ost0 j = Some (p, c, loop_no ost0)" for j p c
    using good that unfolding pass3_good_def c0 by (fastforce simp: ost0_def)
  have "\<exists>ost1. connect_walk lib ost0 k = Some (None, ost1) \<and> keeps N ost0 ost1 \<and> walked ost0 ost1 \<and>
      hangs_off (parents ost1) R k \<and> connected_hang R {} ost1"
    using good k fresh inv0
    by (intro walk_connects [OF lib(2), of N ost0 k R r "{}"])
      (auto simp: pass3_good_def c0 ranked_def connected_hang_def, auto simp: ost0_def)
  then obtain ost1 where w: "connect_walk lib ost0 k = Some (None, ost1)" "keeps N ost0 ost1" "walked ost0 ost1"
    "connected_hang R {} ost1" by blast
  have "dirs ost1 k \<noteq> None"
    using w(3) k unfolding dirs_cores walked_def c0 by (metis not_Some_eq prod_cases3 option.distinct(1))
  have "ost\<lparr>loop_no := add64 (loop_no ost) 1\<rparr> = ost0" by (simp only: ost0_def add)
  from connect_directory_after_walk [OF inv lib(1), of k None ost1, unfolded this, OF w(1,2) \<open>dirs ost1 k \<noteq> None\<close>]
  obtain ost' where
    r: "connect_directory lib ost k = Some (None, ost')" "keeps N ost1 ost'" "cores ost' = cores ost1"
      "ost_lostfound_ino ost' = ost_lostfound_ino ost1"
    by blast
  have par: "parents ost' = parents ost1" using r(3) by (simp add: parents_cores fun_eq_iff)
  have lf: "ost_lostfound_ino ost' = ost_lostfound_ino ost" using w(3) r(4) by (simp add: walked_def ost0_def)
  have l': "loop_no ost' = loop_no ost + 1" using w(2) r(2) by (simp add: keeps_def ost0_def)
  have "hangs_off (parents ost') R (ost_lostfound_ino ost')"
    using walked_hangs [OF w(3)] good unfolding par lf pass3_good_def c0 by blast
  moreover have "ranked r ost'"
    using ranked_walked [OF w(3), of r] good unfolding ranked_def r(3) pass3_good_def c0 by blast
  moreover have "l \<le> loop_no ost'" if j: "cores ost' j = Some (p, c, l)" for j p c l
  proof -
    obtain q u m where q: "cores ost0 j = Some (q, u, m)"
      using w(3) j unfolding r(3) walked_def by (metis not_Some_eq prod_cases3 option.distinct(1))
    then have "m \<le> loop_no ost" using good unfolding pass3_good_def c0 by blast
    moreover have "l = m \<or> l = loop_no ost0"
      using w(3) j q unfolding r(3) walked_def by (metis option.inject prod.inject)
    ultimately show ?thesis by (auto simp: l' ost0_def)
  qed
  moreover have "connected_hang R {} ost'" using w(4) unfolding connected_hang_def r(3) par .
  ultimately have "pass3_good N R r ost'"
    using r(2) good lf by (auto simp: pass3_good_def keeps_def)
  with r(1) l' show ?thesis by blast
qed

lemma connect_all_connects:
  assumes lib: "lib_in_range N lib" "lib_repairs lib"
  shows "pass3_good N R r ost \<Longrightarrow> dirs ost k \<noteq> None \<Longrightarrow>
    loop_no ost + Suc (card {j. dirs ost j \<noteq> None \<and> k < j}) < 2 ^ 64 \<Longrightarrow>
    \<exists>ost'. connect_all lib ost (Some k) = Some (None, ost') \<and> pass3_good N R r ost'"
proof (induction "card {j. dirs ost j \<noteq> None \<and> k < j}" arbitrary: ost k rule: less_induct)
  case less
  have inv: "pass3_inv N ost" using less.prems(1) by (simp add: pass3_good_def)
  obtain ost1 where d: "connect_directory lib ost k = Some (None, ost1)" "pass3_good N R r ost1" "loop_no ost1 = loop_no ost + 1"
    using connect_directory_connects [OF lib less.prems(1,2)] less.prems(3) by auto
  have "advances ost ost1" using connect_directory_ok [OF inv lib(1) less.prems(2)] d(1) by auto
  then have same: "dirs ost1 j = None \<longleftrightarrow> dirs ost j = None" for j
    by (simp add: dirs_cores advances_def)
  have t1: "dp_tree (ost_dir_parents ost1)" using d(2) by (simp add: pass3_good_def pass3_inv_def)
  have k1: "dirs ost1 k \<noteq> None" using same less.prems(2) by simp
  show ?case
  proof (cases "next_dir (ost_dir_parents ost1) k")
    case None
    with d show ?thesis by (simp add: connect_all.simps [of lib ost] connect_all.simps [of lib ost1])
  next
    case (Some n)
    note n = next_dir_ok(2) [OF t1 k1 Some]
    have fewer: "card {j. dirs ost1 j \<noteq> None \<and> n < j} < card {j. dirs ost j \<noteq> None \<and> k < j}"
      using n same by (intro next_dir_fewer) auto
    from less.hyps [OF this d(2)] n fewer less.prems(3) d(3) obtain ost' where
      "connect_all lib ost1 (Some n) = Some (None, ost')" "pass3_good N R r ost'" by auto
    with Some d(1) show ?thesis by (simp add: connect_all.simps [of lib ost])
  qed
qed

section \<open>Properties\<close>

definition sample_icount :: o2fsck_icount where
  "sample_icount = projr (o2fsck_icount_new 100)"

lemma sample_icount: "icount_ok sample_icount \<and> b_total_bits (ic_single_bm sample_icount) = 100"
  using icount_new_ok [of 100] by (auto simp: sample_icount_def INT_MAX_def)

text \<open>A volume without errors on the disk, and a user who agrees to everything.\<close>

definition sample_lib :: "unit pass3_lib" where
  "sample_lib =
     \<lparr>lib_prompt = (\<lambda>d _ _. (True, d)), lib_inode_allocated = (\<lambda>_ _. True), lib_lookup = (\<lambda>_ _ _. Inr 3),
      lib_new_inode = (\<lambda>d. (Inr 50, d)), lib_delete_inode = (\<lambda>d _. d), lib_init_dir = (\<lambda>d _ _. (Inr (), d)),
      lib_link = (\<lambda>d _ _ _ _. (Inr (), d)), lib_write_super = (\<lambda>d _. (Inr (), d)),
      lib_type_from_dinode = (\<lambda>_ _. Inr OCFS2_FT_DIR),
      lib_read_dir = (\<lambda>_ _. Inr [\<lparr>de_inode = 7, de_name_len = 2, de_name = ''..''\<rparr>]),
      lib_write_dir = (\<lambda>d _ _. (Inr (), d)), lib_inode_name = (\<lambda>_. ''#''), lib_junk = False\<rparr>"

definition sample_ost :: "dir_parents \<Rightarrow> unit o2fsck_state" where
  "sample_ost t =
     \<lparr>ost_dir_parents = t, ost_icount_in_inodes = sample_icount, ost_icount_refs = sample_icount, ost_lostfound_ino = 0,
      fs_root_blkno = 1, fs_sysdir_blkno = 2, loop_no = 0, disk = ()\<rparr>"

text \<open>Root, system directory, lost+found, a directory without a parent and one below it.\<close>

definition sample_dirs :: dir_parents where
  "sample_dirs = the (dir_parent_calls [Add_dir 1 1 1 0, Add_dir 2 2 2 0, Add_dir 3 1 1 0, Add_dir 4 0 0 0, Add_dir 5 4 4 0] Leaf)"

lemma sample_dirs_map:
  "dp_tree sample_dirs \<and> dp_map sample_dirs =
     [1 \<mapsto> new_dir_parent 1 1 1 0, 2 \<mapsto> new_dir_parent 2 2 2 0, 3 \<mapsto> new_dir_parent 3 1 1 0,
      4 \<mapsto> new_dir_parent 4 0 0 0, 5 \<mapsto> new_dir_parent 5 4 4 0]"
proof -
  have run: "\<exists>t'. dir_parent_calls cs t = Some t' \<and> dp_tree t' \<and> dp_map t' = fold dir_parent_spec cs (dp_map t)"
    if "dp_tree t" for t cs
    using that
  proof (induction cs arbitrary: t)
    case (Cons c cs)
    then show ?case using dir_parent_call_refines [of t c] by fastforce
  qed simp
  from run [of Leaf "[Add_dir 1 1 1 0, Add_dir 2 2 2 0, Add_dir 3 1 1 0, Add_dir 4 0 0 0, Add_dir 5 4 4 0]"]
  show ?thesis by (auto simp: sample_dirs_def)
qed

lemma sample_inv: "pass3_inv 100 (sample_ost sample_dirs) \<and> lib_in_range 100 sample_lib \<and> lib_repairs sample_lib"
  using sample_icount sample_dirs_map
  by (auto simp: pass3_inv_def sample_ost_def lib_in_range_def lib_repairs_def sample_lib_def split: if_splits)

text \<open>
  C20.  Termination: whatever the disk operations return and the user answers, and whatever the recorded
  parents are, cycles included, the pass ends; the tables are left in order, and unless it reports an
  error every recorded directory is marked as connected.
\<close>

theorem pass3_terminates:
  assumes inv: "pass3_inv N ost" and lib: "lib_in_range N lib"
  shows "\<exists>err ost'. o2fsck_pass3 lib ost = Some (err, ost') \<and> pass3_inv N ost' \<and>
    (err = None \<longrightarrow> (\<forall>k x. dirs ost' k = Some x \<longrightarrow> dp_connected x))"
proof -
  obtain ost1 where r1: "check_root lib ost = Some ost1" "pass3_inv N ost1" using check_root_ok [OF inv lib] by blast
  obtain ost2 where r2: "check_lostfound lib ost1 = Some ost2" "pass3_inv N ost2" using check_lostfound_ok [OF r1(2) lib] by blast
  consider (noroot) "dirs ost2 (fs_root_blkno ost2) = None"
    | (nosys) x where "dirs ost2 (fs_root_blkno ost2) = Some x" "dirs ost2 (fs_sysdir_blkno ost2) = None"
    | (both) "dirs ost2 (fs_root_blkno ost2) \<noteq> None" "dirs ost2 (fs_sysdir_blkno ost2) \<noteq> None" by blast
  then show ?thesis
  proof cases
    case noroot
    then show ?thesis using r1 r2 dirs_get [OF r2(2)] by (simp add: o2fsck_pass3_def)
  next
    case nosys
    note m = mark_connected_ok [OF r2(2) nosys(1)]
    have "pass3_inv N (mark_connected ost2 (fs_root_blkno ost2))" using m(1) by (simp add: keeps_def)
    with nosys m(3) r1 r2 dirs_get [OF r2(2)] dirs_get [OF this] show ?thesis
      by (auto simp: o2fsck_pass3_def Let_def)
  next
    case both
    define ost4 where "ost4 = mark_connected (mark_connected ost2 (fs_root_blkno ost2)) (fs_sysdir_blkno ost2)"
    note c = pass3_cases [OF r2(2) r1(1) r2(1) both, folded ost4_def]
    have inv4: "pass3_inv N ost4" using c(2) by (simp add: keeps_def)
    then have t4: "dp_tree (ost_dir_parents ost4)" by (simp add: pass3_inv_def)
    have "dirs ost4 (fs_root_blkno ost2) \<noteq> None" using c(3) by (auto simp: dirs_cores)
    from first_dir_least [OF t4 this] obtain k where k: "first_dir (ost_dir_parents ost4) = Some k" "dirs ost4 k \<noteq> None"
      "\<And>j. dirs ost4 j \<noteq> None \<Longrightarrow> k \<le> j" by blast
    have "\<exists>p l. cores ost4 j = Some (p, True, l)" if "dirs ost4 j \<noteq> None" "j < k" for j
      using k(3) [OF that(1)] that(2) by simp
    from connect_all_ok [OF lib inv4 k(2) this] c(1) k(1) show ?thesis by auto
  qed
qed

theorem pass3_terminates_witness:
  "\<exists>err ost'. o2fsck_pass3 sample_lib (sample_ost sample_dirs) = Some (err, ost') \<and> pass3_inv 100 ost' \<and>
    (err = None \<longrightarrow> (\<forall>k x. dirs ost' k = Some x \<longrightarrow> dp_connected x))"
  using pass3_terminates [of 100 "sample_ost sample_dirs" sample_lib] sample_inv by blast

text \<open>
  C21.  Safety: when the user agrees and the repairs succeed, and the recorded parents have no cycle
  (every directory other than the two roots has either no parent, or a recorded one of smaller rank),
  the pass succeeds and leaves every directory hanging off the root or the system directory: a subtree
  without a parent was moved below \<open>/lost+found\<close>.
\<close>

theorem pass3_connects_directories:
  fixes r :: "nat \<Rightarrow> nat" and ost :: "'d o2fsck_state"
  defines "R \<equiv> {fs_root_blkno ost, fs_sysdir_blkno ost}"
  assumes inv: "pass3_inv N ost" and lib: "lib_in_range N lib" "lib_repairs lib"
    and root: "lib_inode_allocated lib (disk ost) (fs_root_blkno ost)" "dirs ost (fs_root_blkno ost) \<noteq> None"
    and sys: "dirs ost (fs_sysdir_blkno ost) \<noteq> None"
    and lf: "lib_lookup lib (disk ost) (fs_root_blkno ost) ''lost+found'' = Inr lf" "lf \<noteq> 0" "hangs_off (parents ost) R lf"
    and start: "\<And>k x. dirs ost k = Some x \<Longrightarrow> \<not> dp_connected x \<and> dp_loop_no x \<le> loop_no ost"
    and rank: "\<And>k x. dirs ost k = Some x \<Longrightarrow> k \<notin> R \<Longrightarrow> dp_dirent x \<noteq> 0 \<Longrightarrow>
      dirs ost (dp_dirent x) \<noteq> None \<and> r (dp_dirent x) < r k"
    and few: "loop_no ost + N < 2 ^ 64"
  shows "\<exists>ost'. o2fsck_pass3 lib ost = Some (None, ost') \<and> dom (dirs ost') = dom (dirs ost) \<and>
    (\<forall>k \<in> dom (dirs ost'). hangs_off (parents ost') R k)"
proof -
  let ?ost2 = "ost\<lparr>ost_lostfound_ino := lf\<rparr>"
  have "lf < N" using lib(1) lf(1) by (auto simp: lib_in_range_def)
  then have inv2: "pass3_inv N ?ost2" using inv by (simp add: pass3_inv_def)
  have r: "check_root lib ost = Some ost" "check_lostfound lib ost = Some ?ost2"
    using root(1) lf(1) by (simp_all add: check_root_def check_lostfound_def)
  define ost4 where "ost4 = mark_connected (mark_connected ?ost2 (fs_root_blkno ?ost2)) (fs_sysdir_blkno ?ost2)"
  have both: "dirs ?ost2 (fs_root_blkno ?ost2) \<noteq> None" "dirs ?ost2 (fs_sysdir_blkno ?ost2) \<noteq> None" using root sys by simp_all
  note c = pass3_cases [OF inv2 r both, folded ost4_def]
  have inv4: "pass3_inv N ost4" and ln: "loop_no ost4 = loop_no ost" using c(2) by (auto simp: keeps_def)
  have lf4: "ost_lostfound_ino ost4 = lf" by (simp add: ost4_def)
  have same2: "cores ?ost2 = cores ost" by (simp add: cores_def fun_eq_iff)
  have fresh: "\<not> u" if "cores ost k = Some (p, u, l)" for k p u l
    using that start by (auto elim: cores_dirsE)
  have cores4: "\<exists>u. cores ost k = Some (p, u, l) \<and> (v \<longleftrightarrow> k \<in> R)" if "cores ost4 k = Some (p, v, l)" for k p v l
    using c(3) that fresh unfolding same2 R_def by (auto split: if_splits dest: fresh)
  have dom4: "dirs ost4 k = None \<longleftrightarrow> dirs ost k = None" for k
    using c(3) root(2) sys unfolding dirs_cores same2 by (auto split: if_splits)
  have par4: "parents ost4 = parents ost"
    using c(3) unfolding same2 by (auto simp: parents_cores fun_eq_iff)
  have "connected_hang R {} ost4"
    using cores4 unfolding connected_hang_def by (blast intro: hangs_base)
  moreover have "ranked r ost4"
    unfolding ranked_def
  proof (intro allI impI)
    fix k p l assume k: "cores ost4 k = Some (p, False, l)" and p: "p \<noteq> 0"
    then obtain x where "dirs ost k = Some x" "dp_dirent x = p" "k \<notin> R"
      using cores4 [OF k] by (auto elim: cores_dirsE)
    with rank p show "cores ost4 p \<noteq> None \<and> r p < r k" by (auto simp: dom4 dirs_cores [symmetric])
  qed
  moreover have "l \<le> loop_no ost4" if k: "cores ost4 k = Some (p, v, l)" for k p v l
    using cores4 [OF k] start ln by (auto elim!: cores_dirsE)
  ultimately have good: "pass3_good N R r ost4"
    using inv4 lf lf4 par4 by (auto simp: pass3_good_def)
  have t4: "dp_tree (ost_dir_parents ost4)" using inv4 by (simp add: pass3_inv_def)
  have "dirs ost4 (fs_root_blkno ost) \<noteq> None" using dom4 root(2) by simp
  from first_dir_least [OF t4 this] obtain k where k: "first_dir (ost_dir_parents ost4) = Some k" "dirs ost4 k \<noteq> None"
    "\<And>j. dirs ost4 j \<noteq> None \<Longrightarrow> k \<le> j" by blast
  have "{j. dirs ost4 j \<noteq> None \<and> k < j} \<subseteq> {Suc k..<N}" and kN: "k < N" using inv4 k(2) by (auto simp: pass3_inv_def)
  then have "card {j. dirs ost4 j \<noteq> None \<and> k < j} \<le> card {Suc k..<N}" by (intro card_mono) auto
  then have "loop_no ost4 + Suc (card {j. dirs ost4 j \<noteq> None \<and> k < j}) < 2 ^ 64" using few ln kN by simp
  from connect_all_connects [OF lib good k(2) this] obtain ost' where
    r': "connect_all lib ost4 (Some k) = Some (None, ost')" "pass3_good N R r ost'" by blast
  have run: "o2fsck_pass3 lib ost = Some (None, ost')" using c(1) k(1) r'(1) by simp
  have before: "\<exists>p l. cores ost4 j = Some (p, True, l)" if "dirs ost4 j \<noteq> None" "j < k" for j
    using k(3) [OF that(1)] that(2) by simp
  from connect_all_ok [OF lib(1) inv4 k(2) this] r'(1)
  have adv: "advances ost4 ost'" and conn: "\<forall>j x. dirs ost' j = Some x \<longrightarrow> dp_connected x" by auto
  have "(dirs ost' j = None) = (dirs ost4 j = None)" for j using adv by (simp only: dirs_cores advances_def)
  then have "dom (dirs ost') = dom (dirs ost)" by (simp only: dom_def dom4)
  moreover have "hangs_off (parents ost') R j" if j: "dirs ost' j = Some x" for j x
  proof -
    have "cores ost' j = Some (dp_dirent x, True, dp_loop_no x)" using cores_dirs [OF j] conn j by simp
    then show ?thesis using r'(2) unfolding pass3_good_def connected_hang_def by blast
  qed
  ultimately show ?thesis using run by blast
qed

theorem pass3_connects_directories_witness:
  "\<exists>ost'. o2fsck_pass3 sample_lib (sample_ost sample_dirs) = Some (None, ost') \<and>
    dom (dirs ost') = dom (dirs (sample_ost sample_dirs)) \<and>
    (\<forall>k \<in> dom (dirs ost'). hangs_off (parents ost')
       {fs_root_blkno (sample_ost sample_dirs), fs_sysdir_blkno (sample_ost sample_dirs)} k)"
proof (rule pass3_connects_directories [where N = 100 and lf = 3 and r = id])
  show "hangs_off (parents (sample_ost sample_dirs)) {fs_root_blkno (sample_ost sample_dirs), fs_sysdir_blkno (sample_ost sample_dirs)} 3"
    using sample_dirs_map
    by (intro hangs_step [of _ 3 1] hangs_base) (auto simp: sample_ost_def parents_def)
qed (use sample_inv sample_dirs_map in \<open>auto simp: sample_ost_def sample_lib_def split: if_splits\<close>)

text \<open>
  Two directories that contain each other and nothing else points to are a detached cycle.  The walk
  from the first of them marks it as connected without recording its loop number, so that coming back
  to it ends the walk as if a connected directory had been reached: the walk succeeds without a
  prompt, both are marked as connected, and neither is moved to \<open>/lost+found\<close>.
\<close>

lemma walk_accepts_cycle:
  assumes inv: "pass3_inv N ost" and x: "dirs ost a = Some x" "\<not> dp_connected x" "dp_dirent x = b" "dp_loop_no x \<noteq> loop_no ost"
    and y: "dirs ost b = Some y" "\<not> dp_connected y" "dp_dirent y = a" "dp_loop_no y \<noteq> loop_no ost"
    and ne: "a \<noteq> b" "a \<noteq> 0" "b \<noteq> 0"
  shows "\<exists>ost'. connect_walk lib ost a = Some (None, ost') \<and>
    cores ost' = (cores ost)(a \<mapsto> (b, True, loop_no ost), b \<mapsto> (a, True, loop_no ost))"
proof -
  define ost2 where "ost2 = mark_loop (mark_connected ost a) b"
  define ost4 where "ost4 = mark_loop (mark_connected ost2 b) a"
  note m1 = mark_connected_ok [OF inv x(1)]
  have i1: "pass3_inv N (mark_connected ost a)" and b1: "dirs (mark_connected ost a) b = Some y"
    using m1 y(1) ne by (auto simp: keeps_def)
  note m2 = mark_loop_ok [OF i1 b1, folded ost2_def]
  have i2: "pass3_inv N ost2" and ln2: "loop_no ost2 = loop_no ost" using m2(1) by (auto simp: keeps_def ost2_def)
  have b2: "dirs ost2 b = Some (y\<lparr>dp_loop_no := loop_no ost\<rparr>)" "dirs ost2 a = Some (x\<lparr>dp_connected := True\<rparr>)"
    using m2(3) m1(3) ne by auto
  note m3 = mark_connected_ok [OF i2 b2(1)]
  have i3: "pass3_inv N (mark_connected ost2 b)" and a3: "dirs (mark_connected ost2 b) a = Some (x\<lparr>dp_connected := True\<rparr>)"
    using m3 b2(2) ne by (auto simp: keeps_def)
  note m4 = mark_loop_ok [OF i3 a3, folded ost4_def]
  have i4: "pass3_inv N ost4" using m4(1) by (simp add: keeps_def)
  have "connect_walk lib ost a = connect_walk lib ost2 b"
    using connect_walk_round [OF inv x(1,2), of lib] b1 x(3) y(4) ne by (simp add: ost2_def)
  also have "\<dots> = connect_walk lib ost4 a"
    using connect_walk_round [OF i2 b2(1), of lib] a3 y x(4) ne ln2 by (simp add: ost4_def)
  also have "\<dots> = Some (None, ost4)"
    using connect_walk_stop [OF i4, of a "x\<lparr>dp_connected := True, dp_loop_no := loop_no ost2\<rparr>"] m4(3) by simp
  moreover have "cores ost4 = (cores ost)(a \<mapsto> (b, True, loop_no ost), b \<mapsto> (a, True, loop_no ost))"
    using m1(2) m2(2) m3(2) m4(2) x(3) y(3) ne ln2 by (auto simp: fun_eq_iff)
  ultimately show ?thesis by simp
qed

end
