(* ===== verification/Pass4.thy ===== *)
theory Pass4
  imports Pass3 "HOL-Library.Multiset"
begin

text \<open>
  \<open>fsck.ocfs2/pass4.c\<close>: the pass that empties the orphan directories and then compares, for every inode, the number of directory entries that
  refer to it (counted in pass 2) with the link count that the inode has (recorded in pass 1).

  The pass works on the tables of \<^verbatim>\<open>Icount\<close> and uses \<open>o2fsck_reconnect_file\<close> of \<^verbatim>\<open>Pass3\<close>.  What it asks of the disk and of the user are the
  functions of the record \<open>pass4_env\<close>, which also has the options and the settings that the pass only reads.
\<close>

section \<open>The model\<close>

record link_dinode =
  i_blkno :: nat
  i_links_count :: nat

record orphan_dirent = ocfs2_dir_entry +
  de_file_type :: nat

record 'd pass4_env =
  p3 :: "'d pass3_lib"
  ost_force :: bool
  fs_rw :: bool
  s_max_slots :: nat
  lib_read_inode :: "'d \<Rightarrow> nat \<Rightarrow> link_dinode result"
  lib_write_inode :: "'d \<Rightarrow> nat \<Rightarrow> link_dinode \<Rightarrow> 'd"  \<comment> \<open>\<open>o2fsck_write_inode\<close>, whose result is not looked at\<close>
  lib_truncate :: "'d \<Rightarrow> nat \<Rightarrow> errcode option \<times> 'd"
  lib_delete :: "'d \<Rightarrow> nat \<Rightarrow> errcode option \<times> 'd"
  lib_new_system_inode :: "'d \<Rightarrow> nat result \<times> 'd"
  lib_orphan_name :: "nat \<Rightarrow> string"  \<comment> \<open>\<open>ocfs2_sprintf_system_inode_name\<close> for the orphan directory of a slot\<close>
  lib_dir_blocks :: "'d \<Rightarrow> nat \<Rightarrow> nat list result"  \<comment> \<open>the blocks of a directory, or why it cannot be read\<close>
  lib_read_dir_block :: "'d \<Rightarrow> nat \<Rightarrow> nat \<Rightarrow> (orphan_dirent list \<times> bool) result"  \<comment> \<open>its entries, and whether a damaged one follows them\<close>
  lib_write_dir_block :: "'d \<Rightarrow> nat \<Rightarrow> nat \<Rightarrow> orphan_dirent list \<Rightarrow> errcode option \<times> 'd"

abbreviation junk :: "'d pass4_env \<Rightarrow> bool" where
  "junk env \<equiv> lib_junk (p3 env)"

abbreviation ask :: "'d pass4_env \<Rightarrow> 'd o2fsck_state \<Rightarrow> prompt_code \<Rightarrow> nat \<Rightarrow> bool \<times> 'd" where
  "ask env ost \<equiv> lib_prompt (p3 env) (disk ost)"

subsection \<open>Pass 4b: link counts\<close>

text \<open>The second part of \<open>check_link_counts\<close>: the count of the inode is set to the number of references.\<close>

definition update_link_count :: "'d pass4_env \<Rightarrow> 'd o2fsck_state \<Rightarrow> nat \<Rightarrow> nat \<Rightarrow> nat \<Rightarrow> 'd o2fsck_state option" where
  "update_link_count env ost blkno refs in_inode =
     (if refs = in_inode then Some ost
      else case lib_read_inode env (disk ost) blkno of
        Inl _ \<Rightarrow> Some ost
      | Inr di \<Rightarrow>
          (case ask env ost PR_INODE_COUNT (i_blkno di) of
             (False, d) \<Rightarrow> Some (ost\<lparr>disk := d\<rparr>)
           | (True, d) \<Rightarrow>
               do { ins \<leftarrow> o2fsck_icount_set (junk env) (ost_icount_in_inodes ost) (i_blkno di) refs;
                    Some (ost\<lparr>ost_icount_in_inodes := ins, disk := lib_write_inode env d (i_blkno di) (di\<lparr>i_links_count := refs\<rparr>)\<rparr>) }))"

definition check_link_counts :: "'d pass4_env \<Rightarrow> 'd o2fsck_state \<Rightarrow> nat \<Rightarrow> 'd o2fsck_state option" where
  "check_link_counts env ost blkno =
     do { refs \<leftarrow> o2fsck_icount_get (junk env) (ost_icount_refs ost) blkno;
          in_inode \<leftarrow> o2fsck_icount_get (junk env) (ost_icount_in_inodes ost) blkno;
          (refs, ost) \<leftarrow>
            (if refs = 0 then
               (case ask env ost PR_INODE_NOT_CONNECTED blkno of
                  (False, d) \<Rightarrow> Some (refs, ost\<lparr>disk := d\<rparr>)
                | (True, d) \<Rightarrow> do { ost \<leftarrow> o2fsck_reconnect_file (p3 env) (ost\<lparr>disk := d\<rparr>) blkno;
                                    refs \<leftarrow> o2fsck_icount_get (junk env) (ost_icount_refs ost) blkno;
                                    Some (refs, ost) })
             else Some (refs, ost));
          update_link_count env ost blkno refs in_inode }"

definition next_inode_any_ref :: "'d pass4_env \<Rightarrow> 'd o2fsck_state \<Rightarrow> nat \<Rightarrow> nat result option" where
  "next_inode_any_ref env ost start =
     do { tmp \<leftarrow> o2fsck_icount_next_blkno (junk env) (ost_icount_refs ost) start;
          let ret = (case tmp of Inr blkno \<Rightarrow> Inr blkno | Inl _ \<Rightarrow> Inl OCFS2_ET_BIT_NOT_FOUND);
          tmp \<leftarrow> o2fsck_icount_next_blkno (junk env) (ost_icount_in_inodes ost) start;
          Some (case tmp of
                  Inl _ \<Rightarrow> ret
                | Inr blkno \<Rightarrow> (case ret of Inl _ \<Rightarrow> Inr blkno | Inr b \<Rightarrow> if blkno < b then Inr blkno else ret)) }"

text \<open>The loop of \<open>o2fsck_pass4\<close>; \<open>None\<close> would also be a loop that never ends.\<close>

partial_function (option) link_counts_from :: "'d pass4_env \<Rightarrow> 'd o2fsck_state \<Rightarrow> nat \<Rightarrow> 'd o2fsck_state option" where
  "link_counts_from env ost start =
     do { r \<leftarrow> next_inode_any_ref env ost start;
          case r of
            Inl _ \<Rightarrow> Some ost
          | Inr blkno \<Rightarrow> do { ost \<leftarrow> check_link_counts env ost blkno; link_counts_from env ost (add64 blkno 1) } }"

subsection \<open>Pass 4a: orphans\<close>

definition delta_refs :: "'d pass4_env \<Rightarrow> nat \<Rightarrow> int \<Rightarrow> 'd o2fsck_state \<Rightarrow> 'd o2fsck_state option" where
  "delta_refs env blkno n ost = do { t \<leftarrow> o2fsck_icount_delta (junk env) (ost_icount_refs ost) blkno n; Some (ost\<lparr>ost_icount_refs := t\<rparr>) }"

definition delta_in_inodes :: "'d pass4_env \<Rightarrow> nat \<Rightarrow> int \<Rightarrow> 'd o2fsck_state \<Rightarrow> 'd o2fsck_state option" where
  "delta_in_inodes env blkno n ost = do { t \<leftarrow> o2fsck_icount_delta (junk env) (ost_icount_in_inodes ost) blkno n; Some (ost\<lparr>ost_icount_in_inodes := t\<rparr>) }"

text \<open>The counts of an orphan that was deleted.\<close>

definition uncount_orphan :: "'d pass4_env \<Rightarrow> nat \<Rightarrow> orphan_dirent \<Rightarrow> 'd o2fsck_state \<Rightarrow> 'd o2fsck_state option" where
  "uncount_orphan env orphan_dir dirent ost =
     do { ost \<leftarrow> delta_in_inodes env (de_inode dirent) (- 1) ost;
          if de_file_type dirent = OCFS2_FT_DIR
          then do { ost \<leftarrow> delta_refs env (de_inode dirent) (- 2) ost; delta_refs env orphan_dir (- 1) ost }
          else delta_refs env (de_inode dirent) (- 1) ost }"

text \<open>The function called for an entry: the state, the entry, the error of \<open>ost_err\<close>, and whether the entry was changed and the iteration is to stop.\<close>

definition replay_orphan_iterate ::
    "'d pass4_env \<Rightarrow> nat \<Rightarrow> 'd o2fsck_state \<Rightarrow> orphan_dirent \<Rightarrow> ('d o2fsck_state \<times> orphan_dirent \<times> errcode option \<times> bool \<times> bool) option" where
  "replay_orphan_iterate env orphan_dir ost dirent =
     (if \<not> fs_rw env then Some (ost, dirent, None, False, True)
      else case (if ost_force env then ask env ost PR_INODE_ORPHANED (de_inode dirent) else (True, disk ost)) of
        (False, d) \<Rightarrow> Some (ost\<lparr>disk := d\<rparr>, dirent, None, False, False)
      | (True, d) \<Rightarrow>
          (case lib_truncate env d (de_inode dirent) of
             (Some e, d) \<Rightarrow> Some (ost\<lparr>disk := d\<rparr>, dirent, Some e, False, True)
           | (None, d) \<Rightarrow>
               (case lib_delete env d (de_inode dirent) of
                  (Some e, d) \<Rightarrow> Some (ost\<lparr>disk := d\<rparr>, dirent, Some e, False, True)
                | (None, d) \<Rightarrow>
                    do { ost \<leftarrow> (if ost_force env then uncount_orphan env orphan_dir dirent (ost\<lparr>disk := d\<rparr>) else Some (ost\<lparr>disk := d\<rparr>));
                         Some (ost, dirent\<lparr>de_inode := 0\<rparr>, None, True, False) })))"

definition is_dots :: "('x) ocfs2_dir_entry_scheme \<Rightarrow> bool" where
  "is_dots de \<longleftrightarrow> de_name_len de = 1 \<and> take 1 (de_name de) = ''.'' \<or> de_name_len de = 2 \<and> take 2 (de_name de) = ''..''"

text \<open>
  \<open>ocfs2_dir_iterate\<close> with that function, for the entries of a block and for the blocks of a directory: entries without an inode and the entries for the directory and its parent
  are passed over, a block with a changed entry is written unless a damaged entry was met in it.
\<close>

fun replay_entries ::
    "'d pass4_env \<Rightarrow> nat \<Rightarrow> 'd o2fsck_state \<Rightarrow> errcode option \<Rightarrow> orphan_dirent list \<Rightarrow>
     ('d o2fsck_state \<times> orphan_dirent list \<times> errcode option \<times> bool \<times> bool) option" where
  "replay_entries env orphan_dir ost err [] = Some (ost, [], err, False, False)"
| "replay_entries env orphan_dir ost err (de # des) =
     (if de_inode de = 0 \<or> is_dots de
      then do { (ost, des, err, changed, abort) \<leftarrow> replay_entries env orphan_dir ost err des; Some (ost, de # des, err, changed, abort) }
      else do { (ost, de, err, changed, abort) \<leftarrow> replay_orphan_iterate env orphan_dir ost de;
                if abort then Some (ost, de # des, err, changed, True)
                else do { (ost, des, err, changed', abort) \<leftarrow> replay_entries env orphan_dir ost err des;
                          Some (ost, de # des, err, changed \<or> changed', abort) } })"

fun replay_blocks ::
    "'d pass4_env \<Rightarrow> nat \<Rightarrow> 'd o2fsck_state \<Rightarrow> errcode option \<Rightarrow> nat list \<Rightarrow> ('d o2fsck_state \<times> errcode option \<times> errcode option) option" where
  "replay_blocks env orphan_dir ost err [] = Some (ost, err, None)"
| "replay_blocks env orphan_dir ost err (b # bs) =
     (case lib_read_dir_block env (disk ost) orphan_dir b of
        Inl e \<Rightarrow> Some (ost, err, Some e)
      | Inr (des, damaged) \<Rightarrow>
          do { (ost, des, err, changed, abort) \<leftarrow> replay_entries env orphan_dir ost err des;
               if damaged \<and> \<not> abort then Some (ost, err, Some OCFS2_ET_DIR_CORRUPTED)
               else case (if changed then lib_write_dir_block env (disk ost) orphan_dir b des else (None, disk ost)) of
                 (Some e, d) \<Rightarrow> Some (ost\<lparr>disk := d\<rparr>, err, Some e)
               | (None, d) \<Rightarrow> if abort then Some (ost\<lparr>disk := d\<rparr>, err, None) else replay_blocks env orphan_dir (ost\<lparr>disk := d\<rparr>) err bs })"

definition replay_dir :: "'d pass4_env \<Rightarrow> nat \<Rightarrow> 'd o2fsck_state \<Rightarrow> ('d o2fsck_state \<times> errcode option) option" where
  "replay_dir env ino ost =
     (case lib_dir_blocks env (disk ost) ino of
        Inl e \<Rightarrow> Some (ost, Some e)
      | Inr bs \<Rightarrow> do { (ost, ost_err, ret) \<leftarrow> replay_blocks env ino ost None bs; Some (ost, if ret = None then ost_err else ret) })"

definition create_orphan_dir :: "'d pass4_env \<Rightarrow> 'd o2fsck_state \<Rightarrow> string \<Rightarrow> ('d o2fsck_state \<times> errcode option) option" where
  "create_orphan_dir env ost fname =
     (case lib_new_system_inode env (disk ost) of
        (Inl e, d) \<Rightarrow> Some (ost\<lparr>disk := d\<rparr>, Some e)
      | (Inr blkno, d) \<Rightarrow>
          (case lib_init_dir (p3 env) d blkno (fs_sysdir_blkno ost) of
             (Inl e, d) \<Rightarrow> Some (ost\<lparr>disk := d\<rparr>, Some e)
           | (Inr _, d) \<Rightarrow>
               (case lib_link (p3 env) d (fs_sysdir_blkno ost) fname blkno OCFS2_FT_DIR of
                  (Inl e, d) \<Rightarrow> Some (ost\<lparr>disk := d\<rparr>, Some e)
                | (Inr _, d) \<Rightarrow>
                    do { ost \<leftarrow> delta_refs env (fs_sysdir_blkno ost) 1 (ost\<lparr>disk := d\<rparr>);
                         ost \<leftarrow> delta_in_inodes env (fs_sysdir_blkno ost) 1 ost;
                         Some (ost, None) })))"

text \<open>
  The loop of \<open>replay_orphan_dir\<close> over the slots.  The variable \<open>ino\<close> keeps its value from one slot to the next; \<open>None\<close> is the uninitialised
  variable, and using it has no defined result.
\<close>

datatype slot_step = Slot_fails errcode | Slot_skipped errcode | Slot_dir "nat option"

definition find_orphan_dir :: "'d pass4_env \<Rightarrow> bool \<Rightarrow> 'd o2fsck_state \<Rightarrow> nat option \<Rightarrow> nat \<Rightarrow> ('d o2fsck_state \<times> slot_step) option" where
  "find_orphan_dir env slot_recovery ost ino i =
     (case lib_lookup (p3 env) (disk ost) (fs_sysdir_blkno ost) (lib_orphan_name env i) of
        Inr ino \<Rightarrow> Some (ost, Slot_dir (Some ino))
      | Inl e \<Rightarrow>
          if slot_recovery \<or> e \<noteq> OCFS2_ET_FILE_NOT_FOUND then Some (ost, Slot_fails e)
          else case ask env ost PR_ORPHAN_DIR_MISSING i of
            (False, d) \<Rightarrow> Some (ost\<lparr>disk := d\<rparr>, Slot_dir ino)
          | (True, d) \<Rightarrow> do { (ost, ret) \<leftarrow> create_orphan_dir env (ost\<lparr>disk := d\<rparr>) (lib_orphan_name env i);
                              Some (ost, case ret of None \<Rightarrow> Slot_dir ino | Some e \<Rightarrow> Slot_skipped e) })"

fun replay_slots ::
    "'d pass4_env \<Rightarrow> bool \<Rightarrow> 'd o2fsck_state \<Rightarrow> nat option \<Rightarrow> errcode option \<Rightarrow> nat list \<Rightarrow> ('d o2fsck_state \<times> errcode option) option" where
  "replay_slots env slot_recovery ost ino ret [] = Some (ost, ret)"
| "replay_slots env slot_recovery ost ino ret (i # is) =
     (if lib_orphan_name env i = [] then Some (ost, Some OCFS2_ET_INTERNAL_FAILURE)
      else do { (ost, step) \<leftarrow> find_orphan_dir env slot_recovery ost ino i;
                case step of
                  Slot_fails e \<Rightarrow> Some (ost, Some e)
                | Slot_skipped e \<Rightarrow> replay_slots env slot_recovery ost ino (Some e) is
                | Slot_dir ino \<Rightarrow>
                    do { dir \<leftarrow> ino;
                         (ost, ret) \<leftarrow> replay_dir env dir ost;
                         if ret \<noteq> None \<and> slot_recovery then Some (ost, ret) else replay_slots env slot_recovery ost ino ret is } })"

definition replay_orphan_dir :: "'d pass4_env \<Rightarrow> bool \<Rightarrow> 'd o2fsck_state \<Rightarrow> ('d o2fsck_state \<times> errcode option) option" where
  "replay_orphan_dir env slot_recovery ost = replay_slots env slot_recovery ost None (Some OCFS2_ET_CORRUPT_SUPERBLOCK) [0..<s_max_slots env]"

definition o2fsck_pass4 :: "'d pass4_env \<Rightarrow> 'd o2fsck_state \<Rightarrow> ('d o2fsck_state \<times> errcode option) option" where
  "o2fsck_pass4 env ost =
     do { (ost, ret) \<leftarrow> replay_orphan_dir env False ost;
          if ret \<noteq> None then Some (ost, ret)
          else do { ost \<leftarrow> link_counts_from env ost 0; Some (ost, None) } }"

section \<open>The tables stay in order\<close>

definition table :: "nat \<Rightarrow> o2fsck_icount \<Rightarrow> bool" where
  "table N ic \<longleftrightarrow> icount_ok ic \<and> b_total_bits (ic_single_bm ic) = N"

definition tables :: "nat \<Rightarrow> 'd o2fsck_state \<Rightarrow> bool" where
  "tables N ost \<longleftrightarrow> table N (ost_icount_refs ost) \<and> table N (ost_icount_in_inodes ost)"

abbreviation refs_of :: "'d o2fsck_state \<Rightarrow> nat \<Rightarrow> nat" where
  "refs_of ost \<equiv> icount_of (ost_icount_refs ost)"

abbreviation in_inodes_of :: "'d o2fsck_state \<Rightarrow> nat \<Rightarrow> nat" where
  "in_inodes_of ost \<equiv> icount_of (ost_icount_in_inodes ost)"

lemma table_get: "table N ic \<Longrightarrow> b < N \<Longrightarrow> o2fsck_icount_get j ic b = Some (icount_of ic b)"
  by (simp add: table_def icount_get_ok)

lemma table_set:
  "table N ic \<Longrightarrow> b < N \<Longrightarrow> c < 2 ^ 16 \<Longrightarrow> \<exists>ic'. o2fsck_icount_set j ic b c = Some ic' \<and> table N ic' \<and> icount_of ic' = (icount_of ic)(b := c)"
  using icount_set_ok [of ic b c j] by (auto simp: table_def)

lemma table_delta:
  "table N ic \<Longrightarrow> b < N \<Longrightarrow>
   \<exists>ic'. o2fsck_icount_delta j ic b d = Some ic' \<and> table N ic' \<and> icount_of ic' = (icount_of ic)(b := nat ((int (icount_of ic b) + d) mod 2 ^ 16))"
  using icount_delta_ok [of ic b j d] by (auto simp: table_def)

lemma table_beyond: "table N ic \<Longrightarrow> icount_of ic b \<noteq> 0 \<Longrightarrow> b < N"
  using icount_nonzero [of ic b] bm_bits_bounded [of "ic_single_bm ic"] by (auto simp: table_def icount_ok_def block_inv_def)

lemma next_beyond:
  assumes t: "table N ic" and "\<not> start < N"
  shows "o2fsck_icount_next_blkno j ic start = Some (Inl OCFS2_ET_INVALID_BIT)"
proof -
  have ok: "icount_ok ic" and N: "b_total_bits (ic_single_bm ic) = N" using t by (simp_all add: table_def)
  let ?r = "case rb_elem (fst (icount_search (ic_multiple_tree ic) start)) of Some n \<Rightarrow> Some n
      | None \<Rightarrow> (case snd (icount_search (ic_multiple_tree ic) start) of None \<Rightarrow> None | Some n \<Rightarrow> rb_elem n)"
  have "first_from (dom (tmap in_blkno (ic_multiple_tree ic))) start (map_option in_blkno ?r)"
    using ok by (intro tree_next) (simp add: icount_ok_def)
  moreover have "b < N" if "b \<in> dom (tmap in_blkno (ic_multiple_tree ic))" for b using ok N that by (auto simp: icount_ok_def)
  ultimately have "?r = None" using assms(2) by (cases ?r) (fastforce simp: first_from_def)+
  then show ?thesis using N assms(2) by (simp add: o2fsck_icount_next_blkno_def ocfs2_bitmap_find_next_set_def case_prod_beta)
qed

lemma table_next:
  assumes t: "table N ic"
  shows "\<exists>r. o2fsck_icount_next_blkno j ic start = Some r \<and>
    (case r of Inl _ \<Rightarrow> \<forall>b\<ge>start. icount_of ic b = 0 | Inr b \<Rightarrow> start \<le> b \<and> icount_of ic b \<noteq> 0 \<and> (\<forall>c\<in>{start..<b}. icount_of ic c = 0))"
proof (cases "start < N")
  case True
  let ?P = "\<lambda>b. start \<le> b \<and> icount_of ic b \<noteq> 0"
  note nx = icount_next_nonzero [of ic start j]
  show ?thesis
  proof (cases "\<exists>b. ?P b")
    case ex: True
    define n where "n = (LEAST b. ?P b)"
    have n: "?P n" unfolding n_def using ex by (rule LeastI_ex)
    have "icount_of ic c = 0" if "c \<in> {start..<n}" for c using not_less_Least [of c ?P] that by (auto simp: n_def)
    moreover have "o2fsck_icount_next_blkno j ic start = Some (Inr n)" unfolding n_def using nx t True ex by (simp add: table_def)
    ultimately show ?thesis using n by auto
  next
    case none: False
    then have "o2fsck_icount_next_blkno j ic start = Some (Inl OCFS2_ET_BIT_NOT_FOUND)" using nx t True by (auto simp: table_def)
    then show ?thesis using none by auto
  qed
next
  case False
  then have "o2fsck_icount_next_blkno j ic start = Some (Inl OCFS2_ET_INVALID_BIT)" by (rule next_beyond [OF t])
  moreover have "\<forall>b\<ge>start. icount_of ic b = 0" using table_beyond [OF t] False by force
  ultimately show ?thesis by simp
qed


lemma any_ref_next:
  assumes "tables N ost"
  shows "\<exists>r. next_inode_any_ref env ost start = Some r \<and>
    (case r of Inl _ \<Rightarrow> \<forall>b\<ge>start. refs_of ost b = 0 \<and> in_inodes_of ost b = 0
     | Inr b \<Rightarrow> start \<le> b \<and> b < N \<and> (refs_of ost b \<noteq> 0 \<or> in_inodes_of ost b \<noteq> 0) \<and> (\<forall>c\<in>{start..<b}. refs_of ost c = 0 \<and> in_inodes_of ost c = 0))"
proof -
  have t: "table N (ost_icount_refs ost)" "table N (ost_icount_in_inodes ost)" using assms by (simp_all add: tables_def)
  obtain r where r: "o2fsck_icount_next_blkno (junk env) (ost_icount_refs ost) start = Some r"
    "case r of Inl _ \<Rightarrow> \<forall>b\<ge>start. refs_of ost b = 0 | Inr b \<Rightarrow> start \<le> b \<and> refs_of ost b \<noteq> 0 \<and> (\<forall>c\<in>{start..<b}. refs_of ost c = 0)"
    using table_next [OF t(1)] by blast
  obtain q where q: "o2fsck_icount_next_blkno (junk env) (ost_icount_in_inodes ost) start = Some q"
    "case q of Inl _ \<Rightarrow> \<forall>b\<ge>start. in_inodes_of ost b = 0 | Inr b \<Rightarrow> start \<le> b \<and> in_inodes_of ost b \<noteq> 0 \<and> (\<forall>c\<in>{start..<b}. in_inodes_of ost c = 0)"
    using table_next [OF t(2)] by blast
  note lt = table_beyond [OF t(1)] table_beyond [OF t(2)]
  show ?thesis using r q lt unfolding next_inode_any_ref_def by (cases r; cases q) auto
qed

text \<open>Moving a file to \<open>lost+found\<close> changes at most its own count of references.\<close>

lemma reconnect_tables:
  assumes t: "tables N ost" and k: "k < N"
  shows "\<exists>ost'. o2fsck_reconnect_file lib ost k = Some ost' \<and> tables N ost' \<and> in_inodes_of ost' = in_inodes_of ost"
proof -
  obtain refs where "o2fsck_icount_delta (lib_junk lib) (ost_icount_refs ost) k 1 = Some refs" "table N refs"
    using table_delta [of N "ost_icount_refs ost" k "lib_junk lib" 1] t k by (auto simp: tables_def)
  then show ?thesis using t by (auto simp: o2fsck_reconnect_file_def tables_def Let_def split: sum.split prod.split)
qed

text \<open>The number that an inode has of itself is used for the tables.\<close>

definition inodes_in_range :: "nat \<Rightarrow> 'd pass4_env \<Rightarrow> bool" where
  "inodes_in_range N env \<longleftrightarrow> (\<forall>d b di. lib_read_inode env d b = Inr di \<longrightarrow> i_blkno di < N)"

lemma tables_disk [simp]: "tables N (ost\<lparr>disk := d\<rparr>) = tables N ost"
  by (simp add: tables_def)

lemma tables_get:
  assumes "tables N ost" and "b < N"
  shows "o2fsck_icount_get j (ost_icount_refs ost) b = Some (refs_of ost b)" and "o2fsck_icount_get j (ost_icount_in_inodes ost) b = Some (in_inodes_of ost b)"
    and "refs_of ost b < 2 ^ 16"
  using assms icount_bound by (auto simp: tables_def table_def intro: table_get)

lemma update_link_count_tables:
  assumes t: "tables N ost" and rd: "inodes_in_range N env" and refs: "refs < 2 ^ 16"
  shows "\<exists>ost'. update_link_count env ost b refs n = Some ost' \<and> tables N ost'"
proof -
  have "\<exists>ins. o2fsck_icount_set (junk env) (ost_icount_in_inodes ost) c refs = Some ins \<and> table N ins" if "c < N" for c
    using table_set [of N "ost_icount_in_inodes ost" c refs] t that refs by (auto simp: tables_def)
  then have "\<exists>ins. o2fsck_icount_set (junk env) (ost_icount_in_inodes ost) (i_blkno di) refs = Some ins \<and> table N ins" if "lib_read_inode env d b = Inr di" for d di
    using rd that unfolding inodes_in_range_def by blast
  then show ?thesis using t by (fastforce simp: update_link_count_def tables_def split: sum.split prod.split bool.split)
qed

lemma check_link_counts_tables:
  assumes t: "tables N ost" and b: "b < N" and rd: "inodes_in_range N env"
  shows "\<exists>ost'. check_link_counts env ost b = Some ost' \<and> tables N ost'"
proof (cases "refs_of ost b = 0")
  case True
  obtain yes d where d: "ask env ost PR_INODE_NOT_CONNECTED b = (yes, d)" by fastforce
  obtain o2 where o2: "o2fsck_reconnect_file (p3 env) (ost\<lparr>disk := d\<rparr>) b = Some o2" "tables N o2" using reconnect_tables [of N "ost\<lparr>disk := d\<rparr>" b] t b by auto
  have "check_link_counts env ost b = (if yes then update_link_count env o2 b (refs_of o2 b) (in_inodes_of ost b) else update_link_count env (ost\<lparr>disk := d\<rparr>) b 0 (in_inodes_of ost b))"
    using True d o2(1) tables_get [OF t b] tables_get [OF o2(2) b] by (cases yes) (simp_all add: check_link_counts_def)
  then show ?thesis using update_link_count_tables [OF o2(2) rd tables_get(3) [OF o2(2) b]] update_link_count_tables [of N "ost\<lparr>disk := d\<rparr>" env 0 b] t rd by auto
next
  case False
  then have "check_link_counts env ost b = update_link_count env ost b (refs_of ost b) (in_inodes_of ost b)"
    using tables_get [OF t b] by (simp add: check_link_counts_def)
  then show ?thesis using update_link_count_tables [OF t rd tables_get(3) [OF t b]] by simp
qed

lemma link_counts_terminate:
  assumes "tables N ost" and "inodes_in_range N env"
  shows "\<exists>ost'. link_counts_from env ost start = Some ost' \<and> tables N ost'"
  using assms(1)
proof (induction "N - start" arbitrary: start ost rule: less_induct)
  case less
  obtain r where r: "next_inode_any_ref env ost start = Some r"
    "case r of Inl _ \<Rightarrow> \<forall>b\<ge>start. refs_of ost b = 0 \<and> in_inodes_of ost b = 0
     | Inr b \<Rightarrow> start \<le> b \<and> b < N \<and> (refs_of ost b \<noteq> 0 \<or> in_inodes_of ost b \<noteq> 0) \<and> (\<forall>c\<in>{start..<b}. refs_of ost c = 0 \<and> in_inodes_of ost c = 0)"
    using any_ref_next [OF less.prems] by blast
  show ?case
  proof (cases r)
    case (Inl e)
    then show ?thesis using r less.prems by (subst link_counts_from.simps) simp
  next
    case (Inr b)
    then have b: "start \<le> b" "b < N" using r by auto
    obtain o1 where o1: "check_link_counts env ost b = Some o1" "tables N o1" using check_link_counts_tables [OF less.prems b(2) assms(2)] by blast
    have "add64 b 1 = Suc b" using b(2) less.prems by (simp add: add64_eq tables_def table_def icount_ok_def block_inv_def INT_MAX_def)
    then show ?thesis using less.hyps [of "Suc b" o1] b r(1) Inr o1 by (subst link_counts_from.simps) auto
  qed
qed


section \<open>Orphans\<close>

text \<open>The numbers that come from the disk are numbers of blocks, and so is that of the system directory.\<close>

definition orphans_in_range :: "nat \<Rightarrow> 'd pass4_env \<Rightarrow> bool" where
  "orphans_in_range N env \<longleftrightarrow> (\<forall>d p n i. lib_lookup (p3 env) d p n = Inr i \<longrightarrow> i < N) \<and>
     (\<forall>d k b des x. lib_read_dir_block env d k b = Inr (des, x) \<longrightarrow> (\<forall>de\<in>set des. de_inode de < N))"

definition steady :: "nat \<Rightarrow> 'd o2fsck_state \<Rightarrow> bool" where
  "steady N ost \<longleftrightarrow> tables N ost \<and> fs_sysdir_blkno ost < N"

lemma steady_disk [simp]: "steady N (ost\<lparr>disk := d\<rparr>) = steady N ost"
  by (simp add: steady_def)

text \<open>A call that has a result, with a property.\<close>

definition returns :: "('a \<Rightarrow> bool) \<Rightarrow> 'a option \<Rightarrow> bool" where
  "returns P r \<longleftrightarrow> (\<exists>x. r = Some x \<and> P x)"

lemma returns_Some [simp]: "returns P (Some x) = P x"
  by (simp add: returns_def)

lemma returns_bind: "returns P m \<Longrightarrow> (\<And>x. P x \<Longrightarrow> returns Q (f x)) \<Longrightarrow> returns Q (m \<bind> f)"
  by (auto simp: returns_def)

lemma delta_steady:
  assumes "steady N ost" and "b < N"
  shows "returns (steady N) (delta_refs env b n ost)" and "returns (steady N) (delta_in_inodes env b n ost)"
proof -
  have t: "table N (ost_icount_refs ost)" "table N (ost_icount_in_inodes ost)" "fs_sysdir_blkno ost < N" using assms(1) by (simp_all add: steady_def tables_def)
  show "returns (steady N) (delta_refs env b n ost)"
    using table_delta [OF t(1) assms(2), of "junk env" n] t(2,3) by (auto simp: returns_def delta_refs_def steady_def tables_def)
  show "returns (steady N) (delta_in_inodes env b n ost)"
    using table_delta [OF t(2) assms(2), of "junk env" n] t(1,3) by (auto simp: returns_def delta_in_inodes_def steady_def tables_def)
qed

lemma uncount_orphan_steady:
  assumes "steady N ost" and "de_inode de < N" and "k < N"
  shows "returns (steady N) (uncount_orphan env k de ost)"
  unfolding uncount_orphan_def using assms by (auto intro!: returns_bind [OF delta_steady(1)] returns_bind [OF delta_steady(2)] delta_steady)

lemma replay_orphan_iterate_steady:
  assumes "steady N ost" and "de_inode de < N" and "k < N"
  shows "returns (\<lambda>x. steady N (fst x)) (replay_orphan_iterate env k ost de)"
proof -
  have u: "returns (steady N) (uncount_orphan env k de (ost\<lparr>disk := d\<rparr>))" for d
    using assms by (intro uncount_orphan_steady) simp_all
  show ?thesis unfolding replay_orphan_iterate_def
    using assms(1) by (auto split: prod.split bool.split option.split intro!: returns_bind [OF u])
qed

lemma replay_entries_steady:
  assumes "steady N ost" and "\<forall>de\<in>set des. de_inode de < N" and "k < N"
  shows "returns (\<lambda>x. steady N (fst x)) (replay_entries env k ost err des)"
  using assms
proof (induction des arbitrary: ost err)
  case (Cons de des)
  have one: "returns (\<lambda>x. steady N (fst x)) (replay_orphan_iterate env k ost de)" using Cons.prems by (intro replay_orphan_iterate_steady) simp_all
  have more: "returns (\<lambda>x. steady N (fst x)) (replay_entries env k o2 err2 des)" if "steady N o2" for o2 err2
    using that Cons.prems by (intro Cons.IH) simp_all
  show ?case using Cons.prems(1) by (auto split: prod.split intro!: returns_bind [OF one] returns_bind [OF more])
qed simp

lemma replay_blocks_steady:
  assumes "steady N ost" and "orphans_in_range N env" and "k < N"
  shows "returns (\<lambda>x. steady N (fst x)) (replay_blocks env k ost err bs)"
  using assms(1)
proof (induction bs arbitrary: ost err)
  case (Cons b bs)
  show ?case
  proof (cases "lib_read_dir_block env (disk ost) k b")
    case (Inr x)
    obtain des bad where x: "x = (des, bad)" by fastforce
    then have "\<forall>de\<in>set des. de_inode de < N" using assms(2) Inr unfolding orphans_in_range_def by blast
    note one = replay_entries_steady [OF Cons.prems this assms(3)]
    show ?thesis using Inr x Cons.IH by (auto split: prod.split option.split intro!: returns_bind [OF one])
  qed (use Cons.prems in simp)
qed simp

lemma replay_dir_steady:
  assumes "steady N ost" and "orphans_in_range N env" and "k < N"
  shows "returns (\<lambda>x. steady N (fst x)) (replay_dir env k ost)"
  unfolding replay_dir_def using assms by (auto split: sum.split intro!: returns_bind [OF replay_blocks_steady [OF assms]])

lemma create_orphan_dir_steady:
  assumes "steady N ost"
  shows "returns (\<lambda>x. steady N (fst x)) (create_orphan_dir env ost fname)"
proof -
  have "returns (\<lambda>x. steady N (fst x)) (do { o1 \<leftarrow> delta_refs env (fs_sysdir_blkno ost) 1 (ost\<lparr>disk := d\<rparr>); o2 \<leftarrow> delta_in_inodes env (fs_sysdir_blkno o1) 1 o1; Some (o2, None) })" for d
    using assms by (auto simp: steady_def [of N ost] intro!: returns_bind [OF delta_steady(1)] returns_bind [OF delta_steady(2)]) (simp_all add: steady_def)
  then show ?thesis using assms by (auto simp: create_orphan_dir_def split: sum.split prod.split)
qed

text \<open>What is known of the variable \<open>ino\<close> when it was set, and after a slot.\<close>

lemma find_orphan_dir_steady:
  assumes "steady N ost" and "orphans_in_range N env" and "pred_option (\<lambda>k. k < N) ino"
  shows "returns (\<lambda>(ost', step). steady N ost' \<and> (\<forall>r. step = Slot_dir r \<longrightarrow> pred_option (\<lambda>k. k < N) r \<and> (ino \<noteq> None \<longrightarrow> r \<noteq> None))) (find_orphan_dir env rec ost ino i)"
proof -
  have "k < N" if "lib_lookup (p3 env) (disk ost) (fs_sysdir_blkno ost) (lib_orphan_name env i) = Inr k" for k
    using assms(2) that unfolding orphans_in_range_def by blast
  moreover have "returns (\<lambda>x. steady N (fst x)) (create_orphan_dir env (ost\<lparr>disk := d\<rparr>) (lib_orphan_name env i))" for d using assms(1) by (intro create_orphan_dir_steady) simp
  ultimately show ?thesis unfolding find_orphan_dir_def using assms(1,3)
    by (auto split: sum.split prod.split bool.split option.split intro!: returns_bind [of "\<lambda>x. steady N (fst x)" "create_orphan_dir _ _ _"])
qed

lemma replay_slots_steady:
  assumes "steady N ost" and "orphans_in_range N env" and "k < N"
  shows "returns (\<lambda>x. steady N (fst x)) (replay_slots env rec ost (Some k) ret is)"
  using assms(1,3)
proof (induction "is" arbitrary: ost k ret)
  case (Cons i "is")
  note find = find_orphan_dir_steady [OF Cons.prems(1) assms(2), of "Some k" rec i]
  note dir = replay_dir_steady [OF _ assms(2)]
  show ?case using Cons
    by (auto split: slot_step.split option.split intro!: returns_bind [OF find] returns_bind [OF dir])
qed simp

section \<open>The whole pass\<close>

text \<open>
  The variable \<open>ino\<close> is used before it is set: the orphan directories of the first slots are missing; those that the user lets create cannot be created, up to one that is
  created or that the user does not let create.  What was created is not looked up.
\<close>

fun ino_unset :: "'d pass4_env \<Rightarrow> 'd o2fsck_state \<Rightarrow> nat list \<Rightarrow> bool" where
  "ino_unset env ost [] = False"
| "ino_unset env ost (i # is) =
     (lib_orphan_name env i \<noteq> [] \<and> lib_lookup (p3 env) (disk ost) (fs_sysdir_blkno ost) (lib_orphan_name env i) = Inl OCFS2_ET_FILE_NOT_FOUND \<and>
      (case ask env ost PR_ORPHAN_DIR_MISSING i of
         (False, _) \<Rightarrow> True
       | (True, d) \<Rightarrow>
           (case create_orphan_dir env (ost\<lparr>disk := d\<rparr>) (lib_orphan_name env i) of
              Some (_, None) \<Rightarrow> True
            | Some (ost, Some _) \<Rightarrow> ino_unset env ost is
            | None \<Rightarrow> False)))"

lemma replay_slots_unset:
  assumes "steady N ost" and rng: "orphans_in_range N env"
  shows "if ino_unset env ost is then replay_slots env False ost None ret is = None
    else returns (\<lambda>x. steady N (fst x)) (replay_slots env False ost None ret is)"
  using assms(1)
proof (induction "is" arbitrary: ost ret)
  case (Cons i "is")
  show ?case
  proof (cases "lib_lookup (p3 env) (disk ost) (fs_sysdir_blkno ost) (lib_orphan_name env i)")
    case (Inr k)
    then have "k < N" using rng unfolding orphans_in_range_def by blast
    then show ?thesis using Inr Cons.prems
      by (auto simp: find_orphan_dir_def intro!: returns_bind [OF replay_dir_steady [OF _ rng]] replay_slots_steady [OF _ rng])
  next
    case (Inl e)
    obtain yes d where d: "ask env ost PR_ORPHAN_DIR_MISSING i = (yes, d)" by fastforce
    obtain o1 r where "create_orphan_dir env (ost\<lparr>disk := d\<rparr>) (lib_orphan_name env i) = Some (o1, r)" "steady N o1"
      using create_orphan_dir_steady [of N "ost\<lparr>disk := d\<rparr>" env "lib_orphan_name env i"] Cons.prems by (auto simp: returns_def)
    then show ?thesis using Inl d Cons by (cases yes; cases r) (simp_all add: find_orphan_dir_def)
  qed
qed simp

text \<open>
  C24.  Whether pass 4 has a result, whatever the user answers and whichever disk operations fail.  It has none, because a variable is used that was never set, exactly when the orphan
  directories of the first slots are missing (and cannot be created) up to one that is missing and is created, or that the user does not let create.  Otherwise the pass ends and its tables of
  link counts are well-formed.  The block numbers that the library reads from the disk and the number of the system directory are numbers of blocks of the volume.
\<close>

theorem pass4_terminates:
  assumes "tables N ost" and "fs_sysdir_blkno ost < N" and "inodes_in_range N env" and "orphans_in_range N env"
  shows "if ino_unset env ost [0..<s_max_slots env] then o2fsck_pass4 env ost = None
    else \<exists>ost' ret. o2fsck_pass4 env ost = Some (ost', ret) \<and> tables N ost'"
proof -
  have "steady N ost" using assms(1,2) by (simp add: steady_def)
  note slots = replay_slots_unset [OF this assms(4), of "[0..<s_max_slots env]" "Some OCFS2_ET_CORRUPT_SUPERBLOCK"]
  show ?thesis
  proof (cases "ino_unset env ost [0..<s_max_slots env]")
    case True
    then show ?thesis using slots by (simp add: o2fsck_pass4_def replay_orphan_dir_def)
  next
    case False
    then obtain o1 ret where o1: "replay_orphan_dir env False ost = Some (o1, ret)" "tables N o1"
      using slots by (auto simp: returns_def replay_orphan_dir_def steady_def)
    then show ?thesis using False link_counts_terminate [OF o1(2) assms(3), of 0] by (cases ret) (auto simp: o2fsck_pass4_def)
  qed
qed

section \<open>Link counts\<close>

text \<open>
  What pass 4b can do when nothing fails and all questions are answered with yes.  The link counts on the disk are \<open>links\<close>: they are what reading an inode gives, and
  only writing an inode changes them.  The directory entries on the disk are \<open>ents\<close>, each with its directory, its name and its inode: \<open>ocfs2_link\<close> adds the entry that it is called for,
  and writing an inode adds none.  The directory \<open>lost+found\<close> is \<open>lf\<close>.
\<close>

type_synonym dir_ent = "nat \<times> string \<times> nat"

definition repairs_work :: "nat \<Rightarrow> 'd pass4_env \<Rightarrow> ('d \<Rightarrow> nat \<Rightarrow> nat) \<Rightarrow> ('d \<Rightarrow> dir_ent multiset) \<Rightarrow> nat \<Rightarrow> nat \<Rightarrow> bool" where
  "repairs_work N env links ents root lf \<longleftrightarrow>
     (\<forall>d c n. lib_prompt (p3 env) d c n = (True, d)) \<and>
     (\<forall>d b. b < N \<longrightarrow> lib_read_inode env d b = Inr \<lparr>i_blkno = b, i_links_count = links d b\<rparr>) \<and>
     (\<forall>d b di. links (lib_write_inode env d b di) = (links d)(b := i_links_count di) \<and> ents (lib_write_inode env d b di) = ents d) \<and>
     (\<forall>d. lib_lookup (p3 env) d root ''lost+found'' = Inr lf) \<and>
     (\<forall>d k. \<exists>t. lib_type_from_dinode (p3 env) d k = Inr t) \<and>
     (\<forall>d p n k t. \<exists>d'. lib_link (p3 env) d p n k t = (Inr (), d') \<and> links d' = links d \<and> ents d' = add_mset (p, n, k) (ents d))"

definition ready :: "nat \<Rightarrow> nat \<Rightarrow> nat \<Rightarrow> 'd o2fsck_state \<Rightarrow> bool" where
  "ready N root lf ost \<longleftrightarrow> tables N ost \<and> fs_root_blkno ost = root \<and> (ost_lostfound_ino ost = 0 \<or> ost_lostfound_ino ost = lf)"

abbreviation lost_entry :: "'d pass4_env \<Rightarrow> nat \<Rightarrow> nat \<Rightarrow> dir_ent" where
  "lost_entry env lf k \<equiv> (lf, lib_inode_name (p3 env) k, k)"

lemma ready_tables: "ready N root lf ost \<Longrightarrow> tables N ost"
  by (simp add: ready_def)

lemma reconnect_counts:
  assumes t: "ready N root lf ost" and k: "k < N" and w: "repairs_work N env links ents root lf" and z: "refs_of ost k = 0"
  shows "\<exists>ost'. o2fsck_reconnect_file (p3 env) ost k = Some ost' \<and> ready N root lf ost' \<and> in_inodes_of ost' = in_inodes_of ost \<and>
    refs_of ost' = (refs_of ost)(k := 1) \<and> links (disk ost') = links (disk ost) \<and> ents (disk ost') = add_mset (lost_entry env lf k) (ents (disk ost))"
proof -
  have "lib_lookup (p3 env) (disk ost) (fs_root_blkno ost) ''lost+found'' = Inr lf" using w t unfolding repairs_work_def ready_def by blast
  then have lf: "(if ost_lostfound_ino ost = 0 then lib_lookup (p3 env) (disk ost) (fs_root_blkno ost) ''lost+found'' else Inr (ost_lostfound_ino ost)) = Inr lf"
    using t by (auto simp: ready_def)
  obtain ty where ty: "lib_type_from_dinode (p3 env) (disk ost) k = Inr ty" using w unfolding repairs_work_def by blast
  obtain d where d: "lib_link (p3 env) (disk ost) lf (lib_inode_name (p3 env) k) k ty = (Inr (), d)" "links d = links (disk ost)"
    "ents d = add_mset (lost_entry env lf k) (ents (disk ost))"
    using w unfolding repairs_work_def by blast
  obtain refs where "o2fsck_icount_delta (junk env) (ost_icount_refs ost) k 1 = Some refs" "table N refs" "icount_of refs = (refs_of ost)(k := 1)"
    using table_delta [of N "ost_icount_refs ost" k "junk env" 1] t k z by (auto simp: ready_def tables_def)
  then show ?thesis using t lf ty d by (simp add: o2fsck_reconnect_file_def ready_def tables_def Let_def)
qed

lemma update_counts:
  assumes t: "ready N root lf ost" and b: "b < N" and w: "repairs_work N env links ents root lf" and n: "in_inodes_of ost b = n"
  shows "\<exists>ost'. update_link_count env ost b (refs_of ost b) n = Some ost' \<and> ready N root lf ost' \<and> refs_of ost' = refs_of ost \<and> ents (disk ost') = ents (disk ost) \<and>
    in_inodes_of ost' = (in_inodes_of ost)(b := refs_of ost b) \<and> links (disk ost') = (links (disk ost))(b := if refs_of ost b = n then links (disk ost) b else refs_of ost b)"
proof (cases "refs_of ost b = n")
  case True
  then show ?thesis using t n by (auto simp: update_link_count_def)
next
  case False
  obtain ins where ins: "o2fsck_icount_set (junk env) (ost_icount_in_inodes ost) b (refs_of ost b) = Some ins" "table N ins" "icount_of ins = (in_inodes_of ost)(b := refs_of ost b)"
    using table_set [of N "ost_icount_in_inodes ost" b "refs_of ost b"] t b tables_get(3) [OF ready_tables [OF t] b] by (auto simp: ready_def tables_def)
  moreover have "lib_read_inode env (disk ost) b = Inr \<lparr>i_blkno = b, i_links_count = links (disk ost) b\<rparr>" "ask env ost PR_INODE_COUNT b = (True, disk ost)"
    "links (lib_write_inode env d b di) = (links d)(b := i_links_count di)" "ents (lib_write_inode env d b di) = ents d" for d di
    using w b unfolding repairs_work_def by blast+
  ultimately show ?thesis using False t by (simp add: update_link_count_def ready_def tables_def)
qed

lemma check_counts:
  assumes t: "ready N root lf ost" and b: "b < N" and w: "repairs_work N env links ents root lf"
  defines "r \<equiv> if refs_of ost b = 0 then 1 else refs_of ost b"
  shows "\<exists>ost'. check_link_counts env ost b = Some ost' \<and> ready N root lf ost' \<and> refs_of ost' = (refs_of ost)(b := r) \<and> in_inodes_of ost' = (in_inodes_of ost)(b := r) \<and>
    links (disk ost') = (links (disk ost))(b := if r = in_inodes_of ost b then links (disk ost) b else r) \<and>
    ents (disk ost') = ents (disk ost) + (if refs_of ost b = 0 then {#lost_entry env lf b#} else {#})"
proof (cases "refs_of ost b = 0")
  case True
  have "ask env ost PR_INODE_NOT_CONNECTED b = (True, disk ost)" using w unfolding repairs_work_def by blast
  moreover obtain o1 where o1: "o2fsck_reconnect_file (p3 env) ost b = Some o1" "ready N root lf o1" "in_inodes_of o1 = in_inodes_of ost" "refs_of o1 = (refs_of ost)(b := 1)"
    "links (disk o1) = links (disk ost)" "ents (disk o1) = add_mset (lost_entry env lf b) (ents (disk ost))" using reconnect_counts [OF t b w True] by blast
  ultimately have "check_link_counts env ost b = update_link_count env o1 b (refs_of o1 b) (in_inodes_of ost b)"
    using True tables_get [OF ready_tables [OF t] b] tables_get [OF ready_tables [OF o1(2)] b] by (simp add: check_link_counts_def)
  moreover obtain o2 where "update_link_count env o1 b (refs_of o1 b) (in_inodes_of ost b) = Some o2" "ready N root lf o2" "refs_of o2 = refs_of o1" "in_inodes_of o2 = (in_inodes_of o1)(b := refs_of o1 b)"
    "links (disk o2) = (links (disk o1))(b := if refs_of o1 b = in_inodes_of ost b then links (disk o1) b else refs_of o1 b)" "ents (disk o2) = ents (disk o1)"
    using update_counts [OF o1(2) b w, of "in_inodes_of ost b"] o1(3) by auto
  ultimately show ?thesis using o1(3-6) True by (simp add: r_def)
next
  case False
  then have "check_link_counts env ost b = update_link_count env ost b (refs_of ost b) (in_inodes_of ost b)"
    using tables_get [OF ready_tables [OF t] b] by (simp add: check_link_counts_def)
  then show ?thesis using update_counts [OF t b w refl] False by (auto simp: r_def)
qed


text \<open>The counts of a block after the loop has passed over the blocks from \<open>start\<close> on, and the inodes without an entry that it meets.\<close>

definition repaired :: "('d \<Rightarrow> nat \<Rightarrow> nat) \<Rightarrow> nat \<Rightarrow> 'd o2fsck_state \<Rightarrow> 'd o2fsck_state \<Rightarrow> nat \<Rightarrow> bool" where
  "repaired links start ost ost' c \<longleftrightarrow>
     (if start \<le> c \<and> (refs_of ost c \<noteq> 0 \<or> in_inodes_of ost c \<noteq> 0)
      then refs_of ost' c = (if refs_of ost c = 0 then 1 else refs_of ost c) \<and> in_inodes_of ost' c = refs_of ost' c \<and>
        links (disk ost') c = (if refs_of ost' c = in_inodes_of ost c then links (disk ost) c else refs_of ost' c)
      else refs_of ost' c = refs_of ost c \<and> in_inodes_of ost' c = in_inodes_of ost c \<and> links (disk ost') c = links (disk ost) c)"

definition unreferenced :: "nat \<Rightarrow> 'd o2fsck_state \<Rightarrow> nat set" where
  "unreferenced start ost = {b. start \<le> b \<and> refs_of ost b = 0 \<and> in_inodes_of ost b \<noteq> 0}"

lemma unreferenced_finite:
  assumes "tables N ost"
  shows "finite (unreferenced start ost)"
proof (rule finite_subset)
  have t: "table N (ost_icount_in_inodes ost)" using assms by (simp add: tables_def)
  show "unreferenced start ost \<subseteq> {..<N}" using table_beyond [OF t] unfolding unreferenced_def by blast
qed simp

lemma link_counts_repaired:
  assumes "ready N root lf ost" and w: "repairs_work N env links ents root lf"
  shows "\<exists>ost'. link_counts_from env ost start = Some ost' \<and> (\<forall>c. repaired links start ost ost' c) \<and>
    ents (disk ost') = ents (disk ost) + image_mset (lost_entry env lf) (mset_set (unreferenced start ost))"
  using assms(1)
proof (induction "N - start" arbitrary: start ost rule: less_induct)
  case less
  note t = ready_tables [OF less.prems]
  obtain r where r: "next_inode_any_ref env ost start = Some r"
    "case r of Inl _ \<Rightarrow> \<forall>b\<ge>start. refs_of ost b = 0 \<and> in_inodes_of ost b = 0
     | Inr b \<Rightarrow> start \<le> b \<and> b < N \<and> (refs_of ost b \<noteq> 0 \<or> in_inodes_of ost b \<noteq> 0) \<and> (\<forall>c\<in>{start..<b}. refs_of ost c = 0 \<and> in_inodes_of ost c = 0)"
    using any_ref_next [OF t] by blast
  show ?case
  proof (cases r)
    case (Inl e)
    moreover from this have "unreferenced start ost = {}" using r by (auto simp: unreferenced_def)
    ultimately show ?thesis using r by (subst link_counts_from.simps) (auto simp: repaired_def)
  next
    case (Inr b)
    then have b: "start \<le> b" "b < N" "refs_of ost b \<noteq> 0 \<or> in_inodes_of ost b \<noteq> 0" "\<And>c. start \<le> c \<Longrightarrow> c < b \<Longrightarrow> refs_of ost c = 0 \<and> in_inodes_of ost c = 0" using r by auto
    let ?r = "if refs_of ost b = 0 then 1 else refs_of ost b"
    obtain o1 where o1: "check_link_counts env ost b = Some o1" "ready N root lf o1" "refs_of o1 = (refs_of ost)(b := ?r)" "in_inodes_of o1 = (in_inodes_of ost)(b := ?r)"
      "links (disk o1) = (links (disk ost))(b := if ?r = in_inodes_of ost b then links (disk ost) b else ?r)"
      "ents (disk o1) = ents (disk ost) + (if refs_of ost b = 0 then {#lost_entry env lf b#} else {#})" using check_counts [OF less.prems b(2) w] by blast
    have "add64 b 1 = Suc b" using b(2) t by (simp add: add64_eq tables_def table_def icount_ok_def block_inv_def INT_MAX_def)
    then have step: "link_counts_from env ost start = link_counts_from env o1 (Suc b)" using r(1) Inr o1(1) by (subst link_counts_from.simps) simp
    obtain ost' where ost': "link_counts_from env o1 (Suc b) = Some ost'" "\<And>c. repaired links (Suc b) o1 ost' c"
      "ents (disk ost') = ents (disk o1) + image_mset (lost_entry env lf) (mset_set (unreferenced (Suc b) o1))"
      using less.hyps [OF diff_less_mono2 [OF le_imp_less_Suc [OF b(1)] less_le_trans [OF le_less_trans [OF b(1,2)] order.refl]] o1(2)] by blast
    have "repaired links start ost ost' c" for c
    proof (cases c b rule: linorder_cases)
      case less
      then show ?thesis using ost'(2) [of c] b(4) [of c] by (simp add: repaired_def o1(3-5))
    next
      case equal
      then show ?thesis using ost'(2) [of c] b(1,3) by (simp add: repaired_def o1(3-5))
    next
      case greater
      then show ?thesis using ost'(2) [of c] b(1) by (simp add: repaired_def o1(3-5) Suc_le_eq)
    qed
    moreover have "unreferenced start ost = (if refs_of ost b = 0 then insert b (unreferenced (Suc b) o1) else unreferenced (Suc b) o1)"
    proof (rule set_eqI)
      fix c show "c \<in> unreferenced start ost \<longleftrightarrow> c \<in> (if refs_of ost b = 0 then insert b (unreferenced (Suc b) o1) else unreferenced (Suc b) o1)"
        using b(1,3) b(4) [of c] by (cases c b rule: linorder_cases) (auto simp: unreferenced_def o1(3,4))
    qed
    then have "ents (disk ost') = ents (disk ost) + image_mset (lost_entry env lf) (mset_set (unreferenced start ost))"
      using ost'(3) unreferenced_finite [OF ready_tables [OF o1(2)], of "Suc b"] by (simp add: o1(6) unreferenced_def)
    ultimately show ?thesis unfolding step using ost'(1) by blast
  qed
qed

text \<open>The number of entries that refer to an inode, and the tables as the passes before leave them.\<close>

definition entries_of :: "dir_ent multiset \<Rightarrow> nat \<Rightarrow> nat" where
  "entries_of es b = size {#e \<in># es. snd (snd e) = b#}"

lemma entries_of_add: "entries_of (es + fs) b = entries_of es b + entries_of fs b"
  by (simp add: entries_of_def)

lemma entries_of_lost: "finite B \<Longrightarrow> entries_of (image_mset (lost_entry env lf) (mset_set B)) b = (if b \<in> B then 1 else 0)"
  by (induction B rule: finite_induct) (auto simp: entries_of_def)

definition counted :: "('d \<Rightarrow> nat \<Rightarrow> nat) \<Rightarrow> ('d \<Rightarrow> dir_ent multiset) \<Rightarrow> 'd o2fsck_state \<Rightarrow> nat \<Rightarrow> bool" where
  "counted links ents ost b \<longleftrightarrow> refs_of ost b = entries_of (ents (disk ost)) b \<and> (refs_of ost b \<noteq> 0 \<or> in_inodes_of ost b \<noteq> 0 \<longrightarrow> in_inodes_of ost b = links (disk ost) b)"

text \<open>
  C17.  Pass 4b, when all questions are answered with yes and the disk operations work, from tables that hold, for the blocks of the volume, the number of directory entries that refer to an inode and the
  link counts in the inodes.  The loop ends.  Exactly the inodes that have a link count and no entry get one, in \<open>lost+found\<close> and with the name for their number, and no other entry is added or
  removed.  For every inode that has an entry or had a link count, the link count on the disk is then the number of entries on the disk that refer to it, which is not 0; the inodes in all other
  blocks are not changed.  Both tables of the checker hold that number.
\<close>

theorem pass4_repairs_link_counts:
  assumes "ready N root lf ost" and "repairs_work N env links ents root lf" and "\<And>b. b < N \<Longrightarrow> counted links ents ost b"
  shows "\<exists>ost'. link_counts_from env ost 0 = Some ost' \<and>
    ents (disk ost') = ents (disk ost) + image_mset (\<lambda>b. (lf, lib_inode_name (p3 env) b, b)) (mset_set {b. refs_of ost b = 0 \<and> in_inodes_of ost b \<noteq> 0}) \<and>
    (\<forall>b<N. refs_of ost' b = entries_of (ents (disk ost')) b \<and> in_inodes_of ost' b = entries_of (ents (disk ost')) b \<and>
      (if refs_of ost b \<noteq> 0 \<or> in_inodes_of ost b \<noteq> 0 then links (disk ost') b = entries_of (ents (disk ost')) b \<and> entries_of (ents (disk ost')) b \<noteq> 0
       else links (disk ost') b = links (disk ost) b))"
proof -
  obtain ost' where o: "link_counts_from env ost 0 = Some ost'" "\<And>c. repaired links 0 ost ost' c"
    "ents (disk ost') = ents (disk ost) + image_mset (lost_entry env lf) (mset_set (unreferenced 0 ost))"
    using link_counts_repaired [OF assms(1,2), of 0] by blast
  have un: "unreferenced 0 ost = {b. refs_of ost b = 0 \<and> in_inodes_of ost b \<noteq> 0}" by (simp add: unreferenced_def)
  have "entries_of (ents (disk ost')) b = entries_of (ents (disk ost)) b + (if b \<in> unreferenced 0 ost then 1 else 0)" for b
    unfolding o(3) by (simp add: entries_of_add entries_of_lost unreferenced_finite [OF ready_tables [OF assms(1)]])
  note now = this
  have "refs_of ost' b = entries_of (ents (disk ost')) b \<and> in_inodes_of ost' b = entries_of (ents (disk ost')) b \<and>
      (if refs_of ost b \<noteq> 0 \<or> in_inodes_of ost b \<noteq> 0 then links (disk ost') b = entries_of (ents (disk ost')) b \<and> entries_of (ents (disk ost')) b \<noteq> 0
       else links (disk ost') b = links (disk ost) b)" if "b < N" for b
    using o(2) [of b] assms(3) [OF that] now [of b]
    by (cases "refs_of ost b = 0"; cases "in_inodes_of ost b = 0") (simp_all add: repaired_def counted_def un)
  then show ?thesis using o(1,3) unfolding un by blast
qed

text \<open>
  A volume of 4 blocks.  The inode in block 3 has 5 entries and a link count of 2, the one in block 1 has a link count of 7 and no entry.  The state of the disk is the function of link
  counts with the entries, and \<open>lost+found\<close> is in block 2.
\<close>

definition sample_in_inodes :: o2fsck_icount where
  "sample_in_inodes = \<lparr>ic_single_bm = sample_bitmap,
     ic_multiple_tree = Node RB_BLACK \<lparr>in_blkno = 3, in_icount = 2\<rparr> (Node RB_RED \<lparr>in_blkno = 1, in_icount = 7\<rparr> Leaf Leaf) Leaf\<rparr>"

lemma sample_tables: "table 4 Icount.sample_icount" "table 4 sample_in_inodes"
proof -
  show "table 4 Icount.sample_icount" using Icount.sample_icount_ok by (simp add: table_def)
  have "block_inv sample_bitmap" using sample_bitmap_ok by (simp add: block_inv_def sample_bitmap_def INT_MAX_def)
  then have "icount_ok sample_in_inodes"
    by (auto simp: icount_ok_def sample_in_inodes_def sample_bitmap_bits sorted_tree_def rb_tree_def tmap_def split: if_splits)
       (simp_all add: sample_bitmap_def)
  then show "table 4 sample_in_inodes" by (simp add: table_def sample_in_inodes_def sample_bitmap_def)
qed

type_synonym link_disk = "(nat \<Rightarrow> nat) \<times> dir_ent multiset"

definition sample_pass4_env :: "link_disk pass4_env" where
  "sample_pass4_env =
     \<lparr>p3 = \<lparr>lib_prompt = (\<lambda>d _ _. (True, d)), lib_inode_allocated = (\<lambda>_ _. True), lib_lookup = (\<lambda>_ _ _. Inr 2), lib_new_inode = (\<lambda>d. (Inl OCFS2_ET_BIT_NOT_FOUND, d)),
            lib_delete_inode = (\<lambda>d _. d), lib_init_dir = (\<lambda>d _ _. (Inr (), d)), lib_link = (\<lambda>d p n k _. (Inr (), fst d, add_mset (p, n, k) (snd d))), lib_write_super = (\<lambda>d _. (Inr (), d)),
            lib_type_from_dinode = (\<lambda>_ _. Inr 1), lib_read_dir = (\<lambda>_ _. Inr []), lib_write_dir = (\<lambda>d _ _. (Inr (), d)), lib_inode_name = (\<lambda>_. ''#''), lib_junk = False\<rparr>,
      ost_force = True, fs_rw = True, s_max_slots = 2,
      lib_read_inode = (\<lambda>d b. if b < 4 then Inr \<lparr>i_blkno = b, i_links_count = fst d b\<rparr> else Inl OCFS2_ET_INVALID_BIT), lib_write_inode = (\<lambda>d b di. ((fst d)(b := i_links_count di), snd d)),
      lib_truncate = (\<lambda>d _. (None, d)), lib_delete = (\<lambda>d _. (None, d)), lib_new_system_inode = (\<lambda>d. (Inl OCFS2_ET_BIT_NOT_FOUND, d)),
      lib_orphan_name = (\<lambda>_. ''orphan_dir''), lib_dir_blocks = (\<lambda>_ _. Inr [0]), lib_read_dir_block = (\<lambda>_ _ _. Inr ([], False)), lib_write_dir_block = (\<lambda>d _ _ _. (None, d))\<rparr>"

definition sample_pass4_state :: "link_disk o2fsck_state" where
  "sample_pass4_state = \<lparr>ost_dir_parents = Leaf, ost_icount_in_inodes = sample_in_inodes, ost_icount_refs = Icount.sample_icount, ost_lostfound_ino = 0, fs_root_blkno = 0,
     fs_sysdir_blkno = 1, loop_no = 0, disk = (icount_of sample_in_inodes, {#(0, ''.'', 0), (0, ''lost+found'', 2), (0, ''a'', 3), (0, ''b'', 3), (0, ''c'', 3), (0, ''d'', 3), (0, ''e'', 3)#})\<rparr>"

lemma sample_counts: "icount_of Icount.sample_icount = (\<lambda>b. if b = 3 then 5 else if b = 0 \<or> b = 2 then 1 else 0)"
    "icount_of sample_in_inodes = (\<lambda>b. if b = 3 then 2 else if b = 1 then 7 else if b = 0 \<or> b = 2 then 1 else 0)"
  by (auto simp: icount_of_def Icount.sample_icount_def sample_in_inodes_def sample_bitmap_bits tmap_def)

lemma sample_pass4: "tables 4 sample_pass4_state" "repairs_work 4 sample_pass4_env fst snd 0 2" "ready 4 0 2 sample_pass4_state" "counted fst snd sample_pass4_state b"
proof -
  show "tables 4 sample_pass4_state" using sample_tables by (simp add: tables_def sample_pass4_state_def)
  then show "ready 4 0 2 sample_pass4_state" by (simp add: ready_def sample_pass4_state_def)
  show "repairs_work 4 sample_pass4_env fst snd 0 2" unfolding repairs_work_def by (simp add: sample_pass4_env_def)
  show "counted fst snd sample_pass4_state b" by (simp add: counted_def sample_pass4_state_def sample_counts entries_of_def)
qed

theorem pass4_terminates_witness: "\<exists>ost' ret. o2fsck_pass4 sample_pass4_env sample_pass4_state = Some (ost', ret) \<and> tables 4 ost'"
proof -
  have "\<not> ino_unset sample_pass4_env sample_pass4_state [0..<s_max_slots sample_pass4_env]" by (simp add: sample_pass4_env_def upt_rec)
  then show ?thesis using pass4_terminates [OF sample_pass4(1), of sample_pass4_env]
    by (auto simp: inodes_in_range_def orphans_in_range_def sample_pass4_env_def sample_pass4_state_def split: if_splits)
qed

theorem pass4_repairs_link_counts_witness:
  "\<exists>ost'. link_counts_from sample_pass4_env sample_pass4_state 0 = Some ost' \<and> fst (disk ost') 3 = 5 \<and> fst (disk ost') 1 = 1 \<and> (2, ''#'', 1) \<in># snd (disk ost')"
proof -
  have lost: "{b. refs_of sample_pass4_state b = 0 \<and> in_inodes_of sample_pass4_state b \<noteq> 0} = {1}"
    by (auto simp: sample_pass4_state_def sample_counts)
  have name: "lib_inode_name (p3 sample_pass4_env) b = ''#''" for b by (simp add: sample_pass4_env_def)
  have im: "image_mset (\<lambda>b. (2, ''#'', b)) (mset_set {1}) = {#(2, ''#'', 1 :: nat)#}" by simp
  obtain ost' where o: "link_counts_from sample_pass4_env sample_pass4_state 0 = Some ost'"
      "snd (disk ost') = snd (disk sample_pass4_state) + {#(2, ''#'', 1)#}"
      "\<forall>b<4. refs_of ost' b = entries_of (snd (disk ost')) b \<and> in_inodes_of ost' b = entries_of (snd (disk ost')) b \<and>
        (if refs_of sample_pass4_state b \<noteq> 0 \<or> in_inodes_of sample_pass4_state b \<noteq> 0 then fst (disk ost') b = entries_of (snd (disk ost')) b \<and> entries_of (snd (disk ost')) b \<noteq> 0
         else fst (disk ost') b = fst (disk sample_pass4_state) b)"
    using pass4_repairs_link_counts [OF sample_pass4(3,2,4)] unfolding lost name im by blast
  have "fst (disk ost') b = entries_of (snd (disk ost')) b" if "b = 3 \<or> b = 1" for b
    using o(3) that by (auto simp: sample_pass4_state_def sample_counts)
  then have "fst (disk ost') 3 = entries_of (snd (disk ost')) 3" "fst (disk ost') 1 = entries_of (snd (disk ost')) 1" by blast+
  moreover have "entries_of (snd (disk ost')) 3 = 5" "entries_of (snd (disk ost')) 1 = 1" unfolding o(2) by (simp_all add: entries_of_def sample_pass4_state_def)
  moreover have "(2, ''#'', 1) \<in># snd (disk ost')" unfolding o(2) by simp
  ultimately show ?thesis using o(1) by metis
qed

end
