(* ===== verification/Cpg.thy ===== *)
theory Cpg
  imports Ocfs2_Prelude
begin

text \<open>
  \<open>ocfs2_controld/cpg.c\<close>: the process groups of the cluster that the daemon is in, one for each mounted
  filesystem.  The cluster library reports changes of a group; the daemon keeps its own list of the
  nodes of each group and tells the mount groups when it has joined or left, and when a node died.

  The calls \<open>cg_set_cgroup\<close> and \<open>cg_node_down\<close> into the mount groups and the calls into the cluster
  library are recorded as actions, oldest first.  A pointer to a group is its handle.
\<close>

section \<open>The model\<close>

datatype cpg_reason =
  CPG_REASON_JOIN | CPG_REASON_LEAVE | CPG_REASON_NODEDOWN | CPG_REASON_NODEUP | CPG_REASON_PROCDOWN

record cpg_address =
  nodeid :: int
  pid :: nat
  reason :: cpg_reason

definition CPG_MEMBERS_MAX :: nat where "CPG_MEMBERS_MAX = 128"

record cgroup =
  cg_handle :: nat
  cg_joined :: bool
  cg_members :: "nat \<Rightarrow> cpg_address"  \<comment> \<open>an array\<close>
  cg_member_count :: nat
  cg_nodes :: "int list"  \<comment> \<open>the node numbers of \<open>struct cnode\<close>\<close>
  cg_node_count :: int
  cg_user_data :: nat
  cg_got_confchg :: bool
  cg_cb_members :: "nat \<Rightarrow> cpg_address"
  cg_cb_joined :: "nat \<Rightarrow> cpg_address"
  cg_cb_left :: "nat \<Rightarrow> cpg_address"
  cg_cb_member_count :: nat
  cg_cb_joined_count :: nat
  cg_cb_left_count :: nat

datatype cpg_action =
    Set_cgroup "nat option" nat  \<comment> \<open>\<open>cg_set_cgroup\<close> with the group or null, and the user data\<close>
  | Cg_node_down int nat
  | Kill_stack_node int
  | Cpg_shutdown
  | Cpg_finalize nat
  | Cpg_leave nat
  | Log_nodes_left "int list"  \<comment> \<open>the error that the list of nodes is not empty\<close>

record cpg =
  group_list :: "cgroup list"
  cpg_actions :: "cpg_action list"

abbreviation cpg_do :: "cpg_action \<Rightarrow> cpg \<Rightarrow> cpg" where
  "cpg_do a s \<equiv> s\<lparr>cpg_actions := cpg_actions s @ [a]\<rparr>"

text \<open>\<open>for_each_node_list\<close>, with the function as a state transformer that may fail.\<close>

fun for_each_node_list :: "('a \<Rightarrow> 's \<Rightarrow> 's option) \<Rightarrow> 'a list \<Rightarrow> 's \<Rightarrow> 's option" where
  "for_each_node_list f [] s = Some s"
| "for_each_node_list f (x # xs) s = Option.bind (f x s) (for_each_node_list f xs)"

abbreviation entries :: "(nat \<Rightarrow> 'a) \<Rightarrow> nat \<Rightarrow> 'a list" where
  "entries arr count \<equiv> map arr [0..<count]"

definition find_node :: "cgroup \<Rightarrow> int \<Rightarrow> int option" where
  "find_node cg n = find (\<lambda>m. m = n) (cg_nodes cg)"

text \<open>The group functions act on a group and the list of actions.\<close>

type_synonym group_state = "cgroup \<times> cpg_action list"

definition push_node :: "int \<Rightarrow> group_state \<Rightarrow> group_state" where
  "push_node n = (\<lambda>(cg, acts).
     if find_node cg n \<noteq> None then (cg, acts @ [Cpg_shutdown])
     else (cg\<lparr>cg_nodes := n # cg_nodes cg, cg_node_count := cg_node_count cg + 1\<rparr>, acts))"

definition pop_node :: "int \<Rightarrow> cgroup \<Rightarrow> cgroup" where
  "pop_node n cg =
     (let cg = (if find_node cg n \<noteq> None
                then cg\<lparr>cg_nodes := remove1 n (cg_nodes cg), cg_node_count := cg_node_count cg - 1\<rparr> else cg)
      in if cg_node_count cg < 0 then cg\<lparr>cg_node_count := 0\<rparr> else cg)"

definition push_node_on_join :: "cpg_address \<Rightarrow> group_state \<Rightarrow> group_state option" where
  "push_node_on_join addr s = Some (push_node (nodeid addr) s)"

definition handle_node_join :: "int \<Rightarrow> cpg_address \<Rightarrow> group_state \<Rightarrow> group_state option" where
  "handle_node_join our_nodeid addr s =
     (if nodeid addr = our_nodeid then
        (if cg_joined (fst s) then Some s
         else do { (cg, acts) \<leftarrow> for_each_node_list push_node_on_join
                                  (entries (cg_cb_members (fst s)) (cg_cb_member_count (fst s))) s;
                   Some (cg\<lparr>cg_joined := True\<rparr>, acts @ [Set_cgroup (Some (cg_handle cg)) (cg_user_data cg)]) })
      else Some (push_node (nodeid addr) s))"

text \<open>
  \<open>finalize_group\<close> tells the mount group, drops the nodes of the group one by one, the members and then
  ourselves, and frees the group: there is no group afterwards.
\<close>

definition pop_nodes_on_leave :: "cpg_address \<Rightarrow> cgroup \<Rightarrow> cgroup" where
  "pop_nodes_on_leave addr = pop_node (nodeid addr)"

definition finalize_group :: "int \<Rightarrow> group_state \<Rightarrow> cpg_action list" where
  "finalize_group our_nodeid = (\<lambda>(cg, acts).
     let cg' = pop_node our_nodeid (fold pop_nodes_on_leave (entries (cg_members cg) (cg_member_count cg)) cg)
     in acts @ [Set_cgroup None (cg_user_data cg)] @
        (if cg_nodes cg' \<noteq> [] then [Log_nodes_left (cg_nodes cg')] else []) @ [Cpg_finalize (cg_handle cg)])"

text \<open>
  \<open>handle_node_leave\<close> on a group that may be gone: after the group was freed by our own leaving, the
  loop over the list of the leaving nodes, which is part of the group, would go on in freed memory.
\<close>

definition handle_node_leave ::
    "int \<Rightarrow> cpg_address \<Rightarrow> cgroup option \<times> cpg_action list \<Rightarrow> (cgroup option \<times> cpg_action list) option" where
  "handle_node_leave our_nodeid addr = (\<lambda>(g, acts).
     case g of
       None \<Rightarrow> None
     | Some cg \<Rightarrow>
         if reason addr = CPG_REASON_LEAVE then
           (if nodeid addr = our_nodeid then Some (None, finalize_group our_nodeid (cg, acts))
            else Some (Some (pop_node (nodeid addr) cg), acts))
         else Some (Some cg, acts))"

definition group_change :: "int \<Rightarrow> group_state \<Rightarrow> (cgroup option \<times> cpg_action list) option" where
  "group_change our_nodeid s =
     do { (cg, acts) \<leftarrow> for_each_node_list (handle_node_join our_nodeid)
                          (entries (cg_cb_joined (fst s)) (cg_cb_joined_count (fst s))) s;
          for_each_node_list (handle_node_leave our_nodeid)
            (entries (cg_cb_left cg) (cg_cb_left_count cg)) (Some cg, acts) }"

definition handle_daemon_left :: "cpg_address \<Rightarrow> cpg \<Rightarrow> cpg" where
  "handle_daemon_left addr s =
     (if reason addr = CPG_REASON_PROCDOWN then cpg_do (Kill_stack_node (nodeid addr)) s else s)"

text \<open>The loop of \<open>handle_node_down\<close> over all groups.\<close>

fun groups_node_down :: "int \<Rightarrow> cgroup list \<Rightarrow> cgroup list \<times> cpg_action list" where
  "groups_node_down n [] = ([], [])"
| "groups_node_down n (cg # cgs) =
     (case groups_node_down n cgs of
        (cgs', acts) \<Rightarrow>
          if find_node cg n \<noteq> None then (pop_node n cg # cgs', Cg_node_down n (cg_user_data cg) # acts)
          else (cg # cgs', acts))"

definition handle_node_down :: "cpg_address \<Rightarrow> cpg \<Rightarrow> cpg" where
  "handle_node_down addr s =
     (if reason addr \<noteq> CPG_REASON_NODEDOWN \<and> reason addr \<noteq> CPG_REASON_PROCDOWN then s
      else case groups_node_down (nodeid addr) (group_list s) of
        (cgs, acts) \<Rightarrow> s\<lparr>group_list := cgs, cpg_actions := cpg_actions s @ acts\<rparr>)"

text \<open>
  \<open>daemon_change\<close>, for the group of all daemons.  \<open>joined\<close> is the flag of that group; the result is the
  new flag, whether the daemon was told that it joined, and the state.
\<close>

definition daemon_change ::
    "int \<Rightarrow> nat \<Rightarrow> cpg_address list \<Rightarrow> cpg_address list \<Rightarrow> bool \<Rightarrow> cpg \<Rightarrow> bool \<times> bool \<times> cpg" where
  "daemon_change our_nodeid our_pid members left joined s =
     (let found = list_ex (\<lambda>a. nodeid a = our_nodeid \<and> pid a = our_pid) members
      in (joined \<or> found, found \<and> \<not> joined, fold handle_node_down left (fold handle_daemon_left left s)))"

text \<open>
  \<open>process_configuration_change\<close> copies the members with \<open>memcpy\<close>, but of the length
  \<open>sizeof(&cg->cg_cb_members)\<close>, the size of a pointer: eight bytes, the node number and the process
  number of the first member.
\<close>

definition copy_members :: "cgroup \<Rightarrow> nat \<Rightarrow> cpg_address" where
  "copy_members cg = (cg_members cg)(0 := (cg_members cg 0)\<lparr>nodeid := nodeid (cg_cb_members cg 0), pid := pid (cg_cb_members cg 0)\<rparr>)"

definition process_configuration_change :: "int \<Rightarrow> group_state \<Rightarrow> (cgroup option \<times> cpg_action list) option" where
  "process_configuration_change our_nodeid = (\<lambda>(cg, acts).
     group_change our_nodeid (cg\<lparr>cg_members := copy_members cg, cg_member_count := cg_cb_member_count cg\<rparr>, acts))"

definition handle_to_group :: "nat \<Rightarrow> cpg \<Rightarrow> cgroup option" where
  "handle_to_group h s = find (\<lambda>cg. cg_handle cg = h) (group_list s)"

text \<open>\<open>confchg_cb\<close>: only the first list that is too long is cut, because the tests are chained with \<open>else\<close>.\<close>

definition confchg_cb :: "cpg_address list \<Rightarrow> cpg_address list \<Rightarrow> cpg_address list \<Rightarrow> cgroup \<Rightarrow> cgroup option" where
  "confchg_cb members left joined cg =
     (let left_n = (if length left > CPG_MEMBERS_MAX then CPG_MEMBERS_MAX else length left);
          joined_n = (if \<not> length left > CPG_MEMBERS_MAX \<and> length joined > CPG_MEMBERS_MAX then CPG_MEMBERS_MAX
                      else length joined);
          member_n = (if \<not> length left > CPG_MEMBERS_MAX \<and> \<not> length joined > CPG_MEMBERS_MAX \<and> length members > CPG_MEMBERS_MAX
                      then CPG_MEMBERS_MAX else length members)
      in if joined_n > CPG_MEMBERS_MAX \<or> member_n > CPG_MEMBERS_MAX then None
         else Some (cg\<lparr>cg_cb_left_count := left_n, cg_cb_joined_count := joined_n, cg_cb_member_count := member_n,
                       cg_cb_left := (\<lambda>i. if i < left_n then left ! i else cg_cb_left cg i),
                       cg_cb_joined := (\<lambda>i. if i < joined_n then joined ! i else cg_cb_joined cg i),
                       cg_cb_members := (\<lambda>i. if i < member_n then members ! i else cg_cb_members cg i),
                       cg_got_confchg := True\<rparr>))"

text \<open>\<open>process_cpg\<close> for a group: one change is dispatched, and processed if the callback was called.\<close>

definition process_cpg ::
    "int \<Rightarrow> (cpg_address list \<times> cpg_address list \<times> cpg_address list) option \<Rightarrow> group_state \<Rightarrow> (cgroup option \<times> cpg_action list) option" where
  "process_cpg our_nodeid change = (\<lambda>(cg, acts).
     case change of
       None \<Rightarrow> Some (Some (cg\<lparr>cg_got_confchg := False\<rparr>), acts)
     | Some (members, left, joined) \<Rightarrow>
         do { cg \<leftarrow> confchg_cb members left joined (cg\<lparr>cg_got_confchg := False\<rparr>);
              process_configuration_change our_nodeid (cg, acts) })"

text \<open>The group with a handle is replaced in the list, or taken out of it.\<close>

fun put_group :: "nat \<Rightarrow> cgroup option \<Rightarrow> cgroup list \<Rightarrow> cgroup list" where
  "put_group h g [] = []"
| "put_group h g (c # cs) =
     (if cg_handle c = h then (case g of None \<Rightarrow> cs | Some c' \<Rightarrow> c' # cs) else c # put_group h g cs)"

definition null_address :: cpg_address where
  "null_address = \<lparr>nodeid = 0, pid = 0, reason = CPG_REASON_JOIN\<rparr>"

text \<open>\<open>group_join\<close>, when the cluster library accepts: a zeroed group in front of the list.\<close>

definition new_cgroup :: "nat \<Rightarrow> nat \<Rightarrow> cgroup" where
  "new_cgroup h user_data =
     \<lparr>cg_handle = h, cg_joined = False, cg_members = (\<lambda>_. null_address), cg_member_count = 0, cg_nodes = [],
      cg_node_count = 0, cg_user_data = user_data, cg_got_confchg = False, cg_cb_members = (\<lambda>_. null_address),
      cg_cb_joined = (\<lambda>_. null_address), cg_cb_left = (\<lambda>_. null_address), cg_cb_member_count = 0,
      cg_cb_joined_count = 0, cg_cb_left_count = 0\<rparr>"

definition group_join :: "int \<Rightarrow> nat \<Rightarrow> nat \<Rightarrow> cpg \<Rightarrow> int \<times> cpg" where
  "group_join rc h user_data s = (if rc \<noteq> 0 then (rc, s) else (0, s\<lparr>group_list := new_cgroup h user_data # group_list s\<rparr>))"

text \<open>\<open>group_leave\<close> and \<open>start_leave\<close>: the library is asked to leave, and \<open>rc\<close> is what the last try returned.\<close>

definition group_leave :: "int \<Rightarrow> nat \<Rightarrow> cpg \<Rightarrow> int \<times> cpg" where
  "group_leave rc h s =
     (case handle_to_group h s of
        None \<Rightarrow> (- 22, s)  \<comment> \<open>not reached: the caller's group exists\<close>
      | Some cg \<Rightarrow> if \<not> cg_joined cg then (- 22, s) else (rc, cpg_do (Cpg_leave h) s))"

section \<open>The daemon's list of nodes\<close>

definition group_ok :: "cgroup \<Rightarrow> bool" where
  "group_ok cg \<longleftrightarrow> distinct (cg_nodes cg) \<and> cg_node_count cg = int (length (cg_nodes cg))"

definition nodes_ok :: "cgroup \<Rightarrow> bool" where
  "nodes_ok cg \<longleftrightarrow> group_ok cg \<and> (\<not> cg_joined cg \<longrightarrow> cg_nodes cg = [])"

text \<open>How often nodes are pushed that are in the list already, which shuts the daemon down.\<close>

fun lost_track :: "int set \<Rightarrow> int list \<Rightarrow> nat" where
  "lost_track N [] = 0"
| "lost_track N (n # ns) = of_bool (n \<in> N) + lost_track (insert n N) ns"

definition joiners :: "int \<Rightarrow> cpg_address list \<Rightarrow> int list" where
  "joiners our joined = filter (\<lambda>n. n \<noteq> our) (map nodeid joined)"

definition leavers :: "cpg_address list \<Rightarrow> int set" where
  "leavers left = nodeid ` {a \<in> set left. reason a = CPG_REASON_LEAVE}"

text \<open>The fields of a group that the loops over nodes leave alone.\<close>

definition same_group :: "cgroup \<Rightarrow> cgroup \<Rightarrow> bool" where
  "same_group cg cg' \<longleftrightarrow> cg_user_data cg' = cg_user_data cg \<and> cg_joined cg' = cg_joined cg \<and> cg_handle cg' = cg_handle cg \<and>
     cg_cb_left cg' = cg_cb_left cg \<and> cg_cb_left_count cg' = cg_cb_left_count cg"

lemma same_group_trans: "same_group a b \<Longrightarrow> same_group b c \<Longrightarrow> same_group a c"
  by (simp add: same_group_def)

lemma find_node_None: "find_node cg n = None \<longleftrightarrow> n \<notin> set (cg_nodes cg)"
  by (auto simp: find_node_def find_None_iff)

lemma push_node_ok:
  assumes "group_ok cg"
  shows "\<exists>cg'. push_node n (cg, acts) = (cg', acts @ replicate (of_bool (n \<in> set (cg_nodes cg))) Cpg_shutdown) \<and> group_ok cg' \<and>
    set (cg_nodes cg') = insert n (set (cg_nodes cg)) \<and> same_group cg cg'"
  using assms by (auto simp: push_node_def find_node_None group_ok_def same_group_def insert_absorb)

lemma pop_node_ok:
  assumes "group_ok cg"
  shows "group_ok (pop_node n cg) \<and> set (cg_nodes (pop_node n cg)) = set (cg_nodes cg) - {n} \<and> same_group cg (pop_node n cg)"
proof (cases "n \<in> set (cg_nodes cg)")
  case True
  then have "length (cg_nodes cg) > 0" by (cases "cg_nodes cg") auto
  then have "int (length (cg_nodes cg) - 1) = int (length (cg_nodes cg)) - 1" by linarith
  moreover have "length (remove1 n (cg_nodes cg)) = length (cg_nodes cg) - 1" using True by (simp add: length_remove1)
  ultimately show ?thesis using True assms by (simp add: pop_node_def find_node_None group_ok_def Let_def set_remove1_eq same_group_def)
next
  case False
  then show ?thesis using assms by (simp add: pop_node_def find_node_None group_ok_def Let_def same_group_def)
qed

lemma push_list_ok:
  "group_ok cg \<Longrightarrow>
    \<exists>cg'. for_each_node_list push_node_on_join xs (cg, acts) = Some (cg', acts @ replicate (lost_track (set (cg_nodes cg)) (map nodeid xs)) Cpg_shutdown) \<and>
      group_ok cg' \<and> set (cg_nodes cg') = set (cg_nodes cg) \<union> nodeid ` set xs \<and> same_group cg cg'"
proof (induction xs arbitrary: cg acts)
  case Nil
  then show ?case by (simp add: same_group_def)
next
  case (Cons x xs)
  let ?k = "of_bool (nodeid x \<in> set (cg_nodes cg)) :: nat"
  obtain cg1 where cg1: "push_node (nodeid x) (cg, acts) = (cg1, acts @ replicate ?k Cpg_shutdown)" "group_ok cg1"
    "set (cg_nodes cg1) = insert (nodeid x) (set (cg_nodes cg))" "same_group cg cg1"
    using push_node_ok [OF Cons.prems] by blast
  then show ?case using Cons.IH [OF cg1(2), of "acts @ replicate ?k Cpg_shutdown"] same_group_trans [OF cg1(4)]
    by (auto simp: push_node_on_join_def [of x] replicate_add)
qed

lemma push_node_joined: "cg_joined (fst (push_node n s)) = cg_joined (fst s)"
  by (simp add: push_node_def split_beta)

lemma joins_joined:
  "cg_joined (fst s) \<Longrightarrow> for_each_node_list (handle_node_join our) xs s = for_each_node_list push_node_on_join (filter (\<lambda>a. nodeid a \<noteq> our) xs) s"
  by (induction xs arbitrary: s) (auto simp: handle_node_join_def push_node_on_join_def push_node_joined)

lemma leaves_other:
  "group_ok cg \<Longrightarrow> our \<notin> leavers xs \<Longrightarrow>
    \<exists>cg'. for_each_node_list (handle_node_leave our) xs (Some cg, acts) = Some (Some cg', acts) \<and> group_ok cg' \<and>
    set (cg_nodes cg') = set (cg_nodes cg) - leavers xs \<and> same_group cg cg'"
proof (induction xs arbitrary: cg)
  case Nil
  then show ?case by (simp add: leavers_def same_group_def)
next
  case (Cons x xs)
  define cg1 where "cg1 = (if reason x = CPG_REASON_LEAVE then pop_node (nodeid x) cg else cg)"
  have cg1: "group_ok cg1" "set (cg_nodes cg1) = set (cg_nodes cg) - (if reason x = CPG_REASON_LEAVE then {nodeid x} else {})" "same_group cg cg1"
    using pop_node_ok [OF Cons.prems(1), of "nodeid x"] Cons.prems(1) by (auto simp: cg1_def same_group_def)
  have more: "leavers (x # xs) = leavers xs \<union> (if reason x = CPG_REASON_LEAVE then {nodeid x} else {})" by (auto simp: leavers_def)
  have step: "handle_node_leave our x (Some cg, acts) = Some (Some cg1, acts)"
    using Cons.prems(2) more by (auto simp: handle_node_leave_def cg1_def split: if_splits)
  have "our \<notin> leavers xs" using Cons.prems(2) more by simp
  from Cons.IH [OF cg1(1) this] obtain cg' where cg':
    "for_each_node_list (handle_node_leave our) xs (Some cg1, acts) = Some (Some cg', acts)" "group_ok cg'"
    "set (cg_nodes cg') = set (cg_nodes cg1) - leavers xs" "same_group cg1 cg'" by blast
  have "set (cg_nodes cg') = set (cg_nodes cg) - leavers (x # xs)" unfolding cg'(3) cg1(2) more by auto
  with step cg' same_group_trans [OF cg1(3) cg'(4)] show ?case by simp
qed

text \<open>The entries of an array that was filled from a list.\<close>

lemma entries_list: "n = length xs \<Longrightarrow> entries (\<lambda>i. if i < n then xs ! i else f i) n = xs"
  by (auto intro: nth_equalityI)

definition change_fits :: "cpg_address list \<times> cpg_address list \<times> cpg_address list \<Rightarrow> bool" where
  "change_fits = (\<lambda>(members, left, joined).
     length members \<le> CPG_MEMBERS_MAX \<and> length left \<le> CPG_MEMBERS_MAX \<and> length joined \<le> CPG_MEMBERS_MAX)"

lemma process_cpg_eq:
  assumes "change_fits (members, left, joined)"
  shows "\<exists>cg'. process_cpg our (Some (members, left, joined)) (cg, acts) = group_change our (cg', acts) \<and>
    cg_nodes cg' = cg_nodes cg \<and> cg_node_count cg' = cg_node_count cg \<and> cg_joined cg' = cg_joined cg \<and>
    cg_user_data cg' = cg_user_data cg \<and> cg_handle cg' = cg_handle cg \<and>
    entries (cg_cb_joined cg') (cg_cb_joined_count cg') = joined \<and>
    entries (cg_cb_left cg') (cg_cb_left_count cg') = left \<and>
    entries (cg_cb_members cg') (cg_cb_member_count cg') = members"
proof -
  obtain cg1 where c: "confchg_cb members left joined (cg\<lparr>cg_got_confchg := False\<rparr>) = Some cg1"
    and f: "cg_nodes cg1 = cg_nodes cg" "cg_node_count cg1 = cg_node_count cg" "cg_joined cg1 = cg_joined cg"
      "cg_user_data cg1 = cg_user_data cg" "cg_handle cg1 = cg_handle cg"
      "entries (cg_cb_joined cg1) (cg_cb_joined_count cg1) = joined"
      "entries (cg_cb_left cg1) (cg_cb_left_count cg1) = left"
      "entries (cg_cb_members cg1) (cg_cb_member_count cg1) = members"
    using assms by (simp add: confchg_cb_def change_fits_def Let_def entries_list)
  define cg2 where "cg2 = cg1\<lparr>cg_members := copy_members cg1, cg_member_count := cg_cb_member_count cg1\<rparr>"
  have "process_cpg our (Some (members, left, joined)) (cg, acts) =
      group_change our (cg1\<lparr>cg_members := copy_members cg1, cg_member_count := cg_cb_member_count cg1\<rparr>, acts)"
    using c by (simp add: process_cpg_def process_configuration_change_def)
  with f show ?thesis unfolding cg2_def [symmetric] by (intro exI [of _ cg2]) (simp add: cg2_def)
qed

text \<open>A change of a group we are in.\<close>

lemma group_change_others:
  assumes ok: "group_ok cg" and fits: "change_fits (members, left, joined)" and j: "cg_joined cg" and our: "our \<notin> leavers left"
  shows "\<exists>cg'. process_cpg our (Some (members, left, joined)) (cg, acts) =
      Some (Some cg', acts @ replicate (lost_track (set (cg_nodes cg)) (joiners our joined)) Cpg_shutdown) \<and> group_ok cg' \<and>
    set (cg_nodes cg') = (set (cg_nodes cg) \<union> set (joiners our joined)) - leavers left \<and>
    cg_joined cg' \<and> cg_user_data cg' = cg_user_data cg \<and> cg_handle cg' = cg_handle cg"
proof -
  let ?xs = "filter (\<lambda>a. nodeid a \<noteq> our) joined" and ?acts = "acts @ replicate (lost_track (set (cg_nodes cg)) (joiners our joined)) Cpg_shutdown"
  have xs: "map nodeid ?xs = joiners our joined" "nodeid ` set ?xs = set (joiners our joined)" by (auto simp: joiners_def filter_map comp_def)
  obtain cg0 where c0: "process_cpg our (Some (members, left, joined)) (cg, acts) = group_change our (cg0, acts)"
    "cg_nodes cg0 = cg_nodes cg" "cg_node_count cg0 = cg_node_count cg" "cg_joined cg0 = cg_joined cg"
    "cg_user_data cg0 = cg_user_data cg" "cg_handle cg0 = cg_handle cg"
    "entries (cg_cb_joined cg0) (cg_cb_joined_count cg0) = joined" "entries (cg_cb_left cg0) (cg_cb_left_count cg0) = left"
    using process_cpg_eq [OF fits, of our cg acts] by blast
  have ok0: "group_ok cg0" using ok c0(2,3) by (simp add: group_ok_def)
  obtain cg1 where c1: "for_each_node_list push_node_on_join ?xs (cg0, acts) = Some (cg1, ?acts)" "group_ok cg1"
    "set (cg_nodes cg1) = set (cg_nodes cg) \<union> set (joiners our joined)" "same_group cg0 cg1"
    using push_list_ok [OF ok0, of ?xs acts] unfolding xs c0(2) by blast
  have left: "entries (cg_cb_left cg1) (cg_cb_left_count cg1) = left" using c0(8) c1(4) by (simp add: same_group_def)
  obtain cg' where c2: "for_each_node_list (handle_node_leave our) left (Some cg1, ?acts) = Some (Some cg', ?acts)" "group_ok cg'"
    "set (cg_nodes cg') = set (cg_nodes cg1) - leavers left" "same_group cg1 cg'"
    using leaves_other [OF c1(2) our, of ?acts] by blast
  have "group_change our (cg0, acts) = Some (Some cg', ?acts)"
    using c0(4,7) c1(1) c2(1) joins_joined [of "(cg0, acts)" our joined] j left by (simp add: group_change_def)
  then show ?thesis using c0(1,4-6) c1(3,4) c2 j by (intro exI [of _ cg']) (simp add: same_group_def)
qed

text \<open>The change with which we join: the group takes over the list of members.\<close>

lemma group_change_join:
  assumes ok: "nodes_ok cg" "\<not> cg_joined cg" and fits: "change_fits (members, left, [us])" and us: "nodeid us = our" and our: "our \<notin> leavers left"
  shows "\<exists>cg'. process_cpg our (Some (members, left, [us])) (cg, acts) =
      Some (Some cg', acts @ replicate (lost_track {} (map nodeid members)) Cpg_shutdown @ [Set_cgroup (Some (cg_handle cg)) (cg_user_data cg)]) \<and>
    group_ok cg' \<and> set (cg_nodes cg') = nodeid ` set members - leavers left \<and> cg_joined cg' \<and> cg_user_data cg' = cg_user_data cg \<and> cg_handle cg' = cg_handle cg"
proof -
  let ?acts = "acts @ replicate (lost_track {} (map nodeid members)) Cpg_shutdown" and ?told = "[Set_cgroup (Some (cg_handle cg)) (cg_user_data cg)]"
  obtain cg0 where c0: "process_cpg our (Some (members, left, [us])) (cg, acts) = group_change our (cg0, acts)"
    "cg_nodes cg0 = cg_nodes cg" "cg_node_count cg0 = cg_node_count cg" "cg_joined cg0 = cg_joined cg"
    "cg_user_data cg0 = cg_user_data cg" "cg_handle cg0 = cg_handle cg"
    "entries (cg_cb_joined cg0) (cg_cb_joined_count cg0) = [us]" "entries (cg_cb_left cg0) (cg_cb_left_count cg0) = left"
    "entries (cg_cb_members cg0) (cg_cb_member_count cg0) = members"
    using process_cpg_eq [OF fits, of our cg acts] by (elim exE conjE) (rule that)
  have ok0: "group_ok cg0" "cg_nodes cg0 = []" using ok c0(2,3) by (simp_all add: nodes_ok_def group_ok_def)
  obtain cg1 where c1: "for_each_node_list push_node_on_join members (cg0, acts) = Some (cg1, ?acts)" "group_ok cg1"
    "set (cg_nodes cg1) = nodeid ` set members" "same_group cg0 cg1"
    using push_list_ok [OF ok0(1), of members acts] unfolding ok0(2) by auto
  let ?cg = "cg1\<lparr>cg_joined := True\<rparr>"
  have same: "entries (cg_cb_left ?cg) (cg_cb_left_count ?cg) = left" "cg_user_data ?cg = cg_user_data cg" "cg_handle ?cg = cg_handle cg"
    using c1(4) c0(5,6,8) by (simp_all add: same_group_def)
  obtain cg' where c2: "for_each_node_list (handle_node_leave our) left (Some ?cg, ?acts @ ?told) = Some (Some cg', ?acts @ ?told)" "group_ok cg'"
    "set (cg_nodes cg') = set (cg_nodes ?cg) - leavers left" "same_group ?cg cg'"
    using leaves_other [of ?cg our left "?acts @ ?told"] c1(2) our by (auto simp: group_ok_def)
  have "group_change our (cg0, acts) = Some (Some cg', ?acts @ ?told)"
    using c0(4,7,9) c1(1) c2(1) us ok(2) same by (simp add: group_change_def handle_node_join_def)
  then show ?thesis using c0(1) c1(3) c2 same by (intro exI [of _ cg']) (simp add: same_group_def)
qed

text \<open>The change with which we leave: the mount group is told, and the group is gone.\<close>

lemma finalize_group_calls:
  "\<exists>rest. finalize_group our (cg, acts) = acts @ Set_cgroup None (cg_user_data cg) # rest \<and>
     set rest \<subseteq> {Cpg_finalize (cg_handle cg)} \<union> range Log_nodes_left"
  by (auto simp: finalize_group_def Let_def)

lemma group_change_leave:
  assumes fits: "change_fits (members, [us], [])" and us: "nodeid us = our" "reason us = CPG_REASON_LEAVE"
  shows "\<exists>rest. process_cpg our (Some (members, [us], [])) (cg, acts) =
      Some (None, acts @ Set_cgroup None (cg_user_data cg) # rest) \<and>
    set rest \<subseteq> {Cpg_finalize (cg_handle cg)} \<union> range Log_nodes_left"
proof -
  obtain cg0 where c0: "process_cpg our (Some (members, [us], [])) (cg, acts) = group_change our (cg0, acts)"
    "cg_user_data cg0 = cg_user_data cg" "cg_handle cg0 = cg_handle cg"
    "entries (cg_cb_joined cg0) (cg_cb_joined_count cg0) = []" "entries (cg_cb_left cg0) (cg_cb_left_count cg0) = [us]"
    using process_cpg_eq [OF fits, of our cg acts] by (elim exE conjE) (rule that)
  have "group_change our (cg0, acts) = Some (None, finalize_group our (cg0, acts))"
    using c0(4,5) us by (simp add: group_change_def handle_node_leave_def)
  then show ?thesis using finalize_group_calls [of our cg0 acts] c0(1,2,3) by auto
qed

section \<open>Dead nodes\<close>

text \<open>A group with the nodes \<open>D\<close> dropped.\<close>

definition same_but :: "int set \<Rightarrow> cgroup \<Rightarrow> cgroup \<Rightarrow> bool" where
  "same_but D cg cg' \<longleftrightarrow> group_ok cg' \<and> set (cg_nodes cg') = set (cg_nodes cg) - D \<and> cg_user_data cg' = cg_user_data cg \<and>
     cg_handle cg' = cg_handle cg \<and> cg_joined cg' = cg_joined cg"

text \<open>What the loop over the groups does for one node.\<close>

lemma groups_node_down_ok:
  assumes "\<forall>cg\<in>set cgs. group_ok cg"
  shows "list_all2 (same_but {n}) cgs (fst (groups_node_down n cgs)) \<and>
    snd (groups_node_down n cgs) = map (\<lambda>cg. Cg_node_down n (cg_user_data cg)) (filter (\<lambda>cg. n \<in> set (cg_nodes cg)) cgs)"
  using assms
proof (induction cgs)
  case (Cons cg cgs)
  then show ?case using pop_node_ok [of cg n]
    by (cases "groups_node_down n cgs") (auto simp: find_node_None same_but_def same_group_def)
qed simp

definition down_nodes :: "cpg_address list \<Rightarrow> int list" where
  "down_nodes left = map nodeid (filter (\<lambda>a. reason a = CPG_REASON_NODEDOWN \<or> reason a = CPG_REASON_PROCDOWN) left)"

definition killed_nodes :: "cpg_address list \<Rightarrow> cpg_action list" where
  "killed_nodes left = map (\<lambda>a. Kill_stack_node (nodeid a)) (filter (\<lambda>a. reason a = CPG_REASON_PROCDOWN) left)"

text \<open>The calls that the mount groups are owed for a list of dead nodes.\<close>

definition owed :: "int list \<Rightarrow> cgroup list \<Rightarrow> cpg_action list" where
  "owed down cgs = concat (map (\<lambda>n. map (\<lambda>cg. Cg_node_down n (cg_user_data cg)) (filter (\<lambda>cg. n \<in> set (cg_nodes cg)) cgs)) down)"

lemma owed_same_but:
  assumes "list_all2 (same_but D) cgs cgs'" and "D \<inter> set down = {}"
  shows "owed down cgs' = owed down cgs"
proof -
  have "map (\<lambda>cg. Cg_node_down n (cg_user_data cg)) (filter (\<lambda>cg. n \<in> set (cg_nodes cg)) cgs') =
      map (\<lambda>cg. Cg_node_down n (cg_user_data cg)) (filter (\<lambda>cg. n \<in> set (cg_nodes cg)) cgs)" if "n \<in> set down" for n
    using assms(1) assms(2) that by (induction rule: list_all2_induct) (auto simp: same_but_def)
  then show ?thesis by (auto simp: owed_def cong: map_cong)
qed

lemma same_but_trans:
  "list_all2 (same_but D) xs ys \<Longrightarrow> list_all2 (same_but E) ys zs \<Longrightarrow> list_all2 (same_but (D \<union> E)) xs zs"
  by (rule list_all2_trans [of "same_but D" "same_but E"]) (auto simp: same_but_def)

lemma handle_daemon_left_groups:
  "group_list (fold handle_daemon_left left s) = group_list s \<and>
   cpg_actions (fold handle_daemon_left left s) =
     cpg_actions s @ killed_nodes left"
  by (induction left arbitrary: s) (auto simp: handle_daemon_left_def killed_nodes_def)

lemma handle_node_down_all:
  "\<forall>cg\<in>set (group_list s). group_ok cg \<Longrightarrow> distinct (down_nodes left) \<Longrightarrow>
   list_all2 (same_but (set (down_nodes left))) (group_list s) (group_list (fold handle_node_down left s)) \<and>
   cpg_actions (fold handle_node_down left s) = cpg_actions s @ owed (down_nodes left) (group_list s)"
proof (induction left arbitrary: s)
  case Nil
  then show ?case by (simp add: down_nodes_def owed_def same_but_def list_all2_same)
next
  case (Cons a left)
  show ?case
  proof (cases "reason a = CPG_REASON_NODEDOWN \<or> reason a = CPG_REASON_PROCDOWN")
    case True
    define s1 where "s1 = handle_node_down a s"
    note one = groups_node_down_ok [OF Cons.prems(1), of "nodeid a"]
    have down: "down_nodes (a # left) = nodeid a # down_nodes left" using True by (simp add: down_nodes_def)
    have g1: "list_all2 (same_but {nodeid a}) (group_list s) (group_list s1)"
      and a1: "cpg_actions s1 = cpg_actions s @ owed [nodeid a] (group_list s)"
      using one True by (auto simp: s1_def handle_node_down_def owed_def split: prod.splits)
    have "\<forall>cg\<in>set (group_list s1). group_ok cg"
      using g1 by (auto simp: list_all2_conv_all_nth in_set_conv_nth same_but_def)
    from Cons.IH [OF this] Cons.prems(2) down
    have ih: "list_all2 (same_but (set (down_nodes left))) (group_list s1) (group_list (fold handle_node_down left s1))"
      "cpg_actions (fold handle_node_down left s1) = cpg_actions s1 @ owed (down_nodes left) (group_list s1)" by auto
    have "owed (down_nodes left) (group_list s1) = owed (down_nodes left) (group_list s)"
      using owed_same_but [OF g1] Cons.prems(2) down by simp
    with ih(2) a1 have "cpg_actions (fold handle_node_down left s1) = cpg_actions s @ owed (down_nodes (a # left)) (group_list s)"
      by (simp add: down owed_def)
    then show ?thesis using same_but_trans [OF g1 ih(1)] by (simp add: down s1_def)
  next
    case False
    then have "down_nodes (a # left) = down_nodes left" "handle_node_down a s = s"
      by (simp_all add: down_nodes_def handle_node_down_def)
    then show ?thesis using Cons by simp
  qed
qed

lemma daemon_change_ok:
  assumes "\<forall>cg\<in>set (group_list s). group_ok cg" and "distinct (down_nodes left)"
  shows "case daemon_change our_nodeid our_pid members left joined s of
    (_, _, s') \<Rightarrow>
      cpg_actions s' = cpg_actions s @ killed_nodes left @ owed (down_nodes left) (group_list s) \<and>
      list_all2 (same_but (set (down_nodes left))) (group_list s) (group_list s')"
  using handle_node_down_all [of "fold handle_daemon_left left s" left] handle_daemon_left_groups [of left s] assms
  by (simp add: daemon_change_def Let_def)

section \<open>Properties\<close>

text \<open>
  What the cluster library reports: a change of the group with a handle, or of the group of the daemons (members and
  those who left).
\<close>

datatype report =
    Group_report nat "cpg_address list \<times> cpg_address list \<times> cpg_address list"
  | Daemon_report "cpg_address list" "cpg_address list"

fun run_report :: "int \<Rightarrow> nat \<Rightarrow> report \<Rightarrow> cpg \<Rightarrow> cpg option" where
  "run_report our our_pid (Group_report h change) s =
     (case handle_to_group h s of
        None \<Rightarrow> Some s
      | Some cg \<Rightarrow>
          do { (g, acts) \<leftarrow> process_cpg our (Some change) (cg, cpg_actions s);
               Some (s\<lparr>group_list := put_group h g (group_list s), cpg_actions := acts\<rparr>) })"
| "run_report our our_pid (Daemon_report members left) s = Some (snd (snd (daemon_change our our_pid members left True s)))"

fun run_reports :: "int \<Rightarrow> nat \<Rightarrow> report list \<Rightarrow> cpg \<Rightarrow> cpg option" where
  "run_reports our our_pid [] s = Some s"
| "run_reports our our_pid (r # rs) s = Option.bind (run_report our our_pid r s) (run_reports our our_pid rs)"

text \<open>
  Whether we are in a group and which nodes are, told from the reports alone.  A node that left by dying stays until
  the group of the daemons reports its death.
\<close>

fun view_step :: "int \<Rightarrow> nat \<Rightarrow> report \<Rightarrow> bool \<times> int set \<Rightarrow> bool \<times> int set" where
  "view_step our h (Group_report h' (members, left, joined)) (j, N) =
     (if h' \<noteq> h then (j, N)
      else (True, (if j then N \<union> set (joiners our joined) else nodeid ` set members) - leavers left))"
| "view_step our h (Daemon_report members left) (j, N) = (j, N - set (down_nodes left))"

definition group_view :: "cpg \<Rightarrow> nat \<Rightarrow> bool \<times> int set" where
  "group_view s h = (case handle_to_group h s of None \<Rightarrow> (False, {}) | Some cg \<Rightarrow> (cg_joined cg, set (cg_nodes cg)))"

definition view_after :: "int \<Rightarrow> cpg \<Rightarrow> report list \<Rightarrow> nat \<Rightarrow> bool \<times> int set" where
  "view_after our s rs h = fold (view_step our h) rs (group_view s h)"

text \<open>The groups, by handle and mount group.\<close>

definition groups :: "cpg \<Rightarrow> (nat \<times> nat) list" where
  "groups s = map (\<lambda>cg. (cg_handle cg, cg_user_data cg)) (group_list s)"

text \<open>
  The calls that are due for a report when the groups are seen as \<open>V\<close>.  A node that joins while it is still in the list
  shuts the daemon down.
\<close>

fun calls :: "int \<Rightarrow> (nat \<times> nat) list \<Rightarrow> (nat \<Rightarrow> bool \<times> int set) \<Rightarrow> report \<Rightarrow> cpg_action list" where
  "calls our gs V (Group_report h (members, left, joined)) =
     (case map_of gs h of
        None \<Rightarrow> []
      | Some u \<Rightarrow>
          if fst (V h) then replicate (lost_track (snd (V h)) (joiners our joined)) Cpg_shutdown
          else replicate (lost_track {} (map nodeid members)) Cpg_shutdown @ [Set_cgroup (Some h) u])"
| "calls our gs V (Daemon_report members left) =
     killed_nodes left @ concat (map (\<lambda>n. map (\<lambda>(h, u). Cg_node_down n u) (filter (\<lambda>(h, u). n \<in> snd (V h)) gs)) (down_nodes left))"

text \<open>
  What is relied on in a report while we are in the groups: the lists fit the arrays, our joining is reported first and
  by itself, we do not leave, and the group of the daemons reports a dead node once.
\<close>

fun sound_report :: "int \<Rightarrow> nat set \<Rightarrow> (nat \<Rightarrow> bool \<times> int set) \<Rightarrow> report \<Rightarrow> bool" where
  "sound_report our H V (Group_report h (members, left, joined)) =
     (h \<in> H \<longrightarrow> change_fits (members, left, joined) \<and> our \<notin> leavers left \<and> (fst (V h) \<or> map nodeid joined = [our]))"
| "sound_report our H V (Daemon_report members left) = distinct (down_nodes left)"

definition sound_reports :: "int \<Rightarrow> cpg \<Rightarrow> report list \<Rightarrow> bool" where
  "sound_reports our s rs \<longleftrightarrow> (\<forall>i<length rs. sound_report our (fst ` set (groups s)) (view_after our s (take i rs)) (rs ! i))"

definition groups_ok :: "cpg \<Rightarrow> bool" where
  "groups_ok s \<longleftrightarrow> distinct (map cg_handle (group_list s)) \<and> (\<forall>cg\<in>set (group_list s). nodes_ok cg)"

lemma handle_mem: "handle_to_group h s = Some cg \<Longrightarrow> cg \<in> set (group_list s) \<and> cg_handle cg = h"
  by (auto simp: handle_to_group_def find_Some_iff)

lemma handle_find:
  "distinct (map cg_handle (group_list s)) \<Longrightarrow> cg \<in> set (group_list s) \<Longrightarrow> handle_to_group (cg_handle cg) s = Some cg"
  by (cases "handle_to_group (cg_handle cg) s")
    (auto simp: handle_to_group_def find_None_iff dest: handle_mem [unfolded handle_to_group_def] simp: distinct_map inj_on_def)

lemma put_group_map:
  assumes "distinct (map cg_handle cs)" and "cg \<in> set cs" and "f cg' = f cg"
  shows "map f (put_group (cg_handle cg) (Some cg') cs) = map f cs"
  using assms by (induction cs) auto

lemma put_group_set:
  assumes "distinct (map cg_handle cs)" and "cg \<in> set cs"
  shows "set (put_group (cg_handle cg) (Some cg') cs) = insert cg' (set cs - {cg})"
    and "set (put_group (cg_handle cg) None cs) = set cs - {cg}"
  using assms by (induction cs) auto

lemma find_put_group:
  "cg_handle cg' = h' \<Longrightarrow> find (\<lambda>c. cg_handle c = h) (put_group h' (Some cg') cs) =
     (if h = h' then map_option (\<lambda>_. cg') (find (\<lambda>c. cg_handle c = h) cs) else find (\<lambda>c. cg_handle c = h) cs)"
  by (induction cs) auto

lemma groups_handles: "fst ` set (groups s) = cg_handle ` set (group_list s)"
  by (simp add: groups_def image_image)

lemma map_of_groups: "map_of (groups s) h = map_option cg_user_data (handle_to_group h s)"
proof -
  have "map_of (map (\<lambda>cg. (cg_handle cg, cg_user_data cg)) cs) h = map_option cg_user_data (find (\<lambda>cg. cg_handle cg = h) cs)" for cs
    by (induction cs) auto
  then show ?thesis by (simp add: groups_def handle_to_group_def)
qed

text \<open>A group is replaced by one with the same names.\<close>

lemma replace_group:
  fixes acts :: "cpg_action list"
  assumes ok: "groups_ok s" and cg: "handle_to_group h s = Some cg" and cg': "cg_handle cg' = h" "cg_user_data cg' = cg_user_data cg" "nodes_ok cg'"
  defines "s' \<equiv> s\<lparr>group_list := put_group h (Some cg') (group_list s), cpg_actions := acts\<rparr>"
  shows "groups_ok s' \<and> groups s' = groups s \<and>
    (\<forall>k. group_view s' k = (if k = h then (cg_joined cg', set (cg_nodes cg')) else group_view s k))"
proof -
  have mem: "cg \<in> set (group_list s)" "cg_handle cg = h" using handle_mem [OF cg] by simp_all
  have d: "distinct (map cg_handle (group_list s))" using ok by (simp add: groups_ok_def)
  note put = put_group_map [OF d mem(1)] put_group_set(1) [OF d mem(1)]
  have "groups_ok s'" using ok put(1) [of cg_handle cg'] put(2) [of cg'] cg' mem(2) by (auto simp: groups_ok_def s'_def)
  moreover have "groups s' = groups s" using put(1) [of "\<lambda>cg. (cg_handle cg, cg_user_data cg)" cg'] cg' mem(2) by (simp add: groups_def s'_def)
  moreover have "group_view s' k = (if k = h then (cg_joined cg', set (cg_nodes cg')) else group_view s k)" for k
    using cg find_put_group [OF cg'(1), of k "group_list s"] by (simp add: group_view_def handle_to_group_def s'_def)
  ultimately show ?thesis by blast
qed

text \<open>Dropping dead nodes keeps the names.\<close>

lemma drop_nodes:
  assumes "list_all2 (same_but D) cs cs'"
  shows "map (\<lambda>cg. (cg_handle cg, cg_user_data cg)) cs' = map (\<lambda>cg. (cg_handle cg, cg_user_data cg)) cs"
    and "map cg_handle cs' = map cg_handle cs"
    and "\<forall>cg\<in>set cs. nodes_ok cg \<Longrightarrow> \<forall>cg\<in>set cs'. nodes_ok cg"
    and "(case find (\<lambda>c. cg_handle c = h) cs' of None \<Rightarrow> (False, {}) | Some cg \<Rightarrow> (cg_joined cg, set (cg_nodes cg))) =
      (case find (\<lambda>c. cg_handle c = h) cs of None \<Rightarrow> (False, {}) | Some cg \<Rightarrow> (cg_joined cg, set (cg_nodes cg) - D))"
  using assms by (induction rule: list_all2_induct) (auto simp: same_but_def nodes_ok_def)

lemma owed_views:
  assumes "groups_ok s"
  shows "owed down (group_list s) =
    concat (map (\<lambda>n. map (\<lambda>(h, u). Cg_node_down n u) (filter (\<lambda>(h, u). n \<in> snd (group_view s h)) (groups s))) down)"
proof -
  have "snd (group_view s (cg_handle cg)) = set (cg_nodes cg)" if "cg \<in> set (group_list s)" for cg
    using handle_find [OF _ that] assms by (simp add: group_view_def groups_ok_def)
  then show ?thesis by (simp add: owed_def groups_def filter_map comp_def cong: filter_cong)
qed

lemma run_report_ok:
  assumes ok: "groups_ok s" and sound: "sound_report our (fst ` set (groups s)) (group_view s) r"
  shows "\<exists>s'. run_report our our_pid r s = Some s' \<and> groups_ok s' \<and> groups s' = groups s \<and>
    (\<forall>h. h \<in> fst ` set (groups s) \<longrightarrow> group_view s' h = view_step our h r (group_view s h)) \<and>
    cpg_actions s' = cpg_actions s @ calls our (groups s) (group_view s) r"
proof (cases r)
  case (Group_report h change)
  obtain members left joined where ch: "change = (members, left, joined)" by (cases change)
  have s: "change_fits (members, left, joined)" "our \<notin> leavers left" "fst (group_view s h) \<or> map nodeid joined = [our]" if "h \<in> fst ` set (groups s)"
    using that sound Group_report ch by simp_all
  show ?thesis
  proof (cases "handle_to_group h s")
    case None
    then have "h \<notin> fst ` set (groups s)" by (auto simp: groups_handles handle_to_group_def find_None_iff)
    moreover have "view_step our k r V = V" if "k \<noteq> h" for k V using that Group_report ch by (cases V) simp
    ultimately have "\<forall>k. k \<in> fst ` set (groups s) \<longrightarrow> group_view s k = view_step our k r (group_view s k)" by metis
    then show ?thesis using None ok Group_report ch by (simp add: map_of_groups)
  next
    case (Some cg)
    have "h \<in> fst ` set (groups s)" using handle_mem [OF Some] by (auto simp: groups_handles)
    note s = s [OF this]
    have cg: "nodes_ok cg" "group_ok cg" using handle_mem [OF Some] ok by (auto simp: groups_ok_def nodes_ok_def)
    have v: "group_view s h = (cg_joined cg, set (cg_nodes cg))" "cg_handle cg = h" using Some handle_mem [OF Some] by (simp_all add: group_view_def)
    obtain cg' where cg': "process_cpg our (Some change) (cg, cpg_actions s) = Some (Some cg', cpg_actions s @ calls our (groups s) (group_view s) r)"
      "group_ok cg'" "cg_joined cg'" "cg_user_data cg' = cg_user_data cg" "cg_handle cg' = h"
      "(True, set (cg_nodes cg')) = view_step our h r (group_view s h)"
    proof (cases "cg_joined cg")
      case True
      from group_change_others [OF cg(2) s(1) True s(2), of "cpg_actions s"] show ?thesis
        using True v Some Group_report ch by (elim exE conjE) (rule that, simp_all add: map_of_groups)
    next
      case False
      then obtain us where us: "joined = [us]" "nodeid us = our" using s(3) v by auto
      from group_change_join [OF cg(1) False s(1)[unfolded us] us(2) s(2), of "cpg_actions s"] show ?thesis
        using False v Some Group_report ch us by (elim exE conjE) (rule that, simp_all add: map_of_groups)
    qed
    have "nodes_ok cg'" using cg'(2,3) by (simp add: nodes_ok_def)
    note new = replace_group [OF ok Some cg'(5,4) this, of "cpg_actions s @ calls our (groups s) (group_view s) r"]
    have "view_step our k r V = V" if "k \<noteq> h" for k V using that Group_report ch by (cases V) simp
    then show ?thesis using new cg'(1,3,6) Some Group_report by auto
  qed
next
  case (Daemon_report members left)
  have "\<forall>cg\<in>set (group_list s). group_ok cg" "distinct (down_nodes left)" using ok sound Daemon_report by (auto simp: groups_ok_def nodes_ok_def)
  from daemon_change_ok [OF this, of our our_pid members True]
  obtain s' where s': "snd (snd (daemon_change our our_pid members left True s)) = s'" "cpg_actions s' = cpg_actions s @ killed_nodes left @ owed (down_nodes left) (group_list s)"
    "list_all2 (same_but (set (down_nodes left))) (group_list s) (group_list s')" by (auto split: prod.splits)
  note drop = drop_nodes [OF s'(3)]
  have "groups_ok s'" "groups s' = groups s" using ok drop(1-3) by (simp_all add: groups_ok_def groups_def)
  moreover have "group_view s' h = view_step our h r (group_view s h)" for h
    using drop(4) [of h] Daemon_report by (auto simp: group_view_def handle_to_group_def split: option.split)
  ultimately show ?thesis using s' Daemon_report owed_views [OF ok] by simp
qed

lemma run_reports_snoc: "run_reports our our_pid (rs @ [r]) s = Option.bind (run_reports our our_pid rs s) (run_report our our_pid r)"
  by (induction rs arbitrary: s) (auto split: Option.bind_splits)

text \<open>Calls and the soundness of a report depend only on the groups that there are.\<close>

lemma calls_cong:
  assumes "\<And>h. h \<in> fst ` set gs \<Longrightarrow> V h = V' h"
  shows "calls our gs V r = calls our gs V' r"
proof (cases "(our, gs, V, r)" rule: calls.cases)
  case (1 our' gs' V'' h members left joined)
  have "V h = V' h" if "map_of gs h = Some u" for u using assms map_of_SomeD [OF that] by force
  then show ?thesis using 1 by (cases "map_of gs h") simp_all
next
  case (2 our' gs' V'' members left)
  have "filter (\<lambda>(h, u). n \<in> snd (V h)) gs = filter (\<lambda>(h, u). n \<in> snd (V' h)) gs" for n
    using assms by (intro filter_cong) (force simp: image_iff)+
  then show ?thesis using 2 by simp
qed

text \<open>
  C23.  The daemon's lists of the nodes of its groups, over any sequence of reported changes of the groups and of the
  group of the daemons, from our joining on and while we are in them (whatever the nodes are that join and leave and the
  reasons for their leaving; the reports are at most \<open>CPG_MEMBERS_MAX\<close> long, our own joining is reported by itself, and
  the group of the daemons reports a death once).  A node is in the list of a group exactly if it was among
  the members when we joined or joined later, and has since then neither left the group properly nor been reported dead
  in the group of the daemons; a node that left the group by dying stays until then.  The lists have no duplicates and
  the right counts.  And the calls made are exactly: the mount group is told once that we joined; for every death that
  the group of the daemons reports each mount group that the node is then part of is told once, and a node whose daemon
  failed is killed; and the daemon is shut down exactly when a node joins that is still in the list.
\<close>

theorem group_nodes_follow_reports:
  assumes "groups_ok s" and "sound_reports our s rs"
  shows "\<exists>s'. run_reports our our_pid rs s = Some s' \<and> groups s' = groups s \<and>
    (\<forall>cg\<in>set (group_list s'). (cg_joined cg, set (cg_nodes cg)) = view_after our s rs (cg_handle cg) \<and>
       distinct (cg_nodes cg) \<and> cg_node_count cg = int (length (cg_nodes cg))) \<and>
    cpg_actions s' = cpg_actions s @ outputs (\<lambda>rs. calls our (groups s) (view_after our s rs)) rs"
proof -
  have "\<exists>s'. run_reports our our_pid rs s = Some s' \<and> groups_ok s' \<and> groups s' = groups s \<and>
      (\<forall>h\<in>fst ` set (groups s). group_view s' h = view_after our s rs h) \<and>
      cpg_actions s' = cpg_actions s @ outputs (\<lambda>rs. calls our (groups s) (view_after our s rs)) rs"
    using assms(2)
  proof (induction rs rule: rev_induct)
    case Nil
    then show ?case using assms(1) by (simp add: view_after_def)
  next
    case (snoc r rs)
    have "sound_reports our s rs" using snoc.prems by (auto simp: sound_reports_def nth_append less_Suc_eq)
    then obtain s1 where s1: "run_reports our our_pid rs s = Some s1" "groups_ok s1" "groups s1 = groups s"
      "\<And>h. h \<in> fst ` set (groups s) \<Longrightarrow> group_view s1 h = view_after our s rs h"
      "cpg_actions s1 = cpg_actions s @ outputs (\<lambda>rs. calls our (groups s) (view_after our s rs)) rs"
      using snoc.IH by blast
    let ?H = "fst ` set (groups s)"
    have "sound_report our ?H (view_after our s rs) r" using snoc.prems by (auto simp: sound_reports_def nth_append dest: spec [of _ "length rs"])
    then have sound: "sound_report our (fst ` set (groups s1)) (group_view s1) r"
      using s1(3,4) by (cases "(our, ?H, group_view s1, r)" rule: sound_report.cases) auto
    have calls: "calls our (groups s) (group_view s1) r = calls our (groups s) (view_after our s rs) r" using s1(4) by (rule calls_cong)
    from run_report_ok [OF s1(2) sound, of our_pid] obtain s2 where s2: "run_report our our_pid r s1 = Some s2" "groups_ok s2" "groups s2 = groups s"
      "\<And>h. h \<in> ?H \<Longrightarrow> group_view s2 h = view_step our h r (group_view s1 h)" "cpg_actions s2 = cpg_actions s1 @ calls our (groups s) (view_after our s rs) r"
      unfolding s1(3) calls by blast
    have "group_view s2 h = view_after our s (rs @ [r]) h" if "h \<in> ?H" for h using s2(4) [OF that] s1(4) [OF that] by (simp add: view_after_def)
    then show ?case using s1(1,5) s2 by (simp add: run_reports_snoc)
  qed
  then obtain s' where s': "run_reports our our_pid rs s = Some s'" "groups_ok s'" "groups s' = groups s"
    "\<And>h. h \<in> fst ` set (groups s) \<Longrightarrow> group_view s' h = view_after our s rs h"
    "cpg_actions s' = cpg_actions s @ outputs (\<lambda>rs. calls our (groups s) (view_after our s rs)) rs"
    by blast
  have "(cg_joined cg, set (cg_nodes cg)) = view_after our s rs (cg_handle cg) \<and> group_ok cg" if "cg \<in> set (group_list s')" for cg
  proof -
    have "cg_handle cg \<in> fst ` set (groups s')" using that by (simp add: groups_handles)
    then have "cg_handle cg \<in> fst ` set (groups s)" by (simp only: s'(3))
    moreover have "handle_to_group (cg_handle cg) s' = Some cg" using handle_find [OF _ that] s'(2) by (simp add: groups_ok_def)
    ultimately show ?thesis using s'(4) [of "cg_handle cg"] s'(2) that by (simp add: group_view_def groups_ok_def nodes_ok_def)
  qed
  then show ?thesis using s' by (intro exI [of _ s']) (auto simp: group_ok_def)
qed

abbreviation node :: "int \<Rightarrow> cpg_reason \<Rightarrow> cpg_address" where
  "node n r \<equiv> \<lparr>nodeid = n, pid = 1, reason = r\<rparr>"

text \<open>We, node 1, join a group that node 2 is in; node 3 joins; node 2 dies.\<close>

definition one_group :: cpg where
  "one_group = \<lparr>group_list = [new_cgroup 7 5], cpg_actions = []\<rparr>"

definition sample_reports :: "report list" where
  "sample_reports =
     [Group_report 7 ([node 1 CPG_REASON_JOIN, node 2 CPG_REASON_JOIN], [], [node 1 CPG_REASON_JOIN]),
      Group_report 7 ([node 1 CPG_REASON_JOIN, node 2 CPG_REASON_JOIN, node 3 CPG_REASON_JOIN], [], [node 3 CPG_REASON_JOIN]),
      Group_report 7 ([node 1 CPG_REASON_JOIN, node 3 CPG_REASON_JOIN], [node 2 CPG_REASON_NODEDOWN], []),
      Daemon_report [node 1 CPG_REASON_JOIN, node 3 CPG_REASON_JOIN] [node 2 CPG_REASON_NODEDOWN]]"

lemma sample_view: "view_after 1 one_group sample_reports 7 = (True, {1, 3})"
  by (auto simp: view_after_def sample_reports_def group_view_def handle_to_group_def one_group_def new_cgroup_def joiners_def leavers_def down_nodes_def)

theorem group_nodes_follow_reports_witness:
  "\<exists>s' cg. run_reports 1 99 sample_reports one_group = Some s' \<and> cg \<in> set (group_list s') \<and> set (cg_nodes cg) = {1, 3} \<and>
    cpg_actions s' = [Set_cgroup (Some 7) 5, Cg_node_down 2 5]"
proof -
  have ok: "groups_ok one_group" and gs: "groups one_group = [(7, 5)]"
    by (simp_all add: groups_ok_def groups_def nodes_ok_def group_ok_def one_group_def new_cgroup_def)
  have len: "length sample_reports = 4" by (simp add: sample_reports_def)
  have "sound_report 1 (fst ` set (groups one_group)) (view_after 1 one_group (take i sample_reports)) (sample_reports ! i)" if "i < 4" for i
  proof -
    from that consider "i = 0" | "i = 1" | "i = 2" | "i = 3" by linarith
    then show ?thesis
      by cases (auto simp: sample_reports_def change_fits_def CPG_MEMBERS_MAX_def leavers_def down_nodes_def view_after_def group_view_def
          handle_to_group_def one_group_def new_cgroup_def)
  qed
  then have "sound_reports 1 one_group sample_reports" by (simp add: sound_reports_def len)
  from group_nodes_follow_reports [OF ok this, of 99] obtain s' where s': "run_reports 1 99 sample_reports one_group = Some s'" "groups s' = groups one_group"
    "\<And>cg. cg \<in> set (group_list s') \<Longrightarrow> (cg_joined cg, set (cg_nodes cg)) = view_after 1 one_group sample_reports (cg_handle cg)"
    "cpg_actions s' = outputs (\<lambda>rs. calls 1 (groups one_group) (view_after 1 one_group rs)) sample_reports" by (auto simp: one_group_def)
  obtain cg where cg: "group_list s' = [cg]" "cg_handle cg = 7" using s'(2) gs by (auto simp: groups_def)
  have "cpg_actions s' = [Set_cgroup (Some 7) 5, Cg_node_down 2 5]" unfolding s'(4) gs
    by (auto simp: sample_reports_def outputs_Cons view_after_def group_view_def handle_to_group_def one_group_def new_cgroup_def joiners_def leavers_def down_nodes_def killed_nodes_def)
  then show ?thesis using s'(1) s'(3) [of cg] cg sample_view by auto
qed

text \<open>
  The members of the library's list are copied only up to the size of a pointer.  In a group of three
  nodes that we leave, the two others are therefore not both dropped from the list of nodes: an error
  is logged although nothing is wrong.
\<close>

lemma finalize_leaves_nodes:
  "map_option cpg_actions (run_reports 1 99
     [Group_report 7 ([node 1 CPG_REASON_JOIN, node 2 CPG_REASON_JOIN, node 3 CPG_REASON_JOIN], [], [node 1 CPG_REASON_JOIN]),
      Group_report 7 ([node 2 CPG_REASON_JOIN, node 3 CPG_REASON_JOIN], [node 1 CPG_REASON_LEAVE], [])] one_group) =
   Some [Set_cgroup (Some 7) 5, Set_cgroup None 5, Log_nodes_left [3], Cpg_finalize 7]"
  by code_simp

text \<open>
  A node that died and comes back to the group before the group of the daemons has reported its death: the daemon
  takes it for an inconsistency and shuts down.
\<close>

lemma early_return_shuts_down:
  "map_option cpg_actions (run_reports 1 99
     [Group_report 7 ([node 1 CPG_REASON_JOIN, node 2 CPG_REASON_JOIN], [], [node 1 CPG_REASON_JOIN]),
      Group_report 7 ([node 1 CPG_REASON_JOIN], [node 2 CPG_REASON_PROCDOWN], []),
      Group_report 7 ([node 1 CPG_REASON_JOIN, node 2 CPG_REASON_JOIN], [], [node 2 CPG_REASON_JOIN])] one_group) =
   Some [Set_cgroup (Some 7) 5, Cpg_shutdown]"
  by code_simp

end
