(* ===== verification/Dlmcontrol.thy ===== *)
theory Dlmcontrol
  imports Ocfs2_Prelude
begin

text \<open>
  \<open>ocfs2_controld/dlmcontrol.c\<close>: the filesystems that the daemon has registered with dlm_controld, and
  the notifications of dead nodes that dlm_controld has not confirmed yet.  What the calls into
  dlm_controld (\<open>dlmc_fs_register\<close> and the others) do is an argument \<open>err\<close>: 0 if the call succeeds, and
  the error number if it fails.  What the daemon sends is recorded in a list of actions, oldest first.
  Allocations succeed, and the names, which are uuids, fit \<open>df_name\<close>.
\<close>

section \<open>The model\<close>

record dlmcontrol_fs =
  df_name :: string
  df_notifications :: "int list"  \<comment> \<open>the node numbers of \<open>struct dlmcontrol_notification\<close>\<close>
  df_user_data :: nat

datatype dlm_action =
    Dlm_fs_register string
  | Dlm_fs_unregister string
  | Dlm_fs_notified string int
  | Shutdown_daemon
  | Connection_dead int
  | Dlm_fs_disconnect

record dlmcontrol =
  dlmcontrol_ci :: int
  dlmcontrol_fd :: int
  register_list :: "dlmcontrol_fs list"
  dlm_actions :: "dlm_action list"

definition dlm_do :: "dlm_action \<Rightarrow> dlmcontrol \<Rightarrow> dlmcontrol" where
  "dlm_do a dc = dc\<lparr>dlm_actions := dlm_actions dc @ [a]\<rparr>"

definition dlmcontrol_register :: "int \<Rightarrow> string \<Rightarrow> nat \<Rightarrow> dlmcontrol \<Rightarrow> int \<times> dlmcontrol" where
  "dlmcontrol_register err name user_data dc =
     (let dc = dlm_do (Dlm_fs_register name) dc in
      if err \<noteq> 0 then (- err, dc)
      else (0, dc\<lparr>register_list := \<lparr>df_name = name, df_notifications = [], df_user_data = user_data\<rparr> # register_list dc\<rparr>))"

definition find_fs :: "string \<Rightarrow> dlmcontrol \<Rightarrow> dlmcontrol_fs option" where
  "find_fs name dc = find (\<lambda>df. df_name df = name) (register_list dc)"

definition find_notification :: "dlmcontrol_fs \<Rightarrow> int \<Rightarrow> int option" where
  "find_notification df nodeid = find (\<lambda>n. n = nodeid) (df_notifications df)"

text \<open>Replacing the first registration of a name, which is what a pointer from \<open>find_fs\<close> refers to.\<close>

fun put_fs :: "dlmcontrol_fs \<Rightarrow> dlmcontrol_fs list \<Rightarrow> dlmcontrol_fs list" where
  "put_fs df [] = []"
| "put_fs df (x # xs) = (if df_name x = df_name df then df # xs else x # put_fs df xs)"

fun del_fs :: "string \<Rightarrow> dlmcontrol_fs list \<Rightarrow> dlmcontrol_fs list" where
  "del_fs name [] = []"
| "del_fs name (x # xs) = (if df_name x = name then xs else x # del_fs name xs)"

definition complete_notification :: "int \<Rightarrow> dlmcontrol_fs \<Rightarrow> dlmcontrol_fs" where
  "complete_notification nodeid df =
     (case find_notification df nodeid of
        None \<Rightarrow> df
      | Some n \<Rightarrow> df\<lparr>df_notifications := remove1 n (df_notifications df)\<rparr>)"

definition complete_all_notifications :: "dlmcontrol_fs \<Rightarrow> dlmcontrol_fs" where
  "complete_all_notifications df = fold complete_notification (df_notifications df) df"

definition dlmcontrol_unregister :: "int \<Rightarrow> string \<Rightarrow> dlmcontrol \<Rightarrow> int \<times> dlmcontrol" where
  "dlmcontrol_unregister err name dc =
     (case find_fs name dc of
        None \<Rightarrow> (- 2, dc)  \<comment> \<open>\<open>ENOENT\<close>\<close>
      | Some df \<Rightarrow>
          (- err, dlm_do (Dlm_fs_unregister name) (dc\<lparr>register_list := del_fs name (register_list dc)\<rparr>)))"

fun dlmcontrol_unregister_all :: "dlmcontrol_fs list \<Rightarrow> dlmcontrol \<Rightarrow> dlmcontrol" where
  "dlmcontrol_unregister_all [] dc = dc"
| "dlmcontrol_unregister_all (df # dfs) dc =
     dlmcontrol_unregister_all dfs (snd (dlmcontrol_unregister 0 (df_name df) dc))"

definition dlmcontrol_node_down :: "int \<Rightarrow> string \<Rightarrow> int \<Rightarrow> dlmcontrol \<Rightarrow> dlmcontrol" where
  "dlmcontrol_node_down err name nodeid dc =
     (case find_fs name dc of
        None \<Rightarrow> dc
      | Some df \<Rightarrow>
          (let df' = (if find_notification df nodeid = None
                      then df\<lparr>df_notifications := nodeid # df_notifications df\<rparr> else df);
               dc = dlm_do (Dlm_fs_notified name nodeid) (dc\<lparr>register_list := put_fs df' (register_list dc)\<rparr>)
           in if err \<noteq> 0 then dlm_do Shutdown_daemon dc else dc))"

definition notify_result :: "int \<Rightarrow> dlmcontrol_fs \<Rightarrow> int \<Rightarrow> int \<Rightarrow> dlmcontrol \<Rightarrow> dlmcontrol" where
  "notify_result err df nodeid status dc =
     (if find_notification df nodeid = None then dc
      else if status = 0 then dc\<lparr>register_list := put_fs (complete_notification nodeid df) (register_list dc)\<rparr>
      else dlmcontrol_node_down err (df_name df) nodeid dc)"

definition dead_dlmcontrol :: "int \<Rightarrow> dlmcontrol \<Rightarrow> dlmcontrol" where
  "dead_dlmcontrol ci dc = (if ci \<noteq> dlmcontrol_ci dc then dc else dlm_do (Connection_dead ci) (dlm_do Shutdown_daemon dc))"

datatype dlm_result = DLMC_RESULT_REGISTER | DLMC_RESULT_NOTIFIED int | Dlmc_result_unknown

text \<open>
  \<open>process_dlmcontrol\<close>: \<open>msg\<close> is what \<open>dlmc_fs_result\<close> delivered, or \<open>None\<close> if it failed.  A registration is
  answered by calling \<open>df_result\<close>; the call it makes is returned, with the user data and the status.
\<close>

definition process_dlmcontrol ::
    "int \<Rightarrow> int \<Rightarrow> (string \<times> dlm_result \<times> int) option \<Rightarrow> dlmcontrol \<Rightarrow> (nat \<times> int) option \<times> dlmcontrol" where
  "process_dlmcontrol err ci msg dc =
     (if ci \<noteq> dlmcontrol_ci dc then (None, dc)
      else case msg of
        None \<Rightarrow> (None, dc)
      | Some (name, result, status) \<Rightarrow>
          (case find_fs name dc of
             None \<Rightarrow> (None, dc)
           | Some df \<Rightarrow>
               (case result of
                  DLMC_RESULT_REGISTER \<Rightarrow> (Some (df_user_data df, status), dc)
                | DLMC_RESULT_NOTIFIED nodeid \<Rightarrow> (None, notify_result err df nodeid status dc)
                | Dlmc_result_unknown \<Rightarrow> (None, dc))))"

text \<open>\<open>setup_dlmcontrol\<close>: \<open>fd\<close> and \<open>ci\<close> are what \<open>dlmc_fs_connect\<close> and \<open>connection_add\<close> return.\<close>

definition setup_dlmcontrol :: "int \<Rightarrow> int \<Rightarrow> int \<Rightarrow> dlmcontrol \<Rightarrow> int \<times> dlmcontrol" where
  "setup_dlmcontrol fd err ci dc =
     (if fd < 0 then (- err, dc)
      else if ci < 0 then (ci, dlm_do Dlm_fs_disconnect (dc\<lparr>dlmcontrol_fd := fd, dlmcontrol_ci := ci\<rparr>))
      else (0, dc\<lparr>dlmcontrol_fd := fd, dlmcontrol_ci := ci\<rparr>))"

definition exit_dlmcontrol :: "dlmcontrol \<Rightarrow> dlmcontrol" where
  "exit_dlmcontrol dc =
     (if dlmcontrol_fd dc < 0 then dc else dlm_do Dlm_fs_disconnect (dlmcontrol_unregister_all (register_list dc) dc))"

section \<open>Pending notifications\<close>

definition dlm_ok :: "dlmcontrol \<Rightarrow> bool" where
  "dlm_ok dc \<longleftrightarrow> (\<forall>df\<in>set (register_list dc). distinct (df_notifications df))"

text \<open>The nodes whose death dlm_controld has yet to confirm for a filesystem.\<close>

definition pending :: "dlmcontrol \<Rightarrow> string \<Rightarrow> int set" where
  "pending dc name = (case find_fs name dc of None \<Rightarrow> {} | Some df \<Rightarrow> set (df_notifications df))"

lemma find_fs_name: "find_fs name dc = Some df \<Longrightarrow> df_name df = name \<and> df \<in> set (register_list dc)"
  by (auto simp: find_fs_def find_Some_iff)

lemma find_put_fs:
  "find (\<lambda>x. df_name x = name) (put_fs df xs) =
     (if df_name df = name then map_option (\<lambda>_. df) (find (\<lambda>x. df_name x = name) xs)
      else find (\<lambda>x. df_name x = name) xs)"
  by (induction xs) auto

lemma set_put_fs: "set (put_fs df xs) \<subseteq> insert df (set xs)"
  by (induction xs) auto

lemma find_notification_None: "find_notification df n = None \<longleftrightarrow> n \<notin> set (df_notifications df)"
  by (auto simp: find_notification_def find_None_iff)

lemma complete_notification_eq: "complete_notification n df = df\<lparr>df_notifications := remove1 n (df_notifications df)\<rparr>"
proof (cases "find_notification df n")
  case None
  then show ?thesis using find_notification_None [of df n]
    by (simp add: complete_notification_def remove1_idem)
next
  case (Some m)
  then have "m = n" by (auto simp: find_notification_def find_Some_iff)
  with Some show ?thesis by (simp add: complete_notification_def)
qed

lemma complete_all_empty: "df_notifications (complete_all_notifications df) = []"
proof -
  have "df_notifications (fold complete_notification xs df) = fold remove1 xs (df_notifications df)" for xs
    by (induction xs arbitrary: df) (simp_all add: complete_notification_eq)
  moreover have "fold remove1 xs (xs @ ys) = ys" for xs ys :: "int list"
    by (induction xs) simp_all
  from this [of "df_notifications df" "[]"] have "fold remove1 (df_notifications df) (df_notifications df) = []" by simp
  ultimately show ?thesis by (simp add: complete_all_notifications_def)
qed

lemma find_fs_put:
  "find_fs name (dc\<lparr>register_list := put_fs df (register_list dc)\<rparr>) =
     (if df_name df = name then map_option (\<lambda>_. df) (find_fs name dc) else find_fs name dc)"
  by (simp add: find_fs_def find_put_fs)

lemma find_fs_do [simp]: "find_fs name (dlm_do a dc) = find_fs name dc"
  by (simp add: find_fs_def dlm_do_def)

text \<open>A node that went down stays pending until dlm_controld confirms it; a refusal sends the notification again.\<close>

lemma pending_node_down:
  "pending (dlmcontrol_node_down rc name n dc) name' =
     (if name' = name \<and> find_fs name dc \<noteq> None then insert n (pending dc name') else pending dc name')"
proof (cases "find_fs name dc")
  case None
  then show ?thesis by (simp add: dlmcontrol_node_down_def)
next
  case (Some df)
  define df' where "df' = (if find_notification df n = None then df\<lparr>df_notifications := n # df_notifications df\<rparr> else df)"
  have df': "df_name df' = name" "set (df_notifications df') = insert n (set (df_notifications df))"
    using find_fs_name [OF Some] by (auto simp: df'_def find_notification_None)
  have "find_fs name' (dlmcontrol_node_down rc name n dc) = find_fs name' (dc\<lparr>register_list := put_fs df' (register_list dc)\<rparr>)"
    using Some by (simp add: dlmcontrol_node_down_def Let_def df'_def)
  then show ?thesis using Some df' by (simp add: pending_def find_fs_put)
qed

lemma pending_notify_result:
  assumes ok: "dlm_ok dc" and df: "find_fs name dc = Some df"
  shows "pending (notify_result rc df n status dc) name' =
    (if name' = name \<and> status = 0 then pending dc name' - {n} else pending dc name')"
proof -
  have name: "df_name df = name" and d: "distinct (df_notifications df)"
    using ok find_fs_name [OF df] by (auto simp: dlm_ok_def)
  show ?thesis
  proof (cases "n \<in> set (df_notifications df) \<and> status = 0")
    case True
    then show ?thesis using df name d
      by (simp add: notify_result_def find_notification_None complete_notification_eq pending_def find_fs_put set_remove1_eq)
  next
    case False
    then show ?thesis using df name pending_node_down [of rc name n dc name']
      by (auto simp: notify_result_def find_notification_None pending_def)
  qed
qed

lemma dlm_ok_put: "dlm_ok dc \<Longrightarrow> distinct (df_notifications df) \<Longrightarrow> dlm_ok (dc\<lparr>register_list := put_fs df (register_list dc)\<rparr>)"
  using set_put_fs [of df "register_list dc"] by (auto simp: dlm_ok_def)

lemma dlm_ok_do [simp]: "dlm_ok (dlm_do a dc) = dlm_ok dc"
  by (simp add: dlm_ok_def dlm_do_def)

lemma dlm_ok_node_down: "dlm_ok dc \<Longrightarrow> dlm_ok (dlmcontrol_node_down rc name n dc)"
proof (cases "find_fs name dc")
  case (Some df)
  assume ok: "dlm_ok dc"
  then have "distinct (df_notifications df)" using find_fs_name [OF Some] by (auto simp: dlm_ok_def)
  then show ?thesis using Some dlm_ok_put [OF ok]
    by (simp add: dlmcontrol_node_down_def Let_def find_notification_None)
qed (simp add: dlmcontrol_node_down_def)

lemma dlm_ok_notify_result: "dlm_ok dc \<Longrightarrow> find_fs name dc = Some df \<Longrightarrow> dlm_ok (notify_result rc df n status dc)"
  using find_fs_name [of name dc df]
  by (auto simp: notify_result_def complete_notification_eq dlm_ok_node_down dlm_ok_def [of dc] intro!: dlm_ok_put)

lemma node_down_ci [simp]: "dlmcontrol_ci (dlmcontrol_node_down err name n dc) = dlmcontrol_ci dc"
  by (auto simp: dlmcontrol_node_down_def dlm_do_def Let_def split: option.split)

lemma notify_ci [simp]: "dlmcontrol_ci (notify_result err df n status dc) = dlmcontrol_ci dc"
  by (simp add: notify_result_def)

lemma registered_node_down: "find_fs name (dlmcontrol_node_down err name' n dc) = None \<longleftrightarrow> find_fs name dc = None"
  by (auto simp: dlmcontrol_node_down_def Let_def find_fs_put split: option.splits)

lemma registered_notify: "find_fs name (notify_result err df n status dc) = None \<longleftrightarrow> find_fs name dc = None"
  by (auto simp: notify_result_def registered_node_down find_fs_put)

section \<open>Properties\<close>

text \<open>What happens to the daemon; the last argument is the outcome of sending the notification, if one is sent.\<close>

datatype dlm_event =
    Node_down string int int
  | Dlm_message int "(string \<times> dlm_result \<times> int) option" int

fun run_dlm_event :: "dlm_event \<Rightarrow> dlmcontrol \<Rightarrow> dlmcontrol" where
  "run_dlm_event (Node_down name n err) dc = dlmcontrol_node_down err name n dc"
| "run_dlm_event (Dlm_message ci msg err) dc = snd (process_dlmcontrol err ci msg dc)"

text \<open>
  Whether the death of a node is still to be confirmed, told from the history alone: the node died, or it was pending
  before, and no successful result came for it since.
\<close>

fun confirm_step :: "int \<Rightarrow> string \<Rightarrow> int \<Rightarrow> dlm_event \<Rightarrow> bool \<Rightarrow> bool" where
  "confirm_step our_ci name n (Node_down name' n' _) b = (b \<or> name' = name \<and> n' = n)"
| "confirm_step our_ci name n (Dlm_message ci (Some (name', DLMC_RESULT_NOTIFIED n', status)) _) b =
     (b \<and> \<not> (ci = our_ci \<and> name' = name \<and> n' = n \<and> status = 0))"
| "confirm_step our_ci name n _ b = b"

definition unconfirmed :: "dlmcontrol \<Rightarrow> dlm_event list \<Rightarrow> string \<Rightarrow> int \<Rightarrow> bool" where
  "unconfirmed dc es name n = fold (confirm_step (dlmcontrol_ci dc) name n) es (n \<in> pending dc name)"

text \<open>
  What the daemon has to send for an event after the events \<open>es\<close>: a notification for a node that died, and again for
  each refusal while the node is unconfirmed; and it shuts down if it cannot send.
\<close>

definition notice :: "string \<Rightarrow> int \<Rightarrow> int \<Rightarrow> dlm_action list" where
  "notice name n err = Dlm_fs_notified name n # (if err \<noteq> 0 then [Shutdown_daemon] else [])"

fun due :: "dlmcontrol \<Rightarrow> dlm_event list \<Rightarrow> dlm_event \<Rightarrow> dlm_action list" where
  "due dc es (Node_down name n err) = (if find_fs name dc \<noteq> None then notice name n err else [])"
| "due dc es (Dlm_message ci (Some (name, DLMC_RESULT_NOTIFIED n, status)) err) =
     (if ci = dlmcontrol_ci dc \<and> find_fs name dc \<noteq> None \<and> unconfirmed dc es name n \<and> status \<noteq> 0 then notice name n err else [])"
| "due dc es _ = []"

lemma node_down_sends:
  "dlm_actions (dlmcontrol_node_down err name n dc) = dlm_actions dc @ (if find_fs name dc \<noteq> None then notice name n err else [])"
  by (auto simp: dlmcontrol_node_down_def dlm_do_def notice_def Let_def split: option.split)

lemma notify_sends:
  assumes "find_fs name dc = Some df"
  shows "dlm_actions (notify_result err df n status dc) = dlm_actions dc @ (if n \<in> pending dc name \<and> status \<noteq> 0 then notice name n err else [])"
  using assms find_fs_name [OF assms] by (auto simp: notify_result_def find_notification_None node_down_sends pending_def)

lemma run_dlm_event_ok:
  assumes "dlm_ok dc"
  shows "dlm_ok (run_dlm_event e dc) \<and> dlmcontrol_ci (run_dlm_event e dc) = dlmcontrol_ci dc \<and>
    (find_fs name (run_dlm_event e dc) = None \<longleftrightarrow> find_fs name dc = None) \<and>
    (find_fs name dc \<noteq> None \<longrightarrow> (n \<in> pending (run_dlm_event e dc) name \<longleftrightarrow> confirm_step (dlmcontrol_ci dc) name n e (n \<in> pending dc name)))"
proof (cases e)
  case (Node_down name' n' err)
  then show ?thesis using assms by (auto simp: dlm_ok_node_down registered_node_down pending_node_down)
next
  case (Dlm_message ci msg err)
  show ?thesis
  proof (cases "\<exists>name' n' status df. ci = dlmcontrol_ci dc \<and> msg = Some (name', DLMC_RESULT_NOTIFIED n', status) \<and> find_fs name' dc = Some df")
    case True
    then obtain name' n' status df where m: "ci = dlmcontrol_ci dc" "msg = Some (name', DLMC_RESULT_NOTIFIED n', status)" "find_fs name' dc = Some df" by blast
    show ?thesis using Dlm_message m dlm_ok_notify_result [OF assms m(3)] pending_notify_result [OF assms m(3)]
      by (auto simp: process_dlmcontrol_def registered_notify)
  next
    case False
    then have "run_dlm_event e dc = dc"
      using Dlm_message by (auto simp: process_dlmcontrol_def split: option.split prod.split dlm_result.split)
    moreover have "find_fs name dc \<noteq> None \<longrightarrow> confirm_step (dlmcontrol_ci dc) name n e b = b" for b
      using Dlm_message False by (cases "(dlmcontrol_ci dc, name, n, e, b)" rule: confirm_step.cases) auto
    ultimately show ?thesis using assms by simp
  qed
qed

lemma run_dlm_events_ok:
  assumes "dlm_ok dc"
  shows "dlm_ok (fold run_dlm_event es dc) \<and> dlmcontrol_ci (fold run_dlm_event es dc) = dlmcontrol_ci dc \<and>
    (find_fs name (fold run_dlm_event es dc) = None \<longleftrightarrow> find_fs name dc = None) \<and>
    (find_fs name dc \<noteq> None \<longrightarrow> (n \<in> pending (fold run_dlm_event es dc) name \<longleftrightarrow> unconfirmed dc es name n))"
proof (induction es rule: rev_induct)
  case (snoc e es)
  then show ?case using run_dlm_event_ok [of "fold run_dlm_event es dc" e name n] by (simp add: unconfirmed_def)
qed (simp add: assms unconfirmed_def)

lemma run_dlm_event_sends:
  assumes "dlm_ok dc"
  shows "dlm_actions (run_dlm_event e (fold run_dlm_event es dc)) = dlm_actions (fold run_dlm_event es dc) @ due dc es e"
proof -
  let ?dc = "fold run_dlm_event es dc"
  note ok = run_dlm_events_ok [OF assms, of es]
  show ?thesis
  proof (cases "(dc, es, e)" rule: due.cases)
    case (1 dc' es' name n err)
    then show ?thesis using ok [of name] by (simp add: node_down_sends)
  next
    case (2 dc' es' ci name n status err)
    then show ?thesis using ok [of name n] notify_sends [of name ?dc _ err n status]
      by (cases "find_fs name ?dc") (auto simp: process_dlmcontrol_def)
  qed (auto simp: process_dlmcontrol_def split: option.split)
qed

text \<open>
  C22.  The death of a node is announced until it is confirmed.  After any sequence of node deaths and of messages from
  dlm_controld, for every registered filesystem: a node is pending exactly if it was pending before or died and no
  successful result came for it since.  And what the daemon sent is exactly a notification for every death reported for
  a registered filesystem and another one for every refusal of a notification that is still unconfirmed, in the order of
  the events, with a shutdown of the daemon after each that could not be sent; nothing else is sent.
\<close>

theorem notifications_until_confirmed:
  assumes "dlm_ok dc"
  shows "(find_fs name dc \<noteq> None \<longrightarrow> (n \<in> pending (fold run_dlm_event es dc) name \<longleftrightarrow> unconfirmed dc es name n)) \<and>
    dlm_actions (fold run_dlm_event es dc) = dlm_actions dc @ outputs (due dc) es"
proof
  show "dlm_actions (fold run_dlm_event es dc) = dlm_actions dc @ outputs (due dc) es"
  proof (induction es rule: rev_induct)
    case (snoc e es)
    then show ?case using run_dlm_event_sends [OF assms, of e es] by simp
  qed simp
qed (use run_dlm_events_ok [OF assms] in blast)

definition sample_dlm :: dlmcontrol where
  "sample_dlm = \<lparr>dlmcontrol_ci = 4, dlmcontrol_fd = 9, register_list = [\<lparr>df_name = ''A'', df_notifications = [], df_user_data = 0\<rparr>], dlm_actions = []\<rparr>"

text \<open>A node dies, the notification is refused, and then confirmed.\<close>

definition sample_dlm_events :: "dlm_event list" where
  "sample_dlm_events = [Node_down ''A'' 3 0, Dlm_message 4 (Some (''A'', DLMC_RESULT_NOTIFIED 3, - 1)) 0, Dlm_message 4 (Some (''A'', DLMC_RESULT_NOTIFIED 3, 0)) 0]"

theorem notifications_until_confirmed_witness:
  "3 \<notin> pending (fold run_dlm_event sample_dlm_events sample_dlm) ''A'' \<and>
   dlm_actions (fold run_dlm_event sample_dlm_events sample_dlm) = [Dlm_fs_notified ''A'' 3, Dlm_fs_notified ''A'' 3]"
proof -
  have "dlm_ok sample_dlm" by (simp add: dlm_ok_def sample_dlm_def)
  note c22 = notifications_until_confirmed [OF this, of "''A''" 3 sample_dlm_events]
  show ?thesis using c22
    by (simp add: sample_dlm_events_def sample_dlm_def find_fs_def unconfirmed_def pending_def notice_def outputs_Cons)
qed

text \<open>At exit every registration is withdrawn, each exactly once.\<close>

lemma exit_unregisters_all:
  assumes "0 \<le> dlmcontrol_fd dc"
  shows "register_list (exit_dlmcontrol dc) = []"
proof -
  have "register_list (dlmcontrol_unregister_all dfs dc) = []" if "register_list dc = dfs" for dfs dc
    using that
  proof (induction dfs arbitrary: dc)
    case (Cons df dfs)
    then have "register_list (snd (dlmcontrol_unregister 0 (df_name df) dc)) = dfs"
      by (simp add: dlmcontrol_unregister_def find_fs_def dlm_do_def)
    with Cons.IH show ?case by simp
  qed simp
  then show ?thesis using assms by (simp add: exit_dlmcontrol_def dlm_do_def)
qed

end
