(* ===== verification/Controld_Mount.thy ===== *)
theory Controld_Mount
  imports Cpg Dlmcontrol
begin

text \<open>
  \<open>ocfs2_controld/mount.c\<close>: the mount groups of the cluster daemon.  A client asks to mount a
  filesystem; the daemon joins the filesystem's process group, registers it with dlm_controld, tells
  the client to go ahead and hears how the mount went; the last unmount leaves the group again.

  A pointer to a mount group is its number \<open>mg_id\<close>; a pointer to a service of a group is the service's
  name while it is in the list of the group.  \<open>None\<close> is a use of freed memory.  The texts of error
  messages are not modelled, only the error numbers.  Allocations succeed, and the names of services,
  devices and groups fit the arrays they are copied to.
\<close>

section \<open>The model\<close>

record service =
  ms_service :: string
  ms_additional :: bool

text \<open>
  The pointer \<open>mg_ms_in_progress\<close>: null, a service of the list, a service that was taken out of the
  list for leaving, or a service that was freed.
\<close>

datatype progress = Idle | Listed string | Removed string | Dangling

record mountgroup =
  mg_id :: nat
  mg_group :: "nat option"
  mg_leave_on_join :: bool
  mg_registered :: bool
  mg_uuid :: string
  mg_device :: string
  mg_services :: "service list"
  mg_ms_in_progress :: progress
  mg_mount_ci :: int
  mg_mount_fd :: int
  mg_mount_notified :: bool
  mg_error :: int

record controld =
  mounts :: "mountgroup list"
  next_mg :: nat
  next_cg :: nat
  the_cpg :: cpg
  the_dlm :: dlmcontrol
  sent :: "(int \<times> int) list"  \<comment> \<open>the \<open>CM_STATUS\<close> messages: file descriptor and error number\<close>
  closed :: "int list"  \<comment> \<open>\<open>connection_dead\<close>\<close>
  exited :: bool

text \<open>What the calls out of the daemon return while an event is handled; \<open>err\<close> is an error number, or 0.\<close>

record env =
  e_send :: "int \<Rightarrow> bool"  \<comment> \<open>whether \<open>send_message\<close> succeeds\<close>
  e_join_rc :: int
  e_leave_rc :: int
  e_register_err :: int
  e_unregister_err :: int

abbreviation "EINVAL \<equiv> 22 :: int"
abbreviation "EBUSY \<equiv> 16 :: int"
abbreviation "ENOENT \<equiv> 2 :: int"
abbreviation "ERANGE \<equiv> 34 :: int"
abbreviation "ENAMETOOLONG \<equiv> 36 :: int"
abbreviation "EALREADY \<equiv> 114 :: int"

definition OCFS2_UUID_STR_LEN :: nat where "OCFS2_UUID_STR_LEN = 32"
definition OCFS2_FS_NAME :: string where "OCFS2_FS_NAME = ''ocfs2''"

definition fill_error :: "int \<Rightarrow> mountgroup \<Rightarrow> mountgroup" where
  "fill_error e mg = (if mg_error mg \<noteq> 0 then mg else mg\<lparr>mg_error := e\<rparr>)"

definition have_mounts :: "controld \<Rightarrow> bool" where
  "have_mounts s \<longleftrightarrow> mounts s \<noteq> []"

definition find_mg_by_uuid :: "string \<Rightarrow> controld \<Rightarrow> mountgroup option" where
  "find_mg_by_uuid uuid s = find (\<lambda>mg. mg_uuid mg = uuid) (mounts s)"

definition find_mg_by_client :: "int \<Rightarrow> controld \<Rightarrow> mountgroup option" where
  "find_mg_by_client ci s = (if ci < 0 then None else find (\<lambda>mg. mg_mount_ci mg = ci) (mounts s))"

text \<open>Following a pointer to a mount group, storing into it, and freeing it.\<close>

definition get_mg :: "nat \<Rightarrow> controld \<Rightarrow> mountgroup option" where
  "get_mg mp s = find (\<lambda>mg. mg_id mg = mp) (mounts s)"

definition put_mg :: "mountgroup \<Rightarrow> controld \<Rightarrow> controld" where
  "put_mg mg s = s\<lparr>mounts := map (\<lambda>m. if mg_id m = mg_id mg then mg else m) (mounts s)\<rparr>"

definition free_mg :: "nat \<Rightarrow> controld \<Rightarrow> controld" where
  "free_mg mp s = s\<lparr>mounts := filter (\<lambda>m. mg_id m \<noteq> mp) (mounts s)\<rparr>"

definition send_status :: "int \<Rightarrow> int \<Rightarrow> controld \<Rightarrow> controld" where
  "send_status fd e s = s\<lparr>sent := sent s @ [(fd, e)]\<rparr>"

definition create_mg :: "string \<Rightarrow> string \<Rightarrow> controld \<Rightarrow> mountgroup \<times> controld" where
  "create_mg uuid device s =
     (let mg = \<lparr>mg_id = next_mg s, mg_group = None, mg_leave_on_join = False, mg_registered = False, mg_uuid = uuid,
                mg_device = device, mg_services = [], mg_ms_in_progress = Idle, mg_mount_ci = - 1, mg_mount_fd = - 1,
                mg_mount_notified = False, mg_error = 0\<rparr>
      in (mg, s\<lparr>mounts := mg # mounts s, next_mg := Suc (next_mg s)\<rparr>))"

definition notify_mount_client :: "env \<Rightarrow> mountgroup \<times> controld \<Rightarrow> mountgroup \<times> controld" where
  "notify_mount_client env = (\<lambda>(mg, s).
     let e = mg_error mg; mg = mg\<lparr>mg_error := 0\<rparr>
     in if mg_mount_fd mg < 0 then (mg, s)
        else (if e_send env (mg_mount_fd mg) then mg\<lparr>mg_mount_notified := True\<rparr> else mg, send_status (mg_mount_fd mg) e s))"

definition find_service :: "mountgroup \<Rightarrow> string \<Rightarrow> service option" where
  "find_service mg name = find (\<lambda>ms. ms_service ms = name) (mg_services mg)"

definition remove_service :: "env \<Rightarrow> string \<Rightarrow> mountgroup \<times> controld \<Rightarrow> mountgroup \<times> controld" where
  "remove_service env name = (\<lambda>(mg, s).
     case find_service mg name of
       None \<Rightarrow> (mg, s)
     | Some ms \<Rightarrow>
         (let rest = filter (\<lambda>m. ms_service m \<noteq> name) (mg_services mg) in
          if rest = [] then
            (let mg = mg\<lparr>mg_services := [], mg_ms_in_progress := Removed name\<rparr>;
                 s = (if mg_registered mg
                      then s\<lparr>the_dlm := snd (dlmcontrol_unregister (e_unregister_err env) (mg_uuid mg) (the_dlm s))\<rparr> else s);
                 mg = mg\<lparr>mg_registered := False\<rparr>
             in case mg_group mg of
                  Some h \<Rightarrow> (mg, s\<lparr>the_cpg := snd (group_leave (e_leave_rc env) h (the_cpg s))\<rparr>)
                | None \<Rightarrow> (mg\<lparr>mg_leave_on_join := True\<rparr>, s))
          else (mg\<lparr>mg_services := rest,
                   mg_ms_in_progress := (if mg_ms_in_progress mg = Listed name then Dangling else mg_ms_in_progress mg)\<rparr>, s)))"

text \<open>\<open>set_additional\<close> writes the flag of a service of the list.\<close>

definition set_additional :: "bool \<Rightarrow> string \<Rightarrow> mountgroup \<Rightarrow> mountgroup" where
  "set_additional b name mg =
     mg\<lparr>mg_services := map (\<lambda>m. if ms_service m = name then m\<lparr>ms_additional := b\<rparr> else m) (mg_services mg)\<rparr>"

definition begin_service :: "int \<Rightarrow> int \<Rightarrow> string \<Rightarrow> mountgroup \<Rightarrow> mountgroup" where
  "begin_service ci fd name mg =
     (let mg = mg\<lparr>mg_mount_ci := ci, mg_mount_fd := fd, mg_ms_in_progress := Listed name\<rparr>
      in if mg_services mg \<noteq> [] then fill_error EALREADY mg else mg)"

definition add_service :: "string \<Rightarrow> string \<Rightarrow> int \<Rightarrow> int \<Rightarrow> mountgroup \<Rightarrow> mountgroup" where
  "add_service device name ci fd mg =
     (if mg_device mg \<noteq> device then fill_error EINVAL mg
      else if mg_ms_in_progress mg \<noteq> Idle then fill_error EBUSY mg
      else case find_service mg name of
        Some ms \<Rightarrow>
          if name \<noteq> OCFS2_FS_NAME then fill_error EBUSY mg
          else begin_service ci fd name (set_additional True name mg)
      | None \<Rightarrow>
          (let mg = begin_service ci fd name mg
           in mg\<lparr>mg_services := \<lparr>ms_service = name, ms_additional = False\<rparr> # mg_services mg\<rparr>))"

text \<open>The name of the service a pointer refers to; reading it through a freed pointer is undefined.\<close>

fun progress_name :: "progress \<Rightarrow> string option" where
  "progress_name (Listed n) = Some n"
| "progress_name (Removed n) = Some n"
| "progress_name Idle = None"
| "progress_name Dangling = None"

definition register_result :: "env \<Rightarrow> int \<Rightarrow> nat \<Rightarrow> controld \<Rightarrow> controld option" where
  "register_result env status mp s =
     do { mg \<leftarrow> get_mg mp s;
          if mg_group mg = None \<or> mg_ms_in_progress mg = Idle then Some s
          else if status \<noteq> 0 then
            do { name \<leftarrow> progress_name (mg_ms_in_progress mg);
                 (mg, s) \<leftarrow> Some (remove_service env name (fill_error (- status) mg, s));
                 Some (put_mg mg s) }
          else case notify_mount_client env (mg\<lparr>mg_registered := True\<rparr>, s) of (mg, s) \<Rightarrow> Some (put_mg mg s) }"

definition finish_join :: "env \<Rightarrow> nat \<Rightarrow> nat \<Rightarrow> controld \<Rightarrow> controld option" where
  "finish_join env h mp s =
     do { mg \<leftarrow> get_mg mp s;
          if mg_group mg \<noteq> None \<or> mg_ms_in_progress mg = Idle then Some s
          else do { name \<leftarrow> progress_name (mg_ms_in_progress mg);
            if mg_ms_in_progress mg = Removed name then
              Some (if mg_leave_on_join mg then s\<lparr>the_cpg := snd (group_leave (e_leave_rc env) h (the_cpg s))\<rparr> else s)
            else if mg_services mg = [] then Some s
            else do {
              let mg = mg\<lparr>mg_group := Some h\<rparr>;
              (rc, dlm) \<leftarrow> Some (dlmcontrol_register (e_register_err env) (mg_uuid mg) (mg_id mg) (the_dlm s));
              let s = s\<lparr>the_dlm := dlm\<rparr>;
              if rc \<noteq> 0 then
                do { (mg, s) \<leftarrow> Some (remove_service env name (fill_error (- rc) mg, s));
                     Some (put_mg mg s) }
              else Some (put_mg mg s) } } }"

text \<open>\<open>finish_leave\<close> frees the mount group, or ends the daemon if a live group was left unexpectedly.\<close>

definition finish_leave :: "env \<Rightarrow> nat \<Rightarrow> controld \<Rightarrow> controld option" where
  "finish_leave env mp s =
     do { mg \<leftarrow> get_mg mp s;
          if mg_services mg = [] \<and> mg_ms_in_progress mg \<noteq> Idle then
            (if mg_ms_in_progress mg = Dangling then None
             else case notify_mount_client env (mg, s) of (mg, s) \<Rightarrow> Some (free_mg mp s))
          else if mg_group mg \<noteq> None then Some (s\<lparr>exited := True\<rparr>)
          else if mg_ms_in_progress mg = Dangling then None
          else Some (free_mg mp (if mg_mount_ci mg \<noteq> - 1 then s\<lparr>closed := closed s @ [mg_mount_ci mg]\<rparr> else s)) }"

definition mount_set_group :: "env \<Rightarrow> nat option \<Rightarrow> nat \<Rightarrow> controld \<Rightarrow> controld option" where
  "mount_set_group env cg mp s =
     (case cg of Some h \<Rightarrow> finish_join env h mp s | None \<Rightarrow> finish_leave env mp s)"

text \<open>\<open>mount_node_down\<close>; the message to the kernel (\<open>o2cb_control_node_down\<close>) is left out.\<close>

definition mount_node_down :: "int \<Rightarrow> nat \<Rightarrow> controld \<Rightarrow> controld option" where
  "mount_node_down n mp s =
     do { mg \<leftarrow> get_mg mp s;
          Some (s\<lparr>the_dlm := dlmcontrol_node_down 0 (mg_uuid mg) n (the_dlm s)\<rparr>) }"

section \<open>The requests of clients\<close>

text \<open>The end of \<open>start_mount\<close>: only errors are answered at once; a group left without a service is freed.\<close>

definition reply_start :: "int \<Rightarrow> mountgroup \<times> controld \<Rightarrow> controld" where
  "reply_start fd = (\<lambda>(mg, s).
     if mg_error mg = 0 then put_mg mg s
     else let e = mg_error mg; s = send_status fd e s; mg = mg\<lparr>mg_error := 0\<rparr>
          in if e = EALREADY then put_mg (mg\<lparr>mg_mount_notified := True\<rparr>) s
             else if mg_services mg = [] then free_mg (mg_id mg) s
             else put_mg mg s)"

definition start_mount :: "env \<Rightarrow> int \<Rightarrow> int \<Rightarrow> string \<Rightarrow> string \<Rightarrow> string \<Rightarrow> controld \<Rightarrow> controld" where
  "start_mount env ci fd uuid device name s =
     (if length uuid > OCFS2_UUID_STR_LEN then send_status fd ENAMETOOLONG s
      else case find_mg_by_uuid uuid s of
        Some mg \<Rightarrow> reply_start fd (add_service device name ci fd mg, s)
      | None \<Rightarrow>
          (case create_mg uuid device s of
             (mg, s) \<Rightarrow>
               (let mg = add_service device name ci fd mg in
                if mg_error mg \<noteq> 0 then reply_start fd (mg, s)
                else case group_join (e_join_rc env) (next_cg s) (mg_id mg) (the_cpg s) of
                  (rc, c) \<Rightarrow>
                    if rc = 0 then reply_start fd (mg, s\<lparr>the_cpg := c, next_cg := Suc (next_cg s)\<rparr>)
                    else (case remove_service env name (fill_error (- rc) mg, s) of
                            (mg, s) \<Rightarrow> reply_start fd (mg\<lparr>mg_ms_in_progress := Idle\<rparr>, s)))))"

text \<open>
  \<open>strtol\<close> in base 10: white space, a sign and digits; the number and what follows it.  Without digits
  the number is 0 and everything follows.
\<close>

definition is_space :: "char \<Rightarrow> bool" where
  "is_space c \<longleftrightarrow> c = CHR '' '' \<or> c \<in> {CHR 0x09, CHR 0x0A, CHR 0x0B, CHR 0x0C, CHR 0x0D}"

definition is_digit :: "char \<Rightarrow> bool" where
  "is_digit c \<longleftrightarrow> of_char c \<ge> (48 :: nat) \<and> of_char c \<le> (57 :: nat)"

definition digits_value :: "string \<Rightarrow> int" where
  "digits_value ds = foldl (\<lambda>n c. 10 * n + (of_char c - 48)) 0 ds"

definition LONG_MAX :: int where "LONG_MAX = 9223372036854775807"
definition LONG_MIN :: int where "LONG_MIN = - 9223372036854775808"

definition strtol :: "string \<Rightarrow> int \<times> string" where
  "strtol str =
     (let r = dropWhile is_space str;
          neg = (case r of c # _ \<Rightarrow> c = CHR ''-'' | [] \<Rightarrow> False);
          r1 = (case r of c # cs \<Rightarrow> if c = CHR ''-'' \<or> c = CHR ''+'' then cs else r | [] \<Rightarrow> r);
          ds = takeWhile is_digit r1
      in if ds = [] then (0, str)
         else (max LONG_MIN (min LONG_MAX (if neg then - digits_value ds else digits_value ds)), dropWhile is_digit r1))"

text \<open>An error found by \<open>complete_mount\<close> is kept in the mount group and sent, and not cleared.\<close>

definition fail_complete :: "int \<Rightarrow> int \<Rightarrow> mountgroup \<Rightarrow> controld \<Rightarrow> controld" where
  "fail_complete fd e mg s = (let mg = fill_error e mg in send_status fd (mg_error mg) (put_mg mg s))"

definition INT_MIN_int :: int where "INT_MIN_int = - 2147483648"
definition INT_MAX_int :: int where "INT_MAX_int = 2147483647"

definition complete_mount :: "env \<Rightarrow> int \<Rightarrow> int \<Rightarrow> string \<Rightarrow> string \<Rightarrow> string \<Rightarrow> controld \<Rightarrow> controld" where
  "complete_mount env ci fd uuid errcode name s =
     (case find_mg_by_client ci s of
        None \<Rightarrow> send_status fd EINVAL s
      | Some mg \<Rightarrow>
          if mg_mount_fd mg \<noteq> fd then fail_complete fd EINVAL mg s
          else if length uuid > OCFS2_UUID_STR_LEN then fail_complete fd EINVAL mg s
          else if uuid \<noteq> mg_uuid mg then fail_complete fd EINVAL mg s
          else if mg_ms_in_progress mg = Idle then fail_complete fd ENOENT mg s
          else case find_service mg name of
            None \<Rightarrow> fail_complete fd ENOENT mg s
          | Some ms \<Rightarrow>
              if mg_ms_in_progress mg \<noteq> Listed name then fail_complete fd EINVAL mg s
              else case strtol errcode of
                (err, rest) \<Rightarrow>
                  if rest \<noteq> [] then fail_complete fd EINVAL mg s
                  else if err = LONG_MIN \<or> err = LONG_MAX \<or> err < INT_MIN_int \<or> err > INT_MAX_int
                  then fail_complete fd ERANGE mg s
                  else
                    (let mg = mg\<lparr>mg_ms_in_progress := Idle\<rparr>;
                         (mg, err) = (if ms_additional ms then (set_additional False name mg, 0) else (mg, err));
                         (mg, s) = (if err = 0 then (mg\<lparr>mg_mount_fd := - 1, mg_mount_ci := - 1\<rparr>, s)
                                    else remove_service env name (mg, s))
                     in if mg_ms_in_progress mg \<noteq> Idle then put_mg mg s
                        else send_status fd (mg_error mg) (put_mg mg s)))"

definition remove_mount :: "env \<Rightarrow> int \<Rightarrow> int \<Rightarrow> string \<Rightarrow> string \<Rightarrow> controld \<Rightarrow> controld option" where
  "remove_mount env ci fd uuid name s =
     (if length uuid > OCFS2_UUID_STR_LEN then Some (send_status fd ENAMETOOLONG s)
      else case find_mg_by_uuid uuid s of
        None \<Rightarrow> Some (send_status fd ENOENT s)
      | Some mg \<Rightarrow>
          (case find_service mg name of
             None \<Rightarrow> Some (send_status fd ENOENT s)
           | Some ms \<Rightarrow>
               if mg_ms_in_progress mg \<noteq> Idle then
                 (if ms_additional ms then
                    (if mg_ms_in_progress mg = Dangling then None  \<comment> \<open>the message reads its name\<close>
                     else Some (send_status fd EBUSY (put_mg (set_additional False name mg) s)))
                  else Some (send_status fd EBUSY s))
               else
                 (case remove_service env name (mg, s) of
                    (mg, s) \<Rightarrow>
                      if mg_ms_in_progress mg \<noteq> Idle
                      then Some (put_mg (mg\<lparr>mg_mount_ci := ci, mg_mount_fd := fd\<rparr>) s)
                      else Some (send_status fd (mg_error mg) (put_mg mg s)))))"

definition dead_mounter :: "env \<Rightarrow> int \<Rightarrow> controld \<Rightarrow> controld option" where
  "dead_mounter env ci s =
     (case find_mg_by_client ci s of
        None \<Rightarrow> Some s
      | Some mg \<Rightarrow>
          if mg_ms_in_progress mg = Idle then Some s
          else do { name \<leftarrow> progress_name (mg_ms_in_progress mg);
            let mg = mg\<lparr>mg_mount_ci := - 1, mg_mount_fd := - 1\<rparr>;
            if mg_ms_in_progress mg = Removed name then Some (put_mg mg s)
            else do { ms \<leftarrow> find_service mg name;
              if ms_additional ms then Some (put_mg ((set_additional False name mg)\<lparr>mg_ms_in_progress := Idle\<rparr>) s)
              else if \<not> mg_mount_notified mg
              then (case remove_service env name (mg, s) of (mg, s) \<Rightarrow> Some (put_mg mg s))
              else Some (put_mg (mg\<lparr>mg_ms_in_progress := Idle\<rparr>) s) } })"

fun bail_on_mounts :: "env \<Rightarrow> nat list \<Rightarrow> controld \<Rightarrow> controld option" where
  "bail_on_mounts env [] s = Some s"
| "bail_on_mounts env (mp # mps) s =
     do { s \<leftarrow> finish_leave env mp s; if exited s then Some s else bail_on_mounts env mps s }"

definition send_mountgroups :: "(nat \<Rightarrow> bool) \<Rightarrow> controld \<Rightarrow> string list \<times> bool" where
  "send_mountgroups ok s =
     (let items = map mg_uuid (mounts s) in
      if \<not> ok 0 then ([], False)
      else let n = length (takeWhile ok [1..<Suc (length items)]) in (take n items, n = length items))"

definition init_mounts :: controld where
  "init_mounts =
     \<lparr>mounts = [], next_mg = 0, next_cg = 0, the_cpg = \<lparr>group_list = [], cpg_actions = []\<rparr>,
      the_dlm = \<lparr>dlmcontrol_ci = 0, dlmcontrol_fd = - 1, register_list = [], dlm_actions = []\<rparr>, sent = [], closed = [], exited = False\<rparr>"

section \<open>The daemon as a state machine\<close>

datatype event =
    Ev_mount int int string string string  \<comment> \<open>\<open>CM_MOUNT\<close>: client, descriptor, uuid, device, service\<close>
  | Ev_result int int string string string  \<comment> \<open>\<open>CM_MRESULT\<close>: client, descriptor, uuid, error code, service\<close>
  | Ev_unmount int int string string  \<comment> \<open>\<open>CM_UNMOUNT\<close>\<close>
  | Ev_dead int  \<comment> \<open>a client hung up\<close>
  | Ev_confchg nat "cpg_address list \<times> cpg_address list \<times> cpg_address list"
  | Ev_group_dead nat  \<comment> \<open>the connection of a group died (\<open>dead_cpg\<close>)\<close>
  | Ev_register string int  \<comment> \<open>dlm_controld answers a registration\<close>
  | Ev_daemons nat "cpg_address list" "cpg_address list"  \<comment> \<open>the group of the daemons changes: our process, members, left\<close>

text \<open>The calls of the group code into the mount groups, in order; nothing runs after the daemon exited.\<close>

fun run_actions :: "env \<Rightarrow> cpg_action list \<Rightarrow> controld \<Rightarrow> controld option" where
  "run_actions env [] s = Some s"
| "run_actions env (a # as) s =
     (if exited s then Some s
      else do { s \<leftarrow> (case a of
                        Set_cgroup cg mp \<Rightarrow> mount_set_group env cg mp s
                      | Cg_node_down n mp \<Rightarrow> mount_node_down n mp s
                      | _ \<Rightarrow> Some (s\<lparr>the_cpg := cpg_do a (the_cpg s)\<rparr>));
                run_actions env as s })"

abbreviation set_group :: "nat \<Rightarrow> cgroup option \<Rightarrow> controld \<Rightarrow> controld" where
  "set_group h g s \<equiv> s\<lparr>the_cpg := (the_cpg s)\<lparr>group_list := put_group h g (group_list (the_cpg s))\<rparr>\<rparr>"

fun controld_step :: "env \<Rightarrow> int \<Rightarrow> event \<Rightarrow> controld \<Rightarrow> controld option" where
  "controld_step env our (Ev_mount ci fd uuid device name) s = Some (start_mount env ci fd uuid device name s)"
| "controld_step env our (Ev_result ci fd uuid errcode name) s = Some (complete_mount env ci fd uuid errcode name s)"
| "controld_step env our (Ev_unmount ci fd uuid name) s = remove_mount env ci fd uuid name s"
| "controld_step env our (Ev_dead ci) s = dead_mounter env ci s"
| "controld_step env our (Ev_confchg h change) s =
     (case handle_to_group h (the_cpg s) of
        None \<Rightarrow> Some s
      | Some cg \<Rightarrow>
          do { (g, acts) \<leftarrow> process_cpg our (Some change) (cg, []); run_actions env acts (set_group h g s) })"
| "controld_step env our (Ev_group_dead h) s =
     (case handle_to_group h (the_cpg s) of
        None \<Rightarrow> Some s
      | Some cg \<Rightarrow> run_actions env (finalize_group our (cg, [])) (set_group h None s))"
| "controld_step env our (Ev_register name status) s =
     (case process_dlmcontrol 0 (dlmcontrol_ci (the_dlm s)) (Some (name, DLMC_RESULT_REGISTER, status)) (the_dlm s) of
        (None, _) \<Rightarrow> Some s
      | (Some (mp, st), _) \<Rightarrow> register_result env st mp s)"
| "controld_step env our (Ev_daemons our_pid members left) s =
     (case daemon_change our our_pid members left True ((the_cpg s)\<lparr>cpg_actions := []\<rparr>) of
        (_, _, c) \<Rightarrow> run_actions env (cpg_actions c) (s\<lparr>the_cpg := c\<lparr>cpg_actions := cpg_actions (the_cpg s)\<rparr>\<rparr>))"

text \<open>
  What the daemon relies on.  The cluster library reports our own joining first and without other joiners, then any
  changes of the other members, and our own leaving by itself, in lists that fit the arrays.  dlm_controld does not
  answer a registration again that it has confirmed.  No call fails with \<open>EALREADY\<close>, the number that the daemon itself
  uses for a filesystem that is mounted already.
\<close>

definition valid_change :: "int \<Rightarrow> cgroup \<Rightarrow> cpg_address list \<times> cpg_address list \<times> cpg_address list \<Rightarrow> bool" where
  "valid_change our cg = (\<lambda>(members, left, joined).
     change_fits (members, left, joined) \<and>
     (if \<not> cg_joined cg then our \<notin> leavers left \<and> map nodeid joined = [our]
      else our \<notin> leavers left \<or> joined = [] \<and> (\<exists>us. left = [us] \<and> nodeid us = our \<and> reason us = CPG_REASON_LEAVE)))"

fun contract :: "int \<Rightarrow> event \<Rightarrow> controld \<Rightarrow> bool" where
  "contract our (Ev_confchg h change) s = (\<forall>cg. handle_to_group h (the_cpg s) = Some cg \<longrightarrow> valid_change our cg change)"
| "contract our (Ev_register name status) s =
     (status \<noteq> - EALREADY \<and> (\<forall>df mg. find_fs name (the_dlm s) = Some df \<and> get_mg (df_user_data df) s = Some mg \<longrightarrow> \<not> mg_registered mg))"
| "contract our _ s = True"

definition env_ok :: "env \<Rightarrow> bool" where
  "env_ok env \<longleftrightarrow> e_join_rc env \<noteq> - EALREADY \<and> e_register_err env \<noteq> EALREADY"

text \<open>
  The three requests that the daemon does not stand: a mount of a filesystem whose last service was removed but whose
  group has not been left yet, the result of a mount from a client that was not told to go ahead, and the answer to a
  registration whose mount group is gone.
\<close>

fun hazard :: "event \<Rightarrow> controld \<Rightarrow> bool" where
  "hazard (Ev_mount ci fd uuid device name) s =
     (length uuid \<le> OCFS2_UUID_STR_LEN \<and> (\<exists>mg. find_mg_by_uuid uuid s = Some mg \<and> mg_services mg = []))"
| "hazard (Ev_result ci fd uuid errcode name) s = (\<exists>mg. find_mg_by_client ci s = Some mg \<and> \<not> mg_mount_notified mg)"
| "hazard (Ev_register name status) s = (\<exists>df. find_fs name (the_dlm s) = Some df \<and> get_mg (df_user_data df) s = None)"
| "hazard _ s = False"

text \<open>The states that are reached by any events but those three requests.\<close>

inductive run :: "int \<Rightarrow> controld \<Rightarrow> bool" for our where
  run_init: "run our init_mounts"
| run_step: "run our s \<Longrightarrow> \<not> exited s \<Longrightarrow> env_ok env \<Longrightarrow> contract our ev s \<Longrightarrow> \<not> hazard ev s \<Longrightarrow> controld_step env our ev s = Some s' \<Longrightarrow> run our s'"

section \<open>The invariant\<close>

text \<open>
  A mount group has services unless it is leaving; the service in progress is one of them, or the one
  whose removal made the group leave.  Until the client was told to go ahead the group has only the
  service that is being mounted; from then on it is registered and has joined.
\<close>

definition mg_ok :: "mountgroup \<Rightarrow> bool" where
  "mg_ok mg \<longleftrightarrow>
     distinct (map ms_service (mg_services mg)) \<and>
     mg_ms_in_progress mg \<noteq> Dangling \<and>
     (mg_services mg = [] \<longleftrightarrow> (\<exists>n. mg_ms_in_progress mg = Removed n)) \<and>
     (\<forall>n. mg_ms_in_progress mg = Listed n \<longrightarrow> n \<in> ms_service ` set (mg_services mg)) \<and>
     (mg_services mg \<noteq> [] \<and> \<not> mg_mount_notified mg \<longrightarrow>
        (\<exists>ms. mg_services mg = [ms] \<and> mg_ms_in_progress mg = Listed (ms_service ms))) \<and>
     (mg_services mg \<noteq> [] \<and> mg_mount_notified mg \<longrightarrow> mg_registered mg) \<and>
     (mg_services mg \<noteq> [] \<and> mg_registered mg \<longrightarrow> mg_group mg \<noteq> None) \<and>
     (mg_services mg = [] \<and> mg_group mg = None \<longrightarrow> mg_leave_on_join mg) \<and>
     (\<not> mg_mount_notified mg \<longrightarrow> (\<forall>ms\<in>set (mg_services mg). \<not> ms_additional ms))"

text \<open>The links between mount groups and process groups.\<close>

definition links_ok :: "mountgroup list \<Rightarrow> cgroup list \<Rightarrow> bool" where
  "links_ok ms cs \<longleftrightarrow>
     distinct (map mg_id ms) \<and> distinct (map cg_handle cs) \<and> distinct (map cg_user_data cs) \<and>
     cg_user_data ` set cs = mg_id ` set ms \<and>
     (\<forall>mg\<in>set ms. \<forall>h. mg_group mg = Some h \<longrightarrow> (\<exists>cg\<in>set cs. cg_handle cg = h \<and> cg_user_data cg = mg_id mg \<and> cg_joined cg)) \<and>
     (\<forall>mg\<in>set ms. \<forall>cg\<in>set cs. cg_user_data cg = mg_id mg \<and> cg_joined cg \<and> mg_group mg = None \<longrightarrow> mg_services mg = [])"

definition controld_inv :: "controld \<Rightarrow> bool" where
  "controld_inv s \<longleftrightarrow>
     (\<forall>mg\<in>set (mounts s). mg_ok mg \<and> mg_error mg \<noteq> EALREADY \<and> mg_id mg < next_mg s) \<and>
     distinct (map mg_uuid (mounts s)) \<and>
     (\<forall>cg\<in>set (group_list (the_cpg s)). nodes_ok cg \<and> cg_handle cg < next_cg s) \<and>
     links_ok (mounts s) (group_list (the_cpg s))"

subsection \<open>Looking up and storing\<close>

lemma find_in_list: "find P xs = Some x \<Longrightarrow> x \<in> set xs \<and> P x"
  by (auto simp: find_Some_iff)

lemma get_mg_mem: "get_mg mp s = Some mg \<Longrightarrow> mg \<in> set (mounts s) \<and> mg_id mg = mp"
  by (auto simp: get_mg_def dest: find_in_list)

lemma get_mg_exists: "mp \<in> mg_id ` set (mounts s) \<Longrightarrow> \<exists>mg. get_mg mp s = Some mg"
  by (cases "get_mg mp s") (auto simp: get_mg_def find_None_iff)

lemma find_mg_mem:
  "find_mg_by_uuid uuid s = Some mg \<Longrightarrow> mg \<in> set (mounts s) \<and> mg_uuid mg = uuid"
  "find_mg_by_client ci s = Some mg \<Longrightarrow> mg \<in> set (mounts s) \<and> mg_mount_ci mg = ci"
  by (auto simp: find_mg_by_uuid_def find_mg_by_client_def dest: find_in_list split: if_splits)

text \<open>The parts of the state that the invariant is about.\<close>

definition same_core :: "controld \<Rightarrow> controld \<Rightarrow> bool" where
  "same_core s s' \<longleftrightarrow> mounts s' = mounts s \<and> next_mg s' = next_mg s \<and> next_cg s' = next_cg s \<and>
     group_list (the_cpg s') = group_list (the_cpg s) \<and> exited s' = exited s"

lemma same_core_inv: "same_core s s' \<Longrightarrow> controld_inv s' = controld_inv s"
  by (simp add: same_core_def controld_inv_def)

lemma same_core_refl [simp]: "same_core s s"
  by (simp add: same_core_def)

lemma same_core_send [simp]: "same_core s (send_status fd e s')  = same_core s s'"
  by (simp add: same_core_def send_status_def)

lemma send_inv [simp]: "controld_inv (send_status fd e s) = controld_inv s"
  by (simp add: controld_inv_def send_status_def)

text \<open>Storing a mount group that keeps its name, its group and its emptiness.\<close>

lemma map_put_id:
  assumes "distinct (map mg_id ms)" and "mg \<in> set ms" and "mg_id mg' = mg_id mg" and "f mg' = f mg"
  shows "map f (map (\<lambda>m. if mg_id m = mg_id mg' then mg' else m) ms) = map f ms"
proof -
  have "f (if mg_id m = mg_id mg' then mg' else m) = f m" if "m \<in> set ms" for m
    using that assms by (auto dest: inj_on_eq_iff simp: distinct_map)
  then show ?thesis by simp
qed

lemma put_mg_inv:
  assumes inv: "controld_inv s" and mg: "mg \<in> set (mounts s)" and ok: "mg_ok mg'" "mg_error mg' \<noteq> EALREADY"
    and same: "mg_id mg' = mg_id mg" "mg_uuid mg' = mg_uuid mg" "mg_group mg' = mg_group mg"
    and svc: "mg_group mg = None \<Longrightarrow> mg_services mg = [] \<Longrightarrow> mg_services mg' = []"
  shows "controld_inv (put_mg mg' s)"
proof -
  let ?ms = "map (\<lambda>m. if mg_id m = mg_id mg' then mg' else m) (mounts s)"
  have links: "links_ok (mounts s) (group_list (the_cpg s))" and dist: "distinct (map mg_id (mounts s))"
    using inv by (simp_all add: controld_inv_def links_ok_def)
  have ids: "map mg_id ?ms = map mg_id (mounts s)" and uuids: "map mg_uuid ?ms = map mg_uuid (mounts s)"
    by (rule map_put_id [OF dist mg same(1) same(1)], rule map_put_id [OF dist mg same(1) same(2)])
  have mem: "m \<in> set ?ms \<longleftrightarrow> m = mg' \<or> (m \<in> set (mounts s) \<and> mg_id m \<noteq> mg_id mg)" for m
    using mg same(1) by auto
  have "links_ok ?ms (group_list (the_cpg s))"
    unfolding links_ok_def
  proof (intro conjI)
    show "distinct (map mg_id ?ms)" using dist by (simp only: ids)
    show "cg_user_data ` set (group_list (the_cpg s)) = mg_id ` set ?ms"
      using links arg_cong [OF ids, of set] unfolding links_ok_def by (simp only: set_map)
    have a: "\<exists>cg\<in>set (group_list (the_cpg s)). cg_handle cg = h \<and> cg_user_data cg = mg_id m \<and> cg_joined cg"
      if "m \<in> set (mounts s)" "mg_group m = Some h" for m h using links that unfolding links_ok_def by blast
    show "\<forall>m\<in>set ?ms. \<forall>h. mg_group m = Some h \<longrightarrow>
        (\<exists>cg\<in>set (group_list (the_cpg s)). cg_handle cg = h \<and> cg_user_data cg = mg_id m \<and> cg_joined cg)"
      using a [OF mg] a same unfolding Ball_def mem by auto
    have b: "mg_services m = []" if "m \<in> set (mounts s)" "cg \<in> set (group_list (the_cpg s))" "cg_user_data cg = mg_id m"
      "cg_joined cg" "mg_group m = None" for m cg using links that unfolding links_ok_def by blast
    show "\<forall>m\<in>set ?ms. \<forall>cg\<in>set (group_list (the_cpg s)).
        cg_user_data cg = mg_id m \<and> cg_joined cg \<and> mg_group m = None \<longrightarrow> mg_services m = []"
      using b [OF mg] b same svc unfolding Ball_def mem by auto
  qed (use links in \<open>auto simp: links_ok_def\<close>)
  moreover have "\<forall>m\<in>set ?ms. mg_ok m \<and> mg_error m \<noteq> EALREADY \<and> mg_id m < next_mg s"
    using inv mg ok same(1) unfolding mem controld_inv_def by auto
  moreover have "distinct (map mg_uuid ?ms)" using inv uuids unfolding controld_inv_def by metis
  ultimately show ?thesis using inv unfolding controld_inv_def put_mg_def by simp
qed

subsection \<open>Services\<close>

lemma find_service_mem: "find_service mg name = Some ms \<Longrightarrow> ms \<in> set (mg_services mg) \<and> ms_service ms = name"
  by (auto simp: find_service_def dest: find_in_list)

lemma find_service_None: "find_service mg name = None \<longleftrightarrow> name \<notin> ms_service ` set (mg_services mg)"
  by (auto simp: find_service_def find_None_iff image_iff)

lemma group_leave_list [simp]: "group_list (snd (group_leave rc h c)) = group_list c"
  by (auto simp: group_leave_def split: option.split)

text \<open>
  Removing a service: the last one starts the leaving; another one may be removed when nothing is in
  progress.
\<close>

lemma remove_service_ok:
  assumes "find_service mg name \<noteq> None" and "distinct (map ms_service (mg_services mg))"
    and "filter (\<lambda>m. ms_service m \<noteq> name) (mg_services mg) \<noteq> [] \<Longrightarrow>
      mg_ms_in_progress mg = Idle \<and> mg_mount_notified mg \<and> mg_registered mg \<and> mg_group mg \<noteq> None"
  shows "mg_ok (fst (remove_service env name (mg, s)))" and "same_core s (snd (remove_service env name (mg, s)))"
    and "mg_id (fst (remove_service env name (mg, s))) = mg_id mg"
    and "mg_uuid (fst (remove_service env name (mg, s))) = mg_uuid mg"
    and "mg_group (fst (remove_service env name (mg, s))) = mg_group mg"
    and "mg_ms_in_progress (fst (remove_service env name (mg, s))) \<in> {Removed name, Idle}"
    and "mg_error (fst (remove_service env name (mg, s))) = mg_error mg"
proof -
  let ?rest = "filter (\<lambda>m. ms_service m \<noteq> name) (mg_services mg)"
  obtain ms where ms: "find_service mg name = Some ms" using assms(1) by blast
  have d: "distinct (map ms_service ?rest)" using assms(2) by (simp add: distinct_map_filter)
  consider (last) "?rest = []" | (more) "?rest \<noteq> []" "mg_ms_in_progress mg = Idle" "mg_mount_notified mg" "mg_registered mg" "mg_group mg \<noteq> None"
    using assms(3) by blast
  then have "mg_ok (fst (remove_service env name (mg, s))) \<and> same_core s (snd (remove_service env name (mg, s))) \<and>
    mg_id (fst (remove_service env name (mg, s))) = mg_id mg \<and> mg_uuid (fst (remove_service env name (mg, s))) = mg_uuid mg \<and>
    mg_group (fst (remove_service env name (mg, s))) = mg_group mg \<and>
    mg_ms_in_progress (fst (remove_service env name (mg, s))) \<in> {Removed name, Idle} \<and>
    mg_error (fst (remove_service env name (mg, s))) = mg_error mg"
  proof cases
    case last
    then show ?thesis using ms
      by (cases "mg_group mg") (auto simp: remove_service_def Let_def mg_ok_def same_core_def)
  next
    case more
    then show ?thesis using ms d
      by (auto simp: remove_service_def Let_def mg_ok_def filter_empty_conv)
  qed
  then show "mg_ok (fst (remove_service env name (mg, s)))" "same_core s (snd (remove_service env name (mg, s)))"
    "mg_id (fst (remove_service env name (mg, s))) = mg_id mg" "mg_uuid (fst (remove_service env name (mg, s))) = mg_uuid mg"
    "mg_group (fst (remove_service env name (mg, s))) = mg_group mg"
    "mg_ms_in_progress (fst (remove_service env name (mg, s))) \<in> {Removed name, Idle}"
    "mg_error (fst (remove_service env name (mg, s))) = mg_error mg"
    by blast+
qed

text \<open>Fields that the invariant of a mount group does not look at.\<close>

lemma mg_ok_irrelevant [simp]:
  "mg_ok (mg\<lparr>mg_error := e\<rparr>) = mg_ok mg"
  "mg_ok (mg\<lparr>mg_mount_ci := ci\<rparr>) = mg_ok mg"
  "mg_ok (mg\<lparr>mg_mount_fd := fd\<rparr>) = mg_ok mg"
  by (simp_all add: mg_ok_def)

lemma fill_error_simps [simp]:
  "mg_id (fill_error e mg) = mg_id mg" "mg_uuid (fill_error e mg) = mg_uuid mg" "mg_group (fill_error e mg) = mg_group mg"
  "mg_services (fill_error e mg) = mg_services mg" "mg_ms_in_progress (fill_error e mg) = mg_ms_in_progress mg"
  "mg_mount_notified (fill_error e mg) = mg_mount_notified mg" "mg_registered (fill_error e mg) = mg_registered mg"
  "mg_leave_on_join (fill_error e mg) = mg_leave_on_join mg" "mg_mount_ci (fill_error e mg) = mg_mount_ci mg"
  "mg_ok (fill_error e mg) = mg_ok mg" "mg_device (fill_error e mg) = mg_device mg"
  by (simp_all add: fill_error_def)

lemma set_additional_simps [simp]:
  "mg_id (set_additional b n mg) = mg_id mg" "mg_uuid (set_additional b n mg) = mg_uuid mg"
  "mg_group (set_additional b n mg) = mg_group mg" "mg_ms_in_progress (set_additional b n mg) = mg_ms_in_progress mg"
  "mg_mount_notified (set_additional b n mg) = mg_mount_notified mg" "mg_registered (set_additional b n mg) = mg_registered mg"
  "(mg_services (set_additional b n mg) = []) = (mg_services mg = [])" "mg_error (set_additional b n mg) = mg_error mg"
  "map ms_service (mg_services (set_additional b n mg)) = map ms_service (mg_services mg)"
  "mg_leave_on_join (set_additional b n mg) = mg_leave_on_join mg"
  by (auto simp: set_additional_def)

text \<open>The invariant of a mount group looks at the names of the services only.\<close>

lemma mg_ok_names:
  "mg_ok mg \<longleftrightarrow>
     distinct (map ms_service (mg_services mg)) \<and>
     mg_ms_in_progress mg \<noteq> Dangling \<and>
     (map ms_service (mg_services mg) = [] \<longleftrightarrow> (\<exists>n. mg_ms_in_progress mg = Removed n)) \<and>
     (\<forall>n. mg_ms_in_progress mg = Listed n \<longrightarrow> n \<in> set (map ms_service (mg_services mg))) \<and>
     (map ms_service (mg_services mg) \<noteq> [] \<and> \<not> mg_mount_notified mg \<longrightarrow>
        (\<exists>n. map ms_service (mg_services mg) = [n] \<and> mg_ms_in_progress mg = Listed n)) \<and>
     (map ms_service (mg_services mg) \<noteq> [] \<and> mg_mount_notified mg \<longrightarrow> mg_registered mg) \<and>
     (map ms_service (mg_services mg) \<noteq> [] \<and> mg_registered mg \<longrightarrow> mg_group mg \<noteq> None) \<and>
     (map ms_service (mg_services mg) = [] \<and> mg_group mg = None \<longrightarrow> mg_leave_on_join mg) \<and>
     (\<not> mg_mount_notified mg \<longrightarrow> (\<forall>ms\<in>set (mg_services mg). \<not> ms_additional ms))"
  by (auto simp: mg_ok_def map_eq_Cons_conv)

lemma mg_ok_set_additional:
  "mg_ok mg \<Longrightarrow> mg_mount_notified mg \<Longrightarrow> mg_ok (set_additional b n mg)"
  "mg_ok mg \<Longrightarrow> mg_ok (set_additional False n mg)"
  unfolding mg_ok_names by (simp_all, auto simp: set_additional_def)

lemma controld_mg:
  assumes "controld_inv s" and "mg \<in> set (mounts s)"
  shows "mg_ok mg" and "mg_error mg \<noteq> EALREADY" and "mg_id mg < next_mg s"
  using assms by (auto simp: controld_inv_def)

text \<open>A mount group with nothing in progress is up.\<close>

lemma mg_idle:
  assumes "mg_ok mg" and "mg_ms_in_progress mg = Idle"
  shows "mg_services mg \<noteq> [] \<and> mg_mount_notified mg \<and> mg_registered mg \<and> mg_group mg \<noteq> None"
  using assms by (auto simp: mg_ok_def)

subsection \<open>Mount requests\<close>

lemma add_service_existing:
  fixes device name :: string and ci fd :: int
  assumes ok: "mg_ok mg" and svc: "mg_services mg \<noteq> []"
  defines "mg' \<equiv> add_service device name ci fd mg"
  shows "mg_ok mg'" and "mg_services mg' \<noteq> []" and "mg_id mg' = mg_id mg" and "mg_uuid mg' = mg_uuid mg" and "mg_group mg' = mg_group mg"
    and "mg_error mg' = EALREADY \<Longrightarrow> mg_error mg \<noteq> EALREADY \<Longrightarrow> mg_mount_notified mg'"
proof -
  have idle: "mg_mount_notified mg \<and> mg_registered mg \<and> mg_group mg \<noteq> None" if "mg_ms_in_progress mg = Idle"
    using mg_idle [OF ok that] by simp
  consider (err) e where "mg' = fill_error e mg" "e \<noteq> EALREADY"
    | (again) ms where "mg_ms_in_progress mg = Idle" "find_service mg name = Some ms" "mg' = begin_service ci fd name (set_additional True name mg)"
    | (new) "mg_ms_in_progress mg = Idle" "find_service mg name = None"
        "mg' = (begin_service ci fd name mg)\<lparr>mg_services := \<lparr>ms_service = name, ms_additional = False\<rparr> # mg_services (begin_service ci fd name mg)\<rparr>"
  proof (cases "mg_device mg \<noteq> device \<or> mg_ms_in_progress mg \<noteq> Idle \<or> find_service mg name \<noteq> None \<and> name \<noteq> OCFS2_FS_NAME")
    case True
    then have "mg' = fill_error EINVAL mg \<or> mg' = fill_error EBUSY mg" by (auto simp: mg'_def add_service_def)
    then show thesis using that(1) [of EINVAL] that(1) [of EBUSY] by auto
  next
    case False
    then show thesis using that(2,3) by (cases "find_service mg name") (simp_all add: mg'_def add_service_def Let_def)
  qed
  then have "mg_ok mg' \<and> mg_services mg' \<noteq> [] \<and> mg_id mg' = mg_id mg \<and> mg_uuid mg' = mg_uuid mg \<and> mg_group mg' = mg_group mg \<and>
    (mg_error mg' = EALREADY \<and> mg_error mg \<noteq> EALREADY \<longrightarrow> mg_mount_notified mg')"
  proof cases
    case err
    then show ?thesis using ok svc by (auto simp: fill_error_def)
  next
    case again
    have "name \<in> set (map ms_service (mg_services mg))" using find_service_mem [OF again(2)] by force
    then show ?thesis using again(1,3) ok svc idle [OF again(1)]
      unfolding mg_ok_names by (simp add: begin_service_def Let_def)
  next
    case new
    then show ?thesis using ok svc idle [OF new(1)]
      unfolding mg_ok_names by (simp add: begin_service_def Let_def find_service_None)
  qed
  then show "mg_ok mg'" "mg_services mg' \<noteq> []" "mg_id mg' = mg_id mg" "mg_uuid mg' = mg_uuid mg" "mg_group mg' = mg_group mg"
    "mg_error mg' = EALREADY \<Longrightarrow> mg_error mg \<noteq> EALREADY \<Longrightarrow> mg_mount_notified mg'"
    by blast+
qed

lemma mg_ok_notified: "mg_ok mg \<Longrightarrow> mg_mount_notified mg \<Longrightarrow> mg_ok (mg\<lparr>mg_error := e, mg_mount_notified := True\<rparr>)"
  by (simp add: mg_ok_def)

lemma start_existing_inv:
  assumes inv: "controld_inv s" and mg: "mg \<in> set (mounts s)" and svc: "mg_services mg \<noteq> []"
  shows "controld_inv (reply_start fd' (add_service device name ci fd mg, s))"
proof -
  let ?mg = "add_service device name ci fd mg"
  note a = add_service_existing [OF controld_mg(1) [OF inv mg] svc, of device name ci fd]
  have put: "controld_inv (put_mg m s)" if "mg_ok m" "mg_error m = 0" "mg_id m = mg_id mg" "mg_uuid m = mg_uuid mg" "mg_group m = mg_group mg" for m
    using that svc by (intro put_mg_inv [OF inv mg]) auto
  have send: "put_mg m (send_status f e s) = send_status f e (put_mg m s)" for m f e
    by (simp add: put_mg_def send_status_def)
  show ?thesis
  proof (cases "mg_error ?mg = EALREADY")
    case True
    then have "mg_ok (?mg\<lparr>mg_error := 0, mg_mount_notified := True\<rparr>)"
      using a(1,6) controld_mg(2) [OF inv mg] by (intro mg_ok_notified) auto
    then show ?thesis using True a(3-5) by (simp add: reply_start_def Let_def send put)
  next
    case False
    then show ?thesis using a put by (simp add: reply_start_def Let_def send)
  qed
qed


text \<open>A new mount group at the front, with its process group.\<close>

lemma new_mg_inv:
  assumes inv: "controld_inv s" and ok: "mg_ok mg" "mg_error mg = 0" and new: "mg_id mg = next_mg s" "mg_uuid mg \<notin> mg_uuid ` set (mounts s)" "mg_group mg = None"
  shows "controld_inv (s\<lparr>next_mg := Suc (next_mg s),
    the_cpg := (the_cpg s)\<lparr>group_list := new_cgroup (next_cg s) (mg_id mg) # group_list (the_cpg s)\<rparr>,
    next_cg := Suc (next_cg s), mounts := mg # mounts s\<rparr>)"
proof -
  have m: "\<forall>m\<in>set (mounts s). mg_id m < next_mg s" and c: "\<forall>cg\<in>set (group_list (the_cpg s)). cg_handle cg < next_cg s"
    and links: "links_ok (mounts s) (group_list (the_cpg s))" using inv by (simp_all add: controld_inv_def)
  from links have ud: "cg_user_data ` set (group_list (the_cpg s)) = mg_id ` set (mounts s)" by (simp add: links_ok_def)
  have fresh: "mg_id mg \<notin> mg_id ` set (mounts s)" "next_cg s \<notin> cg_handle ` set (group_list (the_cpg s))"
    using m c new(1) by auto
  then have other: "\<forall>cg\<in>set (group_list (the_cpg s)). cg_user_data cg \<noteq> mg_id mg" using ud by force
  have "links_ok (mg # mounts s) (new_cgroup (next_cg s) (mg_id mg) # group_list (the_cpg s))"
    using links fresh new(3) other ud unfolding links_ok_def by (simp add: new_cgroup_def)
  moreover have "nodes_ok (new_cgroup (next_cg s) (mg_id mg))" "cg_handle (new_cgroup (next_cg s) (mg_id mg)) = next_cg s"
    by (simp_all add: nodes_ok_def group_ok_def new_cgroup_def)
  ultimately show ?thesis using inv ok new(1,2) unfolding controld_inv_def by (auto simp: less_Suc_eq)
qed

lemma fresh_mg:
  assumes "controld_inv s"
  shows "map (\<lambda>m. if mg_id m = next_mg s then x else m) (mounts s) = mounts s"
    and "filter (\<lambda>m. mg_id m \<noteq> next_mg s) (mounts s) = mounts s"
  using assms by (auto simp: controld_inv_def intro!: map_idI filter_True)

lemma start_new_inv:
  assumes inv: "controld_inv s" and new: "find_mg_by_uuid uuid s = None" and env: "env_ok env"
  shows "controld_inv (start_mount env ci fd uuid device name s)"
proof (cases "length uuid > OCFS2_UUID_STR_LEN")
  case False
  define mg where "mg = \<lparr>mg_id = next_mg s, mg_group = None, mg_leave_on_join = False, mg_registered = False, mg_uuid = uuid,
                mg_device = device, mg_services = [\<lparr>ms_service = name, ms_additional = False\<rparr>], mg_ms_in_progress = Listed name,
                mg_mount_ci = ci, mg_mount_fd = fd, mg_mount_notified = False, mg_error = 0\<rparr>"
  have mg: "mg_ok mg" "mg_error mg = 0" "mg_id mg = next_mg s" "mg_group mg = None" "mg_uuid mg = uuid" by (simp_all add: mg_def mg_ok_def)
  have uuid: "uuid \<notin> mg_uuid ` set (mounts s)" using new by (auto simp: find_mg_by_uuid_def find_None_iff)
  have add: "add_service device name ci fd (fst (create_mg uuid device s)) = mg"
    by (simp add: mg_def create_mg_def add_service_def begin_service_def find_service_def Let_def)
  show ?thesis
  proof (cases "e_join_rc env = 0")
    case True
    then show ?thesis using new False add mg new_mg_inv [OF inv mg(1-3) _ mg(4)] uuid fresh_mg [OF inv]
      by (simp add: start_mount_def create_mg_def group_join_def Let_def reply_start_def put_mg_def)
  next
    case rc: False
    have "start_mount env ci fd uuid device name s = send_status fd (- e_join_rc env) (s\<lparr>next_mg := Suc (next_mg s)\<rparr>)"
      using new False add mg rc env fresh_mg [OF inv]
      by (simp add: start_mount_def create_mg_def group_join_def Let_def reply_start_def remove_service_def free_mg_def
          send_status_def env_ok_def mg_def find_service_def fill_error_def)
    then show ?thesis using inv by (auto simp: controld_inv_def send_status_def)
  qed
qed (simp add: start_mount_def inv)

lemma start_mount_inv:
  assumes "controld_inv s" and "env_ok env" and "\<not> hazard (Ev_mount ci fd uuid device name) s"
  shows "controld_inv (start_mount env ci fd uuid device name s)"
proof (cases "find_mg_by_uuid uuid s")
  case None
  then show ?thesis using assms start_new_inv by blast
next
  case (Some mg)
  then show ?thesis using assms find_mg_mem(1) [OF Some] start_existing_inv [of s mg fd device name ci fd]
    by (simp add: start_mount_def)
qed


text \<open>Storing a mount group after a service was removed.\<close>

lemma put_same_core: "same_core s s' \<Longrightarrow> same_core (put_mg mg s) (put_mg mg s')"
  by (simp add: same_core_def put_mg_def)

lemma remove_put_inv:
  assumes inv: "controld_inv s" and mg: "mg \<in> set (mounts s)" and rm: "remove_service env name (m, s) = (m', s')"
    and same: "mg_id m = mg_id mg" "mg_uuid m = mg_uuid mg" "mg_group m = mg_group mg"
    and names: "map ms_service (mg_services m) = map ms_service (mg_services mg)"
    and err: "mg_error m \<noteq> EALREADY" and svc: "name \<in> ms_service ` set (mg_services mg)"
    and idle: "filter (\<lambda>m. ms_service m \<noteq> name) (mg_services m) \<noteq> [] \<Longrightarrow>
      mg_ms_in_progress m = Idle \<and> mg_mount_notified m \<and> mg_registered m \<and> mg_group m \<noteq> None"
  shows "controld_inv (put_mg m' s')" and "controld_inv (put_mg (m'\<lparr>mg_mount_ci := ci, mg_mount_fd := fd\<rparr>) s')"
    and "same_core s s'"
proof -
  have "name \<in> set (map ms_service (mg_services m))" using svc names by simp
  then have found: "find_service m name \<noteq> None" by (auto simp: find_service_None)
  have "distinct (map ms_service (mg_services m))" using controld_mg(1) [OF inv mg] names by (simp add: mg_ok_names)
  note r = remove_service_ok [OF found this idle, where env = env and s = s, unfolded rm fst_conv snd_conv]
  have ne: "mg_services mg \<noteq> []" using svc by auto
  show "same_core s s'" by (rule r(2))
  have "controld_inv (put_mg m' s)" "controld_inv (put_mg (m'\<lparr>mg_mount_ci := ci, mg_mount_fd := fd\<rparr>) s)"
    using r same err ne by (auto intro!: put_mg_inv [OF inv mg])
  then show "controld_inv (put_mg m' s')" "controld_inv (put_mg (m'\<lparr>mg_mount_ci := ci, mg_mount_fd := fd\<rparr>) s')"
    using same_core_inv [OF put_same_core [OF r(2)]] by simp_all
qed

subsection \<open>The results of mounts\<close>

lemma fail_complete_inv:
  assumes "controld_inv s" and "mg \<in> set (mounts s)" and "e \<noteq> EALREADY"
  shows "controld_inv (fail_complete fd e mg s)"
  using assms controld_mg [OF assms(1,2)]
  by (auto simp: fail_complete_def Let_def fill_error_def intro!: put_mg_inv [OF assms(1,2)])

lemma mg_ok_finished:
  assumes "mg_ok mg" and "mg_services mg \<noteq> []" and "mg_mount_notified mg"
  shows "mg_ok (mg\<lparr>mg_ms_in_progress := Idle\<rparr>)"
  using assms by (auto simp: mg_ok_def)

lemma complete_mount_inv:
  assumes inv: "controld_inv s" and safe: "\<not> hazard (Ev_result ci fd uuid errcode name) s"
  shows "controld_inv (complete_mount env ci fd uuid errcode name s)"
proof (cases "find_mg_by_client ci s")
  case None
  then show ?thesis using inv by (simp add: complete_mount_def)
next
  case (Some mg)
  have mem: "mg \<in> set (mounts s)" using find_mg_mem(2) [OF Some] by simp
  have told: "mg_mount_notified mg" using safe Some by simp
  note fail = fail_complete_inv [OF inv mem, of _ fd]
  show ?thesis
  proof (cases "mg_mount_fd mg = fd \<and> length uuid \<le> OCFS2_UUID_STR_LEN \<and> uuid = mg_uuid mg \<and> find_service mg name \<noteq> None \<and>
      mg_ms_in_progress mg = Listed name \<and> snd (strtol errcode) = [] \<and> \<not> (fst (strtol errcode) = LONG_MIN \<or> fst (strtol errcode) = LONG_MAX \<or>
      fst (strtol errcode) < INT_MIN_int \<or> fst (strtol errcode) > INT_MAX_int)")
    case False
    then show ?thesis using Some fail [of EINVAL] fail [of ENOENT] fail [of ERANGE]
      by (auto simp: complete_mount_def split: prod.split option.split)
  next
    case True
    then obtain ms where ms: "find_service mg name = Some ms" by blast
    have svc: "name \<in> ms_service ` set (mg_services mg)" using find_service_mem [OF ms] by blast
    then have ne: "mg_services mg \<noteq> []" by auto
    note idle = mg_ok_finished [OF controld_mg(1) [OF inv mem] ne told]
    let ?m = "mg\<lparr>mg_ms_in_progress := Idle\<rparr>"
    consider (additional) "ms_additional ms" | (good) "\<not> ms_additional ms" "fst (strtol errcode) = 0"
      | (bad) "\<not> ms_additional ms" "fst (strtol errcode) \<noteq> 0" by blast
    then show ?thesis
    proof cases
      case additional
      have "controld_inv (put_mg ((set_additional False name ?m)\<lparr>mg_mount_fd := - 1, mg_mount_ci := - 1\<rparr>) s)"
        using mg_ok_set_additional(2) [OF idle] ne controld_mg(2) [OF inv mem] by (intro put_mg_inv [OF inv mem]) auto
      then show ?thesis using True Some ms additional by (auto simp: complete_mount_def Let_def split_beta)
    next
      case good
      have "controld_inv (put_mg (?m\<lparr>mg_mount_fd := - 1, mg_mount_ci := - 1\<rparr>) s)"
        using idle ne controld_mg(2) [OF inv mem] by (intro put_mg_inv [OF inv mem]) auto
      then show ?thesis using True Some ms good by (auto simp: complete_mount_def Let_def split_beta)
    next
      case bad
      obtain m' s' where rm: "remove_service env name (?m, s) = (m', s')" by fastforce
      have "mg_mount_notified ?m \<and> mg_registered ?m \<and> mg_group ?m \<noteq> None"
        using mg_idle [OF idle] by simp
      then have "controld_inv (put_mg m' s')"
        using svc controld_mg(2) [OF inv mem] by (intro remove_put_inv(1) [OF inv mem rm]) auto
      then show ?thesis using True Some ms bad rm by (auto simp: complete_mount_def Let_def split_beta)
    qed
  qed
qed


subsection \<open>Unmounting and dying clients\<close>

lemma remove_mount_inv:
  assumes inv: "controld_inv s"
  shows "\<exists>s'. remove_mount env ci fd uuid name s = Some s' \<and> controld_inv s'"
proof (cases "length uuid \<le> OCFS2_UUID_STR_LEN \<and> (\<exists>mg. find_mg_by_uuid uuid s = Some mg \<and> find_service mg name \<noteq> None)")
  case False
  then show ?thesis using inv by (auto simp: remove_mount_def split: option.split)
next
  case True
  then obtain mg ms where mg: "find_mg_by_uuid uuid s = Some mg" and ms: "find_service mg name = Some ms"
    and len: "length uuid \<le> OCFS2_UUID_STR_LEN" by blast
  have mem: "mg \<in> set (mounts s)" using find_mg_mem(1) [OF mg] by simp
  have svc: "name \<in> ms_service ` set (mg_services mg)" using find_service_mem [OF ms] by blast
  then have ne: "mg_services mg \<noteq> []" by auto
  note ok = controld_mg [OF inv mem]
  show ?thesis
  proof (cases "mg_ms_in_progress mg = Idle")
    case False
    have "controld_inv (put_mg (set_additional False name mg) s)"
      using mg_ok_set_additional(2) [OF ok(1)] ok(2) ne by (intro put_mg_inv [OF inv mem]) auto
    moreover have "mg_ms_in_progress mg \<noteq> Dangling" using ok(1) by (simp add: mg_ok_def)
    ultimately show ?thesis using False mg ms len inv by (simp add: remove_mount_def)
  next
    case True
    obtain m' s' where rm: "remove_service env name (mg, s) = (m', s')" by fastforce
    have "controld_inv (put_mg m' s') \<and> controld_inv (put_mg (m'\<lparr>mg_mount_ci := ci, mg_mount_fd := fd\<rparr>) s')"
      using remove_put_inv(1) [OF inv mem rm _ _ _ _ ok(2) svc] remove_put_inv(2) [OF inv mem rm _ _ _ _ ok(2) svc, of fd ci]
        mg_idle [OF ok(1) True] True by simp
    then show ?thesis using True mg ms len rm by (simp add: remove_mount_def)
  qed
qed

lemma progress_cases:
  assumes "mg_ok mg" and "mg_ms_in_progress mg \<noteq> Idle"
  obtains (listed) name ms where "mg_ms_in_progress mg = Listed name" "find_service mg name = Some ms" "name \<in> ms_service ` set (mg_services mg)"
  | (removed) name where "mg_ms_in_progress mg = Removed name" "mg_services mg = []"
proof (cases "mg_ms_in_progress mg")
  case (Listed name)
  then have "name \<in> ms_service ` set (mg_services mg)" using assms(1) by (simp add: mg_ok_def)
  then show ?thesis using listed [OF Listed] find_service_None by blast
next
  case (Removed name)
  then show ?thesis using removed assms(1) by (auto simp: mg_ok_def)
qed (use assms in \<open>simp_all add: mg_ok_def\<close>)

text \<open>The only service of a group whose client was not told to go ahead.\<close>

lemma only_service:
  assumes "mg_ok mg" and "\<not> mg_mount_notified mg" and "mg_ms_in_progress mg = Listed name"
  shows "filter (\<lambda>m. ms_service m \<noteq> name) (mg_services mg) = []"
  using assms by (auto simp: mg_ok_def)

lemma dead_mounter_inv:
  assumes inv: "controld_inv s"
  shows "\<exists>s'. dead_mounter env ci s = Some s' \<and> controld_inv s'"
proof (cases "\<exists>mg. find_mg_by_client ci s = Some mg \<and> mg_ms_in_progress mg \<noteq> Idle")
  case False
  then show ?thesis using inv by (auto simp: dead_mounter_def split: option.split)
next
  case True
  then obtain mg where mg: "find_mg_by_client ci s = Some mg" and busy: "mg_ms_in_progress mg \<noteq> Idle" by blast
  have mem: "mg \<in> set (mounts s)" using find_mg_mem(2) [OF mg] by simp
  note ok = controld_mg [OF inv mem]
  let ?m = "mg\<lparr>mg_mount_ci := - 1, mg_mount_fd := - 1\<rparr>"
  have "mg_ok ?m" using ok(1) by simp
  then have put: "controld_inv (put_mg ?m s)" using ok(2) by (intro put_mg_inv [OF inv mem]) simp_all
  from ok(1) busy show ?thesis
  proof (cases rule: progress_cases)
    case removed
    then show ?thesis using put mg busy by (simp add: dead_mounter_def)
  next
    case (listed name ms)
    have find: "find_service ?m name = Some ms" using listed by (simp add: find_service_def)
    have ne: "mg_services mg \<noteq> []" using listed by auto
    consider (additional) "ms_additional ms" "mg_mount_notified mg" | (told) "\<not> ms_additional ms" "mg_mount_notified mg"
      | (early) "\<not> ms_additional ms" "\<not> mg_mount_notified mg"
      using ok(1) find_service_mem [OF listed(2)] by (auto simp: mg_ok_def)
    then show ?thesis
    proof cases
      case additional
      have "mg_ok ((set_additional False name ?m)\<lparr>mg_ms_in_progress := Idle\<rparr>)"
        using additional ne \<open>mg_ok ?m\<close> by (intro mg_ok_finished mg_ok_set_additional(2)) auto
      then have "controld_inv (put_mg ((set_additional False name ?m)\<lparr>mg_ms_in_progress := Idle\<rparr>) s)"
        using ok(2) ne by (intro put_mg_inv [OF inv mem]) auto
      then show ?thesis using mg listed additional find by (simp add: dead_mounter_def)
    next
      case told
      have "mg_ok (?m\<lparr>mg_ms_in_progress := Idle\<rparr>)" using told ne \<open>mg_ok ?m\<close> by (intro mg_ok_finished) auto
      then have "controld_inv (put_mg (?m\<lparr>mg_ms_in_progress := Idle\<rparr>) s)"
        using ok(2) ne by (intro put_mg_inv [OF inv mem]) auto
      then show ?thesis using mg listed told find by (simp add: dead_mounter_def)
    next
      case early
      obtain m' s' where rm: "remove_service env name (?m, s) = (m', s')" by fastforce
      have "filter (\<lambda>m. ms_service m \<noteq> name) (mg_services ?m) = []"
        using only_service [OF ok(1) early(2) listed(1)] by simp
      then have "controld_inv (put_mg m' s')"
        using ok(2) listed(3) by (intro remove_put_inv(1) [OF inv mem rm]) auto
      then show ?thesis using mg listed early find rm by (simp add: dead_mounter_def)
    qed
  qed
qed


subsection \<open>Changes of process groups\<close>

lemma put_group_None_map: "distinct (map f cs) \<Longrightarrow> distinct (map f (put_group h None cs))"
proof (induction cs)
  case (Cons c cs)
  moreover have "set (put_group h None cs) \<subseteq> set cs" by (induction cs) auto
  ultimately show ?case by auto
qed simp

text \<open>The mount group of a process group that we have not joined yet.\<close>

lemma group_owner:
  assumes inv: "controld_inv s" and cg: "cg \<in> set (group_list (the_cpg s))"
  obtains mg where "get_mg (cg_user_data cg) s = Some mg" "mg \<in> set (mounts s)" "mg_id mg = cg_user_data cg"
    "mg_ok mg" "mg_error mg \<noteq> EALREADY" "\<not> cg_joined cg \<Longrightarrow> mg_group mg = None"
    "cg_joined cg \<Longrightarrow> mg_group mg = None \<Longrightarrow> mg_services mg = []"
proof -
  have links: "links_ok (mounts s) (group_list (the_cpg s))" using inv by (simp add: controld_inv_def)
  then have "cg_user_data cg \<in> mg_id ` set (mounts s)" using cg unfolding links_ok_def by blast
  then obtain mg where mg: "get_mg (cg_user_data cg) s = Some mg" "mg \<in> set (mounts s)" "mg_id mg = cg_user_data cg"
    using get_mg_exists get_mg_mem by blast
  have "mg_group mg = None" if "\<not> cg_joined cg"
  proof (rule ccontr)
    assume "mg_group mg \<noteq> None"
    then obtain cg' where "cg' \<in> set (group_list (the_cpg s))" "cg_user_data cg' = cg_user_data cg" "cg_joined cg'"
      using links mg unfolding links_ok_def by fastforce
    then show False using cg that links unfolding links_ok_def by (metis distinct_map inj_on_eq_iff)
  qed
  moreover have "mg_services mg = []" if "cg_joined cg" "mg_group mg = None"
    using that links mg cg unfolding links_ok_def by (metis (no_types, lifting))
  ultimately show ?thesis by (rule that [OF mg controld_mg(1,2) [OF inv mg(2)]])
qed

lemma user_data_unique:
  assumes "links_ok ms cs" and "cg \<in> set cs" and "c \<in> set cs" and "cg_user_data c = cg_user_data cg"
  shows "c = cg"
  using assms by (auto simp: links_ok_def distinct_map dest: inj_onD)

text \<open>A process group and its mount group change together: the group is joined, and linked unless it is about to be left.\<close>

lemma links_join:
  assumes links: "links_ok ms cs" and cg: "cg \<in> set cs" and mg: "mg \<in> set ms" "mg_id mg = cg_user_data cg"
    and cg': "cg_handle cg' = cg_handle cg" "cg_user_data cg' = cg_user_data cg" "cg_joined cg'"
    and mg': "mg_id mg' = mg_id mg" "mg_group mg' = Some (cg_handle cg) \<or> mg_group mg' = None \<and> mg_services mg' = []"
  shows "links_ok (map (\<lambda>m. if mg_id m = mg_id mg' then mg' else m) ms) (put_group (cg_handle cg) (Some cg') cs)"
proof -
  let ?ms = "map (\<lambda>m. if mg_id m = mg_id mg' then mg' else m) ms" and ?cs = "put_group (cg_handle cg) (Some cg') cs"
  have dist: "distinct (map mg_id ms)" "distinct (map cg_handle cs)" "distinct (map cg_user_data cs)"
    "cg_user_data ` set cs = mg_id ` set ms" using links by (simp_all add: links_ok_def)
  have mem: "m \<in> set ?ms \<longleftrightarrow> m = mg' \<or> (m \<in> set ms \<and> mg_id m \<noteq> mg_id mg)" for m using mg mg'(1) by auto
  have cmem: "c \<in> set ?cs \<longleftrightarrow> c = cg' \<or> (c \<in> set cs \<and> cg_user_data c \<noteq> cg_user_data cg)" for c
    using put_group_set(1) [OF dist(2) cg] user_data_unique [OF links cg] by auto
  have ids: "map mg_id ?ms = map mg_id ms" by (rule map_put_id [OF dist(1) mg(1) mg'(1) mg'(1)])
  have maps: "map cg_handle ?cs = map cg_handle cs" "map cg_user_data ?cs = map cg_user_data cs"
    using put_group_map [OF dist(2) cg] cg' by auto
  show ?thesis
    unfolding links_ok_def
  proof (intro conjI)
    show "cg_user_data ` set ?cs = mg_id ` set ?ms"
      using dist(4) arg_cong [OF ids, of set] arg_cong [OF maps(2), of set] by (simp only: set_map)
    have a: "\<exists>c\<in>set cs. cg_handle c = h \<and> cg_user_data c = mg_id m \<and> cg_joined c"
      if "m \<in> set ms" "mg_group m = Some h" for m h using links that unfolding links_ok_def by blast
    show "\<forall>m\<in>set ?ms. \<forall>h. mg_group m = Some h \<longrightarrow> (\<exists>c\<in>set ?cs. cg_handle c = h \<and> cg_user_data c = mg_id m \<and> cg_joined c)"
    proof (intro ballI allI impI)
      fix m h assume m: "m \<in> set ?ms" "mg_group m = Some h"
      show "\<exists>c\<in>set ?cs. cg_handle c = h \<and> cg_user_data c = mg_id m \<and> cg_joined c"
      proof (cases "m = mg'")
        case True
        then show ?thesis using m(2) mg' mg(2) cg' cmem by (intro bexI [of _ cg']) auto
      next
        case False
        then have "m \<in> set ms" "mg_id m \<noteq> mg_id mg" using m(1) unfolding mem by auto
        then show ?thesis using a [of m h] m(2) mg(2) unfolding Bex_def cmem by metis
      qed
    qed
    have b: "mg_services m = []" if "m \<in> set ms" "c \<in> set cs" "cg_user_data c = mg_id m" "cg_joined c" "mg_group m = None" for m c
      using links that unfolding links_ok_def by blast
    show "\<forall>m\<in>set ?ms. \<forall>c\<in>set ?cs. cg_user_data c = mg_id m \<and> cg_joined c \<and> mg_group m = None \<longrightarrow> mg_services m = []"
      using b mg mg' cg' unfolding Ball_def mem cmem by auto
  qed (simp_all only: dist ids maps)
qed


text \<open>The state after a process group was replaced, with a mount group stored.\<close>

lemma join_inv:
  assumes inv: "controld_inv s" and cg: "cg \<in> set (group_list (the_cpg s))" and mg: "mg \<in> set (mounts s)" "mg_id mg = cg_user_data cg"
    and cg': "cg_handle cg' = cg_handle cg" "cg_user_data cg' = cg_user_data cg" "cg_joined cg'" "group_ok cg'"
    and mg': "mg_id mg' = mg_id mg" "mg_uuid mg' = mg_uuid mg" "mg_ok mg'" "mg_error mg' \<noteq> EALREADY"
      "mg_group mg' = Some (cg_handle cg) \<or> mg_group mg' = None \<and> mg_services mg' = []"
    and core: "same_core (set_group (cg_handle cg) (Some cg') s) s'"
  shows "controld_inv (put_mg mg' s')"
proof -
  let ?ms = "map (\<lambda>m. if mg_id m = mg_id mg' then mg' else m) (mounts s)" and ?cs = "put_group (cg_handle cg) (Some cg') (group_list (the_cpg s))"
  have links: "links_ok (mounts s) (group_list (the_cpg s))" using inv by (simp add: controld_inv_def)
  have dist: "distinct (map mg_id (mounts s))" "distinct (map cg_handle (group_list (the_cpg s)))"
    using links by (simp_all add: links_ok_def)
  have uuids: "map mg_uuid ?ms = map mg_uuid (mounts s)" by (rule map_put_id [OF dist(1) mg(1) mg'(1,2)])
  have "\<forall>m\<in>set ?ms. mg_ok m \<and> mg_error m \<noteq> EALREADY \<and> mg_id m < next_mg s"
    using inv mg'(1,3,4) mg(1) by (auto simp: controld_inv_def)
  moreover have "\<forall>c\<in>set ?cs. nodes_ok c \<and> cg_handle c < next_cg s"
    using inv cg' cg by (auto simp: controld_inv_def nodes_ok_def put_group_set(1) [OF dist(2) cg])
  moreover have "distinct (map mg_uuid ?ms)" using inv unfolding uuids by (simp add: controld_inv_def)
  ultimately show ?thesis using core links_join [OF links cg mg cg'(1-3) mg'(1,5)]
    by (simp add: same_core_def controld_inv_def put_mg_def)
qed

lemma put_own_mg: "distinct (map mg_id (mounts s)) \<Longrightarrow> mg \<in> set (mounts s) \<Longrightarrow> put_mg mg s = s"
  by (auto simp: put_mg_def distinct_map inj_on_def intro!: controld.equality map_idI)

text \<open>Others join or leave a group.\<close>

lemma others_inv:
  assumes inv: "controld_inv s" and cg: "cg \<in> set (group_list (the_cpg s))" "cg_joined cg"
    and cg': "cg_handle cg' = cg_handle cg" "cg_user_data cg' = cg_user_data cg" "cg_joined cg'" "group_ok cg'"
  shows "controld_inv (set_group (cg_handle cg) (Some cg') s)"
proof -
  have links: "links_ok (mounts s) (group_list (the_cpg s))" using inv by (simp add: controld_inv_def)
  obtain mg where mg: "mg \<in> set (mounts s)" "mg_id mg = cg_user_data cg" "mg_ok mg" "mg_error mg \<noteq> EALREADY"
    "cg_joined cg \<Longrightarrow> mg_group mg = None \<Longrightarrow> mg_services mg = []"
    using inv cg(1) by (rule group_owner) (rule that)
  have "mg_group mg = Some (cg_handle cg) \<or> mg_group mg = None \<and> mg_services mg = []"
  proof (cases "mg_group mg")
    case (Some h)
    then obtain c where c: "c \<in> set (group_list (the_cpg s))" "cg_handle c = h" "cg_user_data c = mg_id mg"
      using links mg(1) unfolding links_ok_def by blast
    then have "c = cg" using user_data_unique [OF links cg(1)] mg(2) by simp
    then show ?thesis using c(2) Some by simp
  qed (use mg(5) cg(2) in simp)
  then have "controld_inv (put_mg mg (set_group (cg_handle cg) (Some cg') s))"
    using mg(3,4) by (intro join_inv [OF inv cg(1) mg(1,2) cg']) simp_all
  then show ?thesis using put_own_mg [of "set_group (cg_handle cg) (Some cg') s" mg] mg(1) links
    by (simp add: links_ok_def)
qed

lemma same_core_trans: "same_core s s' \<Longrightarrow> same_core s' s'' \<Longrightarrow> same_core s s''"
  by (simp add: same_core_def)

lemma set_group_mounts [simp]: "get_mg mp (set_group h g s) = get_mg mp s"
  by (simp add: get_mg_def)

lemma finish_join_inv:
  assumes inv: "controld_inv s" and env: "env_ok env" and cg: "cg \<in> set (group_list (the_cpg s))" "\<not> cg_joined cg"
    and cg': "cg_handle cg' = cg_handle cg" "cg_user_data cg' = cg_user_data cg" "cg_joined cg'" "group_ok cg'"
  shows "\<exists>s'. finish_join env (cg_handle cg) (cg_user_data cg) (set_group (cg_handle cg) (Some cg') s) = Some s' \<and> controld_inv s' \<and> exited s' = exited s"
proof -
  let ?s = "set_group (cg_handle cg) (Some cg') s"
  obtain mg where mg: "get_mg (cg_user_data cg) s = Some mg" "mg \<in> set (mounts s)" "mg_id mg = cg_user_data cg"
    "mg_ok mg" "mg_error mg \<noteq> EALREADY" "\<not> cg_joined cg \<Longrightarrow> mg_group mg = None" using inv cg(1) by (rule group_owner) (rule that)
  have none: "mg_group mg = None" using mg(6) cg(2) .
  have busy: "mg_ms_in_progress mg \<noteq> Idle" using mg_idle [OF mg(4)] none by auto
  note join = join_inv [OF inv cg(1) mg(2,3) cg']
  from mg(4) busy show ?thesis
  proof (cases rule: progress_cases)
    case (removed name)
    let ?t = "?s\<lparr>the_cpg := snd (group_leave (e_leave_rc env) (cg_handle cg) (the_cpg ?s))\<rparr>"
    have "controld_inv (put_mg mg ?t)" using mg(4,5) none removed by (intro join) (simp_all add: same_core_def)
    moreover have "distinct (map mg_id (mounts s))" using inv by (simp add: controld_inv_def links_ok_def)
    ultimately have "controld_inv ?t" using put_own_mg [of ?t mg] mg(2) by simp
    moreover have "mg_leave_on_join mg" using mg(4) removed none by (simp add: mg_ok_def)
    ultimately show ?thesis using mg(1) none removed by (simp add: finish_join_def)
  next
    case (listed name ms)
    have ne: "mg_services mg \<noteq> []" using listed by auto
    have early: "\<not> mg_mount_notified mg" "\<not> mg_registered mg" using mg(4) ne none by (auto simp: mg_ok_def)
    let ?m = "mg\<lparr>mg_group := Some (cg_handle cg)\<rparr>"
    have ok: "mg_ok ?m" using mg(4) ne early by (auto simp: mg_ok_def)
    obtain rc dlm where reg: "dlmcontrol_register (e_register_err env) (mg_uuid mg) (mg_id mg) (the_dlm s) = (rc, dlm)" by fastforce
    let ?t = "?s\<lparr>the_dlm := dlm\<rparr>"
    have core: "same_core ?s ?t" by (simp add: same_core_def)
    show ?thesis
    proof (cases "rc = 0")
      case True
      have "controld_inv (put_mg ?m ?t)" using ok mg(5) core by (intro join) auto
      then show ?thesis using mg(1) none listed ne reg True by (simp add: finish_join_def Let_def put_mg_def)
    next
      case False
      then have rc: "rc = - e_register_err env" using reg by (auto simp: dlmcontrol_register_def Let_def split: if_splits)
      obtain m' t' where rm: "remove_service env name (fill_error (- rc) ?m, ?t) = (m', t')" by fastforce
      have "filter (\<lambda>m. ms_service m \<noteq> name) (mg_services (fill_error (- rc) ?m)) = []"
        using only_service [OF mg(4) early(1) listed(1)] by simp
      moreover have "find_service (fill_error (- rc) ?m) name \<noteq> None" using listed(3) by (simp add: find_service_None)
      moreover have "distinct (map ms_service (mg_services (fill_error (- rc) ?m)))" using mg(4) by (simp add: mg_ok_def)
      ultimately have r: "mg_ok m'" "same_core ?t t'" "mg_id m' = mg_id mg" "mg_uuid m' = mg_uuid mg" "mg_group m' = Some (cg_handle cg)"
        "mg_error m' = mg_error (fill_error (- rc) ?m)"
        using remove_service_ok [of "fill_error (- rc) ?m" name, where env = env and s = ?t, unfolded rm fst_conv snd_conv] by simp_all
      have "mg_error m' \<noteq> EALREADY" using r(6) rc env mg(5) by (auto simp: fill_error_def env_ok_def)
      then have "controld_inv (put_mg m' t')"
        using r same_core_trans [OF core r(2)] by (intro join) auto
      then show ?thesis using mg(1) none listed ne reg False rm r(2) by (simp add: finish_join_def Let_def put_mg_def same_core_def)
    qed
  qed
qed


text \<open>A process group is gone together with its mount group.\<close>

lemma links_gone:
  assumes links: "links_ok ms cs" and cg: "cg \<in> set cs"
  shows "links_ok (filter (\<lambda>m. mg_id m \<noteq> cg_user_data cg) ms) (put_group (cg_handle cg) None cs)"
proof -
  let ?ms = "filter (\<lambda>m. mg_id m \<noteq> cg_user_data cg) ms" and ?cs = "put_group (cg_handle cg) None cs"
  have l: "distinct (map mg_id ms)" "distinct (map cg_handle cs)" "distinct (map cg_user_data cs)"
    "cg_user_data ` set cs = mg_id ` set ms" using links by (simp_all add: links_ok_def)
  have cmem: "c \<in> set ?cs \<longleftrightarrow> c \<in> set cs \<and> cg_user_data c \<noteq> cg_user_data cg" for c
    using put_group_set(2) [OF l(2) cg] user_data_unique [OF links cg] by auto
  have "cg_user_data ` set ?cs = mg_id ` set ms - {cg_user_data cg}"
    unfolding l(4) [symmetric] by (auto simp: cmem)
  moreover have "mg_id ` set ?ms = mg_id ` set ms - {cg_user_data cg}" by auto
  moreover have "\<exists>c\<in>set ?cs. cg_handle c = h \<and> cg_user_data c = mg_id m \<and> cg_joined c"
    if mem: "m \<in> set ?ms" and grp: "mg_group m = Some h" for m h
  proof -
    have m: "m \<in> set ms" "mg_id m \<noteq> cg_user_data cg" using mem by auto
    then obtain c where "c \<in> set cs" "cg_handle c = h" "cg_user_data c = mg_id m" "cg_joined c"
      using links grp unfolding links_ok_def by blast
    then show ?thesis using m(2) cmem by force
  qed
  moreover have "mg_services m = []" if "m \<in> set ?ms" "c \<in> set ?cs" "cg_user_data c = mg_id m \<and> cg_joined c \<and> mg_group m = None" for m c
    using links that unfolding links_ok_def cmem by auto
  ultimately show ?thesis
    using l put_group_None_map [OF l(2)] put_group_None_map [OF l(3)] unfolding links_ok_def
    by (simp add: distinct_map_filter)
qed

lemma gone_inv:
  assumes inv: "controld_inv s" and cg: "cg \<in> set (group_list (the_cpg s))"
    and core: "same_core (set_group (cg_handle cg) None s) s'"
  shows "controld_inv (free_mg (cg_user_data cg) s')"
proof -
  have links: "links_ok (mounts s) (group_list (the_cpg s))" "distinct (map cg_handle (group_list (the_cpg s)))"
    using inv by (simp_all add: controld_inv_def links_ok_def)
  show ?thesis using inv core links_gone [OF links(1) cg] put_group_set(2) [OF links(2) cg]
    by (auto simp: controld_inv_def same_core_def free_mg_def distinct_map_filter)
qed

lemma finish_leave_inv:
  assumes inv: "controld_inv s" and cg: "cg \<in> set (group_list (the_cpg s))"
  shows "\<exists>s'. finish_leave env (cg_user_data cg) (set_group (cg_handle cg) None s) = Some s' \<and> (exited s' \<or> controld_inv s')"
proof -
  let ?s = "set_group (cg_handle cg) None s"
  obtain mg where mg: "get_mg (cg_user_data cg) s = Some mg" "mg_ok mg" using inv cg by (rule group_owner) (rule that)
  have nd: "mg_ms_in_progress mg \<noteq> Dangling" using mg(2) by (simp add: mg_ok_def)
  have ended: "same_core ?s (snd (notify_mount_client env (mg, ?s)))"
    by (simp add: notify_mount_client_def Let_def same_core_def send_status_def)
  have hung: "same_core ?s (?s\<lparr>closed := c\<rparr>)" for c by (simp add: same_core_def)
  show ?thesis
  proof (cases "mg_services mg = [] \<and> mg_ms_in_progress mg \<noteq> Idle")
    case True
    then show ?thesis using gone_inv [OF inv cg ended] mg(1) nd by (simp add: finish_leave_def split_beta)
  next
    case False
    then show ?thesis using gone_inv [OF inv cg same_core_refl] gone_inv [OF inv cg hung] mg(1) nd
      by (auto simp: finish_leave_def)
  qed
qed

text \<open>Actions that only the cluster library hears of.\<close>

definition outward :: "cpg_action \<Rightarrow> bool" where
  "outward a \<longleftrightarrow> (case a of Set_cgroup _ _ \<Rightarrow> False | Cg_node_down _ _ \<Rightarrow> False | _ \<Rightarrow> True)"

lemma run_outward:
  assumes "\<forall>a\<in>set as. outward a" and "exited s \<or> controld_inv s"
  shows "\<exists>s'. run_actions env as s = Some s' \<and> (exited s' \<or> controld_inv s')"
  using assms
proof (induction as arbitrary: s)
  case (Cons a as)
  show ?case
  proof (cases "exited s")
    case False
    let ?s = "s\<lparr>the_cpg := cpg_do a (the_cpg s)\<rparr>"
    have "controld_inv ?s" using Cons.prems(2) False by (simp add: controld_inv_def)
    then obtain s' where "run_actions env as ?s = Some s'" "exited s' \<or> controld_inv s'" using Cons.IH [of ?s] Cons.prems(1) by auto
    then show ?thesis using False Cons.prems(1) by (cases a) (auto simp: outward_def)
  qed simp
qed simp

lemma run_shutdowns:
  "\<not> exited s \<Longrightarrow> run_actions env (replicate k Cpg_shutdown @ as) s =
     run_actions env as (s\<lparr>the_cpg := (the_cpg s)\<lparr>cpg_actions := cpg_actions (the_cpg s) @ replicate k Cpg_shutdown\<rparr>\<rparr>)"
  by (induction k arbitrary: s) (simp_all add: replicate_app_Cons_same)

lemma cpg_update_commute: "c\<lparr>cpg_actions := as, group_list := cs\<rparr> = c\<lparr>group_list := cs, cpg_actions := as\<rparr>"
  by (cases c) simp

lemma gone_step:
  assumes inv: "controld_inv s" and cg: "cg \<in> set (group_list (the_cpg s))" and alive: "\<not> exited s"
    and rest: "set rest \<subseteq> {Cpg_finalize (cg_handle cg)} \<union> range Log_nodes_left"
  shows "\<exists>s'. run_actions env (Set_cgroup None (cg_user_data cg) # rest) (set_group (cg_handle cg) None s) = Some s' \<and>
    (exited s' \<or> controld_inv s')"
proof -
  have out: "\<forall>a\<in>set rest. outward a" using rest by (auto simp: outward_def)
  obtain s' where "finish_leave env (cg_user_data cg) (set_group (cg_handle cg) None s) = Some s'" "exited s' \<or> controld_inv s'"
    using finish_leave_inv [OF inv cg, of env] by blast
  then show ?thesis using run_outward [OF out, of s' env] alive by (simp add: mount_set_group_def)
qed


lemma confchg_step:
  assumes inv: "controld_inv s" and env: "env_ok env" and alive: "\<not> exited s" and allowed: "contract our (Ev_confchg h change) s"
  shows "\<exists>s'. controld_step env our (Ev_confchg h change) s = Some s' \<and> (exited s' \<or> controld_inv s')"
proof (cases "handle_to_group h (the_cpg s)")
  case None
  then show ?thesis using inv by simp
next
  case (Some cg)
  have cg: "cg \<in> set (group_list (the_cpg s))" "h = cg_handle cg" using handle_mem [OF Some] by auto
  obtain members left joined where ch: "change = (members, left, joined)" by (cases change)
  have nodes: "nodes_ok cg" using inv cg(1) by (simp add: controld_inv_def)
  have fits: "change_fits (members, left, joined)" using allowed Some ch by (simp add: valid_change_def)
  from allowed Some ch consider (join) us where "\<not> cg_joined cg" "our \<notin> leavers left" "joined = [us]" "nodeid us = our"
    | (leave) us where "joined = []" "left = [us]" "nodeid us = our" "reason us = CPG_REASON_LEAVE"
    | (others) "cg_joined cg" "our \<notin> leavers left"
    by (auto simp: valid_change_def split: if_splits)
  then show ?thesis
  proof cases
    case join
    obtain cg' k where cg': "process_cpg our (Some change) (cg, []) = Some (Some cg', replicate k Cpg_shutdown @ [Set_cgroup (Some (cg_handle cg)) (cg_user_data cg)])"
      "group_ok cg'" "cg_joined cg'" "cg_user_data cg' = cg_user_data cg" "cg_handle cg' = cg_handle cg"
      using group_change_join [OF nodes join(1) fits [unfolded join] join(4,2), of "[]"] unfolding ch join by auto
    define s0 where "s0 = s\<lparr>the_cpg := (the_cpg s)\<lparr>cpg_actions := cpg_actions (the_cpg s) @ replicate k Cpg_shutdown\<rparr>\<rparr>"
    have s0: "controld_inv s0" "cg \<in> set (group_list (the_cpg s0))" "\<not> exited s0" using inv cg(1) alive by (simp_all add: s0_def controld_inv_def)
    obtain s' where "finish_join env (cg_handle cg) (cg_user_data cg) (set_group (cg_handle cg) (Some cg') s0) = Some s'" "controld_inv s'"
      using finish_join_inv [OF s0(1) env s0(2) join(1), of cg'] cg' by blast
    moreover have "run_actions env (replicate k Cpg_shutdown @ as) (set_group (cg_handle cg) (Some cg') s) = run_actions env as (set_group (cg_handle cg) (Some cg') s0)" for as
      using run_shutdowns [of "set_group (cg_handle cg) (Some cg') s" env k as] alive
      by (simp add: s0_def cpg_update_commute)
    ultimately show ?thesis using Some cg'(1) cg(2) s0(3) by (simp add: mount_set_group_def)
  next
    case leave
    obtain rest where "process_cpg our (Some change) (cg, []) = Some (None, Set_cgroup None (cg_user_data cg) # rest)"
      "set rest \<subseteq> {Cpg_finalize (cg_handle cg)} \<union> range Log_nodes_left"
      using group_change_leave [OF fits [unfolded leave] leave(3,4), of cg "[]"] unfolding ch leave by auto
    then show ?thesis using gone_step [OF inv cg(1) alive, of rest env] Some cg(2) by simp
  next
    case others
    have "group_ok cg" using nodes by (simp add: nodes_ok_def)
    from group_change_others [OF this fits others, of "[]"] obtain cg' k where
      cg': "process_cpg our (Some change) (cg, []) = Some (Some cg', replicate k Cpg_shutdown)" "group_ok cg'" "cg_joined cg'"
      "cg_user_data cg' = cg_user_data cg" "cg_handle cg' = cg_handle cg" unfolding ch by auto
    have "controld_inv (set_group (cg_handle cg) (Some cg') s)" using others_inv [OF inv cg(1) others(1), of cg'] cg' by simp
    then show ?thesis using run_outward [of "replicate k Cpg_shutdown" "set_group (cg_handle cg) (Some cg') s" env] Some cg(2) cg'(1)
      by (auto simp: outward_def)
  qed
qed

lemma group_dead_step:
  assumes inv: "controld_inv s" and alive: "\<not> exited s"
  shows "\<exists>s'. controld_step env our (Ev_group_dead h) s = Some s' \<and> (exited s' \<or> controld_inv s')"
proof (cases "handle_to_group h (the_cpg s)")
  case (Some cg)
  have cg: "cg \<in> set (group_list (the_cpg s))" "h = cg_handle cg" using handle_mem [OF Some] by auto
  obtain rest where "finalize_group our (cg, []) = Set_cgroup None (cg_user_data cg) # rest"
    "set rest \<subseteq> {Cpg_finalize (cg_handle cg)} \<union> range Log_nodes_left"
    using finalize_group_calls [of our cg "[]"] by auto
  then show ?thesis using gone_step [OF inv cg(1) alive, of rest env] Some cg(2) by simp
qed (simp add: inv)

lemma mg_ok_registered:
  assumes "mg_ok mg" and "mg_group mg \<noteq> None"
  shows "mg_ok (mg\<lparr>mg_registered := True\<rparr>)" and "mg_ok (mg\<lparr>mg_registered := True, mg_mount_notified := True\<rparr>)"
  using assms by (auto simp: mg_ok_def)

lemma notify_registered:
  assumes ok: "mg_ok mg" "mg_group mg \<noteq> None" and n: "notify_mount_client env (mg\<lparr>mg_registered := True\<rparr>, s) = (m', s')"
  shows "mg_ok m'" and "mg_error m' = 0" and "mg_id m' = mg_id mg" and "mg_uuid m' = mg_uuid mg" and "mg_group m' = mg_group mg"
    and "same_core s s'"
proof -
  let ?m = "mg\<lparr>mg_registered := True, mg_error := 0\<rparr>"
  have m': "m' = ?m \<or> m' = ?m\<lparr>mg_mount_notified := True\<rparr>" and "same_core s s'"
    using n by (auto simp: notify_mount_client_def Let_def same_core_def send_status_def split: if_splits)
  then show "same_core s s'" by blast
  have "mg_ok ?m" "mg_ok (mg\<lparr>mg_registered := True, mg_mount_notified := True, mg_error := 0\<rparr>)"
    using mg_ok_registered [OF ok] mg_ok_irrelevant(1) by (metis, metis)
  moreover have "?m\<lparr>mg_mount_notified := True\<rparr> = mg\<lparr>mg_registered := True, mg_mount_notified := True, mg_error := 0\<rparr>" by simp
  ultimately show "mg_ok m'" using m' by metis
  show "mg_error m' = 0" "mg_id m' = mg_id mg" "mg_uuid m' = mg_uuid mg" "mg_group m' = mg_group mg" using m' by auto
qed

lemma register_step:
  assumes inv: "controld_inv s" and allowed: "contract our (Ev_register name status) s" and safe: "\<not> hazard (Ev_register name status) s"
  shows "\<exists>s'. controld_step env our (Ev_register name status) s = Some s' \<and> controld_inv s'"
proof (cases "find_fs name (the_dlm s)")
  case None
  then show ?thesis using inv by (simp add: process_dlmcontrol_def)
next
  case (Some df)
  then obtain mg where mg: "get_mg (df_user_data df) s = Some mg" and reg: "\<not> mg_registered mg" and st: "status \<noteq> - EALREADY"
    using allowed safe by (cases "get_mg (df_user_data df) s") auto
  have mem: "mg \<in> set (mounts s)" using get_mg_mem [OF mg] by simp
  note ok = controld_mg [OF inv mem]
  have step: "controld_step env our (Ev_register name status) s = register_result env status (df_user_data df) s"
    using Some by (simp add: process_dlmcontrol_def)
  show ?thesis
  proof (cases "mg_group mg = None \<or> mg_ms_in_progress mg = Idle")
    case True
    then show ?thesis using inv mg step by (simp add: register_result_def)
  next
    case busy: False
    show ?thesis
    proof (cases "status = 0")
      case True
      obtain m' s' where n: "notify_mount_client env (mg\<lparr>mg_registered := True\<rparr>, s) = (m', s')" by fastforce
      have group: "mg_group mg \<noteq> None" using busy by simp
      note m' = notify_registered [OF ok(1) group n]
      have core: "same_core s s'" by (rule m'(6))
      have "controld_inv (put_mg m' s)" using m' busy by (intro put_mg_inv [OF inv mem]) auto
      then show ?thesis using same_core_inv [OF put_same_core [OF core]] step mg busy True n by (simp add: register_result_def)
    next
      case False
      have err: "mg_error (fill_error (- status) mg) \<noteq> EALREADY" using ok(2) st by (auto simp: fill_error_def)
      have "mg_ms_in_progress mg \<noteq> Idle" using busy by simp
      with ok(1) show ?thesis
      proof (cases rule: progress_cases)
        case (removed n)
        have "controld_inv (put_mg (fill_error (- status) mg) s)" using ok(1) err removed by (intro put_mg_inv [OF inv mem]) auto
        then show ?thesis using step mg busy False removed by (auto simp: register_result_def remove_service_def find_service_def)
      next
        case (listed n ms)
        have early: "\<not> mg_mount_notified mg" using ok(1) reg listed by (auto simp: mg_ok_def)
        obtain m' s' where rm: "remove_service env n (fill_error (- status) mg, s) = (m', s')" by fastforce
        have "filter (\<lambda>m. ms_service m \<noteq> n) (mg_services (fill_error (- status) mg)) = []"
          using only_service [OF ok(1) early listed(1)] by simp
        then have "controld_inv (put_mg m' s')" using err listed(3) by (intro remove_put_inv(1) [OF inv mem rm]) auto
        then show ?thesis using step mg busy False listed rm by (auto simp: register_result_def)
      qed
    qed
  qed
qed


subsection \<open>Dead nodes\<close>

text \<open>What the links look at in a process group.\<close>

definition group_key :: "cgroup \<Rightarrow> nat \<times> nat \<times> bool" where
  "group_key cg = (cg_handle cg, cg_user_data cg, cg_joined cg)"

lemma links_ok_keys:
  assumes "map group_key cs' = map group_key cs"
  shows "links_ok ms cs' = links_ok ms cs"
proof -
  have all: "(\<forall>cg\<in>set cs. P (group_key cg)) = (\<forall>cg\<in>set cs'. P (group_key cg))" for P
    using arg_cong [OF assms, of "\<lambda>ks. \<forall>k\<in>set ks. P k"] by simp
  have ex: "(\<exists>cg\<in>set cs. P (group_key cg)) = (\<exists>cg\<in>set cs'. P (group_key cg))" for P
    using arg_cong [OF assms, of "\<lambda>ks. \<exists>k\<in>set ks. P k"] by simp
  have maps: "map cg_handle cs' = map cg_handle cs" "map cg_user_data cs' = map cg_user_data cs"
    using arg_cong [OF assms, of "map fst"] arg_cong [OF assms, of "map (fst \<circ> snd)"] by (simp_all add: group_key_def comp_def)
  have ud: "cg_user_data ` set cs' = cg_user_data ` set cs" using maps(2) by (metis set_map)
  have 1: "(\<exists>cg\<in>set cs'. cg_handle cg = h \<and> cg_user_data cg = mg_id m \<and> cg_joined cg) =
      (\<exists>cg\<in>set cs. cg_handle cg = h \<and> cg_user_data cg = mg_id m \<and> cg_joined cg)" for m h
    using ex [of "\<lambda>(h', u, j). h' = h \<and> u = mg_id m \<and> j"] by (simp add: group_key_def)
  have 2: "(\<forall>cg\<in>set cs'. cg_user_data cg = mg_id m \<and> cg_joined cg \<and> mg_group m = None \<longrightarrow> mg_services m = []) =
      (\<forall>cg\<in>set cs. cg_user_data cg = mg_id m \<and> cg_joined cg \<and> mg_group m = None \<longrightarrow> mg_services m = [])" for m
    using all [of "\<lambda>(h, u, j). u = mg_id m \<and> j \<and> mg_group m = None \<longrightarrow> mg_services m = []"] by (simp add: group_key_def)
  show ?thesis unfolding links_ok_def maps ud 1 2 by (rule refl)
qed

definition told_down :: "cgroup list \<Rightarrow> cpg_action \<Rightarrow> bool" where
  "told_down cs a \<longleftrightarrow> (\<exists>n. a = Kill_stack_node n) \<or> (\<exists>n u. a = Cg_node_down n u \<and> u \<in> cg_user_data ` set cs)"

lemma same_but_key:
  assumes "same_but D cg cg'"
  shows "group_key cg' = group_key cg" and "nodes_ok cg \<Longrightarrow> nodes_ok cg'"
proof -
  have "set (cg_nodes cg') = set (cg_nodes cg) - D" "group_ok cg'" "cg_joined cg' = cg_joined cg"
    using assms by (simp_all add: same_but_def)
  then show "nodes_ok cg \<Longrightarrow> nodes_ok cg'" by (cases "cg_nodes cg") (simp_all add: nodes_ok_def)
qed (use assms in \<open>simp add: same_but_def group_key_def\<close>)

lemma handle_node_down_keys:
  assumes "\<forall>cg\<in>set (group_list c). nodes_ok cg"
  shows "map group_key (group_list (handle_node_down a c)) = map group_key (group_list c)"
    and "\<forall>cg\<in>set (group_list (handle_node_down a c)). nodes_ok cg"
    and "\<exists>acts. cpg_actions (handle_node_down a c) = cpg_actions c @ acts \<and> (\<forall>a\<in>set acts. told_down (group_list c) a)"
proof -
  have "\<forall>cg\<in>set (group_list c). group_ok cg" using assms by (auto simp: nodes_ok_def)
  note down = groups_node_down_ok [OF this, of "nodeid a"]
  obtain cs' acts where g: "groups_node_down (nodeid a) (group_list c) = (cs', acts)"
    by (cases "groups_node_down (nodeid a) (group_list c)")
  have keys: "map group_key cs' = map group_key cs \<and> (\<forall>cg\<in>set cs'. nodes_ok cg)"
    if "list_all2 (same_but D) cs cs'" "\<forall>cg\<in>set cs. nodes_ok cg" for D cs cs'
    using that by (induction rule: list_all2_induct) (simp_all add: same_but_key)
  have cs': "map group_key cs' = map group_key (group_list c)" "\<forall>cg\<in>set cs'. nodes_ok cg"
    using keys [OF down [THEN conjunct1, unfolded g fst_conv] assms] by blast+
  have acts: "\<forall>a\<in>set acts. told_down (group_list c) a" using down g by (auto simp: told_down_def)
  show "map group_key (group_list (handle_node_down a c)) = map group_key (group_list c)"
    "\<forall>cg\<in>set (group_list (handle_node_down a c)). nodes_ok cg"
    using cs' assms g by (simp_all add: handle_node_down_def)
  show "\<exists>acts. cpg_actions (handle_node_down a c) = cpg_actions c @ acts \<and> (\<forall>a\<in>set acts. told_down (group_list c) a)"
    using acts g by (simp add: handle_node_down_def)
qed

lemma nodes_down_keys:
  assumes "\<forall>cg\<in>set (group_list c). nodes_ok cg"
  shows "map group_key (group_list (fold handle_node_down left c)) = map group_key (group_list c) \<and>
    (\<forall>cg\<in>set (group_list (fold handle_node_down left c)). nodes_ok cg) \<and>
    (\<exists>acts. cpg_actions (fold handle_node_down left c) = cpg_actions c @ acts \<and> (\<forall>a\<in>set acts. told_down (group_list c) a))"
  using assms
proof (induction left arbitrary: c)
  case (Cons a left)
  let ?c = "handle_node_down a c"
  note one = handle_node_down_keys [OF Cons.prems, of a]
  have "told_down (group_list ?c) = told_down (group_list c)"
    using arg_cong [OF one(1), of "\<lambda>ks. fst ` snd ` set ks"] by (simp add: told_down_def fun_eq_iff group_key_def image_image)
  then show ?case using Cons.IH [OF one(2)] one(1,3) by auto
qed simp

lemma run_told_down:
  assumes "\<forall>a\<in>set as. told_down (group_list (the_cpg s)) a" and "controld_inv s" and "\<not> exited s"
  shows "\<exists>s'. run_actions env as s = Some s' \<and> controld_inv s'"
  using assms
proof (induction as arbitrary: s)
  case (Cons a as)
  have links: "cg_user_data ` set (group_list (the_cpg s)) = mg_id ` set (mounts s)"
    using Cons.prems(2) by (simp add: controld_inv_def links_ok_def)
  have step: ?case if "same_core s s1"
    "(case a of Set_cgroup cg mp \<Rightarrow> mount_set_group env cg mp s | Cg_node_down n mp \<Rightarrow> mount_node_down n mp s
      | _ \<Rightarrow> Some (s\<lparr>the_cpg := cpg_do a (the_cpg s)\<rparr>)) = Some s1" for s1
    using Cons.IH [of s1] Cons.prems that same_core_inv [OF that(1)] by (simp add: same_core_def)
  consider n where "a = Kill_stack_node n" | n u where "a = Cg_node_down n u" "u \<in> mg_id ` set (mounts s)"
    using Cons.prems(1) links by (auto simp: told_down_def)
  then show ?case
  proof cases
    case 1
    then show ?thesis by (intro step [of "s\<lparr>the_cpg := cpg_do a (the_cpg s)\<rparr>"]) (simp_all add: same_core_def)
  next
    case (2 n u)
    then obtain mg where "get_mg u s = Some mg" using get_mg_exists by blast
    then show ?thesis using 2(1) by (intro step [of "s\<lparr>the_dlm := dlmcontrol_node_down 0 (mg_uuid mg) n (the_dlm s)\<rparr>"])
      (simp_all add: same_core_def mount_node_down_def)
  qed
qed simp

lemma daemons_step:
  assumes inv: "controld_inv s" and alive: "\<not> exited s"
  shows "\<exists>s'. controld_step env our (Ev_daemons our_pid members left) s = Some s' \<and> controld_inv s'"
proof -
  define c where "c = fold handle_daemon_left left ((the_cpg s)\<lparr>cpg_actions := []\<rparr>)"
  define c' where "c' = fold handle_node_down left c"
  let ?s = "s\<lparr>the_cpg := c'\<lparr>cpg_actions := cpg_actions (the_cpg s)\<rparr>\<rparr>"
  have c: "group_list c = group_list (the_cpg s)" "\<forall>a\<in>set (cpg_actions c). told_down (group_list (the_cpg s)) a"
    using handle_daemon_left_groups [of left "(the_cpg s)\<lparr>cpg_actions := []\<rparr>"] by (auto simp: c_def told_down_def killed_nodes_def)
  have "\<forall>cg\<in>set (group_list c). nodes_ok cg" using inv c(1) by (simp add: controld_inv_def)
  from nodes_down_keys [OF this, of left] have keys: "map group_key (group_list c') = map group_key (group_list (the_cpg s))"
    and ok: "\<forall>cg\<in>set (group_list c'). nodes_ok cg" and acts: "\<forall>a\<in>set (cpg_actions c'). told_down (group_list (the_cpg s)) a"
    using c by (auto simp: c'_def)
  have "told_down (group_list c') = told_down (group_list (the_cpg s))"
    using arg_cong [OF keys, of "\<lambda>ks. fst ` snd ` set ks"] by (simp add: told_down_def fun_eq_iff group_key_def image_image)
  moreover have "\<forall>cg\<in>set (group_list c'). cg_handle cg < next_cg s"
    using inv arg_cong [OF keys, of "\<lambda>ks. \<forall>k\<in>set ks. fst k < next_cg s"] by (simp add: controld_inv_def group_key_def)
  then have "controld_inv ?s" using inv ok links_ok_keys [OF keys] by (simp add: controld_inv_def)
  ultimately show ?thesis using run_told_down [of "cpg_actions c'" ?s env] acts alive
    by (simp add: daemon_change_def Let_def c_def [symmetric] c'_def [symmetric])
qed

text \<open>No event uses freed memory, and every event keeps the invariant unless it ends the daemon.\<close>

lemma step_ok:
  assumes "controld_inv s" and "\<not> exited s" and "env_ok env" and "contract our ev s" and "\<not> hazard ev s"
  shows "\<exists>s'. controld_step env our ev s = Some s' \<and> (exited s' \<or> controld_inv s')"
proof (cases ev)
  case (Ev_mount ci fd uuid device name)
  then show ?thesis using start_mount_inv assms by simp
next
  case (Ev_result ci fd uuid errcode name)
  then show ?thesis using complete_mount_inv assms by simp
next
  case (Ev_unmount ci fd uuid name)
  then show ?thesis using remove_mount_inv [OF assms(1), of env ci fd uuid name] by auto
next
  case (Ev_dead ci)
  then show ?thesis using dead_mounter_inv [OF assms(1), of env ci] by auto
next
  case (Ev_confchg h change)
  then show ?thesis using confchg_step assms by blast
next
  case (Ev_group_dead h)
  then show ?thesis using group_dead_step assms(1,2) by blast
next
  case (Ev_register name status)
  then show ?thesis using register_step assms(1,4,5) by blast
next
  case (Ev_daemons our_pid members left)
  then show ?thesis using daemons_step [OF assms(1,2), of env our our_pid members left] by auto
qed

lemma init_inv: "controld_inv init_mounts"
  by (simp add: controld_inv_def init_mounts_def links_ok_def)

lemma run_inv: "run our s \<Longrightarrow> exited s \<or> controld_inv s"
proof (induction rule: run.induct)
  case run_init
  then show ?case using init_inv by simp
next
  case (run_step s env ev s')
  then show ?case using step_ok [of s env our ev] by auto
qed


section \<open>Properties\<close>



text \<open>A run for the witnesses: a mount is requested, and the group is joined.\<close>

definition calm :: env where
  "calm = \<lparr>e_send = (\<lambda>_. True), e_join_rc = 0, e_leave_rc = 0, e_register_err = 0, e_unregister_err = 0\<rparr>"

fun run_events :: "int \<Rightarrow> event list \<Rightarrow> controld \<Rightarrow> controld option" where
  "run_events our [] s = Some s"
| "run_events our (ev # evs) s = (if exited s then Some s else Option.bind (controld_step calm our ev s) (run_events our evs))"

abbreviation "mount_a \<equiv> Ev_mount 1 10 ''A'' ''sda'' ''ocfs2''"
abbreviation "joined_a \<equiv> Ev_confchg 0 ([node 7 CPG_REASON_JOIN], [], [node 7 CPG_REASON_JOIN])"
abbreviation "left_a \<equiv> Ev_confchg 0 ([], [node 7 CPG_REASON_LEAVE], [])"







text \<open>
  The states that the comment of \<open>mount_set_group\<close> lists are the only ones in which it is called.
  When a group reports that we joined, a mount is in progress, it is the only service and the group is
  not linked yet, or the group was told to leave as soon as it has joined.  When a group that we have
  joined is gone, we asked to leave it (it has no services, and it is linked unless it was told to
  leave on joining), or it is live and the daemon ends.
\<close>

lemma set_group_states:
  assumes "run our s" and "\<not> exited s" and "cg \<in> set (group_list (the_cpg s))"
  shows "\<exists>mg. get_mg (cg_user_data cg) s = Some mg \<and>
    (if cg_joined cg
     then (mg_services mg = [] \<and> mg_ms_in_progress mg \<noteq> Idle \<and> (mg_group mg = None \<longrightarrow> mg_leave_on_join mg)) \<or>
          (mg_services mg \<noteq> [] \<and> mg_group mg \<noteq> None)
     else mg_group mg = None \<and> mg_ms_in_progress mg \<noteq> Idle \<and>
          (length (mg_services mg) = 1 \<or> (mg_services mg = [] \<and> mg_leave_on_join mg)))"
proof -
  have inv: "controld_inv s" using run_inv [OF assms(1)] assms(2) by blast
  obtain mg where mg: "get_mg (cg_user_data cg) s = Some mg" "mg_ok mg" "\<not> cg_joined cg \<Longrightarrow> mg_group mg = None"
    "cg_joined cg \<Longrightarrow> mg_group mg = None \<Longrightarrow> mg_services mg = []" using inv assms(3) by (rule group_owner) (rule that)
  from mg(1) show ?thesis
  proof (intro exI conjI)
    have "mg_group mg = None \<Longrightarrow> mg_services mg \<noteq> [] \<Longrightarrow> length (mg_services mg) = 1 \<and> mg_ms_in_progress mg \<noteq> Idle"
      using mg(2) by (auto simp: mg_ok_def)
    moreover have "mg_services mg = [] \<Longrightarrow> mg_ms_in_progress mg \<noteq> Idle \<and> (mg_group mg = None \<longrightarrow> mg_leave_on_join mg)"
      using mg(2) by (auto simp: mg_ok_def)
    ultimately show "if cg_joined cg
     then (mg_services mg = [] \<and> mg_ms_in_progress mg \<noteq> Idle \<and> (mg_group mg = None \<longrightarrow> mg_leave_on_join mg)) \<or>
          (mg_services mg \<noteq> [] \<and> mg_group mg \<noteq> None)
     else mg_group mg = None \<and> mg_ms_in_progress mg \<noteq> Idle \<and>
          (length (mg_services mg) = 1 \<or> (mg_services mg = [] \<and> mg_leave_on_join mg))"
      using mg(3,4) by (cases "mg_services mg = []") auto
  qed
qed

text \<open>
  The three requests of \<open>hazard\<close> on the way to freed memory.  If a client asks for a filesystem whose group is about to
  be left, the answer is an error and the mount group is freed, but its process group still refers to it.
\<close>

lemma mount_while_leaving_frees:
  "run_events 7 [mount_a, Ev_dead 1, Ev_mount 2 11 ''A'' ''sda'' ''ocfs2'', joined_a] init_mounts = None"
  by code_simp

text \<open>A registration that is answered after the group was left refers to the freed mount group.\<close>

lemma late_registration_uses_freed:
  "run_events 7 [mount_a, joined_a, Ev_dead 1, left_a, Ev_register ''A'' 0] init_mounts = None"
  by code_simp

text \<open>
  A result that comes before the registration was answered ends the mount; another service may then be mounted, and when
  the registration fails, that one is removed while it is in progress: the pointer to it dangles.
\<close>

lemma early_result_dangles:
  "run_events 7 [mount_a, joined_a, Ev_result 1 10 ''A'' ''0'' ''ocfs2'', Ev_mount 2 11 ''A'' ''sda'' ''tool'', Ev_register ''A'' (- 5), Ev_dead 2] init_mounts = None"
  by code_simp

text \<open>
  A mount that failed while another service has the filesystem mounted: the service is dropped, but the
  client stays attached to the mount group, because only a successful mount detaches it.
\<close>

lemma failed_mount_stays_attached:
  "map_option (\<lambda>s. map (\<lambda>mg. (mg_mount_ci mg, length (mg_services mg))) (mounts s))
     (run_events 7 [mount_a, joined_a, Ev_register ''A'' 0, Ev_result 1 10 ''A'' ''0'' ''ocfs2'',
        Ev_mount 2 11 ''A'' ''sda'' ''tool'', Ev_result 2 11 ''A'' ''1'' ''tool''] init_mounts) = Some [(2, 1)]"
  by code_simp

text \<open>An error that \<open>complete_mount\<close> finds stays in the mount group and fails the next mount.\<close>

lemma stale_error:
  "map_option sent (run_events 7 [mount_a, joined_a, Ev_register ''A'' 0, Ev_result 1 10 ''A'' ''x'' ''ocfs2'',
      Ev_result 1 10 ''A'' ''0'' ''ocfs2''] init_mounts) = Some [(10, 0), (10, 22), (10, 22)]"
  by code_simp

end
