(* ===== verification/Crc32.thy ===== *)
theory Crc32
  imports Ocfs2_Prelude
begin

text \<open>
  The CRC-32 of \<open>libocfs2/blockcheck.c\<close>, with the table of \<open>libocfs2/crc32table.h\<close>.  The model is
  the little-endian build: \<open>tole\<close>, \<open>cpu_to_le32\<close> and \<open>le32_to_cpu\<close> are the identity.
\<close>

section \<open>The model\<close>

definition crc32table_le :: "u32 list" where
  "crc32table_le =
    [0x00000000, 0x77073096, 0xee0e612c, 0x990951ba, 0x076dc419, 0x706af48f,
     0xe963a535, 0x9e6495a3, 0x0edb8832, 0x79dcb8a4, 0xe0d5e91e, 0x97d2d988,
     0x09b64c2b, 0x7eb17cbd, 0xe7b82d07, 0x90bf1d91, 0x1db71064, 0x6ab020f2,
     0xf3b97148, 0x84be41de, 0x1adad47d, 0x6ddde4eb, 0xf4d4b551, 0x83d385c7,
     0x136c9856, 0x646ba8c0, 0xfd62f97a, 0x8a65c9ec, 0x14015c4f, 0x63066cd9,
     0xfa0f3d63, 0x8d080df5, 0x3b6e20c8, 0x4c69105e, 0xd56041e4, 0xa2677172,
     0x3c03e4d1, 0x4b04d447, 0xd20d85fd, 0xa50ab56b, 0x35b5a8fa, 0x42b2986c,
     0xdbbbc9d6, 0xacbcf940, 0x32d86ce3, 0x45df5c75, 0xdcd60dcf, 0xabd13d59,
     0x26d930ac, 0x51de003a, 0xc8d75180, 0xbfd06116, 0x21b4f4b5, 0x56b3c423,
     0xcfba9599, 0xb8bda50f, 0x2802b89e, 0x5f058808, 0xc60cd9b2, 0xb10be924,
     0x2f6f7c87, 0x58684c11, 0xc1611dab, 0xb6662d3d, 0x76dc4190, 0x01db7106,
     0x98d220bc, 0xefd5102a, 0x71b18589, 0x06b6b51f, 0x9fbfe4a5, 0xe8b8d433,
     0x7807c9a2, 0x0f00f934, 0x9609a88e, 0xe10e9818, 0x7f6a0dbb, 0x086d3d2d,
     0x91646c97, 0xe6635c01, 0x6b6b51f4, 0x1c6c6162, 0x856530d8, 0xf262004e,
     0x6c0695ed, 0x1b01a57b, 0x8208f4c1, 0xf50fc457, 0x65b0d9c6, 0x12b7e950,
     0x8bbeb8ea, 0xfcb9887c, 0x62dd1ddf, 0x15da2d49, 0x8cd37cf3, 0xfbd44c65,
     0x4db26158, 0x3ab551ce, 0xa3bc0074, 0xd4bb30e2, 0x4adfa541, 0x3dd895d7,
     0xa4d1c46d, 0xd3d6f4fb, 0x4369e96a, 0x346ed9fc, 0xad678846, 0xda60b8d0,
     0x44042d73, 0x33031de5, 0xaa0a4c5f, 0xdd0d7cc9, 0x5005713c, 0x270241aa,
     0xbe0b1010, 0xc90c2086, 0x5768b525, 0x206f85b3, 0xb966d409, 0xce61e49f,
     0x5edef90e, 0x29d9c998, 0xb0d09822, 0xc7d7a8b4, 0x59b33d17, 0x2eb40d81,
     0xb7bd5c3b, 0xc0ba6cad, 0xedb88320, 0x9abfb3b6, 0x03b6e20c, 0x74b1d29a,
     0xead54739, 0x9dd277af, 0x04db2615, 0x73dc1683, 0xe3630b12, 0x94643b84,
     0x0d6d6a3e, 0x7a6a5aa8, 0xe40ecf0b, 0x9309ff9d, 0x0a00ae27, 0x7d079eb1,
     0xf00f9344, 0x8708a3d2, 0x1e01f268, 0x6906c2fe, 0xf762575d, 0x806567cb,
     0x196c3671, 0x6e6b06e7, 0xfed41b76, 0x89d32be0, 0x10da7a5a, 0x67dd4acc,
     0xf9b9df6f, 0x8ebeeff9, 0x17b7be43, 0x60b08ed5, 0xd6d6a3e8, 0xa1d1937e,
     0x38d8c2c4, 0x4fdff252, 0xd1bb67f1, 0xa6bc5767, 0x3fb506dd, 0x48b2364b,
     0xd80d2bda, 0xaf0a1b4c, 0x36034af6, 0x41047a60, 0xdf60efc3, 0xa867df55,
     0x316e8eef, 0x4669be79, 0xcb61b38c, 0xbc66831a, 0x256fd2a0, 0x5268e236,
     0xcc0c7795, 0xbb0b4703, 0x220216b9, 0x5505262f, 0xc5ba3bbe, 0xb2bd0b28,
     0x2bb45a92, 0x5cb36a04, 0xc2d7ffa7, 0xb5d0cf31, 0x2cd99e8b, 0x5bdeae1d,
     0x9b64c2b0, 0xec63f226, 0x756aa39c, 0x026d930a, 0x9c0906a9, 0xeb0e363f,
     0x72076785, 0x05005713, 0x95bf4a82, 0xe2b87a14, 0x7bb12bae, 0x0cb61b38,
     0x92d28e9b, 0xe5d5be0d, 0x7cdcefb7, 0x0bdbdf21, 0x86d3d2d4, 0xf1d4e242,
     0x68ddb3f8, 0x1fda836e, 0x81be16cd, 0xf6b9265b, 0x6fb077e1, 0x18b74777,
     0x88085ae6, 0xff0f6a70, 0x66063bca, 0x11010b5c, 0x8f659eff, 0xf862ae69,
     0x616bffd3, 0x166ccf45, 0xa00ae278, 0xd70dd2ee, 0x4e048354, 0x3903b3c2,
     0xa7672661, 0xd06016f7, 0x4969474d, 0x3e6e77db, 0xaed16a4a, 0xd9d65adc,
     0x40df0b66, 0x37d83bf0, 0xa9bcae53, 0xdebb9ec5, 0x47b2cf7f, 0x30b5ffe9,
     0xbdbdf21c, 0xcabac28a, 0x53b39330, 0x24b4a3a6, 0xbad03605, 0xcdd70693,
     0x54de5729, 0x23d967bf, 0xb3667a2e, 0xc4614ab8, 0x5d681b02, 0x2a6f2b94,
     0xb40bbe37, 0xc30c8ea1, 0x5a05df1b, 0x2d02ef8d]"

definition DO_CRC :: "u32 \<Rightarrow> u32 \<Rightarrow> u32" where
  "DO_CRC crc x = crc32table_le ! unat ((crc XOR x) AND 255) XOR drop_bit 8 crc"

text \<open>
  The three loops of \<open>crc32_le\<close>: bytes up to a four-byte boundary of the address \<open>pa\<close>, then whole
  32-bit little-endian words, then the last bytes.
\<close>

fun crc_align :: "nat \<Rightarrow> u32 \<Rightarrow> byte list \<Rightarrow> u32 \<times> byte list" where
  "crc_align pa crc [] = (crc, [])"
| "crc_align pa crc (x # xs) =
     (if pa mod 4 \<noteq> 0 then crc_align (Suc pa) (DO_CRC crc (ucast x)) xs else (crc, x # xs))"

definition le32 :: "byte \<Rightarrow> byte \<Rightarrow> byte \<Rightarrow> byte \<Rightarrow> u32" where
  "le32 a b c d = ucast a OR push_bit 8 (ucast b) OR push_bit 16 (ucast c) OR push_bit 24 (ucast d)"

fun crc_words :: "u32 \<Rightarrow> byte list \<Rightarrow> u32 \<times> byte list" where
  "crc_words crc (a # b # c # d # xs) =
     crc_words (DO_CRC (DO_CRC (DO_CRC (DO_CRC (crc XOR le32 a b c d) 0) 0) 0) 0) xs"
| "crc_words crc xs = (crc, xs)"

fun crc_bytes :: "u32 \<Rightarrow> byte list \<Rightarrow> u32" where
  "crc_bytes crc [] = crc"
| "crc_bytes crc (x # xs) = crc_bytes (DO_CRC crc (ucast x)) xs"

definition crc32_le :: "nat \<Rightarrow> u32 \<Rightarrow> byte list \<Rightarrow> u32" where
  "crc32_le pa crc p =
     (case crc_align pa crc p of (crc, p) \<Rightarrow>
      case crc_words crc p of (crc, p) \<Rightarrow> crc_bytes crc p)"

section \<open>The bitwise reference\<close>

text \<open>
  The reflected polynomial of IEEE 802.3.  One shift step, and eight of them for a byte; the table
  entry of \<open>i\<close> is the result of eight steps from \<open>i\<close>.
\<close>

definition crc_step :: "u32 \<Rightarrow> u32" where
  "crc_step c = (if bit c 0 then drop_bit 1 c XOR 0xEDB88320 else drop_bit 1 c)"

definition crc_step8 :: "u32 \<Rightarrow> u32" where
  "crc_step8 = crc_step ^^ 8"

definition crc_reference :: "u32 \<Rightarrow> byte list \<Rightarrow> u32" where
  "crc_reference = foldl (\<lambda>c x. crc_step8 (c XOR ucast x))"

lemma crc_step8_unfold:
  "crc_step8 c = crc_step (crc_step (crc_step (crc_step (crc_step (crc_step (crc_step (crc_step c)))))))"
  by (simp add: crc_step8_def numeral_eq_Suc)

fun table_from :: "nat \<Rightarrow> u32 \<Rightarrow> u32 list" where
  "table_from 0 w = []"
| "table_from (Suc n) w = crc_step8 w # table_from n (w + 1)"

lemma table_from_numeral:
  "table_from (numeral v) w = crc_step8 w # table_from (pred_numeral v) (w + 1)"
  by (simp add: numeral_eq_Suc)

lemma nth_table_from: "i < n \<Longrightarrow> table_from n w ! i = crc_step8 (w + of_nat i)"
  by (induction n arbitrary: w i) (auto simp: nth_Cons ac_simps split: nat.splits)

lemma crc_table: "crc32table_le = table_from 256 0"
  unfolding crc32table_le_def
  by (simp add: table_from_numeral crc_step8_unfold crc_step_def)

section \<open>Linearity and injectivity\<close>

lemma crc_step_xor: "crc_step (a XOR b) = crc_step a XOR crc_step b"
  by (auto simp: crc_step_def bit_xor_iff drop_bit_xor xor.assoc xor.left_commute xor.commute)

lemma crc_step_even: "\<not> bit c 0 \<Longrightarrow> crc_step c = drop_bit 1 c"
  by (simp add: crc_step_def)

lemma crc_step_0: "crc_step c = 0 \<Longrightarrow> c = 0"
proof -
  assume 0: "crc_step c = 0"
  have "\<not> bit (drop_bit 1 c) 31" by (auto simp: bit_simps dest: bit_imp_le_length)
  then have "bit (drop_bit 1 c XOR 0xEDB88320) 31" by (simp add: bit_xor_iff)
  with 0 have even: "\<not> bit c 0" by (auto simp: crc_step_def simp del: bit_0)
  with 0 have d: "drop_bit 1 c = 0" by (simp add: crc_step_def)
  show "c = 0"
  proof (rule bit_word_eqI)
    fix n show "bit c n = bit (0 :: u32) n"
    proof (cases n)
      case 0
      with even show ?thesis by simp
    next
      case (Suc m)
      have "bit (drop_bit 1 c) m = bit (0 :: u32) m" by (simp only: d)
      with Suc show ?thesis by (simp add: bit_drop_bit_eq)
    qed
  qed
qed

lemma crc_step_inj: "crc_step a = crc_step b \<Longrightarrow> a = b"
proof -
  assume "crc_step a = crc_step b"
  then have "crc_step (a XOR b) = 0" by (simp add: crc_step_xor)
  then have "a XOR b = 0" by (rule crc_step_0)
  then show "a = b" by (simp add: xor_eq_0_iff)
qed

lemma crc_step8_xor: "crc_step8 (a XOR b) = crc_step8 a XOR crc_step8 b"
  by (simp add: crc_step8_unfold crc_step_xor)

lemma crc_step8_inj: "crc_step8 a = crc_step8 b \<Longrightarrow> a = b"
  by (auto simp: crc_step8_unfold dest!: crc_step_inj)

lemma crc_step8_high: "take_bit 8 c = 0 \<Longrightarrow> crc_step8 c = drop_bit 8 c"
proof -
  assume c: "take_bit 8 c = 0"
  have low: "\<not> bit c k" if "k < 8" for k
    using that c by (metis bit_0_eq bit_take_bit_iff bot_apply bot_bool_def)
  have "crc_step (drop_bit k c) = drop_bit (Suc k) c" if "k < 8" for k
    using low [OF that] by (simp add: crc_step_def bit_drop_bit_eq)
  from this [of 0] this [of 1] this [of 2] this [of 3] this [of 4] this [of 5] this [of 6] this [of 7]
  show ?thesis by (simp add: crc_step8_unfold numeral_eq_Suc)
qed

lemma DO_CRC_eq: "DO_CRC c x = crc_step8 ((c XOR x) AND 255) XOR drop_bit 8 c"
proof -
  let ?i = "(c XOR x) AND 255"
  have "?i \<le> 255" by (rule word_and_le1)
  then have "unat ?i < 256" by (simp add: word_le_nat_alt)
  then have "crc32table_le ! unat ?i = crc_step8 ?i"
    by (simp add: crc_table nth_table_from)
  then show ?thesis by (simp add: DO_CRC_def)
qed

lemma DO_CRC_step8: "DO_CRC c (ucast (x :: byte)) = crc_step8 (c XOR ucast x)"
proof -
  let ?v = "c XOR ucast x :: u32"
  have m: "?v AND 255 = take_bit 8 ?v" by (simp add: take_bit_eq_mask mask_eq_exp_minus_1)
  have split: "?v = take_bit 8 ?v XOR push_bit 8 (drop_bit 8 ?v)"
  proof (rule bit_word_eqI)
    fix n show "bit ?v n = bit (take_bit 8 ?v XOR push_bit 8 (drop_bit 8 ?v)) n" if "n < LENGTH(32)"
      using that by (cases "n < 8") (auto simp: bit_simps)
  qed
  have "drop_bit 8 (ucast x :: u32) = 0"
    by (rule bit_word_eqI) (auto simp: bit_simps dest: bit_imp_le_length)
  then have high: "drop_bit 8 ?v = drop_bit 8 c" by (simp add: drop_bit_xor)
  have "take_bit 8 (push_bit 8 (drop_bit 8 ?v)) = 0"
    by (rule bit_word_eqI) (auto simp: bit_simps)
  then have "crc_step8 (push_bit 8 (drop_bit 8 ?v)) = drop_bit 8 (push_bit 8 (drop_bit 8 ?v))"
    by (rule crc_step8_high)
  also have "\<dots> = drop_bit 8 ?v"
    by (rule bit_word_eqI) (auto simp: bit_simps dest: bit_imp_le_length)
  finally have "crc_step8 ?v = crc_step8 (take_bit 8 ?v) XOR drop_bit 8 c"
    using split high crc_step8_xor by metis
  then show ?thesis by (simp add: DO_CRC_eq m)
qed

section \<open>Correctness of the optimised loop\<close>

lemma crc_bytes_eq: "crc_bytes c p = crc_reference c p"
  by (induction p arbitrary: c) (auto simp: crc_reference_def DO_CRC_step8)

lemma crc_reference_append: "crc_reference c (p @ q) = crc_reference (crc_reference c p) q"
  by (simp add: crc_reference_def)

lemma crc_align_eq:
  "crc_align pa c p = (c', p') \<Longrightarrow> crc_reference c p = crc_reference c' p'"
  by (induction pa c p rule: crc_align.induct)
     (auto simp: crc_reference_def DO_CRC_step8 split: if_splits)

text \<open>A whole word is folded in at once and shifted out by four steps on the value 0.\<close>

lemma DO_CRC_word: "DO_CRC (c XOR w) 0 = DO_CRC c (w AND 255) XOR drop_bit 8 w"
proof -
  have "(c XOR w) AND 255 = (c XOR (w AND 255)) AND 255"
    by (rule bit_word_eqI) (auto simp: bit_and_iff bit_xor_iff)
  then show ?thesis by (simp add: DO_CRC_eq drop_bit_xor xor.assoc)
qed

lemma le32_shifts:
  "le32 a b c d AND 255 = ucast a" "drop_bit 8 (le32 a b c d) AND 255 = ucast b"
  "drop_bit 16 (le32 a b c d) AND 255 = ucast c" "drop_bit 24 (le32 a b c d) AND 255 = ucast d"
  "drop_bit 32 (le32 a b c d) = 0"
proof -
  have m: "x AND 255 = take_bit 8 x" for x :: u32
    by (simp add: take_bit_eq_mask mask_eq_exp_minus_1)
  show "le32 a b c d AND 255 = ucast a" "drop_bit 8 (le32 a b c d) AND 255 = ucast b"
    "drop_bit 16 (le32 a b c d) AND 255 = ucast c" "drop_bit 24 (le32 a b c d) AND 255 = ucast d"
    "drop_bit 32 (le32 a b c d) = 0"
    unfolding m le32_def
    by (rule bit_word_eqI; auto simp: bit_simps dest: bit_imp_le_length)+
qed

lemma four_steps:
  "DO_CRC (DO_CRC (DO_CRC (DO_CRC (crc XOR le32 a b c d) 0) 0) 0) 0 = crc_reference crc [a, b, c, d]"
  by (simp add: DO_CRC_word le32_shifts DO_CRC_step8 crc_reference_def)

lemma crc_words_eq: "crc_words c p = (c', p') \<Longrightarrow> crc_reference c p = crc_reference c' p'"
proof (induction c p arbitrary: c' p' rule: crc_words.induct)
  case (1 crc a b c d xs)
  have "crc_reference crc (a # b # c # d # xs) = crc_reference (crc_reference crc [a, b, c, d]) xs"
    using crc_reference_append [of crc "[a, b, c, d]" xs] by simp
  with 1 show ?case by (simp add: four_steps)
qed auto

lemma crc32_le_eq: "crc32_le pa crc p = crc_reference crc p"
proof -
  obtain c1 p1 where 1: "crc_align pa crc p = (c1, p1)" by (cases "crc_align pa crc p")
  obtain c2 p2 where 2: "crc_words c1 p1 = (c2, p2)" by (cases "crc_words c1 p1")
  show ?thesis
    unfolding crc32_le_def 1 2 prod.case crc_bytes_eq crc_align_eq [OF 1] crc_words_eq [OF 2] ..
qed

lemma crc_reference_inj_seed: "crc_reference c p = crc_reference c' p \<Longrightarrow> c = c'"
proof (induction p arbitrary: c c')
  case (Cons x p)
  have "crc_reference (crc_step8 (c XOR ucast x)) p = crc_reference (crc_step8 (c' XOR ucast x)) p"
    using Cons.prems by (simp add: crc_reference_def)
  then have "crc_step8 (c XOR ucast x) = crc_step8 (c' XOR ucast x)" by (rule Cons.IH)
  then have "c XOR ucast x = c' XOR ucast x" by (rule crc_step8_inj)
  then show ?case by (simp add: xor.commute [of _ "ucast x"] xor_cancel_left)
qed (simp add: crc_reference_def)

lemma crc_reference_detects:
  assumes "i < length p" and "x \<noteq> p ! i"
  shows "crc_reference c (p[i := x]) \<noteq> crc_reference c p"
proof
  let ?s = "crc_reference c (take i p)"
  assume "crc_reference c (p[i := x]) = crc_reference c p"
  then have "crc_reference c (take i p @ x # drop (Suc i) p) = crc_reference c (take i p @ p ! i # drop (Suc i) p)"
    using assms(1) by (simp add: upd_conv_take_nth_drop id_take_nth_drop [symmetric])
  then have "crc_reference (crc_step8 (?s XOR ucast x)) (drop (Suc i) p)
      = crc_reference (crc_step8 (?s XOR ucast (p ! i))) (drop (Suc i) p)"
    by (simp only: crc_reference_append) (simp add: crc_reference_def)
  then have "?s XOR ucast x = ?s XOR ucast (p ! i)"
    by (rule crc_step8_inj [OF crc_reference_inj_seed])
  then have eq: "ucast x = (ucast (p ! i) :: u32)" by (simp only: xor_cancel_left)
  have "x = p ! i"
  proof (rule bit_word_eqI)
    fix n assume "n < LENGTH(8)"
    moreover have "bit (ucast x :: u32) n = bit (ucast (p ! i) :: u32) n" by (simp only: eq)
    ultimately show "bit x n = bit (p ! i) n" by (simp add: bit_ucast_iff)
  qed
  with assms(2) show False by simp
qed

end
