(* ===== verification/Blockcheck.thy ===== *)
theory Blockcheck
  imports Hamming Crc32
begin

text \<open>
  The check record of a metadata block: \<open>ocfs2_block_check_compute\<close>,
  \<open>ocfs2_block_check_validate\<close> and their guarded forms of \<open>libocfs2/blockcheck.c\<close>.  The record
  \<open>struct ocfs2_block_check\<close> lies inside the block, as the comments of the source ask, so the
  pointer \<open>bc\<close> is an offset into the block and the stores to it change the block that is summed.
\<close>

section \<open>The model\<close>

definition le32_bytes :: "u32 \<Rightarrow> byte list" where
  "le32_bytes w = [ucast w, ucast (drop_bit 8 w), ucast (drop_bit 16 w), ucast (drop_bit 24 w)]"

definition le16_bytes :: "u16 \<Rightarrow> byte list" where
  "le16_bytes w = [ucast w, ucast (drop_bit 8 w)]"

definition get_le32 :: "byte list \<Rightarrow> nat \<Rightarrow> u32 option" where
  "get_le32 buf off =
     do { bs \<leftarrow> read_bytes buf off 4; Some (le32 (bs ! 0) (bs ! 1) (bs ! 2) (bs ! 3)) }"

definition get_le16 :: "byte list \<Rightarrow> nat \<Rightarrow> u16 option" where
  "get_le16 buf off =
     do { bs \<leftarrow> read_bytes buf off 2; Some (ucast (bs ! 0) OR push_bit 8 (ucast (bs ! 1))) }"

text \<open>\<open>struct ocfs2_block_check\<close>: the CRC at offset 0, the ECC at offset 4, 8 bytes in all.\<close>

definition put_block_check :: "byte list \<Rightarrow> nat \<Rightarrow> u32 \<Rightarrow> u16 \<Rightarrow> byte list option" where
  "put_block_check data bc crc ecc =
     do { data \<leftarrow> write_bytes data bc (le32_bytes crc);
          write_bytes data (bc + 4) (le16_bytes ecc) }"

definition ocfs2_block_check_compute :: "nat \<Rightarrow> byte list \<Rightarrow> nat \<Rightarrow> byte list option" where
  "ocfs2_block_check_compute pa data bc =
     do { data \<leftarrow> write_bytes data bc (replicate 8 0);
          let crc = crc32_le pa (NOT 0) data;
          ecc \<leftarrow> ocfs2_hamming_encode_block data (length data);
          put_block_check data bc crc (ucast ecc) }"

definition ocfs2_block_check_validate ::
    "nat \<Rightarrow> byte list \<Rightarrow> nat \<Rightarrow> (unit result \<times> byte list) option" where
  "ocfs2_block_check_validate pa data bc =
     do { bc_crc32e \<leftarrow> get_le32 data bc;
          bc_ecc \<leftarrow> get_le16 data (bc + 4);
          data \<leftarrow> write_bytes data bc (replicate 8 0);
          (err, data) \<leftarrow>
            (if crc32_le pa (NOT 0) data = bc_crc32e then Some (Inr (), data)
             else do {
               ecc \<leftarrow> ocfs2_hamming_encode_block data (length data);
               data \<leftarrow> ocfs2_hamming_fix_block data (length data) (ecc XOR ucast bc_ecc);
               Some (if crc32_le pa (NOT 0) data = bc_crc32e then Inr () else Inl OCFS2_ET_IO, data) });
          data \<leftarrow> put_block_check data bc bc_crc32e bc_ecc;
          Some (err, data) }"

text \<open>The entry points look at \<open>s_feature_incompat\<close> first.\<close>

definition OCFS2_FEATURE_INCOMPAT_META_ECC :: u32 where
  "OCFS2_FEATURE_INCOMPAT_META_ECC = 0x0800"

definition ocfs2_meta_ecc :: "u32 \<Rightarrow> bool" where
  "ocfs2_meta_ecc s_feature_incompat \<longleftrightarrow> s_feature_incompat AND OCFS2_FEATURE_INCOMPAT_META_ECC \<noteq> 0"

definition ocfs2_compute_meta_ecc :: "u32 \<Rightarrow> nat \<Rightarrow> byte list \<Rightarrow> nat \<Rightarrow> byte list option" where
  "ocfs2_compute_meta_ecc incompat pa data bc =
     (if ocfs2_meta_ecc incompat then ocfs2_block_check_compute pa data bc else Some data)"

definition ocfs2_validate_meta_ecc ::
    "u32 \<Rightarrow> nat \<Rightarrow> byte list \<Rightarrow> nat \<Rightarrow> (unit result \<times> byte list) option" where
  "ocfs2_validate_meta_ecc incompat pa data bc =
     (if ocfs2_meta_ecc incompat then ocfs2_block_check_validate pa data bc else Some (Inr (), data))"

section \<open>The stored record\<close>

lemma le32_le32_bytes: "le32 (ucast w) (ucast (drop_bit 8 w)) (ucast (drop_bit 16 w)) (ucast (drop_bit 24 w)) = w"
  unfolding le32_def
proof (rule bit_word_eqI)
  fix n assume "n < LENGTH(32)"
  then have "n < 8 \<or> 8 \<le> n \<and> n < 16 \<or> 16 \<le> n \<and> n < 24 \<or> 24 \<le> n \<and> n < 32" by auto
  then show "bit (ucast (ucast w :: byte) OR push_bit 8 (ucast (ucast (drop_bit 8 w) :: byte)) OR
      push_bit 16 (ucast (ucast (drop_bit 16 w) :: byte)) OR
      push_bit 24 (ucast (ucast (drop_bit 24 w) :: byte)) :: u32) n = bit w n"
    by (elim disjE) (auto simp: bit_simps)
qed

lemma le16_le16_bytes: "ucast (ucast w :: byte) OR push_bit 8 (ucast (ucast (drop_bit 8 w) :: byte)) = (w :: u16)"
proof (rule bit_word_eqI)
  fix n assume "n < LENGTH(16)"
  then have "n < 8 \<or> 8 \<le> n \<and> n < 16" by auto
  then show "bit (ucast (ucast w :: byte) OR push_bit 8 (ucast (ucast (drop_bit 8 w) :: byte)) :: u16) n = bit w n"
    by (elim disjE) (auto simp: bit_simps)
qed

text \<open>The block with its check record blanked, and with a given record stored.\<close>

definition zeroed :: "byte list \<Rightarrow> nat \<Rightarrow> byte list" where
  "zeroed data bc = patch data bc (replicate 8 0)"

definition with_check :: "byte list \<Rightarrow> nat \<Rightarrow> u32 \<Rightarrow> u16 \<Rightarrow> byte list" where
  "with_check data bc crc ecc = patch (patch data bc (le32_bytes crc)) (bc + 4) (le16_bytes ecc)"

lemma length_le_bytes [simp]: "length (le32_bytes c) = 4" "length (le16_bytes e) = 2"
  by (simp_all add: le32_bytes_def le16_bytes_def)

lemma put_block_check_eq:
  "bc + 8 \<le> length data \<Longrightarrow> put_block_check data bc crc ecc = Some (with_check data bc crc ecc)"
  by (simp add: put_block_check_def with_check_def buf_simps)

lemma length_zeroed [simp]: "bc + 8 \<le> length data \<Longrightarrow> length (zeroed data bc) = length data"
  by (simp add: zeroed_def)

lemma length_with_check [simp]: "bc + 8 \<le> length data \<Longrightarrow> length (with_check data bc c e) = length data"
  by (simp add: with_check_def)

lemma nth_zeroed:
  "bc + 8 \<le> length data \<Longrightarrow> i < length data \<Longrightarrow>
   zeroed data bc ! i = (if bc \<le> i \<and> i < bc + 8 then 0 else data ! i)"
  by (auto simp: zeroed_def nth_patch)

lemma nth_with_check:
  "bc + 8 \<le> length data \<Longrightarrow> i < length data \<Longrightarrow>
   with_check data bc c e ! i =
     (if bc + 4 \<le> i \<and> i < bc + 6 then le16_bytes e ! (i - bc - 4)
      else if bc \<le> i \<and> i < bc + 4 then le32_bytes c ! (i - bc) else data ! i)"
  by (auto simp: with_check_def nth_patch)

lemma zeroed_with_check [simp]:
  "bc + 8 \<le> length data \<Longrightarrow> zeroed (with_check data bc c e) bc = zeroed data bc"
  by (rule nth_equalityI) (auto simp: nth_zeroed nth_with_check)

lemma zeroed_idem [simp]: "bc + 8 \<le> length data \<Longrightarrow> zeroed (zeroed data bc) bc = zeroed data bc"
  by (rule nth_equalityI) (auto simp: nth_zeroed)

lemma upt_4: "[0..<4] = [0, 1, 2, 3 :: nat]" and upt_2: "[0..<2] = [0, 1 :: nat]"
  by (simp_all add: upt_rec_numeral numeral_eq_Suc)

lemma get_le32_nth:
  "off + 4 \<le> length buf \<Longrightarrow>
   get_le32 buf off = Some (le32 (buf ! off) (buf ! (off + 1)) (buf ! (off + 2)) (buf ! (off + 3)))"
  by (simp add: get_le32_def buf_simps upt_4)

lemma get_le16_nth:
  "off + 2 \<le> length buf \<Longrightarrow>
   get_le16 buf off = Some (ucast (buf ! off) OR push_bit 8 (ucast (buf ! (off + 1))))"
  by (simp add: get_le16_def buf_simps upt_2)

lemma get_with_check:
  assumes "bc + 8 \<le> length data"
  shows "get_le32 (with_check data bc c e) bc = Some c"
    and "get_le16 (with_check data bc c e) (bc + 4) = Some e"
  using assms by (simp_all add: get_le32_nth get_le16_nth nth_with_check le32_bytes_def le32_le32_bytes
      le16_bytes_def le16_le16_bytes)

lemma with_check_zeroed_self:
  assumes "bc + 8 \<le> length data"
  shows "with_check (zeroed (with_check (zeroed data bc) bc c e) bc) bc c' e' = with_check (zeroed data bc) bc c' e'"
  using assms by simp

lemma le32_bytes_le32: "le32_bytes (le32 a b c d) = [a, b, c, d]"
proof -
  have "ucast (le32 a b c d) = a" "ucast (drop_bit 8 (le32 a b c d)) = b"
    "ucast (drop_bit 16 (le32 a b c d)) = c" "ucast (drop_bit 24 (le32 a b c d)) = d"
    by (rule bit_word_eqI; auto simp: le32_def bit_simps dest: bit_imp_le_length)+
  then show ?thesis by (simp add: le32_bytes_def)
qed

lemma list_4: "length xs = 4 \<Longrightarrow> xs = [xs ! 0, xs ! 1, xs ! 2, xs ! 3]"
  by (auto simp: numeral_eq_Suc length_Suc_conv)

lemma patch_with_check:
  assumes "bc + 8 \<le> length data"
  shows "patch (with_check data bc c e) bc (le32_bytes c') = with_check data bc c' e"
  using assms by (intro nth_equalityI) (auto simp: nth_patch nth_with_check)

lemma take_drop_with_check:
  assumes "bc + 8 \<le> length data"
  shows "take 4 (drop bc (with_check data bc c e)) = le32_bytes c"
  using assms by (intro nth_equalityI) (auto simp: nth_with_check)

section \<open>What the two functions compute\<close>

abbreviation block_crc :: "byte list \<Rightarrow> u32" where
  "block_crc data \<equiv> crc_reference (NOT 0) data"

abbreviation block_ecc :: "byte list \<Rightarrow> u32" where
  "block_ecc data \<equiv> xsum (buf_bit data) 0 [0..<8 * length data]"

text \<open>The library's largest block, \<open>OCFS2_MAX_BLOCKSIZE\<close>.\<close>

abbreviation "max_blocksize \<equiv> (4096 :: nat)"

lemma encode_block_eq:
  "0 < length data \<Longrightarrow> length data \<le> max_blocksize \<Longrightarrow>
   ocfs2_hamming_encode_block data (length data) = Some (block_ecc data)"
  using ocfs2_hamming_encode_eq [of "8 * length data" data 0 0]
  by (simp add: ocfs2_hamming_encode_block_def mult.commute)

lemma compute_eq:
  assumes "bc + 8 \<le> length data" and "length data \<le> max_blocksize"
  shows "ocfs2_block_check_compute pa data bc =
    Some (with_check (zeroed data bc) bc (block_crc (zeroed data bc)) (ucast (block_ecc (zeroed data bc))))"
proof -
  have w: "write_bytes data bc (replicate 8 0) = Some (zeroed data bc)"
    using assms(1) by (simp add: zeroed_def buf_simps)
  have "0 < length data" using assms by linarith
  then have enc: "ocfs2_hamming_encode_block (zeroed data bc) (length data) = Some (block_ecc (zeroed data bc))"
    using assms encode_block_eq [of "zeroed data bc"] by simp
  show ?thesis using assms
    by (simp add: ocfs2_block_check_compute_def w enc [simplified] crc32_le_eq put_block_check_eq)
qed

lemma validate_good:
  assumes fits: "bc + 8 \<le> length data"
    and get: "get_le32 data bc = Some c" "get_le16 data (bc + 4) = Some e"
    and crc: "block_crc (zeroed data bc) = c"
  shows "ocfs2_block_check_validate pa data bc = Some (Inr (), with_check (zeroed data bc) bc c e)"
proof -
  have w: "write_bytes data bc (replicate 8 0) = Some (zeroed data bc)"
    using fits by (simp add: zeroed_def buf_simps)
  show ?thesis using fits crc
    by (simp add: ocfs2_block_check_validate_def get w crc32_le_eq put_block_check_eq)
qed

lemma validate_bad:
  assumes fits: "bc + 8 \<le> length data" and max: "length data \<le> max_blocksize"
    and get: "get_le32 data bc = Some c" "get_le16 data (bc + 4) = Some e"
    and crc: "block_crc (zeroed data bc) \<noteq> c"
    and fix_it: "ocfs2_hamming_fix (zeroed data bc) (8 * length data) 0
                   (block_ecc (zeroed data bc) XOR ucast e) = Some data'"
    and len: "length data' = length data"
  shows "ocfs2_block_check_validate pa data bc =
    Some (if block_crc data' = c then Inr () else Inl OCFS2_ET_IO, with_check data' bc c e)"
proof -
  have w: "write_bytes data bc (replicate 8 0) = Some (zeroed data bc)"
    using fits by (simp add: zeroed_def buf_simps)
  have "0 < length data" using fits by linarith
  then have enc: "ocfs2_hamming_encode_block (zeroed data bc) (length data) = Some (block_ecc (zeroed data bc))"
    using fits max encode_block_eq [of "zeroed data bc"] by simp
  have "ocfs2_hamming_fix_block (zeroed data bc) (length data) (block_ecc (zeroed data bc) XOR ucast e) = Some data'"
    using fix_it by (simp add: ocfs2_hamming_fix_block_def mult.commute)
  then show ?thesis using fits crc enc len
    by (simp add: ocfs2_block_check_validate_def get w crc32_le_eq put_block_check_eq)
qed

subsection \<open>The parity vector fits in 16 bits\<close>

lemma xsum_bound:
  assumes "\<forall>i\<in>set xs. code_pos (nr + i) < 2 ^ m"
  shows "take_bit m (xsum P nr xs) = xsum P nr xs"
  using assms
proof (induction xs)
  case (Cons i xs)
  have "take_bit m (of_nat (code_pos (nr + i)) :: u32) = of_nat (take_bit m (code_pos (nr + i)))"
    by (simp add: of_nat_take_bit)
  also have "take_bit m (code_pos (nr + i)) = code_pos (nr + i)"
    using Cons.prems by (simp add: take_bit_nat_eq_self_iff)
  finally show ?case using Cons by (simp add: take_bit_xor)
qed simp

lemma code_pos_16: "i < 2 ^ 15 \<Longrightarrow> code_pos i < 2 ^ 16"
  using parity_below_le [of i 16] by (simp add: code_pos_def)

lemma block_ecc_take:
  assumes "length data \<le> max_blocksize"
  shows "take_bit 16 (block_ecc data) = block_ecc data"
proof -
  have "code_pos (0 + i) < 2 ^ 16" if "i < 8 * length data" for i
    using code_pos_16 [of i] that assms by simp
  then show ?thesis by (intro xsum_bound) simp
qed

lemma block_ecc_16:
  assumes "length data \<le> max_blocksize"
  shows "ucast (ucast (block_ecc data) :: u16) = block_ecc data"
proof -
  have "ucast (ucast w :: u16) = take_bit 16 w" for w :: u32
    by (rule bit_word_eqI) (auto simp: bit_simps)
  then show ?thesis using block_ecc_take [OF assms] by simp
qed

subsection \<open>One flipped bit\<close>

lemma flip_is_update:
  assumes "i < 8 * length data"
  obtains x where "flip_bit_at data i = data[i div 8 := x]" and "x \<noteq> data ! (i div 8)"
proof -
  have i: "i div 8 < length data" using assms by simp
  define x where "x = flip_bit_at data i ! (i div 8)"
  have 1: "flip_bit_at data i = data[i div 8 := x]"
    using i by (simp add: x_def put_bit_def)
  have "bit x (i mod 8) \<noteq> bit (data ! (i div 8)) (i mod 8)"
    using buf_bit_put_bit [OF assms, of "\<not> buf_bit data i" i] unfolding x_def buf_bit_def by simp
  then have "x \<noteq> data ! (i div 8)" by auto
  with 1 show ?thesis by (rule that)
qed

lemma crc_detects_flip:
  assumes "i < 8 * length data"
  shows "block_crc (flip_bit_at data i) \<noteq> block_crc data"
  using flip_is_update [OF assms] crc_reference_detects [of "i div 8" data] assms by (metis less_mult_imp_div_less mult.commute)

lemma flip_flip:
  assumes "i < 8 * length data"
  shows "flip_bit_at (flip_bit_at data i) i = data"
  using assms by (intro buf_eqI) (auto simp: buf_bit_put_bit)

lemma zeroed_update:
  assumes "bc + 8 \<le> length data" and "j < length data" and "\<not> (bc \<le> j \<and> j < bc + 8)"
  shows "zeroed (data[j := x]) bc = (zeroed data bc)[j := x]"
  using assms by (intro nth_equalityI) (auto simp: nth_zeroed nth_list_update)

lemma zeroed_flip:
  assumes fits: "bc + 8 \<le> length data" and i: "i < 8 * length data" and out: "\<not> (bc \<le> i div 8 \<and> i div 8 < bc + 8)"
  shows "zeroed (flip_bit_at data i) bc = flip_bit_at (zeroed data bc) i"
proof -
  define x where "x = flip_bit_at data i ! (i div 8)"
  have "zeroed data bc ! (i div 8) = data ! (i div 8)"
    using fits i out by (auto simp: nth_zeroed)
  then have 1: "flip_bit_at (zeroed data bc) i = (zeroed data bc)[i div 8 := x]"
    using i by (simp add: put_bit_def buf_bit_def x_def)
  have 2: "flip_bit_at data i = data[i div 8 := x]"
    using i by (simp add: put_bit_def x_def)
  show ?thesis unfolding 1 2 using fits i out by (intro zeroed_update) simp_all
qed

lemma get_flip:
  assumes fits: "bc + 8 \<le> length data" and out: "\<not> (bc \<le> i div 8 \<and> i div 8 < bc + 8)"
  shows "get_le32 (flip_bit_at data i) bc = get_le32 data bc"
    and "get_le16 (flip_bit_at data i) (bc + 4) = get_le16 data (bc + 4)"
  using assms by (auto simp: get_le32_nth get_le16_nth put_bit_def nth_list_update)

lemma syndrome_of_flip:
  assumes "i < 8 * length data"
  shows "block_ecc (flip_bit_at data i) XOR block_ecc data = of_nat (code_pos i)"
  using assms xsum_differ [of "[0..<8 * length data]" i "buf_bit (flip_bit_at data i)" "buf_bit data" 0]
  by (simp add: buf_bit_put_bit)

lemma fix_undoes_flip:
  assumes "i < 8 * length data" and "length data \<le> max_blocksize"
  shows "ocfs2_hamming_fix (flip_bit_at data i) (8 * length data) 0
           (block_ecc (flip_bit_at data i) XOR ucast (ucast (block_ecc data) :: u16)) = Some data"
  using ocfs2_hamming_fix_hit [of i "8 * length data" "flip_bit_at data i" 0] assms
  by (simp add: block_ecc_16 syndrome_of_flip [simplified] flip_flip)

section \<open>Properties\<close>

text \<open>
  C1.  A block whose check record was computed validates, with every byte unchanged, after any
  single bit outside the record has been flipped: the error is detected and undone.
\<close>

theorem validate_corrects_single_bit:
  assumes "bc + 8 \<le> length data" and "length data \<le> 4096"
    and "ocfs2_block_check_compute pa data bc = Some block"
    and "i < 8 * length data" and "\<not> (bc \<le> i div 8 \<and> i div 8 < bc + 8)"
  shows "ocfs2_block_check_validate pa' (put_bit block i (\<not> buf_bit block i)) bc = Some (Inr (), block)"
proof -
  define z where "z = zeroed data bc"
  have len: "length z = length data" using assms(1) by (simp add: z_def)
  have block: "block = with_check z bc (block_crc z) (ucast (block_ecc z))"
    using compute_eq [OF assms(1,2)] assms(3) by (simp add: z_def)
  have fits: "bc + 8 \<le> length block" "length (flip_bit_at block i) = length data"
    using assms(1) len by (simp_all add: block)
  have z: "zeroed (flip_bit_at block i) bc = flip_bit_at z i"
    using assms(1,4,5) len by (subst zeroed_flip) (simp_all add: block, simp add: z_def)
  have get: "get_le32 (flip_bit_at block i) bc = Some (block_crc z)"
    "get_le16 (flip_bit_at block i) (bc + 4) = Some (ucast (block_ecc z))"
    using assms(1,5) len by (simp_all add: get_flip fits block get_with_check)
  have "ocfs2_block_check_validate pa' (flip_bit_at block i) bc =
      Some (if block_crc z = block_crc z then Inr () else Inl OCFS2_ET_IO, with_check z bc (block_crc z) (ucast (block_ecc z)))"
    using assms fits len crc_detects_flip [of i z] fix_undoes_flip [of i z]
    by (intro validate_bad [OF _ _ get]) (simp_all add: z)
  then show ?thesis by (simp add: block)
qed

theorem validate_corrects_single_bit_witness:
  "\<exists>block. ocfs2_block_check_compute 0 (replicate 16 0xA5) 4 = Some block
     \<and> ocfs2_block_check_validate 2 (put_bit block 101 (\<not> buf_bit block 101)) 4 = Some (Inr (), block)"
proof -
  let ?d = "replicate 16 0xA5 :: byte list"
  have len: "4 + 8 \<le> length ?d" "length ?d \<le> 4096" by simp_all
  obtain block where b: "ocfs2_block_check_compute 0 ?d 4 = Some block"
    using compute_eq [OF len] by blast
  have "ocfs2_block_check_validate 2 (put_bit block 101 (\<not> buf_bit block 101)) 4 = Some (Inr (), block)"
    by (rule validate_corrects_single_bit [OF len b]) simp_all
  with b show ?thesis by blast
qed

text \<open>
  C2.  Computing the check record and validating it succeeds and changes nothing, whatever the
  alignment of the buffers; the computation itself never fails on a block that holds the record.
\<close>

theorem validate_after_compute:
  assumes "bc + 8 \<le> length data" and "length data \<le> 4096"
  shows "\<exists>block. ocfs2_block_check_compute pa data bc = Some block \<and> length block = length data
    \<and> ocfs2_block_check_validate pa' block bc = Some (Inr (), block)"
proof -
  let ?z = "zeroed data bc"
  let ?b = "with_check ?z bc (block_crc ?z) (ucast (block_ecc ?z))"
  have "ocfs2_block_check_validate pa' ?b bc = Some (Inr (), with_check (zeroed ?b bc) bc (block_crc ?z) (ucast (block_ecc ?z)))"
    using assms(1) by (intro validate_good get_with_check) simp_all
  then show ?thesis using compute_eq [OF assms] assms(1) by simp
qed

theorem validate_after_compute_witness:
  "\<exists>block. ocfs2_block_check_compute 1 [1, 2, 3, 4, 5, 6, 7, 8, 9] 1 = Some block \<and> length block = 9
    \<and> ocfs2_block_check_validate 3 block 1 = Some (Inr (), block)"
proof -
  let ?d = "[1, 2, 3, 4, 5, 6, 7, 8, 9] :: byte list"
  have len: "1 + 8 \<le> length ?d" "length ?d \<le> 4096" and nine: "length ?d = 9" by simp_all
  show ?thesis using validate_after_compute [OF len, of 1 3] unfolding nine .
qed

text \<open>
  C3.  Damage confined to the stored checksum is reported as an I/O error and the block is left
  as it was read: no correction is made to sound data.
\<close>

theorem validate_rejects_wrong_crc:
  assumes "bc + 8 \<le> length data" and "length data \<le> 4096"
    and "ocfs2_block_check_compute pa data bc = Some block"
    and "length crcb = 4" and "crcb \<noteq> take 4 (drop bc block)"
  shows "ocfs2_block_check_validate pa' (patch block bc crcb) bc
           = Some (Inl OCFS2_ET_IO, patch block bc crcb)"
proof -
  define z where "z = zeroed data bc"
  have len: "length z = length data" and pos: "0 < length data" and zz: "zeroed z bc = z"
    using assms(1) by (auto simp: z_def)
  define e :: u16 where "e = ucast (block_ecc z)"
  have block: "block = with_check z bc (block_crc z) e"
    using compute_eq [OF assms(1,2)] assms(3) by (simp add: z_def e_def)
  define c where "c = le32 (crcb ! 0) (crcb ! 1) (crcb ! 2) (crcb ! 3)"
  have crcb: "crcb = le32_bytes c"
    unfolding c_def le32_bytes_le32 by (rule list_4 [OF assms(4)])
  have s: "patch block bc crcb = with_check z bc c e"
    using assms(1) len unfolding block crcb by (intro patch_with_check) simp
  have "c \<noteq> block_crc z"
    using assms(1,5) len by (auto simp: crcb block take_drop_with_check)
  moreover have "ocfs2_hamming_fix z (8 * length data) 0 (block_ecc z XOR ucast e) = Some z"
  proof -
    have "block_ecc z XOR ucast e = 0" using block_ecc_16 [of z] assms(2) len by (simp add: e_def)
    moreover have "ocfs2_hamming_fix z (8 * length data) 0 0 = Some z"
      using assms(1,2) pos len by (intro ocfs2_hamming_fix_miss) (auto simp: code_pos_def)
    ultimately show ?thesis by simp
  qed
  ultimately show ?thesis unfolding s
    using assms(1,2) len zz validate_bad [of bc "with_check z bc c e" c e z pa']
    by (simp add: get_with_check)
qed

theorem validate_rejects_wrong_crc_witness:
  "\<exists>block crcb. ocfs2_block_check_compute 0 (replicate 16 0xA5) 4 = Some block
     \<and> ocfs2_block_check_validate 0 (patch block 4 crcb) 4 = Some (Inl OCFS2_ET_IO, patch block 4 crcb)"
proof -
  let ?d = "replicate 16 0xA5 :: byte list"
  have len: "4 + 8 \<le> length ?d" "length ?d \<le> 4096" by simp_all
  obtain block where b: "ocfs2_block_check_compute 0 ?d 4 = Some block"
    using compute_eq [OF len] by blast
  let ?c = "if take 4 (drop 4 block) = [0, 0, 0, 0] then [1, 0, 0, 0] else [0, 0, 0, 0 :: byte]"
  have "ocfs2_block_check_validate 0 (patch block 4 ?c) 4 = Some (Inl OCFS2_ET_IO, patch block 4 ?c)"
    by (rule validate_rejects_wrong_crc [OF len b]) auto
  with b show ?thesis by blast
qed

text \<open>
  C4.  The parity vector of a block of at most 4096 bytes fits in 16 bits, so the cast to
  \<open>uint16_t\<close> in \<open>ocfs2_block_check_compute\<close> loses nothing.
\<close>

theorem parity_fits_16_bits:
  assumes "0 < length data" and "length data \<le> 4096"
  shows "\<exists>ecc. ocfs2_hamming_encode_block data (length data) = Some ecc \<and> unat ecc < 2 ^ 16"
proof -
  have "unat (block_ecc data) = take_bit 16 (unat (block_ecc data))"
    by (metis block_ecc_take [OF assms(2)] unsigned_take_bit_eq)
  then have "unat (block_ecc data) < 2 ^ 16" by (metis take_bit_nat_less_exp)
  then show ?thesis using encode_block_eq [OF assms] by simp
qed

theorem parity_fits_16_bits_witness:
  "\<exists>ecc. ocfs2_hamming_encode_block [0xFF, 0x80] (length [0xFF, 0x80 :: byte]) = Some ecc \<and> unat ecc < 2 ^ 16"
  by (rule parity_fits_16_bits) simp_all

end
