(* ===== verification/Dirblock.thy ===== *)
theory Dirblock
  imports Blockcheck
begin

text \<open>
  Directory blocks: \<open>libocfs2/dirblock.c\<close>, \<open>libocfs2/dir_iterate.c\<close> and \<open>libocfs2/dir_util.h\<close>.
  A block is a list of bytes, a pointer to a directory entry its offset in the block, and the fields of
  \<open>struct ocfs2_dir_entry\<close> are read and written where the structure has them.  A read or write outside
  of the block is \<open>None\<close>.  The host is little-endian, as the disk is, so the swapping functions check
  the entries and change nothing.
\<close>

section \<open>The model\<close>

subsection \<open>Fields\<close>

fun le_val :: "byte list \<Rightarrow> nat" where
  "le_val [] = 0"
| "le_val (b # bs) = unat b + 256 * le_val bs"

fun le_bytes :: "nat \<Rightarrow> nat \<Rightarrow> byte list" where
  "le_bytes 0 v = []"
| "le_bytes (Suc n) v = word_of_nat v # le_bytes n (v div 256)"

definition get_le :: "nat \<Rightarrow> byte list \<Rightarrow> nat \<Rightarrow> nat option" where
  "get_le n buf off = map_option le_val (read_bytes buf off n)"

definition put_le :: "nat \<Rightarrow> byte list \<Rightarrow> nat \<Rightarrow> nat \<Rightarrow> byte list option" where
  "put_le n buf off v = write_bytes buf off (le_bytes n v)"

text \<open>\<open>struct ocfs2_dir_entry\<close>: the inode number at 0, the record length at 8, the name length at 10, the type at 11, the name at 12.\<close>

definition de_inode :: "byte list \<Rightarrow> nat \<Rightarrow> nat option" where "de_inode buf p = get_le 8 buf p"
definition de_rec_len :: "byte list \<Rightarrow> nat \<Rightarrow> nat option" where "de_rec_len buf p = get_le 2 buf (p + 8)"
definition de_name_len :: "byte list \<Rightarrow> nat \<Rightarrow> nat option" where "de_name_len buf p = get_le 1 buf (p + 10)"
definition de_name :: "byte list \<Rightarrow> nat \<Rightarrow> nat \<Rightarrow> byte list option" where "de_name buf p n = read_bytes buf (p + 12) n"

definition OCFS2_DIR_REC_LEN :: "nat \<Rightarrow> nat" where
  "OCFS2_DIR_REC_LEN name_len = (name_len + 12 + 3) div 4 * 4"  \<comment> \<open>\<open>& ~3\<close>\<close>

subsection \<open>The filesystem\<close>

text \<open>
  The blocks of the disk, which of them cannot be read or written, and what the rest of the library keeps
  (\<open>meta\<close>).
\<close>

record 'm filesys =
  fs_blocksize :: nat
  fs_blocks :: nat
  fs_rw :: bool
  s_feature_incompat :: u32
  s_blocksize_bits :: nat
  s_clustersize_bits :: nat
  disk :: "nat \<Rightarrow> byte list"
  rfail :: "nat \<Rightarrow> errcode option"
  wfail :: "nat \<Rightarrow> errcode option"
  meta :: 'm

record dinode =
  i_blkno :: nat
  i_dyn_features :: u16
  i_size :: nat
  i_clusters :: nat
  i_raw :: "byte list"  \<comment> \<open>the block of the inode, which holds inline data\<close>

definition OCFS2_INLINE_DATA_FL :: u16 where "OCFS2_INLINE_DATA_FL = 1"
definition OCFS2_FEATURE_INCOMPAT_INLINE_DATA :: u32 where "OCFS2_FEATURE_INCOMPAT_INLINE_DATA = 0x40"

definition ocfs2_support_inline_data :: "'m filesys \<Rightarrow> bool" where
  "ocfs2_support_inline_data fs \<longleftrightarrow> s_feature_incompat fs AND OCFS2_FEATURE_INCOMPAT_INLINE_DATA \<noteq> 0"

definition inline_dir :: "'m filesys \<Rightarrow> dinode \<Rightarrow> bool" where
  "inline_dir fs di \<longleftrightarrow> ocfs2_support_inline_data fs \<and> i_dyn_features di AND OCFS2_INLINE_DATA_FL \<noteq> 0"

text \<open>\<open>struct ocfs2_dir_block_trailer\<close> has 64 bytes; the signature is at 16 and the check record at 48.\<close>

definition trailer_size :: nat where "trailer_size = 64"

definition ocfs2_dir_trailer_blk_off :: "'m filesys \<Rightarrow> nat" where
  "ocfs2_dir_trailer_blk_off fs = fs_blocksize fs - trailer_size"

definition ocfs2_dir_has_trailer :: "'m filesys \<Rightarrow> dinode \<Rightarrow> bool" where
  "ocfs2_dir_has_trailer fs di \<longleftrightarrow> \<not> inline_dir fs di \<and> ocfs2_meta_ecc (s_feature_incompat fs)"

definition ocfs2_supports_dir_trailer :: "'m filesys \<Rightarrow> bool" where
  "ocfs2_supports_dir_trailer fs \<longleftrightarrow> ocfs2_meta_ecc (s_feature_incompat fs)"

definition ocfs2_skip_dir_trailer :: "'m filesys \<Rightarrow> dinode \<Rightarrow> nat \<Rightarrow> bool" where
  "ocfs2_skip_dir_trailer fs di offset \<longleftrightarrow> ocfs2_dir_has_trailer fs di \<and> offset = ocfs2_dir_trailer_blk_off fs"

definition OCFS2_DIR_TRAILER_SIGNATURE :: "byte list" where
  "OCFS2_DIR_TRAILER_SIGNATURE = [0x44, 0x49, 0x52, 0x54, 0x52, 0x4C, 0x31]"  \<comment> \<open>DIRTRL1\<close>

definition ocfs2_init_dir_trailer :: "'m filesys \<Rightarrow> dinode \<Rightarrow> nat \<Rightarrow> byte list \<Rightarrow> byte list option" where
  "ocfs2_init_dir_trailer fs di blkno buf =
     (let t = ocfs2_dir_trailer_blk_off fs in
      do { buf \<leftarrow> write_bytes buf t (replicate trailer_size 0);
           buf \<leftarrow> write_bytes buf (t + 16) OCFS2_DIR_TRAILER_SIGNATURE;
           buf \<leftarrow> put_le 2 buf (t + 8) trailer_size;
           buf \<leftarrow> put_le 8 buf (t + 32) blkno;
           put_le 8 buf (t + 40) (i_blkno di) })"

subsection \<open>Reading and writing a directory block\<close>

text \<open>\<open>ocfs2_swap_dir_entries_direction\<close> on a little-endian host; \<open>retval\<close> is the last error met.\<close>

function swap_loop :: "byte list \<Rightarrow> nat \<Rightarrow> nat \<Rightarrow> errcode option \<Rightarrow> errcode option option" where
  "swap_loop buf p fin retval =
     (if p + 12 < fin then
        (case (de_name_len buf p, de_rec_len buf p) of
           (Some name_len, Some r) \<Rightarrow>
             (let bad = r < 12 \<or> r mod 4 \<noteq> 0; rec_len = (if bad then 12 else r);
                  retval = (if bad then Some OCFS2_ET_DIR_CORRUPTED else retval);
                  retval = (if name_len + 12 > rec_len then Some OCFS2_ET_DIR_CORRUPTED else retval)
              in swap_loop buf (p + rec_len) fin retval)
         | _ \<Rightarrow> None)
      else Some retval)"
  by pat_completeness auto
termination by (relation "measure (\<lambda>(buf, p, fin, retval). fin - p)") (auto split: if_splits)

declare swap_loop.simps [simp del]

definition ocfs2_swap_dir_entries :: "byte list \<Rightarrow> nat \<Rightarrow> errcode option option" where
  "ocfs2_swap_dir_entries buf bytes = swap_loop buf 0 bytes None"

text \<open>The block that \<open>ocfs2_read_dir_block\<close> leaves in its buffer, or the error.\<close>

definition ocfs2_read_dir_block :: "'m filesys \<Rightarrow> dinode \<Rightarrow> nat \<Rightarrow> byte list result option" where
  "ocfs2_read_dir_block fs di block =
     (case rfail fs block of
        Some e \<Rightarrow> Some (Inl e)
      | None \<Rightarrow>
          (let buf = disk fs block in
           if ocfs2_dir_has_trailer fs di then
             (let t = ocfs2_dir_trailer_blk_off fs in
              do { (err, buf) \<leftarrow> ocfs2_validate_meta_ecc (s_feature_incompat fs) 0 buf (t + 48);
                   case err of Inl e \<Rightarrow> Some (Inl e)
                   | Inr _ \<Rightarrow>
                       do { sig \<leftarrow> read_bytes buf (t + 16) (length OCFS2_DIR_TRAILER_SIGNATURE);
                            if sig \<noteq> OCFS2_DIR_TRAILER_SIGNATURE then Some (Inl OCFS2_ET_BAD_DIR_BLOCK_MAGIC)
                            else do { r \<leftarrow> ocfs2_swap_dir_entries buf t;
                                      Some (case r of None \<Rightarrow> Inr buf | Some e \<Rightarrow> Inl e) } } })
           else do { r \<leftarrow> ocfs2_swap_dir_entries buf (fs_blocksize fs);
                     Some (case r of None \<Rightarrow> Inr buf | Some e \<Rightarrow> Inl e) }))"

definition ocfs2_write_dir_block :: "'m filesys \<Rightarrow> dinode \<Rightarrow> nat \<Rightarrow> byte list \<Rightarrow> (errcode option \<times> 'm filesys) option" where
  "ocfs2_write_dir_block fs di block inbuf =
     (let fin = (if ocfs2_dir_has_trailer fs di then ocfs2_dir_trailer_blk_off fs else fs_blocksize fs) in
      do { r \<leftarrow> ocfs2_swap_dir_entries inbuf fin;
           case r of Some e \<Rightarrow> Some (Some e, fs)
           | None \<Rightarrow>
               do { buf \<leftarrow> ocfs2_compute_meta_ecc (s_feature_incompat fs) 0 inbuf (ocfs2_dir_trailer_blk_off fs + 48);
                    Some (case wfail fs block of Some e \<Rightarrow> (Some e, fs) | None \<Rightarrow> (None, fs\<lparr>disk := (disk fs)(block := buf)\<rparr>)) } })"

subsection \<open>Iterating over the entries\<close>

definition is_dots :: "byte list \<Rightarrow> bool" where
  "is_dots name \<longleftrightarrow> name = [0x2E] \<or> name = [0x2E, 0x2E]"

function ocfs2_validate_entry :: "byte list \<Rightarrow> nat \<Rightarrow> nat \<Rightarrow> bool option" where
  "ocfs2_validate_entry buf offset final_offset =
     (if offset < final_offset then
        (case (de_rec_len buf offset, de_name_len buf offset) of
           (Some r, Some n) \<Rightarrow>
             (if r < 8 \<or> r mod 4 \<noteq> 0 \<or> n + 8 > r then Some False
              else ocfs2_validate_entry buf (offset + r) final_offset)
         | _ \<Rightarrow> None)
      else Some (offset = final_offset))"
  by pat_completeness auto
termination by (relation "measure (\<lambda>(buf, offset, fin). fin - offset)") auto

declare ocfs2_validate_entry.simps [simp del]

function skip_invalid :: "byte list \<Rightarrow> nat \<Rightarrow> nat \<Rightarrow> nat option" where
  "skip_invalid buf offset final_offset =
     (if offset < final_offset then
        (case ocfs2_validate_entry buf offset final_offset of
           None \<Rightarrow> None
         | Some True \<Rightarrow> Some offset
         | Some False \<Rightarrow> skip_invalid buf (offset + 4) final_offset)
      else Some offset)"
  by pat_completeness auto
termination by (relation "measure (\<lambda>(buf, offset, fin). fin - offset)") auto

declare skip_invalid.simps [simp del]

record dir_flags =
  include_empty :: bool
  include_removed :: bool
  exclude_dots :: bool
  include_trailer :: bool

text \<open>The kinds of entry, and what a callback answers.\<close>

definition OCFS2_DIRENT_DOT_FILE :: nat where "OCFS2_DIRENT_DOT_FILE = 1"
definition OCFS2_DIRENT_OTHER_FILE :: nat where "OCFS2_DIRENT_OTHER_FILE = 3"
definition OCFS2_DIRENT_DELETED_FILE :: nat where "OCFS2_DIRENT_DELETED_FILE = 4"

record answer =
  dirent_changed :: bool
  dirent_abort :: bool

text \<open>A callback gets the directory, the kind of the entry, its offset and the buffer, and has a state.\<close>

type_synonym 's dir_func = "nat \<Rightarrow> nat \<Rightarrow> nat \<Rightarrow> byte list \<Rightarrow> 's \<Rightarrow> (answer \<times> byte list \<times> 's) option"

record 's dir_progress =
  p_buf :: "byte list"
  p_state :: 's
  p_changed :: bool
  p_abort :: bool
  p_errcode :: "errcode option"

text \<open>
  \<open>ocfs2_process_dir_entry\<close>.  The loop reads the length of an entry again after the callback, which
  may have changed it, so it need not end for every callback.
\<close>

partial_function (option) ocfs2_process_dir_entry ::
    "'m filesys \<Rightarrow> dinode \<Rightarrow> nat \<Rightarrow> dir_flags \<Rightarrow> 's dir_func \<Rightarrow> nat \<Rightarrow> nat \<Rightarrow> nat \<Rightarrow> 's dir_progress \<Rightarrow> 's dir_progress option" where
  "ocfs2_process_dir_entry fs di dir flags func offset entry next_real ctx =
     (if offset < fs_blocksize fs then
        do { r \<leftarrow> de_rec_len (p_buf ctx) offset;
             n \<leftarrow> de_name_len (p_buf ctx) offset;
             if offset + r > fs_blocksize fs \<or> r < 8 \<or> r mod 4 \<noteq> 0 \<or> n + 8 > r
             then Some (ctx\<lparr>p_errcode := Some OCFS2_ET_DIR_CORRUPTED, p_abort := True\<rparr>)
             else do {
               ino \<leftarrow> de_inode (p_buf ctx) offset;
               skip \<leftarrow> (if ocfs2_skip_dir_trailer fs di offset then Some (\<not> include_trailer flags)
                        else if ino = 0 \<and> \<not> include_empty flags then Some True
                        else if exclude_dots flags then map_option is_dots (de_name (p_buf ctx) offset n)
                        else Some False);
               (ctx, entry, stop) \<leftarrow>
                 (if skip then Some (ctx, entry, False)
                  else do {
                    (ret, buf, st) \<leftarrow> func dir (if next_real > offset then OCFS2_DIRENT_DELETED_FILE else entry)
                                       offset (p_buf ctx) (p_state ctx);
                    Some (ctx\<lparr>p_buf := buf, p_state := st, p_changed := p_changed ctx \<or> dirent_changed ret,
                               p_abort := p_abort ctx \<or> dirent_abort ret\<rparr>,
                          if entry < OCFS2_DIRENT_OTHER_FILE then Suc entry else entry, dirent_abort ret) });
               if stop then Some ctx
               else do {
                 r \<leftarrow> de_rec_len (p_buf ctx) offset;
                 n \<leftarrow> de_name_len (p_buf ctx) offset;
                 let next_real = (if next_real = offset then next_real + r else next_real);
                 let sz = (n + 11) div 4 * 4;
                 offset \<leftarrow> (if include_removed flags \<and> r \<noteq> sz
                            then skip_invalid (p_buf ctx) (offset + sz) (offset + r)
                            else Some (offset + r));
                 ocfs2_process_dir_entry fs di dir flags func offset entry next_real ctx } } }
      else Some ctx)"

text \<open>\<open>ocfs2_process_dir_block\<close>: whether the iteration over the blocks goes on, the error, and the state.\<close>

definition ocfs2_process_dir_block ::
    "dinode \<Rightarrow> nat \<Rightarrow> dir_flags \<Rightarrow> 's dir_func \<Rightarrow> nat \<Rightarrow> nat \<Rightarrow> 'm filesys \<Rightarrow> 's \<Rightarrow> (bool \<times> errcode option \<times> 'm filesys \<times> 's) option" where
  "ocfs2_process_dir_block di dir flags func blocknr blockcnt fs st =
     (let entry = (if blockcnt \<noteq> 0 then OCFS2_DIRENT_OTHER_FILE else OCFS2_DIRENT_DOT_FILE) in
      do { r \<leftarrow> ocfs2_read_dir_block fs di blocknr;
           case r of Inl e \<Rightarrow> Some (False, Some e, fs, st)
           | Inr buf \<Rightarrow>
               do { ctx \<leftarrow> ocfs2_process_dir_entry fs di dir flags func 0 entry 0
                             \<lparr>p_buf = buf, p_state = st, p_changed = False, p_abort = False, p_errcode = None\<rparr>;
                    if p_errcode ctx \<noteq> None then Some (False, p_errcode ctx, fs, p_state ctx)
                    else do {
                      (err, fs) \<leftarrow> (if p_changed ctx then ocfs2_write_dir_block fs di blocknr (p_buf ctx) else Some (None, fs));
                      Some (err = None \<and> \<not> p_abort ctx, err, fs, p_state ctx) } } })"

text \<open>
  What the directory code uses of the rest of the library: \<open>ocfs2_check_directory\<close>, reading and writing
  inodes, the blocks that \<open>ocfs2_block_iterate\<close> visits, and growing a directory.
\<close>

record 'm dirlib =
  check_directory :: "'m \<Rightarrow> nat \<Rightarrow> errcode option"
  read_inode :: "'m \<Rightarrow> nat \<Rightarrow> dinode result"
  write_inode :: "'m \<Rightarrow> nat \<Rightarrow> byte list \<Rightarrow> 'm result"
  iterated_blocks :: "'m \<Rightarrow> nat \<Rightarrow> nat list result"
  extend_allocation :: "'m \<Rightarrow> nat \<Rightarrow> nat \<Rightarrow> 'm result"
  get_blocks :: "'m \<Rightarrow> nat \<Rightarrow> nat \<Rightarrow> nat result"
  write_cached_inode :: "'m \<Rightarrow> nat \<Rightarrow> dinode \<Rightarrow> 'm result"
  bump_links :: "'m \<Rightarrow> nat \<Rightarrow> 'm result"  \<comment> \<open>reading an inode, raising its \<open>i_links_count\<close>, and writing it\<close>
  convert_inline :: "'m \<Rightarrow> nat \<Rightarrow> 'm result"  \<comment> \<open>\<open>ocfs2_convert_inline_data_to_extents\<close>\<close>
  blocks_of_clusters :: "'m \<Rightarrow> nat \<Rightarrow> nat"

fun iterate_blocks ::
    "dinode \<Rightarrow> nat \<Rightarrow> dir_flags \<Rightarrow> 's dir_func \<Rightarrow> nat list \<Rightarrow> nat \<Rightarrow> 'm filesys \<Rightarrow> 's \<Rightarrow> (errcode option \<times> 'm filesys \<times> 's) option" where
  "iterate_blocks di dir flags func [] cnt fs st = Some (None, fs, st)"
| "iterate_blocks di dir flags func (b # bs) cnt fs st =
     do { (more, err, fs, st) \<leftarrow> ocfs2_process_dir_block di dir flags func b cnt fs st;
          if more then iterate_blocks di dir flags func bs (Suc cnt) fs st else Some (err, fs, st) }"

text \<open>\<open>offsetof(struct ocfs2_dinode, id2.i_data.id_data)\<close>\<close>

definition id_data_off :: nat where "id_data_off = 200"

text \<open>
  When something fails in an inline directory, \<open>ocfs2_inline_dir_iterate\<close> returns the flag \<open>OCFS2_BLOCK_ABORT\<close>, and
  \<open>ocfs2_dir_iterate2\<close> returns that to its caller before it looks at the error code in the context.
\<close>

definition ocfs2_inline_dir_iterate ::
    "'m dirlib \<Rightarrow> dinode \<Rightarrow> nat \<Rightarrow> dir_flags \<Rightarrow> 's dir_func \<Rightarrow> 'm filesys \<Rightarrow> 's \<Rightarrow> (errcode option \<times> 'm filesys \<times> 's) option" where
  "ocfs2_inline_dir_iterate lib di dir flags func fs st =
     do { ctx \<leftarrow> ocfs2_process_dir_entry fs di dir flags func id_data_off OCFS2_DIRENT_DOT_FILE 0
                   \<lparr>p_buf = i_raw di, p_state = st, p_changed = False, p_abort = False, p_errcode = None\<rparr>;
          if p_errcode ctx \<noteq> None then Some (Some BLOCK_ABORT_RC, fs, p_state ctx)
          else if p_changed ctx then
            (case write_inode lib (meta fs) (i_blkno di) (p_buf ctx) of
               Inl _ \<Rightarrow> Some (Some BLOCK_ABORT_RC, fs, p_state ctx)
             | Inr m \<Rightarrow> Some (None, fs\<lparr>meta := m\<rparr>, p_state ctx))
          else Some (None, fs, p_state ctx) }"

definition ocfs2_dir_iterate2 ::
    "'m dirlib \<Rightarrow> nat \<Rightarrow> dir_flags \<Rightarrow> 's dir_func \<Rightarrow> 'm filesys \<Rightarrow> 's \<Rightarrow> (errcode option \<times> 'm filesys \<times> 's) option" where
  "ocfs2_dir_iterate2 lib dir flags func fs st =
     (case check_directory lib (meta fs) dir of
        Some e \<Rightarrow> Some (Some e, fs, st)
      | None \<Rightarrow>
          (case read_inode lib (meta fs) dir of
             Inl e \<Rightarrow> Some (Some e, fs, st)
           | Inr di \<Rightarrow>
               if inline_dir fs di then ocfs2_inline_dir_iterate lib di dir flags func fs st
               else (case iterated_blocks lib (meta fs) dir of
                       Inl e \<Rightarrow> Some (Some e, fs, st)
                     | Inr bs \<Rightarrow> iterate_blocks di dir flags func bs 0 fs st)))"

text \<open>\<open>ocfs2_dir_iterate\<close> with \<open>xlate_func\<close>: a callback that does not ask for the directory and the kind.\<close>

definition xlate_func :: "(nat \<Rightarrow> byte list \<Rightarrow> 's \<Rightarrow> (answer \<times> byte list \<times> 's) option) \<Rightarrow> 's dir_func" where
  "xlate_func func = (\<lambda>dir entry. func)"

definition ocfs2_dir_iterate ::
    "'m dirlib \<Rightarrow> nat \<Rightarrow> dir_flags \<Rightarrow> (nat \<Rightarrow> byte list \<Rightarrow> 's \<Rightarrow> (answer \<times> byte list \<times> 's) option) \<Rightarrow> 'm filesys \<Rightarrow> 's \<Rightarrow>
     (errcode option \<times> 'm filesys \<times> 's) option" where
  "ocfs2_dir_iterate lib dir flags func fs st = ocfs2_dir_iterate2 lib dir flags (xlate_func func) fs st"

end
