(* ===== verification/Dir_Segments.thy ===== *)
theory Dir_Segments
  imports Dirblock
begin

text \<open>
  A sound directory block is the concatenation of segments, one for each entry.  The fields of an entry
  are read from and written to its segment, whatever lies before and behind it; the loop over the entries of a
  block becomes a recursion over its segments.
\<close>

section \<open>Parts of a buffer\<close>

definition slice :: "'a list \<Rightarrow> nat \<Rightarrow> nat \<Rightarrow> 'a list" where
  "slice s k n = take n (drop k s)"

lemma length_slice [simp]: "k + n \<le> length s \<Longrightarrow> length (slice s k n) = n"
  by (simp add: slice_def)

lemma slice_patch_same [simp]: "off + length bs \<le> length s \<Longrightarrow> n = length bs \<Longrightarrow> slice (patch s off bs) off n = bs"
  by (auto simp: slice_def patch_def min_def)

lemma slice_patch_other:
  assumes "off + length bs \<le> length s" and "k + n \<le> off \<or> off + length bs \<le> k" and "k + n \<le> length s"
  shows "slice (patch s off bs) k n = slice s k n"
  using assms by (intro nth_equalityI) (auto simp: slice_def nth_patch)

lemma read_slice: "read_bytes s k n = (if k + n \<le> length s then Some (slice s k n) else None)"
  by (simp add: read_bytes_def slice_def)

text \<open>Reading and writing in the middle of a buffer.\<close>

lemma read_middle:
  assumes "k + n \<le> length s"
  shows "read_bytes (pre @ s @ post) (length pre + k) n = Some (slice s k n)"
  using assms by (simp add: read_bytes_def slice_def)

lemma write_middle:
  assumes "k + length bs \<le> length s"
  shows "write_bytes (pre @ s @ post) (length pre + k) bs = Some (pre @ patch s k bs @ post)"
proof -
  have "drop (k + length bs) (s @ post) = drop (k + length bs) s @ post" using assms by simp
  then show ?thesis using assms by (simp add: write_bytes_def patch_def add.assoc)
qed

section \<open>Numbers\<close>

lemma length_le_bytes_n [simp]: "length (le_bytes n v) = n"
  by (induction n v rule: le_bytes.induct) auto

lemma le_val_le_bytes: "v < 256 ^ n \<Longrightarrow> le_val (le_bytes n v) = v"
proof (induction n v rule: le_bytes.induct)
  case (2 n v)
  then have "le_val (le_bytes n (v div 256)) = v div 256" by (intro 2) (simp add: less_mult_imp_div_less mult.commute)
  moreover have "unat (word_of_nat v :: byte) = v mod 256" by (simp add: unat_of_nat)
  ultimately show ?case by simp
qed simp

lemma le_val_bound: "le_val bs < 256 ^ length bs"
proof (induction bs)
  case (Cons b bs)
  have "unat b < 256" using unsigned_less [of b, where ?'a = nat] by simp
  then show ?case using Cons by simp
qed simp

section \<open>Segments\<close>

definition seg_ino :: "byte list \<Rightarrow> nat" where "seg_ino s = le_val (slice s 0 8)"
definition seg_rec :: "byte list \<Rightarrow> nat" where "seg_rec s = le_val (slice s 8 2)"
definition seg_nl :: "byte list \<Rightarrow> nat" where "seg_nl s = le_val (slice s 10 1)"
definition seg_type :: "byte list \<Rightarrow> nat" where "seg_type s = le_val (slice s 11 1)"
definition seg_name :: "byte list \<Rightarrow> byte list" where "seg_name s = slice s 12 (seg_nl s)"

definition seg_ok :: "byte list \<Rightarrow> bool" where
  "seg_ok s \<longleftrightarrow> 12 \<le> length s \<and> length s mod 4 = 0 \<and> seg_rec s = length s \<and> seg_nl s + 12 \<le> length s"

definition live :: "byte list \<Rightarrow> bool" where "live s \<longleftrightarrow> seg_ino s \<noteq> 0"

text \<open>What a directory lists: name, inode number and type of its used entries.\<close>

definition dirent_of :: "byte list \<Rightarrow> byte list \<times> nat \<times> nat" where
  "dirent_of s = (seg_name s, seg_ino s, seg_type s)"

definition listing :: "byte list list \<Rightarrow> (byte list \<times> nat \<times> nat) list" where
  "listing segs = map dirent_of (filter live segs)"

lemma listing_simps [simp]:
  "listing [] = []" "listing (s # ss) = (if live s then [dirent_of s] else []) @ listing ss"
  "listing (ss @ ss') = listing ss @ listing ss'"
  by (auto simp: listing_def)

lemma seg_reads [buf_simps]:
  assumes "12 \<le> length s"
  shows "de_inode (pre @ s @ post) (length pre) = Some (seg_ino s)"
    and "de_rec_len (pre @ s @ post) (length pre) = Some (seg_rec s)"
    and "de_name_len (pre @ s @ post) (length pre) = Some (seg_nl s)"
  using assms read_middle [of 0 8 s pre post] read_middle [of 8 2 s pre post] read_middle [of 10 1 s pre post]
  by (simp_all add: de_inode_def de_rec_len_def de_name_len_def get_le_def seg_ino_def seg_rec_def seg_nl_def)

lemma seg_name_read:
  assumes "seg_ok s"
  shows "de_name (pre @ s @ post) (length pre) (seg_nl s) = Some (seg_name s)"
  using assms read_middle [of 12 "seg_nl s" s pre post] by (simp add: de_name_def seg_name_def seg_ok_def)

lemma seg_okD:
  assumes "seg_ok s"
  shows "12 \<le> length s" and "length s mod 4 = 0" and "seg_rec s = length s" and "seg_nl s + 12 \<le> length s" and "length s < 65536"
proof -
  have "seg_rec s < 256 ^ length (slice s 8 2)" unfolding seg_rec_def by (rule le_val_bound)
  with assms show "length s < 65536" by (simp add: seg_ok_def)
qed (use assms in \<open>simp_all add: seg_ok_def\<close>)

section \<open>The checks\<close>

lemma swap_loop_segs:
  assumes "\<forall>s\<in>set segs. seg_ok s"
  shows "swap_loop (pre @ concat segs @ post) (length pre) (length pre + length (concat segs)) None = Some None"
  using assms
proof (induction segs arbitrary: pre)
  case Nil
  then show ?case by (simp add: swap_loop.simps)
next
  case (Cons s segs)
  note ok = seg_okD [OF Cons.prems [rule_format, OF list.set_intros(1)]]
  let ?buf = "pre @ concat (s # segs) @ post"
  have buf: "?buf = pre @ s @ (concat segs @ post)" and buf': "?buf = (pre @ s) @ concat segs @ post" by simp_all
  have ih: "swap_loop ?buf (length pre + length s) (length pre + length (concat (s # segs))) None = Some None"
    using Cons.IH [of "pre @ s"] Cons.prems by (simp add: add.assoc)
  show ?case
  proof (cases "length pre + 12 < length pre + length (concat (s # segs))")
    case True
    have f: "de_name_len ?buf (length pre) = Some (seg_nl s)" "de_rec_len ?buf (length pre) = Some (length s)"
      unfolding buf using ok by (simp_all add: seg_reads)
    show ?thesis using True ok ih by (subst swap_loop.simps) (simp only: f, simp add: Let_def)
  next
    case False
    then show ?thesis by (subst swap_loop.simps) simp
  qed
qed


section \<open>Blocks on disk\<close>

text \<open>The trailer looks like an unused entry.\<close>

definition trailer_ok :: "byte list \<Rightarrow> bool" where
  "trailer_ok t \<longleftrightarrow> length t = trailer_size \<and> seg_ino t = 0 \<and> seg_rec t = trailer_size \<and> seg_nl t = 0 \<and>
     slice t 16 7 = OCFS2_DIR_TRAILER_SIGNATURE"

definition tail_ok :: "'m filesys \<Rightarrow> dinode \<Rightarrow> byte list \<Rightarrow> bool" where
  "tail_ok fs di t \<longleftrightarrow> (if ocfs2_dir_has_trailer fs di then trailer_ok t else t = [])"

text \<open>A buffer that holds the entries \<open>segs\<close>.\<close>

definition block_of :: "'m filesys \<Rightarrow> dinode \<Rightarrow> byte list list \<Rightarrow> byte list \<Rightarrow> bool" where
  "block_of fs di segs b \<longleftrightarrow> length b = fs_blocksize fs \<and> (\<forall>s\<in>set segs. seg_ok s) \<and>
     (\<exists>t. b = concat segs @ t \<and> tail_ok fs di t)"

text \<open>A block on disk also has a check record that fits.\<close>

definition on_disk :: "'m filesys \<Rightarrow> dinode \<Rightarrow> byte list list \<Rightarrow> byte list \<Rightarrow> bool" where
  "on_disk fs di segs b \<longleftrightarrow> block_of fs di segs b \<and>
     (ocfs2_dir_has_trailer fs di \<longrightarrow> ocfs2_block_check_validate 0 b (ocfs2_dir_trailer_blk_off fs + 48) = Some (Inr (), b))"

definition size_ok :: "'m filesys \<Rightarrow> bool" where
  "size_ok fs \<longleftrightarrow> 512 \<le> fs_blocksize fs \<and> fs_blocksize fs \<le> 4096 \<and> fs_blocksize fs mod 4 = 0"

text \<open>The end of the entries.\<close>

definition entries_end :: "'m filesys \<Rightarrow> dinode \<Rightarrow> nat" where
  "entries_end fs di = (if ocfs2_dir_has_trailer fs di then ocfs2_dir_trailer_blk_off fs else fs_blocksize fs)"

lemma trailer_seg: "trailer_ok t \<Longrightarrow> seg_ok t \<and> \<not> live t"
  by (simp add: trailer_ok_def seg_ok_def live_def trailer_size_def)

lemma block_of_end:
  assumes "block_of fs di segs b"
  obtains t where "b = concat segs @ t" "tail_ok fs di t" "length (concat segs) = entries_end fs di"
proof -
  obtain t where t: "b = concat segs @ t" "tail_ok fs di t" using assms by (auto simp: block_of_def)
  moreover have "length (concat segs) = entries_end fs di"
    using t assms by (auto simp: block_of_def tail_ok_def entries_end_def trailer_ok_def ocfs2_dir_trailer_blk_off_def split: if_splits)
  ultimately show ?thesis by (rule that)
qed

lemma swap_block:
  assumes "block_of fs di segs b"
  shows "ocfs2_swap_dir_entries b (entries_end fs di) = Some None"
proof -
  obtain t where t: "b = concat segs @ t" "length (concat segs) = entries_end fs di"
    using assms by (rule block_of_end)
  then show ?thesis using swap_loop_segs [of segs "[]" t] assms
    by (simp add: ocfs2_swap_dir_entries_def block_of_def)
qed

lemma signature_length: "length OCFS2_DIR_TRAILER_SIGNATURE = 7"
  by (simp add: OCFS2_DIR_TRAILER_SIGNATURE_def)

lemma read_dir_block_ok:
  assumes disk: "on_disk fs di segs (disk fs blk)" and ok: "rfail fs blk = None"
  shows "ocfs2_read_dir_block fs di blk = Some (Inr (disk fs blk))"
proof -
  have b: "block_of fs di segs (disk fs blk)" using disk by (simp add: on_disk_def)
  obtain t where t: "disk fs blk = concat segs @ t" "tail_ok fs di t" "length (concat segs) = entries_end fs di"
    using b by (rule block_of_end)
  note swap = swap_block [OF b]
  show ?thesis
  proof (cases "ocfs2_dir_has_trailer fs di")
    case True
    let ?o = "ocfs2_dir_trailer_blk_off fs"
    have tr: "trailer_ok t" using t(2) True by (simp add: tail_ok_def)
    have "read_bytes (concat segs @ t) (length (concat segs) + 16) 7 = Some (slice t 16 7)"
      using read_middle [of 16 7 t "concat segs" "[]"] tr by (simp add: trailer_ok_def trailer_size_def)
    then have sig: "read_bytes (disk fs blk) (?o + 16) 7 = Some OCFS2_DIR_TRAILER_SIGNATURE"
      using t(1,3) True tr by (simp add: entries_end_def trailer_ok_def)
    have "ocfs2_validate_meta_ecc (s_feature_incompat fs) 0 (disk fs blk) (?o + 48) = Some (Inr (), disk fs blk)"
      using disk True by (simp add: on_disk_def ocfs2_validate_meta_ecc_def ocfs2_dir_has_trailer_def)
    then show ?thesis using True ok sig swap
      by (simp add: ocfs2_read_dir_block_def Let_def entries_end_def signature_length)
  next
    case False
    then show ?thesis using ok swap by (simp add: ocfs2_read_dir_block_def Let_def entries_end_def)
  qed
qed

lemma patch_append: "patch (a @ t) (length a + k) bs = a @ patch t k bs"
  by (simp add: patch_def add.assoc)

text \<open>Storing the check record changes only the check record of the trailer.\<close>

lemma trailer_patch:
  assumes "trailer_ok t" and "48 \<le> k" and "k + length bs \<le> 56"
  shows "trailer_ok (patch t k bs)"
  using assms by (simp add: trailer_ok_def seg_ino_def seg_rec_def seg_nl_def trailer_size_def slice_patch_other)

lemma with_check_tail:
  assumes "trailer_ok t"
  shows "\<exists>t'. with_check (zeroed (a @ t) (length a + 48)) (length a + 48) c e = a @ t' \<and> trailer_ok t'"
proof -
  let ?t = "patch (patch (patch t 48 (replicate 8 0)) 48 (le32_bytes c)) 52 (le16_bytes e)"
  have "length a + 48 + 4 = length a + 52" by simp
  then have "with_check (zeroed (a @ t) (length a + 48)) (length a + 48) c e = a @ ?t"
    by (simp only: with_check_def zeroed_def patch_append)
  moreover have "trailer_ok ?t" using assms by (intro trailer_patch) simp_all
  ultimately show ?thesis by blast
qed

lemma write_dir_block_ok:
  assumes b: "block_of fs di segs b" and size: "size_ok fs" and ok: "wfail fs blk = None" and ninl: "\<not> inline_dir fs di"
  shows "\<exists>b'. ocfs2_write_dir_block fs di blk b = Some (None, fs\<lparr>disk := (disk fs)(blk := b')\<rparr>) \<and> on_disk fs di segs b'"
proof -
  obtain t where t: "b = concat segs @ t" "tail_ok fs di t" "length (concat segs) = entries_end fs di" using b by (rule block_of_end)
  note swap = swap_block [OF b]
  show ?thesis
  proof (cases "ocfs2_dir_has_trailer fs di")
    case True
    let ?o = "ocfs2_dir_trailer_blk_off fs" let ?bc = "ocfs2_dir_trailer_blk_off fs + 48"
    have tr: "trailer_ok t" and o: "length (concat segs) = ?o" using t(2,3) True by (simp_all add: tail_ok_def entries_end_def)
    have len: "?bc + 8 \<le> length b" "length b \<le> 4096"
      using b size by (simp_all add: block_of_def size_ok_def ocfs2_dir_trailer_blk_off_def trailer_size_def)
    let ?z = "zeroed b ?bc"
    let ?b = "with_check ?z ?bc (block_crc ?z) (ucast (block_ecc ?z))"
    have comp: "ocfs2_block_check_compute 0 b ?bc = Some ?b" using compute_eq [OF len] .
    obtain t' where t': "?b = concat segs @ t'" "trailer_ok t'"
      using with_check_tail [OF tr, of "concat segs"] unfolding t(1) o by blast
    have "ocfs2_block_check_validate 0 ?b ?bc = Some (Inr (), with_check (zeroed ?b ?bc) ?bc (block_crc ?z) (ucast (block_ecc ?z)))"
      using len(1) by (intro validate_good get_with_check) simp_all
    then have "ocfs2_block_check_validate 0 ?b ?bc = Some (Inr (), ?b)" using len(1) by simp
    moreover have "length ?b = length b" using len(1) by simp
    ultimately have "on_disk fs di segs ?b" using b t' True by (auto simp: on_disk_def block_of_def tail_ok_def)
    then show ?thesis using True swap comp ok
      by (intro exI [of _ ?b]) (simp add: ocfs2_write_dir_block_def Let_def entries_end_def ocfs2_compute_meta_ecc_def ocfs2_dir_has_trailer_def)
  next
    case False
    then have "\<not> ocfs2_meta_ecc (s_feature_incompat fs)" using ninl by (simp add: ocfs2_dir_has_trailer_def)
    then show ?thesis using False swap ok b
      by (intro exI [of _ b]) (simp add: ocfs2_write_dir_block_def Let_def entries_end_def ocfs2_compute_meta_ecc_def on_disk_def)
  qed
qed

end
