(* ===== verification/Dir_Ops.thy ===== *)
theory Dir_Ops
  imports Dir_Segments
begin

text \<open>
  The directory operations: \<open>libocfs2/lookup.c\<close>, \<open>libocfs2/link.c\<close>, \<open>libocfs2/unlink.c\<close> and
  \<open>libocfs2/expanddir.c\<close>.  A directory is a list of names with inode numbers and types; looking up,
  linking and unlinking are the operations on that list.
\<close>

section \<open>The model\<close>

text \<open>\<open>strncmp\<close> of two arrays of the same length: equal up to the length or to a null character.\<close>

fun strn_eq :: "byte list \<Rightarrow> byte list \<Rightarrow> bool" where
  "strn_eq [] [] = True"
| "strn_eq (a # as) (b # bs) = (a = b \<and> (a = 0 \<or> strn_eq as bs))"
| "strn_eq _ _ = False"

abbreviation go_on :: answer where "go_on \<equiv> \<lparr>dirent_changed = False, dirent_abort = False\<rparr>"

subsection \<open>Lookup\<close>

record lookup_struct =
  lk_name :: "byte list"
  lk_inode :: "nat option"
  lk_found :: nat

definition lookup_proc :: "nat \<Rightarrow> byte list \<Rightarrow> lookup_struct \<Rightarrow> (answer \<times> byte list \<times> lookup_struct) option" where
  "lookup_proc p buf ls =
     do { n \<leftarrow> de_name_len buf p;
          if length (lk_name ls) \<noteq> n then Some (go_on, buf, ls)
          else do {
            name \<leftarrow> de_name buf p n;
            if \<not> strn_eq (lk_name ls) name then Some (go_on, buf, ls)
            else do { ino \<leftarrow> de_inode buf p;
                      Some (\<lparr>dirent_changed = False, dirent_abort = True\<rparr>, buf,
                            ls\<lparr>lk_inode := Some ino, lk_found := Suc (lk_found ls)\<rparr>) } } }"

abbreviation no_flags :: dir_flags where
  "no_flags \<equiv> \<lparr>include_empty = False, include_removed = False, exclude_dots = False, include_trailer = False\<rparr>"

definition ocfs2_lookup :: "'m dirlib \<Rightarrow> nat \<Rightarrow> byte list \<Rightarrow> 'm filesys \<Rightarrow> nat result option" where
  "ocfs2_lookup lib dir name fs =
     do { (err, fs, ls) \<leftarrow> ocfs2_dir_iterate lib dir no_flags lookup_proc fs \<lparr>lk_name = name, lk_inode = None, lk_found = 0\<rparr>;
          case err of Some e \<Rightarrow> Some (Inl e)
          | None \<Rightarrow> (if lk_found ls \<noteq> 0 then map_option Inr (lk_inode ls) else Some (Inl OCFS2_ET_FILE_NOT_FOUND)) }"

subsection \<open>Linking\<close>

record link_struct =
  ls_name :: "byte list"
  ls_inode :: nat
  ls_flags :: nat
  ls_done :: nat
  ls_blockend :: nat

text \<open>The first part of \<open>link_proc\<close>: an unused entry that follows is absorbed.\<close>

definition absorb_next :: "nat \<Rightarrow> nat \<Rightarrow> byte list \<Rightarrow> (bool \<times> byte list) option" where
  "absorb_next blockend p buf =
     do { r \<leftarrow> de_rec_len buf p;
          if p + r + 8 < blockend then
            do { ino \<leftarrow> de_inode buf (p + r);
                 if ino \<noteq> 0 then Some (False, buf)
                 else do { r' \<leftarrow> de_rec_len buf (p + r);
                           if p + r + r' \<le> blockend then map_option (Pair True) (put_le 2 buf (p + 8) (r + r'))
                           else Some (False, buf) } }
          else Some (False, buf) }"

definition link_proc :: "nat \<Rightarrow> byte list \<Rightarrow> link_struct \<Rightarrow> (answer \<times> byte list \<times> link_struct) option" where
  "link_proc p buf ls =
     (let rec_len = OCFS2_DIR_REC_LEN (length (ls_name ls)) in
      do { (ret, buf) \<leftarrow> absorb_next (ls_blockend ls) p buf;
           r \<leftarrow> de_rec_len buf p;
           ino \<leftarrow> de_inode buf p;
           if ino \<noteq> 0 then
             do { n \<leftarrow> de_name_len buf p;
                  let min_rec_len = OCFS2_DIR_REC_LEN n;
                  if r < min_rec_len + rec_len then Some (\<lparr>dirent_changed = ret, dirent_abort = False\<rparr>, buf, ls)
                  else do {
                    buf \<leftarrow> put_le 2 buf (p + 8) min_rec_len;
                    buf \<leftarrow> put_le 8 buf (p + min_rec_len) 0;
                    buf \<leftarrow> put_le 1 buf (p + min_rec_len + 10) 0;
                    buf \<leftarrow> put_le 2 buf (p + min_rec_len + 8) (r - min_rec_len);
                    Some (\<lparr>dirent_changed = True, dirent_abort = False\<rparr>, buf, ls) } }
           else if r < rec_len then Some (\<lparr>dirent_changed = ret, dirent_abort = False\<rparr>, buf, ls)
           else do {
             buf \<leftarrow> put_le 8 buf p (ls_inode ls);
             buf \<leftarrow> put_le 1 buf (p + 10) (length (ls_name ls));
             buf \<leftarrow> write_bytes buf (p + 12) (ls_name ls);
             buf \<leftarrow> put_le 1 buf (p + 11) (ls_flags ls);
             Some (\<lparr>dirent_changed = True, dirent_abort = True\<rparr>, buf, ls\<lparr>ls_done := Suc (ls_done ls)\<rparr>) } })"

definition ocfs2_expand_dir :: "'m dirlib \<Rightarrow> nat \<Rightarrow> 'm filesys \<Rightarrow> (errcode option \<times> 'm filesys) option" where
  "ocfs2_expand_dir lib dir fs =
     (if \<not> fs_rw fs then Some (Some OCFS2_ET_RO_FILESYS, fs)
      else case check_directory lib (meta fs) dir of
        Some e \<Rightarrow> Some (Some e, fs)
      | None \<Rightarrow>
          (case read_inode lib (meta fs) dir of
             Inl e \<Rightarrow> Some (Some e, fs)
           | Inr di \<Rightarrow>
               if inline_dir fs di then
                 (case convert_inline lib (meta fs) dir of
                    Inl e \<Rightarrow> Some (Some e, fs) | Inr m \<Rightarrow> Some (None, fs\<lparr>meta := m\<rparr>))
               else
                 (let used_blks = i_size di div fs_blocksize fs;
                      totl_blks = blocks_of_clusters lib (meta fs) (i_clusters di);
                      extended = (if used_blks \<ge> totl_blks
                                  then (case extend_allocation lib (meta fs) dir 1 of
                                          Inl e \<Rightarrow> Inl e
                                        | Inr m \<Rightarrow> (case read_inode lib m dir of Inl e \<Rightarrow> Inl e | Inr di \<Rightarrow> Inr (di, m)))
                                  else Inr (di, meta fs))
                  in case extended of
                       Inl e \<Rightarrow> Some (Some e, fs)
                     | Inr (di, m) \<Rightarrow>
                         (let fs = fs\<lparr>meta := m\<rparr> in
                          case get_blocks lib m dir used_blks of
                            Inl e \<Rightarrow> Some (Some e, fs)
                          | Inr new_blk \<Rightarrow>
                              do { let buf = replicate (fs_blocksize fs) 0;
                                   buf \<leftarrow> (if ocfs2_dir_has_trailer fs di
                                           then do { buf \<leftarrow> put_le 2 buf 8 (ocfs2_dir_trailer_blk_off fs);
                                                     ocfs2_init_dir_trailer fs di new_blk buf }
                                           else put_le 2 buf 8 (fs_blocksize fs));
                                   (err, fs) \<leftarrow> ocfs2_write_dir_block fs di new_blk buf;
                                   case err of Some e \<Rightarrow> Some (Some e, fs)
                                   | None \<Rightarrow>
                                       (case write_cached_inode lib (meta fs) dir (di\<lparr>i_size := i_size di + fs_blocksize fs\<rparr>) of
                                          Inl e \<Rightarrow> Some (Some e, fs) | Inr m \<Rightarrow> Some (None, fs\<lparr>meta := m\<rparr>)) }))))"

definition OCFS2_SUPER_BLOCK_BLKNO :: nat where "OCFS2_SUPER_BLOCK_BLKNO = 2"

abbreviation with_empty :: dir_flags where "with_empty \<equiv> no_flags\<lparr>include_empty := True\<rparr>"

definition ocfs2_link :: "'m dirlib \<Rightarrow> nat \<Rightarrow> byte list \<Rightarrow> nat \<Rightarrow> nat \<Rightarrow> 'm filesys \<Rightarrow> (errcode option \<times> 'm filesys) option" where
  "ocfs2_link lib dir name ino flags fs =
     (if \<not> fs_rw fs then Some (Some OCFS2_ET_RO_FILESYS, fs)
      else if ino < OCFS2_SUPER_BLOCK_BLKNO \<or> ino > fs_blocks fs then Some (Some OCFS2_ET_INVALID_ARGUMENT, fs)
      else case read_inode lib (meta fs) dir of
        Inl e \<Rightarrow> Some (Some e, fs)
      | Inr di \<Rightarrow>
          do { (err, fs, ls) \<leftarrow> ocfs2_dir_iterate lib dir with_empty link_proc fs
                 \<lparr>ls_name = name, ls_inode = ino, ls_flags = flags, ls_done = 0, ls_blockend = entries_end fs di\<rparr>;
               if err \<noteq> None then Some (err, fs)
               else if ls_done ls \<noteq> 0 then Some (None, fs)
               else do {
                 (err, fs) \<leftarrow> ocfs2_expand_dir lib dir fs;
                 if err \<noteq> None then Some (err, fs)
                 else case read_inode lib (meta fs) dir of
                   Inl e \<Rightarrow> Some (Some e, fs)
                 | Inr di \<Rightarrow>
                     do { (err, fs, ls) \<leftarrow> ocfs2_dir_iterate lib dir with_empty link_proc fs (ls\<lparr>ls_blockend := entries_end fs di\<rparr>);
                          Some (if err = None \<and> ls_done ls = 0 then Some OCFS2_ET_INTERNAL_FAILURE else err, fs) } } })"

subsection \<open>Unlinking\<close>

record unlink_struct =
  ul_name :: "byte list option"
  ul_inode :: nat
  ul_done :: nat

definition unlink_proc :: "nat \<Rightarrow> byte list \<Rightarrow> unlink_struct \<Rightarrow> (answer \<times> byte list \<times> unlink_struct) option" where
  "unlink_proc p buf ls =
     do { n \<leftarrow> de_name_len buf p;
          other \<leftarrow> (case ul_name ls of
                      None \<Rightarrow> Some False
                    | Some want \<Rightarrow> if n \<noteq> length want then Some True
                                   else map_option (\<lambda>name. \<not> strn_eq want name) (de_name buf p n));
          ino \<leftarrow> de_inode buf p;
          if other \<or> (ul_inode ls \<noteq> 0 \<and> ino \<noteq> ul_inode ls) then Some (go_on, buf, ls)
          else do { buf \<leftarrow> put_le 8 buf p 0;
                    Some (\<lparr>dirent_changed = True, dirent_abort = True\<rparr>, buf, ls\<lparr>ul_done := Suc (ul_done ls)\<rparr>) } }"

definition ocfs2_unlink :: "'m dirlib \<Rightarrow> nat \<Rightarrow> byte list option \<Rightarrow> nat \<Rightarrow> 'm filesys \<Rightarrow> (errcode option \<times> 'm filesys) option" where
  "ocfs2_unlink lib dir name ino fs =
     (if \<not> fs_rw fs then Some (Some OCFS2_ET_RO_FILESYS, fs)
      else do { (err, fs, ls) \<leftarrow> ocfs2_dir_iterate lib dir no_flags unlink_proc fs \<lparr>ul_name = name, ul_inode = ino, ul_done = 0\<rparr>;
                case err of Some e \<Rightarrow> Some (Some e, fs)
                | None \<Rightarrow> Some (if ul_done ls \<noteq> 0 then None else Some OCFS2_ET_DIR_NO_SPACE, fs) })"

subsection \<open>New directories\<close>

definition OCFS2_FT_DIR :: nat where "OCFS2_FT_DIR = 2"

definition ocfs2_fill_initial_dirents :: "nat \<Rightarrow> nat \<Rightarrow> nat \<Rightarrow> nat \<Rightarrow> byte list \<Rightarrow> byte list option" where
  "ocfs2_fill_initial_dirents dir parent start sz buf =
     do { buf \<leftarrow> put_le 8 buf start dir;
          buf \<leftarrow> put_le 1 buf (start + 10) 1;
          buf \<leftarrow> put_le 2 buf (start + 8) (OCFS2_DIR_REC_LEN 1);
          buf \<leftarrow> write_bytes buf (start + 12) [0x2E];
          buf \<leftarrow> put_le 1 buf (start + 11) OCFS2_FT_DIR;
          let de = start + OCFS2_DIR_REC_LEN 1;
          buf \<leftarrow> put_le 8 buf de parent;
          buf \<leftarrow> put_le 2 buf (de + 8) (sz - OCFS2_DIR_REC_LEN 1);
          buf \<leftarrow> put_le 1 buf (de + 10) 2;
          buf \<leftarrow> write_bytes buf (de + 12) [0x2E, 0x2E, 0];
          put_le 1 buf (de + 11) OCFS2_FT_DIR }"

text \<open>
  \<open>ocfs2_init_dir\<close>; \<open>junk\<close> is what the allocated block holds before it is filled, and the two bytes before
  the inline data of an inode are \<open>id_count\<close>.
\<close>

definition ocfs2_init_dir :: "'m dirlib \<Rightarrow> byte list \<Rightarrow> nat \<Rightarrow> nat \<Rightarrow> 'm filesys \<Rightarrow> (errcode option \<times> 'm filesys) option" where
  "ocfs2_init_dir lib junk dir parent_dir fs =
     (if \<not> fs_rw fs then Some (Some OCFS2_ET_RO_FILESYS, fs)
      else case check_directory lib (meta fs) dir of
        Some e \<Rightarrow> Some (Some e, fs)
      | None \<Rightarrow>
        (case read_inode lib (meta fs) dir of
           Inl e \<Rightarrow> Some (Some e, fs)
         | Inr di \<Rightarrow>
           let has_inline = i_dyn_features di AND OCFS2_INLINE_DATA_FL \<noteq> 0;
               finish = (\<lambda>di sz fs.
                 case bump_links lib (meta fs) parent_dir of
                   Inl e \<Rightarrow> Some (Some e, fs)
                 | Inr m \<Rightarrow>
                     (case write_cached_inode lib m dir (di\<lparr>i_size := sz\<rparr>) of
                        Inl e \<Rightarrow> Some (Some e, fs\<lparr>meta := m\<rparr>) | Inr m \<Rightarrow> Some (None, fs\<lparr>meta := m\<rparr>)))
           in if ocfs2_support_inline_data fs then
                (if \<not> has_inline then Some (Some OCFS2_ET_DIR_CORRUPTED, fs)
                 else do { sz \<leftarrow> get_le 2 (i_raw di) (id_data_off - 8);
                           raw \<leftarrow> ocfs2_fill_initial_dirents dir parent_dir id_data_off sz (i_raw di);
                           finish (di\<lparr>i_raw := raw\<rparr>) sz fs })
              else if has_inline then Some (Some OCFS2_ET_DIR_CORRUPTED, fs)
              else do {
                (err, fs) \<leftarrow> ocfs2_expand_dir lib dir fs;
                if err \<noteq> None then Some (err, fs)
                else case read_inode lib (meta fs) dir of
                  Inl e \<Rightarrow> Some (Some e, fs)
                | Inr di \<Rightarrow>
                  (case get_blocks lib (meta fs) dir 0 of
                     Inl e \<Rightarrow> Some (Some e, fs)
                   | Inr blkno \<Rightarrow>
                     do { let sz = (if ocfs2_supports_dir_trailer fs then ocfs2_dir_trailer_blk_off fs else fs_blocksize fs);
                          buf \<leftarrow> ocfs2_fill_initial_dirents dir parent_dir 0 sz junk;
                          let inl = i_dyn_features di AND OCFS2_INLINE_DATA_FL \<noteq> 0;
                          buf \<leftarrow> (if \<not> inl \<and> ocfs2_supports_dir_trailer fs then ocfs2_init_dir_trailer fs di blkno buf else Some buf);
                          (err, fs) \<leftarrow> (if \<not> inl then ocfs2_write_dir_block fs di blkno buf else Some (None, fs));
                          if err \<noteq> None then Some (err, fs) else finish di sz fs }) }))"

end
