(* ===== verification/Dir_Correct.thy ===== *)
theory Dir_Correct
  imports Dir_Ops
begin

text \<open>
  Correctness of the directory operations.  On a directory whose blocks are sound, the loop over the
  bytes of a block is a recursion over its entries; looking up a name, linking and unlinking act on the listing
  of the directory.
\<close>

section \<open>One step of the loop\<close>

text \<open>The end of a block.\<close>

lemma process_end: "fs_blocksize fs \<le> offset \<Longrightarrow> ocfs2_process_dir_entry fs di dir flags func offset entry nr ctx = Some ctx"
  by (subst ocfs2_process_dir_entry.simps) simp

text \<open>The flags that lookup, link and unlink use.\<close>

definition plain :: "dir_flags \<Rightarrow> bool" where
  "plain flags \<longleftrightarrow> \<not> include_removed flags \<and> \<not> exclude_dots flags \<and> \<not> include_trailer flags"

lemma process_skip:
  assumes ok: "seg_ok s" and fits: "length pre + length s \<le> fs_blocksize fs" and buf: "p_buf ctx = pre @ s @ post" and fl: "plain flags"
    and skip: "ocfs2_skip_dir_trailer fs di (length pre) \<or> (\<not> live s \<and> \<not> include_empty flags)"
  shows "\<exists>entry' nr'. ocfs2_process_dir_entry fs di dir flags func (length pre) entry nr ctx =
    ocfs2_process_dir_entry fs di dir flags func (length pre + length s) entry' nr' ctx"
proof -
  note o = seg_okD [OF ok]
  have lt: "length pre < fs_blocksize fs" using fits o(1) by linarith
  have r: "de_rec_len (p_buf ctx) (length pre) = Some (length s)" "de_name_len (p_buf ctx) (length pre) = Some (seg_nl s)"
    "de_inode (p_buf ctx) (length pre) = Some (seg_ino s)" unfolding buf using o by (simp_all add: seg_reads)
  have "ocfs2_process_dir_entry fs di dir flags func (length pre) entry nr ctx =
    ocfs2_process_dir_entry fs di dir flags func (length pre + length s) entry (if nr = length pre then nr + length s else nr) ctx"
    using lt fits o skip fl by (subst ocfs2_process_dir_entry.simps) (auto simp: r plain_def live_def Let_def)
  then show ?thesis by blast
qed

lemma process_call:
  assumes ok: "seg_ok s" and fits: "length pre + length s \<le> fs_blocksize fs" and buf: "p_buf ctx = pre @ s @ post" and fl: "plain flags"
    and noskip: "\<not> ocfs2_skip_dir_trailer fs di (length pre)" "live s \<or> include_empty flags"
    and call: "func (length pre) (p_buf ctx) (p_state ctx) = Some (\<lparr>dirent_changed = ch, dirent_abort = ab\<rparr>, pre @ s' @ post', st')"
    and ok': "seg_ok s'"
  defines "ctx' \<equiv> ctx\<lparr>p_buf := pre @ s' @ post', p_state := st', p_changed := p_changed ctx \<or> ch, p_abort := p_abort ctx \<or> ab\<rparr>"
  shows "\<exists>entry' nr'. ocfs2_process_dir_entry fs di dir flags (xlate_func func) (length pre) entry nr ctx =
    (if ab then Some ctx' else ocfs2_process_dir_entry fs di dir flags (xlate_func func) (length pre + length s') entry' nr' ctx')"
proof -
  note o = seg_okD [OF ok] and o' = seg_okD [OF ok']
  have lt: "length pre < fs_blocksize fs" using fits o(1) by linarith
  have r: "de_rec_len (p_buf ctx) (length pre) = Some (length s)" "de_name_len (p_buf ctx) (length pre) = Some (seg_nl s)"
    "de_inode (p_buf ctx) (length pre) = Some (seg_ino s)" unfolding buf using o by (simp_all add: seg_reads)
  have r': "de_rec_len (pre @ s' @ post') (length pre) = Some (length s')" "de_name_len (pre @ s' @ post') (length pre) = Some (seg_nl s')"
    using o' by (simp_all add: seg_reads)
  have "\<not> (seg_ino s = 0 \<and> \<not> include_empty flags)" using noskip(2) by (auto simp: live_def)
  then have "ocfs2_process_dir_entry fs di dir flags (xlate_func func) (length pre) entry nr ctx =
    (if ab then Some ctx' else ocfs2_process_dir_entry fs di dir flags (xlate_func func) (length pre + length s')
       (if entry < OCFS2_DIRENT_OTHER_FILE then Suc entry else entry) (if nr = length pre then nr + length s' else nr) ctx')"
    using lt fits o noskip(1) fl call
    by (subst ocfs2_process_dir_entry.simps) (auto simp: r r' plain_def Let_def xlate_func_def ctx'_def)
  then show ?thesis by blast
qed

text \<open>After the entries only the trailer is left, and it is skipped.\<close>

lemma process_tail:
  assumes "tail_ok fs di t" and "length pre = entries_end fs di" and "p_buf ctx = pre @ t" and "plain flags" and "size_ok fs"
  shows "ocfs2_process_dir_entry fs di dir flags func (length pre) entry nr ctx = Some ctx"
proof (cases "ocfs2_dir_has_trailer fs di")
  case True
  then have t: "trailer_ok t" "length pre = ocfs2_dir_trailer_blk_off fs" using assms(1,2) by (simp_all add: tail_ok_def entries_end_def)
  have fits: "length pre + length t = fs_blocksize fs"
    using t assms(5) by (simp add: trailer_ok_def ocfs2_dir_trailer_blk_off_def trailer_size_def size_ok_def)
  have skip: "ocfs2_skip_dir_trailer fs di (length pre)" using True t(2) by (simp add: ocfs2_skip_dir_trailer_def)
  obtain e n where "ocfs2_process_dir_entry fs di dir flags func (length pre) entry nr ctx =
      ocfs2_process_dir_entry fs di dir flags func (length pre + length t) e n ctx"
    using process_skip [of t pre fs ctx "[]" flags di dir func entry nr] trailer_seg [OF t(1)] fits skip assms(3,4) by auto
  then show ?thesis using fits by (simp add: process_end)
next
  case False
  then show ?thesis using assms by (simp add: entries_end_def process_end)
qed

text \<open>No entry is where the trailer is.\<close>

lemma entry_before_end: "p < entries_end fs di \<Longrightarrow> \<not> ocfs2_skip_dir_trailer fs di p"
  by (auto simp: ocfs2_skip_dir_trailer_def entries_end_def)

section \<open>Sound directories\<close>

definition sound_block :: "'m filesys \<Rightarrow> dinode \<Rightarrow> nat \<Rightarrow> byte list list \<Rightarrow> bool" where
  "sound_block fs di b segs \<longleftrightarrow> on_disk fs di segs (disk fs b) \<and> rfail fs b = None \<and> wfail fs b = None"

text \<open>A directory with the inode \<open>di\<close>, the blocks \<open>bs\<close> and the entries \<open>segss\<close> in them.\<close>

definition sound_dir :: "'m dirlib \<Rightarrow> 'm filesys \<Rightarrow> nat \<Rightarrow> dinode \<Rightarrow> nat list \<Rightarrow> byte list list list \<Rightarrow> bool" where
  "sound_dir lib fs dir di bs segss \<longleftrightarrow> size_ok fs \<and> check_directory lib (meta fs) dir = None \<and> read_inode lib (meta fs) dir = Inr di \<and>
     \<not> inline_dir fs di \<and> iterated_blocks lib (meta fs) dir = Inr bs \<and> distinct bs \<and> list_all2 (sound_block fs di) bs segss"

definition dir_listing :: "byte list list list \<Rightarrow> (byte list \<times> nat \<times> nat) list" where
  "dir_listing segss = concat (map listing segss)"

text \<open>What is on disk does not depend on the other blocks.\<close>

lemma fs_update_simps [simp]:
  "ocfs2_dir_has_trailer (fs\<lparr>disk := d\<rparr>) di = ocfs2_dir_has_trailer fs di" "inline_dir (fs\<lparr>disk := d\<rparr>) di = inline_dir fs di"
  "ocfs2_dir_trailer_blk_off (fs\<lparr>disk := d\<rparr>) = ocfs2_dir_trailer_blk_off fs" "size_ok (fs\<lparr>disk := d\<rparr>) = size_ok fs"
  "ocfs2_dir_has_trailer (fs\<lparr>meta := m\<rparr>) di = ocfs2_dir_has_trailer fs di" "inline_dir (fs\<lparr>meta := m\<rparr>) di = inline_dir fs di"
  "ocfs2_dir_trailer_blk_off (fs\<lparr>meta := m\<rparr>) = ocfs2_dir_trailer_blk_off fs" "size_ok (fs\<lparr>meta := m\<rparr>) = size_ok fs"
  by (simp_all add: ocfs2_dir_has_trailer_def inline_dir_def ocfs2_support_inline_data_def ocfs2_dir_trailer_blk_off_def size_ok_def)

lemma on_disk_update [simp]:
  "on_disk (fs\<lparr>disk := d\<rparr>) di segs b = on_disk fs di segs b" "entries_end (fs\<lparr>disk := d\<rparr>) di = entries_end fs di"
  "on_disk (fs\<lparr>meta := m\<rparr>) di segs b = on_disk fs di segs b" "entries_end (fs\<lparr>meta := m\<rparr>) di = entries_end fs di"
  by (simp_all add: on_disk_def block_of_def tail_ok_def entries_end_def)

lemma sound_block_other: "b \<noteq> c \<Longrightarrow> sound_block (fs\<lparr>disk := (disk fs)(b := x)\<rparr>) di c segs = sound_block fs di c segs"
  by (simp add: sound_block_def)

text \<open>Replacing one block.\<close>

lemma sound_dir_update:
  assumes dir: "sound_dir lib fs dir di (bs @ b # bs') (sss @ ss # sss')" and len: "length sss = length bs" and b': "on_disk fs di ss' b'"
  shows "sound_dir lib (fs\<lparr>disk := (disk fs)(b := b')\<rparr>) dir di (bs @ b # bs') (sss @ ss' # sss')"
proof -
  let ?fs = "fs\<lparr>disk := (disk fs)(b := b')\<rparr>"
  have all: "list_all2 (sound_block fs di) bs sss" "sound_block fs di b ss" "list_all2 (sound_block fs di) bs' sss'" and d: "b \<notin> set bs" "b \<notin> set bs'"
    using dir len by (simp_all add: sound_dir_def list_all2_append)
  have keep: "list_all2 (sound_block ?fs di) xs ys" if "list_all2 (sound_block fs di) xs ys" "b \<notin> set xs" for xs ys
    using that by (induction rule: list_all2_induct) (auto simp: sound_block_other)
  have "sound_block ?fs di b ss'" using all(2) b' by (simp add: sound_block_def)
  then have "list_all2 (sound_block ?fs di) (bs @ b # bs') (sss @ ss' # sss')"
    using keep [OF all(1) d(1)] keep [OF all(3) d(2)] by (simp add: list_all2_appendI)
  then show ?thesis using dir by (simp add: sound_dir_def)
qed

section \<open>Callbacks that act on the first entry that fits\<close>

text \<open>
  The contract of the callbacks of lookup and unlink: from the state \<open>st\<close>, an entry that does not fit
  changes nothing, and the first one that fits ends the iteration.
\<close>

locale first_match =
  fixes func :: "nat \<Rightarrow> byte list \<Rightarrow> 's \<Rightarrow> (answer \<times> byte list \<times> 's) option"
    and st :: 's and hit :: "byte list \<Rightarrow> bool" and upd :: "byte list \<Rightarrow> byte list" and st' :: "byte list \<Rightarrow> 's" and changes :: bool
  assumes miss: "\<And>s pre post. seg_ok s \<Longrightarrow> \<not> hit s \<Longrightarrow> func (length pre) (pre @ s @ post) st = Some (go_on, pre @ s @ post, st)"
    and hit: "\<And>s pre post. seg_ok s \<Longrightarrow> hit s \<Longrightarrow>
      func (length pre) (pre @ s @ post) st = Some (\<lparr>dirent_changed = changes, dirent_abort = True\<rparr>, pre @ upd s @ post, st' s)"
    and upd_ok: "\<And>s. seg_ok s \<Longrightarrow> hit s \<Longrightarrow> seg_ok (upd s)" and upd_length: "\<And>s. seg_ok s \<Longrightarrow> hit s \<Longrightarrow> length (upd s) = length s"
    and unchanged: "\<And>s. \<not> changes \<Longrightarrow> upd s = s"
begin

lemma loop_step:
  assumes ok: "seg_ok s" and lim: "length pre + length s \<le> entries_end fs di" and buf: "p_buf ctx = pre @ s @ post" and state: "p_state ctx = st"
  shows "if live s \<and> hit s
    then ocfs2_process_dir_entry fs di dir no_flags (xlate_func func) (length pre) entry nr ctx =
      Some (ctx\<lparr>p_buf := pre @ upd s @ post, p_state := st' s, p_changed := p_changed ctx \<or> changes, p_abort := True\<rparr>)
    else \<exists>e n. ocfs2_process_dir_entry fs di dir no_flags (xlate_func func) (length pre) entry nr ctx =
      ocfs2_process_dir_entry fs di dir no_flags (xlate_func func) (length pre + length s) e n ctx"
proof -
  have "entries_end fs di \<le> fs_blocksize fs" by (simp add: entries_end_def ocfs2_dir_trailer_blk_off_def)
  then have fits: "length pre + length s \<le> fs_blocksize fs" using lim by linarith
  have before: "\<not> ocfs2_skip_dir_trailer fs di (length pre)" using lim seg_okD(1) [OF ok] by (intro entry_before_end) linarith
  have pl: "plain no_flags" by (simp add: plain_def)
  consider (dead) "\<not> live s" | (hits) "live s" "hit s" | (misses) "live s" "\<not> hit s" by blast
  then show ?thesis
  proof cases
    case dead
    then show ?thesis using process_skip [OF ok fits buf pl, of di dir "xlate_func func" entry nr] by simp
  next
    case hits
    then have call: "func (length pre) (p_buf ctx) (p_state ctx) = Some (\<lparr>dirent_changed = changes, dirent_abort = True\<rparr>, pre @ upd s @ post, st' s)"
      using hit [OF ok] buf state by simp
    then show ?thesis using process_call [where func = func and dir = dir and entry = entry and nr = nr, OF ok fits buf pl before _ call upd_ok [OF ok hits(2)]] hits by simp
  next
    case misses
    then have call: "func (length pre) (p_buf ctx) (p_state ctx) = Some (go_on, pre @ s @ post, st)" using miss [OF ok] buf state by simp
    have same: "ctx\<lparr>p_buf := pre @ s @ post, p_state := st, p_changed := p_changed ctx \<or> False, p_abort := p_abort ctx \<or> False\<rparr> = ctx"
      using buf state by simp
    show ?thesis using process_call [where func = func and dir = dir and entry = entry and nr = nr, OF ok fits buf pl before _ call ok, unfolded same] misses by simp
  qed
qed

lemma loop_miss:
  assumes "\<forall>s\<in>set segs. seg_ok s \<and> \<not> (live s \<and> hit s)" and "tail_ok fs di t" and "length pre + length (concat segs) = entries_end fs di"
    and "size_ok fs" and "p_buf ctx = pre @ concat segs @ t" and "p_state ctx = st"
  shows "ocfs2_process_dir_entry fs di dir no_flags (xlate_func func) (length pre) entry nr ctx = Some ctx"
  using assms(1,3,5)
proof (induction segs arbitrary: pre entry nr)
  case Nil
  then show ?case using process_tail [of fs di t pre ctx no_flags] assms(2,4) by (simp add: plain_def)
next
  case (Cons s segs)
  have "\<exists>e n. ocfs2_process_dir_entry fs di dir no_flags (xlate_func func) (length pre) entry nr ctx =
      ocfs2_process_dir_entry fs di dir no_flags (xlate_func func) (length pre + length s) e n ctx"
    using loop_step [of s pre fs di ctx "concat segs @ t" dir entry nr] Cons.prems assms(6) by (simp split: if_splits)
  then show ?case using Cons.IH [of "pre @ s"] Cons.prems by auto
qed

lemma loop_hit:
  assumes "\<forall>s\<in>set xs. seg_ok s \<and> \<not> (live s \<and> hit s)" and "seg_ok s" "live s" "hit s"
    and "length pre + length (concat xs) + length s \<le> entries_end fs di"
    and "p_buf ctx = pre @ concat xs @ s @ post" and "p_state ctx = st"
  shows "ocfs2_process_dir_entry fs di dir no_flags (xlate_func func) (length pre) entry nr ctx =
    Some (ctx\<lparr>p_buf := pre @ concat xs @ upd s @ post, p_state := st' s, p_changed := p_changed ctx \<or> changes, p_abort := True\<rparr>)"
  using assms(1,5,6)
proof (induction xs arbitrary: pre entry nr)
  case Nil
  then show ?case using loop_step [of s pre fs di ctx post dir entry nr] assms(2-4,7) by simp
next
  case (Cons x xs)
  have "\<exists>e n. ocfs2_process_dir_entry fs di dir no_flags (xlate_func func) (length pre) entry nr ctx =
      ocfs2_process_dir_entry fs di dir no_flags (xlate_func func) (length pre + length x) e n ctx"
    using loop_step [of x pre fs di ctx "concat xs @ s @ post" dir entry nr] Cons.prems assms(7) by (simp split: if_splits)
  then show ?case using Cons.IH [of "pre @ x"] Cons.prems by auto
qed

end


text \<open>From the entries of a block to the blocks of a directory.\<close>

context first_match
begin

abbreviation fits_seg :: "byte list \<Rightarrow> bool" where "fits_seg s \<equiv> live s \<and> hit s"

lemma block_miss:
  assumes b: "sound_block fs di b segs" and size: "size_ok fs" and no: "\<forall>s\<in>set segs. \<not> fits_seg s"
  shows "ocfs2_process_dir_block di dir no_flags (xlate_func func) b cnt fs st = Some (True, None, fs, st)"
proof -
  have od: "on_disk fs di segs (disk fs b)" and r: "rfail fs b = None" using b by (simp_all add: sound_block_def)
  have bo: "block_of fs di segs (disk fs b)" using od by (simp add: on_disk_def)
  obtain t where t: "disk fs b = concat segs @ t" "tail_ok fs di t" "length (concat segs) = entries_end fs di" using bo by (rule block_of_end)
  have "\<forall>s\<in>set segs. seg_ok s \<and> \<not> fits_seg s" using bo no by (simp add: block_of_def)
  then have "ocfs2_process_dir_entry fs di dir no_flags (xlate_func func) 0 entry 0
      \<lparr>p_buf = disk fs b, p_state = st, p_changed = False, p_abort = False, p_errcode = None\<rparr> =
      Some \<lparr>p_buf = disk fs b, p_state = st, p_changed = False, p_abort = False, p_errcode = None\<rparr>" for entry
    using loop_miss [of segs fs di t "[]" "\<lparr>p_buf = disk fs b, p_state = st, p_changed = False, p_abort = False, p_errcode = None\<rparr>" dir entry 0] t size
    by simp
  then show ?thesis using read_dir_block_ok [OF od r] by (simp add: ocfs2_process_dir_block_def Let_def)
qed

lemma block_hit:
  assumes b: "sound_block fs di b (xs @ s # ys)" and size: "size_ok fs" and ninl: "\<not> inline_dir fs di"
    and no: "\<forall>x\<in>set xs. \<not> fits_seg x" and yes: "fits_seg s"
  shows "\<exists>b'. ocfs2_process_dir_block di dir no_flags (xlate_func func) b cnt fs st =
      Some (False, None, fs\<lparr>disk := (disk fs)(b := b')\<rparr>, st' s) \<and> on_disk fs di (xs @ upd s # ys) b'"
proof -
  let ?segs = "xs @ s # ys" and ?segs' = "xs @ upd s # ys"
  have od: "on_disk fs di ?segs (disk fs b)" and r: "rfail fs b = None" and w: "wfail fs b = None" using b by (simp_all add: sound_block_def)
  have bo: "block_of fs di ?segs (disk fs b)" using od by (simp add: on_disk_def)
  obtain t where t: "disk fs b = concat ?segs @ t" "tail_ok fs di t" "length (concat ?segs) = entries_end fs di" using bo by (rule block_of_end)
  have ok: "\<forall>x\<in>set ?segs. seg_ok x" using bo by (simp add: block_of_def)
  let ?buf = "concat ?segs' @ t"
  let ?ctx = "\<lparr>p_buf = disk fs b, p_state = st, p_changed = False, p_abort = False, p_errcode = None\<rparr>"
  have proc: "ocfs2_process_dir_entry fs di dir no_flags (xlate_func func) 0 entry 0 ?ctx =
      Some \<lparr>p_buf = ?buf, p_state = st' s, p_changed = changes, p_abort = True, p_errcode = None\<rparr>" for entry
    using loop_hit [of xs s "[]" fs di ?ctx "concat ys @ t" dir entry 0] ok no yes t by simp
  have len: "length ?buf = length (disk fs b)" using t(1) upd_length [of s] ok yes by simp
  have bo': "block_of fs di ?segs' ?buf"
    using bo ok upd_ok [of s] yes t(2) len by (auto simp: block_of_def)
  show ?thesis
  proof (cases changes)
    case True
    obtain b' where b': "ocfs2_write_dir_block fs di b ?buf = Some (None, fs\<lparr>disk := (disk fs)(b := b')\<rparr>)" "on_disk fs di ?segs' b'"
      using write_dir_block_ok [OF bo' size w ninl] by blast
    then show ?thesis using read_dir_block_ok [OF od r] proc True by (intro exI [of _ b']) (simp add: ocfs2_process_dir_block_def Let_def)
  next
    case False
    then have "?segs' = ?segs" "?buf = disk fs b" using unchanged [of s] t(1) by simp_all
    then show ?thesis using read_dir_block_ok [OF od r] proc False od by (intro exI [of _ "disk fs b"]) (simp add: ocfs2_process_dir_block_def Let_def)
  qed
qed

lemma blocks_miss:
  assumes "list_all2 (sound_block fs di) bs segss" and "size_ok fs" and "\<forall>s\<in>set (concat segss). \<not> fits_seg s"
  shows "iterate_blocks di dir no_flags (xlate_func func) bs cnt fs st = Some (None, fs, st)"
  using assms(1,3)
proof (induction bs segss arbitrary: cnt rule: list_all2_induct)
  case (Cons b bs segs segss)
  then show ?case using block_miss [OF Cons(1) assms(2)] by simp
qed simp

lemma blocks_hit:
  assumes "list_all2 (sound_block fs di) bs sss" and "sound_block fs di b (xs @ s # ys)" and "size_ok fs" "\<not> inline_dir fs di"
    and "\<forall>x\<in>set (concat sss) \<union> set xs. \<not> fits_seg x" and "fits_seg s"
  shows "\<exists>b'. iterate_blocks di dir no_flags (xlate_func func) (bs @ b # bs') cnt fs st =
      Some (None, fs\<lparr>disk := (disk fs)(b := b')\<rparr>, st' s) \<and> on_disk fs di (xs @ upd s # ys) b'"
  using assms(1,5)
proof (induction bs sss arbitrary: cnt rule: list_all2_induct)
  case Nil
  have no: "\<forall>x\<in>set xs. \<not> fits_seg x" using Nil by simp
  obtain b' where "ocfs2_process_dir_block di dir no_flags (xlate_func func) b cnt fs st = Some (False, None, fs\<lparr>disk := (disk fs)(b := b')\<rparr>, st' s)"
    "on_disk fs di (xs @ upd s # ys) b'"
    using block_hit [OF assms(2-4) no assms(6)] by blast
  then show ?case by (intro exI [of _ b']) (simp add: fun_upd_def)
next
  case (Cons c bs segs sss)
  then show ?case using block_miss [OF Cons(1) assms(3)] by simp
qed

text \<open>The whole directory: either no entry fits and nothing changes, or the first that does is acted on.\<close>

theorem dir_miss:
  assumes "sound_dir lib fs dir di bs segss" and "\<forall>s\<in>set (concat segss). \<not> fits_seg s"
  shows "ocfs2_dir_iterate lib dir no_flags func fs st = Some (None, fs, st)"
  using assms blocks_miss [of fs di bs segss dir 0]
  by (simp add: sound_dir_def ocfs2_dir_iterate_def ocfs2_dir_iterate2_def)

theorem dir_hit:
  assumes dir: "sound_dir lib fs dir di (bs @ b # bs') (sss @ (xs @ s # ys) # sss')" and len: "length sss = length bs"
    and no: "\<forall>x\<in>set (concat sss) \<union> set xs. \<not> fits_seg x" and yes: "fits_seg s"
  shows "\<exists>fs'. ocfs2_dir_iterate lib dir no_flags func fs st = Some (None, fs', st' s) \<and>
    sound_dir lib fs' dir di (bs @ b # bs') (sss @ (xs @ upd s # ys) # sss')"
proof -
  have l: "list_all2 (sound_block fs di) bs sss" "sound_block fs di b (xs @ s # ys)" "size_ok fs" "\<not> inline_dir fs di"
    using dir len by (simp_all add: sound_dir_def list_all2_append)
  obtain b' where b': "iterate_blocks di dir no_flags (xlate_func func) (bs @ b # bs') 0 fs st =
      Some (None, fs\<lparr>disk := (disk fs)(b := b')\<rparr>, st' s)" "on_disk fs di (xs @ upd s # ys) b'"
    using blocks_hit [OF l no yes] by blast
  have "ocfs2_dir_iterate lib dir no_flags func fs st = Some (None, fs\<lparr>disk := (disk fs)(b := b')\<rparr>, st' s)"
    using dir b'(1) by (simp add: sound_dir_def ocfs2_dir_iterate_def ocfs2_dir_iterate2_def)
  then show ?thesis using sound_dir_update [OF dir len b'(2)] by blast
qed

end

text \<open>The first entry that fits, over all blocks.\<close>

lemma first_in_blocks:
  assumes "\<exists>s\<in>set (concat segss). P s"
  obtains sss xs s ys sss' where "segss = sss @ (xs @ s # ys) # sss'" "\<forall>x\<in>set (concat sss) \<union> set xs. \<not> P x" "P s"
proof -
  have "\<exists>segs\<in>set segss. \<exists>s\<in>set segs. P s" using assms by auto
  then obtain sss segs sss' where s: "segss = sss @ segs # sss'" "\<exists>s\<in>set segs. P s" "\<forall>y\<in>set sss. \<not> (\<exists>s\<in>set y. P s)"
    using split_list_first_prop [of segss "\<lambda>segs. \<exists>s\<in>set segs. P s"] by blast
  obtain xs x ys where x: "segs = xs @ x # ys" "P x" "\<forall>y\<in>set xs. \<not> P y" using split_list_first_prop [OF s(2)] by blast
  show ?thesis by (rule that [of sss xs x ys sss']) (use s x in auto)
qed

lemma sound_dir_split:
  assumes "sound_dir lib fs dir di bs (sss @ ss # sss')"
  obtains bs1 b bs2 where "bs = bs1 @ b # bs2" "length sss = length bs1"
  using assms by (auto simp: sound_dir_def list_all2_append2 list_all2_Cons2)


section \<open>Lookup and unlink\<close>

definition same_name :: "byte list \<Rightarrow> byte list \<Rightarrow> bool" where
  "same_name want s \<longleftrightarrow> length want = seg_nl s \<and> strn_eq want (seg_name s)"

lemma strn_eq_iff: "0 \<notin> set a \<Longrightarrow> length b = length a \<Longrightarrow> strn_eq a b \<longleftrightarrow> a = b"
  by (induction a b rule: strn_eq.induct) auto

lemma length_seg_name: "seg_ok s \<Longrightarrow> length (seg_name s) = seg_nl s"
  by (simp add: seg_name_def seg_ok_def)

lemma same_name_iff: "seg_ok s \<Longrightarrow> 0 \<notin> set want \<Longrightarrow> same_name want s \<longleftrightarrow> seg_name s = want"
  using strn_eq_iff [of want "seg_name s"] length_seg_name [of s] by (auto simp: same_name_def)

lemma seg_field_reads:
  assumes "seg_ok s"
  shows "de_name_len (pre @ s @ post) (length pre) = Some (seg_nl s)" and "de_inode (pre @ s @ post) (length pre) = Some (seg_ino s)"
    and "de_name (pre @ s @ post) (length pre) (seg_nl s) = Some (seg_name s)" and "de_rec_len (pre @ s @ post) (length pre) = Some (length s)"
  using seg_okD [OF assms] by (simp_all add: seg_reads seg_name_read [OF assms])

lemma lookup_contract:
  "first_match lookup_proc ls (same_name (lk_name ls)) (\<lambda>s. s) (\<lambda>s. ls\<lparr>lk_inode := Some (seg_ino s), lk_found := Suc (lk_found ls)\<rparr>) False"
  by unfold_locales (auto simp: lookup_proc_def seg_field_reads same_name_def)

interpretation lk: first_match lookup_proc ls "same_name (lk_name ls)" "\<lambda>s. s"
  "\<lambda>s. ls\<lparr>lk_inode := Some (seg_ino s), lk_found := Suc (lk_found ls)\<rparr>" False for ls
  by (rule lookup_contract)

text \<open>An entry whose inode number was cleared.\<close>

definition cleared :: "byte list \<Rightarrow> byte list" where
  "cleared s = patch s 0 (le_bytes 8 0)"

lemma cleared_seg:
  assumes "seg_ok s"
  shows "seg_ok (cleared s)" and "length (cleared s) = length s" and "\<not> live (cleared s)"
proof -
  note o = seg_okD [OF assms]
  have "le_val (le_bytes 8 0) = 0" by (simp add: le_val_le_bytes)
  then show "\<not> live (cleared s)" using o(1) by (simp add: live_def seg_ino_def cleared_def)
  show "seg_ok (cleared s)" "length (cleared s) = length s"
    using o by (simp_all add: seg_ok_def cleared_def seg_rec_def seg_nl_def slice_patch_other)
qed

definition unlink_hit :: "unlink_struct \<Rightarrow> byte list \<Rightarrow> bool" where
  "unlink_hit ls s \<longleftrightarrow> (case ul_name ls of None \<Rightarrow> True | Some want \<Rightarrow> same_name want s) \<and> (ul_inode ls = 0 \<or> seg_ino s = ul_inode ls)"

lemma write_at_start: "length bs \<le> length s \<Longrightarrow> write_bytes (pre @ s @ post) (length pre) bs = Some (pre @ patch s 0 bs @ post)"
  using write_middle [of 0 bs s pre post] by simp

interpretation ul: first_match unlink_proc ls "unlink_hit ls" cleared "\<lambda>s. ls\<lparr>ul_done := Suc (ul_done ls)\<rparr>" True for ls
proof
  fix s pre post assume ok: "seg_ok s"
  have name: "k = seg_nl s \<Longrightarrow> de_name (pre @ s @ post) (length pre) k = Some (seg_name s)" for k
    using seg_field_reads(3) [OF ok] by simp
  note r = seg_field_reads(1,2) [OF ok, of pre post] name
  show "unlink_proc (length pre) (pre @ s @ post) ls = Some (go_on, pre @ s @ post, ls)" if "\<not> unlink_hit ls s"
    using that by (auto simp: unlink_proc_def r unlink_hit_def same_name_def split: option.split)
  have "put_le 8 (pre @ s @ post) (length pre) 0 = Some (pre @ cleared s @ post)"
    using seg_okD(1) [OF ok] by (simp add: put_le_def write_at_start cleared_def)
  then show "unlink_proc (length pre) (pre @ s @ post) ls =
      Some (\<lparr>dirent_changed = True, dirent_abort = True\<rparr>, pre @ cleared s @ post, ls\<lparr>ul_done := Suc (ul_done ls)\<rparr>)" if "unlink_hit ls s"
    using that by (auto simp: unlink_proc_def r unlink_hit_def same_name_def split: option.splits)
qed (use cleared_seg in simp_all)

lemma dir_listing_split:
  "dir_listing (sss @ (xs @ ss @ ys) # sss') = (dir_listing sss @ listing xs) @ listing ss @ (listing ys @ dir_listing sss')"
  by (simp add: dir_listing_def)

lemma sound_dir_segs:
  assumes "sound_dir lib fs dir di bs segss" and "s \<in> set (concat segss)"
  shows "seg_ok s"
proof -
  obtain segs where segs: "segs \<in> set segss" "s \<in> set segs" using assms(2) by auto
  have "list_all2 (sound_block fs di) bs segss" using assms(1) by (simp add: sound_dir_def)
  then obtain b where "sound_block fs di b segs" using segs(1) by (auto simp: list_all2_conv_all_nth in_set_conv_nth [of segs])
  then show ?thesis using segs(2) by (simp add: sound_block_def on_disk_def block_of_def)
qed

lemma set_dir_listing: "set (dir_listing segss) = dirent_of ` {s \<in> set (concat segss). live s}"
  by (auto simp: dir_listing_def listing_def)


lemma find_listing:
  "find P (listing segs) = map_option dirent_of (find (\<lambda>s. live s \<and> P (dirent_of s)) segs)"
  by (induction segs) auto

lemma find_append: "find P (xs @ ys) = (case find P xs of None \<Rightarrow> find P ys | Some x \<Rightarrow> Some x)"
  by (induction xs) auto

lemma find_first: "\<forall>x\<in>set as. \<not> P x \<Longrightarrow> P s \<Longrightarrow> find P (as @ s # bs) = Some s"
  by (induction as) auto

lemma find_dir_listing: "find P (dir_listing segss) = map_option dirent_of (find (\<lambda>s. live s \<and> P (dirent_of s)) (concat segss))"
  by (induction segss) (auto simp: dir_listing_def find_append find_listing split: option.split)

lemma lookup_dir:
  assumes dir: "sound_dir lib fs dir di bs segss" and nz: "0 \<notin> set name"
  shows "ocfs2_lookup lib dir name fs =
    Some (case find (\<lambda>e. fst e = name) (dir_listing segss) of None \<Rightarrow> Inl OCFS2_ET_FILE_NOT_FOUND | Some (_, ino, _) \<Rightarrow> Inr ino)"
proof -
  let ?ls = "\<lparr>lk_name = name, lk_inode = None, lk_found = 0\<rparr>" and ?P = "\<lambda>s. live s \<and> fst (dirent_of s) = name"
  have fits: "(live s \<and> same_name (lk_name ?ls) s) = ?P s" if "s \<in> set (concat segss)" for s
    using same_name_iff [OF sound_dir_segs [OF dir that] nz] by (simp add: dirent_of_def)
  show ?thesis
  proof (cases "\<exists>s\<in>set (concat segss). ?P s")
    case False
    then have "ocfs2_dir_iterate lib dir no_flags lookup_proc fs ?ls = Some (None, fs, ?ls)"
      using lk.dir_miss [OF dir, of ?ls] fits by blast
    moreover have "find ?P (concat segss) = None" using False by (auto simp: find_None_iff)
    ultimately show ?thesis by (simp add: ocfs2_lookup_def find_dir_listing)
  next
    case True
    then obtain sss xs s ys sss' where s: "segss = sss @ (xs @ s # ys) # sss'" "\<forall>x\<in>set (concat sss) \<union> set xs. \<not> ?P x" "?P s"
      by (rule first_in_blocks)
    obtain bs1 b bs2 where b: "bs = bs1 @ b # bs2" "length sss = length bs1" using sound_dir_split [OF dir [unfolded s(1)]] .
    have in_all: "x \<in> set (concat segss)" if "x \<in> set (concat sss) \<union> set xs \<or> x = s" for x using that s(1) by auto
    have no: "\<forall>x\<in>set (concat sss) \<union> set xs. \<not> (live x \<and> same_name (lk_name ?ls) x)" and yes: "live s \<and> same_name (lk_name ?ls) s"
      using s(2,3) fits in_all by blast+
    obtain fs' where "ocfs2_dir_iterate lib dir no_flags lookup_proc fs ?ls = Some (None, fs', ?ls\<lparr>lk_inode := Some (seg_ino s), lk_found := Suc 0\<rparr>)"
      using lk.dir_hit [OF dir [unfolded s(1) b(1)] b(2) no yes] by auto
    moreover have "concat segss = (concat sss @ xs) @ s # (ys @ concat sss')" using s(1) by simp
    then have "find ?P (concat segss) = Some s" using find_first [of "concat sss @ xs" ?P s "ys @ concat sss'"] s(2,3) by simp
    ultimately show ?thesis by (simp add: ocfs2_lookup_def find_dir_listing dirent_of_def)
  qed
qed

lemma unlink_dir:
  assumes dir: "sound_dir lib fs dir di bs segss" and nz: "0 \<notin> set name" and rw: "fs_rw fs"
  shows "case find (\<lambda>e. fst e = name \<and> (ino = 0 \<or> fst (snd e) = ino)) (dir_listing segss) of
      None \<Rightarrow> ocfs2_unlink lib dir (Some name) ino fs = Some (Some OCFS2_ET_DIR_NO_SPACE, fs)
    | Some e \<Rightarrow> \<exists>fs' segss'. ocfs2_unlink lib dir (Some name) ino fs = Some (None, fs') \<and> sound_dir lib fs' dir di bs segss' \<and>
        dir_listing segss' = remove1 e (dir_listing segss)"
proof -
  let ?ls = "\<lparr>ul_name = Some name, ul_inode = ino, ul_done = 0\<rparr>"
  let ?Q = "\<lambda>e. fst e = name \<and> (ino = 0 \<or> fst (snd e) = ino)"
  let ?P = "\<lambda>s. live s \<and> ?Q (dirent_of s)"
  have fits: "(live s \<and> unlink_hit ?ls s) = ?P s" if "s \<in> set (concat segss)" for s
    using same_name_iff [OF sound_dir_segs [OF dir that] nz] by (simp add: dirent_of_def unlink_hit_def)
  show ?thesis
  proof (cases "\<exists>s\<in>set (concat segss). ?P s")
    case False
    then have "ocfs2_dir_iterate lib dir no_flags unlink_proc fs ?ls = Some (None, fs, ?ls)"
      using ul.dir_miss [OF dir, of ?ls] fits by blast
    moreover have "find ?P (concat segss) = None" using False by (auto simp: find_None_iff)
    ultimately show ?thesis using rw by (simp add: ocfs2_unlink_def find_dir_listing)
  next
    case True
    then obtain sss xs s ys sss' where s: "segss = sss @ (xs @ s # ys) # sss'" "\<forall>x\<in>set (concat sss) \<union> set xs. \<not> ?P x" "?P s"
      by (rule first_in_blocks)
    obtain bs1 b bs2 where b: "bs = bs1 @ b # bs2" "length sss = length bs1" using sound_dir_split [OF dir [unfolded s(1)]] .
    have in_all: "x \<in> set (concat segss)" if "x \<in> set (concat sss) \<union> set xs \<or> x = s" for x using that s(1) by auto
    have no: "\<forall>x\<in>set (concat sss) \<union> set xs. \<not> (live x \<and> unlink_hit ?ls x)" and yes: "live s \<and> unlink_hit ?ls s"
      using s(2,3) fits in_all by blast+
    let ?segss = "sss @ (xs @ cleared s # ys) # sss'"
    obtain fs' where it: "ocfs2_dir_iterate lib dir no_flags unlink_proc fs ?ls = Some (None, fs', ?ls\<lparr>ul_done := Suc 0\<rparr>)"
        "sound_dir lib fs' dir di bs ?segss"
      using ul.dir_hit [OF dir [unfolded s(1) b(1)] b(2) no yes] b(1) by auto
    have "concat segss = (concat sss @ xs) @ s # (ys @ concat sss')" using s(1) by simp
    then have found: "find ?P (concat segss) = Some s" using find_first [of "concat sss @ xs" ?P s "ys @ concat sss'"] s(2,3) by simp
    have ok: "seg_ok s" using sound_dir_segs [OF dir] s(1) by simp
    let ?before = "dir_listing sss @ listing xs" and ?after = "listing ys @ dir_listing sss'"
    have l: "dir_listing segss = ?before @ dirent_of s # ?after" "dir_listing ?segss = ?before @ ?after"
      using s(3) cleared_seg(3) [OF ok] unfolding s(1) by (simp_all add: dir_listing_def)
    have "dirent_of s \<notin> set ?before" using s(2,3) by (auto simp: set_dir_listing listing_def)
    then have "dir_listing ?segss = remove1 (dirent_of s) (dir_listing segss)" using l by (simp add: remove1_append)
    then show ?thesis using it rw found by (auto simp: ocfs2_unlink_def find_dir_listing)
  qed
qed

end
