(* ===== verification/Dir_Link.thy ===== *)
theory Dir_Link
  imports Dir_Correct
begin

text \<open>
  Correctness of \<open>ocfs2_link\<close>: absorbing and splitting entries keeps the listing of a block, the new entry
  is added to it, and a directory that is full is expanded by an empty block, in which there is room.
\<close>

section \<open>Changing an entry\<close>

lemma patch_append1: "k + length bs \<le> length a \<Longrightarrow> patch (a @ b) k bs = patch a k bs @ b"
  by (simp add: patch_def)

lemma slice_append1: "k + n \<le> length a \<Longrightarrow> slice (a @ b) k n = slice a k n"
  by (simp add: slice_def)

lemma slice_take: "k + n \<le> m \<Longrightarrow> slice (take m s) k n = slice s k n"
  by (simp add: slice_def drop_take min_def)

lemma le2: "v < 65536 \<Longrightarrow> le_val (le_bytes 2 v) = v" and le1: "v < 256 \<Longrightarrow> le_val (le_bytes 1 v) = v"
  and le8: "v < 2 ^ 64 \<Longrightarrow> le_val (le_bytes 8 v) = v"
  using le_val_le_bytes [of v 2] le_val_le_bytes [of v 1] le_val_le_bytes [of v 8] by simp_all

lemma byte_val: "v < 256 \<Longrightarrow> unat (word_of_nat v :: byte) = v"
  by (simp add: unat_of_nat)

lemma rec_len_bounds: "n + 12 \<le> OCFS2_DIR_REC_LEN n" "OCFS2_DIR_REC_LEN n mod 4 = 0" "OCFS2_DIR_REC_LEN n \<le> n + 15"
  unfolding OCFS2_DIR_REC_LEN_def by presburger+

lemma rec_len_fits: "seg_ok s \<Longrightarrow> OCFS2_DIR_REC_LEN (seg_nl s) \<le> length s"
  unfolding OCFS2_DIR_REC_LEN_def using seg_okD(2,4) [of s] by presburger

text \<open>Two entries that are joined: the second is unused and becomes part of the first.\<close>

definition joined :: "byte list \<Rightarrow> byte list \<Rightarrow> byte list" where
  "joined s x = patch s 8 (le_bytes 2 (length s + length x)) @ x"

lemma joined_seg:
  assumes "seg_ok s" and "seg_ok x" and "length s + length x < 65536"
  shows "seg_ok (joined s x)" and "length (joined s x) = length s + length x" and "live (joined s x) = live s"
    and "dirent_of (joined s x) = dirent_of s" and "seg_nl (joined s x) = seg_nl s"
proof -
  note o = seg_okD [OF assms(1)] and ox = seg_okD [OF assms(2)]
  show len: "length (joined s x) = length s + length x" using o(1) by (simp add: joined_def)
  have f: "slice (joined s x) k n = slice s k n" if "k + n \<le> 8 \<or> 10 \<le> k" "k + n \<le> length s" for k n
    using that o(1) by (simp add: joined_def slice_append1 slice_patch_other)
  show nl: "seg_nl (joined s x) = seg_nl s" using o(1) by (simp add: seg_nl_def f)
  have "seg_rec (joined s x) = length s + length x"
    using o(1) assms(3) by (simp add: seg_rec_def joined_def slice_append1 le2)
  then show "seg_ok (joined s x)" using len nl o ox unfolding seg_ok_def by presburger
  show "live (joined s x) = live s" using o(1) by (simp add: live_def seg_ino_def f)
  show "dirent_of (joined s x) = dirent_of s" using o nl by (simp add: dirent_of_def seg_ino_def seg_type_def seg_name_def f)
qed

text \<open>An entry that is cut to the length it needs, and the unused entry behind it.\<close>

definition head_part :: "byte list \<Rightarrow> byte list" where
  "head_part s = (let m = OCFS2_DIR_REC_LEN (seg_nl s) in patch (take m s) 8 (le_bytes 2 m))"

definition free_part :: "byte list \<Rightarrow> byte list" where
  "free_part s = (let m = OCFS2_DIR_REC_LEN (seg_nl s) in
     patch (patch (patch (drop m s) 0 (le_bytes 8 0)) 10 (le_bytes 1 0)) 8 (le_bytes 2 (length s - m)))"

lemma head_part_seg:
  assumes "seg_ok s"
  shows "seg_ok (head_part s)" and "length (head_part s) = OCFS2_DIR_REC_LEN (seg_nl s)" and "live (head_part s) = live s"
    and "dirent_of (head_part s) = dirent_of s"
proof -
  let ?m = "OCFS2_DIR_REC_LEN (seg_nl s)"
  note o = seg_okD [OF assms] and m = rec_len_fits [OF assms] rec_len_bounds [of "seg_nl s"]
  show len: "length (head_part s) = ?m" using m by (simp add: head_part_def Let_def)
  have f: "slice (head_part s) k n = slice s k n" if "k + n \<le> 8 \<or> 10 \<le> k" "k + n \<le> ?m" for k n
    using that m by (simp add: head_part_def Let_def slice_patch_other slice_take)
  have nl: "seg_nl (head_part s) = seg_nl s" using m by (simp add: seg_nl_def f)
  have "?m < 65536" using m(1) o(5) by linarith
  then have "seg_rec (head_part s) = ?m" using m by (simp add: seg_rec_def head_part_def Let_def le2)
  then show "seg_ok (head_part s)" using len nl m by (simp add: seg_ok_def)
  show "live (head_part s) = live s" using m by (simp add: live_def seg_ino_def f)
  show "dirent_of (head_part s) = dirent_of s" using m nl by (simp add: dirent_of_def seg_ino_def seg_type_def seg_name_def f)
qed

lemma free_part_seg:
  assumes "seg_ok s" and "OCFS2_DIR_REC_LEN (seg_nl s) + 12 \<le> length s"
  shows "seg_ok (free_part s)" and "length (free_part s) = length s - OCFS2_DIR_REC_LEN (seg_nl s)" and "\<not> live (free_part s)"
proof -
  let ?m = "OCFS2_DIR_REC_LEN (seg_nl s)"
  note o = seg_okD [OF assms(1)] and m = rec_len_bounds [of "seg_nl s"]
  show len: "length (free_part s) = length s - ?m" using assms(2) by (simp add: free_part_def Let_def)
  have "seg_rec (free_part s) = length s - ?m" using assms(2) o(5) by (simp add: seg_rec_def free_part_def Let_def le2)
  moreover have "seg_nl (free_part s) = 0"
    using assms(2) le1 [of 0] by (simp add: seg_nl_def free_part_def Let_def slice_patch_other)
  moreover have "(length s - ?m) mod 4 = 0" using o(2) m(2) assms(2) by presburger
  ultimately show "seg_ok (free_part s)" using len assms(2) by (simp add: seg_ok_def)
  have "seg_ino (free_part s) = 0"
    using assms(2) le8 [of 0] by (simp add: seg_ino_def free_part_def Let_def slice_patch_other)
  then show "\<not> live (free_part s)" by (simp add: live_def)
qed

text \<open>An unused entry that takes the new name.\<close>

definition filled :: "link_struct \<Rightarrow> byte list \<Rightarrow> byte list" where
  "filled ls s = patch (patch (patch (patch s 0 (le_bytes 8 (ls_inode ls))) 10 (le_bytes 1 (length (ls_name ls))))
     12 (ls_name ls)) 11 (le_bytes 1 (ls_flags ls))"

text \<open>What the caller asks for: a name that fits, an inode number and a type.\<close>

definition request_ok :: "link_struct \<Rightarrow> bool" where
  "request_ok ls \<longleftrightarrow> length (ls_name ls) < 256 \<and> 0 < ls_inode ls \<and> ls_inode ls < 2 ^ 64 \<and> ls_flags ls < 256"

definition new_dirent :: "link_struct \<Rightarrow> byte list \<times> nat \<times> nat" where
  "new_dirent ls = (ls_name ls, ls_inode ls, ls_flags ls)"

definition need :: "link_struct \<Rightarrow> nat" where
  "need ls = OCFS2_DIR_REC_LEN (length (ls_name ls))"

lemma filled_seg:
  assumes ok: "seg_ok s" and req: "request_ok ls" and room: "need ls \<le> length s"
  shows "seg_ok (filled ls s)" and "length (filled ls s) = length s" and "live (filled ls s)" and "dirent_of (filled ls s) = new_dirent ls"
proof -
  note o = seg_okD [OF ok]
  have n: "length (ls_name ls) + 12 \<le> length s" using room rec_len_bounds(1) [of "length (ls_name ls)"] by (simp add: need_def)
  show len: "length (filled ls s) = length s" using o(1) n by (simp add: filled_def)
  have "seg_rec (filled ls s) = length s" using o n by (simp add: filled_def seg_rec_def slice_patch_other)
  moreover have nl: "seg_nl (filled ls s) = length (ls_name ls)"
    using o n req by (simp add: filled_def seg_nl_def slice_patch_other byte_val request_ok_def)
  ultimately show "seg_ok (filled ls s)" using o n len by (simp add: seg_ok_def)
  have ino: "seg_ino (filled ls s) = ls_inode ls" using o n req le8 [of "ls_inode ls"] by (simp add: filled_def seg_ino_def slice_patch_other request_ok_def)
  then show "live (filled ls s)" using req by (simp add: live_def request_ok_def)
  have "seg_name (filled ls s) = ls_name ls" using o n unfolding seg_name_def nl by (simp add: filled_def slice_patch_other)
  moreover have "seg_type (filled ls s) = ls_flags ls" using o n req by (simp add: filled_def seg_type_def byte_val request_ok_def)
  ultimately show "dirent_of (filled ls s) = new_dirent ls" using ino by (simp add: dirent_of_def new_dirent_def)
qed


section \<open>The callback on one entry\<close>

definition absorb :: "byte list \<Rightarrow> byte list list \<Rightarrow> bool \<times> byte list \<times> byte list list" where
  "absorb s segs = (case segs of [] \<Rightarrow> (False, s, []) | x # xs \<Rightarrow> if live x then (False, s, segs) else (True, joined s x, xs))"

lemma absorb_ok:
  assumes ok: "seg_ok s" "\<forall>x\<in>set segs. seg_ok x" and small: "length s + length (concat segs) < 65536" and a: "absorb s segs = (ch, s', segs')"
  shows "seg_ok s'" and "\<forall>x\<in>set segs'. seg_ok x" and "length s' + length (concat segs') = length s + length (concat segs)"
    and "listing (s' # segs') = listing (s # segs)" and "live s' = live s" and "length s \<le> length s'" and "seg_nl s' = seg_nl s"
    and "\<not> ch \<Longrightarrow> s' = s \<and> segs' = segs" and "length s' < 65536"
    and "\<exists>x\<in>set segs. \<not> live x \<and> k \<le> length x \<Longrightarrow> (\<exists>x\<in>set segs'. \<not> live x \<and> k \<le> length x) \<or> length s + k \<le> length s'"
proof -
  consider (none) "segs' = segs" "s' = s" "\<not> ch" | (some) x where "segs = x # segs'" "\<not> live x" "s' = joined s x" "ch"
    using a by (auto simp: absorb_def split: list.splits if_splits)
  then have "seg_ok s' \<and> (\<forall>x\<in>set segs'. seg_ok x) \<and> length s' + length (concat segs') = length s + length (concat segs) \<and>
    listing (s' # segs') = listing (s # segs) \<and> live s' = live s \<and> length s \<le> length s' \<and> seg_nl s' = seg_nl s \<and> (\<not> ch \<longrightarrow> s' = s \<and> segs' = segs) \<and>
    ((\<exists>x\<in>set segs. \<not> live x \<and> k \<le> length x) \<longrightarrow> (\<exists>x\<in>set segs'. \<not> live x \<and> k \<le> length x) \<or> length s + k \<le> length s')"
  proof cases
    case none
    then show ?thesis using ok by simp
  next
    case some
    have "length s + length x < 65536" using small some(1) by simp
    note j = joined_seg [OF ok(1) _ this]
    have "seg_ok x" using ok(2) some(1) by simp
    note j = j [OF this]
    show ?thesis using some ok(2) j by auto
  qed
  then show "seg_ok s'" "\<forall>x\<in>set segs'. seg_ok x" "length s' + length (concat segs') = length s + length (concat segs)"
    "listing (s' # segs') = listing (s # segs)" "live s' = live s" "length s \<le> length s'" "seg_nl s' = seg_nl s"
    "\<not> ch \<Longrightarrow> s' = s \<and> segs' = segs" "length s' < 65536"
    "\<exists>x\<in>set segs. \<not> live x \<and> k \<le> length x \<Longrightarrow> (\<exists>x\<in>set segs'. \<not> live x \<and> k \<le> length x) \<or> length s + k \<le> length s'"
    using small by (blast, blast, blast, blast, blast, blast, blast, blast, linarith, blast)
qed

lemma absorb_next_segs:
  assumes ok: "seg_ok s" "\<forall>x\<in>set segs. seg_ok x" and fin: "blockend = length pre + length s + length (concat segs)"
    and a: "absorb s segs = (ch, s', segs')"
  shows "absorb_next blockend (length pre) (pre @ s @ concat segs @ t) = Some (ch, pre @ s' @ concat segs' @ t)"
proof (cases segs)
  case Nil
  then show ?thesis using a fin seg_field_reads(4) [OF ok(1), of pre t] by (auto simp: absorb_next_def absorb_def)
next
  case (Cons x xs)
  let ?buf = "pre @ s @ concat segs @ t"
  have okx: "seg_ok x" using ok(2) Cons by simp
  note o = seg_okD [OF ok(1)] and ox = seg_okD [OF okx]
  have r: "de_rec_len ?buf (length pre) = Some (length s)" by (rule seg_field_reads(4) [OF ok(1)])
  have buf: "?buf = (pre @ s) @ x @ (concat xs @ t)" using Cons by simp
  have rx: "de_inode ?buf (length pre + length s) = Some (seg_ino x)" "de_rec_len ?buf (length pre + length s) = Some (length x)"
    using seg_field_reads(2,4) [OF okx, of "pre @ s" "concat xs @ t"] unfolding buf by simp_all
  have far: "length pre + length s + 8 < blockend" "length pre + length s + length x \<le> blockend" using fin Cons ox(1) by simp_all
  have put: "put_le 2 ?buf (length pre + 8) (length s + length x) = Some (pre @ joined s x @ concat xs @ t)"
    using write_middle [of 8 "le_bytes 2 (length s + length x)" s pre "concat segs @ t"] o(1) Cons by (simp add: put_le_def joined_def)
  show ?thesis
  proof (cases "live x")
    case True
    then show ?thesis using a Cons r rx far by (simp add: absorb_next_def absorb_def live_def)
  next
    case False
    then show ?thesis using a Cons r rx far put by (simp add: absorb_next_def absorb_def live_def)
  qed
qed

lemma put_middle: "k + n \<le> length s \<Longrightarrow> put_le n (pre @ s @ post) (length pre + k) v = Some (pre @ patch s k (le_bytes n v) @ post)"
  using write_middle [of k "le_bytes n v" s pre post] by (simp add: put_le_def)

text \<open>The four stores that split an entry.\<close>

lemma split_stores:
  assumes ok: "seg_ok s" and m: "m = OCFS2_DIR_REC_LEN (seg_nl s)" and room: "m + 12 \<le> length s"
  shows "do { buf \<leftarrow> put_le 2 (pre @ s @ post) (length pre + 8) m;
              buf \<leftarrow> put_le 8 buf (length pre + m) 0;
              buf \<leftarrow> put_le 1 buf (length pre + m + 10) 0;
              put_le 2 buf (length pre + m + 8) (length s - m) } =
    Some (pre @ head_part s @ free_part s @ post)"
proof -
  have m12: "12 \<le> m" using rec_len_bounds(1) [of "seg_nl s"] m by simp
  let ?s1 = "patch s 8 (le_bytes 2 m)" and ?h = "head_part s" and ?d = "drop m s"
  have "?s1 = patch (take m s @ drop m s) 8 (le_bytes 2 m)" by simp
  also have "\<dots> = ?h @ ?d" using m12 room m by (subst patch_append1) (simp_all add: head_part_def Let_def)
  finally have s1: "?s1 = ?h @ ?d" .
  have h: "length ?h = m" using head_part_seg(2) [OF ok] m by simp
  have d: "12 \<le> length ?d" using room by simp
  have 1: "put_le 2 (pre @ s @ post) (length pre + 8) m = Some ((pre @ ?h) @ ?d @ post)"
    using put_middle [of 8 2 s pre post m] room s1 by simp
  have 2: "put_le 8 ((pre @ ?h) @ ?d @ post) (length pre + m) 0 = Some ((pre @ ?h) @ patch ?d 0 (le_bytes 8 0) @ post)"
    using put_middle [of 0 8 ?d "pre @ ?h" post 0] d h by simp
  have 3: "put_le 1 ((pre @ ?h) @ patch ?d 0 (le_bytes 8 0) @ post) (length pre + m + 10) 0 =
      Some ((pre @ ?h) @ patch (patch ?d 0 (le_bytes 8 0)) 10 (le_bytes 1 0) @ post)"
    using put_middle [of 10 1 "patch ?d 0 (le_bytes 8 0)" "pre @ ?h" post 0] d h by (simp only: length_append add.assoc) simp
  have 4: "put_le 2 ((pre @ ?h) @ patch (patch ?d 0 (le_bytes 8 0)) 10 (le_bytes 1 0) @ post) (length pre + m + 8) (length s - m) =
      Some ((pre @ ?h) @ free_part s @ post)"
    using put_middle [of 8 2 "patch (patch ?d 0 (le_bytes 8 0)) 10 (le_bytes 1 0)" "pre @ ?h" post "length s - m"] d h m
    by (simp only: length_append add.assoc free_part_def Let_def) simp
  show ?thesis unfolding 1 2 3 4 Option.bind.simps by simp
qed

text \<open>The four stores that fill an unused entry.\<close>

lemma fill_stores:
  assumes room: "12 + length (ls_name ls) \<le> length s"
  shows "do { buf \<leftarrow> put_le 8 (pre @ s @ post) (length pre) (ls_inode ls);
              buf \<leftarrow> put_le 1 buf (length pre + 10) (length (ls_name ls));
              buf \<leftarrow> write_bytes buf (length pre + 12) (ls_name ls);
              put_le 1 buf (length pre + 11) (ls_flags ls) } =
    Some (pre @ filled ls s @ post)"
proof -
  let ?s1 = "patch s 0 (le_bytes 8 (ls_inode ls))"
  let ?s2 = "patch ?s1 10 (le_bytes 1 (length (ls_name ls)))"
  let ?s3 = "patch ?s2 12 (ls_name ls)"
  have len: "length ?s1 = length s" "length ?s2 = length s" "length ?s3 = length s" using room by simp_all
  have 1: "put_le 8 (pre @ s @ post) (length pre) (ls_inode ls) = Some (pre @ ?s1 @ post)"
    using put_middle [of 0 8 s pre post] room by simp
  have 2: "put_le 1 (pre @ ?s1 @ post) (length pre + 10) (length (ls_name ls)) = Some (pre @ ?s2 @ post)"
    using room len by (intro put_middle) simp
  have 3: "write_bytes (pre @ ?s2 @ post) (length pre + 12) (ls_name ls) = Some (pre @ ?s3 @ post)"
    using room len by (intro write_middle) simp
  have 4: "put_le 1 (pre @ ?s3 @ post) (length pre + 11) (ls_flags ls) = Some (pre @ filled ls s @ post)"
    unfolding filled_def using room len by (intro put_middle) simp
  show ?thesis unfolding 1 2 3 4 Option.bind.simps by (rule refl)
qed


text \<open>What \<open>link_proc\<close> makes of an entry and those behind it: whether it changed something, whether the name is in, and the entries.\<close>

definition link_seg :: "link_struct \<Rightarrow> byte list \<Rightarrow> byte list list \<Rightarrow> bool \<times> bool \<times> byte list \<times> byte list list" where
  "link_seg ls s segs =
     (case absorb s segs of
        (ch, s, segs) \<Rightarrow>
          if live s then
            (if length s < OCFS2_DIR_REC_LEN (seg_nl s) + need ls then (ch, False, s, segs)
             else (True, False, head_part s, free_part s # segs))
          else if length s < need ls then (ch, False, s, segs)
          else (True, True, filled ls s, segs))"

lemma bind_four:
  "do { buf \<leftarrow> f1; buf \<leftarrow> f2 buf; buf \<leftarrow> f3 buf; buf \<leftarrow> f4 buf; g buf } =
     Option.bind (do { buf \<leftarrow> f1; buf \<leftarrow> f2 buf; buf \<leftarrow> f3 buf; f4 buf }) g" for g :: "byte list \<Rightarrow> 'z option"
  by (cases f1) (simp_all add: Option.bind_assoc)

lemma link_proc_seg:
  assumes ok: "seg_ok s" "\<forall>x\<in>set segs. seg_ok x" and fin: "ls_blockend ls = length pre + length s + length (concat segs)"
    and small: "length s + length (concat segs) < 65536" and l: "link_seg ls s segs = (ch, ab, s', segs')"
  shows "link_proc (length pre) (pre @ s @ concat segs @ t) ls =
    Some (\<lparr>dirent_changed = ch, dirent_abort = ab\<rparr>, pre @ s' @ concat segs' @ t, if ab then ls\<lparr>ls_done := Suc (ls_done ls)\<rparr> else ls)"
proof -
  obtain c a as where a: "absorb s segs = (c, a, as)" by (cases "absorb s segs") auto
  note ao = absorb_ok [OF ok small a]
  note r = seg_field_reads [OF ao(1), of pre "concat as @ t"]
  note abs = absorb_next_segs [OF ok fin a, of t]
  show ?thesis
  proof (cases "live a")
    case True
    show ?thesis
    proof (cases "length a < OCFS2_DIR_REC_LEN (seg_nl a) + need ls")
      case True
      then show ?thesis using l a \<open>live a\<close> abs r by (auto simp: link_proc_def link_seg_def Let_def need_def live_def)
    next
      case False
      have room: "OCFS2_DIR_REC_LEN (seg_nl a) + 12 \<le> length a"
        using False rec_len_bounds(1) [of "length (ls_name ls)"] by (simp add: need_def)
      show ?thesis using l a \<open>live a\<close> abs r False split_stores [OF ao(1) refl room, of pre "concat as @ t"]
        by (auto simp: link_proc_def link_seg_def Let_def need_def live_def bind_four)
    qed
  next
    case dead: False
    show ?thesis
    proof (cases "length a < need ls")
      case True
      then show ?thesis using l a dead abs r by (auto simp: link_proc_def link_seg_def Let_def need_def live_def)
    next
      case False
      have room: "12 + length (ls_name ls) \<le> length a"
        using False rec_len_bounds(1) [of "length (ls_name ls)"] by (simp add: need_def)
      show ?thesis using l a dead abs r False fill_stores [OF room, of pre "concat as @ t"]
        by (auto simp: link_proc_def link_seg_def Let_def need_def live_def bind_four)
    qed
  qed
qed


lemma link_seg_ok:
  assumes ok: "seg_ok s" "\<forall>x\<in>set segs. seg_ok x" and small: "length s + length (concat segs) < 65536" and req: "request_ok ls"
    and l: "link_seg ls s segs = (ch, ab, s', segs')"
  shows "seg_ok s'" and "\<forall>x\<in>set segs'. seg_ok x" and "length s' + length (concat segs') = length s + length (concat segs)"
    and "\<not> ch \<Longrightarrow> s' = s \<and> segs' = segs" and "ab \<Longrightarrow> ch"
    and "if ab then listing (s' # segs') = new_dirent ls # listing (s # segs) else listing (s' # segs') = listing (s # segs)"
    and "\<exists>x\<in>set (s # segs). \<not> live x \<and> need ls \<le> length x \<Longrightarrow> \<not> ab \<Longrightarrow> \<exists>x\<in>set segs'. \<not> live x \<and> need ls \<le> length x"
proof -
  obtain c a as where a: "absorb s segs = (c, a, as)" by (cases "absorb s segs") auto
  note ao = absorb_ok(1-9) [OF ok small a] absorb_ok(10) [OF ok small a, where k = "need ls"]
  consider (keep) "ch = c" "\<not> ab" "s' = a" "segs' = as" "live a \<Longrightarrow> length a < OCFS2_DIR_REC_LEN (seg_nl a) + need ls" "\<not> live a \<Longrightarrow> length a < need ls"
    | (split) "ch" "\<not> ab" "s' = head_part a" "segs' = free_part a # as" "live a" "OCFS2_DIR_REC_LEN (seg_nl a) + need ls \<le> length a"
    | (fill) "ch" "ab" "s' = filled ls a" "segs' = as" "\<not> live a" "need ls \<le> length a"
    using l a by (auto simp: link_seg_def split: if_splits)
  then have "seg_ok s' \<and> (\<forall>x\<in>set segs'. seg_ok x) \<and> length s' + length (concat segs') = length s + length (concat segs) \<and>
    (\<not> ch \<longrightarrow> s' = s \<and> segs' = segs) \<and> (ab \<longrightarrow> ch) \<and>
    (if ab then listing (s' # segs') = new_dirent ls # listing (s # segs) else listing (s' # segs') = listing (s # segs)) \<and>
    ((\<exists>x\<in>set (s # segs). \<not> live x \<and> need ls \<le> length x) \<and> \<not> ab \<longrightarrow> (\<exists>x\<in>set segs'. \<not> live x \<and> need ls \<le> length x))"
  proof cases
    case keep
    have "\<not> (length s + need ls \<le> length a)" using keep(5,6) ao(7) rec_len_fits [OF ok(1)] by force
    moreover have "\<not> (\<not> live s \<and> need ls \<le> length s)" using keep(6) ao(5,6) by force
    ultimately show ?thesis using keep(1-4) ao by auto
  next
    case split
    have m: "OCFS2_DIR_REC_LEN (seg_nl a) + 12 \<le> length a"
      using split(6) rec_len_bounds(1) [of "length (ls_name ls)"] by (simp add: need_def)
    note h = head_part_seg [OF ao(1)] and f = free_part_seg [OF ao(1) m]
    have "need ls \<le> length (free_part a)" using f(2) split(6) by simp
    moreover have "listing (s' # segs') = listing (a # as)" using split(3,4,5) h f by simp
    ultimately show ?thesis using split ao(2,3,4) h f m by auto
  next
    case fill
    note f = filled_seg [OF ao(1) req fill(6)]
    have "listing (s' # segs') = new_dirent ls # listing (a # as)" using fill f by simp
    then show ?thesis using fill ao(2,3,4) f by auto
  qed
  then show "seg_ok s'" "\<forall>x\<in>set segs'. seg_ok x" "length s' + length (concat segs') = length s + length (concat segs)"
    "\<not> ch \<Longrightarrow> s' = s \<and> segs' = segs" "ab \<Longrightarrow> ch"
    "if ab then listing (s' # segs') = new_dirent ls # listing (s # segs) else listing (s' # segs') = listing (s # segs)"
    "\<exists>x\<in>set (s # segs). \<not> live x \<and> need ls \<le> length x \<Longrightarrow> \<not> ab \<Longrightarrow> \<exists>x\<in>set segs'. \<not> live x \<and> need ls \<le> length x"
    by (blast, blast, blast, blast, blast, blast, blast)
qed

section \<open>The loop over a block\<close>

text \<open>How the loop ends: the name is in, or nothing is listed that was not before and there is no room.\<close>

definition link_result :: "link_struct \<Rightarrow> byte list list \<Rightarrow> bool \<Rightarrow> byte list list \<Rightarrow> bool" where
  "link_result ls segs ab segs' \<longleftrightarrow> (\<forall>x\<in>set segs'. seg_ok x) \<and> length (concat segs') = length (concat segs) \<and>
     (if ab then (\<exists>as bs. listing segs = as @ bs \<and> listing segs' = as @ new_dirent ls # bs)
      else listing segs' = listing segs \<and> \<not> (\<exists>x\<in>set segs. \<not> live x \<and> need ls \<le> length x))"

lemma link_loop:
  assumes "\<forall>x\<in>set segs. seg_ok x" and "tail_ok fs di t" and "size_ok fs" and "request_ok ls"
    and "length pre + length (concat segs) = entries_end fs di" and "ls_blockend ls = entries_end fs di"
  shows "\<exists>segs' ab ch. ocfs2_process_dir_entry fs di dir with_empty (xlate_func link_proc) (length pre) entry nr
      \<lparr>p_buf = pre @ concat segs @ t, p_state = ls, p_changed = c0, p_abort = False, p_errcode = None\<rparr> =
    Some \<lparr>p_buf = pre @ concat segs' @ t, p_state = (if ab then ls\<lparr>ls_done := Suc (ls_done ls)\<rparr> else ls), p_changed = c0 \<or> ch,
          p_abort = ab, p_errcode = None\<rparr> \<and> link_result ls segs ab segs' \<and> (\<not> ch \<longrightarrow> segs' = segs) \<and> (ab \<longrightarrow> ch)"
  using assms(1,5)
proof (induction "length (concat segs)" arbitrary: segs pre entry nr c0 rule: less_induct)
  case less
  show ?case
  proof (cases segs)
    case Nil
    let ?ctx = "\<lparr>p_buf = pre @ t, p_state = ls, p_changed = c0, p_abort = False, p_errcode = None\<rparr>"
    have "ocfs2_process_dir_entry fs di dir with_empty (xlate_func link_proc) (length pre) entry nr ?ctx = Some ?ctx"
      using process_tail [of fs di t pre ?ctx with_empty] assms(2,3) less.prems Nil by (simp add: plain_def)
    then show ?thesis using Nil by (intro exI [of _ "[]"] exI [of _ False]) (simp add: link_result_def)
  next
    case (Cons s rest)
    have ok: "seg_ok s" "\<forall>x\<in>set rest. seg_ok x" using less.prems(1) Cons by simp_all
    have total: "length pre + length s + length (concat rest) = entries_end fs di" using less.prems(2) Cons by simp
    have bs: "entries_end fs di \<le> fs_blocksize fs" "fs_blocksize fs \<le> 4096"
      using assms(3) by (simp_all add: entries_end_def ocfs2_dir_trailer_blk_off_def size_ok_def)
    then have small: "length s + length (concat rest) < 65536" and fits: "length pre + length s \<le> fs_blocksize fs" using total by linarith+
    have before: "\<not> ocfs2_skip_dir_trailer fs di (length pre)" using total seg_okD(1) [OF ok(1)] by (intro entry_before_end) linarith
    obtain ch ab s' rest' where l: "link_seg ls s rest = (ch, ab, s', rest')" by (cases "link_seg ls s rest") auto
    note lo = link_seg_ok [OF ok small assms(4) l]
    let ?ctx = "\<lparr>p_buf = pre @ concat segs @ t, p_state = ls, p_changed = c0, p_abort = False, p_errcode = None\<rparr>"
    have buf: "p_buf ?ctx = pre @ s @ (concat rest @ t)" using Cons by simp
    have call: "link_proc (length pre) (p_buf ?ctx) (p_state ?ctx) = Some (\<lparr>dirent_changed = ch, dirent_abort = ab\<rparr>, pre @ s' @ (concat rest' @ t),
        if ab then ls\<lparr>ls_done := Suc (ls_done ls)\<rparr> else ls)"
      using link_proc_seg [OF ok _ small l, of pre t] assms(6) total buf by simp
    have pl: "plain with_empty" by (simp add: plain_def)
    let ?ctx' = "\<lparr>p_buf = pre @ s' @ concat rest' @ t, p_state = (if ab then ls\<lparr>ls_done := Suc (ls_done ls)\<rparr> else ls), p_changed = c0 \<or> ch,
        p_abort = ab, p_errcode = None\<rparr>"
    obtain e n where step: "ocfs2_process_dir_entry fs di dir with_empty (xlate_func link_proc) (length pre) entry nr ?ctx =
        (if ab then Some ?ctx' else ocfs2_process_dir_entry fs di dir with_empty (xlate_func link_proc) (length pre + length s') e n ?ctx')"
    proof -
      have emp: "live s \<or> include_empty with_empty" by simp
      have "?ctx\<lparr>p_buf := pre @ s' @ concat rest' @ t, p_state := (if ab then ls\<lparr>ls_done := Suc (ls_done ls)\<rparr> else ls),
          p_changed := p_changed ?ctx \<or> ch, p_abort := p_abort ?ctx \<or> ab\<rparr> = ?ctx'" by simp
      from process_call [where func = link_proc and dir = dir and entry = entry and nr = nr, OF ok(1) fits buf pl before emp call lo(1), unfolded this]
      show ?thesis by (elim exE) (rule that)
    qed
    show ?thesis
    proof (cases ab)
      case True
      have "link_result ls segs True (s' # rest')"
        using lo(1,2,3,6) True Cons by (auto simp: link_result_def)
      then show ?thesis using step True lo(5) by (intro exI [of _ "s' # rest'"] exI [of _ True]) simp
    next
      case False
      have len: "length (concat rest') < length (concat segs)" "length (pre @ s') + length (concat rest') = entries_end fs di"
        using lo(3) seg_okD(1) [OF lo(1)] total Cons by simp_all
      obtain segs2 ab2 ch2 where rec: "ocfs2_process_dir_entry fs di dir with_empty (xlate_func link_proc) (length (pre @ s')) e n
          \<lparr>p_buf = (pre @ s') @ concat rest' @ t, p_state = ls, p_changed = c0 \<or> ch, p_abort = False, p_errcode = None\<rparr> =
        Some \<lparr>p_buf = (pre @ s') @ concat segs2 @ t, p_state = (if ab2 then ls\<lparr>ls_done := Suc (ls_done ls)\<rparr> else ls), p_changed = (c0 \<or> ch) \<or> ch2,
          p_abort = ab2, p_errcode = None\<rparr>" "link_result ls rest' ab2 segs2" "\<not> ch2 \<longrightarrow> segs2 = rest'" "ab2 \<longrightarrow> ch2"
        using less.hyps [OF len(1) lo(2) len(2)] by metis
      have "link_result ls segs ab2 (s' # segs2)"
      proof -
        have l6: "listing (s' # rest') = listing segs" using lo(6) False Cons by simp
        show ?thesis
        proof (cases ab2)
          case True
          then obtain as bs where ab: "listing rest' = as @ bs" "listing segs2 = as @ new_dirent ls # bs" using rec(2) by (auto simp: link_result_def)
          let ?h = "if live s' then [dirent_of s'] else []"
          have "listing segs = (?h @ as) @ bs" "listing (s' # segs2) = (?h @ as) @ new_dirent ls # bs" using ab l6 by simp_all
          then have "\<exists>as bs. listing segs = as @ bs \<and> listing (s' # segs2) = as @ new_dirent ls # bs" by blast
          moreover have "\<forall>x\<in>set (s' # segs2). seg_ok x" "length (concat (s' # segs2)) = length (concat segs)"
            using rec(2) lo(1,3) Cons by (auto simp: link_result_def)
          ultimately show ?thesis using True unfolding link_result_def by presburger
        next
          case False
          then show ?thesis using rec(2) lo(1,3,7) \<open>\<not> ab\<close> Cons l6 by (auto simp: link_result_def)
        qed
      qed
      then show ?thesis using step False rec lo(4) Cons
        by (intro exI [of _ "s' # segs2"] exI [of _ ab2] exI [of _ "ch \<or> ch2"]) (auto simp: disj_assoc)
    qed
  qed
qed


section \<open>The blocks of a directory\<close>

lemma link_block:
  assumes b: "sound_block fs di b segs" and size: "size_ok fs" and ninl: "\<not> inline_dir fs di" and req: "request_ok ls"
    and fin: "ls_blockend ls = entries_end fs di"
  shows "\<exists>ab segs' b'. ocfs2_process_dir_block di dir with_empty (xlate_func link_proc) b cnt fs ls =
      Some (\<not> ab, None, fs\<lparr>disk := (disk fs)(b := b')\<rparr>, if ab then ls\<lparr>ls_done := Suc (ls_done ls)\<rparr> else ls) \<and>
    on_disk fs di segs' b' \<and> link_result ls segs ab segs'"
proof -
  have od: "on_disk fs di segs (disk fs b)" and r: "rfail fs b = None" and w: "wfail fs b = None" using b by (simp_all add: sound_block_def)
  have bo: "block_of fs di segs (disk fs b)" using od by (simp add: on_disk_def)
  obtain t where t: "disk fs b = concat segs @ t" "tail_ok fs di t" "length (concat segs) = entries_end fs di" using bo by (rule block_of_end)
  have ok: "\<forall>x\<in>set segs. seg_ok x" using bo by (simp add: block_of_def)
  let ?entry = "if cnt \<noteq> 0 then OCFS2_DIRENT_OTHER_FILE else OCFS2_DIRENT_DOT_FILE"
  obtain segs' ab ch where l: "ocfs2_process_dir_entry fs di dir with_empty (xlate_func link_proc) 0 ?entry 0
      \<lparr>p_buf = disk fs b, p_state = ls, p_changed = False, p_abort = False, p_errcode = None\<rparr> =
    Some \<lparr>p_buf = concat segs' @ t, p_state = (if ab then ls\<lparr>ls_done := Suc (ls_done ls)\<rparr> else ls), p_changed = ch, p_abort = ab, p_errcode = None\<rparr>"
    "link_result ls segs ab segs'" "\<not> ch \<longrightarrow> segs' = segs" "ab \<longrightarrow> ch"
    using link_loop [OF ok t(2) size req, of "[]" dir ?entry 0 False] t(1,3) fin by auto
  have bo': "block_of fs di segs' (concat segs' @ t)" using l(2) bo t by (auto simp: link_result_def block_of_def)
  show ?thesis
  proof (cases ch)
    case True
    obtain b' where b': "ocfs2_write_dir_block fs di b (concat segs' @ t) = Some (None, fs\<lparr>disk := (disk fs)(b := b')\<rparr>)" "on_disk fs di segs' b'"
      using write_dir_block_ok [OF bo' size w ninl] by blast
    then show ?thesis using read_dir_block_ok [OF od r] l True
      by (intro exI [of _ ab] exI [of _ segs'] exI [of _ b']) (simp add: ocfs2_process_dir_block_def Let_def)
  next
    case False
    then show ?thesis using read_dir_block_ok [OF od r] l od
      by (intro exI [of _ ab] exI [of _ segs] exI [of _ "disk fs b"]) (simp add: ocfs2_process_dir_block_def Let_def)
  qed
qed

text \<open>How the iteration over a directory ends.\<close>

definition dir_result :: "link_struct \<Rightarrow> byte list list list \<Rightarrow> bool \<Rightarrow> byte list list list \<Rightarrow> bool" where
  "dir_result ls segss ab segss' \<longleftrightarrow>
     (if ab then (\<exists>as bs. dir_listing segss = as @ bs \<and> dir_listing segss' = as @ new_dirent ls # bs)
      else dir_listing segss' = dir_listing segss \<and> \<not> (\<exists>x\<in>set (concat segss). \<not> live x \<and> need ls \<le> length x))"

lemma dir_listing_Cons: "dir_listing (segs # segss) = listing segs @ dir_listing segss"
  by (simp add: dir_listing_def)

lemma sound_blocks_other:
  "list_all2 (sound_block fs di) bs segss \<Longrightarrow> b \<notin> set bs \<Longrightarrow> list_all2 (sound_block (fs\<lparr>disk := (disk fs)(b := x)\<rparr>) di) bs segss"
  by (induction rule: list_all2_induct) (auto simp: sound_block_other)

lemma link_blocks:
  assumes "list_all2 (sound_block fs di) bs segss" and "size_ok fs" and "\<not> inline_dir fs di" and "request_ok ls"
    and "ls_blockend ls = entries_end fs di" and "distinct bs"
  shows "\<exists>ab segss' d. iterate_blocks di dir with_empty (xlate_func link_proc) bs cnt fs ls =
      Some (None, fs\<lparr>disk := d\<rparr>, if ab then ls\<lparr>ls_done := Suc (ls_done ls)\<rparr> else ls) \<and>
    list_all2 (sound_block (fs\<lparr>disk := d\<rparr>) di) bs segss' \<and> (\<forall>c. c \<notin> set bs \<longrightarrow> d c = disk fs c) \<and> dir_result ls segss ab segss'"
  using assms
proof (induction bs arbitrary: segss fs cnt)
  case Nil
  then show ?case by (intro exI [of _ False] exI [of _ "[]"] exI [of _ "disk fs"]) (simp add: dir_result_def)
next
  case (Cons b bs)
  obtain segs rest where ss: "segss = segs # rest" "sound_block fs di b segs" "list_all2 (sound_block fs di) bs rest"
    using Cons.prems(1) by (auto simp: list_all2_Cons1)
  obtain ab segs' b' where step: "ocfs2_process_dir_block di dir with_empty (xlate_func link_proc) b cnt fs ls =
      Some (\<not> ab, None, fs\<lparr>disk := (disk fs)(b := b')\<rparr>, if ab then ls\<lparr>ls_done := Suc (ls_done ls)\<rparr> else ls)"
    "on_disk fs di segs' b'" "link_result ls segs ab segs'"
    using link_block [OF ss(2) Cons.prems(2-5), of dir cnt] by blast
  let ?fs = "fs\<lparr>disk := (disk fs)(b := b')\<rparr>"
  have sb: "sound_block ?fs di b segs'" using step(2) ss(2) by (simp add: sound_block_def)
  have rest: "list_all2 (sound_block ?fs di) bs rest" using sound_blocks_other [OF ss(3)] Cons.prems(6) by simp
  show ?case
  proof (cases ab)
    case True
    obtain as cs where "listing segs = as @ cs" "listing segs' = as @ new_dirent ls # cs" using step(3) True by (auto simp: link_result_def)
    then have "dir_listing segss = as @ (cs @ dir_listing rest)" "dir_listing (segs' # rest) = as @ new_dirent ls # (cs @ dir_listing rest)"
      using ss(1) by (simp_all add: dir_listing_Cons)
    then have "dir_result ls segss True (segs' # rest)" unfolding dir_result_def by auto
    moreover have "iterate_blocks di dir with_empty (xlate_func link_proc) (b # bs) cnt fs ls = Some (None, ?fs, ls\<lparr>ls_done := Suc (ls_done ls)\<rparr>)"
      using step(1) True by simp
    ultimately show ?thesis using sb rest
      by (intro exI [of _ True] exI [of _ "segs' # rest"] exI [of _ "(disk fs)(b := b')"]) (simp add: fun_upd_def)
  next
    case False
    obtain ab2 rest' d where rec: "iterate_blocks di dir with_empty (xlate_func link_proc) bs (Suc cnt) ?fs ls =
        Some (None, ?fs\<lparr>disk := d\<rparr>, if ab2 then ls\<lparr>ls_done := Suc (ls_done ls)\<rparr> else ls)"
      "list_all2 (sound_block (?fs\<lparr>disk := d\<rparr>) di) bs rest'" "\<forall>c. c \<notin> set bs \<longrightarrow> d c = disk ?fs c" "dir_result ls rest ab2 rest'"
      using Cons.IH [OF rest, of "Suc cnt"] Cons.prems(2-6) by auto
    have l: "listing segs' = listing segs" "\<not> (\<exists>x\<in>set segs. \<not> live x \<and> need ls \<le> length x)" using step(3) False by (simp_all add: link_result_def)
    have "dir_result ls segss ab2 (segs' # rest')"
    proof (cases ab2)
      case True
      then obtain as cs where "dir_listing rest = as @ cs" "dir_listing rest' = as @ new_dirent ls # cs" using rec(4) by (auto simp: dir_result_def)
      then have "dir_listing segss = (listing segs @ as) @ cs" "dir_listing (segs' # rest') = (listing segs @ as) @ new_dirent ls # cs"
        using ss(1) l(1) by (simp_all add: dir_listing_Cons)
      then show ?thesis using True unfolding dir_result_def by metis
    next
      case False
      then show ?thesis using rec(4) l ss(1) by (auto simp: dir_result_def dir_listing_Cons)
    qed
    moreover have "sound_block (?fs\<lparr>disk := d\<rparr>) di b segs'" using sb rec(3) Cons.prems(6) by (simp add: sound_block_def)
    moreover have "iterate_blocks di dir with_empty (xlate_func link_proc) (b # bs) cnt fs ls =
        Some (None, ?fs\<lparr>disk := d\<rparr>, if ab2 then ls\<lparr>ls_done := Suc (ls_done ls)\<rparr> else ls)"
      using step(1) False rec(1) by simp
    ultimately show ?thesis using rec(2,3)
      by (intro exI [of _ ab2] exI [of _ "segs' # rest'"] exI [of _ d]) simp
  qed
qed


section \<open>Expanding a directory\<close>

definition empty_seg :: "nat \<Rightarrow> byte list" where
  "empty_seg n = patch (replicate n 0) 8 (le_bytes 2 n)"

lemma le_val_zeros: "le_val (replicate n 0) = 0"
  by (induction n) simp_all

lemma slice_zeros: "k + m \<le> n \<Longrightarrow> slice (replicate n (0 :: byte)) k m = replicate m 0"
  by (simp add: slice_def)

lemma empty_seg_ok:
  assumes "12 \<le> n" and "n mod 4 = 0" and "n < 65536"
  shows "seg_ok (empty_seg n)" and "length (empty_seg n) = n" and "\<not> live (empty_seg n)"
proof -
  show len: "length (empty_seg n) = n" using assms(1) by (simp add: empty_seg_def)
  have "seg_rec (empty_seg n) = n" using assms by (simp add: empty_seg_def seg_rec_def le2)
  moreover have "seg_nl (empty_seg n) = 0" "seg_ino (empty_seg n) = 0"
    using assms(1) le_val_zeros [of 8] le_val_zeros [of 1] by (simp_all add: empty_seg_def seg_nl_def seg_ino_def slice_patch_other slice_zeros)
  ultimately show "seg_ok (empty_seg n)" "\<not> live (empty_seg n)" using len assms(1,2) by (simp_all add: seg_ok_def live_def)
qed

definition trailer_of :: "nat \<Rightarrow> nat \<Rightarrow> byte list" where
  "trailer_of blkno parent =
     patch (patch (patch (patch (replicate trailer_size 0) 16 OCFS2_DIR_TRAILER_SIGNATURE) 8 (le_bytes 2 trailer_size)) 32 (le_bytes 8 blkno))
       40 (le_bytes 8 parent)"

lemma trailer_of_ok: "trailer_ok (trailer_of blkno parent)"
proof -
  have "le_val (le_bytes 2 64) = 64" by (simp add: le2)
  then show ?thesis
    using le_val_zeros [of 8] le_val_zeros [of 1]
    by (simp add: trailer_ok_def trailer_of_def trailer_size_def seg_ino_def seg_rec_def seg_nl_def slice_patch_other signature_length slice_zeros)
qed

lemma init_trailer:
  assumes len: "length pre = ocfs2_dir_trailer_blk_off fs" and t: "length t = trailer_size"
  shows "ocfs2_init_dir_trailer fs di blkno (pre @ t) = Some (pre @ trailer_of blkno (i_blkno di))"
proof -
  have zero: "patch t 0 (replicate trailer_size 0) = replicate trailer_size 0" using t by (simp add: patch_def)
  let ?t0 = "replicate trailer_size 0 :: byte list"
  let ?t1 = "patch ?t0 16 OCFS2_DIR_TRAILER_SIGNATURE" let ?t2 = "patch ?t1 8 (le_bytes 2 trailer_size)" let ?t3 = "patch ?t2 32 (le_bytes 8 blkno)"
  have l: "length ?t1 = 64" "length ?t2 = 64" "length ?t3 = 64" by (simp_all add: trailer_size_def signature_length)
  have 0: "write_bytes (pre @ t) (length pre) ?t0 = Some (pre @ ?t0)"
    using write_middle [of 0 ?t0 t pre "[]"] t zero by simp
  have 1: "write_bytes (pre @ ?t0) (length pre + 16) OCFS2_DIR_TRAILER_SIGNATURE = Some (pre @ ?t1)"
    using write_middle [of 16 OCFS2_DIR_TRAILER_SIGNATURE ?t0 pre "[]"] by (simp add: trailer_size_def signature_length)
  have 2: "put_le 2 (pre @ ?t1) (length pre + 8) trailer_size = Some (pre @ ?t2)" using put_middle [of 8 2 ?t1 pre "[]"] l by simp
  have 3: "put_le 8 (pre @ ?t2) (length pre + 32) blkno = Some (pre @ ?t3)" using put_middle [of 32 8 ?t2 pre "[]"] l by simp
  have 4: "put_le 8 (pre @ ?t3) (length pre + 40) (i_blkno di) = Some (pre @ trailer_of blkno (i_blkno di))"
    using put_middle [of 40 8 ?t3 pre "[]"] l by (simp add: trailer_of_def)
  show ?thesis unfolding ocfs2_init_dir_trailer_def Let_def len [symmetric] 0 1 2 3 4 Option.bind.simps by simp
qed

text \<open>
  What \<open>ocfs2_expand_dir\<close> relies on: if the directory has no block left it can be extended; the next block is the
  block \<open>new\<close>, which the directory did not have; and after the inode was written with the new size the
  blocks of the directory are the old ones and \<open>new\<close>.
\<close>

definition can_grow :: "'m dirlib \<Rightarrow> 'm filesys \<Rightarrow> nat \<Rightarrow> dinode \<Rightarrow> nat list \<Rightarrow> nat \<Rightarrow> bool" where
  "can_grow lib fs dir di bs new \<longleftrightarrow>
     (let used = i_size di div fs_blocksize fs in
      \<exists>m di1 m' di'.
        (if used \<ge> blocks_of_clusters lib (meta fs) (i_clusters di)
         then extend_allocation lib (meta fs) dir 1 = Inr m \<and> read_inode lib m dir = Inr di1 else m = meta fs \<and> di1 = di) \<and>
        get_blocks lib m dir used = Inr new \<and>
        write_cached_inode lib m dir (di1\<lparr>i_size := i_size di1 + fs_blocksize fs\<rparr>) = Inr m' \<and>
        check_directory lib m' dir = None \<and> read_inode lib m' dir = Inr di' \<and> iterated_blocks lib m' dir = Inr (bs @ [new]) \<and>
        new \<notin> set bs \<and> rfail fs new = None \<and> wfail fs new = None \<and> \<not> inline_dir fs di1 \<and> \<not> inline_dir fs di')"

lemma on_disk_inode: "\<not> inline_dir fs di \<Longrightarrow> \<not> inline_dir fs di' \<Longrightarrow> on_disk fs di segs b = on_disk fs di' segs b"
  and sound_block_inode: "\<not> inline_dir fs di \<Longrightarrow> \<not> inline_dir fs di' \<Longrightarrow> sound_block fs di = sound_block fs di'"
  and entries_end_inode: "\<not> inline_dir fs di \<Longrightarrow> \<not> inline_dir fs di' \<Longrightarrow> entries_end fs di = entries_end fs di'"
  by (auto simp: on_disk_def block_of_def tail_ok_def sound_block_def entries_end_def ocfs2_dir_has_trailer_def fun_eq_iff)

lemma new_block:
  assumes size: "size_ok fs" and fin: "E = entries_end fs di"
  shows "\<exists>buf. (if ocfs2_dir_has_trailer fs di
      then do { buf \<leftarrow> put_le 2 (replicate (fs_blocksize fs) 0) 8 (ocfs2_dir_trailer_blk_off fs); ocfs2_init_dir_trailer fs di new buf }
      else put_le 2 (replicate (fs_blocksize fs) 0) 8 (fs_blocksize fs)) = Some buf \<and> block_of fs di [empty_seg E] buf"
proof -
  have E: "12 \<le> E" "E mod 4 = 0" "E < 65536" "E \<le> fs_blocksize fs"
    using size fin by (auto simp: size_ok_def entries_end_def ocfs2_dir_trailer_blk_off_def trailer_size_def)
  note e = empty_seg_ok [OF E(1-3)]
  show ?thesis
  proof (cases "ocfs2_dir_has_trailer fs di")
    case True
    have off: "E = ocfs2_dir_trailer_blk_off fs" "fs_blocksize fs = E + trailer_size"
      using True fin size by (simp_all add: entries_end_def ocfs2_dir_trailer_blk_off_def size_ok_def trailer_size_def)
    have "put_le 2 (replicate (fs_blocksize fs) 0) 8 E = Some (empty_seg E @ replicate trailer_size 0)"
      using put_middle [of 8 2 "replicate E 0" "[]" "replicate trailer_size 0" E] E(1) off(2) by (simp add: replicate_add empty_seg_def)
    moreover have "ocfs2_init_dir_trailer fs di new (empty_seg E @ replicate trailer_size 0) = Some (empty_seg E @ trailer_of new (i_blkno di))"
      using e(2) off(1) by (intro init_trailer) simp_all
    moreover have "block_of fs di [empty_seg E] (empty_seg E @ trailer_of new (i_blkno di))"
      using e off(2) trailer_of_ok [of new "i_blkno di"] True by (auto simp: block_of_def tail_ok_def trailer_ok_def)
    ultimately show ?thesis using True off(1) by simp
  next
    case False
    then have "E = fs_blocksize fs" using fin by (simp add: entries_end_def)
    moreover have "put_le 2 (replicate E 0) 8 E = Some (empty_seg E)"
      using put_middle [of 8 2 "replicate E 0" "[]" "[]" E] E(1) by (simp add: empty_seg_def)
    ultimately show ?thesis using False e by (auto simp: block_of_def tail_ok_def)
  qed
qed

lemma expand_dir_ok:
  assumes dir: "sound_dir lib fs dir di bs segss" and rw: "fs_rw fs" and grow: "can_grow lib fs dir di bs new"
  shows "\<exists>fs' di'. ocfs2_expand_dir lib dir fs = Some (None, fs') \<and> sound_dir lib fs' dir di' (bs @ [new]) (segss @ [[empty_seg (entries_end fs di)]]) \<and>
    read_inode lib (meta fs') dir = Inr di' \<and> entries_end fs' di' = entries_end fs di \<and> fs_rw fs' = fs_rw fs \<and> fs_blocks fs' = fs_blocks fs"
proof -
  let ?used = "i_size di div fs_blocksize fs"
  obtain m di1 m' di' where g:
    "if ?used \<ge> blocks_of_clusters lib (meta fs) (i_clusters di)
     then extend_allocation lib (meta fs) dir 1 = Inr m \<and> read_inode lib m dir = Inr di1 else m = meta fs \<and> di1 = di"
    "get_blocks lib m dir ?used = Inr new" "write_cached_inode lib m dir (di1\<lparr>i_size := i_size di1 + fs_blocksize fs\<rparr>) = Inr m'"
    "check_directory lib m' dir = None" "read_inode lib m' dir = Inr di'" "iterated_blocks lib m' dir = Inr (bs @ [new])"
    "new \<notin> set bs" "rfail fs new = None" "wfail fs new = None" "\<not> inline_dir fs di1" "\<not> inline_dir fs di'"
    using grow unfolding can_grow_def Let_def by blast
  have d: "size_ok fs" "check_directory lib (meta fs) dir = None" "read_inode lib (meta fs) dir = Inr di" "\<not> inline_dir fs di"
    "distinct bs" "list_all2 (sound_block fs di) bs segss" using dir by (simp_all add: sound_dir_def)
  let ?fs1 = "fs\<lparr>meta := m\<rparr>"
  have E: "entries_end fs di = entries_end ?fs1 di1" using entries_end_inode [OF d(4) g(10)] by simp
  obtain buf where buf: "(if ocfs2_dir_has_trailer ?fs1 di1
      then do { buf \<leftarrow> put_le 2 (replicate (fs_blocksize ?fs1) 0) 8 (ocfs2_dir_trailer_blk_off ?fs1); ocfs2_init_dir_trailer ?fs1 di1 new buf }
      else put_le 2 (replicate (fs_blocksize ?fs1) 0) 8 (fs_blocksize ?fs1)) = Some buf" "block_of ?fs1 di1 [empty_seg (entries_end fs di)] buf"
    using new_block [of ?fs1 "entries_end fs di" di1 new] d(1) E by auto
  obtain b' where b': "ocfs2_write_dir_block ?fs1 di1 new buf = Some (None, ?fs1\<lparr>disk := (disk ?fs1)(new := b')\<rparr>)"
    "on_disk ?fs1 di1 [empty_seg (entries_end fs di)] b'"
    using write_dir_block_ok [OF buf(2)] d(1) g(9,10) by auto
  let ?fs2 = "?fs1\<lparr>disk := (disk ?fs1)(new := b')\<rparr>" let ?fs3 = "?fs2\<lparr>meta := m'\<rparr>"
  have ext: "(if ?used \<ge> blocks_of_clusters lib (meta fs) (i_clusters di)
      then (case extend_allocation lib (meta fs) dir 1 of Inl e \<Rightarrow> Inl e
            | Inr m \<Rightarrow> (case read_inode lib m dir of Inl e \<Rightarrow> Inl e | Inr di \<Rightarrow> Inr (di, m)))
      else Inr (di, meta fs)) = Inr (di1, m)" using g(1) by (auto split: if_splits)
  have "ocfs2_expand_dir lib dir fs = Some (None, ?fs3)"
    using rw d(2,3,4) g(2,3) b'(1) buf(1) ext unfolding ocfs2_expand_dir_def Let_def by simp
  moreover have "sound_dir lib ?fs3 dir di' (bs @ [new]) (segss @ [[empty_seg (entries_end fs di)]])"
  proof -
    have keep: "list_all2 (sound_block ?fs3 di') bs segss"
      using d(6) g(7) unfolding sound_block_inode [OF d(4) g(11)]
      by (induction rule: list_all2_induct) (auto simp: sound_block_def)
    have "sound_block ?fs3 di' new [empty_seg (entries_end fs di)]"
      using b'(2) g(8,9) on_disk_inode [OF g(10,11)] by (simp add: sound_block_def)
    then show ?thesis using keep d(1,5) g by (simp add: sound_dir_def list_all2_appendI)
  qed
  moreover have "entries_end ?fs3 di' = entries_end fs di" using entries_end_inode [OF d(4) g(11)] by simp
  ultimately show ?thesis using g(5) by (intro exI [of _ ?fs3] exI [of _ di']) simp
qed


section \<open>Linking\<close>

lemma iterate_link:
  assumes dir: "sound_dir lib fs dir di bs segss" and req: "request_ok ls" and fin: "ls_blockend ls = entries_end fs di"
  shows "\<exists>ab segss' fs'. ocfs2_dir_iterate lib dir with_empty link_proc fs ls = Some (None, fs', if ab then ls\<lparr>ls_done := Suc (ls_done ls)\<rparr> else ls) \<and>
    sound_dir lib fs' dir di bs segss' \<and> dir_result ls segss ab segss' \<and> (\<exists>d. fs' = fs\<lparr>disk := d\<rparr> \<and> (\<forall>c. c \<notin> set bs \<longrightarrow> d c = disk fs c))"
proof -
  have d: "list_all2 (sound_block fs di) bs segss" "size_ok fs" "\<not> inline_dir fs di" "distinct bs" using dir by (simp_all add: sound_dir_def)
  obtain ab segss' dd where r: "iterate_blocks di dir with_empty (xlate_func link_proc) bs 0 fs ls =
      Some (None, fs\<lparr>disk := dd\<rparr>, if ab then ls\<lparr>ls_done := Suc (ls_done ls)\<rparr> else ls)"
    "list_all2 (sound_block (fs\<lparr>disk := dd\<rparr>) di) bs segss'" "dir_result ls segss ab segss'" "\<forall>c. c \<notin> set bs \<longrightarrow> dd c = disk fs c"
    using link_blocks [OF d(1-3) req fin d(4), of dir 0] by blast
  have "ocfs2_dir_iterate lib dir with_empty link_proc fs ls = Some (None, fs\<lparr>disk := dd\<rparr>, if ab then ls\<lparr>ls_done := Suc (ls_done ls)\<rparr> else ls)"
    using dir r(1) by (simp add: sound_dir_def ocfs2_dir_iterate_def ocfs2_dir_iterate2_def)
  moreover have "sound_dir lib (fs\<lparr>disk := dd\<rparr>) dir di bs segss'" using dir r(2) by (simp add: sound_dir_def)
  ultimately show ?thesis using r(3,4) by blast
qed

text \<open>
  A link is asked of a writable filesystem, for an inode of it, with a name and a type that fit their
  fields, and the directory can grow if it is full.
\<close>

lemma link_dir:
  assumes dir: "sound_dir lib fs dir di bs segss" and rw: "fs_rw fs" and ino: "2 \<le> ino" "ino \<le> fs_blocks fs" "ino < 2 ^ 64"
    and name: "length name < 256" and fl: "flags < 256"
    and grow: "\<And>d. (\<forall>c. c \<notin> set bs \<longrightarrow> d c = disk fs c) \<Longrightarrow> can_grow lib (fs\<lparr>disk := d\<rparr>) dir di bs new"
  shows "\<exists>fs' di' bs' segss' as cs. ocfs2_link lib dir name ino flags fs = Some (None, fs') \<and> sound_dir lib fs' dir di' bs' segss' \<and>
    dir_listing segss = as @ cs \<and> dir_listing segss' = as @ (name, ino, flags) # cs"
proof -
  let ?ls = "\<lparr>ls_name = name, ls_inode = ino, ls_flags = flags, ls_done = 0, ls_blockend = entries_end fs di\<rparr>"
  have req: "request_ok ?ls" and new: "new_dirent ?ls = (name, ino, flags)" using name ino fl by (simp_all add: request_ok_def new_dirent_def)
  have rd: "read_inode lib (meta fs) dir = Inr di" and size: "size_ok fs" using dir by (simp_all add: sound_dir_def)
  obtain ab segss1 d where it: "ocfs2_dir_iterate lib dir with_empty link_proc fs ?ls = Some (None, fs\<lparr>disk := d\<rparr>, if ab then ?ls\<lparr>ls_done := Suc (ls_done ?ls)\<rparr> else ?ls)"
    "sound_dir lib (fs\<lparr>disk := d\<rparr>) dir di bs segss1" "dir_result ?ls segss ab segss1" "\<forall>c. c \<notin> set bs \<longrightarrow> d c = disk fs c"
    using iterate_link [OF dir req] by auto
  show ?thesis
  proof (cases ab)
    case True
    then obtain as cs where "dir_listing segss = as @ cs" "dir_listing segss1 = as @ (name, ino, flags) # cs" using it(3) new by (auto simp: dir_result_def)
    moreover have "ocfs2_link lib dir name ino flags fs = Some (None, fs\<lparr>disk := d\<rparr>)"
      using it(1) rd True rw ino by (simp add: ocfs2_link_def OCFS2_SUPER_BLOCK_BLKNO_def)
    ultimately show ?thesis using it(2) by blast
  next
    case False
    let ?fs1 = "fs\<lparr>disk := d\<rparr>" let ?E = "entries_end fs di"
    obtain fs2 di2 where e: "ocfs2_expand_dir lib dir ?fs1 = Some (None, fs2)" "sound_dir lib fs2 dir di2 (bs @ [new]) (segss1 @ [[empty_seg ?E]])"
      "read_inode lib (meta fs2) dir = Inr di2" "entries_end fs2 di2 = ?E"
      using expand_dir_ok [OF it(2) _ grow [OF it(4)]] rw by auto
    have same: "?ls\<lparr>ls_blockend := entries_end fs2 di2\<rparr> = ?ls" using e(4) by simp
    obtain ab2 segss2 fs3 where i2: "ocfs2_dir_iterate lib dir with_empty link_proc fs2 ?ls = Some (None, fs3, if ab2 then ?ls\<lparr>ls_done := Suc (ls_done ?ls)\<rparr> else ?ls)"
      "sound_dir lib fs3 dir di2 (bs @ [new]) segss2" "dir_result ?ls (segss1 @ [[empty_seg ?E]]) ab2 segss2"
      using iterate_link [OF e(2) req] e(4) by auto
    have E: "12 \<le> ?E" "?E mod 4 = 0" "?E < 65536" "448 \<le> ?E"
      using size by (auto simp: size_ok_def entries_end_def ocfs2_dir_trailer_blk_off_def trailer_size_def)
    have "\<not> live (empty_seg ?E) \<and> need ?ls \<le> length (empty_seg ?E)"
      using empty_seg_ok(2,3) [OF E(1-3)] E(4) rec_len_bounds(3) [of "length name"] name by (simp add: need_def)
    then have ab2: ab2 using i2(3) by (auto simp: dir_result_def split: if_splits)
    have "dir_listing (segss1 @ [[empty_seg ?E]]) = dir_listing segss"
      using it(3) False empty_seg_ok(3) [OF E(1-3)] by (simp add: dir_result_def dir_listing_def)
    then obtain as cs where l: "dir_listing segss = as @ cs" "dir_listing segss2 = as @ (name, ino, flags) # cs"
      using i2(3) ab2 new by (auto simp: dir_result_def)
    have "ocfs2_link lib dir name ino flags fs = Some (None, fs3)"
      using it(1) rd False rw ino e(1,3) same i2(1) ab2 by (simp add: ocfs2_link_def OCFS2_SUPER_BLOCK_BLKNO_def)
    then show ?thesis using i2(2) l by blast
  qed
qed

end
