(* ===== verification/Dir_Props.thy ===== *)
theory Dir_Props
  imports Dir_Link
begin

text \<open>
  The properties of the directory operations, with a small directory as the witness, and what the code
  does on some blocks that are not sound.
\<close>

section \<open>A small directory\<close>

text \<open>The directory 5 of a filesystem with blocks of 512 bytes; \<open>meta\<close> is the list of its blocks.\<close>

definition small_inode :: dinode where
  "small_inode = \<lparr>i_blkno = 5, i_dyn_features = 0, i_size = 512, i_clusters = 1, i_raw = []\<rparr>"

definition small_lib :: "nat list dirlib" where
  "small_lib = \<lparr>check_directory = (\<lambda>_ _. None), read_inode = (\<lambda>_ _. Inr small_inode), write_inode = (\<lambda>m _ _. Inr m),
     iterated_blocks = (\<lambda>m _. Inr m), extend_allocation = (\<lambda>m _ _. Inr m), get_blocks = (\<lambda>_ _ _. Inr 11),
     write_cached_inode = (\<lambda>_ _ _. Inr [10, 11]), bump_links = (\<lambda>m _. Inr m), convert_inline = (\<lambda>m _. Inr m),
     blocks_of_clusters = (\<lambda>_ _. 8)\<rparr>"

definition file_a :: link_struct where
  "file_a = \<lparr>ls_name = [97], ls_inode = 7, ls_flags = 1, ls_done = 0, ls_blockend = 512\<rparr>"

definition small_fs :: "nat list filesys" where
  "small_fs = \<lparr>fs_blocksize = 512, fs_blocks = 100, fs_rw = True, s_feature_incompat = 0, s_blocksize_bits = 9, s_clustersize_bits = 12,
     disk = (\<lambda>_. filled file_a (empty_seg 512)), rfail = (\<lambda>_. None), wfail = (\<lambda>_. None), meta = [10]\<rparr>"

lemma small_entry: "seg_ok (filled file_a (empty_seg 512))" "length (filled file_a (empty_seg 512)) = 512"
  "live (filled file_a (empty_seg 512))" "dirent_of (filled file_a (empty_seg 512)) = ([97], 7, 1)"
proof -
  have e: "seg_ok (empty_seg 512)" "length (empty_seg 512) = 512" using empty_seg_ok [of 512] by simp_all
  have "request_ok file_a" "need file_a \<le> length (empty_seg 512)"
    using e(2) by (simp_all add: request_ok_def file_a_def need_def OCFS2_DIR_REC_LEN_def)
  from filled_seg [OF e(1) this] e(2) show "seg_ok (filled file_a (empty_seg 512))" "length (filled file_a (empty_seg 512)) = 512"
    "live (filled file_a (empty_seg 512))" "dirent_of (filled file_a (empty_seg 512)) = ([97], 7, 1)" by (simp_all add: new_dirent_def file_a_def)
qed

lemma small_sound: "sound_dir small_lib small_fs 5 small_inode [10] [[filled file_a (empty_seg 512)]]"
proof -
  have no_ecc: "\<not> ocfs2_dir_has_trailer small_fs small_inode" by (simp add: ocfs2_dir_has_trailer_def ocfs2_meta_ecc_def small_fs_def)
  have "on_disk small_fs small_inode [filled file_a (empty_seg 512)] (filled file_a (empty_seg 512))"
    using small_entry no_ecc by (simp add: on_disk_def block_of_def tail_ok_def) (simp add: small_fs_def)
  then have "sound_block small_fs small_inode 10 [filled file_a (empty_seg 512)]" by (simp add: sound_block_def) (simp add: small_fs_def)
  moreover have "\<not> inline_dir small_fs small_inode" by (simp add: inline_dir_def small_inode_def)
  moreover have "size_ok small_fs" by (simp add: size_ok_def small_fs_def)
  ultimately show ?thesis unfolding sound_dir_def by simp (simp add: small_lib_def small_fs_def)
qed

lemma small_listing: "dir_listing [[filled file_a (empty_seg 512)]] = [([97], 7, 1)]"
  using small_entry(3,4) by (simp add: dir_listing_def)

section \<open>Properties\<close>

text \<open>
  C28.  Looking up a name in a sound directory whose entries are in blocks (not in the inode) reads all of its blocks safely and returns the inode number
  of the first entry of the listing that has the name, or \<open>OCFS2_ET_FILE_NOT_FOUND\<close> if there is none.
\<close>

theorem lookup_finds_first:
  assumes "sound_dir lib fs dir di bs segss" and "0 \<notin> set name"
  shows "ocfs2_lookup lib dir name fs =
    Some (case find (\<lambda>e. fst e = name) (dir_listing segss) of None \<Rightarrow> Inl OCFS2_ET_FILE_NOT_FOUND | Some (_, ino, _) \<Rightarrow> Inr ino)"
  using assms by (rule lookup_dir)

theorem lookup_finds_first_witness: "ocfs2_lookup small_lib 5 [97] small_fs = Some (Inr 7)"
  using lookup_finds_first [OF small_sound, of "[97]"] small_listing by simp

text \<open>
  C29.  Unlinking a name (with an inode number, or with 0 for any) from a sound directory whose entries are in blocks (not in the inode) removes exactly
  the first entry that fits from the listing and leaves the directory sound; if no entry fits it reports
  \<open>OCFS2_ET_DIR_NO_SPACE\<close> and changes nothing.
\<close>

theorem unlink_removes_entry:
  assumes "sound_dir lib fs dir di bs segss" and "0 \<notin> set name" and "fs_rw fs"
  shows "case find (\<lambda>e. fst e = name \<and> (ino = 0 \<or> fst (snd e) = ino)) (dir_listing segss) of
      None \<Rightarrow> ocfs2_unlink lib dir (Some name) ino fs = Some (Some OCFS2_ET_DIR_NO_SPACE, fs)
    | Some e \<Rightarrow> \<exists>fs' segss'. ocfs2_unlink lib dir (Some name) ino fs = Some (None, fs') \<and> sound_dir lib fs' dir di bs segss' \<and>
        dir_listing segss' = remove1 e (dir_listing segss)"
  using assms by (rule unlink_dir)

theorem unlink_removes_entry_witness:
  "\<exists>fs' segss'. ocfs2_unlink small_lib 5 (Some [97]) 7 small_fs = Some (None, fs') \<and> sound_dir small_lib fs' 5 small_inode [10] segss' \<and>
     dir_listing segss' = []"
proof -
  have "fs_rw small_fs" by (simp add: small_fs_def)
  from unlink_removes_entry [OF small_sound _ this, of "[97]" 7] show ?thesis by (simp add: small_listing)
qed

text \<open>
  C30.  Linking a name into a sound directory whose entries are in blocks (not in the inode) adds exactly this entry to the listing and leaves the directory
  sound.  It never fails for lack of room in a block: if no entry can be split, or absorbed and split, to
  make room, the directory grows by an empty block, and the name goes in there.  The growing succeeds (\<open>can_grow\<close>: the allocation can be extended, the inode written, and the size is a multiple of the
  block size, as \<open>ocfs2_expand_dir\<close> relies on).
\<close>

theorem link_adds_entry:
  assumes "sound_dir lib fs dir di bs segss" and "fs_rw fs" and "2 \<le> ino" "ino \<le> fs_blocks fs" "ino < 2 ^ 64"
    and "length name < 256" and "flags < 256"
    and "\<And>d. (\<forall>c. c \<notin> set bs \<longrightarrow> d c = disk fs c) \<Longrightarrow> can_grow lib (fs\<lparr>disk := d\<rparr>) dir di bs new"
  shows "\<exists>fs' di' bs' segss' as cs. ocfs2_link lib dir name ino flags fs = Some (None, fs') \<and> sound_dir lib fs' dir di' bs' segss' \<and>
    dir_listing segss = as @ cs \<and> dir_listing segss' = as @ (name, ino, flags) # cs"
  using assms by (rule link_dir)

lemma small_grows: "can_grow small_lib (small_fs\<lparr>disk := d\<rparr>) 5 small_inode [10] 11"
  by (simp add: can_grow_def Let_def small_lib_def small_fs_def small_inode_def inline_dir_def)

theorem link_adds_entry_witness:
  "\<exists>fs' di' bs' segss' as cs. ocfs2_link small_lib 5 [98] 8 1 small_fs = Some (None, fs') \<and> sound_dir small_lib fs' 5 di' bs' segss' \<and>
    [([97], 7, 1)] = as @ cs \<and> dir_listing segss' = as @ ([98], 8, 1) # cs"
proof -
  have "fs_rw small_fs" "8 \<le> fs_blocks small_fs" by (simp_all add: small_fs_def)
  from link_adds_entry [OF small_sound this(1) _ this(2) _ _ _ small_grows, of "[98]" 1] show ?thesis unfolding small_listing by simp
qed

text \<open>
  C31.  After linking a name that the directory did not have, looking it up returns the inode number it was
  linked to, and every other name is looked up as before.  The directory is sound with its entries in blocks (not in the inode) and can grow, as in C30.
\<close>

theorem link_then_lookup:
  assumes "sound_dir lib fs dir di bs segss" and "fs_rw fs" and "2 \<le> ino" "ino \<le> fs_blocks fs" "ino < 2 ^ 64"
    and "length name < 256" and "flags < 256" and "0 \<notin> set name" and "name \<notin> fst ` set (dir_listing segss)"
    and "\<And>d. (\<forall>c. c \<notin> set bs \<longrightarrow> d c = disk fs c) \<Longrightarrow> can_grow lib (fs\<lparr>disk := d\<rparr>) dir di bs new"
  shows "\<exists>fs'. ocfs2_link lib dir name ino flags fs = Some (None, fs') \<and> ocfs2_lookup lib dir name fs' = Some (Inr ino) \<and>
    (\<forall>other. other \<noteq> name \<and> 0 \<notin> set other \<longrightarrow> ocfs2_lookup lib dir other fs' = ocfs2_lookup lib dir other fs)"
proof -
  obtain fs' di' bs' segss' as cs where r: "ocfs2_link lib dir name ino flags fs = Some (None, fs')" "sound_dir lib fs' dir di' bs' segss'"
    "dir_listing segss = as @ cs" "dir_listing segss' = as @ (name, ino, flags) # cs"
    using link_dir [OF assms(1-7,10)] by blast
  have "find (\<lambda>e. fst e = name) (as @ (name, ino, flags) # cs) = Some (name, ino, flags)"
    using assms(9) r(3) by (intro find_first) auto
  then have "ocfs2_lookup lib dir name fs' = Some (Inr ino)" using lookup_dir [OF r(2) assms(8)] r(4) by simp
  moreover have "ocfs2_lookup lib dir other fs' = ocfs2_lookup lib dir other fs" if "other \<noteq> name" "0 \<notin> set other" for other
  proof -
    have "find (\<lambda>e. fst e = other) (as @ (name, ino, flags) # cs) = find (\<lambda>e. fst e = other) (as @ cs)"
      using that(1) by (cases "find (\<lambda>e. fst e = other) as") (simp_all add: find_append)
    then show ?thesis using lookup_dir [OF r(2) that(2)] lookup_dir [OF assms(1) that(2)] r(3,4) by (simp only:)
  qed
  ultimately show ?thesis using r(1) by blast
qed

theorem link_then_lookup_witness:
  "\<exists>fs'. ocfs2_link small_lib 5 [98] 8 1 small_fs = Some (None, fs') \<and> ocfs2_lookup small_lib 5 [98] fs' = Some (Inr 8) \<and>
     ocfs2_lookup small_lib 5 [97] fs' = ocfs2_lookup small_lib 5 [97] small_fs"
proof -
  have "fs_rw small_fs" "8 \<le> fs_blocks small_fs" by (simp_all add: small_fs_def)
  from link_then_lookup [OF small_sound this(1) _ this(2) _ _ _ _ _ small_grows, of "[98]" 1]
  obtain fs' where "ocfs2_link small_lib 5 [98] 8 1 small_fs = Some (None, fs')" "ocfs2_lookup small_lib 5 [98] fs' = Some (Inr 8)"
    "\<forall>other. other \<noteq> [98] \<and> 0 \<notin> set other \<longrightarrow> ocfs2_lookup small_lib 5 other fs' = ocfs2_lookup small_lib 5 other small_fs"
    by (auto simp: small_listing)
  moreover from this(3) [rule_format, of "[97]"] have "ocfs2_lookup small_lib 5 [97] fs' = ocfs2_lookup small_lib 5 [97] small_fs" by simp
  ultimately show ?thesis by blast
qed


section \<open>Blocks that are not sound\<close>

text \<open>
  The loop only asks that the entries are at least 8 bytes long and end in the block.  A block whose only entry
  leaves the last four bytes over passes the check of \<open>ocfs2_read_dir_block\<close>, and then the header of an entry
  is read across the end of the buffer.
\<close>

definition short_tail :: "byte list" where
  "short_tail = patch (replicate 512 0) 8 (le_bytes 2 508)"

lemma tail_overread:
  "ocfs2_swap_dir_entries short_tail 512 = Some None \<and>
   ocfs2_process_dir_entry small_fs small_inode 5 no_flags (xlate_func lookup_proc) 0 1 0
     \<lparr>p_buf = short_tail, p_state = \<lparr>lk_name = [97], lk_inode = None, lk_found = 0\<rparr>, p_changed = False, p_abort = False, p_errcode = None\<rparr> = None"
proof -
  have len: "length short_tail = 512" by (simp add: short_tail_def)
  have rec: "de_rec_len short_tail 0 = Some 508"
    by (simp add: de_rec_len_def get_le_def read_slice len) (simp add: short_tail_def le2)
  have z: "slice short_tail 0 8 = replicate 8 0" "slice short_tail 10 1 = replicate 1 0"
    unfolding short_tail_def by (subst slice_patch_other; simp add: slice_zeros)+
  have nl: "de_name_len short_tail 0 = Some 0" and ino: "de_inode short_tail 0 = Some 0"
    using le_val_zeros [of 8] le_val_zeros [of 1] z by (simp_all add: de_name_len_def de_inode_def get_le_def read_slice len)
  have over: "de_rec_len short_tail 508 = None" by (simp add: de_rec_len_def get_le_def read_slice len)
  have "ocfs2_swap_dir_entries short_tail 512 = Some None"
    unfolding ocfs2_swap_dir_entries_def by (subst swap_loop.simps, simp add: rec nl, subst swap_loop.simps, simp)
  moreover have "ocfs2_process_dir_entry small_fs small_inode 5 no_flags f 508 e n
      \<lparr>p_buf = short_tail, p_state = st, p_changed = False, p_abort = False, p_errcode = None\<rparr> = None" for f e n and st :: 's
    by (subst ocfs2_process_dir_entry.simps) (simp add: over, simp add: small_fs_def)
  then have "ocfs2_process_dir_entry small_fs small_inode 5 no_flags (xlate_func lookup_proc) 0 1 0
     \<lparr>p_buf = short_tail, p_state = \<lparr>lk_name = [97], lk_inode = None, lk_found = 0\<rparr>, p_changed = False, p_abort = False, p_errcode = None\<rparr> = None"
    by (subst ocfs2_process_dir_entry.simps) (simp add: rec nl ino ocfs2_skip_dir_trailer_def ocfs2_dir_has_trailer_def ocfs2_meta_ecc_def small_fs_def Let_def)
  ultimately show ?thesis by blast
qed

text \<open>
  Looking for removed entries steps by four bytes up to the end of an entry and reads a header at each step, also
  where less than a header is left: in the last entry of a block the buffer is left.
\<close>

lemma removed_overread:
  assumes "offset < fin" and "fin \<le> offset + 10" and "length buf = fin"
  shows "ocfs2_validate_entry buf offset fin = None"
proof -
  have "de_rec_len buf offset = None \<or> de_name_len buf offset = None"
    using assms by (simp add: de_rec_len_def de_name_len_def get_le_def read_bytes_def)
  then show ?thesis using assms(1) by (subst ocfs2_validate_entry.simps) (auto split: option.split)
qed

text \<open>
  A directory that is made with a trailer gets the size of its entries, not of its block.  \<open>ocfs2_expand_dir\<close> divides
  the size by the block size, so the next block it takes and clears is again the first one.
\<close>

lemma write_dir_block_keeps:
  "ocfs2_write_dir_block fs di b buf = Some (r, fs') \<Longrightarrow> fs_blocksize fs' = fs_blocksize fs \<and> s_feature_incompat fs' = s_feature_incompat fs"
  by (auto simp: ocfs2_write_dir_block_def Let_def split: option.splits Option.bind_splits)

lemma expand_dir_keeps:
  "ocfs2_expand_dir lib dir fs = Some (r, fs') \<Longrightarrow> fs_blocksize fs' = fs_blocksize fs \<and> s_feature_incompat fs' = s_feature_incompat fs"
  by (auto simp: ocfs2_expand_dir_def Let_def dest!: write_dir_block_keeps split: option.splits sum.splits if_splits Option.bind_splits prod.splits)

lemma init_dir_size:
  assumes "ocfs2_init_dir lib junk dir parent fs = Some (None, fs')" and "\<not> ocfs2_support_inline_data fs" and "ocfs2_supports_dir_trailer fs"
    and "size_ok fs"
  shows "\<exists>m di. write_cached_inode lib m dir di = Inr (meta fs') \<and> i_size di = fs_blocksize fs - 64 \<and> i_size di div fs_blocksize fs = 0"
proof -
  have z: "(fs_blocksize fs - 64) div fs_blocksize fs = 0" using assms(4) by (simp add: size_ok_def)
  obtain m di where "write_cached_inode lib m dir (di\<lparr>i_size := fs_blocksize fs - 64\<rparr>) = Inr (meta fs')"
    using assms(1-3)
    by (auto simp: ocfs2_init_dir_def Let_def ocfs2_dir_trailer_blk_off_def trailer_size_def ocfs2_supports_dir_trailer_def
        dest!: expand_dir_keeps write_dir_block_keeps split: option.splits sum.splits if_splits Option.bind_splits)
  then show ?thesis using z by (intro exI [of _ m] exI [of _ "di\<lparr>i_size := fs_blocksize fs - 64\<rparr>"]) simp
qed

end
