(* ===== verification/Unix_Io.thy ===== *)
theory Unix_Io
  imports Search_Tree
begin

text \<open>
  \<open>libocfs2/unix_io.c\<close>: reading and writing blocks of the device, with a cache.  The blocks of the cache are in
  a red-black tree by their number and in a list from the least to the most recently used; a pointer to a
  block of the cache is its index.  The device is a list of bytes; how much a \<open>pread64\<close> or \<open>pwrite64\<close> transfers,
  or that it fails, is given by a schedule.  \<open>None\<close> is an access outside of the cache, a failed assertion or
  an overflow of an \<open>int\<close>.
\<close>

section \<open>The model\<close>

record io_cache_block =
  icb_blkno :: nat
  icb_buf :: "byte list"

record io_cache =
  ic_blocks :: "io_cache_block list"
  ic_lru :: "nat list"
  ic_lookup :: "nat rb"
  ic_locked :: bool

record io_channel =
  io_blksize :: nat
  io_error :: int
  io_nocache :: bool
  io_cache :: "io_cache option"
  io_dev :: "byte list"
  io_calls :: nat  \<comment> \<open>the number of system calls so far\<close>
  io_sched :: "nat \<Rightarrow> int"  \<comment> \<open>at most how many bytes a call transfers, or its error, negated\<close>

definition ONE_MEGABYTE :: nat where "ONE_MEGABYTE = 1024 * 1024"

definition one_meg_of_blocks :: "io_channel \<Rightarrow> nat" where
  "one_meg_of_blocks ch = (ONE_MEGABYTE + io_blksize ch - 1) div io_blksize ch"

subsection \<open>The device\<close>

text \<open>The number of bytes a system call at an offset transfers, or a negative number.\<close>

definition transfer :: "io_channel \<Rightarrow> nat \<Rightarrow> nat \<Rightarrow> int" where
  "transfer ch off len =
     (let n = io_sched ch (io_calls ch) in if n < 0 then n else min n (min (int len) (int (length (io_dev ch) - off))))"

text \<open>The size of a request: a negative count is in bytes.\<close>

definition request_size :: "io_channel \<Rightarrow> int \<Rightarrow> nat option" where
  "request_size ch count =
     (if count < 0 then Some (nat (- count))
      else if count * int (io_blksize ch) > int INT_MAX then None else Some (nat count * io_blksize ch))"

text \<open>The offset of a block: the product is a signed one.\<close>

definition request_location :: "io_channel \<Rightarrow> nat \<Rightarrow> nat option" where
  "request_location ch blkno = (if blkno * io_blksize ch \<ge> 2 ^ 63 then None else Some (blkno * io_blksize ch))"

text \<open>The loop of \<open>unix_io_read_block\<close>; \<open>acc\<close> is what was read so far.\<close>

function read_loop :: "io_channel \<Rightarrow> nat \<Rightarrow> nat \<Rightarrow> byte list \<Rightarrow> errcode option \<times> byte list \<times> io_channel" where
  "read_loop ch location sz acc =
     (if length acc < sz then
        (let rd = transfer ch (location + length acc) (sz - length acc); ch = ch\<lparr>io_calls := Suc (io_calls ch)\<rparr> in
         if rd < 0 then (Some OCFS2_ET_IO, acc, ch\<lparr>io_error := - rd\<rparr>)
         else if rd = 0 then (Some OCFS2_ET_IO, acc, ch)
         else read_loop ch location sz (acc @ take (nat rd) (drop (location + length acc) (io_dev ch))))
      else (None, acc, ch))"
  by pat_completeness auto
termination
proof (relation "measure (\<lambda>(ch, location, sz, acc). sz - length acc)", simp, goal_cases)
  case (1 ch location sz acc rd ch')
  then have "0 < rd" "rd \<le> int (length (io_dev ch) - (location + length acc))" by (auto simp: transfer_def Let_def split: if_splits)
  then have "0 < min (nat rd) (length (io_dev ch) - (location + length acc))" by simp
  then show ?case using 1(1,3) by (simp add: min_def split: if_splits)
qed

declare read_loop.simps [simp del]

definition unix_io_read_block :: "io_channel \<Rightarrow> nat \<Rightarrow> int \<Rightarrow> (errcode option \<times> byte list \<times> io_channel) option" where
  "unix_io_read_block ch blkno count =
     do { sz \<leftarrow> request_size ch count;
          location \<leftarrow> request_location ch blkno;
          Some (read_loop ch location sz []) }"

text \<open>The loop of \<open>unix_io_write_block_full\<close>; \<open>tot\<close> bytes were written so far.\<close>

function write_loop :: "io_channel \<Rightarrow> nat \<Rightarrow> byte list \<Rightarrow> nat \<Rightarrow> errcode option \<times> nat \<times> io_channel" where
  "write_loop ch location data tot =
     (if tot < length data then
        (let wr = transfer ch (location + tot) (length data - tot); ch = ch\<lparr>io_calls := Suc (io_calls ch)\<rparr> in
         if wr < 0 then (Some OCFS2_ET_IO, tot, ch\<lparr>io_error := - wr\<rparr>)
         else if wr = 0 then (Some OCFS2_ET_IO, tot, ch)
         else write_loop (ch\<lparr>io_dev := patch (io_dev ch) (location + tot) (take (nat wr) (drop tot data))\<rparr>) location data (tot + nat wr))
      else (None, tot, ch))"
  by pat_completeness auto
termination by (relation "measure (\<lambda>(ch, location, data, tot). length data - tot)") auto

declare write_loop.simps [simp del]

text \<open>The error, the number of blocks that were written completely, and the channel; \<open>data\<close> has the size of the request.\<close>

definition unix_io_write_block_full :: "io_channel \<Rightarrow> nat \<Rightarrow> int \<Rightarrow> byte list \<Rightarrow> (errcode option \<times> nat \<times> io_channel) option" where
  "unix_io_write_block_full ch blkno count data =
     do { sz \<leftarrow> request_size ch count;
          location \<leftarrow> request_location ch blkno;
          if sz > length data then None
          else case write_loop ch location (take sz data) 0 of
                 (err, tot, ch) \<Rightarrow> Some (err, tot div io_blksize ch, ch) }"

definition unix_io_write_block :: "io_channel \<Rightarrow> nat \<Rightarrow> int \<Rightarrow> byte list \<Rightarrow> (errcode option \<times> io_channel) option" where
  "unix_io_write_block ch blkno count data =
     map_option (\<lambda>(err, completed, ch). (err, ch)) (unix_io_write_block_full ch blkno count data)"

subsection \<open>The cache\<close>

abbreviation blkno_of :: "io_cache \<Rightarrow> nat \<Rightarrow> nat" where
  "blkno_of ic i \<equiv> icb_blkno (ic_blocks ic ! i)"

definition io_cache_lookup :: "io_cache \<Rightarrow> nat \<Rightarrow> nat option" where
  "io_cache_lookup ic blkno = rb_elem (rb_descend (nat_cmp (blkno_of ic) blkno) (ic_lookup ic) [])"

definition io_cache_insert :: "io_cache \<Rightarrow> nat \<Rightarrow> io_cache option" where
  "io_cache_insert ic i =
     (case rb_descend (nat_cmp (blkno_of ic) (blkno_of ic i)) (ic_lookup ic) [] of
        (Leaf, path) \<Rightarrow> map_option (\<lambda>t. ic\<lparr>ic_lookup := t\<rparr>) (rb_insert_at i path)
      | (Node _ _ _ _, _) \<Rightarrow> None)"

definition io_cache_seen :: "io_cache \<Rightarrow> nat \<Rightarrow> io_cache" where
  "io_cache_seen ic i = ic\<lparr>ic_lru := remove1 i (ic_lru ic) @ [i]\<rparr>"

definition io_cache_unsee :: "io_cache \<Rightarrow> nat \<Rightarrow> io_cache" where
  "io_cache_unsee ic i = ic\<lparr>ic_lru := i # remove1 i (ic_lru ic)\<rparr>"

definition set_icb :: "io_cache \<Rightarrow> nat \<Rightarrow> (io_cache_block \<Rightarrow> io_cache_block) \<Rightarrow> io_cache" where
  "set_icb ic i f = ic\<lparr>ic_blocks := (ic_blocks ic)[i := f (ic_blocks ic ! i)]\<rparr>"

text \<open>\<open>rb_erase\<close> of the node of a block: the node is found by its number, which the tree is ordered by.\<close>

definition io_cache_disconnect :: "io_cache \<Rightarrow> nat \<Rightarrow> io_cache option" where
  "io_cache_disconnect ic i =
     (if blkno_of ic i \<noteq> UINT64_MAX then
        (let z = rb_descend (nat_cmp (blkno_of ic) (blkno_of ic i)) (ic_lookup ic) [] in
         if rb_elem z \<noteq> Some i then None
         else do { t \<leftarrow> rb_erase z; Some (set_icb (ic\<lparr>ic_lookup := t\<rparr>) i (\<lambda>b. b\<lparr>icb_blkno := UINT64_MAX\<rparr>)) })
      else Some ic)"

definition io_cache_pop_lru :: "io_cache \<Rightarrow> (nat \<times> io_cache) option" where
  "io_cache_pop_lru ic =
     (case ic_lru ic of [] \<Rightarrow> None | i # _ \<Rightarrow> map_option (Pair i) (io_cache_disconnect ic i))"

text \<open>Stealing the least recently used block for a number.\<close>

definition io_cache_steal :: "io_cache \<Rightarrow> nat \<Rightarrow> (nat \<times> io_cache) option" where
  "io_cache_steal ic blkno =
     do { (i, ic) \<leftarrow> io_cache_pop_lru ic;
          ic \<leftarrow> io_cache_insert (set_icb ic i (\<lambda>b. b\<lparr>icb_blkno := blkno\<rparr>)) i;
          Some (i, ic) }"

abbreviation touch :: "bool \<Rightarrow> io_cache \<Rightarrow> nat \<Rightarrow> io_cache" where
  "touch nocache ic i \<equiv> if nocache then io_cache_unsee ic i else io_cache_seen ic i"

text \<open>How many blocks from a number on are cached.\<close>

fun cached_blocks :: "io_cache \<Rightarrow> nat \<Rightarrow> nat \<Rightarrow> nat" where
  "cached_blocks ic blkno 0 = 0"
| "cached_blocks ic blkno (Suc n) = (if io_cache_lookup ic blkno = None then 0 else Suc (cached_blocks ic (Suc blkno) n))"

text \<open>The loop that brings the cache and the data in line after a read; \<open>good\<close> blocks are taken from the cache.\<close>

fun sync_read :: "nat \<Rightarrow> bool \<Rightarrow> nat \<Rightarrow> nat \<Rightarrow> nat \<Rightarrow> byte list \<Rightarrow> io_cache \<Rightarrow> (byte list \<times> io_cache) option" where
  "sync_read bs nocache blkno 0 good data ic = Some ([], ic)"
| "sync_read bs nocache blkno (Suc n) good data ic =
     (let here = take bs data; rest = drop bs data in
      case io_cache_lookup ic blkno of
        Some i \<Rightarrow>
          (let here = (if good > 0 then icb_buf (ic_blocks ic ! i) else here) in
           map_option (\<lambda>(d, ic). (here @ d, ic)) (sync_read bs nocache (Suc blkno) n (good - 1) rest (touch nocache ic i)))
      | None \<Rightarrow>
          (if good > 0 then None
           else if nocache then map_option (\<lambda>(d, ic). (here @ d, ic)) (sync_read bs nocache (Suc blkno) n 0 rest ic)
           else do { (i, ic) \<leftarrow> io_cache_steal ic blkno;
                     let ic = set_icb ic i (\<lambda>b. b\<lparr>icb_buf := here\<rparr>);
                     map_option (\<lambda>(d, ic). (here @ d, ic)) (sync_read bs nocache (Suc blkno) n 0 rest (io_cache_seen ic i)) }))"

text \<open>\<open>io_cache_read_blocks\<close>; the data behind the cached blocks comes from the device.\<close>

definition io_cache_read_blocks ::
    "io_channel \<Rightarrow> io_cache \<Rightarrow> nat \<Rightarrow> nat \<Rightarrow> bool \<Rightarrow> (errcode option \<times> byte list \<times> io_channel) option" where
  "io_cache_read_blocks ch ic blkno count nocache =
     (let bs = io_blksize ch; good = cached_blocks ic blkno count in
      do { (err, data, ch) \<leftarrow> (if good < count then unix_io_read_block ch (blkno + good) (int (count - good)) else Some (None, [], ch));
           case err of Some e \<Rightarrow> Some (Some e, data, ch)
           | None \<Rightarrow>
               do { (data, ic) \<leftarrow> sync_read bs nocache blkno count good (replicate (good * bs) 0 @ data) ic;
                    Some (None, data, ch\<lparr>io_cache := Some ic\<rparr>) } })"

text \<open>\<open>io_cache_read_block\<close> reads in hunks of one megabyte.  A negative count reads nothing.\<close>

function read_hunks :: "io_channel \<Rightarrow> nat \<Rightarrow> nat \<Rightarrow> nat \<Rightarrow> bool \<Rightarrow> byte list \<Rightarrow> (errcode option \<times> byte list \<times> io_channel) option" where
  "read_hunks ch blkno count todo nocache acc =
     (if count = 0 then Some (None, acc, ch)
      else if todo = 0 then None
      else case io_cache ch of
        None \<Rightarrow> None
      | Some ic \<Rightarrow>
          (let todo = (if todo > count then count else todo) in
           case io_cache_read_blocks ch ic blkno todo nocache of
             None \<Rightarrow> None
           | Some (Some e, data, ch) \<Rightarrow> Some (Some e, acc @ data, ch)
           | Some (None, data, ch) \<Rightarrow> read_hunks ch (blkno + todo) (count - todo) todo nocache (acc @ data)))"
  by pat_completeness auto
termination by (relation "measure (\<lambda>(ch, blkno, count, todo, nocache, acc). count)") auto

declare read_hunks.simps [simp del]

definition io_cache_read_block :: "io_channel \<Rightarrow> nat \<Rightarrow> int \<Rightarrow> bool \<Rightarrow> (errcode option \<times> byte list \<times> io_channel) option" where
  "io_cache_read_block ch blkno count nocache = read_hunks ch blkno (nat count) (one_meg_of_blocks ch) nocache []"

text \<open>The loop that brings the cache in line after a write.\<close>

fun sync_write :: "nat \<Rightarrow> bool \<Rightarrow> nat \<Rightarrow> nat \<Rightarrow> byte list \<Rightarrow> io_cache \<Rightarrow> io_cache option" where
  "sync_write bs nocache blkno 0 data ic = Some ic"
| "sync_write bs nocache blkno (Suc n) data ic =
     (let here = take bs data; rest = drop bs data in
      case io_cache_lookup ic blkno of
        Some i \<Rightarrow> sync_write bs nocache (Suc blkno) n rest (touch nocache (set_icb ic i (\<lambda>b. b\<lparr>icb_buf := here\<rparr>)) i)
      | None \<Rightarrow>
          if nocache then sync_write bs nocache (Suc blkno) n rest ic
          else do { (i, ic) \<leftarrow> io_cache_steal ic blkno;
                    sync_write bs nocache (Suc blkno) n rest (io_cache_seen (set_icb ic i (\<lambda>b. b\<lparr>icb_buf := here\<rparr>)) i) })"

definition io_cache_write_blocks ::
    "io_channel \<Rightarrow> io_cache \<Rightarrow> nat \<Rightarrow> int \<Rightarrow> byte list \<Rightarrow> bool \<Rightarrow> (errcode option \<times> io_channel) option" where
  "io_cache_write_blocks ch ic blkno count data nocache =
     do { (err, completed, ch) \<leftarrow> unix_io_write_block_full ch blkno count data;
          ic \<leftarrow> sync_write (io_blksize ch) nocache blkno completed data ic;
          Some (err, ch\<lparr>io_cache := Some ic\<rparr>) }"

definition io_cache_write_block :: "io_channel \<Rightarrow> io_cache \<Rightarrow> nat \<Rightarrow> int \<Rightarrow> byte list \<Rightarrow> bool \<Rightarrow> (errcode option \<times> io_channel) option" where
  "io_cache_write_block ch ic blkno count data nocache = io_cache_write_blocks ch ic blkno count data nocache"

definition io_destroy_cache :: "io_channel \<Rightarrow> io_channel" where
  "io_destroy_cache ch = ch\<lparr>io_cache := None\<rparr>"

text \<open>\<open>io_mlock_cache\<close>; what the system says about its memory is an argument.\<close>

definition io_mlock_cache :: "int \<Rightarrow> int \<Rightarrow> bool \<Rightarrow> bool \<Rightarrow> io_channel \<Rightarrow> errcode option \<times> io_channel" where
  "io_mlock_cache pagesize avpages data_ok meta_ok ch =
     (case io_cache ch of
        None \<Rightarrow> (Some OCFS2_ET_INVALID_ARGUMENT, ch)
      | Some ic \<Rightarrow>
          if ic_locked ic then (None, ch)
          else if int (io_blksize ch * length (ic_blocks ic)) div pagesize > avpages then (Some OCFS2_ET_NO_MEMORY, ch)
          else if data_ok \<and> meta_ok then (None, ch\<lparr>io_cache := Some (ic\<lparr>ic_locked := True\<rparr>)\<rparr>)
          else (Some OCFS2_ET_NO_MEMORY, ch))"

text \<open>\<open>io_init_cache\<close>, when memory is available; \<open>junk\<close> is what the buffers hold before they are used.\<close>

definition io_init_cache :: "byte list \<Rightarrow> io_channel \<Rightarrow> nat \<Rightarrow> io_channel" where
  "io_init_cache junk ch nr_blocks =
     ch\<lparr>io_cache := Some \<lparr>ic_blocks = replicate nr_blocks \<lparr>icb_blkno = UINT64_MAX, icb_buf = junk\<rparr>, ic_lru = [0..<nr_blocks],
        ic_lookup = Leaf, ic_locked = False\<rparr>\<rparr>"

definition io_init_cache_size :: "byte list \<Rightarrow> io_channel \<Rightarrow> nat \<Rightarrow> io_channel" where
  "io_init_cache_size junk ch bytes = io_init_cache junk ch ((bytes + (io_blksize ch - 1)) div io_blksize ch)"

definition OCFS2_MIN_BLOCKSIZE :: nat where "OCFS2_MIN_BLOCKSIZE = 512"
definition OCFS2_MAX_BLOCKSIZE :: nat where "OCFS2_MAX_BLOCKSIZE = 4096"

definition io_set_blksize :: "io_channel \<Rightarrow> nat \<Rightarrow> errcode option \<times> io_channel" where
  "io_set_blksize ch blksize =
     (if blksize mod OCFS2_MIN_BLOCKSIZE \<noteq> 0 then (Some OCFS2_ET_INVALID_ARGUMENT, ch)
      else (None, ch\<lparr>io_blksize := (if blksize = 0 then OCFS2_MIN_BLOCKSIZE else blksize)\<rparr>))"

definition io_set_nocache :: "io_channel \<Rightarrow> bool \<Rightarrow> io_channel" where
  "io_set_nocache ch nocache = ch\<lparr>io_nocache := nocache\<rparr>"

subsection \<open>The entry points\<close>

definition io_read_block_with :: "bool \<Rightarrow> io_channel \<Rightarrow> nat \<Rightarrow> int \<Rightarrow> (errcode option \<times> byte list \<times> io_channel) option" where
  "io_read_block_with nocache ch blkno count =
     (if io_cache ch \<noteq> None then io_cache_read_block ch blkno count nocache else unix_io_read_block ch blkno count)"

definition io_read_block :: "io_channel \<Rightarrow> nat \<Rightarrow> int \<Rightarrow> (errcode option \<times> byte list \<times> io_channel) option" where
  "io_read_block ch blkno count = io_read_block_with (io_nocache ch) ch blkno count"

definition io_read_block_nocache :: "io_channel \<Rightarrow> nat \<Rightarrow> int \<Rightarrow> (errcode option \<times> byte list \<times> io_channel) option" where
  "io_read_block_nocache ch blkno count = io_read_block_with True ch blkno count"

definition io_write_block_with :: "bool \<Rightarrow> io_channel \<Rightarrow> nat \<Rightarrow> int \<Rightarrow> byte list \<Rightarrow> (errcode option \<times> io_channel) option" where
  "io_write_block_with nocache ch blkno count data =
     (case io_cache ch of Some ic \<Rightarrow> io_cache_write_block ch ic blkno count data nocache
      | None \<Rightarrow> unix_io_write_block ch blkno count data)"

definition io_write_block :: "io_channel \<Rightarrow> nat \<Rightarrow> int \<Rightarrow> byte list \<Rightarrow> (errcode option \<times> io_channel) option" where
  "io_write_block ch blkno count data = io_write_block_with (io_nocache ch) ch blkno count data"

definition io_write_block_nocache :: "io_channel \<Rightarrow> nat \<Rightarrow> int \<Rightarrow> byte list \<Rightarrow> (errcode option \<times> io_channel) option" where
  "io_write_block_nocache ch blkno count data = io_write_block_with True ch blkno count data"

end
