(* ===== verification/Io_Cache.thy ===== *)
theory Io_Cache
  imports Unix_Io
begin

text \<open>
  The cache of \<open>Unix_Io\<close> is coherent: a block that is in the cache is what the device holds.  Reading through
  the cache therefore returns what the device holds, and writing through it keeps it so.
\<close>

section \<open>The structure of the cache\<close>

definition struct_ok :: "io_cache \<Rightarrow> bool" where
  "struct_ok ic \<longleftrightarrow> ic_blocks ic \<noteq> [] \<and> distinct (ic_lru ic) \<and> set (ic_lru ic) = {..<length (ic_blocks ic)} \<and>
     sorted_tree (<) (blkno_of ic) (ic_lookup ic) \<and>
     set (inorder (ic_lookup ic)) = {i. i < length (ic_blocks ic) \<and> blkno_of ic i \<noteq> UINT64_MAX}"

lemma tmap_Some_iff:
  assumes "sorted_tree (<) (key :: 'a \<Rightarrow> nat) t"
  shows "tmap key t k = Some x \<longleftrightarrow> x \<in> set (inorder t) \<and> key x = k"
proof -
  have "sorted_wrt (\<lambda>x y. key x < key y) (inorder t)" using assms by (simp add: sorted_tree_def)
  then have d: "distinct (map key (inorder t))" by (rule by_number.sorted_distinct_keys)
  then show ?thesis by (auto simp: tmap_def map_of_eq_Some_iff comp_def image_iff)
qed

lemma tmap_None_iff:
  "tmap key t k = None \<longleftrightarrow> (\<forall>x\<in>set (inorder t). key x \<noteq> k)"
  by (auto simp: tmap_def map_of_eq_None_iff image_iff)

lemma sorted_tree_cong:
  assumes "sorted_tree (<) key t" and "\<forall>x\<in>set (inorder t). key' x = key x"
  shows "sorted_tree (<) (key' :: 'a \<Rightarrow> nat) t"
proof -
  have "sorted_wrt (\<lambda>x y. key x < key y) (inorder t)" using assms(1) by (simp add: sorted_tree_def)
  then have "sorted_wrt (\<lambda>x y. key' x < key' y) (inorder t)"
    by (rule sorted_wrt_mono_rel [rotated]) (use assms(2) in auto)
  then show ?thesis using assms(1) by (simp add: sorted_tree_def)
qed

lemma lookup_Some:
  assumes "struct_ok ic"
  shows "io_cache_lookup ic b = Some i \<longleftrightarrow> i < length (ic_blocks ic) \<and> blkno_of ic i = b \<and> b \<noteq> UINT64_MAX"
proof -
  have t: "sorted_tree (<) (blkno_of ic) (ic_lookup ic)" using assms by (simp add: struct_ok_def)
  show ?thesis using assms unfolding io_cache_lookup_def by_number.find_elem [OF t] tmap_Some_iff [OF t] by (auto simp: struct_ok_def)
qed

lemma lookup_None: "struct_ok ic \<Longrightarrow> io_cache_lookup ic b = None \<longleftrightarrow> (\<forall>i<length (ic_blocks ic). blkno_of ic i = b \<longrightarrow> b = UINT64_MAX)"
  using lookup_Some [of ic b] by (metis not_None_eq)

text \<open>Changing the contents or the place in the list of recently used blocks.\<close>

lemma struct_set_buf [simp]: "struct_ok (set_icb ic i (\<lambda>b. b\<lparr>icb_buf := x\<rparr>)) = struct_ok ic"
proof -
  have blk: "blkno_of (set_icb ic i (\<lambda>b. b\<lparr>icb_buf := x\<rparr>)) j = blkno_of ic j" if "j < length (ic_blocks ic)" for j
    using that by (cases "j = i") (simp_all add: set_icb_def)
  have *: "sorted_tree (<) (blkno_of (set_icb ic i (\<lambda>b. b\<lparr>icb_buf := x\<rparr>))) (ic_lookup ic) = sorted_tree (<) (blkno_of ic) (ic_lookup ic)"
    if "\<forall>j\<in>set (inorder (ic_lookup ic)). j < length (ic_blocks ic)"
    using that blk sorted_tree_cong by (metis (no_types, lifting))
  have **: "{j. j < length (ic_blocks ic) \<and> blkno_of (set_icb ic i (\<lambda>b. b\<lparr>icb_buf := x\<rparr>)) j \<noteq> UINT64_MAX} =
      {j. j < length (ic_blocks ic) \<and> blkno_of ic j \<noteq> UINT64_MAX}" using blk by auto
  have f: "ic_lookup (set_icb ic i (\<lambda>b. b\<lparr>icb_buf := x\<rparr>)) = ic_lookup ic" "ic_lru (set_icb ic i (\<lambda>b. b\<lparr>icb_buf := x\<rparr>)) = ic_lru ic"
    "length (ic_blocks (set_icb ic i (\<lambda>b. b\<lparr>icb_buf := x\<rparr>))) = length (ic_blocks ic)"
    "(ic_blocks (set_icb ic i (\<lambda>b. b\<lparr>icb_buf := x\<rparr>)) = []) = (ic_blocks ic = [])" by (simp_all add: set_icb_def)
  show ?thesis unfolding struct_ok_def f ** using * by auto
qed

lemma struct_touch:
  assumes "struct_ok ic" and "i < length (ic_blocks ic)"
  shows "struct_ok (touch nocache ic i)"
proof -
  have "i \<in> set (ic_lru ic)" "distinct (ic_lru ic)" using assms by (simp_all add: struct_ok_def)
  then show ?thesis using assms by (auto simp: struct_ok_def io_cache_seen_def io_cache_unsee_def)
qed

text \<open>Taking a block out of the tree.\<close>

lemma disconnect_ok:
  assumes ok: "struct_ok ic" and i: "i < length (ic_blocks ic)"
  shows "\<exists>ic'. io_cache_disconnect ic i = Some ic' \<and> struct_ok ic' \<and> ic_lru ic' = ic_lru ic \<and>
    ic_blocks ic' = (ic_blocks ic)[i := (ic_blocks ic ! i)\<lparr>icb_blkno := UINT64_MAX\<rparr>]"
proof (cases "blkno_of ic i = UINT64_MAX")
  case True
  then have "(ic_blocks ic)[i := (ic_blocks ic ! i)\<lparr>icb_blkno := UINT64_MAX\<rparr>] = ic_blocks ic" using i by (metis io_cache_block.surjective io_cache_block.update_convs(1) list_update_id)
  then show ?thesis using True ok by (simp add: io_cache_disconnect_def)
next
  case False
  have t: "sorted_tree (<) (blkno_of ic) (ic_lookup ic)" and set: "set (inorder (ic_lookup ic)) = {i. i < length (ic_blocks ic) \<and> blkno_of ic i \<noteq> UINT64_MAX}"
    using ok by (simp_all add: struct_ok_def)
  let ?z = "rb_descend (nat_cmp (blkno_of ic) (blkno_of ic i)) (ic_lookup ic) []"
  have z: "rb_elem ?z = Some i" using lookup_Some [OF ok, of "blkno_of ic i" i] i False by (simp add: io_cache_lookup_def)
  obtain t' where t': "rb_erase ?z = Some t'" "sorted_tree (<) (blkno_of ic) t'" "tmap (blkno_of ic) t' = (tmap (blkno_of ic) (ic_lookup ic))(blkno_of ic i := None)"
    using by_number.erase_found [OF t z by_number.find_whole] by blast
  let ?ic = "set_icb (ic\<lparr>ic_lookup := t'\<rparr>) i (\<lambda>b. b\<lparr>icb_blkno := UINT64_MAX\<rparr>)"
  have mem: "j \<in> set (inorder t') \<longleftrightarrow> j \<in> set (inorder (ic_lookup ic)) \<and> j \<noteq> i" for j
  proof -
    have "j \<in> set (inorder t') \<longleftrightarrow> tmap (blkno_of ic) t' (blkno_of ic j) = Some j" by (simp add: tmap_Some_iff [OF t'(2)])
    also have "\<dots> \<longleftrightarrow> blkno_of ic j \<noteq> blkno_of ic i \<and> j \<in> set (inorder (ic_lookup ic))" by (simp add: t'(3) tmap_Some_iff [OF t])
    also have "\<dots> \<longleftrightarrow> j \<in> set (inorder (ic_lookup ic)) \<and> j \<noteq> i"
      using tmap_Some_iff [OF t, of "blkno_of ic i" i] tmap_Some_iff [OF t, of "blkno_of ic i" j] set i False by auto
    finally show ?thesis .
  qed
  have blk: "blkno_of ?ic j = (if j = i then UINT64_MAX else blkno_of ic j)" if "j < length (ic_blocks ic)" for j
    using that by (simp add: set_icb_def nth_list_update)
  have "sorted_tree (<) (blkno_of ?ic) t'" using t'(2) by (rule sorted_tree_cong) (use mem set blk in auto)
  moreover have "set (inorder t') = {j. j < length (ic_blocks ic) \<and> blkno_of ?ic j \<noteq> UINT64_MAX}"
    using mem set blk by (auto split: if_splits)
  ultimately have "struct_ok ?ic" using ok by (simp add: struct_ok_def set_icb_def)
  moreover have "ic_lru ?ic = ic_lru ic" "ic_blocks ?ic = (ic_blocks ic)[i := (ic_blocks ic ! i)\<lparr>icb_blkno := UINT64_MAX\<rparr>]"
    by (simp_all add: set_icb_def)
  moreover have "io_cache_disconnect ic i = Some ?ic" using False z t'(1) by (simp add: io_cache_disconnect_def Let_def)
  ultimately show ?thesis by blast
qed


text \<open>What the cache holds: the contents of the blocks by their numbers.\<close>

definition cmap :: "io_cache \<Rightarrow> nat \<rightharpoonup> byte list" where
  "cmap ic b = map_option (\<lambda>i. icb_buf (ic_blocks ic ! i)) (io_cache_lookup ic b)"

lemma cmap_None [simp]: "cmap ic b = None \<longleftrightarrow> io_cache_lookup ic b = None"
  by (simp add: cmap_def)

lemma cmap_Some:
  assumes "struct_ok ic"
  shows "cmap ic b = Some x \<longleftrightarrow> (\<exists>i<length (ic_blocks ic). blkno_of ic i = b \<and> b \<noteq> UINT64_MAX \<and> icb_buf (ic_blocks ic ! i) = x)"
  using lookup_Some [OF assms, of b] by (auto simp: cmap_def)

lemma lookup_touch [simp]: "io_cache_lookup (touch nocache ic i) b = io_cache_lookup ic b"
  by (simp add: io_cache_lookup_def io_cache_seen_def io_cache_unsee_def)

lemma cmap_touch [simp]: "cmap (touch nocache ic i) = cmap ic"
  by (rule ext) (simp add: cmap_def io_cache_lookup_def io_cache_seen_def io_cache_unsee_def)

lemma blocks_set_buf: "j < length (ic_blocks ic) \<Longrightarrow>
  ic_blocks (set_icb ic i f) ! j = (if j = i then f (ic_blocks ic ! i) else ic_blocks ic ! j)"
  by (simp add: set_icb_def nth_list_update)

lemma length_set_icb [simp]: "length (ic_blocks (set_icb ic i f)) = length (ic_blocks ic)"
  by (simp add: set_icb_def)

lemma lookup_set_buf:
  assumes "struct_ok ic"
  shows "io_cache_lookup (set_icb ic i (\<lambda>b. b\<lparr>icb_buf := x\<rparr>)) b = io_cache_lookup ic b"
proof -
  have "io_cache_lookup (set_icb ic i (\<lambda>b. b\<lparr>icb_buf := x\<rparr>)) b = Some j \<longleftrightarrow> io_cache_lookup ic b = Some j" for j
    using assms lookup_Some [of "set_icb ic i (\<lambda>b. b\<lparr>icb_buf := x\<rparr>)" b j] lookup_Some [OF assms, of b j]
    by (auto simp: blocks_set_buf split: if_splits)
  then show ?thesis by (metis not_None_eq)
qed

lemma cmap_set_buf:
  assumes ok: "struct_ok ic" and b: "io_cache_lookup ic b = Some i"
  shows "cmap (set_icb ic i (\<lambda>b. b\<lparr>icb_buf := x\<rparr>)) = (cmap ic)(b \<mapsto> x)"
proof (rule ext)
  fix c
  have i: "i < length (ic_blocks ic)" "blkno_of ic i = b" using lookup_Some [OF ok] b by auto
  have "j < length (ic_blocks ic) \<and> blkno_of ic j = c" if "io_cache_lookup ic c = Some j" for j
    using lookup_Some [OF ok] that by auto
  then show "cmap (set_icb ic i (\<lambda>b. b\<lparr>icb_buf := x\<rparr>)) c = ((cmap ic)(b \<mapsto> x)) c"
    using i b by (cases "io_cache_lookup ic c") (auto simp: cmap_def lookup_set_buf [OF ok] blocks_set_buf)
qed

text \<open>Stealing a block for a number that is not cached.\<close>

lemma insert_ok:
  assumes ok: "struct_ok ic" and i: "i < length (ic_blocks ic)" and free: "blkno_of ic i = UINT64_MAX"
    and b: "b \<noteq> UINT64_MAX" "io_cache_lookup ic b = None"
  shows "\<exists>ic'. io_cache_insert (set_icb ic i (\<lambda>k. k\<lparr>icb_blkno := b\<rparr>)) i = Some ic' \<and> struct_ok ic' \<and> ic_lru ic' = ic_lru ic \<and>
    ic_blocks ic' = (ic_blocks ic)[i := (ic_blocks ic ! i)\<lparr>icb_blkno := b\<rparr>]"
proof -
  let ?ic = "set_icb ic i (\<lambda>k. k\<lparr>icb_blkno := b\<rparr>)"
  have f: "ic_lookup ?ic = ic_lookup ic" "ic_lru ?ic = ic_lru ic" "ic_blocks ?ic = (ic_blocks ic)[i := (ic_blocks ic ! i)\<lparr>icb_blkno := b\<rparr>]"
    by (simp_all add: set_icb_def)
  have t: "sorted_tree (<) (blkno_of ic) (ic_lookup ic)" and set: "set (inorder (ic_lookup ic)) = {i. i < length (ic_blocks ic) \<and> blkno_of ic i \<noteq> UINT64_MAX}"
    using ok by (simp_all add: struct_ok_def)
  have blk: "blkno_of ?ic j = (if j = i then b else blkno_of ic j)" if "j < length (ic_blocks ic)" for j
    using that by (simp add: blocks_set_buf)
  have t': "sorted_tree (<) (blkno_of ?ic) (ic_lookup ic)" using t by (rule sorted_tree_cong) (use set blk free in auto)
  have bi: "blkno_of ?ic i = b" using blk [OF i] by simp
  have "j \<in> set (inorder (ic_lookup ic)) \<Longrightarrow> blkno_of ?ic j \<noteq> b" for j
    using b lookup_None [OF ok, of b] set blk free by (metis (mono_tags, lifting) mem_Collect_eq)
  then have new: "tmap (blkno_of ?ic) (ic_lookup ic) (blkno_of ?ic i) = None" unfolding bi by (simp add: tmap_None_iff)
  obtain path t2 where p: "rb_descend (nat_cmp (blkno_of ?ic) b) (ic_lookup ic) [] = (Leaf, path)" "rb_insert_at i path = Some t2"
    and t2: "sorted_tree (<) (blkno_of ?ic) t2" "tmap (blkno_of ?ic) t2 = (tmap (blkno_of ?ic) (ic_lookup ic))(b \<mapsto> i)"
    using by_number.insert_new [OF t' new] unfolding bi by blast
  let ?ic2 = "?ic\<lparr>ic_lookup := t2\<rparr>"
  have mem: "j \<in> set (inorder t2) \<longleftrightarrow> j \<in> set (inorder (ic_lookup ic)) \<or> j = i" for j
  proof -
    have "j \<in> set (inorder t2) \<longleftrightarrow> tmap (blkno_of ?ic) t2 (blkno_of ?ic j) = Some j" by (simp add: tmap_Some_iff [OF t2(1)])
    also have "\<dots> \<longleftrightarrow> (if blkno_of ?ic j = b then j = i else j \<in> set (inorder (ic_lookup ic)))"
      by (auto simp: t2(2) tmap_Some_iff [OF t'])
    also have "\<dots> \<longleftrightarrow> j \<in> set (inorder (ic_lookup ic)) \<or> j = i" using bi new by (auto simp: tmap_None_iff)
    finally show ?thesis .
  qed
  have "set (inorder t2) = {j. j < length (ic_blocks ?ic) \<and> blkno_of ?ic j \<noteq> UINT64_MAX}"
  proof (rule set_eqI)
    fix j
    show "j \<in> set (inorder t2) \<longleftrightarrow> j \<in> {j. j < length (ic_blocks ?ic) \<and> blkno_of ?ic j \<noteq> UINT64_MAX}"
      using blk [of j] b(1) i free by (cases "j = i") (simp_all add: mem set blocks_set_buf cong: conj_cong)
  qed
  moreover have "ic_blocks ?ic \<noteq> []" "distinct (ic_lru ?ic)" "set (ic_lru ?ic) = {..<length (ic_blocks ?ic)}"
    using ok by (simp_all add: struct_ok_def f)
  ultimately have "struct_ok ?ic2" unfolding struct_ok_def using t2(1) by simp
  moreover have "io_cache_insert ?ic i = Some ?ic2" using p by (simp add: io_cache_insert_def bi f(1))
  ultimately show ?thesis using f by (intro exI [of _ ?ic2]) simp
qed

lemma steal_ok:
  assumes ok: "struct_ok ic" and b: "b \<noteq> UINT64_MAX" "io_cache_lookup ic b = None"
  shows "\<exists>i ic'. io_cache_steal ic b = Some (i, ic') \<and> struct_ok ic' \<and> io_cache_lookup ic' b = Some i \<and>
    (\<forall>c. c \<noteq> b \<longrightarrow> cmap ic' c = None \<or> cmap ic' c = cmap ic c)"
proof -
  have "set (ic_lru ic) \<noteq> {}" using ok by (auto simp: struct_ok_def lessThan_empty_iff)
  then obtain i rest where lru: "ic_lru ic = i # rest" by (cases "ic_lru ic") auto
  then have i: "i < length (ic_blocks ic)" using ok by (auto simp: struct_ok_def)
  obtain ic1 where ic1: "io_cache_disconnect ic i = Some ic1" "struct_ok ic1" "ic_blocks ic1 = (ic_blocks ic)[i := (ic_blocks ic ! i)\<lparr>icb_blkno := UINT64_MAX\<rparr>]"
    using disconnect_ok [OF ok i] by blast
  have i1: "i < length (ic_blocks ic1)" "blkno_of ic1 i = UINT64_MAX" using ic1(3) i by simp_all
  have blk1: "blkno_of ic1 j = (if j = i then UINT64_MAX else blkno_of ic j)" "j \<noteq> i \<Longrightarrow> ic_blocks ic1 ! j = ic_blocks ic ! j"
    if "j < length (ic_blocks ic)" for j using that by (auto simp: ic1(3) nth_list_update)
  have "io_cache_lookup ic1 b = None" using b blk1 lookup_None [OF ok] lookup_None [OF ic1(2)] by (auto simp: ic1(3) split: if_splits)
  from insert_ok [OF ic1(2) i1 b(1) this] obtain ic2 where
    ic2: "io_cache_insert (set_icb ic1 i (\<lambda>k. k\<lparr>icb_blkno := b\<rparr>)) i = Some ic2" "struct_ok ic2" "ic_blocks ic2 = (ic_blocks ic1)[i := (ic_blocks ic1 ! i)\<lparr>icb_blkno := b\<rparr>]"
    by blast
  have blk2: "ic_blocks ic2 ! j = (if j = i then (ic_blocks ic1 ! i)\<lparr>icb_blkno := b\<rparr> else ic_blocks ic ! j)"
    if "j < length (ic_blocks ic)" for j using that blk1(2) by (simp add: ic2(3) ic1(3) nth_list_update)
  have len: "length (ic_blocks ic2) = length (ic_blocks ic)" by (simp add: ic2(3) ic1(3))
  have "io_cache_lookup ic2 b = Some i" using lookup_Some [OF ic2(2), of b i] b(1) i blk2 [OF i] len by simp
  moreover have "cmap ic2 c = None \<or> cmap ic2 c = cmap ic c" if "c \<noteq> b" for c
  proof (cases "cmap ic2 c")
    case (Some x)
    then obtain j where j: "j < length (ic_blocks ic)" "blkno_of ic2 j = c" "c \<noteq> UINT64_MAX" "icb_buf (ic_blocks ic2 ! j) = x"
      using cmap_Some [OF ic2(2)] len by auto
    then have "j \<noteq> i" using blk2 [OF i] \<open>c \<noteq> b\<close> by auto
    then have "cmap ic c = Some x" using cmap_Some [OF ok] j blk2 [OF j(1)] by auto
    then show ?thesis using Some by simp
  qed simp
  moreover have "io_cache_steal ic b = Some (i, ic2)" using lru ic1(1) ic2(1) by (simp add: io_cache_steal_def io_cache_pop_lru_def)
  ultimately show ?thesis using ic2(2) by blast
qed

section \<open>Coherence\<close>

definition dblock :: "nat \<Rightarrow> byte list \<Rightarrow> nat \<Rightarrow> byte list" where
  "dblock bs dev b = take bs (drop (b * bs) dev)"

text \<open>Every block of the cache, those of a set aside, is a whole block of the device.\<close>

definition coherent_but :: "nat set \<Rightarrow> nat \<Rightarrow> byte list \<Rightarrow> io_cache \<Rightarrow> bool" where
  "coherent_but S bs dev ic \<longleftrightarrow> (\<forall>b x. b \<notin> S \<longrightarrow> cmap ic b = Some x \<longrightarrow> x = dblock bs dev b \<and> Suc b * bs \<le> length dev)"

definition cache_ok :: "nat set \<Rightarrow> nat \<Rightarrow> byte list \<Rightarrow> io_cache \<Rightarrow> bool" where
  "cache_ok S bs dev ic \<longleftrightarrow> struct_ok ic \<and> coherent_but S bs dev ic"

lemma coherent_butD: "coherent_but S bs dev ic \<Longrightarrow> cmap ic b = Some x \<Longrightarrow> b \<notin> S \<Longrightarrow> x = dblock bs dev b \<and> Suc b * bs \<le> length dev"
  by (simp add: coherent_but_def)

lemma cache_touch: "cache_ok S bs dev ic \<Longrightarrow> io_cache_lookup ic b = Some i \<Longrightarrow> cache_ok S bs dev (touch nocache ic i)"
  using struct_touch [of ic i nocache] lookup_Some [of ic b i] by (simp add: cache_ok_def coherent_but_def del: if_split)

text \<open>Storing the block of the device in the cache.\<close>

lemma cache_store:
  assumes ok: "cache_ok (insert b S) bs dev ic" and b: "io_cache_lookup ic b = Some i" and "Suc b * bs \<le> length dev"
  shows "cache_ok S bs dev (set_icb ic i (\<lambda>k. k\<lparr>icb_buf := dblock bs dev b\<rparr>))"
proof -
  have "cmap (set_icb ic i (\<lambda>k. k\<lparr>icb_buf := dblock bs dev b\<rparr>)) = (cmap ic)(b \<mapsto> dblock bs dev b)"
    using ok b by (intro cmap_set_buf) (simp_all add: cache_ok_def)
  then show ?thesis using assms by (auto simp: cache_ok_def coherent_but_def)
qed

lemma cache_steal:
  assumes ok: "cache_ok (insert b S) bs dev ic" and b: "b \<noteq> UINT64_MAX" "io_cache_lookup ic b = None"
  shows "\<exists>i ic'. io_cache_steal ic b = Some (i, ic') \<and> cache_ok (insert b S) bs dev ic' \<and> io_cache_lookup ic' b = Some i"
proof -
  obtain i ic' where s: "io_cache_steal ic b = Some (i, ic')" "struct_ok ic'" "io_cache_lookup ic' b = Some i"
    and m: "\<And>c. c \<noteq> b \<Longrightarrow> cmap ic' c = None \<or> cmap ic' c = cmap ic c" using steal_ok [of ic b] ok b by (auto simp: cache_ok_def)
  have "cmap ic c = Some x" if "cmap ic' c = Some x" "c \<noteq> b" for c x using m [OF that(2)] that(1) by auto
  then have "coherent_but (insert b S) bs dev ic'" using ok by (simp add: cache_ok_def coherent_but_def)
  then show ?thesis using s by (auto simp: cache_ok_def)
qed

lemma cache_mono: "cache_ok S bs dev ic \<Longrightarrow> S \<subseteq> T \<Longrightarrow> cache_ok T bs dev ic"
  by (auto simp: cache_ok_def coherent_but_def)

lemma cache_missing: "cache_ok (insert b S) bs dev ic \<Longrightarrow> io_cache_lookup ic b = None \<Longrightarrow> cache_ok S bs dev ic"
  unfolding cache_ok_def coherent_but_def by (metis cmap_None insertE option.distinct(1))

lemma lookup_after_store: "struct_ok ic \<Longrightarrow> io_cache_lookup (set_icb ic i (\<lambda>k. k\<lparr>icb_buf := x\<rparr>)) b = io_cache_lookup ic b"
  by (rule lookup_set_buf)

text \<open>The data of consecutive blocks.\<close>

lemma slice_Suc: "take (Suc n * bs) (drop (b * bs) dev) = dblock bs dev b @ take (n * bs) (drop (Suc b * bs) dev)"
  by (simp add: dblock_def take_add add.commute)

lemma take_blocks_eq:
  assumes "take (Suc n * bs) data = take (Suc n * bs) (drop (b * bs) dev)"
  shows "take bs data = dblock bs dev b" "take (n * bs) (drop bs data) = take (n * bs) (drop (Suc b * bs) dev)"
proof -
  have "take bs (take (Suc n * bs) data) = take bs data" "drop bs (take (Suc n * bs) data) = take (n * bs) (drop bs data)"
    by (simp_all add: min_def drop_take)
  moreover have "take bs (take (Suc n * bs) (drop (b * bs) dev)) = dblock bs dev b"
    "drop bs (take (Suc n * bs) (drop (b * bs) dev)) = take (n * bs) (drop (Suc b * bs) dev)"
    by (simp_all add: dblock_def min_def drop_take add.commute)
  ultimately show "take bs data = dblock bs dev b" "take (n * bs) (drop bs data) = take (n * bs) (drop (Suc b * bs) dev)"
    using assms by (simp_all only:)
qed

lemma sync_write_ok:
  assumes "cache_ok (S \<union> {b..<b + n}) bs dev ic" and "n = 0 \<or> (b + n) * bs \<le> length dev" and "b + n \<le> UINT64_MAX"
    and "take (n * bs) data = take (n * bs) (drop (b * bs) dev)"
  shows "\<exists>ic'. sync_write bs nocache b n data ic = Some ic' \<and> cache_ok S bs dev ic'"
  using assms
proof (induction n arbitrary: b data ic)
  case (Suc n)
  let ?S = "S \<union> {Suc b..<Suc b + n}"
  have "S \<union> {b..<b + Suc n} = insert b ?S" by auto
  then have ok: "cache_ok (insert b ?S) bs dev ic" using Suc.prems(1) by simp
  have le: "(Suc b + n) * bs \<le> length dev" "Suc b + n \<le> UINT64_MAX" "b \<noteq> UINT64_MAX" using Suc.prems(2,3) by simp_all
  have "Suc b * bs \<le> (Suc b + n) * bs" by (rule mult_le_mono1) simp
  then have leb: "Suc b * bs \<le> length dev" using le(1) by linarith
  note data = take_blocks_eq [OF Suc.prems(4)]
  have IH: "\<exists>ic'. sync_write bs nocache (Suc b) n (drop bs data) ic = Some ic' \<and> cache_ok S bs dev ic'" if "cache_ok ?S bs dev ic" for ic
    using Suc.IH [OF that _ le(2) data(2)] le(1) by blast
  have store: "cache_ok ?S bs dev (touch nc (set_icb ic i (\<lambda>k. k\<lparr>icb_buf := dblock bs dev b\<rparr>)) i)"
    if "cache_ok (insert b ?S) bs dev ic" "io_cache_lookup ic b = Some i" for ic i nc
    using cache_touch [OF cache_store [OF that leb], of b i nc] that by (simp add: lookup_set_buf cache_ok_def)
  show ?case
  proof (cases "io_cache_lookup ic b")
    case (Some i)
    then show ?thesis using IH [OF store [OF ok Some, of nocache]] by (simp add: data(1) Let_def del: if_split)
  next
    case None
    obtain i ic' where st: "io_cache_steal ic b = Some (i, ic')" "cache_ok (insert b ?S) bs dev ic'" "io_cache_lookup ic' b = Some i"
      using cache_steal [OF ok le(3) None] by blast
    show ?thesis using None IH [OF cache_missing [OF ok None]] IH [OF store [OF st(2,3), of False]] st(1)
      by (cases nocache) (simp_all add: data(1))
  qed
qed simp

lemma sync_read_ok:
  assumes "cache_ok {} bs dev ic" and "(b + n) * bs \<le> length dev" and "b + n \<le> UINT64_MAX" and "good \<le> n"
    and "\<forall>k<good. io_cache_lookup ic (b + k) \<noteq> None"
    and "drop (good * bs) data = take ((n - good) * bs) (drop ((b + good) * bs) dev)" "good * bs \<le> length data"
  shows "\<exists>ic'. sync_read bs nocache b n good data ic = Some (take (n * bs) (drop (b * bs) dev), ic') \<and> cache_ok {} bs dev ic'"
  using assms
proof (induction n arbitrary: b good data ic)
  case (Suc n)
  have le: "(Suc b + n) * bs \<le> length dev" "Suc b + n \<le> UINT64_MAX" "b \<noteq> UINT64_MAX" using Suc.prems(2,3) by simp_all
  have "Suc b * bs \<le> (Suc b + n) * bs" by (rule mult_le_mono1) simp
  then have leb: "Suc b * bs \<le> length dev" using le(1) by linarith
  note slice = slice_Suc [of n bs b dev]
  show ?case
  proof (cases good)
    case 0
    have d: "take (Suc n * bs) data = take (Suc n * bs) (drop (b * bs) dev)" using Suc.prems(6) by (simp add: 0 min_def)
    note data = take_blocks_eq [OF d]
    have "drop bs data = take (n * bs) (drop (Suc b * bs) dev)" using Suc.prems(6) by (simp add: 0 drop_take add.commute)
    then have IH: "\<exists>ic'. sync_read bs nocache (Suc b) n 0 (drop bs data) ic = Some (take (n * bs) (drop (Suc b * bs) dev), ic') \<and> cache_ok {} bs dev ic'"
      if "cache_ok {} bs dev ic" for ic using Suc.IH [OF that le(1,2), of 0 "drop bs data"] by simp
    show ?thesis
    proof (cases "io_cache_lookup ic b")
      case (Some i)
      show ?thesis using Some IH [OF cache_touch [OF Suc.prems(1) Some, of nocache]] by (auto simp: 0 slice data(1) simp del: if_split mult_Suc)
    next
      case None
      obtain i ic' where st: "io_cache_steal ic b = Some (i, ic')" "cache_ok {b} bs dev ic'" "io_cache_lookup ic' b = Some i"
        using cache_steal [OF cache_mono [OF Suc.prems(1)] le(3) None, of "{}"] by blast
      have st2: "cache_ok {} bs dev (touch False (set_icb ic' i (\<lambda>k. k\<lparr>icb_buf := dblock bs dev b\<rparr>)) i)"
        using cache_touch [OF cache_store [OF st(2,3) leb], of b i False] st by (simp add: lookup_set_buf cache_ok_def)
      show ?thesis using None IH [OF Suc.prems(1)] IH [OF st2] st(1)
        by (cases nocache) (auto simp: 0 slice data(1) simp del: mult_Suc)
    qed
  next
    case (Suc g)
    obtain i where i: "io_cache_lookup ic b = Some i" using Suc.prems(5) Suc by (metis add_0_right not_None_eq zero_less_Suc)
    have "icb_buf (ic_blocks ic ! i) = dblock bs dev b"
      using coherent_butD [of "{}" bs dev ic b] Suc.prems(1) i by (simp add: cache_ok_def cmap_def)
    moreover have "\<forall>k<g. io_cache_lookup (touch nocache ic i) (Suc b + k) \<noteq> None"
      using Suc.prems(5) Suc by (metis Suc_less_eq add_Suc_right add_Suc_shift lookup_touch)
    moreover have "drop (g * bs) (drop bs data) = take ((n - g) * bs) (drop ((Suc b + g) * bs) dev)" "g * bs \<le> length (drop bs data)"
      using Suc.prems(6,7) Suc by (simp_all add: add.commute)
    ultimately show ?thesis
      using Suc.IH [OF cache_touch [OF Suc.prems(1) i, of nocache] le(1,2), of g "drop bs data"] Suc.prems(4) i Suc
      by (auto simp: slice simp del: if_split mult_Suc)
  qed
qed simp


section \<open>The device\<close>

text \<open>What a transfer leaves of a channel as it is.\<close>

definition same_chan :: "io_channel \<Rightarrow> io_channel \<Rightarrow> bool" where
  "same_chan ch ch' \<longleftrightarrow> io_blksize ch' = io_blksize ch \<and> io_nocache ch' = io_nocache ch \<and> io_cache ch' = io_cache ch \<and> io_sched ch' = io_sched ch"

text \<open>A device that neither fails nor stalls.\<close>

definition live :: "io_channel \<Rightarrow> bool" where
  "live ch \<longleftrightarrow> (\<forall>k. 0 < io_sched ch k)"

lemma transfer_bounds:
  assumes "0 < transfer ch off len"
  shows "nat (transfer ch off len) \<le> len" "off + nat (transfer ch off len) \<le> length (io_dev ch)" "0 < nat (transfer ch off len)"
  using assms by (auto simp: transfer_def Let_def split: if_splits)

lemma transfer_live: "live ch \<Longrightarrow> 0 < len \<Longrightarrow> off + len \<le> length (io_dev ch) \<Longrightarrow> 0 < transfer ch off len"
proof -
  assume "live ch" "0 < len" "off + len \<le> length (io_dev ch)"
  moreover have "0 < io_sched ch (io_calls ch)" using \<open>live ch\<close> unfolding live_def by (rule spec)
  ultimately show ?thesis by (simp add: transfer_def Let_def)
qed

lemma read_loop_ok:
  assumes "acc = take (length acc) (drop loc (io_dev ch))" and "length acc \<le> sz"
  shows "\<exists>err data ch'. read_loop ch loc sz acc = (err, data, ch') \<and> same_chan ch ch' \<and> io_dev ch' = io_dev ch \<and>
    (err = None \<longrightarrow> data = take sz (drop loc (io_dev ch)) \<and> length data = sz) \<and>
    (live ch \<and> loc + sz \<le> length (io_dev ch) \<longrightarrow> err = None)"
  using assms
proof (induction ch loc sz acc rule: read_loop.induct)
  case (1 ch loc sz acc)
  show ?case
  proof (cases "length acc < sz")
    case True
    let ?rd = "transfer ch (loc + length acc) (sz - length acc)" and ?ch = "ch\<lparr>io_calls := Suc (io_calls ch)\<rparr>"
    let ?acc = "acc @ take (nat ?rd) (drop (loc + length acc) (io_dev ?ch))"
    show ?thesis
    proof (cases "0 < ?rd")
      case rd: True
      note b = transfer_bounds [OF rd]
      have len: "length ?acc = length acc + nat ?rd" using b by simp
      have A1: "?acc = take (length ?acc) (drop loc (io_dev ?ch))" unfolding len take_add using "1.prems"(1) by (simp add: add.commute)
      have A2: "length ?acc \<le> sz" using b len True by simp
      have "\<exists>err data ch'. read_loop ?ch loc sz ?acc = (err, data, ch') \<and> same_chan ?ch ch' \<and> io_dev ch' = io_dev ?ch \<and>
          (err = None \<longrightarrow> data = take sz (drop loc (io_dev ?ch)) \<and> length data = sz) \<and> (live ?ch \<and> loc + sz \<le> length (io_dev ?ch) \<longrightarrow> err = None)"
        by (rule "1.IH" [OF True refl refl _ _ A1 A2]) (use rd in simp_all)
      moreover have "read_loop ch loc sz acc = read_loop ?ch loc sz ?acc" using True rd by (subst read_loop.simps) (simp add: Let_def)
      ultimately show ?thesis by (simp add: same_chan_def live_def)
    next
      case False
      then have "\<not> (live ch \<and> loc + sz \<le> length (io_dev ch))" using transfer_live [of ch "sz - length acc" "loc + length acc"] True by auto
      then show ?thesis using False True by (subst read_loop.simps) (auto simp: Let_def same_chan_def)
    qed
  next
    case False
    then have "length acc = sz" using "1.prems"(2) by simp
    then show ?thesis using "1.prems"(1) False by (subst read_loop.simps) (auto simp: same_chan_def)
  qed
qed

lemma patch_Nil [simp]: "patch buf off [] = buf"
  by (simp add: patch_def)

lemma patch_twice:
  assumes "off + length xs + length ys \<le> length buf"
  shows "patch (patch buf off xs) (off + length xs) ys = patch buf off (xs @ ys)"
proof -
  have "take (off + length xs) (patch buf off xs) = take off buf @ xs" "drop (off + length xs + length ys) (patch buf off xs) = drop (off + length xs + length ys) buf"
    using assms by (simp_all add: patch_def ac_simps)
  then show ?thesis unfolding patch_def [of "patch buf off xs"] by (simp add: patch_def [of buf] add.assoc)
qed

lemma write_loop_ok:
  assumes "tot \<le> length data"
  shows "\<exists>err tot' ch'. write_loop ch loc data tot = (err, tot', ch') \<and> same_chan ch ch' \<and> tot \<le> tot' \<and> tot' \<le> length data \<and>
    (tot' = tot \<or> loc + tot' \<le> length (io_dev ch)) \<and> io_dev ch' = patch (io_dev ch) (loc + tot) (take (tot' - tot) (drop tot data)) \<and>
    (err = None \<longrightarrow> tot' = length data) \<and> (live ch \<and> loc + length data \<le> length (io_dev ch) \<longrightarrow> err = None)"
  using assms
proof (induction ch loc data tot rule: write_loop.induct)
  case (1 ch loc data tot)
  show ?case
  proof (cases "tot < length data")
    case True
    let ?wr = "transfer ch (loc + tot) (length data - tot)" and ?ch = "ch\<lparr>io_calls := Suc (io_calls ch)\<rparr>"
    show ?thesis
    proof (cases "0 < ?wr")
      case wr: True
      let ?d = "take (nat ?wr) (drop tot data)"
      let ?ch1 = "?ch\<lparr>io_dev := patch (io_dev ?ch) (loc + tot) ?d\<rparr>"
      note b = transfer_bounds [OF wr]
      have len: "length ?d = nat ?wr" using b by simp
      have dev: "length (io_dev ?ch1) = length (io_dev ch)" using b len by simp
      have A: "tot + nat ?wr \<le> length data" using b True by simp
      have "\<exists>err tot' ch'. write_loop ?ch1 loc data (tot + nat ?wr) = (err, tot', ch') \<and> same_chan ?ch1 ch' \<and> tot + nat ?wr \<le> tot' \<and> tot' \<le> length data \<and>
          (tot' = tot + nat ?wr \<or> loc + tot' \<le> length (io_dev ?ch1)) \<and>
          io_dev ch' = patch (io_dev ?ch1) (loc + (tot + nat ?wr)) (take (tot' - (tot + nat ?wr)) (drop (tot + nat ?wr) data)) \<and>
          (err = None \<longrightarrow> tot' = length data) \<and> (live ?ch1 \<and> loc + length data \<le> length (io_dev ?ch1) \<longrightarrow> err = None)"
        by (rule "1.IH" [OF True refl refl _ _ A]) (use wr in simp_all)
      then obtain err tot' ch' where r: "write_loop ?ch1 loc data (tot + nat ?wr) = (err, tot', ch')" "same_chan ?ch1 ch'" "tot + nat ?wr \<le> tot'" "tot' \<le> length data"
        "tot' = tot + nat ?wr \<or> loc + tot' \<le> length (io_dev ?ch1)"
        "io_dev ch' = patch (io_dev ?ch1) (loc + (tot + nat ?wr)) (take (tot' - (tot + nat ?wr)) (drop (tot + nat ?wr) data))"
        "err = None \<longrightarrow> tot' = length data" "live ?ch1 \<and> loc + length data \<le> length (io_dev ?ch1) \<longrightarrow> err = None" by blast
      let ?d2 = "take (tot' - (tot + nat ?wr)) (drop (tot + nat ?wr) data)"
      have fit: "loc + tot' \<le> length (io_dev ch)" using r(5) b(2) dev by auto
      have len2: "length ?d2 = tot' - (tot + nat ?wr)" using r(4) by simp
      have "?d @ ?d2 = take (tot' - tot) (drop tot data)"
        using r(3) take_add [of "nat ?wr" "tot' - (tot + nat ?wr)" "drop tot data"] by (simp add: add.commute)
      moreover have "patch (patch (io_dev ch) (loc + tot) ?d) (loc + tot + length ?d) ?d2 = patch (io_dev ch) (loc + tot) (?d @ ?d2)"
        by (rule patch_twice) (use r(3,4) fit len len2 in linarith)
      ultimately have "io_dev ch' = patch (io_dev ch) (loc + tot) (take (tot' - tot) (drop tot data))"
        unfolding r(6) len by (simp add: add.assoc)
      moreover have "write_loop ch loc data tot = write_loop ?ch1 loc data (tot + nat ?wr)" using True wr by (subst write_loop.simps) (simp add: Let_def)
      ultimately show ?thesis using r fit dev by (simp add: same_chan_def live_def)
    next
      case False
      then have "\<not> (live ch \<and> loc + length data \<le> length (io_dev ch))" using transfer_live [of ch "length data - tot" "loc + tot"] True by auto
      then show ?thesis using False True by (subst write_loop.simps) (auto simp: Let_def same_chan_def)
    qed
  next
    case False
    then show ?thesis using "1.prems" by (subst write_loop.simps) (auto simp: same_chan_def)
  qed
qed


section \<open>Reading\<close>

definition chan_ok :: "nat set \<Rightarrow> io_channel \<Rightarrow> bool" where
  "chan_ok S ch \<longleftrightarrow> 0 < io_blksize ch \<and> (\<forall>ic. io_cache ch = Some ic \<longrightarrow> cache_ok S (io_blksize ch) (io_dev ch) ic)"

definition keeps_chan :: "io_channel \<Rightarrow> io_channel \<Rightarrow> bool" where
  "keeps_chan ch ch' \<longleftrightarrow> io_blksize ch' = io_blksize ch \<and> io_nocache ch' = io_nocache ch \<and> io_sched ch' = io_sched ch \<and>
     (io_cache ch' = None) = (io_cache ch = None)"

text \<open>A request for \<open>n\<close> blocks from \<open>b\<close> on whose sizes fit their types.\<close>

definition fits :: "io_channel \<Rightarrow> nat \<Rightarrow> nat \<Rightarrow> bool" where
  "fits ch b n \<longleftrightarrow> n * io_blksize ch \<le> INT_MAX \<and> (b + n) * io_blksize ch < 2 ^ 63"

text \<open>What a read of \<open>n\<close> blocks from \<open>b\<close> on promises, given what was read before.\<close>

definition read_post :: "io_channel \<Rightarrow> nat \<Rightarrow> nat \<Rightarrow> byte list \<Rightarrow> errcode option \<times> byte list \<times> io_channel \<Rightarrow> bool" where
  "read_post ch b n acc r = (case r of (err, data, ch') \<Rightarrow>
     chan_ok {} ch' \<and> keeps_chan ch ch' \<and> io_dev ch' = io_dev ch \<and>
     (err = None \<longrightarrow> data = acc @ take (n * io_blksize ch) (drop (b * io_blksize ch) (io_dev ch)) \<and>
        length data = length acc + n * io_blksize ch) \<and>
     (live ch \<and> (b + n) * io_blksize ch \<le> length (io_dev ch) \<longrightarrow> err = None))"

lemma keeps_chan_refl [simp]: "keeps_chan ch ch"
  by (simp add: keeps_chan_def)

lemma keeps_chan_trans: "keeps_chan a b \<Longrightarrow> keeps_chan b c \<Longrightarrow> keeps_chan a c"
  by (simp add: keeps_chan_def)

lemma fits_sub: "fits ch b n \<Longrightarrow> n' \<le> n \<Longrightarrow> b' + n' \<le> b + n \<Longrightarrow> io_blksize ch' = io_blksize ch \<Longrightarrow> fits ch' b' n'"
  unfolding fits_def by (metis le_trans le_less_trans mult_le_mono1)

lemma request_ok:
  assumes "fits ch b n"
  shows "request_size ch (int n) = Some (n * io_blksize ch)" "request_location ch b = Some (b * io_blksize ch)"
    "0 < io_blksize ch \<Longrightarrow> b + n \<le> UINT64_MAX"
proof -
  have "int n * int (io_blksize ch) \<le> int INT_MAX" using assms unfolding fits_def by (metis of_nat_le_iff of_nat_mult)
  then show "request_size ch (int n) = Some (n * io_blksize ch)" by (simp add: request_size_def)
  have "fits ch b 0" using assms by (rule fits_sub) simp_all
  then show "request_location ch b = Some (b * io_blksize ch)" by (simp add: fits_def request_location_def)
  assume "0 < io_blksize ch"
  then have "b + n \<le> (b + n) * io_blksize ch" by simp
  also have "\<dots> < 2 ^ 63" using assms by (simp add: fits_def)
  finally have "b + n < 2 ^ 63" .
  then show "b + n \<le> UINT64_MAX" by (simp add: UINT64_MAX_def)
qed

lemma unix_read_ok:
  assumes "fits ch b n"
  shows "\<exists>err data ch'. unix_io_read_block ch b (int n) = Some (err, data, ch') \<and> same_chan ch ch' \<and> io_dev ch' = io_dev ch \<and>
    (err = None \<longrightarrow> data = take (n * io_blksize ch) (drop (b * io_blksize ch) (io_dev ch)) \<and> length data = n * io_blksize ch) \<and>
    (live ch \<and> (b + n) * io_blksize ch \<le> length (io_dev ch) \<longrightarrow> err = None)"
  using read_loop_ok [of "[]" "b * io_blksize ch" ch "n * io_blksize ch"] request_ok(1,2) [OF assms]
  by (auto simp: unix_io_read_block_def add_mult_distrib)

lemma cached_blocks_le: "cached_blocks ic b n \<le> n"
  by (induction ic b n rule: cached_blocks.induct) auto

lemma cached_blocks_found: "k < cached_blocks ic b n \<Longrightarrow> io_cache_lookup ic (b + k) \<noteq> None"
proof (induction ic b n arbitrary: k rule: cached_blocks.induct)
  case (2 ic b n)
  then show ?case by (cases k) (auto split: if_splits)
qed simp

lemma full_slice: "take m (drop l xs) = ys \<Longrightarrow> length ys = m \<Longrightarrow> 0 < m \<Longrightarrow> l + m \<le> length xs"
  by auto

lemma read_blocks_ok:
  assumes ok: "chan_ok {} ch" and ic: "io_cache ch = Some ic" and n: "0 < n" and fits: "fits ch b n"
  shows "\<exists>r. io_cache_read_blocks ch ic b n nocache = Some r \<and> read_post ch b n [] r"
proof -
  let ?bs = "io_blksize ch" and ?g = "cached_blocks ic b n" and ?dev = "io_dev ch"
  have c: "cache_ok {} ?bs ?dev ic" and bs: "0 < ?bs" using ok ic by (auto simp: chan_ok_def)
  note g = cached_blocks_le [of ic b n] cached_blocks_found [of _ ic b n]
  have sync: "\<exists>r. io_cache_read_blocks ch ic b n nocache = Some r \<and> read_post ch b n [] r"
    if rd: "(if ?g < n then unix_io_read_block ch (b + ?g) (int (n - ?g)) else Some (None, [], ch)) = Some (None, d, ch')"
      and ch': "same_chan ch ch'" "io_dev ch' = ?dev" and range: "(b + n) * ?bs \<le> length ?dev"
      and d: "d = take ((n - ?g) * ?bs) (drop ((b + ?g) * ?bs) ?dev)" for d ch'
  proof -
    obtain ic' where s: "sync_read ?bs nocache b n ?g (replicate (?g * ?bs) 0 @ d) ic = Some (take (n * ?bs) (drop (b * ?bs) ?dev), ic')"
      and c': "cache_ok {} ?bs ?dev ic'"
      using sync_read_ok [OF c range request_ok(3) [OF fits bs] g(1), of "replicate (?g * ?bs) 0 @ d"] g(2) d by auto
    have "length (take (n * ?bs) (drop (b * ?bs) ?dev)) = n * ?bs" using range by (simp add: add_mult_distrib)
    moreover have "io_cache_read_blocks ch ic b n nocache = Some (None, take (n * ?bs) (drop (b * ?bs) ?dev), ch'\<lparr>io_cache := Some ic'\<rparr>)"
      using rd s by (simp add: io_cache_read_blocks_def Let_def)
    ultimately show ?thesis using ch' c' bs ic by (auto simp: read_post_def chan_ok_def keeps_chan_def same_chan_def)
  qed
  show ?thesis
  proof (cases "?g < n")
    case True
    have f: "fits ch (b + ?g) (n - ?g)" using fits by (rule fits_sub) (use True in simp_all)
    obtain err d ch' where r: "unix_io_read_block ch (b + ?g) (int (n - ?g)) = Some (err, d, ch')" "same_chan ch ch'" "io_dev ch' = ?dev"
      "err = None \<longrightarrow> d = take ((n - ?g) * ?bs) (drop ((b + ?g) * ?bs) ?dev) \<and> length d = (n - ?g) * ?bs"
      "live ch \<and> (b + ?g + (n - ?g)) * ?bs \<le> length ?dev \<longrightarrow> err = None" using unix_read_ok [OF f] by blast
    show ?thesis
    proof (cases err)
      case None
      then have d: "d = take ((n - ?g) * ?bs) (drop ((b + ?g) * ?bs) ?dev)" "length d = (n - ?g) * ?bs" using r(4) by (blast+)
      have "(b + ?g) * ?bs + (n - ?g) * ?bs \<le> length ?dev"
        by (rule full_slice [OF d(1) [symmetric] d(2)]) (use True bs in simp)
      then have "(b + n) * ?bs \<le> length ?dev" using True by (simp add: add_mult_distrib [symmetric])
      then show ?thesis using sync [OF _ r(2,3) _ d(1)] r(1) None True by simp
    next
      case (Some e)
      have "io_cache_read_blocks ch ic b n nocache = Some (Some e, d, ch')" using r(1) True Some by (simp add: io_cache_read_blocks_def Let_def)
      then show ?thesis using r ok True Some by (auto simp: read_post_def chan_ok_def keeps_chan_def same_chan_def)
    qed
  next
    case False
    then have "?g = n" using g(1) by simp
    then have "io_cache_lookup ic (b + (n - 1)) \<noteq> None" using g(2) [of "n - 1"] n by simp
    then obtain x where "cmap ic (b + (n - 1)) = Some x" by (metis cmap_None not_None_eq)
    then have "Suc (b + (n - 1)) * ?bs \<le> length ?dev" using c coherent_butD [of "{}" ?bs ?dev ic] unfolding cache_ok_def by blast
    moreover have "Suc (b + (n - 1)) = b + n" using n by simp
    ultimately have "(b + n) * ?bs \<le> length ?dev" by metis
    then show ?thesis using sync [of "[]" ch] False \<open>?g = n\<close> by (simp add: same_chan_def)
  qed
qed

lemma read_hunks_ok:
  assumes "chan_ok {} ch" and "io_cache ch \<noteq> None" and "fits ch b n" and "0 < todo"
  shows "\<exists>r. read_hunks ch b n todo nocache acc = Some r \<and> read_post ch b n acc r"
  using assms
proof (induction ch b n todo nocache acc rule: read_hunks.induct)
  case (1 ch b n todo nocache acc)
  let ?bs = "io_blksize ch" and ?k = "if todo > n then n else todo"
  obtain ic where ic: "io_cache ch = Some ic" using 1(3) by blast
  show ?case
  proof (cases "n = 0")
    case False
    have k: "0 < ?k" "?k \<le> n" using False 1(5) by auto
    have f: "fits ch b ?k" using 1(4) by (rule fits_sub) (use k(2) in simp_all)
    obtain err data ch' where r: "io_cache_read_blocks ch ic b ?k nocache = Some (err, data, ch')" "read_post ch b ?k [] (err, data, ch')"
      using read_blocks_ok [OF 1(2) ic k(1) f] by (metis prod_cases3)
    have step: "read_hunks ch b n todo nocache acc = (case err of Some e \<Rightarrow> Some (Some e, acc @ data, ch')
        | None \<Rightarrow> read_hunks ch' (b + ?k) (n - ?k) ?k nocache (acc @ data))"
      using False ic r(1) 1(5) by (subst read_hunks.simps) (simp add: Let_def split: option.split del: if_split)
    have ch': "chan_ok {} ch'" "keeps_chan ch ch'" "io_dev ch' = io_dev ch" "live ch' = live ch" "io_blksize ch' = ?bs" "io_cache ch' \<noteq> None"
      using r(2) ic by (auto simp: read_post_def keeps_chan_def live_def)
    show ?thesis
    proof (cases err)
      case None
      have d: "data = take (?k * ?bs) (drop (b * ?bs) (io_dev ch))" "length data = ?k * ?bs" using r(2) None by (auto simp: read_post_def simp del: if_split)
      have f': "fits ch' (b + ?k) (n - ?k)" using 1(4) by (rule fits_sub) (use k(2) ch'(5) in simp_all)
      have "\<exists>r. read_hunks ch' (b + ?k) (n - ?k) ?k nocache (acc @ data) = Some r \<and> read_post ch' (b + ?k) (n - ?k) (acc @ data) r"
        by (rule 1(1) [OF False _ ic refl r(1) refl None refl ch'(1,6) f' k(1)]) (use 1(5) in simp)
      then obtain err2 data2 ch2 where r2: "read_hunks ch' (b + ?k) (n - ?k) ?k nocache (acc @ data) = Some (err2, data2, ch2)"
        "read_post ch' (b + ?k) (n - ?k) (acc @ data) (err2, data2, ch2)" by (metis prod_cases3)
      have "take (?k * ?bs + (n - ?k) * ?bs) (drop (b * ?bs) (io_dev ch)) = data @ take ((n - ?k) * ?bs) (drop ((b + ?k) * ?bs) (io_dev ch))"
        unfolding take_add d(1) by (simp add: add_mult_distrib add.commute del: if_split)
      moreover have "?k * ?bs + (n - ?k) * ?bs = n * ?bs" using k(2) by (simp add: add_mult_distrib [symmetric] del: if_split)
      ultimately have "read_post ch b n acc (err2, data2, ch2)"
        using r2(2) ch' k(2) d(2) keeps_chan_trans [OF ch'(2)] by (auto simp: read_post_def simp del: if_split)
      then show ?thesis using step None r2(1) by (simp del: if_split)
    next
      case (Some e)
      have le: "(b + ?k) * ?bs \<le> (b + n) * ?bs" by (rule mult_le_mono1) (use k(2) in simp)
      have "\<not> (live ch \<and> (b + ?k) * ?bs \<le> length (io_dev ch))" using r(2) Some by (auto simp: read_post_def simp del: if_split)
      then have "\<not> (live ch \<and> (b + n) * ?bs \<le> length (io_dev ch))" using le le_trans by blast
      then show ?thesis using step Some ch' by (auto simp: read_post_def simp del: if_split)
    qed
  next
    case True
    then show ?thesis using 1(2) by (subst read_hunks.simps) (simp add: read_post_def)
  qed
qed

lemma one_meg_pos: "0 < io_blksize ch \<Longrightarrow> 0 < one_meg_of_blocks ch"
  by (simp add: one_meg_of_blocks_def ONE_MEGABYTE_def div_greater_zero_iff)

lemma read_with_ok:
  assumes ok: "chan_ok {} ch" and fits: "fits ch b n"
  shows "\<exists>r. io_read_block_with nocache ch b (int n) = Some r \<and> read_post ch b n [] r"
proof (cases "io_cache ch")
  case None
  then show ?thesis using unix_read_ok [OF fits] ok by (auto simp: io_read_block_with_def read_post_def chan_ok_def keeps_chan_def same_chan_def)
next
  case (Some ic)
  then show ?thesis using read_hunks_ok [OF ok _ fits one_meg_pos] ok by (simp add: io_read_block_with_def io_cache_read_block_def chan_ok_def)
qed


section \<open>Writing\<close>

lemma dblock_patch:
  assumes "off + length xs \<le> length dev" and "Suc c * bs \<le> off \<or> off + length xs \<le> c * bs"
  shows "dblock bs (patch dev off xs) c = dblock bs dev c"
proof (rule disjE [OF assms(2)])
  assume "Suc c * bs \<le> off"
  then have "take (bs + c * bs) (patch dev off xs) = take (bs + c * bs) dev" using assms(1) by (simp add: patch_def min_def)
  then show ?thesis by (simp add: dblock_def take_drop)
next
  assume a: "off + length xs \<le> c * bs"
  have "off + (length xs + (c * bs - (off + length xs))) = c * bs" using a by simp
  then show ?thesis using assms(1) a by (simp add: dblock_def patch_def add.commute)
qed

lemma drop_patch: "off \<le> length buf \<Longrightarrow> take (length xs) (drop off (patch buf off xs)) = xs"
  by (simp add: patch_def)

text \<open>The block in which a write of \<open>tot\<close> bytes stopped.\<close>

definition torn :: "nat \<Rightarrow> nat \<Rightarrow> nat \<Rightarrow> nat set" where
  "torn bs b tot = (if tot mod bs = 0 then {} else {b + tot div bs})"

lemma cache_after_write:
  assumes ok: "cache_ok {} bs dev ic" and bs: "0 < bs" and fit: "tot = 0 \<or> b * bs + tot \<le> length dev" and tot: "tot \<le> length data"
  shows "cache_ok (torn bs b tot \<union> {b..<b + tot div bs}) bs (patch dev (b * bs) (take tot data)) ic"
proof (cases "tot = 0")
  case True
  then show ?thesis using ok by (simp add: torn_def)
next
  case False
  let ?dev = "patch dev (b * bs) (take tot data)"
  have fit: "b * bs + length (take tot data) \<le> length dev" using fit tot False by simp
  have "x = dblock bs ?dev c \<and> Suc c * bs \<le> length ?dev"
    if c: "c \<notin> torn bs b tot \<union> {b..<b + tot div bs}" and x: "cmap ic c = Some x" for c x
  proof -
    have "Suc c * bs \<le> b * bs \<or> b * bs + tot \<le> c * bs"
    proof (cases "c < b")
      case True
      then have "Suc c * bs \<le> b * bs" by (intro mult_le_mono1) simp
      then show ?thesis ..
    next
      case False
      define q where "q = tot div bs"
      have eq: "tot = q * bs + tot mod bs" by (simp add: q_def)
      have "(b + q) * bs + tot mod bs \<le> c * bs"
      proof (cases "tot mod bs = 0")
        case True
        then have "b + q \<le> c" using c False by (simp add: torn_def q_def)
        then show ?thesis using True by simp
      next
        case m: False
        then have "Suc (b + q) \<le> c" using c False by (simp add: torn_def q_def)
        then have "Suc (b + q) * bs \<le> c * bs" by (rule mult_le_mono1)
        moreover have "tot mod bs < bs" using bs by simp
        ultimately show ?thesis by simp
      qed
      then show ?thesis using eq by (simp add: add_mult_distrib)
    qed
    then have "dblock bs ?dev c = dblock bs dev c" using fit tot by (intro dblock_patch) simp_all
    moreover have "length ?dev = length dev" using fit by simp
    ultimately show ?thesis using ok x by (simp add: cache_ok_def coherent_but_def)
  qed
  then show ?thesis using ok by (simp add: cache_ok_def coherent_but_def)
qed

definition write_post :: "io_channel \<Rightarrow> nat \<Rightarrow> nat \<Rightarrow> byte list \<Rightarrow> errcode option \<times> io_channel \<Rightarrow> bool" where
  "write_post ch b n data r = (case r of (err, ch') \<Rightarrow>
     (\<exists>tot\<le>n * io_blksize ch. io_dev ch' = patch (io_dev ch) (b * io_blksize ch) (take tot data) \<and>
        (tot = 0 \<or> b * io_blksize ch + tot \<le> length (io_dev ch)) \<and>
        (err = None \<longrightarrow> tot = n * io_blksize ch) \<and> chan_ok (torn (io_blksize ch) b tot) ch') \<and> keeps_chan ch ch' \<and>
     (live ch \<and> (b + n) * io_blksize ch \<le> length (io_dev ch) \<longrightarrow> err = None))"

lemma unix_write_ok:
  assumes fits: "fits ch b n" and len: "n * io_blksize ch \<le> length data"
  shows "\<exists>err tot ch'. unix_io_write_block_full ch b (int n) data = Some (err, tot div io_blksize ch, ch') \<and> same_chan ch ch' \<and>
    tot \<le> n * io_blksize ch \<and> (tot = 0 \<or> b * io_blksize ch + tot \<le> length (io_dev ch)) \<and>
    io_dev ch' = patch (io_dev ch) (b * io_blksize ch) (take tot data) \<and> (err = None \<longrightarrow> tot = n * io_blksize ch) \<and>
    (live ch \<and> (b + n) * io_blksize ch \<le> length (io_dev ch) \<longrightarrow> err = None)"
proof -
  let ?d = "take (n * io_blksize ch) data"
  have d: "length ?d = n * io_blksize ch" using len by simp
  obtain err tot ch' where w: "write_loop ch (b * io_blksize ch) ?d 0 = (err, tot, ch')" "same_chan ch ch'" "tot \<le> length ?d"
    "tot = 0 \<or> b * io_blksize ch + tot \<le> length (io_dev ch)" "io_dev ch' = patch (io_dev ch) (b * io_blksize ch) (take tot ?d)"
    "err = None \<longrightarrow> tot = length ?d" "live ch \<and> b * io_blksize ch + length ?d \<le> length (io_dev ch) \<longrightarrow> err = None"
    using write_loop_ok [OF le0, of ch "b * io_blksize ch" ?d] unfolding diff_zero add_0_right drop_0 by blast
  have "take tot ?d = take tot data" using w(3) d by (simp add: min_def)
  then have "unix_io_write_block_full ch b (int n) data = Some (err, tot div io_blksize ch, ch') \<and> same_chan ch ch' \<and>
    tot \<le> n * io_blksize ch \<and> (tot = 0 \<or> b * io_blksize ch + tot \<le> length (io_dev ch)) \<and>
    io_dev ch' = patch (io_dev ch) (b * io_blksize ch) (take tot data) \<and> (err = None \<longrightarrow> tot = n * io_blksize ch) \<and>
    (live ch \<and> (b + n) * io_blksize ch \<le> length (io_dev ch) \<longrightarrow> err = None)"
    using w request_ok(1,2) [OF fits] len by (simp add: unix_io_write_block_full_def add_mult_distrib same_chan_def)
  then show ?thesis by blast
qed

lemma write_with_ok:
  assumes ok: "chan_ok {} ch" and fits: "fits ch b n" and len: "n * io_blksize ch \<le> length data"
  shows "\<exists>r. io_write_block_with nocache ch b (int n) data = Some r \<and> write_post ch b n data r"
proof -
  let ?bs = "io_blksize ch"
  have bs: "0 < ?bs" using ok by (simp add: chan_ok_def)
  obtain err tot ch' where w: "unix_io_write_block_full ch b (int n) data = Some (err, tot div ?bs, ch')" "same_chan ch ch'"
    "tot \<le> n * ?bs" "tot = 0 \<or> b * ?bs + tot \<le> length (io_dev ch)" "io_dev ch' = patch (io_dev ch) (b * ?bs) (take tot data)"
    "err = None \<longrightarrow> tot = n * ?bs" "live ch \<and> (b + n) * ?bs \<le> length (io_dev ch) \<longrightarrow> err = None"
    using unix_write_ok [OF fits len] by blast
  have post: "write_post ch b n data (err, ch'')"
    if "chan_ok (torn ?bs b tot) ch''" "io_dev ch'' = io_dev ch'" "keeps_chan ch ch''" for ch''
    unfolding write_post_def prod.case by (intro conjI exI [of _ tot]) (simp_all add: that w)
  show ?thesis
  proof (cases "io_cache ch")
    case None
    then have "chan_ok (torn ?bs b tot) ch'" "keeps_chan ch ch'" using w(2) bs by (simp_all add: chan_ok_def keeps_chan_def same_chan_def)
    then show ?thesis using None w(1) post by (simp add: io_write_block_with_def unix_io_write_block_def)
  next
    case (Some ic)
    have tl: "tot \<le> length data" using w(3) len by simp
    have c: "cache_ok {} ?bs (io_dev ch) ic" using ok Some by (simp add: chan_ok_def)
    have q: "tot div ?bs * ?bs \<le> tot" "tot div ?bs \<le> n" using div_le_mono [OF w(3), of ?bs] bs by simp_all
    have len': "length (io_dev ch') = length (io_dev ch)" using w(4,5) tl by (cases "tot = 0") simp_all
    have r: "tot div ?bs = 0 \<or> (b + tot div ?bs) * ?bs \<le> length (io_dev ch')"
      using w(4) q(1) len' unfolding add_mult_distrib by (cases "tot = 0") (simp, linarith)
    have dat: "take (tot div ?bs * ?bs) data = take (tot div ?bs * ?bs) (drop (b * ?bs) (io_dev ch'))"
    proof (cases "tot = 0")
      case False
      then have "take tot data = take tot (drop (b * ?bs) (io_dev ch'))"
        using drop_patch [of "b * ?bs" "io_dev ch" "take tot data"] w(4,5) tl by simp
      then have "take (tot div ?bs * ?bs) (take tot data) = take (tot div ?bs * ?bs) (take tot (drop (b * ?bs) (io_dev ch')))" by simp
      then show ?thesis using q(1) by (simp add: min_def)
    qed simp
    have "b + tot div ?bs \<le> UINT64_MAX" using request_ok(3) [OF fits bs] q(2) by simp
    from sync_write_ok [OF _ r this dat, of "torn ?bs b tot" ic nocache] cache_after_write [OF c bs w(4) tl]
    obtain ic' where ic': "sync_write ?bs nocache b (tot div ?bs) data ic = Some ic'" "cache_ok (torn ?bs b tot) ?bs (io_dev ch') ic'"
      unfolding w(5) by blast
    have "io_write_block_with nocache ch b (int n) data = Some (err, ch'\<lparr>io_cache := Some ic'\<rparr>)"
      using Some w(1,2) ic'(1) by (simp add: io_write_block_with_def io_cache_write_block_def io_cache_write_blocks_def same_chan_def)
    moreover have "chan_ok (torn ?bs b tot) (ch'\<lparr>io_cache := Some ic'\<rparr>)" "keeps_chan ch (ch'\<lparr>io_cache := Some ic'\<rparr>)"
      using w(2) bs ic'(2) Some by (simp_all add: chan_ok_def keeps_chan_def same_chan_def)
    ultimately show ?thesis using post [of "ch'\<lparr>io_cache := Some ic'\<rparr>"] by simp
  qed
qed


end
