(* ===== verification/Io_Props.thy ===== *)
theory Io_Props
  imports Io_Cache
begin

text \<open>
  The properties of \<open>libocfs2/unix_io.c\<close>: a read and a write through the cache, and sequences of them, which
  behave as on the bare device.  At the end, the cases in which the cache and the device part.
\<close>

section \<open>One request\<close>

text \<open>
  C33: a read of \<open>n\<close> blocks from \<open>b\<close> on through a channel, with or without a cache, never leaves the cache's
  memory or hits an assertion; it leaves the device as it is and the cache in order (the tree holds just the blocks
  that are in use, sorted by their numbers, every block is once in the list of recently used ones, and the contents
  of each are those of the device); when it succeeds it returns the contents of the device, and it succeeds on a
  device that neither fails nor stalls when the blocks are inside of the device.
\<close>

theorem read_through_cache:
  assumes "chan_ok {} ch" and "fits ch b n"
  shows "\<exists>err data ch'. io_read_block ch b (int n) = Some (err, data, ch') \<and> chan_ok {} ch' \<and> keeps_chan ch ch' \<and> io_dev ch' = io_dev ch \<and>
    (err = None \<longrightarrow> data = take (n * io_blksize ch) (drop (b * io_blksize ch) (io_dev ch)) \<and> length data = n * io_blksize ch) \<and>
    (live ch \<and> (b + n) * io_blksize ch \<le> length (io_dev ch) \<longrightarrow> err = None)"
  using read_with_ok [OF assms, of "io_nocache ch"] by (auto simp: io_read_block_def read_post_def)

text \<open>
  C34: a write of \<open>n\<close> blocks puts a first part of the data on the device, all of it when it succeeds, and leaves the
  cache in order but for the one block in which the device stopped when it stopped within a block.
\<close>

theorem write_through_cache:
  assumes "chan_ok {} ch" and "fits ch b n" and "n * io_blksize ch \<le> length data"
  shows "\<exists>err ch' tot. io_write_block ch b (int n) data = Some (err, ch') \<and> keeps_chan ch ch' \<and> tot \<le> n * io_blksize ch \<and>
    io_dev ch' = patch (io_dev ch) (b * io_blksize ch) (take tot data) \<and> (tot = 0 \<or> b * io_blksize ch + tot \<le> length (io_dev ch)) \<and>
    chan_ok (if tot mod io_blksize ch = 0 then {} else {b + tot div io_blksize ch}) ch' \<and>
    (err = None \<longrightarrow> tot = n * io_blksize ch) \<and> (live ch \<and> (b + n) * io_blksize ch \<le> length (io_dev ch) \<longrightarrow> err = None)"
proof -
  obtain err ch' where w: "io_write_block ch b (int n) data = Some (err, ch')" "write_post ch b n data (err, ch')"
    using write_with_ok [OF assms, of "io_nocache ch"] unfolding io_write_block_def by (metis prod.exhaust)
  then obtain tot where "tot \<le> n * io_blksize ch" "io_dev ch' = patch (io_dev ch) (b * io_blksize ch) (take tot data)"
    "tot = 0 \<or> b * io_blksize ch + tot \<le> length (io_dev ch)" "err = None \<longrightarrow> tot = n * io_blksize ch" "chan_ok (torn (io_blksize ch) b tot) ch'"
    unfolding write_post_def prod.case by blast
  then show ?thesis using w unfolding write_post_def prod.case torn_def by blast
qed

section \<open>Sequences of requests\<close>

datatype io_op = Read bool nat nat | Write bool nat "byte list" | Set_Nocache bool | Init_Cache nat | Destroy_Cache

text \<open>What a user sees of a request: the error and the data.\<close>

fun do_op :: "byte list \<Rightarrow> io_op \<Rightarrow> io_channel \<Rightarrow> ((errcode option \<times> byte list) \<times> io_channel) option" where
  "do_op junk (Read nc b n) ch =
     map_option (\<lambda>(err, d, ch). ((err, d), ch)) (if nc then io_read_block_nocache ch b (int n) else io_read_block ch b (int n))"
| "do_op junk (Write nc b data) ch =
     (let n = int (length data div io_blksize ch) in
      map_option (\<lambda>(err, ch). ((err, []), ch)) (if nc then io_write_block_nocache ch b n data else io_write_block ch b n data))"
| "do_op junk (Set_Nocache nc) ch = Some ((None, []), io_set_nocache ch nc)"
| "do_op junk (Init_Cache n) ch = Some ((None, []), io_init_cache junk ch n)"
| "do_op junk Destroy_Cache ch = Some ((None, []), io_destroy_cache ch)"

fun do_ops :: "byte list \<Rightarrow> io_op list \<Rightarrow> io_channel \<Rightarrow> ((errcode option \<times> byte list) list \<times> io_channel) option" where
  "do_ops junk [] ch = Some ([], ch)"
| "do_ops junk (op # ops) ch =
     do { (r, ch) \<leftarrow> do_op junk op ch; (rs, ch) \<leftarrow> do_ops junk ops ch; Some (r # rs, ch) }"

text \<open>The same on a list of bytes.\<close>

fun dev_op :: "nat \<Rightarrow> io_op \<Rightarrow> byte list \<Rightarrow> byte list \<times> byte list" where
  "dev_op bs (Read nc b n) dev = (take (n * bs) (drop (b * bs) dev), dev)"
| "dev_op bs (Write nc b data) dev = ([], patch dev (b * bs) data)"
| "dev_op bs _ dev = ([], dev)"

fun dev_ops :: "nat \<Rightarrow> io_op list \<Rightarrow> byte list \<Rightarrow> byte list list \<times> byte list" where
  "dev_ops bs [] dev = ([], dev)"
| "dev_ops bs (op # ops) dev = (case dev_op bs op dev of (d, dev) \<Rightarrow> case dev_ops bs ops dev of (ds, dev) \<Rightarrow> (d # ds, dev))"

text \<open>Requests for whole blocks inside of a device; a cache has at least one block.\<close>

fun op_ok :: "nat \<Rightarrow> nat \<Rightarrow> io_op \<Rightarrow> bool" where
  "op_ok bs len (Read nc b n) \<longleftrightarrow> n * bs \<le> INT_MAX \<and> (b + n) * bs \<le> len"
| "op_ok bs len (Write nc b data) \<longleftrightarrow> length data \<le> INT_MAX \<and> b * bs + length data \<le> len \<and> length data mod bs = 0"
| "op_ok bs len (Init_Cache n) \<longleftrightarrow> 0 < n"
| "op_ok bs len _ \<longleftrightarrow> True"

lemma init_cache_ok:
  assumes "0 < n" and "0 < io_blksize ch"
  shows "chan_ok {} (io_init_cache junk ch n)"
proof -
  let ?ic = "\<lparr>ic_blocks = replicate n \<lparr>icb_blkno = UINT64_MAX, icb_buf = junk\<rparr>, ic_lru = [0..<n], ic_lookup = Leaf, ic_locked = False\<rparr>"
  have s: "struct_ok ?ic" using assms by (auto simp: struct_ok_def)
  then have "cmap ?ic b \<noteq> Some x" for b x using cmap_Some [OF s, of b x] by auto
  then show ?thesis using s assms by (simp add: chan_ok_def io_init_cache_def cache_ok_def coherent_but_def)
qed

lemma do_op_ok:
  assumes ok: "chan_ok {} ch" "live ch" and op: "op_ok (io_blksize ch) (length (io_dev ch)) op" and small: "length (io_dev ch) < 2 ^ 63"
  shows "\<exists>ch'. do_op junk op ch = Some ((None, fst (dev_op (io_blksize ch) op (io_dev ch))), ch') \<and> chan_ok {} ch' \<and> live ch' \<and>
    io_blksize ch' = io_blksize ch \<and> io_dev ch' = snd (dev_op (io_blksize ch) op (io_dev ch)) \<and> length (io_dev ch') = length (io_dev ch)"
proof (cases op)
  case (Read nc b n)
  then have "fits ch b n" "(b + n) * io_blksize ch \<le> length (io_dev ch)" using op small by (auto simp: fits_def)
  with read_with_ok [OF ok(1), of b n "nc \<or> io_nocache ch"] obtain d ch' where
    "io_read_block_with (nc \<or> io_nocache ch) ch b (int n) = Some (None, d, ch')" "read_post ch b n [] (None, d, ch')"
    using ok(2) by (auto simp: read_post_def)
  then show ?thesis using Read ok(2) by (cases nc) (auto simp: read_post_def io_read_block_def io_read_block_nocache_def keeps_chan_def live_def)
next
  case (Write nc b data)
  let ?n = "length data div io_blksize ch"
  have n: "?n * io_blksize ch = length data" using op Write by auto
  then have f: "fits ch b ?n" "(b + ?n) * io_blksize ch \<le> length (io_dev ch)" using op small Write by (auto simp: fits_def add_mult_distrib)
  with write_with_ok [OF ok(1) f(1), of data "nc \<or> io_nocache ch"] n obtain ch' where
    w: "io_write_block_with (nc \<or> io_nocache ch) ch b (int ?n) data = Some (None, ch')" "write_post ch b ?n data (None, ch')"
    using ok(2) by (auto simp: write_post_def)
  have "io_dev ch' = patch (io_dev ch) (b * io_blksize ch) data" "chan_ok {} ch'" "keeps_chan ch ch'"
    using w(2) op Write by (auto simp: write_post_def n torn_def)
  moreover have "length (patch (io_dev ch) (b * io_blksize ch) data) = length (io_dev ch)" using op Write by simp
  ultimately show ?thesis using Write w(1) ok(2)
    by (cases nc) (auto simp: Let_def io_write_block_def io_write_block_nocache_def keeps_chan_def live_def)
next
  case (Init_Cache n)
  then show ?thesis using init_cache_ok [of n ch junk] ok op by (simp add: chan_ok_def live_def) (simp add: io_init_cache_def)
qed (use ok in \<open>simp_all add: chan_ok_def live_def io_set_nocache_def io_destroy_cache_def\<close>)

text \<open>
  C32: on a device that neither fails nor stalls a sequence of requests for whole blocks inside of the device, through
  caches that are set up and destroyed in between and with and without the hint not to cache, gives each read the data
  that the same requests give on a list of bytes, reports no error, and leaves that list on the device.
\<close>

theorem cache_is_transparent:
  assumes "chan_ok {} ch" and "live ch" and "length (io_dev ch) < 2 ^ 63"
    and "\<forall>op\<in>set ops. op_ok (io_blksize ch) (length (io_dev ch)) op"
  shows "\<exists>ch'. do_ops junk ops ch = Some (map (Pair None) (fst (dev_ops (io_blksize ch) ops (io_dev ch))), ch') \<and>
    io_dev ch' = snd (dev_ops (io_blksize ch) ops (io_dev ch)) \<and> chan_ok {} ch'"
  using assms
proof (induction ops arbitrary: ch)
  case (Cons op ops)
  obtain ch1 where s: "do_op junk op ch = Some ((None, fst (dev_op (io_blksize ch) op (io_dev ch))), ch1)" "chan_ok {} ch1" "live ch1"
    "io_blksize ch1 = io_blksize ch" "io_dev ch1 = snd (dev_op (io_blksize ch) op (io_dev ch))" "length (io_dev ch1) = length (io_dev ch)"
    using do_op_ok [of ch op junk] Cons.prems by auto
  obtain ch2 where "do_ops junk ops ch1 = Some (map (Pair None) (fst (dev_ops (io_blksize ch1) ops (io_dev ch1))), ch2)"
    "io_dev ch2 = snd (dev_ops (io_blksize ch1) ops (io_dev ch1))" "chan_ok {} ch2"
    using Cons.IH [OF s(2,3)] s(4,6) Cons.prems(3,4) by auto
  then show ?case using s(1,4,5) by (simp add: split_beta)
qed simp

section \<open>Where the cache and the device part\<close>

text \<open>A negative count is one of bytes, but through the cache it reads nothing and reports success.\<close>

lemma negative_count_reads_nothing:
  "io_cache ch \<noteq> None \<Longrightarrow> count < 0 \<Longrightarrow> io_read_block ch b count = Some (None, [], ch)"
  by (simp add: io_read_block_def io_read_block_with_def io_cache_read_block_def read_hunks.simps)

text \<open>A device of two blocks of two bytes.\<close>

definition demo_chan :: "(nat \<Rightarrow> int) \<Rightarrow> io_channel" where
  "demo_chan sched = \<lparr>io_blksize = 2, io_error = 0, io_nocache = False, io_cache = None, io_dev = [1, 2, 3, 4], io_calls = 0, io_sched = sched\<rparr>"

text \<open>A write of a part of a block, and a device that stops within a block, leave the old contents in the cache.\<close>

lemmas eval_io = Let_def io_init_cache_def io_read_block_def io_write_block_def io_read_block_with_def io_write_block_with_def
  io_cache_read_block_def one_meg_of_blocks_def ONE_MEGABYTE_def read_hunks.simps read_loop.simps write_loop.simps transfer_def
  io_cache_read_blocks_def unix_io_read_block_def unix_io_write_block_full_def io_cache_write_block_def io_cache_write_blocks_def
  request_size_def request_location_def INT_MAX_def UINT64_MAX_def io_cache_lookup_def io_cache_steal_def io_cache_pop_lru_def
  io_cache_disconnect_def io_cache_insert_def io_cache_seen_def set_icb_def nat_cmp_def rb_insert_at_def rb_link_node_def patch_def

definition read_write_read :: "io_channel \<Rightarrow> int \<Rightarrow> byte list \<Rightarrow> (byte list \<times> errcode option \<times> byte list \<times> byte list) option" where
  "read_write_read ch count data =
     do { (e1, d1, ch) \<leftarrow> io_read_block (io_init_cache [0, 0] ch 1) 0 1;
          (e2, ch) \<leftarrow> io_write_block ch 0 count data;
          (e3, d3, ch) \<leftarrow> io_read_block ch 0 1;
          Some (d1, e2, d3, io_dev ch) }"

lemma part_of_block_is_stale: "read_write_read (demo_chan (\<lambda>_. 2)) (- 1) [9] = Some ([1, 2], None, [1, 2], [9, 2, 3, 4])"
  by (simp add: read_write_read_def demo_chan_def eval_io)

lemma torn_block_is_stale:
  "read_write_read (demo_chan (\<lambda>k. if k = 0 then 2 else if k = 1 then 1 else -5)) 1 [9, 9] = Some ([1, 2], Some OCFS2_ET_IO, [1, 2], [9, 2, 3, 4])"
  by (simp add: read_write_read_def demo_chan_def eval_io)

text \<open>A cache without blocks has no block to steal.\<close>

lemma empty_cache_has_no_block: "io_read_block (io_init_cache [] (demo_chan (\<lambda>_. 2)) 0) 0 1 = None"
  by (simp add: read_write_read_def demo_chan_def eval_io)

section \<open>Witnesses\<close>

lemma demo_ok: "chan_ok {} (io_init_cache [0, 0] (demo_chan (\<lambda>_. 1)) 1)" "live (io_init_cache [0, 0] (demo_chan (\<lambda>_. 1)) 1)"
  by (simp_all add: init_cache_ok demo_chan_def) (simp add: live_def io_init_cache_def)

lemma demo_fields: "io_blksize (io_init_cache [0, 0] (demo_chan (\<lambda>_. 1)) 1) = 2" "io_dev (io_init_cache [0, 0] (demo_chan (\<lambda>_. 1)) 1) = [1, 2, 3, 4]"
  by (simp_all add: io_init_cache_def demo_chan_def)

lemma demo_fits: "fits (io_init_cache [0, 0] (demo_chan (\<lambda>_. 1)) 1) 0 2"
  unfolding fits_def demo_fields by (simp add: INT_MAX_def)

theorem read_through_cache_witness:
  "\<exists>ch'. io_read_block (io_init_cache [0, 0] (demo_chan (\<lambda>_. 1)) 1) 0 (int 2) = Some (None, [1, 2, 3, 4], ch') \<and> chan_ok {} ch'"
  using read_through_cache [OF demo_ok(1) demo_fits] demo_ok(2) unfolding demo_fields by (auto simp: keeps_chan_def)

theorem write_through_cache_witness:
  "\<exists>ch'. io_write_block (io_init_cache [0, 0] (demo_chan (\<lambda>_. 1)) 1) 0 (int 2) [5, 6, 7, 8] = Some (None, ch') \<and> io_dev ch' = [5, 6, 7, 8] \<and> chan_ok {} ch'"
proof -
  have "2 * io_blksize (io_init_cache [0, 0] (demo_chan (\<lambda>_. 1)) 1) \<le> length [5, 6, 7, 8 :: byte]" unfolding demo_fields by simp
  from write_through_cache [OF demo_ok(1) demo_fits this] demo_ok(2) show ?thesis unfolding demo_fields by (auto simp: patch_def)
qed

theorem cache_is_transparent_witness:
  "\<exists>ch'. do_ops [0, 0] [Init_Cache 1, Read False 0 2, Write False 1 [7, 8], Read False 1 1, Destroy_Cache, Read True 0 2] (demo_chan (\<lambda>_. 1)) =
     Some (map (Pair None) [[], [1, 2, 3, 4], [], [7, 8], [], [1, 2, 7, 8]], ch') \<and> io_dev ch' = [1, 2, 7, 8]"
proof -
  have d: "chan_ok {} (demo_chan (\<lambda>_. 1))" "live (demo_chan (\<lambda>_. 1))" "io_blksize (demo_chan (\<lambda>_. 1)) = 2" "io_dev (demo_chan (\<lambda>_. 1)) = [1, 2, 3, 4]"
    by (simp_all add: chan_ok_def live_def demo_chan_def)
  show ?thesis
    using cache_is_transparent [OF d(1,2), of "[Init_Cache 1, Read False 0 2, Write False 1 [7, 8], Read False 1 1, Destroy_Cache, Read True 0 2]" "[0, 0]"]
    unfolding d(3,4) by (auto simp: INT_MAX_def patch_def)
qed


end
