(* ===== verification/Chain.thy ===== *)
theory Chain
  imports Dir_Segments
begin

text \<open>
  Group descriptors and the chains they form: \<open>libocfs2/chain.c\<close>.  A descriptor is a record with the fields of
  \<open>struct ocfs2_group_desc\<close>; its block is the concatenation of the fields, little-endian as on the disk.  Walking a
  chain follows \<open>bg_next_group\<close> and need not end on a damaged disk, so it is a partial function.  The flag
  that the filesystem was changed is not kept.
\<close>

section \<open>The model\<close>

record group_desc =
  bg_signature :: "byte list"
  bg_size :: u16
  bg_bits :: u16
  bg_free_bits_count :: u16
  bg_chain :: u16
  bg_generation :: u32
  bg_reserved1 :: u32
  bg_next_group :: nat
  bg_parent_dinode :: nat
  bg_blkno :: nat
  bg_check :: "byte list"
  bg_reserved2 :: "byte list"
  bg_bitmap :: "byte list"

definition gd_of_block :: "byte list \<Rightarrow> group_desc" where
  "gd_of_block b =
     \<lparr>bg_signature = slice b 0 8, bg_size = of_nat (le_val (slice b 8 2)), bg_bits = of_nat (le_val (slice b 10 2)),
      bg_free_bits_count = of_nat (le_val (slice b 12 2)), bg_chain = of_nat (le_val (slice b 14 2)),
      bg_generation = of_nat (le_val (slice b 16 4)), bg_reserved1 = of_nat (le_val (slice b 20 4)),
      bg_next_group = le_val (slice b 24 8), bg_parent_dinode = le_val (slice b 32 8), bg_blkno = le_val (slice b 40 8),
      bg_check = slice b 48 8, bg_reserved2 = slice b 56 8, bg_bitmap = drop 64 b\<rparr>"

definition block_of_gd :: "group_desc \<Rightarrow> byte list" where
  "block_of_gd gd =
     bg_signature gd @ le_bytes 2 (unat (bg_size gd)) @ le_bytes 2 (unat (bg_bits gd)) @
     le_bytes 2 (unat (bg_free_bits_count gd)) @ le_bytes 2 (unat (bg_chain gd)) @
     le_bytes 4 (unat (bg_generation gd)) @ le_bytes 4 (unat (bg_reserved1 gd)) @
     le_bytes 8 (bg_next_group gd) @ le_bytes 8 (bg_parent_dinode gd) @ le_bytes 8 (bg_blkno gd) @
     bg_check gd @ bg_reserved2 gd @ bg_bitmap gd"

definition OCFS2_SUPER_BLOCK_BLKNO :: nat where "OCFS2_SUPER_BLOCK_BLKNO = 2"

definition OCFS2_GROUP_DESC_SIGNATURE :: "byte list" where
  "OCFS2_GROUP_DESC_SIGNATURE = [0x47, 0x52, 0x4F, 0x55, 0x50, 0x30, 0x31]"  \<comment> \<open>GROUP01\<close>

definition ocfs2_group_bitmap_size :: "nat \<Rightarrow> nat" where
  "ocfs2_group_bitmap_size blocksize = blocksize - 64"

definition ocfs2_read_group_desc :: "'m filesys \<Rightarrow> nat \<Rightarrow> group_desc result option" where
  "ocfs2_read_group_desc fs blkno =
     (if blkno < OCFS2_SUPER_BLOCK_BLKNO \<or> blkno > fs_blocks fs then Some (Inl OCFS2_ET_BAD_BLKNO)
      else case rfail fs blkno of
        Some e \<Rightarrow> Some (Inl e)
      | None \<Rightarrow>
          do { (err, blk) \<leftarrow> ocfs2_validate_meta_ecc (s_feature_incompat fs) 0 (disk fs blkno) 48;
               case err of Inl e \<Rightarrow> Some (Inl e)
               | Inr _ \<Rightarrow>
                   do { sig \<leftarrow> read_bytes blk 0 (length OCFS2_GROUP_DESC_SIGNATURE);
                        if sig \<noteq> OCFS2_GROUP_DESC_SIGNATURE then Some (Inl OCFS2_ET_BAD_GROUP_DESC_MAGIC)
                        else Some (Inr (gd_of_block blk)) } })"

definition ocfs2_write_group_desc :: "'m filesys \<Rightarrow> nat \<Rightarrow> group_desc \<Rightarrow> (errcode option \<times> 'm filesys) option" where
  "ocfs2_write_group_desc fs blkno gd =
     (if \<not> fs_rw fs then Some (Some OCFS2_ET_RO_FILESYS, fs)
      else if blkno < OCFS2_SUPER_BLOCK_BLKNO \<or> blkno > fs_blocks fs then Some (Some OCFS2_ET_BAD_BLKNO, fs)
      else do { blk \<leftarrow> ocfs2_compute_meta_ecc (s_feature_incompat fs) 0 (block_of_gd gd) 48;
                Some (case wfail fs blkno of Some e \<Rightarrow> (Some e, fs)
                      | None \<Rightarrow> (None, fs\<lparr>disk := (disk fs)(blkno := blk)\<rparr>)) })"

subsection \<open>Iterating over chains\<close>

definition OCFS2_CHAIN_CHANGED :: u32 where "OCFS2_CHAIN_CHANGED = 1"
definition OCFS2_CHAIN_ABORT :: u32 where "OCFS2_CHAIN_ABORT = 2"
definition OCFS2_CHAIN_ERROR :: u32 where "OCFS2_CHAIN_ERROR = 4"

record chain_rec =
  c_free :: u32
  c_total :: u32
  c_blkno :: nat

text \<open>The fields of an inode that is a chain allocator.\<close>

record chain_dinode =
  cd_blkno :: nat
  cd_valid :: bool  \<comment> \<open>\<open>OCFS2_VALID_FL\<close>\<close>
  cd_chain :: bool  \<comment> \<open>\<open>OCFS2_CHAIN_FL\<close>\<close>
  cd_clusters :: u32
  cd_size :: nat
  i_used :: u32
  i_total :: u32
  cl_cpg :: u16
  cl_bpc :: u16
  cl_count :: u16
  cl_next_free_rec :: u16
  cl_recs :: "chain_rec list"

text \<open>A callback is given the filesystem, a block, the number of the chain and its own data.\<close>

type_synonym ('m, 's) chain_func = "'m filesys \<Rightarrow> nat \<Rightarrow> nat \<Rightarrow> 's \<Rightarrow> (u32 \<times> 's) option"

partial_function (option) chain_iterate_gd ::
    "('m, 's) chain_func \<Rightarrow> 'm filesys \<Rightarrow> nat \<Rightarrow> nat \<Rightarrow> u32 \<Rightarrow> errcode option \<Rightarrow> 's \<Rightarrow> (u32 \<times> errcode option \<times> 's) option" where
  "chain_iterate_gd func fs chain_num blkno iret errcode s =
     (if blkno = 0 then Some (iret, errcode, s)
      else do { (iret, s) \<leftarrow> func fs blkno chain_num s;
                if iret AND OCFS2_CHAIN_ABORT \<noteq> 0 then Some (iret, errcode, s)
                else do { r \<leftarrow> ocfs2_read_group_desc fs blkno;
                          case r of
                            Inl e \<Rightarrow> Some (iret OR OCFS2_CHAIN_ERROR, Some e, s)
                          | Inr gd \<Rightarrow>
                              if bg_blkno gd \<noteq> blkno \<or> unat (bg_chain gd) \<noteq> chain_num
                              then Some (iret OR OCFS2_CHAIN_ERROR, Some OCFS2_ET_CORRUPT_GROUP_DESC, s)
                              else chain_iterate_gd func fs chain_num (bg_next_group gd) iret None s } })"

text \<open>The loop over the chain records, \<open>n\<close> of which are left.\<close>

fun chain_iterate_cl ::
    "('m, 's) chain_func \<Rightarrow> 'm filesys \<Rightarrow> chain_rec list \<Rightarrow> nat \<Rightarrow> nat \<Rightarrow> u32 \<Rightarrow> errcode option \<Rightarrow> 's \<Rightarrow>
     (u32 \<times> errcode option \<times> 's) option" where
  "chain_iterate_cl func fs recs i 0 iret errcode s = Some (iret, errcode, s)"
| "chain_iterate_cl func fs recs i (Suc n) iret errcode s =
     (if i < length recs then
        do { (ir, errcode, s) \<leftarrow> chain_iterate_gd func fs i (c_blkno (recs ! i)) 0 errcode s;
             let iret = iret OR ir;
             if iret AND (OCFS2_CHAIN_ABORT OR OCFS2_CHAIN_ERROR) \<noteq> 0 then Some (iret, errcode, s)
             else chain_iterate_cl func fs recs (Suc i) n iret errcode s }
      else None)"

text \<open>\<open>ocfs2_chain_iterate\<close>; \<open>rd_inode\<close> is \<open>ocfs2_read_inode\<close>.\<close>

definition ocfs2_chain_iterate ::
    "('m filesys \<Rightarrow> nat \<Rightarrow> chain_dinode result) \<Rightarrow> ('m, 's) chain_func \<Rightarrow> 'm filesys \<Rightarrow> nat \<Rightarrow> 's \<Rightarrow> (errcode option \<times> 's) option" where
  "ocfs2_chain_iterate rd_inode func fs blkno s =
     (case rd_inode fs blkno of
        Inl e \<Rightarrow> Some (Some e, s)
      | Inr di \<Rightarrow>
          if \<not> cd_valid di then Some (Some OCFS2_ET_INODE_NOT_VALID, s)
          else if \<not> cd_chain di then Some (Some OCFS2_ET_INODE_CANNOT_BE_ITERATED, s)
          else do { (iret, errcode, s) \<leftarrow> chain_iterate_cl func fs (cl_recs di) 0 (unat (cl_next_free_rec di)) 0 None s;
                    Some (if iret AND OCFS2_CHAIN_ERROR \<noteq> 0 then errcode else None, s) })"

section \<open>A descriptor on the disk\<close>

definition gd_fits :: "nat \<Rightarrow> group_desc \<Rightarrow> bool" where
  "gd_fits bs gd \<longleftrightarrow> length (bg_signature gd) = 8 \<and> length (bg_check gd) = 8 \<and> length (bg_reserved2 gd) = 8 \<and>
     64 + length (bg_bitmap gd) = bs \<and> bg_next_group gd < 2 ^ 64 \<and> bg_parent_dinode gd < 2 ^ 64 \<and> bg_blkno gd < 2 ^ 64"

lemma length_block_of_gd: "gd_fits bs gd \<Longrightarrow> length (block_of_gd gd) = bs"
  by (simp add: gd_fits_def block_of_gd_def)

lemma slice_field: "length pre = k \<Longrightarrow> length x = n \<Longrightarrow> slice (pre @ x @ post) k n = x"
  by (simp add: slice_def)

lemma u16_field: "of_nat (le_val (le_bytes 2 (unat (w :: u16)))) = w"
proof -
  have "unat w < 256 ^ 2" using unsigned_less [of w, where ?'a = nat] by simp
  then show ?thesis by (simp add: le_val_le_bytes)
qed

lemma u32_field: "of_nat (le_val (le_bytes 4 (unat (w :: u32)))) = w"
proof -
  have "unat w < 256 ^ 4" using unsigned_less [of w, where ?'a = nat] by simp
  then show ?thesis by (simp add: le_val_le_bytes)
qed

lemma u64_field: "v < 2 ^ 64 \<Longrightarrow> le_val (le_bytes 8 v) = v"
  by (rule le_val_le_bytes) simp

lemma gd_of_block_of_gd:
  assumes "gd_fits bs gd"
  shows "gd_of_block (block_of_gd gd) = gd"
  using assms by (cases gd) (simp add: gd_of_block_def block_of_gd_def gd_fits_def slice_def u16_field u32_field u64_field)

text \<open>Storing the check record changes \<open>bg_check\<close> only, and what is stored validates.\<close>

definition checked :: "'m filesys \<Rightarrow> byte list \<Rightarrow> bool" where
  "checked fs b \<longleftrightarrow> ocfs2_validate_meta_ecc (s_feature_incompat fs) 0 b 48 = Some (Inr (), b)"

lemma slice_outside_check:
  assumes "length b' = length b" and "\<And>i. i < length b \<Longrightarrow> i < 48 \<or> 56 \<le> i \<Longrightarrow> b' ! i = b ! i"
    and "k + n \<le> 48 \<or> 56 \<le> k" and "k + n \<le> length b"
  shows "slice b' k n = slice b k n"
  using assms(1,3,4) by (intro nth_equalityI) (auto simp: slice_def intro!: assms(2))

lemma gd_outside_check:
  assumes "length b' = length b" and "\<And>i. i < length b \<Longrightarrow> i < 48 \<or> 56 \<le> i \<Longrightarrow> b' ! i = b ! i" and "64 \<le> length b"
  shows "gd_of_block b' = (gd_of_block b)\<lparr>bg_check := slice b' 48 8\<rparr>"
proof -
  have "slice b' k n = slice b k n" if "k + n \<le> 48 \<or> 56 \<le> k" "k + n \<le> 64" for k n
    using slice_outside_check [OF assms(1,2)] that assms(3) by simp
  moreover have "drop 64 b' = drop 64 b" using assms(1) by (intro nth_equalityI) (auto intro: assms(2))
  ultimately show ?thesis by (simp add: gd_of_block_def)
qed

lemma compute_validates:
  assumes "off + 8 \<le> length b" and "length b \<le> 4096"
  shows "\<exists>b'. ocfs2_compute_meta_ecc feat 0 b off = Some b' \<and> length b' = length b \<and> ocfs2_validate_meta_ecc feat 0 b' off = Some (Inr (), b') \<and>
    (\<forall>i<length b. i < off \<or> off + 8 \<le> i \<longrightarrow> b' ! i = b ! i)"
proof (cases "ocfs2_meta_ecc feat")
  case True
  let ?z = "zeroed b off"
  let ?b = "with_check ?z off (block_crc ?z) (ucast (block_ecc ?z))"
  have "ocfs2_block_check_validate 0 ?b off = Some (Inr (), with_check (zeroed ?b off) off (block_crc ?z) (ucast (block_ecc ?z)))"
    using assms(1) by (intro validate_good get_with_check) simp_all
  then have "ocfs2_validate_meta_ecc feat 0 ?b off = Some (Inr (), ?b)" using assms(1) True by (simp add: ocfs2_validate_meta_ecc_def)
  moreover have "\<forall>i<length b. i < off \<or> off + 8 \<le> i \<longrightarrow> ?b ! i = b ! i" using assms(1) by (auto simp: nth_with_check nth_zeroed)
  moreover have "ocfs2_compute_meta_ecc feat 0 b off = Some ?b" using compute_eq [OF assms] True by (simp add: ocfs2_compute_meta_ecc_def)
  moreover have "length ?b = length b" using assms(1) by simp
  ultimately show ?thesis by blast
next
  case False
  then show ?thesis by (simp add: ocfs2_compute_meta_ecc_def ocfs2_validate_meta_ecc_def)
qed

lemma compute_checked:
  assumes "64 \<le> length b" and "length b \<le> 4096"
  shows "\<exists>b'. ocfs2_compute_meta_ecc (s_feature_incompat fs) 0 b 48 = Some b' \<and> length b' = length b \<and> checked fs b' \<and>
    gd_of_block b' = (gd_of_block b)\<lparr>bg_check := slice b' 48 8\<rparr>"
proof -
  obtain b' where b': "ocfs2_compute_meta_ecc (s_feature_incompat fs) 0 b 48 = Some b'" "length b' = length b" "checked fs b'"
    "\<forall>i<length b. i < 48 \<or> 48 + 8 \<le> i \<longrightarrow> b' ! i = b ! i"
    using compute_validates [of 48 b "s_feature_incompat fs"] assms unfolding checked_def by auto
  have "gd_of_block b' = (gd_of_block b)\<lparr>bg_check := slice b' 48 8\<rparr>" using b'(4) by (intro gd_outside_check [OF b'(2) _ assms(1)]) auto
  then show ?thesis using b'(1-3) by blast
qed

definition in_fs :: "'m filesys \<Rightarrow> nat \<Rightarrow> bool" where
  "in_fs fs blkno \<longleftrightarrow> OCFS2_SUPER_BLOCK_BLKNO \<le> blkno \<and> blkno \<le> fs_blocks fs"

lemma read_checked:
  assumes "in_fs fs blkno" and "rfail fs blkno = None" and "checked fs (disk fs blkno)" and "64 \<le> length (disk fs blkno)"
    and "take 7 (bg_signature (gd_of_block (disk fs blkno))) = OCFS2_GROUP_DESC_SIGNATURE"
  shows "ocfs2_read_group_desc fs blkno = Some (Inr (gd_of_block (disk fs blkno)))"
proof -
  have "take 7 (slice (disk fs blkno) 0 8) = slice (disk fs blkno) 0 7" by (simp add: slice_def min_def)
  moreover have "length OCFS2_GROUP_DESC_SIGNATURE = 7" by (simp add: OCFS2_GROUP_DESC_SIGNATURE_def)
  ultimately have "read_bytes (disk fs blkno) 0 (length OCFS2_GROUP_DESC_SIGNATURE) = Some OCFS2_GROUP_DESC_SIGNATURE"
    using assms(4,5) by (simp add: read_slice gd_of_block_def)
  then show ?thesis using assms by (simp add: ocfs2_read_group_desc_def in_fs_def checked_def)
qed

lemma write_checked:
  assumes "in_fs fs blkno" and "fs_rw fs" and "wfail fs blkno = None" and "gd_fits (fs_blocksize fs) gd" and "fs_blocksize fs \<le> 4096"
  shows "\<exists>b gd'. ocfs2_write_group_desc fs blkno gd = Some (None, fs\<lparr>disk := (disk fs)(blkno := b)\<rparr>) \<and> checked fs b \<and>
    length b = fs_blocksize fs \<and> gd_of_block b = gd' \<and> gd' = gd\<lparr>bg_check := bg_check gd'\<rparr>"
proof -
  have len: "length (block_of_gd gd) = fs_blocksize fs" "64 \<le> fs_blocksize fs" using assms(4) by (auto simp: length_block_of_gd gd_fits_def)
  obtain b where b: "ocfs2_compute_meta_ecc (s_feature_incompat fs) 0 (block_of_gd gd) 48 = Some b" "length b = fs_blocksize fs" "checked fs b"
    "gd_of_block b = gd\<lparr>bg_check := slice b 48 8\<rparr>"
    using compute_checked [of "block_of_gd gd" fs] len assms(5) gd_of_block_of_gd [OF assms(4)] by auto
  then show ?thesis using assms(1-3) by (intro exI [of _ b]) (simp add: ocfs2_write_group_desc_def in_fs_def)
qed

text \<open>
  C35: a group descriptor that was written is read back, with a new check record and otherwise as it was, and no other
  block of the disk is changed.
\<close>

theorem group_desc_round_trip:
  assumes "in_fs fs blkno" and "fs_rw fs" and "wfail fs blkno = None" and "rfail fs blkno = None"
    and "gd_fits (fs_blocksize fs) gd" and "fs_blocksize fs \<le> 4096" and "take 7 (bg_signature gd) = OCFS2_GROUP_DESC_SIGNATURE"
  shows "\<exists>fs' gd'. ocfs2_write_group_desc fs blkno gd = Some (None, fs') \<and> ocfs2_read_group_desc fs' blkno = Some (Inr gd') \<and>
    gd' = gd\<lparr>bg_check := bg_check gd'\<rparr> \<and> (\<forall>b. b \<noteq> blkno \<longrightarrow> disk fs' b = disk fs b)"
proof -
  obtain b gd' where w: "ocfs2_write_group_desc fs blkno gd = Some (None, fs\<lparr>disk := (disk fs)(blkno := b)\<rparr>)" "checked fs b"
    "length b = fs_blocksize fs" "gd_of_block b = gd'" "gd' = gd\<lparr>bg_check := bg_check gd'\<rparr>"
    using write_checked [OF assms(1-3,5,6)] by blast
  let ?fs = "fs\<lparr>disk := (disk fs)(blkno := b)\<rparr>"
  have sig: "take 7 (bg_signature gd') = OCFS2_GROUP_DESC_SIGNATURE" using assms(7) arg_cong [OF w(5), of bg_signature] by simp
  have "64 \<le> fs_blocksize fs" using assms(5) by (auto simp: gd_fits_def)
  then have "ocfs2_read_group_desc ?fs blkno = Some (Inr gd')"
    using read_checked [of ?fs blkno] assms(1,4) w(2-4) sig by (simp add: in_fs_def checked_def)
  then show ?thesis using w(1,5) by (intro exI [of _ ?fs] exI [of _ gd']) simp
qed


definition small_fs :: "unit filesys" where
  "small_fs = \<lparr>fs_blocksize = 66, fs_blocks = 10, fs_rw = True, s_feature_incompat = 0, s_blocksize_bits = 6, s_clustersize_bits = 6, disk = (\<lambda>_. replicate 66 0),
     rfail = (\<lambda>_. None), wfail = (\<lambda>_. None), meta = ()\<rparr>"

definition small_gd :: group_desc where
  "small_gd = \<lparr>bg_signature = OCFS2_GROUP_DESC_SIGNATURE @ [0], bg_size = 2, bg_bits = 16, bg_free_bits_count = 15, bg_chain = 0,
     bg_generation = 7, bg_reserved1 = 0, bg_next_group = 0, bg_parent_dinode = 3, bg_blkno = 4, bg_check = replicate 8 0,
     bg_reserved2 = replicate 8 0, bg_bitmap = [1, 0]\<rparr>"

theorem group_desc_round_trip_witness:
  "\<exists>fs' gd'. ocfs2_write_group_desc small_fs 4 small_gd = Some (None, fs') \<and> ocfs2_read_group_desc fs' 4 = Some (Inr gd') \<and>
    bg_bitmap gd' = [1, 0] \<and> bg_free_bits_count gd' = 15"
proof -
  have h: "in_fs small_fs 4" "fs_rw small_fs" "wfail small_fs 4 = None" "rfail small_fs 4 = None" "gd_fits (fs_blocksize small_fs) small_gd"
    "fs_blocksize small_fs \<le> 4096" "take 7 (bg_signature small_gd) = OCFS2_GROUP_DESC_SIGNATURE"
    by (simp_all add: in_fs_def small_fs_def small_gd_def gd_fits_def OCFS2_SUPER_BLOCK_BLKNO_def OCFS2_GROUP_DESC_SIGNATURE_def)
  obtain fs' gd' where r: "ocfs2_write_group_desc small_fs 4 small_gd = Some (None, fs')" "ocfs2_read_group_desc fs' 4 = Some (Inr gd')"
    "gd' = small_gd\<lparr>bg_check := bg_check gd'\<rparr>" using group_desc_round_trip [OF h] by (elim exE conjE)
  have "bg_bitmap gd' = [1, 0]" "bg_free_bits_count gd' = 15"
    using arg_cong [OF r(3), of bg_bitmap] arg_cong [OF r(3), of bg_free_bits_count] by (simp_all add: small_gd_def)
  then show ?thesis using r(1,2) by blast
qed


end
