(* ===== verification/Chainalloc.thy ===== *)
theory Chainalloc
  imports Bitmap_Interface Chain
begin

text \<open>
  The chain allocators: \<open>libocfs2/chainalloc.c\<close>.  The bitmap of a chain allocator has one region for each group
  descriptor of its chains; its private data (\<open>b_private\<close>) has the inode and the descriptors, and the callback for
  a changed bit keeps the free counts of the descriptor, of its chain and of the inode.

  In the code a region points to its descriptor (\<open>br_private\<close>), the inode and the bitmap point to each other.  In the
  model the descriptors are in the private data under the first bit of their region, and the inode is there, too.  An
  access of the callback through a null pointer or outside of the chain records is recorded in \<open>cb_wild\<close>,
  and the operations give \<open>None\<close> for it.  The inodes are records in a store of their own, part of \<open>meta\<close> of the
  filesystem; reading them cannot fail in other ways than the store says.
\<close>

section \<open>The model\<close>

record chain_meta =
  fs_clustersize :: nat
  fs_clusters :: nat
  s_first_cluster_group :: nat
  i_fs_generation :: u32
  inodes :: "nat \<Rightarrow> chain_dinode result"
  iwfail :: "nat \<Rightarrow> errcode option"

type_synonym chain_fs = "chain_meta filesys"

definition write_inode :: "chain_fs \<Rightarrow> chain_dinode \<Rightarrow> errcode option \<times> chain_fs" where
  "write_inode fs di =
     (case iwfail (meta fs) (cd_blkno di) of
        Some e \<Rightarrow> (Some e, fs)
      | None \<Rightarrow> (None, fs\<lparr>meta := (meta fs)\<lparr>inodes := (inodes (meta fs))(cd_blkno di := Inr di)\<rparr>\<rparr>))"

record chainalloc_region_private =
  cr_ag :: group_desc
  cr_dirty :: bool

record chainalloc_bitmap_private =
  cb_cinode :: "chain_dinode option"
  cb_errcode :: "errcode option"
  cb_dirty :: bool
  cb_groups :: "nat \<rightharpoonup> chainalloc_region_private"
  cb_wild :: bool

type_synonym chain_bitmap = "chainalloc_bitmap_private ocfs2_bitmap"

abbreviation set_private :: "chain_bitmap \<Rightarrow> (chainalloc_bitmap_private \<Rightarrow> chainalloc_bitmap_private) \<Rightarrow> chain_bitmap" where
  "set_private bm f \<equiv> bm\<lparr>b_private := f (b_private bm)\<rparr>"

text \<open>A product or quotient of this function is of 64 bits; a division by zero is \<open>None\<close>.\<close>

definition chainalloc_scale_start_bit :: "chain_fs \<Rightarrow> nat \<Rightarrow> nat \<Rightarrow> nat option" where
  "chainalloc_scale_start_bit fs blkno bpc =
     (let bitsize = fs_clustersize (meta fs) div bpc in
      if bpc = 0 then None
      else if bitsize = fs_blocksize fs then Some blkno
      else if bitsize = 0 \<or> fs_blocksize fs = 0 then None
      else if bitsize < fs_blocksize fs then Some (blkno * (fs_blocksize fs div bitsize) mod 2 ^ 64)
      else Some (blkno div (bitsize div fs_blocksize fs)))"

definition chainalloc_bit_change_notify :: "chainalloc_bitmap_private \<Rightarrow> region \<Rightarrow> nat \<Rightarrow> bool \<Rightarrow> chainalloc_bitmap_private" where
  "chainalloc_bit_change_notify cb br bitno new_val =
     (case (cb_cinode cb, cb_groups cb (br_start_bit br)) of
        (Some di, Some cr) \<Rightarrow>
          (let ag = cr_ag cr; k = unat (bg_chain ag); d = (if new_val then -1 else 1) in
           if k < length (cl_recs di) then
             cb\<lparr>cb_cinode := Some (di\<lparr>cl_recs := (cl_recs di)[k := (cl_recs di ! k)\<lparr>c_free := c_free (cl_recs di ! k) + of_int d\<rparr>],
                                    i_used := i_used di - of_int d\<rparr>),
                cb_groups := (cb_groups cb)(br_start_bit br \<mapsto>
                  \<lparr>cr_ag = ag\<lparr>bg_free_bits_count := bg_free_bits_count ag + of_int d\<rparr>, cr_dirty = True\<rparr>),
                cb_dirty := True\<rparr>
           else cb\<lparr>cb_wild := True\<rparr>)
      | _ \<Rightarrow> cb\<lparr>cb_wild := True\<rparr>)"

definition chainalloc_merge_region :: "chain_bitmap \<Rightarrow> region \<Rightarrow> region \<Rightarrow> bool" where
  "chainalloc_merge_region bm prv nxt = False"

definition chainalloc_hooks :: "chainalloc_bitmap_private bitmap_hooks" where
  "chainalloc_hooks = \<lparr>merge_region = Some chainalloc_merge_region, bit_change_notify = Some chainalloc_bit_change_notify\<rparr>"

text \<open>\<open>chainalloc_process_group\<close>: the region of one descriptor.  The descriptor's own size is checked, its number of bits is not.\<close>

definition chainalloc_process_group :: "(chain_meta, chain_bitmap) chain_func" where
  "chainalloc_process_group fs gd_blkno chain_num bm =
     (let abort = (\<lambda>e. Some (OCFS2_CHAIN_ABORT, set_private bm (\<lambda>cb. cb\<lparr>cb_errcode := Some e\<rparr>))) in
      do { r \<leftarrow> ocfs2_read_group_desc fs gd_blkno;
           case r of
             Inl e \<Rightarrow> abort e
           | Inr gd \<Rightarrow>
               if unat (bg_size gd) \<noteq> ocfs2_group_bitmap_size (fs_blocksize fs) then abort OCFS2_ET_CORRUPT_GROUP_DESC
               else do {
                 di \<leftarrow> cb_cinode (b_private bm);
                 start \<leftarrow> chainalloc_scale_start_bit fs (if gd_blkno = s_first_cluster_group (meta fs) then 0 else gd_blkno) (unat (cl_bpc di));
                 a \<leftarrow> ocfs2_bitmap_alloc_region start (int (unat (bg_bits gd)));
                 case a of
                   Inl e \<Rightarrow> abort e
                 | Inr br \<Rightarrow>
                     do { bytes \<leftarrow> read_bytes (bg_bitmap gd) 0 (br_bytes br);
                          i \<leftarrow> ocfs2_bitmap_insert_region chainalloc_hooks bm
                                 (br\<lparr>br_bitmap := bytes, br_set_bits := int (unat (bg_bits gd)) - int (unat (bg_free_bits_count gd))\<rparr>);
                          case i of
                            Inl e \<Rightarrow> abort e
                          | Inr bm \<Rightarrow> Some (0, set_private bm (\<lambda>cb. cb\<lparr>cb_errcode := None,
                                        cb_groups := (cb_groups cb)(start \<mapsto> \<lparr>cr_ag = gd, cr_dirty = False\<rparr>)\<rparr>)) } } })"

text \<open>The errors of the groups are in \<open>cb_errcode\<close>; the iteration reports its own errors only.\<close>

definition chainalloc_read_bitmap :: "chain_fs \<Rightarrow> chain_bitmap \<Rightarrow> chain_bitmap result option" where
  "chainalloc_read_bitmap fs bm =
     (case cb_cinode (b_private bm) of
        None \<Rightarrow> Some (Inl OCFS2_ET_INVALID_ARGUMENT)
      | Some di \<Rightarrow>
          do { (ret, bm) \<leftarrow> ocfs2_chain_iterate (\<lambda>fs. inodes (meta fs)) chainalloc_process_group fs (cd_blkno di) bm;
               Some (case ret of Some e \<Rightarrow> Inl e | None \<Rightarrow> Inr bm) })"

definition chainalloc_write_group :: "(chain_fs \<times> chainalloc_bitmap_private) foreach_func" where
  "chainalloc_write_group = (\<lambda>(fs, cb) br.
     do { cr \<leftarrow> cb_groups cb (br_start_bit br);
          if \<not> cr_dirty cr then Some ((fs, cb), br, None)
          else do { bytes \<leftarrow> read_bytes (br_bitmap br) 0 (br_bytes br);
                    bmap \<leftarrow> write_bytes (bg_bitmap (cr_ag cr)) 0 bytes;
                    let ag = (cr_ag cr)\<lparr>bg_bitmap := bmap\<rparr>;
                    (ret, fs) \<leftarrow> ocfs2_write_group_desc fs (bg_blkno ag) ag;
                    Some ((fs, cb\<lparr>cb_groups := (cb_groups cb)(br_start_bit br \<mapsto> \<lparr>cr_ag = ag, cr_dirty = (ret \<noteq> None)\<rparr>)\<rparr>), br, ret) } })"

definition chainalloc_write_bitmap :: "chain_fs \<Rightarrow> chain_bitmap \<Rightarrow> (errcode option \<times> chain_fs \<times> chain_bitmap) option" where
  "chainalloc_write_bitmap fs bm =
     (case cb_cinode (b_private bm) of
        None \<Rightarrow> Some (Some OCFS2_ET_INVALID_ARGUMENT, fs, bm)
      | Some di \<Rightarrow>
          if \<not> cb_dirty (b_private bm) then Some (None, fs, bm)
          else do { ((fs, cb), ret, t) \<leftarrow> ocfs2_bitmap_foreach_region (b_regions bm) chainalloc_write_group (fs, b_private bm);
                    let bm = bm\<lparr>b_regions := t, b_private := cb\<rparr>;
                    case ret of
                      Some e \<Rightarrow> Some (Some e, fs, bm)
                    | None \<Rightarrow>
                        (case write_inode fs di of
                           (Some e, fs) \<Rightarrow> Some (Some e, fs, bm)
                         | (None, fs) \<Rightarrow> Some (None, fs, set_private bm (\<lambda>cb. cb\<lparr>cb_dirty := False\<rparr>))) })"

text \<open>The table; writing goes through \<open>chainalloc_write_bitmap\<close> directly, which also returns the filesystem.\<close>

definition chainalloc_bitmap_ops :: "chain_fs \<Rightarrow> chainalloc_bitmap_private bitmap_ops" where
  "chainalloc_bitmap_ops fs =
     \<lparr>op_set_bit = Some (ocfs2_bitmap_set_generic chainalloc_hooks),
      op_clear_bit = Some (ocfs2_bitmap_clear_generic chainalloc_hooks),
      op_test_bit = Some ocfs2_bitmap_test_generic,
      op_find_next_set = Some ocfs2_bitmap_find_next_set_generic,
      op_find_next_clear = Some ocfs2_bitmap_find_next_clear_generic,
      op_alloc_range = Some (ocfs2_bitmap_alloc_range_generic chainalloc_hooks),
      op_clear_range = Some (ocfs2_bitmap_clear_range_generic chainalloc_hooks),
      op_read_bitmap = Some (chainalloc_read_bitmap fs),
      op_write_bitmap = None,
      op_destroy_notify = Some (\<lambda>bm. set_private bm (\<lambda>cb. cb\<lparr>cb_groups := Map.empty\<rparr>))\<rparr>"

definition ocfs2_chainalloc_bitmap_new :: "chain_fs \<Rightarrow> string option \<Rightarrow> nat \<Rightarrow> chain_bitmap result" where
  "ocfs2_chainalloc_bitmap_new fs description total_bits =
     ocfs2_bitmap_new total_bits (Some (case description of Some d \<Rightarrow> d | None \<Rightarrow> ''Generic chain allocator bitmap''))
       (chainalloc_bitmap_ops fs)
       \<lparr>cb_cinode = None, cb_errcode = None, cb_dirty = False, cb_groups = Map.empty, cb_wild = False\<rparr>"

definition ocfs2_chainalloc_set_cinode :: "chain_bitmap \<Rightarrow> chain_dinode \<Rightarrow> chain_bitmap" where
  "ocfs2_chainalloc_set_cinode bm di = set_private bm (\<lambda>cb. cb\<lparr>cb_cinode := Some di\<rparr>)"

subsection \<open>Cached inodes\<close>

text \<open>\<open>ci_chains\<close>: null, a bitmap (which has the inode), or a pointer to a bitmap that was freed.\<close>

datatype cached_inode = No_Chains chain_dinode | Chains chain_bitmap | Dangling chain_dinode

fun ci_inode :: "cached_inode \<Rightarrow> chain_dinode option" where
  "ci_inode (No_Chains di) = Some di"
| "ci_inode (Chains bm) = cb_cinode (b_private bm)"
| "ci_inode (Dangling di) = Some di"

text \<open>The end of an operation: a wild access of the callback is an undefined execution.\<close>

definition tamed :: "chain_bitmap \<Rightarrow> cached_inode option" where
  "tamed bm = (if cb_wild (b_private bm) then None else Some (Chains bm))"

definition ocfs2_load_chain_allocator :: "chain_fs \<Rightarrow> cached_inode \<Rightarrow> (errcode option \<times> cached_inode) option" where
  "ocfs2_load_chain_allocator fs ci =
     do { freed \<leftarrow> (case ci of No_Chains _ \<Rightarrow> Some [] | Chains bm \<Rightarrow> ocfs2_bitmap_free (chainalloc_bitmap_ops fs) bm | Dangling _ \<Rightarrow> None);
          di \<leftarrow> ci_inode ci;
          case ocfs2_chainalloc_bitmap_new fs (Some ''Chain allocator inode'') (fs_clusters (meta fs) * unat (cl_bpc di) mod 2 ^ 64) of
            Inl e \<Rightarrow> Some (Some e, case ci of No_Chains _ \<Rightarrow> ci | _ \<Rightarrow> Dangling di)
          | Inr bm \<Rightarrow>
              do { r \<leftarrow> ocfs2_bitmap_read (chainalloc_bitmap_ops fs) (ocfs2_chainalloc_set_cinode bm di);
                   Some (case r of Inl e \<Rightarrow> (Some e, Dangling di) | Inr bm \<Rightarrow> (None, Chains bm)) } }"

definition ocfs2_write_chain_allocator :: "chain_fs \<Rightarrow> cached_inode \<Rightarrow> (errcode option \<times> chain_fs \<times> cached_inode) option" where
  "ocfs2_write_chain_allocator fs ci =
     (case ci of
        No_Chains _ \<Rightarrow> Some (Some OCFS2_ET_INVALID_ARGUMENT, fs, ci)
      | Dangling _ \<Rightarrow> None
      | Chains bm \<Rightarrow> do { (ret, fs, bm) \<leftarrow> chainalloc_write_bitmap fs bm; Some (ret, fs, Chains bm) })"

definition ocfs2_chain_alloc_range :: "chain_fs \<Rightarrow> cached_inode \<Rightarrow> nat \<Rightarrow> nat \<Rightarrow> ((nat \<times> nat) result \<times> cached_inode) option" where
  "ocfs2_chain_alloc_range fs ci min_len requested =
     (case ci of
        No_Chains _ \<Rightarrow> Some (Inl OCFS2_ET_INVALID_ARGUMENT, ci)
      | Dangling _ \<Rightarrow> None
      | Chains bm \<Rightarrow>
          do { r \<leftarrow> ocfs2_bitmap_alloc_range (chainalloc_bitmap_ops fs) bm min_len requested;
               case r of Inl e \<Rightarrow> Some (Inl e, ci)
               | Inr (start, found, bm) \<Rightarrow> map_option (Pair (Inr (start, found))) (tamed bm) })"

definition ocfs2_chain_free_range :: "chain_fs \<Rightarrow> cached_inode \<Rightarrow> nat \<Rightarrow> nat \<Rightarrow> (errcode option \<times> cached_inode) option" where
  "ocfs2_chain_free_range fs ci len start_bit =
     (case ci of
        No_Chains _ \<Rightarrow> Some (Some OCFS2_ET_INVALID_ARGUMENT, ci)
      | Dangling _ \<Rightarrow> None
      | Chains bm \<Rightarrow>
          do { r \<leftarrow> ocfs2_bitmap_clear_range (chainalloc_bitmap_ops fs) bm len start_bit;
               case r of Inl e \<Rightarrow> Some (Some e, ci) | Inr bm \<Rightarrow> map_option (Pair None) (tamed bm) })"

record find_gd_state =
  fg_gd_blkno :: nat
  fg_found :: bool

definition chainalloc_find_gd :: "chain_fs \<Rightarrow> chainalloc_bitmap_private \<Rightarrow> nat \<Rightarrow> find_gd_state foreach_func" where
  "chainalloc_find_gd fs cb bitno st br =
     (if bitno \<ge> br_start_bit br \<and> bitno < add64 (br_start_bit br) (br_total_bits br) then
        do { cr \<leftarrow> cb_groups cb (br_start_bit br);
             let blkno = bg_blkno (cr_ag cr);
             Some (\<lparr>fg_gd_blkno = (if blkno = s_first_cluster_group (meta fs) then 0 else blkno), fg_found = True\<rparr>, br,
                   Some OCFS2_ET_ITERATION_COMPLETE) }
      else Some (st, br, None))"

text \<open>\<open>ocfs2_chain_alloc\<close>: the block of the group and the number of the bit.\<close>

definition ocfs2_chain_alloc :: "chain_fs \<Rightarrow> cached_inode \<Rightarrow> ((nat \<times> nat) result \<times> cached_inode) option" where
  "ocfs2_chain_alloc fs ci =
     (case ci of
        No_Chains _ \<Rightarrow> Some (Inl OCFS2_ET_INVALID_ARGUMENT, ci)
      | Dangling _ \<Rightarrow> None
      | Chains bm \<Rightarrow>
          do { f \<leftarrow> ocfs2_bitmap_find_next_clear (chainalloc_bitmap_ops fs) bm 0;
               case f of Inl e \<Rightarrow> Some (Inl e, ci)
               | Inr bitno \<Rightarrow>
                   do { s \<leftarrow> ocfs2_bitmap_set (chainalloc_bitmap_ops fs) bm bitno;
                        case s of Inl e \<Rightarrow> Some (Inl e, ci)
                        | Inr (oldval, bm) \<Rightarrow>
                            if oldval then map_option (Pair (Inl OCFS2_ET_INTERNAL_FAILURE)) (tamed bm)
                            else do { ci \<leftarrow> tamed bm;
                                      (st, ret, t) \<leftarrow> ocfs2_bitmap_foreach_region (b_regions bm) (chainalloc_find_gd fs (b_private bm) bitno)
                                                        \<lparr>fg_gd_blkno = 0, fg_found = False\<rparr>;
                                      Some (case ret of Some e \<Rightarrow> Inl e
                                            | None \<Rightarrow> if fg_found st then Inr (fg_gd_blkno st, bitno) else Inl OCFS2_ET_INTERNAL_FAILURE, ci) } } })"

definition ocfs2_chain_free :: "chain_fs \<Rightarrow> cached_inode \<Rightarrow> nat \<Rightarrow> (errcode option \<times> cached_inode) option" where
  "ocfs2_chain_free fs ci bitno =
     (case ci of
        No_Chains _ \<Rightarrow> Some (Some OCFS2_ET_INVALID_ARGUMENT, ci)
      | Dangling _ \<Rightarrow> None
      | Chains bm \<Rightarrow>
          do { r \<leftarrow> ocfs2_bitmap_clear (chainalloc_bitmap_ops fs) bm bitno;
               case r of Inl e \<Rightarrow> Some (Some e, ci)
               | Inr (oldval, bm) \<Rightarrow>
                   map_option (Pair (if oldval then None else Some OCFS2_ET_FREEING_UNALLOCATED_REGION)) (tamed bm) })"

definition ocfs2_chain_force_val :: "chain_fs \<Rightarrow> cached_inode \<Rightarrow> nat \<Rightarrow> bool \<Rightarrow> (bool result \<times> cached_inode) option" where
  "ocfs2_chain_force_val fs ci bitno newval =
     (case ci of
        No_Chains _ \<Rightarrow> Some (Inl OCFS2_ET_INVALID_ARGUMENT, ci)
      | Dangling _ \<Rightarrow> None
      | Chains bm \<Rightarrow>
          do { r \<leftarrow> (if newval then ocfs2_bitmap_set (chainalloc_bitmap_ops fs) bm bitno
                     else ocfs2_bitmap_clear (chainalloc_bitmap_ops fs) bm bitno);
               case r of Inl e \<Rightarrow> Some (Inl e, ci) | Inr (oldval, bm) \<Rightarrow> map_option (Pair (Inr oldval)) (tamed bm) })"

definition ocfs2_chain_test :: "chain_fs \<Rightarrow> cached_inode \<Rightarrow> nat \<Rightarrow> bool result option" where
  "ocfs2_chain_test fs ci bitno =
     (case ci of
        No_Chains _ \<Rightarrow> Some (Inl OCFS2_ET_INVALID_ARGUMENT)
      | Dangling _ \<Rightarrow> None
      | Chains bm \<Rightarrow> ocfs2_bitmap_test (chainalloc_bitmap_ops fs) bm bitno)"

subsection \<open>A new group\<close>

definition ocfs2_init_group_desc :: "chain_fs \<Rightarrow> nat \<Rightarrow> u32 \<Rightarrow> nat \<Rightarrow> u16 \<Rightarrow> u16 \<Rightarrow> group_desc option" where
  "ocfs2_init_group_desc fs blkno generation parent_inode nbits chain =
     do { (old, bmap) \<leftarrow> ocfs2_set_bit 0 (replicate (ocfs2_group_bitmap_size (fs_blocksize fs)) 0);
          Some \<lparr>bg_signature = OCFS2_GROUP_DESC_SIGNATURE @ [0], bg_size = of_nat (ocfs2_group_bitmap_size (fs_blocksize fs)),
                bg_bits = nbits, bg_free_bits_count = nbits - 1, bg_chain = chain, bg_generation = generation, bg_reserved1 = 0,
                bg_next_group = 0, bg_parent_dinode = parent_inode, bg_blkno = blkno, bg_check = replicate 8 0,
                bg_reserved2 = replicate 8 0, bg_bitmap = bmap\<rparr> }"

text \<open>\<open>ocfs2_new_clusters\<close> and \<open>ocfs2_free_clusters\<close>, the allocator of clusters.\<close>

record cluster_lib =
  new_clusters :: "chain_fs \<Rightarrow> u16 \<Rightarrow> u16 \<Rightarrow> (nat \<times> u32) result \<times> chain_fs"
  free_clusters :: "chain_fs \<Rightarrow> u16 \<Rightarrow> nat \<Rightarrow> errcode option \<times> chain_fs"

definition add_to_inode :: "chain_fs \<Rightarrow> chain_dinode \<Rightarrow> u16 \<Rightarrow> group_desc \<Rightarrow> chain_dinode" where
  "add_to_inode fs di chain_num gd =
     (let k = unat chain_num; r = cl_recs di ! k; clusters = cd_clusters di + ucast (cl_cpg di) in
      di\<lparr>cl_recs := (cl_recs di)[k := \<lparr>c_free = c_free r + ucast (bg_free_bits_count gd), c_total = c_total r + ucast (bg_bits gd),
                                       c_blkno = bg_blkno gd\<rparr>],
         cd_clusters := clusters, cd_size := unat clusters * fs_clustersize (meta fs),
         i_total := i_total di + ucast (bg_bits gd),
         i_used := i_used di + (ucast (bg_bits gd) - ucast (bg_free_bits_count gd)),
         cl_next_free_rec := (if cl_next_free_rec di = chain_num then chain_num + 1 else cl_next_free_rec di)\<rparr>)"

definition take_from_inode :: "chain_fs \<Rightarrow> chain_dinode \<Rightarrow> u16 \<Rightarrow> group_desc \<Rightarrow> nat \<Rightarrow> chain_dinode" where
  "take_from_inode fs di chain_num gd old_blkno =
     (let k = unat chain_num; r = cl_recs di ! k; clusters = cd_clusters di - ucast (cl_cpg di) in
      di\<lparr>cl_recs := (cl_recs di)[k := \<lparr>c_free = c_free r - ucast (bg_free_bits_count gd), c_total = c_total r - ucast (bg_bits gd),
                                       c_blkno = old_blkno\<rparr>],
         cd_clusters := clusters, cd_size := unat clusters * fs_clustersize (meta fs),
         i_total := i_total di - ucast (bg_bits gd),
         i_used := i_used di - (ucast (bg_bits gd) - ucast (bg_free_bits_count gd)),
         cl_next_free_rec := (if unat (cl_next_free_rec di) = k + 1 \<and> old_blkno = 0 then chain_num else cl_next_free_rec di)\<rparr>)"

text \<open>What follows the label \<open>out\<close> after an error when the chain record was chosen.\<close>

definition add_group_fails ::
    "cluster_lib \<Rightarrow> chain_fs \<Rightarrow> chain_bitmap \<Rightarrow> chain_dinode \<Rightarrow> u16 \<Rightarrow> group_desc \<Rightarrow> nat \<Rightarrow> errcode \<Rightarrow>
     (errcode option \<times> chain_fs \<times> cached_inode) option" where
  "add_group_fails lib fs bm di chain_num gd old_blkno e =
     (let di = take_from_inode fs di chain_num gd old_blkno; fs = snd (write_inode fs di);
          fs = (if bg_blkno gd \<noteq> 0 then snd (free_clusters lib fs (cl_cpg di) (bg_blkno gd)) else fs) in
      Some (Some e, fs, Chains (ocfs2_chainalloc_set_cinode bm di)))"

definition ocfs2_chain_add_group :: "cluster_lib \<Rightarrow> chain_fs \<Rightarrow> cached_inode \<Rightarrow> (errcode option \<times> chain_fs \<times> cached_inode) option" where
  "ocfs2_chain_add_group lib fs ci =
     (case ci of
        Chains bm \<Rightarrow>
          do { di \<leftarrow> cb_cinode (b_private bm);
               case new_clusters lib fs (cl_cpg di) (cl_cpg di) of
                 (Inl e, fs) \<Rightarrow> Some (Some e, fs, ci)
               | (Inr (blkno, found), fs) \<Rightarrow>
                   if found \<noteq> ucast (cl_cpg di) \<or> unat (cl_cpg di) * unat (cl_bpc di) > INT_MAX then None
                   else do {
                     chain_num \<leftarrow> (if cl_next_free_rec di < cl_count di then Some (cl_next_free_rec di)
                                   else if cl_cpg di = 0 \<or> cl_count di = 0 then None
                                   else Some (of_nat (unat (cd_clusters di) div unat (cl_cpg di) mod unat (cl_count di))));
                     gd \<leftarrow> ocfs2_init_group_desc fs blkno (i_fs_generation (meta fs)) (cd_blkno di) (cl_cpg di * cl_bpc di) chain_num;
                     if unat chain_num \<ge> length (cl_recs di) then None
                     else do {
                       let old_blkno = c_blkno (cl_recs di ! unat chain_num);
                       let gd = gd\<lparr>bg_next_group := old_blkno\<rparr>;
                       (ret, fs) \<leftarrow> ocfs2_write_group_desc fs blkno gd;
                       case ret of Some e \<Rightarrow> add_group_fails lib fs bm di chain_num gd old_blkno e
                       | None \<Rightarrow>
                           (let di = add_to_inode fs di chain_num gd in
                            case write_inode fs di of
                              (Some e, fs) \<Rightarrow> add_group_fails lib fs bm di chain_num gd old_blkno e
                            | (None, fs) \<Rightarrow>
                                do { (iret, bm) \<leftarrow> chainalloc_process_group fs blkno (unat chain_num) (ocfs2_chainalloc_set_cinode bm di);
                                     if iret \<noteq> 0
                                     then do { e \<leftarrow> cb_errcode (b_private bm); add_group_fails lib fs bm di chain_num gd old_blkno e }
                                     else Some (None, fs, Chains bm) }) } } }
      | _ \<Rightarrow> None)"

end
