(* ===== verification/Bitmap_Notify.thy ===== *)
theory Bitmap_Notify
  imports Bitmap_Correct
begin

text \<open>
  What the callback for a changed bit can rely on.  The locale \<open>bit_accounts\<close> is the contract between the generic
  operations of \<open>libocfs2/bitmap.c\<close> and a table whose callback keeps accounts of the regions in the
  private data: a callback that keeps its accounts when one bit of one region changes keeps them in every operation.
\<close>

lemma put_region_same:
  assumes "region_ok br" and "i < br_total_bits br" and "buf_bit (br_bitmap br) i = v"
  shows "put_region br i v = br"
proof -
  have "i < 8 * length (br_bitmap br)" using assms(1,2) by (auto simp: region_ok_def padded_def)
  then have "put_bit (br_bitmap br) i v = br_bitmap br" using assms(3) by (intro buf_eqI) (auto simp: buf_bit_put_bit)
  then show ?thesis using assms(3) by (cases br) (auto simp: put_region_def)
qed

text \<open>The private data after a change.\<close>

definition told :: "'p bitmap_hooks \<Rightarrow> 'p \<Rightarrow> region \<Rightarrow> nat \<Rightarrow> bool \<Rightarrow> 'p" where
  "told hooks p br i v =
     (if buf_bit (br_bitmap br) i = v then p else notify hooks p (put_region br i v) (br_start_bit br + i) v)"

lemma shared_eq:
  assumes "region_ok br" and "i < br_total_bits br" and "region_end br < 2 ^ 64"
  shows "set_generic_shared hooks p br (br_start_bit br + i) = Some (buf_bit (br_bitmap br) i, told hooks p br i True, put_region br i True)"
    and "clear_generic_shared hooks p br (br_start_bit br + i) = Some (buf_bit (br_bitmap br) i, told hooks p br i False, put_region br i False)"
proof -
  have i: "sub64 (br_start_bit br + i) (br_start_bit br) = i" using assms(2,3) by (simp add: sub64_eq region_end_def)
  have i8: "i < 8 * length (br_bitmap br)" using assms(1,2) by (auto simp: region_ok_def padded_def)
  show "set_generic_shared hooks p br (br_start_bit br + i) = Some (buf_bit (br_bitmap br) i, told hooks p br i True, put_region br i True)"
    using i ocfs2_set_bit_eq [OF i8] by (cases br) (simp add: set_generic_shared_def Let_def put_region_def told_def)
  show "clear_generic_shared hooks p br (br_start_bit br + i) = Some (buf_bit (br_bitmap br) i, told hooks p br i False, put_region br i False)"
    using i ocfs2_clear_bit_eq [OF i8] by (cases br) (simp add: clear_generic_shared_def Let_def put_region_def told_def)
qed

lemma put_region_ok:
  assumes "regions_ok N (xs @ br # ys)" and "i < br_total_bits br"
  shows "regions_ok N (xs @ put_region br i v # ys)"
proof -
  have "region_ok (put_region br i v)"
    using region_put_bit(1) [of br i v] assms by (simp add: regions_ok_simps put_region_def)
  then show ?thesis using assms(1) by (simp add: regions_ok_simps region_end_def)
qed

lemma lookup_range_unique:
  assumes ok: "bitmap_ok bm" and br: "br \<in> set (inorder (b_regions bm))"
    and range: "{first..<first + len} \<subseteq> region_range br" "0 < len" "first + len \<le> b_total_bits bm"
    and x: "rb_elem (fst (ocfs2_bitmap_lookup bm first len)) = Some x"
  shows "x = br"
proof (rule ccontr)
  let ?z = "fst (ocfs2_bitmap_lookup bm first len)"
  have lt: "first + len < 2 ^ 64" using range(3) ok by (simp add: bitmap_ok_def)
  note f = lookup_found [OF ok lt x]
  assume "x \<noteq> br"
  with br f(2) have "br \<in> set (before ?z) \<or> br \<in> set (after ?z)" by auto
  moreover have "regions_ok (b_total_bits bm) (before ?z @ x # after ?z)" using ok f(2) by (simp add: bitmap_ok_def)
  moreover have "br_start_bit br \<le> first" "first < region_end br" using range(1,2) by (auto simp: region_range_def)
  moreover have "first + len \<le> region_end br" using range(1,2) by (auto simp: region_range_def dest: subsetD [of _ _ "first + len - 1"])
  ultimately show False using f(3,4) by (auto simp: regions_ok_simps dest!: bspec [of _ _ br])
qed

locale bit_accounts =
  fixes hooks :: "'p bitmap_hooks" and acct :: "'p \<Rightarrow> region list \<Rightarrow> bool"
  assumes change: "acct p (xs @ br # ys) \<Longrightarrow> regions_ok N (xs @ br # ys) \<Longrightarrow> i < br_total_bits br \<Longrightarrow> buf_bit (br_bitmap br) i \<noteq> v \<Longrightarrow>
    acct (notify hooks p (put_region br i v) (br_start_bit br + i) v) (xs @ put_region br i v # ys)"
begin

definition kept :: "nat \<Rightarrow> 'p \<Rightarrow> region list \<Rightarrow> region \<Rightarrow> region list \<Rightarrow> 'p \<Rightarrow> region \<Rightarrow> bool" where
  "kept N p xs br ys p' br' \<longleftrightarrow> acct p' (xs @ br' # ys) \<and> regions_ok N (xs @ br' # ys) \<and>
     br_start_bit br' = br_start_bit br \<and> br_total_bits br' = br_total_bits br"

lemma kept_trans: "kept N p xs br ys p' br' \<Longrightarrow> kept N p' xs br' ys p'' br'' \<Longrightarrow> kept N p xs br ys p'' br''"
  by (simp add: kept_def)

lemma shared_kept:
  assumes "acct p (xs @ br # ys)" and "regions_ok N (xs @ br # ys)" and "N < 2 ^ 64" and "i < br_total_bits br"
  shows "\<exists>old p' br'. set_generic_shared hooks p br (br_start_bit br + i) = Some (old, p', br') \<and> kept N p xs br ys p' br'"
    and "\<exists>old p' br'. clear_generic_shared hooks p br (br_start_bit br + i) = Some (old, p', br') \<and> kept N p xs br ys p' br'"
proof -
  have br: "region_ok br" "region_end br < 2 ^ 64" using assms(2,3) by (auto simp: regions_ok_simps)
  have "kept N p xs br ys (told hooks p br i v) (put_region br i v)" for v
    using change [OF assms(1,2,4), of v] put_region_ok [OF assms(2,4), of v] put_region_same [OF br(1) assms(4), of v] assms(1)
    by (simp add: kept_def told_def)
  then show "\<exists>old p' br'. set_generic_shared hooks p br (br_start_bit br + i) = Some (old, p', br') \<and> kept N p xs br ys p' br'"
    "\<exists>old p' br'. clear_generic_shared hooks p br (br_start_bit br + i) = Some (old, p', br') \<and> kept N p xs br ys p' br'"
    using shared_eq [OF br(1) assms(4) br(2), of hooks p] by blast+
qed

lemma set_run_kept:
  assumes "acct p (xs @ br # ys)" and "regions_ok N (xs @ br # ys)" and "N < 2 ^ 64" and "e \<le> br_total_bits br"
  shows "\<exists>p' br'. set_run hooks p br s e = Some (p', br') \<and> kept N p xs br ys p' br'"
  using assms
proof (induction "e - s" arbitrary: p br s)
  case 0
  then show ?case by (simp add: set_run.simps kept_def)
next
  case (Suc n)
  then have s: "s < e" "s < br_total_bits br" by simp_all
  obtain old p1 br1 where st: "set_generic_shared hooks p br (s + br_start_bit br) = Some (old, p1, br1)" "kept N p xs br ys p1 br1"
    using shared_kept(1) [OF Suc.prems(1-3) s(2)] by (auto simp: add.commute)
  have n: "n = e - (s + 1)" using Suc.hyps(2) by simp
  obtain p2 br2 where r: "set_run hooks p1 br1 (s + 1) e = Some (p2, br2)" "kept N p1 xs br1 ys p2 br2"
    using Suc.hyps(1) [OF n, of p1 br1] st(2) Suc.prems(3,4) unfolding kept_def by auto
  show ?case using s(1) st(1) r(1) kept_trans [OF st(2) r(2)] by (subst set_run.simps) simp
qed

lemma clear_run_kept:
  assumes "acct p (xs @ br # ys)" and "regions_ok N (xs @ br # ys)" and "N < 2 ^ 64" and "{s..<e} \<subseteq> region_range br"
  shows "\<exists>p' br'. clear_run hooks p br s e = Some (p', br') \<and> kept N p xs br ys p' br'"
  using assms
proof (induction "e - s" arbitrary: p br s)
  case 0
  then show ?case by (simp add: clear_run.simps kept_def)
next
  case (Suc n)
  then have s: "s < e" "s \<in> region_range br" by auto
  then have i: "s - br_start_bit br < br_total_bits br" "br_start_bit br + (s - br_start_bit br) = s"
    by (auto simp: region_range_def region_end_def)
  obtain old p1 br1 where st: "clear_generic_shared hooks p br s = Some (old, p1, br1)" "kept N p xs br ys p1 br1"
    using shared_kept(2) [OF Suc.prems(1-3) i(1)] unfolding i(2) by blast
  have n: "n = e - (s + 1)" using Suc.hyps(2) by simp
  have "region_range br1 = region_range br" using st(2) by (simp add: kept_def region_range_def region_end_def)
  then have range: "{s + 1..<e} \<subseteq> region_range br1" using Suc.prems(4) by auto
  obtain p2 br2 where r: "clear_run hooks p1 br1 (s + 1) e = Some (p2, br2)" "kept N p1 xs br1 ys p2 br2"
    using Suc.hyps(1) [OF n _ _ Suc.prems(3) range, of p1] st(2) unfolding kept_def by auto
  show ?case using s(1) st(1) r(1) kept_trans [OF st(2) r(2)] by (subst clear_run.simps) simp
qed

definition bm_acct :: "'p ocfs2_bitmap \<Rightarrow> bool" where
  "bm_acct bm \<longleftrightarrow> acct (b_private bm) (inorder (b_regions bm))"

lemma replaced:
  assumes "whole z = b_regions bm" "rb_elem z = Some br" "kept N p (before z) br (after z) p' br'"
  shows "bm_acct (bm\<lparr>b_regions := whole (rb_replace_node z br'), b_private := p'\<rparr>)"
proof -
  note rep = rb_replace_node_pos [OF assms(2), of br']
  have "inorder (whole (rb_replace_node z br')) = before z @ br' # after z" using inorder_whole [OF rep(1)] rep(2,3) by simp
  then show ?thesis using assms(3) by (simp add: bm_acct_def kept_def)
qed

lemma generic_kept:
  assumes ok: "bitmap_ok bm" "bm_acct bm" and n: "bitno < b_total_bits bm"
  shows "ocfs2_bitmap_set_generic hooks bm bitno = Some (Inr (old, bm')) \<Longrightarrow> bm_acct bm'"
    and "ocfs2_bitmap_clear_generic hooks bm bitno = Some (Inr (old, bm')) \<Longrightarrow> bm_acct bm'"
proof -
  let ?z = "fst (ocfs2_bitmap_lookup bm bitno 1)"
  have regs: "regions_ok (b_total_bits bm) (inorder (b_regions bm))" and N: "b_total_bits bm < 2 ^ 64"
    using ok(1) by (simp_all add: bitmap_ok_def)
  have lt: "bitno + 1 < 2 ^ 64" using n N by simp
  have found: "\<exists>i. whole ?z = b_regions bm \<and> inorder (b_regions bm) = before ?z @ br # after ?z \<and> i < br_total_bits br \<and> bitno = br_start_bit br + i"
    if "rb_elem ?z = Some br" for br
  proof -
    note f = lookup_found [OF ok(1) lt that]
    then show ?thesis by (intro exI [of _ "bitno - br_start_bit br"]) (auto simp: region_end_def)
  qed
  show "bm_acct bm'" if op: "ocfs2_bitmap_set_generic hooks bm bitno = Some (Inr (old, bm'))"
  proof -
    obtain br where br: "rb_elem ?z = Some br" using op by (auto simp: ocfs2_bitmap_set_generic_def Let_def split: option.splits)
    obtain i where i: "whole ?z = b_regions bm" "inorder (b_regions bm) = before ?z @ br # after ?z" "i < br_total_bits br" "bitno = br_start_bit br + i"
      using found [OF br] by blast
    obtain old' p1 br1 where st: "set_generic_shared hooks (b_private bm) br bitno = Some (old', p1, br1)"
      "kept (b_total_bits bm) (b_private bm) (before ?z) br (after ?z) p1 br1"
      using shared_kept(1) [of "b_private bm" "before ?z" br "after ?z", OF _ _ N i(3)] ok(2) regs i(2,4) by (auto simp: bm_acct_def)
    then show ?thesis using op br replaced [OF i(1) br st(2)] by (auto simp: ocfs2_bitmap_set_generic_def Let_def)
  qed
  show "bm_acct bm'" if op: "ocfs2_bitmap_clear_generic hooks bm bitno = Some (Inr (old, bm'))"
  proof -
    obtain br where br: "rb_elem ?z = Some br" using op by (auto simp: ocfs2_bitmap_clear_generic_def Let_def split: option.splits)
    obtain i where i: "whole ?z = b_regions bm" "inorder (b_regions bm) = before ?z @ br # after ?z" "i < br_total_bits br" "bitno = br_start_bit br + i"
      using found [OF br] by blast
    obtain old' p1 br1 where st: "clear_generic_shared hooks (b_private bm) br bitno = Some (old', p1, br1)"
      "kept (b_total_bits bm) (b_private bm) (before ?z) br (after ?z) p1 br1"
      using shared_kept(2) [of "b_private bm" "before ?z" br "after ?z", OF _ _ N i(3)] ok(2) regs i(2,4) by (auto simp: bm_acct_def)
    then show ?thesis using op br replaced [OF i(1) br st(2)] by (auto simp: ocfs2_bitmap_clear_generic_def Let_def)
  qed
qed

text \<open>Allocating and clearing a range.\<close>

lemma alloc_range_func_kept:
  assumes a: "acct (ar_private ar) (xs @ br # ys)" "regions_ok N (xs @ br # ys)" "N < 2 ^ 64"
    and args: "0 < ar_min_len ar" "ar_min_len ar \<le> ar_len ar"
    and f: "alloc_range_func hooks ar br = Some (ar', br', e)"
  shows "acct (ar_private ar') (xs @ br' # ys)"
proof (cases "int64 (int (br_total_bits br) - br_set_bits br) < ar_min_len ar")
  case True
  then show ?thesis using a f by (simp add: alloc_range_func_def)
next
  case False
  have ok: "region_ok br" using a(2) by (simp add: regions_ok_simps)
  have "alloc_inv br (ar_len ar) 0 UINT64_MAX 0" using args by (simp add: alloc_inv_def)
  with alloc_range_loop_ok [OF ok] args obtain r where
    r: "alloc_range_loop br (ar_min_len ar) (ar_len ar) 0 UINT64_MAX 0 = Some r" "alloc_found br (ar_min_len ar) (ar_len ar) r"
    by (meson less_le_trans)
  define chosen where "chosen = (case r of Found s e \<Rightarrow> Some (s, e)
      | Best s l \<Rightarrow> if s = UINT64_MAX \<or> l < ar_min_len ar then None else Some (s, s + l))"
  show ?thesis
  proof (cases chosen)
    case None
    then show ?thesis using f a r(1) False by (simp add: alloc_range_func_def chosen_def [symmetric])
  next
    case (Some se)
    obtain s e where se: "se = (s, e)" by (cases se)
    then have "e \<le> br_total_bits br"
      using r(2) args Some by (auto simp: chosen_def alloc_found_def clear_run_at_def split: alloc_search.splits if_splits)
    from set_run_kept [OF a this, of s] obtain p1 br1 where
      "set_run hooks (ar_private ar) br s e = Some (p1, br1)" "kept N (ar_private ar) xs br ys p1 br1" by blast
    then show ?thesis using f r(1) False Some se by (auto simp: alloc_range_func_def chosen_def [symmetric] kept_def)
  qed
qed

lemma alloc_list_kept:
  assumes "N < 2 ^ 64" and "0 < ar_min_len ar" "ar_min_len ar \<le> ar_len ar"
    and "regions_ok N (xs @ rs)" and "acct (ar_private ar) (xs @ rs)"
    and "list_walk (foreach_step (alloc_range_func hooks)) (ar, None) rs = Some ((ar', ret), rs')"
  shows "acct (ar_private ar') (xs @ rs')"
  using assms
proof (induction rs arbitrary: xs rs')
  case (Cons br rs)
  have br: "region_ok br" "region_end br < 2 ^ 64" using Cons.prems(1,4) by (auto simp: regions_ok_simps)
  from alloc_range_func_ok [OF br Cons.prems(2,3), of hooks] show ?case
  proof (elim disjE exE conjE)
    fix ar1 assume f: "alloc_range_func hooks ar br = Some (ar1, br, None)" "ar1 = ar"
    then obtain rs1 where rs1: "list_walk (foreach_step (alloc_range_func hooks)) (ar, None) rs = Some ((ar', ret), rs1)" "rs' = br # rs1"
      using Cons.prems(6) by (auto simp: foreach_step_def split: option.splits prod.splits)
    have "acct (ar_private ar') ((xs @ [br]) @ rs1)" by (rule Cons.IH) (use Cons.prems rs1 in simp_all)
    then show ?thesis using rs1(2) by simp
  next
    fix ar1 br1 s n assume f: "alloc_range_func hooks ar br = Some (ar1, br1, Some OCFS2_ET_ITERATION_COMPLETE)"
    then have "ar' = ar1" "rs' = br1 # rs" using Cons.prems(6) by (auto simp: foreach_step_def)
    then show ?thesis using alloc_range_func_kept [OF Cons.prems(5,4,1-3) f] by simp
  qed
qed simp

lemma alloc_range_kept:
  assumes ok: "bitmap_ok bm" "bm_acct bm" and args: "0 < min_len" "min_len \<le> len"
    and op: "ocfs2_bitmap_alloc_range_generic hooks bm min_len len = Some (Inr (first, n, bm'))"
  shows "bm_acct bm'"
proof -
  define ar where "ar = \<lparr>ar_private = b_private bm, ar_min_len = min_len, ar_len = len,
      ar_first_bit = 0, ar_bits_found = 0, ar_ret = Some OCFS2_ET_BIT_NOT_FOUND\<rparr>"
  have regs: "regions_ok (b_total_bits bm) (inorder (b_regions bm))" and N: "b_total_bits bm < 2 ^ 64" using ok by (simp_all add: bitmap_ok_def)
  have min: "0 < ar_min_len ar" "ar_min_len ar \<le> ar_len ar" using args by (simp_all add: ar_def)
  have r: "ocfs2_bitmap_alloc_range_generic hooks bm min_len len =
      do { (ar, ret, t) \<leftarrow> ocfs2_bitmap_foreach_region (b_regions bm) (alloc_range_func hooks) ar;
           Some (case ret of Some e \<Rightarrow> Inl e | None \<Rightarrow> (case ar_ret ar of Some e \<Rightarrow> Inl e
             | None \<Rightarrow> Inr (ar_first_bit ar, ar_bits_found ar, bm\<lparr>b_regions := t, b_private := ar_private ar\<rparr>))) }"
    by (simp add: ocfs2_bitmap_alloc_range_generic_def ar_def)
  show ?thesis
  proof (cases "rb_first (b_regions bm)")
    case None
    then show ?thesis using op r by (simp add: ocfs2_bitmap_foreach_region_def ar_def)
  next
    case (Some z)
    from rb_first_pos(2) [OF Some] obtain x where z: "whole z = b_regions bm" "before z = []" "rb_elem z = Some x"
      "inorder (b_regions bm) = x # after z" by blast
    obtain ar' ret t where w: "rb_walk (foreach_step (alloc_range_func hooks)) (ar, None) z = Some ((ar', ret), t)"
      "bm' = bm\<lparr>b_regions := t, b_private := ar_private ar'\<rparr>"
      using op Some unfolding r ocfs2_bitmap_foreach_region_def by (auto split: option.splits bind_splits)
    from alloc_range_list [OF N min regs, of hooks]
    obtain ar1 ret1 ys where l: "list_walk (foreach_step (alloc_range_func hooks)) (ar, None) (x # after z) = Some ((ar1, ret1), ys)"
      unfolding z(4) by blast
    then have "ar' = ar1" "inorder t = ys" using rb_walk_list [OF z(3) l] w(1) z(2) by auto
    moreover have "acct (ar_private ar1) ([] @ ys)"
      by (rule alloc_list_kept [OF N min _ _ l]) (use regs z(4) ok(2) in \<open>simp_all add: bm_acct_def ar_def\<close>)
    ultimately show ?thesis using w(2) by (simp add: bm_acct_def)
  qed
qed

lemma clear_range_kept:
  assumes ok: "bitmap_ok bm" "bm_acct bm" and br: "br \<in> set (inorder (b_regions bm))"
    and range: "{first..<first + len} \<subseteq> region_range br" "0 < len" "first + len \<le> b_total_bits bm"
    and op: "ocfs2_bitmap_clear_range_generic hooks bm len first = Some (Inr bm')"
  shows "bm_acct bm'"
proof -
  let ?z = "fst (ocfs2_bitmap_lookup bm first len)"
  have regs: "regions_ok (b_total_bits bm) (inorder (b_regions bm))" and N: "b_total_bits bm < 2 ^ 64" using ok by (simp_all add: bitmap_ok_def)
  have lt: "first + len < 2 ^ 64" using range(3) N by simp
  obtain x where x: "rb_elem ?z = Some x" using op by (auto simp: ocfs2_bitmap_clear_range_generic_def Let_def split: option.splits)
  note f = lookup_found [OF ok(1) lt x]
  have regs': "regions_ok (b_total_bits bm) (before ?z @ x # after ?z)" using regs f(2) by simp
  have "x = br" by (rule lookup_range_unique [OF ok(1) br range x])
  then obtain p1 br1 where "clear_run hooks (b_private bm) br first (first + len) = Some (p1, br1)"
      "kept (b_total_bits bm) (b_private bm) (before ?z) br (after ?z) p1 br1"
    using clear_run_kept [OF _ regs' N, of "b_private bm" first "first + len"] range(1) ok(2) f(2) by (auto simp: bm_acct_def)
  then show ?thesis using op x \<open>x = br\<close> replaced [OF f(1) x] lt by (auto simp: ocfs2_bitmap_clear_range_generic_def Let_def add64_eq)
qed

end

end
