(* ===== verification/Chainalloc_Correct.thy ===== *)
theory Chainalloc_Correct
  imports Chainalloc Bitmap_Notify
begin

text \<open>
  The accounts of a chain allocator: the free counts of the descriptors and of the chains, and the used
  count of the inode, are those of the bitmap.  The callback of the table keeps them, so by the locale \<open>bit_accounts\<close> all
  operations do.
\<close>

section \<open>Accounts\<close>

definition used_bits :: "region \<Rightarrow> nat" where "used_bits br = card (region_bits br)"
definition free_bits :: "region \<Rightarrow> nat" where "free_bits br = br_total_bits br - used_bits br"

definition chain_of :: "(nat \<rightharpoonup> chainalloc_region_private) \<Rightarrow> region \<Rightarrow> nat" where
  "chain_of groups br = unat (bg_chain (cr_ag (the (groups (br_start_bit br)))))"

definition group_acct :: "(nat \<rightharpoonup> chainalloc_region_private) \<Rightarrow> nat \<Rightarrow> region \<Rightarrow> bool" where
  "group_acct groups n br \<longleftrightarrow> (\<exists>cr. groups (br_start_bit br) = Some cr \<and> unat (bg_bits (cr_ag cr)) = br_total_bits br \<and>
     unat (bg_free_bits_count (cr_ag cr)) = free_bits br \<and> unat (bg_chain (cr_ag cr)) < n)"

definition chain_sum :: "(nat \<rightharpoonup> chainalloc_region_private) \<Rightarrow> nat \<Rightarrow> region list \<Rightarrow> nat" where
  "chain_sum groups k rs = sum_list (map (\<lambda>br. if chain_of groups br = k then free_bits br else 0) rs)"

definition inode_acct :: "(nat \<rightharpoonup> chainalloc_region_private) \<Rightarrow> chain_dinode \<Rightarrow> region list \<Rightarrow> bool" where
  "inode_acct groups di rs \<longleftrightarrow> (\<forall>k<length (cl_recs di). c_free (cl_recs di ! k) = of_nat (chain_sum groups k rs)) \<and>
     i_used di = of_nat (sum_list (map used_bits rs))"

definition chain_acct :: "chainalloc_bitmap_private \<Rightarrow> region list \<Rightarrow> bool" where
  "chain_acct cb rs \<longleftrightarrow> \<not> cb_wild cb \<and> (\<exists>di. cb_cinode cb = Some di \<and>
     (\<forall>br\<in>set rs. group_acct (cb_groups cb) (length (cl_recs di)) br) \<and> inode_acct (cb_groups cb) di rs)"

lemma used_bits_le: "region_ok br \<Longrightarrow> used_bits br \<le> br_total_bits br"
proof -
  have "region_bits br \<subseteq> {br_start_bit br..<br_start_bit br + br_total_bits br}" by (auto simp: region_bits_def region_end_def)
  from card_mono [OF _ this] show ?thesis by (simp add: used_bits_def)
qed

text \<open>A bit more or less.\<close>

lemma used_bits_put:
  assumes ok: "region_ok br" and i: "i < br_total_bits br" and v: "buf_bit (br_bitmap br) i \<noteq> v"
  shows "if v then used_bits (put_region br i v) = Suc (used_bits br) \<and> free_bits br = Suc (free_bits (put_region br i v))
    else used_bits br = Suc (used_bits (put_region br i v)) \<and> free_bits (put_region br i v) = Suc (free_bits br)"
proof -
  have old: "br_start_bit br + i \<in> region_bits br \<longleftrightarrow> buf_bit (br_bitmap br) i" using i by (simp add: region_bits_def region_end_def)
  note put = region_put_bit [OF ok i, of v, folded put_region_def]
  have le: "used_bits (put_region br i v) \<le> br_total_bits br" "used_bits br \<le> br_total_bits br"
    using used_bits_le [OF put(1)] used_bits_le [OF ok] by simp_all
  have "if v then used_bits (put_region br i v) = Suc (used_bits br) else used_bits br = Suc (used_bits (put_region br i v))"
    using put(2) old v finite_region_bits [of br] card_Suc_Diff1 [of "region_bits br" "br_start_bit br + i"]
    by (auto simp: used_bits_def)
  then show ?thesis using le by (auto simp: free_bits_def split: if_splits)
qed

lemma word_less_one: "unat (w :: 'a::len word) = Suc n \<Longrightarrow> unat (w - 1) = n"
proof -
  assume w: "unat w = Suc n"
  then have "w \<noteq> 0" by auto
  from unat_minus_one [OF this] w show ?thesis by simp
qed

lemma word_more_one: "unat (w :: 'a::len word) = n \<Longrightarrow> Suc n < 2 ^ LENGTH('a) \<Longrightarrow> unat (w + 1) = Suc n"
  by (simp add: unat_word_ariths)

text \<open>The callback: the accounts of the region, its chain and the inode move by one.\<close>

lemma notify_eq:
  assumes "cb_cinode cb = Some di" and "cb_groups cb (br_start_bit br) = Some cr" and "unat (bg_chain (cr_ag cr)) < length (cl_recs di)"
  defines "k \<equiv> unat (bg_chain (cr_ag cr))"
  shows "notify chainalloc_hooks cb br bitno v =
    cb\<lparr>cb_cinode := Some (di\<lparr>cl_recs := (cl_recs di)[k := (cl_recs di ! k)\<lparr>c_free := c_free (cl_recs di ! k) + (if v then - 1 else 1)\<rparr>],
         i_used := i_used di + (if v then 1 else - 1)\<rparr>),
       cb_groups := (cb_groups cb)(br_start_bit br \<mapsto>
         \<lparr>cr_ag = (cr_ag cr)\<lparr>bg_free_bits_count := bg_free_bits_count (cr_ag cr) + (if v then - 1 else 1)\<rparr>, cr_dirty = True\<rparr>),
       cb_dirty := True\<rparr>"
  using assms by (simp add: notify_def chainalloc_hooks_def chainalloc_bit_change_notify_def Let_def)

lemma other_start:
  assumes "regions_ok N (xs @ br # ys)" and "b \<in> set xs \<union> set ys"
  shows "br_start_bit b \<noteq> br_start_bit br"
proof -
  have "region_ok b" "region_ok br" using assms by (auto simp: regions_ok_def)
  moreover have "region_end b \<le> br_start_bit br \<or> region_end br \<le> br_start_bit b" using assms by (auto simp: regions_ok_simps)
  ultimately show ?thesis by (auto simp: region_ok_def region_end_def)
qed

lemma chain_sum_split: "chain_sum groups k (xs @ br # ys) = chain_sum groups k (xs @ ys) + (if chain_of groups br = k then free_bits br else 0)"
  by (simp add: chain_sum_def)

lemma chain_sum_cong: "\<forall>br\<in>set rs. chain_of groups' br = chain_of groups br \<Longrightarrow> chain_sum groups' k rs = chain_sum groups k rs"
  unfolding chain_sum_def by (intro arg_cong [of _ _ sum_list] map_cong) auto

lemma used_sum_split: "sum_list (map used_bits (xs @ br # ys)) = sum_list (map used_bits (xs @ ys)) + used_bits br"
  by simp

lemma chain_change:
  assumes a: "chain_acct cb (xs @ br # ys)" and ok: "regions_ok N (xs @ br # ys)" and i: "i < br_total_bits br"
    and v: "buf_bit (br_bitmap br) i \<noteq> v"
  shows "chain_acct (notify chainalloc_hooks cb (put_region br i v) (br_start_bit br + i) v) (xs @ put_region br i v # ys)"
proof -
  let ?br = "put_region br i v"
  obtain di where di: "cb_cinode cb = Some di" "\<not> cb_wild cb" "\<forall>b\<in>set (xs @ br # ys). group_acct (cb_groups cb) (length (cl_recs di)) b"
    "inode_acct (cb_groups cb) di (xs @ br # ys)" using a by (auto simp: chain_acct_def)
  obtain cr where cr: "cb_groups cb (br_start_bit br) = Some cr" "unat (bg_bits (cr_ag cr)) = br_total_bits br"
    "unat (bg_free_bits_count (cr_ag cr)) = free_bits br" "unat (bg_chain (cr_ag cr)) < length (cl_recs di)"
    using di(3) by (auto simp: group_acct_def)
  let ?k = "unat (bg_chain (cr_ag cr))"
  let ?ag = "(cr_ag cr)\<lparr>bg_free_bits_count := bg_free_bits_count (cr_ag cr) + (if v then - 1 else 1)\<rparr>"
  let ?groups = "(cb_groups cb)(br_start_bit br \<mapsto> \<lparr>cr_ag = ?ag, cr_dirty = True\<rparr>)"
  let ?di = "di\<lparr>cl_recs := (cl_recs di)[?k := (cl_recs di ! ?k)\<lparr>c_free := c_free (cl_recs di ! ?k) + (if v then - 1 else 1)\<rparr>],
         i_used := i_used di + (if v then 1 else - 1)\<rparr>"
  have rok: "region_ok br" using ok by (simp add: regions_ok_simps)
  note put = used_bits_put [OF rok i v]
  have chain: "chain_of ?groups b = chain_of (cb_groups cb) b" for b using cr(1) by (simp add: chain_of_def)
  have chain_br: "chain_of (cb_groups cb) ?br = ?k" "chain_of (cb_groups cb) br = ?k" using cr(1) by (simp_all add: chain_of_def)
  have "free_bits ?br \<le> br_total_bits br" by (simp add: free_bits_def)
  moreover have "br_total_bits br < 2 ^ 16" using cr(2) unsigned_less [of "bg_bits (cr_ag cr)", where ?'a = nat] by simp
  ultimately have small: "free_bits ?br < 2 ^ LENGTH(16)" by simp
  have "unat (bg_free_bits_count ?ag) = free_bits ?br"
    using put cr(3) word_less_one [of "bg_free_bits_count (cr_ag cr)" "free_bits ?br"] word_more_one [of "bg_free_bits_count (cr_ag cr)" "free_bits br"] small
    by (cases v) simp_all
  then have "group_acct ?groups (length (cl_recs ?di)) ?br" using cr(2,4) by (simp add: group_acct_def)
  moreover have "group_acct ?groups (length (cl_recs ?di)) b" if "b \<in> set xs \<union> set ys" for b
    using di(3) other_start [OF ok that] that by (auto simp: group_acct_def)
  moreover have "inode_acct ?groups ?di (xs @ ?br # ys)"
    unfolding inode_acct_def chain_sum_split used_sum_split
  proof (intro conjI allI impI)
    fix k assume k: "k < length (cl_recs ?di)"
    have old: "c_free (cl_recs di ! k) = of_nat (chain_sum (cb_groups cb) k (xs @ ys) + (if ?k = k then free_bits br else 0))"
      using di(4) k chain_br(2) unfolding inode_acct_def chain_sum_split by simp
    have cs: "chain_sum ?groups k (xs @ ys) = chain_sum (cb_groups cb) k (xs @ ys)" by (rule chain_sum_cong) (simp add: chain)
    show "c_free (cl_recs ?di ! k) = of_nat (chain_sum ?groups k (xs @ ys) + (if chain_of ?groups ?br = k then free_bits ?br else 0))"
      unfolding cs chain chain_br(1) using old put k by (cases "?k = k"; cases v) simp_all
  next
    have "i_used di = of_nat (sum_list (map used_bits (xs @ ys)) + used_bits br)" using di(4) unfolding inode_acct_def used_sum_split by simp
    then show "i_used ?di = of_nat (sum_list (map used_bits (xs @ ys)) + used_bits ?br)" using put by (cases v) simp_all
  qed
  moreover have "notify chainalloc_hooks cb ?br (br_start_bit br + i) v = cb\<lparr>cb_cinode := Some ?di, cb_groups := ?groups, cb_dirty := True\<rparr>"
    using notify_eq [of cb di ?br cr] di(1) cr(1,4) by simp
  ultimately show ?thesis using di(2) by (auto simp: chain_acct_def)
qed

text \<open>What never changes: the ranges of the regions, and of the descriptors all but the free counts and the bits.\<close>

definition layout :: "region list \<Rightarrow> (nat \<times> nat) list" where
  "layout rs = map (\<lambda>br. (br_start_bit br, br_total_bits br)) rs"

definition idents :: "(nat \<rightharpoonup> chainalloc_region_private) \<Rightarrow> nat \<rightharpoonup> group_desc" where
  "idents groups s = map_option (\<lambda>cr. (cr_ag cr)\<lparr>bg_free_bits_count := 0\<rparr>) (groups s)"

definition chain_keeps :: "(nat \<times> nat) list \<Rightarrow> (nat \<rightharpoonup> group_desc) \<Rightarrow> chainalloc_bitmap_private \<Rightarrow> region list \<Rightarrow> bool" where
  "chain_keeps L G cb rs \<longleftrightarrow> chain_acct cb rs \<and> layout rs = L \<and> idents (cb_groups cb) = G"

interpretation chain: bit_accounts chainalloc_hooks "chain_keeps L G" for L G
proof
  fix cb xs br ys N i v
  assume a: "chain_keeps L G cb (xs @ br # ys)" and ok: "regions_ok N (xs @ br # ys)" and i: "i < br_total_bits br" and v: "buf_bit (br_bitmap br) i \<noteq> v"
  let ?cb = "notify chainalloc_hooks cb (put_region br i v) (br_start_bit br + i) v"
  have acct: "chain_acct ?cb (xs @ put_region br i v # ys)" using a by (intro chain_change [OF _ ok i v]) (simp add: chain_keeps_def)
  obtain di cr where "cb_cinode cb = Some di" "cb_groups cb (br_start_bit br) = Some cr" "unat (bg_chain (cr_ag cr)) < length (cl_recs di)"
    using a by (auto simp: chain_keeps_def chain_acct_def group_acct_def)
  then have "idents (cb_groups ?cb) = idents (cb_groups cb)"
    using notify_eq [of cb di "put_region br i v" cr] by (auto simp: idents_def fun_eq_iff)
  then show "chain_keeps L G ?cb (xs @ put_region br i v # ys)" using a acct by (simp add: chain_keeps_def layout_def)
qed

section \<open>The operations\<close>

definition chain_ok :: "chain_bitmap \<Rightarrow> bool" where
  "chain_ok bm \<longleftrightarrow> bitmap_ok bm \<and> chain_acct (b_private bm) (inorder (b_regions bm))"

lemma chain_ok_tamed: "chain_ok bm \<Longrightarrow> tamed bm = Some (Chains bm)"
  by (simp add: chain_ok_def chain_acct_def tamed_def)

lemma chain_ok_count: "chain_ok (bm\<lparr>b_set_bits := n\<rparr>) = chain_ok bm"
  by (simp add: chain_ok_def bitmap_ok_def)

lemma views_count [simp]: "bm_bits (bm\<lparr>b_set_bits := n\<rparr>) = bm_bits bm" "bm_covered (bm\<lparr>b_set_bits := n\<rparr>) = bm_covered bm"
  by (simp_all add: bm_bits_def bm_covered_def)

lemma ops_fields [simp]:
  "op_set_bit (chainalloc_bitmap_ops fs) = Some (ocfs2_bitmap_set_generic chainalloc_hooks)"
  "op_clear_bit (chainalloc_bitmap_ops fs) = Some (ocfs2_bitmap_clear_generic chainalloc_hooks)"
  "op_test_bit (chainalloc_bitmap_ops fs) = Some ocfs2_bitmap_test_generic"
  "op_find_next_clear (chainalloc_bitmap_ops fs) = Some ocfs2_bitmap_find_next_clear_generic"
  "op_alloc_range (chainalloc_bitmap_ops fs) = Some (ocfs2_bitmap_alloc_range_generic chainalloc_hooks)"
  "op_clear_range (chainalloc_bitmap_ops fs) = Some (ocfs2_bitmap_clear_range_generic chainalloc_hooks)"
  "op_read_bitmap (chainalloc_bitmap_ops fs) = Some (chainalloc_read_bitmap fs)"
  by (simp_all add: chainalloc_bitmap_ops_def)

text \<open>What an operation that changes the set of used bits from \<open>B\<close> to \<open>B'\<close> leaves behind.\<close>

definition chain_view :: "chain_bitmap \<Rightarrow> nat set \<Rightarrow> chain_bitmap \<Rightarrow> bool" where
  "chain_view bm B bm' \<longleftrightarrow> chain_ok bm' \<and> bm_bits bm' = B \<and> bm_covered bm' = bm_covered bm \<and> b_total_bits bm' = b_total_bits bm \<and>
     layout (inorder (b_regions bm')) = layout (inorder (b_regions bm)) \<and> idents (cb_groups (b_private bm')) = idents (cb_groups (b_private bm))"

abbreviation chain_bm :: "chain_bitmap \<Rightarrow> chain_bitmap \<Rightarrow> bool" where
  "chain_bm bm \<equiv> chain.bm_acct (layout (inorder (b_regions bm))) (idents (cb_groups (b_private bm)))"

lemma chain_bm_ok: "chain_ok bm \<Longrightarrow> chain_bm bm bm"
  by (simp add: chain_ok_def chain.bm_acct_def chain_keeps_def)

lemma chain_viewI:
  assumes "chain_bm bm bm'" and "bitmap_ok bm'" and "bm_bits bm' = B" and "bm_covered bm' = bm_covered bm" and "b_total_bits bm' = b_total_bits bm"
  shows "chain_view bm B bm'"
  using assms by (simp add: chain_view_def chain_ok_def chain.bm_acct_def chain_keeps_def)

lemma chain_view_count: "chain_view bm B (bm'\<lparr>b_set_bits := n\<rparr>) = chain_view bm B bm'"
  by (simp add: chain_view_def chain_ok_count)

lemma chain_set:
  assumes ok: "chain_ok bm"
  shows "bitno \<in> bm_covered bm \<Longrightarrow> \<exists>bm'. ocfs2_bitmap_set (chainalloc_bitmap_ops fs) bm bitno = Some (Inr (bitno \<in> bm_bits bm, bm')) \<and>
      chain_view bm (insert bitno (bm_bits bm)) bm'"
    and "bitno \<notin> bm_covered bm \<Longrightarrow> ocfs2_bitmap_set (chainalloc_bitmap_ops fs) bm bitno = Some (Inl OCFS2_ET_INVALID_BIT)"
    and "bitno \<in> bm_covered bm \<Longrightarrow> \<exists>bm'. ocfs2_bitmap_clear (chainalloc_bitmap_ops fs) bm bitno = Some (Inr (bitno \<in> bm_bits bm, bm')) \<and>
      chain_view bm (bm_bits bm - {bitno}) bm'"
    and "bitno \<notin> bm_covered bm \<Longrightarrow> ocfs2_bitmap_clear (chainalloc_bitmap_ops fs) bm bitno = Some (Inl OCFS2_ET_INVALID_BIT)"
proof -
  have bok: "bitmap_ok bm" and acct: "chain_bm bm bm" using ok chain_bm_ok by (simp_all add: chain_ok_def)
  have cov: "bm_covered bm \<subseteq> {..<b_total_bits bm}" using bok by (auto simp: bm_covered_def covered_def region_range_def bitmap_ok_def regions_ok_def)
  show "\<exists>bm'. ocfs2_bitmap_set (chainalloc_bitmap_ops fs) bm bitno = Some (Inr (bitno \<in> bm_bits bm, bm')) \<and>
      chain_view bm (insert bitno (bm_bits bm)) bm'" if c: "bitno \<in> bm_covered bm"
  proof -
    have n: "bitno < b_total_bits bm" using cov c by auto
    obtain bm' where s: "ocfs2_bitmap_set_generic chainalloc_hooks bm bitno = Some (Inr (bitno \<in> bm_bits bm, bm'))" "bitmap_ok bm'"
      "bm_bits bm' = insert bitno (bm_bits bm)" "bm_covered bm' = bm_covered bm" "b_total_bits bm' = b_total_bits bm"
      using set_generic_ok(2) [OF bok n c, of chainalloc_hooks] by (auto simp: bit_result_def)
    from chain_viewI [OF chain.generic_kept(1) [OF bok acct n s(1)] s(2-5)] show ?thesis
      using s(1) n by (auto simp: ocfs2_bitmap_set_def chain_view_count)
  qed
  show "\<exists>bm'. ocfs2_bitmap_clear (chainalloc_bitmap_ops fs) bm bitno = Some (Inr (bitno \<in> bm_bits bm, bm')) \<and>
      chain_view bm (bm_bits bm - {bitno}) bm'" if c: "bitno \<in> bm_covered bm"
  proof -
    have n: "bitno < b_total_bits bm" using cov c by auto
    obtain bm' where s: "ocfs2_bitmap_clear_generic chainalloc_hooks bm bitno = Some (Inr (bitno \<in> bm_bits bm, bm'))" "bitmap_ok bm'"
      "bm_bits bm' = bm_bits bm - {bitno}" "bm_covered bm' = bm_covered bm" "b_total_bits bm' = b_total_bits bm"
      using clear_generic_ok(2) [OF bok n c, of chainalloc_hooks] by (auto simp: bit_result_def)
    from chain_viewI [OF chain.generic_kept(2) [OF bok acct n s(1)] s(2-5)] show ?thesis
      using s(1) n by (auto simp: ocfs2_bitmap_clear_def chain_view_count)
  qed
  show "ocfs2_bitmap_set (chainalloc_bitmap_ops fs) bm bitno = Some (Inl OCFS2_ET_INVALID_BIT)"
    "ocfs2_bitmap_clear (chainalloc_bitmap_ops fs) bm bitno = Some (Inl OCFS2_ET_INVALID_BIT)" if "bitno \<notin> bm_covered bm"
    using that set_generic_ok(1) [OF bok] clear_generic_ok(1) [OF bok]
    by (cases "bitno < b_total_bits bm"; simp add: ocfs2_bitmap_set_def ocfs2_bitmap_clear_def)+
qed

lemma chain_alloc_range:
  assumes ok: "chain_ok bm" and args: "0 < min_len" "min_len \<le> len" "len < b_total_bits bm"
  shows "(\<exists>first n bm'. ocfs2_bitmap_alloc_range (chainalloc_bitmap_ops fs) bm min_len len = Some (Inr (first, n, bm')) \<and>
      min_len \<le> n \<and> n \<le> len \<and> {first..<first + n} \<subseteq> bm_covered bm - bm_bits bm \<and>
      chain_view bm (bm_bits bm \<union> {first..<first + n}) bm') \<or>
    ocfs2_bitmap_alloc_range (chainalloc_bitmap_ops fs) bm min_len len = Some (Inl OCFS2_ET_BIT_NOT_FOUND)"
proof -
  have bok: "bitmap_ok bm" and acct: "chain_bm bm bm" using ok chain_bm_ok by (simp_all add: chain_ok_def)
  note kept = chain.alloc_range_kept [OF bok acct args(1,2)]
  from alloc_range_generic_ok [OF bok args(1,2), of chainalloc_hooks] show ?thesis
  proof (elim disjE exE conjE)
    assume "ocfs2_bitmap_alloc_range_generic chainalloc_hooks bm min_len len = Some (Inl OCFS2_ET_BIT_NOT_FOUND)"
    then show ?thesis using args by (simp add: ocfs2_bitmap_alloc_range_def)
  next
    fix first n bm'
    assume *: "ocfs2_bitmap_alloc_range_generic chainalloc_hooks bm min_len len = Some (Inr (first, n, bm'))" "min_len \<le> n" "n \<le> len"
      "{first..<first + n} \<subseteq> bm_covered bm - bm_bits bm" "bm_bits bm' = bm_bits bm \<union> {first..<first + n}"
      "bm_covered bm' = bm_covered bm" "bitmap_ok bm'" "b_total_bits bm' = b_total_bits bm"
    have "chain_view bm (bm_bits bm \<union> {first..<first + n}) bm'" using kept [OF *(1)] *(7,5,6,8) by (rule chain_viewI)
    moreover have "ocfs2_bitmap_alloc_range (chainalloc_bitmap_ops fs) bm min_len len = Some (Inr (first, n, bm'))"
      using args *(1,2) by (simp add: ocfs2_bitmap_alloc_range_def)
    ultimately show ?thesis using *(2-4) by blast
  qed
qed

lemma chain_clear_range:
  assumes ok: "chain_ok bm" and br: "br \<in> set (inorder (b_regions bm))"
    and range: "{first..<first + len} \<subseteq> region_range br" "0 < len"
  shows "\<exists>bm'. ocfs2_bitmap_clear_range (chainalloc_bitmap_ops fs) bm len first = Some (Inr bm') \<and>
    chain_view bm (bm_bits bm - {first..<first + len}) bm'"
proof -
  have bok: "bitmap_ok bm" and acct: "chain_bm bm bm" using ok chain_bm_ok by (simp_all add: chain_ok_def)
  have "region_end br \<le> b_total_bits bm" using bok br by (auto simp: bitmap_ok_def regions_ok_def)
  moreover have "first + len - 1 \<in> region_range br" using range by auto
  ultimately have le: "first + len \<le> b_total_bits bm" using range(2) unfolding region_range_def by auto
  then have lt: "add64 len first = first + len" using bok by (simp add: bitmap_ok_def add64_eq add.commute)
  obtain bm' where s: "ocfs2_bitmap_clear_range_generic chainalloc_hooks bm len first = Some (Inr bm')" "bitmap_ok bm'"
    "bm_bits bm' = bm_bits bm - {first..<first + len}" "bm_covered bm' = bm_covered bm" "b_total_bits bm' = b_total_bits bm"
    using clear_range_generic_ok [OF bok br range le, of chainalloc_hooks] by blast
  from chain_viewI [OF chain.clear_range_kept [OF bok acct br range le s(1)] s(2-5)] show ?thesis
    using s(1) lt le range(2) by (simp add: ocfs2_bitmap_clear_range_def)
qed


text \<open>The group of a bit.\<close>

definition group_block :: "chain_fs \<Rightarrow> (nat \<rightharpoonup> chainalloc_region_private) \<Rightarrow> region \<Rightarrow> nat" where
  "group_block fs groups br =
     (let b = bg_blkno (cr_ag (the (groups (br_start_bit br)))) in if b = s_first_cluster_group (meta fs) then 0 else b)"

lemma find_gd_list:
  assumes "regions_ok N rs" and "N < 2 ^ 64" and "\<forall>br\<in>set rs. cb_groups cb (br_start_bit br) \<noteq> None" and "bitno \<in> covered rs"
  shows "\<exists>br\<in>set rs. bitno \<in> region_range br \<and>
    list_walk (foreach_step (chainalloc_find_gd fs cb bitno)) (st, None) rs = Some ((\<lparr>fg_gd_blkno = group_block fs (cb_groups cb) br, fg_found = True\<rparr>, None), rs)"
  using assms
proof (induction rs)
  case (Cons br rs)
  have e: "add64 (br_start_bit br) (br_total_bits br) = region_end br" using Cons.prems(1,2) by (simp add: regions_ok_simps region_end_def add64_eq)
  show ?case
  proof (cases "bitno \<in> region_range br")
    case True
    then have "chainalloc_find_gd fs cb bitno st br = Some (\<lparr>fg_gd_blkno = group_block fs (cb_groups cb) br, fg_found = True\<rparr>, br, Some OCFS2_ET_ITERATION_COMPLETE)"
      using Cons.prems(3) e by (auto simp: chainalloc_find_gd_def region_range_def group_block_def Let_def)
    then show ?thesis using True by (intro bexI [of _ br]) (simp_all add: foreach_step_def)
  next
    case False
    then have f: "chainalloc_find_gd fs cb bitno st br = Some (st, br, None)" using e by (auto simp: chainalloc_find_gd_def region_range_def)
    obtain b where "b \<in> set rs" "bitno \<in> region_range b" "list_walk (foreach_step (chainalloc_find_gd fs cb bitno)) (st, None) rs =
        Some ((\<lparr>fg_gd_blkno = group_block fs (cb_groups cb) b, fg_found = True\<rparr>, None), rs)"
      using Cons.IH Cons.prems False by (auto simp: regions_ok_simps)
    then show ?thesis using f by (intro bexI [of _ b]) (simp_all add: foreach_step_def)
  qed
qed simp

lemma find_gd_ok:
  assumes ok: "chain_ok bm" and b: "bitno \<in> bm_covered bm"
  shows "\<exists>br t. br \<in> set (inorder (b_regions bm)) \<and> bitno \<in> region_range br \<and>
    ocfs2_bitmap_foreach_region (b_regions bm) (chainalloc_find_gd fs (b_private bm) bitno) st =
      Some (\<lparr>fg_gd_blkno = group_block fs (cb_groups (b_private bm)) br, fg_found = True\<rparr>, None, t)"
proof -
  have regs: "regions_ok (b_total_bits bm) (inorder (b_regions bm))" "b_total_bits bm < 2 ^ 64"
    and g: "\<forall>br\<in>set (inorder (b_regions bm)). cb_groups (b_private bm) (br_start_bit br) \<noteq> None"
    using ok by (auto simp: chain_ok_def bitmap_ok_def chain_acct_def group_acct_def)
  obtain br where br: "br \<in> set (inorder (b_regions bm))" "bitno \<in> region_range br"
    "list_walk (foreach_step (chainalloc_find_gd fs (b_private bm) bitno)) (st, None) (inorder (b_regions bm)) =
      Some ((\<lparr>fg_gd_blkno = group_block fs (cb_groups (b_private bm)) br, fg_found = True\<rparr>, None), inorder (b_regions bm))"
    using find_gd_list [OF regs g b [unfolded bm_covered_def], of fs st] by blast
  obtain z where z: "rb_first (b_regions bm) = Some z" using br(1) by (cases "rb_first (b_regions bm)"; cases "b_regions bm") auto
  from rb_first_pos(2) [OF z] obtain x where x: "before z = []" "rb_elem z = Some x" "inorder (b_regions bm) = x # after z" by blast
  from rb_walk_list [OF x(2)] br(3) x(3) obtain t where
    "rb_walk (foreach_step (chainalloc_find_gd fs (b_private bm) bitno)) (st, None) z =
      Some ((\<lparr>fg_gd_blkno = group_block fs (cb_groups (b_private bm)) br, fg_found = True\<rparr>, None), t)" by fastforce
  then show ?thesis using br(1,2) z by (auto simp: ocfs2_bitmap_foreach_region_def)
qed

lemma chain_alloc_cases:
  assumes ok: "chain_ok bm" and pos: "0 < b_total_bits bm"
  shows "bm_covered bm \<subseteq> bm_bits bm \<and> ocfs2_chain_alloc fs (Chains bm) = Some (Inl OCFS2_ET_BIT_NOT_FOUND, Chains bm) \<or>
    (\<exists>bitno br bm'. ocfs2_chain_alloc fs (Chains bm) = Some (Inr (group_block fs (cb_groups (b_private bm')) br, bitno), Chains bm') \<and>
      br \<in> set (inorder (b_regions bm')) \<and> bitno \<in> region_range br \<and> bitno \<in> bm_covered bm - bm_bits bm \<and>
      (\<forall>m\<in>bm_covered bm - bm_bits bm. bitno \<le> m) \<and> chain_view bm (insert bitno (bm_bits bm)) bm')"
proof -
  have bok: "bitmap_ok bm" using ok by (simp add: chain_ok_def)
  have sel: "selected (\<lambda>buf i. \<not> buf_bit buf i) (inorder (b_regions bm)) = bm_covered bm - bm_bits bm"
    using selected_clear bok by (auto simp: bitmap_ok_def bm_covered_def bm_bits_def)
  obtain r where r: "search_from ocfs2_find_next_bit_clear 0 (start_node bm 0) =
      Some (case r of None \<Rightarrow> Inl OCFS2_ET_BIT_NOT_FOUND | Some n \<Rightarrow> Inr n)" "first_from (bm_covered bm - bm_bits bm) 0 r"
    using search_from_ok [where P = "\<lambda>buf i. \<not> buf_bit buf i", OF bok pos find_next_clear_law] unfolding sel by blast
  have f: "ocfs2_bitmap_find_next_clear (chainalloc_bitmap_ops fs) bm 0 = Some (case r of None \<Rightarrow> Inl OCFS2_ET_BIT_NOT_FOUND | Some n \<Rightarrow> Inr n)"
    using pos r(1) by (simp add: ocfs2_bitmap_find_next_clear_def ocfs2_bitmap_find_next_clear_generic_def)
  show ?thesis
  proof (cases r)
    case None
    then show ?thesis using f r(2) by (auto simp: ocfs2_chain_alloc_def first_from_def)
  next
    case (Some n)
    then have n: "n \<in> bm_covered bm - bm_bits bm" "\<forall>m\<in>bm_covered bm - bm_bits bm. n \<le> m" using r(2) by (auto simp: first_from_def)
    obtain bm' where s: "ocfs2_bitmap_set (chainalloc_bitmap_ops fs) bm n = Some (Inr (n \<in> bm_bits bm, bm'))"
      "chain_view bm (insert n (bm_bits bm)) bm'" using chain_set(1) [OF ok, of n fs] n(1) by blast
    have ok': "chain_ok bm'" "n \<in> bm_covered bm'" using s(2) n(1) by (auto simp: chain_view_def)
    from find_gd_ok [OF ok', of fs] obtain br t where g: "br \<in> set (inorder (b_regions bm'))" "n \<in> region_range br"
      "ocfs2_bitmap_foreach_region (b_regions bm') (chainalloc_find_gd fs (b_private bm') n) \<lparr>fg_gd_blkno = 0, fg_found = False\<rparr> =
        Some (\<lparr>fg_gd_blkno = group_block fs (cb_groups (b_private bm')) br, fg_found = True\<rparr>, None, t)" by blast
    have "ocfs2_chain_alloc fs (Chains bm) = Some (Inr (group_block fs (cb_groups (b_private bm')) br, n), Chains bm')"
      using f Some s(1) n(1) g(3) chain_ok_tamed [OF ok'(1)] by (simp add: ocfs2_chain_alloc_def)
    then show ?thesis using g(1,2) n s(2) by blast
  qed
qed

section \<open>A small chain allocator\<close>

text \<open>One group of sixteen bits, the first of which is used.\<close>

definition small_region :: region where
  "small_region = \<lparr>br_start_bit = 0, br_total_bits = 16, br_bytes = 2, br_set_bits = 1, br_bitmap = [1, 0]\<rparr>"

definition small_dinode :: chain_dinode where
  "small_dinode = \<lparr>cd_blkno = 3, cd_valid = True, cd_chain = True, cd_clusters = 16, cd_size = 1056, i_used = 1, i_total = 16,
     cl_cpg = 16, cl_bpc = 1, cl_count = 1, cl_next_free_rec = 1, cl_recs = [\<lparr>c_free = 15, c_total = 16, c_blkno = 4\<rparr>]\<rparr>"

definition small_bitmap :: chain_bitmap where
  "small_bitmap = \<lparr>b_set_bits = 1, b_total_bits = 16, b_description = [], b_regions = Node RB_BLACK small_region Leaf Leaf,
     b_private = \<lparr>cb_cinode = Some small_dinode, cb_errcode = None, cb_dirty = False,
       cb_groups = [0 \<mapsto> \<lparr>cr_ag = small_gd, cr_dirty = False\<rparr>], cb_wild = False\<rparr>\<rparr>"

definition small_chain_fs :: chain_fs where
  "small_chain_fs = \<lparr>fs_blocksize = 66, fs_blocks = 100, fs_rw = True, s_feature_incompat = 0, s_blocksize_bits = 6, s_clustersize_bits = 6, disk = (\<lambda>_. block_of_gd small_gd),
     rfail = (\<lambda>_. None), wfail = (\<lambda>_. None),
     meta = \<lparr>fs_clustersize = 66, fs_clusters = 16, s_first_cluster_group = 4, i_fs_generation = 7,
       inodes = (\<lambda>b. if b = 3 then Inr small_dinode else Inl OCFS2_ET_BAD_BLKNO), iwfail = (\<lambda>_. None)\<rparr>\<rparr>"

lemma small_bits: "buf_bit [1, 0] i \<longleftrightarrow> i = 0" if "i < 16"
proof -
  have "\<forall>i\<in>set [0..<16]. buf_bit [1, 0] i = (i = 0)" by (simp add: upt_rec buf_bit_def)
  then show ?thesis using that by simp
qed

lemma small_region_bits: "region_bits small_region = {0}" "region_range small_region = {0..<16}"
  using small_bits by (auto simp: region_bits_def region_range_def region_end_def small_region_def)

lemma small_region_ok: "region_ok small_region"
proof -
  have "{i. i < 16 \<and> buf_bit [1, 0] i} = {0}" using small_bits by auto
  moreover have "padded [1, 0] 16" unfolding padded_def by (simp add: linorder_not_le [symmetric])
  ultimately show ?thesis by (simp add: region_ok_def small_region_def INT_MAX_def)
qed

lemma small_views: "bm_bits small_bitmap = {0}" "bm_covered small_bitmap = {0..<16}"
  using small_region_bits by (simp_all add: bm_bits_def bits_def bm_covered_def covered_def small_bitmap_def)

lemma small_chain_ok: "chain_ok small_bitmap"
proof -
  have "bitmap_ok small_bitmap" using small_region_ok
    by (simp add: bitmap_ok_def regions_ok_def small_bitmap_def rb_tree_def region_end_def small_region_def)
  moreover have "used_bits small_region = 1" "free_bits small_region = 15" by (simp_all add: used_bits_def free_bits_def small_region_bits) (simp add: small_region_def)
  ultimately show ?thesis
    by (simp add: chain_ok_def chain_acct_def inode_acct_def group_acct_def chain_sum_def chain_of_def small_bitmap_def small_dinode_def small_gd_def)
      (simp add: small_region_def)
qed

text \<open>
  C36: \<open>ocfs2_chain_alloc\<close> finds the first bit that is free in any group, marks it as used and no other, and returns the
  block of the descriptor of its group (0 for the first cluster group), or reports that every bit is used;
  \<open>ocfs2_chain_free\<close> then frees it again.  The free counts of the descriptor and of the chain and the used count of
  the inode follow, and no access leaves the chain records.
\<close>

theorem chain_alloc_then_free:
  assumes "chain_ok bm" and "0 < b_total_bits bm"
  shows "bm_covered bm \<subseteq> bm_bits bm \<and> ocfs2_chain_alloc fs (Chains bm) = Some (Inl OCFS2_ET_BIT_NOT_FOUND, Chains bm) \<or>
    (\<exists>bitno br bm' bm''. ocfs2_chain_alloc fs (Chains bm) = Some (Inr (group_block fs (cb_groups (b_private bm')) br, bitno), Chains bm') \<and>
      br \<in> set (inorder (b_regions bm')) \<and> bitno \<in> region_range br \<and> bitno \<in> bm_covered bm - bm_bits bm \<and>
      (\<forall>m\<in>bm_covered bm - bm_bits bm. bitno \<le> m) \<and> chain_ok bm' \<and> bm_bits bm' = insert bitno (bm_bits bm) \<and>
      ocfs2_chain_free fs (Chains bm') bitno = Some (None, Chains bm'') \<and> chain_ok bm'' \<and> bm_bits bm'' = bm_bits bm)"
  using chain_alloc_cases [OF assms, of fs]
proof (elim disjE exE conjE)
  fix bitno br bm'
  assume a: "ocfs2_chain_alloc fs (Chains bm) = Some (Inr (group_block fs (cb_groups (b_private bm')) br, bitno), Chains bm')"
    "br \<in> set (inorder (b_regions bm'))" "bitno \<in> region_range br" "bitno \<in> bm_covered bm - bm_bits bm"
    "\<forall>m\<in>bm_covered bm - bm_bits bm. bitno \<le> m" and v: "chain_view bm (insert bitno (bm_bits bm)) bm'"
  obtain bm'' where f: "ocfs2_bitmap_clear (chainalloc_bitmap_ops fs) bm' bitno = Some (Inr (bitno \<in> bm_bits bm', bm''))"
    "chain_view bm' (bm_bits bm' - {bitno}) bm''" using chain_set(3) [of bm' bitno fs] v a(4) by (auto simp: chain_view_def)
  have "ocfs2_chain_free fs (Chains bm') bitno = Some (None, Chains bm'')"
    using f chain_ok_tamed [of bm''] v by (simp add: ocfs2_chain_free_def chain_view_def)
  moreover have "bm_bits bm'' = bm_bits bm" "chain_ok bm''" "chain_ok bm'" "bm_bits bm' = insert bitno (bm_bits bm)"
    using f(2) v a(4) by (auto simp: chain_view_def)
  ultimately show ?thesis using a by blast
qed simp

theorem chain_alloc_then_free_witness:
  "\<exists>bm' bm''. (\<exists>gd. ocfs2_chain_alloc small_chain_fs (Chains small_bitmap) = Some (Inr (gd, 1), Chains bm')) \<and> bm_bits bm' = {0, 1} \<and>
    ocfs2_chain_free small_chain_fs (Chains bm') 1 = Some (None, Chains bm'') \<and> bm_bits bm'' = {0}"
proof -
  have "\<not> bm_covered small_bitmap \<subseteq> bm_bits small_bitmap" unfolding small_views by (simp add: subset_iff) presburger
  then obtain bitno br bm' bm'' where
    a: "ocfs2_chain_alloc small_chain_fs (Chains small_bitmap) = Some (Inr (group_block small_chain_fs (cb_groups (b_private bm')) br, bitno), Chains bm')"
    "bitno \<in> {0..<16} - {0}" "\<forall>m\<in>{0..<16} - {0}. bitno \<le> m" "bm_bits bm' = insert bitno {0}"
    "ocfs2_chain_free small_chain_fs (Chains bm') bitno = Some (None, Chains bm'')" "bm_bits bm'' = {0}"
    using chain_alloc_then_free [OF small_chain_ok, of small_chain_fs] unfolding small_views by (auto simp: small_bitmap_def)
  have "bitno = 1" using a(2,3) by (auto dest: bspec [of _ _ 1])
  then show ?thesis using a by auto
qed


section \<open>Sequences of operations\<close>

datatype chain_call = Alloc | Free nat | Alloc_Range nat nat | Free_Range nat nat | Force nat bool

fun do_chain_call :: "chain_fs \<Rightarrow> chain_call \<Rightarrow> cached_inode \<Rightarrow> cached_inode option" where
  "do_chain_call fs Alloc ci = map_option snd (ocfs2_chain_alloc fs ci)"
| "do_chain_call fs (Free n) ci = map_option snd (ocfs2_chain_free fs ci n)"
| "do_chain_call fs (Alloc_Range m n) ci = map_option snd (ocfs2_chain_alloc_range fs ci m n)"
| "do_chain_call fs (Free_Range len n) ci = map_option snd (ocfs2_chain_free_range fs ci len n)"
| "do_chain_call fs (Force n v) ci = map_option snd (ocfs2_chain_force_val fs ci n v)"

fun chain_calls :: "chain_fs \<Rightarrow> chain_call list \<Rightarrow> cached_inode \<Rightarrow> cached_inode option" where
  "chain_calls fs [] ci = Some ci"
| "chain_calls fs (c # cs) ci = do { ci \<leftarrow> do_chain_call fs c ci; chain_calls fs cs ci }"

text \<open>A range that is freed lies in one group; the ranges of the groups do not change.\<close>

fun call_fits :: "(nat \<times> nat) list \<Rightarrow> chain_call \<Rightarrow> bool" where
  "call_fits L (Free_Range len n) \<longleftrightarrow> len = 0 \<or> (\<exists>(s, t)\<in>set L. s \<le> n \<and> n + len \<le> s + t)"
| "call_fits L _ \<longleftrightarrow> True"

abbreviation bm_layout :: "chain_bitmap \<Rightarrow> (nat \<times> nat) list" where
  "bm_layout bm \<equiv> layout (inorder (b_regions bm))"

lemma call_same [simp]: "chain_ok bm \<Longrightarrow> \<exists>B. chain_view bm B bm"
  by (simp add: chain_view_def)

lemma clear_range_invalid:
  "len = 0 \<Longrightarrow> ocfs2_bitmap_clear_range (chainalloc_bitmap_ops fs) bm len n = Some (Inl OCFS2_ET_INVALID_ARGUMENT)"
  by (simp add: ocfs2_bitmap_clear_range_def)

lemma chain_call_ok:
  assumes ok: "chain_ok bm" and fits: "call_fits (bm_layout bm) c"
  shows "\<exists>B bm'. do_chain_call fs c (Chains bm) = Some (Chains bm') \<and> chain_view bm B bm'"
proof (cases c)
  case Alloc
  show ?thesis
  proof (cases "b_total_bits bm = 0")
    case True
    then show ?thesis using Alloc ok by (auto simp: ocfs2_chain_alloc_def ocfs2_bitmap_find_next_clear_def)
  next
    case False
    then show ?thesis using Alloc ok chain_alloc_cases [OF ok, of fs] by fastforce
  qed
next
  case (Free n)
  then show ?thesis using chain_set(3,4) [OF ok, of n fs] ok
    by (cases "n \<in> bm_covered bm") (fastforce simp: ocfs2_chain_free_def chain_ok_tamed chain_view_def)+
next
  case (Force n v)
  then show ?thesis using chain_set [OF ok, of n fs] ok
    by (cases "n \<in> bm_covered bm"; cases v) (fastforce simp: ocfs2_chain_force_val_def chain_ok_tamed chain_view_def)+
next
  case (Alloc_Range m n)
  show ?thesis
  proof (cases "m = 0 \<or> n = 0 \<or> n \<ge> b_total_bits bm \<or> m > n")
    case True
    then show ?thesis using Alloc_Range ok by (auto simp: ocfs2_chain_alloc_range_def ocfs2_bitmap_alloc_range_def)
  next
    case False
    then show ?thesis using Alloc_Range ok chain_alloc_range [OF ok, of m n fs]
      by (fastforce simp: ocfs2_chain_alloc_range_def chain_ok_tamed chain_view_def)
  qed
next
  case (Free_Range len n)
  show ?thesis
  proof (cases "len = 0")
    case True
    then show ?thesis using Free_Range ok by (auto simp: ocfs2_chain_free_range_def clear_range_invalid)
  next
    case False
    then obtain br where br: "br \<in> set (inorder (b_regions bm))" "br_start_bit br \<le> n" "n + len \<le> region_end br"
      using fits Free_Range by (auto simp: layout_def region_end_def)
    then have "{n..<n + len} \<subseteq> region_range br" by (auto simp: region_range_def)
    from chain_clear_range [OF ok br(1) this] False obtain bm' where
      r: "ocfs2_bitmap_clear_range (chainalloc_bitmap_ops fs) bm len n = Some (Inr bm')" "chain_view bm (bm_bits bm - {n..<n + len}) bm'" by blast
    then have "tamed bm' = Some (Chains bm')" by (simp add: chain_ok_tamed chain_view_def)
    then have "do_chain_call fs c (Chains bm) = Some (Chains bm')" using Free_Range r(1) by (simp add: ocfs2_chain_free_range_def)
    then show ?thesis using r(2) by blast
  qed
qed

lemma chain_calls_ok:
  assumes "chain_ok bm" and "\<forall>c\<in>set cs. call_fits (bm_layout bm) c"
  shows "\<exists>B bm'. chain_calls fs cs (Chains bm) = Some (Chains bm') \<and> chain_view bm B bm'"
  using assms
proof (induction cs arbitrary: bm)
  case Nil
  then show ?case by simp
next
  case (Cons c cs)
  obtain B bm1 where s: "do_chain_call fs c (Chains bm) = Some (Chains bm1)" "chain_view bm B bm1" using chain_call_ok [OF Cons.prems(1), of c fs] Cons.prems(2) by auto
  then obtain B2 bm2 where "chain_calls fs cs (Chains bm1) = Some (Chains bm2)" "chain_view bm1 B2 bm2"
    using Cons.IH [of bm1] Cons.prems(2) by (auto simp: chain_view_def)
  then show ?case using s by (intro exI [of _ B2] exI [of _ bm2]) (simp add: chain_view_def)
qed

text \<open>
  C37: under any sequence of allocating and freeing bits and ranges, where a range that is freed lies within a group,
  no operation leaves the bitmap, the descriptors or the chain records, and afterwards
  the free count of every descriptor is the number of clear bits of its group, the free count of every chain the sum of those
  of its groups, and the used count of the inode the number of used bits of all groups.
\<close>

theorem chain_counts_follow_bits:
  assumes "chain_ok bm" and "\<forall>c\<in>set cs. call_fits (bm_layout bm) c"
  shows "\<exists>bm' di groups. chain_calls fs cs (Chains bm) = Some (Chains bm') \<and> bitmap_ok bm' \<and> bm_covered bm' = bm_covered bm \<and>
    cb_cinode (b_private bm') = Some di \<and> groups = cb_groups (b_private bm') \<and>
    (\<forall>br\<in>set (inorder (b_regions bm')). \<exists>cr. groups (br_start_bit br) = Some cr \<and>
       unat (bg_free_bits_count (cr_ag cr)) = br_total_bits br - card (region_bits br)) \<and>
    (\<forall>k<length (cl_recs di). c_free (cl_recs di ! k) =
       of_nat (sum_list (map (\<lambda>br. if chain_of groups br = k then br_total_bits br - card (region_bits br) else 0) (inorder (b_regions bm'))))) \<and>
    i_used di = of_nat (sum_list (map (\<lambda>br. card (region_bits br)) (inorder (b_regions bm'))))"
proof -
  obtain B bm' where s: "chain_calls fs cs (Chains bm) = Some (Chains bm')" "chain_view bm B bm'" using chain_calls_ok [OF assms] by blast
  then obtain di where acct: "bitmap_ok bm'" "cb_cinode (b_private bm') = Some di" "inode_acct (cb_groups (b_private bm')) di (inorder (b_regions bm'))"
    "\<forall>br\<in>set (inorder (b_regions bm')). group_acct (cb_groups (b_private bm')) (length (cl_recs di)) br"
    by (auto simp: chain_view_def chain_ok_def chain_acct_def)
  have "used_bits = (\<lambda>br. card (region_bits br))" "free_bits = (\<lambda>br. br_total_bits br - card (region_bits br))"
    by (simp_all add: fun_eq_iff used_bits_def free_bits_def)
  note uf = this
  have "\<forall>br\<in>set (inorder (b_regions bm')). \<exists>cr. cb_groups (b_private bm') (br_start_bit br) = Some cr \<and>
       unat (bg_free_bits_count (cr_ag cr)) = br_total_bits br - card (region_bits br)"
    using acct(4) unfolding group_acct_def uf by blast
  then show ?thesis using s acct(1-3) unfolding chain_view_def inode_acct_def chain_sum_def uf
    by (intro exI [of _ bm'] exI [of _ di] exI [of _ "cb_groups (b_private bm')"]) simp
qed

theorem chain_counts_follow_bits_witness:
  "\<exists>bm' di. chain_calls small_chain_fs [Alloc, Alloc_Range 2 4, Free 1, Free_Range 2 2, Force 9 True] (Chains small_bitmap) = Some (Chains bm') \<and>
    bm_covered bm' = {0..<16} \<and> cb_cinode (b_private bm') = Some di \<and>
    i_used di = of_nat (sum_list (map (\<lambda>br. card (region_bits br)) (inorder (b_regions bm'))))"
proof -
  have "\<forall>c\<in>set [Alloc, Alloc_Range 2 4, Free 1, Free_Range 2 2, Force 9 True]. call_fits (bm_layout small_bitmap) c"
    by (simp add: layout_def small_bitmap_def small_region_def)
  from chain_counts_follow_bits [OF small_chain_ok this, of small_chain_fs] small_views show ?thesis by blast
qed

end
