(* ===== verification/Chain_Load.thy ===== *)
theory Chain_Load
  imports Chainalloc_Correct "HOL-Library.Multiset"
begin

text \<open>
  Loading a chain allocator: when the chains of an inode on the disk are sound, the bitmap that
  \<open>ocfs2_load_chain_allocator\<close> builds has the bits of all group descriptors, and its accounts are right.
\<close>

section \<open>Inserting a region when regions are never merged\<close>

lemma insert_no_merge:
  assumes ok: "bitmap_ok bm" and br: "region_ok br" "region_end br \<le> b_total_bits bm" and free: "bm_covered bm \<inter> region_range br = {}"
  shows "\<exists>t xs ys. ocfs2_bitmap_insert_region chainalloc_hooks bm br = Some (Inr (bm\<lparr>b_regions := t\<rparr>)) \<and> bitmap_ok (bm\<lparr>b_regions := t\<rparr>) \<and>
    inorder (b_regions bm) = xs @ ys \<and> inorder t = xs @ br # ys"
proof -
  let ?z = "fst (ocfs2_bitmap_lookup bm (br_start_bit br) (br_total_bits br))"
  have lt: "br_start_bit br + br_total_bits br < 2 ^ 64" using br(2) ok by (simp add: bitmap_ok_def region_end_def)
  have "rb_elem ?z = None"
  proof (rule ccontr)
    assume "rb_elem ?z \<noteq> None"
    then obtain x where x: "rb_elem ?z = Some x" by auto
    note f = lookup_found [OF ok lt x]
    have "region_range x \<subseteq> bm_covered bm" using f(2) by (auto simp: bm_covered_def)
    moreover have "max (br_start_bit x) (br_start_bit br) \<in> region_range x \<inter> region_range br"
      using f(2-4) ok br(1) region_start_end by (auto simp: region_range_def region_end_def bitmap_ok_def regions_ok_simps max_def)
    ultimately show False using free by blast
  qed
  then obtain path where path: "?z = (Leaf, path)" by (cases ?z rule: rb_elem.cases) auto
  note lm = lookup_missing [OF ok lt path]
  obtain t where t: "rb_insert_at br path = Some t" "rb_tree t" "inorder t = lefts path @ br # rights path"
    using rb_insert_at_pos [of path br] lm(1) ok by (auto simp: bitmap_ok_def)
  let ?bm = "bm\<lparr>b_regions := t\<rparr>"
  have ok1: "bitmap_ok ?bm" using ok lm t br by (auto simp: bitmap_ok_def regions_ok_simps region_end_def)
  have merge: "ignore_error ?bm (ocfs2_bitmap_merge_region chainalloc_hooks ?bm z) = Some ?bm" if el: "rb_elem z = Some x" and nx: "rb_next z \<noteq> None" for z x
  proof -
    obtain z' where z': "rb_next z = Some z'" using nx by blast
    then obtain y where "rb_elem z' = Some y" using rb_next_pos(2) [OF el] by blast
    then show ?thesis using el z' by (simp add: ignore_error_def ocfs2_bitmap_merge_region_def chainalloc_hooks_def chainalloc_merge_region_def)
  qed
  have next_ok: "merge_with_next chainalloc_hooks ?bm n = Some ?bm" if "n < length (inorder t)" for n
    using merge [of "rb_locate n t []"] rb_locate_pos [OF that refl, of "[]"] by (auto simp: merge_with_next_def Let_def)
  let ?n = "length (lefts path)"
  have loc: "whole (rb_locate ?n t []) = t" "rb_elem (rb_locate ?n t []) = Some br" using rb_locate_root [OF t(3) refl] by simp_all
  have "ocfs2_bitmap_insert_region chainalloc_hooks bm br = Some (Inr ?bm)"
  proof (cases "rb_prev (rb_locate ?n t [])")
    case None
    then show ?thesis using path t(1,3) br(2) next_ok [of ?n] by (simp add: ocfs2_bitmap_insert_region_def region_end_def Let_def)
  next
    case (Some zp)
    from rb_prev_pos(2) [OF loc(2) Some] obtain y where zp: "rb_elem zp = Some y" "after zp \<noteq> []" by auto
    then have "rb_next zp \<noteq> None" using rb_next_pos(1) by metis
    with merge [OF zp(1)] show ?thesis using Some path t(1,3) br(2) next_ok [of "?n - 1"]
      by (simp add: ocfs2_bitmap_insert_region_def region_end_def Let_def)
  qed
  then show ?thesis using ok1 lm(2) t(3) by blast
qed

section \<open>Sound groups\<close>

definition group_at :: "chain_fs \<Rightarrow> nat \<Rightarrow> group_desc" where
  "group_at fs x = gd_of_block (disk fs x)"

definition first_bit :: "chain_fs \<Rightarrow> nat \<Rightarrow> nat \<Rightarrow> nat option" where
  "first_bit fs bpc x = chainalloc_scale_start_bit fs (if x = s_first_cluster_group (meta fs) then 0 else x) bpc"

text \<open>The region of the descriptor at a block.\<close>

definition region_of :: "chain_fs \<Rightarrow> nat \<Rightarrow> nat \<Rightarrow> region" where
  "region_of fs bpc x =
     (let gd = group_at fs x; n = unat (bg_bits gd) in
      \<lparr>br_start_bit = the (first_bit fs bpc x), br_total_bits = n, br_bytes = (n + 7) div 8,
       br_set_bits = int n - int (unat (bg_free_bits_count gd)), br_bitmap = take ((n + 7) div 8) (bg_bitmap gd)\<rparr>)"

definition sound_group :: "chain_fs \<Rightarrow> nat \<Rightarrow> nat \<Rightarrow> nat \<Rightarrow> bool" where
  "sound_group fs bpc k x \<longleftrightarrow> in_fs fs x \<and> rfail fs x = None \<and> checked fs (disk fs x) \<and> 64 \<le> length (disk fs x) \<and>
     take 7 (bg_signature (group_at fs x)) = OCFS2_GROUP_DESC_SIGNATURE \<and> bg_blkno (group_at fs x) = x \<and> unat (bg_chain (group_at fs x)) = k \<and>
     unat (bg_size (group_at fs x)) = ocfs2_group_bitmap_size (fs_blocksize fs) \<and> first_bit fs bpc x \<noteq> None \<and>
     (unat (bg_bits (group_at fs x)) + 7) div 8 \<le> length (bg_bitmap (group_at fs x)) \<and> region_ok (region_of fs bpc x)"

lemma sound_read: "sound_group fs bpc k x \<Longrightarrow> ocfs2_read_group_desc fs x = Some (Inr (group_at fs x))"
  unfolding group_at_def by (rule read_checked) (simp_all add: sound_group_def group_at_def)

lemma process_group_ok:
  assumes g: "sound_group fs bpc k x" and bm: "bitmap_ok bm" "cb_cinode (b_private bm) = Some di" "unat (cl_bpc di) = bpc"
    and fits: "region_end (region_of fs bpc x) \<le> b_total_bits bm" "bm_covered bm \<inter> region_range (region_of fs bpc x) = {}"
  shows "\<exists>bm' xs ys. chainalloc_process_group fs x k bm = Some (0, bm') \<and> bitmap_ok bm' \<and> b_total_bits bm' = b_total_bits bm \<and>
    b_private bm' = (b_private bm)\<lparr>cb_errcode := None,
      cb_groups := (cb_groups (b_private bm))(br_start_bit (region_of fs bpc x) \<mapsto> \<lparr>cr_ag = group_at fs x, cr_dirty = False\<rparr>)\<rparr> \<and>
    inorder (b_regions bm) = xs @ ys \<and> inorder (b_regions bm') = xs @ region_of fs bpc x # ys"
proof -
  let ?gd = "group_at fs x" and ?br = "region_of fs bpc x"
  let ?n = "unat (bg_bits ?gd)"
  have rok: "region_ok ?br" using g by (simp add: sound_group_def)
  obtain s where s: "first_bit fs bpc x = Some s" "br_start_bit ?br = s" using g by (auto simp: sound_group_def region_of_def Let_def)
  obtain t xs ys where ins: "ocfs2_bitmap_insert_region chainalloc_hooks bm ?br = Some (Inr (bm\<lparr>b_regions := t\<rparr>))"
    "bitmap_ok (bm\<lparr>b_regions := t\<rparr>)" "inorder (b_regions bm) = xs @ ys" "inorder t = xs @ ?br # ys"
    using insert_no_merge [OF bm(1) rok fits] by blast
  have small: "\<not> ?n + 7 > INT_MAX" using rok by (simp add: region_ok_def region_of_def Let_def)
  have alloc: "ocfs2_bitmap_alloc_region s (int ?n) = Some (Inr \<lparr>br_start_bit = s, br_total_bits = ?n, br_bytes = (?n + 7) div 8,
      br_set_bits = 0, br_bitmap = replicate ((?n + 7) div 8) 0\<rparr>)"
    using small by (simp add: ocfs2_bitmap_alloc_region_def ocfs2_align_total_def)
  have bytes: "read_bytes (bg_bitmap ?gd) 0 ((?n + 7) div 8) = Some (take ((?n + 7) div 8) (bg_bitmap ?gd))"
    using g by (simp add: sound_group_def read_bytes_def)
  have br: "\<lparr>br_start_bit = s, br_total_bits = ?n, br_bytes = (?n + 7) div 8, br_set_bits = int ?n - int (unat (bg_free_bits_count ?gd)),
      br_bitmap = take ((?n + 7) div 8) (bg_bitmap ?gd)\<rparr> = ?br" using s by (simp add: region_of_def Let_def)
  have "chainalloc_process_group fs x k bm = Some (0, set_private (bm\<lparr>b_regions := t\<rparr>) (\<lambda>cb. cb\<lparr>cb_errcode := None,
      cb_groups := (cb_groups cb)(s \<mapsto> \<lparr>cr_ag = ?gd, cr_dirty = False\<rparr>)\<rparr>))"
    using g bm(2,3) s(1) alloc bytes ins(1) br sound_read [OF g]
    by (simp add: chainalloc_process_group_def Let_def first_bit_def sound_group_def)
  moreover have "bitmap_ok (set_private (bm\<lparr>b_regions := t\<rparr>) f)" for f using ins(2) by (simp add: bitmap_ok_def)
  ultimately show ?thesis using ins(3,4) s(2) by (intro exI) (auto intro!: conjI)
qed

section \<open>Chains\<close>

fun on_chain :: "chain_fs \<Rightarrow> nat \<Rightarrow> nat \<Rightarrow> nat \<Rightarrow> nat list \<Rightarrow> bool" where
  "on_chain fs bpc k b [] \<longleftrightarrow> b = 0"
| "on_chain fs bpc k b (x # xs) \<longleftrightarrow> b = x \<and> x \<noteq> 0 \<and> sound_group fs bpc k x \<and> on_chain fs bpc k (bg_next_group (group_at fs x)) xs"

text \<open>Groups inside of \<open>N\<close> bits that do not overlap.\<close>

definition separate :: "chain_fs \<Rightarrow> nat \<Rightarrow> nat \<Rightarrow> nat list \<Rightarrow> bool" where
  "separate fs bpc N xs \<longleftrightarrow> distinct xs \<and> (\<forall>x\<in>set xs. region_end (region_of fs bpc x) \<le> N) \<and>
     (\<forall>x\<in>set xs. \<forall>y\<in>set xs. x \<noteq> y \<longrightarrow> region_range (region_of fs bpc x) \<inter> region_range (region_of fs bpc y) = {})"

text \<open>The bitmap after the groups of a list of blocks were loaded.\<close>

definition loaded :: "chain_fs \<Rightarrow> chain_dinode \<Rightarrow> nat \<Rightarrow> nat list \<Rightarrow> chain_bitmap \<Rightarrow> bool" where
  "loaded fs di N xs bm \<longleftrightarrow> bitmap_ok bm \<and> b_total_bits bm = N \<and> mset (inorder (b_regions bm)) = mset (map (region_of fs (unat (cl_bpc di))) xs) \<and>
     cb_cinode (b_private bm) = Some di \<and> \<not> cb_wild (b_private bm) \<and>
     (\<forall>x\<in>set xs. cb_groups (b_private bm) (br_start_bit (region_of fs (unat (cl_bpc di)) x)) = Some \<lparr>cr_ag = group_at fs x, cr_dirty = False\<rparr>)"

lemma loaded_set:
  assumes "loaded fs di N xs bm"
  shows "set (inorder (b_regions bm)) = region_of fs (unat (cl_bpc di)) ` set xs"
  using assms mset_eq_setD [of "inorder (b_regions bm)" "map (region_of fs (unat (cl_bpc di))) xs"] by (simp add: loaded_def)

lemma loaded_view:
  assumes "loaded fs di N xs bm"
  shows "bm_covered bm = (\<Union>x\<in>set xs. region_range (region_of fs (unat (cl_bpc di)) x))"
    and "bm_bits bm = (\<Union>x\<in>set xs. region_bits (region_of fs (unat (cl_bpc di)) x))"
  by (simp_all add: bm_covered_def covered_def bm_bits_def bits_def loaded_set [OF assms])

lemma load_group:
  assumes l: "loaded fs di N xs bm" and g: "sound_group fs (unat (cl_bpc di)) k x" and sep: "separate fs (unat (cl_bpc di)) N (xs @ [x])"
  shows "\<exists>bm'. chainalloc_process_group fs x k bm = Some (0, bm') \<and> loaded fs di N (xs @ [x]) bm'"
proof -
  let ?r = "region_of fs (unat (cl_bpc di))"
  have bm: "bitmap_ok bm" "cb_cinode (b_private bm) = Some di" "b_total_bits bm = N" using l by (simp_all add: loaded_def)
  have new: "\<forall>y\<in>set xs. region_range (?r y) \<inter> region_range (?r x) = {}" "region_end (?r x) \<le> b_total_bits bm"
    using sep bm(3) by (auto simp: separate_def)
  then have "bm_covered bm \<inter> region_range (?r x) = {}" using loaded_view(1) [OF l] by auto
  from process_group_ok [OF g bm(1,2) refl new(2) this] obtain bm' us vs where
    p: "chainalloc_process_group fs x k bm = Some (0, bm')" "bitmap_ok bm'" "b_total_bits bm' = b_total_bits bm"
      "b_private bm' = (b_private bm)\<lparr>cb_errcode := None,
         cb_groups := (cb_groups (b_private bm))(br_start_bit (?r x) \<mapsto> \<lparr>cr_ag = group_at fs x, cr_dirty = False\<rparr>)\<rparr>"
      "inorder (b_regions bm) = us @ vs" "inorder (b_regions bm') = us @ ?r x # vs" by blast
  have start: "br_start_bit (?r y) \<noteq> br_start_bit (?r x)" if y: "y \<in> set xs" for y
  proof
    assume eq: "br_start_bit (?r y) = br_start_bit (?r x)"
    have "?r y \<in> set (inorder (b_regions bm))" using loaded_set [OF l] y by simp
    then have "region_ok (?r y)" using bm(1) by (auto simp: bitmap_ok_def regions_ok_def)
    moreover have "region_ok (?r x)" using g by (simp add: sound_group_def)
    ultimately have "br_start_bit (?r x) \<in> region_range (?r y) \<inter> region_range (?r x)"
      using eq by (auto simp: region_range_def region_end_def region_ok_def)
    then show False using new(1) y by auto
  qed
  have "mset (inorder (b_regions bm')) = mset (map ?r (xs @ [x]))" using p(5,6) l by (auto simp: loaded_def)
  then have "loaded fs di N (xs @ [x]) bm'" using p(2-4) l start by (auto simp: loaded_def)
  then show ?thesis using p(1) by blast
qed

lemma separate_prefix: "separate fs bpc N (xs @ ys) \<Longrightarrow> separate fs bpc N xs"
  by (auto simp: separate_def)

lemma chain_gd_ok:
  assumes "on_chain fs (unat (cl_bpc di)) k b ys" and "loaded fs di N xs bm" and "separate fs (unat (cl_bpc di)) N (xs @ ys)"
  shows "\<exists>e bm'. chain_iterate_gd chainalloc_process_group fs k b 0 err bm = Some (0, e, bm') \<and> loaded fs di N (xs @ ys) bm'"
  using assms
proof (induction ys arbitrary: b xs bm err)
  case Nil
  then show ?case by (subst chain_iterate_gd.simps) simp
next
  case (Cons y ys)
  have y: "b = y" "y \<noteq> 0" "sound_group fs (unat (cl_bpc di)) k y" "on_chain fs (unat (cl_bpc di)) k (bg_next_group (group_at fs y)) ys"
    using Cons.prems(1) by simp_all
  have sep: "separate fs (unat (cl_bpc di)) N ((xs @ [y]) @ ys)" using Cons.prems(3) by simp
  obtain bm1 where p: "chainalloc_process_group fs y k bm = Some (0, bm1)" "loaded fs di N (xs @ [y]) bm1"
    using load_group [OF Cons.prems(2) y(3) separate_prefix [OF sep]] by blast
  obtain e bm2 where r: "chain_iterate_gd chainalloc_process_group fs k (bg_next_group (group_at fs y)) 0 None bm1 = Some (0, e, bm2)"
    "loaded fs di N ((xs @ [y]) @ ys) bm2" using Cons.IH [OF y(4) p(2) sep] by blast
  have id: "bg_blkno (group_at fs y) = y" "unat (bg_chain (group_at fs y)) = k" using y(3) by (simp_all add: sound_group_def)
  have "chain_iterate_gd chainalloc_process_group fs k b 0 err bm =
      chain_iterate_gd chainalloc_process_group fs k (bg_next_group (group_at fs y)) 0 None bm1"
    using y(1,2) p(1) sound_read [OF y(3)] id by (subst chain_iterate_gd.simps) simp
  then show ?case using r by simp
qed

text \<open>The chains from the \<open>i\<close>-th on.\<close>

lemma chain_cl_ok:
  assumes "\<forall>j<length cs. on_chain fs (unat (cl_bpc di)) (i + j) (c_blkno (recs ! (i + j))) (cs ! j)" and "i + length cs \<le> length recs"
    and "loaded fs di N xs bm" and "separate fs (unat (cl_bpc di)) N (xs @ concat cs)"
  shows "\<exists>e bm'. chain_iterate_cl chainalloc_process_group fs recs i (length cs) 0 err bm = Some (0, e, bm') \<and> loaded fs di N (xs @ concat cs) bm'"
  using assms
proof (induction cs arbitrary: i xs bm err)
  case (Cons c cs)
  have sep: "separate fs (unat (cl_bpc di)) N ((xs @ c) @ concat cs)" using Cons.prems(4) by simp
  have "on_chain fs (unat (cl_bpc di)) i (c_blkno (recs ! i)) c" using Cons.prems(1) by force
  from chain_gd_ok [OF this Cons.prems(3) separate_prefix [OF sep], of err] obtain e bm1 where
    g: "chain_iterate_gd chainalloc_process_group fs i (c_blkno (recs ! i)) 0 err bm = Some (0, e, bm1)" "loaded fs di N (xs @ c) bm1" by blast
  have tl: "\<forall>j<length cs. on_chain fs (unat (cl_bpc di)) (Suc i + j) (c_blkno (recs ! (Suc i + j))) (cs ! j)" using Cons.prems(1) by force
  obtain e2 bm2 where "chain_iterate_cl chainalloc_process_group fs recs (Suc i) (length cs) 0 e bm1 = Some (0, e2, bm2)"
    "loaded fs di N ((xs @ c) @ concat cs) bm2" using Cons.IH [OF tl _ g(2) sep, of e] Cons.prems(2) by auto
  then show ?case using g(1) Cons.prems(2) by (simp add: Let_def)
qed simp


section \<open>Loading\<close>

text \<open>
  The chains \<open>cs\<close> of an inode are sound: each is linked from its record, its groups are sound, no two groups overlap,
  and the counts of the inode are those of the groups.
\<close>

definition sound_chains :: "chain_fs \<Rightarrow> chain_dinode \<Rightarrow> nat list list \<Rightarrow> bool" where
  "sound_chains fs di cs \<longleftrightarrow>
     (let r = region_of fs (unat (cl_bpc di)); N = fs_clusters (meta fs) * unat (cl_bpc di) in
      N < 2 ^ 64 \<and> length cs = unat (cl_next_free_rec di) \<and> length cs \<le> length (cl_recs di) \<and>
      (\<forall>j<length cs. on_chain fs (unat (cl_bpc di)) j (c_blkno (cl_recs di ! j)) (cs ! j)) \<and> separate fs (unat (cl_bpc di)) N (concat cs) \<and>
      (\<forall>k<length (cl_recs di). c_free (cl_recs di ! k) =
         of_nat (sum_list (map (\<lambda>x. if unat (bg_chain (group_at fs x)) = k then free_bits (r x) else 0) (concat cs)))) \<and>
      i_used di = of_nat (sum_list (map (\<lambda>x. used_bits (r x)) (concat cs))))"

lemma mset_sum: "mset xs = mset (map r ys) \<Longrightarrow> sum_list (map f xs) = sum_list (map (\<lambda>y. f (r y)) ys)" for f :: "'a \<Rightarrow> nat"
  by (metis (no_types, lifting) list.map_comp comp_apply map_eq_conv mset_map sum_mset_sum_list)

lemma on_chain_sound: "on_chain fs bpc k b ys \<Longrightarrow> x \<in> set ys \<Longrightarrow> sound_group fs bpc k x"
  by (induction ys arbitrary: b) auto

lemma group_acct_loaded:
  assumes "sound_group fs bpc k x" and "k < n" and "groups (br_start_bit (region_of fs bpc x)) = Some \<lparr>cr_ag = group_at fs x, cr_dirty = d\<rparr>"
  shows "group_acct groups n (region_of fs bpc x)"
proof -
  let ?r = "region_of fs bpc x"
  have r: "region_ok ?r" "br_total_bits ?r = unat (bg_bits (group_at fs x))"
    "br_set_bits ?r = int (unat (bg_bits (group_at fs x))) - int (unat (bg_free_bits_count (group_at fs x)))"
    using assms(1) by (simp_all add: sound_group_def region_of_def Let_def)
  have "br_set_bits ?r = int (used_bits ?r)" using r(1) by (simp add: region_ok_def used_bits_def card_region_bits)
  then have "int (unat (bg_bits (group_at fs x))) - int (unat (bg_free_bits_count (group_at fs x))) = int (used_bits ?r)" using r(3) by argo
  then have "unat (bg_free_bits_count (group_at fs x)) = free_bits ?r" unfolding free_bits_def r(2) by linarith
  then show ?thesis using assms r(2) by (simp add: group_acct_def sound_group_def)
qed

lemma loaded_acct:
  assumes l: "loaded fs di N (concat cs) bm" and s: "sound_chains fs di cs"
  shows "chain_ok bm"
proof -
  let ?bpc = "unat (cl_bpc di)" and ?groups = "cb_groups (b_private bm)"
  let ?r = "region_of fs ?bpc"
  have groups: "?groups (br_start_bit (?r x)) = Some \<lparr>cr_ag = group_at fs x, cr_dirty = False\<rparr>" if "x \<in> set (concat cs)" for x
    using l that unfolding loaded_def by blast
  have g: "group_acct ?groups (length (cl_recs di)) br" if br: "br \<in> set (inorder (b_regions bm))" for br
  proof -
    obtain x where x: "x \<in> set (concat cs)" "br = ?r x" using br loaded_set [OF l] by auto
    then obtain c where "c \<in> set cs" "x \<in> set c" by auto
    then obtain j where j: "j < length cs" "x \<in> set (cs ! j)" by (metis in_set_conv_nth)
    then have "sound_group fs ?bpc j x" "j < length (cl_recs di)" using s on_chain_sound by (auto simp: sound_chains_def Let_def)
    then show ?thesis using group_acct_loaded [of fs ?bpc j x "length (cl_recs di)" ?groups False] groups [OF x(1)] unfolding x(2) by blast
  qed
  have ms: "mset (inorder (b_regions bm)) = mset (map ?r (concat cs))" using l by (simp add: loaded_def)
  have chain: "chain_of ?groups (?r x) = unat (bg_chain (group_at fs x))" if "x \<in> set (concat cs)" for x
    using groups [OF that] by (simp add: chain_of_def)
  have "chain_sum ?groups k (inorder (b_regions bm)) =
      sum_list (map (\<lambda>x. if unat (bg_chain (group_at fs x)) = k then free_bits (?r x) else 0) (concat cs))" for k
    unfolding chain_sum_def mset_sum [OF ms] by (intro arg_cong [of _ _ sum_list] map_cong refl) (simp add: chain)
  then have "inode_acct ?groups di (inorder (b_regions bm))"
    using s unfolding inode_acct_def mset_sum [OF ms, of used_bits] by (simp add: sound_chains_def Let_def)
  then show ?thesis using l g by (auto simp: chain_ok_def chain_acct_def loaded_def)
qed

text \<open>
  C38: loading a chain allocator whose chains on the disk are sound succeeds, also for chains and groups in any order; the bits
  of the bitmap are those of all the group descriptors, and the free counts are those of the bitmap.
\<close>

theorem load_builds_bitmap:
  assumes "inodes (meta fs) (cd_blkno di) = Inr di" and "cd_valid di" and "cd_chain di" and "sound_chains fs di cs"
  shows "\<exists>bm. ocfs2_load_chain_allocator fs (No_Chains di) = Some (None, Chains bm) \<and> chain_ok bm \<and>
    b_total_bits bm = fs_clusters (meta fs) * unat (cl_bpc di) \<and>
    bm_bits bm = (\<Union>x\<in>set (concat cs). region_bits (region_of fs (unat (cl_bpc di)) x)) \<and>
    bm_covered bm = (\<Union>x\<in>set (concat cs). region_range (region_of fs (unat (cl_bpc di)) x))"
proof -
  define N where "N = fs_clusters (meta fs) * unat (cl_bpc di)"
  have s: "N < 2 ^ 64" "length cs = unat (cl_next_free_rec di)" "length cs \<le> length (cl_recs di)"
    "\<forall>j<length cs. on_chain fs (unat (cl_bpc di)) (0 + j) (c_blkno (cl_recs di ! (0 + j))) (cs ! j)" "separate fs (unat (cl_bpc di)) N ([] @ concat cs)"
    using assms(4) by (simp_all add: sound_chains_def Let_def N_def)
  define bm0 :: chain_bitmap where "bm0 = \<lparr>b_set_bits = 0, b_total_bits = N, b_description = ''Chain allocator inode'', b_regions = Leaf,
    b_private = \<lparr>cb_cinode = Some di, cb_errcode = None, cb_dirty = False, cb_groups = Map.empty, cb_wild = False\<rparr>\<rparr>"
  have "loaded fs di N [] bm0" using s(1) by (simp add: loaded_def bm0_def bitmap_ok_def rb_tree_def)
  from chain_cl_ok [OF s(4) _ this s(5), of None] s(3) obtain e bm where
    it: "chain_iterate_cl chainalloc_process_group fs (cl_recs di) 0 (length cs) 0 None bm0 = Some (0, e, bm)" "loaded fs di N (concat cs) bm" by auto
  have "chainalloc_read_bitmap fs bm0 = Some (Inr bm)"
    using assms(1-3) it(1) s(2) by (simp add: chainalloc_read_bitmap_def ocfs2_chain_iterate_def bm0_def)
  then have "ocfs2_load_chain_allocator fs (No_Chains di) = Some (None, Chains bm)"
    using s(1) by (simp add: ocfs2_load_chain_allocator_def ocfs2_chainalloc_bitmap_new_def ocfs2_bitmap_new_def ocfs2_bitmap_read_def
        ocfs2_chainalloc_set_cinode_def N_def [symmetric]) (simp add: bm0_def)
  then show ?thesis using loaded_acct [OF it(2) assms(4)] loaded_view [OF it(2)] it(2) by (simp add: loaded_def N_def)
qed

lemma small_group: "group_at small_chain_fs 4 = small_gd"
  using gd_of_block_of_gd [of 66 small_gd]
  by (simp add: group_at_def small_chain_fs_def gd_fits_def small_gd_def OCFS2_GROUP_DESC_SIGNATURE_def)

lemma small_first_bit: "first_bit small_chain_fs (Suc 0) 4 = Some 0"
  by (simp add: first_bit_def chainalloc_scale_start_bit_def small_chain_fs_def)

lemma small_region_of: "region_of small_chain_fs (Suc 0) 4 = small_region"
  by (simp add: region_of_def small_group small_first_bit small_region_def) (simp add: small_gd_def)

lemma small_sound_group: "sound_group small_chain_fs (Suc 0) 0 4"
proof -
  have "length (disk small_chain_fs 4) = 66" using length_block_of_gd [of 66 small_gd]
    by (simp add: small_chain_fs_def gd_fits_def small_gd_def OCFS2_GROUP_DESC_SIGNATURE_def)
  moreover have "checked small_chain_fs (disk small_chain_fs 4)"
    by (simp add: checked_def ocfs2_validate_meta_ecc_def small_chain_fs_def ocfs2_meta_ecc_def)
  moreover have "in_fs small_chain_fs 4" "rfail small_chain_fs 4 = None" "fs_blocksize small_chain_fs = 66"
    by (simp_all add: in_fs_def small_chain_fs_def OCFS2_SUPER_BLOCK_BLKNO_def)
  moreover have "region_ok (region_of small_chain_fs (Suc 0) 4)" using small_region_ok by (simp add: small_region_of)
  ultimately show ?thesis
    by (simp add: sound_group_def small_group small_first_bit)
      (simp add: small_gd_def OCFS2_GROUP_DESC_SIGNATURE_def ocfs2_group_bitmap_size_def)
qed

lemma small_sound_chains: "sound_chains small_chain_fs small_dinode [[4]]"
proof -
  have b: "unat (cl_bpc small_dinode) = 1" "fs_clusters (meta small_chain_fs) = 16" by (simp_all add: small_dinode_def small_chain_fs_def)
  have "bg_next_group small_gd = 0" "unat (bg_chain small_gd) = 0" by (simp_all add: small_gd_def)
  moreover have "used_bits small_region = 1" "free_bits small_region = 15" "region_end small_region = 16"
    by (simp_all add: used_bits_def free_bits_def small_region_bits) (simp_all add: small_region_def region_end_def)
  ultimately show ?thesis unfolding sound_chains_def b Let_def
    by (simp add: separate_def small_region_of small_group small_sound_group) (simp add: small_dinode_def small_sound_group)
qed

theorem load_builds_bitmap_witness:
  "\<exists>bm. ocfs2_load_chain_allocator small_chain_fs (No_Chains small_dinode) = Some (None, Chains bm) \<and> chain_ok bm \<and>
    b_total_bits bm = 16 \<and> bm_bits bm = {0} \<and> bm_covered bm = {0..<16}"
proof -
  have "inodes (meta small_chain_fs) (cd_blkno small_dinode) = Inr small_dinode" "cd_valid small_dinode" "cd_chain small_dinode"
    "fs_clusters (meta small_chain_fs) = 16" "unat (cl_bpc small_dinode) = 1"
    by (simp_all add: small_chain_fs_def small_dinode_def)
  from load_builds_bitmap [OF this(1-3) small_sound_chains] this(4,5) show ?thesis by (simp add: small_region_of small_region_bits)
qed

section \<open>Errors\<close>

text \<open>A callback that aborts at the first group.\<close>

lemma read_bitmap_abort:
  assumes "inodes (meta fs) (cd_blkno di) = Inr di" and "cd_valid di" and "cd_chain di" and "cb_cinode (b_private bm) = Some di"
    and "0 < cl_next_free_rec di" and "cl_recs di = rec # recs" and "c_blkno rec \<noteq> 0"
    and "ocfs2_read_group_desc fs (c_blkno rec) = Some (Inl e)"
  shows "chainalloc_read_bitmap fs bm = Some (Inr (set_private bm (\<lambda>cb. cb\<lparr>cb_errcode := Some e\<rparr>)))"
proof -
  have n: "unat (cl_next_free_rec di) = Suc (unat (cl_next_free_rec di) - 1)" using assms(5) by (simp add: word_gt_0_no word_greater_zero_iff unat_gt_0)
  have "chainalloc_process_group fs (c_blkno rec) 0 bm = Some (OCFS2_CHAIN_ABORT, set_private bm (\<lambda>cb. cb\<lparr>cb_errcode := Some e\<rparr>))"
    using assms(8) by (simp add: chainalloc_process_group_def)
  then have "chain_iterate_gd chainalloc_process_group fs 0 (c_blkno rec) 0 None bm =
      Some (OCFS2_CHAIN_ABORT, None, set_private bm (\<lambda>cb. cb\<lparr>cb_errcode := Some e\<rparr>))"
    using assms(7) by (subst chain_iterate_gd.simps) (simp add: OCFS2_CHAIN_ABORT_def)
  then have "chain_iterate_cl chainalloc_process_group fs (cl_recs di) 0 (unat (cl_next_free_rec di)) 0 None bm =
      Some (OCFS2_CHAIN_ABORT, None, set_private bm (\<lambda>cb. cb\<lparr>cb_errcode := Some e\<rparr>))"
    using assms(6) by (subst n) (simp add: Let_def OCFS2_CHAIN_ABORT_def OCFS2_CHAIN_ERROR_def)
  then show ?thesis using assms(1-4)
    by (simp add: chainalloc_read_bitmap_def ocfs2_chain_iterate_def OCFS2_CHAIN_ABORT_def OCFS2_CHAIN_ERROR_def)
qed

text \<open>
  C39: loading a chain allocator whose first group descriptor cannot be read, whatever the error, reports success: the
  error stays in \<open>cb_errcode\<close>, the bitmap has no region, and the next \<open>ocfs2_chain_alloc\<close> reports
  that there is no free bit.
\<close>

theorem load_hides_bad_group:
  assumes "inodes (meta fs) (cd_blkno di) = Inr di" and "cd_valid di" and "cd_chain di" and "0 < cl_next_free_rec di"
    and "cl_recs di = rec # recs" and "c_blkno rec \<noteq> 0" and "ocfs2_read_group_desc fs (c_blkno rec) = Some (Inl e)"
    and "0 < fs_clusters (meta fs)" and "0 < cl_bpc di" and "fs_clusters (meta fs) * unat (cl_bpc di) < 2 ^ 64"
  shows "\<exists>bm. ocfs2_load_chain_allocator fs (No_Chains di) = Some (None, Chains bm) \<and> b_regions bm = Leaf \<and>
    cb_errcode (b_private bm) = Some e \<and> ocfs2_chain_alloc fs (Chains bm) = Some (Inl OCFS2_ET_BIT_NOT_FOUND, Chains bm)"
proof -
  let ?N = "fs_clusters (meta fs) * unat (cl_bpc di)"
  have N: "0 < ?N" "?N < 2 ^ 64" using assms(8-10) by (simp_all add: unat_gt_0 word_greater_zero_iff)
  define bm :: chain_bitmap where "bm = \<lparr>b_set_bits = 0, b_total_bits = ?N, b_description = ''Chain allocator inode'', b_regions = Leaf,
    b_private = \<lparr>cb_cinode = Some di, cb_errcode = Some e, cb_dirty = False, cb_groups = Map.empty, cb_wild = False\<rparr>\<rparr>"
  have "ocfs2_load_chain_allocator fs (No_Chains di) = Some (None, Chains bm)"
    using N(2) by (simp add: ocfs2_load_chain_allocator_def ocfs2_chainalloc_bitmap_new_def ocfs2_bitmap_new_def ocfs2_bitmap_read_def
        ocfs2_chainalloc_set_cinode_def read_bitmap_abort [OF assms(1-3) _ assms(4-7)] bm_def)
  moreover have "ocfs2_bitmap_find_next_clear (chainalloc_bitmap_ops fs) bm 0 = Some (Inl OCFS2_ET_BIT_NOT_FOUND)" using N(1)
    by (simp add: ocfs2_bitmap_find_next_clear_def ocfs2_bitmap_find_next_clear_generic_def start_node_def search_from_def ocfs2_bitmap_lookup_def bm_def)
  then have "ocfs2_chain_alloc fs (Chains bm) = Some (Inl OCFS2_ET_BIT_NOT_FOUND, Chains bm)" by (simp add: ocfs2_chain_alloc_def)
  ultimately show ?thesis by (intro exI [of _ bm]) (simp add: bm_def)
qed

theorem load_hides_bad_group_witness:
  "\<exists>bm. ocfs2_load_chain_allocator (small_chain_fs\<lparr>rfail := \<lambda>_. Some OCFS2_ET_IO\<rparr>) (No_Chains small_dinode) = Some (None, Chains bm) \<and>
    b_regions bm = Leaf \<and> cb_errcode (b_private bm) = Some OCFS2_ET_IO"
proof -
  let ?fs = "small_chain_fs\<lparr>rfail := \<lambda>_. Some OCFS2_ET_IO\<rparr>"
  have "inodes (meta ?fs) (cd_blkno small_dinode) = Inr small_dinode" "cd_valid small_dinode" "cd_chain small_dinode"
    "0 < cl_next_free_rec small_dinode" "cl_recs small_dinode = \<lparr>c_free = 15, c_total = 16, c_blkno = 4\<rparr> # []"
    "c_blkno \<lparr>c_free = 15, c_total = 16, c_blkno = 4\<rparr> \<noteq> 0"
    "ocfs2_read_group_desc ?fs (c_blkno \<lparr>c_free = 15, c_total = 16, c_blkno = 4\<rparr>) = Some (Inl OCFS2_ET_IO)"
    "0 < fs_clusters (meta ?fs)" "0 < cl_bpc small_dinode" "fs_clusters (meta ?fs) * unat (cl_bpc small_dinode) < 2 ^ 64"
    by (simp_all add: small_chain_fs_def small_dinode_def ocfs2_read_group_desc_def OCFS2_SUPER_BLOCK_BLKNO_def)
  from load_hides_bad_group [OF this] show ?thesis by blast
qed

text \<open>
  A load that fails leaves a pointer to the freed bitmap behind: loading again frees it a second time.
\<close>

lemma failed_load_dangles:
  assumes "inodes (meta fs) (cd_blkno di) = Inl e"
  shows "ocfs2_load_chain_allocator fs (No_Chains di) = Some (Some e, Dangling di)" and "ocfs2_load_chain_allocator fs (Dangling di) = None"
  using assms by (simp_all add: ocfs2_load_chain_allocator_def ocfs2_chainalloc_bitmap_new_def ocfs2_bitmap_new_def ocfs2_bitmap_read_def
      ocfs2_chainalloc_set_cinode_def chainalloc_read_bitmap_def ocfs2_chain_iterate_def)

text \<open>
  When the descriptor of a new group cannot be written, the counts of the group, which were not added to the inode yet, are
  subtracted from it, and the inode is written.
\<close>

lemma failed_add_group_subtracts:
  assumes "cb_cinode (b_private bm) = Some di" and "new_clusters lib fs (cl_cpg di) (cl_cpg di) = (Inr (blkno, ucast (cl_cpg di)), fs1)"
    and "unat (cl_cpg di) * unat (cl_bpc di) \<le> INT_MAX" and "cl_next_free_rec di < cl_count di" and "unat (cl_next_free_rec di) < length (cl_recs di)"
    and "ocfs2_init_group_desc fs1 blkno (i_fs_generation (meta fs1)) (cd_blkno di) (cl_cpg di * cl_bpc di) (cl_next_free_rec di) = Some gd"
    and "ocfs2_write_group_desc fs1 blkno (gd\<lparr>bg_next_group := c_blkno (cl_recs di ! unat (cl_next_free_rec di))\<rparr>) = Some (Some e, fs2)"
  shows "\<exists>fs3 bm' di'. ocfs2_chain_add_group lib fs (Chains bm) = Some (Some e, fs3, Chains bm') \<and> cb_cinode (b_private bm') = Some di' \<and>
    i_total di' = i_total di - ucast (bg_bits gd) \<and> cd_clusters di' = cd_clusters di - ucast (cl_cpg di)"
  using assms by (simp add: ocfs2_chain_add_group_def add_group_fails_def take_from_inode_def ocfs2_chainalloc_set_cinode_def Let_def)

end
