(* ===== verification/Extent.thy ===== *)
theory Extent
  imports Chain
begin

text \<open>
  Extent lists and extent blocks, and finding the clusters of a file: the reading and writing of extent blocks from
  \<open>libocfs2/extents.c\<close>, the search for a leaf from \<open>libocfs2/extend_file.c\<close>, and \<open>libocfs2/extent_map.c\<close>.

  An extent list is a record with the array of its records; an access beyond the end of the array, which is where the block
  ends, is \<open>None\<close>.  A path from the root to a leaf (\<open>struct ocfs2_path\<close>) has the extent blocks below the root; the
  array has \<open>OCFS2_MAX_PATH_DEPTH\<close> items, and storing one beyond that is \<open>None\<close>.  A failed assertion is \<open>None\<close>, too.
\<close>

section \<open>Extent records, lists and blocks\<close>

text \<open>The union in a record is the 32-bit number \<open>e_int_clusters\<close>; the fields of a leaf are parts of it.\<close>

record extent_rec =
  e_cpos :: u32
  e_int_clusters :: u32
  e_blkno :: nat

definition e_leaf_clusters :: "extent_rec \<Rightarrow> u16" where
  "e_leaf_clusters rec = ucast (e_int_clusters rec)"

definition e_flags :: "extent_rec \<Rightarrow> byte" where
  "e_flags rec = ucast (drop_bit 24 (e_int_clusters rec))"

definition zero_rec :: extent_rec where
  "zero_rec = \<lparr>e_cpos = 0, e_int_clusters = 0, e_blkno = 0\<rparr>"

record extent_list =
  l_tree_depth :: u16
  l_count :: u16
  l_next_free_rec :: u16
  l_reserved1 :: u16
  l_reserved2 :: nat
  l_recs :: "extent_rec list"

record extent_block =
  h_signature :: "byte list"
  h_check :: "byte list"
  h_suballoc_slot :: u16
  h_suballoc_bit :: u16
  h_fs_generation :: u32
  h_blkno :: nat
  h_reserved3 :: nat
  h_next_leaf_blk :: nat
  h_list :: extent_list

text \<open>The fields of an inode that these functions use.\<close>

record ext_dinode = dinode +
  i_flags :: u32
  i_last_eb_blk :: nat
  i_list :: extent_list

definition OCFS2_EXTENT_BLOCK_SIGNATURE :: "byte list" where
  "OCFS2_EXTENT_BLOCK_SIGNATURE = [0x45, 0x58, 0x42, 0x4C, 0x4B, 0x30, 0x31]"  \<comment> \<open>EXBLK01\<close>

definition rec_of_bytes :: "byte list \<Rightarrow> extent_rec" where
  "rec_of_bytes b = \<lparr>e_cpos = of_nat (le_val (slice b 0 4)), e_int_clusters = of_nat (le_val (slice b 4 4)), e_blkno = le_val (slice b 8 8)\<rparr>"

fun recs_of_bytes :: "byte list \<Rightarrow> extent_rec list" where
  "recs_of_bytes b = (if length b < 16 then [] else rec_of_bytes (take 16 b) # recs_of_bytes (drop 16 b))"

declare recs_of_bytes.simps [simp del]

definition bytes_of_rec :: "extent_rec \<Rightarrow> byte list" where
  "bytes_of_rec rec = le_bytes 4 (unat (e_cpos rec)) @ le_bytes 4 (unat (e_int_clusters rec)) @ le_bytes 8 (e_blkno rec)"

definition eb_of_block :: "byte list \<Rightarrow> extent_block" where
  "eb_of_block b =
     \<lparr>h_signature = slice b 0 8, h_check = slice b 8 8, h_suballoc_slot = of_nat (le_val (slice b 16 2)),
      h_suballoc_bit = of_nat (le_val (slice b 18 2)), h_fs_generation = of_nat (le_val (slice b 20 4)),
      h_blkno = le_val (slice b 24 8), h_reserved3 = le_val (slice b 32 8), h_next_leaf_blk = le_val (slice b 40 8),
      h_list = \<lparr>l_tree_depth = of_nat (le_val (slice b 48 2)), l_count = of_nat (le_val (slice b 50 2)),
                l_next_free_rec = of_nat (le_val (slice b 52 2)), l_reserved1 = of_nat (le_val (slice b 54 2)),
                l_reserved2 = le_val (slice b 56 8), l_recs = recs_of_bytes (drop 64 b)\<rparr>\<rparr>"

definition block_of_eb :: "extent_block \<Rightarrow> byte list" where
  "block_of_eb eb =
     h_signature eb @ h_check eb @ le_bytes 2 (unat (h_suballoc_slot eb)) @ le_bytes 2 (unat (h_suballoc_bit eb)) @
     le_bytes 4 (unat (h_fs_generation eb)) @ le_bytes 8 (h_blkno eb) @ le_bytes 8 (h_reserved3 eb) @ le_bytes 8 (h_next_leaf_blk eb) @
     le_bytes 2 (unat (l_tree_depth (h_list eb))) @ le_bytes 2 (unat (l_count (h_list eb))) @
     le_bytes 2 (unat (l_next_free_rec (h_list eb))) @ le_bytes 2 (unat (l_reserved1 (h_list eb))) @
     le_bytes 8 (l_reserved2 (h_list eb)) @ concat (map bytes_of_rec (l_recs (h_list eb)))"

definition ocfs2_rec_clusters :: "u16 \<Rightarrow> extent_rec \<Rightarrow> u32" where
  "ocfs2_rec_clusters tree_depth rec = (if tree_depth \<noteq> 0 then e_int_clusters rec else ucast (e_leaf_clusters rec))"

definition ocfs2_is_empty_extent :: "extent_rec \<Rightarrow> bool" where
  "ocfs2_is_empty_extent rec \<longleftrightarrow> e_leaf_clusters rec = 0"

definition ocfs2_clusters_to_blocks :: "'m filesys \<Rightarrow> u32 \<Rightarrow> nat" where
  "ocfs2_clusters_to_blocks fs clusters = unat clusters * 2 ^ (s_clustersize_bits fs - s_blocksize_bits fs) mod 2 ^ 64"

definition ocfs2_blocks_to_clusters :: "'m filesys \<Rightarrow> nat \<Rightarrow> u32" where
  "ocfs2_blocks_to_clusters fs blocks =
     (let ret = blocks div 2 ^ (s_clustersize_bits fs - s_blocksize_bits fs) in if ret > 2 ^ 32 - 1 then of_nat (2 ^ 32 - 1) else of_nat ret)"

definition ocfs2_block_out_of_range :: "'m filesys \<Rightarrow> nat \<Rightarrow> bool" where
  "ocfs2_block_out_of_range fs blkno \<longleftrightarrow> blkno < OCFS2_SUPER_BLOCK_BLKNO \<or> blkno > fs_blocks fs"

definition ocfs2_read_extent_block_nocheck :: "'m filesys \<Rightarrow> nat \<Rightarrow> extent_block result option" where
  "ocfs2_read_extent_block_nocheck fs blkno =
     (if ocfs2_block_out_of_range fs blkno then Some (Inl OCFS2_ET_BAD_BLKNO)
      else case rfail fs blkno of
        Some e \<Rightarrow> Some (Inl e)
      | None \<Rightarrow>
          do { (err, blk) \<leftarrow> ocfs2_validate_meta_ecc (s_feature_incompat fs) 0 (disk fs blkno) 8;
               case err of Inl e \<Rightarrow> Some (Inl e)
               | Inr _ \<Rightarrow>
                   do { sig \<leftarrow> read_bytes blk 0 (length OCFS2_EXTENT_BLOCK_SIGNATURE);
                        if sig \<noteq> OCFS2_EXTENT_BLOCK_SIGNATURE then Some (Inl OCFS2_ET_BAD_EXTENT_BLOCK_MAGIC)
                        else Some (Inr (eb_of_block blk)) } })"

definition ocfs2_read_extent_block :: "'m filesys \<Rightarrow> nat \<Rightarrow> extent_block result option" where
  "ocfs2_read_extent_block fs blkno =
     do { r \<leftarrow> ocfs2_read_extent_block_nocheck fs blkno;
          Some (case r of Inl e \<Rightarrow> Inl e
                | Inr eb \<Rightarrow> if l_next_free_rec (h_list eb) > l_count (h_list eb) then Inl OCFS2_ET_CORRUPT_EXTENT_BLOCK else Inr eb) }"

definition ocfs2_write_extent_block :: "'m filesys \<Rightarrow> nat \<Rightarrow> extent_block \<Rightarrow> (errcode option \<times> 'm filesys) option" where
  "ocfs2_write_extent_block fs blkno eb =
     (if \<not> fs_rw fs then Some (Some OCFS2_ET_RO_FILESYS, fs)
      else if ocfs2_block_out_of_range fs blkno then Some (Some OCFS2_ET_BAD_BLKNO, fs)
      else do { blk \<leftarrow> ocfs2_compute_meta_ecc (s_feature_incompat fs) 0 (block_of_eb eb) 8;
                Some (case wfail fs blkno of Some e \<Rightarrow> (Some e, fs)
                      | None \<Rightarrow> (None, fs\<lparr>disk := (disk fs)(blkno := blk)\<rparr>)) })"

section \<open>Searching a list\<close>

text \<open>
  A loop over the records from the \<open>i\<close>-th on, \<open>n\<close> of them, that ends at the first one with a property: its index, or
  the index after the last.
\<close>

fun scan_recs :: "(extent_rec \<Rightarrow> bool) \<Rightarrow> extent_rec list \<Rightarrow> nat \<Rightarrow> nat \<Rightarrow> nat option" where
  "scan_recs P recs i 0 = Some i"
| "scan_recs P recs i (Suc n) = (if i < length recs then if P (recs ! i) then Some i else scan_recs P recs (Suc i) n else None)"

definition rec_at :: "extent_list \<Rightarrow> nat \<Rightarrow> extent_rec option" where
  "rec_at el i = (if i < length (l_recs el) then Some (l_recs el ! i) else None)"

definition rec_holds :: "u16 \<Rightarrow> u32 \<Rightarrow> extent_rec \<Rightarrow> bool" where
  "rec_holds depth v_cluster rec \<longleftrightarrow> v_cluster \<ge> e_cpos rec \<and> v_cluster < e_cpos rec + ocfs2_rec_clusters depth rec"

text \<open>The index of the record with a cluster, or \<open>None\<close> for the result -1.\<close>

definition ocfs2_search_extent_list :: "extent_list \<Rightarrow> u32 \<Rightarrow> nat option option" where
  "ocfs2_search_extent_list el v_cluster =
     do { i \<leftarrow> scan_recs (rec_holds (l_tree_depth el) v_cluster) (l_recs el) 0 (unat (l_next_free_rec el));
          Some (if i < unat (l_next_free_rec el) then Some i else None) }"

definition ocfs2_search_for_hole_index :: "extent_list \<Rightarrow> u32 \<Rightarrow> nat option" where
  "ocfs2_search_for_hole_index el v_cluster = scan_recs (\<lambda>rec. v_cluster < e_cpos rec) (l_recs el) 0 (unat (l_next_free_rec el))"

section \<open>Paths\<close>

definition OCFS2_MAX_PATH_DEPTH :: nat where "OCFS2_MAX_PATH_DEPTH = 5"

text \<open>The items of a path below the root; the block number of an item is the one its block has.\<close>

record ocfs2_path =
  p_tree_depth :: nat
  p_root_el :: extent_list
  p_ebs :: "nat \<rightharpoonup> extent_block"

definition ocfs2_new_inode_path :: "ext_dinode \<Rightarrow> ocfs2_path option" where
  "ocfs2_new_inode_path di =
     (if unat (l_tree_depth (i_list di)) < OCFS2_MAX_PATH_DEPTH
      then Some \<lparr>p_tree_depth = unat (l_tree_depth (i_list di)), p_root_el = i_list di, p_ebs = Map.empty\<rparr> else None)"

definition ocfs2_path_insert_eb :: "ocfs2_path \<Rightarrow> nat \<Rightarrow> extent_block \<Rightarrow> ocfs2_path option" where
  "ocfs2_path_insert_eb path index eb =
     (if index = 0 \<or> index \<ge> OCFS2_MAX_PATH_DEPTH then None else Some (path\<lparr>p_ebs := (p_ebs path)(index \<mapsto> eb)\<rparr>))"

text \<open>
  The loop of \<open>__ocfs2_find_path\<close> with the callback \<open>find_path_ins\<close>, which stores each block in the path.  No block's own
  depth is compared with the depth it should have, so the loop ends only because the path does.
\<close>

function find_path_loop :: "'m filesys \<Rightarrow> extent_list \<Rightarrow> u32 \<Rightarrow> nat \<Rightarrow> ocfs2_path \<Rightarrow> (errcode option \<times> ocfs2_path) option" where
  "find_path_loop fs el cpos index path =
     (if l_tree_depth el = 0 then Some (None, path)
      else if l_next_free_rec el = 0 then Some (Some OCFS2_ET_CORRUPT_EXTENT_BLOCK, path)
      else do { i \<leftarrow> scan_recs (rec_holds (l_tree_depth el) cpos) (l_recs el) 0 (unat (l_next_free_rec el) - 1);
                rec \<leftarrow> rec_at el i;
                if e_blkno rec = 0 then Some (Some OCFS2_ET_CORRUPT_EXTENT_BLOCK, path)
                else do { r \<leftarrow> ocfs2_read_extent_block fs (e_blkno rec);
                          case r of
                            Inl e \<Rightarrow> Some (Some e, path)
                          | Inr eb \<Rightarrow>
                              if l_next_free_rec (h_list eb) > l_count (h_list eb) then Some (Some OCFS2_ET_CORRUPT_EXTENT_BLOCK, path)
                              else (case ocfs2_path_insert_eb path index eb of
                                      None \<Rightarrow> None
                                    | Some path \<Rightarrow> find_path_loop fs (h_list eb) cpos (Suc index) path) } })"
  by pat_completeness auto
termination
  by (relation "measure (\<lambda>(fs, el, cpos, index, path). OCFS2_MAX_PATH_DEPTH - index)")
    (auto simp: ocfs2_path_insert_eb_def split: if_splits)

declare find_path_loop.simps [simp del]

definition ocfs2_find_path :: "'m filesys \<Rightarrow> ocfs2_path \<Rightarrow> u32 \<Rightarrow> (errcode option \<times> ocfs2_path) option" where
  "ocfs2_find_path fs path cpos = find_path_loop fs (p_root_el path) cpos 1 path"

text \<open>The block of the leaf: the item of the path at the depth of the tree, copied without a test that it is there.\<close>

definition ocfs2_find_leaf :: "'m filesys \<Rightarrow> ext_dinode \<Rightarrow> u32 \<Rightarrow> extent_block result option" where
  "ocfs2_find_leaf fs di cpos =
     (if l_tree_depth (i_list di) = 0 then None
      else do { path \<leftarrow> ocfs2_new_inode_path di;
                (ret, path) \<leftarrow> ocfs2_find_path fs path cpos;
                case ret of Some e \<Rightarrow> Some (Inl e)
                | None \<Rightarrow> do { eb \<leftarrow> p_ebs path (p_tree_depth path); Some (Inr eb) } })"

section \<open>The extent map\<close>

definition ocfs2_figure_hole_clusters :: "'m filesys \<Rightarrow> extent_list \<Rightarrow> extent_block option \<Rightarrow> u32 \<Rightarrow> u32 result option" where
  "ocfs2_figure_hole_clusters fs el eb_buf v_cluster =
     do { let answer = (\<lambda>el i. if i = unat (l_next_free_rec el) then Some (Inr (- 1 - v_cluster))
                               else do { rec \<leftarrow> rec_at el i; Some (Inr (e_cpos rec - v_cluster)) });
          i \<leftarrow> ocfs2_search_for_hole_index el v_cluster;
          case eb_buf of
            None \<Rightarrow> answer el i
          | Some eb \<Rightarrow>
              if i \<noteq> unat (l_next_free_rec el) \<or> h_next_leaf_blk eb = 0 then answer el i
              else do { r \<leftarrow> ocfs2_read_extent_block fs (h_next_leaf_blk eb);
                        case r of
                          Inl e \<Rightarrow> Some (Inl e)
                        | Inr next_eb \<Rightarrow>
                            do { let el = h_list next_eb;
                                 i \<leftarrow> ocfs2_search_for_hole_index el v_cluster;
                                 bad \<leftarrow> (if i > 1 then Some True
                                         else if i > 0 then do { rec \<leftarrow> rec_at el 0; Some (ocfs2_rec_clusters (l_tree_depth el) rec \<noteq> 0) }
                                         else Some False);
                                 if bad then Some (Inl OCFS2_ET_CORRUPT_EXTENT_BLOCK) else answer el i } } }"

text \<open>The physical cluster (0 for a hole), the length of the rest of the extent or hole if it is wanted, and the flags.\<close>

definition ocfs2_get_clusters :: "'m filesys \<Rightarrow> ext_dinode \<Rightarrow> u32 \<Rightarrow> bool \<Rightarrow> (u32 \<times> u32 option \<times> byte) result option" where
  "ocfs2_get_clusters fs di v_cluster want_num =
     do { leaf \<leftarrow> (if l_tree_depth (i_list di) \<noteq> 0
                   then do { r \<leftarrow> ocfs2_find_leaf fs di v_cluster;
                             Some (case r of Inl e \<Rightarrow> Inl e
                                   | Inr eb \<Rightarrow> if l_tree_depth (h_list eb) \<noteq> 0 then Inl OCFS2_ET_CORRUPT_EXTENT_BLOCK else Inr (h_list eb, Some eb)) }
                   else Some (Inr (i_list di, None)));
          case leaf of
            Inl e \<Rightarrow> Some (Inl e)
          | Inr (el, eb_buf) \<Rightarrow>
              do { found \<leftarrow> ocfs2_search_extent_list el v_cluster;
                   case found of
                     None \<Rightarrow>
                       if want_num then
                         do { r \<leftarrow> ocfs2_figure_hole_clusters fs el eb_buf v_cluster;
                              Some (case r of Inl e \<Rightarrow> Inl e | Inr n \<Rightarrow> Inr (0, Some n, 0)) }
                       else Some (Inr (0, None, 0))
                   | Some i \<Rightarrow>
                       do { rec \<leftarrow> rec_at el i;
                            if e_blkno rec = 0 then Some (Inl OCFS2_ET_BAD_BLKNO)
                            else (let coff = v_cluster - e_cpos rec in
                                  Some (Inr (ocfs2_blocks_to_clusters fs (e_blkno rec) + coff,
                                             if want_num then Some (ocfs2_rec_clusters (l_tree_depth el) rec - coff) else None,
                                             e_flags rec))) } } }"

definition ocfs2_extent_map_get_blocks :: "'m filesys \<Rightarrow> ext_dinode \<Rightarrow> nat \<Rightarrow> (nat \<times> nat \<times> byte) result option" where
  "ocfs2_extent_map_get_blocks fs di v_blkno =
     do { let bpc = ocfs2_clusters_to_blocks fs 1;
          r \<leftarrow> ocfs2_get_clusters fs di (ocfs2_blocks_to_clusters fs v_blkno) True;
          case r of
            Inl e \<Rightarrow> Some (Inl e)
          | Inr (p_cluster, num_clusters, flags) \<Rightarrow>
              do { num \<leftarrow> num_clusters;
                   let boff = (if p_cluster \<noteq> 0 then add64 (ocfs2_clusters_to_blocks fs p_cluster) (v_blkno AND (bpc - 1)) else 0);
                   Some (Inr (boff, sub64 (ocfs2_clusters_to_blocks fs num) (v_blkno AND (bpc - 1)), flags)) } }"

definition ocfs2_get_last_cluster_offset :: "'m filesys \<Rightarrow> ext_dinode \<Rightarrow> u32 result option" where
  "ocfs2_get_last_cluster_offset fs di =
     (let last = (\<lambda>el. do { er \<leftarrow> rec_at el (unat (l_next_free_rec el) - 1); Some (Inr (e_cpos er + ucast (e_leaf_clusters er) - 1)) }) in
      if l_next_free_rec (i_list di) = 0 then Some (Inr 0)
      else if l_tree_depth (i_list di) \<noteq> 0 then
        do { r \<leftarrow> ocfs2_read_extent_block fs (i_last_eb_blk di);
             case r of
               Inl e \<Rightarrow> Some (Inl e)
             | Inr eb \<Rightarrow>
                 do { let el = h_list eb;
                      bad \<leftarrow> (if l_next_free_rec el = 0 then Some True
                              else if l_next_free_rec el = 1 then do { rec \<leftarrow> rec_at el 0; Some (ocfs2_is_empty_extent rec) }
                              else Some False);
                      if bad then Some (Inl OCFS2_ET_CORRUPT_EXTENT_BLOCK) else last el } }
      else last (i_list di))"

section \<open>An extent block on the disk\<close>

definition rec_fits :: "extent_rec \<Rightarrow> bool" where
  "rec_fits rec \<longleftrightarrow> e_blkno rec < 2 ^ 64"

definition eb_fits :: "nat \<Rightarrow> extent_block \<Rightarrow> bool" where
  "eb_fits bs eb \<longleftrightarrow> length (h_signature eb) = 8 \<and> length (h_check eb) = 8 \<and> h_blkno eb < 2 ^ 64 \<and> h_reserved3 eb < 2 ^ 64 \<and>
     h_next_leaf_blk eb < 2 ^ 64 \<and> l_reserved2 (h_list eb) < 2 ^ 64 \<and> list_all rec_fits (l_recs (h_list eb)) \<and> 64 + 16 * length (l_recs (h_list eb)) = bs"

lemma length_bytes_of_rec [simp]: "length (bytes_of_rec rec) = 16"
  by (simp add: bytes_of_rec_def)

lemma rec_of_bytes_of_rec: "rec_fits rec \<Longrightarrow> rec_of_bytes (bytes_of_rec rec) = rec"
  by (cases rec) (simp add: rec_of_bytes_def bytes_of_rec_def slice_def rec_fits_def u32_field u64_field)

lemma recs_of_bytes_of_recs: "list_all rec_fits recs \<Longrightarrow> recs_of_bytes (concat (map bytes_of_rec recs)) = recs"
  by (induction recs) (simp_all add: recs_of_bytes.simps [of "[]"] recs_of_bytes.simps [of "bytes_of_rec _ @ _"] rec_of_bytes_of_rec)

lemma length_recs_bytes: "length (concat (map bytes_of_rec recs)) = 16 * length recs"
  by (induction recs) simp_all

lemma length_block_of_eb: "eb_fits bs eb \<Longrightarrow> length (block_of_eb eb) = bs"
  by (simp add: eb_fits_def block_of_eb_def length_recs_bytes del: length_concat)

lemma eb_of_block_of_eb: "eb_fits bs eb \<Longrightarrow> eb_of_block (block_of_eb eb) = eb"
  by (cases eb, cases "h_list eb")
    (simp add: eb_of_block_def block_of_eb_def eb_fits_def slice_def u16_field u32_field u64_field recs_of_bytes_of_recs)

lemma eb_outside_check:
  assumes "length b' = length b" and "\<And>i. i < length b \<Longrightarrow> i < 8 \<or> 16 \<le> i \<Longrightarrow> b' ! i = b ! i" and "64 \<le> length b"
  shows "eb_of_block b' = (eb_of_block b)\<lparr>h_check := slice b' 8 8\<rparr>"
proof -
  have "slice b' k n = slice b k n" if "k + n \<le> 8 \<or> 16 \<le> k" "k + n \<le> 64" for k n
    using assms that by (intro nth_equalityI) (auto simp: slice_def)
  moreover have "drop 64 b' = drop 64 b" using assms(1) by (intro nth_equalityI) (auto intro: assms(2))
  ultimately show ?thesis by (simp add: eb_of_block_def)
qed

definition eb_checked :: "'m filesys \<Rightarrow> byte list \<Rightarrow> bool" where
  "eb_checked fs b \<longleftrightarrow> ocfs2_validate_meta_ecc (s_feature_incompat fs) 0 b 8 = Some (Inr (), b)"

lemma read_eb_checked:
  assumes "\<not> ocfs2_block_out_of_range fs blkno" and "rfail fs blkno = None" and "eb_checked fs (disk fs blkno)" and "64 \<le> length (disk fs blkno)"
    and "take 7 (h_signature (eb_of_block (disk fs blkno))) = OCFS2_EXTENT_BLOCK_SIGNATURE"
    and "l_next_free_rec (h_list (eb_of_block (disk fs blkno))) \<le> l_count (h_list (eb_of_block (disk fs blkno)))"
  shows "ocfs2_read_extent_block fs blkno = Some (Inr (eb_of_block (disk fs blkno)))"
proof -
  have "take 7 (slice (disk fs blkno) 0 8) = slice (disk fs blkno) 0 7" by (simp add: slice_def min_def)
  moreover have "length OCFS2_EXTENT_BLOCK_SIGNATURE = 7" by (simp add: OCFS2_EXTENT_BLOCK_SIGNATURE_def)
  ultimately have "read_bytes (disk fs blkno) 0 (length OCFS2_EXTENT_BLOCK_SIGNATURE) = Some OCFS2_EXTENT_BLOCK_SIGNATURE"
    using assms(4,5) by (simp add: read_slice eb_of_block_def)
  then show ?thesis using assms by (simp add: ocfs2_read_extent_block_def ocfs2_read_extent_block_nocheck_def eb_checked_def linorder_not_less)
qed

text \<open>An extent block that was written is read back with a new check record.\<close>

lemma write_eb_read:
  assumes "\<not> ocfs2_block_out_of_range fs blkno" and "fs_rw fs" and "wfail fs blkno = None" and "rfail fs blkno = None"
    and "eb_fits (fs_blocksize fs) eb" and "fs_blocksize fs \<le> 4096" and "take 7 (h_signature eb) = OCFS2_EXTENT_BLOCK_SIGNATURE"
    and "l_next_free_rec (h_list eb) \<le> l_count (h_list eb)"
  shows "\<exists>b chk. ocfs2_write_extent_block fs blkno eb = Some (None, fs\<lparr>disk := (disk fs)(blkno := b)\<rparr>) \<and>
    ocfs2_read_extent_block (fs\<lparr>disk := (disk fs)(blkno := b)\<rparr>) blkno = Some (Inr (eb\<lparr>h_check := chk\<rparr>)) \<and> length chk = 8"
proof -
  have len: "length (block_of_eb eb) = fs_blocksize fs" "64 \<le> fs_blocksize fs" using assms(5) by (auto simp: length_block_of_eb eb_fits_def)
  obtain b where b: "ocfs2_compute_meta_ecc (s_feature_incompat fs) 0 (block_of_eb eb) 8 = Some b" "length b = fs_blocksize fs"
    "eb_checked fs b" "\<forall>i<length (block_of_eb eb). i < 8 \<or> 8 + 8 \<le> i \<longrightarrow> b ! i = block_of_eb eb ! i"
    using compute_validates [of 8 "block_of_eb eb" "s_feature_incompat fs"] len assms(6) unfolding eb_checked_def by auto
  have eb: "eb_of_block b = eb\<lparr>h_check := slice b 8 8\<rparr>"
    using eb_outside_check [of b "block_of_eb eb"] b(2,4) len eb_of_block_of_eb [OF assms(5)] by auto
  let ?fs = "fs\<lparr>disk := (disk fs)(blkno := b)\<rparr>"
  have "ocfs2_read_extent_block ?fs blkno = Some (Inr (eb_of_block (disk ?fs blkno)))"
    using assms(1,4,7,8) b(2,3) len(2) eb by (intro read_eb_checked) (simp_all add: ocfs2_block_out_of_range_def eb_checked_def)
  then show ?thesis using assms(1-3) b(1,2) eb len(2)
    by (intro exI [of _ b] exI [of _ "slice b 8 8"]) (simp add: ocfs2_write_extent_block_def)
qed

end
