(* ===== verification/Extent_Map.thy ===== *)
theory Extent_Map
  imports Extent
begin

text \<open>
  What an extent tree stands for, and that the extent map finds it.  The abstract view of a file is the list of its extents, sorted
  and without overlap.  A tree stands for the extents of its leaves; the leaves themselves are listed with their blocks, because
  the search for the end of a hole goes from a leaf to the next one.
\<close>

section \<open>Lists of extents\<close>

definition e_end :: "extent_rec \<Rightarrow> nat" where
  "e_end rec = unat (e_cpos rec) + unat (e_leaf_clusters rec)"

fun extents_in :: "nat \<Rightarrow> nat \<Rightarrow> extent_rec list \<Rightarrow> bool" where
  "extents_in lo hi [] \<longleftrightarrow> lo \<le> hi"
| "extents_in lo hi (r # rs) \<longleftrightarrow> lo \<le> unat (e_cpos r) \<and> \<not> ocfs2_is_empty_extent r \<and> e_blkno r \<noteq> 0 \<and> extents_in (e_end r) hi rs"

lemma extents_in_le: "extents_in lo hi rs \<Longrightarrow> lo \<le> hi"
proof (induction rs arbitrary: lo)
  case (Cons r rs)
  then have "e_end r \<le> hi" by simp
  then show ?case using Cons.prems by (simp add: e_end_def)
qed simp

lemma extents_in_weaken: "extents_in lo hi rs \<Longrightarrow> lo' \<le> lo \<Longrightarrow> hi \<le> hi' \<Longrightarrow> extents_in lo' hi' rs"
  by (induction rs arbitrary: lo lo') auto

lemma extents_in_append: "extents_in lo mid xs \<Longrightarrow> extents_in mid hi ys \<Longrightarrow> extents_in lo hi (xs @ ys)"
  by (induction xs arbitrary: lo) (auto intro: extents_in_weaken)

lemma extents_in_bounds:
  assumes "extents_in lo hi rs" and "r \<in> set rs"
  shows "lo \<le> unat (e_cpos r)" and "unat (e_cpos r) < e_end r" and "e_end r \<le> hi" and "e_blkno r \<noteq> 0"
proof -
  have "lo \<le> unat (e_cpos r) \<and> unat (e_cpos r) < e_end r \<and> e_end r \<le> hi \<and> e_blkno r \<noteq> 0" using assms
  proof (induction rs arbitrary: lo)
    case (Cons x xs)
    have x: "lo \<le> unat (e_cpos x)" "unat (e_cpos x) < e_end x" "e_end x \<le> hi" "e_blkno x \<noteq> 0" "extents_in (e_end x) hi xs"
      using Cons.prems(1) extents_in_le [of "e_end x" hi xs] by (auto simp: e_end_def ocfs2_is_empty_extent_def unat_gt_0)
    show ?case
    proof (cases "r = x")
      case False
      then show ?thesis using Cons.IH [OF x(5)] Cons.prems(2) x(1,2) by auto
    qed (use x in simp)
  qed simp
  then show "lo \<le> unat (e_cpos r)" "unat (e_cpos r) < e_end r" "e_end r \<le> hi" "e_blkno r \<noteq> 0" by simp_all
qed

definition rec_covers :: "u32 \<Rightarrow> extent_rec \<Rightarrow> bool" where
  "rec_covers v r \<longleftrightarrow> e_cpos r \<le> v \<and> unat v < e_end r"

lemma covers_unique:
  assumes "extents_in lo hi rs" and "r \<in> set rs" and "rec_covers v r"
  shows "find (rec_covers v) rs = Some r"
  using assms
proof (induction rs arbitrary: lo)
  case (Cons x xs)
  show ?case
  proof (cases "r = x")
    case False
    then have "e_end x \<le> unat (e_cpos r)" using extents_in_bounds(1) [of "e_end x" hi xs r] Cons.prems by simp
    then have "\<not> rec_covers v x" using Cons.prems(3) by (auto simp: rec_covers_def word_le_nat_alt)
    moreover have "find (rec_covers v) xs = Some r" using False Cons.prems by (intro Cons.IH [of "e_end x"]) simp_all
    ultimately show ?thesis by simp
  qed (use Cons in simp)
qed simp

lemma holds_leaf: "e_end r < 2 ^ 32 \<Longrightarrow> rec_holds 0 v r \<longleftrightarrow> rec_covers v r"
proof -
  assume b: "e_end r < 2 ^ 32"
  have "unat (ucast (e_leaf_clusters r) :: u32) = unat (e_leaf_clusters r)" by (simp add: unsigned_ucast_eq take_bit_nat_eq_self less_imp_le order.strict_trans2 [OF unsigned_less])
  then have "unat (e_cpos r + ucast (e_leaf_clusters r)) = e_end r" using b by (simp add: unat_word_ariths e_end_def)
  then show ?thesis by (simp add: rec_holds_def rec_covers_def ocfs2_rec_clusters_def word_less_nat_alt)
qed

section \<open>Leaves\<close>

lemma scan_recs_eq:
  "i + n \<le> length recs \<Longrightarrow> scan_recs P recs i n = Some (i + length (takeWhile (\<lambda>r. \<not> P r) (take n (drop i recs))))"
  by (induction P recs i n rule: scan_recs.induct) (auto simp: Cons_nth_drop_Suc [symmetric])

definition used_recs :: "extent_list \<Rightarrow> extent_rec list" where
  "used_recs el = take (unat (l_next_free_rec el)) (l_recs el)"

definition leaf_exts :: "extent_list \<Rightarrow> extent_rec list" where
  "leaf_exts el = filter (\<lambda>r. \<not> ocfs2_is_empty_extent r) (used_recs el)"

text \<open>A list of a leaf for clusters from \<open>lo\<close> to \<open>hi\<close>; the first record may be an empty one, which is all zero but for its flags.\<close>

definition leaf_list :: "nat \<Rightarrow> nat \<Rightarrow> extent_list \<Rightarrow> bool" where
  "leaf_list lo hi el \<longleftrightarrow> l_tree_depth el = 0 \<and> unat (l_next_free_rec el) \<le> length (l_recs el) \<and>
     (used_recs el = leaf_exts el \<or> (\<exists>r. e_cpos r = 0 \<and> e_blkno r = 0 \<and> ocfs2_is_empty_extent r \<and> used_recs el = r # leaf_exts el)) \<and>
     extents_in lo hi (leaf_exts el)"

lemma scan_used:
  assumes "unat (l_next_free_rec el) \<le> length (l_recs el)"
  shows "scan_recs P (l_recs el) 0 (unat (l_next_free_rec el)) = Some (length (takeWhile (\<lambda>r. \<not> P r) (used_recs el)))"
    and "length (used_recs el) = unat (l_next_free_rec el)"
    and "i < unat (l_next_free_rec el) \<Longrightarrow> rec_at el i = Some (used_recs el ! i)"
  using assms by (simp_all add: scan_recs_eq used_recs_def rec_at_def)

lemma find_takeWhile:
  "find P xs = (let n = length (takeWhile (\<lambda>x. \<not> P x) xs) in if n < length xs then Some (xs ! n) else None)"
  by (induction xs) (auto simp: Let_def)

text \<open>A search for a property that empty records do not have.\<close>

lemma scan_leaf:
  assumes l: "leaf_list lo hi el" and P: "\<And>r. e_cpos r = 0 \<Longrightarrow> e_blkno r = 0 \<Longrightarrow> ocfs2_is_empty_extent r \<Longrightarrow> \<not> P r"
  shows "\<exists>i. scan_recs P (l_recs el) 0 (unat (l_next_free_rec el)) = Some i \<and> i \<le> unat (l_next_free_rec el) \<and>
    find P (leaf_exts el) = (if i < unat (l_next_free_rec el) then rec_at el i else None)"
proof -
  let ?i = "length (takeWhile (\<lambda>r. \<not> P r) (used_recs el))"
  have nf: "unat (l_next_free_rec el) \<le> length (l_recs el)" using l by (simp add: leaf_list_def)
  have "find P (used_recs el) = find P (leaf_exts el)" using l P unfolding leaf_list_def by (elim conjE disjE exE) simp_all
  moreover have "?i \<le> unat (l_next_free_rec el)" using length_takeWhile_le [of "\<lambda>r. \<not> P r" "used_recs el"] scan_used(2) [OF nf] by simp
  ultimately show ?thesis using scan_used [OF nf] find_takeWhile [of P "used_recs el"] by (auto simp: Let_def)
qed

lemma search_leaf:
  assumes l: "leaf_list lo hi el" and "hi < 2 ^ 32"
  shows "\<exists>i. ocfs2_search_extent_list el v = Some i \<and> find (rec_covers v) (leaf_exts el) = Option.bind i (rec_at el) \<and> (i \<noteq> None \<longrightarrow> Option.bind i (rec_at el) \<noteq> None)"
proof -
  have d: "l_tree_depth el = 0" and nf: "unat (l_next_free_rec el) \<le> length (l_recs el)" and e: "extents_in lo hi (leaf_exts el)"
    using l by (simp_all add: leaf_list_def)
  have "find (rec_holds 0 v) (leaf_exts el) = find (rec_covers v) (leaf_exts el)"
    using extents_in_bounds(3) [OF e] assms(2) by (intro find_cong refl holds_leaf) fastforce
  moreover obtain i where "scan_recs (rec_holds 0 v) (l_recs el) 0 (unat (l_next_free_rec el)) = Some i"
    "find (rec_holds 0 v) (leaf_exts el) = (if i < unat (l_next_free_rec el) then rec_at el i else None)"
    using scan_leaf [OF l, of "rec_holds 0 v"] by (auto simp: rec_holds_def ocfs2_rec_clusters_def ocfs2_is_empty_extent_def)
  ultimately show ?thesis using d scan_used(3) [OF nf] by (auto simp: ocfs2_search_extent_list_def)
qed

lemma hole_leaf:
  assumes "leaf_list lo hi el"
  shows "\<exists>i. ocfs2_search_for_hole_index el v = Some i \<and> i \<le> unat (l_next_free_rec el) \<and>
    find (\<lambda>r. v < e_cpos r) (leaf_exts el) = (if i < unat (l_next_free_rec el) then rec_at el i else None)"
  unfolding ocfs2_search_for_hole_index_def by (rule scan_leaf [OF assms]) simp

section \<open>Trees\<close>

type_synonym leaf = "nat \<times> extent_block"

abbreviation leaf_el :: "leaf \<Rightarrow> extent_list" where
  "leaf_el l \<equiv> h_list (snd l)"

definition tree_exts :: "leaf list \<Rightarrow> extent_rec list" where
  "tree_exts ls = concat (map (\<lambda>l. leaf_exts (leaf_el l)) ls)"

lemma tree_exts_simps [simp]:
  "tree_exts [] = []" "tree_exts (l # ls) = leaf_exts (leaf_el l) @ tree_exts ls" "tree_exts (as @ bs) = tree_exts as @ tree_exts bs"
  by (simp_all add: tree_exts_def)

text \<open>The records of an interior node: they cover the clusters from \<open>lo\<close> to \<open>hi\<close> without a gap, and \<open>S\<close> holds for the blocks below.\<close>

fun children :: "(nat \<Rightarrow> nat \<Rightarrow> nat \<Rightarrow> leaf list \<Rightarrow> bool) \<Rightarrow> nat \<Rightarrow> nat \<Rightarrow> extent_rec list \<Rightarrow> leaf list list \<Rightarrow> bool" where
  "children S lo hi [] [] \<longleftrightarrow> lo = hi"
| "children S lo hi (r # rs) (ls # lss) \<longleftrightarrow> unat (e_cpos r) = lo \<and> e_blkno r \<noteq> 0 \<and> S lo (lo + unat (e_int_clusters r)) (e_blkno r) ls \<and>
     children S (lo + unat (e_int_clusters r)) hi rs lss"
| "children S lo hi _ _ \<longleftrightarrow> False"

definition node_list :: "(nat \<Rightarrow> nat \<Rightarrow> nat \<Rightarrow> leaf list \<Rightarrow> bool) \<Rightarrow> nat \<Rightarrow> nat \<Rightarrow> extent_list \<Rightarrow> leaf list \<Rightarrow> bool" where
  "node_list S lo hi el ls \<longleftrightarrow> l_next_free_rec el \<noteq> 0 \<and> unat (l_next_free_rec el) \<le> length (l_recs el) \<and>
     (\<exists>lss. children S lo hi (used_recs el) lss \<and> ls = concat lss)"

primrec subtree :: "nat \<Rightarrow> 'm filesys \<Rightarrow> nat \<Rightarrow> nat \<Rightarrow> nat \<Rightarrow> leaf list \<Rightarrow> bool" where
  "subtree 0 fs lo hi b ls \<longleftrightarrow> (\<exists>eb. ocfs2_read_extent_block fs b = Some (Inr eb) \<and> ls = [(b, eb)] \<and> h_blkno eb = b \<and>
     leaf_list lo hi (h_list eb) \<and> leaf_exts (h_list eb) \<noteq> [])"
| "subtree (Suc d) fs lo hi b ls \<longleftrightarrow> (\<exists>eb. ocfs2_read_extent_block fs b = Some (Inr eb) \<and> h_blkno eb = b \<and>
     unat (l_tree_depth (h_list eb)) = Suc d \<and> node_list (subtree d fs) lo hi (h_list eb) ls)"

lemma read_counts: "ocfs2_read_extent_block fs b = Some (Inr eb) \<Longrightarrow> l_next_free_rec (h_list eb) \<le> l_count (h_list eb)"
  by (cases "ocfs2_read_extent_block_nocheck fs b") (auto simp: ocfs2_read_extent_block_def split: sum.splits if_splits)

lemma children_exts:
  assumes "children S lo hi rs lss" and "\<And>lo hi b ls. S lo hi b ls \<Longrightarrow> extents_in lo hi (tree_exts ls) \<and> tree_exts ls \<noteq> []"
  shows "extents_in lo hi (tree_exts (concat lss)) \<and> (rs \<noteq> [] \<longrightarrow> tree_exts (concat lss) \<noteq> [])"
  using assms
proof (induction S lo hi rs lss rule: children.induct)
  case (2 S lo hi r rs ls lss)
  from "2.prems"(1) have "S lo (lo + unat (e_int_clusters r)) (e_blkno r) ls" "children S (lo + unat (e_int_clusters r)) hi rs lss" by simp_all
  then have "extents_in lo (lo + unat (e_int_clusters r)) (tree_exts ls) \<and> tree_exts ls \<noteq> []"
    "extents_in (lo + unat (e_int_clusters r)) hi (tree_exts (concat lss))" using "2.IH" "2.prems"(2) by blast+
  then show ?case using extents_in_append by auto
qed simp_all

lemma used_nonempty: "l_next_free_rec el \<noteq> 0 \<Longrightarrow> unat (l_next_free_rec el) \<le> length (l_recs el) \<Longrightarrow> used_recs el \<noteq> []"
  using scan_used(2) [of el] unat_eq_zero [of "l_next_free_rec el"] by (metis list.size(3))

lemma subtree_exts: "subtree d fs lo hi b ls \<Longrightarrow> extents_in lo hi (tree_exts ls) \<and> tree_exts ls \<noteq> []"
proof (induction d arbitrary: lo hi b ls)
  case 0
  then show ?case by (auto simp: leaf_list_def)
next
  case (Suc d)
  then show ?case using children_exts [of "subtree d fs"] used_nonempty unfolding subtree.simps node_list_def by metis
qed

lemma children_leaves:
  assumes "children S lo hi rs lss" and "\<And>lo hi b ls l. S lo hi b ls \<Longrightarrow> l \<in> set ls \<Longrightarrow> P l" and "l \<in> set (concat lss)"
  shows "P l"
  using assms
proof (induction S lo hi rs lss rule: children.induct)
  case (2 S lo hi r rs ls lss)
  have "S lo (lo + unat (e_int_clusters r)) (e_blkno r) ls" "children S (lo + unat (e_int_clusters r)) hi rs lss" using "2.prems"(1) by simp_all
  moreover have "l \<in> set ls \<or> l \<in> set (concat lss)" using "2.prems"(3) by auto
  ultimately show ?case using "2.IH" "2.prems"(2) by blast
qed simp_all

definition good_leaf :: "'m filesys \<Rightarrow> leaf \<Rightarrow> bool" where
  "good_leaf fs l \<longleftrightarrow> ocfs2_read_extent_block fs (fst l) = Some (Inr (snd l)) \<and> h_blkno (snd l) = fst l \<and>
     leaf_exts (leaf_el l) \<noteq> [] \<and> (\<exists>lo hi. leaf_list lo hi (leaf_el l))"

lemma subtree_leaves: "subtree d fs lo hi b ls \<Longrightarrow> l \<in> set ls \<Longrightarrow> good_leaf fs l"
proof (induction d arbitrary: lo hi b ls l)
  case 0
  then obtain eb where "ocfs2_read_extent_block fs b = Some (Inr eb)" "ls = [(b, eb)]" "h_blkno eb = b" "leaf_list lo hi (h_list eb)"
    "leaf_exts (h_list eb) \<noteq> []" unfolding subtree.simps by (elim exE conjE)
  moreover from this have "l = (b, eb)" using 0(2) by simp
  ultimately show ?case unfolding good_leaf_def by (intro conjI exI [of _ lo] exI [of _ hi]) simp_all
next
  case (Suc d)
  from Suc.prems(1) obtain eb :: extent_block and lss where "children (subtree d fs) lo hi (used_recs (h_list eb)) lss" "ls = concat lss"
    unfolding subtree.simps node_list_def by blast
  then show ?case using children_leaves [of "subtree d fs" lo hi _ lss "good_leaf fs" l] Suc.IH Suc.prems(2) by blast
qed

section \<open>The way to a leaf\<close>

text \<open>The record that the search in an interior node takes.\<close>

lemma children_pick:
  assumes "children S lo hi rs lss" and "rs \<noteq> []" and "lo \<le> unat v" and "hi < 2 ^ 32" and "depth \<noteq> 0"
    and S: "\<forall>lo hi b ls. S lo hi b ls \<longrightarrow> extents_in lo hi (tree_exts ls) \<and> tree_exts ls \<noteq> []"
  shows "\<exists>as ls bs r lo' hi'. rs ! length (takeWhile (\<lambda>r. \<not> rec_holds depth v r) (butlast rs)) = r \<and> lss = as @ ls # bs \<and> S lo' hi' (e_blkno r) ls \<and>
    e_blkno r \<noteq> 0 \<and> lo' \<le> unat v \<and> hi' \<le> hi \<and> (\<forall>x\<in>set (tree_exts (concat as)). e_end x \<le> unat v) \<and> (\<forall>x\<in>set (tree_exts (concat bs)). v < e_cpos x)"
  using assms
proof (induction S lo hi rs lss rule: children.induct)
  case (2 S lo hi r rs ls lss)
  let ?mid = "lo + unat (e_int_clusters r)"
  have r: "unat (e_cpos r) = lo" "e_blkno r \<noteq> 0" "S lo ?mid (e_blkno r) ls" and ch: "children S ?mid hi rs lss" using "2.prems"(1) by simp_all
  have rest: "extents_in ?mid hi (tree_exts (concat lss))" using children_exts [OF ch] "2.prems"(6) by blast
  have le: "?mid \<le> hi" by (rule extents_in_le [OF rest])
  have holds: "rec_holds depth v r \<longleftrightarrow> unat v < ?mid"
    using le r(1) "2.prems"(3-5) by (simp add: rec_holds_def ocfs2_rec_clusters_def word_le_nat_alt word_less_nat_alt unat_word_ariths)
  show ?case
  proof (cases "rs = [] \<or> unat v < ?mid")
    case True
    then have first: "(r # rs) ! length (takeWhile (\<lambda>r. \<not> rec_holds depth v r) (butlast (r # rs))) = r" using holds by auto
    have "\<forall>x\<in>set (tree_exts (concat lss)). v < e_cpos x"
    proof (cases "rs = []")
      case True
      then show ?thesis using ch by (cases lss) simp_all
    next
      case False
      then show ?thesis using \<open>rs = [] \<or> unat v < ?mid\<close> extents_in_bounds(1) [OF rest] by (fastforce simp: word_less_nat_alt)
    qed
    then show ?thesis using first r le "2.prems"(3)
      by (intro exI [of _ "[]"] exI [of _ ls] exI [of _ lss] exI [of _ r] exI [of _ lo] exI [of _ ?mid]) simp
  next
    case False
    then have step: "(r # rs) ! length (takeWhile (\<lambda>r. \<not> rec_holds depth v r) (butlast (r # rs))) =
        rs ! length (takeWhile (\<lambda>r. \<not> rec_holds depth v r) (butlast rs))" using holds by simp
    have nx: "rs \<noteq> []" "?mid \<le> unat v" using False by simp_all
    obtain as ls' bs r' lo' hi' where ih: "rs ! length (takeWhile (\<lambda>r. \<not> rec_holds depth v r) (butlast rs)) = r'" "lss = as @ ls' # bs"
      "S lo' hi' (e_blkno r') ls'" "e_blkno r' \<noteq> 0" "lo' \<le> unat v" "hi' \<le> hi" "\<forall>x\<in>set (tree_exts (concat as)). e_end x \<le> unat v"
      "\<forall>x\<in>set (tree_exts (concat bs)). v < e_cpos x"
      using "2.IH" [OF ch nx "2.prems"(4-6)] by blast
    have "\<forall>x\<in>set (tree_exts ls). e_end x \<le> unat v" using False extents_in_bounds(3) "2.prems"(6) r(3) by fastforce
    then show ?thesis using ih step
      by (intro exI [of _ "ls # as"] exI [of _ ls'] exI [of _ bs] exI [of _ r'] exI [of _ lo'] exI [of _ hi']) auto
  qed
qed simp_all

lemma take_pred: "take (n - 1) xs = butlast (take n xs)" if "n \<le> length xs"
  using that by (cases n) (simp_all add: butlast_take)

lemma node_pick:
  assumes n: "node_list (subtree d fs) lo hi el ls" and "l_tree_depth el \<noteq> 0" and "lo \<le> unat v" and "hi < 2 ^ 32"
  shows "\<exists>i r as ls' bs lo' hi'. scan_recs (rec_holds (l_tree_depth el) v) (l_recs el) 0 (unat (l_next_free_rec el) - 1) = Some i \<and> rec_at el i = Some r \<and>
    e_blkno r \<noteq> 0 \<and> ls = as @ ls' @ bs \<and> subtree d fs lo' hi' (e_blkno r) ls' \<and> lo' \<le> unat v \<and> hi' \<le> hi \<and>
    (\<forall>x\<in>set (tree_exts as). e_end x \<le> unat v) \<and> (\<forall>x\<in>set (tree_exts bs). v < e_cpos x)"
proof -
  obtain lss where nf: "l_next_free_rec el \<noteq> 0" "unat (l_next_free_rec el) \<le> length (l_recs el)"
    and lss: "children (subtree d fs) lo hi (used_recs el) lss" "ls = concat lss" using n by (auto simp: node_list_def)
  let ?i = "length (takeWhile (\<lambda>r. \<not> rec_holds (l_tree_depth el) v r) (butlast (used_recs el)))"
  have ne: "used_recs el \<noteq> []" by (rule used_nonempty [OF nf])
  have "?i < unat (l_next_free_rec el)"
    using length_takeWhile_le [of "\<lambda>r. \<not> rec_holds (l_tree_depth el) v r" "butlast (used_recs el)"] ne scan_used(2) [OF nf(2)]
    by (metis One_nat_def Suc_pred le_imp_less_Suc length_butlast length_greater_0_conv)
  then have at: "rec_at el ?i = Some (used_recs el ! ?i)" by (rule scan_used(3) [OF nf(2)])
  have "scan_recs (rec_holds (l_tree_depth el) v) (l_recs el) 0 (unat (l_next_free_rec el) - 1) = Some ?i"
    using nf(2) take_pred [OF nf(2)] by (simp add: scan_recs_eq used_recs_def)
  moreover note children_pick [OF lss(1) ne assms(3,4,2)] subtree_exts [of d fs]
  ultimately show ?thesis using at lss(2) by fastforce
qed

text \<open>
  The leaf that the search ends in: the extents of the leaves before it end at or before the cluster, those of the leaves after it
  start behind the cluster.
\<close>

definition leaf_for :: "u32 \<Rightarrow> leaf list \<Rightarrow> leaf \<Rightarrow> bool" where
  "leaf_for v ls l \<longleftrightarrow> (\<exists>as bs. ls = as @ l # bs \<and> (\<forall>x\<in>set (tree_exts as). e_end x \<le> unat v) \<and> (\<forall>x\<in>set (tree_exts bs). v < e_cpos x)) \<and>
     (\<exists>lo hi. hi < 2 ^ 32 \<and> leaf_list lo hi (leaf_el l))"

lemma leaf_for_part:
  assumes "leaf_for v ls l" and "\<forall>x\<in>set (tree_exts as). e_end x \<le> unat v" and "\<forall>x\<in>set (tree_exts bs). v < e_cpos x"
  shows "leaf_for v (as @ ls @ bs) l"
proof -
  obtain as' bs' where s: "ls = as' @ l # bs'" "\<forall>x\<in>set (tree_exts as'). e_end x \<le> unat v" "\<forall>x\<in>set (tree_exts bs'). v < e_cpos x"
    using assms(1) by (auto simp: leaf_for_def)
  have "\<exists>as' bs'. as @ ls @ bs = as' @ l # bs' \<and> (\<forall>x\<in>set (tree_exts as'). e_end x \<le> unat v) \<and> (\<forall>x\<in>set (tree_exts bs'). v < e_cpos x)"
    using s assms(2,3) by (intro exI [of _ "as @ as'"] exI [of _ "bs' @ bs"]) auto
  then show ?thesis using assms(1) unfolding leaf_for_def by blast
qed

lemma walk:
  assumes "subtree d fs lo hi b ls" and "lo \<le> unat v" and "hi < 2 ^ 32" and "0 < index" and "index + d < OCFS2_MAX_PATH_DEPTH"
  shows "\<exists>eb l path'. ocfs2_read_extent_block fs b = Some (Inr eb) \<and> leaf_for v ls l \<and>
    find_path_loop fs (h_list eb) v (Suc index) (path\<lparr>p_ebs := (p_ebs path)(index \<mapsto> eb)\<rparr>) = Some (None, path') \<and>
    p_ebs path' (index + d) = Some (snd l) \<and> p_tree_depth path' = p_tree_depth path"
  using assms
proof (induction d arbitrary: lo hi b ls index path)
  case 0
  then obtain eb where eb: "ocfs2_read_extent_block fs b = Some (Inr eb)" "ls = [(b, eb)]" "leaf_list lo hi (h_list eb)" by auto
  then have "leaf_for v ls (b, eb)" using 0(3) unfolding leaf_for_def by (intro conjI exI [of _ "[]"] exI [of _ lo] exI [of _ hi]) auto
  moreover have "l_tree_depth (h_list eb) = 0" using eb(3) by (simp add: leaf_list_def)
  ultimately show ?case using eb(1) by (intro exI [of _ eb] exI [of _ "(b, eb)"]) (simp add: find_path_loop.simps)
next
  case (Suc d)
  then obtain eb where eb: "ocfs2_read_extent_block fs b = Some (Inr eb)" "unat (l_tree_depth (h_list eb)) = Suc d"
    "node_list (subtree d fs) lo hi (h_list eb) ls" by auto
  have depth: "l_tree_depth (h_list eb) \<noteq> 0" using eb(2) by auto
  obtain i r as ls' bs lo' hi' where p: "scan_recs (rec_holds (l_tree_depth (h_list eb)) v) (l_recs (h_list eb)) 0 (unat (l_next_free_rec (h_list eb)) - 1) = Some i"
    "rec_at (h_list eb) i = Some r" "e_blkno r \<noteq> 0" "ls = as @ ls' @ bs" "subtree d fs lo' hi' (e_blkno r) ls'" "lo' \<le> unat v" "hi' \<le> hi"
    "\<forall>x\<in>set (tree_exts as). e_end x \<le> unat v" "\<forall>x\<in>set (tree_exts bs). v < e_cpos x"
    using node_pick [OF eb(3) depth Suc.prems(2,3)] by blast
  define path1 where "path1 = path\<lparr>p_ebs := (p_ebs path)(index \<mapsto> eb)\<rparr>"
  have ix: "hi' < 2 ^ 32" "0 < Suc index" "Suc index + d < OCFS2_MAX_PATH_DEPTH" using p(7) Suc.prems(3,5) by simp_all
  obtain eb' l path' where c: "ocfs2_read_extent_block fs (e_blkno r) = Some (Inr eb')" "leaf_for v ls' l"
    "find_path_loop fs (h_list eb') v (Suc (Suc index)) (path1\<lparr>p_ebs := (p_ebs path1)(Suc index \<mapsto> eb')\<rparr>) = Some (None, path')"
    "p_ebs path' (Suc index + d) = Some (snd l)" "p_tree_depth path' = p_tree_depth path1"
    using Suc.IH [OF p(5,6) ix, of path1] by (elim exE conjE)
  have "find_path_loop fs (h_list eb) v (Suc index) path1 = Some (None, path')"
    using depth eb(3) p(1-3) c(1,3) read_counts [OF c(1)] ix(3)
    by (subst find_path_loop.simps) (simp add: node_list_def ocfs2_path_insert_eb_def linorder_not_less)
  then have "find_path_loop fs (h_list eb) v (Suc index) (path\<lparr>p_ebs := (p_ebs path)(index \<mapsto> eb)\<rparr>) = Some (None, path')" unfolding path1_def .
  moreover have "p_ebs path' (index + Suc d) = Some (snd l)" "p_tree_depth path' = p_tree_depth path" using c(4,5) by (simp_all add: path1_def)
  ultimately show ?case using eb(1) leaf_for_part [OF c(2) p(8,9)] unfolding p(4) by blast
qed

section \<open>The extents of an inode\<close>

fun linked :: "leaf list \<Rightarrow> bool" where
  "linked [] \<longleftrightarrow> True"
| "linked [l] \<longleftrightarrow> h_next_leaf_blk (snd l) = 0"
| "linked (l # l' # ls) \<longleftrightarrow> h_next_leaf_blk (snd l) = fst l' \<and> fst l' \<noteq> 0 \<and> linked (l' # ls)"

text \<open>The leaves of the tree of an inode that has one.\<close>

definition inode_leaves :: "'m filesys \<Rightarrow> ext_dinode \<Rightarrow> leaf list \<Rightarrow> bool" where
  "inode_leaves fs di ls \<longleftrightarrow> (\<exists>d hi. unat (l_tree_depth (i_list di)) = Suc d \<and> Suc d < OCFS2_MAX_PATH_DEPTH \<and> hi < 2 ^ 32 \<and>
     node_list (subtree d fs) 0 hi (i_list di) ls \<and> linked ls \<and> i_last_eb_blk di = fst (last ls))"

definition inode_extents :: "'m filesys \<Rightarrow> ext_dinode \<Rightarrow> extent_rec list \<Rightarrow> bool" where
  "inode_extents fs di E \<longleftrightarrow> (if l_tree_depth (i_list di) = 0 then (\<exists>hi<2 ^ 32. leaf_list 0 hi (i_list di)) \<and> E = leaf_exts (i_list di) \<and> i_last_eb_blk di = 0
     else (\<exists>ls. inode_leaves fs di ls \<and> E = tree_exts ls))"

lemma node_exts:
  assumes "node_list (subtree d fs) lo hi el ls"
  shows "extents_in lo hi (tree_exts ls)" and "tree_exts ls \<noteq> []"
proof -
  obtain lss where "l_next_free_rec el \<noteq> 0" "unat (l_next_free_rec el) \<le> length (l_recs el)" "children (subtree d fs) lo hi (used_recs el) lss" "ls = concat lss"
    using assms unfolding node_list_def by blast
  then show "extents_in lo hi (tree_exts ls)" "tree_exts ls \<noteq> []"
    using children_exts [of "subtree d fs" lo hi "used_recs el" lss] subtree_exts [of d fs] used_nonempty [of el] by blast+
qed

lemma inode_extents_sorted: "inode_extents fs di E \<Longrightarrow> \<exists>hi<2 ^ 32. extents_in 0 hi E"
  using node_exts(1) by (fastforce simp: inode_extents_def inode_leaves_def leaf_list_def split: if_splits)

lemma inode_good_leaves: "inode_leaves fs di ls \<Longrightarrow> l \<in> set ls \<Longrightarrow> good_leaf fs l"
  using children_leaves [of "subtree _ fs" 0 _ _ _ "good_leaf fs" l] subtree_leaves unfolding inode_leaves_def node_list_def by blast

lemma find_leaf_ok:
  assumes "inode_leaves fs di ls"
  shows "\<exists>l. ocfs2_find_leaf fs di v = Some (Inr (snd l)) \<and> leaf_for v ls l"
proof -
  obtain d hi where t: "unat (l_tree_depth (i_list di)) = Suc d" "Suc d < OCFS2_MAX_PATH_DEPTH" "hi < 2 ^ 32" "node_list (subtree d fs) 0 hi (i_list di) ls"
    using assms unfolding inode_leaves_def by blast
  have depth: "l_tree_depth (i_list di) \<noteq> 0" using t(1) by auto
  obtain i r as ls' bs lo' hi' where p: "scan_recs (rec_holds (l_tree_depth (i_list di)) v) (l_recs (i_list di)) 0 (unat (l_next_free_rec (i_list di)) - 1) = Some i"
    "rec_at (i_list di) i = Some r" "e_blkno r \<noteq> 0" "ls = as @ ls' @ bs" "subtree d fs lo' hi' (e_blkno r) ls'" "lo' \<le> unat v" "hi' \<le> hi"
    "\<forall>x\<in>set (tree_exts as). e_end x \<le> unat v" "\<forall>x\<in>set (tree_exts bs). v < e_cpos x"
    using node_pick [OF t(4) depth _ t(3), of v] by (simp only: zero_le simp_thms) blast
  define path where "path = \<lparr>p_tree_depth = Suc d, p_root_el = i_list di, p_ebs = Map.empty\<rparr>"
  have ix: "hi' < 2 ^ 32" "0 < (1 :: nat)" "1 + d < OCFS2_MAX_PATH_DEPTH" using p(7) t(2,3) by simp_all
  obtain eb l path' where w: "ocfs2_read_extent_block fs (e_blkno r) = Some (Inr eb)" "leaf_for v ls' l"
    "find_path_loop fs (h_list eb) v (Suc 1) (path\<lparr>p_ebs := (p_ebs path)(1 \<mapsto> eb)\<rparr>) = Some (None, path')"
    "p_ebs path' (1 + d) = Some (snd l)" "p_tree_depth path' = p_tree_depth path"
    using walk [OF p(5,6) ix, of path] by blast
  have "find_path_loop fs (i_list di) v 1 path = Some (None, path')"
    using depth t(4) p(1-3) w(1,3) read_counts [OF w(1)]
    by (subst find_path_loop.simps) (simp add: node_list_def ocfs2_path_insert_eb_def OCFS2_MAX_PATH_DEPTH_def linorder_not_less)
  then have "ocfs2_find_leaf fs di v = Some (Inr (snd l))"
    using depth t(1,2) w(4,5) by (simp add: ocfs2_find_leaf_def ocfs2_new_inode_path_def ocfs2_find_path_def path_def)
  then show ?thesis using leaf_for_part [OF w(2) p(8,9)] p(4) by blast
qed

section \<open>The extent map\<close>

text \<open>What the extent map says of a cluster: where it is and how many follow, or how long the hole is.\<close>

definition ext_lookup :: "'m filesys \<Rightarrow> extent_rec list \<Rightarrow> u32 \<Rightarrow> u32 \<times> u32 option \<times> byte" where
  "ext_lookup fs E v =
     (case find (rec_covers v) E of
        Some r \<Rightarrow> (ocfs2_blocks_to_clusters fs (e_blkno r) + (v - e_cpos r), Some (ucast (e_leaf_clusters r) - (v - e_cpos r)), e_flags r)
      | None \<Rightarrow> (0, Some ((case find (\<lambda>r. v < e_cpos r) E of Some r \<Rightarrow> e_cpos r | None \<Rightarrow> - 1) - v), 0))"

lemma find_in_append: "find P (xs @ ys) = (case find P xs of None \<Rightarrow> find P ys | Some x \<Rightarrow> Some x)"
  by (induction xs) simp_all

lemma find_none: "(\<And>x. x \<in> set xs \<Longrightarrow> \<not> P x) \<Longrightarrow> find P xs = None"
  by (simp add: find_None_iff)

lemma hole_in_list:
  assumes "leaf_list lo hi el"
  shows "ocfs2_figure_hole_clusters fs el None v =
    Some (Inr ((case find (\<lambda>r. v < e_cpos r) (leaf_exts el) of Some r \<Rightarrow> e_cpos r | None \<Rightarrow> - 1) - v))"
proof -
  obtain i where i: "ocfs2_search_for_hole_index el v = Some i" "i \<le> unat (l_next_free_rec el)"
    "find (\<lambda>r. v < e_cpos r) (leaf_exts el) = (if i < unat (l_next_free_rec el) then rec_at el i else None)" using hole_leaf [OF assms] by blast
  have "i < unat (l_next_free_rec el) \<Longrightarrow> \<exists>r. rec_at el i = Some r" using assms scan_used(3) by (auto simp: leaf_list_def)
  then show ?thesis using i by (cases "i < unat (l_next_free_rec el)") (auto simp: ocfs2_figure_hole_clusters_def)
qed

lemma next_leaf_hole:
  assumes l: "leaf_list lo hi el" and ne: "leaf_exts el \<noteq> []" and v: "\<forall>r\<in>set (leaf_exts el). v < e_cpos r"
  shows "\<exists>i. ocfs2_search_for_hole_index el v = Some i \<and> i < unat (l_next_free_rec el) \<and> rec_at el i = Some (hd (leaf_exts el)) \<and>
    (i = 0 \<or> i = 1 \<and> (\<exists>r. rec_at el 0 = Some r \<and> ocfs2_is_empty_extent r))"
proof -
  let ?P = "\<lambda>r. v < e_cpos r"
  have nf: "unat (l_next_free_rec el) \<le> length (l_recs el)" using l by (simp add: leaf_list_def)
  obtain x xs where x: "leaf_exts el = x # xs" "v < e_cpos x" using ne v by (cases "leaf_exts el") auto
  have scan: "ocfs2_search_for_hole_index el v = Some (length (takeWhile (\<lambda>r. \<not> ?P r) (used_recs el)))"
    unfolding ocfs2_search_for_hole_index_def by (rule scan_used(1) [OF nf])
  from l consider "used_recs el = x # xs" | r where "e_cpos r = 0" "ocfs2_is_empty_extent r" "used_recs el = r # x # xs"
    unfolding leaf_list_def x(1) by blast
  then show ?thesis
  proof cases
    case 1
    then show ?thesis using scan x scan_used(2,3) [OF nf] by (intro exI [of _ 0]) simp
  next
    case 2
    have len: "unat (l_next_free_rec el) = Suc (Suc (length xs))" using 2(3) scan_used(2) [OF nf] by simp
    have "rec_at el 0 = Some r" "rec_at el 1 = Some x" using scan_used(3) [OF nf, of 0] scan_used(3) [OF nf, of 1] len 2(3) by simp_all
    then show ?thesis using scan x 2 len by (intro exI [of _ 1]) simp
  qed
qed

lemma hole_in_tree:
  assumes good: "\<And>m. m \<in> set (as @ l # bs) \<Longrightarrow> good_leaf fs m" and link: "linked (as @ l # bs)"
    and after: "\<forall>x\<in>set (tree_exts bs). v < e_cpos x" and before: "\<forall>x\<in>set (tree_exts as). e_end x \<le> unat v"
  shows "ocfs2_figure_hole_clusters fs (leaf_el l) (Some (snd l)) v =
    Some (Inr ((case find (\<lambda>r. v < e_cpos r) (tree_exts (as @ l # bs)) of Some r \<Rightarrow> e_cpos r | None \<Rightarrow> - 1) - v))"
proof -
  let ?P = "\<lambda>r. v < e_cpos r" and ?el = "leaf_el l"
  obtain lo hi where ll: "leaf_list lo hi ?el" using good [of l] by (auto simp: good_leaf_def)
  have "find ?P (tree_exts as) = None"
    using before by (intro find_none) (auto simp: e_end_def word_less_nat_alt)
  then have E: "find ?P (tree_exts (as @ l # bs)) = (case find ?P (leaf_exts ?el) of None \<Rightarrow> find ?P (tree_exts bs) | Some x \<Rightarrow> Some x)"
    by (simp add: find_in_append)
  obtain i where i: "ocfs2_search_for_hole_index ?el v = Some i" "i \<le> unat (l_next_free_rec ?el)"
    "find ?P (leaf_exts ?el) = (if i < unat (l_next_free_rec ?el) then rec_at ?el i else None)" using hole_leaf [OF ll] by blast
  have at: "i < unat (l_next_free_rec ?el) \<Longrightarrow> \<exists>r. rec_at ?el i = Some r" using ll scan_used(3) by (auto simp: leaf_list_def)
  have lk: "linked (l # bs)" using link by (induction as rule: linked.induct) (auto simp: neq_Nil_conv)
  show ?thesis
  proof (cases "i < unat (l_next_free_rec ?el)")
    case True
    then show ?thesis using i at E by (auto simp: ocfs2_figure_hole_clusters_def)
  next
    case False
    then have last: "i = unat (l_next_free_rec ?el)" "find ?P (leaf_exts ?el) = None" using i by simp_all
    show ?thesis
    proof (cases bs)
      case Nil
      then show ?thesis using i(1) last E lk by (simp add: ocfs2_figure_hole_clusters_def)
    next
      case (Cons m ms)
      obtain lo' hi' where m: "ocfs2_read_extent_block fs (fst m) = Some (Inr (snd m))" "leaf_list lo' hi' (leaf_el m)" "leaf_exts (leaf_el m) \<noteq> []"
        using good [of m] Cons by (auto simp: good_leaf_def)
      obtain j where j: "ocfs2_search_for_hole_index (leaf_el m) v = Some j" "j < unat (l_next_free_rec (leaf_el m))"
        "rec_at (leaf_el m) j = Some (hd (leaf_exts (leaf_el m)))" "j = 0 \<or> j = 1 \<and> (\<exists>r. rec_at (leaf_el m) 0 = Some r \<and> ocfs2_is_empty_extent r)"
        using next_leaf_hole [OF m(2,3), of v] after Cons by auto
      have "find ?P (tree_exts bs) = Some (hd (leaf_exts (leaf_el m)))" using after m(3) Cons by (cases "leaf_exts (leaf_el m)") auto
      moreover have "l_tree_depth (leaf_el m) = 0" using m(2) by (simp add: leaf_list_def)
      ultimately show ?thesis using i(1) last E lk Cons m(1) j
        by (auto simp: ocfs2_figure_hole_clusters_def ocfs2_rec_clusters_def ocfs2_is_empty_extent_def)
    qed
  qed
qed

text \<open>The result of \<open>ocfs2_get_clusters\<close> in a list of a leaf, given the answer for a hole.\<close>

lemma lookup_in_list:
  assumes l: "leaf_list lo hi el" and "hi < 2 ^ 32"
    and hole: "find (rec_covers v) (leaf_exts el) = None \<Longrightarrow> ocfs2_figure_hole_clusters fs el eb v = Some (Inr n)"
  shows "do { found \<leftarrow> ocfs2_search_extent_list el v;
         case found of
           None \<Rightarrow> if want then do { r \<leftarrow> ocfs2_figure_hole_clusters fs el eb v; Some (case r of Inl e \<Rightarrow> Inl e | Inr n \<Rightarrow> Inr (0, Some n, 0)) }
                   else Some (Inr (0, None, 0))
         | Some i \<Rightarrow> do { rec \<leftarrow> rec_at el i;
                          if e_blkno rec = 0 then Some (Inl OCFS2_ET_BAD_BLKNO)
                          else (let coff = v - e_cpos rec in
                                Some (Inr (ocfs2_blocks_to_clusters fs (e_blkno rec) + coff,
                                           if want then Some (ocfs2_rec_clusters (l_tree_depth el) rec - coff) else None, e_flags rec))) } } =
    Some (Inr (case find (rec_covers v) (leaf_exts el) of
        Some r \<Rightarrow> (ocfs2_blocks_to_clusters fs (e_blkno r) + (v - e_cpos r), if want then Some (ucast (e_leaf_clusters r) - (v - e_cpos r)) else None, e_flags r)
      | None \<Rightarrow> (0, if want then Some n else None, 0)))"
proof -
  obtain i where i: "ocfs2_search_extent_list el v = Some i" "find (rec_covers v) (leaf_exts el) = Option.bind i (rec_at el)"
    "i \<noteq> None \<longrightarrow> Option.bind i (rec_at el) \<noteq> None" using search_leaf [OF l assms(2)] by blast
  have d: "l_tree_depth el = 0" and e: "extents_in lo hi (leaf_exts el)" using l by (simp_all add: leaf_list_def)
  show ?thesis
  proof (cases i)
    case None
    then show ?thesis using i hole by simp
  next
    case (Some k)
    then obtain r where r: "rec_at el k = Some r" "find (rec_covers v) (leaf_exts el) = Some r" using i by auto
    then have "r \<in> set (leaf_exts el)" by (auto simp: find_Some_iff)
    then have "e_blkno r \<noteq> 0" by (rule extents_in_bounds(4) [OF e])
    then show ?thesis using i(1) r Some d by (simp add: ocfs2_rec_clusters_def Let_def)
  qed
qed

lemma find_covers_part:
  assumes "\<forall>x\<in>set (tree_exts as). e_end x \<le> unat v" and "\<forall>x\<in>set (tree_exts bs). v < e_cpos x"
  shows "find (rec_covers v) (tree_exts (as @ l # bs)) = find (rec_covers v) (leaf_exts (leaf_el l))"
proof -
  have "find (rec_covers v) (tree_exts as) = None" using assms(1) by (intro find_none) (auto simp: rec_covers_def)
  moreover have "find (rec_covers v) (tree_exts bs) = None" using assms(2) by (intro find_none) (auto simp: rec_covers_def)
  ultimately show ?thesis by (simp add: find_in_append split: option.split)
qed

lemma get_clusters_ok:
  assumes "inode_extents fs di E"
  shows "ocfs2_get_clusters fs di v want = Some (Inr (case ext_lookup fs E v of (p, n, f) \<Rightarrow> (p, if want then n else None, f)))"
proof (cases "l_tree_depth (i_list di) = 0")
  case True
  then obtain hi where l: "hi < 2 ^ 32" "leaf_list 0 hi (i_list di)" "E = leaf_exts (i_list di)" using assms by (auto simp: inode_extents_def)
  show ?thesis using True lookup_in_list [OF l(2,1) hole_in_list [OF l(2)], of v want fs] l(3)
    by (simp add: ocfs2_get_clusters_def ext_lookup_def split: option.splits)
next
  case False
  then obtain ls where ls: "inode_leaves fs di ls" "E = tree_exts ls" using assms by (auto simp: inode_extents_def)
  obtain l where l: "ocfs2_find_leaf fs di v = Some (Inr (snd l))" "leaf_for v ls l" using find_leaf_ok [OF ls(1)] by blast
  obtain as bs where s: "ls = as @ l # bs" "\<forall>x\<in>set (tree_exts as). e_end x \<le> unat v" "\<forall>x\<in>set (tree_exts bs). v < e_cpos x"
    using l(2) unfolding leaf_for_def by blast
  obtain lo hi where ll: "hi < 2 ^ 32" "leaf_list lo hi (leaf_el l)" using l(2) unfolding leaf_for_def by blast
  have "linked ls" using ls(1) by (auto simp: inode_leaves_def)
  then have hole: "ocfs2_figure_hole_clusters fs (leaf_el l) (Some (snd l)) v =
      Some (Inr ((case find (\<lambda>r. v < e_cpos r) E of Some r \<Rightarrow> e_cpos r | None \<Rightarrow> - 1) - v))"
    using hole_in_tree [of as l bs fs v] inode_good_leaves [OF ls(1)] s ls(2) by blast
  have "l_tree_depth (leaf_el l) = 0" using ll(2) by (simp add: leaf_list_def)
  then show ?thesis using False l(1) lookup_in_list [OF ll(2,1) hole, of want] find_covers_part [of as v bs l, OF s(2,3)] ls(2) s(1)
    by (simp add: ocfs2_get_clusters_def ext_lookup_def split: option.splits)
qed

text \<open>
  C15: \<open>ocfs2_get_clusters\<close>, on a tree of any depth the code allows, is a lookup in the list of the file's extents: for a cluster
  of an extent it returns where the cluster is on the disk, how many more follow in the extent and the extent's flags; for a hole, 0 and
  the distance to the next extent of the file, also when that is in another leaf, or to the last possible cluster.
\<close>

theorem get_clusters_is_lookup:
  assumes "inode_extents fs di E"
  shows "ocfs2_get_clusters fs di v True = Some (Inr (ext_lookup fs E v))"
  using get_clusters_ok [OF assms, of v True] by (simp add: case_prod_beta)


text \<open>A file with two leaves: clusters 0 to 3 are at block 100, clusters 8 and 9 at block 200 with flag 1.\<close>

definition sample_eb :: "nat \<Rightarrow> nat \<Rightarrow> extent_rec \<Rightarrow> extent_block" where
  "sample_eb b nxt rec =
     \<lparr>h_signature = OCFS2_EXTENT_BLOCK_SIGNATURE @ [0], h_check = replicate 8 0, h_suballoc_slot = 0, h_suballoc_bit = 0, h_fs_generation = 7,
      h_blkno = b, h_reserved3 = 0, h_next_leaf_blk = nxt,
      h_list = \<lparr>l_tree_depth = 0, l_count = 2, l_next_free_rec = 1, l_reserved1 = 0, l_reserved2 = 0, l_recs = [rec, zero_rec]\<rparr>\<rparr>"

definition sample_rec1 :: extent_rec where "sample_rec1 = \<lparr>e_cpos = 0, e_int_clusters = 4, e_blkno = 100\<rparr>"
definition sample_rec2 :: extent_rec where "sample_rec2 = \<lparr>e_cpos = 8, e_int_clusters = 0x01000002, e_blkno = 200\<rparr>"

definition sample_ext_fs :: "unit filesys" where
  "sample_ext_fs = \<lparr>fs_blocksize = 96, fs_blocks = 1000, fs_rw = True, s_feature_incompat = 0, s_blocksize_bits = 9, s_clustersize_bits = 9,
     disk = (\<lambda>b. if b = 10 then block_of_eb (sample_eb 10 11 sample_rec1) else block_of_eb (sample_eb 11 0 sample_rec2)),
     rfail = (\<lambda>_. None), wfail = (\<lambda>_. None), meta = ()\<rparr>"

definition sample_inode :: ext_dinode where
  "sample_inode = \<lparr>i_blkno = 5, i_dyn_features = 0, i_size = 5120, i_clusters = 6, i_raw = [], i_flags = 1, i_last_eb_blk = 11,
     i_list = \<lparr>l_tree_depth = 1, l_count = 3, l_next_free_rec = 2, l_reserved1 = 0, l_reserved2 = 0,
       l_recs = [\<lparr>e_cpos = 0, e_int_clusters = 8, e_blkno = 10\<rparr>, \<lparr>e_cpos = 8, e_int_clusters = 2, e_blkno = 11\<rparr>, zero_rec]\<rparr>\<rparr>"

lemma sample_eb_fits: "eb_fits 96 (sample_eb 10 11 sample_rec1)" "eb_fits 96 (sample_eb 11 0 sample_rec2)"
  by (simp_all add: eb_fits_def sample_eb_def OCFS2_EXTENT_BLOCK_SIGNATURE_def rec_fits_def sample_rec1_def sample_rec2_def zero_rec_def)

lemma sample_disk:
  "disk sample_ext_fs 10 = block_of_eb (sample_eb 10 11 sample_rec1)" "disk sample_ext_fs 11 = block_of_eb (sample_eb 11 0 sample_rec2)"
  by (simp_all add: sample_ext_fs_def)

lemma sample_reads:
  "ocfs2_read_extent_block sample_ext_fs 10 = Some (Inr (sample_eb 10 11 sample_rec1))"
  "ocfs2_read_extent_block sample_ext_fs 11 = Some (Inr (sample_eb 11 0 sample_rec2))"
proof -
  have r: "\<not> ocfs2_block_out_of_range sample_ext_fs 10" "\<not> ocfs2_block_out_of_range sample_ext_fs 11" "rfail sample_ext_fs b = None" "eb_checked sample_ext_fs blk"
    for b blk by (simp_all add: ocfs2_block_out_of_range_def OCFS2_SUPER_BLOCK_BLKNO_def sample_ext_fs_def eb_checked_def
        ocfs2_validate_meta_ecc_def ocfs2_meta_ecc_def)
  have h: "take 7 (h_signature (sample_eb b n r)) = OCFS2_EXTENT_BLOCK_SIGNATURE" "l_next_free_rec (h_list (sample_eb b n r)) \<le> l_count (h_list (sample_eb b n r))"
    for b n r by (simp_all add: sample_eb_def OCFS2_EXTENT_BLOCK_SIGNATURE_def)
  note f = eb_of_block_of_eb [OF sample_eb_fits(1)] eb_of_block_of_eb [OF sample_eb_fits(2)] length_block_of_eb [OF sample_eb_fits(1)]
    length_block_of_eb [OF sample_eb_fits(2)]
  show "ocfs2_read_extent_block sample_ext_fs 10 = Some (Inr (sample_eb 10 11 sample_rec1))"
    using read_eb_checked [OF r(1,3)] r(4) h f by (simp add: sample_disk)
  show "ocfs2_read_extent_block sample_ext_fs 11 = Some (Inr (sample_eb 11 0 sample_rec2))"
    using read_eb_checked [OF r(2,3)] r(4) h f by (simp add: sample_disk)
qed

lemma sample_extents: "inode_extents sample_ext_fs sample_inode [sample_rec1, sample_rec2]"
proof -
  have x: "leaf_exts (h_list (sample_eb 10 11 sample_rec1)) = [sample_rec1]" "leaf_exts (h_list (sample_eb 11 0 sample_rec2)) = [sample_rec2]"
    "used_recs (h_list (sample_eb b n r)) = [r]" for b n r
    by (simp_all add: leaf_exts_def used_recs_def sample_eb_def ocfs2_is_empty_extent_def e_leaf_clusters_def sample_rec1_def sample_rec2_def)
  have l: "leaf_list 0 8 (h_list (sample_eb 10 11 sample_rec1))" "leaf_list 8 10 (h_list (sample_eb 11 0 sample_rec2))"
    unfolding leaf_list_def x
    by (simp_all add: sample_eb_def ocfs2_is_empty_extent_def e_leaf_clusters_def e_end_def sample_rec1_def sample_rec2_def)
  let ?ls = "[(10, sample_eb 10 11 sample_rec1), (11, sample_eb 11 0 sample_rec2)]"
  have "subtree 0 sample_ext_fs 0 8 10 [(10, sample_eb 10 11 sample_rec1)]" "subtree 0 sample_ext_fs 8 10 11 [(11, sample_eb 11 0 sample_rec2)]"
    using sample_reads l x by (simp_all add: sample_eb_def)
  then have "node_list (subtree 0 sample_ext_fs) 0 10 (i_list sample_inode) ?ls" unfolding node_list_def
    by (intro conjI exI [of _ "[[(10, sample_eb 10 11 sample_rec1)], [(11, sample_eb 11 0 sample_rec2)]]"])
      (simp_all add: sample_inode_def used_recs_def del: subtree.simps)
  then have "inode_leaves sample_ext_fs sample_inode ?ls" unfolding inode_leaves_def
    by (intro exI [of _ 0] exI [of _ 10]) (simp add: OCFS2_MAX_PATH_DEPTH_def, simp add: sample_inode_def sample_eb_def)
  moreover have "tree_exts ?ls = [sample_rec1, sample_rec2]" using x by simp
  moreover have "l_tree_depth (i_list sample_inode) \<noteq> 0" by (simp add: sample_inode_def)
  ultimately show ?thesis unfolding inode_extents_def by (simp add: exI [of _ ?ls])
qed

theorem get_clusters_is_lookup_witness:
  "ocfs2_get_clusters sample_ext_fs sample_inode 9 True = Some (Inr (201, Some 1, 1)) \<and>
   ocfs2_get_clusters sample_ext_fs sample_inode 5 True = Some (Inr (0, Some 3, 0))"
  using get_clusters_is_lookup [OF sample_extents, of 9] get_clusters_is_lookup [OF sample_extents, of 5]
  by (simp add: ext_lookup_def rec_covers_def e_end_def e_leaf_clusters_def e_flags_def sample_rec1_def sample_rec2_def ocfs2_blocks_to_clusters_def
      sample_ext_fs_def)


section \<open>Blocks\<close>

lemma blocks_to_clusters_small:
  assumes "b div 2 ^ (s_clustersize_bits fs - s_blocksize_bits fs) < 2 ^ 32"
  shows "unat (ocfs2_blocks_to_clusters fs b) = b div 2 ^ (s_clustersize_bits fs - s_blocksize_bits fs)"
  using assms by (simp add: ocfs2_blocks_to_clusters_def Let_def unat_of_nat take_bit_nat_eq_self)

lemma and_bpc: "b AND (2 ^ k - 1) = b mod 2 ^ k" for b :: nat
  by (simp add: take_bit_eq_mod [symmetric] take_bit_eq_mask mask_eq_exp_minus_1)

lemma shift_small: "c < 2 ^ 32 \<Longrightarrow> k < 31 \<Longrightarrow> c * 2 ^ k < (2 :: nat) ^ 63"
proof -
  assume "c < 2 ^ 32" "k < 31"
  then have "c * 2 ^ k < 2 ^ 32 * 2 ^ k" "(2 :: nat) ^ k \<le> 2 ^ 30" using power_increasing [of k 30 "2 :: nat"] by simp_all
  moreover have "(2 :: nat) ^ 32 * 2 ^ k \<le> 2 ^ 32 * 2 ^ 30" by (rule mult_le_mono2) (use calculation(2) in simp)
  ultimately have "c * 2 ^ k < 2 ^ 32 * 2 ^ 30" using less_le_trans by blast
  then show ?thesis by simp
qed

lemma clusters_to_blocks_small:
  assumes "k = s_clustersize_bits fs - s_blocksize_bits fs" and "k < 31"
  shows "ocfs2_clusters_to_blocks fs c = unat c * 2 ^ k"
  using shift_small [of "unat c" k] assms unsigned_less [of c, where ?'a = nat] by (simp add: ocfs2_clusters_to_blocks_def)

text \<open>
  The block of a file: with \<open>2 ^ k\<close> blocks in a cluster and extents that start at the start of a cluster, a block of an extent
  is at the same distance from the start of the extent in the file and on the disk.
\<close>

lemma get_blocks_in_extent:
  assumes E: "inode_extents fs di E" and r: "r \<in> set E" and k: "k = s_clustersize_bits fs - s_blocksize_bits fs" "k < 31"
    and b: "unat (e_cpos r) * 2 ^ k \<le> b" "b < e_end r * 2 ^ k"
    and al: "2 ^ k dvd e_blkno r" "2 ^ k \<le> e_blkno r" "e_blkno r div 2 ^ k + unat (e_leaf_clusters r) < 2 ^ 32"
  shows "ocfs2_extent_map_get_blocks fs di b = Some (Inr (e_blkno r + (b - unat (e_cpos r) * 2 ^ k), e_end r * 2 ^ k - b, e_flags r))"
proof -
  let ?c = "b div 2 ^ k" and ?v = "ocfs2_blocks_to_clusters fs b" and ?o = "b div 2 ^ k - unat (e_cpos r)"
  obtain hi where hi: "hi < 2 ^ 32" "extents_in 0 hi E" using inode_extents_sorted [OF E] by blast
  have lim: "e_end r \<le> hi" "unat (e_cpos r) < e_end r" using extents_in_bounds(2,3) [OF hi(2) r] by simp_all
  have c: "unat (e_cpos r) \<le> ?c" "?c < e_end r" using b by (simp_all add: less_eq_div_iff_mult_less_eq div_less_iff_less_mult mult.commute)
  have v: "unat ?v = ?c" using c(2) lim hi(1) k(1) by (intro blocks_to_clusters_small [of b fs, folded k(1)]) linarith
  have "rec_covers ?v r" using c v by (simp add: rec_covers_def word_le_nat_alt)
  then have found: "find (rec_covers ?v) E = Some r" by (rule covers_unique [OF hi(2) r])
  have off: "unat (?v - e_cpos r) = ?o" using c(1) v by (simp add: unat_sub word_le_nat_alt)
  have o: "?o < unat (e_leaf_clusters r)" using c by (simp add: e_end_def)
  have pc: "unat (ocfs2_blocks_to_clusters fs (e_blkno r)) = e_blkno r div 2 ^ k" using al(3) k(1) by (intro blocks_to_clusters_small [of "e_blkno r" fs, folded k(1)]) linarith
  have p: "unat (ocfs2_blocks_to_clusters fs (e_blkno r) + (?v - e_cpos r)) = e_blkno r div 2 ^ k + ?o"
    using pc off al(3) o by (simp add: unat_word_ariths)
  have "0 < e_blkno r div 2 ^ k" using al(2) by (simp add: div_greater_zero_iff)
  then have nz: "ocfs2_blocks_to_clusters fs (e_blkno r) + (?v - e_cpos r) \<noteq> 0" using p by (metis add_is_0 not_gr_zero unsigned_0)
  have "unat (ucast (e_leaf_clusters r) :: u32) = unat (e_leaf_clusters r)" by (simp add: unsigned_ucast_eq take_bit_nat_eq_self less_imp_le order.strict_trans2 [OF unsigned_less])
  then have n: "unat (ucast (e_leaf_clusters r) - (?v - e_cpos r) :: u32) = unat (e_leaf_clusters r) - ?o" using off o
    by (subst unat_sub) (simp_all add: word_le_nat_alt)
  let ?K = "2 ^ k :: nat" and ?m = "b mod 2 ^ k" and ?L = "unat (e_leaf_clusters r)"
  have K: "?m < ?K" by simp
  have split: "b = (unat (e_cpos r) + ?o) * ?K + ?m" using c(1) div_mult_mod_eq [of b ?K] by simp
  have blk: "e_blkno r = e_blkno r div ?K * ?K" using al(1) by simp
  have p1: "(e_blkno r div ?K + ?o) * ?K + ?m = e_blkno r + (b - unat (e_cpos r) * ?K)"
    by (subst (2) split, subst (2) blk) (simp add: algebra_simps)
  obtain j where j: "?L = ?o + Suc j" using o less_imp_Suc_add by (metis add_Suc_right)
  then have n1: "(?L - ?o) * ?K - ?m = e_end r * ?K - b"
    by (subst (2) split) (simp add: e_end_def algebra_simps)
  have le: "?m \<le> (?L - ?o) * ?K" using K j by (simp add: less_imp_le trans_le_add1)
  have lt: "(e_blkno r div ?K + ?o) * ?K < 2 ^ 63" "(?L - ?o) * ?K < 2 ^ 63" using al(3) o k(2) by (intro shift_small; linarith)+
  have m: "?m < 2 ^ 63" using K power_increasing [of k 63 "2 :: nat"] k(2) by linarith
  have g: "ocfs2_get_clusters fs di ?v True = Some (Inr (ocfs2_blocks_to_clusters fs (e_blkno r) + (?v - e_cpos r),
      Some (ucast (e_leaf_clusters r) - (?v - e_cpos r)), e_flags r))"
    using get_clusters_ok [OF E, of ?v True] found by (simp add: ext_lookup_def)
  have bpc: "b AND (ocfs2_clusters_to_blocks fs 1 - 1) = ?m" using and_bpc [of b k] by (simp add: clusters_to_blocks_small [OF k])
  have boff: "add64 (ocfs2_clusters_to_blocks fs (ocfs2_blocks_to_clusters fs (e_blkno r) + (?v - e_cpos r))) ?m = e_blkno r + (b - unat (e_cpos r) * ?K)"
    unfolding clusters_to_blocks_small [OF k] p p1 [symmetric] by (rule add64_eq, rule less_le_trans [OF add_less_mono [OF lt(1) m]]) simp
  have cnt: "sub64 (ocfs2_clusters_to_blocks fs (ucast (e_leaf_clusters r) - (?v - e_cpos r))) ?m = e_end r * ?K - b"
    unfolding clusters_to_blocks_small [OF k] n n1 [symmetric] by (rule sub64_eq [OF le], rule less_le_trans [OF lt(2)]) simp
  show ?thesis using nz by (simp add: ocfs2_extent_map_get_blocks_def g bpc [unfolded One_nat_def] boff cnt)
qed


end
