(* ===== verification/Extent_Iterate.thy ===== *)
theory Extent_Iterate
  imports Extent_Map
begin

text \<open>
  Iterating over the extents and blocks of a file: the rest of \<open>libocfs2/extents.c\<close>.  A callback is given an extent record,
  which it may change, and returns flags; a list in which something was changed is trimmed at its first empty record and its block is
  written.  Reading and writing inodes are arguments of the functions.
\<close>

section \<open>The model\<close>

definition OCFS2_EXTENT_CHANGED :: u32 where "OCFS2_EXTENT_CHANGED = 1"
definition OCFS2_EXTENT_ABORT :: u32 where "OCFS2_EXTENT_ABORT = 2"
definition OCFS2_EXTENT_ERROR :: u32 where "OCFS2_EXTENT_ERROR = 4"
definition OCFS2_EXTENT_FLAG_DEPTH_TRAVERSE :: u32 where "OCFS2_EXTENT_FLAG_DEPTH_TRAVERSE = 2"
definition OCFS2_EXTENT_FLAG_DATA_ONLY :: u32 where "OCFS2_EXTENT_FLAG_DATA_ONLY = 4"
definition OCFS2_BLOCK_FLAG_APPEND :: u32 where "OCFS2_BLOCK_FLAG_APPEND = 1"

lemmas extent_flag_defs = OCFS2_EXTENT_CHANGED_def OCFS2_EXTENT_ABORT_def OCFS2_EXTENT_ERROR_def OCFS2_EXTENT_FLAG_DEPTH_TRAVERSE_def
  OCFS2_EXTENT_FLAG_DATA_ONLY_def OCFS2_BLOCK_FLAG_APPEND_def

definition OCFS2_VALID_FL :: u32 where "OCFS2_VALID_FL = 0x01"
definition OCFS2_SUPER_BLOCK_FL :: u32 where "OCFS2_SUPER_BLOCK_FL = 0x20"
definition OCFS2_LOCAL_ALLOC_FL :: u32 where "OCFS2_LOCAL_ALLOC_FL = 0x40"
definition OCFS2_CHAIN_FL :: u32 where "OCFS2_CHAIN_FL = 0x400"

text \<open>
  A callback: the filesystem, the record, its tree depth, the clusters counted so far, the block with the record and its index, and
  the callback's own data; the flags, and what the callback made of the record, of the filesystem and of its data.
\<close>

type_synonym ('m, 's) extent_func =
  "'m filesys \<Rightarrow> extent_rec \<Rightarrow> nat \<Rightarrow> u32 \<Rightarrow> nat \<Rightarrow> nat \<Rightarrow> 's \<Rightarrow> (u32 \<times> extent_rec \<times> 'm filesys \<times> 's) option"

record ('m, 's) extent_context =
  ec_fs :: "'m filesys"
  ec_ccount :: u32
  ec_flags :: u32
  ec_errcode :: "errcode option"
  ec_priv :: 's
  last_eb_blkno :: nat
  last_eb_cpos :: nat

text \<open>A call of the callback.\<close>

definition call_func ::
    "('m, 's) extent_func \<Rightarrow> extent_rec \<Rightarrow> nat \<Rightarrow> nat \<Rightarrow> nat \<Rightarrow> ('m, 's) extent_context \<Rightarrow> (u32 \<times> extent_rec \<times> ('m, 's) extent_context) option" where
  "call_func func rec depth ref_blkno ref_recno ctxt =
     do { (iret, rec, fs, s) \<leftarrow> func (ec_fs ctxt) rec depth (ec_ccount ctxt) ref_blkno ref_recno (ec_priv ctxt);
          Some (iret, rec, ctxt\<lparr>ec_fs := fs, ec_priv := s\<rparr>) }"

type_synonym ('m, 's) eb_step = "extent_rec \<Rightarrow> nat \<Rightarrow> nat \<Rightarrow> ('m, 's) extent_context \<Rightarrow> (u32 \<times> extent_rec \<times> ('m, 's) extent_context) option"

definition set_rec :: "extent_list \<Rightarrow> nat \<Rightarrow> extent_rec \<Rightarrow> extent_list" where
  "set_rec el i rec = el\<lparr>l_recs := (l_recs el)[i := rec]\<rparr>"

text \<open>What is remembered of an interior record: the last leaf so far.\<close>

definition note_last_eb :: "extent_list \<Rightarrow> extent_rec \<Rightarrow> ('m, 's) extent_context \<Rightarrow> ('m, 's) extent_context" where
  "note_last_eb el rec ctxt =
     (if e_int_clusters rec \<noteq> 0 \<and> unat (e_cpos rec) \<ge> last_eb_cpos ctxt
      then ctxt\<lparr>last_eb_blkno := (if l_tree_depth el = 1 then e_blkno rec else last_eb_blkno ctxt), last_eb_cpos := unat (e_cpos rec)\<rparr> else ctxt)"

text \<open>The loop of \<open>extent_iterate_el\<close> from record \<open>i\<close> on, \<open>n\<close> of which are left; \<open>eb\<close> is \<open>extent_iterate_eb\<close>.\<close>

fun el_loop ::
    "('m, 's) eb_step \<Rightarrow> ('m, 's) extent_func \<Rightarrow> nat \<Rightarrow> nat \<Rightarrow> nat \<Rightarrow> extent_list \<Rightarrow> u32 \<Rightarrow> ('m, 's) extent_context \<Rightarrow>
     (u32 \<times> extent_list \<times> ('m, 's) extent_context) option" where
  "el_loop eb func ref_blkno i 0 el iret ctxt = Some (iret, el, ctxt)"
| "el_loop eb func ref_blkno i (Suc n) el iret ctxt =
     (case rec_at el i of
        None \<Rightarrow> None
      | Some rec \<Rightarrow>
          if l_tree_depth el \<noteq> 0 then
            do { (ir, rec, ctxt) \<leftarrow> eb rec ref_blkno i ctxt;
                 let iret = iret OR ir;
                 let el = set_rec el i rec;
                 let ctxt = note_last_eb el rec ctxt;
                 if iret AND (OCFS2_EXTENT_ABORT OR OCFS2_EXTENT_ERROR) \<noteq> 0 then Some (iret, el, ctxt)
                 else el_loop eb func ref_blkno (Suc i) n el iret ctxt }
          else if i = 0 \<and> ocfs2_is_empty_extent rec then el_loop eb func ref_blkno (Suc i) n el iret ctxt
          else do { (ir, rec, ctxt) \<leftarrow> call_func func rec 0 ref_blkno i ctxt;
                    let iret = iret OR ir;
                    let el = set_rec el i rec;
                    let ctxt = ctxt\<lparr>ec_ccount := ec_ccount ctxt + ocfs2_rec_clusters 0 rec\<rparr>;
                    if iret AND (OCFS2_EXTENT_ABORT OR OCFS2_EXTENT_ERROR) \<noteq> 0 then Some (iret, el, ctxt)
                    else el_loop eb func ref_blkno (Suc i) n el iret ctxt })"

text \<open>After a change the list ends before the first record without clusters.\<close>

definition trim_list :: "extent_list \<Rightarrow> extent_list option" where
  "trim_list el =
     do { i \<leftarrow> scan_recs (\<lambda>rec. ocfs2_rec_clusters (l_tree_depth el) rec = 0) (l_recs el) 0 (unat (l_count el));
          Some (if i < unat (l_count el) then el\<lparr>l_next_free_rec := of_nat i\<rparr> else el) }"

definition extent_iterate_el ::
    "('m, 's) eb_step \<Rightarrow> ('m, 's) extent_func \<Rightarrow> extent_list \<Rightarrow> nat \<Rightarrow> ('m, 's) extent_context \<Rightarrow> (u32 \<times> extent_list \<times> ('m, 's) extent_context) option" where
  "extent_iterate_el eb func el ref_blkno ctxt =
     do { (iret, el, ctxt) \<leftarrow> el_loop eb func ref_blkno 0 (unat (l_next_free_rec el)) el 0 ctxt;
          if iret AND OCFS2_EXTENT_CHANGED \<noteq> 0 then do { el \<leftarrow> trim_list el; Some (iret, el, ctxt) } else Some (iret, el, ctxt) }"

text \<open>The end of \<open>extent_iterate_eb\<close>: the block is written if it was changed, and the callback may follow.\<close>

definition iterate_eb_finish ::
    "('m, 's) extent_func \<Rightarrow> nat \<Rightarrow> extent_rec \<Rightarrow> nat \<Rightarrow> nat \<Rightarrow> extent_block \<Rightarrow> u32 \<Rightarrow> u32 \<Rightarrow> ('m, 's) extent_context \<Rightarrow>
     (u32 \<times> extent_rec \<times> ('m, 's) extent_context) option" where
  "iterate_eb_finish func ref_tree_depth rec ref_blkno ref_recno eb iret flags ctxt =
     do { let iret = iret OR (flags AND (OCFS2_EXTENT_ABORT OR OCFS2_EXTENT_ERROR));
          (err, ctxt) \<leftarrow> (if flags AND OCFS2_EXTENT_CHANGED \<noteq> 0
                         then do { (e, fs) \<leftarrow> ocfs2_write_extent_block (ec_fs ctxt) (e_blkno rec) eb; Some (e, ctxt\<lparr>ec_fs := fs, ec_errcode := e\<rparr>) }
                         else Some (None, ctxt));
          if err \<noteq> None then Some (iret OR OCFS2_EXTENT_ERROR, rec, ctxt)
          else if ec_flags ctxt AND OCFS2_EXTENT_FLAG_DEPTH_TRAVERSE \<noteq> 0 \<and> ec_flags ctxt AND OCFS2_EXTENT_FLAG_DATA_ONLY = 0 \<and>
                  iret AND (OCFS2_EXTENT_ABORT OR OCFS2_EXTENT_ERROR) = 0
          then call_func func rec ref_tree_depth ref_blkno ref_recno ctxt
          else Some (iret, rec, ctxt) }"

text \<open>\<open>extent_iterate_eb\<close> for a record of a list of the depth given first; a list has no records of blocks at depth 0.\<close>

primrec extent_iterate_eb :: "nat \<Rightarrow> ('m, 's) extent_func \<Rightarrow> ('m, 's) eb_step" where
  "extent_iterate_eb 0 func = (\<lambda>rec ref_blkno ref_recno ctxt. None)"
| "extent_iterate_eb (Suc tree_depth) func = (\<lambda>rec ref_blkno ref_recno ctxt.
     do { (iret, rec, ctxt) \<leftarrow> (if ec_flags ctxt AND OCFS2_EXTENT_FLAG_DEPTH_TRAVERSE = 0 \<and> ec_flags ctxt AND OCFS2_EXTENT_FLAG_DATA_ONLY = 0
                               then call_func func rec (Suc tree_depth) ref_blkno ref_recno ctxt else Some (0, rec, ctxt));
          if e_blkno rec = 0 \<or> iret AND OCFS2_EXTENT_ABORT \<noteq> 0 then Some (iret, rec, ctxt)
          else if ocfs2_block_out_of_range (ec_fs ctxt) (e_blkno rec)
          then Some (iret OR OCFS2_EXTENT_ERROR, rec, ctxt\<lparr>ec_errcode := Some OCFS2_ET_BAD_BLKNO\<rparr>)
          else do { r \<leftarrow> ocfs2_read_extent_block (ec_fs ctxt) (e_blkno rec);
                    case r of
                      Inl e \<Rightarrow> Some (iret OR OCFS2_EXTENT_ERROR, rec, ctxt\<lparr>ec_errcode := Some e\<rparr>)
                    | Inr eb \<Rightarrow>
                        if unat (l_tree_depth (h_list eb)) \<noteq> tree_depth \<or> h_blkno eb \<noteq> e_blkno rec
                        then Some (iret OR OCFS2_EXTENT_ERROR, rec, ctxt\<lparr>ec_errcode := Some OCFS2_ET_CORRUPT_EXTENT_BLOCK\<rparr>)
                        else do { (flags, el, ctxt) \<leftarrow> extent_iterate_el (extent_iterate_eb tree_depth func) func (h_list eb) (e_blkno rec)
                                                        (ctxt\<lparr>ec_errcode := None\<rparr>);
                                  iterate_eb_finish func (Suc tree_depth) rec ref_blkno ref_recno (eb\<lparr>h_list := el\<rparr>) iret flags ctxt } } })"

text \<open>\<open>junk\<close> is the content of the uninitialised \<open>errcode\<close> of the context.\<close>

definition new_context :: "errcode option \<Rightarrow> 'm filesys \<Rightarrow> u32 \<Rightarrow> 's \<Rightarrow> ('m, 's) extent_context" where
  "new_context junk fs flags s = \<lparr>ec_fs = fs, ec_ccount = 0, ec_flags = flags, ec_errcode = junk, ec_priv = s, last_eb_blkno = 0, last_eb_cpos = 0\<rparr>"

definition iterate_tree ::
    "('m, 's) extent_func \<Rightarrow> extent_list \<Rightarrow> ('m, 's) extent_context \<Rightarrow> (u32 \<times> extent_list \<times> ('m, 's) extent_context) option" where
  "iterate_tree func el ctxt = extent_iterate_el (extent_iterate_eb (unat (l_tree_depth el)) func) func el 0 ctxt"

definition ocfs2_extent_iterate_xattr ::
    "errcode option \<Rightarrow> ('m, 's) extent_func \<Rightarrow> 'm filesys \<Rightarrow> extent_list \<Rightarrow> nat \<Rightarrow> u32 \<Rightarrow> 's \<Rightarrow>
     (errcode option \<times> bool \<times> extent_list \<times> 'm filesys \<times> 's) option" where
  "ocfs2_extent_iterate_xattr junk func fs el last_eb_blk flags s =
     do { (iret, el, ctxt) \<leftarrow> iterate_tree func el (new_context junk fs flags s);
          let ret = (if iret AND OCFS2_EXTENT_ERROR \<noteq> 0 then ec_errcode ctxt else None);
          let iret = (if iret AND OCFS2_EXTENT_ABORT = 0 \<and> last_eb_blk \<noteq> last_eb_blkno ctxt then iret OR OCFS2_EXTENT_CHANGED else iret);
          Some (ret, ret = None \<and> iret AND OCFS2_EXTENT_CHANGED \<noteq> 0, el, ec_fs ctxt, ec_priv ctxt) }"

text \<open>\<open>wr\<close> is \<open>ocfs2_write_inode\<close>, \<open>rd\<close> is \<open>ocfs2_read_inode\<close>.\<close>

definition ocfs2_extent_iterate_inode ::
    "('m filesys \<Rightarrow> ext_dinode \<Rightarrow> errcode option \<times> 'm filesys) \<Rightarrow> errcode option \<Rightarrow> ('m, 's) extent_func \<Rightarrow> 'm filesys \<Rightarrow> ext_dinode \<Rightarrow> u32 \<Rightarrow> 's \<Rightarrow>
     (errcode option \<times> ext_dinode \<times> 'm filesys \<times> 's) option" where
  "ocfs2_extent_iterate_inode wr junk func fs di flags s =
     (if i_flags di AND OCFS2_VALID_FL = 0 then Some (Some OCFS2_ET_INODE_NOT_VALID, di, fs, s)
      else if i_flags di AND (OCFS2_SUPER_BLOCK_FL OR OCFS2_LOCAL_ALLOC_FL OR OCFS2_CHAIN_FL) \<noteq> 0 then Some (Some OCFS2_ET_INODE_CANNOT_BE_ITERATED, di, fs, s)
      else do { (iret, el, ctxt) \<leftarrow> iterate_tree func (i_list di) (new_context junk fs flags s);
                let ret = (if iret AND OCFS2_EXTENT_ERROR \<noteq> 0 then ec_errcode ctxt else None);
                let moved = (iret AND OCFS2_EXTENT_ABORT = 0 \<and> i_last_eb_blk di \<noteq> last_eb_blkno ctxt);
                let di = di\<lparr>i_list := el, i_last_eb_blk := (if moved then last_eb_blkno ctxt else i_last_eb_blk di)\<rparr>;
                let (ret, fs) = (if ret = None \<and> (moved \<or> iret AND OCFS2_EXTENT_CHANGED \<noteq> 0) then wr (ec_fs ctxt) di else (ret, ec_fs ctxt));
                Some (ret, di, fs, ec_priv ctxt) })"

definition ocfs2_extent_iterate ::
    "('m filesys \<Rightarrow> nat \<Rightarrow> ext_dinode result) \<Rightarrow> ('m filesys \<Rightarrow> ext_dinode \<Rightarrow> errcode option \<times> 'm filesys) \<Rightarrow> errcode option \<Rightarrow> ('m, 's) extent_func \<Rightarrow>
     'm filesys \<Rightarrow> nat \<Rightarrow> u32 \<Rightarrow> 's \<Rightarrow> (errcode option \<times> 'm filesys \<times> 's) option" where
  "ocfs2_extent_iterate rd wr junk func fs blkno flags s =
     (case rd fs blkno of
        Inl e \<Rightarrow> Some (Some e, fs, s)
      | Inr di \<Rightarrow> do { (ret, di, fs, s) \<leftarrow> ocfs2_extent_iterate_inode wr junk func fs di flags s; Some (ret, fs, s) })"

subsection \<open>Blocks\<close>

type_synonym ('m, 's) block_func = "'m filesys \<Rightarrow> nat \<Rightarrow> nat \<Rightarrow> byte \<Rightarrow> 's \<Rightarrow> (u32 \<times> 'm filesys \<times> 's) option"

text \<open>The loop over the blocks of an extent, \<open>n\<close> of which are left; \<open>isize\<close> is \<open>i_size\<close> of the inode.\<close>

fun block_loop :: "('m, 's) block_func \<Rightarrow> u32 \<Rightarrow> nat \<Rightarrow> byte \<Rightarrow> nat \<Rightarrow> nat \<Rightarrow> nat \<Rightarrow> u32 \<Rightarrow> 'm filesys \<Rightarrow> 's \<Rightarrow> (u32 \<times> 'm filesys \<times> 's) option" where
  "block_loop func flags isize ext_flags blkno bcount 0 iret fs s = Some (iret, fs, s)"
| "block_loop func flags isize ext_flags blkno bcount (Suc n) iret fs s =
     (if bcount * fs_blocksize fs mod 2 ^ 64 \<ge> isize \<and> flags AND OCFS2_BLOCK_FLAG_APPEND = 0 then Some (iret, fs, s)
      else case func fs blkno bcount ext_flags s of
        None \<Rightarrow> None
      | Some (iret, fs, s) \<Rightarrow>
          if iret AND OCFS2_EXTENT_ABORT \<noteq> 0 then Some (iret, fs, s)
          else block_loop func flags isize ext_flags (add64 blkno 1) (add64 bcount 1) n iret fs s)"

definition block_iterate_func :: "('m, 's) block_func \<Rightarrow> u32 \<Rightarrow> nat \<Rightarrow> ('m, 's) extent_func" where
  "block_iterate_func func flags isize fs rec tree_depth ccount ref_blkno ref_recno s =
     (let bcount = ocfs2_clusters_to_blocks fs (e_cpos rec);
          bend = add64 bcount (ocfs2_clusters_to_blocks fs (ocfs2_rec_clusters (of_nat tree_depth) rec)) in
      do { (iret, fs, s) \<leftarrow> block_loop func flags isize (e_flags rec) (e_blkno rec) bcount (bend - bcount) 0 fs s;
           Some (iret, rec, fs, s) })"

definition ocfs2_block_iterate_inode ::
    "('m filesys \<Rightarrow> ext_dinode \<Rightarrow> errcode option \<times> 'm filesys) \<Rightarrow> errcode option \<Rightarrow> ('m, 's) block_func \<Rightarrow> 'm filesys \<Rightarrow> ext_dinode \<Rightarrow> u32 \<Rightarrow> 's \<Rightarrow>
     (errcode option \<times> ext_dinode \<times> 'm filesys \<times> 's) option" where
  "ocfs2_block_iterate_inode wr junk func fs di flags s =
     ocfs2_extent_iterate_inode wr junk (block_iterate_func func flags (i_size di)) fs di OCFS2_EXTENT_FLAG_DATA_ONLY s"

definition ocfs2_block_iterate ::
    "('m filesys \<Rightarrow> nat \<Rightarrow> ext_dinode result) \<Rightarrow> ('m filesys \<Rightarrow> ext_dinode \<Rightarrow> errcode option \<times> 'm filesys) \<Rightarrow> errcode option \<Rightarrow> ('m, 's) block_func \<Rightarrow>
     'm filesys \<Rightarrow> nat \<Rightarrow> u32 \<Rightarrow> 's \<Rightarrow> (errcode option \<times> 'm filesys \<times> 's) option" where
  "ocfs2_block_iterate rd wr junk func fs blkno flags s =
     (case rd fs blkno of
        Inl e \<Rightarrow> Some (Some e, fs, s)
      | Inr di \<Rightarrow> do { (ret, di, fs, s) \<leftarrow> ocfs2_block_iterate_inode wr junk func fs di flags s; Some (ret, fs, s) })"

section \<open>What the iteration visits\<close>

text \<open>A callback that changes neither records nor the filesystem, and says when to stop.\<close>

type_synonym 's visitor = "extent_rec \<Rightarrow> u32 \<Rightarrow> nat \<Rightarrow> nat \<Rightarrow> 's \<Rightarrow> bool \<times> 's"

definition reader :: "'s visitor \<Rightarrow> ('m, 's) extent_func" where
  "reader f fs rec depth ccount ref_blkno ref_recno s =
     (let (stop, s') = f rec ccount ref_blkno ref_recno s in Some (if stop then OCFS2_EXTENT_ABORT else 0, rec, fs, s'))"

fun visit :: "'s visitor \<Rightarrow> (extent_rec \<times> nat \<times> nat) list \<Rightarrow> u32 \<Rightarrow> 's \<Rightarrow> bool \<times> u32 \<times> 's" where
  "visit f [] cc s = (False, cc, s)"
| "visit f ((r, b, i) # vs) cc s =
     (case f r cc b i s of (stop, s') \<Rightarrow> let cc' = cc + ucast (e_leaf_clusters r) in if stop then (True, cc', s') else visit f vs cc' s')"

lemma visit_append:
  "visit f (xs @ ys) cc s = (case visit f xs cc s of (stop, cc', s') \<Rightarrow> if stop then (True, cc', s') else visit f ys cc' s')"
  by (induction f xs cc s rule: visit.induct) (auto simp: Let_def split: prod.split)

fun visits_from :: "nat \<Rightarrow> nat \<Rightarrow> extent_rec list \<Rightarrow> (extent_rec \<times> nat \<times> nat) list" where
  "visits_from b i [] = []"
| "visits_from b i (r # rs) = (if i = 0 \<and> ocfs2_is_empty_extent r then [] else [(r, b, i)]) @ visits_from b (Suc i) rs"

definition leaf_visits :: "nat \<Rightarrow> extent_list \<Rightarrow> (extent_rec \<times> nat \<times> nat) list" where
  "leaf_visits b el = visits_from b 0 (used_recs el)"

definition tree_visits :: "leaf list \<Rightarrow> (extent_rec \<times> nat \<times> nat) list" where
  "tree_visits ls = concat (map (\<lambda>l. leaf_visits (fst l) (leaf_el l)) ls)"

lemma tree_visits_simps [simp]:
  "tree_visits [] = []" "tree_visits (l # ls) = leaf_visits (fst l) (leaf_el l) @ tree_visits ls" "tree_visits (as @ bs) = tree_visits as @ tree_visits bs"
  by (simp_all add: tree_visits_def)

lemma leaf_visits_recs:
  assumes "leaf_list lo hi el"
  shows "map fst (leaf_visits b el) = leaf_exts el"
proof -
  have tail: "map fst (visits_from b (Suc n) xs) = xs" for n xs by (induction xs arbitrary: n) simp_all
  have pos: "\<forall>r\<in>set (leaf_exts el). \<not> ocfs2_is_empty_extent r" by (simp add: leaf_exts_def)
  have first: "map fst (visits_from b 0 (leaf_exts el)) = leaf_exts el" using pos tail [of 0] by (cases "leaf_exts el") simp_all
  from assms consider "used_recs el = leaf_exts el" | r where "ocfs2_is_empty_extent r" "used_recs el = r # leaf_exts el"
    unfolding leaf_list_def by blast
  then show ?thesis
  proof cases
    case 1
    then show ?thesis using first by (simp add: leaf_visits_def)
  next
    case 2
    then show ?thesis using tail [of 0 "leaf_exts el"] by (simp add: leaf_visits_def)
  qed
qed

text \<open>What a visit leaves in the context.\<close>

definition after_visit :: "'s visitor \<Rightarrow> (extent_rec \<times> nat \<times> nat) list \<Rightarrow> ('m, 's) extent_context \<Rightarrow> ('m, 's) extent_context" where
  "after_visit f vs ctxt = (case visit f vs (ec_ccount ctxt) (ec_priv ctxt) of (stop, cc, s) \<Rightarrow> ctxt\<lparr>ec_ccount := cc, ec_priv := s\<rparr>)"

definition stops :: "'s visitor \<Rightarrow> (extent_rec \<times> nat \<times> nat) list \<Rightarrow> ('m, 's) extent_context \<Rightarrow> bool" where
  "stops f vs ctxt = fst (visit f vs (ec_ccount ctxt) (ec_priv ctxt))"

abbreviation stop_flag :: "bool \<Rightarrow> u32" where
  "stop_flag b \<equiv> if b then OCFS2_EXTENT_ABORT else 0"

lemma set_rec_same: "rec_at el i = Some rec \<Longrightarrow> set_rec el i rec = el"
  by (auto simp: rec_at_def set_rec_def split: if_splits)

lemma leaf_loop:
  assumes "l_tree_depth el = 0" and "i + n = unat (l_next_free_rec el)" and "unat (l_next_free_rec el) \<le> length (l_recs el)"
  shows "el_loop eb (reader f) b i n el 0 ctxt =
    (let vs = visits_from b i (drop i (used_recs el)) in Some (stop_flag (stops f vs ctxt), el, after_visit f vs ctxt))"
  using assms(2)
proof (induction n arbitrary: i ctxt)
  case 0
  then show ?case using scan_used(2) [OF assms(3)] by (simp add: stops_def after_visit_def)
next
  case (Suc n)
  have i: "i < unat (l_next_free_rec el)" using Suc.prems by simp
  define r where "r = used_recs el ! i"
  have at: "rec_at el i = Some r" unfolding r_def by (rule scan_used(3) [OF assms(3) i])
  have "drop i (used_recs el) = r # drop (Suc i) (used_recs el)" using i scan_used(2) [OF assms(3)] by (simp add: Cons_nth_drop_Suc r_def)
  then have vs: "visits_from b i (drop i (used_recs el)) =
      (if i = 0 \<and> ocfs2_is_empty_extent r then [] else [(r, b, i)]) @ visits_from b (Suc i) (drop (Suc i) (used_recs el))" by simp
  have ih: "el_loop eb (reader f) b (Suc i) n el 0 c =
      (let vs = visits_from b (Suc i) (drop (Suc i) (used_recs el)) in Some (stop_flag (stops f vs c), el, after_visit f vs c))" for c
    by (rule Suc.IH) (use Suc.prems in simp)
  show ?case
  proof (cases "i = 0 \<and> ocfs2_is_empty_extent r")
    case True
    then show ?thesis unfolding vs using at assms(1) ih [of ctxt] by (simp only: el_loop.simps option.case if_True if_False simp_thms append.simps)
  next
    case False
    obtain stop s' where f: "f r (ec_ccount ctxt) b i (ec_priv ctxt) = (stop, s')" by fastforce
    let ?c = "ctxt\<lparr>ec_priv := s', ec_ccount := ec_ccount ctxt + ucast (e_leaf_clusters r)\<rparr>"
    have call: "call_func (reader f) r 0 b i ctxt = Some (stop_flag stop, r, ctxt\<lparr>ec_priv := s'\<rparr>)"
      using f by (simp add: call_func_def reader_def)
    have "el_loop eb (reader f) b i (Suc n) el 0 ctxt =
        (if stop then Some (OCFS2_EXTENT_ABORT, el, ?c) else el_loop eb (reader f) b (Suc i) n el 0 ?c)"
      using at assms(1) False call set_rec_same [OF at] by (auto simp: ocfs2_rec_clusters_def extent_flag_defs)
    then show ?thesis unfolding vs using ih [of ?c] f False
      by (auto simp: stops_def after_visit_def Let_def split: prod.split)
  qed
qed

subsection \<open>Trees\<close>

definition visited :: "'s visitor \<Rightarrow> (extent_rec \<times> nat \<times> nat) list \<Rightarrow> ('m, 's) extent_context \<Rightarrow> ('m, 's) extent_context \<Rightarrow> bool" where
  "visited f vs c c' \<longleftrightarrow> ec_ccount c' = ec_ccount (after_visit f vs c) \<and> ec_priv c' = ec_priv (after_visit f vs c) \<and> ec_fs c' = ec_fs c \<and> ec_flags c' = ec_flags c"

lemma visited_append:
  assumes "visited f vs c c'"
  shows "stops f vs c \<Longrightarrow> visited f (vs @ ws) c c'" and "stops f vs c \<Longrightarrow> stops f (vs @ ws) c"
    and "\<not> stops f vs c \<Longrightarrow> visited f ws c' c'' \<Longrightarrow> visited f (vs @ ws) c c''" and "\<not> stops f vs c \<Longrightarrow> stops f (vs @ ws) c = stops f ws c'"
  using assms by (simp_all add: visited_def stops_def after_visit_def visit_append split: prod.splits)

definition reading :: "'m filesys \<Rightarrow> ('m, 's) extent_context \<Rightarrow> bool" where
  "reading fs c \<longleftrightarrow> ec_fs c = fs \<and> ec_flags c = OCFS2_EXTENT_FLAG_DATA_ONLY"

definition noted :: "leaf list \<Rightarrow> nat \<Rightarrow> ('m, 's) extent_context \<Rightarrow> bool" where
  "noted ls hi c \<longleftrightarrow> last_eb_blkno c = fst (last ls) \<and> last_eb_cpos c < hi"

lemma visited_reading: "visited f vs c c' \<Longrightarrow> reading fs c \<Longrightarrow> reading fs c'"
  by (simp add: visited_def reading_def)

lemma visited_same: "visited f vs c c' \<Longrightarrow> ec_ccount c'' = ec_ccount c' \<Longrightarrow> ec_priv c'' = ec_priv c' \<Longrightarrow> ec_fs c'' = ec_fs c' \<Longrightarrow>
    ec_flags c'' = ec_flags c' \<Longrightarrow> visited f vs c c''"
  by (simp add: visited_def)

lemma visited_note: "visited f vs c c' \<Longrightarrow> visited f vs c (note_last_eb el rec c')"
  by (simp add: visited_def note_last_eb_def)

text \<open>The step of \<open>extent_iterate_eb\<close> for a subtree.\<close>

definition eb_ok :: "'s visitor \<Rightarrow> 'm filesys \<Rightarrow> nat \<Rightarrow> bool" where
  "eb_ok f fs d \<longleftrightarrow> (\<forall>lo hi b ls rec ref_blkno n c. subtree d fs lo hi b ls \<and> e_blkno rec = b \<and> b \<noteq> 0 \<and> reading fs c \<and> last_eb_cpos c \<le> lo \<longrightarrow>
     (\<exists>c'. extent_iterate_eb (Suc d) (reader f) rec ref_blkno n c = Some (stop_flag (stops f (tree_visits ls) c), rec, c') \<and>
        visited f (tree_visits ls) c c' \<and>
        (\<not> stops f (tree_visits ls) c \<longrightarrow> (if d = 0 then last_eb_cpos c' = last_eb_cpos c else noted ls hi c'))))"

lemma subtree_range: "subtree d fs lo hi b ls \<Longrightarrow> lo < hi \<and> ls \<noteq> []"
proof -
  assume "subtree d fs lo hi b ls"
  then have e: "extents_in lo hi (tree_exts ls)" "tree_exts ls \<noteq> []" using subtree_exts by blast+
  then obtain r where "r \<in> set (tree_exts ls)" by (cases "tree_exts ls") auto
  from extents_in_bounds(1-3) [OF e(1) this] show ?thesis using e(2) by auto
qed

lemma children_nonempty: "children (subtree d fs) lo hi rs lss \<Longrightarrow> lss \<noteq> [] \<Longrightarrow> concat lss \<noteq> []"
  using subtree_range [of d fs] by (cases rs; cases lss) fastforce+

lemma note_after:
  assumes "subtree d fs lo hi b ls" and "unat (l_tree_depth el) = Suc d" and "unat (e_cpos r) = lo" and "e_blkno r = b" and "hi = lo + unat (e_int_clusters r)"
    and "if d = 0 then last_eb_cpos c \<le> lo else noted ls hi c"
  shows "noted ls hi (note_last_eb el r c)"
proof (cases "d = 0")
  case True
  then obtain eb where "ls = [(b, eb)]" using assms(1) by auto
  moreover have "l_tree_depth el = 1" using assms(2) True by (simp add: word_unat_eq_iff)
  moreover have "e_int_clusters r \<noteq> 0" using subtree_range [OF assms(1)] assms(5) by auto
  ultimately show ?thesis using assms(3,4,6) True subtree_range [OF assms(1)] by (simp add: noted_def note_last_eb_def)
next
  case False
  then have "l_tree_depth el \<noteq> 1" using assms(2) by auto
  then show ?thesis using assms(3,6) False subtree_range [OF assms(1)] by (simp add: noted_def note_last_eb_def)
qed

lemma node_loop:
  assumes ok: "eb_ok f fs d" and el: "unat (l_tree_depth el) = Suc d" "unat (l_next_free_rec el) \<le> length (l_recs el)"
    and "i + n = unat (l_next_free_rec el)" and "children (subtree d fs) lo hi (drop i (used_recs el)) lss" and "reading fs c" and "last_eb_cpos c \<le> lo"
  shows "\<exists>c'. el_loop (extent_iterate_eb (Suc d) (reader f)) (reader f) b i n el 0 c = Some (stop_flag (stops f (tree_visits (concat lss)) c), el, c') \<and>
    visited f (tree_visits (concat lss)) c c' \<and> (\<not> stops f (tree_visits (concat lss)) c \<and> lss \<noteq> [] \<longrightarrow> noted (concat lss) hi c')"
  using assms(4-)
proof (induction n arbitrary: i lo lss c)
  case 0
  then have "lss = []" using scan_used(2) [OF el(2)] by (cases lss) simp_all
  then show ?case by (intro exI [of _ c]) (simp add: stops_def visited_def after_visit_def)
next
  case (Suc n)
  have i: "i < unat (l_next_free_rec el)" using Suc.prems(1) by simp
  define r where "r = used_recs el ! i"
  have at: "rec_at el i = Some r" unfolding r_def by (rule scan_used(3) [OF el(2) i])
  have drop: "drop i (used_recs el) = r # drop (Suc i) (used_recs el)" using i scan_used(2) [OF el(2)] by (simp add: Cons_nth_drop_Suc r_def)
  obtain ls lss' where lss: "lss = ls # lss'" using Suc.prems(2) drop by (cases lss) simp_all
  let ?mid = "lo + unat (e_int_clusters r)"
  have r: "unat (e_cpos r) = lo" "e_blkno r \<noteq> 0" "subtree d fs lo ?mid (e_blkno r) ls" "children (subtree d fs) ?mid hi (drop (Suc i) (used_recs el)) lss'"
    using Suc.prems(2) unfolding drop lss by simp_all
  obtain c1 where c1: "extent_iterate_eb (Suc d) (reader f) r b i c = Some (stop_flag (stops f (tree_visits ls) c), r, c1)" "visited f (tree_visits ls) c c1"
    "\<not> stops f (tree_visits ls) c \<longrightarrow> (if d = 0 then last_eb_cpos c1 = last_eb_cpos c else noted ls ?mid c1)"
    using ok r(2,3) Suc.prems(3,4) unfolding eb_ok_def by blast
  let ?c2 = "note_last_eb el r c1"
  have v2: "visited f (tree_visits ls) c ?c2" by (rule visited_note [OF c1(2)])
  have depth: "l_tree_depth el \<noteq> 0" using el(1) by auto
  have step: "el_loop (extent_iterate_eb (Suc d) (reader f)) (reader f) b i (Suc n) el 0 c =
      (if stops f (tree_visits ls) c then Some (OCFS2_EXTENT_ABORT, el, ?c2) else el_loop (extent_iterate_eb (Suc d) (reader f)) (reader f) b (Suc i) n el 0 ?c2)"
    using at depth c1(1) set_rec_same [OF at] by (auto simp: extent_flag_defs simp del: extent_iterate_eb.simps)
  show ?case
  proof (cases "stops f (tree_visits ls) c")
    case True
    then show ?thesis using step visited_append(1,2) [OF v2] lss by simp
  next
    case False
    then have n2: "noted ls ?mid ?c2" using note_after [OF r(3) el(1) r(1) refl refl, of c1] c1(3) Suc.prems(4) by (simp split: if_splits)
    then have cp: "last_eb_cpos ?c2 \<le> ?mid" by (simp add: noted_def)
    obtain c' where c': "el_loop (extent_iterate_eb (Suc d) (reader f)) (reader f) b (Suc i) n el 0 ?c2 = Some (stop_flag (stops f (tree_visits (concat lss')) ?c2), el, c')"
      "visited f (tree_visits (concat lss')) ?c2 c'" "\<not> stops f (tree_visits (concat lss')) ?c2 \<and> lss' \<noteq> [] \<longrightarrow> noted (concat lss') hi c'"
      using Suc.IH [OF _ r(4) visited_reading [OF v2 Suc.prems(3)] cp] Suc.prems(1) by auto
    have "noted (concat lss) hi c'" if "\<not> stops f (tree_visits (concat lss')) ?c2"
    proof (cases "lss' = []")
      case True
      then have "drop (Suc i) (used_recs el) = []" "hi = ?mid" using r(4) by (cases "drop (Suc i) (used_recs el)"; simp)+
      moreover from this(1) have "n = 0" using Suc.prems(1) scan_used(2) [OF el(2)] by simp
      ultimately show ?thesis using c'(1) n2 lss True by simp
    next
      case False
      then have "concat lss' \<noteq> []" using children_nonempty [OF r(4)] by simp
      then show ?thesis using c'(3) that lss False by (simp add: noted_def)
    qed
    then show ?thesis using False step c'(1) visited_append(3,4) [OF v2] c'(2) lss by (intro exI [of _ c']) auto
  qed
qed


lemma el_no_change:
  assumes "el_loop eb func b 0 (unat (l_next_free_rec el)) el 0 c = Some (stop_flag stop, el, c')"
  shows "extent_iterate_el eb func el b c = Some (stop_flag stop, el, c')"
  using assms by (auto simp: extent_iterate_el_def extent_flag_defs)

lemma read_in_range: "ocfs2_read_extent_block fs b = Some (Inr eb) \<Longrightarrow> \<not> ocfs2_block_out_of_range fs b"
  by (auto simp: ocfs2_read_extent_block_def ocfs2_read_extent_block_nocheck_def)

text \<open>A block whose list is visited without a change.\<close>

lemma eb_step_ok:
  assumes "ocfs2_read_extent_block fs (e_blkno rec) = Some (Inr eb)" and "h_blkno eb = e_blkno rec" and "unat (l_tree_depth (h_list eb)) = d"
    and "e_blkno rec \<noteq> 0" and "reading fs c"
    and "extent_iterate_el (extent_iterate_eb d (reader f)) (reader f) (h_list eb) (e_blkno rec) (c\<lparr>ec_errcode := None\<rparr>) = Some (stop_flag stop, el, c')"
    and "reading fs c'"
  shows "extent_iterate_eb (Suc d) (reader f) rec ref_blkno n c = Some (stop_flag stop, rec, c')"
  using assms read_in_range [OF assms(1)] by (auto simp: reading_def iterate_eb_finish_def extent_flag_defs)

lemma stops_errcode [simp]: "stops f vs (c\<lparr>ec_errcode := e\<rparr>) = stops f vs c"
  by (simp add: stops_def)

lemma visited_errcode: "visited f vs (c\<lparr>ec_errcode := e\<rparr>) c' = visited f vs c c'"
  by (simp add: visited_def after_visit_def split: prod.split)

lemma eb_ok_all:
  fixes f :: "'s visitor" and fs :: "'m filesys"
  shows "eb_ok f fs d"
proof (induction d)
  case 0
  show ?case unfolding eb_ok_def
  proof (intro allI impI, elim conjE)
    fix lo hi b ls ref_blkno n and rec :: extent_rec and c :: "('m, 's) extent_context"
    assume s: "subtree 0 fs lo hi b ls" "e_blkno rec = b" "b \<noteq> 0" "reading fs c" "last_eb_cpos c \<le> lo"
    then obtain eb where eb: "ocfs2_read_extent_block fs b = Some (Inr eb)" "ls = [(b, eb)]" "h_blkno eb = b" "leaf_list lo hi (h_list eb)" by auto
    let ?c = "c\<lparr>ec_errcode := None\<rparr>" and ?vs = "leaf_visits b (h_list eb)"
    have l: "l_tree_depth (h_list eb) = 0" "unat (l_next_free_rec (h_list eb)) \<le> length (l_recs (h_list eb))" using eb(4) by (simp_all add: leaf_list_def)
    have "extent_iterate_el (extent_iterate_eb 0 (reader f)) (reader f) (h_list eb) b ?c = Some (stop_flag (stops f ?vs c), h_list eb, after_visit f ?vs ?c)"
      using leaf_loop [OF l(1) _ l(2), of 0 _ _ f b ?c] by (intro el_no_change) (simp add: leaf_visits_def Let_def)
    moreover have v: "visited f ?vs c (after_visit f ?vs ?c)" by (simp add: visited_def after_visit_def split: prod.split)
    ultimately have "extent_iterate_eb (Suc 0) (reader f) rec ref_blkno n c = Some (stop_flag (stops f ?vs c), rec, after_visit f ?vs ?c)"
      using eb(1,3) l(1) s(2-4) visited_reading [OF v s(4)] by (intro eb_step_ok) simp_all
    moreover have "tree_visits ls = ?vs" using eb(2) by simp
    moreover have "last_eb_cpos (after_visit f ?vs ?c) = last_eb_cpos c" by (simp add: after_visit_def split: prod.split)
    ultimately show "\<exists>c'. extent_iterate_eb (Suc 0) (reader f) rec ref_blkno n c = Some (stop_flag (stops f (tree_visits ls) c), rec, c') \<and>
        visited f (tree_visits ls) c c' \<and>
        (\<not> stops f (tree_visits ls) c \<longrightarrow> (if (0 :: nat) = 0 then last_eb_cpos c' = last_eb_cpos c else noted ls hi c'))"
      using v by (intro exI [of _ "after_visit f ?vs ?c"]) simp
  qed
next
  case (Suc d)
  show ?case unfolding eb_ok_def
  proof (intro allI impI, elim conjE)
    fix lo hi b ls ref_blkno n and rec :: extent_rec and c :: "('m, 's) extent_context"
    assume s: "subtree (Suc d) fs lo hi b ls" "e_blkno rec = b" "b \<noteq> 0" "reading fs c" "last_eb_cpos c \<le> lo"
    then obtain eb lss where eb: "ocfs2_read_extent_block fs b = Some (Inr eb)" "h_blkno eb = b" "unat (l_tree_depth (h_list eb)) = Suc d"
      "unat (l_next_free_rec (h_list eb)) \<le> length (l_recs (h_list eb))" "children (subtree d fs) lo hi (drop 0 (used_recs (h_list eb))) lss" "ls = concat lss"
      by (auto simp: node_list_def)
    let ?c = "c\<lparr>ec_errcode := None\<rparr>" and ?vs = "tree_visits ls"
    have c: "reading fs ?c" "last_eb_cpos ?c \<le> lo" using s(4,5) by (simp_all add: reading_def)
    have "0 + unat (l_next_free_rec (h_list eb)) = unat (l_next_free_rec (h_list eb))" by simp
    from node_loop [OF Suc.IH eb(3,4) this eb(5) c, of b] obtain c' where
      c': "el_loop (extent_iterate_eb (Suc d) (reader f)) (reader f) b 0 (unat (l_next_free_rec (h_list eb))) (h_list eb) 0 ?c =
          Some (stop_flag (stops f ?vs c), h_list eb, c')" "visited f ?vs c c'" "\<not> stops f ?vs c \<and> lss \<noteq> [] \<longrightarrow> noted ls hi c'"
      unfolding eb(6) [symmetric] visited_errcode stops_errcode by blast
    have "extent_iterate_eb (Suc (Suc d)) (reader f) rec ref_blkno n c = Some (stop_flag (stops f ?vs c), rec, c')"
      using eb(1-3) s(2-4) el_no_change [OF c'(1)] visited_reading [OF c'(2) s(4)] by (intro eb_step_ok) simp_all
    moreover have "lss \<noteq> []" using subtree_range [OF s(1)] eb(6) by auto
    ultimately show "\<exists>c'. extent_iterate_eb (Suc (Suc d)) (reader f) rec ref_blkno n c = Some (stop_flag (stops f (tree_visits ls) c), rec, c') \<and>
        visited f (tree_visits ls) c c' \<and>
        (\<not> stops f (tree_visits ls) c \<longrightarrow> (if Suc d = 0 then last_eb_cpos c' = last_eb_cpos c else noted ls hi c'))"
      using c'(2,3) by (intro exI [of _ c']) simp
  qed
qed

text \<open>The whole tree of an inode.\<close>

lemma tree_visits_recs: "(\<And>l. l \<in> set ls \<Longrightarrow> good_leaf fs l) \<Longrightarrow> map fst (tree_visits ls) = tree_exts ls"
proof (induction ls)
  case (Cons l ls)
  then have "good_leaf fs l" by simp
  then obtain lo hi where "leaf_list lo hi (leaf_el l)" unfolding good_leaf_def by blast
  then show ?case using Cons leaf_visits_recs by simp
qed simp

lemma iterate_tree_ok:
  assumes "inode_extents fs di E" and "reading fs c" and "last_eb_cpos c = 0" and "last_eb_blkno c = 0"
  shows "\<exists>vs c'. map fst vs = E \<and> iterate_tree (reader f) (i_list di) c = Some (stop_flag (stops f vs c), i_list di, c') \<and> visited f vs c c' \<and>
    (\<not> stops f vs c \<longrightarrow> last_eb_blkno c' = i_last_eb_blk di)"
proof (cases "l_tree_depth (i_list di) = 0")
  case True
  then obtain hi where l: "leaf_list 0 hi (i_list di)" "E = leaf_exts (i_list di)" "i_last_eb_blk di = 0" using assms(1) by (auto simp: inode_extents_def)
  let ?vs = "leaf_visits 0 (i_list di)"
  have nf: "unat (l_next_free_rec (i_list di)) \<le> length (l_recs (i_list di))" using l(1) by (simp add: leaf_list_def)
  have "iterate_tree (reader f) (i_list di) c = Some (stop_flag (stops f ?vs c), i_list di, after_visit f ?vs c)"
    using leaf_loop [OF True _ nf, of 0 _ _ f 0 c] unfolding iterate_tree_def by (intro el_no_change) (simp add: leaf_visits_def Let_def)
  then show ?thesis using leaf_visits_recs [OF l(1), of 0] l(2,3) assms(4)
    by (intro exI [of _ ?vs] exI [of _ "after_visit f ?vs c"]) (simp add: visited_def after_visit_def split: prod.split)
next
  case False
  then obtain ls where ls: "inode_leaves fs di ls" "E = tree_exts ls" using assms(1) by (auto simp: inode_extents_def)
  then obtain d hi lss where t: "unat (l_tree_depth (i_list di)) = Suc d" "unat (l_next_free_rec (i_list di)) \<le> length (l_recs (i_list di))"
    "children (subtree d fs) 0 hi (drop 0 (used_recs (i_list di))) lss" "ls = concat lss" "i_last_eb_blk di = fst (last ls)"
    by (auto simp: inode_leaves_def node_list_def)
  have "tree_exts ls \<noteq> []" using ls(1) node_exts(2) unfolding inode_leaves_def by blast
  then have ne: "lss \<noteq> []" using t(4) by auto
  have "0 + unat (l_next_free_rec (i_list di)) = unat (l_next_free_rec (i_list di))" "last_eb_cpos c \<le> 0" using assms(3) by simp_all
  from node_loop [OF eb_ok_all t(1,2) this(1) t(3) assms(2) this(2), of f 0] obtain c' where
    c': "el_loop (extent_iterate_eb (Suc d) (reader f)) (reader f) 0 0 (unat (l_next_free_rec (i_list di))) (i_list di) 0 c =
        Some (stop_flag (stops f (tree_visits ls) c), i_list di, c')" "visited f (tree_visits ls) c c'"
      "\<not> stops f (tree_visits ls) c \<and> lss \<noteq> [] \<longrightarrow> noted ls hi c'" unfolding t(4) by blast
  have "iterate_tree (reader f) (i_list di) c = Some (stop_flag (stops f (tree_visits ls) c), i_list di, c')"
    unfolding iterate_tree_def t(1) by (rule el_no_change [OF c'(1)])
  moreover have "map fst (tree_visits ls) = E" using tree_visits_recs [of ls fs] inode_good_leaves [OF ls(1)] ls(2) by blast
  ultimately show ?thesis using c'(2,3) ne t(5) by (intro exI [of _ "tree_visits ls"] exI [of _ c']) (simp add: noted_def)
qed

text \<open>
  C10: \<open>ocfs2_extent_iterate_inode\<close> with the flag \<open>OCFS2_EXTENT_FLAG_DATA_ONLY\<close> and a callback that changes nothing visits exactly the extents of the file, in their order, however deep
  the tree is, each with the number of clusters of the extents before it, until the callback asks to stop; the inode and the
  disk stay as they are and no error is reported.
\<close>

theorem extent_iterate_visits_extents:
  assumes "inode_extents fs di E" and "i_flags di AND OCFS2_VALID_FL \<noteq> 0"
    and "i_flags di AND (OCFS2_SUPER_BLOCK_FL OR OCFS2_LOCAL_ALLOC_FL OR OCFS2_CHAIN_FL) = 0"
  shows "\<exists>vs. map fst vs = E \<and> ocfs2_extent_iterate_inode wr junk (reader f) fs di OCFS2_EXTENT_FLAG_DATA_ONLY s =
    Some (None, di, fs, snd (snd (visit f vs 0 s)))"
proof -
  let ?c = "new_context junk fs OCFS2_EXTENT_FLAG_DATA_ONLY s"
  have c: "reading fs ?c" "last_eb_cpos ?c = 0" "last_eb_blkno ?c = 0" by (simp_all add: reading_def new_context_def)
  obtain vs c' where v: "map fst vs = E" "iterate_tree (reader f) (i_list di) ?c = Some (stop_flag (stops f vs ?c), i_list di, c')" "visited f vs ?c c'"
    "\<not> stops f vs ?c \<longrightarrow> last_eb_blkno c' = i_last_eb_blk di" using iterate_tree_ok [OF assms(1) c, of f] by blast
  have "ec_fs c' = fs" "ec_priv c' = snd (snd (visit f vs 0 s))" using v(3) by (simp_all add: visited_def after_visit_def new_context_def split: prod.split)
  then have "ocfs2_extent_iterate_inode wr junk (reader f) fs di OCFS2_EXTENT_FLAG_DATA_ONLY s = Some (None, di, fs, snd (snd (visit f vs 0 s)))"
    using assms(2,3) v(2,4) by (auto simp: ocfs2_extent_iterate_inode_def Let_def extent_flag_defs)
  then show ?thesis using v(1) by blast
qed

definition collect :: "(u32 \<times> nat \<times> u32) list visitor" where
  "collect r cc b i s = (False, s @ [(e_cpos r, e_blkno r, cc)])"

theorem extent_iterate_visits_extents_witness:
  "ocfs2_extent_iterate_inode (\<lambda>fs di. (None, fs)) None (reader collect) sample_ext_fs sample_inode OCFS2_EXTENT_FLAG_DATA_ONLY [] =
    Some (None, sample_inode, sample_ext_fs, [(0, 100, 0), (8, 200, 4)])"
proof -
  have f: "i_flags sample_inode AND OCFS2_VALID_FL \<noteq> 0" "i_flags sample_inode AND (OCFS2_SUPER_BLOCK_FL OR OCFS2_LOCAL_ALLOC_FL OR OCFS2_CHAIN_FL) = 0"
    by (simp_all add: sample_inode_def OCFS2_VALID_FL_def OCFS2_SUPER_BLOCK_FL_def OCFS2_LOCAL_ALLOC_FL_def OCFS2_CHAIN_FL_def)
  show ?thesis
    by (rule exE [OF extent_iterate_visits_extents [OF sample_extents f, of "\<lambda>fs di. (None, fs)" None collect "[]"]])
      (auto simp: collect_def sample_rec1_def sample_rec2_def e_leaf_clusters_def)
qed


section \<open>Two defects\<close>

text \<open>
  A leaf may start with an empty record, which the loop skips; after a change, though, the list is cut at that record and
  all its extents are lost.
\<close>

lemma trim_loses_extents:
  assumes "l_tree_depth el = 0" and "l_recs el = r # rs" and "ocfs2_is_empty_extent r" and "l_count el \<noteq> 0"
  shows "trim_list el = Some (el\<lparr>l_next_free_rec := 0\<rparr>)"
proof -
  obtain n where "unat (l_count el) = Suc n" using assms(4) by (metis not0_implies_Suc unat_eq_zero)
  then show ?thesis using assms by (simp add: trim_list_def ocfs2_rec_clusters_def ocfs2_is_empty_extent_def)
qed

text \<open>An error that the callback reports is answered with whatever the uninitialised \<open>errcode\<close> holds, possibly with success.\<close>

lemma callback_error_uninitialised:
  assumes "i_flags di AND OCFS2_VALID_FL \<noteq> 0" and "i_flags di AND (OCFS2_SUPER_BLOCK_FL OR OCFS2_LOCAL_ALLOC_FL OR OCFS2_CHAIN_FL) = 0"
    and "l_tree_depth (i_list di) = 0" and "l_next_free_rec (i_list di) = 1" and "l_recs (i_list di) = r # rs" and "\<not> ocfs2_is_empty_extent r"
    and "i_last_eb_blk di = 0"
  shows "ocfs2_extent_iterate_inode wr junk (\<lambda>fs rec depth cc b i s. Some (OCFS2_EXTENT_ERROR, rec, fs, s)) fs di flags s = Some (junk, di, fs, s)"
proof -
  have "di\<lparr>i_list := i_list di, i_last_eb_blk := i_last_eb_blk di\<rparr> = di" by simp
  moreover have "set_rec (i_list di) 0 r = i_list di" using assms(5) by (intro set_rec_same) (simp add: rec_at_def)
  moreover have "rec_at (i_list di) 0 = Some r" using assms(5) by (simp add: rec_at_def)
  ultimately show ?thesis using assms
    by (simp add: ocfs2_extent_iterate_inode_def iterate_tree_def extent_iterate_el_def call_func_def new_context_def extent_flag_defs)
qed


end
