(* ===== verification/Extent_Insert.thy ===== *)
theory Extent_Insert
  imports Extent_Map
begin

text \<open>
  Inserting an extent into a leaf: the functions of \<open>libocfs2/extend_file.c\<close> that work on one list of a leaf, be it in an inode or in
  an extent block.  Whether the new extent can be joined with one that is there, whether it comes after the last one, and
  the insertion itself, which may have to move records.

  What a list means is its cluster map, from the clusters of the file to the blocks of the disk.
\<close>

section \<open>The model\<close>

datatype ocfs2_contig_type = CONTIG_NONE | CONTIG_LEFT | CONTIG_RIGHT | CONTIG_LEFTRIGHT
datatype ocfs2_append_type = APPEND_NONE | APPEND_TAIL
datatype ocfs2_split_type = SPLIT_NONE | SPLIT_LEFT | SPLIT_RIGHT

record ocfs2_insert_type =
  ins_split :: ocfs2_split_type
  ins_appending :: ocfs2_append_type
  ins_contig :: ocfs2_contig_type
  ins_contig_index :: nat
  ins_tree_depth :: nat

text \<open>A record for a leaf; \<open>e_leaf_clusters\<close> has 16 bits, so a larger number of clusters is cut.\<close>

definition leaf_rec :: "u32 \<Rightarrow> u16 \<Rightarrow> byte \<Rightarrow> nat \<Rightarrow> extent_rec" where
  "leaf_rec cpos clusters flags blkno = \<lparr>e_cpos = cpos, e_int_clusters = ucast clusters OR push_bit 24 (ucast flags), e_blkno = blkno\<rparr>"

definition set_leaf_clusters :: "extent_rec \<Rightarrow> u16 \<Rightarrow> extent_rec" where
  "set_leaf_clusters rec n = rec\<lparr>e_int_clusters := (e_int_clusters rec AND NOT (mask 16)) OR ucast n\<rparr>"

definition ocfs2_block_extent_contig :: "'m filesys \<Rightarrow> extent_rec \<Rightarrow> nat \<Rightarrow> bool" where
  "ocfs2_block_extent_contig fs ext blkno \<longleftrightarrow> blkno = add64 (e_blkno ext) (ocfs2_clusters_to_blocks fs (ucast (e_leaf_clusters ext)))"

definition ocfs2_extents_adjacent :: "extent_rec \<Rightarrow> extent_rec \<Rightarrow> bool" where
  "ocfs2_extents_adjacent lrec rrec \<longleftrightarrow> e_cpos lrec + ucast (e_leaf_clusters lrec) = e_cpos rrec"

definition ocfs2_extent_contig :: "'m filesys \<Rightarrow> extent_rec \<Rightarrow> extent_rec \<Rightarrow> ocfs2_contig_type" where
  "ocfs2_extent_contig fs ext insert_rec =
     (if e_flags ext \<noteq> e_flags insert_rec then CONTIG_NONE
      else if ocfs2_extents_adjacent ext insert_rec \<and> ocfs2_block_extent_contig fs ext (e_blkno insert_rec) then CONTIG_RIGHT
      else if ocfs2_extents_adjacent insert_rec ext \<and> ocfs2_block_extent_contig fs insert_rec (e_blkno ext) then CONTIG_LEFT
      else CONTIG_NONE)"

definition ocfs2_figure_contig_type :: "'m filesys \<Rightarrow> ocfs2_insert_type \<Rightarrow> extent_list \<Rightarrow> extent_rec \<Rightarrow> ocfs2_insert_type option" where
  "ocfs2_figure_contig_type fs ins el insert_rec =
     (if l_tree_depth el \<noteq> 0 then None
      else do { i \<leftarrow> scan_recs (\<lambda>rec. ocfs2_extent_contig fs rec insert_rec \<noteq> CONTIG_NONE) (l_recs el) 0 (unat (l_next_free_rec el));
                if i < unat (l_next_free_rec el)
                then do { rec \<leftarrow> rec_at el i; Some (ins\<lparr>ins_contig_index := i, ins_contig := ocfs2_extent_contig fs rec insert_rec\<rparr>) }
                else Some (ins\<lparr>ins_contig := CONTIG_NONE\<rparr>) })"

definition ocfs2_figure_appending_type :: "ocfs2_insert_type \<Rightarrow> extent_list \<Rightarrow> extent_rec \<Rightarrow> ocfs2_insert_type option" where
  "ocfs2_figure_appending_type ins el insert_rec =
     (if l_tree_depth el \<noteq> 0 then None
      else if l_next_free_rec el = 0 then Some (ins\<lparr>ins_appending := APPEND_TAIL\<rparr>)
      else do { first \<leftarrow> rec_at el 0;
                if ocfs2_is_empty_extent first \<and> l_next_free_rec el = 1 then Some (ins\<lparr>ins_appending := APPEND_TAIL\<rparr>)
                else do { rec \<leftarrow> rec_at el (unat (l_next_free_rec el) - 1);
                          Some (ins\<lparr>ins_appending := (if e_cpos insert_rec \<ge> e_cpos rec + ucast (e_leaf_clusters rec) then APPEND_TAIL else APPEND_NONE)\<rparr>) } })"

text \<open>Storing a record, within the array.\<close>

definition put_rec :: "extent_list \<Rightarrow> nat \<Rightarrow> extent_rec \<Rightarrow> extent_list option" where
  "put_rec el i rec = (if i < length (l_recs el) then Some (el\<lparr>l_recs := (l_recs el)[i := rec]\<rparr>) else None)"

text \<open>\<open>memmove\<close> of \<open>n\<close> records from index \<open>i\<close> to index \<open>j\<close>.\<close>

definition move_recs :: "extent_rec list \<Rightarrow> nat \<Rightarrow> nat \<Rightarrow> nat \<Rightarrow> extent_rec list option" where
  "move_recs recs j i n = (if i + n \<le> length recs \<and> j + n \<le> length recs then Some (take j recs @ take n (drop i recs) @ drop (j + n) recs) else None)"

definition ocfs2_shift_records_right :: "extent_list \<Rightarrow> extent_list option" where
  "ocfs2_shift_records_right el =
     (let next_free = unat (l_next_free_rec el) in
      if next_free = 0 \<or> next_free \<ge> unat (l_count el) then None
      else do { recs \<leftarrow> move_recs (l_recs el) 1 0 next_free; Some (el\<lparr>l_recs := recs\<rparr>) })"

definition ocfs2_rotate_leaf :: "extent_list \<Rightarrow> extent_rec \<Rightarrow> extent_list option" where
  "ocfs2_rotate_leaf el insert_rec =
     do { let next_free = unat (l_next_free_rec el);
          first \<leftarrow> rec_at el 0;
          let has_empty = ocfs2_is_empty_extent first;
          if next_free = 0 \<or> (l_next_free_rec el = l_count el \<and> \<not> has_empty) then None
          else do {
            recs \<leftarrow> (if has_empty then move_recs (l_recs el) 0 1 (next_free - 1) else Some (l_recs el));
            let next_free = (if has_empty then next_free - 1 else next_free);
            insert_index \<leftarrow> scan_recs (\<lambda>rec. e_cpos insert_rec < e_cpos rec) recs 0 next_free;
            if insert_index \<ge> unat (l_count el) \<or> (insert_index \<noteq> next_free \<and> next_free \<ge> unat (l_count el)) then None
            else do {
              recs \<leftarrow> (if insert_index \<noteq> next_free then move_recs recs (insert_index + 1) insert_index (next_free - insert_index) else Some recs);
              if next_free + 1 > unat (l_count el) then None
              else put_rec (el\<lparr>l_recs := recs, l_next_free_rec := of_nat (next_free + 1)\<rparr>) insert_index insert_rec } } }"

definition ocfs2_remove_empty_extent :: "extent_list \<Rightarrow> extent_list option" where
  "ocfs2_remove_empty_extent el =
     (if l_next_free_rec el = 0 then None
      else do { first \<leftarrow> rec_at el 0;
                if \<not> ocfs2_is_empty_extent first then Some el
                else do { let num_recs = unat (l_next_free_rec el) - 1;
                          recs \<leftarrow> move_recs (l_recs el) 0 1 num_recs;
                          put_rec (el\<lparr>l_recs := recs, l_next_free_rec := of_nat num_recs\<rparr>) num_recs zero_rec } })"

definition ocfs2_create_empty_extent :: "extent_list \<Rightarrow> extent_list option" where
  "ocfs2_create_empty_extent el =
     (let set_and_inc = (\<lambda>el. put_rec (el\<lparr>l_next_free_rec := l_next_free_rec el + 1\<rparr>) 0 zero_rec) in
      if l_tree_depth el \<noteq> 0 then None
      else if l_next_free_rec el = 0 then set_and_inc el
      else do { first \<leftarrow> rec_at el 0;
                if ocfs2_is_empty_extent first then Some el
                else do { el \<leftarrow> ocfs2_shift_records_right el; set_and_inc el } })"

definition ocfs2_subtract_from_rec :: "'m filesys \<Rightarrow> ocfs2_split_type \<Rightarrow> extent_rec \<Rightarrow> extent_rec \<Rightarrow> extent_rec" where
  "ocfs2_subtract_from_rec fs split rec split_rec =
     (let n = e_leaf_clusters split_rec; r = set_leaf_clusters rec (e_leaf_clusters rec - n) in
      if split = SPLIT_LEFT
      then r\<lparr>e_cpos := e_cpos rec + ucast n, e_blkno := add64 (e_blkno rec) (ocfs2_clusters_to_blocks fs (ucast n))\<rparr> else r)"

definition ocfs2_insert_at_leaf :: "'m filesys \<Rightarrow> extent_rec \<Rightarrow> extent_list \<Rightarrow> ocfs2_insert_type \<Rightarrow> extent_list option" where
  "ocfs2_insert_at_leaf fs insert_rec el ins =
     (if l_tree_depth el \<noteq> 0 then None
      else if ins_split ins \<noteq> SPLIT_NONE then
        do { found \<leftarrow> ocfs2_search_extent_list el (e_cpos insert_rec);
             i \<leftarrow> found;
             rec \<leftarrow> rec_at el i;
             el \<leftarrow> put_rec el i (ocfs2_subtract_from_rec fs (ins_split ins) rec insert_rec);
             ocfs2_rotate_leaf el insert_rec }
      else if ins_contig ins \<noteq> CONTIG_NONE then
        do { rec \<leftarrow> rec_at el (ins_contig_index ins);
             let rec = (if ins_contig ins = CONTIG_LEFT then rec\<lparr>e_blkno := e_blkno insert_rec, e_cpos := e_cpos insert_rec\<rparr> else rec);
             put_rec el (ins_contig_index ins) (set_leaf_clusters rec (e_leaf_clusters rec + e_leaf_clusters insert_rec)) }
      else do {
        bare \<leftarrow> (if l_next_free_rec el = 0 then Some True
                 else if l_next_free_rec el = 1 then do { first \<leftarrow> rec_at el 0; Some (ocfs2_is_empty_extent first) } else Some False);
        if bare then put_rec (el\<lparr>l_next_free_rec := 1\<rparr>) 0 insert_rec
        else if ins_appending ins = APPEND_TAIL then
          do { rec \<leftarrow> rec_at el (unat (l_next_free_rec el) - 1);
               if e_cpos insert_rec < e_cpos rec + ucast (e_leaf_clusters rec) then None
               else put_rec (el\<lparr>l_next_free_rec := l_next_free_rec el + 1\<rparr>) (unat (l_next_free_rec el)) insert_rec }
        else ocfs2_rotate_leaf el insert_rec })"

text \<open>
  \<open>ocfs2_cached_inode_insert_extent\<close> for an inode whose extents are in the inode itself.  The inner \<open>None\<close> stands for the case that a tree has
  to be grown (\<open>ocfs2_grow_tree\<close>): the extent cannot be joined and no record is free.
\<close>

definition insert_extent_in_inode :: "'m filesys \<Rightarrow> ext_dinode \<Rightarrow> u32 \<Rightarrow> nat \<Rightarrow> u32 \<Rightarrow> u16 \<Rightarrow> ext_dinode option option" where
  "insert_extent_in_inode fs di cpos blkno clusters flag =
     do { let rec = leaf_rec cpos (ucast clusters) (ucast flag) blkno;
          let el = i_list di;
          ins \<leftarrow> ocfs2_figure_contig_type fs \<lparr>ins_split = SPLIT_NONE, ins_appending = APPEND_NONE, ins_contig = CONTIG_NONE, ins_contig_index = 0, ins_tree_depth = 0\<rparr> el rec;
          ins \<leftarrow> ocfs2_figure_appending_type ins el rec;
          if ins_contig ins = CONTIG_NONE \<and> l_count el = l_next_free_rec el then Some None
          else do { el \<leftarrow> ocfs2_insert_at_leaf fs rec el ins;
                    Some (Some (di\<lparr>i_list := el, i_clusters := (i_clusters di + unat (e_leaf_clusters rec)) mod 2 ^ 32\<rparr>)) } }"

section \<open>Records\<close>

lemma leaf_clusters_set [simp]: "e_leaf_clusters (set_leaf_clusters rec n) = n"
  by (rule bit_word_eqI) (auto simp: e_leaf_clusters_def set_leaf_clusters_def bit_simps)

lemma flags_set [simp]: "e_flags (set_leaf_clusters rec n) = e_flags rec"
  by (rule bit_word_eqI) (auto simp: e_flags_def set_leaf_clusters_def bit_simps dest: bit_imp_le_length)

lemma set_leaf_clusters_fields [simp]: "e_cpos (set_leaf_clusters rec n) = e_cpos rec" "e_blkno (set_leaf_clusters rec n) = e_blkno rec"
  by (simp_all add: set_leaf_clusters_def)

lemma leaf_rec_fields [simp]:
  "e_cpos (leaf_rec cpos n f b) = cpos" "e_blkno (leaf_rec cpos n f b) = b" "e_leaf_clusters (leaf_rec cpos n f b) = n" "e_flags (leaf_rec cpos n f b) = f"
proof -
  show "e_leaf_clusters (leaf_rec cpos n f b) = n" by (rule bit_word_eqI) (auto simp: e_leaf_clusters_def leaf_rec_def bit_simps)
  show "e_flags (leaf_rec cpos n f b) = f" by (rule bit_word_eqI) (auto simp: e_flags_def leaf_rec_def bit_simps dest: bit_imp_le_length)
qed (simp_all add: leaf_rec_def)

section \<open>The cluster map\<close>

definition in_rec :: "extent_rec \<Rightarrow> nat \<Rightarrow> bool" where
  "in_rec r v \<longleftrightarrow> unat (e_cpos r) \<le> v \<and> v < e_end r"

definition phys :: "'m filesys \<Rightarrow> extent_rec \<Rightarrow> nat \<Rightarrow> nat \<times> byte" where
  "phys fs r v = (e_blkno r + (v - unat (e_cpos r)) * 2 ^ (s_clustersize_bits fs - s_blocksize_bits fs), e_flags r)"

definition ext_map :: "'m filesys \<Rightarrow> extent_rec list \<Rightarrow> nat \<Rightarrow> (nat \<times> byte) option" where
  "ext_map fs E v = map_option (\<lambda>r. phys fs r v) (find (\<lambda>r. in_rec r v) E)"

lemma ext_map_in:
  assumes "extents_in lo hi E" and "r \<in> set E" and "in_rec r v"
  shows "ext_map fs E v = Some (phys fs r v)"
proof -
  have "find (\<lambda>r. in_rec r v) E = Some r" using assms
  proof (induction E arbitrary: lo)
    case (Cons x xs)
    show ?case
    proof (cases "r = x")
      case False
      then have "e_end x \<le> unat (e_cpos r)" using extents_in_bounds(1) [of "e_end x" hi xs r] Cons.prems by simp
      then have "\<not> in_rec x v" using Cons.prems(3) by (auto simp: in_rec_def)
      moreover have "find (\<lambda>r. in_rec r v) xs = Some r" using False Cons.prems by (intro Cons.IH [of "e_end x"]) simp_all
      ultimately show ?thesis by simp
    qed (use Cons in simp)
  qed simp
  then show ?thesis by (simp add: ext_map_def)
qed

lemma ext_map_out: "(\<And>r. r \<in> set E \<Longrightarrow> \<not> in_rec r v) \<Longrightarrow> ext_map fs E v = None"
  by (simp add: ext_map_def find_None_iff)

text \<open>The map is that of the set of extents, so it is enough to know how that changes.\<close>

definition with_extent :: "'m filesys \<Rightarrow> extent_rec \<Rightarrow> extent_rec list \<Rightarrow> nat \<Rightarrow> (nat \<times> byte) option" where
  "with_extent fs x E v = (if in_rec x v then Some (phys fs x v) else ext_map fs E v)"

lemma ext_map_insert:
  assumes "extents_in lo hi E" and "extents_in lo' hi' E'" and "set E' = insert x (set E)"
  shows "ext_map fs E' = with_extent fs x E"
proof
  fix v
  show "ext_map fs E' v = with_extent fs x E v"
  proof (cases "\<exists>r\<in>set E'. in_rec r v")
    case True
    then obtain r where r: "r \<in> set E'" "in_rec r v" by blast
    show ?thesis
    proof (cases "in_rec x v")
      case True
      then show ?thesis using ext_map_in [OF assms(2), of x v fs] assms(3) by (simp add: with_extent_def)
    next
      case False
      then have "r \<in> set E" using r assms(3) by auto
      then show ?thesis using ext_map_in [OF assms(2) r, of fs] ext_map_in [OF assms(1) _ r(2), of fs] False by (simp add: with_extent_def)
    qed
  next
    case False
    then have "ext_map fs E' v = None" "ext_map fs E v = None" "\<not> in_rec x v" using assms(3) by (auto intro!: ext_map_out)
    then show ?thesis by (simp add: with_extent_def)
  qed
qed

lemma ext_map_join:
  assumes "extents_in lo hi (as @ r # bs)" and "extents_in lo' hi' (as @ m # bs)" and "\<And>v. in_rec m v \<longleftrightarrow> in_rec r v \<or> in_rec x v"
    and "\<And>v. in_rec r v \<Longrightarrow> phys fs m v = phys fs r v" and "\<And>v. in_rec x v \<Longrightarrow> phys fs m v = phys fs x v"
  shows "ext_map fs (as @ m # bs) = with_extent fs x (as @ r # bs)"
proof
  fix v
  have old: "ext_map fs (as @ r # bs) v = Some (phys fs q v)" if "q \<in> set (as @ r # bs)" "in_rec q v" for q using ext_map_in [OF assms(1) that] .
  have new: "ext_map fs (as @ m # bs) v = Some (phys fs q v)" if "q \<in> set (as @ m # bs)" "in_rec q v" for q using ext_map_in [OF assms(2) that] .
  consider "in_rec x v" | "in_rec r v" "\<not> in_rec x v" | q where "q \<in> set as \<union> set bs" "in_rec q v" "\<not> in_rec x v" |
    "\<not> in_rec x v" "\<not> in_rec r v" "\<forall>q\<in>set as \<union> set bs. \<not> in_rec q v" by blast
  then show "ext_map fs (as @ m # bs) v = with_extent fs x (as @ r # bs) v"
  proof cases
    case 1
    then show ?thesis using new [of m] assms(3,5) by (simp add: with_extent_def)
  next
    case 2
    then show ?thesis using new [of m] old [of r] assms(3,4) by (simp add: with_extent_def)
  next
    case 3
    then show ?thesis using new [of q] old [of q] by (auto simp: with_extent_def)
  next
    case 4
    then have "ext_map fs (as @ m # bs) v = None" "ext_map fs (as @ r # bs) v = None" using assms(3) by (auto intro!: ext_map_out)
    then show ?thesis using 4 by (simp add: with_extent_def)
  qed
qed

section \<open>Inserting in order\<close>

definition ins_ext :: "extent_rec \<Rightarrow> extent_rec list \<Rightarrow> extent_rec list" where
  "ins_ext x E = takeWhile (\<lambda>r. \<not> e_cpos x < e_cpos r) E @ x # dropWhile (\<lambda>r. \<not> e_cpos x < e_cpos r) E"

definition apart :: "extent_rec \<Rightarrow> extent_rec list \<Rightarrow> bool" where
  "apart x E \<longleftrightarrow> (\<forall>r\<in>set E. e_end r \<le> unat (e_cpos x) \<or> e_end x \<le> unat (e_cpos r))"

definition new_ext :: "nat \<Rightarrow> extent_rec \<Rightarrow> bool" where
  "new_ext lo x \<longleftrightarrow> lo \<le> unat (e_cpos x) \<and> \<not> ocfs2_is_empty_extent x \<and> e_blkno x \<noteq> 0"

lemma set_ins_ext: "set (ins_ext x E) = insert x (set E)"
  using takeWhile_dropWhile_id [of "\<lambda>r. \<not> e_cpos x < e_cpos r" E] by (metis ins_ext_def list.set(2) set_append Un_insert_right)

lemma nonempty_lt: "\<not> ocfs2_is_empty_extent r \<Longrightarrow> unat (e_cpos r) < e_end r"
  by (simp add: e_end_def ocfs2_is_empty_extent_def unat_gt_0)

lemma extents_in_insert:
  assumes "extents_in lo hi E" and "new_ext lo x" and "apart x E" and "hi \<le> hi'" and "e_end x \<le> hi'"
  shows "extents_in lo hi' (ins_ext x E)"
  using assms
proof (induction E arbitrary: lo)
  case Nil
  then show ?case by (simp add: ins_ext_def new_ext_def)
next
  case (Cons r rs)
  have r: "unat (e_cpos r) < e_end r" "unat (e_cpos x) < e_end x" using Cons.prems(1,2) nonempty_lt by (auto simp: new_ext_def)
  show ?case
  proof (cases "e_cpos x < e_cpos r")
    case True
    then have "e_end x \<le> unat (e_cpos r)" using Cons.prems(3) r by (auto simp: apart_def word_less_nat_alt)
    moreover have "extents_in (e_end r) hi' rs" using Cons.prems(1,4) by (auto intro: extents_in_weaken)
    ultimately show ?thesis using True Cons.prems(1,2) by (simp add: ins_ext_def new_ext_def)
  next
    case False
    then have "e_end r \<le> unat (e_cpos x)" using Cons.prems(3) r by (auto simp: apart_def word_less_nat_alt)
    then have "extents_in (e_end r) hi' (ins_ext x rs)" using Cons.prems by (intro Cons.IH) (simp_all add: new_ext_def apart_def)
    then show ?thesis using False Cons.prems(1) by (simp add: ins_ext_def)
  qed
qed

lemma shift_and_put:
  assumes "take n recs = E" and "length E = n" and "n < length recs" and "j = length (takeWhile P E)"
  shows "\<exists>recs'. (if j \<noteq> n then move_recs recs (j + 1) j (n - j) else Some recs) = Some recs' \<and> length recs' = length recs \<and>
    take (Suc n) (recs'[j := x]) = takeWhile P E @ x # dropWhile P E"
proof -
  obtain y zs where recs: "recs = E @ y # zs" using assms(1-3) by (metis append_take_drop_id Cons_nth_drop_Suc)
  let ?A = "takeWhile P E"
  have split: "E = ?A @ dropWhile P E" by simp
  show ?thesis
  proof (cases "dropWhile P E")
    case Nil
    then have A: "?A = E" using split by simp
    have "j = n" using assms(2,4) unfolding A by simp
    then show ?thesis using recs Nil assms(2) unfolding A Nil by (intro exI [of _ recs]) (simp add: list_update_append)
  next
    case (Cons b B)
    then have E: "E = ?A @ b # B" using split by simp
    have n: "n = j + Suc (length B)" using E assms(2,4) by (metis length_Cons length_append)
    have r: "recs = ?A @ b # B @ y # zs" using recs E by simp
    have "move_recs recs (j + 1) j (n - j) = Some (?A @ [b] @ (b # B) @ zs)"
      unfolding move_recs_def n by (subst r)+ (simp add: assms(4))
    then show ?thesis using n Cons r assms(4) by (intro exI [of _ "?A @ [b] @ (b # B) @ zs"]) (simp add: list_update_append)
  qed
qed

section \<open>A leaf\<close>

text \<open>A list of a leaf with its array: the records in use are within the count, and the count is within the array.\<close>

definition leaf_room :: "extent_list \<Rightarrow> bool" where
  "leaf_room el \<longleftrightarrow> l_next_free_rec el \<le> l_count el \<and> unat (l_count el) \<le> length (l_recs el)"

definition same_frame :: "extent_list \<Rightarrow> extent_list \<Rightarrow> bool" where
  "same_frame el el' \<longleftrightarrow> l_tree_depth el' = l_tree_depth el \<and> l_count el' = l_count el \<and> length (l_recs el') = length (l_recs el)"

lemma leaf_listI:
  assumes "l_tree_depth el = 0" and "unat (l_next_free_rec el) \<le> length (l_recs el)" and "used_recs el = E" and "extents_in lo hi E"
  shows "leaf_list lo hi el" and "leaf_exts el = E"
proof -
  have "\<forall>r\<in>set E. \<not> ocfs2_is_empty_extent r"
  proof
    fix r assume "r \<in> set E"
    from extents_in_bounds(2) [OF assms(4) this] show "\<not> ocfs2_is_empty_extent r" by (auto simp: e_end_def ocfs2_is_empty_extent_def)
  qed
  then show "leaf_exts el = E" using assms(3) by (simp add: leaf_exts_def)
  then show "leaf_list lo hi el" using assms by (simp add: leaf_list_def)
qed

lemma unat_of_nat_u16: "n \<le> unat (w :: u16) \<Longrightarrow> unat (of_nat n :: u16) = n"
  using unsigned_less [of w, where ?'a = nat] by (simp add: unat_of_nat take_bit_nat_eq_self)

lemma rotate_leaf_ok:
  assumes l: "leaf_list lo hi el" and room: "leaf_room el" and nf: "l_next_free_rec el \<noteq> 0"
    and free: "l_next_free_rec el < l_count el \<or> ocfs2_is_empty_extent (l_recs el ! 0)"
  shows "\<exists>el'. ocfs2_rotate_leaf el x = Some el' \<and> same_frame el el' \<and> unat (l_next_free_rec el') = Suc (length (leaf_exts el)) \<and>
    l_next_free_rec el' \<le> l_count el' \<and> used_recs el' = ins_ext x (leaf_exts el)"
proof -
  let ?E = "leaf_exts el" and ?nf = "unat (l_next_free_rec el)" and ?P = "\<lambda>r. \<not> e_cpos x < e_cpos r"
  let ?has = "ocfs2_is_empty_extent (l_recs el ! 0)"
  have r: "?nf \<le> unat (l_count el)" "unat (l_count el) \<le> length (l_recs el)" "0 < ?nf"
    using room nf by (simp_all add: leaf_room_def word_le_nat_alt unat_gt_0)
  have first: "rec_at el 0 = Some (l_recs el ! 0)" using r by (auto simp: rec_at_def)
  have u: "used_recs el \<noteq> []" "used_recs el ! 0 = l_recs el ! 0" using r by (auto simp: used_recs_def)
  have E2: "used_recs el = (if ?has then l_recs el ! 0 # ?E else ?E)"
  proof -
    from l consider "used_recs el = ?E" | r where "ocfs2_is_empty_extent r" "used_recs el = r # ?E" by (auto simp: leaf_list_def)
    then show ?thesis
    proof cases
      case 1
      then have "l_recs el ! 0 \<in> set ?E" using u by (cases ?E) auto
      then have "\<not> ?has" by (simp add: leaf_exts_def)
      then show ?thesis using 1 by simp
    next
      case 2
      then show ?thesis using u by simp
    qed
  qed
  have E1: "length ?E = (if ?has then ?nf - 1 else ?nf)" using E2 scan_used(2) [of el] r by (auto split: if_splits)
  define n where "n = length ?E"
  define recs where "recs = (if ?has then ?E @ drop (?nf - 1) (l_recs el) else l_recs el)"
  have mv: "(if ?has then move_recs (l_recs el) 0 1 (?nf - 1) else Some (l_recs el)) = Some recs"
  proof (cases ?has)
    case True
    have "tl (used_recs el) = take (?nf - 1) (drop 1 (l_recs el))" unfolding used_recs_def by (simp add: tl_take drop_Suc)
    then show ?thesis using True E2 r by (simp add: move_recs_def recs_def)
  qed (simp add: recs_def)
  have recs: "take n recs = ?E" "n < length recs" "length recs = length (l_recs el)" "Suc n \<le> unat (l_count el)"
    using E1 E2 r free unfolding n_def recs_def by (auto simp: used_recs_def word_less_nat_alt)
  let ?j = "length (takeWhile ?P ?E)"
  have scan: "scan_recs (\<lambda>r. e_cpos x < e_cpos r) recs 0 n = Some ?j" using recs by (simp add: scan_recs_eq)
  have j: "?j \<le> n" unfolding n_def by (rule length_takeWhile_le)
  obtain recs' where s: "(if ?j \<noteq> n then move_recs recs (?j + 1) ?j (n - ?j) else Some recs) = Some recs'" "length recs' = length recs"
    "take (Suc n) (recs'[?j := x]) = takeWhile ?P ?E @ x # dropWhile ?P ?E" using shift_and_put [OF recs(1) n_def [symmetric] recs(2) refl, of ?P x] by blast
  let ?el = "el\<lparr>l_recs := recs'[?j := x], l_next_free_rec := of_nat (Suc n)\<rparr>"
  have cnt: "unat (of_nat (Suc n) :: u16) = Suc n" by (rule unat_of_nat_u16 [OF recs(4)])
  have "(if ?has then ?nf - 1 else ?nf) = n" using E1 by (simp add: n_def)
  then have "ocfs2_rotate_leaf el x = Some ?el"
    using r first mv scan s(1) j recs free s(2) by (auto simp: ocfs2_rotate_leaf_def Let_def put_rec_def word_less_nat_alt)
  moreover have "used_recs ?el = ins_ext x ?E" using s(3) cnt by (simp add: used_recs_def ins_ext_def del: of_nat_Suc)
  ultimately show ?thesis using cnt recs s(2) by (intro exI [of _ ?el]) (simp add: same_frame_def n_def word_le_nat_alt del: of_nat_Suc)
qed


text \<open>The records in use are the extents, with an empty record before them or not.\<close>

definition lead :: "extent_rec list \<Rightarrow> bool" where
  "lead p \<longleftrightarrow> p = [] \<or> (\<exists>r. p = [r] \<and> e_cpos r = 0 \<and> e_blkno r = 0 \<and> ocfs2_is_empty_extent r)"

lemma leaf_list_lead: "leaf_list lo hi el \<Longrightarrow> \<exists>p. lead p \<and> used_recs el = p @ leaf_exts el"
  unfolding leaf_list_def lead_def by (metis append_Cons append_Nil)

lemma extents_nonempty: "extents_in lo hi E \<Longrightarrow> r \<in> set E \<Longrightarrow> \<not> ocfs2_is_empty_extent r"
  using extents_in_bounds(2) [of lo hi E r] by (auto simp: e_end_def ocfs2_is_empty_extent_def)

lemma leaf_listI_lead:
  assumes "l_tree_depth el = 0" and "unat (l_next_free_rec el) \<le> length (l_recs el)" and "used_recs el = p @ E" and "lead p" and "extents_in lo hi E"
  shows "leaf_list lo hi el \<and> leaf_exts el = E"
proof -
  have "filter (\<lambda>r. \<not> ocfs2_is_empty_extent r) E = E" using extents_nonempty [OF assms(5)] by (simp add: filter_id_conv)
  then have "leaf_exts el = E" using assms(3,4) by (auto simp: leaf_exts_def lead_def)
  then show ?thesis using assms by (auto simp: leaf_list_def lead_def)
qed

text \<open>The three ways the list changes.\<close>

definition inserted :: "nat \<Rightarrow> nat \<Rightarrow> extent_list \<Rightarrow> extent_list \<Rightarrow> extent_rec list \<Rightarrow> bool" where
  "inserted lo hi el el' E' \<longleftrightarrow> leaf_list lo hi el' \<and> leaf_exts el' = E' \<and> leaf_room el' \<and> same_frame el el'"

lemma insertedI:
  assumes "leaf_room el" and "same_frame el el'" and "l_tree_depth el = 0" and "l_next_free_rec el' \<le> l_count el" and "used_recs el' = p @ E'" and "lead p" and "extents_in lo hi E'"
  shows "inserted lo hi el el' E'"
proof -
  have "leaf_room el'" using assms(1,2,4) by (simp add: leaf_room_def same_frame_def)
  moreover from this have "unat (l_next_free_rec el') \<le> length (l_recs el')" by (auto simp: leaf_room_def word_le_nat_alt)
  ultimately show ?thesis using assms leaf_listI_lead [of el' p E' lo hi] by (simp add: inserted_def same_frame_def)
qed

lemma extents_in_raise:
  "extents_in a hi bs \<Longrightarrow> (\<And>q. q \<in> set bs \<Longrightarrow> b \<le> unat (e_cpos q)) \<Longrightarrow> b \<le> hi' \<Longrightarrow> hi \<le> hi' \<Longrightarrow> extents_in b hi' bs"
  by (cases bs) (auto intro: extents_in_weaken)

lemma extents_in_replace:
  assumes "extents_in lo hi (as @ r # bs)" and "new_ext lo m" and "\<And>q. q \<in> set as \<Longrightarrow> e_end q \<le> unat (e_cpos m)"
    and "\<And>q. q \<in> set bs \<Longrightarrow> e_end m \<le> unat (e_cpos q)" and "e_end m \<le> hi'" and "hi \<le> hi'"
  shows "extents_in lo hi' (as @ m # bs)"
  using assms
proof (induction as arbitrary: lo)
  case Nil
  then have "extents_in (e_end m) hi' bs" using extents_in_raise [of "e_end r" hi bs "e_end m" hi'] by simp
  then show ?case using Nil(2) by (simp add: new_ext_def)
next
  case (Cons a as)
  then have "extents_in (e_end a) hi' (as @ m # bs)" by (intro Cons.IH) (simp_all add: new_ext_def)
  then show ?case using Cons.prems(1) by simp
qed

lemma extents_in_split:
  assumes "extents_in lo hi (as @ r # bs)"
  shows "q \<in> set as \<Longrightarrow> e_end q \<le> unat (e_cpos r)" and "q \<in> set bs \<Longrightarrow> e_end r \<le> unat (e_cpos q)"
proof -
  have "extents_in lo hi (as @ r # bs) \<Longrightarrow> (\<forall>q\<in>set as. e_end q \<le> unat (e_cpos r)) \<and> (\<forall>q\<in>set bs. e_end r \<le> unat (e_cpos q))" for lo
  proof (induction as arbitrary: lo)
    case Nil
    then show ?case using extents_in_bounds(1) [of "e_end r" hi bs] by simp
  next
    case (Cons a as)
    then show ?case using extents_in_bounds(1) [of "e_end a" hi "as @ r # bs" r] by auto
  qed
  then show "q \<in> set as \<Longrightarrow> e_end q \<le> unat (e_cpos r)" and "q \<in> set bs \<Longrightarrow> e_end r \<le> unat (e_cpos q)" using assms by blast+
qed

text \<open>Joining with a neighbour.\<close>

definition on_device :: "'m filesys \<Rightarrow> extent_rec \<Rightarrow> bool" where
  "on_device fs r \<longleftrightarrow> e_blkno r + unat (e_leaf_clusters r) * 2 ^ (s_clustersize_bits fs - s_blocksize_bits fs) < 2 ^ 64"

lemma ucast_leaf: "unat (ucast (n :: u16) :: u32) = unat n"
  by (simp add: unsigned_ucast_eq take_bit_nat_eq_self less_imp_le order.strict_trans2 [OF unsigned_less])

lemma adjacent_iff: "e_end l < 2 ^ 32 \<Longrightarrow> ocfs2_extents_adjacent l r \<longleftrightarrow> e_end l = unat (e_cpos r)"
  by (simp add: ocfs2_extents_adjacent_def e_end_def word_unat_eq_iff unat_word_ariths ucast_leaf)

lemma block_contig_iff:
  assumes "on_device fs r" and "s_clustersize_bits fs - s_blocksize_bits fs < 31"
  shows "ocfs2_block_extent_contig fs r b \<longleftrightarrow> b = e_blkno r + unat (e_leaf_clusters r) * 2 ^ (s_clustersize_bits fs - s_blocksize_bits fs)"
  using assms clusters_to_blocks_small [OF refl assms(2), of "ucast (e_leaf_clusters r)"]
  by (simp add: ocfs2_block_extent_contig_def add64_eq ucast_leaf on_device_def)

definition joined :: "extent_rec \<Rightarrow> extent_rec \<Rightarrow> ocfs2_contig_type \<Rightarrow> extent_rec" where
  "joined r x c = (let q = (if c = CONTIG_LEFT then r\<lparr>e_blkno := e_blkno x, e_cpos := e_cpos x\<rparr> else r) in
     set_leaf_clusters q (e_leaf_clusters r + e_leaf_clusters x))"

lemma leaf_fields_update [simp]: "e_leaf_clusters (r\<lparr>e_blkno := b, e_cpos := c\<rparr>) = e_leaf_clusters r" "e_flags (r\<lparr>e_blkno := b, e_cpos := c\<rparr>) = e_flags r"
  by (simp_all add: e_leaf_clusters_def e_flags_def)

lemma joined_ok:
  assumes c: "ocfs2_extent_contig fs r x = c" "c \<noteq> CONTIG_NONE" and dev: "on_device fs r" "on_device fs x" and k: "s_clustersize_bits fs - s_blocksize_bits fs < 31"
    and e: "e_end r < 2 ^ 32" "e_end x < 2 ^ 32" and sum: "unat (e_leaf_clusters r) + unat (e_leaf_clusters x) < 2 ^ 16"
    and ne: "\<not> ocfs2_is_empty_extent r" "\<not> ocfs2_is_empty_extent x"
  shows "\<not> ocfs2_is_empty_extent (joined r x c)" and "in_rec (joined r x c) v \<longleftrightarrow> in_rec r v \<or> in_rec x v"
    and "in_rec r v \<Longrightarrow> phys fs (joined r x c) v = phys fs r v" and "in_rec x v \<Longrightarrow> phys fs (joined r x c) v = phys fs x v"
    and "e_cpos (joined r x c) = (if c = CONTIG_LEFT then e_cpos x else e_cpos r)" and "e_end (joined r x c) = (if c = CONTIG_LEFT then e_end r else e_end x)"
    and "e_blkno (joined r x c) = (if c = CONTIG_LEFT then e_blkno x else e_blkno r)" and "if c = CONTIG_LEFT then e_end x = unat (e_cpos r) else e_end r = unat (e_cpos x)"
proof -
  let ?K = "2 ^ (s_clustersize_bits fs - s_blocksize_bits fs) :: nat"
  have n: "unat (e_leaf_clusters r + e_leaf_clusters x) = unat (e_leaf_clusters r) + unat (e_leaf_clusters x)" using sum by (simp add: unat_word_ariths)
  have pos: "0 < unat (e_leaf_clusters r)" "0 < unat (e_leaf_clusters x)" using ne by (simp_all add: ocfs2_is_empty_extent_def unat_gt_0)
  note iffs = adjacent_iff [OF e(1)] adjacent_iff [OF e(2)] block_contig_iff [OF dev(1) k] block_contig_iff [OF dev(2) k]
  have flags: "e_flags r = e_flags x" and
    "c = CONTIG_RIGHT \<and> e_end r = unat (e_cpos x) \<and> e_blkno x = e_blkno r + unat (e_leaf_clusters r) * ?K \<or>
     c = CONTIG_LEFT \<and> e_end x = unat (e_cpos r) \<and> e_blkno r = e_blkno x + unat (e_leaf_clusters x) * ?K"
    using c by (auto simp: ocfs2_extent_contig_def iffs split: if_splits)
  then consider "c = CONTIG_RIGHT" "e_end r = unat (e_cpos x)" "e_blkno x = e_blkno r + unat (e_leaf_clusters r) * ?K" |
    "c = CONTIG_LEFT" "e_end x = unat (e_cpos r)" "e_blkno r = e_blkno x + unat (e_leaf_clusters x) * ?K" by blast
  note cs = this
  show "\<not> ocfs2_is_empty_extent (joined r x c)"
    using n pos by (auto simp: joined_def Let_def ocfs2_is_empty_extent_def word_unat_eq_iff)
  show cp: "e_cpos (joined r x c) = (if c = CONTIG_LEFT then e_cpos x else e_cpos r)" and bl: "e_blkno (joined r x c) = (if c = CONTIG_LEFT then e_blkno x else e_blkno r)"
    by (simp_all add: joined_def Let_def)
  show adj: "if c = CONTIG_LEFT then e_end x = unat (e_cpos r) else e_end r = unat (e_cpos x)" using cs by cases simp_all
  have fl: "e_flags (joined r x c) = e_flags r" by (simp add: joined_def Let_def)
  show en: "e_end (joined r x c) = (if c = CONTIG_LEFT then e_end r else e_end x)"
    using cs n by cases (simp_all add: e_end_def joined_def Let_def)
  have lt: "unat (e_cpos r) < e_end r" "unat (e_cpos x) < e_end x" using ne nonempty_lt by blast+
  show "in_rec (joined r x c) v \<longleftrightarrow> in_rec r v \<or> in_rec x v"
    using cs cp en lt by cases (auto simp: in_rec_def)
  show "phys fs (joined r x c) v = phys fs r v" if "in_rec r v" using cs
  proof cases
    case 2
    have "v - unat (e_cpos x) = unat (e_leaf_clusters x) + (v - unat (e_cpos r))" using 2(2) that by (auto simp: in_rec_def e_end_def)
    then show ?thesis using 2 cp bl fl by (simp add: phys_def algebra_simps)
  qed (use cp bl fl in \<open>simp add: phys_def\<close>)
  show "phys fs (joined r x c) v = phys fs x v" if "in_rec x v" using cs
  proof cases
    case 1
    have "v - unat (e_cpos r) = unat (e_leaf_clusters r) + (v - unat (e_cpos x))" using 1(2) that by (auto simp: in_rec_def e_end_def)
    then show ?thesis using 1 cp bl fl flags by (simp add: phys_def algebra_simps)
  qed (use cp bl fl flags in \<open>simp add: phys_def\<close>)
qed


section \<open>Inserting in a leaf\<close>

text \<open>
  A leaf and an extent that can be put there: the extent does not overlap with those of the leaf, nothing is beyond the end of the device,
  and the numbers of clusters add up within the 16 bits of a record.
\<close>

definition can_insert :: "'m filesys \<Rightarrow> nat \<Rightarrow> extent_list \<Rightarrow> extent_rec \<Rightarrow> bool" where
  "can_insert fs hi el x \<longleftrightarrow> leaf_list 0 hi el \<and> leaf_room el \<and> hi < 2 ^ 32 \<and> e_end x < 2 ^ 32 \<and> new_ext 0 x \<and> apart x (leaf_exts el) \<and> on_device fs x \<and>
     (\<forall>r\<in>set (leaf_exts el). on_device fs r \<and> unat (e_leaf_clusters r) + unat (e_leaf_clusters x) < 2 ^ 16) \<and> s_clustersize_bits fs - s_blocksize_bits fs < 31"

lemma can_insertD:
  assumes "can_insert fs hi el x"
  shows "leaf_list 0 hi el" "leaf_room el" "hi < 2 ^ 32" "e_end x < 2 ^ 32" "new_ext 0 x" "apart x (leaf_exts el)" "on_device fs x"
    "s_clustersize_bits fs - s_blocksize_bits fs < 31" "l_tree_depth el = 0" "extents_in 0 hi (leaf_exts el)" "unat (l_next_free_rec el) \<le> length (l_recs el)"
    "\<not> ocfs2_is_empty_extent x" "unat (l_count el) \<le> length (l_recs el)" "l_next_free_rec el \<le> l_count el"
  using assms by (auto simp: can_insert_def leaf_list_def new_ext_def leaf_room_def)

lemma can_insert_rec:
  assumes "can_insert fs hi el x" and "r \<in> set (leaf_exts el)"
  shows "on_device fs r" "unat (e_leaf_clusters r) + unat (e_leaf_clusters x) < 2 ^ 16" "e_end r < 2 ^ 32" "\<not> ocfs2_is_empty_extent r" "e_blkno r \<noteq> 0"
  using assms extents_in_bounds(3,4) [OF can_insertD(10) [OF assms(1)] assms(2)] extents_nonempty [OF can_insertD(10) [OF assms(1)] assms(2)] can_insertD(3) [OF assms(1)]
  by (auto simp: can_insert_def)

text \<open>An empty record is not joined with anything.\<close>

lemma empty_not_contig:
  assumes "e_cpos r = 0" and "e_blkno r = 0" and "ocfs2_is_empty_extent r" and "can_insert fs hi el x"
  shows "ocfs2_extent_contig fs r x = CONTIG_NONE"
proof -
  note c = can_insertD [OF assms(4)]
  have "\<not> ocfs2_extents_adjacent x r" using assms(1) nonempty_lt [OF c(12)] by (simp add: adjacent_iff [OF c(4)])
  moreover have "\<not> ocfs2_block_extent_contig fs r (e_blkno x)"
    using assms(2,3) c(5) by (simp add: ocfs2_block_extent_contig_def add64_eq ocfs2_is_empty_extent_def ocfs2_clusters_to_blocks_def new_ext_def)
  ultimately show ?thesis by (simp add: ocfs2_extent_contig_def)
qed

definition result_of :: "'m filesys \<Rightarrow> nat \<Rightarrow> extent_list \<Rightarrow> extent_rec \<Rightarrow> extent_list \<Rightarrow> bool" where
  "result_of fs hi el x el' \<longleftrightarrow> leaf_list 0 (max hi (e_end x)) el' \<and> leaf_room el' \<and> same_frame el el' \<and> ext_map fs (leaf_exts el') = with_extent fs x (leaf_exts el)"

text \<open>With the extents in order, the position of the new one is the right one.\<close>

lemma result_ins_ext:
  assumes c: "can_insert fs hi el x" and "same_frame el el'" and "l_next_free_rec el' \<le> l_count el" and "used_recs el' = p @ ins_ext x (leaf_exts el)" and "lead p"
  shows "result_of fs hi el x el'"
proof -
  note d = can_insertD [OF c]
  have ex: "extents_in 0 (max hi (e_end x)) (ins_ext x (leaf_exts el))" using d by (intro extents_in_insert [of 0 hi]) simp_all
  then have "inserted 0 (max hi (e_end x)) el el' (ins_ext x (leaf_exts el))" using insertedI [OF d(2) assms(2) d(9) assms(3-5)] by blast
  moreover have "ext_map fs (ins_ext x (leaf_exts el)) = with_extent fs x (leaf_exts el)" by (rule ext_map_insert [OF d(10) ex set_ins_ext])
  ultimately show ?thesis by (simp add: inserted_def result_of_def)
qed

lemma ins_ext_last:
  assumes "\<And>r. r \<in> set E \<Longrightarrow> e_cpos r \<le> e_cpos x"
  shows "ins_ext x E = E @ [x]"
proof -
  have "\<not> e_cpos x < e_cpos r" if "r \<in> set E" for r using assms [OF that] by simp
  then have "takeWhile (\<lambda>r. \<not> e_cpos x < e_cpos r) E = E" "dropWhile (\<lambda>r. \<not> e_cpos x < e_cpos r) E = []" by (simp_all add: takeWhile_eq_all_conv)
  then show ?thesis by (simp add: ins_ext_def)
qed

lemma used_update:
  "i < unat (l_next_free_rec el) \<Longrightarrow> used_recs (el\<lparr>l_recs := (l_recs el)[i := m]\<rparr>) = (used_recs el)[i := m]"
  by (simp add: used_recs_def take_update_swap)

lemma contig_leaf_ok:
  assumes can: "can_insert fs hi el x" and i: "i < unat (l_next_free_rec el)" and r: "used_recs el ! i = r" and c: "ocfs2_extent_contig fs r x = c" "c \<noteq> CONTIG_NONE"
  shows "result_of fs hi el x (el\<lparr>l_recs := (l_recs el)[i := joined r x c]\<rparr>)"
proof -
  note d = can_insertD [OF can]
  obtain p where p: "lead p" "used_recs el = p @ leaf_exts el" using leaf_list_lead [OF d(1)] by blast
  have "length p \<le> i"
  proof (rule ccontr)
    assume "\<not> length p \<le> i"
    then have "r \<in> set p" using r p(2) by (auto simp: nth_append)
    then have "ocfs2_extent_contig fs r x = CONTIG_NONE" using p(1) empty_not_contig [OF _ _ _ can] by (auto simp: lead_def)
    then show False using c by simp
  qed
  then obtain j where j: "i = length p + j" using le_Suc_ex by blast
  have jl: "j < length (leaf_exts el)" and rj: "leaf_exts el ! j = r" using i j p(2) r scan_used(2) [OF d(11)] by (simp_all add: nth_append)
  define as bs where "as = take j (leaf_exts el)" and "bs = drop (Suc j) (leaf_exts el)"
  have E: "leaf_exts el = as @ r # bs" unfolding as_def bs_def rj [symmetric] by (rule id_take_nth_drop [OF jl])
  have upd: "(used_recs el)[i := joined r x c] = p @ as @ joined r x c # bs"
    using jl by (simp add: p(2) j as_def bs_def upd_conv_take_nth_drop [OF jl] list_update_append)
  have rE: "r \<in> set (leaf_exts el)" using E by simp
  note q = can_insert_rec [OF can rE]
  note jo = joined_ok [OF c q(1) d(7,8) q(3) d(4) q(2,4) d(12)]
  have sp: "q \<in> set as \<Longrightarrow> e_end q \<le> unat (e_cpos r)" "q \<in> set bs \<Longrightarrow> e_end r \<le> unat (e_cpos q)" for q using extents_in_split [of 0 hi as r bs q] d(10) E by simp_all
  have ap: "q \<in> set as \<union> set bs \<Longrightarrow> e_end q \<le> unat (e_cpos x) \<or> e_end x \<le> unat (e_cpos q)" for q using d(6) E by (auto simp: apart_def)
  have ne: "q \<in> set as \<union> set bs \<Longrightarrow> unat (e_cpos q) < e_end q" for q using nonempty_lt can_insert_rec(4) [OF can] E by auto
  have lt: "unat (e_cpos r) < e_end r" "unat (e_cpos x) < e_end x" using nonempty_lt q(4) d(12) by blast+
  have before: "e_end q \<le> unat (e_cpos (joined r x c))" if "q \<in> set as" for q
    using sp(1) [OF that] ap [of q] ne [of q] that jo(8) lt unfolding jo(5) by (cases "c = CONTIG_LEFT") auto
  have after: "e_end (joined r x c) \<le> unat (e_cpos q)" if "q \<in> set bs" for q
    using sp(2) [OF that] ap [of q] ne [of q] that jo(8) lt unfolding jo(6) by (cases "c = CONTIG_LEFT") auto
  have new: "new_ext 0 (joined r x c)" using jo(1,7) d(5) q(5) by (simp add: new_ext_def)
  have hi: "e_end (joined r x c) \<le> max hi (e_end x)" using jo(6) extents_in_bounds(3) [OF d(10) rE] by auto
  have old: "extents_in 0 hi (as @ r # bs)" using d(10) E by simp
  have ex: "extents_in 0 (max hi (e_end x)) (as @ joined r x c # bs)"
    by (rule extents_in_replace [OF old new before after hi]) simp_all
  have "inserted 0 (max hi (e_end x)) el (el\<lparr>l_recs := (l_recs el)[i := joined r x c]\<rparr>) (as @ joined r x c # bs)"
    by (rule insertedI [OF d(2) _ d(9) _ _ p(1) ex]) (simp_all add: same_frame_def d(14) used_update [OF i] upd)
  moreover have "ext_map fs (as @ joined r x c # bs) = with_extent fs x (as @ r # bs)"
    by (rule ext_map_join [OF old ex jo(2-4)])
  ultimately show ?thesis using E by (simp add: inserted_def result_of_def)
qed


lemma rec_at_last:
  assumes can: "can_insert fs hi el x" and ne: "leaf_exts el \<noteq> []"
  shows "unat (l_next_free_rec el) \<noteq> 0" and "rec_at el (unat (l_next_free_rec el) - 1) = Some (last (leaf_exts el))"
proof -
  note d = can_insertD [OF can] and at = scan_used(3) [OF can_insertD(11) [OF can]] and len = scan_used(2) [OF can_insertD(11) [OF can]]
  obtain p where p: "lead p" "used_recs el = p @ leaf_exts el" using leaf_list_lead [OF d(1)] by blast
  have "0 < length (leaf_exts el)" using ne by simp
  then show nz: "unat (l_next_free_rec el) \<noteq> 0" using len p(2) by (metis add_is_0 length_append less_numeral_extra(3))
  have "used_recs el ! (unat (l_next_free_rec el) - 1) = last (used_recs el)" using ne p(2) len by (subst last_conv_nth) auto
  also have "\<dots> = last (leaf_exts el)" using ne p(2) by simp
  finally show "rec_at el (unat (l_next_free_rec el) - 1) = Some (last (leaf_exts el))" using nz at [of "unat (l_next_free_rec el) - 1"] by simp
qed

lemma extents_in_last: "extents_in lo hi E \<Longrightarrow> r \<in> set E \<Longrightarrow> unat (e_cpos r) \<le> e_end (last E)"
proof (induction E arbitrary: lo)
  case (Cons a E)
  then show ?case
  proof (cases "E = []")
    case False
    have "e_end a \<le> unat (e_cpos (last E))" using extents_in_bounds(1) [of "e_end a" hi E "last E"] Cons.prems(1) False by simp
    moreover have "unat (e_cpos a) < e_end a" using Cons.prems(1) nonempty_lt by simp
    ultimately show ?thesis using Cons False by (auto simp: e_end_def)
  qed (auto simp: e_end_def)
qed simp

text \<open>The kind of insertion that the code finds.\<close>

lemma figure_appending_ok:
  assumes can: "can_insert fs hi el x"
  shows "ocfs2_figure_appending_type ins el x =
    Some (ins\<lparr>ins_appending := (if leaf_exts el = [] \<or> e_end (last (leaf_exts el)) \<le> unat (e_cpos x) then APPEND_TAIL else APPEND_NONE)\<rparr>)"
proof -
  note d = can_insertD [OF can]
  let ?E = "leaf_exts el" and ?nf = "unat (l_next_free_rec el)"
  obtain p where p: "lead p" "used_recs el = p @ ?E" using leaf_list_lead [OF d(1)] by blast
  note at = scan_used(3) [OF d(11)] and len = scan_used(2) [OF d(11)]
  show ?thesis
  proof (cases "?E = []")
    case True
    then have u: "used_recs el = p" using p(2) by simp
    from p(1) consider "p = []" | r where "p = [r]" "ocfs2_is_empty_extent r" by (auto simp: lead_def)
    then show ?thesis
    proof cases
      case 1
      then show ?thesis using True d(9) len u by (simp add: ocfs2_figure_appending_type_def unat_eq_0)
    next
      case 2
      then have "?nf = 1" using len u by simp
      moreover from this have "l_next_free_rec el = 1" by (metis unat_1 unsigned_word_eqI)
      ultimately show ?thesis using True d(9) at [of 0] 2 u by (simp add: ocfs2_figure_appending_type_def)
    qed
  next
    case False
    have nz: "?nf \<noteq> 0" and last: "rec_at el (?nf - 1) = Some (last ?E)" by (rule rec_at_last [OF can False])+
    have "\<not> (ocfs2_is_empty_extent (used_recs el ! 0) \<and> ?nf = 1)"
    proof
      assume a: "ocfs2_is_empty_extent (used_recs el ! 0) \<and> ?nf = 1"
      then have "length p + length ?E = 1" using len p(2) by simp
      then have "used_recs el = ?E" using False p(2) by (cases p) auto
      then have "used_recs el ! 0 \<in> set ?E" using False by (cases ?E) auto
      then show False using can_insert_rec(4) [OF can] a by blast
    qed
    moreover have "l_next_free_rec el = 1 \<Longrightarrow> ?nf = 1" by simp
    ultimately have first: "rec_at el 0 = Some (used_recs el ! 0)" "\<not> (ocfs2_is_empty_extent (used_recs el ! 0) \<and> l_next_free_rec el = 1)" using nz at [of 0] by blast+
    have "e_end (last ?E) < 2 ^ 32" using can_insert_rec(3) [OF can] False by simp
    then have "unat (e_cpos (last ?E) + ucast (e_leaf_clusters (last ?E))) = e_end (last ?E)" by (simp add: e_end_def unat_word_ariths ucast_leaf)
    moreover have "l_next_free_rec el \<noteq> 0" using nz by auto
    ultimately show ?thesis using False last first d(9) by (auto simp: ocfs2_figure_appending_type_def word_le_nat_alt)
  qed
qed


lemma figure_types:
  assumes can: "can_insert fs hi el x" and ins: "ins_split ins = SPLIT_NONE"
  shows "\<exists>ins' ins''. ocfs2_figure_contig_type fs ins el x = Some ins' \<and> ocfs2_figure_appending_type ins' el x = Some ins'' \<and> ins_split ins'' = SPLIT_NONE \<and>
    (if ins_contig ins'' = CONTIG_NONE
     then (\<forall>r\<in>set (leaf_exts el). ocfs2_extent_contig fs r x = CONTIG_NONE) \<and>
       (ins_appending ins'' = APPEND_TAIL \<longleftrightarrow> leaf_exts el = [] \<or> e_end (last (leaf_exts el)) \<le> unat (e_cpos x))
     else ins_contig_index ins'' < unat (l_next_free_rec el) \<and> ocfs2_extent_contig fs (used_recs el ! ins_contig_index ins'') x = ins_contig ins'')"
proof -
  note d = can_insertD [OF can]
  let ?P = "\<lambda>r. ocfs2_extent_contig fs r x \<noteq> CONTIG_NONE" and ?E = "leaf_exts el" and ?nf = "unat (l_next_free_rec el)"
  obtain p where p: "lead p" "used_recs el = p @ ?E" using leaf_list_lead [OF d(1)] by blast
  note at = scan_used(3) [OF d(11)] and len = scan_used(2) [OF d(11)]
  have none: "\<not> ?P r" if "e_cpos r = 0" "e_blkno r = 0" "ocfs2_is_empty_extent r" for r using empty_not_contig [OF that can] by simp
  obtain i where i: "scan_recs ?P (l_recs el) 0 ?nf = Some i" "i \<le> ?nf" "find ?P ?E = (if i < ?nf then rec_at el i else None)"
    using scan_leaf [OF d(1), where P = ?P] none by blast
  obtain ins' where ins': "ocfs2_figure_contig_type fs ins el x = Some ins'" "ins_split ins' = SPLIT_NONE"
    "if i < ?nf then ins_contig_index ins' = i \<and> ins_contig ins' = ocfs2_extent_contig fs (used_recs el ! i) x else ins_contig ins' = CONTIG_NONE"
    using i(1) d(9) ins at by (cases "i < ?nf") (simp_all add: ocfs2_figure_contig_type_def)
  have app: "ocfs2_figure_appending_type ins' el x = Some (ins'\<lparr>ins_appending := (if ?E = [] \<or> e_end (last ?E) \<le> unat (e_cpos x) then APPEND_TAIL else APPEND_NONE)\<rparr>)"
    by (rule figure_appending_ok [OF can])
  show ?thesis
  proof (cases "i < ?nf")
    case True
    then have "?P (used_recs el ! i)" using i(3) at by (auto simp: find_Some_iff)
    then show ?thesis using True ins' app by auto
  next
    case False
    then have "\<forall>r\<in>set ?E. \<not> ?P r" using i(3) by (auto simp: find_None_iff)
    then show ?thesis using False ins' app by auto
  qed
qed


lemma bare_iff:
  assumes can: "can_insert fs hi el x"
  shows "(if l_next_free_rec el = 0 then Some True
          else if l_next_free_rec el = 1 then do { first \<leftarrow> rec_at el 0; Some (ocfs2_is_empty_extent first) } else Some False) = Some (leaf_exts el = [])"
proof -
  note d = can_insertD [OF can] and at = scan_used(3) [OF can_insertD(11) [OF can]] and len = scan_used(2) [OF can_insertD(11) [OF can]]
  obtain p where p: "lead p" "used_recs el = p @ leaf_exts el" using leaf_list_lead [OF d(1)] by blast
  consider "l_next_free_rec el = 0" | "l_next_free_rec el = 1" | "l_next_free_rec el \<noteq> 0" "l_next_free_rec el \<noteq> 1" by blast
  then show ?thesis
  proof cases
    case 1
    then show ?thesis using len p(2) by simp
  next
    case 2
    then obtain r where r: "used_recs el = [r]" "rec_at el 0 = Some r" using len at [of 0] by (auto simp: length_Suc_conv)
    then have "ocfs2_is_empty_extent r \<longleftrightarrow> leaf_exts el = []" by (simp add: leaf_exts_def)
    then show ?thesis using 2 r by simp
  next
    case 3
    then have "unat (l_next_free_rec el) \<noteq> 0" "unat (l_next_free_rec el) \<noteq> 1" by (metis unat_1 unat_0 unsigned_word_eqI)+
    then have "leaf_exts el \<noteq> []" using len p by (auto simp: lead_def)
    then show ?thesis using 3 by simp
  qed
qed

lemma next_free_Suc: "(w :: u16) < c \<Longrightarrow> unat (w + 1) = Suc (unat w)"
  using unsigned_less [of c, where ?'a = nat] by (simp add: word_less_nat_alt unat_word_ariths)

lemma insert_at_leaf_ok:
  assumes can: "can_insert fs hi el x" and sp: "ins_split ins = SPLIT_NONE"
    and none: "ins_contig ins = CONTIG_NONE \<Longrightarrow>
      l_next_free_rec el < l_count el \<and> (ins_appending ins = APPEND_TAIL \<longleftrightarrow> leaf_exts el = [] \<or> e_end (last (leaf_exts el)) \<le> unat (e_cpos x))"
    and contig: "ins_contig ins \<noteq> CONTIG_NONE \<Longrightarrow>
      ins_contig_index ins < unat (l_next_free_rec el) \<and> ocfs2_extent_contig fs (used_recs el ! ins_contig_index ins) x = ins_contig ins"
  shows "\<exists>el'. ocfs2_insert_at_leaf fs x el ins = Some el' \<and> result_of fs hi el x el'"
proof -
  note d = can_insertD [OF can] and at = scan_used(3) [OF can_insertD(11) [OF can]] and len = scan_used(2) [OF can_insertD(11) [OF can]]
  let ?E = "leaf_exts el" and ?nf = "unat (l_next_free_rec el)"
  obtain p where p: "lead p" "used_recs el = p @ ?E" using leaf_list_lead [OF d(1)] by blast
  show ?thesis
  proof (cases "ins_contig ins = CONTIG_NONE")
    case False
    let ?i = "ins_contig_index ins" and ?m = "joined (used_recs el ! ins_contig_index ins) x (ins_contig ins)"
    have "ocfs2_insert_at_leaf fs x el ins = Some (el\<lparr>l_recs := (l_recs el)[?i := ?m]\<rparr>)"
      using contig [OF False] False sp d(9,11) at [of ?i] by (auto simp: ocfs2_insert_at_leaf_def put_rec_def joined_def Let_def)
    then show ?thesis using contig_leaf_ok [OF can _ refl, of ?i "ins_contig ins"] contig [OF False] False by auto
  next
    case True
    note n = none [OF True]
    have lt: "?nf < length (l_recs el)" "unat (l_next_free_rec el + 1) = Suc ?nf" "l_next_free_rec el + 1 \<le> l_count el"
      using n d(13) next_free_Suc [of "l_next_free_rec el" "l_count el"] by (auto simp: word_less_nat_alt word_le_nat_alt)
    have unfold: "ocfs2_insert_at_leaf fs x el ins =
      (if ?E = [] then put_rec (el\<lparr>l_next_free_rec := 1\<rparr>) 0 x
       else if ins_appending ins = APPEND_TAIL then
         do { rec \<leftarrow> rec_at el (?nf - 1);
              if e_cpos x < e_cpos rec + ucast (e_leaf_clusters rec) then None
              else put_rec (el\<lparr>l_next_free_rec := l_next_free_rec el + 1\<rparr>) ?nf x }
       else ocfs2_rotate_leaf el x)"
      using True sp d(9) by (simp add: ocfs2_insert_at_leaf_def bare_iff [OF can])
    consider "?E = []" | "?E \<noteq> []" "ins_appending ins = APPEND_TAIL" | "?E \<noteq> []" "ins_appending ins \<noteq> APPEND_TAIL" by blast
    then show ?thesis
    proof cases
      case 1
      let ?el = "el\<lparr>l_next_free_rec := 1, l_recs := (l_recs el)[0 := x]\<rparr>"
      have "result_of fs hi el x ?el"
      proof (rule result_ins_ext [OF can, of _ "[]"])
        show "used_recs ?el = [] @ ins_ext x ?E" using 1 lt by (cases "l_recs el") (auto simp: used_recs_def ins_ext_def)
        show "l_next_free_rec ?el \<le> l_count el" using n by (auto simp: word_less_nat_alt word_le_nat_alt)
      qed (simp_all add: same_frame_def lead_def)
      then show ?thesis using 1 lt(1) unfold by (auto simp: put_rec_def)
    next
      case 2
      let ?el = "el\<lparr>l_next_free_rec := l_next_free_rec el + 1, l_recs := (l_recs el)[?nf := x]\<rparr>"
      have end_x: "e_end (last ?E) \<le> unat (e_cpos x)" using n 2 by blast
      have le: "e_cpos r \<le> e_cpos x" if "r \<in> set ?E" for r
        using extents_in_last [OF d(10) that] end_x by (simp add: word_le_nat_alt)
      have "result_of fs hi el x ?el"
      proof (rule result_ins_ext [OF can _ _ _ p(1)])
        have "used_recs ?el = used_recs el @ [x]" using lt by (simp add: used_recs_def take_Suc_conv_app_nth)
        then show "used_recs ?el = p @ ins_ext x ?E" using p(2) ins_ext_last [OF le] by simp
        show "l_next_free_rec ?el \<le> l_count el" using lt by simp
      qed (simp add: same_frame_def)
      moreover have "rec_at el (?nf - 1) = Some (last ?E)" by (rule rec_at_last [OF can 2(1)])
      moreover have "unat (e_cpos (last ?E) + ucast (e_leaf_clusters (last ?E))) = e_end (last ?E)"
        using can_insert_rec(3) [OF can, of "last ?E"] 2(1) by (simp add: e_end_def unat_word_ariths ucast_leaf)
      ultimately show ?thesis using 2 lt unfold end_x by (simp add: put_rec_def word_less_nat_alt)
    next
      case 3
      have nz: "l_next_free_rec el \<noteq> 0" using 3(1) p(2) len by auto
      obtain el' where e: "ocfs2_rotate_leaf el x = Some el'" "same_frame el el'" "l_next_free_rec el' \<le> l_count el'" "used_recs el' = ins_ext x ?E"
        using rotate_leaf_ok [OF d(1,2) nz, of x] n by blast
      moreover from this have "result_of fs hi el x el'" by (intro result_ins_ext [OF can, of _ "[]"]) (simp_all add: same_frame_def lead_def)
      ultimately show ?thesis using 3 unfold by simp
    qed
  qed
qed


section \<open>Inserting in an inode\<close>

lemma insert_in_inode_ok:
  assumes can: "can_insert fs hi (i_list di) (leaf_rec cpos (ucast clusters) (ucast flag) blkno)"
  shows "insert_extent_in_inode fs di cpos blkno clusters flag = Some None \<and> l_next_free_rec (i_list di) = l_count (i_list di) \<and>
      (\<forall>r\<in>set (leaf_exts (i_list di)). ocfs2_extent_contig fs r (leaf_rec cpos (ucast clusters) (ucast flag) blkno) = CONTIG_NONE) \<or>
    (\<exists>el. insert_extent_in_inode fs di cpos blkno clusters flag =
        Some (Some (di\<lparr>i_list := el, i_clusters := (i_clusters di + unat (ucast clusters :: u16)) mod 2 ^ 32\<rparr>)) \<and>
      result_of fs hi (i_list di) (leaf_rec cpos (ucast clusters) (ucast flag) blkno) el)"
proof -
  let ?x = "leaf_rec cpos (ucast clusters) (ucast flag) blkno" and ?el = "i_list di"
  let ?i0 = "\<lparr>ins_split = SPLIT_NONE, ins_appending = APPEND_NONE, ins_contig = CONTIG_NONE, ins_contig_index = 0, ins_tree_depth = 0\<rparr>"
  obtain i1 i2 where i: "ocfs2_figure_contig_type fs ?i0 ?el ?x = Some i1" "ocfs2_figure_appending_type i1 ?el ?x = Some i2" "ins_split i2 = SPLIT_NONE"
    and k: "if ins_contig i2 = CONTIG_NONE
     then (\<forall>r\<in>set (leaf_exts ?el). ocfs2_extent_contig fs r ?x = CONTIG_NONE) \<and>
       (ins_appending i2 = APPEND_TAIL \<longleftrightarrow> leaf_exts ?el = [] \<or> e_end (last (leaf_exts ?el)) \<le> unat (e_cpos ?x))
     else ins_contig_index i2 < unat (l_next_free_rec ?el) \<and> ocfs2_extent_contig fs (used_recs ?el ! ins_contig_index i2) ?x = ins_contig i2"
    using figure_types [OF can, of ?i0] by auto
  show ?thesis
  proof (cases "ins_contig i2 = CONTIG_NONE \<and> l_count ?el = l_next_free_rec ?el")
    case True
    then show ?thesis using i k by (simp add: insert_extent_in_inode_def Let_def)
  next
    case False
    have "\<exists>el'. ocfs2_insert_at_leaf fs ?x ?el i2 = Some el' \<and> result_of fs hi ?el ?x el'"
      using False k can_insertD(14) [OF can] by (intro insert_at_leaf_ok [OF can i(3)]) auto
    then obtain el' where "ocfs2_insert_at_leaf fs ?x ?el i2 = Some el'" "result_of fs hi ?el ?x el'" by blast
    then show ?thesis using i False by (intro disjI2 exI [of _ el']) (auto simp: insert_extent_in_inode_def Let_def)
  qed
qed

lemma small_clusters: "unat (clusters :: u32) < 2 ^ 16 \<Longrightarrow> unat (ucast clusters :: u16) = unat clusters"
  by (simp add: unsigned_ucast_eq take_bit_nat_eq_self)

lemma inserted_map:
  assumes "can_insert fs hi (i_list di) (leaf_rec cpos (ucast clusters) (ucast flag) blkno)" and "unat clusters < 2 ^ 16"
  shows "case insert_extent_in_inode fs di cpos blkno clusters flag of
      None \<Rightarrow> False
    | Some None \<Rightarrow> l_next_free_rec (i_list di) = l_count (i_list di) \<and>
        (\<forall>r\<in>set (leaf_exts (i_list di)). ocfs2_extent_contig fs r (leaf_rec cpos (ucast clusters) (ucast flag) blkno) = CONTIG_NONE)
    | Some (Some di') \<Rightarrow> leaf_list 0 (max hi (unat cpos + unat clusters)) (i_list di') \<and> leaf_room (i_list di') \<and>
        i_clusters di' = (i_clusters di + unat clusters) mod 2 ^ 32 \<and> i_last_eb_blk di' = i_last_eb_blk di \<and>
        ext_map fs (leaf_exts (i_list di')) =
          (\<lambda>v. if unat cpos \<le> v \<and> v < unat cpos + unat clusters
               then Some (blkno + (v - unat cpos) * 2 ^ (s_clustersize_bits fs - s_blocksize_bits fs), ucast flag) else ext_map fs (leaf_exts (i_list di)) v)"
proof -
  let ?x = "leaf_rec cpos (ucast clusters) (ucast flag) blkno"
  have n: "unat (ucast clusters :: u16) = unat clusters" by (rule small_clusters [OF assms(2)])
  then have e: "e_end ?x = unat cpos + unat clusters" by (simp add: e_end_def)
  have w: "with_extent fs ?x E = (\<lambda>v. if unat cpos \<le> v \<and> v < unat cpos + unat clusters
      then Some (blkno + (v - unat cpos) * 2 ^ (s_clustersize_bits fs - s_blocksize_bits fs), ucast flag) else ext_map fs E v)" for E
    by (rule ext) (simp add: with_extent_def in_rec_def phys_def e)
  show ?thesis using insert_in_inode_ok [OF assms(1)] by (auto simp: result_of_def n e w)
qed


text \<open>
  C27.  Inserting an extent into an inode whose extents are in the inode, at clusters the file does not have yet: unless the list is full and no
  record can be extended (then the code grows a tree), the clusters of the extent are mapped to its blocks with its flag, every other cluster is mapped as before, the list is
  sound again, however the code goes about it (extending a record in front or behind, appending, or moving records), and the count of the inode goes up.  The conditions are those of \<open>can_insert\<close>: the
  list is a sound leaf (depth 0), the extent is on the device, and the lengths of it and of a record that it may join add up to less than \<open>2 ^ 16\<close>, the room of their field.
\<close>

theorem insert_extent_adds_clusters:
  assumes "can_insert fs hi (i_list di) (leaf_rec cpos (ucast clusters) (ucast flag) blkno)" and "unat clusters < 2 ^ 16"
  shows "case insert_extent_in_inode fs di cpos blkno clusters flag of
      None \<Rightarrow> False
    | Some None \<Rightarrow> l_next_free_rec (i_list di) = l_count (i_list di) \<and>
        (\<forall>r\<in>set (leaf_exts (i_list di)). ocfs2_extent_contig fs r (leaf_rec cpos (ucast clusters) (ucast flag) blkno) = CONTIG_NONE)
    | Some (Some di') \<Rightarrow> leaf_list 0 (max hi (unat cpos + unat clusters)) (i_list di') \<and> leaf_room (i_list di') \<and>
        i_clusters di' = (i_clusters di + unat clusters) mod 2 ^ 32 \<and> i_last_eb_blk di' = i_last_eb_blk di \<and>
        ext_map fs (leaf_exts (i_list di')) =
          (\<lambda>v. if unat cpos \<le> v \<and> v < unat cpos + unat clusters
               then Some (blkno + (v - unat cpos) * 2 ^ (s_clustersize_bits fs - s_blocksize_bits fs), ucast flag) else ext_map fs (leaf_exts (i_list di)) v)"
  using inserted_map [OF assms] .

text \<open>A file with clusters 0 to 3 at block 100 and clusters 8 and 9 at block 200 with flag 1, in the inode.\<close>

definition small_inode :: ext_dinode where
  "small_inode = \<lparr>i_blkno = 5, i_dyn_features = 0, i_size = 5120, i_clusters = 6, i_raw = [], i_flags = 1, i_last_eb_blk = 0,
     i_list = \<lparr>l_tree_depth = 0, l_count = 4, l_next_free_rec = 2, l_reserved1 = 0, l_reserved2 = 0, l_recs = [sample_rec1, sample_rec2, zero_rec, zero_rec]\<rparr>\<rparr>"

lemma sample_recs [simp]:
  "e_cpos sample_rec1 = 0" "e_blkno sample_rec1 = 100" "e_leaf_clusters sample_rec1 = 4" "e_flags sample_rec1 = 0"
  "e_cpos sample_rec2 = 8" "e_blkno sample_rec2 = 200" "e_leaf_clusters sample_rec2 = 2" "e_flags sample_rec2 = 1"
  by (simp_all add: sample_rec1_def sample_rec2_def e_leaf_clusters_def e_flags_def)

lemma small_inode_exts: "leaf_exts (i_list small_inode) = [sample_rec1, sample_rec2]"
  by (simp add: leaf_exts_def used_recs_def small_inode_def ocfs2_is_empty_extent_def)

lemma small_inode_can: "can_insert sample_ext_fs 10 (i_list small_inode) (leaf_rec 6 (ucast (2 :: u32)) (ucast (0 :: u16)) 300)"
proof -
  have "leaf_list 0 10 (i_list small_inode)"
    unfolding leaf_list_def small_inode_exts by (simp add: small_inode_def used_recs_def ocfs2_is_empty_extent_def e_end_def)
  moreover have "leaf_room (i_list small_inode)" by (simp add: leaf_room_def small_inode_def)
  moreover have "new_ext 0 (leaf_rec 6 2 0 300)" by (simp add: new_ext_def ocfs2_is_empty_extent_def)
  moreover have "apart (leaf_rec 6 2 0 300) [sample_rec1, sample_rec2]" by (simp add: apart_def e_end_def)
  moreover have "on_device sample_ext_fs r" if "r \<in> {sample_rec1, sample_rec2, leaf_rec 6 2 0 300}" for r using that by (auto simp: on_device_def sample_ext_fs_def)
  ultimately show ?thesis by (simp add: can_insert_def small_inode_exts e_end_def) (simp add: sample_ext_fs_def)
qed

theorem insert_extent_adds_clusters_witness:
  "(case insert_extent_in_inode sample_ext_fs small_inode 6 300 2 0 of
      Some (Some di) \<Rightarrow> i_clusters di = 8 \<and> ext_map sample_ext_fs (leaf_exts (i_list di)) 7 = Some (301, 0) \<and> ext_map sample_ext_fs (leaf_exts (i_list di)) 9 = Some (201, 1)
    | _ \<Rightarrow> False)"
proof -
  have "ext_map sample_ext_fs [sample_rec1, sample_rec2] 9 = Some (201, 1)"
    by (simp add: ext_map_def in_rec_def phys_def e_end_def) (simp add: sample_ext_fs_def)
  moreover have "s_clustersize_bits sample_ext_fs - s_blocksize_bits sample_ext_fs = 0" by (simp add: sample_ext_fs_def)
  moreover have "l_next_free_rec (i_list small_inode) \<noteq> l_count (i_list small_inode)" "i_clusters small_inode = 6" by (simp_all add: small_inode_def)
  ultimately show ?thesis
    using insert_extent_adds_clusters [OF small_inode_can] by (simp add: small_inode_exts split: option.splits)
qed

text \<open>What \<open>ocfs2_get_clusters\<close> finds, by the cluster map.\<close>

lemma lookup_by_map:
  assumes "extents_in lo hi E"
  shows "case ext_map fs E (unat v) of
      Some (b, f) \<Rightarrow> b div 2 ^ (s_clustersize_bits fs - s_blocksize_bits fs) < 2 ^ 32 \<longrightarrow>
        (\<exists>n. ext_lookup fs E v = (of_nat (b div 2 ^ (s_clustersize_bits fs - s_blocksize_bits fs)), Some n, f))
    | None \<Rightarrow> \<exists>n. ext_lookup fs E v = (0, Some n, 0)"
proof (cases "find (rec_covers v) E")
  case (Some r)
  let ?K = "2 ^ (s_clustersize_bits fs - s_blocksize_bits fs) :: nat"
  have eq: "in_rec r (unat v) \<longleftrightarrow> rec_covers v r" for r by (simp add: in_rec_def rec_covers_def word_le_nat_alt)
  have "e_cpos r \<le> v" using Some by (auto simp: find_Some_iff rec_covers_def)
  then have d: "of_nat (unat v - unat (e_cpos r)) = v - e_cpos r" by (simp add: word_le_nat_alt of_nat_diff)
  have "(e_blkno r + n * ?K) div ?K = e_blkno r div ?K + n" for n by simp
  then show ?thesis using Some by (auto simp: ext_map_def eq phys_def ext_lookup_def ocfs2_blocks_to_clusters_def Let_def d)
next
  case None
  have eq: "in_rec r (unat v) \<longleftrightarrow> rec_covers v r" for r by (simp add: in_rec_def rec_covers_def word_le_nat_alt)
  show ?thesis using None by (auto simp: ext_map_def eq ext_lookup_def)
qed

text \<open>
  C8.  After an extent was inserted into an inode without extent blocks, looking up any of its clusters with \<open>ocfs2_get_clusters\<close> gives the cluster of its block on disk with
  its flag, and any other cluster is found where it was before, or is a hole as before.  The conditions are those of \<open>can_insert\<close>: the list is a sound leaf (depth 0), the extent lies apart from the
  others and on the device, and the lengths of it and of a record that it may join add up to less than \<open>2 ^ 16\<close>, the room of their field.
\<close>

theorem insert_then_get_clusters:
  assumes "can_insert fs hi (i_list di) (leaf_rec cpos (ucast clusters) (ucast flag) blkno)" and "unat clusters < 2 ^ 16" and "i_last_eb_blk di = 0"
    and "insert_extent_in_inode fs di cpos blkno clusters flag = Some (Some di')"
  shows "case (if unat cpos \<le> unat v \<and> unat v < unat cpos + unat clusters
               then Some (blkno + (unat v - unat cpos) * 2 ^ (s_clustersize_bits fs - s_blocksize_bits fs), ucast flag)
               else ext_map fs (leaf_exts (i_list di)) (unat v)) of
      Some (b, f) \<Rightarrow> b div 2 ^ (s_clustersize_bits fs - s_blocksize_bits fs) < 2 ^ 32 \<longrightarrow>
        (\<exists>n. ocfs2_get_clusters fs di' v True = Some (Inr (of_nat (b div 2 ^ (s_clustersize_bits fs - s_blocksize_bits fs)), Some n, f)))
    | None \<Rightarrow> \<exists>n. ocfs2_get_clusters fs di' v True = Some (Inr (0, Some n, 0))"
proof -
  let ?E = "leaf_exts (i_list di')"
  note m = inserted_map [OF assms(1,2)]
  have l: "leaf_list 0 (max hi (unat cpos + unat clusters)) (i_list di')" "i_last_eb_blk di' = 0"
    "ext_map fs ?E (unat v) = (if unat cpos \<le> unat v \<and> unat v < unat cpos + unat clusters
       then Some (blkno + (unat v - unat cpos) * 2 ^ (s_clustersize_bits fs - s_blocksize_bits fs), ucast flag) else ext_map fs (leaf_exts (i_list di)) (unat v))"
    using m assms(3,4) by simp_all
  have "max hi (unat cpos + unat clusters) < 2 ^ 32" using can_insertD(3,4) [OF assms(1)] small_clusters [OF assms(2)] by (simp add: e_end_def)
  moreover have "l_tree_depth (i_list di') = 0" using l(1) by (simp add: leaf_list_def)
  moreover from calculation(1) l(1) have "\<exists>h<2 ^ 32. leaf_list 0 h (i_list di')" by blast
  ultimately have "inode_extents fs di' ?E" using l(2) by (simp add: inode_extents_def)
  moreover have "extents_in 0 (max hi (unat cpos + unat clusters)) ?E" using l(1) by (simp add: leaf_list_def)
  ultimately show ?thesis using lookup_by_map [of 0 _ ?E fs v] get_clusters_ok [of fs di' ?E v True] unfolding l(3)
    by (auto split: option.splits if_splits)
qed

definition small_inode_after :: ext_dinode where
  "small_inode_after = small_inode\<lparr>i_clusters := 8, i_list := (i_list small_inode)\<lparr>l_next_free_rec := 3, l_recs := [sample_rec1, leaf_rec 6 2 0 300, sample_rec2, zero_rec]\<rparr>\<rparr>"

lemma small_inode_inserted: "insert_extent_in_inode sample_ext_fs small_inode 6 300 2 0 = Some (Some small_inode_after)"
proof -
  have "ocfs2_extent_contig sample_ext_fs r (leaf_rec 6 2 0 300) = CONTIG_NONE" if "r \<in> {sample_rec1, sample_rec2}" for r
    using that by (auto simp: ocfs2_extent_contig_def ocfs2_extents_adjacent_def)
  moreover have "scan_recs P recs i (numeral k) = (if i < length recs then if P (recs ! i) then Some i else scan_recs P recs (Suc i) (pred_numeral k) else None)"
    for P recs i k by (simp add: numeral_eq_Suc)
  ultimately show ?thesis
    by (simp add: insert_extent_in_inode_def small_inode_def ocfs2_figure_contig_type_def ocfs2_figure_appending_type_def rec_at_def ocfs2_is_empty_extent_def
        ocfs2_insert_at_leaf_def ocfs2_rotate_leaf_def move_recs_def put_rec_def small_inode_after_def Let_def)
qed

theorem insert_then_get_clusters_witness:
  "(\<exists>n. ocfs2_get_clusters sample_ext_fs small_inode_after 7 True = Some (Inr (301, Some n, 0))) \<and>
   (\<exists>n. ocfs2_get_clusters sample_ext_fs small_inode_after 9 True = Some (Inr (201, Some n, 1))) \<and>
   (\<exists>n. ocfs2_get_clusters sample_ext_fs small_inode_after 5 True = Some (Inr (0, Some n, 0)))"
proof -
  have k: "s_clustersize_bits sample_ext_fs - s_blocksize_bits sample_ext_fs = 0" "i_last_eb_blk small_inode = 0" by (simp_all add: sample_ext_fs_def small_inode_def)
  have m: "ext_map sample_ext_fs [sample_rec1, sample_rec2] 9 = Some (201, 1)" "ext_map sample_ext_fs [sample_rec1, sample_rec2] 5 = None"
    by (simp_all add: ext_map_def in_rec_def phys_def e_end_def k)
  note ok = insert_then_get_clusters [OF small_inode_can _ k(2) small_inode_inserted]
  show ?thesis using ok [of 7] ok [of 9] ok [of 5] by (simp add: small_inode_exts k(1) m)
qed

end
