(* ===== verification/Features.thy ===== *)
theory Features
  imports Dirblock
begin

text \<open>
  \<open>libocfs2/feature_string.c\<close>: the features of a filesystem as sets of flags.  \<open>mkfs.ocfs2\<close> and \<open>tunefs.ocfs2\<close> parse the list of features that the user wants to have or not to
  have, add what these depend on, and merge it with the features of a level; features are printed by their names.
\<close>

section \<open>The model\<close>

record ocfs2_fs_options =
  opt_compat :: u32
  opt_incompat :: u32
  opt_ro_compat :: u32

definition OCFS2_FEATURE_INCOMPAT_HEARTBEAT_DEV :: u32 where "OCFS2_FEATURE_INCOMPAT_HEARTBEAT_DEV = 0x2"
definition OCFS2_FEATURE_INCOMPAT_RESIZE_INPROG :: u32 where "OCFS2_FEATURE_INCOMPAT_RESIZE_INPROG = 0x4"
definition OCFS2_FEATURE_INCOMPAT_LOCAL_MOUNT :: u32 where "OCFS2_FEATURE_INCOMPAT_LOCAL_MOUNT = 0x8"
definition OCFS2_FEATURE_INCOMPAT_SPARSE_ALLOC :: u32 where "OCFS2_FEATURE_INCOMPAT_SPARSE_ALLOC = 0x10"
definition OCFS2_FEATURE_INCOMPAT_TUNEFS_INPROG :: u32 where "OCFS2_FEATURE_INCOMPAT_TUNEFS_INPROG = 0x20"
definition OCFS2_FEATURE_INCOMPAT_USERSPACE_STACK :: u32 where "OCFS2_FEATURE_INCOMPAT_USERSPACE_STACK = 0x80"
definition OCFS2_FEATURE_INCOMPAT_EXTENDED_SLOT_MAP :: u32 where "OCFS2_FEATURE_INCOMPAT_EXTENDED_SLOT_MAP = 0x100"
definition OCFS2_FEATURE_INCOMPAT_XATTR :: u32 where "OCFS2_FEATURE_INCOMPAT_XATTR = 0x200"
definition OCFS2_FEATURE_COMPAT_BACKUP_SB :: u32 where "OCFS2_FEATURE_COMPAT_BACKUP_SB = 0x1"
definition OCFS2_FEATURE_COMPAT_JBD2_SB :: u32 where "OCFS2_FEATURE_COMPAT_JBD2_SB = 0x2"
definition OCFS2_FEATURE_RO_COMPAT_UNWRITTEN :: u32 where "OCFS2_FEATURE_RO_COMPAT_UNWRITTEN = 0x1"

abbreviation compat :: "u32 \<Rightarrow> ocfs2_fs_options" where "compat f \<equiv> \<lparr>opt_compat = f, opt_incompat = 0, opt_ro_compat = 0\<rparr>"
abbreviation incompat :: "u32 \<Rightarrow> ocfs2_fs_options" where "incompat f \<equiv> \<lparr>opt_compat = 0, opt_incompat = f, opt_ro_compat = 0\<rparr>"
abbreviation ro_compat :: "u32 \<Rightarrow> ocfs2_fs_options" where "ro_compat f \<equiv> \<lparr>opt_compat = 0, opt_incompat = 0, opt_ro_compat = f\<rparr>"

record fs_feature_flags =
  ff_str :: string
  ff_own_flags :: ocfs2_fs_options
  ff_flags :: ocfs2_fs_options  \<comment> \<open>the own flag and those of the features it depends on\<close>

datatype ocfs2_feature_levels = OCFS2_FEATURE_LEVEL_DEFAULT | OCFS2_FEATURE_LEVEL_MAX_COMPAT | OCFS2_FEATURE_LEVEL_MAX_FEATURES

definition ocfs2_feature_levels_table :: "(string \<times> ocfs2_feature_levels) list" where
  "ocfs2_feature_levels_table =
     [(''default'', OCFS2_FEATURE_LEVEL_DEFAULT), (''max-compat'', OCFS2_FEATURE_LEVEL_MAX_COMPAT), (''max-features'', OCFS2_FEATURE_LEVEL_MAX_FEATURES)]"

fun feature_level_defaults :: "ocfs2_feature_levels \<Rightarrow> ocfs2_fs_options" where
  "feature_level_defaults OCFS2_FEATURE_LEVEL_DEFAULT =
     \<lparr>opt_compat = OCFS2_FEATURE_COMPAT_BACKUP_SB OR OCFS2_FEATURE_COMPAT_JBD2_SB,
      opt_incompat = OCFS2_FEATURE_INCOMPAT_SPARSE_ALLOC OR OCFS2_FEATURE_INCOMPAT_INLINE_DATA,
      opt_ro_compat = OCFS2_FEATURE_RO_COMPAT_UNWRITTEN\<rparr>"
| "feature_level_defaults OCFS2_FEATURE_LEVEL_MAX_COMPAT =
     \<lparr>opt_compat = OCFS2_FEATURE_COMPAT_BACKUP_SB OR OCFS2_FEATURE_COMPAT_JBD2_SB, opt_incompat = 0, opt_ro_compat = 0\<rparr>"
| "feature_level_defaults OCFS2_FEATURE_LEVEL_MAX_FEATURES =
     \<lparr>opt_compat = OCFS2_FEATURE_COMPAT_BACKUP_SB OR OCFS2_FEATURE_COMPAT_JBD2_SB,
      opt_incompat = OCFS2_FEATURE_INCOMPAT_SPARSE_ALLOC OR OCFS2_FEATURE_INCOMPAT_EXTENDED_SLOT_MAP OR OCFS2_FEATURE_INCOMPAT_INLINE_DATA OR
        OCFS2_FEATURE_INCOMPAT_META_ECC OR OCFS2_FEATURE_INCOMPAT_XATTR,
      opt_ro_compat = OCFS2_FEATURE_RO_COMPAT_UNWRITTEN\<rparr>"

definition ocfs2_supported_features :: "fs_feature_flags list" where
  "ocfs2_supported_features =
     [\<lparr>ff_str = ''local'', ff_own_flags = incompat OCFS2_FEATURE_INCOMPAT_LOCAL_MOUNT, ff_flags = incompat OCFS2_FEATURE_INCOMPAT_LOCAL_MOUNT\<rparr>,
      \<lparr>ff_str = ''sparse'', ff_own_flags = incompat OCFS2_FEATURE_INCOMPAT_SPARSE_ALLOC, ff_flags = incompat OCFS2_FEATURE_INCOMPAT_SPARSE_ALLOC\<rparr>,
      \<lparr>ff_str = ''backup-super'', ff_own_flags = compat OCFS2_FEATURE_COMPAT_BACKUP_SB, ff_flags = compat OCFS2_FEATURE_COMPAT_BACKUP_SB\<rparr>,
      \<lparr>ff_str = ''unwritten'', ff_own_flags = ro_compat OCFS2_FEATURE_RO_COMPAT_UNWRITTEN,
       ff_flags = \<lparr>opt_compat = 0, opt_incompat = OCFS2_FEATURE_INCOMPAT_SPARSE_ALLOC, opt_ro_compat = OCFS2_FEATURE_RO_COMPAT_UNWRITTEN\<rparr>\<rparr>,
      \<lparr>ff_str = ''extended-slotmap'', ff_own_flags = incompat OCFS2_FEATURE_INCOMPAT_EXTENDED_SLOT_MAP, ff_flags = incompat OCFS2_FEATURE_INCOMPAT_EXTENDED_SLOT_MAP\<rparr>,
      \<lparr>ff_str = ''inline-data'', ff_own_flags = incompat OCFS2_FEATURE_INCOMPAT_INLINE_DATA, ff_flags = incompat OCFS2_FEATURE_INCOMPAT_INLINE_DATA\<rparr>,
      \<lparr>ff_str = ''metaecc'', ff_own_flags = incompat OCFS2_FEATURE_INCOMPAT_META_ECC, ff_flags = incompat OCFS2_FEATURE_INCOMPAT_META_ECC\<rparr>,
      \<lparr>ff_str = ''xattr'', ff_own_flags = incompat OCFS2_FEATURE_INCOMPAT_XATTR, ff_flags = incompat OCFS2_FEATURE_INCOMPAT_XATTR\<rparr>]"

definition ocfs2_feature_names :: "(string \<times> ocfs2_fs_options) list" where
  "ocfs2_feature_names =
     [(''heartbeat-device'', incompat OCFS2_FEATURE_INCOMPAT_HEARTBEAT_DEV), (''aborted-resize'', incompat OCFS2_FEATURE_INCOMPAT_RESIZE_INPROG),
      (''local'', incompat OCFS2_FEATURE_INCOMPAT_LOCAL_MOUNT), (''sparse'', incompat OCFS2_FEATURE_INCOMPAT_SPARSE_ALLOC),
      (''extended-slotmap'', incompat OCFS2_FEATURE_INCOMPAT_EXTENDED_SLOT_MAP), (''aborted-tunefs'', incompat OCFS2_FEATURE_INCOMPAT_TUNEFS_INPROG),
      (''userspace-stack'', incompat OCFS2_FEATURE_INCOMPAT_USERSPACE_STACK), (''backup-super'', compat OCFS2_FEATURE_COMPAT_BACKUP_SB),
      (''unwritten'', ro_compat OCFS2_FEATURE_RO_COMPAT_UNWRITTEN), (''inline-data'', incompat OCFS2_FEATURE_INCOMPAT_INLINE_DATA),
      (''strict-journal-super'', compat OCFS2_FEATURE_COMPAT_JBD2_SB), (''metaecc'', incompat OCFS2_FEATURE_INCOMPAT_META_ECC),
      (''xattr'', incompat OCFS2_FEATURE_INCOMPAT_XATTR)]"

definition ocfs2_tunefs_flag_names :: "(string \<times> u16) list" where
  "ocfs2_tunefs_flag_names = [(''remove-slot'', 1), (''dir-trailer'', 2)]"

definition merge_features :: "ocfs2_fs_options \<Rightarrow> ocfs2_fs_options \<Rightarrow> ocfs2_fs_options" where
  "merge_features features new_features =
     \<lparr>opt_compat = opt_compat features OR opt_compat new_features, opt_incompat = opt_incompat features OR opt_incompat new_features,
      opt_ro_compat = opt_ro_compat features OR opt_ro_compat new_features\<rparr>"

definition ocfs2_parse_feature_level :: "string \<Rightarrow> ocfs2_feature_levels result" where
  "ocfs2_parse_feature_level typestr =
     (case find (\<lambda>(s, _). s = typestr) ocfs2_feature_levels_table of Some (_, l) \<Rightarrow> Inr l | None \<Rightarrow> Inl OCFS2_ET_UNSUPP_FEATURE)"

definition check_feature_flags :: "ocfs2_fs_options \<Rightarrow> ocfs2_fs_options \<Rightarrow> bool" where
  "check_feature_flags fs_flags fs_r_flags =
     (if opt_compat fs_r_flags \<noteq> 0 \<and> opt_compat fs_flags AND opt_compat fs_r_flags \<noteq> 0 then False
      else if opt_incompat fs_r_flags \<noteq> 0 \<and> opt_incompat fs_flags AND opt_incompat fs_r_flags \<noteq> 0 then False
      else if opt_ro_compat fs_r_flags \<noteq> 0 \<and> opt_ro_compat fs_flags AND opt_ro_compat fs_r_flags \<noteq> 0 then False else True)"

definition feature_match :: "ocfs2_fs_options \<Rightarrow> ocfs2_fs_options \<Rightarrow> bool" where
  "feature_match a b \<longleftrightarrow> opt_compat a AND opt_compat b \<noteq> 0 \<or> opt_incompat a AND opt_incompat b \<noteq> 0 \<or> opt_ro_compat a AND opt_ro_compat b \<noteq> 0"

definition no_features :: ocfs2_fs_options where
  "no_features = \<lparr>opt_compat = 0, opt_incompat = 0, opt_ro_compat = 0\<rparr>"

text \<open>
  Printing into a buffer: the text so far and the bytes that are left.  \<open>snprintf\<close> cuts what it writes to \<open>remain - 1\<close> characters (nothing if no byte is left) and the result tells the full length.
\<close>

definition print_word :: "string \<Rightarrow> nat \<Rightarrow> string \<Rightarrow> errcode option \<times> string \<times> nat" where
  "print_word text remain word =
     (let s = (if text = [] then word else '' '' @ word) in
      if length s \<ge> remain then (Some OCFS2_ET_NO_SPACE, text @ take (remain - 1) s, remain) else (None, text @ s, remain - length s))"

fun print_names :: "string list \<Rightarrow> string \<Rightarrow> nat \<Rightarrow> errcode option \<times> string" where
  "print_names [] text remain = (None, text)"
| "print_names (w # ws) text remain = (case print_word text remain w of (Some e, text, _) \<Rightarrow> (Some e, text) | (None, text, remain) \<Rightarrow> print_names ws text remain)"

definition ocfs2_snprint_feature_flags :: "nat \<Rightarrow> ocfs2_fs_options \<Rightarrow> errcode option \<times> string" where
  "ocfs2_snprint_feature_flags len flags =
     (let hits = filter (\<lambda>(_, f). feature_match flags f) ocfs2_feature_names;
          found = fold (\<lambda>(_, f) acc. merge_features acc f) hits no_features in
      print_names (map fst hits @ (if found \<noteq> flags then [''unknown''] else [])) [] len)"

definition ocfs2_snprint_tunefs_flags :: "nat \<Rightarrow> u16 \<Rightarrow> errcode option \<times> string" where
  "ocfs2_snprint_tunefs_flags len flags =
     (let hits = filter (\<lambda>(_, f). flags AND f \<noteq> 0) ocfs2_tunefs_flag_names;
          found = fold (\<lambda>(_, f) acc. acc OR f) hits 0 in
      print_names (map fst hits @ (if found \<noteq> flags then [''unknown''] else [])) [] len)"

text \<open>The loop of \<open>ocfs2_feature_clear_deps\<close> over the table.\<close>

fun clear_deps_loop :: "fs_feature_flags list \<Rightarrow> ocfs2_fs_options \<Rightarrow> ocfs2_fs_options" where
  "clear_deps_loop [] reverse_set = reverse_set"
| "clear_deps_loop (f # fs) reverse_set =
     clear_deps_loop fs (if feature_match reverse_set (ff_flags f) then merge_features reverse_set (ff_own_flags f) else reverse_set)"

definition ocfs2_feature_clear_deps :: "ocfs2_fs_options \<Rightarrow> ocfs2_fs_options" where
  "ocfs2_feature_clear_deps reverse_set = clear_deps_loop ocfs2_supported_features reverse_set"

definition ocfs2_merge_feature_flags_with_level :: "ocfs2_feature_levels \<Rightarrow> ocfs2_fs_options \<Rightarrow> ocfs2_fs_options \<Rightarrow> ocfs2_fs_options result" where
  "ocfs2_merge_feature_flags_with_level level feature_set reverse_set =
     (let reverse_set = ocfs2_feature_clear_deps reverse_set in
      if \<not> check_feature_flags feature_set reverse_set then Inl OCFS2_ET_CONFLICTING_FEATURES
      else let dest = merge_features (feature_level_defaults level) feature_set in
        Inr \<lparr>opt_compat = opt_compat dest AND NOT (opt_compat reverse_set), opt_incompat = opt_incompat dest AND NOT (opt_incompat reverse_set),
             opt_ro_compat = opt_ro_compat dest AND NOT (opt_ro_compat reverse_set)\<rparr>)"

text \<open>The loop of \<open>ocfs2_parse_feature\<close>: the part up to the next comma is looked at; the loop stops at the end of the string.\<close>

function parse_loop :: "string \<Rightarrow> ocfs2_fs_options \<Rightarrow> ocfs2_fs_options \<Rightarrow> (ocfs2_fs_options \<times> ocfs2_fs_options) result" where
  "parse_loop opts feature_flags reverse_flags =
     (if opts = [] then Inr (feature_flags, reverse_flags)
      else let token = takeWhile (\<lambda>c. c \<noteq> CHR '','') opts; rest = drop (Suc (length token)) opts;
               reverse = (take 2 token = ''no''); token = (if reverse then drop 2 token else token) in
        case find (\<lambda>f. ff_str f = token) ocfs2_supported_features of
          None \<Rightarrow> Inl OCFS2_ET_UNSUPP_FEATURE
        | Some f \<Rightarrow> if reverse then parse_loop rest feature_flags (merge_features reverse_flags (ff_own_flags f))
                    else parse_loop rest (merge_features feature_flags (ff_flags f)) reverse_flags)"
  by pat_completeness auto
termination
  by (relation "measure (\<lambda>(opts, _, _). length opts)") auto

declare parse_loop.simps [simp del]

definition ocfs2_parse_feature :: "string \<Rightarrow> (ocfs2_fs_options \<times> ocfs2_fs_options) result" where
  "ocfs2_parse_feature opts =
     (case parse_loop opts no_features no_features of
        Inl e \<Rightarrow> Inl e
      | Inr (feature_flags, reverse_flags) \<Rightarrow>
          let reverse_flags = ocfs2_feature_clear_deps reverse_flags in
          if \<not> check_feature_flags feature_flags reverse_flags then Inl OCFS2_ET_CONFLICTING_FEATURES else Inr (feature_flags, reverse_flags))"

definition compare_feature_forward :: "nat \<Rightarrow> nat \<Rightarrow> int" where
  "compare_feature_forward ia ib =
     (let fa = ocfs2_supported_features ! ia; fb = ocfs2_supported_features ! ib in
      if feature_match (ff_flags fb) (ff_own_flags fa) then - 1 else if feature_match (ff_flags fa) (ff_own_flags fb) then 1 else 0)"

definition compare_feature_backward :: "nat \<Rightarrow> nat \<Rightarrow> int" where
  "compare_feature_backward a b = compare_feature_forward b a"

text \<open>
  The features of a set in the order of their dependencies; \<open>qsort\<close> of the C library is an argument.  \<open>func\<close> is called for each until it returns a value other
  than 0; it has a state.
\<close>

fun call_until :: "(ocfs2_fs_options \<Rightarrow> 's \<Rightarrow> bool \<times> 's) \<Rightarrow> nat list \<Rightarrow> 's \<Rightarrow> 's" where
  "call_until func [] s = s"
| "call_until func (i # is) s = (case func (ff_own_flags (ocfs2_supported_features ! i)) s of (stop, s) \<Rightarrow> if stop then s else call_until func is s)"

definition feature_foreach :: "((nat \<Rightarrow> nat \<Rightarrow> int) \<Rightarrow> nat list \<Rightarrow> nat list) \<Rightarrow> bool \<Rightarrow> ocfs2_fs_options \<Rightarrow> (ocfs2_fs_options \<Rightarrow> 's \<Rightarrow> bool \<times> 's) \<Rightarrow> 's \<Rightarrow> 's" where
  "feature_foreach qsort reverse feature_set func s =
     call_until func
       (qsort (if reverse then compare_feature_backward else compare_feature_forward)
          (filter (\<lambda>i. feature_match feature_set (ff_own_flags (ocfs2_supported_features ! i))) [0..<length ocfs2_supported_features])) s"

section \<open>Sets of flags\<close>

definition flags_of :: "ocfs2_fs_options \<Rightarrow> (nat \<times> nat) set" where
  "flags_of a = {0} \<times> {i. bit (opt_compat a) i} \<union> {1} \<times> {i. bit (opt_incompat a) i} \<union> {2} \<times> {i. bit (opt_ro_compat a) i}"

lemma and_nonzero: "a AND b \<noteq> 0 \<longleftrightarrow> {i. bit a i} \<inter> {i. bit b i} \<noteq> {}" for a b :: "'a :: len word"
  using bit_imp_le_length [of a] by (auto simp: bit_eq_iff bit_and_iff)

lemma flags_merge [simp]: "flags_of (merge_features a b) = flags_of a \<union> flags_of b"
  by (auto simp: flags_of_def merge_features_def bit_or_iff)

lemma flags_none [simp]: "flags_of no_features = {}"
  by (simp add: flags_of_def no_features_def)

lemma match_iff: "feature_match a b \<longleftrightarrow> flags_of a \<inter> flags_of b \<noteq> {}"
proof -
  have "flags_of a \<inter> flags_of b = {0} \<times> ({i. bit (opt_compat a) i} \<inter> {i. bit (opt_compat b) i}) \<union> {1} \<times> ({i. bit (opt_incompat a) i} \<inter> {i. bit (opt_incompat b) i}) \<union>
      {2} \<times> ({i. bit (opt_ro_compat a) i} \<inter> {i. bit (opt_ro_compat b) i})" by (auto simp: flags_of_def)
  then show ?thesis by (simp add: feature_match_def and_nonzero)
qed

lemma check_iff: "check_feature_flags a b \<longleftrightarrow> flags_of a \<inter> flags_of b = {}"
proof -
  have "check_feature_flags a b \<longleftrightarrow> \<not> feature_match a b" by (auto simp: check_feature_flags_def feature_match_def)
  then show ?thesis by (simp add: match_iff)
qed

lemma flags_without:
  "flags_of \<lparr>opt_compat = opt_compat a AND NOT (opt_compat b), opt_incompat = opt_incompat a AND NOT (opt_incompat b), opt_ro_compat = opt_ro_compat a AND NOT (opt_ro_compat b)\<rparr>
   = flags_of a - flags_of b"
  by (auto simp: flags_of_def bit_and_iff bit_not_iff dest: bit_imp_le_length)

section \<open>Dependencies\<close>

text \<open>With a feature, a set has everything that the feature depends on.\<close>

definition closed_set :: "(nat \<times> nat) set \<Rightarrow> bool" where
  "closed_set S \<longleftrightarrow> (\<forall>f\<in>set ocfs2_supported_features. flags_of (ff_own_flags f) \<inter> S \<noteq> {} \<longrightarrow> flags_of (ff_flags f) \<subseteq> S)"

text \<open>The table lists dependencies transitively, as its comment says.\<close>

definition transitive_table :: "fs_feature_flags list \<Rightarrow> bool" where
  "transitive_table fs \<longleftrightarrow> (\<forall>f\<in>set fs. \<forall>g\<in>set fs. flags_of (ff_own_flags g) \<inter> flags_of (ff_flags f) \<noteq> {} \<longrightarrow> flags_of (ff_flags g) \<subseteq> flags_of (ff_flags f))"

definition dependents :: "fs_feature_flags list \<Rightarrow> (nat \<times> nat) set \<Rightarrow> (nat \<times> nat) set" where
  "dependents fs R = (\<Union>f\<in>{f \<in> set fs. flags_of (ff_flags f) \<inter> R \<noteq> {}}. flags_of (ff_own_flags f))"

lemma dependents_once:
  assumes "transitive_table fs" and "f \<in> set fs" and "flags_of (ff_flags f) \<inter> (R \<union> dependents fs R) \<noteq> {}"
  shows "flags_of (ff_flags f) \<inter> R \<noteq> {}"
proof (rule ccontr)
  assume no: "\<not> ?thesis"
  then obtain g where "g \<in> set fs" "flags_of (ff_flags g) \<inter> R \<noteq> {}" "flags_of (ff_own_flags g) \<inter> flags_of (ff_flags f) \<noteq> {}"
    using assms(3) by (auto simp: dependents_def)
  then show False using assms(1,2) no unfolding transitive_table_def by blast
qed

lemma clear_deps_loop_mono: "flags_of r \<subseteq> flags_of (clear_deps_loop gs r)"
proof (induction gs arbitrary: r)
  case (Cons f gs)
  have "flags_of r \<subseteq> flags_of (if feature_match r (ff_flags f) then merge_features r (ff_own_flags f) else r)" by auto
  then show ?case unfolding clear_deps_loop.simps by (rule order.trans [OF _ Cons.IH])
qed simp

lemma clear_deps_loop_flags:
  assumes t: "transitive_table fs" and "set gs \<subseteq> set fs" and "R \<subseteq> flags_of r" and "flags_of r \<subseteq> R \<union> dependents fs R"
  shows "R \<union> dependents gs R \<subseteq> flags_of (clear_deps_loop gs r) \<and> flags_of (clear_deps_loop gs r) \<subseteq> R \<union> dependents fs R"
  using assms(2-)
proof (induction gs arbitrary: r)
  case Nil
  then show ?case by (simp add: dependents_def)
next
  case (Cons f gs)
  let ?r = "if feature_match r (ff_flags f) then merge_features r (ff_own_flags f) else r"
  have f: "f \<in> set fs" "set gs \<subseteq> set fs" using Cons.prems(1) by simp_all
  have "flags_of (ff_own_flags f) \<subseteq> dependents fs R" if "feature_match r (ff_flags f)"
  proof -
    have "flags_of (ff_flags f) \<inter> (R \<union> dependents fs R) \<noteq> {}" using that Cons.prems(3) unfolding match_iff by blast
    then have "flags_of (ff_flags f) \<inter> R \<noteq> {}" by (rule dependents_once [OF t f(1)])
    then show ?thesis using f(1) by (auto simp: dependents_def)
  qed
  then have r: "R \<subseteq> flags_of ?r" "flags_of ?r \<subseteq> R \<union> dependents fs R" using Cons.prems(2,3) by auto
  have own: "flags_of (ff_own_flags f) \<subseteq> flags_of (clear_deps_loop gs ?r)" if "flags_of (ff_flags f) \<inter> R \<noteq> {}"
  proof -
    have "feature_match r (ff_flags f)" using that Cons.prems(2) unfolding match_iff by blast
    then show ?thesis using clear_deps_loop_mono [of ?r gs] by auto
  qed
  have "dependents (f # gs) R \<subseteq> (if flags_of (ff_flags f) \<inter> R \<noteq> {} then flags_of (ff_own_flags f) else {}) \<union> dependents gs R" by (auto simp: dependents_def)
  then show ?case using Cons.IH [OF f(2) r] own by (auto split: if_splits)
qed


lemma bits_of_flag: "{i. bit (2 ^ k :: u32) i} = (if k < 32 then {k} else {})"
  by (auto simp: bit_exp_iff)

lemma bits_none: "{i. bit (0 :: u32) i} = {}"
  by simp

lemmas flag_defs = OCFS2_FEATURE_INCOMPAT_LOCAL_MOUNT_def OCFS2_FEATURE_INCOMPAT_SPARSE_ALLOC_def OCFS2_FEATURE_INCOMPAT_EXTENDED_SLOT_MAP_def OCFS2_FEATURE_INCOMPAT_XATTR_def
  OCFS2_FEATURE_INCOMPAT_INLINE_DATA_def OCFS2_FEATURE_INCOMPAT_META_ECC_def OCFS2_FEATURE_COMPAT_BACKUP_SB_def OCFS2_FEATURE_COMPAT_JBD2_SB_def OCFS2_FEATURE_RO_COMPAT_UNWRITTEN_def

lemma flag_bits:
  "{i. bit OCFS2_FEATURE_INCOMPAT_LOCAL_MOUNT i} = {3}" "{i. bit OCFS2_FEATURE_INCOMPAT_SPARSE_ALLOC i} = {4}" "{i. bit OCFS2_FEATURE_INCOMPAT_EXTENDED_SLOT_MAP i} = {8}"
  "{i. bit OCFS2_FEATURE_INCOMPAT_XATTR i} = {9}" "{i. bit OCFS2_FEATURE_INCOMPAT_INLINE_DATA i} = {6}" "{i. bit OCFS2_FEATURE_INCOMPAT_META_ECC i} = {11}"
  "{i. bit OCFS2_FEATURE_COMPAT_BACKUP_SB i} = {0}" "{i. bit OCFS2_FEATURE_COMPAT_JBD2_SB i} = {1}" "{i. bit OCFS2_FEATURE_RO_COMPAT_UNWRITTEN i} = {0}"
  using bits_of_flag [of 3] bits_of_flag [of 4] bits_of_flag [of 8] bits_of_flag [of 9] bits_of_flag [of 6] bits_of_flag [of 11] bits_of_flag [of 0] bits_of_flag [of 1]
  by (simp_all add: flag_defs)

lemma supported_flags:
  "map (\<lambda>f. (flags_of (ff_own_flags f), flags_of (ff_flags f))) ocfs2_supported_features =
    [({(1, 3)}, {(1, 3)}), ({(1, 4)}, {(1, 4)}), ({(0, 0)}, {(0, 0)}), ({(2, 0)}, {(1, 4), (2, 0)}), ({(1, 8)}, {(1, 8)}), ({(1, 6)}, {(1, 6)}),
     ({(1, 11)}, {(1, 11)}), ({(1, 9)}, {(1, 9)})]"
  by (simp add: ocfs2_supported_features_def flags_of_def flag_bits) auto

definition supported_pairs :: "((nat \<times> nat) set \<times> (nat \<times> nat) set) set" where
  "supported_pairs = {({(1, 3)}, {(1, 3)}), ({(1, 4)}, {(1, 4)}), ({(0, 0)}, {(0, 0)}), ({(2, 0)}, {(1, 4), (2, 0)}), ({(1, 8)}, {(1, 8)}), ({(1, 6)}, {(1, 6)}),
     ({(1, 11)}, {(1, 11)}), ({(1, 9)}, {(1, 9)})}"

lemma supported_pair: "f \<in> set ocfs2_supported_features \<Longrightarrow> (flags_of (ff_own_flags f), flags_of (ff_flags f)) \<in> supported_pairs"
proof -
  assume "f \<in> set ocfs2_supported_features"
  then have "(flags_of (ff_own_flags f), flags_of (ff_flags f)) \<in> set (map (\<lambda>f. (flags_of (ff_own_flags f), flags_of (ff_flags f))) ocfs2_supported_features)" by (simp only: set_map) blast
  then show ?thesis unfolding supported_flags supported_pairs_def by simp
qed

lemma supported_transitive: "transitive_table ocfs2_supported_features"
proof -
  have "q2 \<subseteq> p2" if "(p1, p2) \<in> supported_pairs" "(q1, q2) \<in> supported_pairs" "q1 \<inter> p2 \<noteq> {}" for p1 p2 q1 q2
    using that unfolding supported_pairs_def by auto
  then show ?thesis using supported_pair unfolding transitive_table_def by blast
qed

lemma own_in_flags: "f \<in> set ocfs2_supported_features \<Longrightarrow> flags_of (ff_own_flags f) \<subseteq> flags_of (ff_flags f)"
  using supported_pair [of f] by (auto simp: supported_pairs_def)

lemma level_closed: "closed_set (flags_of (feature_level_defaults level))"
proof -
  have S: "flags_of (feature_level_defaults level) =
      (case level of OCFS2_FEATURE_LEVEL_DEFAULT \<Rightarrow> {(0, 0), (0, 1), (1, 4), (1, 6), (2, 0)} | OCFS2_FEATURE_LEVEL_MAX_COMPAT \<Rightarrow> {(0, 0), (0, 1)}
       | OCFS2_FEATURE_LEVEL_MAX_FEATURES \<Rightarrow> {(0, 0), (0, 1), (1, 4), (1, 8), (1, 6), (1, 11), (1, 9), (2, 0)})"
    by (cases level) (auto simp: flags_of_def bit_or_iff flag_bits [unfolded set_eq_iff mem_Collect_eq])
  have "p2 \<subseteq> flags_of (feature_level_defaults level)" if "(p1, p2) \<in> supported_pairs" "p1 \<inter> flags_of (feature_level_defaults level) \<noteq> {}" for p1 p2
    using that unfolding supported_pairs_def S by (cases level) auto
  then show ?thesis using supported_pair unfolding closed_set_def by blast
qed

lemma clear_deps_flags: "flags_of (ocfs2_feature_clear_deps r) = flags_of r \<union> dependents ocfs2_supported_features (flags_of r)"
  using clear_deps_loop_flags [OF supported_transitive order.refl order.refl, of r] by (auto simp: ocfs2_feature_clear_deps_def)


text \<open>What is cleared is closed in the other direction: with a feature everything that depends on it.\<close>

lemma cleared_dependents:
  assumes "f \<in> set ocfs2_supported_features" and "flags_of (ff_flags f) \<inter> flags_of (ocfs2_feature_clear_deps r) \<noteq> {}"
  shows "flags_of (ff_own_flags f) \<subseteq> flags_of (ocfs2_feature_clear_deps r)"
proof -
  have "flags_of (ff_flags f) \<inter> flags_of r \<noteq> {}" using dependents_once [OF supported_transitive assms(1)] assms(2) unfolding clear_deps_flags by blast
  then show ?thesis using assms(1) unfolding clear_deps_flags by (auto simp: dependents_def)
qed

lemma clear_deps_again: "flags_of (ocfs2_feature_clear_deps (ocfs2_feature_clear_deps r)) = flags_of (ocfs2_feature_clear_deps r)"
  using cleared_dependents unfolding clear_deps_flags [of "ocfs2_feature_clear_deps r"] by (auto simp: dependents_def)

text \<open>What parsing collects: everything the named features depend on, and the features to clear.\<close>

fun tokens :: "string \<Rightarrow> string list" where
  "tokens opts = (if opts = [] then [] else let token = takeWhile (\<lambda>c. c \<noteq> CHR '','') opts in token # tokens (drop (Suc (length token)) opts))"

declare tokens.simps [simp del]

definition wanted :: "string \<Rightarrow> (nat \<times> nat) set" where
  "wanted opts = (\<Union>f\<in>{f \<in> set ocfs2_supported_features. \<exists>t\<in>set (tokens opts). take 2 t \<noteq> ''no'' \<and> t = ff_str f}. flags_of (ff_flags f))"

definition unwanted :: "string \<Rightarrow> (nat \<times> nat) set" where
  "unwanted opts = (\<Union>f\<in>{f \<in> set ocfs2_supported_features. \<exists>t\<in>set (tokens opts). take 2 t = ''no'' \<and> drop 2 t = ff_str f}. flags_of (ff_own_flags f))"

lemma names_distinct: "distinct (map ff_str ocfs2_supported_features)"
  by (simp add: ocfs2_supported_features_def)

lemma found_name:
  assumes "find (\<lambda>f. ff_str f = t) ocfs2_supported_features = Some f"
  shows "{g \<in> set ocfs2_supported_features. t = ff_str g} = {f}"
proof -
  have f: "f \<in> set ocfs2_supported_features" "ff_str f = t" using assms unfolding find_Some_iff by auto
  have "inj_on ff_str (set ocfs2_supported_features)" using names_distinct by (simp add: distinct_map)
  then have "g = f" if "g \<in> set ocfs2_supported_features" "t = ff_str g" for g using f that by (metis inj_onD)
  then show ?thesis using f by blast
qed

lemma parse_loop_flags:
  "parse_loop opts s r = Inr (s', r') \<Longrightarrow> flags_of s' = flags_of s \<union> wanted opts \<and> flags_of r' = flags_of r \<union> unwanted opts"
proof (induction opts s r rule: parse_loop.induct)
  case (1 opts s r)
  show ?case
  proof (cases "opts = []")
    case True
    then show ?thesis using 1(3) by (subst (asm) parse_loop.simps) (simp add: wanted_def unwanted_def tokens.simps)
  next
    case False
    define t where "t = takeWhile (\<lambda>c. c \<noteq> CHR '','') opts"
    define rest where "rest = drop (Suc (length t)) opts"
    have tok: "tokens opts = t # tokens rest" using False by (subst tokens.simps) (simp add: t_def rest_def Let_def)
    let ?no = "take 2 t = ''no''"
    have un: "parse_loop opts s r = (case find (\<lambda>f. ff_str f = (if ?no then drop 2 t else t)) ocfs2_supported_features of None \<Rightarrow> Inl OCFS2_ET_UNSUPP_FEATURE
        | Some f \<Rightarrow> if ?no then parse_loop rest s (merge_features r (ff_own_flags f)) else parse_loop rest (merge_features s (ff_flags f)) r)"
      unfolding t_def rest_def using False by (subst parse_loop.simps) (simp only: Let_def if_False)
    then obtain f where f: "find (\<lambda>f. ff_str f = (if ?no then drop 2 t else t)) ocfs2_supported_features = Some f" using 1(3) by (auto split: option.splits)
    note one = found_name [OF f]
    have w: "wanted opts = (if ?no then {} else flags_of (ff_flags f)) \<union> wanted rest" "unwanted opts = (if ?no then flags_of (ff_own_flags f) else {}) \<union> unwanted rest"
      using one unfolding wanted_def unwanted_def tok by (auto split: if_splits)
    show ?thesis
    proof (cases ?no)
      case True
      then have "parse_loop rest s (merge_features r (ff_own_flags f)) = Inr (s', r')" using un f 1(3) by simp
      then have "flags_of s' = flags_of s \<union> wanted rest \<and> flags_of r' = flags_of (merge_features r (ff_own_flags f)) \<union> unwanted rest"
        using 1(1) [OF False refl refl refl refl] f True unfolding t_def [symmetric] rest_def [symmetric] by simp
      then show ?thesis using w True by auto
    next
      case no: False
      then have "parse_loop rest (merge_features s (ff_flags f)) r = Inr (s', r')" using un f 1(3) by simp
      then have "flags_of s' = flags_of (merge_features s (ff_flags f)) \<union> wanted rest \<and> flags_of r' = flags_of r \<union> unwanted rest"
        using 1(2) [OF False refl refl refl refl] f no unfolding t_def [symmetric] rest_def [symmetric] by simp
      then show ?thesis using w no by auto
    qed
  qed
qed

lemma wanted_closed: "closed_set (wanted opts)"
proof -
  have "flags_of (ff_flags g) \<subseteq> wanted opts" if "g \<in> set ocfs2_supported_features" "flags_of (ff_own_flags g) \<inter> wanted opts \<noteq> {}" for g
    using that supported_transitive unfolding wanted_def transitive_table_def by blast
  then show ?thesis by (simp add: closed_set_def)
qed


lemma closed_union: "closed_set A \<Longrightarrow> closed_set B \<Longrightarrow> closed_set (A \<union> B)"
  unfolding closed_set_def by blast

text \<open>
  C14.  A string of features that is accepted: the features for the filesystem are those of the level and the ones that were asked for with all they depend on, less those that were
  declined with all that depend on them.  Merging cannot fail then, everything that was asked for is there, nothing that was declined is, and with every
  feature all that it depends on is there.
\<close>

theorem merged_features_have_dependencies:
  assumes "ocfs2_parse_feature opts = Inr (fset, rset)"
  shows "\<exists>dest. ocfs2_merge_feature_flags_with_level level fset rset = Inr dest \<and>
    flags_of dest = (flags_of (feature_level_defaults level) \<union> wanted opts) - (unwanted opts \<union> dependents ocfs2_supported_features (unwanted opts)) \<and>
    wanted opts \<subseteq> flags_of dest \<and> closed_set (flags_of dest)"
proof -
  obtain r where r: "parse_loop opts no_features no_features = Inr (fset, r)" "rset = ocfs2_feature_clear_deps r" "check_feature_flags fset rset"
    using assms by (auto simp: ocfs2_parse_feature_def Let_def split: sum.splits prod.splits if_splits)
  have flags: "flags_of fset = wanted opts" "flags_of r = unwanted opts" using parse_loop_flags [OF r(1)] by simp_all
  let ?R = "flags_of rset" and ?L = "flags_of (feature_level_defaults level)"
  have R: "?R = unwanted opts \<union> dependents ocfs2_supported_features (unwanted opts)" using r(2) flags by (simp add: clear_deps_flags)
  have again: "flags_of (ocfs2_feature_clear_deps rset) = ?R" using r(2) clear_deps_again by simp
  have disj: "wanted opts \<inter> ?R = {}" using r(3) flags unfolding check_iff by simp
  then have check: "check_feature_flags fset (ocfs2_feature_clear_deps rset)" unfolding check_iff again using flags by simp
  obtain dest where dest: "ocfs2_merge_feature_flags_with_level level fset rset = Inr dest" "flags_of dest = (?L \<union> wanted opts) - ?R"
    using check again flags flags_without [of "merge_features (feature_level_defaults level) fset" "ocfs2_feature_clear_deps rset"]
    by (simp add: ocfs2_merge_feature_flags_with_level_def Let_def)
  have "closed_set (?L \<union> wanted opts)" by (rule closed_union [OF level_closed wanted_closed])
  moreover have "flags_of (ff_flags f) \<inter> ?R = {}" if "f \<in> set ocfs2_supported_features" "flags_of (ff_own_flags f) \<inter> flags_of dest \<noteq> {}" for f
    using cleared_dependents [OF that(1), of r] that(2) unfolding r(2) [symmetric] dest(2) by blast
  ultimately have "closed_set (flags_of dest)" unfolding closed_set_def dest(2) by blast
  then show ?thesis using dest disj R by blast
qed

lemma sample_parse: "ocfs2_parse_feature ''nosparse,xattr'' = Inr (incompat OCFS2_FEATURE_INCOMPAT_XATTR,
    \<lparr>opt_compat = 0, opt_incompat = OCFS2_FEATURE_INCOMPAT_SPARSE_ALLOC, opt_ro_compat = OCFS2_FEATURE_RO_COMPAT_UNWRITTEN\<rparr>)"
  by (simp add: ocfs2_parse_feature_def parse_loop.simps ocfs2_supported_features_def merge_features_def no_features_def ocfs2_feature_clear_deps_def feature_match_def
      check_feature_flags_def flag_defs)

theorem merged_features_have_dependencies_witness:
  "\<exists>dest. ocfs2_merge_feature_flags_with_level OCFS2_FEATURE_LEVEL_DEFAULT (incompat OCFS2_FEATURE_INCOMPAT_XATTR)
      \<lparr>opt_compat = 0, opt_incompat = OCFS2_FEATURE_INCOMPAT_SPARSE_ALLOC, opt_ro_compat = OCFS2_FEATURE_RO_COMPAT_UNWRITTEN\<rparr> = Inr dest \<and>
    wanted ''nosparse,xattr'' \<subseteq> flags_of dest \<and> closed_set (flags_of dest)"
  using merged_features_have_dependencies [OF sample_parse, of OCFS2_FEATURE_LEVEL_DEFAULT] by blast

section \<open>The order of features\<close>

text \<open>
  The function that compares features for \<open>qsort\<close> is not an order: for sparse files, the backup superblock and unwritten extents the first two and the last two are
  equal, but the first and the last are not; and a feature is less than itself.  A merge sort that compares
  neighbours leaves sparse files before unwritten extents when features are cleared, although the latter depend on the former.
\<close>

lemma comparison_is_no_order:
  "compare_feature_backward 1 2 = 0" "compare_feature_backward 2 3 = 0" "compare_feature_backward 1 3 = 1" "compare_feature_forward 1 1 = - 1"
  by (simp_all add: compare_feature_backward_def compare_feature_forward_def ocfs2_supported_features_def feature_match_def flag_defs Let_def)

fun merge_by :: "(nat \<Rightarrow> nat \<Rightarrow> int) \<Rightarrow> nat list \<Rightarrow> nat list \<Rightarrow> nat list" where
  "merge_by cmp [] ys = ys"
| "merge_by cmp xs [] = xs"
| "merge_by cmp (x # xs) (y # ys) = (if cmp x y \<le> 0 then x # merge_by cmp xs (y # ys) else y # merge_by cmp (x # xs) ys)"

fun merge_sort_by :: "(nat \<Rightarrow> nat \<Rightarrow> int) \<Rightarrow> nat list \<Rightarrow> nat list" where
  "merge_sort_by cmp xs = (let n = length xs div 2 in if length xs \<le> 1 then xs else merge_by cmp (merge_sort_by cmp (take n xs)) (merge_sort_by cmp (drop n xs)))"

declare merge_sort_by.simps [simp del]

lemma clearing_in_wrong_order:
  "feature_foreach merge_sort_by True
     \<lparr>opt_compat = OCFS2_FEATURE_COMPAT_BACKUP_SB, opt_incompat = OCFS2_FEATURE_INCOMPAT_SPARSE_ALLOC, opt_ro_compat = OCFS2_FEATURE_RO_COMPAT_UNWRITTEN\<rparr> (\<lambda>f s. (False, s @ [f])) [] =
   [incompat OCFS2_FEATURE_INCOMPAT_SPARSE_ALLOC, compat OCFS2_FEATURE_COMPAT_BACKUP_SB, ro_compat OCFS2_FEATURE_RO_COMPAT_UNWRITTEN]"
proof -
  have upt: "[0..<length ocfs2_supported_features] = [0, 1, 2, 3, 4, 5, 6, 7]" by (simp add: ocfs2_supported_features_def upt_rec)
  have idx: "filter (\<lambda>i. feature_match \<lparr>opt_compat = OCFS2_FEATURE_COMPAT_BACKUP_SB, opt_incompat = OCFS2_FEATURE_INCOMPAT_SPARSE_ALLOC, opt_ro_compat = OCFS2_FEATURE_RO_COMPAT_UNWRITTEN\<rparr>
      (ff_own_flags (ocfs2_supported_features ! i))) [0..<length ocfs2_supported_features] = [1, 2, 3]"
    unfolding upt by (simp add: ocfs2_supported_features_def feature_match_def flag_defs)
  have "merge_sort_by compare_feature_backward [1, 2, 3] = [1, 2, 3]" by (simp add: merge_sort_by.simps comparison_is_no_order [simplified])
  then show ?thesis unfolding feature_foreach_def idx by (simp add: ocfs2_supported_features_def)
qed

section \<open>Printing\<close>

text \<open>The names are separated by spaces; when the buffer has room for them and a zero byte, all are printed.\<close>

lemma print_names_fit:
  assumes "\<forall>w\<in>set ws. w \<noteq> []" and "length (if out = [] then drop 1 (concat (map ((#) (CHR '' '')) ws)) else concat (map ((#) (CHR '' '')) ws)) < remain"
  shows "print_names ws out remain = (None, out @ (if out = [] then drop 1 (concat (map ((#) (CHR '' '')) ws)) else concat (map ((#) (CHR '' '')) ws)))"
  using assms
proof (induction ws arbitrary: out remain)
  case (Cons w ws)
  let ?s = "if out = [] then w else CHR '' '' # w"
  have fit: "print_word out remain w = (None, out @ ?s, remain - length ?s)" using Cons.prems by (auto simp: print_word_def Let_def)
  have "out @ ?s \<noteq> []" using Cons.prems by simp
  then have "print_names ws (out @ ?s) (remain - length ?s) = (None, (out @ ?s) @ concat (map ((#) (CHR '' '')) ws))"
    using Cons.IH [of "out @ ?s" "remain - length ?s"] Cons.prems by auto
  then show ?case using fit Cons.prems by simp
qed simp

end
