(* ===== verification/Fsck_Extent.thy ===== *)
theory Fsck_Extent
  imports Extent_Insert Fsck_Util Features
begin

text \<open>
  \<open>fsck.ocfs2/extent.c\<close>: the check of the extent tree of an inode.  The lists of the tree are corrected with the consent of the user, records that point
  outside of the volume are removed, and the clusters of the leaves are marked as used in the table of \<^verbatim>\<open>Fsck_Util\<close>.

  The blocks are read and written with the functions of \<^verbatim>\<open>Extent\<close>.  The answers to the questions are a function of the number of the question and its code.
\<close>

section \<open>The model\<close>

datatype ext_prompt = PR_EB_BLKNO | PR_EB_GEN | PR_EB_GEN_FIX | PR_EXTENT_EB_INVALID | PR_EXTENT_MARKED_UNWRITTEN | PR_EXTENT_BLKNO_UNALIGNED |
  PR_EXTENT_CLUSTERS_OVERRUN | PR_EXTENT_LIST_DEPTH | PR_EXTENT_LIST_COUNT | PR_EXTENT_LIST_FREE | PR_EXTENT_BLKNO_RANGE

record ext_env =
  answer :: "nat \<Rightarrow> ext_prompt \<Rightarrow> bool"
  ost_fs_generation :: u32
  writes_unwritten_extents :: bool

text \<open>The filesystem, the table of clusters, the number of questions so far, and the fields of \<open>struct extent_info\<close>.\<close>

record 'm ext_state =
  x_fs :: "'m filesys"
  x_ost :: cluster_state
  x_asked :: nat
  ei_max_size :: nat
  ei_clusters :: nat
  ei_expected_depth :: u16
  ei_expect_depth :: bool

text \<open>A question that is asked under a condition.\<close>

definition prompt_if :: "bool \<Rightarrow> ext_env \<Rightarrow> ext_prompt \<Rightarrow> 'm ext_state \<Rightarrow> bool \<times> 'm ext_state" where
  "prompt_if c env p st = (if c then (answer env (x_asked st) p, st\<lparr>x_asked := Suc (x_asked st)\<rparr>) else (False, st))"

definition OCFS2_EXT_UNWRITTEN :: byte where "OCFS2_EXT_UNWRITTEN = 1"

definition set_flags :: "extent_rec \<Rightarrow> byte \<Rightarrow> extent_rec" where
  "set_flags rec f = rec\<lparr>e_int_clusters := (e_int_clusters rec AND mask 24) OR push_bit 24 (ucast f)\<rparr>"

definition ocfs2_set_rec_clusters :: "u16 \<Rightarrow> extent_rec \<Rightarrow> u32 \<Rightarrow> extent_rec" where
  "ocfs2_set_rec_clusters tree_depth rec clusters =
     (if tree_depth \<noteq> 0 then rec\<lparr>e_int_clusters := clusters\<rparr> else set_leaf_clusters rec (ucast clusters))"

text \<open>Sizes of the lists: the records start at byte 208 of an inode and at byte 64 of an extent block.\<close>

definition ocfs2_extent_recs_per_inode :: "nat \<Rightarrow> nat" where
  "ocfs2_extent_recs_per_inode blocksize = (blocksize - 208) div 16"

definition ocfs2_extent_recs_per_eb :: "nat \<Rightarrow> nat" where
  "ocfs2_extent_recs_per_eb blocksize = (blocksize - 64) div 16"

text \<open>
  \<open>check_eb\<close>, \<open>check_er\<close> and \<open>check_el\<close> call each other.  The latter two have the former as an argument \<open>eb\<close>: it takes the state and the number of a block, and
  says whether the block is valid.
\<close>

type_synonym 'm eb_check = "'m ext_state \<Rightarrow> nat \<Rightarrow> (bool \<times> 'm ext_state) option"

text \<open>A record of a leaf.  Clearing the flag of an unwritten extent does not note that the list was changed.\<close>

definition check_leaf_er :: "ext_env \<Rightarrow> 'm ext_state \<Rightarrow> extent_rec \<Rightarrow> bool \<Rightarrow> extent_rec \<times> bool \<times> 'm ext_state" where
  "check_leaf_er env st er changed =
     (let clusters = ocfs2_rec_clusters 0 er; fs = x_fs st;
          (yes, st) = prompt_if (\<not> writes_unwritten_extents env \<and> e_flags er AND OCFS2_EXT_UNWRITTEN \<noteq> 0) env PR_EXTENT_MARKED_UNWRITTEN st;
          er = (if yes then set_flags er (e_flags er AND NOT OCFS2_EXT_UNWRITTEN) else er);
          first_block = ocfs2_clusters_to_blocks fs (ocfs2_blocks_to_clusters fs (e_blkno er));
          (yes, st) = prompt_if (first_block \<noteq> e_blkno er) env PR_EXTENT_BLKNO_UNALIGNED st;
          (er, changed) = (if yes then (er\<lparr>e_blkno := first_block\<rparr>, True) else (er, changed));
          last_cluster = ocfs2_blocks_to_clusters fs (e_blkno er) + clusters;
          vol = of_nat (fs_clusters (x_ost st));
          (yes, st) = prompt_if (last_cluster > vol) env PR_EXTENT_CLUSTERS_OVERRUN st;
          (er, changed) = (if yes then (ocfs2_set_rec_clusters 0 er (clusters - (last_cluster - vol)), True) else (er, changed))
      in (er, changed, st))"

definition check_er :: "'m eb_check \<Rightarrow> ext_env \<Rightarrow> 'm ext_state \<Rightarrow> u16 \<Rightarrow> extent_rec \<Rightarrow> bool \<Rightarrow> (extent_rec \<times> bool \<times> 'm ext_state) option" where
  "check_er eb env st depth er changed =
     (if ocfs2_block_out_of_range (x_fs st) (e_blkno er) then Some (er, changed, st)
      else if depth \<noteq> 0 then
        do { (is_valid, st) \<leftarrow> eb (st\<lparr>ei_expect_depth := True, ei_expected_depth := depth - 1\<rparr>) (e_blkno er);
             let (yes, st) = prompt_if (\<not> is_valid) env PR_EXTENT_EB_INVALID st;
             Some (if yes then (er\<lparr>e_blkno := 0\<rparr>, True, st) else (er, changed, st)) }
      else Some (check_leaf_er env st er changed))"

text \<open>
  The loop of \<open>check_el\<close> with \<open>n\<close> records left from index \<open>i\<close> on.  After a record was removed the next one has its index.  The number of clusters that is marked was read
  before the record was checked.  The last line of the loop computes the size in 32 bits.
\<close>

definition account_leaf :: "'m ext_state \<Rightarrow> extent_rec \<Rightarrow> u32 \<Rightarrow> 'm ext_state option" where
  "account_leaf st er clusters =
     do { ost \<leftarrow> o2fsck_mark_clusters_allocated (x_ost st) (unat (ocfs2_blocks_to_clusters (x_fs st) (e_blkno er))) (unat clusters);
          let max_size = unat (push_bit (s_clustersize_bits (x_fs st)) (e_cpos er + clusters));
          Some (st\<lparr>x_ost := ost, ei_clusters := add64 (ei_clusters st) (unat clusters), ei_max_size := max (ei_max_size st) max_size\<rparr>) }"

text \<open>
  A record is removed by copying the \<open>n\<close> records after it with \<open>memcpy\<close> one place down.  When there are two or more, source and destination overlap, which is undefined.
\<close>

definition remove_rec :: "extent_list \<Rightarrow> nat \<Rightarrow> nat \<Rightarrow> extent_list option" where
  "remove_rec el i n =
     (if n = 0 then Some el
      else if n > 1 then None
      else do { recs \<leftarrow> move_recs (l_recs el) i (Suc i) n; put_rec (el\<lparr>l_recs := recs\<rparr>) (i + n) zero_rec })"

fun el_records :: "'m eb_check \<Rightarrow> ext_env \<Rightarrow> bool \<Rightarrow> 'm ext_state \<Rightarrow> extent_list \<Rightarrow> bool \<Rightarrow> nat \<Rightarrow> nat \<Rightarrow> (extent_list \<times> bool \<times> 'm ext_state) option" where
  "el_records eb env trust st el changed i 0 = Some (el, changed, st)"
| "el_records eb env trust st el changed i (Suc n) =
     do { er \<leftarrow> rec_at el i;
          let clusters = ocfs2_rec_clusters (l_tree_depth el) er;
          if s_feature_incompat (x_fs st) AND OCFS2_FEATURE_INCOMPAT_SPARSE_ALLOC \<noteq> 0 \<and> l_tree_depth el \<noteq> 0 \<and> i = 0 \<and> clusters = 0
          then el_records eb env trust st el changed (Suc i) n
          else do {
            (er, changed, st) \<leftarrow> check_er eb env st (l_tree_depth el) er changed;
            el \<leftarrow> put_rec el i er;
            let (yes, st) = prompt_if (ocfs2_block_out_of_range (x_fs st) (e_blkno er)) env PR_EXTENT_BLKNO_RANGE st;
            if yes \<and> \<not> trust then el_records eb env trust st el changed (Suc i) n
            else if yes then
              do { el \<leftarrow> remove_rec el i n;
                   el_records eb env trust st (el\<lparr>l_next_free_rec := l_next_free_rec el - 1\<rparr>) True i n }
            else if l_tree_depth el \<noteq> 0 then el_records eb env trust st el changed (Suc i) n
            else do { st \<leftarrow> account_leaf st er clusters; el_records eb env trust st el changed (Suc i) n } } }"

definition check_el :: "'m eb_check \<Rightarrow> ext_env \<Rightarrow> 'm ext_state \<Rightarrow> extent_list \<Rightarrow> u16 \<Rightarrow> bool \<Rightarrow> (extent_list \<times> bool \<times> 'm ext_state) option" where
  "check_el eb env st el max_recs changed =
     (let (yes, st) = prompt_if (ei_expect_depth st \<and> l_tree_depth el \<noteq> ei_expected_depth st) env PR_EXTENT_LIST_DEPTH st;
          (el, changed) = (if yes then (el\<lparr>l_tree_depth := ei_expected_depth st\<rparr>, True) else (el, changed));
          (yes, st) = prompt_if (l_count el > max_recs) env PR_EXTENT_LIST_COUNT st;
          (el, changed) = (if yes then (el\<lparr>l_count := max_recs\<rparr>, True) else (el, changed));
          max_recs = min max_recs (l_count el);
          bad = (l_next_free_rec el > max_recs);
          (yes, st) = prompt_if bad env PR_EXTENT_LIST_FREE st;
          (el, changed) = (if yes then (el\<lparr>l_next_free_rec := l_count el\<rparr>, True) else (el, changed));
          trust = (\<not> bad \<or> yes);
          max_recs = (if trust then l_next_free_rec el else max_recs)
      in el_records eb env trust st el changed 0 (unat max_recs))"

text \<open>
  \<open>check_eb\<close>, where the recursion is unfolded to \<open>k\<close> levels and \<open>deeper\<close> stands for the call below them.  In the check of an inode a recursion that
  goes deeper is \<open>None\<close>.
\<close>

definition check_eb_fields :: "ext_env \<Rightarrow> 'm ext_state \<Rightarrow> nat \<Rightarrow> extent_block \<Rightarrow> bool \<times> extent_block \<times> bool \<times> 'm ext_state" where
  "check_eb_fields env st blkno eb =
     (let (yes, st) = prompt_if (h_blkno eb \<noteq> blkno) env PR_EB_BLKNO st;
          (eb, changed) = (if yes then (eb\<lparr>h_blkno := blkno\<rparr>, True) else (eb, False));
          wrong = (h_fs_generation eb \<noteq> ost_fs_generation env);
          (invalid, st) = prompt_if wrong env PR_EB_GEN st;
          (yes, st) = prompt_if (wrong \<and> \<not> invalid) env PR_EB_GEN_FIX st;
          (eb, changed) = (if yes then (eb\<lparr>h_fs_generation := ost_fs_generation env\<rparr>, True) else (eb, changed))
      in (\<not> invalid, eb, changed, st))"

fun check_eb :: "'m eb_check \<Rightarrow> nat \<Rightarrow> ext_env \<Rightarrow> 'm eb_check" where
  "check_eb deeper 0 env st blkno = deeper st blkno"
| "check_eb deeper (Suc k) env st blkno =
     do { r \<leftarrow> ocfs2_read_extent_block_nocheck (x_fs st) blkno;
          case r of
            Inl e \<Rightarrow> Some (e \<noteq> OCFS2_ET_BAD_EXTENT_BLOCK_MAGIC, st)
          | Inr eb \<Rightarrow>
              (case check_eb_fields env st blkno eb of (valid, eb, changed, st) \<Rightarrow>
                 if \<not> valid then Some (False, st)
                 else do {
                   (el, changed, st) \<leftarrow> check_el (check_eb deeper k env) env st (h_list eb) (of_nat (ocfs2_extent_recs_per_eb (fs_blocksize (x_fs st)))) changed;
                   if \<not> changed then Some (True, st)
                   else do { (_, fs) \<leftarrow> ocfs2_write_extent_block (x_fs st) blkno (eb\<lparr>h_list := el\<rparr>); Some (True, st\<lparr>x_fs := fs\<rparr>) } }) }"

text \<open>The check of an inode: its list, and whether it is to be written.\<close>

definition check_extents_to :: "'m eb_check \<Rightarrow> nat \<Rightarrow> ext_env \<Rightarrow> 'm ext_state \<Rightarrow> ext_dinode \<Rightarrow> (ext_dinode \<times> bool \<times> 'm ext_state) option" where
  "check_extents_to deeper k env st di =
     do { (el, changed, st) \<leftarrow> check_el (check_eb deeper k env) env (st\<lparr>ei_max_size := 0, ei_clusters := 0, ei_expected_depth := 0, ei_expect_depth := False\<rparr>)
            (i_list di) (of_nat (ocfs2_extent_recs_per_inode (fs_blocksize (x_fs st)))) False;
          Some (di\<lparr>i_list := el\<rparr>, changed, st) }"

definition o2fsck_check_extents :: "nat \<Rightarrow> ext_env \<Rightarrow> 'm ext_state \<Rightarrow> ext_dinode \<Rightarrow> (ext_dinode \<times> bool \<times> 'm ext_state) option" where
  "o2fsck_check_extents = check_extents_to (\<lambda>_ _. None)"

section \<open>The recursion is bounded\<close>

definition all_yes :: "ext_env \<Rightarrow> bool" where
  "all_yes env \<longleftrightarrow> (\<forall>n p. answer env n p)"

lemma prompt_yes: "all_yes env \<Longrightarrow> prompt_if c env p st = (c, if c then st\<lparr>x_asked := Suc (x_asked st)\<rparr> else st)"
  by (simp add: prompt_if_def all_yes_def)

lemma prompt_asked: "all_yes env \<Longrightarrow> \<exists>n. prompt_if c env p st = (c, st\<lparr>x_asked := n\<rparr>)"
  by (cases st) (auto simp: prompt_yes)

lemma prompt_keeps [simp]:
  "x_fs (snd (prompt_if c env p st)) = x_fs st" "x_ost (snd (prompt_if c env p st)) = x_ost st"
  "ei_expect_depth (snd (prompt_if c env p st)) = ei_expect_depth st" "ei_expected_depth (snd (prompt_if c env p st)) = ei_expected_depth st"
  by (simp_all add: prompt_if_def)

text \<open>Blocks below a list of depth \<open>d\<close> are checked with the depth that they should have.\<close>

definition agree_below :: "u16 \<Rightarrow> 'm eb_check \<Rightarrow> 'm eb_check \<Rightarrow> bool" where
  "agree_below d eb eb' \<longleftrightarrow> d = 0 \<or> (\<forall>st b. ei_expect_depth st \<and> ei_expected_depth st = d - 1 \<longrightarrow> eb st b = eb' st b)"

lemma check_er_cong: "agree_below d eb eb' \<Longrightarrow> check_er eb env st d er ch = check_er eb' env st d er ch"
  by (auto simp: check_er_def agree_below_def)

lemma put_rec_frame: "put_rec el i er = Some el' \<Longrightarrow> l_tree_depth el' = l_tree_depth el \<and> l_next_free_rec el' = l_next_free_rec el \<and> l_count el' = l_count el"
  by (auto simp: put_rec_def split: if_splits)

lemma remove_rec_frame: "remove_rec el i n = Some el' \<Longrightarrow> l_tree_depth el' = l_tree_depth el \<and> l_next_free_rec el' = l_next_free_rec el \<and> l_count el' = l_count el"
  by (auto simp: remove_rec_def Option.bind_eq_Some_conv dest: put_rec_frame split: if_splits)

lemma el_records_cong:
  "agree_below (l_tree_depth el) eb eb' \<Longrightarrow> el_records eb env trust st el ch i n = el_records eb' env trust st el ch i n"
proof (induction n arbitrary: st el ch i trust)
  case (Suc n)
  have er: "check_er eb env st' (l_tree_depth el) r c = check_er eb' env st' (l_tree_depth el) r c" for st' r c by (rule check_er_cong [OF Suc.prems])
  have "el_records eb env t st' el' c j n = el_records eb' env t st' el' c j n" if "l_tree_depth el' = l_tree_depth el" for st' el' c j t
    using Suc.IH Suc.prems that by simp
  note IH = this
  have leaf: "check_er eb env st' 0 r c = check_er eb' env st' 0 r c" for st' r c by (simp add: check_er_def)
  show ?case
    by (auto simp: er leaf Let_def case_prod_beta IH dest!: put_rec_frame remove_rec_frame intro!: Option.bind_cong)
qed simp

definition el_depth :: "'m ext_state \<Rightarrow> extent_list \<Rightarrow> u16" where
  "el_depth st el = (if ei_expect_depth st then ei_expected_depth st else l_tree_depth el)"

lemma check_el_cong:
  assumes "all_yes env" and "agree_below (el_depth st el) eb eb'"
  shows "check_el eb env st el m ch = check_el eb' env st el m ch"
proof -
  have "el_records eb env t st' el' c i n = el_records eb' env t st' el' c i n" if "l_tree_depth el' = el_depth st el" for t st' el' c i n
    using el_records_cong [of el' eb eb'] assms(2) that by simp
  note cong = this
  show ?thesis unfolding check_el_def Let_def case_prod_beta prompt_yes [OF assms(1)]
    by (intro cong) (simp add: el_depth_def)
qed

lemma check_eb_fields_depth [simp]:
  "ei_expect_depth (snd (snd (snd (check_eb_fields env st b eb)))) = ei_expect_depth st"
  "ei_expected_depth (snd (snd (snd (check_eb_fields env st b eb)))) = ei_expected_depth st"
  by (simp_all add: check_eb_fields_def Let_def case_prod_beta)

lemma check_eb_bounded:
  assumes "all_yes env" and "unat (ei_expected_depth st) < k" and "ei_expect_depth st"
  shows "check_eb deeper k env st b = check_eb deeper' k env st b"
  using assms(2,3)
proof (induction k arbitrary: st b)
  case (Suc k)
  have below: "check_el (check_eb deeper k env) env st' el m ch = check_el (check_eb deeper' k env) env st' el m ch"
    if "ei_expect_depth st'" "ei_expected_depth st' = ei_expected_depth st" for st' el m ch
  proof (rule check_el_cong [OF assms(1)])
    have "unat (d - 1) < k" if "d = ei_expected_depth st" "d \<noteq> 0" for d
      using Suc.prems(1) that unat_minus_one [OF that(2)] unat_gt_0 [of d] by simp
    then show "agree_below (el_depth st' el) (check_eb deeper k env) (check_eb deeper' k env)"
      using Suc.IH that by (auto simp: agree_below_def el_depth_def)
  qed
  show ?case using Suc.prems(2) below
    by (auto simp: case_prod_beta split: sum.split intro!: Option.bind_cong)
qed simp

text \<open>
  C11.  When all questions are answered with yes, the check of an inode ends whatever is on the disk, trees with cycles included: no block is looked at below
  the depth that the list in the inode has.
\<close>

theorem check_extents_bounded:
  assumes "all_yes env" and "unat (l_tree_depth (i_list di)) \<le> k"
  shows "check_extents_to deeper k env st di = o2fsck_check_extents k env st di"
proof -
  let ?st = "st\<lparr>ei_max_size := 0, ei_clusters := 0, ei_expected_depth := 0, ei_expect_depth := False\<rparr>" and ?d = "l_tree_depth (i_list di)"
  have "unat (?d - 1) < k" if "?d \<noteq> 0" using assms(2) unat_minus_one [OF that] that unat_gt_0 [of ?d] by simp
  then have "check_eb deeper k env st' b = check_eb (\<lambda>_ _. None) k env st' b" if "?d \<noteq> 0" "ei_expect_depth st'" "ei_expected_depth st' = ?d - 1" for st' b
    using check_eb_bounded [OF assms(1) _ that(2), of k] that by metis
  then have "agree_below (el_depth ?st (i_list di)) (check_eb deeper k env) (check_eb (\<lambda>_ _. None) k env)"
    unfolding agree_below_def el_depth_def by simp blast
  note cong = check_el_cong [OF assms(1) this]
  show ?thesis unfolding o2fsck_check_extents_def check_extents_to_def cong ..
qed


definition yes_env :: ext_env where
  "yes_env = \<lparr>answer = (\<lambda>_ _. True), ost_fs_generation = 7, writes_unwritten_extents = True\<rparr>"

definition sample_ext_state :: "unit ext_state" where
  "sample_ext_state = \<lparr>x_fs = sample_ext_fs, x_ost = sample_clusters, x_asked = 0, ei_max_size = 0, ei_clusters = 0, ei_expected_depth = 0, ei_expect_depth = False\<rparr>"

theorem check_extents_bounded_witness:
  "check_extents_to (\<lambda>st _. Some (True, st)) 1 yes_env sample_ext_state sample_inode = o2fsck_check_extents 1 yes_env sample_ext_state sample_inode"
  by (rule check_extents_bounded) (simp_all add: all_yes_def yes_env_def sample_inode_def)

section \<open>The records of a leaf\<close>

definition fix_rec :: "ext_env \<Rightarrow> 'm filesys \<Rightarrow> extent_rec \<Rightarrow> extent_rec" where
  "fix_rec env fs r =
     (if \<not> writes_unwritten_extents env \<and> e_flags r AND OCFS2_EXT_UNWRITTEN \<noteq> 0 then set_flags r (e_flags r AND NOT OCFS2_EXT_UNWRITTEN) else r)
     \<lparr>e_blkno := ocfs2_clusters_to_blocks fs (ocfs2_blocks_to_clusters fs (e_blkno r))\<rparr>"

definition clusters_end :: "'m filesys \<Rightarrow> extent_rec \<Rightarrow> nat" where
  "clusters_end fs r = unat (ocfs2_blocks_to_clusters fs (e_blkno r)) + unat (e_leaf_clusters r)"

text \<open>
  The records that the check leaves, on a volume of \<open>vol\<close> clusters, or \<open>None\<close> where it has no result: when a record that points outside of the volume, as it is or at the start of its
  cluster, is followed by two or more (the overlapping copy), and when a record runs over the end of the volume (the program ends when the clusters are marked).
\<close>

fun leaf_scan :: "ext_env \<Rightarrow> 'm filesys \<Rightarrow> nat \<Rightarrow> extent_rec list \<Rightarrow> extent_rec list option" where
  "leaf_scan env fs vol [] = Some []"
| "leaf_scan env fs vol (r # rs) =
     (if ocfs2_block_out_of_range fs (e_blkno r) \<or> ocfs2_block_out_of_range fs (e_blkno (fix_rec env fs r))
      then if length rs > 1 then None else leaf_scan env fs vol rs
      else if clusters_end fs r > vol then None
      else map_option (Cons (fix_rec env fs r)) (leaf_scan env fs vol rs))"

definition clusters_of :: "'m filesys \<Rightarrow> extent_rec \<Rightarrow> nat set" where
  "clusters_of fs r = {unat (ocfs2_blocks_to_clusters fs (e_blkno r))..<unat (ocfs2_blocks_to_clusters fs (e_blkno r)) + unat (e_leaf_clusters r)}"

lemma set_flags_fields [simp]:
  "e_cpos (set_flags r f) = e_cpos r" "e_blkno (set_flags r f) = e_blkno r" "e_leaf_clusters (set_flags r f) = e_leaf_clusters r" "e_flags (set_flags r f) = f"
proof -
  show "e_leaf_clusters (set_flags r f) = e_leaf_clusters r" by (rule bit_word_eqI) (auto simp: e_leaf_clusters_def set_flags_def bit_simps)
  show "e_flags (set_flags r f) = f" by (rule bit_word_eqI) (auto simp: e_flags_def set_flags_def bit_simps dest: bit_imp_le_length)
qed (simp_all add: set_flags_def)

lemma leaf_clusters_blkno [simp]: "e_leaf_clusters (r\<lparr>e_blkno := b\<rparr>) = e_leaf_clusters r" "e_flags (r\<lparr>e_blkno := b\<rparr>) = e_flags r"
  by (simp_all add: e_leaf_clusters_def e_flags_def)

lemma to_clusters_of_blocks:
  assumes "s_clustersize_bits fs - s_blocksize_bits fs < 31"
  shows "ocfs2_blocks_to_clusters fs (ocfs2_clusters_to_blocks fs c) = c"
  using clusters_to_blocks_small [OF refl assms, of c] unsigned_less [of c, where ?'a = nat] by (simp add: ocfs2_blocks_to_clusters_def Let_def)

lemma fix_rec_fields:
  assumes "s_clustersize_bits fs - s_blocksize_bits fs < 31"
  shows "e_leaf_clusters (fix_rec env fs r) = e_leaf_clusters r" "ocfs2_blocks_to_clusters fs (e_blkno (fix_rec env fs r)) = ocfs2_blocks_to_clusters fs (e_blkno r)"
  by (simp_all add: fix_rec_def to_clusters_of_blocks [OF assms])

lemma mark_clusters_ok:
  assumes "clusters_ok ost" and "c + n \<le> fs_clusters ost"
  shows "\<exists>ost'. o2fsck_mark_clusters_allocated ost c n = Some ost' \<and> clusters_ok ost' \<and> fs_clusters ost' = fs_clusters ost \<and> allocated ost' = allocated ost \<union> {c..<c + n}"
  using assms
proof (induction n arbitrary: ost c)
  case (Suc n)
  obtain o1 where o1: "o2fsck_mark_cluster_allocated ost c = Some o1" "clusters_ok o1" "fs_clusters o1 = fs_clusters ost" "allocated o1 = insert c (allocated ost)"
    using mark_cluster_ok [OF Suc.prems(1), of c] Suc.prems(2) by auto
  have "(c + 1) mod 2 ^ 32 = Suc c" using Suc.prems by (simp add: clusters_ok_def INT_MAX_def)
  moreover obtain o2 where "o2fsck_mark_clusters_allocated o1 (Suc c) n = Some o2" "clusters_ok o2" "fs_clusters o2 = fs_clusters o1" "allocated o2 = allocated o1 \<union> {Suc c..<Suc c + n}"
    using Suc.IH [of o1 "Suc c"] o1 Suc.prems(2) by auto
  moreover have "insert c {Suc c..<Suc c + n} = {c..<c + Suc n}" by auto
  ultimately show ?case using o1 by auto
qed simp

lemma check_leaf_er_ok:
  assumes yes: "all_yes env" and k: "s_clustersize_bits (x_fs st) - s_blocksize_bits (x_fs st) < 31"
    and r: "unat (ocfs2_blocks_to_clusters (x_fs st) (e_blkno r)) + unat (e_leaf_clusters r) \<le> fs_clusters (x_ost st)" and T: "fs_clusters (x_ost st) < 2 ^ 32"
  shows "\<exists>ch' n. check_leaf_er env st r ch = (fix_rec env (x_fs st) r, ch', st\<lparr>x_asked := n\<rparr>)"
proof -
  let ?c = "ocfs2_blocks_to_clusters (x_fs st) (e_blkno r)" and ?n = "ucast (e_leaf_clusters r) :: u32" and ?T = "of_nat (fs_clusters (x_ost st)) :: u32"
  have "unat (?c + ?n) = unat ?c + unat (e_leaf_clusters r)" using r T by (simp add: unat_word_ariths ucast_leaf)
  moreover have "unat ?T = fs_clusters (x_ost st)" using T by (simp add: unat_of_nat take_bit_nat_eq_self)
  ultimately have le: "\<not> ?c + ?n > ?T" using r by (simp add: word_less_nat_alt)
  have same: "\<exists>n. st = st\<lparr>x_asked := n\<rparr>" by (rule exI [of _ "x_asked st"]) simp
  show ?thesis using le same
    by (auto simp: check_leaf_er_def Let_def prompt_yes [OF yes] fix_rec_def ocfs2_rec_clusters_def to_clusters_of_blocks [OF k])
qed


text \<open>Removing the record at index \<open>i\<close>.\<close>

lemma removed:
  assumes "i + Suc n \<le> length (l_recs el)" and "n \<le> 1"
  shows "\<exists>el'. remove_rec el i n = Some el' \<and>
    l_tree_depth el' = l_tree_depth el \<and> l_count el' = l_count el \<and> l_next_free_rec el' = l_next_free_rec el \<and> length (l_recs el') = length (l_recs el) \<and>
    take i (l_recs el') = take i (l_recs el) \<and> take n (drop i (l_recs el')) = take n (drop (Suc i) (l_recs el))"
proof (cases "n = 0")
  case False
  let ?recs = "take i (l_recs el) @ take n (drop (Suc i) (l_recs el)) @ drop (i + n) (l_recs el)"
  have len: "length ?recs = length (l_recs el)" "length (take i (l_recs el)) = i" "length (take n (drop (Suc i) (l_recs el))) = n" using assms by simp_all
  have "move_recs (l_recs el) i (Suc i) n = Some ?recs" using assms by (simp add: move_recs_def)
  moreover have "put_rec (el\<lparr>l_recs := ?recs\<rparr>) (i + n) zero_rec = Some (el\<lparr>l_recs := ?recs[i + n := zero_rec]\<rparr>)" using len(1) assms by (simp add: put_rec_def)
  moreover have "take i (?recs[i + n := zero_rec]) = take i (l_recs el)" "take n (drop i (?recs[i + n := zero_rec])) = take n (drop (Suc i) (l_recs el))"
    using len(2,3) by (simp_all add: list_update_append)
  ultimately show ?thesis using False len(1) assms(2) by (simp add: remove_rec_def)
qed (simp add: remove_rec_def)

lemma next_free_dec: "unat (w :: u16) = Suc n \<Longrightarrow> unat (w - 1) = n"
  by (metis diff_Suc_1 unat_minus_one unat_0 nat.distinct(1))

text \<open>
  A record that runs over the end of the volume: the number of clusters that is marked is the one from before the record was cut, and marking a cluster beyond the end
  ends the program.
\<close>

lemma mark_beyond:
  assumes "clusters_ok ost" and "c \<le> fs_clusters ost" and "fs_clusters ost < c + n"
  shows "o2fsck_mark_clusters_allocated ost c n = None"
  using assms
proof (induction n arbitrary: ost c)
  case (Suc n)
  show ?case
  proof (cases "c = fs_clusters ost")
    case True
    then have "o2fsck_mark_cluster_allocated ost c = None" using Suc.prems(1)
      by (simp add: o2fsck_mark_cluster_allocated_def o2fsck_bitmap_set_def ocfs2_bitmap_set_def clusters_ok_def)
    then show ?thesis by simp
  next
    case False
    then obtain o1 where o1: "o2fsck_mark_cluster_allocated ost c = Some o1" "clusters_ok o1" "fs_clusters o1 = fs_clusters ost"
      using mark_cluster_ok [OF Suc.prems(1), of c] Suc.prems(2) by auto
    have "(c + 1) mod 2 ^ 32 = Suc c" using Suc.prems False by (simp add: clusters_ok_def INT_MAX_def)
    then show ?thesis using Suc.IH [of o1 "Suc c"] o1 Suc.prems False by simp
  qed
qed simp

text \<open>The size of the volume in blocks, as \<open>ocfs2_open\<close> computes it.\<close>

definition volume_ok :: "'m ext_state \<Rightarrow> bool" where
  "volume_ok st \<longleftrightarrow> clusters_ok (x_ost st) \<and> s_clustersize_bits (x_fs st) - s_blocksize_bits (x_fs st) < 31 \<and>
     fs_blocks (x_fs st) = fs_clusters (x_ost st) * 2 ^ (s_clustersize_bits (x_fs st) - s_blocksize_bits (x_fs st))"

lemma in_range_cluster:
  assumes "volume_ok st" and "\<not> ocfs2_block_out_of_range (x_fs st) b"
  shows "unat (ocfs2_blocks_to_clusters (x_fs st) b) \<le> fs_clusters (x_ost st)"
proof -
  let ?k = "s_clustersize_bits (x_fs st) - s_blocksize_bits (x_fs st)"
  have "b \<le> fs_clusters (x_ost st) * 2 ^ ?k" using assms by (simp add: volume_ok_def ocfs2_block_out_of_range_def)
  then have "b div 2 ^ ?k \<le> fs_clusters (x_ost st)" by (metis div_le_mono nonzero_mult_div_cancel_right power_not_zero zero_neq_numeral)
  moreover have "fs_clusters (x_ost st) < 2 ^ 32" using assms(1) by (auto simp: volume_ok_def clusters_ok_def INT_MAX_def)
  ultimately show ?thesis by (simp add: ocfs2_blocks_to_clusters_def Let_def unat_of_nat take_bit_nat_eq_self)
qed

text \<open>What the check of a record leaves of its place, whether or not it is cut.\<close>

lemma check_leaf_er_place:
  assumes yes: "all_yes env" and k: "s_clustersize_bits (x_fs st) - s_blocksize_bits (x_fs st) < 31"
  shows "\<exists>er c m. check_leaf_er env st r ch = (er, c, st\<lparr>x_asked := m\<rparr>) \<and> e_blkno er = e_blkno (fix_rec env (x_fs st) r)"
proof -
  have same: "\<exists>n. st = st\<lparr>x_asked := n\<rparr>" by (rule exI [of _ "x_asked st"]) simp
  then show ?thesis
    by (auto simp: check_leaf_er_def Let_def prompt_yes [OF yes] fix_rec_def ocfs2_rec_clusters_def to_clusters_of_blocks [OF k] ocfs2_set_rec_clusters_def)
qed

text \<open>What the loop does to the records that are left.\<close>

definition leaf_done :: "'m ext_state \<Rightarrow> extent_list \<Rightarrow> extent_rec list \<Rightarrow> extent_list \<times> bool \<times> 'm ext_state \<Rightarrow> bool" where
  "leaf_done st el rs res \<longleftrightarrow> (case res of (el', _, st') \<Rightarrow>
     l_tree_depth el' = 0 \<and> l_count el' = l_count el \<and> length (l_recs el') = length (l_recs el) \<and>
     used_recs el' = rs \<and> unat (l_next_free_rec el') = length rs \<and> x_fs st' = x_fs st \<and> clusters_ok (x_ost st') \<and> fs_clusters (x_ost st') = fs_clusters (x_ost st))"

definition leaf_marks :: "'m ext_state \<Rightarrow> extent_rec list \<Rightarrow> extent_list \<times> bool \<times> 'm ext_state \<Rightarrow> bool" where
  "leaf_marks st rs res \<longleftrightarrow> allocated (x_ost (snd (snd res))) = allocated (x_ost st) \<union> (\<Union>r\<in>set rs. clusters_of (x_fs st) r)"

lemma el_leaf_loop:
  assumes yes: "all_yes env"
    and "volume_ok st" and "l_tree_depth el = 0" and "take n (drop i (l_recs el)) = rs" and "i + n \<le> length (l_recs el)" and "unat (l_next_free_rec el) = i + n"
  shows "case leaf_scan env (x_fs st) (fs_clusters (x_ost st)) rs of
      None \<Rightarrow> el_records eb env True st el ch i n = None
    | Some ks \<Rightarrow> \<exists>res. el_records eb env True st el ch i n = Some res \<and> leaf_done st el (take i (l_recs el) @ ks) res \<and> leaf_marks st ks res"
  using assms(2-)
proof (induction n arbitrary: st el ch i rs)
  case 0
  then show ?case by (auto simp: leaf_done_def leaf_marks_def used_recs_def volume_ok_def)
next
  case (Suc n)
  define r where "r = l_recs el ! i"
  define rs' where "rs' = take n (drop (Suc i) (l_recs el))"
  let ?fs = "x_fs st" and ?vol = "fs_clusters (x_ost st)" and ?out = "\<lambda>r. ocfs2_block_out_of_range (x_fs st) (e_blkno r)" and ?r = "fix_rec env (x_fs st) r"
  have len: "i < length (l_recs el)" "i + Suc n \<le> length (l_recs el)" using Suc.prems by simp_all
  have rs: "rs = r # rs'" "length rs' = n" using Suc.prems(3) len by (simp_all add: r_def rs'_def Cons_nth_drop_Suc [symmetric])
  have at: "rec_at el i = Some r" using len by (simp add: rec_at_def r_def)
  have k: "s_clustersize_bits ?fs - s_blocksize_bits ?fs < 31" and ok: "clusters_ok (x_ost st)" using Suc.prems(1) by (simp_all add: volume_ok_def)
  let ?el = "\<lambda>r1. el\<lparr>l_recs := (l_recs el)[i := r1]\<rparr>"
  have put: "put_rec el i r1 = Some (?el r1)" for r1 using len by (simp add: put_rec_def)
  have remove: "case (if n > 1 then None else leaf_scan env ?fs ?vol rs') of
      None \<Rightarrow> (do { el \<leftarrow> remove_rec (?el r1) i n; el_records eb env True st1 (el\<lparr>l_next_free_rec := l_next_free_rec el - 1\<rparr>) True i n }) = None
    | Some ks \<Rightarrow> \<exists>res. (do { el \<leftarrow> remove_rec (?el r1) i n; el_records eb env True st1 (el\<lparr>l_next_free_rec := l_next_free_rec el - 1\<rparr>) True i n }) = Some res \<and>
        leaf_done st el (take i (l_recs el) @ ks) res \<and> leaf_marks st ks res"
    if st1: "x_fs st1 = ?fs" "x_ost st1 = x_ost st" for r1 st1
  proof (cases "n > 1")
    case True
    then show ?thesis by (simp add: remove_rec_def)
  next
    case False
    obtain el2 where el2: "remove_rec (?el r1) i n = Some el2"
      "l_tree_depth el2 = 0" "l_count el2 = l_count el" "l_next_free_rec el2 = l_next_free_rec el" "length (l_recs el2) = length (l_recs el)"
      "take i (l_recs el2) = take i (l_recs el)" "take n (drop i (l_recs el2)) = rs'"
      using removed [of i n "?el r1"] len False Suc.prems(2) by (auto simp: rs'_def)
    have "unat (l_next_free_rec el2 - 1) = i + n" using next_free_dec [of "l_next_free_rec el2" "i + n"] el2(4) Suc.prems(5) by simp
    then show ?thesis
      using Suc.IH [of st1 "el2\<lparr>l_next_free_rec := l_next_free_rec el2 - 1\<rparr>" i rs' True] el2 Suc.prems st1 False
      by (auto simp: leaf_done_def leaf_marks_def volume_ok_def split: option.splits)
  qed
  show ?case
  proof (cases "?out r \<or> ?out ?r")
    case out: True
    then have scan: "leaf_scan env ?fs ?vol rs = (if n > 1 then None else leaf_scan env ?fs ?vol rs')" by (simp add: rs)
    show ?thesis
    proof (cases "?out r")
      case True
      then have step: "el_records eb env True st el ch i (Suc n) =
          (do { el \<leftarrow> remove_rec (?el r) i n; el_records eb env True (st\<lparr>x_asked := Suc (x_asked st)\<rparr>) (el\<lparr>l_next_free_rec := l_next_free_rec el - 1\<rparr>) True i n })"
        using at put Suc.prems(2) by (simp add: check_er_def prompt_yes [OF yes])
      show ?thesis unfolding scan step by (rule remove) simp_all
    next
      case False
      obtain er c m where er: "check_leaf_er env st r ch = (er, c, st\<lparr>x_asked := m\<rparr>)" "e_blkno er = e_blkno ?r" using check_leaf_er_place [OF yes k] by blast
      have step: "el_records eb env True st el ch i (Suc n) =
          (do { el \<leftarrow> remove_rec (?el er) i n; el_records eb env True (st\<lparr>x_asked := Suc m\<rparr>) (el\<lparr>l_next_free_rec := l_next_free_rec el - 1\<rparr>) True i n })"
        using False out er at put Suc.prems(2) by (simp add: check_er_def prompt_yes [OF yes])
      show ?thesis unfolding scan step by (rule remove) simp_all
    qed
  next
    case False
    note fr = fix_rec_fields [OF k, of env r]
    let ?c = "unat (ocfs2_blocks_to_clusters ?fs (e_blkno r))"
    have c: "?c \<le> ?vol" using in_range_cluster [OF Suc.prems(1)] False by blast
    show ?thesis
    proof (cases "clusters_end ?fs r > ?vol")
      case True
      obtain er c' m where er: "check_leaf_er env st r ch = (er, c', st\<lparr>x_asked := m\<rparr>)" "e_blkno er = e_blkno ?r" using check_leaf_er_place [OF yes k] by blast
      have "account_leaf (st\<lparr>x_asked := m\<rparr>) er (ocfs2_rec_clusters 0 r) = None"
        using mark_beyond [OF ok c] True er(2) fr by (simp add: account_leaf_def ocfs2_rec_clusters_def ucast_leaf clusters_end_def)
      then show ?thesis using True False er at put Suc.prems(2) by (simp add: rs check_er_def prompt_if_def)
    next
      case fits: False
      then have vol: "?c + unat (e_leaf_clusters r) \<le> ?vol" by (simp add: clusters_end_def)
      have "?vol < 2 ^ 32" using ok by (auto simp: clusters_ok_def INT_MAX_def)
      then obtain c' m where er: "check_leaf_er env st r ch = (?r, c', st\<lparr>x_asked := m\<rparr>)" using check_leaf_er_ok [OF yes k vol] by blast
      obtain ost where ost: "o2fsck_mark_clusters_allocated (x_ost st) ?c (unat (e_leaf_clusters r)) = Some ost" "clusters_ok ost" "fs_clusters ost = ?vol"
        "allocated ost = allocated (x_ost st) \<union> clusters_of ?fs ?r" using mark_clusters_ok [OF ok vol] fr by (auto simp: clusters_of_def)
      obtain st2 where st2: "account_leaf (st\<lparr>x_asked := m\<rparr>) ?r (ocfs2_rec_clusters 0 r) = Some st2" "x_fs st2 = ?fs" "x_ost st2 = ost"
        using ost(1) fr by (simp add: account_leaf_def ocfs2_rec_clusters_def ucast_leaf Let_def)
      have before: "take (Suc i) (l_recs (?el ?r)) = take i (l_recs el) @ [?r]" using len by (simp add: take_Suc_conv_app_nth)
      have step: "el_records eb env True st el ch i (Suc n) = el_records eb env True st2 (?el ?r) c' (Suc i) n"
        using False er at put st2(1) Suc.prems(2) by (simp add: check_er_def prompt_if_def)
      have "volume_ok st2" using Suc.prems(1) st2 ost by (simp add: volume_ok_def)
      from Suc.IH [OF this, of "?el ?r" "Suc i" rs' c'] Suc.prems len before st2 ost False fits show ?thesis unfolding step
        by (auto simp: rs rs'_def leaf_done_def leaf_marks_def split: option.splits)
    qed
  qed
qed

lemma leaf_scan_sound:
  assumes k: "s_clustersize_bits fs - s_blocksize_bits fs < 31"
  shows "leaf_scan env fs vol rs = Some ks \<Longrightarrow> length ks \<le> length rs \<and> (\<forall>q\<in>set ks. \<not> ocfs2_block_out_of_range fs (e_blkno q) \<and>
    ocfs2_clusters_to_blocks fs (ocfs2_blocks_to_clusters fs (e_blkno q)) = e_blkno q \<and>
    clusters_of fs q \<subseteq> {..<vol} \<and> (writes_unwritten_extents env \<or> e_flags q AND OCFS2_EXT_UNWRITTEN = 0))"
proof (induction rs arbitrary: ks)
  case (Cons r rs)
  note fr = fix_rec_fields [OF k, of env r]
  have "(e_flags r AND NOT OCFS2_EXT_UNWRITTEN) AND OCFS2_EXT_UNWRITTEN = 0" by (simp add: OCFS2_EXT_UNWRITTEN_def and.assoc)
  then have flags: "writes_unwritten_extents env \<or> e_flags (fix_rec env fs r) AND OCFS2_EXT_UNWRITTEN = 0" by (simp add: fix_rec_def)
  have aligned: "ocfs2_clusters_to_blocks fs (ocfs2_blocks_to_clusters fs (e_blkno (fix_rec env fs r))) = e_blkno (fix_rec env fs r)"
    unfolding fr by (simp add: fix_rec_def)
  have "clusters_of fs (fix_rec env fs r) \<subseteq> {..<vol}" if "\<not> vol < clusters_end fs r" using that unfolding clusters_of_def fr by (auto simp: clusters_end_def)
  note within = this
  show ?case
  proof (cases "ocfs2_block_out_of_range fs (e_blkno r) \<or> ocfs2_block_out_of_range fs (e_blkno (fix_rec env fs r))")
    case True
    then have "leaf_scan env fs vol rs = Some ks" using Cons.prems by (simp split: if_splits)
    from Cons.IH [OF this] show ?thesis by (simp add: le_SucI)
  next
    case False
    then obtain z where "\<not> vol < clusters_end fs r" "leaf_scan env fs vol rs = Some z" "ks = fix_rec env fs r # z" using Cons.prems by (auto split: if_splits)
    then show ?thesis using Cons.IH flags aligned within False by simp
  qed
qed simp

text \<open>The list after the questions about its head, with the number of records that are looked at.\<close>

lemma check_el_leaf:
  assumes "all_yes env" and "el_depth st el = 0"
  shows "\<exists>c n. check_el eb env st el max_recs ch = el_records eb env True (st\<lparr>x_asked := n\<rparr>)
    (el\<lparr>l_tree_depth := 0, l_count := min (l_count el) max_recs, l_next_free_rec := min (l_next_free_rec el) (min (l_count el) max_recs)\<rparr>) c 0
    (unat (min (l_next_free_rec el) (min (l_count el) max_recs)))"
proof -
  let ?c1 = "ei_expect_depth st \<and> l_tree_depth el \<noteq> ei_expected_depth st" and ?el1 = "el\<lparr>l_tree_depth := 0\<rparr>"
  let ?el2 = "?el1\<lparr>l_count := min (l_count el) max_recs\<rparr>" and ?el3 = "el\<lparr>l_tree_depth := 0, l_count := min (l_count el) max_recs, l_next_free_rec := min (l_next_free_rec el) (min (l_count el) max_recs)\<rparr>"
  have "l_tree_depth el = 0 \<and> \<not> ?c1 \<or> ?c1 \<and> ei_expected_depth st = 0" using assms(2) by (auto simp: el_depth_def split: if_splits)
  moreover obtain n1 where n1: "prompt_if ?c1 env PR_EXTENT_LIST_DEPTH st = (?c1, st\<lparr>x_asked := n1\<rparr>)" using prompt_asked [OF assms(1)] by blast
  ultimately have s1: "(if ?c1 then (el\<lparr>l_tree_depth := ei_expected_depth (st\<lparr>x_asked := n1\<rparr>)\<rparr>, True) else (el, ch)) = (?el1, ?c1 \<or> ch)" by (cases el) auto
  have asked: "\<exists>n. prompt_if c env p (st\<lparr>x_asked := j\<rparr>) = (c, st\<lparr>x_asked := n\<rparr>)" for c p j using prompt_asked [OF assms(1), of c p "st\<lparr>x_asked := j\<rparr>"] by auto
  obtain n2 where n2: "prompt_if (max_recs < l_count ?el1) env PR_EXTENT_LIST_COUNT (st\<lparr>x_asked := n1\<rparr>) = (max_recs < l_count ?el1, st\<lparr>x_asked := n2\<rparr>)" using asked by blast
  have s2: "(if max_recs < l_count ?el1 then (?el1\<lparr>l_count := max_recs\<rparr>, True) else (?el1, c)) = (?el2, max_recs < l_count el \<or> c)" for c by (cases el) (auto simp: min_def not_less)
  let ?bad = "min max_recs (l_count ?el2) < l_next_free_rec ?el2"
  obtain n3 where n3: "prompt_if ?bad env PR_EXTENT_LIST_FREE (st\<lparr>x_asked := n2\<rparr>) = (?bad, st\<lparr>x_asked := n3\<rparr>)" using asked by blast
  have min_eq: "min max_recs (l_count ?el2) = min (l_count el) max_recs" by (simp add: min.commute)
  have s3: "(if ?bad then (?el2\<lparr>l_next_free_rec := l_count ?el2\<rparr>, True) else (?el2, c)) = (?el3, ?bad \<or> c)" for c unfolding min_eq by (cases el) (auto simp: min_def not_le)
  have "check_el eb env st el max_recs ch = el_records eb env (\<not> ?bad \<or> ?bad) (st\<lparr>x_asked := n3\<rparr>) ?el3 (?bad \<or> max_recs < l_count el \<or> ?c1 \<or> ch) 0
      (unat (if \<not> ?bad \<or> ?bad then l_next_free_rec ?el3 else min max_recs (l_count ?el2)))"
    unfolding check_el_def Let_def n1 prod.case s1 n2 s2 n3 s3 ..
  also have "(\<not> ?bad \<or> ?bad) = True" by blast
  finally show ?thesis by (intro exI) simp
qed

text \<open>
  C7.  The check of the list of a leaf, whatever the list holds, all questions answered with yes.  The records in use, at most as many as the block has room for, are looked at in
  order.  A record that points outside of the volume is removed; this includes the empty record that the list of a sparse file may start with, though a comment in the code says that
  it is skipped.  A record that points into a cluster is moved to the start of the cluster, and its unwritten flag is cleared where that is not supported.  The check has no
  result in exactly two cases: a record is removed that is followed by two or more (they are copied down with \<open>memcpy\<close>, though source and destination overlap), or a record runs over the end of
  the volume (it is cut, but the clusters that it had before are marked, which ends the program).  Otherwise the list then has the right depth and counts within the block; its
  records are the ones that were not removed, in order; they lie within the volume; and exactly their clusters were marked as used.  The volume has as many blocks as its clusters have.
\<close>

theorem leaf_check_repairs:
  assumes yes: "all_yes env" and vol: "volume_ok st" and d: "el_depth st el = 0" and m: "unat max_recs \<le> length (l_recs el)"
  shows "case leaf_scan env (x_fs st) (fs_clusters (x_ost st)) (take (unat (min (l_next_free_rec el) (min (l_count el) max_recs))) (l_recs el)) of
      None \<Rightarrow> check_el eb env st el max_recs ch = None
    | Some rs \<Rightarrow> \<exists>el' ch' st'. check_el eb env st el max_recs ch = Some (el', ch', st') \<and>
        l_tree_depth el' = 0 \<and> l_count el' = min (l_count el) max_recs \<and> l_next_free_rec el' \<le> l_count el' \<and> used_recs el' = rs \<and>
        (\<forall>r\<in>set rs. \<not> ocfs2_block_out_of_range (x_fs st) (e_blkno r) \<and>
          ocfs2_clusters_to_blocks (x_fs st) (ocfs2_blocks_to_clusters (x_fs st) (e_blkno r)) = e_blkno r \<and>
          clusters_of (x_fs st) r \<subseteq> {..<fs_clusters (x_ost st)} \<and> (writes_unwritten_extents env \<or> e_flags r AND OCFS2_EXT_UNWRITTEN = 0)) \<and>
        allocated (x_ost st') = allocated (x_ost st) \<union> (\<Union>r\<in>set rs. clusters_of (x_fs st) r)"
proof -
  define count where "count = min (l_count el) max_recs"
  define nxt where "nxt = min (l_next_free_rec el) count"
  let ?el = "el\<lparr>l_tree_depth := 0, l_count := count, l_next_free_rec := nxt\<rparr>" and ?rs = "take (unat nxt) (l_recs el)"
  have le: "unat nxt \<le> unat max_recs" "unat nxt \<le> unat count" by (simp_all add: nxt_def count_def min_def word_le_nat_alt word_less_nat_alt)
  obtain c n where eq: "check_el eb env st el max_recs ch = el_records eb env True (st\<lparr>x_asked := n\<rparr>) ?el c 0 (unat nxt)"
    using check_el_leaf [OF yes d] unfolding nxt_def count_def by blast
  have k: "s_clustersize_bits (x_fs st) - s_blocksize_bits (x_fs st) < 31" using vol by (simp add: volume_ok_def)
  have loop: "case leaf_scan env (x_fs st) (fs_clusters (x_ost st)) ?rs of
      None \<Rightarrow> check_el eb env st el max_recs ch = None
    | Some ks \<Rightarrow> \<exists>res. check_el eb env st el max_recs ch = Some res \<and> leaf_done st ?el ks res \<and> leaf_marks st ks res"
    using el_leaf_loop [OF yes, of "st\<lparr>x_asked := n\<rparr>" ?el "unat nxt" 0 ?rs eb c] vol le(1) m unfolding eq
    by (simp add: volume_ok_def leaf_done_def leaf_marks_def split: option.splits)
  show ?thesis
  proof (cases "leaf_scan env (x_fs st) (fs_clusters (x_ost st)) ?rs")
    case None
    then show ?thesis using loop by (simp add: nxt_def count_def)
  next
    case (Some ks)
    note sound = leaf_scan_sound [OF k Some]
    obtain el' c' st' where r: "check_el eb env st el max_recs ch = Some (el', c', st')" "leaf_done st ?el ks (el', c', st')" "leaf_marks st ks (el', c', st')"
      using loop Some by auto
    have "length ks \<le> unat count" using sound le(2) by simp
    then have "l_next_free_rec el' \<le> l_count el'" using r(2) by (simp add: leaf_done_def word_le_nat_alt)
    then show ?thesis using Some sound r by (simp add: leaf_done_def leaf_marks_def nxt_def count_def)
  qed
qed

text \<open>
  A volume of four clusters of one block each, and a list that claims 9 records, 8 of them in use, in a block with room for 2, the second of which points outside of the volume.
\<close>

definition small_volume :: "unit ext_state" where
  "small_volume = sample_ext_state\<lparr>x_fs := sample_ext_fs\<lparr>fs_blocks := 4\<rparr>\<rparr>"

definition damaged_list :: extent_list where
  "damaged_list = \<lparr>l_tree_depth = 0, l_count = 9, l_next_free_rec = 8, l_reserved1 = 0, l_reserved2 = 0,
     l_recs = [\<lparr>e_cpos = 0, e_int_clusters = 2, e_blkno = 2\<rparr>, \<lparr>e_cpos = 2, e_int_clusters = 1, e_blkno = 5000\<rparr>]\<rparr>"

theorem leaf_check_repairs_witness:
  "\<exists>el' ch' st'. check_el (\<lambda>_ _. None) yes_env small_volume damaged_list 2 False = Some (el', ch', st') \<and> l_count el' = 2 \<and>
    used_recs el' = [\<lparr>e_cpos = 0, e_int_clusters = 2, e_blkno = 2\<rparr>] \<and> allocated (x_ost st') = {2, 3}"
proof -
  let ?r = "\<lparr>e_cpos = 0, e_int_clusters = 2, e_blkno = 2\<rparr>" and ?bad = "\<lparr>e_cpos = 2, e_int_clusters = 1, e_blkno = 5000\<rparr>" and ?fs = "x_fs small_volume"
  have fs: "x_ost small_volume = sample_clusters" "s_clustersize_bits ?fs = 9" "s_blocksize_bits ?fs = 9" "fs_blocks ?fs = 4"
    by (simp_all add: small_volume_def sample_ext_state_def sample_ext_fs_def)
  have vol: "volume_ok small_volume" "fs_clusters sample_clusters = 4" using sample_clusters_ok by (simp_all add: volume_ok_def fs)
  have out: "\<not> ocfs2_block_out_of_range ?fs 2" "ocfs2_block_out_of_range ?fs 5000" by (simp_all add: ocfs2_block_out_of_range_def OCFS2_SUPER_BLOCK_BLKNO_def fs)
  have b2c: "ocfs2_blocks_to_clusters ?fs 2 = 2" "ocfs2_clusters_to_blocks ?fs 2 = 2" by (simp_all add: ocfs2_blocks_to_clusters_def ocfs2_clusters_to_blocks_def fs)
  have scan: "leaf_scan yes_env ?fs 4 [?r, ?bad] = Some [?r]" by (simp add: out fix_rec_def yes_env_def b2c clusters_end_def e_leaf_clusters_def)
  have clusters: "clusters_of ?fs ?r = {2, 3}" by (auto simp: clusters_of_def b2c e_leaf_clusters_def)
  have depth: "all_yes yes_env" "el_depth small_volume damaged_list = 0" by (simp_all add: all_yes_def yes_env_def el_depth_def small_volume_def sample_ext_state_def damaged_list_def)
  have none: "allocated (x_ost small_volume) = {}" using sample_clusters_ok by (simp add: fs)
  show ?thesis
    using leaf_check_repairs [OF depth(1) vol(1) depth(2), of 2 "\<lambda>_ _. None" False] scan clusters none vol(2) by (auto simp: fs damaged_list_def)
qed

section \<open>Where the check goes wrong\<close>

text \<open>Clearing the flag of an unwritten extent is not noted as a change, so the block is not written for it.\<close>

lemma unwritten_change_is_lost:
  assumes "all_yes env" and "\<not> writes_unwritten_extents env" and "e_flags r AND OCFS2_EXT_UNWRITTEN \<noteq> 0"
    and "ocfs2_clusters_to_blocks (x_fs st) (ocfs2_blocks_to_clusters (x_fs st) (e_blkno r)) = e_blkno r"
    and "\<not> ocfs2_blocks_to_clusters (x_fs st) (e_blkno r) + ucast (e_leaf_clusters r) > of_nat (fs_clusters (x_ost st))"
  shows "fst (check_leaf_er env st r False) = set_flags r (e_flags r AND NOT OCFS2_EXT_UNWRITTEN) \<and> \<not> fst (snd (check_leaf_er env st r False))"
  using assms by (simp add: check_leaf_er_def Let_def prompt_yes ocfs2_rec_clusters_def)

text \<open>The empty record that a leaf of a sparse file may start with is removed as one that points outside of the volume, if the copy has a result.\<close>

lemma empty_record_is_removed: "leaf_scan env fs vol (zero_rec # rs) = (if length rs > 1 then None else leaf_scan env fs vol rs)"
  by (simp add: zero_rec_def ocfs2_block_out_of_range_def OCFS2_SUPER_BLOCK_BLKNO_def)

text \<open>
  If the user does not let the depth of a list be corrected, the recursion has no bound: on an extent block that points to itself the check never ends.
\<close>

lemma declined_depth_never_ends:
  assumes "x_fs st = fs" and "ocfs2_read_extent_block_nocheck fs b = Some (Inr eb)" and "h_blkno eb = b" and "h_fs_generation eb = ost_fs_generation env"
    and "l_tree_depth (h_list eb) \<noteq> 0" and "l_next_free_rec (h_list eb) = 1" and "1 \<le> l_count (h_list eb)" and "l_count (h_list eb) \<le> of_nat (ocfs2_extent_recs_per_eb (fs_blocksize fs))"
    and "rec_at (h_list eb) 0 = Some r" and "e_blkno r = b" and "e_int_clusters r \<noteq> 0" and "\<not> ocfs2_block_out_of_range fs b" and "\<And>n. \<not> answer env n PR_EXTENT_LIST_DEPTH"
  shows "check_eb (\<lambda>_ _. None) k env st b = None"
  using assms(1)
proof (induction k arbitrary: st)
  case (Suc k)
  have "check_eb_fields env st b eb = (True, eb, False, st)" using assms(3,4) by (simp add: check_eb_fields_def prompt_if_def)
  moreover have "check_el (check_eb (\<lambda>_ _. None) k env) env st (h_list eb) (of_nat (ocfs2_extent_recs_per_eb (fs_blocksize fs))) False = None"
    using assms(5-) Suc by (simp add: check_el_def Let_def prompt_if_def not_less [symmetric] min_def check_er_def ocfs2_rec_clusters_def)
  ultimately show ?case using assms(2) Suc.prems by simp
qed simp


end
