(* ===== verification/Spec2Isabelle.thy ===== *)
theory Spec2Isabelle
  imports Hamming_Variants Rbtree_Props Pass4 Controld_Mount Dir_Props Io_Props Chain_Load Extent_Iterate Fsck_Extent
begin

text \<open>
  \<^bold>\<open>A verification of the core of ocfs2-tools.\<close>

  ocfs2-tools are the user-space programs of the OCFS2 cluster filesystem.  Their library \<open>libocfs2\<close> reads and changes the disk
  format; \<open>fsck.ocfs2\<close>, \<open>mkfs.ocfs2\<close>, \<open>tunefs.ocfs2\<close> and \<open>debugfs.ocfs2\<close> are built on it; \<open>ocfs2_controld\<close> is
  the daemon that keeps track of which nodes of the cluster have mounted which filesystem.  This development models the parts that carry the
  logic of the library, of passes 3 and 4 of \<open>fsck.ocfs2\<close> and of the daemon, and proves them correct, or shows where they are not.

  \<^bold>\<open>How C is modelled.\<close>  Functions are functions on values.  State that is shared through pointers is passed explicitly, as a record.
  An \<open>errcode_t\<close> is a value of \<open>errcode\<close>; a function that returns a value or an error has type \<open>'a result\<close>, the sum
  of both (\<open>Ocfs2_Prelude\<close>).  On top of that comes \<open>option\<close>: \<open>None\<close> is an execution without a defined result, that is an access
  outside of a buffer or array, through a null pointer or to freed memory, a use of a variable that was never set, a copy between overlapping places with \<open>memcpy\<close>, a signed overflow, a
  shift by too much, a failed assertion or a call of
  \<open>abort\<close>, or a loop that does not end.  A theorem that says a function is \<open>Some\<close> of something therefore says
  that it is memory safe and terminates.  Integers that can wrap are words of their width or numbers with the modulus written out.  Blocks of the disk are lists of
  bytes; the host is little-endian, so the functions that swap bytes do nothing.  Allocations of memory succeed.

  \<^bold>\<open>The parts, bottom up.\<close>

  \<^item> \<open>Bitops\<close> (\<open>libocfs2/bitops.c\<close>): bits in byte buffers; the word-wise searches are equal to searches bit by bit.
  \<^item> \<open>Hamming\<close>, \<open>Crc32\<close>, \<open>Blockcheck\<close>, \<open>Hamming_Variants\<close> (\<open>libocfs2/blockcheck.c\<close>, \<open>crc32table.h\<close>): the check record of a metadata block.  C1 to C4:
    what was computed validates, a single flipped bit is corrected, a wrong checksum is reported, the parity fits its field.  C18: the fast encoder equals the
    simple ones.
  \<^item> \<open>Rbtree\<close>, \<open>Rbtree_Props\<close>, \<open>Search_Tree\<close> (\<open>libocfs2/kernel-rbtree.c\<close>): red-black trees with parent pointers, as zippers.  C40: the invariant holds in every
    tree that can be built.  \<open>Search_Tree\<close> has the interface that the clients of the trees use, a locale.
  \<^item> \<open>Bitmap\<close>, \<open>Bitmap_Correct\<close>, \<open>Bitmap_Interface\<close>, \<open>Bitmap_Notify\<close> (\<open>libocfs2/bitmap.c\<close>): bitmaps as trees of regions, with or without holes.
    C5, C6, C9, C12: they refine sets of numbers; searching, allocating and clearing ranges; freeing.
  \<^item> \<open>Unix_Io\<close>, \<open>Io_Cache\<close>, \<open>Io_Props\<close> (\<open>libocfs2/unix_io.c\<close>): block I/O with a write-through cache in least-recently-used order.  C32 to C34: the cache cannot
    be observed; reads and writes through it.
  \<^item> \<open>Dirblock\<close>, \<open>Dir_Ops\<close>, \<open>Dir_Segments\<close>, \<open>Dir_Correct\<close>, \<open>Dir_Link\<close>, \<open>Dir_Props\<close> (\<open>libocfs2/dirblock.c\<close>, \<open>dir_iterate.c\<close>, \<open>lookup.c\<close>, \<open>link.c\<close>, \<open>unlink.c\<close>,
    \<open>expanddir.c\<close>): directories as sequences of entries in blocks.  C28 to C31: looking up, adding and removing a name.
  \<^item> \<open>Chain\<close>, \<open>Chainalloc\<close>, \<open>Chainalloc_Correct\<close>, \<open>Chain_Load\<close> (\<open>libocfs2/chain.c\<close>, \<open>chainalloc.c\<close>): group descriptors, their chains, and the allocators
    whose bitmap they hold.  C35 to C39: descriptors survive the disk; allocating and freeing; the free counts on all levels follow the bits; loading
    from the disk, and what loading does not report.
  \<^item> \<open>Extent\<close>, \<open>Extent_Map\<close>, \<open>Extent_Iterate\<close> (\<open>libocfs2/extents.c\<close>, \<open>extent_map.c\<close>, the search of \<open>extend_file.c\<close>): extent trees on the disk.  The abstract view
    of a file is the sorted list of its extents (\<open>inode_extents\<close>).  C15: mapping a cluster is a lookup in that list.  C10: the iteration visits it in order.
  \<^item> \<open>Extent_Insert\<close> (\<open>libocfs2/extend_file.c\<close>): inserting an extent into a leaf (\<open>ocfs2_insert_at_leaf\<close>: extending a record in front or behind, appending, moving records), with the meaning of a list as a map from clusters of the file to blocks of the disk. For an inode without extent blocks the insertion is complete: C27 shows the new map, C8 that \<open>ocfs2_get_clusters\<close> finds what was inserted.
  \<^item> \<open>Features\<close> (\<open>libocfs2/feature_string.c\<close>): features as sets of flags, their tables, parsing, merging and printing.  C14: what is merged has with every feature all it depends on.
  \<^item> \<open>Fsck_Util\<close>, \<open>Icount\<close>, \<open>Dirparents\<close>, \<open>Pass3\<close>, \<open>Pass4\<close> (\<open>fsck.ocfs2/util.c\<close>, \<open>icount.c\<close>, \<open>dirparents.c\<close>, \<open>pass3.c\<close>, \<open>pass4.c\<close>): the bookkeeping of the checker,
    the pass that connects directories and the pass that corrects link counts.  C13, C16, C19: duplicate blocks, link counts, parents.  C20 and C21: pass 3 terminates and
    leaves every directory connected.  C24 and C17: when pass 4 has a result, and that its second part moves unreferenced inodes to \<open>lost+found\<close> and makes the link counts on the disk
    agree with the entries.
  \<^item> \<open>Fsck_Extent\<close> (\<open>fsck.ocfs2/extent.c\<close>): the check of an extent tree.  C11: the recursion is bounded by the depth of the tree; C7: what the check makes of a leaf, and when it has no
    result.  Further lemmas show where it loses a change or does not end.
  \<^item> \<open>Dlmcontrol\<close>, \<open>Cpg\<close>, \<open>Controld_Mount\<close> (\<open>ocfs2_controld/dlmcontrol.c\<close>, \<open>cpg.c\<close>, \<open>mount.c\<close>): the daemon as a transition system of events from clients, from the cluster
    and from the lock manager.  C22: which notifications are pending and what is sent.  C23: the lists of nodes and the calls that follow from the reports of the cluster.  C25 and C26: memory safety and
    consistency of the mount groups but for three requests (\<open>hazard\<close>) that break them.

  \<^bold>\<open>Interfaces.\<close>  Locales state what one part relies on of another and are interpreted on the definitions of the model: the table of functions of a bitmap,
  which makes it a set of numbers (\<open>bitmap_bits\<close>, \<open>bitmap_table\<close> in \<open>Bitmap_Interface\<close>); accounts that follow the changed bits of a bitmap (\<open>bit_accounts\<close> in \<open>Bitmap_Notify\<close>,
  interpreted for the free counts of chain allocators); records of \<open>fsck.ocfs2\<close> in ordered trees (\<open>search_order\<close> in \<open>Search_Tree\<close>); callbacks of a directory iteration that stop at the
  first entry they look for (\<open>first_match\<close> in \<open>Dir_Correct\<close>).  What is not under \<open>src\<close> or belongs to another part of the library is an argument of the functions that call it: the
  device of \<open>Unix_Io\<close>, the prompts and the disk operations of \<open>Pass3\<close>, the cluster libraries of the daemon, the reading and writing of inodes.

  \<^bold>\<open>Termination.\<close>  Loops are structural recursions or have a measure, but for four that need not end and are partial functions: following a chain of group descriptors, which C38
  proves to end when the chains are sound; going through a directory block with a callback that may change the length of an entry, which C28 to C31 prove to end for the callbacks of the
  library; and the loops of pass 3 over all directories and of pass 4 over all inodes, which C20 and C24 prove to end.  The search for a leaf of an extent tree ends because a path has at most five blocks.  The check of extent trees is unfolded to a given number of levels; C11 shows that the depth of the tree is enough.

  \<^bold>\<open>Not modelled.\<close>  Growing, rotating and truncating extent trees, the allocators of clusters and inodes, extended attributes, journals, quotas and images; the passes of \<open>fsck.ocfs2\<close> over inodes and extents, most of whose code is prompts and calls of the library; the programs that parse commands or format and tune a filesystem; cluster configuration; the bindings of the daemon to the cluster libraries; the test programs inside the sources.  The manifest lists these parts with the reason for each.
\<close>

end
